(* ===== verification/Prelude.thy ===== *)
theory Prelude
  imports Main "HOL-Library.Word"
begin

text \<open>
  Shared vocabulary of the development: the machine types of the C sources, byte-order
  conversions and their round trips, the model of the C library's allocator, and the hint
  collections the component theories add their equations to.
\<close>

unbundle bit_operations_syntax

named_theorems get_simps \<open>equations of the reading operations on concrete shapes\<close>
named_theorems wf_intros \<open>preservation of the well-formedness invariants\<close>

section \<open>Machine types\<close>

type_synonym byte = "8 word"
type_synonym u16 = "16 word"
type_synonym u32 = "32 word"
type_synonym u64 = "64 word"

text \<open>
  Object sizes and lengths (\<open>size_t\<close>, 64 bits on the targets the app ships for) are
  natural numbers; where the source relies on wrap-around the model writes
  \<open>mod size_max1\<close>.
\<close>

abbreviation size_max1 :: nat where
  "size_max1 \<equiv> 2 ^ 64"

text \<open>
  The C library's \<open>malloc\<close> is a parameter: what it returns for a request of \<open>n\<close> bytes,
  \<open>None\<close> for \<open>NULL\<close>. Every operation that allocates takes its own allocator argument, so
  a sequence of operations may meet a different allocator behaviour at each step.
  \<open>malloc_ok\<close> is the documented behaviour: a granted request has the requested size, and no
  object exceeds \<open>PTRDIFF_MAX\<close>.
\<close>

type_synonym libc = "nat \<Rightarrow> byte list option"

definition malloc_ok :: "libc \<Rightarrow> bool" where
  "malloc_ok m \<longleftrightarrow> (\<forall>n b. m n = Some b \<longrightarrow> length b = n \<and> n < 2 ^ 63)"

lemma malloc_okD: "malloc_ok m \<Longrightarrow> m n = Some b \<Longrightarrow> length b = n \<and> n < 2 ^ 63"
  by (simp add: malloc_ok_def)

section \<open>Byte order\<close>

text \<open>The number a big-endian byte string denotes, and the \<open>n\<close> low bytes of a number.\<close>

definition be_val :: "byte list \<Rightarrow> nat" where
  "be_val bs = foldl (\<lambda>acc b. acc * 256 + unat b) 0 bs"

fun be_bytes :: "nat \<Rightarrow> nat \<Rightarrow> byte list" where
  "be_bytes 0 v = []"
| "be_bytes (Suc n) v = be_bytes n (v div 256) @ [of_nat v]"

lemma be_val_Nil [simp]: "be_val [] = 0"
  by (simp add: be_val_def)

lemma be_val_snoc [simp]: "be_val (bs @ [b]) = be_val bs * 256 + unat b"
  by (simp add: be_val_def)

lemma unat_byte_lt [simp]: "unat (b :: byte) < 256"
  using unsigned_less [of b] by simp

lemma unat_of_nat_byte [simp]: "unat (of_nat v :: byte) = v mod 256"
  by (simp add: unat_of_nat)

lemma length_be_bytes [simp]: "length (be_bytes n v) = n"
  by (induction n v rule: be_bytes.induct) auto

lemma be_val_less: "be_val bs < 256 ^ length bs"
proof (induction bs rule: rev_induct)
  case (snoc b bs)
  then have "be_val bs + 1 \<le> 256 ^ length bs" by simp
  then have "(be_val bs + 1) * 256 \<le> 256 ^ length bs * 256" by (rule mult_le_mono1)
  moreover have "unat b < 256" by simp
  ultimately have "unat b + be_val bs * 256 < 256 ^ length bs * 256"
    by (simp only: add_mult_distrib)
  then show ?case by (simp add: algebra_simps)
qed simp

lemma be_val_append: "be_val (xs @ ys) = be_val xs * 256 ^ length ys + be_val ys"
  by (induction ys rule: rev_induct) (auto simp: append_assoc [symmetric] algebra_simps
      simp del: append_assoc)

lemma be_val_Cons: "be_val (b # bs) = unat b * 256 ^ length bs + be_val bs"
  using be_val_append [of "[b]" bs] be_val_snoc [of "[]" b] by simp

lemma be_val_be_bytes: "be_val (be_bytes n v) = v mod 256 ^ n"
proof (induction n v rule: be_bytes.induct)
  case (2 n v)
  have "v mod 256 ^ Suc n = (v div 256) mod 256 ^ n * 256 + v mod 256"
    using mod_mult2_eq [of v 256 "256 ^ n"] by (simp add: mult.commute)
  with 2 show ?case by simp
qed simp

lemma be_bytes_be_val: "be_bytes (length bs) (be_val bs) = bs"
proof (induction bs rule: rev_induct)
  case (snoc b bs)
  have "(be_val bs * 256 + unat b) div 256 = be_val bs" by simp
  moreover have "of_nat (be_val bs * 256 + unat b) = b"
    by (rule word_unat_eq_iff [THEN iffD2]) (simp del: of_nat_add of_nat_mult)
  ultimately show ?case using snoc by (simp del: of_nat_add of_nat_mult)
qed simp

lemma be_bytes_mod: "be_bytes n (v mod 256 ^ n) = be_bytes n v"
  using be_bytes_be_val [of "be_bytes n v"] by (simp add: be_val_be_bytes)

lemma be_val_inj: "length xs = length ys \<Longrightarrow> be_val xs = be_val ys \<Longrightarrow> xs = ys"
  using be_bytes_be_val by metis

lemma be_bytes_1 [simp]: "be_bytes (Suc 0) v = [of_nat v]"
  by simp

section \<open>Bits of words\<close>

text \<open>
  The shift-and-or idiom that assembles an integer from smaller pieces is a multiplication
  and an addition when nothing is shifted out.
\<close>

lemma bit_imp_pow_le: "bit (y :: 'a::len word) i \<Longrightarrow> 2 ^ i \<le> unat y"
proof (rule ccontr)
  assume "bit y i" and "\<not> 2 ^ i \<le> unat y"
  then have "bit (unat y) i" and "unat y div 2 ^ i = 0"
    by (auto simp: bit_unsigned_iff dest: bit_imp_le_length)
  then show False by (simp add: bit_iff_odd)
qed

lemma word_shift_or:
  fixes x y :: "'a::len word"
  assumes y: "unat y < 2 ^ k" and room: "unat x * 2 ^ k + unat y < 2 ^ LENGTH('a)"
  shows "unat (push_bit k x OR y) = unat x * 2 ^ k + unat y"
proof -
  have "push_bit k x AND y = 0"
  proof (rule bit_eqI)
    fix n
    show "bit (push_bit k x AND y) n = bit 0 n"
    proof (cases "bit y n")
      case True
      have "(2::nat) ^ n < 2 ^ k" using bit_imp_pow_le [OF True] y by (rule order.strict_trans1)
      then have "n < k" by simp
      then show ?thesis by (simp add: bit_simps)
    qed (simp add: bit_simps)
  qed
  then have "push_bit k x OR y = push_bit k x + y"
    by (simp add: disjunctive_add_eq_or)
  moreover have "unat (push_bit k x) = unat x * 2 ^ k"
    using room by (simp only: unsigned_push_bit_eq) (simp add: push_bit_eq_mult take_bit_nat_eq_self)
  ultimately show ?thesis
    using room by (simp add: unat_word_ariths)
qed

lemma unat_ucast_byte [simp]:
  "8 \<le> LENGTH('a::len) \<Longrightarrow> unat (ucast (b :: byte) :: 'a word) = unat b"
proof -
  assume "8 \<le> LENGTH('a)"
  then have "(256::nat) \<le> 2 ^ LENGTH('a)"
    using power_increasing [of 8 "LENGTH('a)" "2::nat"] by simp
  then have "unat b < 2 ^ LENGTH('a)" by (rule order_less_le_trans [OF unat_byte_lt])
  then show ?thesis by (simp add: unsigned_ucast_eq take_bit_nat_eq_self)
qed

lemma byte_bit7: "bit (b :: byte) 7 \<longleftrightarrow> 128 \<le> unat b"
proof -
  have "bit (unat b) 7 \<longleftrightarrow> odd (unat b div 128)" by (simp add: bit_iff_odd)
  moreover have "odd (unat b div 128) \<longleftrightarrow> 128 \<le> unat b"
  proof -
    have "unat b div 128 < 2" using unat_byte_lt [of b] by linarith
    then have "unat b div 128 = 0 \<or> unat b div 128 = 1" by linarith
    then show ?thesis by (auto simp: div_eq_0_iff)
  qed
  ultimately show ?thesis by (simp add: bit_unsigned_iff)
qed

lemma byte_and_80: "(b :: byte) AND 0x80 = 0 \<longleftrightarrow> unat b < 128"
  using and_exp_eq_0_iff_not_bit [of b 7] by (simp add: byte_bit7 not_le)

lemma unat_numeral_byte: "unat (0x80 :: byte) = 128"
  by simp

lemma unat_and_mask: "unat ((x :: 'a::len word) AND mask n) = unat x mod 2 ^ n"
  by (metis take_bit_eq_mask take_bit_eq_mod unsigned_take_bit_eq)

lemma byte_and_7f: "unat ((b :: byte) AND 0x7f) = unat b mod 128"
proof -
  have "(0x7f :: byte) = mask 7" by (simp add: mask_numeral)
  then show ?thesis using unat_and_mask [of b 7] by simp
qed

lemma unat_drop_bit: "unat (drop_bit n (x :: 'a::len word)) = unat x div 2 ^ n"
  by (simp only: unsigned_drop_bit_eq) (simp add: drop_bit_eq_div take_bit_nat_eq_self)

lemma byte_eq_unat: "(b :: byte) = of_nat n \<longleftrightarrow> unat b = n mod 256"
  by (metis unat_of_nat_byte word_nat_cases word_unat_eq_iff)

lemma byte_and_1f: "unat ((b :: byte) AND 0x1f) = unat b mod 32"
proof -
  have "(0x1f :: byte) = mask 5" by (simp add: mask_numeral)
  then show ?thesis using unat_and_mask [of b 5] by simp
qed

lemma byte_and_e0: "unat ((b :: byte) AND 0xe0) = unat b div 32 * 32"
proof -
  have "(b AND 0x1f) + (b AND 0xe0) = b"
  proof -
    have "(0xe0 :: byte) = NOT 0x1f" by simp
    then have "(b AND 0x1f) AND (b AND 0xe0) = 0" "(b AND 0x1f) OR (b AND 0xe0) = b"
      by (simp_all add: bit_eq_iff bit_simps) blast+
    then show ?thesis by (simp add: disjunctive_add_eq_or)
  qed
  then have "b AND 0xe0 = b - (b AND 0x1f)" by (simp add: algebra_simps)
  moreover have "b AND 0x1f \<le> b" by (simp add: word_le_nat_alt byte_and_1f)
  ultimately have "unat (b AND 0xe0) = unat b - unat b mod 32"
    by (simp add: unat_sub byte_and_1f)
  then show ?thesis by (simp add: minus_mod_eq_div_mult)
qed

lemma word_eq_of_natI: "unat (w :: 'a::len word) = k \<Longrightarrow> w = of_nat k"
  by auto

end
