(* ===== verification/Mem.thy ===== *)
theory Mem
  imports Prelude
begin

text \<open>
  \<open>crypto/mem.c\<close>: the allocator wrappers that keep a size prefix in front of every block,
  the constant-time comparison, the FNV-1a hash and the bounded C-string helpers the other
  components are built on. A C string is the list of bytes from the pointer to the end of
  its object; reading past the end is \<open>None\<close>.
\<close>

section \<open>Blocks with a size prefix\<close>

text \<open>
  A block is the \<open>size_t\<close> stored in the prefix and the user bytes behind it. The size
  addition in \<open>OPENSSL_malloc\<close> is the source's unchecked 64-bit addition.
\<close>

record mblock =
  bsize :: u64
  bdata :: "byte list"

definition OPENSSL_MALLOC_PREFIX :: u64 where
  "OPENSSL_MALLOC_PREFIX = 8"

definition OPENSSL_malloc :: "libc \<Rightarrow> u64 \<Rightarrow> mblock option" where
  "OPENSSL_malloc m sz =
     (case m (unat (sz + OPENSSL_MALLOC_PREFIX)) of
        None \<Rightarrow> None
      | Some ptr \<Rightarrow> Some \<lparr>bsize = sz, bdata = drop (unat OPENSSL_MALLOC_PREFIX) ptr\<rparr>)"

definition OPENSSL_cleanse :: "byte list \<Rightarrow> nat \<Rightarrow> byte list" where
  "OPENSSL_cleanse ptr len = replicate len 0 @ drop len ptr"

text \<open>\<open>OPENSSL_free\<close> returns the region it hands back to the C library, as it leaves it.\<close>

definition OPENSSL_free :: "mblock option \<Rightarrow> byte list option" where
  "OPENSSL_free orig_ptr =
     (case orig_ptr of
        None \<Rightarrow> None
      | Some b \<Rightarrow>
          let ptr = rev (be_bytes 8 (unat (bsize b))) @ bdata b
          in Some (OPENSSL_cleanse ptr (unat (bsize b + OPENSSL_MALLOC_PREFIX))))"

definition OPENSSL_clear_free :: "mblock option \<Rightarrow> byte list option" where
  "OPENSSL_clear_free ptr = OPENSSL_free ptr"

definition OPENSSL_realloc :: "libc \<Rightarrow> mblock option \<Rightarrow> u64 \<Rightarrow> mblock option" where
  "OPENSSL_realloc m orig_ptr new_size =
     (case orig_ptr of
        None \<Rightarrow> OPENSSL_malloc m new_size
      | Some b \<Rightarrow>
          (case OPENSSL_malloc m new_size of
             None \<Rightarrow> None
           | Some ret \<Rightarrow>
               let old_size = bsize b;
                   to_copy = unat (if old_size < new_size then old_size else new_size)
               in Some (ret\<lparr>bdata := take to_copy (bdata b) @ drop to_copy (bdata ret)\<rparr>)))"

definition OPENSSL_memdup :: "libc \<Rightarrow> byte list \<Rightarrow> nat \<Rightarrow> byte list option" where
  "OPENSSL_memdup m d n =
     (if n = 0 then None
      else (case OPENSSL_malloc m (of_nat n) of
              None \<Rightarrow> None
            | Some ret \<Rightarrow> Some (take n d @ drop n (bdata ret))))"

text \<open>The user region of a fresh or resized block, for the components that hold plain buffers.\<close>

definition alloc_bytes :: "libc \<Rightarrow> nat \<Rightarrow> byte list option" where
  "alloc_bytes m n = map_option bdata (OPENSSL_malloc m (of_nat n))"

definition realloc_bytes :: "libc \<Rightarrow> byte list \<Rightarrow> nat \<Rightarrow> byte list option" where
  "realloc_bytes m old n =
     map_option bdata
       (OPENSSL_realloc m (Some \<lparr>bsize = of_nat (length old), bdata = old\<rparr>) (of_nat n))"

lemma unat_prefix [simp]: "unat OPENSSL_MALLOC_PREFIX = 8"
  by (simp add: OPENSSL_MALLOC_PREFIX_def)

lemma unat_add_prefix:
  "unat (sz + OPENSSL_MALLOC_PREFIX) = (unat sz + 8) mod 2 ^ 64"
  by (simp add: OPENSSL_MALLOC_PREFIX_def unat_word_ariths)

lemma OPENSSL_malloc_length:
  assumes "malloc_ok m" and "OPENSSL_malloc m sz = Some b" and "unat sz + 8 < 2 ^ 64"
  shows "length (bdata b) = unat sz" and "unat sz + 8 < 2 ^ 63" and "bsize b = sz"
  using assms by (auto simp: OPENSSL_malloc_def unat_add_prefix split: option.splits
      dest!: malloc_okD [of m])

lemma alloc_bytes_length:
  assumes "malloc_ok m" and "n + 8 < 2 ^ 64" and "alloc_bytes m n = Some b"
  shows "length b = n \<and> n + 8 < 2 ^ 63"
  using assms OPENSSL_malloc_length [of m "of_nat n"]
  by (auto simp: alloc_bytes_def unat_of_nat)

lemma realloc_bytes_grow:
  assumes m: "malloc_ok m" and n: "length old \<le> n" "n + 8 < 2 ^ 64"
    and r: "realloc_bytes m old n = Some b"
  shows "length b = n \<and> n + 8 < 2 ^ 63 \<and> take (length old) b = old"
proof -
  have u: "unat (of_nat n :: u64) = n" "unat (of_nat (length old) :: u64) = length old"
    using n by (simp_all add: unat_of_nat)
  from r obtain ret where ret: "OPENSSL_malloc m (of_nat n) = Some ret"
    and b: "b = take (length old) old @ drop (length old) (bdata ret)"
    using n u by (auto simp: realloc_bytes_def OPENSSL_realloc_def Let_def word_less_nat_alt
        split: option.splits if_splits)
  have "length (bdata ret) = n" "n + 8 < 2 ^ 63"
    using OPENSSL_malloc_length [OF m ret] u n by auto
  with b n show ?thesis by simp
qed

text \<open>The request the C library refused.\<close>

lemma alloc_bytes_None: "alloc_bytes m n = None \<Longrightarrow> n + 8 < 2 ^ 64 \<Longrightarrow> m (n + 8) = None"
  by (auto simp: alloc_bytes_def OPENSSL_malloc_def unat_add_prefix unat_of_nat split: option.splits)

lemma realloc_bytes_None:
  "realloc_bytes m old n = None \<Longrightarrow> n + 8 < 2 ^ 64 \<Longrightarrow> m (n + 8) = None"
  by (auto simp: realloc_bytes_def OPENSSL_realloc_def OPENSSL_malloc_def Let_def
      unat_add_prefix unat_of_nat split: option.splits)

section \<open>Comparison and hashing\<close>

definition CRYPTO_memcmp :: "byte list \<Rightarrow> byte list \<Rightarrow> nat \<Rightarrow> byte" where
  "CRYPTO_memcmp a b len = fold (\<lambda>i x. x OR (a ! i XOR b ! i)) [0..<len] 0"

definition OPENSSL_hash32 :: "byte list \<Rightarrow> nat \<Rightarrow> u32" where
  "OPENSSL_hash32 ptr len =
     foldl (\<lambda>h b. (h XOR ucast b) * 16777619) 2166136261 (take len ptr)"

lemma memcmp_fold_zero:
  "fold (\<lambda>i x. x OR (a ! i XOR b ! i)) is (x :: byte) = 0
     \<longleftrightarrow> x = 0 \<and> (\<forall>i\<in>set is. a ! i = (b ! i :: byte))"
proof (induction "is" arbitrary: x)
  case (Cons i "is")
  have "x OR (a ! i XOR b ! i) = 0 \<longleftrightarrow> x = 0 \<and> a ! i = b ! i"
    by (auto simp: bit_eq_iff bit_simps)
  with Cons show ?case by auto
qed simp

lemma CRYPTO_memcmp_zero:
  assumes "len \<le> length a" "len \<le> length b"
  shows "CRYPTO_memcmp a b len = 0 \<longleftrightarrow> take len a = take len b"
  using assms by (auto simp: CRYPTO_memcmp_def memcmp_fold_zero list_eq_iff_nth_eq)

section \<open>C strings\<close>

fun strlen :: "byte list \<Rightarrow> nat option" where
  "strlen [] = None"
| "strlen (c # cs) = (if c = 0 then Some 0 else map_option Suc (strlen cs))"

fun OPENSSL_strnlen :: "byte list \<Rightarrow> nat \<Rightarrow> nat option" where
  "OPENSSL_strnlen s 0 = Some 0"
| "OPENSSL_strnlen [] (Suc len) = None"
| "OPENSSL_strnlen (c # cs) (Suc len) =
     (if c = 0 then Some 0 else map_option Suc (OPENSSL_strnlen cs len))"

text \<open>
  The copying functions return a pointer: the inner \<open>None\<close> is \<open>NULL\<close>, the outer one a read
  past the end of the argument.
\<close>

definition OPENSSL_strdup :: "libc \<Rightarrow> byte list option \<Rightarrow> byte list option option" where
  "OPENSSL_strdup m s =
     (case s of None \<Rightarrow> Some None
      | Some s \<Rightarrow>
          (case strlen s of None \<Rightarrow> None
           | Some l \<Rightarrow>
               let len = l + 1 in
               (case OPENSSL_malloc m (of_nat len) of None \<Rightarrow> Some None
                | Some ret \<Rightarrow> Some (Some (take len s @ drop len (bdata ret))))))"

definition OPENSSL_strndup :: "libc \<Rightarrow> byte list option \<Rightarrow> nat \<Rightarrow> byte list option option" where
  "OPENSSL_strndup m str n =
     (case str of None \<Rightarrow> Some None
      | Some s \<Rightarrow>
          (case OPENSSL_strnlen s n of None \<Rightarrow> None
           | Some l \<Rightarrow>
               let alloc_size = (l + 1) mod size_max1 in
               if alloc_size < l then Some None
               else (case OPENSSL_malloc m (of_nat alloc_size) of None \<Rightarrow> Some None
                     | Some ret \<Rightarrow> Some (Some ((take l s @ drop l (bdata ret)) [l := 0])))))"

definition OPENSSL_tolower :: "int \<Rightarrow> int" where
  "OPENSSL_tolower c = (if 65 \<le> c \<and> c \<le> 90 then c + (97 - 65) else c)"

text \<open>\<open>char\<close> is signed on the app's targets, hence \<open>sint\<close>.\<close>

fun OPENSSL_strcasecmp :: "byte list \<Rightarrow> byte list \<Rightarrow> int option" where
  "OPENSSL_strcasecmp (a # as) (b # bs) =
     (let aa = OPENSSL_tolower (sint a); bb = OPENSSL_tolower (sint b) in
      if aa < bb then Some (- 1)
      else if aa > bb then Some 1
      else if aa = 0 then Some 0
      else OPENSSL_strcasecmp as bs)"
| "OPENSSL_strcasecmp _ _ = None"

fun OPENSSL_strncasecmp :: "byte list \<Rightarrow> byte list \<Rightarrow> nat \<Rightarrow> int option" where
  "OPENSSL_strncasecmp _ _ 0 = Some 0"
| "OPENSSL_strncasecmp (a # as) (b # bs) (Suc n) =
     (let aa = OPENSSL_tolower (sint a); bb = OPENSSL_tolower (sint b) in
      if aa < bb then Some (- 1)
      else if aa > bb then Some 1
      else if aa = 0 then Some 0
      else OPENSSL_strncasecmp as bs n)"
| "OPENSSL_strncasecmp _ _ (Suc n) = None"

text \<open>
  \<open>OPENSSL_strlcpy\<close> and \<open>OPENSSL_strlcat\<close> return the destination object after the call
  and the length they tried to create.
\<close>

fun OPENSSL_strlcpy :: "byte list \<Rightarrow> byte list \<Rightarrow> nat \<Rightarrow> (byte list \<times> nat) option" where
  "OPENSSL_strlcpy dst [] dst_size = None"
| "OPENSSL_strlcpy dst (s # src) dst_size =
     (if dst_size > 1 \<and> s \<noteq> 0 then
        (case dst of [] \<Rightarrow> None
         | _ # dst' \<Rightarrow>
             map_option (\<lambda>(d, l). (s # d, l + 1)) (OPENSSL_strlcpy dst' src (dst_size - 1)))
      else if dst_size \<noteq> 0 then
        (case dst of [] \<Rightarrow> None
         | _ # dst' \<Rightarrow> map_option (\<lambda>l. (0 # dst', l)) (strlen (s # src)))
      else map_option (\<lambda>l. (dst, l)) (strlen (s # src)))"

fun OPENSSL_strlcat :: "byte list \<Rightarrow> byte list \<Rightarrow> nat \<Rightarrow> (byte list \<times> nat) option" where
  "OPENSSL_strlcat [] src dst_size =
     (if dst_size > 0 then None else OPENSSL_strlcpy [] src dst_size)"
| "OPENSSL_strlcat (d # dst) src dst_size =
     (if dst_size > 0 \<and> d \<noteq> 0 then
        map_option (\<lambda>(r, l). (d # r, l + 1)) (OPENSSL_strlcat dst src (dst_size - 1))
      else OPENSSL_strlcpy (d # dst) src dst_size)"

text \<open>The contents of a C string, and that it is terminated inside its object.\<close>

definition cstr :: "byte list \<Rightarrow> byte list" where
  "cstr s = takeWhile (\<lambda>c. c \<noteq> 0) s"

lemma cstr_simps [simp]:
  "cstr [] = []" "cstr (c # cs) = (if c = 0 then [] else c # cstr cs)"
  by (simp_all add: cstr_def)

lemma length_cstr_less: "0 \<in> set s \<Longrightarrow> length (cstr s) < length s"
  by (induction s) auto

lemma strlen_cstr: "strlen s = (if 0 \<in> set s then Some (length (cstr s)) else None)"
  by (induction s) auto

lemma strnlen_cstr:
  "n \<le> length s \<or> 0 \<in> set s \<Longrightarrow> OPENSSL_strnlen s n = Some (length (cstr (take n s)))"
  by (induction s n rule: OPENSSL_strnlen.induct) auto

lemma strlcpy_result:
  "0 \<in> set src \<Longrightarrow> n \<le> length dst \<Longrightarrow>
   OPENSSL_strlcpy dst src n =
     Some ((if n = 0 then dst
            else take (n - 1) (cstr src) @ 0 # drop (Suc (length (take (n - 1) (cstr src)))) dst),
           length (cstr src))"
proof (induction dst src n rule: OPENSSL_strlcpy.induct)
  case (2 dst s src n)
  show ?case
  proof (cases "n > 1 \<and> s \<noteq> 0")
    case True
    then obtain d dst' where dst: "dst = d # dst'" using "2.prems" by (cases dst) auto
    obtain k where n: "n = Suc (Suc k)" using True less_imp_Suc_add [of 1 n] by auto
    have "0 \<in> set src" "n - 1 \<le> length dst'"
      using "2.prems" True dst by auto
    then have "OPENSSL_strlcpy dst' src (n - 1) =
        Some (take k (cstr src) @ 0 # drop (Suc (length (take k (cstr src)))) dst',
              length (cstr src))"
      using "2.IH" [OF True dst] n by simp
    with True dst n show ?thesis by simp
  next
    case False
    then have "n \<le> 1 \<or> s = 0" by auto
    with False show ?thesis using "2.prems"
      by (cases dst; cases "n = 0"; cases "s = 0") (simp_all add: strlen_cstr)
  qed
qed simp

section \<open>Properties\<close>

text \<open>
  The constant-time comparison returns zero exactly on equal regions: it never reports
  two different regions of the compared length as equal, wherever they differ.
\<close>

theorem CRYPTO_memcmp_iff:
  assumes "length xs = length ys"
  shows "CRYPTO_memcmp (xs @ a) (ys @ b) (length xs) = 0 \<longleftrightarrow> xs = ys"
  using assms CRYPTO_memcmp_zero [of "length xs" "xs @ a" "ys @ b"] by simp

theorem CRYPTO_memcmp_iff_witness:
  "CRYPTO_memcmp ([1, 2, 3] @ [9]) ([1, 2, 4] @ [9]) 3 \<noteq> 0"
  using CRYPTO_memcmp_iff [of "[1, 2, 3]" "[1, 2, 4]" "[9]" "[9]"]
  by (simp add: numeral_3_eq_3)

text \<open>
  C19: a granted block has exactly the requested number of user bytes if and only if the
  request is below 2^64 - 8; the size addition of \<open>OPENSSL_malloc\<close> is not checked.
\<close>

theorem OPENSSL_malloc_usable:
  assumes "malloc_ok m" and "OPENSSL_malloc m sz = Some b"
  shows "bsize b = sz \<and> (length (bdata b) = unat sz \<longleftrightarrow> unat sz < 2 ^ 64 - 8)"
proof -
  obtain ptr where ptr: "m (unat (sz + OPENSSL_MALLOC_PREFIX)) = Some ptr"
    and b: "b = \<lparr>bsize = sz, bdata = drop 8 ptr\<rparr>"
    using assms(2) by (auto simp: OPENSSL_malloc_def split: option.splits)
  have len: "length ptr = (unat sz + 8) mod 2 ^ 64"
    using malloc_okD [OF assms(1) ptr] by (simp add: unat_add_prefix)
  have lt: "unat sz < 2 ^ 64" using unsigned_less [of sz] by simp
  have "length (bdata b) = unat sz \<longleftrightarrow> unat sz < 2 ^ 64 - 8"
  proof (cases "unat sz < 2 ^ 64 - 8")
    case True
    then show ?thesis by (simp add: b len)
  next
    case False
    then have "(unat sz + 8) mod 2 ^ 64 = unat sz + 8 - 2 ^ 64"
      using lt by (simp add: le_mod_geq)
    then show ?thesis using False lt by (simp add: b len)
  qed
  then show ?thesis by (simp add: b)
qed

definition sample_malloc :: libc where
  "sample_malloc n = (if n < 2 ^ 63 then Some (replicate n 0xaa) else None)"

lemma sample_malloc_ok: "malloc_ok sample_malloc"
  by (auto simp: malloc_ok_def sample_malloc_def split: if_splits)

theorem OPENSSL_malloc_usable_witness:
  "\<exists>b. OPENSSL_malloc sample_malloc (- 1) = Some b \<and> length (bdata b) \<noteq> unat (- 1 :: u64)"
proof -
  let ?b = "\<lparr>bsize = - 1, bdata = []\<rparr> :: mblock"
  have "OPENSSL_malloc sample_malloc (- 1) = Some ?b"
    by (simp add: OPENSSL_malloc_def OPENSSL_MALLOC_PREFIX_def sample_malloc_def)
  then show ?thesis
    using OPENSSL_malloc_usable [OF sample_malloc_ok, of "- 1" ?b]
    by (auto simp: unsigned_minus_1_eq_mask mask_eq_exp_minus_1)
qed

text \<open>
  Reallocation keeps the common prefix of the old and the new block, gives the new block
  its requested size, and reports failure only when the C library has no memory.
\<close>

theorem OPENSSL_realloc_keeps:
  assumes "malloc_ok m" and "unat new_size < 2 ^ 64 - 8"
    and "length (bdata b) = unat (bsize b)"
  shows "(case OPENSSL_realloc m (Some b) new_size of
            None \<Rightarrow> m (unat new_size + 8) = None
          | Some r \<Rightarrow> bsize r = new_size \<and> length (bdata r) = unat new_size \<and>
              take (min (unat (bsize b)) (unat new_size)) (bdata r)
                = take (min (unat (bsize b)) (unat new_size)) (bdata b))"
proof (cases "OPENSSL_malloc m new_size")
  case None
  have "unat (new_size + OPENSSL_MALLOC_PREFIX) = unat new_size + 8"
    using assms(2) by (simp add: unat_add_prefix)
  with None show ?thesis
    by (auto simp: OPENSSL_realloc_def OPENSSL_malloc_def split: option.splits)
next
  case (Some ret)
  have "unat new_size + 8 < 2 ^ 64" using assms(2) by simp
  note ret = OPENSSL_malloc_length [OF assms(1) Some this]
  show ?thesis
    using ret assms(3)
    by (auto simp: OPENSSL_realloc_def Some Let_def word_less_nat_alt min_def)
qed

theorem OPENSSL_realloc_keeps_witness:
  "case OPENSSL_realloc sample_malloc (Some \<lparr>bsize = 2, bdata = [5, 6]\<rparr>) 3 of
     None \<Rightarrow> sample_malloc 11 = None
   | Some r \<Rightarrow> bsize r = 3 \<and> length (bdata r) = 3 \<and> take 2 (bdata r) = [5, 6]"
  using OPENSSL_realloc_keeps [OF sample_malloc_ok, of 3 "\<lparr>bsize = 2, bdata = [5, 6]\<rparr>"]
  by (simp add: min_def split: option.splits)

text \<open>
  C20: every block is handed back to the C library completely zeroed, the size prefix
  included.
\<close>

theorem OPENSSL_free_zeroes:
  assumes "length (bdata b) = unat (bsize b)" and "unat (bsize b) < 2 ^ 64 - 8"
  shows "OPENSSL_free (Some b) = Some (replicate (8 + length (bdata b)) 0)"
proof -
  have "unat (bsize b + OPENSSL_MALLOC_PREFIX) = 8 + length (bdata b)"
    using assms by (simp add: unat_add_prefix)
  then show ?thesis by (simp add: OPENSSL_free_def OPENSSL_cleanse_def)
qed

theorem OPENSSL_free_zeroes_witness:
  "OPENSSL_free (Some \<lparr>bsize = 2, bdata = [5, 6]\<rparr>) = Some (replicate 10 0)"
  using OPENSSL_free_zeroes [of "\<lparr>bsize = 2, bdata = [5, 6]\<rparr>"] by simp

lemma cstr_append: "0 \<notin> set xs \<Longrightarrow> cstr (xs @ ys) = xs @ cstr ys"
  by (induction xs) auto

lemma zero_notin_cstr: "0 \<notin> set (cstr s)"
  by (induction s) auto

lemma take_cstr_notin: "0 \<notin> set (take n (cstr s))"
  using zero_notin_cstr set_take_subset by (metis subsetD)

text \<open>
  \<open>OPENSSL_strlcat\<close> appends as much of the source as fits, always leaves a terminated
  string inside the destination, writes nothing outside it, and returns the length the full
  concatenation would have.
\<close>

theorem OPENSSL_strlcat_appends:
  assumes "0 \<in> set src" and "n \<le> length dst" and "0 \<in> set (take n dst)"
  shows "\<exists>d. OPENSSL_strlcat dst src n = Some (d, length (cstr dst) + length (cstr src))
     \<and> cstr d = take (n - 1) (cstr dst @ cstr src)
     \<and> length (cstr d) < n \<and> length d = length dst \<and> drop n d = drop n dst"
  using assms(2,3)
proof (induction dst arbitrary: n)
  case (Cons c dst)
  then obtain k where n: "n = Suc k" by (cases n) auto
  show ?case
  proof (cases "c = 0")
    case False
    have "k \<le> length dst" "0 \<in> set (take k dst)" using Cons.prems n False by auto
    from Cons.IH [OF this] obtain d where "OPENSSL_strlcat dst src k = Some (d, length (cstr dst) + length (cstr src))"
      "cstr d = take (k - 1) (cstr dst @ cstr src)" "length (cstr d) < k" "length d = length dst"
      "drop k d = drop k dst" by blast
    moreover from this have "k \<noteq> 0" by simp
    then obtain j where "k = Suc j" by (cases k) auto
    ultimately show ?thesis using n False by (intro exI [of _ "c # d"]) simp
  next
    case True
    let ?p = "take k (cstr src)"
    have "length ?p < length (c # dst)" using Cons.prems n by (simp add: le_imp_less_Suc)
    moreover have "cstr (?p @ 0 # x) = ?p" for x
      using take_cstr_notin by (simp add: cstr_append)
    moreover have "length ?p \<le> k" by simp
    ultimately show ?thesis
      using strlcpy_result [OF assms(1) Cons.prems(1)] n True Cons.prems(1)
      by (auto simp: min_def drop_append Suc_diff_le)
  qed
qed simp

theorem OPENSSL_strlcat_appends_witness:
  "\<exists>d. OPENSSL_strlcat [97, 0, 7, 8] [98, 99, 0] 3 = Some (d, 3) \<and> cstr d = [97, 98] \<and> length d = 4
     \<and> drop 3 d = [8]"
  using OPENSSL_strlcat_appends [of "[98, 99, 0]" 3 "[97, 0, 7, 8]"] by auto

definition lowered :: "byte list \<Rightarrow> int list" where
  "lowered s = map (\<lambda>c. OPENSSL_tolower (sint c)) (cstr s @ [0])"

lemma lowered_Cons:
  "lowered (c # s) = OPENSSL_tolower (sint c) # (if c = 0 then [] else lowered s)"
  by (simp add: lowered_def)

lemma tolower_zero [simp]: "OPENSSL_tolower (sint (c :: byte)) = 0 \<longleftrightarrow> c = 0"
  using signed_word_eqI [of c 0] by (auto simp: OPENSSL_tolower_def)

text \<open>
  The case-insensitive comparison of two terminated strings returns -1, 0 or 1 like the
  lexicographic order of their lowered signed characters, the terminator included.
\<close>

theorem OPENSSL_strcasecmp_order:
  assumes "0 \<in> set a" and "0 \<in> set b"
  shows "OPENSSL_strcasecmp a b =
    Some (if lowered a = lowered b then 0
          else if (lowered a, lowered b) \<in> lexord {(x, y). x < y} then - 1 else 1)"
  using assms
proof (induction a b rule: OPENSSL_strcasecmp.induct)
  case (1 a as b bs)
  show ?case
  proof (cases "OPENSSL_tolower (sint a) = OPENSSL_tolower (sint b)")
    case False
    then show ?thesis by (auto simp: lowered_Cons Let_def)
  next
    case True
    then have "a = 0 \<longleftrightarrow> b = 0" using tolower_zero by metis
    then show ?thesis using True 1 by (auto simp: lowered_Cons Let_def)
  qed
qed auto

theorem OPENSSL_strcasecmp_order_witness:
  "OPENSSL_strcasecmp [72, 105, 0] [104, 73, 0] = Some 0 \<and> OPENSSL_strcasecmp [128, 0] [0] = Some (- 1)"
  using OPENSSL_strcasecmp_order [of "[72, 105, 0]" "[104, 73, 0]"]
    OPENSSL_strcasecmp_order [of "[128, 0]" "[0]"]
  by (simp add: lowered_def OPENSSL_tolower_def)

end
