(* ===== verification/Cbs.thy ===== *)
theory Cbs
  imports Mem
begin

text \<open>
  \<open>crypto/bytestring/cbs.c\<close>: the checked reader all DER and TLS parsing goes through. A
  \<open>CBS\<close> is a window (pointer and length) into immutable memory, modelled as the bytes it
  covers. Every reader returns what it stores through its out parameters, \<open>None\<close> when the C
  function returns 0, and the window it leaves behind: several readers move the window
  before they fail.
\<close>

section \<open>Fixed-size reads\<close>

type_synonym cbs = "byte list"
type_synonym 'a reader = "cbs \<Rightarrow> 'a option \<times> cbs"

definition CBS_init :: "byte list \<Rightarrow> nat \<Rightarrow> cbs" where
  "CBS_init d len = take len d"

definition cbs_get :: "nat \<Rightarrow> byte list reader" where
  "cbs_get n cbs = (if length cbs < n then (None, cbs) else (Some (take n cbs), drop n cbs))"

definition CBS_skip :: "nat \<Rightarrow> unit reader" where
  "CBS_skip len cbs =
     (case cbs_get len cbs of (None, cbs) \<Rightarrow> (None, cbs) | (Some _, cbs) \<Rightarrow> (Some (), cbs))"

definition CBS_data :: "cbs \<Rightarrow> byte list" where
  "CBS_data cbs = cbs"

definition CBS_len :: "cbs \<Rightarrow> nat" where
  "CBS_len cbs = length cbs"

text \<open>\<open>CBS_stow\<close> and \<open>CBS_strdup\<close> return success and the new value of \<open>*out_ptr\<close>.\<close>

definition CBS_stow :: "libc \<Rightarrow> cbs \<Rightarrow> bool \<times> byte list option" where
  "CBS_stow m cbs =
     (if CBS_len cbs = 0 then (True, None)
      else (case OPENSSL_memdup m (CBS_data cbs) (CBS_len cbs) of
              None \<Rightarrow> (False, None)
            | Some p \<Rightarrow> (True, Some p)))"

definition CBS_strdup :: "libc \<Rightarrow> cbs \<Rightarrow> (bool \<times> byte list option) option" where
  "CBS_strdup m cbs =
     map_option (\<lambda>p. (p \<noteq> None, p)) (OPENSSL_strndup m (Some (CBS_data cbs)) (CBS_len cbs))"

definition CBS_contains_zero_byte :: "cbs \<Rightarrow> bool" where
  "CBS_contains_zero_byte cbs \<longleftrightarrow> 0 \<in> set (take (CBS_len cbs) (CBS_data cbs))"

definition CBS_mem_equal :: "cbs \<Rightarrow> byte list \<Rightarrow> nat \<Rightarrow> bool" where
  "CBS_mem_equal cbs d len =
     (if len \<noteq> CBS_len cbs then False else CRYPTO_memcmp (CBS_data cbs) d len = 0)"

definition cbs_get_u :: "nat \<Rightarrow> u64 reader" where
  "cbs_get_u len cbs =
     (case cbs_get len cbs of
        (None, cbs) \<Rightarrow> (None, cbs)
      | (Some d, cbs) \<Rightarrow>
          (Some (foldl (\<lambda>result b. push_bit 8 result OR ucast b) 0 (take len d)), cbs))"

definition CBS_get_u8 :: "byte reader" where
  "CBS_get_u8 cbs =
     (case cbs_get 1 cbs of
        (None, cbs) \<Rightarrow> (None, cbs)
      | (Some v, cbs) \<Rightarrow> (Some (v ! 0), cbs))"

definition CBS_get_u16 :: "u16 reader" where
  "CBS_get_u16 cbs =
     (case cbs_get_u 2 cbs of (None, cbs) \<Rightarrow> (None, cbs) | (Some v, cbs) \<Rightarrow> (Some (ucast v), cbs))"

definition CBS_get_u24 :: "u32 reader" where
  "CBS_get_u24 cbs =
     (case cbs_get_u 3 cbs of (None, cbs) \<Rightarrow> (None, cbs) | (Some v, cbs) \<Rightarrow> (Some (ucast v), cbs))"

definition CBS_get_u32 :: "u32 reader" where
  "CBS_get_u32 cbs =
     (case cbs_get_u 4 cbs of (None, cbs) \<Rightarrow> (None, cbs) | (Some v, cbs) \<Rightarrow> (Some (ucast v), cbs))"

definition CBS_get_u64 :: "u64 reader" where
  "CBS_get_u64 cbs = cbs_get_u 8 cbs"

text \<open>The byte swaps of \<open>crypto/internal.h\<close>, in their portable form.\<close>

definition CRYPTO_bswap2 :: "u16 \<Rightarrow> u16" where
  "CRYPTO_bswap2 x = drop_bit 8 x OR push_bit 8 x"

definition CRYPTO_bswap4 :: "u32 \<Rightarrow> u32" where
  "CRYPTO_bswap4 x =
     (let x = drop_bit 16 x OR push_bit 16 x
      in drop_bit 8 (x AND 0xff00ff00) OR push_bit 8 (x AND 0x00ff00ff))"

definition CRYPTO_bswap8 :: "u64 \<Rightarrow> u64" where
  "CRYPTO_bswap8 x =
     ucast (CRYPTO_bswap4 (ucast (drop_bit 32 x))) OR push_bit 32 (ucast (CRYPTO_bswap4 (ucast x)))"

definition CBS_get_u16le :: "u16 reader" where
  "CBS_get_u16le cbs =
     (case CBS_get_u16 cbs of (None, cbs) \<Rightarrow> (None, cbs)
      | (Some v, cbs) \<Rightarrow> (Some (CRYPTO_bswap2 v), cbs))"

definition CBS_get_u32le :: "u32 reader" where
  "CBS_get_u32le cbs =
     (case CBS_get_u32 cbs of (None, cbs) \<Rightarrow> (None, cbs)
      | (Some v, cbs) \<Rightarrow> (Some (CRYPTO_bswap4 v), cbs))"

definition CBS_get_u64le :: "u64 reader" where
  "CBS_get_u64le cbs =
     (case cbs_get_u 8 cbs of (None, cbs) \<Rightarrow> (None, cbs)
      | (Some v, cbs) \<Rightarrow> (Some (CRYPTO_bswap8 v), cbs))"

definition CBS_get_last_u8 :: "byte reader" where
  "CBS_get_last_u8 cbs =
     (if CBS_len cbs = 0 then (None, cbs)
      else (Some (cbs ! (CBS_len cbs - 1)), take (CBS_len cbs - 1) cbs))"

definition CBS_get_bytes :: "nat \<Rightarrow> cbs reader" where
  "CBS_get_bytes len cbs =
     (case cbs_get len cbs of (None, cbs) \<Rightarrow> (None, cbs)
      | (Some v, cbs) \<Rightarrow> (Some (CBS_init v len), cbs))"

definition CBS_copy_bytes :: "nat \<Rightarrow> byte list reader" where
  "CBS_copy_bytes len cbs =
     (case cbs_get len cbs of (None, cbs) \<Rightarrow> (None, cbs)
      | (Some v, cbs) \<Rightarrow> (Some (take len v), cbs))"

definition cbs_get_length_prefixed :: "nat \<Rightarrow> cbs reader" where
  "cbs_get_length_prefixed len_len cbs =
     (case cbs_get_u len_len cbs of (None, cbs) \<Rightarrow> (None, cbs)
      | (Some len, cbs) \<Rightarrow> CBS_get_bytes (unat len) cbs)"

definition CBS_get_u8_length_prefixed :: "cbs reader" where
  "CBS_get_u8_length_prefixed cbs = cbs_get_length_prefixed 1 cbs"

definition CBS_get_u16_length_prefixed :: "cbs reader" where
  "CBS_get_u16_length_prefixed cbs = cbs_get_length_prefixed 2 cbs"

definition CBS_get_u24_length_prefixed :: "cbs reader" where
  "CBS_get_u24_length_prefixed cbs = cbs_get_length_prefixed 3 cbs"

section \<open>Equations on concrete windows\<close>

lemma cbs_get_append [get_simps]: "length xs = n \<Longrightarrow> cbs_get n (xs @ r) = (Some xs, r)"
  by (simp add: cbs_get_def)

lemma cbs_get_SomeD: "cbs_get n s = (Some xs, r) \<Longrightarrow> s = xs @ r \<and> length xs = n"
  by (auto simp: cbs_get_def split: if_splits)

lemma cbs_get_NoneD: "cbs_get n s = (None, r) \<Longrightarrow> r = s \<and> length s < n"
  by (auto simp: cbs_get_def split: if_splits)

lemma CBS_get_u8_simps [simp]:
  "CBS_get_u8 [] = (None, [])" "CBS_get_u8 (b # s) = (Some b, s)"
  by (simp_all add: CBS_get_u8_def cbs_get_def)

lemma CBS_get_u8_shorter [termination_simp]:
  "(Some b, s') = CBS_get_u8 s \<Longrightarrow> length s' < length s"
  by (cases s) auto

lemma CBS_get_bytes_append [get_simps]: "length xs = n \<Longrightarrow> CBS_get_bytes n (xs @ r) = (Some xs, r)"
  by (simp add: CBS_get_bytes_def cbs_get_append CBS_init_def)

lemma CBS_get_bytes_SomeD:
  "CBS_get_bytes n s = (Some xs, r) \<Longrightarrow> s = xs @ r \<and> length xs = n"
  by (auto simp: CBS_get_bytes_def CBS_init_def cbs_get_def split: option.splits if_splits)

lemma CBS_get_bytes_eq:
  "CBS_get_bytes n s = (if length s < n then (None, s) else (Some (take n s), drop n s))"
  by (simp add: CBS_get_bytes_def cbs_get_def CBS_init_def)

text \<open>The accumulation loop of \<open>cbs_get_u\<close> computes the big-endian value.\<close>

definition be_word :: "byte list \<Rightarrow> u64" where
  "be_word d = foldl (\<lambda>result b. push_bit 8 result OR ucast b) 0 d"

lemma unat_be_word: "length d \<le> 8 \<Longrightarrow> unat (be_word d) = be_val d"
proof (induction d rule: rev_induct)
  case (snoc b d)
  have "be_val d < 256 ^ length d" by (rule be_val_less)
  also have "(256::nat) ^ length d \<le> 256 ^ 7" using snoc.prems by (intro power_increasing) auto
  finally have "be_val d < 256 ^ 7" .
  then have "be_val d < 72057594037927936" by simp
  then have "be_val d * 256 + unat b < 18446744073709551616" using unat_byte_lt [of b] by linarith
  moreover have "unat (be_word d) = be_val d" using snoc by simp
  ultimately show ?case
    using word_shift_or [of "ucast b :: u64" 8 "be_word d"] by (simp add: be_word_def)
qed (simp add: be_word_def)

lemma cbs_get_u_eq:
  "cbs_get_u n s = (if length s < n then (None, s) else (Some (be_word (take n s)), drop n s))"
  by (simp add: cbs_get_u_def cbs_get_def be_word_def)

section \<open>ASN.1 elements\<close>

definition CBS_ASN1_TAG_SHIFT :: nat where "CBS_ASN1_TAG_SHIFT = 24"
definition CBS_ASN1_CONSTRUCTED :: u32 where "CBS_ASN1_CONSTRUCTED = push_bit CBS_ASN1_TAG_SHIFT 0x20"
definition CBS_ASN1_TAG_NUMBER_MASK :: u32 where
  "CBS_ASN1_TAG_NUMBER_MASK = push_bit (5 + CBS_ASN1_TAG_SHIFT) 1 - 1"
definition CBS_ASN1_BOOLEAN :: u32 where "CBS_ASN1_BOOLEAN = 1"
definition CBS_ASN1_INTEGER :: u32 where "CBS_ASN1_INTEGER = 2"
definition CBS_ASN1_BITSTRING :: u32 where "CBS_ASN1_BITSTRING = 3"
definition CBS_ASN1_OCTETSTRING :: u32 where "CBS_ASN1_OCTETSTRING = 4"
definition CBS_ASN1_OBJECT :: u32 where "CBS_ASN1_OBJECT = 6"
definition CBS_ASN1_SEQUENCE :: u32 where "CBS_ASN1_SEQUENCE = 0x10 OR CBS_ASN1_CONSTRUCTED"
definition CBS_ASN1_SET :: u32 where "CBS_ASN1_SET = 0x11 OR CBS_ASN1_CONSTRUCTED"

fun parse_base128_loop :: "u64 \<Rightarrow> u64 reader" where
  "parse_base128_loop v cbs =
     (case CBS_get_u8 cbs of
        (None, cbs) \<Rightarrow> (None, cbs)
      | (Some b, cbs) \<Rightarrow>
          if drop_bit (64 - 7) v \<noteq> 0 then (None, cbs)
          else if v = 0 \<and> b = 0x80 then (None, cbs)
          else let v = push_bit 7 v OR ucast (b AND 0x7f)
               in if b AND 0x80 \<noteq> 0 then parse_base128_loop v cbs else (Some v, cbs))"

declare parse_base128_loop.simps [simp del]

definition parse_base128_integer :: "u64 reader" where
  "parse_base128_integer cbs = parse_base128_loop 0 cbs"

definition parse_asn1_tag :: "u32 reader" where
  "parse_asn1_tag cbs =
     (case CBS_get_u8 cbs of
        (None, cbs) \<Rightarrow> (None, cbs)
      | (Some tag_byte, cbs) \<Rightarrow>
          let tag = push_bit CBS_ASN1_TAG_SHIFT (ucast tag_byte AND 0xe0);
              tag_number = ucast tag_byte AND 0x1f
          in if tag_number = (0x1f :: u32) then
               (case parse_base128_integer cbs of
                  (None, cbs) \<Rightarrow> (None, cbs)
                | (Some v, cbs) \<Rightarrow>
                    if v > ucast CBS_ASN1_TAG_NUMBER_MASK \<or> v < 0x1f then (None, cbs)
                    else (Some (tag OR ucast v), cbs))
             else (Some (tag OR tag_number), cbs))"

text \<open>
  \<open>cbs_get_any_asn1_element\<close> stores the element, its tag and its header length; the window
  only moves when the whole element is there.
\<close>

definition cbs_get_any_asn1_element :: "bool \<Rightarrow> (cbs \<times> u32 \<times> nat) reader" where
  "cbs_get_any_asn1_element ber_ok cbs =
     (case parse_asn1_tag cbs of (None, _) \<Rightarrow> (None, cbs) | (Some tag, header) \<Rightarrow>
     (case CBS_get_u8 header of (None, _) \<Rightarrow> (None, cbs) | (Some length_byte, header) \<Rightarrow>
      let header_len = CBS_len cbs - CBS_len header;
          get = (\<lambda>len hl. case CBS_get_bytes len cbs of (None, cbs) \<Rightarrow> (None, cbs)
                   | (Some out, cbs) \<Rightarrow> (Some (out, tag, hl), cbs))
      in if length_byte AND 0x80 = 0 then get (unat length_byte + header_len) header_len
         else
           let num_bytes = unat (length_byte AND 0x7f) in
           if ber_ok \<and> tag AND CBS_ASN1_CONSTRUCTED \<noteq> 0 \<and> num_bytes = 0
           then get header_len header_len
           else if num_bytes = 0 \<or> num_bytes > 4 then (None, cbs)
           else (case cbs_get_u num_bytes header of (None, _) \<Rightarrow> (None, cbs)
                 | (Some len64, _) \<Rightarrow>
                     if len64 < 128 then (None, cbs)
                     else if drop_bit ((num_bytes - 1) * 8) len64 = 0 then (None, cbs)
                     else
                       let len = unat len64 in
                       if (len + header_len + num_bytes) mod size_max1 < len then (None, cbs)
                       else get ((len + header_len + num_bytes) mod size_max1)
                                (header_len + num_bytes))))"

definition CBS_get_any_asn1_element :: "(cbs \<times> u32 \<times> nat) reader" where
  "CBS_get_any_asn1_element cbs = cbs_get_any_asn1_element False cbs"

definition CBS_get_any_ber_asn1_element :: "(cbs \<times> u32 \<times> nat) reader" where
  "CBS_get_any_ber_asn1_element cbs = cbs_get_any_asn1_element True cbs"

definition CBS_get_any_asn1 :: "(cbs \<times> u32) reader" where
  "CBS_get_any_asn1 cbs =
     (case CBS_get_any_asn1_element cbs of (None, cbs) \<Rightarrow> (None, cbs)
      | (Some (out, tag, header_len), cbs) \<Rightarrow>
          (case CBS_skip header_len out of
             (None, _) \<Rightarrow> (None, cbs)
           | (Some _, out) \<Rightarrow> (Some (out, tag), cbs)))"

definition cbs_get_asn1 :: "u32 \<Rightarrow> bool \<Rightarrow> cbs reader" where
  "cbs_get_asn1 tag_value skip_header cbs =
     (case CBS_get_any_asn1_element cbs of (None, cbs) \<Rightarrow> (None, cbs)
      | (Some (out, tag, header_len), cbs) \<Rightarrow>
          if tag \<noteq> tag_value then (None, cbs)
          else if skip_header then
            (case CBS_skip header_len out of
               (None, _) \<Rightarrow> (None, cbs)
             | (Some _, out) \<Rightarrow> (Some out, cbs))
          else (Some out, cbs))"

definition CBS_get_asn1 :: "u32 \<Rightarrow> cbs reader" where
  "CBS_get_asn1 tag_value cbs = cbs_get_asn1 tag_value True cbs"

definition CBS_get_asn1_element :: "u32 \<Rightarrow> cbs reader" where
  "CBS_get_asn1_element tag_value cbs = cbs_get_asn1 tag_value False cbs"

definition CBS_peek_asn1_tag :: "cbs \<Rightarrow> u32 \<Rightarrow> bool" where
  "CBS_peek_asn1_tag cbs tag_value =
     (if CBS_len cbs < 1 then False
      else (case parse_asn1_tag cbs of
              (None, _) \<Rightarrow> False
            | (Some actual_tag, _) \<Rightarrow> tag_value = actual_tag))"

section \<open>Typed elements\<close>

fun asn1_uint64_loop :: "u64 \<Rightarrow> byte list \<Rightarrow> u64 option" where
  "asn1_uint64_loop out [] = Some out"
| "asn1_uint64_loop out (b # d) =
     (if drop_bit 56 out \<noteq> 0 then None
      else asn1_uint64_loop (push_bit 8 out OR ucast b) d)"

definition CBS_get_asn1_uint64 :: "u64 reader" where
  "CBS_get_asn1_uint64 cbs =
     (case CBS_get_asn1 CBS_ASN1_INTEGER cbs of (None, cbs) \<Rightarrow> (None, cbs)
      | (Some bytes, cbs) \<Rightarrow>
          let d = CBS_data bytes; len = CBS_len bytes in
          if len = 0 then (None, cbs)
          else if d ! 0 AND 0x80 \<noteq> 0 then (None, cbs)
          else if d ! 0 = 0 \<and> len > 1 \<and> d ! 1 AND 0x80 = 0 then (None, cbs)
          else (asn1_uint64_loop 0 d, cbs))"

text \<open>The \<open>int64_t\<close> is returned as the 64-bit pattern; \<open>sint\<close> is its value.\<close>

definition CBS_get_asn1_int64 :: "u64 reader" where
  "CBS_get_asn1_int64 cbs =
     (case CBS_get_asn1 CBS_ASN1_INTEGER cbs of (None, cbs) \<Rightarrow> (None, cbs)
      | (Some bytes, cbs) \<Rightarrow>
          let d = CBS_data bytes; len = CBS_len bytes in
          if len = 0 \<or> len > 8 then (None, cbs)
          else if len > 1 \<and> d ! 0 = 0 \<and> d ! 1 AND 0x80 = 0 then (None, cbs)
          else if len > 1 \<and> d ! 0 = 0xff \<and> d ! 1 AND 0x80 \<noteq> 0 then (None, cbs)
          else
            let is_negative = d ! 0 AND 0x80 \<noteq> 0;
                u = replicate 8 (if is_negative then 0xff else 0);
                u = fold (\<lambda>i u. u[i := d ! (len - i - 1)]) [0..<len] u
            in (Some (of_nat (be_val (rev u))), cbs))"

definition CBS_get_asn1_bool :: "int reader" where
  "CBS_get_asn1_bool cbs =
     (case CBS_get_asn1 CBS_ASN1_BOOLEAN cbs of (None, cbs) \<Rightarrow> (None, cbs)
      | (Some bytes, cbs) \<Rightarrow>
          if CBS_len bytes \<noteq> 1 then (None, cbs)
          else
            let value = CBS_data bytes ! 0 in
            if value \<noteq> 0 \<and> value \<noteq> 0xff then (None, cbs)
            else (Some (if value \<noteq> 0 then 1 else 0), cbs))"

text \<open>For the optional readers \<open>Some None\<close> is success with the element absent.\<close>

definition CBS_get_optional_asn1 :: "u32 \<Rightarrow> cbs option reader" where
  "CBS_get_optional_asn1 tag cbs =
     (if CBS_peek_asn1_tag cbs tag then
        (case CBS_get_asn1 tag cbs of (None, cbs) \<Rightarrow> (None, cbs)
         | (Some out, cbs) \<Rightarrow> (Some (Some out), cbs))
      else (Some None, cbs))"

definition CBS_get_optional_asn1_octet_string :: "u32 \<Rightarrow> (cbs \<times> bool) reader" where
  "CBS_get_optional_asn1_octet_string tag cbs =
     (case CBS_get_optional_asn1 tag cbs of (None, cbs) \<Rightarrow> (None, cbs)
      | (Some (Some child), cbs) \<Rightarrow>
          (case CBS_get_asn1 CBS_ASN1_OCTETSTRING child of
             (None, _) \<Rightarrow> (None, cbs)
           | (Some out, child) \<Rightarrow>
               if CBS_len child \<noteq> 0 then (None, cbs) else (Some (out, True), cbs))
      | (Some None, cbs) \<Rightarrow> (Some (CBS_init [] 0, False), cbs))"

definition CBS_get_optional_asn1_uint64 :: "u32 \<Rightarrow> u64 \<Rightarrow> u64 reader" where
  "CBS_get_optional_asn1_uint64 tag default_value cbs =
     (case CBS_get_optional_asn1 tag cbs of (None, cbs) \<Rightarrow> (None, cbs)
      | (Some (Some child), cbs) \<Rightarrow>
          (case CBS_get_asn1_uint64 child of
             (None, _) \<Rightarrow> (None, cbs)
           | (Some out, child) \<Rightarrow> if CBS_len child \<noteq> 0 then (None, cbs) else (Some out, cbs))
      | (Some None, cbs) \<Rightarrow> (Some default_value, cbs))"

definition CBS_get_optional_asn1_bool :: "u32 \<Rightarrow> int \<Rightarrow> int reader" where
  "CBS_get_optional_asn1_bool tag default_value cbs =
     (case CBS_get_optional_asn1 tag cbs of (None, cbs) \<Rightarrow> (None, cbs)
      | (Some (Some child), cbs) \<Rightarrow>
          (case CBS_get_asn1 CBS_ASN1_BOOLEAN child of
             (None, _) \<Rightarrow> (None, cbs)
           | (Some child2, child) \<Rightarrow>
               if CBS_len child2 \<noteq> 1 \<or> CBS_len child \<noteq> 0 then (None, cbs)
               else
                 let boolean = CBS_data child2 ! 0 in
                 if boolean = 0 then (Some 0, cbs)
                 else if boolean = 0xff then (Some 1, cbs)
                 else (None, cbs))
      | (Some None, cbs) \<Rightarrow> (Some default_value, cbs))"

definition CBS_is_valid_asn1_bitstring :: "cbs \<Rightarrow> bool" where
  "CBS_is_valid_asn1_bitstring cbs =
     (case CBS_get_u8 cbs of
        (None, _) \<Rightarrow> False
      | (Some num_unused_bits, inp) \<Rightarrow>
          if num_unused_bits > 7 then False
          else if num_unused_bits = 0 then True
          else (case CBS_get_last_u8 inp of
                  (None, _) \<Rightarrow> False
                | (Some last_byte, _) \<Rightarrow>
                    last_byte AND (push_bit (unat num_unused_bits) 1 - 1) = 0))"

definition CBS_asn1_bitstring_has_bit :: "cbs \<Rightarrow> u32 \<Rightarrow> bool" where
  "CBS_asn1_bitstring_has_bit cbs n =
     (if \<not> CBS_is_valid_asn1_bitstring cbs then False
      else
        let byte_num = unat (drop_bit 3 n + 1); bit_num = unat (7 - (n AND 7))
        in byte_num < CBS_len cbs \<and> CBS_data cbs ! byte_num AND push_bit bit_num 1 \<noteq> 0)"

end
