(* ===== verification/Der.thy ===== *)
theory Der
  imports Cbs
begin

text \<open>
  What the ASN.1 readers of \<open>cbs.c\<close> accept. The DER encodings of tags, lengths, elements and
  integers are specified by arithmetic on natural numbers, independently of the C code, and
  every reader is shown to succeed on exactly the encodings: parsing is canonical.
\<close>

section \<open>Base-128 integers\<close>

fun b128_hi :: "nat \<Rightarrow> byte list" where
  "b128_hi n = (if n = 0 then [] else b128_hi (n div 128) @ [of_nat (128 + n mod 128)])"

declare b128_hi.simps [simp del]

definition b128 :: "nat \<Rightarrow> byte list" where
  "b128 n = b128_hi (n div 128) @ [of_nat (n mod 128)]"

lemma b128_hi_0 [simp]: "b128_hi 0 = []"
  by (simp add: b128_hi.simps)

lemma b128_hi_snoc:
  assumes "m \<noteq> 0 \<or> k \<noteq> 0" "k < 128"
  shows "b128_hi (m * 128 + k) = b128_hi m @ [of_nat (128 + k)]"
  using assms by (subst b128_hi.simps) auto

lemma base128_step:
  assumes "drop_bit 57 (v :: u64) = 0"
  shows "unat (push_bit 7 v OR ucast ((b :: byte) AND 0x7f)) = unat v * 128 + unat b mod 128"
proof -
  have "unat v div 2 ^ 57 = 0" using assms unat_drop_bit [of 57 v] by simp
  then have "unat v < 144115188075855872" by (simp add: div_eq_0_iff)
  moreover have "unat b mod 128 < 128" by simp
  ultimately have "unat v * 128 + unat b mod 128 < 18446744073709551616" by linarith
  then show ?thesis
    using word_shift_or [of "ucast (b AND 0x7f) :: u64" 7 v] byte_and_7f [of b] by simp
qed

lemma parse_base128_loop_Cons:
  "parse_base128_loop v (b # s) =
     (if drop_bit 57 v \<noteq> 0 \<or> v = 0 \<and> b = 0x80 then (None, s)
      else if 128 \<le> unat b then parse_base128_loop (push_bit 7 v OR ucast (b AND 0x7f)) s
      else (Some (push_bit 7 v OR ucast (b AND 0x7f)), s))"
  using byte_and_80 [of b] by (subst parse_base128_loop.simps) (auto simp: Let_def)

lemma parse_base128_loop_Nil: "parse_base128_loop v [] = (None, [])"
  by (subst parse_base128_loop.simps) simp

lemma parse_base128_loop_sound:
  "parse_base128_loop v s = (Some w, r) \<Longrightarrow> b128_hi (unat v) @ s = b128 (unat w) @ r"
proof (induction s arbitrary: v)
  case Nil
  then show ?case by (simp add: parse_base128_loop_Nil)
next
  case (Cons b s)
  let ?w = "push_bit 7 v OR ucast (b AND 0x7f) :: u64"
  from Cons.prems have ok: "drop_bit 57 v = 0" "v \<noteq> 0 \<or> b \<noteq> 0x80"
    by (auto simp: parse_base128_loop_Cons split: if_splits)
  note val = base128_step [OF ok(1), of b]
  show ?case
  proof (cases "128 \<le> unat b")
    case True
    then have m: "unat b mod 128 = unat b - 128"
      using unat_byte_lt [of b] le_mod_geq [of 128 "unat b"] by (simp add: less_diff_conv2)
    have "unat v \<noteq> 0 \<or> unat b mod 128 \<noteq> 0"
    proof (rule ccontr)
      assume "\<not> ?thesis"
      then have "v = 0" and b: "unat b = 128" using True m by (auto simp: unat_eq_zero)
      moreover have "b = 0x80"
        by (rule word_unat_eq_iff [THEN iffD2]) (simp only: b unat_numeral_byte)
      ultimately show False using ok(2) by simp
    qed
    then have "b128_hi (unat ?w) = b128_hi (unat v) @ [of_nat (128 + unat b mod 128)]"
      unfolding val by (intro b128_hi_snoc) auto
    also have "of_nat (128 + unat b mod 128) = b" using True m by simp
    finally show ?thesis
      using Cons.IH [of ?w] Cons.prems ok True by (auto simp: parse_base128_loop_Cons)
  next
    case False
    then have "?w = w" "s = r" using Cons.prems ok by (auto simp: parse_base128_loop_Cons)
    then have "unat w = unat v * 128 + unat b" using val False by simp
    then show ?thesis using False \<open>s = r\<close> by (simp add: b128_def)
  qed
qed

lemma parse_base128_loop_hi:
  "n < 2 ^ 64 \<Longrightarrow> parse_base128_loop 0 (b128_hi n @ s) = parse_base128_loop (of_nat n) s"
proof (induction n arbitrary: s rule: b128_hi.induct)
  case (1 n)
  show ?case
  proof (cases "n = 0")
    case False
    let ?v = "of_nat (n div 128) :: u64" and ?b = "of_nat (128 + n mod 128) :: byte"
    have v: "unat ?v = n div 128" using "1.prems" by (simp add: unat_of_nat)
    have ok: "drop_bit 57 ?v = 0"
      using unat_drop_bit [of 57 ?v] v "1.prems" by (simp add: unat_eq_zero [symmetric] div_mult2_eq [symmetric])
    have b: "unat ?b = 128 + n mod 128"
      by (simp del: of_nat_add of_nat_mod)
    have nz: "\<not> (?v = 0 \<and> ?b = 0x80)"
    proof
      assume "?v = 0 \<and> ?b = 0x80"
      then have "n div 128 = 0" "n mod 128 = 0" using v b by auto
      then show False using False by (simp add: div_eq_0_iff)
    qed
    have "unat (push_bit 7 ?v OR ucast (?b AND 0x7f)) = n"
      using base128_step [OF ok, of ?b] v b by simp
    then have "push_bit 7 ?v OR ucast (?b AND 0x7f) = of_nat n"
      using "1.prems" by (simp add: word_unat_eq_iff unat_of_nat)
    moreover have "parse_base128_loop 0 (b128_hi n @ s) = parse_base128_loop ?v (?b # s)"
      using "1.IH" [OF False, of "?b # s"] "1.prems" False by (subst b128_hi.simps) simp
    ultimately show ?thesis using ok nz b by (simp only: parse_base128_loop_Cons) simp
  qed simp
qed

lemma parse_base128_integer_iff:
  "parse_base128_integer s = (Some v, r) \<longleftrightarrow> s = b128 (unat v) @ r"
proof
  assume "parse_base128_integer s = (Some v, r)"
  then show "s = b128 (unat v) @ r"
    using parse_base128_loop_sound [of 0 s v r] by (simp add: parse_base128_integer_def)
next
  assume s: "s = b128 (unat v) @ r"
  let ?v = "of_nat (unat v div 128) :: u64" and ?b = "of_nat (unat v mod 128) :: byte"
  have lt: "unat v < 2 ^ 64" using unsigned_less [of v] by simp
  then have v: "unat ?v = unat v div 128" by (simp add: unat_of_nat)
  have b: "unat ?b = unat v mod 128" by (simp del: of_nat_mod)
  have "unat v mod 128 < 128" by simp
  then have "unat ?b < 128" using b by simp
  then have nb: "?b \<noteq> 0x80" by (metis less_irrefl unat_numeral_byte)
  have ok: "drop_bit 57 ?v = 0"
    using unat_drop_bit [of 57 ?v] v lt by (simp add: unat_eq_zero [symmetric] div_mult2_eq [symmetric])
  have "parse_base128_integer s = parse_base128_loop ?v (?b # r)"
    using parse_base128_loop_hi [of "unat v div 128" "?b # r"] lt
    by (simp add: s b128_def parse_base128_integer_def)
  also have "\<dots> = (Some (push_bit 7 ?v OR ucast (?b AND 0x7f)), r)"
    using ok b nb by (simp only: parse_base128_loop_Cons) auto
  also have "push_bit 7 ?v OR ucast (?b AND 0x7f) = v"
    using base128_step [OF ok, of ?b] v b by (simp add: word_unat_eq_iff)
  finally show "parse_base128_integer s = (Some v, r)" .
qed

section \<open>Tags\<close>

definition der_tag :: "u32 \<Rightarrow> byte list" where
  "der_tag t =
     (let c = unat t div 2 ^ 29; n = unat t mod 2 ^ 29
      in if n < 31 then [of_nat (32 * c + n)] else of_nat (32 * c + 31) # b128 n)"

lemma tag_class_word:
  "unat (push_bit CBS_ASN1_TAG_SHIFT (ucast (b :: byte) AND 0xe0 :: u32)) = unat b div 32 * 2 ^ 29"
proof -
  have "(ucast b AND 0xe0 :: u32) = ucast (b AND 0xe0)"
    by (simp add: unsigned_and_eq)
  then have u: "unat (ucast b AND 0xe0 :: u32) = unat b div 32 * 32"
    by (simp add: byte_and_e0)
  have "unat b div 32 < 8" using unat_byte_lt [of b] by linarith
  then have "unat b div 32 * 32 * 2 ^ 24 < 2 ^ 32" by simp
  then show ?thesis
    by (simp only: unsigned_push_bit_eq u CBS_ASN1_TAG_SHIFT_def)
      (simp add: push_bit_eq_mult take_bit_nat_eq_self)
qed

lemma tag_number_word: "unat (ucast (b :: byte) AND 0x1f :: u32) = unat b mod 32"
proof -
  have "(ucast b AND 0x1f :: u32) = ucast (b AND 0x1f)"
    by (simp add: unsigned_and_eq)
  then show ?thesis by (simp add: byte_and_1f)
qed

lemma tag_compose:
  fixes n :: u32
  assumes "unat n < 2 ^ 29"
  shows "unat (push_bit CBS_ASN1_TAG_SHIFT (ucast (b :: byte) AND 0xe0 :: u32) OR n)
    = unat b div 32 * 2 ^ 29 + unat n"
proof -
  let ?c = "of_nat (unat b div 32) :: u32"
  have "unat b div 32 < 8" using unat_byte_lt [of b] by linarith
  then have c: "unat ?c = unat b div 32" "unat b div 32 < 8"
    by (simp_all add: unat_of_nat)
  have "unat (push_bit 29 ?c) = unat b div 32 * 2 ^ 29"
    using c by (simp only: unsigned_push_bit_eq) (simp add: push_bit_eq_mult take_bit_nat_eq_self)
  then have "push_bit CBS_ASN1_TAG_SHIFT (ucast b AND 0xe0 :: u32) = push_bit 29 ?c"
    using tag_class_word [of b] by (simp only: word_unat_eq_iff)
  moreover have "unat (push_bit 29 ?c OR n) = unat ?c * 2 ^ 29 + unat n"
    using assms c by (intro word_shift_or) auto
  ultimately show ?thesis using c by simp
qed

lemmas tag_compose_word = tag_compose [THEN word_eq_of_natI]

lemma parse_asn1_tag_Cons:
  "parse_asn1_tag (b # s) =
     (if unat b mod 32 = 31 then
        (case parse_base128_integer s of
           (None, r) \<Rightarrow> (None, r)
         | (Some v, r) \<Rightarrow>
             if 2 ^ 29 \<le> unat v \<or> unat v < 31 then (None, r)
             else (Some (of_nat (unat b div 32 * 2 ^ 29 + unat v)), r))
      else (Some (of_nat (unat b div 32 * 2 ^ 29 + unat b mod 32)), s))"
proof -
  have mask: "unat (ucast CBS_ASN1_TAG_NUMBER_MASK :: u64) = 2 ^ 29 - 1"
    by (simp add: CBS_ASN1_TAG_NUMBER_MASK_def CBS_ASN1_TAG_SHIFT_def)
  have num: "(ucast b AND 0x1f = (0x1f :: u32)) = (unat b mod 32 = 31)"
    using tag_number_word [of b] by (simp add: word_unat_eq_iff)
  have low: "push_bit CBS_ASN1_TAG_SHIFT (ucast b AND 0xe0) OR (ucast b AND 0x1f :: u32)
      = of_nat (unat b div 32 * 2 ^ 29 + unat b mod 32)"
  proof -
    have "unat (ucast b AND 0x1f :: u32) < 2 ^ 29"
      using mod_less_divisor [of 32 "unat b"] by (simp add: tag_number_word)
    then show ?thesis using tag_compose_word by (simp only: tag_number_word)
  qed
  have high: "push_bit CBS_ASN1_TAG_SHIFT (ucast b AND 0xe0) OR (ucast v :: u32)
      = of_nat (unat b div 32 * 2 ^ 29 + unat v)" if "unat v < 2 ^ 29" for v :: u64
  proof -
    have "unat (ucast v :: u32) = unat v"
      using that by (simp only: unsigned_ucast_eq) (simp add: take_bit_nat_eq_self)
    then show ?thesis using tag_compose_word [of "ucast v" b] that by (simp only:)
  qed
  have bound: "(v > ucast CBS_ASN1_TAG_NUMBER_MASK \<or> v < 0x1f) = (2 ^ 29 \<le> unat v \<or> unat v < 31)"
    for v :: u64
    using mask by (auto simp: word_less_nat_alt)
  show ?thesis
  proof (cases "unat b mod 32 = 31")
    case False
    then show ?thesis by (simp add: parse_asn1_tag_def Let_def num low
        del: of_nat_add of_nat_mult push_bit_and)
  next
    case True
    show ?thesis
    proof (cases "parse_base128_integer s")
      case (Pair a r)
      then show ?thesis using True
        by (cases a) (auto simp: parse_asn1_tag_def Let_def num bound high
            simp del: of_nat_add of_nat_mult push_bit_and)
    qed
  qed
qed

lemma parse_asn1_tag_iff:
  "parse_asn1_tag s = (Some t, r) \<longleftrightarrow> s = der_tag t @ r"
proof
  assume p: "parse_asn1_tag s = (Some t, r)"
  then obtain b s' where s: "s = b # s'" by (cases s) (auto simp: parse_asn1_tag_def)
  have c: "unat b div 32 < 8" using unat_byte_lt [of b] by linarith
  show "s = der_tag t @ r"
  proof (cases "unat b mod 32 = 31")
    case False
    then have n: "unat b mod 32 < 31" using mod_less_divisor [of 32 "unat b"] by linarith
    have t: "t = of_nat (unat b div 32 * 2 ^ 29 + unat b mod 32)" "r = s'"
      using p False by (auto simp: s parse_asn1_tag_Cons)
    then have "unat t = unat b div 32 * 2 ^ 29 + unat b mod 32"
      using c n by (simp add: unat_of_nat del: of_nat_add of_nat_mult)
    then have "unat t div 2 ^ 29 = unat b div 32" "unat t mod 2 ^ 29 = unat b mod 32"
      using n by simp_all
    then show ?thesis using n t s by (simp add: der_tag_def Let_def del: of_nat_add of_nat_mult)
  next
    case True
    then obtain v where v: "parse_base128_integer s' = (Some v, r)" "31 \<le> unat v" "unat v < 2 ^ 29"
      and t: "t = of_nat (unat b div 32 * 2 ^ 29 + unat v)"
      using p by (auto simp: s parse_asn1_tag_Cons split: prod.splits option.splits if_splits)
    have "unat t = unat b div 32 * 2 ^ 29 + unat v"
      using c v t by (simp add: unat_of_nat del: of_nat_add of_nat_mult)
    then have "unat t div 2 ^ 29 = unat b div 32" "unat t mod 2 ^ 29 = unat v"
      using v by simp_all
    moreover have "32 * (unat b div 32) + 31 = unat b" using True by (metis mult_div_mod_eq)
    ultimately show ?thesis using v s parse_base128_integer_iff [of s' v r]
      by (simp add: der_tag_def Let_def del: of_nat_add of_nat_mult)
  qed
next
  assume s: "s = der_tag t @ r"
  let ?c = "unat t div 2 ^ 29" and ?n = "unat t mod 2 ^ 29"
  have tlt: "unat t < 2 ^ 32" using unsigned_less [of t] by simp
  then have c: "?c < 8" by (simp add: less_mult_imp_div_less)
  have eq: "?c * 2 ^ 29 + ?n = unat t" by simp
  show "parse_asn1_tag s = (Some t, r)"
  proof (cases "?n < 31")
    case True
    have "unat (of_nat (32 * ?c + ?n) :: byte) = 32 * ?c + ?n"
      using c True by (simp del: of_nat_add of_nat_mult)
    then show ?thesis
      using True eq by (simp add: s der_tag_def Let_def parse_asn1_tag_Cons
          del: of_nat_add of_nat_mult)
  next
    case False
    have b: "unat (of_nat (32 * ?c + 31) :: byte) = 32 * ?c + 31"
      using c by (simp del: of_nat_add of_nat_mult)
    have v: "unat (of_nat ?n :: u64) = ?n"
      by (simp add: unat_of_nat)
    then have "parse_base128_integer (b128 ?n @ r) = (Some (of_nat ?n), r)"
      using parse_base128_integer_iff [of "b128 ?n @ r" "of_nat ?n" r] by simp
    then show ?thesis
      using False eq b v mod_less_divisor [of "2 ^ 29" "unat t"]
      by (simp add: s der_tag_def Let_def parse_asn1_tag_Cons del: of_nat_add of_nat_mult of_nat_mod)
  qed
qed

section \<open>Lengths\<close>

definition len_octets :: "nat \<Rightarrow> nat" where
  "len_octets n = (if n < 2 ^ 8 then 1 else if n < 2 ^ 16 then 2 else if n < 2 ^ 24 then 3 else 4)"

definition der_len :: "nat \<Rightarrow> byte list" where
  "der_len n = (if n < 128 then [of_nat n]
                else of_nat (128 + len_octets n) # be_bytes (len_octets n) n)"

definition parse_len :: "byte list \<Rightarrow> (nat \<times> nat) option" where
  "parse_len h =
     (case h of [] \<Rightarrow> None
      | lb # h \<Rightarrow>
          if unat lb < 128 then Some (unat lb, 1)
          else let k = unat lb mod 128; n = be_val (take k h) in
            if k = 0 \<or> k > 4 \<or> length h < k \<or> n < 128 \<or> n < 256 ^ (k - 1) then None
            else Some (n, Suc k))"

lemma len_octets_unique:
  assumes "n < 256 ^ k" "256 ^ (k - 1) \<le> n" "128 \<le> n" "k \<noteq> 0" "k \<le> 4"
  shows "len_octets n = k"
proof -
  have "k = 1 \<or> k = 2 \<or> k = 3 \<or> k = 4" using assms by linarith
  then show ?thesis using assms by (auto simp: len_octets_def)
qed

lemma len_octets_bounds:
  assumes "128 \<le> n" "n < 2 ^ 32"
  shows "len_octets n \<noteq> 0" "len_octets n \<le> 4" "n < 256 ^ len_octets n"
    "256 ^ (len_octets n - 1) \<le> n"
  using assms by (auto simp: len_octets_def)

lemma parse_len_SomeD:
  assumes "parse_len h = Some (n, k)"
  shows "n < 2 ^ 32 \<and> h = der_len n @ drop k h \<and> length (der_len n) = k"
proof -
  obtain lb h' where h: "h = lb # h'" using assms by (cases h) (auto simp: parse_len_def)
  show ?thesis
  proof (cases "unat lb < 128")
    case True
    with assms show ?thesis by (auto simp: h parse_len_def der_len_def)
  next
    case False
    define j where "j = unat lb mod 128"
    have j: "j \<noteq> 0" "j \<le> 4" "j \<le> length h'" and n: "n = be_val (take j h')" "128 \<le> n" "256 ^ (j - 1) \<le> n"
      and k: "k = Suc j"
      using assms False by (auto simp: h parse_len_def Let_def j_def split: if_splits)
    have nlt: "n < 256 ^ j" using be_val_less [of "take j h'"] j n by simp
    also have "(256::nat) ^ j \<le> 256 ^ 4" using j by (intro power_increasing) auto
    finally have "n < 2 ^ 32" by simp
    moreover have oct: "len_octets n = j" using len_octets_unique [OF nlt] n j by simp
    moreover have "be_bytes j n = take j h'"
      using be_bytes_be_val [of "take j h'"] j n by simp
    moreover have "unat lb = 128 + j"
      using False unat_byte_lt [of lb] le_mod_geq [of 128 "unat lb"] by (simp add: j_def less_diff_conv2)
    then have "of_nat (128 + j) = lb" by (metis word_eq_of_natI)
    ultimately show ?thesis using n k j by (simp add: h der_len_def del: of_nat_add)
  qed
qed

lemma parse_len_der_len:
  assumes "n < 2 ^ 32"
  shows "parse_len (der_len n @ r) = Some (n, length (der_len n))"
proof (cases "n < 128")
  case True
  then show ?thesis by (simp add: parse_len_def der_len_def)
next
  case False
  let ?k = "len_octets n"
  note k = len_octets_bounds [of n]
  have "unat (of_nat (128 + ?k) :: byte) = 128 + ?k"
    using k False assms by (simp del: of_nat_add)
  moreover have "be_val (be_bytes ?k n) = n"
    using k False assms by (simp add: be_val_be_bytes)
  ultimately show ?thesis
    using k False assms by (simp add: parse_len_def der_len_def Let_def del: of_nat_add)
qed

lemma length_b128_hi: "n < 128 ^ k \<Longrightarrow> length (b128_hi n) \<le> k"
proof (induction k arbitrary: n)
  case (Suc k)
  then have "n div 128 < 128 ^ k" by (simp add: less_mult_imp_div_less mult.commute)
  then show ?case using Suc.IH [of "n div 128"] by (subst b128_hi.simps) simp
qed simp

lemma length_der_tag: "length (der_tag t) \<le> 6"
proof -
  have "unat t mod 2 ^ 29 < 2 ^ 29" by simp
  then have "unat t mod 2 ^ 29 div 128 < 128 ^ 4" by (simp add: less_mult_imp_div_less)
  then show ?thesis
    using length_b128_hi by (fastforce simp: der_tag_def Let_def b128_def)
qed

lemma any_asn1_element_eq:
  "cbs_get_any_asn1_element False s =
     (case parse_asn1_tag s of (None, _) \<Rightarrow> (None, s)
      | (Some t, h) \<Rightarrow>
        (case parse_len h of None \<Rightarrow> (None, s)
         | Some (n, k) \<Rightarrow>
            let hl = length s - length h + k in
            if length s < n + hl then (None, s)
            else (Some (take (n + hl) s, t, hl), drop (n + hl) s)))"
proof (cases "parse_asn1_tag s")
  case (Pair p h)
  show ?thesis
  proof (cases p)
    case None
    with Pair show ?thesis by (simp add: cbs_get_any_asn1_element_def)
  next
    case (Some t)
    then have s: "s = der_tag t @ h" using Pair parse_asn1_tag_iff by simp
    show ?thesis
    proof (cases h)
      case Nil
      with Pair Some show ?thesis by (simp add: cbs_get_any_asn1_element_def parse_len_def)
    next
      case (Cons lb h')
      show ?thesis
      proof (cases "unat lb < 128")
        case True
        then show ?thesis using Pair Some Cons s byte_and_80 [of lb]
          by (simp add: cbs_get_any_asn1_element_def parse_len_def CBS_len_def CBS_get_bytes_eq Let_def)
      next
        case False
        define k where "k = unat lb mod 128"
        define n where "n = be_val (take k h')"
        have v: "unat (be_word (take k h')) = n" if "k \<le> 4"
          using that by (auto simp: n_def intro!: unat_be_word)
        have vs: "drop_bit ((k - 1) * 8) (be_word (take k h')) = 0 \<longleftrightarrow> n < 256 ^ (k - 1)" if "k \<le> 4"
        proof -
          have "unat (drop_bit ((k - 1) * 8) (be_word (take k h'))) = n div 256 ^ (k - 1)"
            unfolding unat_drop_bit v [OF that]
            by (simp add: mult.commute [of _ 8] power_mult)
          then show ?thesis by (metis div_eq_0_iff unat_eq_zero power_not_zero zero_neq_numeral)
        qed
        have small: "n < 2 ^ 32" if "k \<le> 4"
        proof -
          have "n < 256 ^ length (take k h')" unfolding n_def by (rule be_val_less)
          also have "(256::nat) ^ length (take k h') \<le> 256 ^ 4"
            using that by (intro power_increasing) auto
          finally show ?thesis by simp
        qed
        have no_wrap: "(n + (length s - length h') + k) mod 2 ^ 64 = n + (length s - length h') + k"
          if "k \<le> 4"
          using small [OF that] length_der_tag [of t] s Cons that by simp
        have lt: "be_word (take k h') < 128 \<longleftrightarrow> n < 128" if "k \<le> 4"
          using v [OF that] by (simp add: word_less_nat_alt)
        show ?thesis
        proof (cases "k = 0 \<or> k > 4 \<or> length h' < k")
          case True
          then show ?thesis using Pair Some Cons False byte_and_80 [of lb] byte_and_7f [of lb]
            by (auto simp: cbs_get_any_asn1_element_def parse_len_def CBS_len_def Let_def
                k_def cbs_get_u_eq)
        next
          case k: False
          then have k4: "k \<le> 4" by simp
          show ?thesis
            using Pair Some Cons False byte_and_80 [of lb] byte_and_7f [of lb] k
              v [OF k4] vs [OF k4] no_wrap [OF k4] lt [OF k4]
            by (simp add: cbs_get_any_asn1_element_def parse_len_def CBS_len_def Let_def
                cbs_get_u_eq CBS_get_bytes_eq k_def [symmetric] n_def [symmetric] s)
        qed
      qed
    qed
  qed
qed

section \<open>Elements\<close>

definition der_header :: "u32 \<Rightarrow> nat \<Rightarrow> byte list" where
  "der_header t n = der_tag t @ der_len n"

definition der_element :: "u32 \<Rightarrow> byte list \<Rightarrow> byte list" where
  "der_element t c = der_header t (length c) @ c"

lemma any_asn1_element_iff:
  "CBS_get_any_asn1_element s = (Some (el, t, hl), r) \<longleftrightarrow>
     (\<exists>c. length c < 2 ^ 32 \<and> el = der_element t c \<and> hl = length (der_header t (length c))
          \<and> s = el @ r)" (is "?L \<longleftrightarrow> ?R")
proof
  assume ?L
  then obtain h n k where p: "parse_asn1_tag s = (Some t, h)" and l: "parse_len h = Some (n, k)"
    and hl: "hl = length s - length h + k" and len: "n + hl \<le> length s"
    and el: "el = take (n + hl) s" "r = drop (n + hl) s"
    by (auto simp: CBS_get_any_asn1_element_def any_asn1_element_eq Let_def
        split: prod.splits option.splits if_splits)
  have s: "s = der_tag t @ h" using p parse_asn1_tag_iff by simp
  obtain x where h: "n < 2 ^ 32" "h = der_len n @ x" "length (der_len n) = k"
    using parse_len_SomeD [OF l] by blast
  define c where "c = take n x"
  have c: "length c = n" using len hl h s by (simp add: c_def)
  have "take (n + hl) s = der_tag t @ der_len n @ c"
    using hl h by (simp add: c_def s)
  then show ?R using el c hl h s
    by (intro exI [of _ c]) (auto simp: der_element_def der_header_def)
next
  assume ?R
  then obtain c where c: "length c < 2 ^ 32" "el = der_element t c"
    "hl = length (der_header t (length c))" "s = el @ r" by blast
  have "parse_asn1_tag s = (Some t, der_len (length c) @ c @ r)"
    using parse_asn1_tag_iff c by (simp add: der_element_def der_header_def)
  moreover have "parse_len (der_len (length c) @ c @ r) = Some (length c, length (der_len (length c)))"
    using parse_len_der_len c(1) by blast
  ultimately show ?L using c
    by (simp add: CBS_get_any_asn1_element_def any_asn1_element_eq Let_def
        der_element_def der_header_def)
qed

lemma any_asn1_element_None:
  "CBS_get_any_asn1_element s = (None, r) \<Longrightarrow> r = s"
  by (auto simp: CBS_get_any_asn1_element_def any_asn1_element_eq Let_def
      split: prod.splits option.splits if_splits)

lemma CBS_skip_header: "CBS_skip (length (der_header t n)) (der_header t n @ c) = (Some (), c)"
  by (simp add: CBS_skip_def cbs_get_def)

lemma any_asn1_iff:
  "CBS_get_any_asn1 s = (Some (c, t), r) \<longleftrightarrow> length c < 2 ^ 32 \<and> s = der_element t c @ r"
proof
  assume "CBS_get_any_asn1 s = (Some (c, t), r)"
  then obtain el hl where e: "CBS_get_any_asn1_element s = (Some (el, t, hl), r)"
    and sk: "CBS_skip hl el = (Some (), c)"
    by (auto simp: CBS_get_any_asn1_def split: prod.splits option.splits)
  from e obtain c' where c': "length c' < 2 ^ 32" "el = der_element t c'"
    "hl = length (der_header t (length c'))" "s = el @ r"
    by (auto simp: any_asn1_element_iff)
  with sk have "c = c'" by (simp add: der_element_def CBS_skip_header)
  with c' show "length c < 2 ^ 32 \<and> s = der_element t c @ r" by simp
next
  assume "length c < 2 ^ 32 \<and> s = der_element t c @ r"
  then have "CBS_get_any_asn1_element s =
      (Some (der_element t c, t, length (der_header t (length c))), r)"
    by (auto simp: any_asn1_element_iff)
  then show "CBS_get_any_asn1 s = (Some (c, t), r)"
    by (simp add: CBS_get_any_asn1_def der_element_def CBS_skip_header)
qed

lemma get_asn1_iff:
  "CBS_get_asn1 t s = (Some c, r) \<longleftrightarrow> length c < 2 ^ 32 \<and> s = der_element t c @ r"
proof -
  have "CBS_get_asn1 t s = (Some c, r) \<longleftrightarrow> CBS_get_any_asn1 s = (Some (c, t), r)"
    by (auto simp: CBS_get_asn1_def cbs_get_asn1_def CBS_get_any_asn1_def
        split: prod.splits option.splits)
  then show ?thesis by (simp add: any_asn1_iff)
qed

lemma get_asn1_element_iff:
  "CBS_get_asn1_element t s = (Some el, r) \<longleftrightarrow>
     (\<exists>c. length c < 2 ^ 32 \<and> el = der_element t c \<and> s = el @ r)"
proof -
  have "CBS_get_asn1_element t s = (Some el, r) \<longleftrightarrow>
      (\<exists>hl. CBS_get_any_asn1_element s = (Some (el, t, hl), r))"
    by (auto simp: CBS_get_asn1_element_def cbs_get_asn1_def split: prod.splits option.splits)
  then show ?thesis by (auto simp: any_asn1_element_iff)
qed

text \<open>No element encoding is a proper prefix of another.\<close>

lemma der_element_inj:
  assumes "der_element t c @ r = der_element t' c' @ r'" "length c < 2 ^ 32" "length c' < 2 ^ 32"
  shows "t = t' \<and> c = c' \<and> r = r'"
proof -
  have "CBS_get_any_asn1 (der_element t c @ r) = (Some (c, t), r)"
    "CBS_get_any_asn1 (der_element t c @ r) = (Some (c', t'), r')"
    using assms any_asn1_iff by (blast, metis any_asn1_iff)
  then show ?thesis by simp
qed

section \<open>Integers\<close>

fun base256 :: "nat \<Rightarrow> byte list" where
  "base256 n = (if n = 0 then [] else base256 (n div 256) @ [of_nat n])"

declare base256.simps [simp del]

definition der_uint :: "nat \<Rightarrow> byte list" where
  "der_uint n =
     (let bs = base256 n in
      if bs = [] then [0] else if 128 \<le> unat (hd bs) then 0 # bs else bs)"

lemma base256_0 [simp]: "base256 0 = []"
  by (simp add: base256.simps)

lemma be_val_base256 [simp]: "be_val (base256 n) = n"
proof (induction n rule: base256.induct)
  case (1 n)
  then show ?case by (cases "n = 0") (simp_all add: base256.simps [of n] del: of_nat_mod)
qed

lemma base256_eq_Nil [simp]: "base256 n = [] \<longleftrightarrow> n = 0"
  by (auto simp: base256.simps [of n])

lemma base256_be_val:
  "bs = [] \<or> hd bs \<noteq> 0 \<Longrightarrow> base256 (be_val bs) = bs"
proof (induction bs rule: rev_induct)
  case (snoc b bs)
  have div: "(be_val bs * 256 + unat b) div 256 = be_val bs"
    and mod: "(of_nat (be_val bs * 256 + unat b) :: byte) = b"
    by (simp, rule word_unat_eq_iff [THEN iffD2], simp del: of_nat_add of_nat_mult)
  have IH: "base256 (be_val bs) = bs" using snoc by (cases bs) auto
  have nz: "be_val bs * 256 + unat b \<noteq> 0"
  proof
    assume z: "be_val bs * 256 + unat b = 0"
    then have "be_val bs = 0" "unat b = 0" by simp_all
    then have "bs = []" using IH by simp
    with snoc.prems \<open>unat b = 0\<close> show False by (simp add: unat_eq_zero)
  qed
  show ?case
    using div mod IH nz by (simp add: base256.simps [of "be_val bs * 256 + unat b"]
        del: of_nat_add of_nat_mult)
qed simp

lemma hd_base256: "n \<noteq> 0 \<Longrightarrow> hd (base256 n) \<noteq> 0"
proof (induction n rule: base256.induct)
  case (1 n)
  show ?case
  proof (cases "n div 256 = 0")
    case True
    then have "n < 256" by (simp add: div_eq_0_iff)
    then have "base256 n = [of_nat n]" using "1.prems" by (simp add: base256.simps [of n])
    moreover have "(of_nat n :: byte) \<noteq> 0"
      using "1.prems" \<open>n < 256\<close> by (metis mod_less unat_0 unat_of_nat_byte)
    ultimately show ?thesis by simp
  next
    case False
    then have "base256 (n div 256) \<noteq> []" by simp
    then show ?thesis using 1 False by (simp add: base256.simps [of n])
  qed
qed

lemma be_val_zero_Cons [simp]: "be_val (0 # bs) = be_val bs"
  by (simp add: be_val_Cons)

lemma be_val_der_uint [simp]: "be_val (der_uint n) = n"
  by (auto simp: der_uint_def Let_def)

text \<open>The contents the reader insists on: not empty, not negative, no redundant zero.\<close>

definition uint_minimal :: "byte list \<Rightarrow> bool" where
  "uint_minimal d \<longleftrightarrow> d \<noteq> [] \<and> d ! 0 AND 0x80 = 0
     \<and> \<not> (d ! 0 = 0 \<and> length d > 1 \<and> d ! 1 AND 0x80 = 0)"

lemma uint_minimal_iff: "uint_minimal d \<longleftrightarrow> d = der_uint (be_val d)"
proof
  assume m: "uint_minimal d"
  then obtain b d' where d: "d = b # d'" by (cases d) (auto simp: uint_minimal_def)
  show "d = der_uint (be_val d)"
  proof (cases "b = 0")
    case False
    then show ?thesis using m base256_be_val [of d]
      by (auto simp: d uint_minimal_def der_uint_def Let_def byte_and_80)
  next
    case True
    show ?thesis
    proof (cases d')
      case Nil
      then show ?thesis by (simp add: d True der_uint_def)
    next
      case (Cons c d'')
      then have c: "128 \<le> unat c" using m True by (simp add: d uint_minimal_def byte_and_80)
      then have "c \<noteq> 0" by auto
      then show ?thesis using c base256_be_val [of d'] Cons
        by (simp add: d True der_uint_def Let_def)
    qed
  qed
next
  assume d: "d = der_uint (be_val d)"
  let ?bs = "base256 (be_val d)"
  show "uint_minimal d"
  proof (cases "?bs = []")
    case True
    then have "d = [0]" using d by (simp add: der_uint_def)
    then show ?thesis by (simp add: uint_minimal_def)
  next
    case False
    then obtain b bs where bs: "?bs = b # bs" by (cases ?bs) auto
    have "be_val d \<noteq> 0" using False by simp
    then have b: "b \<noteq> 0" using hd_base256 [of "be_val d"] bs by simp
    show ?thesis
    proof (cases "128 \<le> unat b")
      case True
      then have "d = 0 # b # bs" using d bs by (simp add: der_uint_def)
      then show ?thesis using True by (simp add: uint_minimal_def byte_and_80)
    next
      case False
      then have "d = b # bs" using d bs by (simp add: der_uint_def)
      then show ?thesis using False b by (simp add: uint_minimal_def byte_and_80)
    qed
  qed
qed

lemma asn1_uint64_loop_eq:
  "asn1_uint64_loop v d =
     (if unat v * 256 ^ length d + be_val d < 2 ^ 64
      then Some (of_nat (unat v * 256 ^ length d + be_val d)) else None)"
proof (induction d arbitrary: v)
  case Nil
  then show ?case using unsigned_less [of v] by simp
next
  case (Cons b d)
  show ?case
  proof (cases "drop_bit 56 v = 0")
    case True
    then have "unat v div 2 ^ 56 = 0" using unat_drop_bit [of 56 v] by simp
    then have v: "unat v < 72057594037927936" by (simp add: div_eq_0_iff)
    then have "unat v * 256 + unat b < 18446744073709551616"
      using unat_byte_lt [of b] by linarith
    then have "unat (push_bit 8 v OR ucast b) = unat v * 256 + unat b"
      using word_shift_or [of "ucast b :: u64" 8 v] by simp
    then show ?thesis using True Cons [of "push_bit 8 v OR ucast b"]
      by (simp add: be_val_Cons algebra_simps del: of_nat_add of_nat_mult of_nat_power)
  next
    case False
    then have "unat v div 2 ^ 56 \<noteq> 0" using unat_drop_bit [of 56 v] unat_eq_zero by metis
    then have "2 ^ 56 \<le> unat v" by (simp add: div_eq_0_iff)
    then have "2 ^ 56 * 256 * 1 \<le> unat v * 256 * 256 ^ length d"
      by (intro mult_le_mono) auto
    then have "\<not> unat v * 256 ^ length (b # d) + be_val (b # d) < 2 ^ 64"
      by (simp add: algebra_simps)
    then show ?thesis using False by simp
  qed
qed

lemma get_asn1_uint64_iff:
  "CBS_get_asn1_uint64 s = (Some v, r) \<longleftrightarrow>
     s = der_element CBS_ASN1_INTEGER (der_uint (unat v)) @ r"
proof -
  have eq: "CBS_get_asn1_uint64 s =
     (case CBS_get_asn1 CBS_ASN1_INTEGER s of (None, r) \<Rightarrow> (None, r)
      | (Some d, r) \<Rightarrow> (if uint_minimal d then asn1_uint64_loop 0 d else None, r))"
    by (auto simp: CBS_get_asn1_uint64_def CBS_data_def CBS_len_def Let_def uint_minimal_def
        split: prod.splits option.splits)
  have len: "length (der_uint n) < 2 ^ 32" if "n < 2 ^ 64" for n
  proof -
    have "length (base256 n) \<le> 8"
    proof (rule ccontr)
      assume "\<not> length (base256 n) \<le> 8"
      then obtain b bs where bs: "base256 n = b # bs" "8 \<le> length bs" by (cases "base256 n") auto
      have "n \<noteq> 0" using bs by (cases "n = 0") auto
      then have "1 \<le> unat b" using hd_base256 [of n] bs by (simp add: Suc_le_eq unat_gt_0)
      then have "1 * 256 ^ 8 \<le> unat b * 256 ^ length bs"
        using bs by (intro mult_le_mono power_increasing) auto
      then have "256 ^ 8 \<le> n" using be_val_base256 [of n] bs by (simp add: be_val_Cons)
      with that show False by simp
    qed
    then show ?thesis by (simp add: der_uint_def Let_def)
  qed
  show ?thesis
  proof
    assume "CBS_get_asn1_uint64 s = (Some v, r)"
    then obtain d where d: "CBS_get_asn1 CBS_ASN1_INTEGER s = (Some d, r)" "uint_minimal d"
      "asn1_uint64_loop 0 d = Some v"
      by (auto simp: eq split: prod.splits option.splits if_splits)
    then have "unat v = be_val d"
      by (auto simp: asn1_uint64_loop_eq unat_of_nat split: if_splits)
    moreover have "d = der_uint (be_val d)" using d(2) uint_minimal_iff by simp
    ultimately show "s = der_element CBS_ASN1_INTEGER (der_uint (unat v)) @ r"
      using d(1) get_asn1_iff by metis
  next
    assume s: "s = der_element CBS_ASN1_INTEGER (der_uint (unat v)) @ r"
    have v: "unat v < 2 ^ 64" using unsigned_less [of v] by simp
    then have "CBS_get_asn1 CBS_ASN1_INTEGER s = (Some (der_uint (unat v)), r)"
      using s len get_asn1_iff by blast
    moreover have "uint_minimal (der_uint (unat v))" by (simp add: uint_minimal_iff)
    ultimately show "CBS_get_asn1_uint64 s = (Some v, r)"
      using v by (simp add: eq asn1_uint64_loop_eq)
  qed
qed

text \<open>The two's complement value of a byte string, and the minimal signed encodings.\<close>

definition be_sval :: "byte list \<Rightarrow> int" where
  "be_sval d = (if d \<noteq> [] \<and> 128 \<le> unat (hd d) then int (be_val d) - 256 ^ length d else int (be_val d))"

definition int_minimal :: "byte list \<Rightarrow> bool" where
  "int_minimal d \<longleftrightarrow> d \<noteq> [] \<and>
     \<not> (length d > 1 \<and> d ! 0 = 0 \<and> d ! 1 AND 0x80 = 0) \<and>
     \<not> (length d > 1 \<and> d ! 0 = 0xff \<and> d ! 1 AND 0x80 \<noteq> 0)"

lemma sint_u64:
  assumes "k < 2 ^ 64"
  shows "sint (of_nat k :: u64) = (if k < 2 ^ 63 then int k else int k - 2 ^ 64)"
proof -
  have u: "uint (of_nat k :: u64) = int k"
    using assms by (simp add: uint_nat unat_of_nat)
  have s: "sint (of_nat k :: u64) = (int k + 2 ^ 63) mod 2 ^ 64 - 2 ^ 63"
    unfolding sint_uint u by (simp add: signed_take_bit_eq_take_bit_shift take_bit_eq_mod)
  show ?thesis
  proof (cases "k < 2 ^ 63")
    case True
    then have "(int k + 2 ^ 63) mod 2 ^ 64 = int k + 2 ^ 63" by simp
    then show ?thesis using True s by simp
  next
    case False
    then have "(int k + 2 ^ 63) mod 2 ^ 64 = (int k + 2 ^ 63 - 2 ^ 64) mod 2 ^ 64"
      by (intro mod_pos_geq) simp_all
    also have "\<dots> = int k + 2 ^ 63 - 2 ^ 64"
      using False assms by (intro mod_pos_pos_trivial) simp_all
    finally show ?thesis using False s by simp
  qed
qed

lemma le_fill:
  "k \<le> length d \<Longrightarrow> length d \<le> length u \<Longrightarrow>
   fold (\<lambda>i u. u[i := d ! (length d - i - 1)]) [0..<k] u = take k (rev d) @ drop k u"
proof (induction k)
  case (Suc k)
  have "rev d ! k = d ! (length d - k - 1)" using Suc.prems by (simp add: rev_nth)
  moreover have "take (Suc k) (rev d) = take k (rev d) @ [rev d ! k]"
    using Suc.prems by (simp add: take_Suc_conv_app_nth)
  moreover have "drop k u = u ! k # drop (Suc k) u"
    using Suc.prems by (simp add: Cons_nth_drop_Suc)
  ultimately show ?case using Suc by (simp add: list_update_append)
qed simp

lemma be_val_replicate_0: "be_val (replicate m 0) = 0"
  by (induction m) simp_all

lemma be_val_replicate_ff: "be_val (replicate m 0xff) + 1 = 256 ^ m"
  by (induction m) (simp_all add: be_val_Cons)

lemma sign_extend:
  assumes d: "d \<noteq> []" "length d \<le> 8"
  shows "sint (of_nat (be_val (replicate (8 - length d) (if 128 \<le> unat (hd d) then 0xff else 0) @ d)) :: u64)
    = be_sval d" (is "sint (of_nat ?n :: u64) = _")
proof -
  obtain b ds where bs: "d = b # ds" using d by (cases d) auto
  have pow: "(256::nat) ^ (8 - length d) * 256 ^ length d = 2 ^ 64"
    using d by (simp add: power_add [symmetric])
  have lt: "be_val d < 256 ^ length d" by (rule be_val_less)
  have half: "128 * 256 ^ length ds \<le> be_val d" if "128 \<le> unat b"
    using that by (simp add: bs be_val_Cons trans_le_add1)
  show ?thesis
  proof (cases "128 \<le> unat b")
    case True
    have "be_val (replicate (8 - length d) 0xff) * 256 ^ length d + 256 ^ length d = 2 ^ 64"
      using pow be_val_replicate_ff [of "8 - length d"] by (metis add.commute mult_Suc Suc_eq_plus1)
    then have n: "?n + 256 ^ length d = 2 ^ 64 + be_val d" using True by (simp add: bs be_val_append)
    have "256 ^ length d \<le> 2 * be_val d" using half [OF True] by (simp add: bs)
    moreover have "(256::nat) ^ length d \<le> 256 ^ 8" using d by (intro power_increasing) auto
    ultimately have bounds: "2 ^ 63 \<le> ?n" "?n < 2 ^ 64" using n lt by simp_all
    have "int ?n + 256 ^ length d = 2 ^ 64 + int (be_val d)"
      using arg_cong [OF n, of int] by simp
    then show ?thesis
      using bounds True by (subst sint_u64) (simp_all add: be_sval_def bs)
  next
    case False
    have n: "?n = be_val d" using False by (simp add: bs be_val_append be_val_replicate_0)
    have "2 * be_val d < 256 ^ length d"
    proof -
      have arith: "2 * (u * X + v) < 256 * X" if "v < X" "u < 128" for u v X :: nat
      proof -
        have "Suc u * X \<le> 128 * X" using that by (intro mult_le_mono1) simp
        moreover have "X + Y \<le> 128 * X \<Longrightarrow> 2 * (Y + v) < 256 * X" for Y
          using that(1) by simp
        ultimately show ?thesis by simp
      qed
      have "2 * (unat b * 256 ^ length ds + be_val ds) < 256 * 256 ^ length ds"
        using False by (intro arith be_val_less) simp
      then show ?thesis by (simp add: bs be_val_Cons)
    qed
    moreover have "(256::nat) ^ length d \<le> 256 ^ 8" using d by (intro power_increasing) auto
    ultimately have "?n < 2 ^ 63" using n by simp
    then show ?thesis using False n by (subst sint_u64) (simp_all add: be_sval_def bs)
  qed
qed

lemma get_asn1_int64_iff:
  "CBS_get_asn1_int64 s = (Some v, r) \<longleftrightarrow>
     (\<exists>d. int_minimal d \<and> length d \<le> 8 \<and> be_sval d = sint v
          \<and> s = der_element CBS_ASN1_INTEGER d @ r)"
proof -
  define val64 where "val64 d =
    (of_nat (be_val (replicate (8 - length d) (if 128 \<le> unat (hd d) then 0xff else 0) @ d)) :: u64)" for d
  have fill: "(of_nat (be_val (rev (fold (\<lambda>i u. u[i := d ! (length d - i - 1)]) [0..<length d]
      (replicate 8 (if d ! 0 AND 0x80 \<noteq> 0 then 0xff else 0))))) :: u64) = val64 d"
    if "d \<noteq> []" "length d \<le> 8" for d :: "byte list"
    using that le_fill [of "length d" d "replicate 8 x" for x] byte_and_80 [of "hd d"]
    by (simp add: val64_def hd_conv_nth)
  have eq: "CBS_get_asn1_int64 s =
     (case CBS_get_asn1 CBS_ASN1_INTEGER s of (None, r) \<Rightarrow> (None, r)
      | (Some d, r) \<Rightarrow> (if int_minimal d \<and> length d \<le> 8 then Some (val64 d) else None, r))"
    using fill by (auto simp: CBS_get_asn1_int64_def CBS_data_def CBS_len_def Let_def int_minimal_def
        split: prod.splits option.splits)
  have val: "val64 d = v \<longleftrightarrow> be_sval d = sint v" if "int_minimal d" "length d \<le> 8" for d
  proof -
    have "d \<noteq> []" using that by (simp add: int_minimal_def)
    then have "sint (val64 d) = be_sval d"
      unfolding val64_def using that(2) by (rule sign_extend)
    then show ?thesis using signed_word_eqI [of "val64 d" v] by auto
  qed
  have small: "length d \<le> 8 \<Longrightarrow> length d < 2 ^ 32" for d :: "byte list" by simp
  show ?thesis
  proof
    assume "CBS_get_asn1_int64 s = (Some v, r)"
    then obtain d where "CBS_get_asn1 CBS_ASN1_INTEGER s = (Some d, r)" "int_minimal d"
      "length d \<le> 8" "val64 d = v"
      by (auto simp: eq split: prod.splits option.splits if_splits)
    then show "\<exists>d. int_minimal d \<and> length d \<le> 8 \<and> be_sval d = sint v
        \<and> s = der_element CBS_ASN1_INTEGER d @ r"
      using val get_asn1_iff by metis
  next
    assume "\<exists>d. int_minimal d \<and> length d \<le> 8 \<and> be_sval d = sint v
        \<and> s = der_element CBS_ASN1_INTEGER d @ r"
    then obtain d where d: "int_minimal d" "length d \<le> 8" "be_sval d = sint v"
      "s = der_element CBS_ASN1_INTEGER d @ r" by blast
    then have "CBS_get_asn1 CBS_ASN1_INTEGER s = (Some d, r)"
      using small get_asn1_iff by blast
    then show "CBS_get_asn1_int64 s = (Some v, r)" unfolding eq using d(1-3) val [of d] by simp
  qed
qed

lemma be_sval_bounds:
  "- (128 * 256 ^ length d) \<le> be_sval (b # d) \<and> be_sval (b # d) < 128 * 256 ^ length d"
proof -
  have v: "int (be_val d) < 256 ^ length d" using be_val_less [of d] by (metis of_nat_less_iff of_nat_numeral of_nat_power)
  have b: "uint b < 256" using unsigned_less [of b] by simp
  have e: "be_sval (b # d) =
      (if 128 \<le> unat b then uint b - 256 else uint b) * 256 ^ length d + int (be_val d)"
    by (cases "128 \<le> unat b") (simp_all add: be_sval_def be_val_Cons left_diff_distrib)
  define X where "X = (256::int) ^ length d"
  define c where "c = (if 128 \<le> unat b then uint b - 256 else uint b)"
  have "128 \<le> unat b \<longleftrightarrow> 128 \<le> uint b" using uint_nat [of b] by linarith
  then have c: "- 128 \<le> c" "c + 1 \<le> 128" using b order_trans [OF _ uint_ge_0 [of b], of "- 128"] by (auto simp: c_def)
  have X: "0 \<le> X" by (simp add: X_def)
  have "- 128 * X \<le> c * X" "(c + 1) * X \<le> 128 * X"
    using c X by (intro mult_right_mono; simp)+
  then have "- (128 * X) \<le> c * X" "c * X + X \<le> 128 * X" by (simp_all add: distrib_right)
  moreover have "0 \<le> int (be_val d)" "int (be_val d) < X" using v by (simp_all add: X_def)
  ultimately show ?thesis unfolding e c_def [symmetric] X_def [symmetric] by linarith
qed

lemma int_minimal_bounds:
  assumes "int_minimal (b # c # d)"
  shows "be_sval (b # c # d) < - (128 * 256 ^ length d) \<or> 128 * 256 ^ length d \<le> be_sval (b # c # d)"
proof -
  define X where "X = (256::int) ^ length d"
  have v: "int (be_val d) < X"
    using be_val_less [of d] unfolding X_def by (metis of_nat_less_iff of_nat_numeral of_nat_power)
  have bc: "uint b < 256" "uint c < 256" "0 \<le> uint c" "0 \<le> uint b"
    using unsigned_less [of b] unsigned_less [of c] by simp_all
  have X: "0 < X" by (simp add: X_def)
  have e: "be_sval (b # c # d) =
      ((if 128 \<le> unat b then uint b - 256 else uint b) * 256 + uint c) * X + int (be_val d)"
    by (cases "128 \<le> unat b")
      (simp_all add: be_sval_def be_val_Cons left_diff_distrib distrib_right X_def)
  define k where "k = (if 128 \<le> unat b then uint b - 256 else uint b) * 256 + uint c"
  have u: "128 \<le> unat b \<longleftrightarrow> 128 \<le> uint b" "128 \<le> unat c \<longleftrightarrow> 128 \<le> uint c"
    using uint_nat [of b] uint_nat [of c] by linarith+
  have z: "b = 0 \<longleftrightarrow> uint b = 0" "b = 0xff \<longleftrightarrow> uint b = 255" by (simp_all add: word_uint_eq_iff)
  have "\<not> (uint b = 0 \<and> uint c < 128)" "\<not> (uint b = 255 \<and> 128 \<le> uint c)"
    using assms u z by (auto simp: int_minimal_def byte_and_80)
  moreover have arith: "(if 128 \<le> x then x - 256 else x) * 256 + y \<le> - 129
      \<or> 128 \<le> (if 128 \<le> x then x - 256 else x) * 256 + y"
    if "0 \<le> x" "x < 256" "0 \<le> y" "y < 256" "\<not> (x = 0 \<and> y < 128)" "\<not> (x = 255 \<and> 128 \<le> y)"
    for x y :: int using that by auto
  ultimately have "k \<le> - 129 \<or> 128 \<le> k" unfolding k_def u using bc arith by blast
  then show ?thesis
  proof
    assume "k \<le> - 129"
    then have "k * X \<le> - 129 * X" using X by (intro mult_right_mono) auto
    then show ?thesis unfolding e k_def [symmetric] X_def [symmetric] using v by simp
  next
    assume "128 \<le> k"
    then have "128 * X \<le> k * X" using X by (intro mult_right_mono) auto
    then show ?thesis unfolding e k_def [symmetric] X_def [symmetric] by simp
  qed
qed

lemma int_minimal_unique:
  assumes m: "int_minimal d" "int_minimal d'" and v: "be_sval d = be_sval d'"
  shows "d = d'"
proof -
  have len: "\<not> length d < length d'" if "int_minimal d" "int_minimal d'" "be_sval d = be_sval d'"
    for d d' :: "byte list"
  proof
    note nd = that(1)
    assume l: "length d < length d'"
    obtain b ds where d: "d = b # ds" using nd by (cases d) (auto simp: int_minimal_def)
    obtain b' c ds' where d': "d' = b' # c # ds'"
      using l d by (cases d'; cases "tl d'") auto
    have "(256::int) ^ length ds \<le> 256 ^ length ds'"
      using l d d' by (intro power_increasing) auto
    then show False
      using be_sval_bounds [of ds b] int_minimal_bounds [of b' c ds'] that
      unfolding d d' by linarith
  qed
  then have l: "length d = length d'" using m v by (metis linorder_less_linear)
  obtain b ds where d: "d = b # ds" using m by (cases d) (auto simp: int_minimal_def)
  obtain b' ds' where d': "d' = b' # ds'" using m by (cases d') (auto simp: int_minimal_def)
  have "int (be_val d) < 256 ^ length d" "int (be_val d') < 256 ^ length d"
    using be_val_less [of d] be_val_less [of d'] l by (metis of_nat_less_iff of_nat_numeral of_nat_power)+
  moreover have "be_sval d = int (be_val d) \<or> be_sval d = int (be_val d) - 256 ^ length d"
    "be_sval d' = int (be_val d') \<or> be_sval d' = int (be_val d') - 256 ^ length d"
    using l by (simp_all add: be_sval_def)
  ultimately have "int (be_val d) = int (be_val d')"
    using v of_nat_0_le_iff [of "be_val d"] of_nat_0_le_iff [of "be_val d'"]
    by (elim disjE) linarith+
  then have "be_val d = be_val d'" by simp
  then show ?thesis using l be_val_inj by blast
qed

section \<open>Bit strings\<close>

lemma byte_and_mask_zero: "(b :: byte) AND (push_bit k 1 - 1) = 0 \<longleftrightarrow> unat b mod 2 ^ k = 0"
proof -
  have "(push_bit k 1 - 1 :: byte) = mask k" by (simp add: mask_eq_decr_exp push_bit_of_1)
  then have "b AND (push_bit k 1 - 1) = 0 \<longleftrightarrow> unat (b AND mask k) = 0"
    by (simp only: unat_eq_zero)
  then show ?thesis by (simp only: unat_and_mask)
qed

lemma valid_bitstring_Cons:
  "CBS_is_valid_asn1_bitstring (u # d) \<longleftrightarrow>
     unat u \<le> 7 \<and> (u = 0 \<or> d \<noteq> [] \<and> unat (d ! (length d - 1)) mod 2 ^ unat u = 0)"
  by (auto simp: CBS_is_valid_asn1_bitstring_def CBS_get_last_u8_def CBS_len_def
      byte_and_mask_zero word_less_nat_alt word_le_nat_alt not_less
      simp del: push_bit_of_1 split: if_splits)

lemma bitstring_index:
  "unat (drop_bit 3 (n :: u32) + 1) = unat n div 8 + 1" "unat (7 - (n AND 7)) = 7 - unat n mod 8"
proof -
  have d: "unat (drop_bit 3 n) = unat n div 8" using unat_drop_bit [of 3 n] by simp
  have "unat n < 2 ^ 32" using unsigned_less [of n] by simp
  then show "unat (drop_bit 3 n + 1) = unat n div 8 + 1"
    using d by (simp add: unat_word_ariths)
  have "(7 :: u32) = mask 3" by (simp add: mask_numeral)
  then have a: "unat (n AND 7) = unat n mod 8" using unat_and_mask [of n 3] by simp
  then have "n AND 7 \<le> 7" by (simp add: word_le_nat_alt)
  then show "unat (7 - (n AND 7)) = 7 - unat n mod 8" using a by (simp add: unat_sub)
qed

lemma has_bit_Cons:
  "CBS_asn1_bitstring_has_bit (u # d) n \<longleftrightarrow>
     CBS_is_valid_asn1_bitstring (u # d) \<and> unat n div 8 < length d
     \<and> bit (d ! (unat n div 8)) (7 - unat n mod 8)"
  using and_exp_eq_0_iff_not_bit [of "d ! (unat n div 8)" "7 - unat n mod 8"]
  by (simp add: CBS_asn1_bitstring_has_bit_def CBS_len_def CBS_data_def Let_def bitstring_index
      push_bit_of_1 del: bit_and_iff)

text \<open>The bits of a bit string, in DER's order: most significant bit of the first octet first.\<close>

definition bits_of :: "byte list \<Rightarrow> bool list" where
  "bits_of d = concat (map (\<lambda>b. map (\<lambda>i. bit b (7 - i)) [0..<8]) d)"

lemma length_bits_of [simp]: "length (bits_of d) = 8 * length d"
  by (induction d) (simp_all add: bits_of_def)

lemma nth_bits_of:
  "i < 8 * length d \<Longrightarrow> bits_of d ! i = bit (d ! (i div 8)) (7 - i mod 8)"
proof (induction d arbitrary: i)
  case (Cons b d)
  have s: "bits_of (b # d) = map (\<lambda>i. bit b (7 - i)) [0..<8] @ bits_of d" by (simp add: bits_of_def)
  show ?case
  proof (cases "i < 8")
    case True
    then show ?thesis by (simp add: s nth_append del: upt_rec_numeral)
  next
    case False
    then have "i div 8 = Suc ((i - 8) div 8)" "i mod 8 = (i - 8) mod 8"
      by (simp_all add: le_div_geq le_mod_geq)
    then show ?thesis using False Cons by (simp add: s nth_append del: upt_rec_numeral)
  qed
qed simp

lemma has_bit_in_range:
  assumes "CBS_asn1_bitstring_has_bit (u # d) n"
  shows "unat n < 8 * length d - unat u"
proof (rule ccontr)
  assume big: "\<not> ?thesis"
  from assms have h: "unat n div 8 < length d" "bit (d ! (unat n div 8)) (7 - unat n mod 8)"
    "CBS_is_valid_asn1_bitstring (u # d)" by (simp_all add: has_bit_Cons)
  then have u: "unat u \<le> 7" "u \<noteq> 0 \<Longrightarrow> unat (d ! (length d - 1)) mod 2 ^ unat u = 0"
    by (auto simp: valid_bitstring_Cons)
  have "unat n < 8 * length d" using h(1) by linarith
  then have nz: "unat u \<noteq> 0" and last: "unat n div 8 = length d - 1"
    using big u(1) by linarith+
  have "8 * (length d - 1) + unat n mod 8 = unat n" using last by (metis mult_div_mod_eq)
  then have i: "7 - unat n mod 8 < unat u" using big u(1) h(1) by linarith
  then have "unat (d ! (unat n div 8)) mod 2 ^ unat u = 0" using u(2) last nz by (metis unat_0)
  then have "\<not> bit (take_bit (unat u) (unat (d ! (unat n div 8)))) (7 - unat n mod 8)"
    by (simp add: take_bit_eq_mod)
  then show False using h(2) i by (simp add: bit_take_bit_iff bit_unsigned_iff)
qed

section \<open>Properties\<close>

text \<open>
  C2: the element reader accepts exactly the DER encodings: it returns a tag and contents if
  and only if the window starts with their unique encoding, it then leaves exactly what
  follows, and when it fails it has not moved the window.
\<close>

theorem CBS_get_any_asn1_exact:
  "(CBS_get_any_asn1 s = (Some (c, t), r) \<longleftrightarrow> length c < 2 ^ 32 \<and> s = der_element t c @ r)
   \<and> snd (CBS_get_any_asn1_element s) \<in> (if fst (CBS_get_any_asn1_element s) = None then {s} else UNIV)"
  using any_asn1_iff any_asn1_element_None [of s] by (cases "CBS_get_any_asn1_element s") auto

text \<open>
  Reading an unsigned INTEGER succeeds with \<open>v\<close> exactly on the minimal DER encoding of
  \<open>v\<close>: no negative, redundantly padded or over-long encoding is accepted, and no 64-bit
  value is refused.
\<close>

theorem CBS_get_asn1_uint64_exact:
  "CBS_get_asn1_uint64 s = (Some v, r) \<longleftrightarrow>
     s = der_element CBS_ASN1_INTEGER (der_uint (unat v)) @ r"
  by (rule get_asn1_uint64_iff)

text \<open>
  C6: reading a signed INTEGER succeeds with \<open>v\<close> exactly when the window starts with a
  minimal two's complement encoding of at most eight octets whose value is \<open>v\<close>, and there is
  at most one such encoding.
\<close>

theorem CBS_get_asn1_int64_exact:
  "(CBS_get_asn1_int64 s = (Some v, r) \<longleftrightarrow>
     (\<exists>d. int_minimal d \<and> length d \<le> 8 \<and> be_sval d = sint v
          \<and> s = der_element CBS_ASN1_INTEGER d @ r))
   \<and> (\<exists>\<^sub>\<le>\<^sub>1 d. int_minimal d \<and> be_sval d = sint v)"
  using get_asn1_int64_iff int_minimal_unique unfolding Uniq_def by metis

text \<open>
  C18: on a valid BIT STRING the bit test reads the numbered bit of the contents, and it
  never reports one of the unused bits at the end as set.
\<close>

theorem CBS_asn1_bitstring_has_bit_reads:
  assumes "CBS_is_valid_asn1_bitstring (u # d)"
  shows "CBS_asn1_bitstring_has_bit (u # d) n \<longleftrightarrow>
    unat n < 8 * length d - unat u \<and> bits_of d ! unat n"
proof (cases "unat n < 8 * length d")
  case True
  then have "unat n div 8 < length d" by linarith
  then show ?thesis
    using assms has_bit_in_range [of u d n] nth_bits_of [OF True] by (auto simp: has_bit_Cons)
next
  case False
  then have "\<not> unat n div 8 < length d" "\<not> unat n < 8 * length d - unat u" by linarith+
  then show ?thesis by (simp add: has_bit_Cons)
qed

theorem CBS_asn1_bitstring_has_bit_reads_witness:
  "CBS_is_valid_asn1_bitstring [4, 0xb0] \<and> CBS_asn1_bitstring_has_bit [4, 0xb0] 3
   \<and> \<not> CBS_asn1_bitstring_has_bit [4, 0xb0] 1"
proof -
  have v: "CBS_is_valid_asn1_bitstring [4, 0xb0]" by (simp add: valid_bitstring_Cons)
  have "bits_of [0xb0] ! 3" "\<not> bits_of [0xb0] ! 1" by (simp_all add: nth_bits_of)
  then show ?thesis
    using v CBS_asn1_bitstring_has_bit_reads [OF v, of 3]
      CBS_asn1_bitstring_has_bit_reads [OF v, of 1] by simp
qed

end
