(* ===== verification/Cbb.thy ===== *)
theory Cbb
  imports Der "HOL-Library.Multiset"
begin

text \<open>
  \<open>crypto/bytestring/cbb.c\<close>, \<open>asn1_compat.c\<close> and the OID printer of \<open>cbs.c\<close>: the writer
  all DER and TLS output is built with. A top-level \<open>CBB\<close> and the children that hang off it
  form a chain that shares one buffer, so the model is the buffer together with the list of
  open children, outermost first; a \<open>CBB\<close> pointer of the program is a depth \<open>d\<close> in that
  chain, \<open>0\<close> for the top-level object. A depth beyond the chain is a child that has been
  closed, whose \<open>base\<close> pointer is \<open>NULL\<close>. Operations return success and the chain they leave.
\<close>

section \<open>State\<close>

record cbb_buffer =
  cb_buf :: "byte list"
  cb_len :: nat
  cb_can_resize :: bool
  cb_error :: bool

record cbb_child =
  ch_offset :: nat
  ch_pending_len_len :: nat
  ch_pending_is_asn1 :: bool

record cbb = cbb_buffer +
  cb_children :: "cbb_child list"

text \<open>The capacity \<open>cap\<close> of the source is the length of the buffer.\<close>

definition cb_cap :: "('a) cbb_buffer_scheme \<Rightarrow> nat" where
  "cb_cap base = length (cb_buf base)"

definition set_error :: "('a) cbb_buffer_scheme \<Rightarrow> ('a) cbb_buffer_scheme" where
  "set_error base = base\<lparr>cb_error := True\<rparr>"

text \<open>C's short-circuit conjunction of calls that update the chain.\<close>

definition and_then :: "('s \<Rightarrow> bool \<times> 's) \<Rightarrow> ('s \<Rightarrow> bool \<times> 's) \<Rightarrow> 's \<Rightarrow> bool \<times> 's" where
  "and_then f g s = (case f s of (True, s) \<Rightarrow> g s | (False, s) \<Rightarrow> (False, s))"

fun all_ok :: "('s \<Rightarrow> bool \<times> 's) list \<Rightarrow> 's \<Rightarrow> bool \<times> 's" where
  "all_ok [] s = (True, s)"
| "all_ok (f # fs) s = and_then f (all_ok fs) s"

section \<open>The buffer\<close>

definition CBB_init :: "libc \<Rightarrow> nat \<Rightarrow> cbb option" where
  "CBB_init m initial_capacity =
     (let buf = alloc_bytes m initial_capacity in
      if initial_capacity > 0 \<and> buf = None then None
      else if OPENSSL_malloc m 32 = None then None
      else Some \<lparr>cb_buf = (case buf of None \<Rightarrow> [] | Some b \<Rightarrow> b), cb_len = 0,
                 cb_can_resize = True, cb_error = False, cb_children = []\<rparr>)"

definition CBB_init_fixed :: "libc \<Rightarrow> byte list \<Rightarrow> cbb option" where
  "CBB_init_fixed m buf =
     (if OPENSSL_malloc m 32 = None then None
      else Some \<lparr>cb_buf = buf, cb_len = 0, cb_can_resize = False, cb_error = False,
                 cb_children = []\<rparr>)"

text \<open>The reserved region is returned as its offset in the buffer.\<close>

definition cbb_buffer_reserve ::
    "libc \<Rightarrow> nat \<Rightarrow> ('a) cbb_buffer_scheme \<Rightarrow> nat option \<times> ('a) cbb_buffer_scheme" where
  "cbb_buffer_reserve m n base =
     (let newlen = (cb_len base + n) mod size_max1 in
      if newlen < cb_len base then (None, set_error base)
      else if newlen > cb_cap base then
        (let newcap = (cb_cap base * 2) mod size_max1 in
         if \<not> cb_can_resize base then (None, set_error base)
         else
           let newcap = (if newcap < cb_cap base \<or> newcap < newlen then newlen else newcap) in
           (case realloc_bytes m (cb_buf base) newcap of
              None \<Rightarrow> (None, set_error base)
            | Some newbuf \<Rightarrow> (Some (cb_len base), base\<lparr>cb_buf := newbuf\<rparr>)))
      else (Some (cb_len base), base))"

definition cbb_buffer_add ::
    "libc \<Rightarrow> nat \<Rightarrow> ('a) cbb_buffer_scheme \<Rightarrow> nat option \<times> ('a) cbb_buffer_scheme" where
  "cbb_buffer_add m n base =
     (case cbb_buffer_reserve m n base of
        (None, base) \<Rightarrow> (None, base)
      | (Some out, base) \<Rightarrow> (Some out, base\<lparr>cb_len := cb_len base + n\<rparr>))"

text \<open>The two big-endian store loops, from the last byte down; what is left of the value.\<close>

fun put_be :: "nat \<Rightarrow> nat \<Rightarrow> nat \<Rightarrow> byte list \<Rightarrow> byte list \<times> nat" where
  "put_be 0 off v buf = (buf, v)"
| "put_be (Suc n) off v buf = put_be n off (v div 256) (buf[off + n := of_nat v])"

definition cbb_buffer_add_u ::
    "libc \<Rightarrow> nat \<Rightarrow> nat \<Rightarrow> ('a) cbb_buffer_scheme \<Rightarrow> bool \<times> ('a) cbb_buffer_scheme" where
  "cbb_buffer_add_u m v len_len base =
     (if len_len = 0 then (True, base)
      else (case cbb_buffer_add m len_len base of
              (None, base) \<Rightarrow> (False, base)
            | (Some off, base) \<Rightarrow>
                let (buf, v) = put_be len_len off v (cb_buf base);
                    base = base\<lparr>cb_buf := buf\<rparr>
                in if v \<noteq> 0 then (False, set_error base) else (True, base)))"

text \<open>\<open>OPENSSL_memcpy\<close> and \<open>OPENSSL_memmove\<close> into the buffer.\<close>

definition overwrite :: "byte list \<Rightarrow> nat \<Rightarrow> byte list \<Rightarrow> byte list" where
  "overwrite buf off xs = take off buf @ xs @ drop (off + length xs) buf"

section \<open>Flushing\<close>

text \<open>The length prefix of one child, once everything below it is flushed.\<close>

definition write_prefix ::
    "nat \<Rightarrow> cbb_child \<Rightarrow> ('a) cbb_buffer_scheme \<Rightarrow> bool \<times> cbb_child list \<times> ('a) cbb_buffer_scheme" where
  "write_prefix n c base =
     (let (buf, n) = put_be (ch_pending_len_len c) (ch_offset c) n (cb_buf base);
          base = base\<lparr>cb_buf := buf\<rparr>
      in if n \<noteq> 0 then (False, [c], set_error base) else (True, [], base))"

definition asn1_length_form :: "nat \<Rightarrow> nat \<times> byte \<times> nat" where
  "asn1_length_form n =
     (if n > 0xffffff then (5, 0x80 OR 4, n)
      else if n > 0xffff then (4, 0x80 OR 3, n)
      else if n > 0xff then (3, 0x80 OR 2, n)
      else if n > 0x7f then (2, 0x80 OR 1, n)
      else (1, of_nat n, 0))"

definition make_space ::
    "libc \<Rightarrow> nat \<Rightarrow> nat \<Rightarrow> nat \<Rightarrow> ('a) cbb_buffer_scheme \<Rightarrow> bool \<times> ('a) cbb_buffer_scheme" where
  "make_space m len_len child_start n base =
     (if len_len = 1 then (True, base)
      else
        let extra_bytes = len_len - 1 in
        (case cbb_buffer_add m extra_bytes base of
           (None, base) \<Rightarrow> (False, base)
         | (Some _, base) \<Rightarrow>
             (True, base\<lparr>cb_buf := overwrite (cb_buf base) (child_start + extra_bytes)
                                (take n (drop child_start (cb_buf base)))\<rparr>)))"

definition finish_child ::
    "libc \<Rightarrow> nat \<Rightarrow> cbb_child \<Rightarrow> ('a) cbb_buffer_scheme
      \<Rightarrow> bool \<times> cbb_child list \<times> ('a) cbb_buffer_scheme" where
  "finish_child m child_start c base =
     (let n = cb_len base - child_start in
      if ch_pending_is_asn1 c then
        if n > 0xfffffffe then (False, [c], set_error base)
        else
          let (len_len, initial_length_byte, n') = asn1_length_form n in
          (case make_space m len_len child_start n base of
             (False, base) \<Rightarrow> (False, [c], set_error base)
           | (True, base) \<Rightarrow>
               let base = base\<lparr>cb_buf := (cb_buf base)[ch_offset c := initial_length_byte]\<rparr>
               in write_prefix n'
                    (c\<lparr>ch_offset := ch_offset c + 1, ch_pending_len_len := len_len - 1\<rparr>) base)
      else write_prefix n c base)"

text \<open>
  \<open>CBB_flush\<close> on the children below the object it is called with: success, the children that
  are still linked afterwards, and the buffer.
\<close>

fun cbb_flush_chain ::
    "libc \<Rightarrow> cbb_child list \<Rightarrow> ('a) cbb_buffer_scheme
      \<Rightarrow> bool \<times> cbb_child list \<times> ('a) cbb_buffer_scheme" where
  "cbb_flush_chain m [] base = (if cb_error base then (False, [], base) else (True, [], base))"
| "cbb_flush_chain m (c # cs) base =
     (if cb_error base then (False, c # cs, base)
      else if ch_pending_len_len c = 0 then (True, c # cs, base)
      else
        let child_start = (ch_offset c + ch_pending_len_len c) mod size_max1 in
        (case cbb_flush_chain m cs base of
           (False, cs, base) \<Rightarrow> (False, c # cs, set_error base)
         | (True, cs, base) \<Rightarrow>
             if child_start < ch_offset c \<or> cb_len base < child_start
             then (False, c # cs, set_error base)
             else finish_child m child_start c base))"

definition CBB_flush :: "libc \<Rightarrow> nat \<Rightarrow> cbb \<Rightarrow> bool \<times> cbb" where
  "CBB_flush m d s =
     (if d > length (cb_children s) then (False, s)
      else (case cbb_flush_chain m (drop d (cb_children s)) s of
              (ok, cs, s') \<Rightarrow> (ok, s'\<lparr>cb_children := take d (cb_children s) @ cs\<rparr>)))"

definition CBB_cleanup :: "nat \<Rightarrow> cbb option \<Rightarrow> cbb option" where
  "CBB_cleanup d cbb = (if d > 0 then cbb else None)"

text \<open>
  The buffer and length handed to the caller, and the object afterwards: \<open>None\<close> once its base
  is gone. The flags say whether \<open>out_data\<close> and \<open>out_len\<close> are not \<open>NULL\<close>.
\<close>

definition CBB_finish ::
    "libc \<Rightarrow> nat \<Rightarrow> bool \<Rightarrow> bool \<Rightarrow> cbb \<Rightarrow> (byte list \<times> nat) option \<times> cbb option" where
  "CBB_finish m d out_data out_len s =
     (if d > 0 then (None, Some s)
      else (case CBB_flush m d s of
              (False, s) \<Rightarrow> (None, Some s)
            | (True, s) \<Rightarrow>
                if cb_can_resize s \<and> (\<not> out_data \<or> \<not> out_len) then (None, Some s)
                else (Some (cb_buf s, cb_len s), CBB_cleanup d (Some s))))"

definition cb_start :: "nat \<Rightarrow> cbb \<Rightarrow> nat" where
  "cb_start d s =
     (if d = 0 then 0
      else ch_offset (cb_children s ! (d - 1)) + ch_pending_len_len (cb_children s ! (d - 1)))"

definition CBB_data :: "nat \<Rightarrow> cbb \<Rightarrow> byte list" where
  "CBB_data d s = drop (cb_start d s) (cb_buf s)"

definition CBB_len :: "nat \<Rightarrow> cbb \<Rightarrow> nat" where
  "CBB_len d s = cb_len s - cb_start d s"

section \<open>Adding\<close>

definition cbb_add_length_prefixed :: "libc \<Rightarrow> nat \<Rightarrow> nat \<Rightarrow> cbb \<Rightarrow> bool \<times> cbb" where
  "cbb_add_length_prefixed m d len_len =
     and_then (CBB_flush m d) (\<lambda>s.
       (case cbb_buffer_add m len_len s of
          (None, s) \<Rightarrow> (False, s)
        | (Some offset, s) \<Rightarrow>
            (True, s\<lparr>cb_buf := overwrite (cb_buf s) offset (replicate len_len 0),
                     cb_children := take d (cb_children s) @
                       [\<lparr>ch_offset = offset, ch_pending_len_len = len_len,
                         ch_pending_is_asn1 = False\<rparr>]\<rparr>)))"

definition CBB_add_u8_length_prefixed :: "libc \<Rightarrow> nat \<Rightarrow> cbb \<Rightarrow> bool \<times> cbb" where
  "CBB_add_u8_length_prefixed m d = cbb_add_length_prefixed m d 1"

definition CBB_add_u16_length_prefixed :: "libc \<Rightarrow> nat \<Rightarrow> cbb \<Rightarrow> bool \<times> cbb" where
  "CBB_add_u16_length_prefixed m d = cbb_add_length_prefixed m d 2"

definition CBB_add_u24_length_prefixed :: "libc \<Rightarrow> nat \<Rightarrow> cbb \<Rightarrow> bool \<times> cbb" where
  "CBB_add_u24_length_prefixed m d = cbb_add_length_prefixed m d 3"

definition CBB_add_u8 :: "libc \<Rightarrow> nat \<Rightarrow> byte \<Rightarrow> cbb \<Rightarrow> bool \<times> cbb" where
  "CBB_add_u8 m d v = and_then (CBB_flush m d) (cbb_buffer_add_u m (unat v) 1)"

definition CBB_add_u16 :: "libc \<Rightarrow> nat \<Rightarrow> u16 \<Rightarrow> cbb \<Rightarrow> bool \<times> cbb" where
  "CBB_add_u16 m d v = and_then (CBB_flush m d) (cbb_buffer_add_u m (unat v) 2)"

definition CBB_add_u16le :: "libc \<Rightarrow> nat \<Rightarrow> u16 \<Rightarrow> cbb \<Rightarrow> bool \<times> cbb" where
  "CBB_add_u16le m d v = CBB_add_u16 m d (CRYPTO_bswap2 v)"

definition CBB_add_u24 :: "libc \<Rightarrow> nat \<Rightarrow> u32 \<Rightarrow> cbb \<Rightarrow> bool \<times> cbb" where
  "CBB_add_u24 m d v = and_then (CBB_flush m d) (cbb_buffer_add_u m (unat v) 3)"

definition CBB_add_u32 :: "libc \<Rightarrow> nat \<Rightarrow> u32 \<Rightarrow> cbb \<Rightarrow> bool \<times> cbb" where
  "CBB_add_u32 m d v = and_then (CBB_flush m d) (cbb_buffer_add_u m (unat v) 4)"

definition CBB_add_u32le :: "libc \<Rightarrow> nat \<Rightarrow> u32 \<Rightarrow> cbb \<Rightarrow> bool \<times> cbb" where
  "CBB_add_u32le m d v = CBB_add_u32 m d (CRYPTO_bswap4 v)"

definition CBB_add_u64 :: "libc \<Rightarrow> nat \<Rightarrow> u64 \<Rightarrow> cbb \<Rightarrow> bool \<times> cbb" where
  "CBB_add_u64 m d v = and_then (CBB_flush m d) (cbb_buffer_add_u m (unat v) 8)"

definition CBB_add_u64le :: "libc \<Rightarrow> nat \<Rightarrow> u64 \<Rightarrow> cbb \<Rightarrow> bool \<times> cbb" where
  "CBB_add_u64le m d v = CBB_add_u64 m d (CRYPTO_bswap8 v)"

function base128_len :: "u64 \<Rightarrow> nat" where
  "base128_len copy = (if copy > 0 then Suc (base128_len (drop_bit 7 copy)) else 0)"
  by auto
termination
  by (relation "measure unat") (auto simp: unat_drop_bit word_less_nat_alt)

declare base128_len.simps [simp del]

definition base128_byte :: "u64 \<Rightarrow> nat \<Rightarrow> byte" where
  "base128_byte v i =
     (let b = ucast (drop_bit (7 * i) v AND 0x7f) in if i \<noteq> 0 then b OR 0x80 else b)"

definition add_base128_integer :: "libc \<Rightarrow> nat \<Rightarrow> u64 \<Rightarrow> cbb \<Rightarrow> bool \<times> cbb" where
  "add_base128_integer m d v =
     (let len_len = base128_len v; len_len = (if len_len = 0 then 1 else len_len)
      in all_ok (map (\<lambda>i. CBB_add_u8 m d (base128_byte v i)) (rev [0..<len_len])))"

definition CBB_add_asn1 :: "libc \<Rightarrow> nat \<Rightarrow> u32 \<Rightarrow> cbb \<Rightarrow> bool \<times> cbb" where
  "CBB_add_asn1 m d tag =
     (let tag_bits = ucast (drop_bit CBS_ASN1_TAG_SHIFT tag) AND 0xe0 :: byte;
          tag_number = tag AND CBS_ASN1_TAG_NUMBER_MASK
      in all_ok
           (CBB_flush m d #
            (if tag_number \<ge> 0x1f
             then [CBB_add_u8 m d (tag_bits OR 0x1f), add_base128_integer m d (ucast tag_number)]
             else [CBB_add_u8 m d (tag_bits OR ucast tag_number)]) @
            [\<lambda>s. let offset = cb_len s in
               and_then (CBB_add_u8 m d 0) (\<lambda>s.
                 (True, s\<lparr>cb_children := take d (cb_children s) @
                            [\<lparr>ch_offset = offset, ch_pending_len_len = 1,
                              ch_pending_is_asn1 = True\<rparr>]\<rparr>)) s]))"

definition CBB_add_bytes :: "libc \<Rightarrow> nat \<Rightarrow> byte list \<Rightarrow> cbb \<Rightarrow> bool \<times> cbb" where
  "CBB_add_bytes m d xs =
     and_then (CBB_flush m d) (\<lambda>s.
       (case cbb_buffer_add m (length xs) s of
          (None, s) \<Rightarrow> (False, s)
        | (Some dest, s) \<Rightarrow> (True, s\<lparr>cb_buf := overwrite (cb_buf s) dest xs\<rparr>)))"

text \<open>\<open>CBB_add_space\<close> and \<open>CBB_reserve\<close> hand out a region, as its offset in the buffer.\<close>

definition CBB_add_space :: "libc \<Rightarrow> nat \<Rightarrow> nat \<Rightarrow> cbb \<Rightarrow> nat option \<times> cbb" where
  "CBB_add_space m d n s =
     (case CBB_flush m d s of (False, s) \<Rightarrow> (None, s) | (True, s) \<Rightarrow> cbb_buffer_add m n s)"

definition CBB_reserve :: "libc \<Rightarrow> nat \<Rightarrow> nat \<Rightarrow> cbb \<Rightarrow> nat option \<times> cbb" where
  "CBB_reserve m d n s =
     (case CBB_flush m d s of (False, s) \<Rightarrow> (None, s) | (True, s) \<Rightarrow> cbb_buffer_reserve m n s)"

definition CBB_did_write :: "nat \<Rightarrow> nat \<Rightarrow> cbb \<Rightarrow> bool \<times> cbb" where
  "CBB_did_write d n s =
     (let newlen = (cb_len s + n) mod size_max1 in
      if drop d (cb_children s) \<noteq> [] \<or> newlen < cb_len s \<or> newlen > cb_cap s
      then (False, s) else (True, s\<lparr>cb_len := newlen\<rparr>))"

definition CBB_discard_child :: "nat \<Rightarrow> cbb \<Rightarrow> cbb" where
  "CBB_discard_child d s =
     (case drop d (cb_children s) of
        [] \<Rightarrow> s
      | c # _ \<Rightarrow> s\<lparr>cb_len := ch_offset c, cb_children := take d (cb_children s)\<rparr>)"

section \<open>Typed ASN.1 values\<close>

fun asn1_uint64_bytes :: "libc \<Rightarrow> nat \<Rightarrow> byte list \<Rightarrow> bool \<Rightarrow> cbb \<Rightarrow> (bool \<times> bool) \<times> cbb" where
  "asn1_uint64_bytes m d [] started s = ((True, started), s)"
| "asn1_uint64_bytes m d (b # bs) started s =
     (if \<not> started \<and> b = 0 then asn1_uint64_bytes m d bs started s
      else (case (if \<not> started \<and> b AND 0x80 \<noteq> 0 then CBB_add_u8 m d 0 s else (True, s)) of
              (False, s) \<Rightarrow> ((False, started), s)
            | (True, s) \<Rightarrow>
                (case CBB_add_u8 m d b s of
                   (False, s) \<Rightarrow> ((False, True), s)
                 | (True, s) \<Rightarrow> asn1_uint64_bytes m d bs True s)))"

definition CBB_add_asn1_uint64 :: "libc \<Rightarrow> nat \<Rightarrow> u64 \<Rightarrow> cbb \<Rightarrow> bool \<times> cbb" where
  "CBB_add_asn1_uint64 m d v =
     and_then (CBB_add_asn1 m d CBS_ASN1_INTEGER) (\<lambda>s.
       (case asn1_uint64_bytes m (Suc d)
               (map (\<lambda>i. ucast (drop_bit (8 * (7 - i)) v AND 0xff)) [0..<8]) False s of
          ((False, _), s) \<Rightarrow> (False, s)
        | ((True, started), s) \<Rightarrow>
            and_then (\<lambda>s. if \<not> started then CBB_add_u8 m (Suc d) 0 s else (True, s))
              (CBB_flush m d) s))"

text \<open>The bytes of the \<open>int64_t\<close> in memory order, and the first one that has to be written.\<close>

fun int64_start :: "byte list \<Rightarrow> nat \<Rightarrow> nat" where
  "int64_start bytes 0 = 0"
| "int64_start bytes (Suc start) =
     (if bytes ! Suc start = 0xff \<and> bytes ! start AND 0x80 \<noteq> 0
      then int64_start bytes start else Suc start)"

definition CBB_add_asn1_int64 :: "libc \<Rightarrow> nat \<Rightarrow> u64 \<Rightarrow> cbb \<Rightarrow> bool \<times> cbb" where
  "CBB_add_asn1_int64 m d v =
     (if sint v \<ge> 0 then CBB_add_asn1_uint64 m d v
      else
        let bytes = rev (be_bytes 8 (unat v)); start = int64_start bytes 7
        in all_ok
             (CBB_add_asn1 m d CBS_ASN1_INTEGER #
              map (\<lambda>i. CBB_add_u8 m (Suc d) (bytes ! i)) (rev [0..<Suc start]) @
              [CBB_flush m d]))"

definition CBB_add_asn1_octet_string :: "libc \<Rightarrow> nat \<Rightarrow> byte list \<Rightarrow> cbb \<Rightarrow> bool \<times> cbb" where
  "CBB_add_asn1_octet_string m d xs =
     all_ok [CBB_add_asn1 m d CBS_ASN1_OCTETSTRING, CBB_add_bytes m (Suc d) xs, CBB_flush m d]"

definition CBB_add_asn1_bool :: "libc \<Rightarrow> nat \<Rightarrow> int \<Rightarrow> cbb \<Rightarrow> bool \<times> cbb" where
  "CBB_add_asn1_bool m d v =
     all_ok [CBB_add_asn1 m d CBS_ASN1_BOOLEAN,
             CBB_add_u8 m (Suc d) (if v \<noteq> 0 then 0xff else 0), CBB_flush m d]"

section \<open>Legacy output\<close>

text \<open>
  \<open>CBB_finish_i2d\<close> of \<open>asn1_compat.c\<close>: the argument is \<open>None\<close> for a \<open>NULL\<close> pointer, and the
  object \<open>*outp\<close> points to otherwise. The result is the return value and that object.
\<close>

definition CBB_finish_i2d ::
    "libc \<Rightarrow> byte list option option \<Rightarrow> cbb \<Rightarrow> int \<times> byte list option option" where
  "CBB_finish_i2d m outp s =
     (case CBB_finish m 0 True True s of
        (None, _) \<Rightarrow> (- 1, outp)
      | (Some (der, n), _) \<Rightarrow>
          if n > 2 ^ 31 - 1 then (- 1, outp)
          else (int n,
            (case outp of
               None \<Rightarrow> None
             | Some None \<Rightarrow> Some (Some der)
             | Some (Some p) \<Rightarrow> Some (Some (overwrite p 0 (take n der))))))"

end
