(* ===== verification/CbbSpec.thy ===== *)
theory CbbSpec
  imports Cbb
begin

text \<open>
  The contract of the writer. What a chain of \<open>CBB\<close>s represents is a stack: the bytes written
  at top level and, for every open child, its prefix and its contents so far. Each operation
  of \<open>cbb.c\<close> is shown to refine an operation on stacks in which the length prefixes are
  written by the DER specification; the buffer moves, reallocations and prefix patches of the
  code do not appear there.
\<close>

section \<open>The buffer holds a byte string\<close>

text \<open>
  \<open>holds base w\<close>: no error, and the valid bytes are \<open>w\<close>. A growable buffer is a block of
  \<open>OPENSSL_malloc\<close>; any buffer is smaller than \<open>PTRDIFF_MAX\<close>. \<open>no_room\<close> is the only other
  reason for a write to fail: the bytes exceed the buffer, and it is fixed or the allocator
  refused a request of a size the growth needs. Doubling never asks for more than twice the
  bytes to be held and the size prefix, so with an allocator that grants every request up to
  that bound a growable buffer always has room.
\<close>

definition holds :: "('a) cbb_buffer_scheme \<Rightarrow> byte list \<Rightarrow> bool" where
  "holds base w \<longleftrightarrow> \<not> cb_error base \<and> cb_len base \<le> cb_cap base
     \<and> take (cb_len base) (cb_buf base) = w
     \<and> cb_cap base + (if cb_can_resize base then 8 else 0) < 2 ^ 63"

definition no_room :: "libc \<Rightarrow> ('a) cbb_buffer_scheme \<Rightarrow> nat \<Rightarrow> bool" where
  "no_room m base n \<longleftrightarrow> cb_cap base < n \<and> (cb_can_resize base \<longrightarrow>
     (\<exists>k. cb_cap base + 8 < k \<and> k \<le> 2 * n + 8 \<and> m k = None))"

definition same_kind :: "('a) cbb_buffer_scheme \<Rightarrow> ('b) cbb_buffer_scheme \<Rightarrow> bool" where
  "same_kind base base' \<longleftrightarrow> cb_can_resize base' = cb_can_resize base
     \<and> cb_cap base \<le> cb_cap base' \<and> (\<not> cb_can_resize base \<longrightarrow> cb_cap base' = cb_cap base)"

lemma holds_len: "holds base w \<Longrightarrow> cb_len base = length w"
  by (auto simp: holds_def cb_cap_def)

lemma holds_take: "holds base w \<Longrightarrow> take (length w) (cb_buf base) = w"
  by (auto simp: holds_def cb_cap_def)

lemma no_room_mono:
  assumes "no_room m base n" and "n \<le> k"
  shows "no_room m base k"
proof -
  have "j \<le> 2 * n + 8 \<Longrightarrow> j \<le> 2 * k + 8" for j using assms(2) by simp
  then show ?thesis using assms by (fastforce simp: no_room_def)
qed

lemma same_kind_refl [simp]: "same_kind base base"
  by (simp add: same_kind_def)

lemma same_kind_trans: "same_kind a b \<Longrightarrow> same_kind b c \<Longrightarrow> same_kind a c"
  by (auto simp: same_kind_def)

lemma no_room_same_kind:
  assumes "same_kind a b" and "no_room m b n"
  shows "no_room m a n"
proof -
  have le: "cb_cap a \<le> cb_cap b" using assms(1) by (simp add: same_kind_def)
  then have "cb_cap b + 8 < k \<Longrightarrow> cb_cap a + 8 < k" for k by simp
  then show ?thesis using assms le by (fastforce simp: no_room_def same_kind_def)
qed

lemma room_granted:
  assumes "\<And>k. k \<le> 2 * n + 8 \<Longrightarrow> m k \<noteq> None" and "cb_can_resize base"
  shows "\<not> no_room m base n"
  using assms by (auto simp: no_room_def)

lemma buffer_reserve_cases:
  assumes m: "malloc_ok m" and h: "holds base w" and n: "n < 2 ^ 63"
  obtains (ok) buf where "cbb_buffer_reserve m n base = (Some (length w), base\<lparr>cb_buf := buf\<rparr>)"
      "holds (base\<lparr>cb_buf := buf\<rparr>) w" "length w + n \<le> length buf"
      "same_kind base (base\<lparr>cb_buf := buf\<rparr>)"
  | (fail) "cbb_buffer_reserve m n base = (None, set_error base)" "no_room m base (length w + n)"
proof -
  have len: "cb_len base = length w" using h by (rule holds_len)
  have cap: "length w \<le> cb_cap base" "cb_cap base < 2 ^ 63"
    "cb_can_resize base \<Longrightarrow> cb_cap base + 8 < 2 ^ 63" and ne: "\<not> cb_error base"
    and w: "take (length w) (cb_buf base) = w"
    using h len by (auto simp: holds_def split: if_splits)
  have sum: "(cb_len base + n) mod size_max1 = length w + n"
    using cap n len by simp
  show thesis
  proof (cases "length w + n \<le> cb_cap base")
    case True
    then show thesis using h sum len
      by (intro ok [of "cb_buf base"]) (auto simp: cbb_buffer_reserve_def Let_def cb_cap_def)
  next
    case big: False
    show thesis
    proof (cases "cb_can_resize base")
      case False
      then show thesis using big sum len
        by (intro fail) (auto simp: cbb_buffer_reserve_def Let_def no_room_def)
    next
      case True
      define nc where "nc = (if cb_cap base * 2 < length w + n then length w + n else cb_cap base * 2)"
      have dbl: "(cb_cap base * 2) mod size_max1 = cb_cap base * 2" using cap by simp
      have res: "cbb_buffer_reserve m n base =
        (case realloc_bytes m (cb_buf base) nc of None \<Rightarrow> (None, set_error base)
         | Some newbuf \<Rightarrow> (Some (cb_len base), base\<lparr>cb_buf := newbuf\<rparr>))"
        using big sum True len dbl by (simp add: cbb_buffer_reserve_def Let_def nc_def)
      show thesis
      proof (cases "realloc_bytes m (cb_buf base) nc")
        case None
        have nc: "nc + 8 < 2 ^ 64" "cb_cap base < nc" "nc \<le> 2 * (length w + n)"
          using big cap n True by (auto simp: nc_def)
        have "m (nc + 8) = None" using None nc(1) by (rule realloc_bytes_None)
        then have "no_room m base (length w + n)"
          using big nc by (auto simp: no_room_def intro!: exI [of _ "nc + 8"])
        then show thesis using res None by (intro fail) auto
      next
        case (Some buf)
        have "length (cb_buf base) \<le> nc" "nc + 8 < 2 ^ 64" "length w + n \<le> nc"
          using big cap n True by (auto simp: nc_def cb_cap_def)
        moreover from this have buf: "length buf = nc" "nc + 8 < 2 ^ 63"
          "take (cb_cap base) buf = cb_buf base"
          using realloc_bytes_grow [OF m _ _ Some] by (auto simp: cb_cap_def)
        moreover have "take (length w) buf = w"
          using buf(3) cap(1) w by (metis min.absorb1 take_take)
        ultimately show thesis using res Some True ne len
          by (intro ok [of buf]) (auto simp: holds_def cb_cap_def same_kind_def)
      qed
    qed
  qed
qed

lemma buffer_update_order [simp]:
  "base\<lparr>cb_buf := buf, cb_len := l\<rparr> = base\<lparr>cb_len := l, cb_buf := buf\<rparr>"
  by (cases base) simp

lemma buffer_add_cases:
  assumes m: "malloc_ok m" and h: "holds base w" and n: "n < 2 ^ 63"
  obtains (ok) buf y where
      "cbb_buffer_add m n base = (Some (length w), base\<lparr>cb_len := length w + n, cb_buf := buf\<rparr>)"
      "length y = n" "holds (base\<lparr>cb_len := length w + n, cb_buf := buf\<rparr>) (w @ y)"
      "same_kind base (base\<lparr>cb_len := length w + n, cb_buf := buf\<rparr>)"
  | (fail) "cbb_buffer_add m n base = (None, set_error base)" "no_room m base (length w + n)"
  using m h n
proof (cases rule: buffer_reserve_cases)
  case (ok buf)
  define y where "y = take n (drop (length w) buf)"
  have len: "cb_len base = length w" using h by (rule holds_len)
  have "take (length w + n) buf = w @ y"
    using ok(2) len by (simp add: y_def take_add holds_def)
  moreover have "length y = n" using ok(3) by (simp add: y_def)
  ultimately show thesis using ok len that(1) [of buf y]
    by (auto simp: cbb_buffer_add_def holds_def cb_cap_def same_kind_def)
next
  case fail
  then show thesis using that(2) by (simp add: cbb_buffer_add_def)
qed

lemma put_be_eq:
  "off + n \<le> length buf \<Longrightarrow> put_be n off v buf = (overwrite buf off (be_bytes n v), v div 256 ^ n)"
proof (induction n arbitrary: v buf)
  case (Suc n)
  let ?buf = "buf[off + n := of_nat v]"
  have "put_be (Suc n) off v buf = (overwrite ?buf off (be_bytes n (v div 256)), v div 256 div 256 ^ n)"
    using Suc by simp
  moreover have "overwrite ?buf off (be_bytes n (v div 256)) = overwrite buf off (be_bytes (Suc n) v)"
  proof -
    have "drop (off + n) ?buf = of_nat v # drop (Suc (off + n)) buf"
      using Suc.prems by (simp add: drop_update_swap Cons_nth_drop_Suc [symmetric])
    then show ?thesis using Suc.prems by (simp add: overwrite_def)
  qed
  ultimately show ?case by (simp add: div_mult2_eq)
qed (simp add: overwrite_def)

lemma length_overwrite [simp]: "off + length xs \<le> length buf \<Longrightarrow> length (overwrite buf off xs) = length buf"
  by (simp add: overwrite_def)

lemma take_overwrite:
  "off + length xs \<le> length buf \<Longrightarrow> off + length xs \<le> n \<Longrightarrow>
   take n (overwrite buf off xs) = overwrite (take n buf) off xs"
proof -
  assume l: "off + length xs \<le> length buf" "off + length xs \<le> n"
  then have "min off n = off" "min (length buf) off = off" by simp_all
  then show ?thesis using l by (simp add: overwrite_def drop_take)
qed

lemma overwrite_middle [simp]:
  "off = length w \<Longrightarrow> length xs = length ys \<Longrightarrow> overwrite (w @ ys @ z) off xs = w @ xs @ z"
  by (simp add: overwrite_def)

lemma overwrite_end [simp]:
  "off = length w \<Longrightarrow> length xs = length ys \<Longrightarrow> overwrite (w @ ys) off xs = w @ xs"
  by (simp add: overwrite_def)

text \<open>Overwriting part of what the buffer holds.\<close>

lemma holds_overwrite:
  assumes "holds base (w @ ys @ z)" and "length xs = length ys" and "off = length w"
  shows "holds (base\<lparr>cb_buf := overwrite (cb_buf base) off xs\<rparr>) (w @ xs @ z)"
proof -
  have l: "cb_len base = length w + length ys + length z" "cb_len base \<le> length (cb_buf base)"
    using assms holds_len [OF assms(1)] by (auto simp: holds_def cb_cap_def)
  then have "take (cb_len base) (overwrite (cb_buf base) off xs) = w @ xs @ z"
    using assms by (subst take_overwrite) (auto simp: holds_def)
  then show ?thesis using assms l by (simp add: holds_def cb_cap_def)
qed

lemma same_kind_overwrite [simp]:
  "off + length xs \<le> length (cb_buf base) \<Longrightarrow>
   same_kind base (base\<lparr>cb_buf := overwrite (cb_buf base) off xs\<rparr>)"
  by (simp add: same_kind_def cb_cap_def)


section \<open>Open children\<close>

text \<open>
  The writer as its clients see it: the bytes written at top level and the open children, each
  with the width of its prefix, whether it is an ASN.1 element, and its contents so far.
\<close>

type_synonym frame = "nat \<times> bool \<times> byte list"
type_synonym stack = "byte list \<times> frame list"

definition frame_bytes :: "frame \<Rightarrow> byte list" where
  "frame_bytes f = (case f of (p, a, c) \<Rightarrow> replicate p 0 @ c)"

definition flat :: "stack \<Rightarrow> byte list" where
  "flat st = fst st @ concat (map frame_bytes (snd st))"

fun kids :: "nat \<Rightarrow> frame list \<Rightarrow> cbb_child list" where
  "kids off [] = []"
| "kids off ((p, a, c) # fs) =
     \<lparr>ch_offset = off, ch_pending_len_len = p, ch_pending_is_asn1 = a\<rparr> # kids (off + p + length c) fs"

definition frame_ok :: "frame \<Rightarrow> bool" where
  "frame_ok f = (case f of (p, a, c) \<Rightarrow> 0 < p \<and> p \<le> 8 \<and> (a \<longrightarrow> p = 1))"

text \<open>What closing a child leaves in its parent, and closing a whole chain of children.\<close>

definition close_frame :: "nat \<Rightarrow> bool \<Rightarrow> byte list \<Rightarrow> byte list option" where
  "close_frame p a c =
     (if a then (if length c > 0xfffffffe then None else Some (der_len (length c) @ c))
      else if length c < 256 ^ p then Some (be_bytes p (length c) @ c) else None)"

fun squash :: "frame list \<Rightarrow> byte list option" where
  "squash [] = Some []"
| "squash ((p, a, c) # fs) =
     (case squash fs of None \<Rightarrow> None | Some x \<Rightarrow> close_frame p a (c @ x))"

lemma length_kids [simp]: "length (kids off fs) = length fs"
  by (induction off fs rule: kids.induct) auto

lemma asn1_length_form_eq:
  "asn1_length_form n =
     (if n < 128 then (1, of_nat n, 0)
      else (Suc (len_octets n), of_nat (128 + len_octets n), n))"
proof -
  have "(0x80 OR 1 :: byte) = 129" "(0x80 OR 2 :: byte) = 130" "(0x80 OR 3 :: byte) = 131"
    "(0x80 OR 4 :: byte) = 132" by simp_all
  then show ?thesis by (simp add: asn1_length_form_def len_octets_def)
qed

lemma close_frame_length:
  "close_frame p a c = Some x \<Longrightarrow> frame_ok (p, a, c') \<Longrightarrow> p + length c \<le> length x"
  by (auto simp: close_frame_def frame_ok_def der_len_def split: if_splits)

lemma write_prefix_eq:
  assumes "holds base (w @ ys @ z)" and "ch_offset c = length w"
    and "ch_pending_len_len c = length ys" and "n < 256 ^ length ys"
  shows "\<exists>buf. write_prefix n c base = (True, [], base\<lparr>cb_buf := buf\<rparr>)
    \<and> holds (base\<lparr>cb_buf := buf\<rparr>) (w @ be_bytes (length ys) n @ z) \<and> same_kind base (base\<lparr>cb_buf := buf\<rparr>)"
proof -
  let ?buf = "overwrite (cb_buf base) (length w) (be_bytes (length ys) n)"
  have l: "length w + length ys \<le> length (cb_buf base)"
    using assms(1) holds_len [OF assms(1)] by (simp add: holds_def cb_cap_def)
  have "write_prefix n c base = (True, [], base\<lparr>cb_buf := ?buf\<rparr>)"
    using assms l by (simp add: write_prefix_def put_be_eq Let_def)
  moreover have "holds (base\<lparr>cb_buf := ?buf\<rparr>) (w @ be_bytes (length ys) n @ z)"
    using assms(1) by (intro holds_overwrite) auto
  ultimately show ?thesis using l by auto
qed

lemma write_prefix_overflow:
  assumes "holds base (w @ ys @ z)" and "ch_offset c = length w"
    and "ch_pending_len_len c = length ys" and "256 ^ length ys \<le> n"
  shows "\<exists>buf. write_prefix n c base = (False, [c], set_error (base\<lparr>cb_buf := buf\<rparr>))"
proof -
  have "length w + length ys \<le> length (cb_buf base)"
    using assms(1) holds_len [OF assms(1)] by (simp add: holds_def cb_cap_def)
  then show ?thesis using assms(2-4)
    by (simp add: write_prefix_def put_be_eq Let_def div_eq_0_iff) blast
qed

text \<open>Nothing but the buffer proper changes.\<close>

definition touches :: "('a) cbb_buffer_scheme \<Rightarrow> ('a) cbb_buffer_scheme \<Rightarrow> bool" where
  "touches base base' \<longleftrightarrow> cb_can_resize base' = cb_can_resize base
     \<and> cbb_buffer.more base' = cbb_buffer.more base"

lemma touches_simps [simp]:
  "touches base base"
  "touches base (base'\<lparr>cb_buf := buf\<rparr>) = touches base base'"
  "touches base (base'\<lparr>cb_len := l\<rparr>) = touches base base'"
  "touches base (base'\<lparr>cb_error := e\<rparr>) = touches base base'"
  "touches base (set_error base') = touches base base'"
  by (simp_all add: touches_def set_error_def)

lemma touches_trans: "touches a b \<Longrightarrow> touches b c \<Longrightarrow> touches a c"
  by (simp add: touches_def)

lemma set_error_simps [simp]:
  "cb_error (set_error base)" "cb_buf (set_error base) = cb_buf base"
  "cb_len (set_error base) = cb_len base" "cb_can_resize (set_error base) = cb_can_resize base"
  "set_error (set_error base) = set_error base"
  by (simp_all add: set_error_def)

text \<open>The two outcomes of an operation on a buffer: what it must hold afterwards, or an error.\<close>

definition buffer_outcome ::
    "libc \<Rightarrow> ('a) cbb_buffer_scheme \<Rightarrow> byte list option \<Rightarrow> bool \<Rightarrow> ('a) cbb_buffer_scheme \<Rightarrow> bool" where
  "buffer_outcome m base spec good base' \<longleftrightarrow> touches base base' \<and>
     (if good then (\<exists>w. spec = Some w \<and> holds base' w) \<and> same_kind base base'
      else cb_error base' \<and> (\<forall>w. spec = Some w \<longrightarrow> no_room m base (length w)))"

lemma list_update_overwrite:
  "i < length buf \<Longrightarrow> buf[i := b] = overwrite buf i [b]"
  by (simp add: overwrite_def upd_conv_take_nth_drop)

lemma write_prefix_zero [simp]:
  "ch_pending_len_len c = 0 \<Longrightarrow> write_prefix 0 c base = (True, [], base)"
  by (simp add: write_prefix_def)

lemma make_space_cases:
  assumes m: "malloc_ok m" and h: "holds base (w @ c)" and k: "k \<noteq> 0" "k < 2 ^ 63"
  obtains (ok) buf u l where
      "make_space m (Suc k) (length w) (length c) base = (True, base\<lparr>cb_len := l, cb_buf := buf\<rparr>)"
      "holds (base\<lparr>cb_len := l, cb_buf := buf\<rparr>) (w @ u @ c)" "length u = k"
      "same_kind base (base\<lparr>cb_len := l, cb_buf := buf\<rparr>)"
  | (fail) "make_space m (Suc k) (length w) (length c) base = (False, set_error base)"
      "no_room m base (length w + length c + k)"
  using m h k(2)
proof (cases rule: buffer_add_cases)
  case (ok buf y)
  let ?b = "base\<lparr>cb_len := length (w @ c) + k, cb_buf := buf\<rparr>"
  define u v where "u = take k (c @ y)" and "v = drop k (c @ y)"
  have uv: "c @ y = u @ v" "length u = k" "length v = length c"
    using ok(2) by (simp_all only: u_def v_def append_take_drop_id) simp_all
  have h': "holds ?b ((w @ u) @ v @ [])" using ok(3) uv by simp
  have "take (length c) (drop (length w) buf) = c"
  proof -
    have t: "take (length ((w @ c) @ y)) buf = (w @ c) @ y" using holds_take [OF ok(3)] by simp
    obtain z where "buf = ((w @ c) @ y) @ z"
      using append_take_drop_id [of "length ((w @ c) @ y)" buf] unfolding t by metis
    then show ?thesis by simp
  qed
  then have "make_space m (Suc k) (length w) (length c) base =
      (True, ?b\<lparr>cb_buf := overwrite (cb_buf ?b) (length (w @ u)) c\<rparr>)"
    using ok(1) k uv by (simp add: make_space_def)
  moreover have "holds (?b\<lparr>cb_buf := overwrite (cb_buf ?b) (length (w @ u)) c\<rparr>) ((w @ u) @ c @ [])"
    using uv by (intro holds_overwrite [OF h']) auto
  moreover have "length (w @ u) + length c \<le> length buf"
    using holds_len [OF h'] h' uv by (simp add: holds_def cb_cap_def)
  ultimately show thesis
    using ok(4) uv that(1) [where buf = "overwrite buf (length (w @ u)) c" and u = u]
    by (auto simp: same_kind_def cb_cap_def)
next
  case fail
  then show thesis using that(2) k by (simp add: make_space_def)
qed

lemma finish_child_outcome:
  assumes m: "malloc_ok m" and h: "holds base (pre @ replicate p 0 @ c)"
    and f: "frame_ok (p, a, c)"
    and k: "k = \<lparr>ch_offset = length pre, ch_pending_len_len = p, ch_pending_is_asn1 = a\<rparr>"
  shows "case finish_child m (length pre + p) k base of (good, cs, base') \<Rightarrow>
     (good \<longrightarrow> cs = []) \<and>
     buffer_outcome m base (map_option (\<lambda>x. pre @ x) (close_frame p a c)) good base'"
proof -
  have n: "cb_len base - (length pre + p) = length c" using holds_len [OF h] by simp
  show ?thesis
  proof (cases a)
    case False
    show ?thesis
    proof (cases "length c < 256 ^ p")
      case True
      then show ?thesis
        using write_prefix_eq [OF h, of k "length c"] False n k
        by (auto simp: finish_child_def close_frame_def buffer_outcome_def Let_def)
    next
      case over: False
      then show ?thesis
        using write_prefix_overflow [OF h, of k "length c"] False n k
        by (auto simp: finish_child_def close_frame_def buffer_outcome_def Let_def)
    qed
  next
    case True
    then have p: "p = 1" using f by (simp add: frame_ok_def)
    have h1: "holds base (pre @ [0] @ c)" using h p by simp
    show ?thesis
    proof (cases "length c > 0xfffffffe")
      case True
      with \<open>a\<close> n k show ?thesis
        by (simp add: finish_child_def close_frame_def buffer_outcome_def Let_def)
    next
      case small: False
      show ?thesis
      proof (cases "length c < 128")
        case True
        let ?b = "base\<lparr>cb_buf := overwrite (cb_buf base) (length pre) [of_nat (length c)]\<rparr>"
        have "holds ?b (pre @ [of_nat (length c)] @ c)"
          by (rule holds_overwrite [OF h1]) auto
        moreover have "length pre < length (cb_buf base)"
          using holds_len [OF h1] h1 by (simp add: holds_def cb_cap_def)
        ultimately show ?thesis
          using \<open>a\<close> n small True k p
          by (simp add: finish_child_def asn1_length_form_eq make_space_def close_frame_def der_len_def
              buffer_outcome_def Let_def list_update_overwrite)
      next
        case False
        let ?k = "len_octets (length c)" and ?ib = "of_nat (128 + len_octets (length c)) :: byte"
        have oct: "?k \<noteq> 0" "?k < 2 ^ 63" "length c < 256 ^ ?k"
          using len_octets_bounds [of "length c"] False small by simp_all
        have "holds base ((pre @ [0]) @ c)" using h1 by simp
        from m this oct(1,2) show ?thesis
        proof (cases rule: make_space_cases)
          case (ok buf u l)
          let ?b = "base\<lparr>cb_len := l, cb_buf := buf\<rparr>"
          let ?b' = "?b\<lparr>cb_buf := overwrite (cb_buf ?b) (length pre) [?ib]\<rparr>"
          let ?c = "k\<lparr>ch_offset := Suc (length pre), ch_pending_len_len := ?k\<rparr>"
          have h2: "holds ?b (pre @ [0] @ u @ c)" using ok(2) by simp
          have h3: "holds ?b' (pre @ [?ib] @ u @ c)" by (rule holds_overwrite [OF h2]) auto
          have lt: "length pre < length (cb_buf ?b)"
            using holds_len [OF h2] h2 by (simp add: holds_def cb_cap_def)
          from h3 obtain buf' where w: "write_prefix (length c) ?c ?b' = (True, [], ?b'\<lparr>cb_buf := buf'\<rparr>)"
            "holds (?b'\<lparr>cb_buf := buf'\<rparr>) ((pre @ [?ib]) @ be_bytes ?k (length c) @ c)"
            "same_kind ?b' (?b'\<lparr>cb_buf := buf'\<rparr>)"
            using write_prefix_eq [of ?b' "pre @ [?ib]" u c ?c "length c"] ok(3) oct by auto
          have "finish_child m (length pre + p) k base =
              write_prefix (length c) ?c ?b'"
            using \<open>a\<close> n small False k p ok(1) lt
            by (simp add: finish_child_def asn1_length_form_eq Let_def list_update_overwrite
                del: of_nat_add)
          moreover have "same_kind base (?b'\<lparr>cb_buf := buf'\<rparr>)"
            using ok(4) lt w(3) by (auto simp: same_kind_def cb_cap_def)
          ultimately show ?thesis
            using w \<open>a\<close> small False
            by (simp add: close_frame_def buffer_outcome_def der_len_def del: of_nat_add)
        next
          case fail
          then show ?thesis
            using \<open>a\<close> n small False k p
            by (auto simp: finish_child_def asn1_length_form_eq Let_def close_frame_def
                buffer_outcome_def der_len_def algebra_simps elim: no_room_mono)
        qed
      qed
    qed
  qed
qed

lemma holds_length_less: "holds base w \<Longrightarrow> length w < 2 ^ 63"
  using holds_len [of base w] unfolding holds_def by (cases "cb_can_resize base") simp_all

lemma buffer_outcome_trans:
  assumes "same_kind base base'" "touches base base'" "buffer_outcome m base' spec good base''"
  shows "buffer_outcome m base spec good base''"
  using assms by (auto simp: buffer_outcome_def intro: touches_trans same_kind_trans no_room_same_kind)

lemma flush_chain_outcome:
  assumes m: "malloc_ok m"
  shows "holds base (pre @ concat (map frame_bytes fs)) \<Longrightarrow> list_all frame_ok fs \<Longrightarrow>
    case cbb_flush_chain m (kids (length pre) fs) base of (good, cs, base') \<Rightarrow>
      (good \<longrightarrow> cs = []) \<and> buffer_outcome m base (map_option (\<lambda>x. pre @ x) (squash fs)) good base'"
proof (induction fs arbitrary: pre)
  case Nil
  then show ?case by (simp add: buffer_outcome_def holds_def)
next
  case (Cons f fs)
  obtain p a c where f: "f = (p, a, c)" by (cases f)
  let ?k = "\<lparr>ch_offset = length pre, ch_pending_len_len = p, ch_pending_is_asn1 = a\<rparr>"
  let ?ks = "kids (length pre + p + length c) fs"
  let ?spec = "map_option (\<lambda>x. pre @ x) (squash (f # fs))"
  have ok: "frame_ok (p, a, c)" "p \<noteq> 0" using Cons.prems(2) f by (auto simp: frame_ok_def)
  have ne: "\<not> cb_error base" using Cons.prems by (simp add: holds_def)
  have lt: "length pre + p < 2 ^ 63"
    using holds_length_less [OF Cons.prems(1)] f by (simp add: frame_bytes_def)
  have IH: "case cbb_flush_chain m ?ks base of (good, cs, base') \<Rightarrow> (good \<longrightarrow> cs = []) \<and>
      buffer_outcome m base (map_option (\<lambda>x. (pre @ replicate p 0 @ c) @ x) (squash fs)) good base'"
    using Cons.IH [of "pre @ replicate p 0 @ c"] Cons.prems f
    by (simp add: frame_bytes_def add.assoc)
  obtain good cs base' where r: "cbb_flush_chain m ?ks base = (good, cs, base')" by (metis prod_cases3)
  have out: "good \<Longrightarrow> cs = []"
    "buffer_outcome m base (map_option (\<lambda>x. (pre @ replicate p 0 @ c) @ x) (squash fs)) good base'"
    using IH r by auto
  show ?case
  proof (cases good)
    case False
    have "no_room m base (length w)" if w: "?spec = Some w" for w
    proof -
      obtain x y where xy: "squash fs = Some x" "close_frame p a (c @ x) = Some y" "w = pre @ y"
        using w f by (auto split: option.splits)
      have "no_room m base (length ((pre @ replicate p 0 @ c) @ x))"
        using out(2) False xy by (simp add: buffer_outcome_def)
      then show ?thesis
        using close_frame_length [OF xy(2) ok(1)] xy by (auto elim: no_room_mono)
    qed
    then show ?thesis
      using False out ne ok r lt f by (auto simp: buffer_outcome_def Let_def)
  next
    case True
    then obtain x where x: "squash fs = Some x" "holds base' (pre @ replicate p 0 @ (c @ x))"
      "same_kind base base'" "touches base base'" and cs: "cs = []"
      using out by (auto simp: buffer_outcome_def)
    have "\<not> (cb_len base' < length pre + p)" using holds_len [OF x(2)] by simp
    then have eq: "cbb_flush_chain m (kids (length pre) (f # fs)) base =
        finish_child m (length pre + p) ?k base'"
      using True r ne ok lt f by (simp add: Let_def)
    have "frame_ok (p, a, c @ x)" using ok by (simp add: frame_ok_def)
    from finish_child_outcome [OF m x(2) this refl]
    show ?thesis
      unfolding eq using x f by (auto intro: buffer_outcome_trans)
  qed
qed

section \<open>The stack a writer represents\<close>

definition add_top :: "byte list \<Rightarrow> stack \<Rightarrow> stack" where
  "add_top x st =
     (case st of (root, fs) \<Rightarrow>
        if fs = [] then (root @ x, [])
        else (root, butlast fs @ [case last fs of (p, a, c) \<Rightarrow> (p, a, c @ x)]))"

lemma add_top_simps [simp]:
  "add_top x (root, []) = (root @ x, [])"
  "add_top x (root, fs @ [(p, a, c)]) = (root, fs @ [(p, a, c @ x)])"
  by (simp_all add: add_top_def)

lemma stack_cases:
  obtains (root) root where "st = (root, [])"
  | (child) root fs p a c where "st = (root, fs @ [(p, a, c)] :: frame list)"
  by (metis prod_cases3 prod.collapse rev_exhaust)

definition repr :: "cbb \<Rightarrow> stack \<Rightarrow> bool" where
  "repr s st \<longleftrightarrow> holds s (flat st) \<and> cb_children s = kids (length (fst st)) (snd st)
     \<and> list_all frame_ok (snd st)"

text \<open>
  The specification of every operation that appends: the children below depth \<open>d\<close> are closed,
  then the bytes go to the object at that depth.
\<close>

definition sp_append :: "nat \<Rightarrow> byte list \<Rightarrow> stack \<Rightarrow> stack option" where
  "sp_append d x st =
     (case squash (drop d (snd st)) of None \<Rightarrow> None
      | Some y \<Rightarrow> Some (add_top (y @ x) (fst st, take d (snd st))))"

text \<open>
  An operation on \<open>s\<close> meets its specification: it succeeds with a chain that represents the
  specified stack, or it reports an error, for want of a specified result or of room for it.
\<close>

definition outcome :: "libc \<Rightarrow> cbb \<Rightarrow> stack option \<Rightarrow> bool \<times> cbb \<Rightarrow> bool" where
  "outcome m s spec r \<longleftrightarrow>
     (if fst r then (\<exists>st. spec = Some st \<and> repr (snd r) st) \<and> same_kind s (snd r)
      else cb_error (snd r) \<and> (\<forall>st. spec = Some st \<longrightarrow> no_room m s (length (flat st))))"

definition appends :: "libc \<Rightarrow> (cbb \<Rightarrow> bool \<times> cbb) \<Rightarrow> nat \<Rightarrow> byte list \<Rightarrow> bool" where
  "appends m f d x \<longleftrightarrow>
     (\<forall>s st. repr s st \<longrightarrow> d \<le> length (snd st) \<longrightarrow> outcome m s (sp_append d x st) (f s))"

lemma flat_add_top [simp]: "flat (add_top x st) = flat st @ x"
  by (cases st rule: stack_cases) (simp_all add: flat_def frame_bytes_def)

lemma kids_append:
  "kids off (fs @ gs) = kids off fs @ kids (off + length (concat (map frame_bytes fs))) gs"
  by (induction off fs rule: kids.induct) (auto simp: frame_bytes_def add.assoc)

lemma take_kids: "take d (kids off fs) = kids off (take d fs)"
proof -
  have "kids off fs = kids off (take d fs) @ kids (off + length (concat (map frame_bytes (take d fs)))) (drop d fs)"
    using kids_append [of off "take d fs" "drop d fs"] by simp
  moreover have "length (kids off (take d fs)) = min d (length fs)" by simp
  ultimately show ?thesis by (cases "d \<le> length fs") (simp_all add: min_def)
qed

lemma drop_kids:
  "d \<le> length fs \<Longrightarrow>
   drop d (kids off fs) = kids (off + length (concat (map frame_bytes (take d fs)))) (drop d fs)"
proof -
  assume d: "d \<le> length fs"
  have "kids off fs = kids off (take d fs) @ kids (off + length (concat (map frame_bytes (take d fs)))) (drop d fs)"
    using kids_append [of off "take d fs" "drop d fs"] by simp
  moreover have "length (kids off (take d fs)) = d" using d by simp
  ultimately show ?thesis by simp
qed

lemma add_top_kids [simp]:
  "kids (length (fst (add_top x st))) (snd (add_top x st)) =
   (if snd st = [] then [] else kids (length (fst st)) (snd st))"
  by (cases st rule: stack_cases) (simp_all add: kids_append)

lemma add_top_ok [simp]: "list_all frame_ok (snd (add_top x st)) = list_all frame_ok (snd st)"
  by (cases st rule: stack_cases) (simp_all add: frame_ok_def)

lemma length_add_top [simp]: "length (snd (add_top x st)) = length (snd st)"
  by (cases st rule: stack_cases) simp_all

lemma add_top_add_top [simp]: "add_top y (add_top x st) = add_top (x @ y) st"
  by (cases st rule: stack_cases) simp_all

lemma add_top_Nil [simp]: "add_top [] st = st"
  by (cases st rule: stack_cases) simp_all

lemma holds_children [simp]: "holds (s\<lparr>cb_children := cs\<rparr>) w = holds s w"
  by (simp add: holds_def cb_cap_def)

lemma same_kind_children [simp]: "same_kind s (s'\<lparr>cb_children := cs\<rparr>) = same_kind s s'"
  by (simp add: same_kind_def cb_cap_def)

lemma touches_children: "touches s (s' :: cbb) \<Longrightarrow> cb_children s' = cb_children s"
  by (cases s; cases s') (simp add: touches_def)

lemma CBB_flush_appends:
  assumes m: "malloc_ok m"
  shows "appends m (CBB_flush m d) d []"
  unfolding appends_def
proof (intro allI impI)
  fix s st
  assume r: "repr s st" and d: "d \<le> length (snd st)"
  obtain root fs where st: "st = (root, fs)" by (cases st)
  let ?pre = "flat (root, take d fs)"
  have h: "holds s (?pre @ concat (map frame_bytes (drop d fs)))"
    using r st by (simp add: repr_def flat_def flip: concat_append map_append)
  have k: "cb_children s = kids (length root) fs" "list_all frame_ok fs"
    using r st by (simp_all add: repr_def)
  then have ks: "drop d (cb_children s) = kids (length ?pre) (drop d fs)"
    using d st drop_kids [of d fs "length root"] by (simp add: flat_def)
  have fok: "list_all frame_ok (drop d fs)" "list_all frame_ok (take d fs)"
    using k(2) by (auto simp: list_all_iff dest: in_set_dropD in_set_takeD)
  obtain good cs s' where res: "cbb_flush_chain m (drop d (cb_children s)) s = (good, cs, s')"
    by (metis prod_cases3)
  have out: "good \<Longrightarrow> cs = []"
    "buffer_outcome m s (map_option (\<lambda>x. ?pre @ x) (squash (drop d fs))) good s'"
    using flush_chain_outcome [OF m h fok(1)] res ks by auto
  have fl: "CBB_flush m d s = (good, s'\<lparr>cb_children := take d (cb_children s) @ cs\<rparr>)"
    using res d st k by (simp add: CBB_flush_def)
  show "outcome m s (sp_append d [] st) (CBB_flush m d s)"
  proof (cases good)
    case True
    then obtain x where x: "squash (drop d fs) = Some x" "holds s' (?pre @ x)" "same_kind s s'"
      using out by (auto simp: buffer_outcome_def)
    let ?st = "add_top x (root, take d fs)"
    have "repr (s'\<lparr>cb_children := take d (cb_children s) @ cs\<rparr>) ?st"
      using x out(1) [OF True] k(1) fok(2)
      by (auto simp: repr_def take_kids)
    then show ?thesis using x True fl st by (simp add: outcome_def sp_append_def)
  next
    case False
    have "no_room m s (length (flat st'))" if "sp_append d [] st = Some st'" for st'
      using that out(2) False st
      by (auto simp: sp_append_def buffer_outcome_def split: option.splits)
    then show ?thesis using out(2) False fl by (simp add: outcome_def buffer_outcome_def)
  qed
qed

section \<open>Composing operations\<close>

lemma outcome_and_then:
  assumes f: "outcome m s spec1 (f s)"
    and g: "\<And>s1 st1. spec1 = Some st1 \<Longrightarrow> repr s1 st1 \<Longrightarrow> outcome m s1 spec2 (g s1)"
    and none: "spec1 = None \<Longrightarrow> spec2 = None"
    and grows: "\<And>st1 st2. spec1 = Some st1 \<Longrightarrow> spec2 = Some st2 \<Longrightarrow> length (flat st1) \<le> length (flat st2)"
  shows "outcome m s spec2 (and_then f g s)"
proof -
  obtain ok s1 where r: "f s = (ok, s1)" by (cases "f s")
  show ?thesis
  proof (cases ok)
    case True
    then obtain st1 where st1: "spec1 = Some st1" "repr s1 st1" "same_kind s s1"
      using f r by (auto simp: outcome_def)
    have "outcome m s1 spec2 (g s1)" using g st1 by simp
    moreover have "and_then f g s = g s1" using r True by (simp add: and_then_def)
    ultimately show ?thesis
      using st1(3) by (auto simp: outcome_def intro: same_kind_trans no_room_same_kind)
  next
    case False
    then have "and_then f g s = (False, s1)" using r by (simp add: and_then_def)
    then show ?thesis
      using f r False none grows by (cases spec1) (auto simp: outcome_def elim: no_room_mono)
  qed
qed

lemma outcome_grows:
  "sp_append d x st = Some st1 \<Longrightarrow> length (flat st1) \<le> length (flat (add_top y st1))"
  by simp

lemma sp_append_SomeD:
  assumes "sp_append d x st = Some st1" and "d \<le> length (snd st)"
  shows "length (snd st1) = d" "sp_append d (x @ y) st = Some (add_top y st1)"
  using assms by (auto simp: sp_append_def min_def split: option.splits)

lemma sp_append_full: "length (snd st) = d \<Longrightarrow> sp_append d x st = Some (add_top x st)"
  by (cases st) (simp add: sp_append_def)

lemma sp_append_None: "sp_append d x st = None \<longleftrightarrow> sp_append d y st = None"
  by (auto simp: sp_append_def split: option.splits)

lemma appendsD:
  "appends m f d x \<Longrightarrow> repr s st \<Longrightarrow> d \<le> length (snd st) \<Longrightarrow> outcome m s (sp_append d x st) (f s)"
  unfolding appends_def by blast

lemma appends_and_then:
  assumes "appends m f d x" and "appends m g d y"
  shows "appends m (and_then f g) d (x @ y)"
  unfolding appends_def
proof (intro allI impI)
  fix s st
  assume r: "repr s st" "d \<le> length (snd st)"
  show "outcome m s (sp_append d (x @ y) st) (and_then f g s)"
  proof (rule outcome_and_then)
    show "outcome m s (sp_append d x st) (f s)" using assms(1) r by (rule appendsD)
  next
    fix s1 st1
    assume "sp_append d x st = Some st1" "repr s1 st1"
    moreover from this have "length (snd st1) = d" using r(2) by (intro sp_append_SomeD(1))
    ultimately show "outcome m s1 (sp_append d (x @ y) st) (g s1)"
      using appendsD [OF assms(2), of s1 st1] r sp_append_SomeD(2) [of d x st st1 y]
      by (simp add: sp_append_full)
  next
    assume "sp_append d x st = None"
    then show "sp_append d (x @ y) st = None" using sp_append_None by blast
  next
    fix st1 st2
    assume "sp_append d x st = Some st1" "sp_append d (x @ y) st = Some st2"
    then show "length (flat st1) \<le> length (flat st2)"
      using r sp_append_SomeD(2) [of d x st st1 y] by auto
  qed
qed

lemma appends_all_ok:
  assumes "fs \<noteq> []" and "list_all2 (\<lambda>f x. appends m f d x) fs xs"
  shows "appends m (all_ok fs) d (concat xs)"
  using assms
proof (induction fs arbitrary: xs)
  case (Cons f fs)
  then obtain y ys where xs: "xs = y # ys" "appends m f d y" "list_all2 (\<lambda>f x. appends m f d x) fs ys"
    by (auto simp: list_all2_Cons1)
  have all: "all_ok (f # fs) = and_then f (all_ok fs)" by (rule ext) simp
  show ?case
  proof (cases "fs = []")
    case True
    have "and_then f (all_ok []) = f"
      by (rule ext) (simp add: and_then_def split: prod.splits bool.splits)
    then show ?thesis using xs True all by simp
  next
    case False
    then show ?thesis using Cons.IH [OF False xs(3)] xs(1,2) all appends_and_then by simp
  qed
qed simp

lemma repr_add_top:
  assumes "repr s st" and "touches s s'" and "holds s' (flat st @ x)"
  shows "repr s' (add_top x st)"
  using assms touches_children [OF assms(2)] by (cases "snd st = []") (auto simp: repr_def)

lemma appends_flush:
  assumes m: "malloc_ok m"
    and g: "\<And>s st. repr s st \<Longrightarrow> length (snd st) = d \<Longrightarrow>
      buffer_outcome m s (Some (flat st @ x)) (fst (g s)) (snd (g s))"
  shows "appends m (and_then (CBB_flush m d) g) d x"
proof -
  have "outcome m s (sp_append d x st) (g s)" if "repr s st" "length (snd st) = d" for s st
    using g [OF that] that
    by (auto simp: outcome_def buffer_outcome_def sp_append_full intro: repr_add_top)
  note step = this
  show ?thesis
    unfolding appends_def
  proof (intro allI impI)
    fix s st
    assume r: "repr s st" "d \<le> length (snd st)"
    show "outcome m s (sp_append d x st) (and_then (CBB_flush m d) g s)"
    proof (rule outcome_and_then)
      show "outcome m s (sp_append d [] st) (CBB_flush m d s)"
        using CBB_flush_appends [OF m] r by (rule appendsD)
    next
      fix s1 st1
      assume "sp_append d [] st = Some st1" "repr s1 st1"
      then show "outcome m s1 (sp_append d x st) (g s1)"
        using step [of s1 st1] r sp_append_SomeD [of d "[]" st st1] sp_append_full [of st1 d x] by simp
    next
      assume "sp_append d [] st = None"
      then show "sp_append d x st = None" using sp_append_None by blast
    next
      fix st1 st2
      assume "sp_append d [] st = Some st1" "sp_append d x st = Some st2"
      then show "length (flat st1) \<le> length (flat st2)"
        using r sp_append_SomeD(2) [of d "[]" st st1 x] by auto
    qed
  qed
qed

lemma repr_holds: "repr s st \<Longrightarrow> holds s (flat st)"
  by (simp add: repr_def)

lemma buffer_add_u_outcome:
  assumes m: "malloc_ok m" and h: "holds base w" and n: "n < 2 ^ 63" "n \<noteq> 0"
  shows "buffer_outcome m base (if v < 256 ^ n then Some (w @ be_bytes n v) else None)
    (fst (cbb_buffer_add_u m v n base)) (snd (cbb_buffer_add_u m v n base))"
proof -
  from m h n(1) show ?thesis
  proof (cases rule: buffer_add_cases)
    case (ok buf y)
    let ?b = "base\<lparr>cb_len := length w + n, cb_buf := buf\<rparr>"
    have l: "length w + n \<le> length buf" using ok(3) by (simp add: holds_def cb_cap_def)
    have "holds ?b (w @ y @ [])" using ok(3) by simp
    then have "holds (?b\<lparr>cb_buf := overwrite (cb_buf ?b) (length w) (be_bytes n v)\<rparr>) (w @ be_bytes n v @ [])"
      using ok(2) by (intro holds_overwrite) auto
    moreover have "same_kind base (?b\<lparr>cb_buf := overwrite (cb_buf ?b) (length w) (be_bytes n v)\<rparr>)"
      using ok(4) l by (auto simp: same_kind_def cb_cap_def)
    ultimately show ?thesis using ok(1) l n
      by (simp add: cbb_buffer_add_u_def buffer_outcome_def put_be_eq div_eq_0_iff Let_def)
  next
    case fail
    then show ?thesis using n by (simp add: cbb_buffer_add_u_def buffer_outcome_def)
  qed
qed

lemma add_u_appends:
  assumes "malloc_ok m" and "n < 2 ^ 63" "n \<noteq> 0" and "v < 256 ^ n"
  shows "appends m (and_then (CBB_flush m d) (cbb_buffer_add_u m v n)) d (be_bytes n v)"
  using assms buffer_add_u_outcome [OF assms(1) repr_holds assms(2,3), of _ _ v]
  by (intro appends_flush) auto

lemma CBB_add_u8_appends: "malloc_ok m \<Longrightarrow> appends m (CBB_add_u8 m d b) d [b]"
  using add_u_appends [of m 1 "unat b" d] by (simp add: CBB_add_u8_def)

lemma CBB_add_u16_appends: "malloc_ok m \<Longrightarrow> appends m (CBB_add_u16 m d v) d (be_bytes 2 (unat v))"
  using add_u_appends [of m 2 "unat v" d] unsigned_less [of v] by (simp add: CBB_add_u16_def)

lemma CBB_add_u24_appends:
  "malloc_ok m \<Longrightarrow> unat v < 2 ^ 24 \<Longrightarrow> appends m (CBB_add_u24 m d v) d (be_bytes 3 (unat v))"
  using add_u_appends [of m 3 "unat v" d] by (simp add: CBB_add_u24_def)

lemma CBB_add_u32_appends: "malloc_ok m \<Longrightarrow> appends m (CBB_add_u32 m d v) d (be_bytes 4 (unat v))"
  using add_u_appends [of m 4 "unat v" d] unsigned_less [of v] by (simp add: CBB_add_u32_def)

lemma CBB_add_u64_appends: "malloc_ok m \<Longrightarrow> appends m (CBB_add_u64 m d v) d (be_bytes 8 (unat v))"
  using add_u_appends [of m 8 "unat v" d] unsigned_less [of v] by (simp add: CBB_add_u64_def)

text \<open>Reserving room and storing into it, for bytes and for the zeros of a length prefix.\<close>

lemma store_outcome:
  assumes m: "malloc_ok m" and h: "holds base w" and n: "length xs < 2 ^ 63"
  shows "buffer_outcome m base (Some (w @ xs))
    (fst (case cbb_buffer_add m (length xs) base of (None, b) \<Rightarrow> (False, b)
        | (Some dest, b) \<Rightarrow> (True, b\<lparr>cb_buf := overwrite (cb_buf b) dest xs\<rparr>)))
    (snd (case cbb_buffer_add m (length xs) base of (None, b) \<Rightarrow> (False, b)
        | (Some dest, b) \<Rightarrow> (True, b\<lparr>cb_buf := overwrite (cb_buf b) dest xs\<rparr>)))"
  using m h n
proof (cases rule: buffer_add_cases)
  case (ok buf y)
  let ?b = "base\<lparr>cb_len := length w + length xs, cb_buf := buf\<rparr>"
  have l: "length w + length xs \<le> length buf" using ok(3) by (simp add: holds_def cb_cap_def)
  have "holds ?b (w @ y @ [])" using ok(3) by simp
  then have "holds (?b\<lparr>cb_buf := overwrite (cb_buf ?b) (length w) xs\<rparr>) (w @ xs @ [])"
    by (rule holds_overwrite) (simp_all add: ok(2))
  moreover have "same_kind base (?b\<lparr>cb_buf := overwrite (cb_buf ?b) (length w) xs\<rparr>)"
    using ok(4) l by (auto simp: same_kind_def cb_cap_def)
  ultimately show ?thesis using ok(1) by (simp add: buffer_outcome_def)
next
  case fail
  then show ?thesis by (simp add: buffer_outcome_def)
qed

lemma CBB_add_bytes_appends:
  "malloc_ok m \<Longrightarrow> length xs < 2 ^ 63 \<Longrightarrow> appends m (CBB_add_bytes m d xs) d xs"
  unfolding CBB_add_bytes_def
  by (rule appends_flush) (use store_outcome repr_holds in blast)+

section \<open>Opening and closing children\<close>

definition open_child :: "nat \<Rightarrow> bool \<Rightarrow> stack \<Rightarrow> stack" where
  "open_child p a st = (fst st, snd st @ [(p, a, [])])"

definition opens :: "libc \<Rightarrow> (cbb \<Rightarrow> bool \<times> cbb) \<Rightarrow> nat \<Rightarrow> byte list \<Rightarrow> nat \<Rightarrow> bool \<Rightarrow> bool" where
  "opens m f d x p a \<longleftrightarrow>
     (\<forall>s st. repr s st \<longrightarrow> d \<le> length (snd st) \<longrightarrow>
        outcome m s (map_option (open_child p a) (sp_append d x st)) (f s))"

lemma opensD:
  "opens m f d x p a \<Longrightarrow> repr s st \<Longrightarrow> d \<le> length (snd st) \<Longrightarrow>
   outcome m s (map_option (open_child p a) (sp_append d x st)) (f s)"
  unfolding opens_def by blast

lemma flat_open_child [simp]: "flat (open_child p a st) = flat st @ replicate p 0"
  by (simp add: flat_def open_child_def frame_bytes_def)

lemma flat_child [simp]: "flat (fst st, snd st @ [f]) = flat st @ frame_bytes f"
  by (simp add: flat_def)

lemma open_child_grows:
  "map_option (open_child p a) spec = Some st2 \<Longrightarrow> spec = Some st1 \<Longrightarrow>
   length (flat st1) \<le> length (flat st2)"
  using flat_open_child [of p a st1] by simp

lemma open_child_simps [simp]:
  "fst (open_child p a st) = fst st" "length (snd (open_child p a st)) = Suc (length (snd st))"
  by (simp_all add: open_child_def)

lemma add_top_open_child [simp]:
  "add_top x (open_child p a st) = (fst st, snd st @ [(p, a, x)])"
  by (simp add: open_child_def)

lemma repr_open_child:
  assumes r: "repr s st" and h: "holds s' (flat st @ replicate p 0)" and f: "frame_ok (p, a, [])"
    and l: "off = length (flat st)"
  shows "repr (s'\<lparr>cb_children := cb_children s @ [\<lparr>ch_offset = off, ch_pending_len_len = p,
    ch_pending_is_asn1 = a\<rparr>]\<rparr>) (open_child p a st)"
  using r h f l by (simp add: repr_def kids_append open_child_def flat_def frame_bytes_def)

text \<open>A child opened by \<open>f\<close>, filled by \<open>g\<close> and closed again is an appended encoding.\<close>

lemma open_fill_close:
  assumes m: "malloc_ok m" and f: "opens m f d x p a" and g: "appends m g (Suc d) c"
    and ok: "frame_ok (p, a, c)" and cl: "close_frame p a c = Some y"
  shows "appends m (and_then f (and_then g (CBB_flush m d))) d (x @ y)"
  unfolding appends_def
proof (intro allI impI)
  fix s st
  assume r: "repr s st" "d \<le> length (snd st)"
  have sp: "length (snd st1) = d" "sp_append d (x @ y) st = Some (add_top y st1)"
    if "sp_append d x st = Some st1" for st1
    using sp_append_SomeD [OF that r(2)] by simp_all
  have len: "p + length c \<le> length y" by (rule close_frame_length [OF cl ok])
  show "outcome m s (sp_append d (x @ y) st) (and_then f (and_then g (CBB_flush m d)) s)"
  proof (rule outcome_and_then)
    show "outcome m s (map_option (open_child p a) (sp_append d x st)) (f s)"
      using f r by (rule opensD)
  next
    fix s1 st2
    assume "map_option (open_child p a) (sp_append d x st) = Some st2" and r1: "repr s1 st2"
    then obtain st1 where st1: "sp_append d x st = Some st1" "st2 = open_child p a st1" by auto
    note d = sp [OF st1(1)]
    have full: "sp_append (Suc d) c st2 = Some (fst st1, snd st1 @ [(p, a, c)])"
      using d st1 by (simp add: sp_append_full)
    have closed: "sp_append d [] (fst st1, snd st1 @ [(p, a, c)]) = Some (add_top y st1)"
      using d cl by (simp add: sp_append_def)
    show "outcome m s1 (sp_append d (x @ y) st) (and_then g (CBB_flush m d) s1)"
    proof (rule outcome_and_then)
      show "outcome m s1 (sp_append (Suc d) c st2) (g s1)"
        using g r1 d st1 by (intro appendsD) auto
    next
      fix s3 st3
      assume "sp_append (Suc d) c st2 = Some st3" and r3: "repr s3 st3"
      then have "st3 = (fst st1, snd st1 @ [(p, a, c)])" using full by simp
      then show "outcome m s3 (sp_append d (x @ y) st) (CBB_flush m d s3)"
        using appendsD [OF CBB_flush_appends [OF m] r3, of d] closed d by simp
    next
      fix st3 st4
      assume "sp_append (Suc d) c st2 = Some st3" "sp_append d (x @ y) st = Some st4"
      then show "length (flat st3) \<le> length (flat st4)"
        using full d len by (auto simp: frame_bytes_def)
    qed (simp add: full)
  next
    assume "map_option (open_child p a) (sp_append d x st) = None"
    then show "sp_append d (x @ y) st = None" using sp_append_None by blast
  next
    fix st1 st2
    assume "map_option (open_child p a) (sp_append d x st) = Some st1"
      "sp_append d (x @ y) st = Some st2"
    then show "length (flat st1) \<le> length (flat st2)" using sp len by auto
  qed
qed

lemma opens_prefix:
  assumes m: "malloc_ok m" and f: "appends m f d x" 
    and g: "\<And>s st. repr s st \<Longrightarrow> length (snd st) = d \<Longrightarrow> outcome m s (Some (open_child p a st)) (g s)"
  shows "opens m (and_then f g) d x p a"
  unfolding opens_def
proof (intro allI impI)
  fix s st
  assume r: "repr s st" "d \<le> length (snd st)"
  show "outcome m s (map_option (open_child p a) (sp_append d x st)) (and_then f g s)"
  proof (rule outcome_and_then)
    show "outcome m s (sp_append d x st) (f s)" using f r by (rule appendsD)
  next
    fix s1 st1
    assume st1: "sp_append d x st = Some st1" and r1: "repr s1 st1"
    then have "length (snd st1) = d" using r(2) by (intro sp_append_SomeD(1))
    then show "outcome m s1 (map_option (open_child p a) (sp_append d x st)) (g s1)"
      using g [OF r1] st1 by simp
  qed (use open_child_grows in auto)
qed

lemma length_prefixed_opens:
  assumes m: "malloc_ok m" and p: "0 < p" "p \<le> 8"
  shows "opens m (cbb_add_length_prefixed m d p) d [] p False"
  unfolding opens_def
proof (intro allI impI)
  fix s st
  assume r: "repr s st" "d \<le> length (snd st)"
  have n: "p < 2 ^ 63" using p by simp
  show "outcome m s (map_option (open_child p False) (sp_append d [] st)) (cbb_add_length_prefixed m d p s)"
    unfolding cbb_add_length_prefixed_def
  proof (rule outcome_and_then)
    show "outcome m s (sp_append d [] st) (CBB_flush m d s)"
      using CBB_flush_appends [OF m] r by (rule appendsD)
  next
    fix s1 st1
    assume st1: "sp_append d [] st = Some st1" and r1: "repr s1 st1"
    have d: "length (snd st1) = d" using st1 r(2) by (rule sp_append_SomeD(1))
    have ch: "take d (cb_children s1) = cb_children s1" using r1 d by (simp add: repr_def)
    show "outcome m s1 (map_option (open_child p False) (sp_append d [] st))
      (case cbb_buffer_add m p s1 of (None, s) \<Rightarrow> (False, s)
       | (Some offset, s) \<Rightarrow>
           (True, s\<lparr>cb_buf := overwrite (cb_buf s) offset (replicate p 0),
                    cb_children := take d (cb_children s) @
                      [\<lparr>ch_offset = offset, ch_pending_len_len = p, ch_pending_is_asn1 = False\<rparr>]\<rparr>))"
      using m repr_holds [OF r1] n
    proof (cases rule: buffer_add_cases)
      case (ok buf y)
      let ?b = "s1\<lparr>cb_len := length (flat st1) + p, cb_buf := buf\<rparr>"
      let ?b' = "?b\<lparr>cb_buf := overwrite (cb_buf ?b) (length (flat st1)) (replicate p 0)\<rparr>"
      have l: "length (flat st1) + p \<le> length buf" using ok(3) by (simp add: holds_def cb_cap_def)
      have "holds ?b (flat st1 @ y @ [])" using ok(3) by simp
      then have "holds ?b' (flat st1 @ replicate p 0 @ [])"
        by (rule holds_overwrite) (simp_all add: ok(2))
      then have "holds ?b' (flat st1 @ replicate p 0)" by simp
      then have "repr (?b'\<lparr>cb_children := cb_children s1 @
          [\<lparr>ch_offset = length (flat st1), ch_pending_len_len = p, ch_pending_is_asn1 = False\<rparr>]\<rparr>)
          (open_child p False st1)"
        using p by (intro repr_open_child [OF r1]) (auto simp: frame_ok_def)
      moreover have "same_kind s1 ?b'"
        using ok(4) l by (auto simp: same_kind_def cb_cap_def)
      ultimately show ?thesis using ok(1) st1 ch
        by (simp add: outcome_def)
    next
      case fail
      then show ?thesis using st1 by (simp add: outcome_def)
    qed
  qed (use open_child_grows in auto)
qed

section \<open>Tags and base-128 integers\<close>

fun groups :: "nat \<Rightarrow> nat" where
  "groups n = (if n = 0 then 0 else Suc (groups (n div 128)))"

declare groups.simps [simp del]

lemma base128_len_eq: "base128_len v = groups (unat v)"
proof (induction v rule: base128_len.induct)
  case (1 v)
  then show ?case
    by (subst base128_len.simps, subst groups.simps)
      (auto simp: unat_drop_bit word_neq_0_conv unat_eq_zero)
qed

lemma rev_upt_Suc: "rev [0..<Suc k] = map Suc (rev [0..<k]) @ [0]"
proof -
  have "[0..<Suc k] = 0 # map Suc [0..<k]" by (simp add: map_Suc_upt upt_conv_Cons del: upt_Suc)
  then show ?thesis by (simp add: rev_map del: upt_Suc)
qed

lemma b128_hi_groups:
  "b128_hi n = map (\<lambda>i. of_nat (128 + n div 128 ^ i mod 128)) (rev [0..<groups n])"
proof (induction n rule: b128_hi.induct)
  case (1 n)
  show ?case
  proof (cases "n = 0")
    case False
    have "map (\<lambda>i. of_nat (128 + n div 128 ^ i mod 128)) (rev [0..<groups n]) =
        map (\<lambda>i. of_nat (128 + n div 128 div 128 ^ i mod 128)) (rev [0..<groups (n div 128)])
          @ [of_nat (128 + n mod 128) :: byte]"
      using False by (simp add: groups.simps [of n] div_mult2_eq rev_upt_Suc del: upt_Suc of_nat_add)
    then show ?thesis using 1 False by (simp add: b128_hi.simps [of n] del: of_nat_add)
  qed (simp add: b128_hi.simps groups.simps)
qed

lemma base128_byte_eq:
  "base128_byte v i = of_nat ((if i = 0 then 0 else 128) + unat v div 128 ^ i mod 128)"
proof -
  have "(0x7f :: u64) = mask 7" by (simp add: mask_numeral)
  then have u: "unat (drop_bit (7 * i) v AND 0x7f) = unat v div 128 ^ i mod 128"
    using unat_and_mask [of "drop_bit (7 * i) v" 7] by (simp add: unat_drop_bit power_mult)
  define b :: byte where "b = ucast (drop_bit (7 * i) v AND 0x7f)"
  have b: "unat b = unat v div 128 ^ i mod 128"
    unfolding b_def by (simp only: unsigned_ucast_eq) (simp add: u take_bit_eq_mod)
  have "unat (0x80 OR b) = 128 + unat b"
    using word_shift_or [of b 7 1] b by simp
  then have "b OR 0x80 = of_nat (128 + unat b)"
    by (metis or.commute word_eq_of_natI)
  moreover have "b = of_nat (unat b)" by simp
  ultimately show ?thesis using b
    by (simp add: base128_byte_def Let_def b_def [symmetric] del: of_nat_add)
qed

lemma b128_groups:
  "b128 (unat v) = map (base128_byte v) (rev [0..<(if base128_len v = 0 then 1 else base128_len v)])"
proof (cases "unat v = 0")
  case True
  then show ?thesis
    by (simp add: b128_def base128_len_eq groups.simps base128_byte_eq)
next
  case False
  then show ?thesis
    by (simp add: b128_def base128_len_eq groups.simps [of "unat v"] base128_byte_eq
        b128_hi_groups div_mult2_eq rev_upt_Suc del: upt_Suc of_nat_add)
qed

lemma all_ok_append: "all_ok (fs @ gs) = and_then (all_ok fs) (all_ok gs)"
  by (induction fs) (auto simp: fun_eq_iff and_then_def split: prod.splits bool.splits)

lemma appends_u8_list:
  assumes "malloc_ok m" and "bs \<noteq> []"
  shows "appends m (all_ok (map (CBB_add_u8 m d) bs)) d bs"
proof -
  have "list_all2 (\<lambda>f x. appends m f d x) (map (CBB_add_u8 m d) bs) (map (\<lambda>b. [b]) bs)"
    using assms(1) CBB_add_u8_appends by (auto simp: list_all2_conv_all_nth)
  then show ?thesis
    using assms(2) appends_all_ok [of "map (CBB_add_u8 m d) bs" m d "map (\<lambda>b. [b]) bs"]
    by (simp add: concat_map_singleton)
qed

lemma add_base128_integer_appends:
  assumes "malloc_ok m"
  shows "appends m (add_base128_integer m d v) d (b128 (unat v))"
proof -
  have "add_base128_integer m d v = all_ok (map (CBB_add_u8 m d) (b128 (unat v)))"
    by (simp add: add_base128_integer_def b128_groups comp_def)
  then show ?thesis using appends_u8_list [OF assms, of "b128 (unat v)" d] by (simp add: b128_def)
qed

lemma tag_bits_eq:
  "unat (ucast (drop_bit CBS_ASN1_TAG_SHIFT (tag :: u32)) AND 0xe0 :: byte) = unat tag div 2 ^ 29 * 32"
proof -
  have lt: "unat tag < 2 ^ 32" using unsigned_less [of tag] by simp
  have "unat (ucast (drop_bit 24 tag) :: byte) = unat tag div 2 ^ 24 mod 256"
    by (simp only: unsigned_ucast_eq) (simp add: unat_drop_bit take_bit_eq_mod)
  moreover have "unat tag div 2 ^ 24 < 256" using lt by (simp add: less_mult_imp_div_less)
  ultimately have "unat (ucast (drop_bit 24 tag) :: byte) = unat tag div 2 ^ 24" by simp
  then show ?thesis
    by (simp only: byte_and_e0 CBS_ASN1_TAG_SHIFT_def) (simp add: div_mult2_eq [symmetric])
qed

lemma tag_number_eq: "unat (tag AND CBS_ASN1_TAG_NUMBER_MASK) = unat tag mod 2 ^ 29"
proof -
  have "CBS_ASN1_TAG_NUMBER_MASK = mask 29"
    by (simp add: CBS_ASN1_TAG_NUMBER_MASK_def CBS_ASN1_TAG_SHIFT_def mask_eq_decr_exp)
  then show ?thesis using unat_and_mask [of tag 29] by simp
qed

lemma byte_or_low:
  assumes "unat (x :: byte) = 32 * c" and "unat y < 32"
  shows "x OR y = of_nat (32 * c + unat y)"
proof -
  have c: "c < 8" using assms(1) unat_byte_lt [of x] by linarith
  then have uc: "unat (of_nat c :: byte) = c" by simp
  have "unat (push_bit 5 (of_nat c :: byte)) = 32 * c"
    using c by (simp only: unsigned_push_bit_eq uc) (simp add: push_bit_eq_mult take_bit_nat_eq_self)
  then have "x = push_bit 5 (of_nat c)" using assms(1) by (simp only: word_unat_eq_iff)
  moreover have "unat (push_bit 5 (of_nat c) OR y) = c * 2 ^ 5 + unat y"
    using word_shift_or [of y 5 "of_nat c"] assms(2) c uc by simp
  ultimately show ?thesis using word_eq_of_natI [of "x OR y" "32 * c + unat y"] by (simp add: mult.commute)
qed

lemma CBB_add_asn1_opens:
  assumes m: "malloc_ok m"
  shows "opens m (CBB_add_asn1 m d tag) d (der_tag tag) 1 True"
proof -
  let ?bits = "ucast (drop_bit CBS_ASN1_TAG_SHIFT tag) AND 0xe0 :: byte"
  let ?num = "tag AND CBS_ASN1_TAG_NUMBER_MASK"
  let ?final = "\<lambda>s. let offset = cb_len s in
      and_then (CBB_add_u8 m d 0) (\<lambda>s. (True, s\<lparr>cb_children := take d (cb_children s) @
        [\<lparr>ch_offset = offset, ch_pending_len_len = 1, ch_pending_is_asn1 = True\<rparr>]\<rparr>)) s"
  let ?ops = "if ?num \<ge> 0x1f
     then [CBB_add_u8 m d (?bits OR 0x1f), add_base128_integer m d (ucast ?num)]
     else [CBB_add_u8 m d (?bits OR ucast ?num)]"
  have num: "unat ?num < 2 ^ 29" by (simp add: tag_number_eq)
  have "appends m (all_ok (CBB_flush m d # ?ops)) d (der_tag tag)"
  proof (cases "?num \<ge> 0x1f")
    case True
    have "?bits OR 0x1f = of_nat (32 * (unat tag div 2 ^ 29) + unat (0x1f :: byte))"
      by (rule byte_or_low) (simp_all add: tag_bits_eq)
    moreover have "unat (ucast ?num :: u64) = unat tag mod 2 ^ 29"
      using num by (simp only: unsigned_ucast_eq) (simp add: tag_number_eq take_bit_nat_eq_self)
    ultimately have "der_tag tag = concat [[], [?bits OR 0x1f], b128 (unat (ucast ?num :: u64))]"
      using True by (simp add: der_tag_def Let_def word_le_nat_alt tag_number_eq del: of_nat_add of_nat_mult)
    then show ?thesis
      using True m CBB_flush_appends CBB_add_u8_appends add_base128_integer_appends
      by (simp only: if_True) (intro appends_all_ok; simp)
  next
    case False
    then have small: "unat ?num < 31" by (simp add: word_le_nat_alt not_le)
    have "unat (ucast ?num :: byte) = unat tag mod 2 ^ 29"
      using small by (simp only: unsigned_ucast_eq) (simp add: tag_number_eq take_bit_nat_eq_self)
    moreover from this have "?bits OR ucast ?num = of_nat (32 * (unat tag div 2 ^ 29) + unat (ucast ?num :: byte))"
      using small by (intro byte_or_low) (simp_all add: tag_bits_eq tag_number_eq)
    ultimately have "der_tag tag = concat [[], [?bits OR ucast ?num]]"
      using small by (simp add: der_tag_def Let_def tag_number_eq del: of_nat_add of_nat_mult)
    then show ?thesis
      using False m CBB_flush_appends CBB_add_u8_appends
      by (simp only: if_False) (intro appends_all_ok; simp)
  qed
  moreover have "outcome m s (Some (open_child 1 True st)) (?final s)"
    if r: "repr s st" and d: "length (snd st) = d" for s st
  proof -
    have off: "cb_len s = length (flat st)" using holds_len [OF repr_holds [OF r]] .
    show ?thesis
      unfolding Let_def
    proof (rule outcome_and_then)
      show "outcome m s (Some (add_top [0] st)) (CBB_add_u8 m d 0 s)"
        using appendsD [OF CBB_add_u8_appends [OF m, of d 0] r] d by (simp add: sp_append_full)
    next
      fix s1 st1
      assume "Some (add_top [0] st) = Some st1" and r1: "repr s1 st1"
      then have st1: "st1 = add_top [0] st" by simp
      have c: "take d (cb_children s1) = kids (length (fst st)) (snd st)"
        using r1 d by (auto simp: repr_def st1)
      have "holds s1 (flat st @ replicate 1 0)" using repr_holds [OF r1] by (simp add: st1)
      from repr_open_child [OF r this, of True "cb_len s"] off
      have "repr (s1\<lparr>cb_children := cb_children s @ [\<lparr>ch_offset = cb_len s, ch_pending_len_len = 1,
          ch_pending_is_asn1 = True\<rparr>]\<rparr>) (open_child 1 True st)"
        by (simp add: frame_ok_def)
      moreover have "cb_children s = take d (cb_children s1)" using r c by (simp add: repr_def)
      ultimately show "outcome m s1 (Some (open_child 1 True st))
        (True, s1\<lparr>cb_children := take d (cb_children s1) @ [\<lparr>ch_offset = cb_len s,
          ch_pending_len_len = 1, ch_pending_is_asn1 = True\<rparr>]\<rparr>)"
        by (simp add: outcome_def)
    next
      fix st1 st2
      assume "Some (add_top [0] st) = Some st1" "Some (open_child 1 True st) = Some st2"
      then have "st1 = add_top [0] st" "st2 = open_child 1 True st" by simp_all
      then show "length (flat st1) \<le> length (flat st2)" by simp
    qed simp
  qed
  moreover have "CBB_add_asn1 m d tag = and_then (all_ok (CBB_flush m d # ?ops)) ?final"
  proof -
    have snoc: "all_ok (fs @ [f]) = and_then (all_ok fs) f" for fs :: "(cbb \<Rightarrow> bool \<times> cbb) list" and f
      by (rule ext) (simp add: all_ok_append and_then_def split: prod.splits bool.splits)
    show ?thesis unfolding CBB_add_asn1_def Let_def append_Cons [symmetric] snoc ..
  qed
  ultimately show ?thesis using opens_prefix [OF m] by simp
qed

lemma CBB_element_appends:
  assumes m: "malloc_ok m" and g: "appends m g (Suc d) c" and c: "length c \<le> 0xfffffffe"
  shows "appends m (and_then (CBB_add_asn1 m d tag) (and_then g (CBB_flush m d))) d (der_element tag c)"
proof -
  have "frame_ok (1, True, c)" "close_frame 1 True c = Some (der_len (length c) @ c)"
    using c by (simp_all add: frame_ok_def close_frame_def)
  then show ?thesis
    using open_fill_close [OF m CBB_add_asn1_opens [OF m] g]
    by (simp add: der_element_def der_header_def)
qed

lemma and_then_assoc: "and_then (and_then f g) h = and_then f (and_then g h)"
  by (rule ext) (simp add: and_then_def split: prod.splits bool.splits)

lemma all_ok_simps [simp]:
  "all_ok [f] = f" "fs \<noteq> [] \<Longrightarrow> all_ok (f # fs) = and_then f (all_ok fs)"
  by (rule ext, simp add: and_then_def split: prod.splits bool.splits) (rule ext, simp)

lemma CBB_add_asn1_octet_string_appends:
  "malloc_ok m \<Longrightarrow> length xs \<le> 0xfffffffe \<Longrightarrow>
   appends m (CBB_add_asn1_octet_string m d xs) d (der_element CBS_ASN1_OCTETSTRING xs)"
  using CBB_element_appends [OF _ CBB_add_bytes_appends [of m xs "Suc d"]]
  by (simp add: CBB_add_asn1_octet_string_def)

lemma CBB_add_asn1_bool_appends:
  "malloc_ok m \<Longrightarrow>
   appends m (CBB_add_asn1_bool m d v) d (der_element CBS_ASN1_BOOLEAN [if v \<noteq> 0 then 0xff else 0])"
  using CBB_element_appends [OF _ CBB_add_u8_appends [of m "Suc d"]]
  by (simp add: CBB_add_asn1_bool_def)

text \<open>The contents octets the integer loops write.\<close>

definition uint_content :: "byte list \<Rightarrow> bool \<Rightarrow> byte list" where
  "uint_content bs started =
     (if started then bs
      else let r = dropWhile (\<lambda>b. b = 0) bs in
        if r = [] then [] else if 128 \<le> unat (hd r) then 0 # r else r)"

lemma asn1_uint64_bytes_eq:
  "case asn1_uint64_bytes m d bs started s of ((ok, st), s') \<Rightarrow>
     all_ok (map (CBB_add_u8 m d) (uint_content bs started)) s = (ok, s')
     \<and> (ok \<longrightarrow> st = (started \<or> uint_content bs started \<noteq> []))"
proof (induction bs arbitrary: started s)
  case (Cons b bs)
  show ?case
  proof (cases "\<not> started \<and> b = 0")
    case True
    then have "uint_content (b # bs) started = uint_content bs started"
      by (simp add: uint_content_def)
    then show ?thesis using Cons [of started s] True by simp
  next
    case False
    have c: "uint_content (b # bs) started =
        (if \<not> started \<and> 128 \<le> unat b then [0] else []) @ b # uint_content bs True"
      using False by (auto simp: uint_content_def)
    let ?pad = "if \<not> started \<and> 128 \<le> unat b then CBB_add_u8 m d 0 s else (True, s)"
    have pad: "all_ok (map (CBB_add_u8 m d) (if \<not> started \<and> 128 \<le> unat b then [0] else [])) s = ?pad"
      by simp
    have run: "asn1_uint64_bytes m d (b # bs) started s =
       (case ?pad of (False, s) \<Rightarrow> ((False, started), s)
        | (True, s) \<Rightarrow> (case CBB_add_u8 m d b s of (False, s) \<Rightarrow> ((False, True), s)
                       | (True, s) \<Rightarrow> asn1_uint64_bytes m d bs True s))"
      using False byte_and_80 [of b] by (simp only: asn1_uint64_bytes.simps not_less if_False simp_thms)
    obtain ok1 s1 where 1: "?pad = (ok1, s1)" by (cases ?pad)
    obtain ok2 s2 where 2: "CBB_add_u8 m d b s1 = (ok2, s2)" by (cases "CBB_add_u8 m d b s1")
    have rest: "uint_content bs True = bs" by (simp add: uint_content_def)
    show ?thesis
      unfolding c map_append all_ok_append and_then_def pad run 1
      using 2 Cons [of True s2] by (cases ok1; cases ok2) (simp_all add: and_then_def)
  qed
qed (simp add: uint_content_def)

lemma be_val_be_bytes_u64 [simp]: "be_val (be_bytes 8 (unat (v :: u64))) = unat v"
proof -
  have "unat v < 2 ^ 64" using unsigned_less [of v] by simp
  then show ?thesis by (simp add: be_val_be_bytes)
qed

lemma be_bytes_not_Nil [simp]: "be_bytes n v = [] \<longleftrightarrow> n = 0"
  using length_be_bytes [of n v] by (cases n) (auto simp del: length_be_bytes)

lemma be_val_dropWhile_zero: "be_val (dropWhile (\<lambda>b. b = 0) bs) = be_val bs"
  by (induction bs) (simp_all add: be_val_Cons)

lemma hd_dropWhile_zero: "dropWhile (\<lambda>b. b = 0) bs \<noteq> [] \<Longrightarrow> hd (dropWhile (\<lambda>b. b = 0) bs) \<noteq> 0"
  by (induction bs) auto

lemma der_uint_content:
  "der_uint (be_val bs) = (if uint_content bs False = [] then [0] else uint_content bs False)"
proof -
  have "base256 (be_val bs) = dropWhile (\<lambda>b. b = 0) bs"
    using base256_be_val [of "dropWhile (\<lambda>b. b = 0) bs"] hd_dropWhile_zero [of bs]
    by (auto simp: be_val_dropWhile_zero)
  then show ?thesis by (simp add: der_uint_def uint_content_def Let_def del: dropWhile_eq_Nil_conv)
qed

lemma be_bytes_nth:
  "i < n \<Longrightarrow> be_bytes n v ! i = of_nat (v div 256 ^ (n - 1 - i))"
proof (induction n v rule: be_bytes.induct)
  case (2 n v)
  show ?case
  proof (cases "i < n")
    case True
    then have "n - i = Suc (n - 1 - i)" by simp
    then show ?thesis using 2 True by (simp add: nth_append div_mult2_eq)
  next
    case False
    then have "i = n" using 2 by simp
    then show ?thesis by (simp add: nth_append)
  qed
qed simp

lemma uint64_loop_bytes:
  "map (\<lambda>i. ucast (drop_bit (8 * (7 - i)) (v :: u64) AND 0xff)) [0..<8] = be_bytes 8 (unat v)"
proof (rule nth_equalityI)
  fix i
  assume i: "i < length (map (\<lambda>i. ucast (drop_bit (8 * (7 - i)) v AND 0xff) :: byte) [0..<8])"
  have "(0xff :: u64) = mask 8" by (simp add: mask_numeral)
  then have u: "unat (drop_bit (8 * (7 - i)) v AND 0xff) = unat v div 256 ^ (7 - i) mod 256"
    using unat_and_mask [of "drop_bit (8 * (7 - i)) v" 8] by (simp add: unat_drop_bit power_mult)
  have "unat (ucast (drop_bit (8 * (7 - i)) v AND 0xff) :: byte) = unat v div 256 ^ (7 - i) mod 256"
    by (simp only: unsigned_ucast_eq u) (simp add: take_bit_eq_mod)
  then have "(ucast (drop_bit (8 * (7 - i)) v AND 0xff) :: byte) = of_nat (unat v div 256 ^ (7 - i))"
    by (metis unat_of_nat_byte word_unat_eq_iff)
  then show "map (\<lambda>i. ucast (drop_bit (8 * (7 - i)) v AND 0xff)) [0..<8] ! i = be_bytes 8 (unat v) ! i"
    using i by (simp add: be_bytes_nth del: upt_rec_numeral)
qed simp

lemma length_der_uint: "length (der_uint (unat (v :: u64))) \<le> 9"
proof -
  have "der_uint (unat v) = (if uint_content (be_bytes 8 (unat v)) False = [] then [0]
      else uint_content (be_bytes 8 (unat v)) False)"
    using der_uint_content [of "be_bytes 8 (unat v)"] by simp
  moreover have "length (uint_content (be_bytes 8 (unat v)) False) \<le> 9"
    using length_dropWhile_le [of "\<lambda>b. b = 0" "be_bytes 8 (unat v)"]
    by (simp add: uint_content_def Let_def)
  ultimately show ?thesis by simp
qed

lemma CBB_add_asn1_uint64_appends:
  assumes m: "malloc_ok m"
  shows "appends m (CBB_add_asn1_uint64 m d v) d (der_element CBS_ASN1_INTEGER (der_uint (unat v)))"
proof -
  let ?bs = "be_bytes 8 (unat v)" and ?c = "uint_content (be_bytes 8 (unat v)) False"
  let ?u8 = "map (CBB_add_u8 m (Suc d))"
  have content: "der_uint (unat v) = (if ?c = [] then [0] else ?c)"
    using der_uint_content [of ?bs] by simp
  have body: "(case asn1_uint64_bytes m (Suc d) ?bs False s of
       ((False, _), s) \<Rightarrow> (False, s)
     | ((True, started), s) \<Rightarrow>
         and_then (\<lambda>s. if \<not> started then CBB_add_u8 m (Suc d) 0 s else (True, s)) (CBB_flush m d) s)
     = and_then (all_ok (?u8 (der_uint (unat v)))) (CBB_flush m d) s" for s
  proof -
    obtain ok st s' where r: "asn1_uint64_bytes m (Suc d) ?bs False s = ((ok, st), s')"
      by (metis prod.collapse)
    then have "all_ok (?u8 ?c) s = (ok, s')" "ok \<Longrightarrow> st = (?c \<noteq> [])"
      using asn1_uint64_bytes_eq [of m "Suc d" ?bs False s] by auto
    then show ?thesis using r content by (cases ok) (auto simp: and_then_def)
  qed
  have "CBB_add_asn1_uint64 m d v =
      and_then (CBB_add_asn1 m d CBS_ASN1_INTEGER)
        (and_then (all_ok (?u8 (der_uint (unat v)))) (CBB_flush m d))"
    unfolding CBB_add_asn1_uint64_def uint64_loop_bytes body ..
  moreover have "der_uint (unat v) \<noteq> []" by (simp add: der_uint_def Let_def)
  moreover have "length (der_uint (unat v)) \<le> 0xfffffffe" using length_der_uint [of v] by linarith
  ultimately show ?thesis using CBB_element_appends [OF m appends_u8_list [OF m]] by simp
qed

text \<open>Stripping redundant sign octets from a negative number.\<close>

fun strip_sign :: "byte list \<Rightarrow> byte list" where
  "strip_sign (a # b # bs) =
     (if a = 0xff \<and> b AND 0x80 \<noteq> 0 then strip_sign (b # bs) else a # b # bs)"
| "strip_sign bs = bs"

lemma strip_sign_take:
  assumes "k < length bs"
  shows "rev (take (Suc (int64_start bs k)) bs) = strip_sign (rev (take (Suc k) bs))"
  using assms
proof (induction k)
  case 0
  then show ?case by (cases bs) simp_all
next
  case (Suc k)
  have "take (Suc (Suc k)) bs = take k bs @ [bs ! k, bs ! Suc k]"
    using Suc.prems by (simp add: take_Suc_conv_app_nth)
  moreover have "take (Suc k) bs = take k bs @ [bs ! k]"
    using Suc.prems by (simp add: take_Suc_conv_app_nth)
  ultimately show ?case using Suc by simp
qed

lemma strip_sign_keeps:
  "bs \<noteq> [] \<Longrightarrow> 128 \<le> unat (hd bs) \<Longrightarrow>
   strip_sign bs \<noteq> [] \<and> 128 \<le> unat (hd (strip_sign bs)) \<and> be_sval (strip_sign bs) = be_sval bs
   \<and> int_minimal (strip_sign bs) \<and> length (strip_sign bs) \<le> length bs"
proof (induction bs rule: strip_sign.induct)
  case (1 a b bs)
  show ?case
  proof (cases "a = 0xff \<and> b AND 0x80 \<noteq> 0")
    case True
    then have b: "128 \<le> unat b" by (simp add: byte_and_80 not_less)
    have "be_sval (a # b # bs) = be_sval (b # bs)"
      using True b by (simp add: be_sval_def be_val_Cons)
    then show ?thesis using 1(1) [OF True] True b by simp
  next
    case False
    then have "strip_sign (a # b # bs) = a # b # bs" by auto
    moreover have "int_minimal (a # b # bs)"
      using False 1(3) by (auto simp: int_minimal_def)
    ultimately show ?thesis using 1(3) by simp
  qed
qed (auto simp: int_minimal_def)

definition der_int :: "u64 \<Rightarrow> byte list" where
  "der_int v = (if sint v \<ge> 0 then der_uint (unat v) else strip_sign (be_bytes 8 (unat v)))"

lemma be_sval_be_bytes: "be_sval (be_bytes 8 (unat v)) = sint (v :: u64)"
  using sign_extend [of "be_bytes 8 (unat v)"] by simp

lemma uint_minimal_int_minimal: "uint_minimal d \<Longrightarrow> int_minimal d \<and> be_sval d = int (be_val d)"
  by (cases d) (auto simp: uint_minimal_def int_minimal_def be_sval_def byte_and_80)

lemma take_conv_map: "n \<le> length xs \<Longrightarrow> take n xs = map (\<lambda>i. xs ! i) [0..<n]"
  by (simp add: list_eq_iff_nth_eq)

lemma CBB_add_asn1_int64_appends:
  assumes m: "malloc_ok m"
  shows "appends m (CBB_add_asn1_int64 m d v) d (der_element CBS_ASN1_INTEGER (der_int v))"
proof (cases "sint v \<ge> 0")
  case True
  then show ?thesis using CBB_add_asn1_uint64_appends [OF m]
    by (simp add: CBB_add_asn1_int64_def der_int_def)
next
  case False
  let ?big = "be_bytes 8 (unat v)" and ?k = "int64_start (rev (be_bytes 8 (unat v))) 7"
  let ?u8 = "CBB_add_u8 m (Suc d)"
  have k: "j \<le> 7 \<Longrightarrow> int64_start bs j \<le> 7" for j bs by (induction j) auto
  have "map (\<lambda>i. ?u8 (rev ?big ! i)) (rev [0..<Suc ?k]) = map ?u8 (rev (take (Suc ?k) (rev ?big)))"
    using k [of 7 "rev ?big"] take_conv_map [of "Suc ?k" "rev ?big"]
    by (simp add: rev_map comp_def del: upt_Suc)
  also have "rev (take (Suc ?k) (rev ?big)) = strip_sign ?big"
    using strip_sign_take [of 7 "rev ?big"] by simp
  finally have body: "map (\<lambda>i. ?u8 (rev ?big ! i)) (rev [0..<Suc ?k]) = map ?u8 (strip_sign ?big)" .
  have "128 \<le> unat (hd ?big)"
    using False be_sval_be_bytes [of v] by (auto simp: be_sval_def split: if_splits)
  note strip = strip_sign_keeps [OF _ this]
  have "CBB_add_asn1_int64 m d v = and_then (CBB_add_asn1 m d CBS_ASN1_INTEGER)
      (and_then (all_ok (map ?u8 (strip_sign ?big))) (CBB_flush m d))"
    using False strip body
    by (simp add: CBB_add_asn1_int64_def Let_def all_ok_append del: upt_Suc)
  moreover have "length (strip_sign ?big) \<le> 0xfffffffe" using strip by simp
  ultimately show ?thesis
    using CBB_element_appends [OF m appends_u8_list [OF m]] strip False by (simp add: der_int_def)
qed

lemma der_int_minimal:
  "int_minimal (der_int v) \<and> length (der_int v) \<le> 8 \<and> be_sval (der_int v) = sint v"
proof -
  let ?big = "be_bytes 8 (unat v)"
  have val: "be_sval ?big = sint v" by (rule be_sval_be_bytes)
  have lt: "int (unat v) < 256 ^ 8" using unsigned_less [of v] by simp
  show ?thesis
  proof (cases "sint v \<ge> 0")
    case True
    have hd: "\<not> 128 \<le> unat (hd ?big)"
    proof
      assume "128 \<le> unat (hd ?big)"
      then have "be_sval ?big = int (unat v) - 256 ^ 8" by (simp add: be_sval_def)
      then show False using True val lt by linarith
    qed
    then have sv: "sint v = int (unat v)" using val by (simp add: be_sval_def)
    have "uint_minimal (der_uint (unat v))" by (simp add: uint_minimal_iff)
    then have "int_minimal (der_uint (unat v))" "be_sval (der_uint (unat v)) = sint v"
      using uint_minimal_int_minimal sv by auto
    moreover have "length (der_uint (unat v)) \<le> 8"
    proof -
      let ?r = "dropWhile (\<lambda>b. b = 0) ?big"
      have r: "?r = ?big" if "length ?r = 8"
        using that dropWhile_eq_drop [of "\<lambda>b. b = 0" ?big] by (metis append_eq_append_conv
            length_be_bytes self_append_conv2 takeWhile_dropWhile_id)
      have "length (uint_content ?big False) \<le> 8"
      proof (cases "length ?r = 8")
        case True
        then show ?thesis using r hd by (auto simp: uint_content_def Let_def)
      next
        case False
        moreover have "length ?r \<le> 8" using length_dropWhile_le [of "\<lambda>b. b = 0" ?big] by simp
        ultimately show ?thesis by (simp add: uint_content_def Let_def)
      qed
      then show ?thesis using der_uint_content [of ?big] by simp
    qed
    ultimately show ?thesis using True by (simp add: der_int_def)
  next
    case False
    have "128 \<le> unat (hd ?big)"
      using False val by (auto simp: be_sval_def split: if_splits)
    from strip_sign_keeps [OF _ this] show ?thesis using False val by (simp add: der_int_def)
  qed
qed

end
