(* ===== verification/Codec.thy ===== *)
theory Codec
  imports CbbSpec
begin

text \<open>
  The contract shared by the readers whose accepted inputs are known exactly: reading succeeds
  with a value if and only if the window starts with its encoding, and leaves the rest. From
  it follow unique parsing, for single values and for sequences read until the window is
  empty, and that no encoding is a proper prefix of another.
\<close>

locale codec =
  fixes get :: "'a reader" and enc :: "'a \<Rightarrow> byte list" and valid :: "'a \<Rightarrow> bool"
  assumes get_iff: "get s = (Some v, r) \<longleftrightarrow> valid v \<and> s = enc v @ r"
    and enc_not_Nil: "valid v \<Longrightarrow> enc v \<noteq> []"
begin

lemma get_enc: "valid v \<Longrightarrow> get (enc v @ r) = (Some v, r)"
  by (simp add: get_iff)

lemma enc_append_inj:
  "valid v \<Longrightarrow> valid v' \<Longrightarrow> enc v @ r = enc v' @ r' \<Longrightarrow> v = v' \<and> r = r'"
  by (metis get_enc option.inject prod.inject)

lemma enc_inj: "valid v \<Longrightarrow> valid v' \<Longrightarrow> enc v = enc v' \<Longrightarrow> v = v'"
  using enc_append_inj [of v v' "[]" "[]"] by simp

lemma prefix_free: "valid v \<Longrightarrow> valid v' \<Longrightarrow> enc v = enc v' @ r \<Longrightarrow> r = []"
  using enc_append_inj [of v v' "[]" r] by simp

lemma concat_inj:
  "list_all valid vs \<Longrightarrow> list_all valid ws \<Longrightarrow>
   concat (map enc vs) = concat (map enc ws) \<Longrightarrow> vs = ws"
proof (induction vs arbitrary: ws)
  case Nil
  then show ?case using enc_not_Nil by (cases ws) auto
next
  case (Cons v vs)
  then obtain w ws' where ws: "ws = w # ws'" using enc_not_Nil by (cases ws) auto
  then have "v = w \<and> concat (map enc vs) = concat (map enc ws')"
    using Cons.prems by (intro enc_append_inj) auto
  then show ?case using Cons ws by auto
qed

lemma get_shorter: "get s = (Some v, r) \<Longrightarrow> length r < length s"
  using enc_not_Nil by (auto simp: get_iff)

end

section \<open>Instances\<close>

lemma b128_not_Nil [simp]: "b128 n \<noteq> []"
  by (simp add: b128_def)

lemma der_element_not_Nil [simp]: "der_element t c \<noteq> []"
  by (simp add: der_element_def der_header_def der_len_def)

interpretation base128: codec parse_base128_integer "\<lambda>v. b128 (unat v)" "\<lambda>_. True"
  by unfold_locales (simp_all add: parse_base128_integer_iff)

interpretation asn1_tag: codec parse_asn1_tag der_tag "\<lambda>_. True"
  by unfold_locales (simp_all add: parse_asn1_tag_iff der_tag_def Let_def)

interpretation any_asn1: codec CBS_get_any_asn1 "\<lambda>(c, t). der_element t c" "\<lambda>(c, t). length c < 2 ^ 32"
  by unfold_locales (auto simp: any_asn1_iff)

interpretation asn1_uint64: codec CBS_get_asn1_uint64
    "\<lambda>v. der_element CBS_ASN1_INTEGER (der_uint (unat v))" "\<lambda>_. True"
  by unfold_locales (simp_all add: get_asn1_uint64_iff)

lemma get_asn1_int64_der_int:
  "CBS_get_asn1_int64 s = (Some v, r) \<longleftrightarrow> s = der_element CBS_ASN1_INTEGER (der_int v) @ r"
  using get_asn1_int64_iff der_int_minimal int_minimal_unique by metis

interpretation asn1_int64: codec CBS_get_asn1_int64
    "\<lambda>v. der_element CBS_ASN1_INTEGER (der_int v)" "\<lambda>_. True"
  by unfold_locales (simp_all add: get_asn1_int64_der_int)

section \<open>Byte swaps\<close>

text \<open>A swapped word stores the bytes of the word in the opposite order.\<close>

lemma below_8: "(\<forall>n < 8. P n) \<longleftrightarrow> P 0 \<and> P 1 \<and> P 2 \<and> P 3 \<and> P 4 \<and> P 5 \<and> P 6 \<and> P (7 :: nat)"
  by (simp add: numeral_eq_Suc All_less_Suc2)

lemma byte_of_word: "(of_nat (unat (w :: 'a::len word) div 256 ^ k) :: byte) = ucast (drop_bit (8 * k) w)"
proof -
  have "unat w div 256 ^ k = unat (drop_bit (8 * k) w)"
    unfolding unat_drop_bit by (simp add: drop_bit_eq_div power_mult)
  then show ?thesis by (metis unsigned_ucast_eq of_nat_unat)
qed

lemma be_bytes_word:
  "be_bytes n (unat (w :: 'a::len word)) = rev (map (\<lambda>i. ucast (drop_bit (8 * i) w)) [0..<n])"
proof -
  have "be_bytes n v = rev (map (\<lambda>i. of_nat (v div 256 ^ i)) [0..<n])" for v
  proof (induction n arbitrary: v)
    case (Suc n)
    have "[0..<Suc n] = 0 # map Suc [0..<n]" using map_Suc_upt upt_conv_Cons by auto
    then show ?case using Suc by (simp add: div_mult2_eq comp_def)
  qed simp
  then show ?thesis by (simp add: byte_of_word)
qed

lemma bswap_bytes:
  "be_bytes 2 (unat (CRYPTO_bswap2 v16)) = rev (be_bytes 2 (unat v16))"
  "be_bytes 4 (unat (CRYPTO_bswap4 v32)) = rev (be_bytes 4 (unat v32))"
  "be_bytes 8 (unat (CRYPTO_bswap8 v64)) = rev (be_bytes 8 (unat v64))"
proof -
  have high: "\<not> bit v32 (32 + n)" "\<not> bit v64 (64 + n)" for n by (auto dest: bit_imp_le_length)
  show "be_bytes 2 (unat (CRYPTO_bswap2 v16)) = rev (be_bytes 2 (unat v16))"
    unfolding be_bytes_word CRYPTO_bswap2_def
    by (simp add: upt_rec bit_eq_iff bit_simps)
  show "be_bytes 4 (unat (CRYPTO_bswap4 v32)) = rev (be_bytes 4 (unat v32))"
    unfolding be_bytes_word CRYPTO_bswap4_def
    by (simp add: upt_rec bit_eq_iff bit_simps high, simp add: below_8)
  show "be_bytes 8 (unat (CRYPTO_bswap8 v64)) = rev (be_bytes 8 (unat v64))"
    unfolding be_bytes_word CRYPTO_bswap8_def CRYPTO_bswap4_def
    by (simp add: upt_rec bit_eq_iff bit_simps high, simp add: below_8)
qed

end
