(* ===== verification/Oid.thy ===== *)
theory Oid
  imports Codec
begin

text \<open>
  Object identifiers: \<open>CBB_add_asn1_oid_from_text\<close> of \<open>cbb.c\<close> and \<open>CBS_asn1_oid_to_text\<close> of
  \<open>cbs.c\<close>. The text is a dotted list of decimal components, the contents octets are base-128
  integers the first of which packs the first two components.
\<close>

section \<open>From text\<close>

definition UINT64_MAX :: u64 where
  "UINT64_MAX = - 1"

fun dotted_loop :: "bool \<Rightarrow> u64 \<Rightarrow> u64 reader" where
  "dotted_loop seen_digit out cbs =
     (case CBS_get_u8 cbs of
        (None, cbs) \<Rightarrow> (if seen_digit then Some out else None, cbs)
      | (Some u, cbs) \<Rightarrow>
          if u = 46 \<and> CBS_len cbs > 0 then (if seen_digit then Some out else None, cbs)
          else if u < 48 \<or> u > 57 \<or> (seen_digit \<and> out = 0) \<or> out > UINT64_MAX div 10
               \<or> out * 10 > UINT64_MAX - (ucast u - 48)
          then (None, cbs)
          else dotted_loop True (out * 10 + (ucast u - 48)) cbs)"

declare dotted_loop.simps [simp del]

definition parse_dotted_decimal :: "u64 reader" where
  "parse_dotted_decimal cbs = dotted_loop False 0 cbs"

lemma dotted_loop_shorter:
  "dotted_loop seen out s = (Some v, r) \<Longrightarrow> length r \<le> length s \<and> (\<not> seen \<longrightarrow> length r < length s)"
proof (induction s arbitrary: seen out)
  case Nil
  then show ?case by (auto simp: dotted_loop.simps split: if_splits)
next
  case (Cons b s)
  show ?case
    using Cons.prems Cons.IH [of True "out * 10 + (ucast b - 48)"]
    by (subst (asm) dotted_loop.simps) (auto split: if_splits)
qed

function oid_rest :: "libc \<Rightarrow> nat \<Rightarrow> cbs \<Rightarrow> cbb \<Rightarrow> bool \<times> cbb" where
  "oid_rest m d cbs s =
     (if CBS_len cbs > 0 then
        (case parse_dotted_decimal cbs of
           (None, _) \<Rightarrow> (False, s)
         | (Some a, cbs) \<Rightarrow>
             (case add_base128_integer m d a s of
                (False, s) \<Rightarrow> (False, s)
              | (True, s) \<Rightarrow> oid_rest m d cbs s))
      else (True, s))"
  by auto
termination
  by (relation "measure (\<lambda>(m, d, cbs, s). length cbs)")
    (auto simp: parse_dotted_decimal_def dest: dotted_loop_shorter [OF sym])

declare oid_rest.simps [simp del]

definition CBB_add_asn1_oid_from_text :: "libc \<Rightarrow> nat \<Rightarrow> byte list \<Rightarrow> nat \<Rightarrow> cbb \<Rightarrow> bool \<times> cbb" where
  "CBB_add_asn1_oid_from_text m d txt len =
     and_then (CBB_flush m d) (\<lambda>s.
       let cbs = CBS_init txt len in
       (case parse_dotted_decimal cbs of (None, _) \<Rightarrow> (False, s) | (Some a, cbs) \<Rightarrow>
       (case parse_dotted_decimal cbs of (None, _) \<Rightarrow> (False, s) | (Some b, cbs) \<Rightarrow>
          if a > 2 \<or> (a < 2 \<and> b > 39) \<or> b > UINT64_MAX - 80 then (False, s)
          else and_then (add_base128_integer m d (40 * a + b)) (oid_rest m d cbs) s)))"

section \<open>To text\<close>

text \<open>The digits \<open>BIO_snprintf\<close> prints for \<open>PRIu64\<close>.\<close>

fun decimal :: "nat \<Rightarrow> byte list" where
  "decimal n = (if n < 10 then [of_nat (48 + n)] else decimal (n div 10) @ [of_nat (48 + n mod 10)])"

declare decimal.simps [simp del]

definition add_decimal :: "libc \<Rightarrow> nat \<Rightarrow> u64 \<Rightarrow> cbb \<Rightarrow> bool \<times> cbb" where
  "add_decimal m d v = CBB_add_bytes m d (decimal (unat v))"

function oid_text_rest :: "libc \<Rightarrow> cbs \<Rightarrow> cbb \<Rightarrow> bool \<times> cbb" where
  "oid_text_rest m copy s =
     (if CBS_len copy \<noteq> 0 then
        (case parse_base128_integer copy of
           (None, _) \<Rightarrow> (False, s)
         | (Some v, copy) \<Rightarrow>
             (case and_then (CBB_add_u8 m 0 46) (add_decimal m 0 v) s of
                (False, s) \<Rightarrow> (False, s)
              | (True, s) \<Rightarrow> oid_text_rest m copy s))
      else (True, s))"
  by auto
termination
  by (relation "measure (\<lambda>(m, copy, s). length copy)")
    (auto dest: base128.get_shorter [OF sym])

declare oid_text_rest.simps [simp del]

text \<open>The string is returned as the object that holds it, its terminator included.\<close>

definition CBS_asn1_oid_to_text :: "libc \<Rightarrow> cbs \<Rightarrow> byte list option" where
  "CBS_asn1_oid_to_text m cbs =
     (case CBB_init m 32 of None \<Rightarrow> None | Some cbb \<Rightarrow>
     (case parse_base128_integer cbs of (None, _) \<Rightarrow> None | (Some v, copy) \<Rightarrow>
      (let first =
         (if v \<ge> 80 then and_then (CBB_add_bytes m 0 [50, 46]) (add_decimal m 0 (v - 80))
          else and_then (add_decimal m 0 (v div 40))
                 (and_then (CBB_add_u8 m 0 46) (add_decimal m 0 (v mod 40))))
       in case and_then first (and_then (oid_text_rest m copy) (CBB_add_u8 m 0 0)) cbb of
            (False, _) \<Rightarrow> None
          | (True, cbb) \<Rightarrow>
              (case CBB_finish m 0 True True cbb of
                 (None, _) \<Rightarrow> None
               | (Some (txt, _), _) \<Rightarrow> Some txt))))"

section \<open>Decimal components\<close>

lemma decimal_small: "n < 10 \<Longrightarrow> decimal n = [of_nat (48 + n)]"
  by (simp add: decimal.simps)

lemma decimal_snoc: "m \<noteq> 0 \<Longrightarrow> k < 10 \<Longrightarrow> decimal (m * 10 + k) = decimal m @ [of_nat (48 + k)]"
  by (simp add: decimal.simps [of "m * 10 + k"] del: of_nat_add)

lemma decimal_digits: "b \<in> set (decimal n) \<Longrightarrow> 48 \<le> unat b \<and> unat b \<le> 57"
proof (induction n rule: decimal.induct)
  case (1 n)
  show ?case
  proof (cases "n < 10")
    case True
    then show ?thesis using 1(2) by (auto simp: decimal_small simp del: of_nat_add)
  next
    case False
    have "n mod 10 < 10" by simp
    then have "unat (of_nat (48 + n mod 10) :: byte) = 48 + n mod 10" by (simp del: of_nat_add of_nat_mod)
    then show ?thesis using 1 False
      by (auto simp: decimal.simps [of n] simp del: of_nat_add of_nat_mod)
  qed
qed

lemma decimal_not_Nil [simp]: "decimal n \<noteq> []"
  by (simp add: decimal.simps)

definition digit_ok :: "u64 \<Rightarrow> byte \<Rightarrow> bool" where
  "digit_ok out u \<longleftrightarrow> 48 \<le> unat u \<and> unat u \<le> 57 \<and> unat out * 10 + (unat u - 48) < 2 ^ 64"

lemma digit_value:
  assumes "48 \<le> unat u" "unat u \<le> 57"
  shows "unat (ucast (u :: byte) - 48 :: u64) = unat u - 48"
proof -
  have "unat (ucast u :: u64) = unat u" by simp
  moreover have "(48 :: u64) \<le> ucast u" using assms by (simp add: word_le_nat_alt)
  ultimately show ?thesis by (simp add: unat_sub)
qed

lemma digit_guard:
  "(u < 48 \<or> u > 57 \<or> out > UINT64_MAX div 10 \<or> out * 10 > UINT64_MAX - (ucast u - 48))
     \<longleftrightarrow> \<not> digit_ok out (u :: byte)"
proof (cases "48 \<le> unat u \<and> unat u \<le> 57")
  case False
  then have "u < 48 \<or> u > 57" by (auto simp: word_less_nat_alt)
  with False show ?thesis by (auto simp: digit_ok_def)
next
  case True
  let ?k = "ucast u - 48 :: u64"
  have k: "unat ?k = unat u - 48" using True by (intro digit_value) auto
  have m: "unat UINT64_MAX = 18446744073709551615"
    by (simp add: UINT64_MAX_def unsigned_minus_1_eq_mask mask_eq_exp_minus_1)
  have d: "unat (UINT64_MAX div 10) = 1844674407370955161" by (simp add: unat_div m)
  have s: "unat (UINT64_MAX - ?k) = 18446744073709551615 - (unat u - 48)"
    using k True by (subst unat_sub) (auto simp: word_le_nat_alt m)
  have "\<not> u < 48" "\<not> u > 57" using True by (auto simp: word_less_nat_alt)
  moreover have "out > UINT64_MAX div 10 \<or> out * 10 > UINT64_MAX - ?k
      \<longleftrightarrow> \<not> unat out * 10 + (unat u - 48) < 18446744073709551616"
  proof (cases "unat out \<le> 1844674407370955161")
    case small: True
    then have "unat (out * 10) = unat out * 10" by (simp add: unat_word_ariths)
    moreover have "\<not> out > UINT64_MAX div 10" using small d by (simp add: word_less_nat_alt)
    ultimately show ?thesis using s True by (auto simp: word_less_nat_alt)
  next
    case False
    then have "out > UINT64_MAX div 10" using d by (simp add: word_less_nat_alt)
    moreover have "\<not> unat out * 10 + (unat u - 48) < 18446744073709551616" using False by linarith
    ultimately show ?thesis by blast
  qed
  ultimately show ?thesis using True by (simp add: digit_ok_def)
qed

lemma digit_step:
  assumes "digit_ok out u"
  shows "unat (out * 10 + (ucast u - 48)) = unat out * 10 + (unat u - 48)"
proof -
  have k: "unat (ucast u - 48 :: u64) = unat u - 48"
    using assms by (intro digit_value) (auto simp: digit_ok_def)
  have "unat out * 10 < 2 ^ 64" using assms by (simp add: digit_ok_def)
  then have "unat (out * 10) = unat out * 10" by (simp add: unat_word_ariths)
  then have "unat (out * 10 + (ucast u - 48)) = (unat out * 10 + (unat u - 48)) mod 2 ^ 64"
    unfolding unat_word_ariths(1) k by simp
  also have "\<dots> = unat out * 10 + (unat u - 48)"
    using assms unfolding digit_ok_def by (intro mod_less) blast
  finally show ?thesis .
qed

lemma dotted_loop_Nil: "dotted_loop seen out [] = (if seen then Some out else None, [])"
  by (subst dotted_loop.simps) simp

lemma dotted_loop_Cons:
  "dotted_loop seen out (u # s) =
     (if u = 46 \<and> s \<noteq> [] then (if seen then Some out else None, s)
      else if \<not> digit_ok out u \<or> seen \<and> out = 0 then (None, s)
      else dotted_loop True (out * 10 + (ucast u - 48)) s)"
  using digit_guard [of u out] by (subst dotted_loop.simps) (auto simp: CBS_len_def)

text \<open>What follows a component: nothing, or a dot that is not the last character.\<close>

definition component_end :: "byte list \<Rightarrow> byte list \<Rightarrow> bool" where
  "component_end t r \<longleftrightarrow> t = [] \<and> r = [] \<or> r \<noteq> [] \<and> t = 46 # r"

lemma dotted_loop_sound:
  "dotted_loop True out s = (Some v, r) \<Longrightarrow>
   \<exists>ds t. s = ds @ t \<and> component_end t r \<and> decimal (unat v) = decimal (unat out) @ ds"
proof (induction s arbitrary: out)
  case Nil
  then show ?case by (simp add: dotted_loop_Nil component_end_def)
next
  case (Cons u s)
  show ?case
  proof (cases "u = 46 \<and> s \<noteq> []")
    case True
    then show ?thesis using Cons.prems
      by (intro exI [of _ "[]"] exI [of _ "u # s"]) (auto simp: dotted_loop_Cons component_end_def)
  next
    case False
    then have ok: "digit_ok out u" "out \<noteq> 0"
      and nxt: "dotted_loop True (out * 10 + (ucast u - 48)) s = (Some v, r)"
      using Cons.prems by (auto simp: dotted_loop_Cons split: if_splits)
    obtain ds t where ds: "s = ds @ t" "component_end t r"
      "decimal (unat v) = decimal (unat (out * 10 + (ucast u - 48))) @ ds"
      using Cons.IH [OF nxt] by blast
    have "decimal (unat out * 10 + (unat u - 48)) = decimal (unat out) @ [of_nat (48 + (unat u - 48))]"
      using ok by (intro decimal_snoc) (auto simp: digit_ok_def unat_eq_zero)
    moreover have "of_nat (48 + (unat u - 48)) = u" using ok by (simp add: digit_ok_def)
    ultimately have "decimal (unat v) = decimal (unat out) @ u # ds"
      using ds digit_step [OF ok(1)] by simp
    then show ?thesis using ds by (intro exI [of _ "u # ds"] exI [of _ t]) auto
  qed
qed

lemma digit_46: "digit_ok out u \<Longrightarrow> u \<noteq> 46"
  by (auto simp: digit_ok_def)

lemma dotted_loop_decimal:
  "n < 2 ^ 64 \<Longrightarrow> dotted_loop False 0 (decimal n @ s) = dotted_loop True (of_nat n) s"
proof (induction n arbitrary: s rule: decimal.induct)
  case (1 n)
  show ?case
  proof (cases "n < 10")
    case True
    have u: "unat (of_nat (48 + n) :: byte) = 48 + n" using True by (simp del: of_nat_add)
    then have ok: "digit_ok 0 (of_nat (48 + n))" using True by (simp add: digit_ok_def del: of_nat_add)
    have "0 * 10 + (ucast (of_nat (48 + n) :: byte) - 48) = (of_nat n :: u64)"
      using digit_step [OF ok] u by (intro word_eq_of_natI) simp
    then show ?thesis using True ok digit_46 [OF ok]
      by (simp add: decimal_small dotted_loop_Cons del: of_nat_add)
  next
    case False
    let ?o = "of_nat (n div 10) :: u64" and ?u = "of_nat (48 + n mod 10) :: byte"
    have o: "unat ?o = n div 10" using "1.prems" by (simp add: unat_of_nat)
    have "n mod 10 < 10" by simp
    then have u: "unat ?u = 48 + n mod 10" by (simp del: of_nat_add of_nat_mod)
    have ok: "digit_ok ?o ?u" using o u "1.prems"
      by (simp add: digit_ok_def del: of_nat_add of_nat_mod)
    have nz: "?o \<noteq> 0" using o False by (auto simp: unat_eq_zero [symmetric])
    have "?o * 10 + (ucast ?u - 48) = of_nat n"
      using digit_step [OF ok] o u by (intro word_eq_of_natI) simp
    moreover have "dotted_loop False 0 (decimal n @ s) = dotted_loop True ?o (?u # s)"
      using "1.IH" [OF False, of "?u # s"] "1.prems" False by (simp add: decimal.simps [of n])
    ultimately show ?thesis using ok nz digit_46 [OF ok]
      by (simp add: dotted_loop_Cons del: of_nat_add of_nat_mod)
  qed
qed

lemma parse_dotted_decimal_iff:
  "parse_dotted_decimal s = (Some v, r) \<longleftrightarrow> (\<exists>t. component_end t r \<and> s = decimal (unat v) @ t)"
proof
  assume p: "parse_dotted_decimal s = (Some v, r)"
  then obtain u s' where s: "s = u # s'" by (cases s) (auto simp: parse_dotted_decimal_def dotted_loop_Nil)
  then have ok: "digit_ok 0 u" and nxt: "dotted_loop True (0 * 10 + (ucast u - 48)) s' = (Some v, r)"
    using p by (auto simp: parse_dotted_decimal_def dotted_loop_Cons split: if_splits)
  obtain ds t where ds: "s' = ds @ t" "component_end t r"
    "decimal (unat v) = decimal (unat (0 * 10 + (ucast u - 48) :: u64)) @ ds"
    using dotted_loop_sound [OF nxt] by blast
  have "decimal (unat (0 * 10 + (ucast u - 48) :: u64)) = [of_nat (48 + (unat u - 48))]"
  proof -
    have "unat u - 48 < 10" using ok by (auto simp: digit_ok_def)
    then show ?thesis unfolding digit_step [OF ok] using decimal_small by simp
  qed
  also have "of_nat (48 + (unat u - 48)) = u" using ok by (simp add: digit_ok_def)
  finally show "\<exists>t. component_end t r \<and> s = decimal (unat v) @ t" using ds s by auto
next
  assume "\<exists>t. component_end t r \<and> s = decimal (unat v) @ t"
  then obtain t where t: "component_end t r" "s = decimal (unat v) @ t" by blast
  have "unat v < 2 ^ 64" using unsigned_less [of v] by simp
  then have "parse_dotted_decimal s = dotted_loop True v t"
    using t dotted_loop_decimal [of "unat v" t] by (simp add: parse_dotted_decimal_def)
  also have "\<dots> = (Some v, r)"
    using t(1) by (cases t) (auto simp: component_end_def dotted_loop_Nil dotted_loop_Cons)
  finally show "parse_dotted_decimal s = (Some v, r)" .
qed

section \<open>Whole writers\<close>

lemma CBB_init_repr:
  assumes "malloc_ok m" and "CBB_init m n = Some s" and "n + 8 < 2 ^ 64"
  shows "repr s ([], [])" and "cb_can_resize s" and "cb_cap s = n"
  using assms alloc_bytes_length [of m n]
  by (auto simp: CBB_init_def repr_def holds_def flat_def cb_cap_def Let_def
      split: option.splits if_splits)

lemma CBB_init_None:
  "CBB_init m n = None \<Longrightarrow> n + 8 < 2 ^ 64 \<Longrightarrow> m (n + 8) = None \<or> m 40 = None"
  by (auto simp: CBB_init_def alloc_bytes_def OPENSSL_malloc_def Let_def unat_add_prefix unat_of_nat
      split: option.splits if_splits)

lemma CBB_finish_repr:
  assumes m: "malloc_ok m" and r: "repr s (x, fs)" and c: "cb_can_resize s"
  shows "(\<exists>y buf. CBB_finish m 0 True True s = (Some (buf, length (x @ y)), None)
            \<and> squash fs = Some y \<and> take (length (x @ y)) buf = x @ y \<and> length (x @ y) \<le> length buf)
    \<or> fst (CBB_finish m 0 True True s) = None
        \<and> (\<forall>y. squash fs = Some y \<longrightarrow> no_room m s (length (x @ y)))"
proof -
  have o: "outcome m s (sp_append 0 [] (x, fs)) (CBB_flush m 0 s)"
    using appendsD [OF CBB_flush_appends [OF m] r] by simp
  obtain ok s' where f: "CBB_flush m 0 s = (ok, s')" by (cases "CBB_flush m 0 s")
  show ?thesis
  proof (cases ok)
    case True
    then obtain y where y: "squash fs = Some y" "repr s' (x @ y, [])"
      using o f by (auto simp: outcome_def sp_append_def split: option.splits)
    then have h: "holds s' (x @ y)" by (simp add: repr_def flat_def)
    then have "CBB_finish m 0 True True s = (Some (cb_buf s', length (x @ y)), None)"
      using f True holds_len [OF h] by (simp add: CBB_finish_def CBB_cleanup_def)
    moreover have "length (x @ y) \<le> length (cb_buf s')"
      using h holds_len [OF h] by (simp add: holds_def cb_cap_def)
    ultimately show ?thesis using y holds_take [OF h] by blast
  next
    case False
    then have "\<forall>y. squash fs = Some y \<longrightarrow> no_room m s (length (x @ y))"
      using o f by (auto simp: outcome_def sp_append_def flat_def)
    then show ?thesis using f False by (simp add: CBB_finish_def)
  qed
qed

text \<open>A top-level growable writer filled by one appending operation and finished.\<close>

lemma write_and_finish:
  assumes m: "malloc_ok m" and f: "appends m f 0 x" and i: "CBB_init m n = Some s"
    and n: "n + 8 < 2 ^ 64"
  shows "case f s of
      (False, s') \<Rightarrow> n < length x \<and> (\<exists>k. n + 8 < k \<and> k \<le> 2 * length x + 8 \<and> m k = None)
    | (True, s') \<Rightarrow> \<exists>buf. CBB_finish m 0 True True s' = (Some (buf, length x), None)
        \<and> take (length x) buf = x \<and> length x \<le> length buf"
proof -
  note r = CBB_init_repr [OF m i n]
  obtain ok s' where fs: "f s = (ok, s')" by (cases "f s")
  have o: "outcome m s (Some (x, [])) (ok, s')"
    using appendsD [OF f r(1)] fs by (simp add: sp_append_def)
  show ?thesis
  proof (cases ok)
    case True
    then have r': "repr s' (x, [])" "cb_can_resize s'"
      using o r(2) by (auto simp: outcome_def same_kind_def)
    then have h: "holds s' x" by (simp add: repr_def flat_def)
    have "CBB_flush m 0 s' = (True, s')"
      using r' h by (simp add: CBB_flush_def repr_def holds_def)
    then have "CBB_finish m 0 True True s' = (Some (cb_buf s', length x), None)"
      using r'(2) holds_len [OF h] by (simp add: CBB_finish_def CBB_cleanup_def)
    moreover have "length x \<le> length (cb_buf s')"
      using h holds_len [OF h] by (simp add: holds_def cb_cap_def)
    ultimately show ?thesis using fs True holds_take [OF h] by auto
  next
    case False
    then show ?thesis using o fs r(2,3) by (simp add: outcome_def no_room_def flat_def)
  qed
qed

section \<open>Dotted text\<close>

lemma all_ok_Cons: "all_ok (f # fs) = and_then f (all_ok fs)"
  by (rule ext) simp

fun dotted :: "nat list \<Rightarrow> byte list" where
  "dotted [] = []"
| "dotted [n] = decimal n"
| "dotted (n # k # ns) = decimal n @ 46 # dotted (k # ns)"

lemma dotted_eq_Nil [simp]: "dotted ns = [] \<longleftrightarrow> ns = []"
  by (cases ns rule: dotted.cases) auto

lemma dotted_Cons: "\<exists>t. component_end t (dotted ns) \<and> dotted (n # ns) = decimal n @ t"
  by (cases ns) (auto simp: component_end_def)

lemma parse_dotted:
  assumes "n < 2 ^ 64"
  shows "parse_dotted_decimal (dotted (n # ns)) = (Some (of_nat n), dotted ns)"
proof -
  have "unat (of_nat n :: u64) = n" using assms by (simp add: unat_of_nat)
  then show ?thesis using dotted_Cons [of ns n] by (simp add: parse_dotted_decimal_iff)
qed

lemma parse_dotted_rest:
  assumes "parse_dotted_decimal s = (Some v, dotted ns)"
  shows "s = dotted (unat v # ns)"
proof -
  obtain t where t: "component_end t (dotted ns)" "s = decimal (unat v) @ t"
    using assms by (auto simp: parse_dotted_decimal_iff)
  then show ?thesis by (cases ns) (auto simp: component_end_def)
qed

abbreviation u64_ok :: "nat \<Rightarrow> bool" where
  "u64_ok n \<equiv> n < 18446744073709551616"

lemma dotted_inj: "list_all u64_ok ns \<Longrightarrow> list_all u64_ok ms \<Longrightarrow> dotted ns = dotted ms \<Longrightarrow> ns = ms"
proof (induction ns arbitrary: ms)
  case Nil
  then show ?case using dotted_eq_Nil [of ms] by simp
next
  case (Cons n ns)
  then obtain k ks where ms: "ms = k # ks" by (cases ms) auto
  have "parse_dotted_decimal (dotted (n # ns)) = (Some (of_nat n), dotted ns)"
    "parse_dotted_decimal (dotted (k # ks)) = (Some (of_nat k), dotted ks)"
    using Cons.prems ms parse_dotted [of n ns] parse_dotted [of k ks] by simp_all
  then have eq: "(of_nat n :: u64) = of_nat k" "dotted ns = dotted ks" using Cons.prems(3) ms by auto
  then have "unat (of_nat n :: u64) = unat (of_nat k :: u64)" by simp
  then have "n = k" using Cons.prems ms by (simp add: unat_of_nat)
  then show ?case using Cons eq(2) ms by simp
qed

text \<open>The remaining components: the loop is the list of writes its text stands for.\<close>

lemma oid_rest_dotted:
  "list_all u64_ok ns \<Longrightarrow>
   oid_rest m d (dotted ns) = all_ok (map (\<lambda>n. add_base128_integer m d (of_nat n)) ns)"
proof (induction ns)
  case Nil
  show ?case by (rule ext, subst oid_rest.simps) (simp add: CBS_len_def)
next
  case (Cons n ns)
  then have p: "parse_dotted_decimal (dotted (n # ns)) = (Some (of_nat n), dotted ns)"
    by (intro parse_dotted) simp
  have len: "CBS_len (dotted (n # ns)) > 0"
    using dotted_eq_Nil [of "n # ns"] by (simp add: CBS_len_def del: dotted_eq_Nil)
  show ?case
    using Cons p len
    by (intro ext, subst oid_rest.simps) (simp add: and_then_def split: prod.splits bool.splits)
qed

lemma oid_rest_True:
  "fst (oid_rest m d cbs s) \<Longrightarrow> \<exists>ns. list_all u64_ok ns \<and> cbs = dotted ns"
proof (induction m d cbs s rule: oid_rest.induct)
  case (1 m d cbs s)
  show ?case
  proof (cases "cbs = []")
    case True
    then show ?thesis by (intro exI [of _ "[]"]) simp
  next
    case False
    then obtain a cbs' s' where a: "parse_dotted_decimal cbs = (Some a, cbs')"
      "add_base128_integer m d a s = (True, s')" "fst (oid_rest m d cbs' s')"
      using "1.prems" by (subst (asm) oid_rest.simps)
        (auto simp: CBS_len_def split: prod.splits option.splits bool.splits)
    have "\<exists>ns. list_all u64_ok ns \<and> cbs' = dotted ns"
      using "1.IH" a False by (auto simp: CBS_len_def)
    then obtain ns where "list_all u64_ok ns" "cbs' = dotted ns" by blast
    moreover have "u64_ok (unat a)" using unsigned_less [of a] by simp
    ultimately show ?thesis
      using parse_dotted_rest a(1) by (intro exI [of _ "unat a # ns"]) auto
  qed
qed

definition oid_valid :: "nat list \<Rightarrow> bool" where
  "oid_valid cs \<longleftrightarrow> (case cs of
     a # b # ns \<Rightarrow> a \<le> 2 \<and> (a < 2 \<longrightarrow> b \<le> 39) \<and> b < 2 ^ 64 - 80 \<and> list_all u64_ok ns
   | _ \<Rightarrow> False)"

definition oid_contents :: "nat list \<Rightarrow> byte list" where
  "oid_contents cs = (case cs of a # b # ns \<Rightarrow> concat (map b128 ((40 * a + b) # ns)) | _ \<Rightarrow> [])"

text \<open>
  The contents octets a text denotes, if it is the canonical dotted text of a valid identifier:
  the components are read off between the dots, and printing them must give the text back.
\<close>

fun text_components :: "nat \<Rightarrow> byte list \<Rightarrow> nat list" where
  "text_components n [] = [n]"
| "text_components n (c # cs) =
     (if c = 46 then n # text_components 0 cs else text_components (n * 10 + (unat c - 48)) cs)"

definition oid_of_text :: "byte list \<Rightarrow> byte list option" where
  "oid_of_text tx =
     (let cs = text_components 0 tx
      in if oid_valid cs \<and> dotted cs = tx then Some (oid_contents cs) else None)"

lemma text_components_decimal: "text_components 0 (decimal n @ t) = text_components n t"
proof (induction n arbitrary: t rule: decimal.induct)
  case (1 n)
  have digit: "text_components k (of_nat (48 + j) # t) = text_components (k * 10 + j) t"
    if "j < 10" for k j :: nat and t
  proof -
    have "unat (of_nat (48 + j) :: byte) = 48 + j" using that by (simp del: of_nat_add)
    then have "(of_nat (48 + j) :: byte) \<noteq> 46" by (intro notI) (simp del: of_nat_add)
    then show ?thesis using \<open>unat (of_nat (48 + j) :: byte) = 48 + j\<close> by (simp del: of_nat_add)
  qed
  show ?case
    using 1 digit [of n 0 t] digit [of "n mod 10" "n div 10" t]
    by (subst decimal.simps) (auto simp del: of_nat_add of_nat_mod text_components.simps)
qed

lemma text_components_dotted: "ns \<noteq> [] \<Longrightarrow> text_components 0 (dotted ns) = ns"
proof (induction ns rule: dotted.induct)
  case (2 n)
  show ?case using text_components_decimal [of n "[]"] by simp
next
  case (3 n k ns)
  then show ?case using text_components_decimal [of n "46 # dotted (k # ns)"] by simp
qed simp

lemma oid_of_text_iff: "oid_of_text tx = Some x \<longleftrightarrow> (\<exists>cs. oid_valid cs \<and> tx = dotted cs \<and> x = oid_contents cs)"
proof -
  have "cs \<noteq> []" if "oid_valid cs" for cs using that by (auto simp: oid_valid_def)
  then show ?thesis using text_components_dotted by (auto simp: oid_of_text_def Let_def split: if_splits)
qed

lemma first_component:
  assumes "a \<le> (2 :: u64)" and "b \<le> UINT64_MAX - 80"
  shows "unat (40 * a + b) = 40 * unat a + unat b"
proof -
  have m: "unat UINT64_MAX = 18446744073709551615"
    by (simp add: UINT64_MAX_def unsigned_minus_1_eq_mask mask_eq_exp_minus_1)
  have "unat (UINT64_MAX - 80) = 18446744073709551535"
    by (subst unat_sub) (auto simp: word_le_nat_alt m)
  then have b: "unat b \<le> 18446744073709551535" using assms by (simp add: word_le_nat_alt)
  have a: "unat a \<le> 2" using assms by (simp add: word_le_nat_alt)
  then have "unat (40 * a) = 40 * unat a" by (simp add: unat_word_ariths)
  then show ?thesis using a b by (simp add: unat_word_ariths)
qed

lemma first_guard:
  "(a > 2 \<or> (a < 2 \<and> b > 39) \<or> b > UINT64_MAX - 80)
     \<longleftrightarrow> \<not> (unat (a :: u64) \<le> 2 \<and> (unat a < 2 \<longrightarrow> unat b \<le> 39) \<and> unat b < 2 ^ 64 - 80)"
proof -
  have m: "unat UINT64_MAX = 18446744073709551615"
    by (simp add: UINT64_MAX_def unsigned_minus_1_eq_mask mask_eq_exp_minus_1)
  have "unat (UINT64_MAX - 80) = 18446744073709551535"
    by (subst unat_sub) (auto simp: word_le_nat_alt m)
  then show ?thesis by (auto simp: word_less_nat_alt)
qed

lemma oid_from_text_valid:
  assumes m: "malloc_ok m" and v: "oid_valid cs"
  shows "appends m (CBB_add_asn1_oid_from_text m d (dotted cs) (length (dotted cs))) d (oid_contents cs)"
proof -
  obtain a b ns where cs: "cs = a # b # ns" using v by (auto simp: oid_valid_def split: list.splits)
  have ab: "a \<le> 2" "a < 2 \<longrightarrow> b \<le> 39" "b < 2 ^ 64 - 80" and ns: "list_all u64_ok ns"
    using v by (auto simp: oid_valid_def cs)
  let ?a = "of_nat a :: u64" and ?b = "of_nat b :: u64"
  have u: "unat ?a = a" "unat ?b = b" using ab by (simp_all add: unat_of_nat)
  have guard: "(?a > 2 \<or> (?a < 2 \<and> ?b > 39) \<or> ?b > UINT64_MAX - 80) = False"
    unfolding first_guard u using ab by blast
  have p: "parse_dotted_decimal (dotted cs) = (Some ?a, dotted (b # ns))"
    "parse_dotted_decimal (dotted (b # ns)) = (Some ?b, dotted ns)"
    using ab parse_dotted [of a "b # ns"] parse_dotted [of b ns] by (simp_all add: cs)
  have "CBB_add_asn1_oid_from_text m d (dotted cs) (length (dotted cs)) =
      and_then (CBB_flush m d) (and_then (add_base128_integer m d (40 * ?a + ?b))
        (all_ok (map (\<lambda>n. add_base128_integer m d (of_nat n)) ns)))"
    by (simp only: CBB_add_asn1_oid_from_text_def CBS_init_def take_all order.refl Let_def p
        option.case prod.case guard if_False oid_rest_dotted [OF ns])
  also have "\<dots> = all_ok (CBB_flush m d # map (add_base128_integer m d) ((40 * ?a + ?b) # map of_nat ns))"
    by (simp only: all_ok_Cons list.map map_map comp_def)
  finally have eq: "CBB_add_asn1_oid_from_text m d (dotted cs) (length (dotted cs)) =
      all_ok (CBB_flush m d # map (add_base128_integer m d) ((40 * ?a + ?b) # map of_nat ns))" .
  have f: "unat (40 * ?a + ?b) = 40 * a + b"
    using first_component [of ?a ?b] first_guard [of ?a ?b] u ab by (auto simp: not_less)
  have "map (\<lambda>n. b128 (unat (of_nat n :: u64))) ns = map b128 ns"
    using ns by (simp add: list_all_iff unat_of_nat)
  then have contents: "oid_contents cs = concat ([] # map (\<lambda>v. b128 (unat v)) ((40 * ?a + ?b) # map of_nat ns))"
    using f by (simp only: oid_contents_def cs list.case list.map map_map comp_def) simp
  have rel: "list_all2 (\<lambda>f x. appends m f d x)
      (CBB_flush m d # map (add_base128_integer m d) vs) ([] # map (\<lambda>v. b128 (unat v)) vs)" for vs
    using CBB_flush_appends [OF m] add_base128_integer_appends [OF m]
    by (auto simp: list_all2_map1 list_all2_map2 intro!: list.rel_refl_strong)
  show ?thesis unfolding eq contents by (rule appends_all_ok [OF _ rel]) simp
qed

lemma oid_from_text_True:
  assumes "fst (CBB_add_asn1_oid_from_text m d txt len s)"
  shows "\<exists>cs. oid_valid cs \<and> take len txt = dotted cs"
proof -
  obtain s1 a cbs1 b cbs2 s2 where p: "parse_dotted_decimal (take len txt) = (Some a, cbs1)"
    "parse_dotted_decimal cbs1 = (Some b, cbs2)"
    and g: "\<not> (a > 2 \<or> (a < 2 \<and> b > 39) \<or> b > UINT64_MAX - 80)"
    and r: "fst (oid_rest m d cbs2 s2)"
    using assms
    by (auto simp: CBB_add_asn1_oid_from_text_def CBS_init_def and_then_def Let_def
        split: prod.splits bool.splits option.splits if_splits)
  obtain ns where ns: "list_all u64_ok ns" "cbs2 = dotted ns" using oid_rest_True [OF r] by blast
  have "cbs1 = dotted (unat b # ns)" using p(2) ns parse_dotted_rest by simp
  then have "take len txt = dotted (unat a # unat b # ns)"
    using p(1) parse_dotted_rest by blast
  moreover have "oid_valid (unat a # unat b # ns)"
    using g ns unfolding first_guard by (simp add: oid_valid_def)
  ultimately show ?thesis by blast
qed

section \<open>Printing\<close>

lemma length_decimal: "n < 10 ^ Suc k \<Longrightarrow> length (decimal n) \<le> Suc k"
proof (induction k arbitrary: n)
  case 0
  then show ?case by (simp add: decimal_small)
next
  case (Suc k)
  then have "n div 10 < 10 ^ Suc k" by (simp add: less_mult_imp_div_less mult.commute)
  then show ?case using Suc.IH [of "n div 10"] by (simp add: decimal.simps [of n])
qed

lemma add_decimal_appends:
  assumes "malloc_ok m"
  shows "appends m (add_decimal m d v) d (decimal (unat v))"
proof -
  have "unat v < 2 ^ 64" using unsigned_less [of v] by simp
  then have "unat v < 10 ^ Suc 19" by simp
  then have "length (decimal (unat v)) < 2 ^ 63" using length_decimal [of "unat v" 19] by simp
  then show ?thesis unfolding add_decimal_def by (rule CBB_add_bytes_appends [OF assms])
qed

definition unpack :: "nat list \<Rightarrow> nat list" where
  "unpack vs = (case vs of [] \<Rightarrow> []
     | v # vs \<Rightarrow> if v \<ge> 80 then 2 # (v - 80) # vs else (v div 40) # (v mod 40) # vs)"

lemma oid_text_rest_codes:
  "oid_text_rest m (concat (map (\<lambda>v. b128 (unat v)) vs)) =
     all_ok (concat (map (\<lambda>v. [CBB_add_u8 m 0 46, add_decimal m 0 v]) vs))"
proof (induction vs)
  case Nil
  show ?case by (rule ext, subst oid_text_rest.simps) (simp add: CBS_len_def)
next
  case (Cons v vs)
  have p: "parse_base128_integer (b128 (unat v) @ concat (map (\<lambda>v. b128 (unat v)) vs))
      = (Some v, concat (map (\<lambda>v. b128 (unat v)) vs))"
    by (simp add: base128.get_enc)
  show ?case
    using p Cons
    by (intro ext, subst oid_text_rest.simps)
      (simp add: CBS_len_def and_then_def split: prod.splits bool.splits)
qed

lemma oid_text_rest_True:
  "fst (oid_text_rest m copy s) \<Longrightarrow> \<exists>vs :: u64 list. copy = concat (map (\<lambda>v. b128 (unat v)) vs)"
proof (induction "length copy" arbitrary: copy s rule: less_induct)
  case less
  show ?case
  proof (cases "copy = []")
    case True
    then show ?thesis by (intro exI [of _ "[]"]) simp
  next
    case False
    then obtain v copy' s' where v: "parse_base128_integer copy = (Some v, copy')"
      "fst (oid_text_rest m copy' s')"
      using less.prems by (subst (asm) oid_text_rest.simps)
        (auto simp: CBS_len_def split: prod.splits option.splits bool.splits)
    then obtain vs :: "u64 list" where "copy' = concat (map (\<lambda>v. b128 (unat v)) vs)"
      using less.hyps [of copy' s'] base128.get_shorter by blast
    then show ?thesis using v(1) parse_base128_integer_iff [of copy v copy']
      by (intro exI [of _ "v # vs"]) auto
  qed
qed

lemma and_then_TrueD: "fst (and_then f g s) \<Longrightarrow> \<exists>s1. f s = (True, s1) \<and> fst (g s1)"
  by (auto simp: and_then_def split: prod.splits bool.splits)

lemma dotted_append_rest:
  "ns \<noteq> [] \<Longrightarrow> dotted (ns @ ms) = dotted ns @ concat (map (\<lambda>n. 46 # decimal n) ms)"
proof (induction ns rule: dotted.induct)
  case (2 n)
  show ?case
  proof (induction ms arbitrary: n)
    case (Cons k ms)
    then show ?case using Cons [of k] by simp
  qed simp
qed auto

lemma dotted_no_zero: "0 \<notin> set (dotted ns)"
  using decimal_digits by (induction ns rule: dotted.induct) fastforce+

lemma oid_printer_appends:
  fixes v :: u64
  assumes m: "malloc_ok m"
  shows "appends m
     (and_then
       (if v \<ge> 80 then and_then (CBB_add_bytes m 0 [50, 46]) (add_decimal m 0 (v - 80))
        else and_then (add_decimal m 0 (v div 40))
               (and_then (CBB_add_u8 m 0 46) (add_decimal m 0 (v mod 40))))
       (and_then (oid_text_rest m (concat (map (\<lambda>v. b128 (unat v)) vs))) (CBB_add_u8 m 0 0)))
     0 (dotted (unpack (map unat (v # vs))) @ [0])"
proof -
  let ?tail = "concat (map (\<lambda>n. 46 # decimal n) (map unat vs))"
  let ?first = "if v \<ge> 80 then and_then (CBB_add_bytes m 0 [50, 46]) (add_decimal m 0 (v - 80))
        else and_then (add_decimal m 0 (v div 40))
               (and_then (CBB_add_u8 m 0 46) (add_decimal m 0 (v mod 40)))"
  have d2: "decimal 2 = [50]" by (simp add: decimal_small)
  have tx: "dotted (unpack (map unat (v # vs))) =
      (if 80 \<le> unat v then [50, 46] @ decimal (unat v - 80)
       else decimal (unat v div 40) @ [46] @ decimal (unat v mod 40)) @ ?tail"
    using dotted_append_rest [of "[2, unat v - 80]" "map unat vs"]
      dotted_append_rest [of "[unat v div 40, unat v mod 40]" "map unat vs"]
    by (simp add: unpack_def d2)
  have first: "appends m ?first 0 (if 80 \<le> unat v then [50, 46] @ decimal (unat v - 80)
       else decimal (unat v div 40) @ [46] @ decimal (unat v mod 40))"
  proof (cases "v \<ge> 80")
    case True
    then have "unat (v - 80) = unat v - 80" "80 \<le> unat v" by (simp_all add: unat_sub word_le_nat_alt)
    then show ?thesis
      using True appends_and_then [OF CBB_add_bytes_appends [OF m] add_decimal_appends [OF m], of "[50, 46]" 0 "v - 80"]
      by simp
  next
    case False
    then have "\<not> 80 \<le> unat v" by (simp add: word_le_nat_alt)
    then show ?thesis
      using False appends_and_then [OF add_decimal_appends [OF m] appends_and_then
          [OF CBB_add_u8_appends [OF m] add_decimal_appends [OF m]], of 0 "v div 40" 46 "v mod 40"]
      by (simp add: unat_div unat_mod)
  qed
  have step: "appends m (and_then (CBB_add_u8 m 0 46) (add_decimal m 0 w)) 0 (46 # decimal (unat w))" for w
    using appends_and_then [OF CBB_add_u8_appends [OF m] add_decimal_appends [OF m], of 0 46 w] by simp
  have flat_all: "all_ok (concat (map (\<lambda>v. [f, g v]) ws)) = all_ok (map (\<lambda>v. and_then f (g v)) ws)"
    for f :: "cbb \<Rightarrow> bool \<times> cbb" and g and ws :: "u64 list"
    by (induction ws) (simp_all add: all_ok_Cons and_then_assoc del: all_ok_simps)
  have rest: "and_then (oid_text_rest m (concat (map (\<lambda>v. b128 (unat v)) vs))) (CBB_add_u8 m 0 0) =
      all_ok (map (\<lambda>v. and_then (CBB_add_u8 m 0 46) (add_decimal m 0 v)) vs @ [CBB_add_u8 m 0 0])"
    by (simp add: oid_text_rest_codes flat_all all_ok_append)
  have "appends m (all_ok (map (\<lambda>v. and_then (CBB_add_u8 m 0 46) (add_decimal m 0 v)) vs @ [CBB_add_u8 m 0 0]))
      0 (concat (map (\<lambda>v. 46 # decimal (unat v)) vs @ [[0]]))"
    using step CBB_add_u8_appends [OF m]
    by (intro appends_all_ok) (auto simp: list_all2_append list_all2_map1 list_all2_map2 list.rel_refl)
  from appends_and_then [OF first this] show ?thesis
    unfolding rest tx by (simp add: comp_def)
qed

lemma unpack_inverse: "oid_valid cs \<Longrightarrow> \<exists>(v :: u64) vs. oid_contents cs = concat (map (\<lambda>v. b128 (unat v)) (v # vs))
    \<and> unpack (map unat (v # vs)) = cs"
proof -
  assume v: "oid_valid cs"
  then obtain a b ns where cs: "cs = a # b # ns" by (auto simp: oid_valid_def split: list.splits)
  have ab: "a \<le> 2" "a < 2 \<longrightarrow> b \<le> 39" "b < 2 ^ 64 - 80" and ns: "list_all u64_ok ns"
    using v by (auto simp: oid_valid_def cs)
  have "40 * a + b < 2 ^ 64" using ab by simp
  then have f: "unat (of_nat (40 * a + b) :: u64) = 40 * a + b" by (simp add: unat_of_nat del: of_nat_add of_nat_mult)
  have m: "map (\<lambda>n. unat (of_nat n :: u64)) ns = ns" "map (\<lambda>n. b128 (unat (of_nat n :: u64))) ns = map b128 ns"
    using ns by (simp_all add: list_all_iff unat_of_nat map_idI)
  have "oid_contents cs = concat (map (\<lambda>v. b128 (unat v)) ((of_nat (40 * a + b) :: u64) # map of_nat ns))"
    using f m(2) by (simp only: oid_contents_def cs list.case list.map map_map comp_def)
  moreover have "unpack (map unat ((of_nat (40 * a + b) :: u64) # map of_nat ns)) = cs"
  proof -
    have "a = 0 \<or> a = 1 \<or> a = 2" using ab by linarith
    then show ?thesis using f m(1) ab
      by (auto simp: unpack_def cs comp_def simp del: of_nat_add of_nat_mult)
  qed
  ultimately show ?thesis by blast
qed

text \<open>What the printer returns on the contents octets of \<open>v # vs\<close>, and on nothing else.\<close>

lemma oid_to_text_codes:
  fixes v :: u64
  assumes m: "malloc_ok m"
  shows "case CBS_asn1_oid_to_text m (concat (map (\<lambda>v. b128 (unat v)) (v # vs))) of
      None \<Rightarrow> m 40 = None \<or> (let n = Suc (length (dotted (unpack (map unat (v # vs)))))
        in 32 < n \<and> (\<exists>k. 40 < k \<and> k \<le> 2 * n + 8 \<and> m k = None))
    | Some txt \<Rightarrow> 0 \<in> set txt \<and> cstr txt = dotted (unpack (map unat (v # vs)))"
proof (cases "CBB_init m 32")
  case None
  then show ?thesis using CBB_init_None [OF None] by (auto simp: CBS_asn1_oid_to_text_def)
next
  case (Some s)
  let ?codes = "concat (map (\<lambda>v. b128 (unat v)) vs)"
  let ?first = "if v \<ge> 80 then and_then (CBB_add_bytes m 0 [50, 46]) (add_decimal m 0 (v - 80))
        else and_then (add_decimal m 0 (v div 40))
               (and_then (CBB_add_u8 m 0 46) (add_decimal m 0 (v mod 40)))"
  let ?f = "and_then ?first (and_then (oid_text_rest m ?codes) (CBB_add_u8 m 0 0))"
  let ?x = "dotted (unpack (map unat (v # vs))) @ [0]"
  have p: "parse_base128_integer (concat (map (\<lambda>v. b128 (unat v)) (v # vs))) = (Some v, ?codes)"
    by (simp add: base128.get_enc)
  have eq: "CBS_asn1_oid_to_text m (concat (map (\<lambda>v. b128 (unat v)) (v # vs))) =
     (case ?f s of (False, _) \<Rightarrow> None
      | (True, cbb) \<Rightarrow> (case CBB_finish m 0 True True cbb of (None, _) \<Rightarrow> None
                        | (Some (txt, _), _) \<Rightarrow> Some txt))"
    unfolding CBS_asn1_oid_to_text_def Some p Let_def option.case prod.case ..
  have w: "case ?f s of
      (False, s') \<Rightarrow> 32 < length ?x \<and> (\<exists>k. 32 + 8 < k \<and> k \<le> 2 * length ?x + 8 \<and> m k = None)
    | (True, s') \<Rightarrow> \<exists>buf. CBB_finish m 0 True True s' = (Some (buf, length ?x), None)
        \<and> take (length ?x) buf = ?x \<and> length ?x \<le> length buf"
    using write_and_finish [OF m oid_printer_appends [OF m] Some] by simp
  obtain ok s' where r: "?f s = (ok, s')" by (cases "?f s")
  show ?thesis
  proof (cases ok)
    case True
    then obtain buf where buf: "CBB_finish m 0 True True s' = (Some (buf, length ?x), None)"
      "take (length ?x) buf = ?x"
      using w r by auto
    obtain z where "buf = ?x @ z" using buf(2) by (metis append_take_drop_id)
    then have "0 \<in> set buf" "cstr buf = dotted (unpack (map unat (v # vs)))"
      using dotted_no_zero by (simp_all add: cstr_append)
    then show ?thesis unfolding eq using r True buf(1) by simp
  next
    case False
    then have "32 < length ?x \<and> (\<exists>k. 40 < k \<and> k \<le> 2 * length ?x + 8 \<and> m k = None)"
      using r w by simp
    then show ?thesis unfolding eq using r False by (simp add: Let_def)
  qed
qed

lemma oid_to_text_Some:
  assumes "CBS_asn1_oid_to_text m cbs = Some txt"
  shows "\<exists>(v :: u64) vs. cbs = concat (map (\<lambda>v. b128 (unat v)) (v # vs))"
proof -
  obtain s v copy where p: "parse_base128_integer cbs = (Some v, copy)"
    and f: "\<exists>f g s'. fst (and_then f (and_then (oid_text_rest m copy) g) s')"
    using assms unfolding CBS_asn1_oid_to_text_def Let_def
    by (auto split: option.splits prod.splits bool.splits) (metis fst_conv)+
  have "\<exists>s'. fst (oid_text_rest m copy s')"
    using f and_then_TrueD by (metis fst_conv)
  then obtain vs :: "u64 list" where "copy = concat (map (\<lambda>v. b128 (unat v)) vs)" using oid_text_rest_True by blast
  then show ?thesis using p parse_base128_integer_iff [of cbs v copy]
    by (intro exI [of _ v] exI [of _ vs]) simp
qed

end
