(* ===== verification/Qsort.thy ===== *)
theory Qsort
  imports Prelude "HOL-Library.Multiset"
begin

text \<open>
  The C library's \<open>qsort\<close> and \<open>bsearch\<close> conventions: a comparison function returns a signed
  number, and sorting returns some permutation in non-decreasing order. \<open>qsort\<close> is a parameter
  of the model; what the order of equal elements is remains open.
\<close>

type_synonym 'a cmp = "'a \<Rightarrow> 'a \<Rightarrow> int"
type_synonym 'a qsort = "'a cmp \<Rightarrow> 'a list \<Rightarrow> 'a list"

definition qsort_ok :: "'a qsort \<Rightarrow> 'a cmp \<Rightarrow> bool" where
  "qsort_ok qs cmp \<longleftrightarrow>
     (\<forall>xs. mset (qs cmp xs) = mset xs \<and> sorted_wrt (\<lambda>a b. cmp a b \<le> 0) (qs cmp xs))"

section \<open>Comparison functions\<close>

locale comparator =
  fixes cmp :: "'a cmp"
  assumes total: "cmp a b \<le> 0 \<or> cmp b a \<le> 0"
    and trans: "cmp a b \<le> 0 \<Longrightarrow> cmp b c \<le> 0 \<Longrightarrow> cmp a c \<le> 0"

locale strict_comparator = comparator +
  assumes antisym: "cmp a b \<le> 0 \<Longrightarrow> cmp b a \<le> 0 \<Longrightarrow> a = b"

fun cmp_insert :: "'a cmp \<Rightarrow> 'a \<Rightarrow> 'a list \<Rightarrow> 'a list" where
  "cmp_insert cmp x [] = [x]"
| "cmp_insert cmp x (y # ys) = (if cmp x y \<le> 0 then x # y # ys else y # cmp_insert cmp x ys)"

definition insertion_qsort :: "'a qsort" where
  "insertion_qsort cmp xs = foldr (cmp_insert cmp) xs []"

lemma mset_cmp_insert [simp]: "mset (cmp_insert cmp x ys) = add_mset x (mset ys)"
  by (induction cmp x ys rule: cmp_insert.induct) auto

lemma set_cmp_insert [simp]: "set (cmp_insert cmp x ys) = insert x (set ys)"
  by (induction cmp x ys rule: cmp_insert.induct) auto

context comparator
begin

lemma sorted_cmp_insert:
  "sorted_wrt (\<lambda>a b. cmp a b \<le> 0) ys \<Longrightarrow> sorted_wrt (\<lambda>a b. cmp a b \<le> 0) (cmp_insert cmp x ys)"
proof (induction ys)
  case (Cons y ys)
  show ?case
  proof (cases "cmp x y \<le> 0")
    case True
    then show ?thesis using Cons.prems trans by auto
  next
    case False
    then have "cmp y x \<le> 0" using total by blast
    then show ?thesis using Cons False by auto
  qed
qed simp

lemma insertion_qsort_ok: "qsort_ok insertion_qsort cmp"
proof -
  have "mset (insertion_qsort cmp xs) = mset xs
    \<and> sorted_wrt (\<lambda>a b. cmp a b \<le> 0) (insertion_qsort cmp xs)" for xs
    by (induction xs) (auto simp: insertion_qsort_def intro: sorted_cmp_insert)
  then show ?thesis by (simp add: qsort_ok_def)
qed

end

context strict_comparator
begin

text \<open>Where only equal elements compare equal, the sorted permutation is unique.\<close>

lemma sorted_unique:
  "sorted_wrt (\<lambda>a b. cmp a b \<le> 0) xs \<Longrightarrow> sorted_wrt (\<lambda>a b. cmp a b \<le> 0) ys \<Longrightarrow>
   mset xs = mset ys \<Longrightarrow> xs = ys"
proof (induction xs arbitrary: ys)
  case (Cons x xs)
  then obtain y ys' where ys: "ys = y # ys'" by (cases ys) auto
  have "x = y"
  proof (rule ccontr)
    assume "x \<noteq> y"
    have "set_mset (mset (x # xs)) = set_mset (mset ys)" using Cons.prems(3) by simp
    then have "set (x # xs) = set ys" by (simp only: set_mset_mset)
    then have "x \<in> set ys'" "y \<in> set xs" using ys \<open>x \<noteq> y\<close> by auto
    then have "cmp x y \<le> 0" "cmp y x \<le> 0" using Cons.prems ys by auto
    then show False using antisym \<open>x \<noteq> y\<close> by blast
  qed
  then show ?case using Cons ys by auto
qed simp

lemma qsort_unique: "qsort_ok qs cmp \<Longrightarrow> qs cmp xs = insertion_qsort cmp xs"
  using insertion_qsort_ok by (intro sorted_unique) (auto simp: qsort_ok_def)

end

end
