(* ===== verification/SetOf.thy ===== *)
theory SetOf
  imports Oid Qsort
begin

text \<open>
  \<open>CBB_flush_asn1_set_of\<close> of \<open>cbb.c\<close>: the contents written so far are split into DER elements
  and rewritten in the order X.690 prescribes for a SET OF.
\<close>

text \<open>C's \<open>memcmp\<close>; only the sign of its result is specified.\<close>

fun memcmp :: "byte list \<Rightarrow> byte list \<Rightarrow> nat \<Rightarrow> int" where
  "memcmp (a # as) (b # bs) (Suc n) = (if a = b then memcmp as bs n else if a < b then - 1 else 1)"
| "memcmp _ _ _ = 0"

definition compare_set_of_element :: "cbs \<Rightarrow> cbs \<Rightarrow> int" where
  "compare_set_of_element a b =
     (let a_len = CBS_len a; b_len = CBS_len b;
          min_len = (if a_len < b_len then a_len else b_len);
          ret = memcmp (CBS_data a) (CBS_data b) min_len
      in if ret \<noteq> 0 then ret
         else if a_len = b_len then 0
         else if a_len < b_len then - 1 else 1)"

function count_children :: "cbs \<Rightarrow> nat option" where
  "count_children cbs =
     (if CBS_len cbs \<noteq> 0 then
        (case CBS_get_any_asn1_element cbs of
           (None, _) \<Rightarrow> None
         | (Some _, cbs) \<Rightarrow> map_option Suc (count_children cbs))
      else Some 0)"
  by auto

lemma any_asn1_element_shorter:
  "CBS_get_any_asn1_element s = (Some x, r) \<Longrightarrow> length r < length s"
  by (cases x) (auto simp: any_asn1_element_iff)

termination count_children
  by (relation "measure length") (auto dest: any_asn1_element_shorter [OF sym])

declare count_children.simps [simp del]

fun get_children :: "nat \<Rightarrow> cbs \<Rightarrow> cbs list option" where
  "get_children 0 cbs = Some []"
| "get_children (Suc n) cbs =
     (case CBS_get_any_asn1_element cbs of
        (None, _) \<Rightarrow> None
      | (Some (child, _, _), cbs) \<Rightarrow> map_option ((#) child) (get_children n cbs))"

definition CBB_flush_asn1_set_of :: "libc \<Rightarrow> cbs qsort \<Rightarrow> nat \<Rightarrow> cbb \<Rightarrow> bool \<times> cbb" where
  "CBB_flush_asn1_set_of m qs d =
     and_then (CBB_flush m d) (\<lambda>s.
       (case count_children (CBS_init (CBB_data d s) (CBB_len d s)) of
          None \<Rightarrow> (False, s)
        | Some num_children \<Rightarrow>
            if num_children < 2 then (True, s)
            else if num_children > (size_max1 - 1) div 16 then (False, s)
            else
              let buf_len = CBB_len d s in
              (case OPENSSL_memdup m (CBB_data d s) buf_len of None \<Rightarrow> (False, s) | Some buf \<Rightarrow>
              (case OPENSSL_malloc m (of_nat (num_children * 16)) of None \<Rightarrow> (False, s) | Some _ \<Rightarrow>
              (case get_children num_children (CBS_init buf buf_len) of None \<Rightarrow> (False, s)
               | Some children \<Rightarrow>
                   all_ok (map (CBB_add_bytes m d) (qs compare_set_of_element children))
                     (s\<lparr>cb_len := cb_start d s\<rparr>))))))"

section \<open>The order\<close>

text \<open>The comparison is the lexicographic order of the encodings.\<close>

fun byte_cmp :: "byte list \<Rightarrow> byte list \<Rightarrow> int" where
  "byte_cmp [] [] = 0"
| "byte_cmp [] (b # bs) = - 1"
| "byte_cmp (a # as) [] = 1"
| "byte_cmp (a # as) (b # bs) = (if a = b then byte_cmp as bs else if a < b then - 1 else 1)"

lemma compare_set_of_element_eq: "compare_set_of_element a b = byte_cmp a b"
proof -
  have "compare_set_of_element a b =
     (let ret = memcmp a b (min (length a) (length b)) in
      if ret \<noteq> 0 then ret else if length a = length b then 0 else if length a < length b then - 1 else 1)"
    for a b :: "byte list"
    by (simp add: compare_set_of_element_def CBS_len_def CBS_data_def Let_def min_def)
  then show ?thesis
    by (induction a b rule: byte_cmp.induct) (auto simp: Let_def)
qed

lemma byte_cmp_antisym: "byte_cmp a b \<le> 0 \<Longrightarrow> byte_cmp b a \<le> 0 \<Longrightarrow> a = b"
  by (induction a b rule: byte_cmp.induct) (auto split: if_splits)

lemma byte_cmp_total: "byte_cmp a b \<le> 0 \<or> byte_cmp b a \<le> 0"
  by (induction a b rule: byte_cmp.induct) auto

lemma byte_cmp_trans: "byte_cmp a b \<le> 0 \<Longrightarrow> byte_cmp b c \<le> 0 \<Longrightarrow> byte_cmp a c \<le> 0"
proof (induction a b arbitrary: c rule: byte_cmp.induct)
  case (4 a as b bs)
  then show ?case by (cases c) (auto split: if_splits)
next
  case (1)
  then show ?case by simp
next
  case (2 b bs)
  then show ?case by (cases c) auto
qed auto

interpretation set_of: strict_comparator compare_set_of_element
proof unfold_locales
  fix a b c
  show "compare_set_of_element a b \<le> 0 \<or> compare_set_of_element b a \<le> 0"
    unfolding compare_set_of_element_eq by (rule byte_cmp_total)
  show "compare_set_of_element a b \<le> 0 \<Longrightarrow> compare_set_of_element b c \<le> 0 \<Longrightarrow>
      compare_set_of_element a c \<le> 0"
    unfolding compare_set_of_element_eq by (rule byte_cmp_trans)
  show "compare_set_of_element a b \<le> 0 \<Longrightarrow> compare_set_of_element b a \<le> 0 \<Longrightarrow> a = b"
    unfolding compare_set_of_element_eq by (rule byte_cmp_antisym)
qed

section \<open>Splitting the contents\<close>

definition is_element :: "byte list \<Rightarrow> bool" where
  "is_element e \<longleftrightarrow> (\<exists>t c. length c < 2 ^ 32 \<and> e = der_element t c)"

lemma get_element: "is_element e \<Longrightarrow> \<exists>t hl. CBS_get_any_asn1_element (e @ r) = (Some (e, t, hl), r)"
  by (auto simp: is_element_def any_asn1_element_iff)

lemma get_elementD: "CBS_get_any_asn1_element s = (Some (e, t, hl), r) \<Longrightarrow> is_element e \<and> s = e @ r"
  by (auto simp: is_element_def any_asn1_element_iff)

lemma is_element_not_Nil: "is_element e \<Longrightarrow> e \<noteq> []"
  by (auto simp: is_element_def)

lemma count_children_concat:
  "list_all is_element els \<Longrightarrow> count_children (concat els) = Some (length els)"
proof (induction els)
  case Nil
  show ?case by (subst count_children.simps) (simp add: CBS_len_def)
next
  case (Cons e els)
  obtain t hl where "CBS_get_any_asn1_element (e @ concat els) = (Some (e, t, hl), concat els)"
    using get_element [of e "concat els"] Cons.prems by auto
  then show ?case using Cons is_element_not_Nil [of e]
    by (subst count_children.simps) (simp add: CBS_len_def)
qed

lemma count_children_SomeD:
  "count_children s = Some n \<Longrightarrow> \<exists>els. list_all is_element els \<and> s = concat els \<and> length els = n"
proof (induction "length s" arbitrary: s n rule: less_induct)
  case less
  show ?case
  proof (cases "s = []")
    case True
    then show ?thesis using less.prems
      by (subst (asm) count_children.simps) (simp add: CBS_len_def)
  next
    case False
    then obtain e t hl r k where e: "CBS_get_any_asn1_element s = (Some (e, t, hl), r)"
      and k: "count_children r = Some k" "n = Suc k"
      using less.prems by (subst (asm) count_children.simps)
        (auto simp: CBS_len_def split: prod.splits option.splits)
    obtain els where "list_all is_element els" "r = concat els" "length els = k"
      using less.hyps [of r k] k any_asn1_element_shorter [OF e] by blast
    then show ?thesis using get_elementD [OF e] k by (intro exI [of _ "e # els"]) auto
  qed
qed

lemma get_children_concat:
  "list_all is_element els \<Longrightarrow> get_children (length els) (concat els) = Some els"
proof (induction els)
  case (Cons e els)
  obtain t hl where "CBS_get_any_asn1_element (e @ concat els) = (Some (e, t, hl), concat els)"
    using get_element [of e "concat els"] Cons.prems by auto
  then show ?case using Cons by simp
qed simp

section \<open>Rewriting the innermost open object\<close>

definition top_content :: "stack \<Rightarrow> byte list" where
  "top_content st = (case st of (root, fs) \<Rightarrow> if fs = [] then root else (case last fs of (p, a, c) \<Rightarrow> c))"

definition set_top :: "byte list \<Rightarrow> stack \<Rightarrow> stack" where
  "set_top x st =
     (case st of (root, fs) \<Rightarrow>
        if fs = [] then (x, [])
        else (root, butlast fs @ [case last fs of (p, a, c) \<Rightarrow> (p, a, x)]))"

lemma top_simps [simp]:
  "top_content (root, []) = root" "top_content (root, fs @ [(p, a, c)]) = c"
  "set_top x (root, []) = (x, [])" "set_top x (root, fs @ [(p, a, c)]) = (root, fs @ [(p, a, x)])"
  by (simp_all add: top_content_def set_top_def)

lemma add_top_set_top [simp]: "add_top x (set_top y st) = set_top (y @ x) st"
  by (cases st rule: stack_cases) simp_all

lemma set_top_top [simp]: "set_top (top_content st) st = st"
  by (cases st rule: stack_cases) simp_all

lemma length_set_top [simp]: "length (snd (set_top x st)) = length (snd st)"
  by (cases st rule: stack_cases) simp_all

lemma flat_set_top: "flat (set_top x st) = flat (set_top [] st) @ x"
  by (cases st rule: stack_cases) (simp_all add: flat_def frame_bytes_def)

lemma flat_top: "flat st = flat (set_top [] st) @ top_content st"
  using flat_set_top [of "top_content st" st] by simp

lemma cb_start_repr:
  assumes "repr s st" and "length (snd st) = d"
  shows "cb_start d s = length (flat (set_top [] st))"
  using assms
  by (cases st rule: stack_cases)
    (auto simp: cb_start_def repr_def flat_def frame_bytes_def kids_append nth_append)

lemma repr_rewind:
  assumes r: "repr s st" and d: "length (snd st) = d"
  shows "repr (s\<lparr>cb_len := cb_start d s\<rparr>) (set_top [] st)"
proof -
  have h: "holds s (flat (set_top [] st) @ top_content st)" using r flat_top by (metis repr_holds)
  have l: "cb_start d s \<le> cb_len s" "cb_len s \<le> length (cb_buf s)"
    using h holds_len [OF h] cb_start_repr [OF r d] by (simp_all add: holds_def cb_cap_def)
  have "take (cb_start d s) (take (cb_len s) (cb_buf s)) = flat (set_top [] st)"
    using h cb_start_repr [OF r d] by (simp add: holds_def)
  then have "take (cb_start d s) (cb_buf s) = flat (set_top [] st)" using l by (simp add: min_absorb1)
  then have "holds (s\<lparr>cb_len := cb_start d s\<rparr>) (flat (set_top [] st))"
    using h l by (simp add: holds_def cb_cap_def)
  then show ?thesis using r
    by (cases st rule: stack_cases) (auto simp: repr_def kids_append frame_ok_def)
qed

lemma CBB_contents_repr:
  assumes r: "repr s st" and d: "length (snd st) = d"
  shows "CBS_init (CBB_data d s) (CBB_len d s) = top_content st" and "CBB_len d s = length (top_content st)"
    and "length (top_content st) \<le> length (CBB_data d s)"
proof -
  have h: "holds s (flat (set_top [] st) @ top_content st)" using r flat_top by (metis repr_holds)
  have len: "cb_len s = cb_start d s + length (top_content st)" "cb_len s \<le> length (cb_buf s)"
    using h holds_len [OF h] cb_start_repr [OF r d] by (simp_all add: holds_def cb_cap_def)
  have "drop (cb_start d s) (take (cb_len s) (cb_buf s)) = top_content st"
    using h cb_start_repr [OF r d] by (simp add: holds_def)
  then show "CBS_init (CBB_data d s) (CBB_len d s) = top_content st" "CBB_len d s = length (top_content st)"
    "length (top_content st) \<le> length (CBB_data d s)"
    using len by (simp_all add: CBS_init_def CBB_data_def CBB_len_def drop_take)
qed

lemma memdup_take:
  assumes "OPENSSL_memdup m xs n = Some buf" and "n \<le> length xs"
  shows "take n buf = take n xs"
  using assms by (auto simp: OPENSSL_memdup_def split: option.splits if_splits)

lemma malloc_None:
  "OPENSSL_malloc m (of_nat n) = None \<Longrightarrow> n < 2 ^ 64 - 8 \<Longrightarrow> m (n + 8) = None"
  by (auto simp: OPENSSL_malloc_def unat_add_prefix unat_of_nat split: option.splits)

lemma memdup_None:
  "OPENSSL_memdup m xs n = None \<Longrightarrow> n < 2 ^ 64 - 8 \<Longrightarrow> n = 0 \<or> m (n + 8) = None"
  using malloc_None [of m n] by (auto simp: OPENSSL_memdup_def split: option.splits if_splits)

lemma mset_concat_length: "mset xs = mset ys \<Longrightarrow> length (concat xs) = length (concat ys)"
  by (metis length_concat mset_map sum_mset_sum_list)

lemma length_concat_member: "e \<in> set els \<Longrightarrow> length e \<le> length (concat els)"
  by (induction els) auto

lemma flush_set_of_outcome:
  assumes m: "malloc_ok m" and q: "qsort_ok qs compare_set_of_element"
    and r: "repr s st" and d: "length (snd st) = d"
  shows "case CBB_flush_asn1_set_of m qs d s of
     (True, s') \<Rightarrow> (\<exists>els. list_all is_element els \<and> top_content st = concat els
        \<and> repr s' (set_top (concat (insertion_qsort compare_set_of_element els)) st))
   | (False, s') \<Rightarrow> s' = s \<and> (\<forall>els. list_all is_element els \<longrightarrow> top_content st = concat els \<longrightarrow>
        m (length (top_content st) + 8) = None \<or> m (16 * length els + 8) = None
        \<or> 2 ^ 60 \<le> length els)"
proof -
  note c = CBB_contents_repr [OF r d]
  have c1: "CBS_init (CBB_data d s) (length (top_content st)) = top_content st"
    using c(1) unfolding c(2) .
  have fl: "CBB_flush m d s = (True, s)"
    using r d by (simp add: CBB_flush_def repr_def holds_def)
  show ?thesis
  proof (cases "count_children (top_content st)")
    case None
    then show ?thesis using c(1) fl count_children_concat
      by (auto simp: CBB_flush_asn1_set_of_def and_then_def)
  next
    case (Some n)
    then obtain els where els: "list_all is_element els" "top_content st = concat els" "length els = n"
      using count_children_SomeD by blast
    have uniq: "length els' = n" if "list_all is_element els'" "top_content st = concat els'" for els'
      using count_children_concat [OF that(1)] that(2) Some by simp
    have run: "CBB_flush_asn1_set_of m qs d s =
      (if n < 2 then (True, s) else if n > (size_max1 - 1) div 16 then (False, s)
       else (case OPENSSL_memdup m (CBB_data d s) (length (top_content st)) of None \<Rightarrow> (False, s) | Some buf \<Rightarrow>
            (case OPENSSL_malloc m (of_nat (n * 16)) of None \<Rightarrow> (False, s) | Some _ \<Rightarrow>
            (case get_children n (CBS_init buf (length (top_content st))) of None \<Rightarrow> (False, s)
             | Some children \<Rightarrow> all_ok (map (CBB_add_bytes m d) (qs compare_set_of_element children))
                 (s\<lparr>cb_len := cb_start d s\<rparr>)))))"
      unfolding CBB_flush_asn1_set_of_def and_then_def fl prod.case bool.case c(2) c1 Some option.case
        Let_def ..
    consider "n < 2" | "\<not> n < 2" "n > (size_max1 - 1) div 16" | "\<not> n < 2" "\<not> n > (size_max1 - 1) div 16"
      by blast
    then show ?thesis
    proof cases
      case 1
      have "insertion_qsort compare_set_of_element els = els"
        using 1 els(3) by (cases els; cases "tl els") (auto simp: insertion_qsort_def)
      moreover have "set_top (concat els) st = st" using els(2) set_top_top by metis
      ultimately show ?thesis using run 1 r els by (auto intro!: exI [of _ els])
    next
      case 2
      then show ?thesis using run uniq by (auto intro: less_imp_le)
    next
      case 3
      have ne: "top_content st \<noteq> []" using 3 els is_element_not_Nil by (cases els) auto
      show ?thesis
      proof (cases "OPENSSL_memdup m (CBB_data d s) (length (top_content st))")
        case None
        have "length (flat st) < 2 ^ 63" by (rule holds_length_less [OF repr_holds [OF r]])
        then have "length (top_content st) < 2 ^ 64 - 8" using flat_top [of st] by simp
        then have none: "m (length (top_content st) + 8) = None"
          using memdup_None [OF None] ne by simp
        have "CBB_flush_asn1_set_of m qs d s = (False, s)" using run 3 None by simp
        with none show ?thesis by auto
      next
        case buf: (Some buf)
        show ?thesis
        proof (cases "OPENSSL_malloc m (of_nat (n * 16))")
          case None
          then have "m (16 * n + 8) = None"
            using malloc_None [of m "n * 16"] 3 by (simp add: mult.commute)
          then show ?thesis using run 3 buf None uniq by auto
        next
          case arr: (Some arr)
          let ?els = "qs compare_set_of_element els"
          let ?s = "s\<lparr>cb_len := cb_start d s\<rparr>" and ?new = "set_top (concat ?els) st"
          have "CBS_init buf (length (top_content st)) = top_content st"
            using memdup_take [OF buf c(3)] c(1,2) by (simp add: CBS_init_def)
          then have eq: "CBB_flush_asn1_set_of m qs d s = all_ok (map (CBB_add_bytes m d) ?els) ?s"
            using run 3 buf arr els get_children_concat [OF els(1)] by simp
          have ms: "mset ?els = mset els" using q by (simp add: qsort_ok_def)
          have set: "set ?els = set els" using ms by (metis set_mset_mset)
          have len: "length (concat ?els) = length (top_content st)"
            using mset_concat_length [OF ms] els(2) by simp
          have "length (flat st) < 2 ^ 63" by (rule holds_length_less [OF repr_holds [OF r]])
          then have short: "length (top_content st) < 2 ^ 63" using flat_top [of st] by simp
          have "length e < 2 ^ 63" if "e \<in> set ?els" for e
          proof -
            have "length e \<le> length (concat els)"
              using that set length_concat_member [of e els] by simp
            then show ?thesis using short els(2) by simp
          qed
          then have "list_all2 (\<lambda>f x. appends m f d x) (map (CBB_add_bytes m d) ?els) ?els"
            using CBB_add_bytes_appends [OF m]
            by (auto simp: list_all2_map1 intro!: list.rel_refl_strong)
          moreover have "?els \<noteq> []" using 3 els(3) ms by auto
          ultimately have "appends m (all_ok (map (CBB_add_bytes m d) ?els)) d (concat ?els)"
            by (intro appends_all_ok) auto
          from appendsD [OF this repr_rewind [OF r d]]
          have out: "outcome m ?s (Some ?new) (all_ok (map (CBB_add_bytes m d) ?els) ?s)"
            using d by (simp add: sp_append_full)
          have "length (flat ?new) = length (flat st)"
            using len flat_set_top [of "concat ?els" st] flat_top [of st] by simp
          also have "\<dots> \<le> cb_cap ?s"
            using repr_holds [OF r] holds_len [OF repr_holds [OF r]] by (simp add: holds_def cb_cap_def)
          finally have room: "\<not> no_room m ?s (length (flat ?new))" by (simp add: no_room_def)
          obtain ok s' where res: "all_ok (map (CBB_add_bytes m d) ?els) ?s = (ok, s')" by fastforce
          have "ok" "repr s' ?new" using out room res by (auto simp: outcome_def split: if_splits)
          moreover have "?els = insertion_qsort compare_set_of_element els"
            by (rule set_of.qsort_unique [OF q])
          ultimately show ?thesis using eq res els by auto
        qed
      qed
    qed
  qed
qed

end
