(* ===== verification/CbbProps.thy ===== *)
theory CbbProps
  imports SetOf
begin

text \<open>
  Properties of the writer as a whole: sequences of operations refine the stack specification,
  a fixed buffer is used exactly, errors stick, and what is written is what the readers of
  \<open>cbs.c\<close> return.
\<close>

section \<open>Sequences of operations\<close>

datatype cbb_op =
    Flush nat
  | AddBytes nat "byte list"
  | AddU8 nat byte
  | AddU16 nat u16
  | AddU24 nat u32
  | AddU32 nat u32
  | AddU64 nat u64
  | AddU8LengthPrefixed nat
  | AddU16LengthPrefixed nat
  | AddU24LengthPrefixed nat
  | AddAsn1 nat u32
  | AddUint64 nat u64
  | AddInt64 nat u64
  | AddOctetString nat "byte list"
  | AddBool nat int
  | AddU16le nat u16
  | AddU32le nat u32
  | AddU64le nat u64
  | AddSpace nat "byte list"
  | ReserveWrite nat nat "byte list"
  | AddOid nat "byte list"
  | DiscardChild nat

text \<open>
  The two operations that hand out a region of the buffer, with what their callers do: storing
  bytes in the space that \<open>CBB_add_space\<close> appended, and storing up to \<open>n\<close> bytes in the region
  that \<open>CBB_reserve\<close> granted and committing them with \<open>CBB_did_write\<close>.
\<close>

definition fill_space :: "libc \<Rightarrow> nat \<Rightarrow> byte list \<Rightarrow> cbb \<Rightarrow> bool \<times> cbb" where
  "fill_space m d xs s =
     (case CBB_add_space m d (length xs) s of
        (None, s) \<Rightarrow> (False, s)
      | (Some off, s) \<Rightarrow> (True, s\<lparr>cb_buf := overwrite (cb_buf s) off xs\<rparr>))"

definition reserve_and_write :: "libc \<Rightarrow> nat \<Rightarrow> nat \<Rightarrow> byte list \<Rightarrow> cbb \<Rightarrow> bool \<times> cbb" where
  "reserve_and_write m d n xs s =
     (case CBB_reserve m d n s of
        (None, s) \<Rightarrow> (False, s)
      | (Some off, s) \<Rightarrow>
          CBB_did_write d (length xs) (s\<lparr>cb_buf := overwrite (cb_buf s) off xs\<rparr>))"

fun cbb_step :: "libc \<Rightarrow> cbb_op \<Rightarrow> cbb \<Rightarrow> bool \<times> cbb" where
  "cbb_step m (Flush d) = CBB_flush m d"
| "cbb_step m (AddBytes d xs) = CBB_add_bytes m d xs"
| "cbb_step m (AddU8 d v) = CBB_add_u8 m d v"
| "cbb_step m (AddU16 d v) = CBB_add_u16 m d v"
| "cbb_step m (AddU24 d v) = CBB_add_u24 m d v"
| "cbb_step m (AddU32 d v) = CBB_add_u32 m d v"
| "cbb_step m (AddU64 d v) = CBB_add_u64 m d v"
| "cbb_step m (AddU8LengthPrefixed d) = CBB_add_u8_length_prefixed m d"
| "cbb_step m (AddU16LengthPrefixed d) = CBB_add_u16_length_prefixed m d"
| "cbb_step m (AddU24LengthPrefixed d) = CBB_add_u24_length_prefixed m d"
| "cbb_step m (AddAsn1 d t) = CBB_add_asn1 m d t"
| "cbb_step m (AddUint64 d v) = CBB_add_asn1_uint64 m d v"
| "cbb_step m (AddInt64 d v) = CBB_add_asn1_int64 m d v"
| "cbb_step m (AddOctetString d xs) = CBB_add_asn1_octet_string m d xs"
| "cbb_step m (AddBool d v) = CBB_add_asn1_bool m d v"
| "cbb_step m (AddU16le d v) = CBB_add_u16le m d v"
| "cbb_step m (AddU32le d v) = CBB_add_u32le m d v"
| "cbb_step m (AddU64le d v) = CBB_add_u64le m d v"
| "cbb_step m (AddSpace d xs) = fill_space m d xs"
| "cbb_step m (ReserveWrite d n xs) = reserve_and_write m d n xs"
| "cbb_step m (AddOid d tx) = CBB_add_asn1_oid_from_text m d tx (length tx)"
| "cbb_step m (DiscardChild d) = (\<lambda>s. (True, CBB_discard_child d s))"

definition cbb_run :: "libc \<Rightarrow> cbb_op list \<Rightarrow> cbb \<Rightarrow> bool \<times> cbb" where
  "cbb_run m ops = all_ok (map (cbb_step m) ops)"

text \<open>The same on stacks: no buffer, no offsets, lengths written by the DER specification.\<close>

definition sp_add :: "nat \<Rightarrow> byte list \<Rightarrow> stack \<Rightarrow> stack option" where
  "sp_add d x st = (if d \<le> length (snd st) then sp_append d x st else None)"

definition sp_open :: "nat \<Rightarrow> byte list \<Rightarrow> nat \<Rightarrow> bool \<Rightarrow> stack \<Rightarrow> stack option" where
  "sp_open d x p a st = map_option (open_child p a) (sp_add d x st)"

fun sp_step :: "cbb_op \<Rightarrow> stack \<Rightarrow> stack option" where
  "sp_step (Flush d) = sp_add d []"
| "sp_step (AddBytes d xs) = sp_add d xs"
| "sp_step (AddU8 d v) = sp_add d [v]"
| "sp_step (AddU16 d v) = sp_add d (be_bytes 2 (unat v))"
| "sp_step (AddU24 d v) = (if unat v < 2 ^ 24 then sp_add d (be_bytes 3 (unat v)) else Map.empty)"
| "sp_step (AddU32 d v) = sp_add d (be_bytes 4 (unat v))"
| "sp_step (AddU64 d v) = sp_add d (be_bytes 8 (unat v))"
| "sp_step (AddU8LengthPrefixed d) = sp_open d [] 1 False"
| "sp_step (AddU16LengthPrefixed d) = sp_open d [] 2 False"
| "sp_step (AddU24LengthPrefixed d) = sp_open d [] 3 False"
| "sp_step (AddAsn1 d t) = sp_open d (der_tag t) 1 True"
| "sp_step (AddUint64 d v) = sp_add d (der_element CBS_ASN1_INTEGER (der_uint (unat v)))"
| "sp_step (AddInt64 d v) = sp_add d (der_element CBS_ASN1_INTEGER (der_int v))"
| "sp_step (AddOctetString d xs) = sp_add d (der_element CBS_ASN1_OCTETSTRING xs)"
| "sp_step (AddBool d v) = sp_add d (der_element CBS_ASN1_BOOLEAN [if v \<noteq> 0 then 0xff else 0])"
| "sp_step (AddU16le d v) = sp_add d (rev (be_bytes 2 (unat v)))"
| "sp_step (AddU32le d v) = sp_add d (rev (be_bytes 4 (unat v)))"
| "sp_step (AddU64le d v) = sp_add d (rev (be_bytes 8 (unat v)))"
| "sp_step (AddSpace d xs) = sp_add d xs"
| "sp_step (ReserveWrite d n xs) = sp_add d xs"
| "sp_step (AddOid d tx) = (case oid_of_text tx of None \<Rightarrow> Map.empty | Some x \<Rightarrow> sp_add d x)"
| "sp_step (DiscardChild d) = (\<lambda>st. Some (fst st, take d (snd st)))"

fun sp_run :: "cbb_op list \<Rightarrow> stack \<Rightarrow> stack option" where
  "sp_run [] st = Some st"
| "sp_run (op # ops) st = (case sp_step op st of None \<Rightarrow> None | Some st \<Rightarrow> sp_run ops st)"

text \<open>
  The largest number of bytes the buffer has to hold on the way; a reservation counts in full.
\<close>

fun slack :: "cbb_op \<Rightarrow> nat" where
  "slack (ReserveWrite d n xs) = n - length xs"
| "slack _ = 0"

fun peak :: "cbb_op list \<Rightarrow> stack \<Rightarrow> nat" where
  "peak [] st = length (flat st)"
| "peak (op # ops) st =
     max (length (flat st)) (case sp_step op st of
       None \<Rightarrow> 0 | Some st \<Rightarrow> max (length (flat st) + slack op) (peak ops st))"

text \<open>
  Data comes from real objects; an octet string also has to fit a DER length, and nobody writes
  more than was reserved.
\<close>

fun op_ok :: "cbb_op \<Rightarrow> bool" where
  "op_ok (AddBytes d xs) = (length xs < 2 ^ 63)"
| "op_ok (AddOctetString d xs) = (length xs \<le> 0xfffffffe)"
| "op_ok (AddSpace d xs) = (length xs < 2 ^ 63)"
| "op_ok (ReserveWrite d n xs) = (length xs \<le> n \<and> n < 2 ^ 63)"
| "op_ok _ = True"

definition result :: "libc \<Rightarrow> cbb \<Rightarrow> stack option \<Rightarrow> nat \<Rightarrow> bool \<times> cbb \<Rightarrow> bool" where
  "result m s spec n r \<longleftrightarrow>
     (if fst r then (\<exists>st. spec = Some st \<and> repr (snd r) st) \<and> same_kind s (snd r)
      else spec = None \<or> no_room m s n)"

lemma dead_handle:
  "length (cb_children s) < d \<Longrightarrow> CBB_flush m d s = (False, s)"
  by (simp add: CBB_flush_def)

lemma and_then_flush_False:
  "fst (CBB_flush m d s) = False \<Longrightarrow> fst (and_then (CBB_flush m d) g s) = False"
  by (auto simp: and_then_def split: prod.splits)

lemma and_then_False: "fst (f s) = False \<Longrightarrow> fst (and_then f g s) = False"
  by (auto simp: and_then_def split: prod.splits)

lemma dead_step:
  assumes "length (cb_children s) < d"
  shows "fst (CBB_add_bytes m d xs s) = False" "fst (CBB_add_u8 m d b s) = False"
    "fst (CBB_add_u16 m d v16 s) = False" "fst (CBB_add_u24 m d v32 s) = False"
    "fst (CBB_add_u32 m d v32 s) = False" "fst (CBB_add_u64 m d v64 s) = False"
    "fst (cbb_add_length_prefixed m d p s) = False" "fst (CBB_add_asn1 m d t s) = False"
    "fst (CBB_add_asn1_uint64 m d v64 s) = False" "fst (CBB_add_asn1_int64 m d v64 s) = False"
    "fst (CBB_add_asn1_octet_string m d xs s) = False" "fst (CBB_add_asn1_bool m d i s) = False"
    "fst (CBB_add_u16le m d v16 s) = False" "fst (CBB_add_u32le m d v32 s) = False"
    "fst (CBB_add_u64le m d v64 s) = False" "fst (fill_space m d xs s) = False"
    "fst (CBB_add_asn1_oid_from_text m d xs n s) = False"
    "fst (reserve_and_write m d n xs s) = False"
proof -
  note fl = dead_handle [OF assms, of m]
  show asn1: "fst (CBB_add_asn1 m d t s) = False" for t
    using fl by (simp add: CBB_add_asn1_def Let_def and_then_def)
  show "fst (CBB_add_asn1_uint64 m d v64 s) = False" for v64
    unfolding CBB_add_asn1_uint64_def using asn1 by (intro and_then_False)
  then show "fst (CBB_add_asn1_int64 m d v64 s) = False"
    using asn1 by (auto simp: CBB_add_asn1_int64_def Let_def and_then_False simp del: upt_Suc all_ok_simps)
  show "fst (CBB_add_asn1_octet_string m d xs s) = False" "fst (CBB_add_asn1_bool m d i s) = False"
    using asn1 by (simp_all add: CBB_add_asn1_octet_string_def CBB_add_asn1_bool_def and_then_False)
qed (use dead_handle [OF assms, of m] in
    \<open>simp_all add: and_then_def CBB_add_bytes_def CBB_add_u8_def CBB_add_u16_def CBB_add_u24_def
       CBB_add_u32_def CBB_add_u64_def cbb_add_length_prefixed_def CBB_add_u16le_def
       CBB_add_u32le_def CBB_add_u64le_def fill_space_def CBB_add_space_def
       CBB_add_asn1_oid_from_text_def reserve_and_write_def CBB_reserve_def\<close>)

lemma outcome_result:
  "outcome m s spec r \<Longrightarrow> (\<And>st. spec = Some st \<Longrightarrow> length (flat st) \<le> n) \<Longrightarrow> result m s spec n r"
  by (cases spec) (auto simp: outcome_def result_def elim: no_room_mono split: if_splits)

lemma appends_result:
  assumes f: "appends m f d x" and r: "repr s st"
    and dead: "length (cb_children s) < d \<Longrightarrow> fst (f s) = False"
    and n: "\<And>st'. sp_add d x st = Some st' \<Longrightarrow> length (flat st') \<le> n"
  shows "result m s (sp_add d x st) n (f s)"
proof (cases "d \<le> length (snd st)")
  case True
  then show ?thesis using outcome_result [OF appendsD [OF f r True]] n
    by (simp add: sp_add_def)
next
  case False
  then have "length (cb_children s) < d" using r by (simp add: repr_def)
  then show ?thesis using dead False by (simp add: result_def sp_add_def)
qed

lemma opens_result:
  assumes f: "opens m f d x p a" and r: "repr s st"
    and dead: "length (cb_children s) < d \<Longrightarrow> fst (f s) = False"
    and n: "\<And>st'. sp_open d x p a st = Some st' \<Longrightarrow> length (flat st') \<le> n"
  shows "result m s (sp_open d x p a st) n (f s)"
proof (cases "d \<le> length (snd st)")
  case True
  then show ?thesis using outcome_result [OF opensD [OF f r True]] n
    by (simp add: sp_open_def sp_add_def)
next
  case False
  then have "length (cb_children s) < d" using r by (simp add: repr_def)
  then show ?thesis using dead False by (simp add: result_def sp_open_def sp_add_def)
qed

lemma discard_repr:
  assumes r: "repr s st"
  shows "repr (CBB_discard_child d s) (fst st, take d (snd st))
    \<and> same_kind s (CBB_discard_child d s)"
proof -
  obtain root fs where st: "st = (root, fs)" by (cases st)
  show ?thesis
  proof (cases "d < length fs")
    case False
    then have "drop d (cb_children s) = []" using r st by (simp add: repr_def)
    then show ?thesis using r st False by (simp add: CBB_discard_child_def)
  next
    case True
    let ?pre = "flat (root, take d fs)"
    have ch: "cb_children s = kids (length root) fs" using r st by (simp add: repr_def)
    obtain f fs' where f: "drop d fs = f # fs'" using True by (cases "drop d fs") auto
    obtain p a c where fpac: "f = (p, a, c)" by (cases f)
    have "drop d (cb_children s) = kids (length ?pre) (drop d fs)"
      using ch True drop_kids [of d fs "length root"] by (simp add: flat_def)
    then have eq: "CBB_discard_child d s =
        s\<lparr>cb_len := length ?pre, cb_children := take d (cb_children s)\<rparr>"
      using f fpac by (simp add: CBB_discard_child_def)
    have w: "flat st = ?pre @ concat (map frame_bytes (drop d fs))"
      using st by (simp add: flat_def flip: concat_append map_append)
    have h: "holds s (?pre @ concat (map frame_bytes (drop d fs)))"
      using repr_holds [OF r] w by simp
    have l: "length ?pre \<le> cb_len s" "cb_len s \<le> length (cb_buf s)"
      using h holds_len [OF h] by (simp_all add: holds_def cb_cap_def)
    have "take (length ?pre) (take (cb_len s) (cb_buf s)) = ?pre"
      using h by (simp add: holds_def)
    then have "holds (s\<lparr>cb_len := length ?pre\<rparr>) ?pre"
      using h l by (simp add: holds_def cb_cap_def min_absorb1)
    moreover have "list_all frame_ok (take d fs)"
      using r st by (auto simp: repr_def list_all_iff dest: in_set_takeD)
    ultimately show ?thesis using st ch unfolding eq
      by (simp add: repr_def take_kids same_kind_def cb_cap_def)
  qed
qed

lemma u24_overflow:
  assumes m: "malloc_ok m" and r: "repr s st" and v: "\<not> unat v < 2 ^ 24"
  shows "fst (CBB_add_u24 m d v s) = False"
proof (cases "d \<le> length (snd st)")
  case False
  then have "length (cb_children s) < d" using r by (simp add: repr_def)
  then show ?thesis by (rule dead_step)
next
  case True
  obtain ok s' where f: "CBB_flush m d s = (ok, s')" by (cases "CBB_flush m d s")
  show ?thesis
  proof (cases ok)
    case ok: True
    then obtain st' where "repr s' st'"
      using appendsD [OF CBB_flush_appends [OF m] r True] f by (auto simp: outcome_def)
    from buffer_add_u_outcome [OF m repr_holds [OF this], of 3 "unat v"]
    have "\<not> fst (cbb_buffer_add_u m (unat v) 3 s')"
      using v by (auto simp: buffer_outcome_def split: if_splits)
    then show ?thesis using f ok by (simp add: CBB_add_u24_def and_then_def)
  qed (simp add: CBB_add_u24_def and_then_def f)
qed

text \<open>
  The two-step write: after \<open>CBB_reserve\<close> granted \<open>n\<close> bytes, storing up to \<open>n\<close> bytes in the
  granted region and calling \<open>CBB_did_write\<close> appends exactly them, and the call cannot fail.
\<close>

lemma reserved_write:
  assumes m: "malloc_ok m" and r: "repr s st" and d: "length (snd st) = d"
    and n: "n < 2 ^ 63" "length xs \<le> n"
  shows "case cbb_buffer_reserve m n s of
      (None, s') \<Rightarrow> no_room m s (length (flat st) + n)
    | (Some off, s') \<Rightarrow> \<exists>s''. CBB_did_write d (length xs) (s'\<lparr>cb_buf := overwrite (cb_buf s') off xs\<rparr>) = (True, s'')
        \<and> repr s'' (add_top xs st) \<and> same_kind s s'' \<and> length (flat st) + n \<le> cb_cap s''"
  using m repr_holds [OF r] n(1)
proof (cases rule: buffer_reserve_cases)
  case (ok buf)
  let ?off = "length (flat st)"
  let ?buf = "overwrite buf ?off xs" and ?l = "length (flat st) + length xs"
  have len: "cb_len s = ?off" by (rule holds_len [OF repr_holds [OF r]])
  have room: "?off + length xs \<le> length buf" using ok(3) n(2) by simp
  have "length buf < 2 ^ 63" using ok(2) by (simp add: holds_def cb_cap_def split: if_splits)
  then have "CBB_did_write d (length xs) (s\<lparr>cb_buf := ?buf\<rparr>) = (True, s\<lparr>cb_buf := ?buf, cb_len := ?l\<rparr>)"
    using room r d len by (simp add: CBB_did_write_def cb_cap_def repr_def)
  moreover have "take ?l ?buf = flat st @ xs"
    using holds_take [OF ok(2)] room by (simp add: overwrite_def)
  then have "holds (s\<lparr>cb_buf := ?buf, cb_len := ?l\<rparr>) (flat st @ xs)"
    using ok(2) room by (simp add: holds_def cb_cap_def)
  then have "repr (s\<lparr>cb_buf := ?buf, cb_len := ?l\<rparr>) (add_top xs st)"
    by (rule repr_add_top [OF r, rotated]) simp
  moreover have "same_kind s (s\<lparr>cb_buf := ?buf, cb_len := ?l\<rparr>)"
    using ok(4) room by (auto simp: same_kind_def cb_cap_def)
  ultimately show ?thesis using ok(1,3) room by (simp add: cb_cap_def)
next
  case fail
  then show ?thesis by simp
qed

lemma reserve_and_write_result:
  assumes m: "malloc_ok m" and r: "repr s st" and ok: "length xs \<le> k" "k < 2 ^ 63"
    and n: "\<And>st'. sp_add d xs st = Some st' \<Longrightarrow> length (flat st') + (k - length xs) \<le> n"
  shows "result m s (sp_add d xs st) n (reserve_and_write m d k xs s)"
    and "fst (reserve_and_write m d k xs s) \<Longrightarrow> sp_add d xs st = Some st' \<Longrightarrow>
      length (flat st') + (k - length xs) \<le> cb_cap (snd (reserve_and_write m d k xs s))"
proof -
  have "result m s (sp_add d xs st) n (reserve_and_write m d k xs s) \<and>
    (fst (reserve_and_write m d k xs s) \<longrightarrow> sp_add d xs st = Some st' \<longrightarrow>
      length (flat st') + (k - length xs) \<le> cb_cap (snd (reserve_and_write m d k xs s)))" for st'
  proof (cases "d \<le> length (snd st)")
    case False
    then have "length (cb_children s) < d" using r by (simp add: repr_def)
    then show ?thesis using dead_step False by (simp add: result_def sp_add_def)
  next
    case True
    have fl: "outcome m s (sp_append d [] st) (CBB_flush m d s)"
      by (rule appendsD [OF CBB_flush_appends [OF m] r True])
    obtain good s1 where f: "CBB_flush m d s = (good, s1)" by fastforce
    show ?thesis
    proof (cases good)
      case False
      have "no_room m s n" if st': "sp_add d xs st = Some st'" for st'
      proof -
        obtain st1 where st1: "sp_append d [] st = Some st1" "st' = add_top xs st1"
          using st' True sp_append_None [of d "[]" st xs] sp_append_SomeD(2) [of d "[]" st]
          by (cases "sp_append d [] st") (auto simp: sp_add_def)
        then have "no_room m s (length (flat st1))" using fl f False by (simp add: outcome_def)
        then show ?thesis using n [OF st'] st1(2) by (auto elim!: no_room_mono)
      qed
      then show ?thesis using f False
        by (cases "sp_add d xs st") (auto simp: reserve_and_write_def CBB_reserve_def result_def)
    next
      case good: True
      then obtain st1 where st1: "sp_append d [] st = Some st1" "repr s1 st1" "same_kind s s1"
        using fl f by (auto simp: outcome_def)
      have sp: "sp_add d xs st = Some (add_top xs st1)" "length (snd st1) = d"
        using sp_append_SomeD(1) [OF st1(1) True] sp_append_SomeD(2) [OF st1(1) True, of xs] True
        by (simp_all add: sp_add_def)
      have le: "length (flat st1) + k \<le> n" using n [OF sp(1)] ok by simp
      show ?thesis
        using reserved_write [OF m st1(2) sp(2) ok(2,1)] f good sp(1) ok(1) st1(3) le
        by (auto simp: reserve_and_write_def CBB_reserve_def result_def split: prod.splits option.splits
            intro: same_kind_trans no_room_same_kind no_room_mono)
    qed
  qed
  then show "result m s (sp_add d xs st) n (reserve_and_write m d k xs s)"
    and "fst (reserve_and_write m d k xs s) \<Longrightarrow> sp_add d xs st = Some st' \<Longrightarrow>
      length (flat st') + (k - length xs) \<le> cb_cap (snd (reserve_and_write m d k xs s))"
    by blast+
qed

lemma fill_space_eq: "fill_space m d xs = CBB_add_bytes m d xs"
  by (rule ext) (auto simp: fill_space_def CBB_add_space_def CBB_add_bytes_def and_then_def
      split: prod.splits bool.splits option.splits)

lemma oid_from_text_result:
  assumes m: "malloc_ok m" and r: "repr s st"
    and n: "\<And>x st'. oid_of_text tx = Some x \<Longrightarrow> sp_add d x st = Some st' \<Longrightarrow> length (flat st') \<le> n"
  shows "result m s (case oid_of_text tx of None \<Rightarrow> None | Some x \<Rightarrow> sp_add d x st) n
    (CBB_add_asn1_oid_from_text m d tx (length tx) s)"
proof (cases "oid_of_text tx")
  case None
  then have "\<not> fst (CBB_add_asn1_oid_from_text m d tx (length tx) s)"
    using oid_from_text_True [of m d tx "length tx" s] oid_of_text_iff [of tx] by auto
  then show ?thesis using None by (simp add: result_def)
next
  case (Some x)
  then obtain cs where cs: "oid_valid cs" "tx = dotted cs" "x = oid_contents cs"
    using oid_of_text_iff [of tx x] by blast
  show ?thesis
    using appends_result [OF oid_from_text_valid [OF m cs(1)] r dead_step(17)] n [OF Some] cs Some by simp
qed

lemma cbb_step_result:
  assumes m: "malloc_ok m" and r: "repr s st" and ok: "op_ok op"
    and n': "\<And>st'. sp_step op st = Some st' \<Longrightarrow> length (flat st') + slack op \<le> n"
  shows "result m s (sp_step op st) n (cbb_step m op s)"
proof -
  have n: "\<And>st'. sp_step op st = Some st' \<Longrightarrow> length (flat st') \<le> n" using n' by fastforce
  show ?thesis
proof (cases op)
  case (Flush d)
  then show ?thesis using n appends_result [OF CBB_flush_appends [OF m] r] dead_handle by simp
next
  case (AddBytes d xs)
  then show ?thesis using n ok appends_result [OF CBB_add_bytes_appends [OF m] r] dead_step by simp
next
  case (AddU8 d v)
  then show ?thesis using n appends_result [OF CBB_add_u8_appends [OF m] r] dead_step by simp
next
  case (AddU16 d v)
  then show ?thesis using n appends_result [OF CBB_add_u16_appends [OF m] r] dead_step by simp
next
  case (AddU24 d v)
  show ?thesis
  proof (cases "unat v < 2 ^ 24")
    case True
    then show ?thesis
      using AddU24 n appends_result [OF CBB_add_u24_appends [OF m] r] dead_step by simp
  next
    case False
    then show ?thesis using AddU24 u24_overflow [OF m r] by (simp add: result_def)
  qed
next
  case (AddU32 d v)
  then show ?thesis using n appends_result [OF CBB_add_u32_appends [OF m] r] dead_step by simp
next
  case (AddU64 d v)
  then show ?thesis using n appends_result [OF CBB_add_u64_appends [OF m] r] dead_step by simp
next
  case (AddU8LengthPrefixed d)
  then show ?thesis using n opens_result [OF length_prefixed_opens [OF m] r] dead_step
    by (simp add: CBB_add_u8_length_prefixed_def)
next
  case (AddU16LengthPrefixed d)
  then show ?thesis using n opens_result [OF length_prefixed_opens [OF m] r] dead_step
    by (simp add: CBB_add_u16_length_prefixed_def)
next
  case (AddU24LengthPrefixed d)
  then show ?thesis using n opens_result [OF length_prefixed_opens [OF m] r] dead_step
    by (simp add: CBB_add_u24_length_prefixed_def)
next
  case (AddAsn1 d t)
  then show ?thesis using n opens_result [OF CBB_add_asn1_opens [OF m] r] dead_step by simp
next
  case (AddUint64 d v)
  then show ?thesis using n appends_result [OF CBB_add_asn1_uint64_appends [OF m] r] dead_step by simp
next
  case (AddInt64 d v)
  then show ?thesis using n appends_result [OF CBB_add_asn1_int64_appends [OF m] r] dead_step by simp
next
  case (AddOctetString d xs)
  then show ?thesis
    using n ok appends_result [OF CBB_add_asn1_octet_string_appends [OF m] r] dead_step by simp
next
  case (AddBool d v)
  then show ?thesis
    using n appends_result [OF CBB_add_asn1_bool_appends [OF m] r, of d v] dead_step by simp
next
  case (AddU16le d v)
  then show ?thesis
    using n appends_result [OF CBB_add_u16_appends [OF m] r, of d "CRYPTO_bswap2 v"] dead_step
    by (simp add: CBB_add_u16le_def bswap_bytes)
next
  case (AddU32le d v)
  then show ?thesis
    using n appends_result [OF CBB_add_u32_appends [OF m] r, of d "CRYPTO_bswap4 v"] dead_step
    by (simp add: CBB_add_u32le_def bswap_bytes)
next
  case (AddU64le d v)
  then show ?thesis
    using n appends_result [OF CBB_add_u64_appends [OF m] r, of d "CRYPTO_bswap8 v"] dead_step
    by (simp add: CBB_add_u64le_def bswap_bytes)
next
  case (AddSpace d xs)
  then show ?thesis using n ok appends_result [OF CBB_add_bytes_appends [OF m] r] dead_step
    by (simp add: fill_space_eq)
next
  case (ReserveWrite d k xs)
  then show ?thesis using n' ok reserve_and_write_result(1) [OF m r] by simp
next
  case (AddOid d tx)
  then show ?thesis using n oid_from_text_result [OF m r, of tx d n]
    by (auto split: option.splits)
next
  case (DiscardChild d)
  then show ?thesis using discard_repr [OF r] by (simp add: result_def)
qed
qed

lemma cbb_run_result:
  assumes m: "malloc_ok m"
  shows "repr s st \<Longrightarrow> list_all op_ok ops \<Longrightarrow>
    result m s (sp_run ops st) (peak ops st) (cbb_run m ops s)"
proof (induction ops arbitrary: s st)
  case Nil
  then show ?case by (simp add: result_def cbb_run_def)
next
  case (Cons op ops)
  have step: "result m s (sp_step op st) (peak (op # ops) st) (cbb_step m op s)"
  proof (rule cbb_step_result [OF m Cons.prems(1)])
    show "op_ok op" using Cons.prems by simp
    fix st'
    assume "sp_step op st = Some st'"
    then show "length (flat st') + slack op \<le> peak (op # ops) st" by simp
  qed
  obtain ok s' where s': "cbb_step m op s = (ok, s')" by (cases "cbb_step m op s")
  show ?case
  proof (cases ok)
    case False
    then show ?thesis using step s'
      by (auto simp: cbb_run_def and_then_def result_def)
  next
    case True
    then obtain st' where st': "sp_step op st = Some st'" "repr s' st'" "same_kind s s'"
      using step s' by (auto simp: result_def)
    have "result m s' (sp_run ops st') (peak ops st') (cbb_run m ops s')"
      using Cons st' by simp
    moreover have "no_room m s' (peak ops st') \<Longrightarrow> no_room m s (peak (op # ops) st)"
      using no_room_same_kind [OF st'(3)] no_room_mono [of m s "peak ops st'"] st'(1) by simp
    ultimately show ?thesis using s' True st'
      by (auto simp: cbb_run_def and_then_def result_def intro: same_kind_trans)
  qed
qed

lemma repr_fits: "repr s st \<Longrightarrow> length (flat st) \<le> cb_cap s"
  using repr_holds holds_len by (fastforce simp: holds_def)

lemma cbb_step_slack:
  assumes m: "malloc_ok m" and r: "repr s st" and ok: "op_ok op"
    and s': "cbb_step m op s = (True, s')" "sp_step op st = Some st'" "repr s' st'"
  shows "length (flat st') + slack op \<le> cb_cap s'"
proof (cases op)
  case (ReserveWrite d k xs)
  then show ?thesis
    using reserve_and_write_result(2) [OF m r, of xs k d "length (flat st') + (k - length xs)" st'] ok s'
    by simp
qed (use repr_fits [OF s'(3)] in simp_all)

lemma cbb_run_peak:
  assumes m: "malloc_ok m"
  shows "repr s st \<Longrightarrow> list_all op_ok ops \<Longrightarrow> \<not> cb_can_resize s \<Longrightarrow> fst (cbb_run m ops s) \<Longrightarrow>
    peak ops st \<le> cb_cap s"
proof (induction ops arbitrary: s st)
  case Nil
  then show ?case using repr_fits by simp
next
  case (Cons op ops)
  obtain s' where s': "cbb_step m op s = (True, s')" "fst (cbb_run m ops s')"
    using Cons.prems(4) by (auto simp: cbb_run_def and_then_def split: prod.splits bool.splits)
  have "length (flat st') + slack op \<le> peak (op # ops) st" if "sp_step op st = Some st'" for st'
    using that by simp
  then have "result m s (sp_step op st) (peak (op # ops) st) (cbb_step m op s)"
    using Cons.prems by (intro cbb_step_result [OF m]) simp_all
  then obtain st' where st': "sp_step op st = Some st'" "repr s' st'" "same_kind s s'"
    using s' by (auto simp: result_def)
  then have "peak ops st' \<le> cb_cap s"
    using Cons.IH [of s' st'] Cons.prems s'(2) by (simp add: same_kind_def)
  moreover have "length (flat st') + slack op \<le> cb_cap s"
    using cbb_step_slack [OF m Cons.prems(1) _ s'(1) st'(1,2)] Cons.prems st'(3)
    by (simp add: same_kind_def)
  ultimately show ?case using st'(1) repr_fits [OF Cons.prems(1)] by simp
qed

section \<open>Properties\<close>

text \<open>
  C1: sequences of the calls of \<open>cbb_op\<close> refine the stack specification. From a state that
  represents a stack, the calls succeed only with what the specification prescribes, the
  children's length prefixes included. They fail only if the specification has no result or the
  bytes exceed the capacity at hand and the buffer is fixed, or the allocator refused a request
  larger than that capacity and at most twice the bytes to be held, with the size prefixes: a
  growable writer with an allocator that grants those requests never fails for want of room.
\<close>

theorem cbb_run_refines:
  assumes "malloc_ok m" and "repr s st" and "list_all op_ok ops"
  shows "case cbb_run m ops s of
      (True, s') \<Rightarrow> \<exists>st'. sp_run ops st = Some st' \<and> repr s' st'
    | (False, s') \<Rightarrow> sp_run ops st = None \<or> no_room m s (peak ops st)"
  using cbb_run_result [OF assms] by (auto simp: result_def split: prod.splits bool.splits)

definition sample_fixed :: cbb where
  "sample_fixed = \<lparr>cb_buf = replicate 6 0xee, cb_len = 0, cb_can_resize = False, cb_error = False,
     cb_children = []\<rparr>"

lemma repr_fixed:
  assumes "length buf < 2 ^ 63" and "CBB_init_fixed m buf = Some s"
  shows "repr s ([], []) \<and> \<not> cb_can_resize s \<and> cb_cap s = length buf"
  using assms by (auto simp: CBB_init_fixed_def repr_def holds_def flat_def cb_cap_def split: if_splits)

lemma repr_sample_fixed: "repr sample_fixed ([], [])"
  by (simp add: sample_fixed_def repr_def holds_def flat_def cb_cap_def)

lemma sample_init: "n < 2 ^ 62 \<Longrightarrow> \<exists>s. CBB_init sample_malloc n = Some s \<and> cb_cap s = n"
proof -
  assume n: "n < 2 ^ 62"
  have "unat (of_nat n + OPENSSL_MALLOC_PREFIX :: u64) = n + 8"
    using n by (simp add: unat_add_prefix unat_of_nat)
  then have "alloc_bytes sample_malloc n = Some (replicate n 0xaa)"
    using n by (simp add: alloc_bytes_def OPENSSL_malloc_def sample_malloc_def)
  moreover have "OPENSSL_malloc sample_malloc 32 \<noteq> None"
    by (simp add: OPENSSL_malloc_def sample_malloc_def unat_add_prefix)
  ultimately show ?thesis by (simp add: CBB_init_def cb_cap_def)
qed

theorem cbb_run_refines_witness:
  "\<exists>s s'. CBB_init sample_malloc 1 = Some s \<and> cb_cap s = 1
     \<and> cbb_run sample_malloc [AddAsn1 0 CBS_ASN1_OCTETSTRING, ReserveWrite 1 20 [7], Flush 0] s = (True, s')
     \<and> repr s' ([4, 1, 7], [])"
proof -
  let ?ops = "[AddAsn1 0 CBS_ASN1_OCTETSTRING, ReserveWrite 1 20 [7], Flush 0]"
  have t: "der_tag CBS_ASN1_OCTETSTRING = [4]"
    by (simp add: der_tag_def CBS_ASN1_OCTETSTRING_def Let_def)
  have sp: "sp_run ?ops ([], []) = Some ([4, 1, 7], [])" "peak ?ops ([], []) = 22"
    by (simp_all add: sp_open_def sp_add_def sp_append_def t open_child_def add_top_def
        close_frame_def der_len_def flat_def frame_bytes_def)
  obtain s where s: "CBB_init sample_malloc 1 = Some s" "cb_cap s = 1" using sample_init [of 1] by auto
  note init = CBB_init_repr [OF sample_malloc_ok s(1)]
  have "\<not> no_room sample_malloc s 22"
    using init by (intro room_granted) (simp_all add: sample_malloc_def)
  moreover have "list_all op_ok ?ops" by simp
  moreover obtain ok s' where run: "cbb_run sample_malloc ?ops s = (ok, s')" by fastforce
  ultimately have "ok \<and> repr s' ([4, 1, 7], [])"
    using cbb_run_refines [OF sample_malloc_ok init(1), of ?ops] sp
    by (cases ok) simp_all
  then show ?thesis using s run by (intro exI [of _ s] exI [of _ s']) simp
qed

text \<open>
  C4: with a fixed buffer a sequence of calls succeeds exactly when the specification has a
  result and no intermediate state needs more than the capacity: the buffer is never exceeded
  and never given up early.
\<close>

theorem cbb_run_fixed_exact:
  assumes "malloc_ok m" and "CBB_init_fixed m buf = Some s" and "length buf < 2 ^ 63"
    and "list_all op_ok ops"
  shows "fst (cbb_run m ops s) \<longleftrightarrow> sp_run ops ([], []) \<noteq> None \<and> peak ops ([], []) \<le> length buf"
proof -
  have r: "repr s ([], [])" "\<not> cb_can_resize s" "cb_cap s = length buf"
    using repr_fixed assms(2,3) by blast+
  show ?thesis
    using cbb_run_result [OF assms(1) r(1) assms(4)] cbb_run_peak [OF assms(1) r(1) assms(4) r(2)] r(2,3)
    by (auto simp: result_def no_room_def split: if_splits)
qed

theorem cbb_run_fixed_exact_witness:
  "\<not> fst (cbb_run sample_malloc [AddU16 0 1, AddU24 0 5, AddU16 0 1]
     \<lparr>cb_buf = replicate 6 0, cb_len = 0, cb_can_resize = False, cb_error = False, cb_children = []\<rparr>)"
proof -
  let ?ops = "[AddU16 0 1, AddU24 0 5, AddU16 0 1]"
  have i: "CBB_init_fixed sample_malloc (replicate 6 0) =
    Some \<lparr>cb_buf = replicate 6 0, cb_len = 0, cb_can_resize = False, cb_error = False, cb_children = []\<rparr>"
    by (simp add: CBB_init_fixed_def OPENSSL_malloc_def sample_malloc_def OPENSSL_MALLOC_PREFIX_def)
  have "peak ?ops ([], []) = 7"
    by (simp add: sp_add_def sp_append_def add_top_def flat_def)
  then show ?thesis
    using cbb_run_fixed_exact [OF sample_malloc_ok i, of ?ops] by simp
qed

definition is_discard :: "cbb_op \<Rightarrow> bool" where
  "is_discard op = (case op of DiscardChild _ \<Rightarrow> True | _ \<Rightarrow> False)"

definition fails :: "(cbb \<Rightarrow> bool \<times> cbb) \<Rightarrow> cbb \<Rightarrow> bool" where
  "fails f s \<longleftrightarrow> fst (f s) = False \<and> cb_error (snd (f s))"

lemma fails_and_then: "fails f s \<Longrightarrow> fails (and_then f g) s"
  by (auto simp: fails_def and_then_def split: prod.splits bool.splits)

lemma fails_flush: "cb_error s \<Longrightarrow> fails (CBB_flush m d) s"
proof -
  assume e: "cb_error s"
  obtain ok cs s' where r: "cbb_flush_chain m (drop d (cb_children s)) s = (ok, cs, s')"
    by (metis prod_cases3)
  then have "\<not> ok" "s' = s" using e by (cases "drop d (cb_children s)"; auto)+
  then show ?thesis using r e by (auto simp: CBB_flush_def fails_def)
qed

lemma fails_step:
  assumes e: "cb_error s" and d: "\<not> is_discard op"
  shows "fails (cbb_step m op) s"
proof -
  note fl = fails_flush [OF e]
  have fl_and: "fails (and_then (CBB_flush m d) g) s" for d g using fl by (rule fails_and_then)
  have "fails (CBB_add_asn1 m d t) s" for d t
    unfolding CBB_add_asn1_def Let_def append_Cons all_ok_Cons by (rule fl_and)
  note asn1 = this fails_and_then [OF this]
  have reserve: "fails (reserve_and_write m d n xs) s" for d n xs
    using fails_flush [OF e, of m d]
    by (auto simp: fails_def reserve_and_write_def CBB_reserve_def split: prod.splits bool.splits)
  show ?thesis
    using d by (cases op)
      (auto simp: fl fl_and asn1 is_discard_def CBB_add_bytes_def CBB_add_u8_def CBB_add_u16_def
        CBB_add_u24_def CBB_add_u32_def CBB_add_u64_def CBB_add_u8_length_prefixed_def
        CBB_add_u16_length_prefixed_def CBB_add_u24_length_prefixed_def cbb_add_length_prefixed_def
        CBB_add_asn1_uint64_def CBB_add_asn1_int64_def CBB_add_asn1_octet_string_def
        CBB_add_asn1_bool_def CBB_add_u16le_def CBB_add_u32le_def CBB_add_u64le_def fill_space_eq
        CBB_add_asn1_oid_from_text_def reserve Let_def all_ok_Cons simp del: all_ok_simps all_ok.simps upt_Suc)
qed

text \<open>
  Every operation of \<open>cbb.c\<close> on an existing writer but \<open>CBB_finish\<close> and \<open>CBB_cleanup\<close>: those
  above, and the ones that have no counterpart on stacks.
\<close>

datatype cbb_call =
    Op cbb_op
  | FlushSetOf "cbs qsort" nat
  | Space nat nat
  | Reserve nat nat
  | DidWrite nat nat

fun call_step :: "libc \<Rightarrow> cbb_call \<Rightarrow> cbb \<Rightarrow> bool \<times> cbb" where
  "call_step m (Op op) s = cbb_step m op s"
| "call_step m (FlushSetOf qs d) s = CBB_flush_asn1_set_of m qs d s"
| "call_step m (Space d n) s = (case CBB_add_space m d n s of (off, s) \<Rightarrow> (off \<noteq> None, s))"
| "call_step m (Reserve d n) s = (case CBB_reserve m d n s of (off, s) \<Rightarrow> (off \<noteq> None, s))"
| "call_step m (DidWrite d n) s = CBB_did_write d n s"

text \<open>The calls that do not look at the error flag.\<close>

definition ignores_error :: "cbb_call \<Rightarrow> bool" where
  "ignores_error c = (case c of Op op \<Rightarrow> is_discard op | DidWrite d n \<Rightarrow> True | _ \<Rightarrow> False)"

definition after_calls :: "(libc \<times> cbb_call) list \<Rightarrow> cbb \<Rightarrow> cbb" where
  "after_calls calls s = foldl (\<lambda>s (m, c). snd (call_step m c s)) s calls"

lemma call_step_error:
  assumes e: "cb_error s"
  shows "cb_error (snd (call_step m c s))" and "\<not> ignores_error c \<Longrightarrow> \<not> fst (call_step m c s)"
proof -
  have step: "fails (cbb_step m op) s" if "\<not> is_discard op" for op using e that by (rule fails_step)
  have discard: "cb_error (snd (cbb_step m op s))" if "is_discard op" for op
    using that e by (cases op) (auto simp: is_discard_def CBB_discard_child_def split: list.splits)
  have fl: "fails (CBB_flush m d) s" for d using e by (rule fails_flush)
  have "fails (CBB_flush_asn1_set_of m qs d) s" for qs d
    unfolding CBB_flush_asn1_set_of_def using fl by (rule fails_and_then)
  note set_of = this
  have fl': "CBB_flush m d s = (g, s1) \<Longrightarrow> \<not> g \<and> cb_error s1" for d g s1
    using fl [of d] by (simp add: fails_def)
  show "cb_error (snd (call_step m c s))"
  proof (cases c)
    case (Op op)
    then show ?thesis using step [of op] discard [of op] by (cases "is_discard op") (simp_all add: fails_def)
  qed (use set_of e in \<open>auto simp: fails_def CBB_add_space_def CBB_reserve_def CBB_did_write_def Let_def
      split: prod.splits bool.splits dest!: fl'\<close>)
  show "\<not> fst (call_step m c s)" if "\<not> ignores_error c"
    using that step set_of
    by (cases c) (auto simp: ignores_error_def fails_def CBB_add_space_def CBB_reserve_def
        split: prod.splits bool.splits dest!: fl')
qed

lemma after_calls_error: "cb_error s \<Longrightarrow> cb_error (after_calls calls s)"
  unfolding after_calls_def
  by (induction calls arbitrary: s) (auto simp: call_step_error(1) split: prod.splits)

text \<open>
  C17: an error is final. Whatever calls are made on a writer with the error flag set, with
  whatever allocators and handles, the flag stays set, every further call fails and
  \<open>CBB_finish\<close> hands out no output. Two calls do not look at the flag: \<open>CBB_discard_child\<close>,
  which has no result, and \<open>CBB_did_write\<close>, which may report success; they do not clear it.
\<close>

theorem cbb_error_sticks:
  assumes "cb_error s"
  shows "cb_error (after_calls calls s)
    \<and> (\<forall>m c. ignores_error c \<or> fst (call_step m c (after_calls calls s)) = False)
    \<and> (\<forall>m d out_data out_len. fst (CBB_finish m d out_data out_len (after_calls calls s)) = None)"
proof -
  have e: "cb_error (after_calls calls s)" using assms by (rule after_calls_error)
  have "fst (CBB_finish m d od ol (after_calls calls s)) = None" for m d od ol
    using fails_flush [OF e, of m 0] by (auto simp: CBB_finish_def fails_def split: prod.splits bool.splits)
  then show ?thesis using e call_step_error(2) [OF e] by blast
qed

theorem cbb_error_sticks_witness:
  "\<exists>s'. cbb_step sample_malloc (AddBytes 0 [1, 2, 3, 4, 5, 6, 7]) sample_fixed = (False, s')
    \<and> fst (cbb_step sample_malloc (AddU8 0 1) (snd (cbb_step sample_malloc (DiscardChild 0) s'))) = False
    \<and> fst (CBB_finish sample_malloc 0 True True (snd (cbb_step sample_malloc (DiscardChild 0) s'))) = None"
proof -
  let ?s = "sample_fixed\<lparr>cb_error := True\<rparr>"
  have fail: "cbb_step sample_malloc (AddBytes 0 [1, 2, 3, 4, 5, 6, 7]) sample_fixed = (False, ?s)"
    by (simp add: CBB_add_bytes_def and_then_def CBB_flush_def sample_fixed_def cbb_buffer_add_def
        cbb_buffer_reserve_def cb_cap_def set_error_def)
  let ?t = "after_calls [(sample_malloc, Op (DiscardChild 0))] ?s"
  have t: "snd (cbb_step sample_malloc (DiscardChild 0) ?s) = ?t" by (simp add: after_calls_def)
  have e: "cb_error ?s" by simp
  note sticks = cbb_error_sticks [OF e, of "[(sample_malloc, Op (DiscardChild 0))]"]
  have "\<not> ignores_error (Op (AddU8 0 1))" by (simp add: ignores_error_def is_discard_def)
  then have "fst (call_step sample_malloc (Op (AddU8 0 1)) ?t) = False" using sticks by blast
  moreover have "fst (CBB_finish sample_malloc 0 True True ?t) = None" using sticks by blast
  ultimately show ?thesis using fail unfolding t [symmetric] by (auto simp del: cbb_step.simps)
qed

text \<open>
  \<open>CBB_did_write\<close> after an error: it reports success, although the documentation of \<open>CBB\<close> says
  that all future operations fail.
\<close>

lemma did_write_after_error:
  "CBB_did_write 0 2 (sample_fixed\<lparr>cb_error := True\<rparr>)
     = (True, sample_fixed\<lparr>cb_error := True, cb_len := 2\<rparr>)"
  by (simp add: CBB_did_write_def sample_fixed_def cb_cap_def)

lemma CBB_finish_SomeD:
  assumes "malloc_ok m" and "repr s (x, fs)" and "cb_can_resize s"
    and "CBB_finish m 0 True True s = (Some (buf, n), r)"
  shows "\<exists>y. squash fs = Some y \<and> CBS_init buf n = x @ y"
  using CBB_finish_repr [OF assms(1-3)] assms(4) by (auto simp: CBS_init_def)

text \<open>
  C3: writing and reading are inverse. A SEQUENCE of two integers, an octet string and a
  boolean, written through a child and closed by \<open>CBB_finish\<close>, is read back by the parser
  with the same values and nothing left over.
\<close>

theorem CBB_CBS_roundtrip:
  assumes m: "malloc_ok m" and i: "CBB_init m n = Some s" "n + 8 < 2 ^ 64"
    and xs: "length xs \<le> 0xfffffffe"
    and run: "cbb_run m [AddAsn1 0 CBS_ASN1_SEQUENCE, AddInt64 1 v, AddUint64 1 w,
      AddOctetString 1 xs, AddBool 1 b] s = (True, s')"
    and fin: "CBB_finish m 0 True True s' = (Some (buf, len), r)"
  shows "\<exists>body s1 s2 s3. CBS_get_asn1 CBS_ASN1_SEQUENCE (CBS_init buf len) = (Some body, [])
     \<and> CBS_get_asn1_int64 body = (Some v, s1) \<and> CBS_get_asn1_uint64 s1 = (Some w, s2)
     \<and> CBS_get_asn1 CBS_ASN1_OCTETSTRING s2 = (Some xs, s3)
     \<and> CBS_get_asn1_bool s3 = (Some (if b \<noteq> 0 then 1 else 0), [])"
proof -
  let ?ops = "[AddAsn1 0 CBS_ASN1_SEQUENCE, AddInt64 1 v, AddUint64 1 w, AddOctetString 1 xs, AddBool 1 b]"
  let ?i = "der_element CBS_ASN1_INTEGER (der_int v)"
  let ?u = "der_element CBS_ASN1_INTEGER (der_uint (unat w))"
  let ?o = "der_element CBS_ASN1_OCTETSTRING xs"
  let ?b = "der_element CBS_ASN1_BOOLEAN [if b \<noteq> 0 then 0xff else 0]"
  let ?body = "?i @ ?u @ ?o @ ?b"
  note init = CBB_init_repr [OF m i]
  have sp: "sp_run ?ops ([], []) = Some (der_tag CBS_ASN1_SEQUENCE, [(1, True, ?body)])"
    by (simp add: sp_open_def sp_add_def sp_append_def open_child_def add_top_def)
  have "list_all op_ok ?ops" using xs by simp
  then have r': "repr s' (der_tag CBS_ASN1_SEQUENCE, [(1, True, ?body)])" "cb_can_resize s'"
    using cbb_run_result [OF m init(1), of ?ops] run sp init(2) by (auto simp: result_def same_kind_def)
  obtain y where "squash [(1, True, ?body)] = Some y" "CBS_init buf len = der_tag CBS_ASN1_SEQUENCE @ y"
    using CBB_finish_SomeD [OF m r' fin] by blast
  then have out: "CBS_init buf len = der_element CBS_ASN1_SEQUENCE ?body" "length ?body \<le> 0xfffffffe"
    by (auto simp: close_frame_def der_element_def der_header_def split: if_splits)
  have seq: "CBS_get_asn1 CBS_ASN1_SEQUENCE (CBS_init buf len) = (Some ?body, [])"
    using out by (subst get_asn1_iff) auto
  have int: "CBS_get_asn1_int64 ?body = (Some v, ?u @ ?o @ ?b)" by (rule asn1_int64.get_enc) simp
  have uint: "CBS_get_asn1_uint64 (?u @ ?o @ ?b) = (Some w, ?o @ ?b)" by (rule asn1_uint64.get_enc) simp
  have oct: "CBS_get_asn1 CBS_ASN1_OCTETSTRING (?o @ ?b) = (Some xs, ?b)"
    using xs by (subst get_asn1_iff) auto
  have "CBS_get_asn1 CBS_ASN1_BOOLEAN (?b @ []) = (Some [if b \<noteq> 0 then 0xff else 0], [])"
    by (subst get_asn1_iff) auto
  then have "CBS_get_asn1_bool ?b = (Some (if b \<noteq> 0 then 1 else 0), [])"
    by (simp add: CBS_get_asn1_bool_def CBS_len_def CBS_data_def)
  then show ?thesis using seq int uint oct by blast
qed

text \<open>
  C15: the OID writer accepts exactly the canonical dotted texts of valid identifiers, and
  then appends exactly their contents octets.
\<close>

theorem CBB_add_asn1_oid_from_text_exact:
  assumes "malloc_ok m" and "repr s st" and "length (snd st) = d"
  shows "case CBB_add_asn1_oid_from_text m d tx len s of
      (True, s') \<Rightarrow> \<exists>cs. oid_valid cs \<and> take len tx = dotted cs \<and> repr s' (add_top (oid_contents cs) st)
    | (False, _) \<Rightarrow> \<forall>cs. oid_valid cs \<longrightarrow> take len tx = dotted cs \<longrightarrow>
        no_room m s (length (flat st @ oid_contents cs))"
proof -
  have eq: "CBB_add_asn1_oid_from_text m d tx len =
      CBB_add_asn1_oid_from_text m d (take len tx) (length (take len tx))"
    by (simp only: CBB_add_asn1_oid_from_text_def CBS_init_def take_all order.refl)
  have valid: "outcome m s (Some (add_top (oid_contents cs) st)) (CBB_add_asn1_oid_from_text m d tx len s)"
    if "oid_valid cs" "take len tx = dotted cs" for cs
    using appendsD [OF oid_from_text_valid [OF assms(1) that(1), of d] assms(2)] assms(3) that(2)
    unfolding eq by (simp add: sp_append_full)
  obtain ok s' where r: "CBB_add_asn1_oid_from_text m d tx len s = (ok, s')" by fastforce
  show ?thesis
  proof (cases ok)
    case True
    then obtain cs where cs: "oid_valid cs" "take len tx = dotted cs"
      using oid_from_text_True [of m d tx len s] r by auto
    then have "repr s' (add_top (oid_contents cs) st)"
      using valid [OF cs] r True by (simp add: outcome_def)
    then show ?thesis using r True cs by auto
  next
    case False
    then show ?thesis using r valid by (auto simp: outcome_def)
  qed
qed

text \<open>
  C14: printing undoes parsing. Contents octets written from a text are printed as the same
  text, whatever text the writer accepted.
\<close>

theorem oid_text_roundtrip:
  assumes m: "malloc_ok m" "malloc_ok m'" and i: "CBB_init m n = Some s" "n + 8 < 2 ^ 64"
    and w: "CBB_add_asn1_oid_from_text m 0 tx len s = (True, s')"
    and fin: "CBB_finish m 0 True True s' = (Some (buf, k), r)"
    and p: "CBS_asn1_oid_to_text m' (CBS_init buf k) = Some printed"
  shows "cstr printed = take len tx"
proof -
  note init = CBB_init_repr [OF m(1) i]
  obtain cs where cs: "oid_valid cs" "take len tx = dotted cs"
    using oid_from_text_True [of m 0 tx len s] w by auto
  have "CBB_add_asn1_oid_from_text m 0 (dotted cs) (length (dotted cs)) s = (True, s')"
    using w cs(2) by (simp add: CBB_add_asn1_oid_from_text_def CBS_init_def)
  then have r': "repr s' (oid_contents cs, [])" "cb_can_resize s'"
    using appendsD [OF oid_from_text_valid [OF m(1) cs(1)] init(1), of 0] init(2)
    by (auto simp: outcome_def sp_append_def same_kind_def)
  then have buf: "CBS_init buf k = oid_contents cs"
    using CBB_finish_SomeD [OF m(1) r' fin] by simp
  obtain v0 :: u64 and vs where v: "oid_contents cs = concat (map (\<lambda>v. b128 (unat v)) (v0 # vs))"
    "unpack (map unat (v0 # vs)) = cs"
    using unpack_inverse [OF cs(1)] by blast
  have "cstr printed = dotted (unpack (map unat (v0 # vs)))"
    using oid_to_text_codes [OF m(2), of v0 vs] p unfolding buf v(1) by simp
  then show ?thesis using v(2) cs(2) by simp
qed

text \<open>
  C16: the OID printer accepts exactly the sequences of minimal base-128 integers of 64 bits
  and prints their components. A valid input is refused only if the allocator refused the 40
  bytes of the initial writer or its buffer, or a request for a larger buffer of at most twice
  the text: with an allocator that grants those every valid input is printed.
\<close>

theorem CBS_asn1_oid_to_text_exact:
  assumes "malloc_ok m"
  shows "case CBS_asn1_oid_to_text m cbs of
      Some printed \<Rightarrow> \<exists>v vs :: u64 list. cbs = concat (map (\<lambda>v. b128 (unat v)) (v # vs))
        \<and> cstr printed = dotted (unpack (map unat (v # vs))) \<and> 0 \<in> set printed
    | None \<Rightarrow> (\<forall>v vs :: u64 list. cbs = concat (map (\<lambda>v. b128 (unat v)) (v # vs)) \<longrightarrow>
        m 40 = None \<or> (let n = Suc (length (dotted (unpack (map unat (v # vs)))))
          in 32 < n \<and> (\<exists>k. 40 < k \<and> k \<le> 2 * n + 8 \<and> m k = None)))"
proof (cases "CBS_asn1_oid_to_text m cbs")
  case None
  have "m 40 = None \<or> (let n = Suc (length (dotted (unpack (map unat (v # vs)))))
      in 32 < n \<and> (\<exists>k. 40 < k \<and> k \<le> 2 * n + 8 \<and> m k = None))"
    if "cbs = concat (map (\<lambda>v. b128 (unat v)) (v # vs))" for v :: u64 and vs
    using oid_to_text_codes [OF assms, of v vs] None unfolding that by (simp only: option.case)
  then show ?thesis using None by (simp only: option.case) blast
next
  case (Some printed)
  obtain v :: u64 and vs where "cbs = concat (map (\<lambda>v. b128 (unat v)) (v # vs))"
    using oid_to_text_Some [OF Some] by blast
  then show ?thesis using oid_to_text_codes [OF assms, of v vs] Some by auto
qed

section \<open>Witnesses and further properties\<close>

lemma sample_run:
  assumes "list_all op_ok ops" and "sp_run ops ([], []) = Some (x, fs)" and "squash fs = Some y"
    and "peak ops ([], []) \<le> n" and "length (x @ y) \<le> n" and "n < 2 ^ 62"
  shows "\<exists>s s' buf. CBB_init sample_malloc n = Some s \<and> cbb_run sample_malloc ops s = (True, s')
     \<and> CBB_finish sample_malloc 0 True True s' = (Some (buf, length (x @ y)), None)"
proof -
  obtain s where s: "CBB_init sample_malloc n = Some s" "cb_cap s = n" using sample_init assms(6) by blast
  have "n + 8 < 2 ^ 64" using assms(6) by simp
  note init = CBB_init_repr [OF sample_malloc_ok s(1) this]
  obtain ok s' where run: "cbb_run sample_malloc ops s = (ok, s')" by fastforce
  have res: "result sample_malloc s (sp_run ops ([], [])) (peak ops ([], [])) (ok, s')"
    using cbb_run_result [OF sample_malloc_ok init(1) assms(1)] run by simp
  have ok: "ok" using res assms(2,4) s(2) by (auto simp: result_def no_room_def split: if_splits)
  have s': "repr s' (x, fs)" "cb_can_resize s'" "n \<le> cb_cap s'"
    using res ok assms(2) init(2) s(2) by (auto simp: result_def same_kind_def)
  have "\<not> no_room sample_malloc s' (length (x @ y))" using assms(5) s'(3) by (simp add: no_room_def)
  then obtain buf where "CBB_finish sample_malloc 0 True True s' = (Some (buf, length (x @ y)), None)"
    using CBB_finish_repr [OF sample_malloc_ok s'(1,2)] assms(3) by auto
  then show ?thesis using s(1) run ok by (intro exI [of _ s] exI [of _ s'] exI [of _ buf]) simp
qed

theorem CBB_CBS_roundtrip_witness:
  "\<exists>buf len body s1 s2 s3. CBS_get_asn1 CBS_ASN1_SEQUENCE (CBS_init buf len) = (Some body, [])
     \<and> CBS_get_asn1_int64 body = (Some 7, s1) \<and> CBS_get_asn1_uint64 s1 = (Some 9, s2)
     \<and> CBS_get_asn1 CBS_ASN1_OCTETSTRING s2 = (Some [1, 2], s3)
     \<and> CBS_get_asn1_bool s3 = (Some 1, [])"
proof -
  let ?ops = "[AddAsn1 0 CBS_ASN1_SEQUENCE, AddInt64 1 7, AddUint64 1 9,
      AddOctetString 1 [1, 2], AddBool 1 1]"
  have tags: "der_tag CBS_ASN1_SEQUENCE = [48]" "der_tag CBS_ASN1_INTEGER = [2]"
    "der_tag CBS_ASN1_OCTETSTRING = [4]" "der_tag CBS_ASN1_BOOLEAN = [1]"
    by (simp_all add: der_tag_def CBS_ASN1_SEQUENCE_def CBS_ASN1_INTEGER_def CBS_ASN1_BOOLEAN_def
        CBS_ASN1_OCTETSTRING_def CBS_ASN1_CONSTRUCTED_def CBS_ASN1_TAG_SHIFT_def Let_def)
  have "der_uint 7 = [7]" "der_uint 9 = [9]"
    by (simp_all add: der_uint_def base256.simps)
  then have ints: "der_int 7 = [7]" "der_uint 9 = [9]" by (simp_all add: der_int_def)
  let ?body = "[2, 1, 7, 2, 1, 9, 4, 2, 1, 2, 1, 1, 255] :: byte list"
  have sp: "sp_run ?ops ([], []) = Some ([48], [(1, True, ?body)])"
    by (simp add: sp_open_def sp_add_def sp_append_def open_child_def add_top_def tags ints
        der_element_def der_header_def der_len_def)
  have pk: "peak ?ops ([], []) \<le> 64"
    by (simp add: sp_open_def sp_add_def sp_append_def open_child_def add_top_def tags ints
        der_element_def der_header_def der_len_def flat_def frame_bytes_def)
  have sq: "squash [(1, True, ?body)] = Some (13 # ?body)"
    by (simp add: close_frame_def der_len_def)
  obtain s s' buf where "CBB_init sample_malloc 64 = Some s" "cbb_run sample_malloc ?ops s = (True, s')"
    "CBB_finish sample_malloc 0 True True s' = (Some (buf, length ([48] @ 13 # ?body)), None)"
    using sample_run [OF _ sp sq pk] by auto
  then show ?thesis
    using CBB_CBS_roundtrip [OF sample_malloc_ok, of 64 s "[1, 2]" 7 9 1 s' buf] by fastforce
qed

lemma sample_text: "dotted [1, 2, 840] = [49, 46, 50, 46, 56, 52, 48]"
  by (simp add: decimal.simps)

lemma sample_contents: "oid_contents [1, 2, 840] = [42, 134, 72]" "oid_valid [1, 2, 840]"
  by (simp_all add: oid_contents_def oid_valid_def b128_def b128_hi.simps)

theorem CBB_add_asn1_oid_from_text_exact_witness:
  "\<exists>s'. CBB_add_asn1_oid_from_text sample_malloc 0 [49, 46, 50, 46, 56, 52, 48] 7 sample_fixed = (True, s')
     \<and> repr s' ([42, 134, 72], [])"
proof -
  let ?w = "CBB_add_asn1_oid_from_text sample_malloc 0 [49, 46, 50, 46, 56, 52, 48] 7 sample_fixed"
  have t: "take 7 [49, 46, 50, 46, 56, 52, 48] = dotted [1, 2, 840]" unfolding sample_text by simp
  have room: "\<not> no_room sample_malloc sample_fixed (length (flat ([], []) @ oid_contents [1, 2, 840]))"
    unfolding sample_contents(1) by (simp add: no_room_def sample_fixed_def cb_cap_def flat_def)
  obtain ok s' where r: "?w = (ok, s')" by fastforce
  have x: "case ?w of (True, s') \<Rightarrow> \<exists>cs. oid_valid cs \<and> take 7 [49, 46, 50, 46, 56, 52, 48] = dotted cs
        \<and> repr s' (add_top (oid_contents cs) ([], []))
    | (False, _) \<Rightarrow> \<forall>cs. oid_valid cs \<longrightarrow> take 7 [49, 46, 50, 46, 56, 52, 48] = dotted cs \<longrightarrow>
        no_room sample_malloc sample_fixed (length (flat ([], []) @ oid_contents cs))"
    by (rule CBB_add_asn1_oid_from_text_exact [OF sample_malloc_ok repr_sample_fixed]) simp
  then have ok using r t room sample_contents(2) by (cases ok) auto
  then obtain cs where cs: "oid_valid cs" "dotted [1, 2, 840] = dotted cs"
    "repr s' (oid_contents cs, [])"
    using x r t by auto
  have "cs = [1, 2, 840]"
    using cs(1,2) dotted_inj [of "[1, 2, 840]" cs]
    by (auto simp: oid_valid_def split: list.splits)
  then show ?thesis using r \<open>ok\<close> cs(3) sample_contents(1) by auto
qed

lemma sample_print: "\<exists>printed. CBS_asn1_oid_to_text sample_malloc [42, 134, 72] = Some printed"
proof -
  have codes: "concat (map (\<lambda>v. b128 (unat v)) [42 :: u64, 840]) = [42, 134, 72]"
    by (simp add: b128_def b128_hi.simps)
  have up: "unpack (map unat [42 :: u64, 840]) = [1, 2, 840]" by (simp add: unpack_def)
  show ?thesis
    using oid_to_text_codes [OF sample_malloc_ok, of 42 "[840]"]
    unfolding codes up sample_text
    by (cases "CBS_asn1_oid_to_text sample_malloc [42, 134, 72]") (auto simp: sample_malloc_def)
qed

theorem oid_text_roundtrip_witness:
  "\<exists>buf k printed. CBS_asn1_oid_to_text sample_malloc (CBS_init buf k) = Some printed
     \<and> cstr printed = [49, 46, 50, 46, 56, 52, 48]"
proof -
  let ?t = "[49, 46, 50, 46, 56, 52, 48] :: byte list"
  obtain s where s: "CBB_init sample_malloc 64 = Some s" "cb_cap s = 64" using sample_init [of 64] by auto
  note init = CBB_init_repr [OF sample_malloc_ok s(1)]
  obtain ok s' where w: "CBB_add_asn1_oid_from_text sample_malloc 0 ?t 7 s = (ok, s')" by fastforce
  have l: "length ?t = 7" by simp
  have out: "outcome sample_malloc s (Some ([42, 134, 72], [])) (ok, s')"
    using appendsD [OF oid_from_text_valid [OF sample_malloc_ok sample_contents(2), of 0] init(1)] w
    unfolding sample_text sample_contents(1) l by (simp add: sp_append_def)
  have ok: ok using out s(2) by (auto simp: outcome_def no_room_def flat_def split: if_splits)
  then have s': "repr s' ([42, 134, 72], [])" "cb_can_resize s'" "64 \<le> cb_cap s'"
    using out init(2) s(2) by (auto simp: outcome_def same_kind_def)
  obtain buf where buf: "CBB_finish sample_malloc 0 True True s' = (Some (buf, 3), None)"
    "take 3 buf = [42, 134, 72]"
    using CBB_finish_repr [OF sample_malloc_ok s'(1,2)] s'(3) by (auto simp: no_room_def numeral_3_eq_3)
  obtain printed where p: "CBS_asn1_oid_to_text sample_malloc (CBS_init buf 3) = Some printed"
    using sample_print buf(2) by (auto simp: CBS_init_def)
  have w': "CBB_add_asn1_oid_from_text sample_malloc 0 ?t 7 s = (True, s')" using w ok by simp
  have "cstr printed = take 7 ?t"
    by (rule oid_text_roundtrip [OF sample_malloc_ok sample_malloc_ok s(1) _ w' buf(1) p]) simp
  then show ?thesis using p by auto
qed

theorem CBS_asn1_oid_to_text_exact_witness:
  "\<exists>printed v vs :: u64 list. CBS_asn1_oid_to_text sample_malloc [42, 134, 72] = Some printed
     \<and> [42, 134, 72] = concat (map (\<lambda>v. b128 (unat v)) (v # vs))
     \<and> cstr printed = dotted (unpack (map unat (v # vs)))"
proof -
  obtain printed where p: "CBS_asn1_oid_to_text sample_malloc [42, 134, 72] = Some printed"
    using sample_print by blast
  then show ?thesis
    using CBS_asn1_oid_to_text_exact [OF sample_malloc_ok, of "[42, 134, 72]"] by auto
qed

text \<open>
  C5: flushing a SET OF keeps the elements and puts them in ascending order of their
  encodings: whatever order \<open>qsort\<close> gives equal elements, the result is the unique sorted
  permutation. It fails, changing nothing, only on contents that are not a sequence of DER
  elements or for want of memory.
\<close>

theorem CBB_flush_asn1_set_of_sorts:
  assumes "malloc_ok m" and "qsort_ok qs compare_set_of_element"
    and "repr s st" and "length (snd st) = d"
  shows "case CBB_flush_asn1_set_of m qs d s of
     (True, s') \<Rightarrow> (\<exists>els sorted. list_all is_element els \<and> top_content st = concat els
        \<and> mset sorted = mset els \<and> sorted_wrt (\<lambda>a b. byte_cmp a b \<le> 0) sorted
        \<and> repr s' (set_top (concat sorted) st))
   | (False, s') \<Rightarrow> s' = s \<and> (\<forall>els. list_all is_element els \<longrightarrow> top_content st = concat els \<longrightarrow>
        m (length (top_content st) + 8) = None \<or> m (16 * length els + 8) = None
        \<or> 2 ^ 60 \<le> length els)"
proof -
  have ok: "mset (insertion_qsort compare_set_of_element els) = mset els"
    "sorted_wrt (\<lambda>a b. byte_cmp a b \<le> 0) (insertion_qsort compare_set_of_element els)" for els
    using set_of.insertion_qsort_ok by (simp_all add: qsort_ok_def compare_set_of_element_eq)
  obtain ok s' where r: "CBB_flush_asn1_set_of m qs d s = (ok, s')" by fastforce
  then show ?thesis using flush_set_of_outcome [OF assms] ok by (cases ok) fastforce+
qed

theorem CBB_flush_asn1_set_of_sorts_witness:
  "\<exists>els sorted s'. CBB_flush_asn1_set_of sample_malloc insertion_qsort 0
      (sample_fixed\<lparr>cb_buf := [4, 1, 9, 2, 1, 5], cb_len := 6\<rparr>) = (True, s')
    \<and> concat els = [4, 1, 9, 2, 1, 5] \<and> mset sorted = mset els
    \<and> sorted_wrt (\<lambda>a b. byte_cmp a b \<le> 0) sorted \<and> repr s' (concat sorted, [])"
proof -
  let ?s = "sample_fixed\<lparr>cb_buf := [4, 1, 9, 2, 1, 5], cb_len := 6\<rparr>"
  let ?c = "[4, 1, 9, 2, 1, 5] :: byte list" and ?els = "[[4, 1, 9], [2, 1, 5]] :: byte list list"
  have r: "repr ?s (?c, [])"
    by (simp add: sample_fixed_def repr_def holds_def flat_def cb_cap_def)
  have "der_element 4 [9] = [4, 1, 9]" "der_element 2 [5] = [2, 1, 5]"
    by (simp_all add: der_element_def der_header_def der_tag_def der_len_def Let_def)
  then have els: "list_all is_element ?els" "concat ?els = ?c"
    unfolding is_element_def by (simp_all, metis length_Cons list.size(3) one_less_numeral_iff semiring_norm(76) less_numeral_extra(1) One_nat_def)
  have tc: "top_content (?c, []) = ?c" and d: "length (snd (?c, [] :: frame list)) = 0"
    by (simp_all add: top_content_def)
  have m: "sample_malloc 14 \<noteq> None" "sample_malloc 40 \<noteq> None" by (simp_all add: sample_malloc_def)
  obtain ok s' where res: "CBB_flush_asn1_set_of sample_malloc insertion_qsort 0 ?s = (ok, s')" by fastforce
  have x: "case (ok, s') of
     (True, s') \<Rightarrow> (\<exists>els sorted. list_all is_element els \<and> ?c = concat els
        \<and> mset sorted = mset els \<and> sorted_wrt (\<lambda>a b. byte_cmp a b \<le> 0) sorted
        \<and> repr s' (set_top (concat sorted) (?c, [])))
   | (False, s') \<Rightarrow> s' = ?s \<and> (\<forall>els. list_all is_element els \<longrightarrow> ?c = concat els \<longrightarrow>
        sample_malloc (length ?c + 8) = None \<or> sample_malloc (16 * length els + 8) = None
        \<or> 2 ^ 60 \<le> length els)"
    using CBB_flush_asn1_set_of_sorts [OF sample_malloc_ok set_of.insertion_qsort_ok r d]
    unfolding res tc .
  have ok
  proof (rule ccontr)
    assume "\<not> ok"
    then have "list_all is_element ?els \<longrightarrow> ?c = concat ?els \<longrightarrow> sample_malloc (length ?c + 8) = None
        \<or> sample_malloc (16 * length ?els + 8) = None \<or> 2 ^ 60 \<le> length ?els"
      using x by (simp only: prod.case bool.case) blast
    then show False using els m by simp
  qed
  then show ?thesis using x res by (auto simp: set_top_def)
qed

text \<open>The two-step write as its callers use it, at the top of the chain.\<close>

theorem CBB_reserve_did_write:
  assumes m: "malloc_ok m" and r: "repr s st" and d: "length (snd st) = d" and n: "n < 2 ^ 63"
    and res: "CBB_reserve m d n s = (Some off, s')" and xs: "length xs \<le> n"
  shows "\<exists>s''. CBB_did_write d (length xs) (s'\<lparr>cb_buf := overwrite (cb_buf s') off xs\<rparr>) = (True, s'')
    \<and> repr s'' (add_top xs st)"
proof -
  have "CBB_flush m d s = (True, s)" using r d by (simp add: CBB_flush_def repr_def holds_def)
  then show ?thesis using reserved_write [OF m r d n xs] res by (auto simp: CBB_reserve_def)
qed

theorem CBB_reserve_did_write_witness:
  "\<exists>s''. CBB_did_write 0 2 (sample_fixed\<lparr>cb_buf := [8, 9, 0xee, 0xee, 0xee, 0xee]\<rparr>) = (True, s'')
     \<and> repr s'' ([8, 9], [])"
proof -
  have res: "CBB_reserve sample_malloc 0 4 sample_fixed = (Some 0, sample_fixed)"
    by (simp add: CBB_reserve_def CBB_flush_def cbb_buffer_reserve_def sample_fixed_def cb_cap_def)
  have ov: "overwrite (cb_buf sample_fixed) 0 [8, 9] = [8, 9, 0xee, 0xee, 0xee, 0xee]"
    by (simp add: overwrite_def sample_fixed_def numeral_eq_Suc)
  show ?thesis
    using CBB_reserve_did_write [OF sample_malloc_ok repr_sample_fixed _ _ res, of "[8, 9]"]
    unfolding ov by simp (metis One_nat_def Suc_1)
qed

end
