(* ===== verification/ConstTime.thy ===== *)
theory ConstTime
  imports Prelude
begin

text \<open>
  The constant-time selection idioms of \<open>crypto/internal.h\<close> on 64-bit machine words
  (\<open>crypto_word_t\<close>), and what each of them decides. The value barriers are compiler
  hints that return their argument.
\<close>

section \<open>Definitions\<close>

definition value_barrier_w :: "u64 \<Rightarrow> u64" where
  "value_barrier_w a = a"

definition constant_time_msb_w :: "u64 \<Rightarrow> u64" where
  "constant_time_msb_w a = 0 - drop_bit 63 a"

definition constant_time_lt_w :: "u64 \<Rightarrow> u64 \<Rightarrow> u64" where
  "constant_time_lt_w a b = constant_time_msb_w (a XOR ((a XOR b) OR ((a - b) XOR a)))"

definition constant_time_ge_w :: "u64 \<Rightarrow> u64 \<Rightarrow> u64" where
  "constant_time_ge_w a b = NOT (constant_time_lt_w a b)"

definition constant_time_is_zero_w :: "u64 \<Rightarrow> u64" where
  "constant_time_is_zero_w a = constant_time_msb_w (NOT a AND (a - 1))"

definition constant_time_eq_w :: "u64 \<Rightarrow> u64 \<Rightarrow> u64" where
  "constant_time_eq_w a b = constant_time_is_zero_w (a XOR b)"

definition constant_time_eq_8 :: "u64 \<Rightarrow> u64 \<Rightarrow> byte" where
  "constant_time_eq_8 a b = ucast (constant_time_eq_w a b)"

definition constant_time_select_w :: "u64 \<Rightarrow> u64 \<Rightarrow> u64 \<Rightarrow> u64" where
  "constant_time_select_w m a b =
     (value_barrier_w m AND a) OR (value_barrier_w (NOT m) AND b)"

definition constant_time_select_8 :: "byte \<Rightarrow> byte \<Rightarrow> byte \<Rightarrow> byte" where
  "constant_time_select_8 m a b =
     ucast (constant_time_select_w (ucast m) (ucast a) (ucast b))"

section \<open>What they decide\<close>

text \<open>A mask is all ones or all zeros.\<close>

abbreviation mask_w :: "bool \<Rightarrow> u64" where
  "mask_w c \<equiv> (if c then - 1 else 0)"

abbreviation mask_8 :: "bool \<Rightarrow> byte" where
  "mask_8 c \<equiv> (if c then - 1 else 0)"

lemma unat_u64_less: "unat (a :: u64) < 2 ^ 64"
  using unsigned_less [of a] by simp

lemma msb_iff: "bit (a :: u64) 63 \<longleftrightarrow> 2 ^ 63 \<le> unat a"
proof -
  have "unat a < 2 * 2 ^ 63" using unsigned_less [of a] by simp
  then have "unat a div 2 ^ 63 < 2" by (simp only: less_mult_imp_div_less)
  then have "unat a div 2 ^ 63 = 0 \<or> unat a div 2 ^ 63 = 1" by linarith
  then have "odd (unat a div 2 ^ 63) \<longleftrightarrow> unat a div 2 ^ 63 \<noteq> 0" by auto
  also have "\<dots> \<longleftrightarrow> 2 ^ 63 \<le> unat a" by (auto simp: div_eq_0_iff)
  finally have "odd (unat a div 2 ^ 63) \<longleftrightarrow> 2 ^ 63 \<le> unat a" .
  moreover have "bit a 63 \<longleftrightarrow> bit (unat a) 63" by (simp add: bit_unsigned_iff)
  ultimately show ?thesis by (simp only: bit_iff_odd)
qed

lemma msb_word: "constant_time_msb_w a = mask_w (2 ^ 63 \<le> unat a)"
proof -
  have "drop_bit 63 a = (if bit a 63 then 1 else 0)"
  proof (rule bit_word_eqI)
    fix n
    assume "n < LENGTH(64)"
    show "bit (drop_bit 63 a) n = bit (if bit a 63 then 1 else 0 :: u64) n"
      using bit_imp_le_length [of a "63 + n"] by (cases n) (auto simp: bit_simps)
  qed
  then show ?thesis by (simp add: constant_time_msb_w_def msb_iff)
qed

lemma unat_diff_wrap:
  "unat (a - b :: u64) = (if unat b \<le> unat a then unat a - unat b else 2 ^ 64 + unat a - unat b)"
  using unat_u64_less [of b] by (auto simp: unat_sub_if')

lemma lt_word: "constant_time_lt_w a b = mask_w (a < b)"
proof -
  have "bit (a XOR ((a XOR b) OR ((a - b) XOR a))) 63 \<longleftrightarrow>
    (if bit a 63 = bit b 63 then bit (a - b) 63 else bit b 63)"
    by (auto simp: bit_simps)
  also have "\<dots> \<longleftrightarrow> a < b"
    using unat_u64_less [of a] unat_u64_less [of b]
    by (auto simp: msb_iff unat_diff_wrap word_less_nat_alt)
  finally show ?thesis by (simp only: constant_time_lt_w_def msb_word flip: msb_iff)
qed

lemma ge_word: "constant_time_ge_w a b = mask_w (b \<le> a)"
  by (auto simp: constant_time_ge_w_def lt_word)

lemma is_zero_word: "constant_time_is_zero_w a = mask_w (a = 0)"
proof -
  have "bit (NOT a AND (a - 1)) 63 \<longleftrightarrow> \<not> bit a 63 \<and> bit (a - 1) 63"
    by (auto simp: bit_simps)
  also have "\<dots> \<longleftrightarrow> a = 0"
    using unat_u64_less [of a] by (auto simp: msb_iff unat_diff_wrap word_unat_eq_iff)
  finally show ?thesis by (simp only: constant_time_is_zero_w_def msb_word flip: msb_iff)
qed

lemma eq_word: "constant_time_eq_w a b = mask_w (a = b)"
proof -
  have "a XOR b = 0 \<longleftrightarrow> a = b" by (auto simp: bit_eq_iff bit_simps)
  then show ?thesis by (simp add: constant_time_eq_w_def is_zero_word)
qed

lemma eq_byte: "constant_time_eq_8 a b = mask_8 (a = b)"
  by (rule bit_word_eqI) (simp add: constant_time_eq_8_def eq_word bit_simps)

lemma select_word: "constant_time_select_w (mask_w c) a b = (if c then a else b)"
  by (simp add: constant_time_select_w_def value_barrier_w_def)

text \<open>
  The byte version widens the mask with zeros, so the negated mask has ones above the low
  byte; the truncation of the result removes what they select.
\<close>

lemma select_byte: "constant_time_select_8 (mask_8 c) a b = (if c then a else b)"
  by (rule bit_word_eqI)
    (auto simp: constant_time_select_8_def constant_time_select_w_def value_barrier_w_def bit_simps)

end
