(* ===== verification/Base64.thy ===== *)
theory Base64
  imports ConstTime
begin

text \<open>
  The base64 codec of \<open>crypto/base64/base64.c\<close>: the constant-time tables, whole-block
  encoding and decoding, and the streaming interface on an \<open>EVP_ENCODE_CTX\<close>. Every function
  that writes through an output pointer returns the bytes it stores from \<open>out[0]\<close> on, in
  order; a byte stored twice appears with its last value.
\<close>

section \<open>Tables\<close>

definition constant_time_lt_args_8 :: "byte \<Rightarrow> byte \<Rightarrow> byte" where
  "constant_time_lt_args_8 a b = ucast (constant_time_msb_w (ucast a - ucast b))"

definition constant_time_in_range_8 :: "byte \<Rightarrow> byte \<Rightarrow> byte \<Rightarrow> byte" where
  "constant_time_in_range_8 a lo hi = constant_time_lt_args_8 (a - lo) (hi - lo + 1)"

text \<open>Character codes: 0x2B plus, 0x2F slash, 0x30 zero, 0x3D equals, 0x41 A, 0x61 a.\<close>

definition conv_bin2ascii :: "byte \<Rightarrow> byte" where
  "conv_bin2ascii a0 = (
     let a = a0 AND 0x3F;
         ret = constant_time_select_8 (constant_time_eq_8 (ucast a) 62) 0x2B 0x2F;
         ret = constant_time_select_8 (constant_time_lt_args_8 a 62) (a - 52 + 0x30) ret;
         ret = constant_time_select_8 (constant_time_lt_args_8 a 52) (a - 26 + 0x61) ret
     in constant_time_select_8 (constant_time_lt_args_8 a 26) (a + 0x41) ret)"

definition base64_ascii_to_bin :: "byte \<Rightarrow> byte" where
  "base64_ascii_to_bin a = (
     let is_upper = constant_time_in_range_8 a 0x41 0x5A;
         is_lower = constant_time_in_range_8 a 0x61 0x7A;
         is_digit = constant_time_in_range_8 a 0x30 0x39;
         is_plus = constant_time_eq_8 (ucast a) 0x2B;
         is_slash = constant_time_eq_8 (ucast a) 0x2F;
         is_equals = constant_time_eq_8 (ucast a) 0x3D;
         ret = 0xFF;
         ret = constant_time_select_8 is_upper (a - 0x41) ret;
         ret = constant_time_select_8 is_lower (a - 0x61 + 26) ret;
         ret = constant_time_select_8 is_digit (a - 0x30 + 52) ret;
         ret = constant_time_select_8 is_plus 62 ret;
         ret = constant_time_select_8 is_slash 63 ret
     in constant_time_select_8 is_equals 0 ret)"

section \<open>Encoding\<close>

text \<open>\<open>size_t\<close> arithmetic wraps; the three tests detect it.\<close>

definition EVP_EncodedLength :: "u64 \<Rightarrow> u64 option" where
  "EVP_EncodedLength n = (
     if n + 2 < n then None
     else let q = (n + 2) div 3 in
       if drop_bit 2 (push_bit 2 q) \<noteq> q then None
       else let m = push_bit 2 q in
         if m + 1 < m then None else Some (m + 1))"

text \<open>
  The loop of \<open>EVP_EncodeBlock\<close>: the characters and the count \<open>ret\<close>. Afterwards the
  function stores a NUL that the count leaves out.
\<close>

fun encode_block_loop :: "byte list \<Rightarrow> byte list \<times> nat" where
  "encode_block_loop [] = ([], 0)"
| "encode_block_loop [s0] = (
     let l = push_bit 16 (ucast s0 :: u32) in
     ([conv_bin2ascii (ucast (drop_bit 18 l)), conv_bin2ascii (ucast (drop_bit 12 l)),
       0x3D, 0x3D], 4))"
| "encode_block_loop [s0, s1] = (
     let l = push_bit 16 (ucast s0 :: u32) OR push_bit 8 (ucast s1) in
     ([conv_bin2ascii (ucast (drop_bit 18 l)), conv_bin2ascii (ucast (drop_bit 12 l)),
       conv_bin2ascii (ucast (drop_bit 6 l)), 0x3D], 4))"
| "encode_block_loop (s0 # s1 # s2 # src) = (
     let l = push_bit 16 (ucast s0 :: u32) OR push_bit 8 (ucast s1) OR ucast s2;
         (cs, ret) = encode_block_loop src in
     (conv_bin2ascii (ucast (drop_bit 18 l)) # conv_bin2ascii (ucast (drop_bit 12 l)) #
      conv_bin2ascii (ucast (drop_bit 6 l)) # conv_bin2ascii (ucast l) # cs, ret + 4))"

definition EVP_EncodeBlock :: "byte list \<Rightarrow> byte list \<times> nat" where
  "EVP_EncodeBlock src = (let (cs, ret) = encode_block_loop src in (cs @ [0], ret))"

record evp_encode_ctx =
  data_used :: nat
  data :: "byte list"
  eof_seen :: bool
  error_encountered :: bool

definition EVP_EncodeInit :: evp_encode_ctx where
  "EVP_EncodeInit = \<lparr>data_used = 0, data = replicate 48 0, eof_seen = False,
     error_encountered = False\<rparr>"

definition INT_MAX :: nat where
  "INT_MAX = 2 ^ 31 - 1"

text \<open>
  \<open>memcpy\<close> of \<open>bs\<close> to \<open>&dst[i]\<close>, and one encoded line: the newline overwrites the NUL of
  the block and a new NUL follows. The output pointer is left on that NUL, so the next line
  overwrites it.
\<close>

definition memcpy_at :: "byte list \<Rightarrow> nat \<Rightarrow> byte list \<Rightarrow> byte list" where
  "memcpy_at dst i bs = take i dst @ bs @ drop (i + length bs) dst"

definition put_line :: "byte list \<Rightarrow> byte list \<times> nat \<Rightarrow> byte list" where
  "put_line written block = butlast written @ take (snd block) (fst block) @ [0x0A, 0]"

text \<open>
  The loop over full 48-byte lines: the rest of the input, the bytes written and the total,
  which is \<open>None\<close> when the addition wraps.
\<close>

fun encode_lines_loop ::
  "nat \<Rightarrow> byte list \<Rightarrow> byte list \<Rightarrow> byte list \<times> byte list \<times> nat option" where
  "encode_lines_loop tot inp written = (
     if length inp < 48 then (inp, written, Some tot)
     else let block = EVP_EncodeBlock (take 48 inp);
              written' = put_line written block;
              tot' = (tot + snd block + 1) mod size_max1 in
       if tot' < tot then (drop 48 inp, written', None)
       else encode_lines_loop tot' (drop 48 inp) written')"

declare encode_lines_loop.simps [simp del]

definition EVP_EncodeUpdate ::
  "evp_encode_ctx \<Rightarrow> byte list \<Rightarrow> evp_encode_ctx \<times> byte list \<times> nat" where
  "EVP_EncodeUpdate ctx inp = (
     if inp = [] then (ctx, [], 0)
     else if 48 - data_used ctx > length inp
     then (ctx\<lparr>data := memcpy_at (data ctx) (data_used ctx) inp,
               data_used := data_used ctx + length inp\<rparr>, [], 0)
     else
       let (ctx1, inp1, written1, tot1) =
             (if data_used ctx \<noteq> 0
              then let todo = 48 - data_used ctx;
                       d = memcpy_at (data ctx) (data_used ctx) (take todo inp);
                       block = EVP_EncodeBlock d in
                   (ctx\<lparr>data := d, data_used := 0\<rparr>, drop todo inp,
                    put_line [] block, snd block + 1)
              else (ctx, inp, [], 0)) in
       case encode_lines_loop tot1 inp1 written1 of
         (inp2, written2, None) \<Rightarrow> (ctx1, written2, 0)
       | (inp2, written2, Some tot) \<Rightarrow>
           (ctx1\<lparr>data := memcpy_at (data ctx1) 0 inp2, data_used := length inp2\<rparr>, written2,
            if tot > INT_MAX then 0 else tot))"

definition EVP_EncodeFinal :: "evp_encode_ctx \<Rightarrow> evp_encode_ctx \<times> byte list \<times> nat" where
  "EVP_EncodeFinal ctx = (
     if data_used ctx = 0 then (ctx, [], 0)
     else let block = EVP_EncodeBlock (take (data_used ctx) (data ctx)) in
       (ctx\<lparr>data_used := 0\<rparr>, put_line [] block, snd block + 1))"

section \<open>Decoding\<close>

definition EVP_DecodedLength :: "nat \<Rightarrow> nat option" where
  "EVP_DecodedLength n = (if n mod 4 \<noteq> 0 then None else Some (n div 4 * 3))"

definition EVP_DecodeInit :: evp_encode_ctx where
  "EVP_DecodeInit = \<lparr>data_used = 0, data = replicate 48 0, eof_seen = False,
     error_encountered = False\<rparr>"

definition padding_pattern :: "byte \<Rightarrow> byte \<Rightarrow> byte \<Rightarrow> byte \<Rightarrow> nat" where
  "padding_pattern i0 i1 i2 i3 =
     push_bit 3 (of_bool (i0 = 0x3D)) OR push_bit 2 (of_bool (i1 = 0x3D)) OR
     push_bit 1 (of_bool (i2 = 0x3D)) OR of_bool (i3 = 0x3D)"

text \<open>The bytes written are the result; their number is \<open>*out_num_bytes\<close>.\<close>

definition base64_decode_quad :: "byte \<Rightarrow> byte \<Rightarrow> byte \<Rightarrow> byte \<Rightarrow> byte list option" where
  "base64_decode_quad i0 i1 i2 i3 = (
     let a = base64_ascii_to_bin i0;
         b = base64_ascii_to_bin i1;
         c = base64_ascii_to_bin i2;
         d = base64_ascii_to_bin i3 in
     if a = 0xFF \<or> b = 0xFF \<or> c = 0xFF \<or> d = 0xFF then None
     else
       let v = push_bit 18 (ucast a :: u32) OR push_bit 12 (ucast b) OR
               push_bit 6 (ucast c) OR ucast d;
           p = padding_pattern i0 i1 i2 i3 in
       if p = 0 then Some [ucast (drop_bit 16 v), ucast (drop_bit 8 v), ucast v]
       else if p = 1 then Some [ucast (drop_bit 16 v), ucast (drop_bit 8 v)]
       else if p = 3 then Some [ucast (drop_bit 16 v)]
       else None)"

definition is_space :: "byte \<Rightarrow> bool" where
  "is_space c \<longleftrightarrow> c = 0x20 \<or> c = 0x09 \<or> c = 0x0D \<or> c = 0x0A"

text \<open>
  One pass of the loop of \<open>EVP_DecodeUpdate\<close> for the character \<open>c\<close>: the context and the
  bytes it writes, or \<open>Inl\<close> the context after an error.
\<close>

definition decode_char ::
  "evp_encode_ctx \<Rightarrow> byte \<Rightarrow> evp_encode_ctx + evp_encode_ctx \<times> byte list" where
  "decode_char ctx c = (
     if is_space c then Inr (ctx, [])
     else if eof_seen ctx then Inl (ctx\<lparr>error_encountered := True\<rparr>)
     else
       let ctx1 = ctx\<lparr>data := (data ctx)[data_used ctx := c], data_used := data_used ctx + 1\<rparr> in
       if data_used ctx1 = 4 then
         (case base64_decode_quad (data ctx1 ! 0) (data ctx1 ! 1) (data ctx1 ! 2) (data ctx1 ! 3) of
            None \<Rightarrow> Inl (ctx1\<lparr>error_encountered := True\<rparr>)
          | Some bs \<Rightarrow>
              let ctx2 = ctx1\<lparr>data_used := 0\<rparr> in
              Inr (if length bs < 3 then ctx2\<lparr>eof_seen := True\<rparr> else ctx2, bs))
       else Inr (ctx1, []))"

fun decode_update_loop ::
  "evp_encode_ctx \<Rightarrow> byte list \<Rightarrow> bool \<times> evp_encode_ctx \<times> byte list" where
  "decode_update_loop ctx [] = (True, ctx, [])"
| "decode_update_loop ctx (c # inp) = (
     case decode_char ctx c of
       Inl ctx' \<Rightarrow> (False, ctx', [])
     | Inr (ctx', bs) \<Rightarrow>
         (case decode_update_loop ctx' inp of (ok, ctx'', out) \<Rightarrow> (ok, ctx'', bs @ out)))"

text \<open>The result code, the context, the bytes written and \<open>*out_len\<close>.\<close>

definition EVP_DecodeUpdate ::
  "evp_encode_ctx \<Rightarrow> byte list \<Rightarrow> int \<times> evp_encode_ctx \<times> byte list \<times> nat" where
  "EVP_DecodeUpdate ctx inp = (
     if error_encountered ctx then (- 1, ctx, [], 0)
     else case decode_update_loop ctx inp of
       (False, ctx', out) \<Rightarrow> (- 1, ctx', out, 0)
     | (True, ctx', out) \<Rightarrow>
         if length out > INT_MAX then (- 1, ctx'\<lparr>error_encountered := True\<rparr>, out, 0)
         else (if eof_seen ctx' then 0 else 1, ctx', out, length out))"

definition EVP_DecodeFinal :: "evp_encode_ctx \<Rightarrow> int \<times> nat" where
  "EVP_DecodeFinal ctx =
     (if error_encountered ctx \<or> data_used ctx \<noteq> 0 then (- 1, 0) else (1, 0))"

text \<open>
  The loop of \<open>EVP_DecodeBase64\<close>: the bytes written so far, with \<open>False\<close> when a quad is
  refused or a padded quad is not the last.
\<close>

fun decode_base64_loop :: "byte list \<Rightarrow> bool \<times> byte list" where
  "decode_base64_loop (i0 # i1 # i2 # i3 # inp) = (
     case base64_decode_quad i0 i1 i2 i3 of
       None \<Rightarrow> (False, [])
     | Some bs \<Rightarrow>
         if length bs \<noteq> 3 \<and> inp \<noteq> [] then (False, bs)
         else (case decode_base64_loop inp of (ok, out) \<Rightarrow> (ok, bs @ out)))"
| "decode_base64_loop inp = (True, [])"

text \<open>Success, \<open>*out_len\<close> and the bytes written.\<close>

definition EVP_DecodeBase64 :: "nat \<Rightarrow> byte list \<Rightarrow> bool \<times> nat \<times> byte list" where
  "EVP_DecodeBase64 max_out inp = (
     if length inp mod 4 \<noteq> 0 then (False, 0, [])
     else case EVP_DecodedLength (length inp) of
       None \<Rightarrow> (False, 0, [])
     | Some max_len \<Rightarrow>
         if max_out < max_len then (False, 0, [])
         else (case decode_base64_loop inp of
             (False, out) \<Rightarrow> (False, 0, out)
           | (True, out) \<Rightarrow> (True, length out, out)))"

text \<open>
  \<open>EVP_DecodeBlock\<close> trims spaces and tabs in front and any white space behind, and pads the
  output with NULs to a multiple of three.
\<close>

definition trim_front :: "byte list \<Rightarrow> byte list" where
  "trim_front src = dropWhile (\<lambda>c. c = 0x20 \<or> c = 0x09) src"

definition trim_back :: "byte list \<Rightarrow> byte list" where
  "trim_back src = rev (dropWhile is_space (rev src))"

definition EVP_DecodeBlock :: "byte list \<Rightarrow> int \<times> byte list" where
  "EVP_DecodeBlock src0 = (
     let src = trim_back (trim_front src0) in
     case EVP_DecodedLength (length src) of
       None \<Rightarrow> (- 1, [])
     | Some dst_len \<Rightarrow>
         if dst_len > INT_MAX then (- 1, [])
         else (case EVP_DecodeBase64 dst_len src of
             (False, n, out) \<Rightarrow> (- 1, out)
           | (True, n, out) \<Rightarrow>
               let padded = out @ replicate ((3 - n mod 3) mod 3) 0 in
               (int (length padded), padded)))"

end
