(* ===== verification/Base64Spec.thy ===== *)
theory Base64Spec
  imports Base64
begin

text \<open>
  The independent specification of base64 as a bit stream, and the proof that the block
  encoder, the quad decoder and \<open>EVP_DecodeBase64\<close> implement it.
\<close>

section \<open>The alphabet and the bit stream\<close>

text \<open>
  The independent specification: the value of a character of the alphabet, and the bit
  string that a text of data characters and a byte string denote, most significant bit
  first. A text is data characters followed by at most two equals signs, a multiple of four
  characters in all.
\<close>

definition b64_digit :: "byte \<Rightarrow> byte option" where
  "b64_digit c = (
     if 0x41 \<le> c \<and> c \<le> 0x5A then Some (c - 0x41)
     else if 0x61 \<le> c \<and> c \<le> 0x7A then Some (c - 0x61 + 26)
     else if 0x30 \<le> c \<and> c \<le> 0x39 then Some (c - 0x30 + 52)
     else if c = 0x2B then Some 62
     else if c = 0x2F then Some 63
     else None)"

definition bits6 :: "byte \<Rightarrow> bool list" where
  "bits6 w = map (bit w) [5, 4, 3, 2, 1, 0]"

definition bits8 :: "byte \<Rightarrow> bool list" where
  "bits8 w = map (bit w) [7, 6, 5, 4, 3, 2, 1, 0]"

definition bytes_bits :: "byte list \<Rightarrow> bool list" where
  "bytes_bits bs = concat (map bits8 bs)"

definition text_bits :: "byte list \<Rightarrow> bool list" where
  "text_bits d = concat (map (\<lambda>c. bits6 (the (b64_digit c))) d)"

definition b64_text :: "byte list \<Rightarrow> byte list \<Rightarrow> nat \<Rightarrow> bool" where
  "b64_text s d n \<longleftrightarrow> s = d @ replicate n 0x3D \<and> n \<le> 2 \<and> length s mod 4 = 0 \<and>
     (\<forall>c\<in>set d. b64_digit c \<noteq> None)"

section \<open>The tables\<close>

lemma lt_args_byte: "constant_time_lt_args_8 a b = mask_8 (a < b)"
proof -
  have "unat a < 256" "unat b < 256" by simp_all
  then have "2 ^ 63 \<le> unat (ucast a - ucast b :: u64) \<longleftrightarrow> a < b"
    by (auto simp: unat_diff_wrap word_less_nat_alt simp del: unat_byte_lt)
  then have "constant_time_msb_w (ucast a - ucast b) = mask_w (a < b)"
    by (simp only: msb_word)
  then show ?thesis
    by (intro bit_word_eqI) (simp add: constant_time_lt_args_8_def bit_simps)
qed

lemma in_range_byte:
  assumes "lo \<le> hi" and "hi - lo < 0xFF"
  shows "constant_time_in_range_8 a lo hi = mask_8 (lo \<le> a \<and> a \<le> hi)"
proof -
  have w: "unat a < 256" "unat lo < 256" "unat hi < 256" by simp_all
  have "unat (hi - lo) = unat hi - unat lo"
    using assms(1) by (simp add: unat_sub word_le_nat_alt)
  moreover have "unat (hi - lo) < 255"
    using assms(2) by (simp add: word_less_nat_alt)
  ultimately have "unat (hi - lo + 1) = unat hi - unat lo + 1"
    by (simp add: unat_word_ariths)
  then have "a - lo < hi - lo + 1 \<longleftrightarrow> lo \<le> a \<and> a \<le> hi"
    using assms(1) w(1) w(3) by (simp add: word_less_nat_alt word_le_nat_alt unat_sub_if' del: unat_byte_lt) linarith
  then show ?thesis by (simp add: constant_time_in_range_8_def lt_args_byte)
qed

lemma ascii_to_bin_digit:
  "base64_ascii_to_bin c = (case b64_digit c of Some v \<Rightarrow> v | None \<Rightarrow> if c = 0x3D then 0 else 0xFF)"
proof -
  have e: "ucast c = (0x2B :: u64) \<longleftrightarrow> c = 0x2B" "ucast c = (0x2F :: u64) \<longleftrightarrow> c = 0x2F"
    "ucast c = (0x3D :: u64) \<longleftrightarrow> c = 0x3D"
    by (simp_all add: word_unat_eq_iff)
  have "base64_ascii_to_bin c = (
     if c = 0x3D then 0 else if c = 0x2F then 63 else if c = 0x2B then 62
     else if 0x30 \<le> c \<and> c \<le> 0x39 then c - 0x30 + 52
     else if 0x61 \<le> c \<and> c \<le> 0x7A then c - 0x61 + 26
     else if 0x41 \<le> c \<and> c \<le> 0x5A then c - 0x41 else 0xFF)"
    unfolding base64_ascii_to_bin_def Let_def
    by (simp only: eq_byte e select_byte) (simp add: in_range_byte select_byte)
  then show ?thesis
    by (auto simp: b64_digit_def word_le_nat_alt word_unat_eq_iff)
qed


lemma low6: "unat (a AND 0x3F :: byte) = unat a mod 64"
proof -
  have "a AND 0x3F = take_bit 6 a" by (simp add: take_bit_eq_mask mask_eq_exp_minus_1)
  then show ?thesis by (simp add: take_bit_eq_mod unat_mod)
qed

lemma conv_cases: "conv_bin2ascii a = (
   let m = a AND 0x3F in
   if m < 26 then m + 0x41 else if m < 52 then m - 26 + 0x61 else if m < 62 then m - 52 + 0x30
   else if m = 62 then 0x2B else 0x2F)"
proof -
  have e: "ucast m = (62 :: u64) \<longleftrightarrow> m = 62" for m :: byte
    by (simp add: word_unat_eq_iff)
  show ?thesis
    unfolding conv_bin2ascii_def Let_def
    by (simp only: eq_byte e select_byte lt_args_byte)
qed

lemma digit_conv: "b64_digit (conv_bin2ascii a) = Some (a AND 0x3F)"
proof -
  define m where "m = a AND 0x3F"
  have "unat m < 64" by (simp add: m_def low6)
  then have "m < 26 \<or> 26 \<le> m \<and> m < 52 \<or> 52 \<le> m \<and> m < 62 \<or> m = 62 \<or> m = 63"
    by (auto simp: word_less_nat_alt word_le_nat_alt word_unat_eq_iff)
  then show ?thesis
    unfolding conv_cases m_def [symmetric] Let_def b64_digit_def
    by (auto simp: word_less_nat_alt word_le_nat_alt unat_word_ariths unat_sub_if' word_unat_eq_iff)
qed

lemma conv_digit: "b64_digit c = Some v \<Longrightarrow> conv_bin2ascii v = c \<and> unat v < 64"
proof -
  assume v: "b64_digit c = Some v"
  have "conv_bin2ascii v = c \<and> unat v < 64" if lt: "unat v < 64" and c: "c =
    (if v < 26 then v + 0x41 else if v < 52 then v - 26 + 0x61 else if v < 62 then v - 52 + 0x30
     else if v = 62 then 0x2B else 0x2F)"
  proof -
    have "v AND 0x3F = v" using lt by (simp add: word_unat_eq_iff low6)
    then show ?thesis using lt c by (simp add: conv_cases)
  qed
  moreover have "unat v < 64"
    using v by (auto simp: b64_digit_def word_le_nat_alt unat_word_ariths unat_sub_if' split: if_splits)
  moreover have "c = (if v < 26 then v + 0x41 else if v < 52 then v - 26 + 0x61 else if v < 62 then v - 52 + 0x30
     else if v = 62 then 0x2B else 0x2F)"
    using v by (auto simp: b64_digit_def word_le_nat_alt word_less_nat_alt unat_word_ariths unat_sub_if'
      split: if_splits)
  ultimately show ?thesis by blast
qed

lemma digit_nonspace: "b64_digit c = Some v \<Longrightarrow> \<not> is_space c \<and> c \<noteq> 0x3D"
  by (auto simp: b64_digit_def is_space_def split: if_splits)

section \<open>Block encoding\<close>

lemma byte_high: "8 \<le> n \<Longrightarrow> \<not> bit (b :: byte) n"
  using bit_imp_le_length [of b n] by auto

lemma bits6_mask [simp]: "bits6 (w AND 0x3F) = bits6 w"
proof -
  have "w AND 0x3F = take_bit 6 w" by (simp add: take_bit_eq_mask mask_eq_exp_minus_1)
  then show ?thesis by (simp add: bits6_def bit_simps)
qed

lemma text_bits_simps [simp]:
  "text_bits [] = []"
  "text_bits (conv_bin2ascii a # d) = bits6 a @ text_bits d"
  "text_bits (d @ e) = text_bits d @ text_bits e"
  by (simp_all add: text_bits_def digit_conv)

lemma bytes_bits_simps [simp]:
  "bytes_bits [] = []" "bytes_bits (b # bs) = bits8 b @ bytes_bits bs"
  "bytes_bits (bs @ cs) = bytes_bits bs @ bytes_bits cs"
  by (simp_all add: bytes_bits_def)

lemma length_bits [simp]: "length (bits6 w) = 6" "length (bits8 w) = 8"
  "length (text_bits d) = 6 * length d" "length (bytes_bits bs) = 8 * length bs"
  by (simp_all add: bits6_def bits8_def)
    (induction d, simp_all add: text_bits_def bits6_def, induction bs, simp_all add: bits8_def)

lemma bits8_inj: "bits8 a = bits8 b \<longleftrightarrow> a = b"
proof
  assume "bits8 a = bits8 b"
  then have e: "bit a 0 = bit b 0" "bit a 1 = bit b 1" "bit a 2 = bit b 2" "bit a 3 = bit b 3"
    "bit a 4 = bit b 4" "bit a 5 = bit b 5" "bit a 6 = bit b 6" "bit a 7 = bit b 7"
    by (simp_all add: bits8_def)
  show "a = b"
  proof (rule bit_word_eqI)
    fix n
    assume "n < LENGTH(8)"
    then have "n = 0 \<or> n = 1 \<or> n = 2 \<or> n = 3 \<or> n = 4 \<or> n = 5 \<or> n = 6 \<or> n = 7" by auto
    with e show "bit a n = bit b n" by metis
  qed
qed simp

lemma bytes_bits_inj: "bytes_bits xs = bytes_bits ys \<Longrightarrow> xs = ys"
proof (induction xs arbitrary: ys)
  case Nil
  then show ?case using length_bits(4) [of ys] by simp
next
  case (Cons x xs)
  then obtain y ys' where "ys = y # ys'"
    using arg_cong [OF Cons.prems, of length] by (cases ys) (auto simp: bits8_def)
  with Cons show ?case by (simp add: bits8_inj)
qed

lemma quad_bits3:
  fixes s0 s1 s2 :: byte
  assumes "l = push_bit 16 (ucast s0 :: u32) OR push_bit 8 (ucast s1) OR ucast s2"
  shows "bits6 (ucast (drop_bit 18 l)) @ bits6 (ucast (drop_bit 12 l)) @
    bits6 (ucast (drop_bit 6 l)) @ bits6 (ucast l) = bits8 s0 @ bits8 s1 @ bits8 s2"
  unfolding assms bits6_def bits8_def by (simp add: bit_simps byte_high)

lemma encode_block_loop_bits:
  assumes "encode_block_loop src = (cs, ret)"
  shows "\<exists>d n. b64_text cs d n \<and> text_bits d = bytes_bits src @ replicate (2 * n) False \<and>
    ret = length cs \<and> length cs = 4 * ((length src + 2) div 3)"
  using assms
proof (induction src arbitrary: cs ret rule: encode_block_loop.induct)
  case 1
  have "b64_text [] [] 0" by (simp add: b64_text_def)
  then show ?case using 1 by (intro exI [of _ "[]"] exI [of _ 0]) simp
next
  case (2 s0)
  define l :: u32 where "l = push_bit 16 (ucast s0)"
  let ?d = "[conv_bin2ascii (ucast (drop_bit 18 l)), conv_bin2ascii (ucast (drop_bit 12 l))]"
  have cs: "cs = ?d @ [0x3D, 0x3D]" "ret = 4" using 2 by (simp_all add: l_def Let_def)
  moreover have "b64_text cs ?d 2"
    by (simp add: b64_text_def cs digit_conv numeral_2_eq_2)
  moreover have "text_bits ?d = bits8 s0 @ [False, False, False, False]"
    unfolding text_bits_simps bits6_def bits8_def l_def
    by (simp add: bit_simps byte_high)
  moreover have "replicate 4 False = [False, False, False, False]" by (simp add: eval_nat_numeral)
  ultimately show ?case by (intro exI [of _ ?d] exI [of _ 2]) simp
next
  case (3 s0 s1)
  define l :: u32 where "l = push_bit 16 (ucast s0) OR push_bit 8 (ucast s1)"
  let ?d = "[conv_bin2ascii (ucast (drop_bit 18 l)), conv_bin2ascii (ucast (drop_bit 12 l)),
    conv_bin2ascii (ucast (drop_bit 6 l))]"
  have cs: "cs = ?d @ [0x3D]" "ret = 4" using 3 by (simp_all add: l_def Let_def)
  moreover have "b64_text cs ?d 1"
    by (simp add: b64_text_def cs digit_conv)
  moreover have "text_bits ?d = bits8 s0 @ bits8 s1 @ [False, False]"
    unfolding text_bits_simps bits6_def bits8_def l_def
    by (simp add: bit_simps byte_high)
  moreover have "replicate 2 False = [False, False]" by (simp add: eval_nat_numeral)
  ultimately show ?case by (intro exI [of _ ?d] exI [of _ 1]) simp
next
  case (4 s0 s1 s2 src)
  define l :: u32 where "l = push_bit 16 (ucast s0) OR push_bit 8 (ucast s1) OR ucast s2"
  let ?q = "[conv_bin2ascii (ucast (drop_bit 18 l)), conv_bin2ascii (ucast (drop_bit 12 l)),
    conv_bin2ascii (ucast (drop_bit 6 l)), conv_bin2ascii (ucast l)]"
  obtain cs' ret' where r: "encode_block_loop src = (cs', ret')" by fastforce
  then have cs: "cs = ?q @ cs'" "ret = ret' + 4" using 4(2) by (simp_all add: l_def Let_def)
  from 4(1) [OF refl r] obtain d n where IH: "b64_text cs' d n"
    "text_bits d = bytes_bits src @ replicate (2 * n) False" "ret' = length cs'"
    "length cs' = 4 * ((length src + 2) div 3)" by blast
  have "b64_text cs (?q @ d) n"
    using IH(1) by (auto simp: b64_text_def cs digit_conv)
  moreover have "text_bits (?q @ d) = bytes_bits (s0 # s1 # s2 # src) @ replicate (2 * n) False"
    using quad_bits3 [OF l_def] IH(2) by (simp add: bits6_def bits8_def)
  moreover have "length cs = 4 * ((length (s0 # s1 # s2 # src) + 2) div 3)"
    using IH(4) div_add_self1 [of 3 "length src + 2"] by (simp add: cs)
  ultimately show ?case using IH(3) cs by (intro exI [of _ "?q @ d"] exI [of _ n]) simp
qed


section \<open>Decoding a quad\<close>

lemma sextet_high: "unat (v :: byte) < 64 \<Longrightarrow> 6 \<le> n \<Longrightarrow> \<not> bit v n"
proof
  assume v: "unat v < 64" and n: "6 \<le> n" and b: "bit v n"
  have "2 ^ 6 \<le> (2 ^ n :: nat)" using n by (rule power_increasing) simp
  then show False using v bit_imp_pow_le [OF b] by simp
qed

lemma to_bin_sextet: "base64_ascii_to_bin c \<noteq> 0xFF \<Longrightarrow> unat (base64_ascii_to_bin c) < 64"
  by (auto simp: ascii_to_bin_digit dest: conv_digit split: option.splits if_splits)

lemma to_bin_invalid:
  "base64_ascii_to_bin c = 0xFF \<longleftrightarrow> b64_digit c = None \<and> c \<noteq> 0x3D"
proof (cases "b64_digit c")
  case (Some v)
  then have "unat v < 64" by (simp add: conv_digit)
  then have "v \<noteq> 0xFF" by auto
  with Some show ?thesis by (simp add: ascii_to_bin_digit)
qed (simp add: ascii_to_bin_digit)

lemma padding_pattern_cases:
  "padding_pattern i0 i1 i2 i3 = 0 \<longleftrightarrow> i0 \<noteq> 0x3D \<and> i1 \<noteq> 0x3D \<and> i2 \<noteq> 0x3D \<and> i3 \<noteq> 0x3D"
  "padding_pattern i0 i1 i2 i3 = 1 \<longleftrightarrow> i0 \<noteq> 0x3D \<and> i1 \<noteq> 0x3D \<and> i2 \<noteq> 0x3D \<and> i3 = 0x3D"
  "padding_pattern i0 i1 i2 i3 = 3 \<longleftrightarrow> i0 \<noteq> 0x3D \<and> i1 \<noteq> 0x3D \<and> i2 = 0x3D \<and> i3 = 0x3D"
  by (auto simp: padding_pattern_def or_nat_def)

definition quad_bytes :: "byte \<Rightarrow> byte \<Rightarrow> byte \<Rightarrow> byte \<Rightarrow> byte list" where
  "quad_bytes a b c d = (
     let v = push_bit 18 (ucast a :: u32) OR push_bit 12 (ucast b) OR
             push_bit 6 (ucast c) OR ucast d in
     [ucast (drop_bit 16 v), ucast (drop_bit 8 v), ucast v])"

lemma quad_bytes_bits:
  assumes "unat a < 64" "unat b < 64" "unat c < 64" "unat d < 64"
  shows "bytes_bits (quad_bytes a b c d) = bits6 a @ bits6 b @ bits6 c @ bits6 d"
  using assms
  by (simp add: quad_bytes_def Let_def bits6_def bits8_def bit_simps sextet_high)

lemma decode_quad_alt: "base64_decode_quad i0 i1 i2 i3 = (
   let q = quad_bytes (base64_ascii_to_bin i0) (base64_ascii_to_bin i1)
             (base64_ascii_to_bin i2) (base64_ascii_to_bin i3);
       good = (\<lambda>c. b64_digit c \<noteq> None) in
   if good i0 \<and> good i1 \<and> good i2 \<and> good i3 then Some q
   else if good i0 \<and> good i1 \<and> good i2 \<and> i3 = 0x3D then Some (take 2 q)
   else if good i0 \<and> good i1 \<and> i2 = 0x3D \<and> i3 = 0x3D then Some (take 1 q)
   else None)"
proof -
  have "b64_digit 0x3D = None" by (simp add: b64_digit_def)
  then show ?thesis
    unfolding base64_decode_quad_def Let_def padding_pattern_cases to_bin_invalid quad_bytes_def
    by auto
qed


lemma bytes_bits_take: "bytes_bits (take k bs) = take (8 * k) (bytes_bits bs)"
proof (induction bs arbitrary: k)
  case (Cons b bs)
  then show ?case by (cases k) simp_all
qed simp

lemma text_bits_Cons [simp]: "text_bits (c # d) = bits6 (the (b64_digit c)) @ text_bits d"
  by (simp add: text_bits_def)

lemma to_bin_good: "b64_digit c \<noteq> None \<Longrightarrow>
    base64_ascii_to_bin c = the (b64_digit c) \<and> unat (the (b64_digit c)) < 64"
  by (auto simp: ascii_to_bin_digit conv_digit)

lemma to_bin_equals: "base64_ascii_to_bin 0x3D = 0"
  by (simp add: ascii_to_bin_digit b64_digit_def)

abbreviation good :: "byte \<Rightarrow> bool" where
  "good c \<equiv> b64_digit c \<noteq> None"

lemma b64_text_quad:
  "b64_text [i0, i1, i2, i3] d n \<longleftrightarrow>
     n = 0 \<and> d = [i0, i1, i2, i3] \<and> good i0 \<and> good i1 \<and> good i2 \<and> good i3 \<or>
     n = 1 \<and> d = [i0, i1, i2] \<and> good i0 \<and> good i1 \<and> good i2 \<and> i3 = 0x3D \<or>
     n = 2 \<and> d = [i0, i1] \<and> good i0 \<and> good i1 \<and> i2 = 0x3D \<and> i3 = 0x3D"
  (is "?l \<longleftrightarrow> ?r")
proof
  assume ?l
  then have s: "[i0, i1, i2, i3] = d @ replicate n 0x3D" and n: "n \<le> 2"
    and g: "\<forall>c\<in>set d. good c"
    by (simp_all add: b64_text_def)
  have len: "length d + n = 4" using arg_cong [OF s, of length] by simp
  from n consider "n = 0" | "n = 1" | "n = 2" by linarith
  then show ?r
  proof cases
    case 1
    with s g show ?thesis by auto
  next
    case 2
    then have "d = butlast [i0, i1, i2, i3]" "last [i0, i1, i2, i3] = 0x3D" by (simp_all add: s)
    with 2 g show ?thesis by auto
  next
    case 3
    then have "d = take 2 [i0, i1, i2, i3]" "drop 2 [i0, i1, i2, i3] = [0x3D, 0x3D]"
      using len by (simp_all add: s numeral_2_eq_2)
    with 3 g show ?thesis by auto
  qed
qed (auto simp: b64_text_def numeral_2_eq_2)

text \<open>A quad is accepted exactly when it is a text, and yields the leading bytes of its bits.\<close>

lemma decode_quad_Some:
  "base64_decode_quad i0 i1 i2 i3 = Some bs \<longleftrightarrow>
     (\<exists>d n. b64_text [i0, i1, i2, i3] d n \<and> length bs + n = 3 \<and>
        bytes_bits bs = take (8 * length bs) (text_bits d))"
  (is "?l \<longleftrightarrow> ?r")
proof -
  have g3: "\<not> good 0x3D" by (simp add: b64_digit_def)
  let ?v = "\<lambda>c. base64_ascii_to_bin c"
  define q where "q = quad_bytes (?v i0) (?v i1) (?v i2) (?v i3)"
  have lq: "length q = 3" by (simp add: q_def quad_bytes_def Let_def)
  have qb: "bytes_bits q = bits6 (?v i0) @ bits6 (?v i1) @ bits6 (?v i2) @ bits6 (?v i3)"
    if "\<forall>c\<in>{i0, i1, i2, i3}. good c \<or> c = 0x3D"
    unfolding q_def using that
    by (intro quad_bytes_bits to_bin_sextet) (simp_all add: to_bin_invalid)
  have result: "base64_decode_quad i0 i1 i2 i3 = Some (take (3 - n) q)"
    if "b64_text [i0, i1, i2, i3] d n" for d n
    using that g3 lq unfolding b64_text_quad decode_quad_alt Let_def q_def [symmetric] by auto
  have bits: "bytes_bits (take (3 - n) q) = take (8 * (3 - n)) (text_bits d)"
    if "b64_text [i0, i1, i2, i3] d n" for d n
    using that unfolding bytes_bits_take b64_text_quad
    by (elim disjE conjE) (simp_all add: qb to_bin_good)
  have accepts: "\<exists>d n. b64_text [i0, i1, i2, i3] d n" if ?l
    using that unfolding b64_text_quad decode_quad_alt Let_def by (auto split: if_splits)
  show ?thesis
  proof
    assume ?l
    from accepts [OF this] obtain d n where t: "b64_text [i0, i1, i2, i3] d n" by blast
    with result [OF t] \<open>?l\<close> have "bs = take (3 - n) q" by simp
    moreover have "n \<le> 2" using t by (simp add: b64_text_def)
    ultimately show ?r using t bits [OF t] lq by (intro exI [of _ d] exI [of _ n]) simp
  next
    assume ?r
    then obtain d n where t: "b64_text [i0, i1, i2, i3] d n" "length bs + n = 3"
      "bytes_bits bs = take (8 * length bs) (text_bits d)" by blast
    then have "bs = take (3 - n) q" using bits [OF t(1)] by (intro bytes_bits_inj) (simp flip: t(2))
    then show ?l using result [OF t(1)] by simp
  qed
qed


section \<open>Decoding a block\<close>

text \<open>
  What a text denotes: the leading bytes of the bits of its data characters, one byte fewer
  for each padding character.
\<close>

definition b64_decodes :: "byte list \<Rightarrow> byte list \<Rightarrow> bool" where
  "b64_decodes s out \<longleftrightarrow> (\<exists>d n. b64_text s d n \<and> length out + n = length s div 4 * 3 \<and>
     bytes_bits out = take (8 * length out) (text_bits d))"

lemma b64_text_Cons4:
  assumes "rest \<noteq> []"
  shows "b64_text (i0 # i1 # i2 # i3 # rest) d n \<longleftrightarrow>
    good i0 \<and> good i1 \<and> good i2 \<and> good i3 \<and>
    (\<exists>d'. d = i0 # i1 # i2 # i3 # d' \<and> b64_text rest d' n)"
  (is "?l \<longleftrightarrow> ?r")
proof
  assume l: ?l
  then have s: "i0 # i1 # i2 # i3 # rest = d @ replicate n 0x3D" and n: "n \<le> 2"
    and m: "length rest mod 4 = 0" by (simp_all add: b64_text_def)
  from m assms have "4 \<le> length rest" by (intro dvd_imp_le) (simp_all add: mod_eq_0_iff_dvd)
  moreover have "length d + n = 4 + length rest" using arg_cong [OF s, of length] by simp
  ultimately have "4 \<le> length d" using n by linarith
  then obtain a b c e d' where "d = a # b # c # e # d'"
    by (auto simp: Suc_le_length_iff numeral_eq_Suc)
  with l show ?r by (auto simp: b64_text_def)
qed (auto simp: b64_text_def)

lemma quarter [simp]: "(4 + n) div 4 = Suc (n div (4::nat))"
  by simp

lemma quad_bits_good:
  assumes "base64_decode_quad i0 i1 i2 i3 = Some bs" and "length bs = 3"
  shows "good i0 \<and> good i1 \<and> good i2 \<and> good i3 \<and> bytes_bits bs = text_bits [i0, i1, i2, i3]"
  using assms unfolding decode_quad_Some b64_text_quad by auto

lemma decode_base64_loop_exact:
  "length s mod 4 = 0 \<Longrightarrow> decode_base64_loop s = (True, out) \<longleftrightarrow> b64_decodes s out"
proof (induction s arbitrary: out rule: decode_base64_loop.induct)
  case (1 i0 i1 i2 i3 inp)
  show ?case
  proof (cases "inp = []")
    case True
    have "b64_decodes [i0, i1, i2, i3] out \<longleftrightarrow> base64_decode_quad i0 i1 i2 i3 = Some out"
      by (auto simp: b64_decodes_def decode_quad_Some)
    with True show ?thesis by (auto split: option.splits)
  next
    case False
    show ?thesis
    proof (cases "\<exists>bs. base64_decode_quad i0 i1 i2 i3 = Some bs \<and> length bs = 3")
      case True
      then obtain bs where q: "base64_decode_quad i0 i1 i2 i3 = Some bs" "length bs = 3" by blast
      note g = quad_bits_good [OF q]
      have "decode_base64_loop (i0 # i1 # i2 # i3 # inp) = (True, out) \<longleftrightarrow>
          (\<exists>out'. out = bs @ out' \<and> decode_base64_loop inp = (True, out'))"
        using q by (auto split: prod.splits)
      also have "\<dots> \<longleftrightarrow> (\<exists>out'. out = bs @ out' \<and> b64_decodes inp out')"
        using 1(1) [OF q(1)] 1(2) q(2) by simp
      also have "\<dots> \<longleftrightarrow> b64_decodes (i0 # i1 # i2 # i3 # inp) out"
      proof
        assume "\<exists>out'. out = bs @ out' \<and> b64_decodes inp out'"
        then obtain out' d n where d: "out = bs @ out'" "b64_text inp d n"
          "length out' + n = length inp div 4 * 3"
          "bytes_bits out' = take (8 * length out') (text_bits d)" by (auto simp: b64_decodes_def)
        then show "b64_decodes (i0 # i1 # i2 # i3 # inp) out"
          unfolding b64_decodes_def using g False q(2)
          by (intro exI [of _ "i0 # i1 # i2 # i3 # d"] exI [of _ n]) (auto simp: b64_text_Cons4)
      next
        assume "b64_decodes (i0 # i1 # i2 # i3 # inp) out"
        then obtain d n where d: "b64_text inp d n"
          "length out + n = 3 + length inp div 4 * 3"
          "bytes_bits out = take (8 * length out) (text_bits [i0, i1, i2, i3] @ text_bits d)"
          using False by (auto simp: b64_decodes_def b64_text_Cons4)
        have n: "n \<le> 2" using d(1) by (simp add: b64_text_def)
        have "4 \<le> length inp"
          using False 1(2) by (intro dvd_imp_le) (simp_all add: mod_eq_0_iff_dvd)
        then have "1 \<le> length inp div 4" using div_le_mono [of 4 "length inp" 4] by simp
        then have len: "3 \<le> length out" using d(2) n by linarith
        have "bytes_bits (take 3 out) = take 24 (bytes_bits out)" by (simp add: bytes_bits_take)
        also have "\<dots> = text_bits [i0, i1, i2, i3]" using len by (simp add: d(3) min_def)
        finally have "take 3 out = bs" using g by (intro bytes_bits_inj) simp
        then have out: "out = bs @ drop 3 out" by (metis append_take_drop_id)
        have "bytes_bits (drop 3 out) = drop 24 (bytes_bits out)"
          using arg_cong [OF out, of bytes_bits] q(2) by simp
        also have "\<dots> = take (8 * length (drop 3 out)) (text_bits d)"
          using len by (simp add: d(3) drop_take diff_mult_distrib2)
        finally have "b64_decodes inp (drop 3 out)"
          using d(1,2) len unfolding b64_decodes_def by (intro exI [of _ d] exI [of _ n]) simp
        with out show "\<exists>out'. out = bs @ out' \<and> b64_decodes inp out'" by blast
      qed
      finally show ?thesis .
    next
      case no: False
      then have "\<not> (good i0 \<and> good i1 \<and> good i2 \<and> good i3)"
        using decode_quad_Some [of i0 i1 i2 i3 "quad_bytes (base64_ascii_to_bin i0)
          (base64_ascii_to_bin i1) (base64_ascii_to_bin i2) (base64_ascii_to_bin i3)"]
        by (auto simp: decode_quad_alt quad_bytes_def Let_def)
      then have "\<not> b64_decodes (i0 # i1 # i2 # i3 # inp) out"
        using False by (auto simp: b64_decodes_def b64_text_Cons4)
      moreover have "decode_base64_loop (i0 # i1 # i2 # i3 # inp) \<noteq> (True, out)"
        using no False by (auto split: option.splits)
      ultimately show ?thesis by simp
    qed
  qed
qed (auto simp: b64_decodes_def b64_text_def)

lemma b64_decodes_unique: "b64_decodes s out \<Longrightarrow> b64_decodes s out' \<Longrightarrow> out = out'"
proof -
  assume d: "b64_decodes s out" "b64_decodes s out'"
  then have "length s mod 4 = 0" by (auto simp: b64_decodes_def b64_text_def)
  with d show ?thesis
    using decode_base64_loop_exact [of s out] decode_base64_loop_exact [of s out'] by simp
qed

lemma encode_block_decodes:
  assumes "encode_block_loop src = (cs, ret)"
  shows "b64_decodes cs src"
proof -
  from encode_block_loop_bits [OF assms] obtain d n where e: "b64_text cs d n"
    "text_bits d = bytes_bits src @ replicate (2 * n) False" "length cs = 4 * ((length src + 2) div 3)"
    by blast
  have "length cs = length d + n" using e(1) by (simp add: b64_text_def)
  moreover have "6 * length d = 8 * length src + 2 * n" using arg_cong [OF e(2), of length] by simp
  moreover obtain k where "length cs = 4 * k" using e(3) by blast
  ultimately have "length src + n = 3 * k" and "length cs div 4 = k" by simp_all
  then have "length src + n = length cs div 4 * 3" by simp
  with e show ?thesis unfolding b64_decodes_def by (intro exI [of _ d] exI [of _ n]) simp
qed

end
