(* ===== verification/Base64Stream.thy ===== *)
theory Base64Stream
  imports Base64Spec
begin

text \<open>
  The streaming interface: the text of a message in lines, the state of an encoder and of a
  decoder between calls, whole sessions, and the properties of the base64 component.
\<close>

section \<open>Streaming encoder\<close>

definition b64_enc :: "byte list \<Rightarrow> byte list" where
  "b64_enc s = fst (encode_block_loop s)"

lemma EVP_EncodeBlock_enc: "EVP_EncodeBlock s = (b64_enc s @ [0], length (b64_enc s))"
  using encode_block_loop_bits [of s]
  by (cases "encode_block_loop s") (auto simp: EVP_EncodeBlock_def b64_enc_def)

lemma length_enc: "length (b64_enc s) = 4 * ((length s + 2) div 3)"
  using encode_block_loop_bits [of s]
  by (cases "encode_block_loop s") (auto simp: b64_enc_def)

lemma length_enc_line [simp]: "length s = 48 \<Longrightarrow> length (b64_enc s) = 64"
  by (simp add: length_enc)

lemma enc_decodes: "b64_decodes (b64_enc s) s"
  using encode_block_decodes [of s] by (cases "encode_block_loop s") (simp add: b64_enc_def)

lemma enc_append: "length xs mod 3 = 0 \<Longrightarrow> b64_enc (xs @ ys) = b64_enc xs @ b64_enc ys"
proof (induction xs rule: encode_block_loop.induct)
  case (4 a b c xs)
  then show ?case by (auto simp: b64_enc_def Let_def split: prod.splits)
qed (simp_all add: b64_enc_def)

lemma put_line_enc: "put_line w (EVP_EncodeBlock s) = butlast w @ b64_enc s @ [0x0A, 0]"
  by (simp add: put_line_def EVP_EncodeBlock_enc)

text \<open>
  The text of a message: every full line of 48 bytes, and what is left over for the last
  line.
\<close>

fun full_lines :: "byte list \<Rightarrow> byte list" where
  "full_lines s = (if length s < 48 then [] else b64_enc (take 48 s) @ [0x0A] @ full_lines (drop 48 s))"

declare full_lines.simps [simp del]

definition last_part :: "byte list \<Rightarrow> byte list" where
  "last_part s = drop (48 * (length s div 48)) s"

definition pem_body :: "byte list \<Rightarrow> byte list" where
  "pem_body s = full_lines s @ (if last_part s = [] then [] else b64_enc (last_part s) @ [0x0A])"

lemma next_line [simp]: "(48 + n) div 48 = Suc (n div (48::nat))"
  by simp

lemma lines_short: "length s < 48 \<Longrightarrow> full_lines s = [] \<and> last_part s = s"
  by (simp add: full_lines.simps last_part_def)

lemma lines_step: "length s = 48 \<Longrightarrow>
    full_lines (s @ t) = b64_enc s @ [0x0A] @ full_lines t \<and> last_part (s @ t) = last_part t"
  by (subst full_lines.simps) (simp add: last_part_def)

lemma lines_induct [case_names short step]:
  assumes "\<And>s. length s < 48 \<Longrightarrow> P s"
    and "\<And>s t. length s = 48 \<Longrightarrow> P t \<Longrightarrow> P (s @ t)"
  shows "P (s :: byte list)"
proof (induction s rule: full_lines.induct)
  case (1 s)
  show ?case
  proof (cases "length s < 48")
    case False
    with 1 have "P (drop 48 s)" by blast
    with False assms(2) [of "take 48 s" "drop 48 s"] show ?thesis by simp
  qed (rule assms(1))
qed

lemma lines_append:
  "full_lines (s @ t) = full_lines s @ full_lines (last_part s @ t) \<and>
   last_part (s @ t) = last_part (last_part s @ t)"
proof (induction s rule: lines_induct)
  case (short s)
  then show ?case by (simp add: lines_short)
next
  case (step s u)
  then show ?case using lines_step [OF step(1), of "u @ t"] lines_step [OF step(1), of u] by simp
qed

lemma length_lines: "length (full_lines s) = 65 * (length s div 48)"
  by (induction s rule: lines_induct) (simp_all add: lines_short lines_step)

lemma length_last_part: "length (last_part s) < 48"
  by (simp add: last_part_def minus_mult_div_eq_mod)

lemma encode_lines_loop_spec:
  assumes "tot + 65 * (length inp div 48) < size_max1"
  shows "encode_lines_loop tot inp w =
    (last_part inp, if length inp < 48 then w else butlast w @ full_lines inp @ [0],
     Some (tot + 65 * (length inp div 48)))"
  using assms
proof (induction inp arbitrary: tot w rule: lines_induct)
  case (short inp)
  then show ?case by (simp add: encode_lines_loop.simps [of tot inp] lines_short)
next
  case (step s t)
  then have IH: "encode_lines_loop (tot + 65) t w' =
    (last_part t, if length t < 48 then w' else butlast w' @ full_lines t @ [0],
     Some (tot + 65 + 65 * (length t div 48)))" for w'
    by simp
  have "tot + 65 < size_max1" using step(1,3) by simp
  then have m: "(tot + 64 + 1) mod size_max1 = tot + 65" by simp
  have blk: "EVP_EncodeBlock (take 48 (s @ t)) = (b64_enc s @ [0], 64)"
    using step(1) by (simp add: EVP_EncodeBlock_enc)
  have "encode_lines_loop tot (s @ t) w =
      encode_lines_loop (tot + 65) t (butlast w @ b64_enc s @ [0x0A, 0])"
    using step(1) by (subst encode_lines_loop.simps, unfold blk Let_def snd_conv m)
      (simp add: put_line_def)
  then show ?case using step(1) by (simp add: IH lines_step butlast_append lines_short)
qed

text \<open>The buffer of a context in use, and its invariant.\<close>

definition pending :: "evp_encode_ctx \<Rightarrow> byte list" where
  "pending ctx = take (data_used ctx) (data ctx)"

definition ctx_ok :: "nat \<Rightarrow> evp_encode_ctx \<Rightarrow> bool" where
  "ctx_ok n ctx \<longleftrightarrow> length (data ctx) = 48 \<and> data_used ctx < n"

lemma length_pending: "ctx_ok 48 ctx \<Longrightarrow> length (pending ctx) = data_used ctx"
  by (simp add: ctx_ok_def pending_def)

lemma loop_out:
  assumes "encode_lines_loop tot inp w = (inp2, w2, r)" and "tot + 65 * (length inp div 48) < size_max1"
    and "w = [] \<and> tot = 0 \<or> (\<exists>t. w = t @ [0] \<and> tot = length t)"
  shows "inp2 = last_part inp \<and> r = Some (tot + length (full_lines inp)) \<and>
    take (tot + length (full_lines inp)) w2 = butlast w @ full_lines inp"
  using assms(1) assms(3) lines_short [of inp] unfolding encode_lines_loop_spec [OF assms(2)]
  by (auto simp: length_lines split: if_splits)

lemma EVP_EncodeUpdate_spec:
  assumes ok: "ctx_ok 48 ctx" and upd: "EVP_EncodeUpdate ctx inp = (ctx', w, n)"
    and size: "65 * (length (pending ctx @ inp) div 48) \<le> INT_MAX"
  shows "ctx_ok 48 ctx' \<and> pending ctx' = last_part (pending ctx @ inp) \<and>
    n = length (full_lines (pending ctx @ inp)) \<and> take n w = full_lines (pending ctx @ inp)"
proof -
  let ?p = "pending ctx"
  have d: "length (data ctx) = 48" "data_used ctx < 48" "length ?p = data_used ctx"
    using ok length_pending [OF ok] by (simp_all add: ctx_ok_def)
  consider (short) "length (?p @ inp) < 48" | (full) "48 \<le> length (?p @ inp)" by linarith
  then show ?thesis
  proof cases
    case short
    then have "ctx' = (if inp = [] then ctx else ctx\<lparr>data := memcpy_at (data ctx) (data_used ctx) inp,
               data_used := data_used ctx + length inp\<rparr>) \<and> w = [] \<and> n = 0"
      using upd d by (auto simp: EVP_EncodeUpdate_def split: if_splits)
    then show ?thesis using lines_short [OF short] short d
      by (auto simp: ctx_ok_def pending_def memcpy_at_def)
  next
    case full
    define todo where "todo = (if ?p = [] then 0 else 48 - data_used ctx)"
    define s where "s = ?p @ take todo inp"
    have inp: "?p @ inp = s @ drop todo inp" by (simp add: s_def)
    have s: "?p = [] \<and> s = [] \<or> ?p \<noteq> [] \<and> length s = 48"
      using full d by (auto simp: s_def todo_def)
    let ?tot = "if ?p = [] then 0 else 65"
    let ?w = "if ?p = [] then [] else b64_enc s @ [0x0A, 0]"
    let ?c = "if ?p = [] then ctx else ctx\<lparr>data := s, data_used := 0\<rparr>"
    obtain inp2 w2 r where lp: "encode_lines_loop ?tot (drop todo inp) ?w = (inp2, w2, r)"
      by (rule prod_cases3)
    have tot: "?tot + 65 * (length (drop todo inp) div 48) = 65 * (length (?p @ inp) div 48)"
      using s unfolding inp by auto
    then have "?tot + 65 * (length (drop todo inp) div 48) < size_max1"
      using size by (simp add: INT_MAX_def)
    note out = loop_out [OF lp this]
    have out: "inp2 = last_part (drop todo inp) \<and> r = Some (?tot + length (full_lines (drop todo inp))) \<and>
      take (?tot + length (full_lines (drop todo inp))) w2 = butlast ?w @ full_lines (drop todo inp)"
      using s by (intro out) auto
    have fl: "full_lines (?p @ inp) = butlast ?w @ full_lines (drop todo inp) \<and>
        last_part (?p @ inp) = last_part (drop todo inp)"
      using s lines_step [of s "drop todo inp"] unfolding inp by (auto simp: butlast_append)
    have len: "?tot + length (full_lines (drop todo inp)) = length (full_lines (?p @ inp))"
      using tot by (simp add: length_lines)
    have c: "length (data ?c) = 48" using d s by auto
    have "(ctx', w, n) = (?c\<lparr>data := memcpy_at (data ?c) 0 inp2, data_used := length inp2\<rparr>, w2,
       length (full_lines (?p @ inp)))"
    proof -
      have g: "inp \<noteq> []" "\<not> length inp < 48 - data_used ctx" using full d by auto
      have p: "?p = [] \<longleftrightarrow> data_used ctx = 0" using d by auto
      have r: "r = Some (length (full_lines (?p @ inp)))" using out len by simp
      have le: "\<not> INT_MAX < length (full_lines (?p @ inp))" using size by (simp add: length_lines)
      show ?thesis
      proof (cases "data_used ctx = 0")
        case True
        then show ?thesis
          using upd g lp p r le by (simp add: EVP_EncodeUpdate_def todo_def)
      next
        case False
        have todo: "todo = 48 - data_used ctx" using False p by (simp add: todo_def)
        have m: "memcpy_at (data ctx) (data_used ctx) (take todo inp) = s"
          using d g by (simp add: memcpy_at_def s_def pending_def todo)
        have blk: "EVP_EncodeBlock s = (b64_enc s @ [0], 64)"
          using s p False by (simp add: EVP_EncodeBlock_enc)
        have w: "put_line [] (b64_enc s @ [0], 64) = b64_enc s @ [0x0A, 0]"
          using put_line_enc [of "[]" s] by (simp add: blk)
        show ?thesis
          using upd g(1) g(2) False lp p r le
          by (simp add: EVP_EncodeUpdate_def m w blk Let_def flip: todo)
      qed
    qed
    then show ?thesis
      using out fl len c length_last_part [of "drop todo inp"]
      by (simp add: ctx_ok_def pending_def memcpy_at_def)
  qed
qed


lemma EVP_EncodeFinal_spec:
  assumes "ctx_ok 48 ctx" and "EVP_EncodeFinal ctx = (ctx', w, n)"
  shows "take n w = pem_body (pending ctx)"
  using assms length_pending [OF assms(1)] lines_short [of "pending ctx"]
  by (auto simp: EVP_EncodeFinal_def pem_body_def put_line_def EVP_EncodeBlock_enc ctx_ok_def
      pending_def split: if_splits)

text \<open>A whole session: one update for every chunk, then the final call.\<close>

fun encode_stream :: "evp_encode_ctx \<Rightarrow> byte list list \<Rightarrow> byte list" where
  "encode_stream ctx [] = (case EVP_EncodeFinal ctx of (_, w, n) \<Rightarrow> take n w)"
| "encode_stream ctx (c # cs) =
     (case EVP_EncodeUpdate ctx c of (ctx', w, n) \<Rightarrow> take n w @ encode_stream ctx' cs)"

lemma pem_body_append: "pem_body (s @ t) = full_lines s @ pem_body (last_part s @ t)"
  using lines_append [of s t] by (simp add: pem_body_def)

lemma encode_stream_pending:
  assumes "ctx_ok 48 ctx" and "\<forall>c\<in>set cs. 65 * ((length c + 47) div 48) \<le> INT_MAX"
  shows "encode_stream ctx cs = pem_body (pending ctx @ concat cs)"
  using assms
proof (induction cs arbitrary: ctx)
  case Nil
  then show ?case using EVP_EncodeFinal_spec [OF Nil(1)] by (auto split: prod.splits)
next
  case (Cons c cs)
  obtain ctx' w n where upd: "EVP_EncodeUpdate ctx c = (ctx', w, n)" by (rule prod_cases3)
  have "length (pending ctx @ c) \<le> length c + 47"
    using Cons.prems(1) length_pending [OF Cons.prems(1)] by (simp add: ctx_ok_def)
  then have "65 * (length (pending ctx @ c) div 48) \<le> 65 * ((length c + 47) div 48)"
    by (intro mult_le_mono2 div_le_mono)
  then have size: "65 * (length (pending ctx @ c) div 48) \<le> INT_MAX"
    using Cons.prems(2) by (meson list.set_intros(1) le_trans)
  note u = EVP_EncodeUpdate_spec [OF Cons.prems(1) upd size]
  then have "encode_stream ctx' cs = pem_body (pending ctx' @ concat cs)"
    using Cons by simp
  moreover have "take n w = full_lines (pending ctx @ c)"
    and "pending ctx' = last_part (pending ctx @ c)" using u by blast+
  ultimately show ?case using upd pem_body_append [of "pending ctx @ c" "concat cs"] by simp
qed

lemma EVP_EncodeInit_ok [simp]: "ctx_ok 48 EVP_EncodeInit" "pending EVP_EncodeInit = []"
  by (simp_all add: ctx_ok_def EVP_EncodeInit_def pending_def)


section \<open>Streaming decoder\<close>

lemma decode_update_loop_append:
  "decode_update_loop ctx (xs @ ys) =
     (case decode_update_loop ctx xs of
        (False, ctx', out) \<Rightarrow> (False, ctx', out)
      | (True, ctx', out) \<Rightarrow>
          (case decode_update_loop ctx' ys of (ok, ctx'', out') \<Rightarrow> (ok, ctx'', out @ out')))"
  by (induction xs arbitrary: ctx) (auto split: prod.splits bool.splits sum.splits)

lemma decode_update_loop_spaces:
  "decode_update_loop ctx xs = decode_update_loop ctx (filter (\<lambda>c. \<not> is_space c) xs)"
  by (induction xs arbitrary: ctx)
    (auto simp: decode_char_def split: sum.splits prod.splits)

text \<open>A context between two quads.\<close>

definition idle :: "evp_encode_ctx \<Rightarrow> bool" where
  "idle ctx \<longleftrightarrow> ctx_ok 4 ctx \<and> data_used ctx = 0 \<and> \<not> eof_seen ctx \<and> \<not> error_encountered ctx"

lemma decode_quad_length: "base64_decode_quad i0 i1 i2 i3 = Some bs \<Longrightarrow> length bs \<le> 3"
  by (auto simp: decode_quad_Some)

lemma decode_update_loop_short:
  assumes "idle ctx" and "length s < 4" and "\<forall>c\<in>set s. \<not> is_space c"
  shows "\<exists>ctx'. decode_update_loop ctx s = (True, ctx', []) \<and> data_used ctx' = length s \<and>
    \<not> eof_seen ctx' \<and> \<not> error_encountered ctx'"
proof -
  consider "s = []" | a where "s = [a]" | a b where "s = [a, b]" | a b c where "s = [a, b, c]"
    using assms(2) by (cases s rule: remdups_adj.cases) (auto simp: less_Suc_eq length_Suc_conv numeral_eq_Suc)
  then show ?thesis using assms
    by cases (simp_all add: idle_def ctx_ok_def decode_char_def Let_def)
qed

lemma decode_update_loop_quad:
  assumes "idle ctx" and "\<forall>c\<in>{i0, i1, i2, i3}. \<not> is_space c"
  shows "case base64_decode_quad i0 i1 i2 i3 of
      None \<Rightarrow> \<exists>ctx'. decode_update_loop ctx [i0, i1, i2, i3] = (False, ctx', [])
    | Some bs \<Rightarrow> \<exists>ctx'. decode_update_loop ctx [i0, i1, i2, i3] = (True, ctx', bs) \<and>
        (if length bs = 3 then idle ctx'
         else data_used ctx' = 0 \<and> eof_seen ctx' \<and> \<not> error_encountered ctx')"
proof -
  let ?d = "(data ctx)[0 := i0, 1 := i1, 2 := i2, 3 := i3]"
  have nth: "?d ! 0 = i0" "?d ! 1 = i1" "?d ! 2 = i2" "?d ! 3 = i3"
    using assms(1) by (simp_all add: idle_def ctx_ok_def)
  have run: "decode_update_loop ctx [i0, i1, i2, i3] =
    (case base64_decode_quad (?d ! 0) (?d ! 1) (?d ! 2) (?d ! 3) of
       None \<Rightarrow> (False, ctx\<lparr>data := ?d, data_used := 4, error_encountered := True\<rparr>, [])
     | Some bs \<Rightarrow> (True, if length bs < 3 then ctx\<lparr>data := ?d, data_used := 0, eof_seen := True\<rparr>
         else ctx\<lparr>data := ?d, data_used := 0\<rparr>, bs))"
    using assms
    by (simp add: idle_def ctx_ok_def decode_char_def Let_def numeral_2_eq_2 numeral_3_eq_3
        split: option.splits)
  note run' = run [unfolded nth]
  show ?thesis
  proof (cases "base64_decode_quad i0 i1 i2 i3")
    case None
    then show ?thesis by (simp add: run' del: decode_update_loop.simps)
  next
    case (Some bs)
    then have "length bs \<le> 3" by (rule decode_quad_length)
    with Some assms(1) show ?thesis
      unfolding run' by (auto simp: idle_def ctx_ok_def)
  qed
qed

lemma decode_short_exact:
  assumes "idle ctx" and "length s < 4" and "\<forall>c\<in>set s. \<not> is_space c"
    and "decode_update_loop ctx s = (ok, ctx', out)"
  shows "((ok \<and> data_used ctx' = 0) \<longleftrightarrow> length s mod 4 = 0) \<and>
    (ok \<and> data_used ctx' = 0 \<longrightarrow> out = []) \<and> (ok \<longrightarrow> \<not> error_encountered ctx')"
proof -
  from decode_update_loop_short [OF assms(1-3)] assms(4)
  have "ok \<and> out = [] \<and> data_used ctx' = length s \<and> \<not> error_encountered ctx'" by auto
  with assms(2) show ?thesis by (simp add: mod_less)
qed

lemma decode_update_loop_exact:
  assumes "idle ctx" and "\<forall>c\<in>set s. \<not> is_space c"
    and "decode_update_loop ctx s = (ok, ctx', out)"
  shows "((ok \<and> data_used ctx' = 0) \<longleftrightarrow> length s mod 4 = 0 \<and> fst (decode_base64_loop s)) \<and>
    (ok \<and> data_used ctx' = 0 \<longrightarrow> out = snd (decode_base64_loop s)) \<and>
    (ok \<longrightarrow> \<not> error_encountered ctx')"
  using assms
proof (induction s arbitrary: ctx ok ctx' out rule: decode_base64_loop.induct [case_names quad e0 e1 e2 e3])
  case (quad i0 i1 i2 i3 inp)
  have sp: "\<forall>c\<in>{i0, i1, i2, i3}. \<not> is_space c" "\<forall>c\<in>set inp. \<not> is_space c"
    using quad(3) by simp_all
  have split: "decode_update_loop ctx ([i0, i1, i2, i3] @ inp) = (ok, ctx', out)"
    using quad(4) by simp
  note q = decode_update_loop_quad [OF quad(2) sp(1)]
  show ?case
  proof (cases "base64_decode_quad i0 i1 i2 i3")
    case None
    then show ?thesis using q split unfolding decode_update_loop_append by auto
  next
    case (Some bs)
    then obtain ctx1 where c1: "decode_update_loop ctx [i0, i1, i2, i3] = (True, ctx1, bs)"
      "if length bs = 3 then idle ctx1
         else data_used ctx1 = 0 \<and> eof_seen ctx1 \<and> \<not> error_encountered ctx1" using q by auto
    show ?thesis
    proof (cases "length bs = 3")
      case True
      obtain out1 where o: "decode_update_loop ctx1 inp = (ok, ctx', out1)" "out = bs @ out1"
        using split unfolding decode_update_loop_append c1(1) by (auto split: prod.splits)
      have "idle ctx1" using c1(2) True by simp
      from quad(1) [OF Some _ this sp(2) o(1)] True Some o(2) show ?thesis
        by (auto split: prod.splits)
    next
      case False
      show ?thesis
      proof (cases inp)
        case Nil
        then show ?thesis using split c1 False Some by simp
      next
        case (Cons c cs)
        then have "decode_char ctx1 c = Inl (ctx1\<lparr>error_encountered := True\<rparr>)"
          using c1(2) False sp(2) by (simp add: decode_char_def)
        then have "\<not> ok" using split unfolding decode_update_loop_append c1(1) Cons by auto
        then show ?thesis using Some False Cons by simp
      qed
    qed
  qed
next
  case e0
  then show ?case using decode_short_exact [of ctx "[]"] by simp
next
  case (e1 a)
  then show ?case using decode_short_exact [of ctx "[a]"] by simp
next
  case (e2 a b)
  then show ?case using decode_short_exact [of ctx "[a, b]"] by simp
next
  case (e3 a b c)
  then show ?case using decode_short_exact [of ctx "[a, b, c]"] by simp
qed


text \<open>A whole session of the decoder, \<open>None\<close> when a call returns \<open>-1\<close>.\<close>

fun decode_stream :: "evp_encode_ctx \<Rightarrow> byte list list \<Rightarrow> byte list option" where
  "decode_stream ctx [] = (if fst (EVP_DecodeFinal ctx) = 1 then Some [] else None)"
| "decode_stream ctx (c # cs) =
     (case EVP_DecodeUpdate ctx c of (r, ctx', w, n) \<Rightarrow>
        if r = - 1 then None else map_option (\<lambda>out. take n w @ out) (decode_stream ctx' cs))"

lemma decode_char_Inr:
  "decode_char ctx c = Inr (ctx', bs) \<Longrightarrow>
     length bs \<le> 3 \<and> error_encountered ctx' = error_encountered ctx"
  using decode_quad_length
  by (auto simp: decode_char_def Let_def split: if_splits option.splits)

lemma decode_loop_keeps:
  "decode_update_loop ctx s = (True, ctx', out) \<Longrightarrow>
     length out \<le> 3 * length s \<and> error_encountered ctx' = error_encountered ctx"
proof (induction s arbitrary: ctx out)
  case (Cons c s)
  then obtain ctx1 bs out1 where "decode_char ctx c = Inr (ctx1, bs)"
    "decode_update_loop ctx1 s = (True, ctx', out1)" "out = bs @ out1"
    by (auto split: sum.splits prod.splits)
  with Cons.IH [of ctx1 out1] decode_char_Inr show ?case by fastforce
qed simp

lemma decode_stream_loop:
  assumes "\<not> error_encountered ctx" and "\<forall>c\<in>set cs. 3 * length c \<le> INT_MAX"
  shows "decode_stream ctx cs =
    (case decode_update_loop ctx (concat cs) of
       (ok, ctx', out) \<Rightarrow> if ok \<and> data_used ctx' = 0 then Some out else None)"
  using assms
proof (induction cs arbitrary: ctx)
  case Nil
  then show ?case by (simp add: EVP_DecodeFinal_def)
next
  case (Cons c cs)
  obtain ok ctx1 w where r: "decode_update_loop ctx c = (ok, ctx1, w)" by (rule prod_cases3)
  show ?case
  proof (cases ok)
    case True
    with r have k: "length w \<le> 3 * length c" "\<not> error_encountered ctx1"
      using decode_loop_keeps [of ctx c ctx1 w] Cons.prems(1) by auto
    then have "\<not> INT_MAX < length w" using Cons.prems(2) by (meson list.set_intros(1) leD le_trans)
    with True Cons.prems(1) r have upd:
      "EVP_DecodeUpdate ctx c = (if eof_seen ctx1 then 0 else 1, ctx1, w, length w)"
      by (simp add: EVP_DecodeUpdate_def)
    show ?thesis
      using Cons.IH [OF k(2)] Cons.prems(2) True
      by (simp add: upd decode_update_loop_append r split: prod.splits)
  next
    case False
    then show ?thesis using Cons.prems(1)
      by (simp add: EVP_DecodeUpdate_def decode_update_loop_append r)
  qed
qed

lemma EVP_DecodeInit_idle [simp]: "idle EVP_DecodeInit" "\<not> error_encountered EVP_DecodeInit"
  by (simp_all add: idle_def ctx_ok_def EVP_DecodeInit_def)

lemma b64_decodes_mod: "b64_decodes s out \<Longrightarrow> length s mod 4 = 0"
  by (auto simp: b64_decodes_def b64_text_def)

lemma decode_stream_exact:
  assumes "\<forall>c\<in>set cs. 3 * length c \<le> INT_MAX"
  shows "decode_stream EVP_DecodeInit cs = Some out \<longleftrightarrow>
    b64_decodes (filter (\<lambda>c. \<not> is_space c) (concat cs)) out"
proof -
  let ?s = "filter (\<lambda>c. \<not> is_space c) (concat cs)"
  obtain ok ctx1 w where r: "decode_update_loop EVP_DecodeInit ?s = (ok, ctx1, w)" by (rule prod_cases3)
  have "decode_stream EVP_DecodeInit cs = (if ok \<and> data_used ctx1 = 0 then Some w else None)"
    using decode_stream_loop [OF EVP_DecodeInit_idle(2) assms] r
      decode_update_loop_spaces [of EVP_DecodeInit "concat cs"] by simp
  moreover note decode_update_loop_exact [OF EVP_DecodeInit_idle(1) _ r]
  ultimately have "decode_stream EVP_DecodeInit cs = Some out \<longleftrightarrow>
      length ?s mod 4 = 0 \<and> decode_base64_loop ?s = (True, out)"
    by (cases "decode_base64_loop ?s") auto
  also have "\<dots> \<longleftrightarrow> b64_decodes ?s out"
  proof (cases "length ?s mod 4 = 0")
    case True
    then show ?thesis using decode_base64_loop_exact [OF True] by simp
  next
    case False
    then have "\<not> b64_decodes ?s out" by (rule contrapos_nn) (rule b64_decodes_mod)
    with False show ?thesis by simp
  qed
  finally show ?thesis .
qed

section \<open>Reading back what was written\<close>

lemma enc_nonspace: "filter (\<lambda>c. \<not> is_space c) (b64_enc s) = b64_enc s"
proof -
  obtain d n where "b64_text (b64_enc s) d n"
    using enc_decodes [of s] by (auto simp: b64_decodes_def)
  then have "\<forall>c\<in>set (b64_enc s). \<not> is_space c"
    by (auto simp: b64_text_def dest: digit_nonspace) (auto simp: is_space_def)
  then show ?thesis by (simp add: filter_id_conv)
qed

lemma newline_space: "is_space 0x0A"
  by (simp add: is_space_def)

lemma pem_body_text: "filter (\<lambda>c. \<not> is_space c) (pem_body s) = b64_enc s"
proof (induction s rule: lines_induct)
  case (short s)
  have "b64_enc [] = []" by (simp add: b64_enc_def)
  with short show ?case by (simp add: pem_body_def lines_short enc_nonspace newline_space)
next
  case (step s t)
  have "pem_body (s @ t) = b64_enc s @ [0x0A] @ pem_body t"
    using lines_step [OF step(1), of t] by (simp add: pem_body_def)
  with step show ?case by (simp add: enc_nonspace enc_append newline_space)
qed


section \<open>Properties\<close>

text \<open>
  C11: \<open>EVP_EncodeBlock\<close> writes a base64 text and a NUL and returns the length of the text. The
  text has \<open>4 * ceil(n / 3)\<close> characters, and the bits of its data characters are the bits of
  the input followed by two zero bits for each padding character.
\<close>

theorem EVP_EncodeBlock_bits:
  "\<exists>t d p. EVP_EncodeBlock src = (t @ [0], length t) \<and> b64_text t d p \<and>
     length t = 4 * ((length src + 2) div 3) \<and>
     text_bits d = bytes_bits src @ replicate (2 * p) False"
  using encode_block_loop_bits [of src "b64_enc src"] EVP_EncodeBlock_enc [of src]
  by (cases "encode_block_loop src") (auto simp: b64_enc_def)

text \<open>
  C8: \<open>EVP_DecodeBase64\<close> succeeds exactly when the output buffer can hold three bytes for every
  four characters and the input is a base64 text; it then writes the bytes the text denotes
  and reports their number.
\<close>

theorem EVP_DecodeBase64_exact:
  "EVP_DecodeBase64 max_out inp = (True, n, w) \<longleftrightarrow>
     length inp div 4 * 3 \<le> max_out \<and> b64_decodes inp w \<and> n = length w"
proof (cases "length inp mod 4 = 0")
  case True
  then show ?thesis using decode_base64_loop_exact [OF True, of w]
    by (auto simp: EVP_DecodeBase64_def EVP_DecodedLength_def split: prod.splits bool.splits)
next
  case False
  then show ?thesis using b64_decodes_mod by (auto simp: EVP_DecodeBase64_def)
qed

text \<open>
  C9: The streaming encoder is independent of how the input is cut: the concatenation of the
  outputs of the updates and of the final call is the input in lines of 48 bytes, each
  encoded and ended by a newline, as long as no single output passes \<open>INT_MAX\<close>.
\<close>

theorem EVP_EncodeUpdate_stream:
  assumes "\<forall>c\<in>set cs. 65 * ((length c + 47) div 48) \<le> INT_MAX"
  shows "encode_stream EVP_EncodeInit cs = pem_body (concat cs)"
  using encode_stream_pending [OF EVP_EncodeInit_ok(1) assms] by simp

lemma EVP_EncodeUpdate_stream_witness:
  "encode_stream EVP_EncodeInit [replicate 47 1, [], [2, 3, 4]] = pem_body (replicate 47 1 @ [2, 3, 4])"
  using EVP_EncodeUpdate_stream [of "[replicate 47 1, [], [2, 3, 4]]"] by (simp add: INT_MAX_def)

text \<open>
  C10: The streaming decoder accepts a sequence of chunks exactly when \<open>EVP_DecodeBase64\<close>
  accepts their concatenation without white space, and its outputs add up to the same bytes.
\<close>

theorem EVP_DecodeUpdate_stream:
  assumes "\<forall>c\<in>set cs. 3 * length c \<le> INT_MAX"
  shows "decode_stream EVP_DecodeInit cs = Some out \<longleftrightarrow>
    (let s = filter (\<lambda>c. \<not> is_space c) (concat cs) in
     EVP_DecodeBase64 (length s) s = (True, length out, out))"
proof -
  let ?s = "filter (\<lambda>c. \<not> is_space c) (concat cs)"
  have fits: "length s div 4 * 3 \<le> length s" for s :: "byte list" by linarith
  have "EVP_DecodeBase64 (length s) s = (True, length out, out) \<longleftrightarrow> b64_decodes s out" for s
  proof (cases "length s mod 4 = 0")
    case True
    then show ?thesis using decode_base64_loop_exact [OF True, of out] fits [of s]
      by (auto simp: EVP_DecodeBase64_def EVP_DecodedLength_def split: prod.splits bool.splits)
  next
    case False
    then show ?thesis using b64_decodes_mod by (auto simp: EVP_DecodeBase64_def)
  qed
  then show ?thesis using decode_stream_exact [OF assms] by (simp add: Let_def)
qed

lemma EVP_DecodeUpdate_stream_witness:
  "decode_stream EVP_DecodeInit [[0x54, 0x51], [0x0A, 0x3D, 0x3D]] = Some [77]"
proof -
  have "EVP_DecodeBase64 (Suc (Suc (Suc (Suc 0)))) [0x54, 0x51, 0x3D, 0x3D] = (True, Suc 0, [77])"
    by code_simp
  then show ?thesis
    using EVP_DecodeUpdate_stream [of "[[0x54, 0x51], [0x0A, 0x3D, 0x3D]]" "[77]"]
    by (simp add: INT_MAX_def is_space_def)
qed

text \<open>
  C7: What the streaming encoder writes, cut into any chunks, the streaming decoder reads
  back as the original message.
\<close>

theorem base64_stream_roundtrip:
  assumes "\<forall>c\<in>set cs. 65 * ((length c + 47) div 48) \<le> INT_MAX"
    and "\<forall>d\<in>set ds. 3 * length d \<le> INT_MAX"
    and "concat ds = encode_stream EVP_EncodeInit cs"
  shows "decode_stream EVP_DecodeInit ds = Some (concat cs)"
  using encode_stream_pending [OF EVP_EncodeInit_ok(1) assms(1)] assms(3)
  by (simp add: decode_stream_exact [OF assms(2)] pem_body_text enc_decodes)

lemma base64_stream_roundtrip_witness:
  "decode_stream EVP_DecodeInit [[0x54, 0x51], [0x3D, 0x3D, 0x0A]] = Some [77]"
proof -
  have "encode_stream EVP_EncodeInit [[77]] = [0x54, 0x51, 0x3D, 0x3D, 0x0A]" by code_simp
  then show ?thesis
    using base64_stream_roundtrip [of "[[77]]" "[[0x54, 0x51], [0x3D, 0x3D, 0x0A]]"]
    by (simp add: INT_MAX_def)
qed

text \<open>
  \<open>EVP_EncodedLength\<close> succeeds exactly when the encoding and its NUL can be counted in a
  \<open>size_t\<close>, and the count is the number of bytes \<open>EVP_EncodeBlock\<close> writes.
\<close>

theorem EVP_EncodedLength_exact:
  "(EVP_EncodedLength n = Some m \<longleftrightarrow>
      4 * ((unat n + 2) div 3) + 1 < size_max1 \<and> unat m = 4 * ((unat n + 2) div 3) + 1) \<and>
   length (fst (EVP_EncodeBlock src)) = 4 * ((length src + 2) div 3) + 1"
proof -
  define N Q where "N = unat n" and "Q = (N + 2) div 3"
  have N: "N < 2 ^ 64" using unat_u64_less [of n] by (simp add: N_def)
  have wrap: "n + 2 < n \<longleftrightarrow> 2 ^ 64 \<le> N + 2"
    using N by (simp add: word_less_nat_alt unat_word_ariths flip: N_def) (auto simp: mod_if)
  have length: "EVP_EncodedLength n = Some m \<longleftrightarrow> 4 * Q + 1 < 2 ^ 64 \<and> unat m = 4 * Q + 1"
  proof (cases "2 ^ 64 \<le> N + 2")
    case True
    then have "2 ^ 64 div 3 \<le> Q" unfolding Q_def by (rule div_le_mono)
    then have "\<not> 4 * Q + 1 < 2 ^ 64" by simp
    then show ?thesis using wrap True by (simp add: EVP_EncodedLength_def)
  next
    case False
    define q where "q = (n + 2) div 3"
    have q: "unat q = Q"
      using False by (simp add: q_def Q_def unat_div unat_word_ariths flip: N_def)
    have p: "unat (push_bit 2 q) = 4 * Q mod 2 ^ 64"
      by (simp add: push_bit_eq_mult unat_word_ariths q mult.commute)
    have "unat (drop_bit 2 (push_bit 2 q)) = 4 * Q mod 2 ^ 64 div 4"
      by (simp add: drop_bit_eq_div unat_div p)
    then have d: "drop_bit 2 (push_bit 2 q) = q \<longleftrightarrow> 4 * Q < 2 ^ 64"
      using q by (auto simp: word_unat_eq_iff)
    have e: "EVP_EncodedLength n = (if drop_bit 2 (push_bit 2 q) \<noteq> q \<or> push_bit 2 q + 1 < push_bit 2 q
        then None else Some (push_bit 2 q + 1))"
      using False wrap by (simp add: EVP_EncodedLength_def Let_def flip: q_def)
    show ?thesis
    proof (cases "4 * Q < 2 ^ 64")
      case True
      then obtain k where "4 * Q + 4 * k = 2 ^ 64" and "0 < k"
        using that [of "2 ^ 62 - Q"] by simp
      then have lt: "4 * Q + 1 < 2 ^ 64" by linarith
      have m: "unat (push_bit 2 q) = 4 * Q" using True by (simp add: p)
      then have m1: "unat (push_bit 2 q + 1) = 4 * Q + 1"
        using lt by (simp add: unat_word_ariths)
      then have "\<not> push_bit 2 q + 1 < push_bit 2 q" by (simp add: word_less_nat_alt m)
      then have "EVP_EncodedLength n = Some (push_bit 2 q + 1)" using d True by (simp add: e)
      then show ?thesis using lt m1 by (auto simp: word_unat_eq_iff)
    next
      case False
      then show ?thesis using d by (simp add: e)
    qed
  qed
  moreover have "length (fst (EVP_EncodeBlock src)) = 4 * ((length src + 2) div 3) + 1"
    by (simp add: EVP_EncodeBlock_enc length_enc)
  ultimately show ?thesis by (simp add: N_def Q_def)
qed

end
