(* ===== verification/Stack.thy ===== *)
theory Stack
  imports Mem Qsort
begin

text \<open>
  The growable array of pointers of \<open>crypto/stack/stack.c\<close>: creation, access, insertion and
  deletion by index, growth with its overflow tests, linear and binary search, sorting through
  the C library's \<open>qsort\<close>, and copying.
\<close>

section \<open>State\<close>

text \<open>
  A \<open>void *\<close> is \<open>NULL\<close> or an object. A comparison function is a function pointer, a number
  here; calling it goes through the argument \<open>call_cmp\<close>, as in the code, which turns the
  pointer into the function it names. Fields are those of \<open>struct stack_st\<close> with the prefix
  \<open>st_\<close>. A stack argument may be \<open>NULL\<close>.
\<close>

type_synonym 'a ptr = "'a option"
type_synonym 'a call_cmp = "nat \<Rightarrow> 'a ptr cmp"

record 'a stack_st =
  st_num :: nat
  st_data :: "'a ptr list"
  st_sorted :: bool
  st_num_alloc :: nat
  st_comp :: "nat option"

text \<open>
  What \<open>OPENSSL_malloc\<close> and \<open>OPENSSL_realloc\<close> (theory \<open>Mem\<close>) do for arrays of pointers: a
  request in bytes is granted with some contents, one pointer for every eight bytes.
\<close>

type_synonym 'a palloc = "nat \<Rightarrow> 'a ptr list option"

definition palloc_ok :: "'a palloc \<Rightarrow> bool" where
  "palloc_ok m \<longleftrightarrow> (\<forall>n b. m n = Some b \<longrightarrow> length b = n div 8 \<and> n < 2 ^ 63)"

definition realloc_ptrs :: "'a palloc \<Rightarrow> 'a ptr list \<Rightarrow> nat \<Rightarrow> 'a ptr list option" where
  "realloc_ptrs m old n = map_option (\<lambda>b. take (length b) old @ drop (length old) b) (m n)"

text \<open>\<open>memmove\<close> and \<open>memcpy\<close> of \<open>n\<close> pointers.\<close>

definition ptr_move :: "'a ptr list \<Rightarrow> nat \<Rightarrow> 'a ptr list \<Rightarrow> nat \<Rightarrow> nat \<Rightarrow> 'a ptr list" where
  "ptr_move dst d src s n = take d dst @ take n (drop s src) @ drop (d + n) dst"

definition kMinSize :: nat where
  "kMinSize = 4"

definition sizeof_STACK :: u64 where
  "sizeof_STACK = 40"

section \<open>Operations\<close>

definition sk_new :: "libc \<Rightarrow> 'a palloc \<Rightarrow> nat option \<Rightarrow> 'a stack_st option" where
  "sk_new m pm cmpf = (
     case OPENSSL_malloc m sizeof_STACK of
       None \<Rightarrow> None
     | Some _ \<Rightarrow>
         (case pm (8 * kMinSize) of
            None \<Rightarrow> None
          | Some b \<Rightarrow>
              Some \<lparr>st_num = 0, st_data = replicate kMinSize None @ drop kMinSize b,
                    st_sorted = False, st_num_alloc = kMinSize, st_comp = cmpf\<rparr>))"

definition sk_new_null :: "libc \<Rightarrow> 'a palloc \<Rightarrow> 'a stack_st option" where
  "sk_new_null m pm = sk_new m pm None"

definition sk_num :: "'a stack_st option \<Rightarrow> nat" where
  "sk_num sk = (case sk of None \<Rightarrow> 0 | Some s \<Rightarrow> st_num s)"

definition sk_zero :: "'a stack_st option \<Rightarrow> 'a stack_st option" where
  "sk_zero sk = (
     case sk of
       None \<Rightarrow> None
     | Some s \<Rightarrow>
         if st_num s = 0 then Some s
         else Some (s\<lparr>st_data := replicate (st_num s) None @ drop (st_num s) (st_data s),
                      st_num := 0, st_sorted := False\<rparr>))"

definition sk_value :: "'a stack_st option \<Rightarrow> nat \<Rightarrow> 'a ptr" where
  "sk_value sk i = (
     case sk of None \<Rightarrow> None | Some s \<Rightarrow> if i \<ge> st_num s then None else st_data s ! i)"

definition sk_set :: "'a stack_st option \<Rightarrow> nat \<Rightarrow> 'a ptr \<Rightarrow> 'a stack_st option \<times> 'a ptr" where
  "sk_set sk i v = (
     case sk of
       None \<Rightarrow> (None, None)
     | Some s \<Rightarrow>
         if i \<ge> st_num s then (Some s, None) else (Some (s\<lparr>st_data := (st_data s)[i := v]\<rparr>), v))"

text \<open>The objects handed to the destructor, in order; the stack itself is gone afterwards.\<close>

definition sk_pop_free_ex :: "'a stack_st option \<Rightarrow> 'a list" where
  "sk_pop_free_ex sk = (
     case sk of
       None \<Rightarrow> []
     | Some s \<Rightarrow> concat (map (\<lambda>p. case p of None \<Rightarrow> [] | Some x \<Rightarrow> [x]) (take (st_num s) (st_data s))))"

definition sk_pop_free :: "'a stack_st option \<Rightarrow> 'a list" where
  "sk_pop_free sk = sk_pop_free_ex sk"

text \<open>
  The new capacity of a full stack: doubled, or one more when doubling overflows, or an error
  when that overflows too. \<open>size_t\<close> wraps.
\<close>

definition sk_new_alloc :: "nat \<Rightarrow> nat option" where
  "sk_new_alloc num_alloc = (
     let new_alloc = num_alloc * 2 mod size_max1;
         alloc_size = new_alloc * 8 mod size_max1;
         new_alloc =
           (if new_alloc < num_alloc \<or> alloc_size div 8 \<noteq> new_alloc
            then (num_alloc + 1) mod size_max1 else new_alloc);
         alloc_size = new_alloc * 8 mod size_max1 in
     if new_alloc < num_alloc \<or> alloc_size div 8 \<noteq> new_alloc then None else Some new_alloc)"

definition sk_grow :: "'a palloc \<Rightarrow> 'a stack_st \<Rightarrow> 'a stack_st option" where
  "sk_grow pm s = (
     if st_num_alloc s \<le> (st_num s + 1) mod size_max1 then
       (case sk_new_alloc (st_num_alloc s) of
          None \<Rightarrow> None
        | Some new_alloc \<Rightarrow>
            (case realloc_ptrs pm (st_data s) (8 * new_alloc) of
               None \<Rightarrow> None
             | Some data \<Rightarrow> Some (s\<lparr>st_data := data, st_num_alloc := new_alloc\<rparr>)))
     else Some s)"

definition sk_insert ::
  "'a palloc \<Rightarrow> 'a stack_st option \<Rightarrow> 'a ptr \<Rightarrow> nat \<Rightarrow> 'a stack_st option \<times> nat" where
  "sk_insert pm sk p pos = (
     case sk of
       None \<Rightarrow> (None, 0)
     | Some s0 \<Rightarrow>
         (case sk_grow pm s0 of
            None \<Rightarrow> (Some s0, 0)
          | Some s \<Rightarrow>
              let d = (if pos \<ge> st_num s then (st_data s)[st_num s := p]
                       else (ptr_move (st_data s) (pos + 1) (st_data s) pos (st_num s - pos))[pos := p]);
                  n = (st_num s + 1) mod size_max1 in
              (Some (s\<lparr>st_data := d, st_num := n, st_sorted := False\<rparr>), n)))"

definition sk_delete :: "'a stack_st option \<Rightarrow> nat \<Rightarrow> 'a stack_st option \<times> 'a ptr" where
  "sk_delete sk pos = (
     case sk of
       None \<Rightarrow> (None, None)
     | Some s \<Rightarrow>
         if pos \<ge> st_num s then (Some s, None)
         else
           let ret = st_data s ! pos;
               d = (if pos \<noteq> st_num s - 1
                    then ptr_move (st_data s) pos (st_data s) (pos + 1) (st_num s - pos - 1)
                    else st_data s) in
           (Some (s\<lparr>st_data := d, st_num := st_num s - 1\<rparr>), ret))"

text \<open>The linear searches: the first index below \<open>n\<close>, from \<open>i\<close> on, whose element satisfies the test.\<close>

fun scan_from :: "('a \<Rightarrow> bool) \<Rightarrow> 'a list \<Rightarrow> nat \<Rightarrow> nat option" where
  "scan_from t [] i = None"
| "scan_from t (x # xs) i = (if t x then Some i else scan_from t xs (i + 1))"

definition sk_delete_ptr ::
  "'a stack_st option \<Rightarrow> 'a ptr \<Rightarrow> 'a stack_st option \<times> 'a ptr" where
  "sk_delete_ptr sk p = (
     case sk of
       None \<Rightarrow> (None, None)
     | Some s \<Rightarrow>
         (case scan_from (\<lambda>x. x = p) (take (st_num s) (st_data s)) 0 of
            None \<Rightarrow> (Some s, None)
          | Some i \<Rightarrow> sk_delete (Some s) i))"

text \<open>The binary search of \<open>sk_find\<close> on \<open>[lo, hi)\<close>: the earliest match.\<close>

function sk_bsearch :: "'a cmp \<Rightarrow> 'a list \<Rightarrow> 'a \<Rightarrow> nat \<Rightarrow> nat \<Rightarrow> nat option" where
  "sk_bsearch cmp d p lo hi = (
     if lo < hi then
       let mid = lo + (hi - lo - 1) div 2;
           r = cmp p (d ! mid) in
       if r > 0 then sk_bsearch cmp d p (mid + 1) hi
       else if r < 0 then sk_bsearch cmp d p lo mid
       else if hi - lo = 1 then Some mid
       else sk_bsearch cmp d p lo (mid + 1)
     else None)"
  by auto

termination
  by (relation "measure (\<lambda>(cmp, d, p, lo, hi). hi - lo)") auto

declare sk_bsearch.simps [simp del]

definition sk_is_sorted :: "'a stack_st option \<Rightarrow> bool" where
  "sk_is_sorted sk = (case sk of None \<Rightarrow> True | Some s \<Rightarrow> st_sorted s)"

definition sk_find :: "'a call_cmp \<Rightarrow> 'a stack_st option \<Rightarrow> 'a ptr \<Rightarrow> nat option" where
  "sk_find call_cmp sk p = (
     case sk of
       None \<Rightarrow> None
     | Some s \<Rightarrow>
         (case st_comp s of
            None \<Rightarrow> scan_from (\<lambda>x. x = p) (take (st_num s) (st_data s)) 0
          | Some c \<Rightarrow>
              if p = None then None
              else if \<not> sk_is_sorted sk
              then scan_from (\<lambda>x. call_cmp c p x = 0) (take (st_num s) (st_data s)) 0
              else sk_bsearch (call_cmp c) (st_data s) p 0 (st_num s)))"

definition sk_shift :: "'a stack_st option \<Rightarrow> 'a stack_st option \<times> 'a ptr" where
  "sk_shift sk = (
     case sk of
       None \<Rightarrow> (None, None)
     | Some s \<Rightarrow> if st_num s = 0 then (Some s, None) else sk_delete (Some s) 0)"

definition sk_push :: "'a palloc \<Rightarrow> 'a stack_st option \<Rightarrow> 'a ptr \<Rightarrow> 'a stack_st option \<times> nat" where
  "sk_push pm sk p = sk_insert pm sk p (sk_num sk)"

definition sk_pop :: "'a stack_st option \<Rightarrow> 'a stack_st option \<times> 'a ptr" where
  "sk_pop sk = (
     case sk of
       None \<Rightarrow> (None, None)
     | Some s \<Rightarrow> if st_num s = 0 then (Some s, None) else sk_delete (Some s) (st_num s - 1))"

definition sk_dup :: "libc \<Rightarrow> 'a palloc \<Rightarrow> 'a palloc \<Rightarrow> 'a stack_st option \<Rightarrow> 'a stack_st option" where
  "sk_dup m pm pm2 sk = (
     case sk of
       None \<Rightarrow> None
     | Some s \<Rightarrow>
         (case sk_new m pm (st_comp s) of
            None \<Rightarrow> None
          | Some ret \<Rightarrow>
              (case realloc_ptrs pm2 (st_data ret) (8 * st_num_alloc s mod size_max1) of
                 None \<Rightarrow> None
               | Some d \<Rightarrow>
                   Some (ret\<lparr>st_data := ptr_move d 0 (st_data s) 0 (st_num s), st_num := st_num s,
                             st_sorted := st_sorted s, st_num_alloc := st_num_alloc s,
                             st_comp := st_comp s\<rparr>))))"

text \<open>\<open>qsort\<close> is the C library's; it is called with the function the comparison pointer names.\<close>

definition sk_sort :: "'a ptr qsort \<Rightarrow> 'a call_cmp \<Rightarrow> 'a stack_st option \<Rightarrow> 'a stack_st option" where
  "sk_sort qs call_cmp sk = (
     case sk of
       None \<Rightarrow> None
     | Some s \<Rightarrow>
         (case st_comp s of
            None \<Rightarrow> Some s
          | Some c \<Rightarrow>
              if st_sorted s then Some s
              else
                let d = (if st_num s \<ge> 2
                         then qs (call_cmp c) (take (st_num s) (st_data s)) @ drop (st_num s) (st_data s)
                         else st_data s) in
                Some (s\<lparr>st_data := d, st_sorted := True\<rparr>)))"

definition sk_set_cmp_func :: "'a stack_st \<Rightarrow> nat option \<Rightarrow> 'a stack_st \<times> nat option" where
  "sk_set_cmp_func s cmpf =
     (s\<lparr>st_sorted := (if st_comp s \<noteq> cmpf then False else st_sorted s), st_comp := cmpf\<rparr>, st_comp s)"

text \<open>
  The copying loop of \<open>sk_deep_copy\<close> over the elements still to copy, after the copies \<open>done\<close>:
  \<open>Inr\<close> all copies, or \<open>Inl\<close> the copies handed to the destructor when a copy fails.
\<close>

fun deep_copy_loop :: "('a \<Rightarrow> 'a ptr) \<Rightarrow> 'a ptr list \<Rightarrow> 'a ptr list \<Rightarrow> 'a list + 'a ptr list" where
  "deep_copy_loop copy copied [] = Inr copied"
| "deep_copy_loop copy copied (None # xs) = deep_copy_loop copy (copied @ [None]) xs"
| "deep_copy_loop copy copied (Some x # xs) = (
     case copy x of
       None \<Rightarrow> Inl (concat (map (\<lambda>p. case p of None \<Rightarrow> [] | Some y \<Rightarrow> [y]) copied))
     | Some y \<Rightarrow> deep_copy_loop copy (copied @ [Some y]) xs)"

definition sk_deep_copy ::
  "libc \<Rightarrow> 'a palloc \<Rightarrow> 'a palloc \<Rightarrow> ('a \<Rightarrow> 'a ptr) \<Rightarrow> 'a stack_st option \<Rightarrow> 'a stack_st option \<times> 'a list" where
  "sk_deep_copy m pm pm2 copy sk = (
     case sk_dup m pm pm2 sk of
       None \<Rightarrow> (None, [])
     | Some ret \<Rightarrow>
         (case deep_copy_loop copy [] (take (st_num ret) (st_data ret)) of
            Inl freed \<Rightarrow> (None, freed)
          | Inr xs \<Rightarrow> (Some (ret\<lparr>st_data := xs @ drop (st_num ret) (st_data ret)\<rparr>), [])))"

end
