(* ===== verification/StackSpec.thy ===== *)
theory StackSpec
  imports Stack
begin

text \<open>
  What a stack promises: a list of pointers under insertion, deletion and sorting, as a step
  relation that leaves open which allocations fail and how \<open>qsort\<close> orders equal elements; the
  refinement of that relation by the code; and the two searches, which agree.
\<close>

section \<open>Searching\<close>

lemma find_split: "find P (xs @ ys) = (case find P xs of None \<Rightarrow> find P ys | Some x \<Rightarrow> Some x)"
  by (induction xs) auto

lemma find_drop_prefix: "(\<forall>x\<in>set xs. \<not> P x) \<Longrightarrow> find P (xs @ ys) = find P ys"
  by (induction xs) auto

lemma find_drop_suffix: "(\<forall>y\<in>set ys. \<not> P y) \<Longrightarrow> find P (xs @ ys) = find P xs"
  using find_None_iff2 [of P ys] by (auto simp: find_split split: option.split)

lemma scan_from_append: "scan_from t (xs @ ys) k =
    (case scan_from t xs k of None \<Rightarrow> scan_from t ys (k + length xs) | Some i \<Rightarrow> Some i)"
  by (induction xs arbitrary: k) (simp_all split: option.split)

lemma scan_from_find: "scan_from t xs 0 = find (\<lambda>i. t (xs ! i)) [0..<length xs]"
proof (induction xs rule: rev_induct)
  case (snoc x xs)
  have "find (\<lambda>i. t ((xs @ [x]) ! i)) [0..<length xs] = find (\<lambda>i. t (xs ! i)) [0..<length xs]"
    by (rule find_cong) (auto simp: nth_append)
  with snoc show ?case by (simp add: scan_from_append find_split split: option.split)
qed simp

text \<open>A comparator whose sign turns round with its arguments.\<close>

locale sign_comparator = comparator +
  assumes sign: "cmp a b \<le> 0 \<longleftrightarrow> 0 \<le> cmp b a"

context sign_comparator
begin

lemma sorted_nth_le:
  assumes "sorted_wrt (\<lambda>a b. cmp a b \<le> 0) xs" and "i \<le> j" and "j < length xs"
  shows "cmp (xs ! i) (xs ! j) \<le> 0"
  using assms total [of "xs ! i" "xs ! i"] by (cases "i = j") (auto simp: sorted_wrt_iff_nth_less)

lemma above_prefix:
  "sorted_wrt (\<lambda>a b. cmp a b \<le> 0) xs \<Longrightarrow> mid < length xs \<Longrightarrow> cmp p (xs ! mid) > 0 \<Longrightarrow> j \<le> mid \<Longrightarrow>
   cmp p (xs ! j) \<noteq> 0"
  using sorted_nth_le [of xs j mid] trans [of p "xs ! j" "xs ! mid"] by force

lemma below_suffix:
  "sorted_wrt (\<lambda>a b. cmp a b \<le> 0) xs \<Longrightarrow> j < length xs \<Longrightarrow> cmp p (xs ! mid) < 0 \<Longrightarrow> mid \<le> j \<Longrightarrow>
   cmp p (xs ! j) \<noteq> 0"
  using sorted_nth_le [of xs mid j] trans [of "xs ! mid" "xs ! j" p] sign [of "xs ! j" p]
    sign [of "xs ! mid" p] by force

lemma sk_bsearch_find:
  assumes sorted: "sorted_wrt (\<lambda>a b. cmp a b \<le> 0) xs" and "hi \<le> length xs"
  shows "sk_bsearch cmp xs p lo hi = find (\<lambda>i. cmp p (xs ! i) = 0) [lo..<hi]"
  using assms(2)
proof (induction "hi - lo" arbitrary: lo hi rule: less_induct)
  case less
  show ?case
  proof (cases "lo < hi")
    case True
    define mid where "mid = lo + (hi - lo - 1) div 2"
    have mid: "lo \<le> mid" "mid < hi" "mid < length xs" using True less(2) by (auto simp: mid_def)
    have split: "[lo..<hi] = [lo..<Suc mid] @ [Suc mid..<hi]" "[lo..<hi] = [lo..<mid] @ [mid..<hi]"
      using mid upt_add_eq_append [of lo "Suc mid" "hi - Suc mid"] upt_add_eq_append [of lo mid "hi - mid"]
      by simp_all
    have step: "sk_bsearch cmp xs p lo hi =
      (if cmp p (xs ! mid) > 0 then sk_bsearch cmp xs p (Suc mid) hi
       else if cmp p (xs ! mid) < 0 then sk_bsearch cmp xs p lo mid
       else if hi - lo = 1 then Some mid else sk_bsearch cmp xs p lo (Suc mid))"
      using True by (subst sk_bsearch.simps) (simp add: Let_def mid_def)
    consider "cmp p (xs ! mid) > 0" | "cmp p (xs ! mid) < 0" | "cmp p (xs ! mid) = 0" by linarith
    then show ?thesis
    proof cases
      case 1
      have "sk_bsearch cmp xs p lo hi = sk_bsearch cmp xs p (Suc mid) hi"
        using 1 by (simp add: step)
      also have "\<dots> = find (\<lambda>i. cmp p (xs ! i) = 0) [Suc mid..<hi]"
        using less(1) [of hi "Suc mid"] less(2) mid by simp
      also have "\<dots> = find (\<lambda>i. cmp p (xs ! i) = 0) [lo..<hi]"
        unfolding split(1) using above_prefix [OF sorted mid(3) 1] by (subst find_drop_prefix) auto
      finally show ?thesis .
    next
      case 2
      have "sk_bsearch cmp xs p lo hi = sk_bsearch cmp xs p lo mid"
        using 2 by (simp add: step)
      also have "\<dots> = find (\<lambda>i. cmp p (xs ! i) = 0) [lo..<mid]"
        using less(1) [of mid lo] less(2) mid by simp
      also have "\<dots> = find (\<lambda>i. cmp p (xs ! i) = 0) [lo..<hi]"
        unfolding split(2) using below_suffix [OF sorted _ 2] less(2) by (subst find_drop_suffix) auto
      finally show ?thesis .
    next
      case 3
      show ?thesis
      proof (cases "hi - lo = 1")
        case one: True
        then have "hi = Suc lo" "mid = lo" using True by (auto simp: mid_def)
        with 3 step show ?thesis by simp
      next
        case False
        then have m: "Suc mid < hi" using True by (simp add: mid_def)
        have "sk_bsearch cmp xs p lo hi = sk_bsearch cmp xs p lo (Suc mid)"
          using 3 False by (simp add: step)
        also have "\<dots> = find (\<lambda>i. cmp p (xs ! i) = 0) [lo..<Suc mid]"
          using less(1) [of "Suc mid" lo] less(2) m mid by simp
        also have "\<dots> = find (\<lambda>i. cmp p (xs ! i) = 0) [lo..<hi]"
          unfolding split(1) find_split using mid(1) 3
          by (auto simp: find_split split: option.split)
        finally show ?thesis .
      qed
    qed
  next
    case False
    then show ?thesis by (simp add: sk_bsearch.simps [of cmp xs p lo])
  qed
qed

end


section \<open>The list a stack stands for\<close>

definition elems :: "'a stack_st \<Rightarrow> 'a ptr list" where
  "elems s = take (st_num s) (st_data s)"

definition stack_ok :: "'a stack_st \<Rightarrow> bool" where
  "stack_ok s \<longleftrightarrow> length (st_data s) = st_num_alloc s \<and> st_num s < st_num_alloc s \<and>
     st_num_alloc s < 2 ^ 60"

lemma length_elems [simp]: "stack_ok s \<Longrightarrow> length (elems s) = st_num s"
  by (simp add: elems_def stack_ok_def)

lemma sk_new_spec:
  "palloc_ok pm \<Longrightarrow> sk_new m pm c = Some s \<Longrightarrow>
     stack_ok s \<and> elems s = [] \<and> st_comp s = c \<and> \<not> st_sorted s"
  by (auto simp: sk_new_def palloc_ok_def stack_ok_def elems_def kMinSize_def split: option.splits)

lemma sk_new_alloc_cases:
  assumes "a < 2 ^ 60"
  shows "sk_new_alloc a = Some (2 * a)"
  using assms by (simp add: sk_new_alloc_def Let_def mult.commute)

lemma sk_grow_spec:
  assumes "stack_ok s" and "palloc_ok pm" and "sk_grow pm s = Some s'"
  shows "stack_ok s' \<and> elems s' = elems s \<and> st_num s' + 1 < st_num_alloc s' \<and>
    st_num s' = st_num s \<and> st_sorted s' = st_sorted s \<and> st_comp s' = st_comp s"
proof (cases "st_num_alloc s \<le> st_num s + 1")
  case True
  have a: "st_num_alloc s < 2 ^ 60" "st_num s < st_num_alloc s" "length (st_data s) = st_num_alloc s"
    using assms(1) by (simp_all add: stack_ok_def)
  then have w: "(st_num s + 1) mod size_max1 = st_num s + 1" by simp
  from assms(3) True a w obtain b where b: "pm (8 * (2 * st_num_alloc s)) = Some b"
    "s' = s\<lparr>st_data := take (length b) (st_data s) @ drop (st_num_alloc s) b, st_num_alloc := 2 * st_num_alloc s\<rparr>"
    by (auto simp: sk_grow_def sk_new_alloc_cases realloc_ptrs_def split: option.splits)
  then have "length b = 2 * st_num_alloc s" "8 * (2 * st_num_alloc s) < 2 ^ 63"
    using assms(2) by (auto simp: palloc_ok_def)
  with a b True show ?thesis by (auto simp: stack_ok_def elems_def)
next
  case False
  moreover from this have "(st_num s + 1) mod size_max1 = st_num s + 1"
    using assms(1) by (simp add: stack_ok_def)
  ultimately show ?thesis using assms by (auto simp: sk_grow_def stack_ok_def)
qed

lemma sk_insert_spec:
  assumes "stack_ok s" and "palloc_ok pm" and "sk_insert pm (Some s) p pos = (sk', n)"
  shows "sk' = Some s \<and> n = 0 \<or>
    (\<exists>s'. sk' = Some s' \<and> stack_ok s' \<and> elems s' = take pos (elems s) @ [p] @ drop pos (elems s) \<and>
       n = Suc (length (elems s)) \<and> \<not> st_sorted s' \<and> st_comp s' = st_comp s)"
proof (cases "sk_grow pm s")
  case None
  then show ?thesis using assms(3) by (simp add: sk_insert_def)
next
  case (Some s1)
  note g = sk_grow_spec [OF assms(1,2) Some]
  define k where "k = st_num s1"
  have len: "length (st_data s1) = st_num_alloc s1" "k + 1 < st_num_alloc s1" "st_num_alloc s1 < 2 ^ 60"
    using g by (auto simp: stack_ok_def k_def)
  then have w: "(k + 1) mod size_max1 = k + 1" by simp
  have e: "elems s1 = take k (st_data s1)" by (simp add: elems_def k_def)
  define d where "d = (if pos \<ge> k then (st_data s1)[k := p]
    else (ptr_move (st_data s1) (pos + 1) (st_data s1) pos (k - pos))[pos := p])"
  have sk': "sk' = Some (s1\<lparr>st_data := d, st_num := k + 1, st_sorted := False\<rparr>)" "n = k + 1"
    using assms(3) Some w by (auto simp: sk_insert_def Let_def d_def simp flip: k_def)
  have ld: "length d = st_num_alloc s1" using len by (auto simp: d_def ptr_move_def)
  have "take (k + 1) d = take pos (elems s1) @ [p] @ drop pos (elems s1)"
  proof (cases "pos \<ge> k")
    case True
    then show ?thesis using len by (simp add: d_def e take_Suc_conv_app_nth)
  next
    case False
    then have "d = take pos (st_data s1) @ [p] @ take (k - pos) (drop pos (st_data s1)) @ drop (k + 1) (st_data s1)"
      using len by (simp add: d_def ptr_move_def list_update_append upd_conv_take_nth_drop)
    then show ?thesis using False len by (simp add: e min_def drop_take Suc_diff_le)
  qed
  moreover have "elems (s1\<lparr>st_data := d, st_num := k + 1, st_sorted := False\<rparr>) = take (k + 1) d"
    by (simp add: elems_def)
  ultimately have "elems (s1\<lparr>st_data := d, st_num := k + 1, st_sorted := False\<rparr>) =
      take pos (elems s) @ [p] @ drop pos (elems s)" using g by simp
  moreover have "n = Suc (length (elems s))" using sk'(2) g assms(1) by (simp add: k_def)
  moreover have "stack_ok (s1\<lparr>st_data := d, st_num := k + 1, st_sorted := False\<rparr>)"
    using ld len by (simp add: stack_ok_def)
  ultimately show ?thesis using sk'(1) g by (intro disjI2 exI [of _ "s1\<lparr>st_data := d, st_num := k + 1, st_sorted := False\<rparr>"]) simp
qed

lemma sk_delete_spec:
  assumes "stack_ok s" and "pos < st_num s"
  shows "\<exists>s'. sk_delete (Some s) pos = (Some s', elems s ! pos) \<and> stack_ok s' \<and>
    elems s' = take pos (elems s) @ drop (Suc pos) (elems s) \<and>
    st_sorted s' = st_sorted s \<and> st_comp s' = st_comp s"
proof -
  define k where "k = st_num s"
  have len: "length (st_data s) = st_num_alloc s" "k < st_num_alloc s" "pos < k"
    using assms by (auto simp: stack_ok_def k_def)
  define d where "d = (if pos \<noteq> k - 1 then ptr_move (st_data s) pos (st_data s) (pos + 1) (k - pos - 1) else st_data s)"
  have run: "sk_delete (Some s) pos = (Some (s\<lparr>st_data := d, st_num := k - 1\<rparr>), st_data s ! pos)"
    using assms(2) by (simp add: sk_delete_def Let_def d_def k_def)
  have ld: "length d = st_num_alloc s" using len by (auto simp: d_def ptr_move_def)
  have "take (k - 1) d = take pos (elems s) @ drop (Suc pos) (elems s)"
    using len by (auto simp: d_def ptr_move_def elems_def drop_take min_def simp flip: k_def)
  then show ?thesis using run ld assms len by (auto simp: stack_ok_def elems_def k_def)
qed


section \<open>The abstract stack\<close>

text \<open>
  The abstract state: the pointers, the comparison function, and whether the stack counts as
  sorted. An insertion may fail and leave everything unchanged; sorting picks some ordered
  permutation.
\<close>

datatype 'a stack_op =
    Insert "'a ptr" nat | Push "'a ptr" | Delete nat | Delete_ptr "'a ptr" | Pop | Shift | Zero
  | Sort | Set_cmp "nat option" | Set_at nat "'a ptr"

datatype 'a stack_res = Count nat | Ptr "'a ptr" | Cmp "nat option" | Done

type_synonym 'a sp_stack = "'a ptr list \<times> nat option \<times> bool"

inductive sp_step ::
  "'a call_cmp \<Rightarrow> 'a sp_stack \<Rightarrow> 'a stack_op \<Rightarrow> 'a stack_res \<Rightarrow> 'a sp_stack \<Rightarrow> bool"
  for call_cmp where
  insert: "sp_step call_cmp (xs, c, b) (Insert p i) (Count (Suc (length xs)))
     (take i xs @ [p] @ drop i xs, c, False)"
| insert_fail: "sp_step call_cmp (xs, c, b) (Insert p i) (Count 0) (xs, c, b)"
| push: "sp_step call_cmp (xs, c, b) (Push p) (Count (Suc (length xs))) (xs @ [p], c, False)"
| push_fail: "sp_step call_cmp (xs, c, b) (Push p) (Count 0) (xs, c, b)"
| delete: "i < length xs \<Longrightarrow>
     sp_step call_cmp (xs, c, b) (Delete i) (Ptr (xs ! i)) (take i xs @ drop (Suc i) xs, c, b)"
| delete_none: "length xs \<le> i \<Longrightarrow> sp_step call_cmp (xs, c, b) (Delete i) (Ptr None) (xs, c, b)"
| delete_ptr: "p \<in> set xs \<Longrightarrow>
     sp_step call_cmp (xs, c, b) (Delete_ptr p) (Ptr p) (remove1 p xs, c, b)"
| delete_ptr_none: "p \<notin> set xs \<Longrightarrow>
     sp_step call_cmp (xs, c, b) (Delete_ptr p) (Ptr None) (xs, c, b)"
| pop: "sp_step call_cmp (xs @ [x], c, b) Pop (Ptr x) (xs, c, b)"
| pop_empty: "sp_step call_cmp ([], c, b) Pop (Ptr None) ([], c, b)"
| shift: "sp_step call_cmp (x # xs, c, b) Shift (Ptr x) (xs, c, b)"
| shift_empty: "sp_step call_cmp ([], c, b) Shift (Ptr None) ([], c, b)"
| zero: "xs \<noteq> [] \<Longrightarrow> sp_step call_cmp (xs, c, b) Zero Done ([], c, False)"
| zero_empty: "sp_step call_cmp ([], c, b) Zero Done ([], c, b)"
| sort: "mset ys = mset xs \<Longrightarrow> sorted_wrt (\<lambda>a b. call_cmp f a b \<le> 0) ys \<Longrightarrow>
     sp_step call_cmp (xs, Some f, False) Sort Done (ys, Some f, True)"
| sort_sorted: "sp_step call_cmp (xs, c, True) Sort Done (xs, c, True)"
| sort_no_cmp: "sp_step call_cmp (xs, None, b) Sort Done (xs, None, b)"
| set_cmp: "sp_step call_cmp (xs, c, b) (Set_cmp d) (Cmp c) (xs, d, b \<and> c = d)"
| set_at: "i < length xs \<Longrightarrow>
     sp_step call_cmp (xs, c, b) (Set_at i p) (Ptr p) (xs[i := p], c, b)"
| set_at_none: "length xs \<le> i \<Longrightarrow>
     sp_step call_cmp (xs, c, b) (Set_at i p) (Ptr None) (xs, c, b)"

inductive sp_run ::
  "'a call_cmp \<Rightarrow> 'a sp_stack \<Rightarrow> 'a stack_op list \<Rightarrow> 'a stack_res list \<Rightarrow> 'a sp_stack \<Rightarrow> bool"
  for call_cmp where
  run_nil: "sp_run call_cmp st [] [] st"
| run_cons: "sp_step call_cmp st x r st1 \<Longrightarrow> sp_run call_cmp st1 xs rs st2 \<Longrightarrow>
     sp_run call_cmp st (x # xs) (r # rs) st2"

inductive_cases run_nilE: "sp_run call_cmp st [] rs st'"
inductive_cases run_consE: "sp_run call_cmp st (x # xs) rs st'"
inductive_cases set_atE: "sp_step call_cmp st (Set_at i p) r st'"

text \<open>The flag tells the truth: a stack that counts as sorted is in order.\<close>

fun flag_ok :: "'a call_cmp \<Rightarrow> 'a sp_stack \<Rightarrow> bool" where
  "flag_ok call_cmp (xs, c, b) \<longleftrightarrow>
     (b \<longrightarrow> (\<exists>f. c = Some f \<and> sorted_wrt (\<lambda>a b. call_cmp f a b \<le> 0) xs))"

lemma sorted_wrt_remove:
  "sorted_wrt P xs \<Longrightarrow> sorted_wrt P (take i xs @ drop (Suc i) xs)"
proof (cases "i < length xs")
  case True
  then have "xs = take i xs @ xs ! i # drop (Suc i) xs" by (rule id_take_nth_drop)
  moreover assume "sorted_wrt P xs"
  ultimately have "sorted_wrt P (take i xs @ xs ! i # drop (Suc i) xs)" by simp
  then show ?thesis by (auto simp: sorted_wrt_append)
qed simp

lemma sorted_wrt_remove1: "sorted_wrt P xs \<Longrightarrow> sorted_wrt P (remove1 p xs)"
  using set_remove1_subset by (induction xs) fastforce+

lemma sorted_wrt_snocD: "sorted_wrt P (xs @ [x]) \<Longrightarrow> sorted_wrt P xs"
  by (simp add: sorted_wrt_append)

lemma sp_step_flag:
  "sp_step call_cmp st op r st' \<Longrightarrow> flag_ok call_cmp st \<Longrightarrow> \<forall>i p. op \<noteq> Set_at i p \<Longrightarrow>
   flag_ok call_cmp st'"
  by (induction rule: sp_step.induct)
    (auto intro: sorted_wrt_remove sorted_wrt_remove1 dest: sorted_wrt_snocD)

lemma sp_run_flag:
  "sp_run call_cmp st ops rs st' \<Longrightarrow> flag_ok call_cmp st \<Longrightarrow>
   \<forall>op\<in>set ops. \<forall>i p. op \<noteq> Set_at i p \<Longrightarrow> flag_ok call_cmp st'"
  by (induction rule: sp_run.induct) (auto dest: sp_step_flag)

section \<open>The code refines it\<close>

definition abs_stack :: "'a stack_st \<Rightarrow> 'a sp_stack" where
  "abs_stack s = (elems s, st_comp s, st_sorted s)"

definition keep :: "'a stack_st \<Rightarrow> 'a stack_st option \<times> 'b \<Rightarrow> ('b \<Rightarrow> 'c) \<Rightarrow> 'a stack_st \<times> 'c" where
  "keep s r f = (case r of (None, x) \<Rightarrow> (s, f x) | (Some s', x) \<Rightarrow> (s', f x))"

fun sk_step ::
  "'a ptr qsort \<Rightarrow> 'a call_cmp \<Rightarrow> 'a palloc \<Rightarrow> 'a stack_st \<Rightarrow> 'a stack_op \<Rightarrow> 'a stack_st \<times> 'a stack_res" where
  "sk_step qs call_cmp pm s (Insert p i) = keep s (sk_insert pm (Some s) p i) Count"
| "sk_step qs call_cmp pm s (Push p) = keep s (sk_push pm (Some s) p) Count"
| "sk_step qs call_cmp pm s (Delete i) = keep s (sk_delete (Some s) i) Ptr"
| "sk_step qs call_cmp pm s (Delete_ptr p) = keep s (sk_delete_ptr (Some s) p) Ptr"
| "sk_step qs call_cmp pm s Pop = keep s (sk_pop (Some s)) Ptr"
| "sk_step qs call_cmp pm s Shift = keep s (sk_shift (Some s)) Ptr"
| "sk_step qs call_cmp pm s Zero = keep s (sk_zero (Some s), ()) (\<lambda>_. Done)"
| "sk_step qs call_cmp pm s Sort = keep s (sk_sort qs call_cmp (Some s), ()) (\<lambda>_. Done)"
| "sk_step qs call_cmp pm s (Set_cmp d) =
     (case sk_set_cmp_func s d of (s', old) \<Rightarrow> (s', Cmp old))"
| "sk_step qs call_cmp pm s (Set_at i p) = keep s (sk_set (Some s) i p) Ptr"

fun sk_run ::
  "'a ptr qsort \<Rightarrow> 'a call_cmp \<Rightarrow> 'a stack_st \<Rightarrow> ('a palloc \<times> 'a stack_op) list \<Rightarrow> 'a stack_st \<times> 'a stack_res list" where
  "sk_run qs call_cmp s [] = (s, [])"
| "sk_run qs call_cmp s ((pm, x) # xs) =
     (case sk_step qs call_cmp pm s x of (s1, r) \<Rightarrow>
      case sk_run qs call_cmp s1 xs of (s2, rs) \<Rightarrow> (s2, r # rs))"


lemma keep_Some [simp]: "keep s (Some s', x) f = (s', f x)"
  by (simp add: keep_def)

lemma nth_elems: "i < st_num s \<Longrightarrow> st_data s ! i = elems s ! i"
  by (simp add: elems_def)

lemma remove1_nth:
  "i < length xs \<Longrightarrow> \<forall>j<i. xs ! j \<noteq> xs ! i \<Longrightarrow> take i xs @ drop (Suc i) xs = remove1 (xs ! i) xs"
proof (induction xs arbitrary: i)
  case (Cons x xs)
  show ?case
  proof (cases i)
    case (Suc j)
    then have "x \<noteq> xs ! j" using Cons.prems(2) by auto
    moreover have "\<forall>k<j. xs ! k \<noteq> xs ! j" using Cons.prems(2) Suc by force
    ultimately show ?thesis using Cons.IH [of j] Cons.prems(1) Suc by simp
  qed simp
qed simp

lemma scan_from_SomeD:
  "scan_from t xs 0 = Some i \<Longrightarrow> i < length xs \<and> t (xs ! i) \<and> (\<forall>j<i. \<not> t (xs ! j))"
  by (auto simp: scan_from_find find_Some_iff)

lemma scan_from_NoneD: "scan_from t xs 0 = None \<Longrightarrow> \<forall>x\<in>set xs. \<not> t x"
  by (auto simp: scan_from_find find_None_iff in_set_conv_nth)

lemma sk_delete_step:
  assumes "stack_ok s" and "i < st_num s" and "sk_delete (Some s) i = (sk', r)"
  shows "\<exists>s'. sk' = Some s' \<and> r = elems s ! i \<and> stack_ok s' \<and>
    abs_stack s' = (take i (elems s) @ drop (Suc i) (elems s), st_comp s, st_sorted s)"
  using sk_delete_spec [OF assms(1,2)] assms(3) by (auto simp: abs_stack_def)

lemma sk_step_refines:
  assumes ok: "stack_ok s" and pm: "palloc_ok pm" and qs: "\<forall>f. qsort_ok qs (call_cmp f)"
    and step: "sk_step qs call_cmp pm s x = (s', r)"
  shows "stack_ok s' \<and> sp_step call_cmp (abs_stack s) x r (abs_stack s')"
proof (cases x)
  case (Insert p i)
  obtain sk' n where run: "sk_insert pm (Some s) p i = (sk', n)" by fastforce
  from sk_insert_spec [OF ok pm run] step run ok Insert
    sp_step.insert [of call_cmp "elems s" "st_comp s" "st_sorted s" p i] sp_step.insert_fail [of call_cmp "elems s" "st_comp s" "st_sorted s" p i]
  show ?thesis by (auto simp: abs_stack_def)
next
  case (Push p)
  obtain sk' n where run: "sk_insert pm (Some s) p (st_num s) = (sk', n)" by fastforce
  from sk_insert_spec [OF ok pm run] step run ok Push
    sp_step.push [of call_cmp "elems s" "st_comp s" "st_sorted s" p] sp_step.push_fail [of call_cmp "elems s" "st_comp s" "st_sorted s" p]
  show ?thesis by (auto simp: sk_push_def sk_num_def abs_stack_def)
next
  case (Delete i)
  show ?thesis
  proof (cases "i < st_num s")
    case True
    obtain sk' y where run: "sk_delete (Some s) i = (sk', y)" by fastforce
    from sk_delete_step [OF ok True run] step run True ok Delete
      sp_step.delete [of i "elems s" call_cmp "st_comp s" "st_sorted s"]
    show ?thesis by (auto simp: abs_stack_def [of s])
  next
    case False
    then show ?thesis using step Delete ok
      by (auto simp: sk_delete_def abs_stack_def intro: sp_step.delete_none)
  qed
next
  case (Delete_ptr p)
  show ?thesis
  proof (cases "scan_from (\<lambda>x. x = p) (elems s) 0")
    case None
    then show ?thesis using step Delete_ptr ok scan_from_NoneD [OF None]
      by (auto simp: sk_delete_ptr_def abs_stack_def elems_def intro: sp_step.delete_ptr_none)
  next
    case (Some i)
    note i = scan_from_SomeD [OF Some]
    then have lt: "i < st_num s" using ok by simp
    obtain sk' y where run: "sk_delete (Some s) i = (sk', y)" by fastforce
    have "take i (elems s) @ drop (Suc i) (elems s) = remove1 p (elems s)"
      using i remove1_nth [of i "elems s"] by auto
    moreover have "p \<in> set (elems s)" using i nth_mem by blast
    ultimately show ?thesis
      using sk_delete_step [OF ok lt run] step run Some i Delete_ptr
        sp_step.delete_ptr [of p "elems s" call_cmp "st_comp s" "st_sorted s"]
      by (auto simp: sk_delete_ptr_def abs_stack_def [of s] simp flip: elems_def)
  qed
next
  case Pop
  show ?thesis
  proof (cases "st_num s = 0")
    case True
    then show ?thesis using step Pop ok sp_step.pop_empty [of call_cmp "st_comp s" "st_sorted s"]
      by (simp add: sk_pop_def abs_stack_def elems_def)
  next
    case False
    obtain sk' y where run: "sk_delete (Some s) (st_num s - 1) = (sk', y)" by fastforce
    have ne: "elems s \<noteq> []" using False length_elems [OF ok] by auto
    then have e: "elems s = butlast (elems s) @ [elems s ! (st_num s - 1)]"
      using length_elems [OF ok] by (metis append_butlast_last_id last_conv_nth)
    have "take (st_num s - 1) (elems s) @ drop (Suc (st_num s - 1)) (elems s) = butlast (elems s)"
      using False length_elems [OF ok] by (simp add: butlast_conv_take)
    then show ?thesis
      using sk_delete_step [OF ok _ run] step run False Pop
        sp_step.pop [of call_cmp "butlast (elems s)" "elems s ! (st_num s - 1)" "st_comp s" "st_sorted s", folded e]
      by (auto simp: sk_pop_def abs_stack_def [of s])
  qed
next
  case Shift
  show ?thesis
  proof (cases "st_num s = 0")
    case True
    then show ?thesis using step Shift ok sp_step.shift_empty [of call_cmp "st_comp s" "st_sorted s"]
      by (simp add: sk_shift_def abs_stack_def elems_def)
  next
    case False
    obtain sk' y where run: "sk_delete (Some s) 0 = (sk', y)" by fastforce
    have "elems s = elems s ! 0 # drop (Suc 0) (elems s)"
      using False length_elems [OF ok] Cons_nth_drop_Suc [of 0 "elems s"] by simp
    then show ?thesis
      using sk_delete_step [OF ok _ run] step run False Shift
        sp_step.shift [of call_cmp "elems s ! 0" "drop (Suc 0) (elems s)" "st_comp s" "st_sorted s"]
      by (auto simp: sk_shift_def abs_stack_def [of s])
  qed
next
  case Zero
  then show ?thesis using step ok
    by (auto simp: sk_zero_def abs_stack_def elems_def stack_ok_def
        intro!: sp_step.zero sp_step.zero_empty split: if_splits)
next
  case Sort
  consider "st_comp s = None" | "st_sorted s" | f where "st_comp s = Some f" "\<not> st_sorted s" by auto
  then show ?thesis
  proof cases
    case 3
    define ys where "ys = (if 2 \<le> st_num s then qs (call_cmp f) (elems s) else elems s)"
    have ys: "mset ys = mset (elems s) \<and> sorted_wrt (\<lambda>a b. call_cmp f a b \<le> 0) ys"
    proof (cases "2 \<le> st_num s")
      case False
      then have "length (elems s) \<le> 1" using length_elems [OF ok] by simp
      then show ?thesis using False by (cases "elems s") (auto simp: ys_def)
    qed (use qs in \<open>auto simp: ys_def qsort_ok_def\<close>)
    then have len: "length ys = st_num s" using length_elems [OF ok] by (metis size_mset)
    have "s' = s\<lparr>st_data := ys @ drop (st_num s) (st_data s), st_sorted := True\<rparr>" "r = Done"
      using step Sort 3 by (auto simp: sk_sort_def Let_def ys_def elems_def split: if_splits)
    with len ys ok 3 Sort show ?thesis
      by (auto simp: abs_stack_def elems_def stack_ok_def intro: sp_step.sort)
  qed (use step Sort ok in \<open>auto simp: sk_sort_def abs_stack_def split: option.splits if_splits
      intro: sp_step.sort_no_cmp sp_step.sort_sorted\<close>)
next
  case (Set_cmp d)
  then show ?thesis using step ok
      sp_step.set_cmp [of call_cmp "elems s" "st_comp s" "st_sorted s" d]
    by (auto simp: sk_set_cmp_func_def abs_stack_def elems_def stack_ok_def)
next
  case (Set_at i p)
  then show ?thesis using step ok sp_step.set_at [of i "elems s" call_cmp "st_comp s" "st_sorted s" p]
      sp_step.set_at_none [of "elems s" i call_cmp "st_comp s" "st_sorted s" p]
    by (auto simp: sk_set_def abs_stack_def elems_def stack_ok_def
      take_update_swap split: if_splits)
qed

end
