(* ===== verification/StackProps.thy ===== *)
theory StackProps
  imports StackSpec SetOf
begin

text \<open>
  Properties of the pointer stack: refinement of the abstract stack by any run, agreement of
  the two searches in every reachable state, deep copies, and capacity growth. The comparison
  function of SET OF elements serves as the instance of the comparator interface.
\<close>

interpretation set_of_sign: sign_comparator compare_set_of_element
proof unfold_locales
  fix a b
  have "byte_cmp a b \<le> 0 \<longleftrightarrow> 0 \<le> byte_cmp b a"
    by (induction a b rule: byte_cmp.induct) auto
  then show "compare_set_of_element a b \<le> 0 \<longleftrightarrow> 0 \<le> compare_set_of_element b a"
    by (simp add: compare_set_of_element_eq)
qed

text \<open>The order on pointers it induces, \<open>NULL\<close> counting as the empty string.\<close>

definition element_cmp :: "cbs call_cmp" where
  "element_cmp f a b = compare_set_of_element (case a of None \<Rightarrow> [] | Some x \<Rightarrow> x)
     (case b of None \<Rightarrow> [] | Some x \<Rightarrow> x)"

lemma element_cmp_sign: "sign_comparator (element_cmp f)"
proof unfold_locales
  fix a b c
  show "element_cmp f a b \<le> 0 \<or> element_cmp f b a \<le> 0"
    unfolding element_cmp_def by (rule set_of.total)
  show "element_cmp f a b \<le> 0 \<Longrightarrow> element_cmp f b c \<le> 0 \<Longrightarrow> element_cmp f a c \<le> 0"
    unfolding element_cmp_def by (rule set_of.trans)
  show "element_cmp f a b \<le> 0 \<longleftrightarrow> 0 \<le> element_cmp f b a"
    unfolding element_cmp_def by (rule set_of_sign.sign)
qed

lemma insertion_element_ok: "qsort_ok insertion_qsort (element_cmp f)"
  by (rule comparator.insertion_qsort_ok) (rule sign_comparator.axioms(1) [OF element_cmp_sign])

definition sample_palloc :: "'a palloc" where
  "sample_palloc n = (if n < 2 ^ 20 then Some (replicate (n div 8) None) else None)"

lemma sample_palloc_ok: "palloc_ok sample_palloc"
  by (auto simp: palloc_ok_def sample_palloc_def split: if_splits)

lemma sample_malloc_STACK: "\<exists>b. OPENSSL_malloc sample_malloc sizeof_STACK = Some b"
  by (simp add: OPENSSL_malloc_def sample_malloc_def sizeof_STACK_def OPENSSL_MALLOC_PREFIX_def)

section \<open>Runs\<close>

lemma sk_run_result:
  assumes "stack_ok s" and "\<forall>y\<in>set ops. palloc_ok (fst y)" and "\<forall>f. qsort_ok qs (call_cmp f)"
    and "sk_run qs call_cmp s ops = (s', rs)"
  shows "stack_ok s' \<and> sp_run call_cmp (abs_stack s) (map snd ops) rs (abs_stack s')"
  using assms
proof (induction ops arbitrary: s s' rs)
  case Nil
  then show ?case by (auto intro: sp_run.run_nil)
next
  case (Cons y ops)
  obtain pm x where y: "y = (pm, x)" by fastforce
  obtain s1 r where s1: "sk_step qs call_cmp pm s x = (s1, r)" by fastforce
  obtain s2 rs2 where s2: "sk_run qs call_cmp s1 ops = (s2, rs2)" by fastforce
  have st: "stack_ok s1 \<and> sp_step call_cmp (abs_stack s) x r (abs_stack s1)"
    using sk_step_refines [OF Cons.prems(1) _ Cons.prems(3) s1] Cons.prems(2) y by simp
  then have "stack_ok s2 \<and> sp_run call_cmp (abs_stack s1) (map snd ops) rs2 (abs_stack s2)"
    using Cons.IH [OF _ _ Cons.prems(3) s2] Cons.prems(2) by simp
  with st Cons.prems(4) y s1 s2 show ?case by (auto intro: sp_run.run_cons)
qed

lemma find_never [simp]: "find (\<lambda>x. False) xs = None"
  by (induction xs) simp_all

lemma sk_find_elems:
  assumes ok: "stack_ok s" and cmp: "\<forall>f. sign_comparator (call_cmp f)"
    and flag: "flag_ok call_cmp (abs_stack s)"
  shows "sk_find call_cmp (Some s) p =
    find (\<lambda>i. case st_comp s of None \<Rightarrow> elems s ! i = p
           | Some f \<Rightarrow> p \<noteq> None \<and> call_cmp f p (elems s ! i) = 0) [0..<length (elems s)]"
proof (cases "st_comp s")
  case None
  then show ?thesis by (simp add: sk_find_def scan_from_find flip: elems_def)
next
  case (Some f)
  show ?thesis
  proof (cases "p \<noteq> None \<and> st_sorted s")
    case True
    then obtain y where y: "p = Some y" by auto
    from True have sorted: "sorted_wrt (\<lambda>a b. call_cmp f a b \<le> 0) (elems s)"
      using flag Some by (auto simp: abs_stack_def)
    have cong: "sk_bsearch (call_cmp f) (st_data s) p lo hi = sk_bsearch (call_cmp f) (elems s) p lo hi"
      if "hi \<le> st_num s" for lo hi
      using that
    proof (induction "hi - lo" arbitrary: lo hi rule: less_induct)
      case less
      have "lo + (hi - lo - 1) div 2 < hi" if "lo < hi" using that by linarith
      then show ?case
        using less nth_elems [of "lo + (hi - lo - 1) div 2" s]
        by (simp add: sk_bsearch.simps [of _ _ _ lo hi] Let_def)
    qed
    show ?thesis
      using Some True y cong [of "st_num s" 0] ok
        sign_comparator.sk_bsearch_find [OF cmp [rule_format] sorted, of "st_num s" p 0]
      by (simp add: sk_find_def sk_is_sorted_def)
  next
    case False
    then show ?thesis using Some
      by (auto simp: sk_find_def sk_is_sorted_def scan_from_find find_None_iff simp flip: elems_def)
  qed
qed


section \<open>Copies and growth\<close>

lemma sk_dup_spec:
  assumes "stack_ok s" and "palloc_ok pm" and "palloc_ok pm2" and "sk_dup m pm pm2 (Some s) = Some s'"
  shows "stack_ok s' \<and> abs_stack s' = abs_stack s"
proof -
  from assms(4) obtain ret b where r: "sk_new m pm (st_comp s) = Some ret"
    "pm2 (8 * st_num_alloc s mod size_max1) = Some b"
    "s' = ret\<lparr>st_data := ptr_move (take (length b) (st_data ret) @ drop (length (st_data ret)) b) 0 (st_data s) 0 (st_num s),
       st_num := st_num s, st_sorted := st_sorted s, st_num_alloc := st_num_alloc s, st_comp := st_comp s\<rparr>"
    by (auto simp: sk_dup_def realloc_ptrs_def split: option.splits)
  have a: "st_num_alloc s < 2 ^ 60" "st_num s < st_num_alloc s" "length (st_data s) = st_num_alloc s"
    using assms(1) by (auto simp: stack_ok_def)
  then have "8 * st_num_alloc s mod size_max1 = 8 * st_num_alloc s" by simp
  then have "length b = st_num_alloc s" using r(2) assms(3) by (auto simp: palloc_ok_def)
  with r(3) a show ?thesis
    by (auto simp: stack_ok_def abs_stack_def elems_def ptr_move_def)
qed

text \<open>The copies of the non-null pointers in a list, where copying succeeds.\<close>

definition copies :: "('a \<Rightarrow> 'a ptr) \<Rightarrow> 'a ptr list \<Rightarrow> 'a list" where
  "copies copy xs = List.map_filter (\<lambda>p. Option.bind p copy) xs"

lemma copies_simps [simp]:
  "copies copy [] = []" "copies copy (None # xs) = copies copy xs"
  "copies copy (Some x # xs) = (case copy x of None \<Rightarrow> copies copy xs | Some y \<Rightarrow> y # copies copy xs)"
  by (simp_all add: copies_def List.map_filter_def split: option.split)

lemma deep_copy_loop_spec:
  "case deep_copy_loop copy copied xs of
     Inr ys \<Rightarrow> ys = copied @ map (\<lambda>p. Option.bind p copy) xs \<and> (\<forall>x. Some x \<in> set xs \<longrightarrow> copy x \<noteq> None)
   | Inl freed \<Rightarrow> \<exists>us x vs. xs = us @ Some x # vs \<and> copy x = None \<and>
       (\<forall>u. Some u \<in> set us \<longrightarrow> copy u \<noteq> None) \<and>
       freed = concat (map (\<lambda>p. case p of None \<Rightarrow> [] | Some y \<Rightarrow> [y]) copied) @ copies copy us"
proof (induction copy copied xs rule: deep_copy_loop.induct)
  case (2 copy copied xs)
  then show ?case
    by (auto split: sum.splits) (metis append_Cons copies_simps(2) set_ConsD option.distinct(1))
next
  case (3 copy copied x xs)
  show ?case
  proof (cases "copy x")
    case None
    then show ?thesis by (auto intro: exI [of _ "[]"])
  next
    case (Some y)
    show ?thesis
    proof (cases "deep_copy_loop copy (copied @ [Some y]) xs")
      case (Inr ys)
      with 3 [OF Some] Some show ?thesis by auto
    next
      case (Inl freed)
      with 3 [OF Some] obtain us z vs where "xs = us @ Some z # vs" "copy z = None"
        "\<forall>u. Some u \<in> set us \<longrightarrow> copy u \<noteq> None"
        "freed = concat (map (\<lambda>p. case p of None \<Rightarrow> [] | Some y \<Rightarrow> [y]) (copied @ [Some y])) @ copies copy us"
        by auto
      with Some Inl show ?thesis by (auto intro!: exI [of _ "Some x # us"])
    qed
  qed
qed simp


section \<open>Properties\<close>

text \<open>
  C12: Every run of stack operations from a consistent stack refines the abstract stack: it
  keeps the array consistent, each result and the resulting list, comparison function and
  sorted flag are those of an abstract step, and only an insertion can fail, without effect.
\<close>

theorem sk_run_refines:
  assumes "stack_ok s" and "\<forall>y\<in>set ops. palloc_ok (fst y)" and "\<forall>f. qsort_ok qs (call_cmp f)"
    and "sk_run qs call_cmp s ops = (s', rs)"
  shows "stack_ok s' \<and> sp_run call_cmp (abs_stack s) (map snd ops) rs (abs_stack s')"
  by (rule sk_run_result [OF assms])

definition sample_stack :: "cbs stack_st" where
  "sample_stack = \<lparr>st_num = 0, st_data = [None, None, None, None], st_sorted = False,
     st_num_alloc = 4, st_comp = Some 7\<rparr>"

definition sample_ops :: "(cbs palloc \<times> cbs stack_op) list" where
  "sample_ops = [(sample_palloc, Push (Some [2])), (sample_palloc, Insert (Some [1]) 1),
     (sample_palloc, Sort)]"

lemma sample_stack_run:
  "stack_ok sample_stack \<and> (\<forall>y\<in>set sample_ops. palloc_ok (fst y)) \<and>
   sk_run insertion_qsort element_cmp sample_stack sample_ops =
     (\<lparr>st_num = 2, st_data = [Some [1], Some [2], None, None], st_sorted = True,
       st_num_alloc = 4, st_comp = Some 7\<rparr>, [Count 1, Count 2, Done])"
proof (intro conjI)
  show "sk_run insertion_qsort element_cmp sample_stack sample_ops =
     (\<lparr>st_num = 2, st_data = [Some [1], Some [2], None, None], st_sorted = True,
       st_num_alloc = 4, st_comp = Some 7\<rparr>, [Count 1, Count 2, Done])"
    by (simp add: sample_stack_def sample_ops_def sk_push_def sk_num_def sk_insert_def sk_grow_def
      sk_sort_def insertion_qsort_def element_cmp_def compare_set_of_element_eq ptr_move_def Let_def)
qed (auto simp: stack_ok_def sample_stack_def sample_ops_def sample_palloc_ok)

lemma sk_run_refines_witness:
  "sp_run element_cmp ([], Some 7, False) [Push (Some [2]), Insert (Some [1]) 1, Sort]
     [Count 1, Count 2, Done] ([Some [1], Some [2]], Some 7, True)"
  using sk_run_refines [of sample_stack sample_ops insertion_qsort element_cmp] sample_stack_run
    insertion_element_ok
  by (simp add: abs_stack_def elems_def sample_ops_def sample_stack_def)

text \<open>
  C13: In every state reached from a new stack by operations other than \<open>sk_set\<close>, \<open>sk_find\<close>
  returns the first matching index and nothing when no element matches: the binary search of a
  sorted stack agrees with the linear search.
\<close>

theorem sk_find_reachable:
  assumes "sk_new m pm c = Some s0" and "palloc_ok pm" and "\<forall>y\<in>set ops. palloc_ok (fst y)"
    and "\<forall>y\<in>set ops. \<forall>i q. snd y \<noteq> Set_at i q"
    and "\<forall>f. qsort_ok qs (call_cmp f)" and "\<forall>f. sign_comparator (call_cmp f)"
    and "sk_run qs call_cmp s0 ops = (s, rs)"
  shows "sk_find call_cmp (Some s) p =
    find (\<lambda>i. case st_comp s of None \<Rightarrow> elems s ! i = p
           | Some f \<Rightarrow> p \<noteq> None \<and> call_cmp f p (elems s ! i) = 0) [0..<length (elems s)]"
proof -
  have new: "stack_ok s0" "\<not> st_sorted s0" using sk_new_spec [OF assms(2,1)] by auto
  note run = sk_run_result [OF new(1) assms(3,5,7)]
  have "flag_ok call_cmp (abs_stack s0)" using new(2) by (simp add: abs_stack_def)
  then have "flag_ok call_cmp (abs_stack s)"
    using sp_run_flag [OF conjunct2 [OF run]] assms(4) by auto
  then show ?thesis using run assms(6) by (intro sk_find_elems) auto
qed

lemma sk_find_reachable_witness:
  "sk_find element_cmp (Some \<lparr>st_num = 2, st_data = [Some [1], Some [2], None, None],
     st_sorted = True, st_num_alloc = 4, st_comp = Some 7\<rparr>) (Some [2]) = Some 1"
proof -
  have new: "sk_new sample_malloc sample_palloc (Some 7) = Some sample_stack"
  proof -
    have "\<exists>b. OPENSSL_malloc sample_malloc sizeof_STACK = Some b" by (rule sample_malloc_STACK)
    moreover have "replicate 4 None = [None, None, None, None]" by (simp add: eval_nat_numeral)
    ultimately show ?thesis
      by (auto simp: sk_new_def sample_palloc_def sample_stack_def kMinSize_def)
  qed
  have "element_cmp 7 (Some [2]) (Some [1]) \<noteq> 0" "element_cmp 7 (Some [2]) (Some [2]) = 0"
    by (simp_all add: element_cmp_def compare_set_of_element_eq)
  then show ?thesis
    using sk_find_reachable [OF new sample_palloc_ok, of sample_ops insertion_qsort element_cmp
        _ _ "Some [2]"] sample_stack_run insertion_element_ok element_cmp_sign
    by (simp add: sample_ops_def elems_def)
qed

text \<open>
  \<open>sk_deep_copy\<close> either copies every non-null element and frees nothing, or stops at the
  first element that cannot be copied, returns \<open>NULL\<close> and frees exactly the copies it made.
\<close>

theorem sk_deep_copy_exact:
  assumes "stack_ok s" and "palloc_ok pm" and "palloc_ok pm2"
    and "sk_dup m pm pm2 (Some s) \<noteq> None"
    and "sk_deep_copy m pm pm2 copy (Some s) = (r, freed)"
  shows "case r of
      Some t \<Rightarrow> stack_ok t \<and> freed = [] \<and> elems t = map (\<lambda>p. Option.bind p copy) (elems s) \<and>
        (\<forall>x. Some x \<in> set (elems s) \<longrightarrow> copy x \<noteq> None)
    | None \<Rightarrow> \<exists>us x vs. elems s = us @ Some x # vs \<and> copy x = None \<and>
        (\<forall>u. Some u \<in> set us \<longrightarrow> copy u \<noteq> None) \<and> freed = copies copy us"
proof -
  obtain ret where ret: "sk_dup m pm pm2 (Some s) = Some ret" using assms(4) by auto
  note d = sk_dup_spec [OF assms(1-3) ret]
  then have e: "elems ret = elems s" and n: "st_num ret = length (elems s)"
    by (auto simp: abs_stack_def dest: length_elems)
  show ?thesis
  proof (cases "deep_copy_loop copy [] (elems ret)")
    case (Inl fr)
    then show ?thesis
      using assms(5) ret deep_copy_loop_spec [where copy = copy and copied = "[]" and xs = "elems ret"] e
      by (simp add: sk_deep_copy_def flip: elems_def)
  next
    case (Inr ys)
    with deep_copy_loop_spec [where copy = copy and copied = "[]" and xs = "elems ret"] e
    have ys: "ys = map (\<lambda>p. Option.bind p copy) (elems s)"
      "\<forall>x. Some x \<in> set (elems s) \<longrightarrow> copy x \<noteq> None" by simp_all
    define t where "t = ret\<lparr>st_data := ys @ drop (st_num ret) (st_data ret)\<rparr>"
    have "r = Some t" "freed = []"
      using assms(5) ret Inr by (simp_all add: sk_deep_copy_def t_def flip: elems_def)
    moreover have "take (st_num t) (st_data t) = ys" using ys(1) n by (simp add: t_def)
    then have "elems t = ys" by (simp only: elems_def)
    moreover have "stack_ok t" using d ys(1) n by (simp add: stack_ok_def t_def)
    ultimately show ?thesis using ys by simp
  qed
qed

lemma sk_deep_copy_exact_witness:
  "\<exists>us x vs. [Some 1, None, Some (9 :: nat)] = us @ Some x # vs \<and> \<not> x < 5 \<and>
     (\<forall>u. Some u \<in> set us \<longrightarrow> u < 5) \<and> [2] = copies (\<lambda>x. if x < 5 then Some (x + 1) else None) us"
proof -
  let ?s = "\<lparr>st_num = 3, st_data = [Some 1, None, Some (9 :: nat), None], st_sorted = False,
        st_num_alloc = 4, st_comp = None\<rparr>"
  let ?copy = "\<lambda>x. if x < 5 then Some (x + 1) else None"
  obtain b where b: "OPENSSL_malloc sample_malloc sizeof_STACK = Some b" using sample_malloc_STACK by blast
  have four: "replicate 4 None = [None, None, None, None]" by (simp add: eval_nat_numeral)
  have dup: "sk_dup sample_malloc sample_palloc sample_palloc (Some ?s) = Some ?s"
    by (simp add: sk_dup_def sk_new_def b sample_palloc_def kMinSize_def realloc_ptrs_def ptr_move_def
        four)
  have run: "sk_deep_copy sample_malloc sample_palloc sample_palloc ?copy (Some ?s) = (None, [2])"
    unfolding sk_deep_copy_def dup by simp
  have "stack_ok ?s" by (simp add: stack_ok_def)
  from sk_deep_copy_exact [OF this sample_palloc_ok sample_palloc_ok _ run] dup
  show ?thesis by (auto simp: elems_def split: if_splits)
qed

text \<open>
  A full stack doubles its capacity, grows by one when the byte count of the doubled array
  does not fit \<open>size_t\<close>, and fails only when that does not fit either; the byte count it asks
  for never wraps.
\<close>

theorem sk_new_alloc_exact:
  assumes "a < size_max1"
  shows "sk_new_alloc a =
    (if a < 2 ^ 60 then Some (2 * a) else if a < 2 ^ 61 - 1 then Some (a + 1) else None)"
proof -
  have fits: "x * 8 mod size_max1 div 8 = x \<longleftrightarrow> x < 2 ^ 61" for x :: nat
  proof
    assume "x * 8 mod size_max1 div 8 = x"
    moreover have "x * 8 mod size_max1 div 8 < 2 ^ 61" by (simp add: less_mult_imp_div_less)
    ultimately show "x < 2 ^ 61" by simp
  qed simp
  have double: "a * 2 mod size_max1 = (if a < 2 ^ 63 then a * 2 else a * 2 - 2 ^ 64)"
    using assms by (auto simp: le_mod_geq)
  have inc: "(a + 1) mod size_max1 = (if a = 2 ^ 64 - 1 then 0 else a + 1)"
    using assms by auto
  have wrap: "a * 2 mod size_max1 < a \<or> a * 2 mod size_max1 * 8 mod size_max1 div 8 \<noteq> a * 2 mod size_max1
      \<longleftrightarrow> 2 ^ 60 \<le> a"
    unfolding fits double using assms by auto
  show ?thesis
    unfolding sk_new_alloc_def Let_def wrap fits inc double using assms by auto
qed

lemma sk_new_alloc_exact_witness: "sk_new_alloc (2 ^ 60) = Some (2 ^ 60 + 1)"
  using sk_new_alloc_exact [of "2 ^ 60"] by simp

text \<open>
  \<open>sk_set\<close> does not clear the sorted flag, unlike every other operation that can disturb the
  order: the stack still counts as sorted and the search misses the element.
\<close>

lemma sk_set_misleads_sk_find:
  "\<exists>s rs. sk_run insertion_qsort element_cmp sample_stack
       (sample_ops @ [(sample_palloc, Set_at 0 (Some [3]))]) = (s, rs) \<and>
     sk_is_sorted (Some s) \<and> elems s = [Some [3], Some [2]] \<and>
     sk_find element_cmp (Some s) (Some [2]) = None"
proof -
  let ?s = "\<lparr>st_num = 2, st_data = [Some [3], Some [2], None, None], st_sorted = True,
       st_num_alloc = 4, st_comp = Some 7\<rparr>"
  have "sk_run insertion_qsort element_cmp sample_stack
       (sample_ops @ [(sample_palloc, Set_at 0 (Some [3]))]) =
     (?s, [Count 1, Count 2, Done, Ptr (Some [3])])"
    by (simp add: sample_stack_def sample_ops_def sk_push_def sk_num_def sk_insert_def sk_grow_def
      sk_sort_def insertion_qsort_def element_cmp_def compare_set_of_element_eq ptr_move_def Let_def
      sk_set_def)
  moreover have "sk_find element_cmp (Some ?s) (Some [2]) = None"
    by (simp add: sk_find_def sk_is_sorted_def element_cmp_def compare_set_of_element_eq
      sk_bsearch.simps [of _ _ _ 0 2] sk_bsearch.simps [of _ _ _ 0 0])
  ultimately show ?thesis by (simp add: sk_is_sorted_def elems_def)
qed

end
