(* ===== verification/Buf.thy ===== *)
theory Buf
  imports Cbb
begin

text \<open>
  The growable buffers of \<open>crypto/buf/buf.c\<close>. A buffer points into a block of memory; the
  position of its data in the block is 0 except for the read-only memory BIOs, which advance
  it. Writes outside the block are \<open>None\<close>.
\<close>

section \<open>State\<close>

record buf_mem =
  bm_length :: nat
  bm_block :: "byte list option"
  bm_off :: nat
  bm_max :: nat

definition bm_write :: "buf_mem \<Rightarrow> nat \<Rightarrow> byte list \<Rightarrow> buf_mem option" where
  "bm_write b i xs = (
     if xs = [] then Some b
     else
       (case bm_block b of
          None \<Rightarrow> None
        | Some d \<Rightarrow>
            if bm_off b + i + length xs \<le> length d
            then Some (b\<lparr>bm_block := Some (overwrite d (bm_off b + i) xs)\<rparr>) else None))"

definition bm_read :: "buf_mem \<Rightarrow> nat \<Rightarrow> byte list option" where
  "bm_read b n = (
     if n = 0 then Some []
     else
       (case bm_block b of
          None \<Rightarrow> None
        | Some d \<Rightarrow> if bm_off b + n \<le> length d then Some (take n (drop (bm_off b) d)) else None))"

section \<open>Operations\<close>

definition sizeof_BUF_MEM :: u64 where
  "sizeof_BUF_MEM = 24"

definition BUF_MEM_new :: "libc \<Rightarrow> buf_mem option" where
  "BUF_MEM_new m = (
     case OPENSSL_malloc m sizeof_BUF_MEM of
       None \<Rightarrow> None
     | Some _ \<Rightarrow> Some \<lparr>bm_length = 0, bm_block = None, bm_off = 0, bm_max = 0\<rparr>)"

text \<open>The block handed back by \<open>BUF_MEM_free\<close>.\<close>

definition BUF_MEM_free :: "buf_mem option \<Rightarrow> byte list option" where
  "BUF_MEM_free buf = (case buf of None \<Rightarrow> None | Some b \<Rightarrow> bm_block b)"

definition BUF_MEM_reserve :: "libc \<Rightarrow> buf_mem \<Rightarrow> nat \<Rightarrow> bool \<times> buf_mem" where
  "BUF_MEM_reserve m b cap = (
     if bm_max b \<ge> cap then (True, b)
     else
       let n = (cap + 3) mod size_max1 in
       if n < cap then (False, b)
       else
         let n = n div 3; alloc_size = n * 4 mod size_max1 in
         if alloc_size div 4 \<noteq> n then (False, b)
         else
           (case (case bm_block b of
                    None \<Rightarrow> alloc_bytes m alloc_size
                  | Some d \<Rightarrow> realloc_bytes m d alloc_size) of
              None \<Rightarrow> (False, b)
            | Some new_buf \<Rightarrow>
                (True, b\<lparr>bm_block := Some new_buf, bm_off := 0, bm_max := alloc_size\<rparr>)))"

definition BUF_MEM_grow :: "libc \<Rightarrow> buf_mem \<Rightarrow> nat \<Rightarrow> (nat \<times> buf_mem) option" where
  "BUF_MEM_grow m b len = (
     case BUF_MEM_reserve m b len of
       (False, b) \<Rightarrow> Some (0, b)
     | (True, b) \<Rightarrow>
         (case (if bm_length b < len
                then bm_write b (bm_length b) (replicate (len - bm_length b) 0) else Some b) of
            None \<Rightarrow> None
          | Some b \<Rightarrow> Some (len, b\<lparr>bm_length := len\<rparr>)))"

definition BUF_MEM_grow_clean :: "libc \<Rightarrow> buf_mem \<Rightarrow> nat \<Rightarrow> (nat \<times> buf_mem) option" where
  "BUF_MEM_grow_clean m b len = BUF_MEM_grow m b len"

definition BUF_MEM_append :: "libc \<Rightarrow> buf_mem \<Rightarrow> byte list \<Rightarrow> nat \<Rightarrow> (bool \<times> buf_mem) option" where
  "BUF_MEM_append m b xs len = (
     if len = 0 then Some (True, b)
     else
       let new_len = (bm_length b + len) mod size_max1 in
       if new_len < len then Some (False, b)
       else
         (case BUF_MEM_reserve m b new_len of
            (False, b) \<Rightarrow> Some (False, b)
          | (True, b) \<Rightarrow>
              (case bm_write b (bm_length b) (take len xs) of
                 None \<Rightarrow> None
               | Some b \<Rightarrow> Some (True, b\<lparr>bm_length := new_len\<rparr>))))"

definition BUF_strdup :: "libc \<Rightarrow> byte list option \<Rightarrow> byte list option option" where
  "BUF_strdup m str = OPENSSL_strdup m str"

definition BUF_strnlen :: "byte list \<Rightarrow> nat \<Rightarrow> nat option" where
  "BUF_strnlen str max_len = OPENSSL_strnlen str max_len"

definition BUF_strndup :: "libc \<Rightarrow> byte list option \<Rightarrow> nat \<Rightarrow> byte list option option" where
  "BUF_strndup m str n = OPENSSL_strndup m str n"

definition BUF_strlcpy where
  "BUF_strlcpy = OPENSSL_strlcpy"

definition BUF_strlcat where
  "BUF_strlcat = OPENSSL_strlcat"

definition BUF_memdup :: "libc \<Rightarrow> byte list \<Rightarrow> nat \<Rightarrow> byte list option" where
  "BUF_memdup m d n = OPENSSL_memdup m d n"

section \<open>Contents\<close>

definition buf_ok :: "buf_mem \<Rightarrow> bool" where
  "buf_ok b \<longleftrightarrow> bm_off b = 0 \<and> bm_length b \<le> bm_max b \<and>
     (case bm_block b of None \<Rightarrow> bm_max b = 0 | Some d \<Rightarrow> length d = bm_max b)"

text \<open>The bytes a buffer holds, also when its data lie inside a read-only block.\<close>

definition bm_contents :: "buf_mem \<Rightarrow> byte list" where
  "bm_contents b = (case bm_block b of None \<Rightarrow> [] | Some d \<Rightarrow> take (bm_length b) (drop (bm_off b) d))"

lemma buf_ok_contents: "buf_ok b \<Longrightarrow> length (bm_contents b) = bm_length b"
  by (auto simp: buf_ok_def bm_contents_def split: option.splits)

text \<open>
  For capacities below \<open>2 ^ 63\<close> the rounding up by a third does not overflow. (Just below
  \<open>3 * 2 ^ 62\<close> it gives an allocation size that \<open>OPENSSL_malloc\<close> itself wraps.)
\<close>

lemma BUF_MEM_reserve_alt:
  assumes "cap < 2 ^ 63" and "bm_max b < cap"
  shows "BUF_MEM_reserve m b cap =
    (case (case bm_block b of None \<Rightarrow> alloc_bytes m ((cap + 3) div 3 * 4)
           | Some d \<Rightarrow> realloc_bytes m d ((cap + 3) div 3 * 4)) of
       None \<Rightarrow> (False, b)
     | Some d \<Rightarrow> (True, b\<lparr>bm_block := Some d, bm_off := 0, bm_max := (cap + 3) div 3 * 4\<rparr>))"
proof -
  have c: "(cap + 3) mod size_max1 = cap + 3" using assms by simp
  have "(cap + 3) div 3 * 4 < size_max1" using assms by simp
  then have a: "(cap + 3) div 3 * 4 mod size_max1 = (cap + 3) div 3 * 4" by (rule mod_less)
  show ?thesis using assms by (simp only: BUF_MEM_reserve_def Let_def c a) (simp cong: if_cong)
qed

text \<open>The request to the C library for a buffer of \<open>cap\<close> bytes, its size prefix included.\<close>

definition growth_request :: "nat \<Rightarrow> nat" where
  "growth_request cap = (cap + 3) div 3 * 4 + 8"

lemma reserve_ok:
  assumes ok: "buf_ok b" and m: "malloc_ok m" and cap: "cap < 2 ^ 63"
    and r: "BUF_MEM_reserve m b cap = (r, b')"
  shows "buf_ok b' \<and> bm_contents b' = bm_contents b \<and> bm_length b' = bm_length b \<and>
    (r \<longrightarrow> cap \<le> bm_max b') \<and> (\<not> r \<longrightarrow> b' = b \<and> m (growth_request cap) = None)"
proof (cases "cap \<le> bm_max b")
  case True
  then show ?thesis using assms by (simp add: BUF_MEM_reserve_def)
next
  case False
  define a where "a = (cap + 3) div 3 * 4"
  have le: "cap \<le> a" "bm_max b \<le> a" "a + 8 < 2 ^ 64" using False cap by (simp_all add: a_def)
  note alt = BUF_MEM_reserve_alt [OF cap, of b m, folded a_def] False r
  show ?thesis
  proof (cases "bm_block b")
    case None
    then show ?thesis using alt ok le alloc_bytes_length [OF m le(3)] alloc_bytes_None [OF _ le(3)]
      by (auto simp: buf_ok_def bm_contents_def growth_request_def a_def split: option.splits)
  next
    case (Some d)
    then have d: "length d = bm_max b" "bm_off b = 0" "bm_length b \<le> bm_max b"
      using ok by (simp_all add: buf_ok_def)
    have g: "length e = a \<and> take (bm_length b) e = take (bm_length b) d" if "realloc_bytes m d a = Some e" for e
    proof -
      have "length e = a \<and> take (length d) e = d"
        using realloc_bytes_grow [OF m _ le(3) that] d le(2) by simp
      then show ?thesis using d(1,3) by (metis min.absorb1 take_take)
    qed
    show ?thesis
      using alt Some d le g realloc_bytes_None [OF _ le(3)]
      by (auto simp: buf_ok_def bm_contents_def growth_request_def a_def split: option.splits)
  qed
qed

lemma overwrite_length: "i + length xs \<le> length d \<Longrightarrow> length (overwrite d i xs) = length d"
  by (simp add: overwrite_def)

lemma overwrite_take:
  "i + length xs \<le> length d \<Longrightarrow> take (i + length xs) (overwrite d i xs) = take i d @ xs"
  by (simp add: overwrite_def)

lemma write_end:
  assumes "buf_ok b" and "bm_length b + length xs \<le> bm_max b"
  shows "\<exists>b'. bm_write b (bm_length b) xs = Some b' \<and>
    buf_ok (b'\<lparr>bm_length := bm_length b + length xs\<rparr>) \<and>
    bm_contents (b'\<lparr>bm_length := bm_length b + length xs\<rparr>) = bm_contents b @ xs"
proof (cases "xs = []")
  case True
  then show ?thesis using assms by (simp add: bm_write_def)
next
  case False
  then obtain d where d: "bm_block b = Some d" "length d = bm_max b" "bm_off b = 0"
    using assms by (cases "bm_block b") (auto simp: buf_ok_def)
  then show ?thesis using assms False overwrite_take [of "bm_length b" xs d]
    by (simp add: bm_write_def buf_ok_def bm_contents_def overwrite_length)
qed

lemma grow_ok:
  assumes ok: "buf_ok b" and m: "malloc_ok m" and len: "bm_length b \<le> len" "len < 2 ^ 63"
  shows "\<exists>r b'. BUF_MEM_grow m b len = Some (r, b') \<and> buf_ok b' \<and>
    (r = len \<and> bm_contents b' = bm_contents b @ replicate (len - bm_length b) 0 \<and> bm_length b' = len \<or>
     r = 0 \<and> b' = b \<and> len \<noteq> 0 \<and> m (growth_request len) = None)"
proof -
  obtain r b1 where r: "BUF_MEM_reserve m b len = (r, b1)" by fastforce
  note q = reserve_ok [OF ok m len(2) r]
  show ?thesis
  proof (cases r)
    case False
    moreover have "len \<noteq> 0" using r False by (cases "len = 0") (simp_all add: BUF_MEM_reserve_def [of m b 0])
    ultimately show ?thesis using r q ok by (simp add: BUF_MEM_grow_def)
  next
    case True
    then have "\<exists>b'. bm_write b1 (bm_length b1) (replicate (len - bm_length b1) 0) = Some b' \<and>
        buf_ok (b'\<lparr>bm_length := len\<rparr>) \<and>
        bm_contents (b'\<lparr>bm_length := len\<rparr>) = bm_contents b1 @ replicate (len - bm_length b1) 0"
      using write_end [of b1 "replicate (len - bm_length b1) 0"] q len by simp
    then show ?thesis using r q True len
      by (auto simp: BUF_MEM_grow_def bm_write_def)
  qed
qed

lemma append_ok:
  assumes ok: "buf_ok b" and m: "malloc_ok m" and len: "bm_length b + length xs < 2 ^ 63"
  shows "\<exists>r b'. BUF_MEM_append m b xs (length xs) = Some (r, b') \<and> buf_ok b' \<and>
    bm_contents b' = (if r then bm_contents b @ xs else bm_contents b)"
proof (cases "xs = []")
  case True
  then show ?thesis using ok by (intro exI [of _ True]) (simp add: BUF_MEM_append_def)
next
  case False
  have n: "(bm_length b + length xs) mod size_max1 = bm_length b + length xs" using len by simp
  obtain r b1 where r: "BUF_MEM_reserve m b (bm_length b + length xs) = (r, b1)" by fastforce
  note q = reserve_ok [OF ok m len r]
  show ?thesis
  proof (cases r)
    case False
    then show ?thesis using r q ok \<open>xs \<noteq> []\<close>
      by (intro exI [of _ False]) (simp only: BUF_MEM_append_def Let_def n, simp)
  next
    case True
    then show ?thesis using r q write_end [of b1 xs] \<open>xs \<noteq> []\<close>
      by (simp only: BUF_MEM_append_def Let_def n) auto
  qed
qed

end
