(* ===== verification/Lhash.thy ===== *)
theory Lhash
  imports Mem
begin

text \<open>
  The chained hash table of \<open>crypto/lhash/lhash.c\<close>. A chain is the list of its items, and a
  pointer to a chain link (\<open>LHASH_ITEM **\<close>) is a bucket index with a position in its chain,
  the position after the last item standing for the terminating \<open>NULL\<close>. The hash and the
  comparison function are function pointers, numbers here, that the operations call through
  the helpers \<open>call_hash\<close> and \<open>call_cmp\<close>, as the code does.
\<close>

section \<open>State\<close>

type_synonym 'a hash_helper = "nat \<Rightarrow> 'a \<Rightarrow> u32"
type_synonym 'a cmp_helper = "nat \<Rightarrow> 'a \<Rightarrow> 'a \<Rightarrow> int"

record 'a lhash_item =
  it_data :: 'a
  it_hash :: u32

record 'a lhash =
  num_items :: nat
  buckets :: "'a lhash_item list list"
  num_buckets :: nat
  callback_depth :: nat
  lh_cmpf :: nat
  lh_hashf :: nat

definition kMinNumBuckets :: nat where "kMinNumBuckets = 16"
definition kMaxAverageChainLength :: nat where "kMaxAverageChainLength = 2"
definition kMinAverageChainLength :: nat where "kMinAverageChainLength = 1"
definition sizeof_LHASH :: u64 where "sizeof_LHASH = 48"
definition sizeof_LHASH_ITEM :: u64 where "sizeof_LHASH_ITEM = 24"
definition UINT_MAX :: nat where "UINT_MAX = 2 ^ 32 - 1"

section \<open>Operations\<close>

definition lh_new :: "libc \<Rightarrow> libc \<Rightarrow> nat \<Rightarrow> nat \<Rightarrow> 'a lhash option" where
  "lh_new m1 m2 hash cmpf = (
     case OPENSSL_malloc m1 sizeof_LHASH of
       None \<Rightarrow> None
     | Some _ \<Rightarrow>
         (case OPENSSL_malloc m2 (8 * of_nat kMinNumBuckets) of
            None \<Rightarrow> None
          | Some _ \<Rightarrow>
              Some \<lparr>num_items = 0, buckets = replicate kMinNumBuckets [],
                    num_buckets = kMinNumBuckets, callback_depth = 0, lh_cmpf = cmpf,
                    lh_hashf = hash\<rparr>))"

text \<open>The items released, in order; the data they point to are not.\<close>

definition lh_free :: "'a lhash option \<Rightarrow> 'a lhash_item list" where
  "lh_free lh = (case lh of None \<Rightarrow> [] | Some l \<Rightarrow> concat (buckets l))"

definition lh_num_items :: "'a lhash \<Rightarrow> nat" where
  "lh_num_items lh = num_items lh"

text \<open>The search along a chain stops at the first match or at the terminating link.\<close>

fun chain_pos :: "('a lhash_item \<Rightarrow> bool) \<Rightarrow> 'a lhash_item list \<Rightarrow> nat" where
  "chain_pos t [] = 0"
| "chain_pos t (cur # rest) = (if t cur then 0 else Suc (chain_pos t rest))"

definition get_next_ptr_and_hash ::
  "'a hash_helper \<Rightarrow> 'a cmp_helper \<Rightarrow> 'a lhash \<Rightarrow> 'a \<Rightarrow> u32 \<times> nat \<times> nat" where
  "get_next_ptr_and_hash call_hash call_cmp lh d = (
     let hash = call_hash (lh_hashf lh) d;
         b = unat hash mod num_buckets lh in
     (hash, b, chain_pos (\<lambda>cur. call_cmp (lh_cmpf lh) (it_data cur) d = 0) (buckets lh ! b)))"

definition get_next_ptr_by_key ::
  "'a lhash \<Rightarrow> 'k \<Rightarrow> u32 \<Rightarrow> ('k \<Rightarrow> 'a \<Rightarrow> int) \<Rightarrow> nat \<times> nat" where
  "get_next_ptr_by_key lh key key_hash cmp_key = (
     let b = unat key_hash mod num_buckets lh in
     (b, chain_pos (\<lambda>cur. cmp_key key (it_data cur) = 0) (buckets lh ! b)))"

text \<open>\<open>*next_ptr\<close>\<close>

definition deref :: "'a lhash \<Rightarrow> nat \<times> nat \<Rightarrow> 'a lhash_item option" where
  "deref lh p = (case p of (b, k) \<Rightarrow>
     if k < length (buckets lh ! b) then Some (buckets lh ! b ! k) else None)"

definition lh_retrieve :: "'a hash_helper \<Rightarrow> 'a cmp_helper \<Rightarrow> 'a lhash \<Rightarrow> 'a \<Rightarrow> 'a option" where
  "lh_retrieve call_hash call_cmp lh d = (
     let (_, p) = get_next_ptr_and_hash call_hash call_cmp lh d in
     case deref lh p of None \<Rightarrow> None | Some it \<Rightarrow> Some (it_data it))"

definition lh_retrieve_key ::
  "'a lhash \<Rightarrow> 'k \<Rightarrow> u32 \<Rightarrow> ('k \<Rightarrow> 'a \<Rightarrow> int) \<Rightarrow> 'a option" where
  "lh_retrieve_key lh key key_hash cmp_key = (
     case deref lh (get_next_ptr_by_key lh key key_hash cmp_key) of
       None \<Rightarrow> None
     | Some it \<Rightarrow> Some (it_data it))"

text \<open>Moving one item to the head of its new chain.\<close>

definition rebucket_item ::
  "nat \<Rightarrow> 'a lhash_item list list \<Rightarrow> 'a lhash_item \<Rightarrow> 'a lhash_item list list" where
  "rebucket_item n bs cur = (
     let new_bucket = unat (it_hash cur) mod n in bs[new_bucket := cur # bs ! new_bucket])"

definition lh_rebucket :: "libc \<Rightarrow> 'a lhash \<Rightarrow> nat \<Rightarrow> 'a lhash" where
  "lh_rebucket m lh n = (
     let alloc_size = 8 * n mod size_max1 in
     if alloc_size div 8 \<noteq> n then lh
     else
       (case OPENSSL_malloc m (of_nat alloc_size) of
          None \<Rightarrow> lh
        | Some _ \<Rightarrow>
            lh\<lparr>num_buckets := n,
               buckets := foldl (rebucket_item n) (replicate n []) (concat (buckets lh))\<rparr>))"

definition lh_maybe_resize :: "libc \<Rightarrow> 'a lhash \<Rightarrow> 'a lhash" where
  "lh_maybe_resize m lh = (
     if callback_depth lh > 0 then lh
     else
       let avg_chain_length = num_items lh div num_buckets lh in
       if avg_chain_length > kMaxAverageChainLength then
         let new_num_buckets = num_buckets lh * 2 mod size_max1 in
         if new_num_buckets > num_buckets lh then lh_rebucket m lh new_num_buckets else lh
       else if avg_chain_length < kMinAverageChainLength \<and> num_buckets lh > kMinNumBuckets then
         let new_num_buckets = num_buckets lh div 2 in
         lh_rebucket m lh
           (if new_num_buckets < kMinNumBuckets then kMinNumBuckets else new_num_buckets)
       else lh)"

text \<open>
  The result, \<open>*old_data\<close> and the table. The item and the resized bucket array are allocated
  by two calls. The number of items is bounded by the memory they occupy, so the count cannot
  wrap.
\<close>

definition lh_insert ::
  "libc \<Rightarrow> libc \<Rightarrow> 'a hash_helper \<Rightarrow> 'a cmp_helper \<Rightarrow> 'a lhash \<Rightarrow> 'a \<Rightarrow> bool \<times> 'a option \<times> 'a lhash" where
  "lh_insert m1 m2 call_hash call_cmp lh d = (
     let (hash, b, k) = get_next_ptr_and_hash call_hash call_cmp lh d;
         chain = buckets lh ! b in
     case deref lh (b, k) of
       Some it \<Rightarrow> (True, Some (it_data it),
         lh\<lparr>buckets := (buckets lh)[b := chain[k := it\<lparr>it_data := d\<rparr>]]\<rparr>)
     | None \<Rightarrow>
         (case OPENSSL_malloc m1 sizeof_LHASH_ITEM of
            None \<Rightarrow> (False, None, lh)
          | Some _ \<Rightarrow>
              let item = \<lparr>it_data = d, it_hash = hash\<rparr> in
              (True, None, lh_maybe_resize m2
                 (lh\<lparr>buckets := (buckets lh)[b := take k chain @ [item]],
                     num_items := num_items lh + 1\<rparr>))))"

definition lh_delete ::
  "libc \<Rightarrow> 'a hash_helper \<Rightarrow> 'a cmp_helper \<Rightarrow> 'a lhash \<Rightarrow> 'a \<Rightarrow> 'a option \<times> 'a lhash" where
  "lh_delete m call_hash call_cmp lh d = (
     let (_, b, k) = get_next_ptr_and_hash call_hash call_cmp lh d;
         chain = buckets lh ! b in
     case deref lh (b, k) of
       None \<Rightarrow> (None, lh)
     | Some it \<Rightarrow>
         (Some (it_data it), lh_maybe_resize m
            (lh\<lparr>buckets := (buckets lh)[b := take k chain @ drop (Suc k) chain],
                num_items := num_items lh - 1\<rparr>)))"

text \<open>
  \<open>lh_doall_arg\<close> with a callback that updates the state its argument points to and may delete
  the element it is called on (\<open>True\<close>). The next link of a chain is read before the callback
  runs, so the rest of the chain is fixed. Callbacks that insert, or delete other elements,
  are outside the model.
\<close>

fun doall_chain ::
  "libc \<Rightarrow> 'a hash_helper \<Rightarrow> 'a cmp_helper \<Rightarrow> ('a \<Rightarrow> 's \<Rightarrow> 's \<times> bool) \<Rightarrow> 'a lhash_item list \<Rightarrow>
   'a lhash \<times> 's \<Rightarrow> 'a lhash \<times> 's" where
  "doall_chain m ch cc func [] st = st"
| "doall_chain m ch cc func (cur # rest) (lh, s) = (
     let (s', del) = func (it_data cur) s;
         lh' = (if del then snd (lh_delete m ch cc lh (it_data cur)) else lh) in
     doall_chain m ch cc func rest (lh', s'))"

fun doall_buckets ::
  "libc \<Rightarrow> 'a hash_helper \<Rightarrow> 'a cmp_helper \<Rightarrow> ('a \<Rightarrow> 's \<Rightarrow> 's \<times> bool) \<Rightarrow> nat list \<Rightarrow>
   'a lhash \<times> 's \<Rightarrow> 'a lhash \<times> 's" where
  "doall_buckets m ch cc func [] st = st"
| "doall_buckets m ch cc func (i # is) (lh, s) =
     doall_buckets m ch cc func is (doall_chain m ch cc func (buckets lh ! i) (lh, s))"

definition lh_doall_arg ::
  "libc \<Rightarrow> 'a hash_helper \<Rightarrow> 'a cmp_helper \<Rightarrow> ('a \<Rightarrow> 's \<Rightarrow> 's \<times> bool) \<Rightarrow> 'a lhash option \<Rightarrow> 's \<Rightarrow>
   'a lhash option \<times> 's" where
  "lh_doall_arg m ch cc func lh s = (
     case lh of
       None \<Rightarrow> (None, s)
     | Some l \<Rightarrow>
         let l1 = (if callback_depth l < UINT_MAX
                   then l\<lparr>callback_depth := callback_depth l + 1\<rparr> else l);
             (l2, s') = doall_buckets m ch cc func [0..<num_buckets l1] (l1, s);
             l3 = (if callback_depth l2 < UINT_MAX
                   then l2\<lparr>callback_depth := callback_depth l2 - 1\<rparr> else l2) in
         (Some (lh_maybe_resize m l3), s'))"

definition lh_strhash :: "byte list option \<Rightarrow> u32 option" where
  "lh_strhash c = (
     case c of
       None \<Rightarrow> Some 0
     | Some s \<Rightarrow> (case strlen s of None \<Rightarrow> None | Some n \<Rightarrow> Some (OPENSSL_hash32 s n)))"

end
