(* ===== verification/LhashSpec.thy ===== *)
theory LhashSpec
  imports Lhash "HOL-Library.Multiset"
begin

text \<open>
  The contract of the hash table as an interface: a partial map on the classes of equal
  elements. The client part of the interface is proved once, for any sequence of operations,
  and the chained table provides it for every comparison that is an equivalence and agrees
  with the hash.
\<close>

section \<open>The interface\<close>

datatype 'a table_op = Table_insert 'a | Table_delete 'a | Table_retrieve 'a

datatype 'a table_res = Inserted bool "'a option" | Found "'a option"

locale table =
  fixes invar :: "'t \<Rightarrow> bool"
    and lookup :: "'t \<Rightarrow> 'a \<Rightarrow> 'a option"
    and equal_to :: "'a \<Rightarrow> 'a \<Rightarrow> bool"
    and insert_to :: "'e \<Rightarrow> 't \<Rightarrow> 'a \<Rightarrow> bool \<times> 'a option \<times> 't"
    and delete_from :: "'e \<Rightarrow> 't \<Rightarrow> 'a \<Rightarrow> 'a option \<times> 't"
  assumes lookup_equal: "invar t \<Longrightarrow> lookup t x = Some y \<Longrightarrow> equal_to y x"
    and insert_ok: "invar t \<Longrightarrow> insert_to e t x = (True, old, t') \<Longrightarrow>
      invar t' \<and> old = lookup t x \<and> lookup t' = (\<lambda>y. if equal_to x y then Some x else lookup t y)"
    and insert_fail: "invar t \<Longrightarrow> insert_to e t x = (False, old, t') \<Longrightarrow>
      t' = t \<and> old = None \<and> lookup t x = None"
    and delete_ok: "invar t \<Longrightarrow> delete_from e t x = (r, t') \<Longrightarrow>
      invar t' \<and> r = lookup t x \<and> lookup t' = (\<lambda>y. if equal_to x y then None else lookup t y)"

fun table_step ::
  "('t \<Rightarrow> 'a \<Rightarrow> 'a option) \<Rightarrow> ('e \<Rightarrow> 't \<Rightarrow> 'a \<Rightarrow> bool \<times> 'a option \<times> 't) \<Rightarrow>
   ('e \<Rightarrow> 't \<Rightarrow> 'a \<Rightarrow> 'a option \<times> 't) \<Rightarrow> 'e \<Rightarrow> 't \<Rightarrow> 'a table_op \<Rightarrow> 't \<times> 'a table_res" where
  "table_step lookup ins del e t (Table_insert x) =
     (case ins e t x of (ok, old, t') \<Rightarrow> (t', Inserted ok old))"
| "table_step lookup ins del e t (Table_delete x) =
     (case del e t x of (r, t') \<Rightarrow> (t', Found r))"
| "table_step lookup ins del e t (Table_retrieve x) = (t, Found (lookup t x))"

fun table_run ::
  "('t \<Rightarrow> 'a \<Rightarrow> 'a option) \<Rightarrow> ('e \<Rightarrow> 't \<Rightarrow> 'a \<Rightarrow> bool \<times> 'a option \<times> 't) \<Rightarrow>
   ('e \<Rightarrow> 't \<Rightarrow> 'a \<Rightarrow> 'a option \<times> 't) \<Rightarrow> 't \<Rightarrow> ('e \<times> 'a table_op) list \<Rightarrow> 't \<times> 'a table_res list" where
  "table_run lookup ins del t [] = (t, [])"
| "table_run lookup ins del t ((e, x) # xs) =
     (case table_step lookup ins del e t x of (t1, r) \<Rightarrow>
      case table_run lookup ins del t1 xs of (t2, rs) \<Rightarrow> (t2, r # rs))"

text \<open>The same operations on a map; an insertion of a new element may fail.\<close>

inductive map_step ::
  "('a \<Rightarrow> 'a \<Rightarrow> bool) \<Rightarrow> ('a \<Rightarrow> 'a option) \<Rightarrow> 'a table_op \<Rightarrow> 'a table_res \<Rightarrow> ('a \<Rightarrow> 'a option) \<Rightarrow> bool"
  for equal_to where
  map_insert: "map_step equal_to f (Table_insert x) (Inserted True (f x))
     (\<lambda>y. if equal_to x y then Some x else f y)"
| map_full: "f x = None \<Longrightarrow> map_step equal_to f (Table_insert x) (Inserted False None) f"
| map_delete: "map_step equal_to f (Table_delete x) (Found (f x))
     (\<lambda>y. if equal_to x y then None else f y)"
| map_retrieve: "map_step equal_to f (Table_retrieve x) (Found (f x)) f"

inductive map_run ::
  "('a \<Rightarrow> 'a \<Rightarrow> bool) \<Rightarrow> ('a \<Rightarrow> 'a option) \<Rightarrow> 'a table_op list \<Rightarrow> 'a table_res list \<Rightarrow>
   ('a \<Rightarrow> 'a option) \<Rightarrow> bool"
  for equal_to where
  map_nil: "map_run equal_to f [] [] f"
| map_cons: "map_step equal_to f x r f1 \<Longrightarrow> map_run equal_to f1 xs rs f2 \<Longrightarrow>
     map_run equal_to f (x # xs) (r # rs) f2"

context table
begin

lemma step_refines:
  assumes "invar t" and "table_step lookup insert_to delete_from e t x = (t', r)"
  shows "invar t' \<and> map_step equal_to (lookup t) x r (lookup t')"
proof (cases x)
  case (Table_insert a)
  obtain ok old t1 where i: "insert_to e t a = (ok, old, t1)" by (rule prod_cases3)
  show ?thesis
  proof (cases ok)
    case True
    with i insert_ok [OF assms(1)] have "insert_to e t a = (True, old, t1)" by simp
    from insert_ok [OF assms(1) this] assms(2) Table_insert i True show ?thesis
      using map_step.map_insert [of equal_to "lookup t" a] by simp
  next
    case False
    with i have "insert_to e t a = (False, old, t1)" by simp
    from insert_fail [OF assms(1) this] assms Table_insert i False show ?thesis
      using map_step.map_full [of "lookup t" a equal_to] by simp
  qed
next
  case (Table_delete a)
  obtain y t1 where d: "delete_from e t a = (y, t1)" by fastforce
  from delete_ok [OF assms(1) d] assms(2) Table_delete d show ?thesis
    using map_step.map_delete [of equal_to "lookup t" a] by simp
next
  case (Table_retrieve a)
  with assms show ?thesis by (auto intro: map_step.map_retrieve)
qed

lemma run_refines:
  "invar t \<Longrightarrow> table_run lookup insert_to delete_from t xs = (t', rs) \<Longrightarrow>
   invar t' \<and> map_run equal_to (lookup t) (map snd xs) rs (lookup t')"
proof (induction xs arbitrary: t rs)
  case Nil
  then show ?case by (auto intro: map_run.map_nil)
next
  case (Cons y xs)
  obtain e x where y: "y = (e, x)" by fastforce
  obtain t1 r where s: "table_step lookup insert_to delete_from e t x = (t1, r)" by fastforce
  obtain rs1 where u: "table_run lookup insert_to delete_from t1 xs = (t', rs1)" "rs = r # rs1"
    using Cons.prems(2) y s by (auto split: prod.splits)
  from step_refines [OF Cons.prems(1) s] Cons.IH [OF _ u(1)] show ?case
    using y u(2) by (auto intro: map_run.map_cons)
qed

end

section \<open>Buckets\<close>

lemma chain_pos_cases:
  "chain_pos t xs \<le> length xs \<and> (chain_pos t xs < length xs \<longrightarrow> t (xs ! chain_pos t xs)) \<and>
   (chain_pos t xs = length xs \<longrightarrow> (\<forall>x\<in>set xs. \<not> t x))"
  by (induction t xs rule: chain_pos.induct) auto

lemma mset_concat_update:
  "k < length bs \<Longrightarrow> mset (concat (bs[k := c])) + mset (bs ! k) = mset (concat bs) + mset c"
proof (induction bs arbitrary: k)
  case (Cons b bs)
  show ?case
  proof (cases k)
    case (Suc j)
    then have "mset (concat (bs[j := c])) + mset (bs ! j) = mset (concat bs) + mset c"
      using Cons by simp
    then show ?thesis using Suc by (simp add: add.assoc)
  qed (simp add: ac_simps)
qed simp

definition placed :: "nat \<Rightarrow> 'a lhash_item list list \<Rightarrow> bool" where
  "placed n bs \<longleftrightarrow> length bs = n \<and> (\<forall>b<n. \<forall>it\<in>set (bs ! b). unat (it_hash it) mod n = b)"

lemma rebucket_item_spec:
  assumes "0 < n" and "placed n bs"
  shows "placed n (rebucket_item n bs cur) \<and>
    mset (concat (rebucket_item n bs cur)) = add_mset cur (mset (concat bs))"
proof -
  have k: "unat (it_hash cur) mod n < length bs" using assms by (simp add: placed_def)
  from mset_concat_update [OF this, of "cur # bs ! (unat (it_hash cur) mod n)"] assms show ?thesis
    by (auto simp: rebucket_item_def Let_def placed_def nth_list_update)
qed

lemma rebucket_foldl:
  assumes "0 < n" and "placed n bs"
  shows "placed n (foldl (rebucket_item n) bs xs) \<and>
    mset (concat (foldl (rebucket_item n) bs xs)) = mset xs + mset (concat bs)"
  using assms(2)
proof (induction xs arbitrary: bs)
  case (Cons x xs)
  from rebucket_item_spec [OF assms(1) Cons.prems, of x] Cons.IH [of "rebucket_item n bs x"]
  show ?case by simp
qed simp

lemma concat_replicate_Nil: "concat (replicate n []) = []"
  by (induction n) auto

lemma placed_replicate: "placed n (replicate n [])"
  by (simp add: placed_def)


section \<open>The invariant of a hash table\<close>

lemma placed_update:
  "placed n bs \<Longrightarrow> b < n \<Longrightarrow> \<forall>x\<in>set c. unat (it_hash x) mod n = b \<Longrightarrow> placed n (bs[b := c])"
  by (auto simp: placed_def nth_list_update)

definition class_of :: "'a cmp_helper \<Rightarrow> nat \<Rightarrow> 'a lhash_item \<Rightarrow> 'a set" where
  "class_of call_cmp cf it = {y. call_cmp cf (it_data it) y = 0}"

definition contents :: "'a lhash \<Rightarrow> 'a lhash_item multiset" where
  "contents lh = mset (concat (buckets lh))"

definition separate :: "'a cmp_helper \<Rightarrow> nat \<Rightarrow> 'a lhash_item multiset \<Rightarrow> bool" where
  "separate call_cmp cf C \<longleftrightarrow> (\<forall>c. count (image_mset (class_of call_cmp cf) C) c \<le> 1)"

definition lh_ok :: "'a hash_helper \<Rightarrow> 'a cmp_helper \<Rightarrow> nat \<Rightarrow> nat \<Rightarrow> 'a lhash \<Rightarrow> bool" where
  "lh_ok call_hash call_cmp hf cf lh \<longleftrightarrow>
     lh_hashf lh = hf \<and> lh_cmpf lh = cf \<and> kMinNumBuckets \<le> num_buckets lh \<and>
     placed (num_buckets lh) (buckets lh) \<and> num_items lh = size (contents lh) \<and>
     (\<forall>it\<in>#contents lh. it_hash it = call_hash hf (it_data it)) \<and>
     separate call_cmp cf (contents lh)"

lemma separate_uniqueD:
  "separate cc cf C \<Longrightarrow> x \<in># C \<Longrightarrow> y \<in># C \<Longrightarrow> class_of cc cf x = class_of cc cf y \<Longrightarrow> x = y"
proof (rule ccontr)
  assume a: "separate cc cf C" "x \<in># C" "y \<in># C" "class_of cc cf x = class_of cc cf y" "x \<noteq> y"
  then obtain N where "C = add_mset x N" by (metis insert_DiffM)
  moreover from this a obtain N' where "N = add_mset y N'"
    by (metis insert_DiffM insert_noteq_member)
  ultimately have "count (image_mset (class_of cc cf) C) (class_of cc cf x) \<ge> 2" using a(4) by simp
  with a(1) show False unfolding separate_def by (metis not_less_eq_eq numeral_2_eq_2 One_nat_def)
qed

lemma separate_mono: "separate cc cf (add_mset x M) \<Longrightarrow> separate cc cf M"
proof -
  assume s: "separate cc cf (add_mset x M)"
  have "count (image_mset (class_of cc cf) M) c \<le> 1" for c
  proof -
    have "count (image_mset (class_of cc cf) (add_mset x M)) c \<le> 1"
      using s unfolding separate_def by blast
    then show ?thesis by (simp split: if_splits)
  qed
  then show ?thesis unfolding separate_def by blast
qed

lemma separate_add:
  "separate cc cf M \<Longrightarrow> \<forall>y\<in>#M. class_of cc cf y \<noteq> class_of cc cf x \<Longrightarrow> separate cc cf (add_mset x M)"
  unfolding separate_def by (auto simp: count_eq_zero_iff image_iff)

lemma separate_replace:
  "separate cc cf (add_mset x M) \<Longrightarrow> class_of cc cf x = class_of cc cf y \<Longrightarrow> separate cc cf (add_mset y M)"
  by (simp add: separate_def)

lemma contents_bucket: "b < length (buckets lh) \<Longrightarrow> it \<in> set (buckets lh ! b) \<Longrightarrow> it \<in># contents lh"
  by (auto simp: contents_def in_set_conv_nth) (metis nth_mem)

lemma lh_rebucket_ok:
  assumes ok: "lh_ok ch cc hf cf lh" and n: "kMinNumBuckets \<le> n"
  shows "lh_ok ch cc hf cf (lh_rebucket m lh n) \<and> contents (lh_rebucket m lh n) = contents lh \<and>
    callback_depth (lh_rebucket m lh n) = callback_depth lh"
proof -
  have "0 < n" using n by (simp add: kMinNumBuckets_def)
  define lh' where "lh' = lh\<lparr>num_buckets := n,
    buckets := foldl (rebucket_item n) (replicate n []) (concat (buckets lh))\<rparr>"
  note fold = rebucket_foldl [OF \<open>0 < n\<close> placed_replicate, of "concat (buckets lh)"]
  then have c: "contents lh' = contents lh"
    by (simp add: contents_def lh'_def concat_replicate_Nil)
  have "lh_ok ch cc hf cf lh'"
    using ok n fold unfolding lh_ok_def c by (simp add: lh'_def)
  then show ?thesis using ok c
    by (auto simp: lh_rebucket_def Let_def lh'_def split: option.splits)
qed

lemma lh_maybe_resize_ok:
  assumes "lh_ok ch cc hf cf lh"
  shows "lh_ok ch cc hf cf (lh_maybe_resize m lh) \<and> contents (lh_maybe_resize m lh) = contents lh \<and>
    callback_depth (lh_maybe_resize m lh) = callback_depth lh"
proof -
  have min: "kMinNumBuckets \<le> num_buckets lh" using assms by (simp add: lh_ok_def)
  let ?up = "num_buckets lh * 2 mod size_max1"
  let ?down = "if num_buckets lh div 2 < kMinNumBuckets then kMinNumBuckets else num_buckets lh div 2"
  have "lh_maybe_resize m lh \<in> {lh, lh_rebucket m lh ?down} \<or>
      num_buckets lh < ?up \<and> lh_maybe_resize m lh = lh_rebucket m lh ?up"
    by (simp add: lh_maybe_resize_def Let_def)
  moreover have "kMinNumBuckets \<le> ?down" by simp
  ultimately show ?thesis
    using assms min lh_rebucket_ok [OF assms, of ?up m] lh_rebucket_ok [OF assms, of ?down m]
    by (elim disjE conjE insertE) (simp_all del: if_split)
qed

section \<open>The chained table provides the interface\<close>

definition equal_in :: "'a cmp_helper \<Rightarrow> nat \<Rightarrow> 'a \<Rightarrow> 'a \<Rightarrow> bool" where
  "equal_in call_cmp cf x y \<longleftrightarrow> call_cmp cf x y = 0"

definition lh_insert_to ::
  "'a hash_helper \<Rightarrow> 'a cmp_helper \<Rightarrow> libc \<times> libc \<Rightarrow> 'a lhash \<Rightarrow> 'a \<Rightarrow> bool \<times> 'a option \<times> 'a lhash" where
  "lh_insert_to call_hash call_cmp e lh x = lh_insert (fst e) (snd e) call_hash call_cmp lh x"

definition lh_delete_from ::
  "'a hash_helper \<Rightarrow> 'a cmp_helper \<Rightarrow> libc \<times> libc \<Rightarrow> 'a lhash \<Rightarrow> 'a \<Rightarrow> 'a option \<times> 'a lhash" where
  "lh_delete_from call_hash call_cmp e lh x = lh_delete (snd e) call_hash call_cmp lh x"

locale hashing =
  fixes call_hash :: "'a hash_helper" and call_cmp :: "'a cmp_helper" and hf cf :: nat
  assumes cmp_refl: "call_cmp cf x x = 0"
    and cmp_sym: "call_cmp cf x y = 0 \<Longrightarrow> call_cmp cf y x = 0"
    and cmp_trans: "call_cmp cf x y = 0 \<Longrightarrow> call_cmp cf y z = 0 \<Longrightarrow> call_cmp cf x z = 0"
    and cmp_hash: "call_cmp cf x y = 0 \<Longrightarrow> call_hash hf x = call_hash hf y"

context hashing
begin

lemma class_eq: "class_of call_cmp cf x = class_of call_cmp cf y \<longleftrightarrow> call_cmp cf (it_data x) (it_data y) = 0"
  unfolding class_of_def using cmp_refl cmp_sym cmp_trans by blast

lemma position:
  assumes ok: "lh_ok call_hash call_cmp hf cf lh"
    and p: "get_next_ptr_and_hash call_hash call_cmp lh d = (h, b, k)"
  shows "h = call_hash hf d \<and> b < length (buckets lh) \<and> b = unat h mod num_buckets lh \<and>
    (\<forall>it. deref lh (b, k) = Some it \<longrightarrow> k < length (buckets lh ! b) \<and> it = buckets lh ! b ! k \<and>
       it \<in># contents lh \<and> call_cmp cf (it_data it) d = 0) \<and>
    (deref lh (b, k) = None \<longrightarrow> k = length (buckets lh ! b) \<and>
       (\<forall>it\<in>#contents lh. call_cmp cf (it_data it) d \<noteq> 0))"
proof -
  have f: "lh_hashf lh = hf" "lh_cmpf lh = cf" "0 < num_buckets lh" "length (buckets lh) = num_buckets lh"
    using ok by (auto simp: lh_ok_def placed_def kMinNumBuckets_def)
  have h: "h = call_hash hf d" "b = unat h mod num_buckets lh"
    and k: "k = chain_pos (\<lambda>cur. call_cmp cf (it_data cur) d = 0) (buckets lh ! b)"
    using p f by (auto simp: get_next_ptr_and_hash_def Let_def)
  have b: "b < length (buckets lh)" using h(2) f by simp
  note c = chain_pos_cases [of "\<lambda>cur. call_cmp cf (it_data cur) d = 0" "buckets lh ! b", folded k]
  have none: "call_cmp cf (it_data it) d \<noteq> 0" if "it \<in># contents lh" "k = length (buckets lh ! b)" for it
  proof
    assume e: "call_cmp cf (it_data it) d = 0"
    from that(1) obtain j where j: "j < length (buckets lh)" "it \<in> set (buckets lh ! j)"
      by (auto simp: contents_def in_set_conv_nth) metis
    have "it_hash it = h" using ok that(1) cmp_hash [OF e] h(1) by (simp add: lh_ok_def)
    then have "j = b" using ok j h(2) by (auto simp: lh_ok_def placed_def)
    with j c that(2) e show False by auto
  qed
  show ?thesis
    using h b c none contents_bucket [OF b] by (auto simp: deref_def)
qed

lemma retrieve_iff:
  assumes ok: "lh_ok call_hash call_cmp hf cf lh"
  shows "lh_retrieve call_hash call_cmp lh d = Some y \<longleftrightarrow>
    (\<exists>it\<in>#contents lh. it_data it = y \<and> call_cmp cf y d = 0)"
proof -
  obtain h b k where p: "get_next_ptr_and_hash call_hash call_cmp lh d = (h, b, k)" by (rule prod_cases3)
  note q = position [OF ok p]
  show ?thesis
  proof (cases "deref lh (b, k)")
    case None
    then show ?thesis using q p by (auto simp: lh_retrieve_def)
  next
    case (Some it)
    then have it: "it \<in># contents lh" "call_cmp cf (it_data it) d = 0" using q by blast+
    have "it' = it" if "it' \<in># contents lh" "call_cmp cf (it_data it') d = 0" for it'
    proof (rule separate_uniqueD)
      show "separate call_cmp cf (contents lh)" using ok by (simp add: lh_ok_def)
      show "class_of call_cmp cf it' = class_of call_cmp cf it"
        unfolding class_eq by (rule cmp_trans [OF that(2) cmp_sym [OF it(2)]])
    qed (rule that(1), rule it(1))
    note uniq = this
    have "lh_retrieve call_hash call_cmp lh d = Some (it_data it)"
      by (simp add: lh_retrieve_def p Some)
    moreover have "it_data it = y \<longleftrightarrow> (\<exists>it'\<in>#contents lh. it_data it' = y \<and> call_cmp cf y d = 0)"
    proof
      assume "it_data it = y"
      with it show "\<exists>it'\<in>#contents lh. it_data it' = y \<and> call_cmp cf y d = 0" by blast
    next
      assume "\<exists>it'\<in>#contents lh. it_data it' = y \<and> call_cmp cf y d = 0"
      then obtain it' where "it' \<in># contents lh" "it_data it' = y" "call_cmp cf y d = 0" by blast
      with uniq [of it'] show "it_data it = y" by simp
    qed
    ultimately show ?thesis by simp
  qed
qed

lemma retrieve_contents:
  "lh_ok call_hash call_cmp hf cf lh \<Longrightarrow> contents lh = C \<Longrightarrow>
   lh_retrieve call_hash call_cmp lh d = Some y \<longleftrightarrow> (\<exists>it\<in>#C. it_data it = y \<and> call_cmp cf y d = 0)"
  using retrieve_iff by blast

lemma retrieve_None:
  "lh_ok call_hash call_cmp hf cf lh \<Longrightarrow>
   lh_retrieve call_hash call_cmp lh d = None \<longleftrightarrow> (\<forall>it\<in>#contents lh. call_cmp cf (it_data it) d \<noteq> 0)"
proof -
  assume ok: "lh_ok call_hash call_cmp hf cf lh"
  show ?thesis
  proof (cases "lh_retrieve call_hash call_cmp lh d")
    case None
    have "call_cmp cf (it_data it) d \<noteq> 0" if "it \<in># contents lh" for it
    proof
      assume m: "call_cmp cf (it_data it) d = 0"
      have "lh_retrieve call_hash call_cmp lh d = Some (it_data it)"
        unfolding retrieve_iff [OF ok] by (rule bexI [OF _ that]) (rule conjI [OF refl m])
      with None show False by simp
    qed
    with None show ?thesis by simp
  next
    case (Some y)
    then have "\<exists>it\<in>#contents lh. it_data it = y \<and> call_cmp cf y d = 0"
      by (simp only: retrieve_iff [OF ok])
    with Some show ?thesis by auto
  qed
qed

text \<open>How a change of the contents changes what the table finds.\<close>

lemma retrieve_add:
  assumes ok: "lh_ok call_hash call_cmp hf cf lh" "lh_ok call_hash call_cmp hf cf lh'"
    and c: "contents lh = M \<or> contents lh = add_mset it0 M \<and> call_cmp cf (it_data it0) (it_data it) = 0"
    and c': "contents lh' = add_mset it M"
  shows "lh_retrieve call_hash call_cmp lh' =
    (\<lambda>y. if call_cmp cf (it_data it) y = 0 then Some (it_data it) else lh_retrieve call_hash call_cmp lh y)"
proof
  fix y
  show "lh_retrieve call_hash call_cmp lh' y =
    (if call_cmp cf (it_data it) y = 0 then Some (it_data it) else lh_retrieve call_hash call_cmp lh y)"
  proof (cases "call_cmp cf (it_data it) y = 0")
    case True
    then show ?thesis using retrieve_iff [OF ok(2)] c' by auto
  next
    case False
    have "lh_retrieve call_hash call_cmp lh' y = Some z \<longleftrightarrow> lh_retrieve call_hash call_cmp lh y = Some z" for z
      using c False cmp_sym [of "it_data it0" "it_data it"] cmp_trans [of "it_data it" "it_data it0" y]
      by (auto simp: retrieve_iff [OF ok(1)] retrieve_iff [OF ok(2)] c')
    then show ?thesis using False by (metis not_Some_eq)
  qed
qed

lemma retrieve_remove:
  assumes ok: "lh_ok call_hash call_cmp hf cf lh" "lh_ok call_hash call_cmp hf cf lh'"
    and c: "contents lh = add_mset it (contents lh')" and e: "call_cmp cf (it_data it) x = 0"
  shows "lh_retrieve call_hash call_cmp lh' =
    (\<lambda>y. if call_cmp cf x y = 0 then None else lh_retrieve call_hash call_cmp lh y)"
proof
  fix y
  show "lh_retrieve call_hash call_cmp lh' y =
    (if call_cmp cf x y = 0 then None else lh_retrieve call_hash call_cmp lh y)"
  proof (cases "call_cmp cf x y = 0")
    case True
    have "call_cmp cf (it_data it') y \<noteq> 0" if "it' \<in># contents lh'" for it'
    proof
      assume "call_cmp cf (it_data it') y = 0"
      then have "call_cmp cf (it_data it) (it_data it') = 0"
        by (rule cmp_trans [OF cmp_trans [OF e True] cmp_sym])
      then have cl: "class_of call_cmp cf it = class_of call_cmp cf it'" by (simp only: class_eq)
      from that obtain N where "contents lh' = add_mset it' N" by (metis insert_DiffM)
      then have "count (image_mset (class_of call_cmp cf) (contents lh)) (class_of call_cmp cf it) \<ge> 2"
        using c cl by simp
      moreover have "count (image_mset (class_of call_cmp cf) (contents lh)) (class_of call_cmp cf it) \<le> 1"
        using ok(1) by (simp add: lh_ok_def separate_def)
      ultimately show False by simp
    qed
    then show ?thesis using True retrieve_None [OF ok(2)] by simp
  next
    case False
    have "lh_retrieve call_hash call_cmp lh' y = Some z \<longleftrightarrow> lh_retrieve call_hash call_cmp lh y = Some z" for z
      using False cmp_sym [OF e] cmp_trans [of x "it_data it" y]
      by (auto simp: retrieve_iff [OF ok(1)] retrieve_iff [OF ok(2)] c)
    then show ?thesis using False by (metis not_Some_eq)
  qed
qed

lemma replace_contents:
  assumes b: "b < length (buckets lh)" and k: "k < length (buckets lh ! b)"
  shows "contents (lh\<lparr>buckets := (buckets lh)[b := (buckets lh ! b)[k := it']]\<rparr>) +
      {#buckets lh ! b ! k#} = contents lh + {#it'#}"
proof -
  let ?c = "buckets lh ! b"
  have "mset (?c[k := it']) + {#?c ! k#} = mset ?c + {#it'#}"
    using k by (simp add: mset_update)
  note eqs = mset_concat_update [OF b, of "?c[k := it']"] this
  show ?thesis
  proof (rule multiset_eqI)
    fix z
    show "count (contents (lh\<lparr>buckets := (buckets lh)[b := ?c[k := it']]\<rparr>) + {#?c ! k#}) z =
        count (contents lh + {#it'#}) z"
      using arg_cong [OF eqs(1), of "\<lambda>M. count M z"] arg_cong [OF eqs(2), of "\<lambda>M. count M z"]
      unfolding contents_def count_union by simp
  qed
qed

lemma insert_ok:
  assumes ok: "lh_ok call_hash call_cmp hf cf lh"
    and run: "lh_insert m1 m2 call_hash call_cmp lh d = (True, old, lh')"
  shows "lh_ok call_hash call_cmp hf cf lh' \<and> callback_depth lh' = callback_depth lh \<and>
    old = lh_retrieve call_hash call_cmp lh d \<and>
    lh_retrieve call_hash call_cmp lh' =
      (\<lambda>y. if call_cmp cf d y = 0 then Some d else lh_retrieve call_hash call_cmp lh y)"
proof -
  obtain h b k where p: "get_next_ptr_and_hash call_hash call_cmp lh d = (h, b, k)" by (rule prod_cases3)
  note q = position [OF ok p]
  show ?thesis
  proof (cases "deref lh (b, k)")
    case (Some it)
    define lh1 where "lh1 = lh\<lparr>buckets := (buckets lh)[b := (buckets lh ! b)[k := it\<lparr>it_data := d\<rparr>]]\<rparr>"
    have r: "old = Some (it_data it)" "lh' = lh1"
      using run p Some by (simp_all add: lh_insert_def lh1_def)
    have it: "it \<in># contents lh" "call_cmp cf (it_data it) d = 0" "k < length (buckets lh ! b)"
      "it = buckets lh ! b ! k" "b < length (buckets lh)" using q Some by blast+
    obtain M where M: "contents lh = add_mset it M" using it(1) by (metis insert_DiffM)
    have c: "contents lh1 = add_mset (it\<lparr>it_data := d\<rparr>) M"
      using replace_contents [OF it(5,3), of "it\<lparr>it_data := d\<rparr>"] M
      unfolding lh1_def [symmetric] it(4) [symmetric] by simp
    have pl: "placed (num_buckets lh) (buckets lh1)"
    proof -
      have pl0: "placed (num_buckets lh) (buckets lh)" using ok by (simp add: lh_ok_def)
      have "unat (it_hash x) mod num_buckets lh = b"
        if "x \<in> set ((buckets lh ! b)[k := it\<lparr>it_data := d\<rparr>])" for x
      proof -
        have "x = it\<lparr>it_data := d\<rparr> \<or> x \<in> set (buckets lh ! b)"
          using that set_update_subset_insert by fastforce
        moreover have "it \<in> set (buckets lh ! b)" using it(3,4) nth_mem by simp
        ultimately show ?thesis using pl0 it(5) by (auto simp: placed_def)
      qed
      moreover have "b < num_buckets lh" using pl0 it(5) by (simp add: placed_def)
      ultimately show ?thesis using placed_update [OF pl0] by (simp add: lh1_def)
    qed
    have h: "it_hash it = call_hash hf d" using ok it(1) cmp_hash [OF it(2)] by (simp add: lh_ok_def)
    have "class_of call_cmp cf it = class_of call_cmp cf (it\<lparr>it_data := d\<rparr>)"
      unfolding class_eq using it(2) by simp
    from separate_replace [OF _ this] have "separate call_cmp cf (contents lh1)"
      using ok M c by (simp add: lh_ok_def)
    then have ok1: "lh_ok call_hash call_cmp hf cf lh1"
      using ok pl c M h by (auto simp: lh_ok_def lh1_def)
    have "lh_retrieve call_hash call_cmp lh d = Some (it_data it)"
      unfolding retrieve_iff [OF ok] by (rule bexI [OF _ it(1)]) (rule conjI [OF refl it(2)])
    moreover have "lh_retrieve call_hash call_cmp lh1 =
        (\<lambda>y. if call_cmp cf d y = 0 then Some d else lh_retrieve call_hash call_cmp lh y)"
      using retrieve_add [OF ok ok1 _ c, of it] M it(2) by (simp cong: if_cong)
    moreover have "callback_depth lh1 = callback_depth lh" by (simp add: lh1_def)
    ultimately show ?thesis using r ok1 by simp
  next
    case None
    then have n: "k = length (buckets lh ! b)" "\<forall>it\<in>#contents lh. call_cmp cf (it_data it) d \<noteq> 0"
      and b: "b < length (buckets lh)" "b = unat h mod num_buckets lh" "h = call_hash hf d"
      using q by blast+
    define it where "it = \<lparr>it_data = d, it_hash = h\<rparr>"
    define lh1 where "lh1 = lh\<lparr>buckets := (buckets lh)[b := buckets lh ! b @ [it]],
      num_items := num_items lh + 1\<rparr>"
    have r: "old = None" "lh' = lh_maybe_resize m2 lh1"
      using run p None n(1) by (auto simp: lh_insert_def Let_def lh1_def it_def split: option.splits)
    have c: "contents lh1 = add_mset it (contents lh)"
      using mset_concat_update [OF b(1), of "buckets lh ! b @ [it]"] by (simp add: contents_def lh1_def)
    have pl0: "placed (num_buckets lh) (buckets lh)" using ok by (simp add: lh_ok_def)
    have bn: "b < num_buckets lh" using pl0 b(1) by (simp add: placed_def)
    have pl: "placed (num_buckets lh) (buckets lh1)"
    proof -
      have "unat (it_hash x) mod num_buckets lh = b" if "x \<in> set (buckets lh ! b)" for x
        using pl0 bn that unfolding placed_def by blast
      moreover have "unat (it_hash it) mod num_buckets lh = b" using b(2) by (simp add: it_def)
      ultimately have "placed (num_buckets lh) ((buckets lh)[b := buckets lh ! b @ [it]])"
        by (intro placed_update [OF pl0 bn]) auto
      then show ?thesis by (simp add: lh1_def)
    qed
    have "class_of call_cmp cf y \<noteq> class_of call_cmp cf it" if "y \<in># contents lh" for y
      unfolding class_eq using n(2) that by (simp add: it_def)
    moreover have "separate call_cmp cf (contents lh)" using ok by (simp add: lh_ok_def)
    ultimately have "separate call_cmp cf (contents lh1)"
      unfolding c by (intro separate_add) blast+
    then have ok1: "lh_ok call_hash call_cmp hf cf lh1"
      using ok pl b unfolding lh_ok_def c by (simp add: lh1_def it_def)
    note rs = lh_maybe_resize_ok [OF ok1, of m2]
    have "lh_retrieve call_hash call_cmp lh' =
        (\<lambda>y. if call_cmp cf d y = 0 then Some d else lh_retrieve call_hash call_cmp lh y)"
      using retrieve_add [OF ok, of lh' "contents lh" it it] rs r(2) c by (simp add: it_def cong: if_cong)
    moreover have "lh_retrieve call_hash call_cmp lh d = None" using retrieve_None [OF ok] n(2) by simp
    moreover have "callback_depth lh1 = callback_depth lh" by (simp add: lh1_def)
    ultimately show ?thesis using r rs by simp
  qed
qed

lemma insert_fail:
  assumes ok: "lh_ok call_hash call_cmp hf cf lh"
    and run: "lh_insert m1 m2 call_hash call_cmp lh d = (False, old, lh')"
  shows "lh' = lh \<and> old = None \<and> lh_retrieve call_hash call_cmp lh d = None"
proof -
  obtain h b k where p: "get_next_ptr_and_hash call_hash call_cmp lh d = (h, b, k)" by (rule prod_cases3)
  note q = position [OF ok p]
  have none: "deref lh (b, k) = None" and r: "lh' = lh" "old = None"
    using run p by (auto simp: lh_insert_def Let_def split: option.splits)
  then have "\<forall>it\<in>#contents lh. call_cmp cf (it_data it) d \<noteq> 0" using q by blast
  with r show ?thesis using retrieve_None [OF ok] by simp
qed

lemma delete_ok:
  assumes ok: "lh_ok call_hash call_cmp hf cf lh"
    and run: "lh_delete m call_hash call_cmp lh d = (r, lh')"
  shows "lh_ok call_hash call_cmp hf cf lh' \<and> callback_depth lh' = callback_depth lh \<and>
    r = lh_retrieve call_hash call_cmp lh d \<and>
    lh_retrieve call_hash call_cmp lh' =
      (\<lambda>y. if call_cmp cf d y = 0 then None else lh_retrieve call_hash call_cmp lh y)"
proof -
  obtain h b k where p: "get_next_ptr_and_hash call_hash call_cmp lh d = (h, b, k)" by (rule prod_cases3)
  note q = position [OF ok p]
  show ?thesis
  proof (cases "deref lh (b, k)")
    case None
    then have n: "\<forall>it\<in>#contents lh. call_cmp cf (it_data it) d \<noteq> 0" using q by blast
    have "lh_retrieve call_hash call_cmp lh y = None" if "call_cmp cf d y = 0" for y
      unfolding retrieve_None [OF ok] using n cmp_trans [OF _ cmp_sym [OF that]] by blast
    moreover have "r = None" "lh' = lh" using run p None by (simp_all add: lh_delete_def)
    ultimately show ?thesis using ok cmp_refl [of d] by (auto simp: fun_eq_iff)
  next
    case (Some it)
    then have it: "it \<in># contents lh" "call_cmp cf (it_data it) d = 0" "k < length (buckets lh ! b)"
      "it = buckets lh ! b ! k" "b < length (buckets lh)" using q by blast+
    define c where "c = take k (buckets lh ! b) @ drop (Suc k) (buckets lh ! b)"
    define lh1 where "lh1 = lh\<lparr>buckets := (buckets lh)[b := c], num_items := num_items lh - 1\<rparr>"
    have r: "r = Some (it_data it)" "lh' = lh_maybe_resize m lh1"
      using run p Some by (simp_all add: lh_delete_def Let_def lh1_def c_def)
    have "buckets lh ! b = take k (buckets lh ! b) @ it # drop (Suc k) (buckets lh ! b)"
      using it(3,4) id_take_nth_drop by blast
    then have "mset (buckets lh ! b) = add_mset it (mset c)" by (metis c_def mset.simps(2) mset_append union_mset_add_mset_right)
    then have "contents lh1 + add_mset it (mset c) = contents lh + mset c"
      using mset_concat_update [OF it(5), of c] by (simp add: contents_def lh1_def)
    then have cn: "contents lh = add_mset it (contents lh1)" by simp
    have pl0: "placed (num_buckets lh) (buckets lh)" using ok by (simp add: lh_ok_def)
    have "set c \<subseteq> set (buckets lh ! b)" by (auto simp: c_def dest: in_set_takeD in_set_dropD)
    then have pl: "placed (num_buckets lh) (buckets lh1)"
    proof -
      have bn: "b < num_buckets lh" using pl0 it(5) by (simp add: placed_def)
      have "unat (it_hash x) mod num_buckets lh = b" if "x \<in> set (buckets lh ! b)" for x
        using pl0 bn that unfolding placed_def by blast
      then have "placed (num_buckets lh) ((buckets lh)[b := c])"
        using \<open>set c \<subseteq> set (buckets lh ! b)\<close> by (intro placed_update [OF pl0 bn]) blast
      then show ?thesis by (simp add: lh1_def)
    qed
    have "separate call_cmp cf (add_mset it (contents lh1))" using ok cn by (simp add: lh_ok_def)
    then have "separate call_cmp cf (contents lh1)" by (rule separate_mono)
    then have ok1: "lh_ok call_hash call_cmp hf cf lh1"
    proof -
      have "num_items lh = size (contents lh)" using ok by (simp add: lh_ok_def)
      then have "num_items lh1 = size (contents lh1)" unfolding cn by (simp add: lh1_def [THEN arg_cong [of _ _ num_items]])
      moreover have "\<forall>x\<in>#contents lh1. it_hash x = call_hash hf (it_data x)"
        using ok unfolding lh_ok_def cn by simp
      moreover have "lh_hashf lh1 = hf" "lh_cmpf lh1 = cf" "num_buckets lh1 = num_buckets lh"
        "kMinNumBuckets \<le> num_buckets lh" using ok by (simp_all add: lh_ok_def lh1_def)
      ultimately show ?thesis
        using pl \<open>separate call_cmp cf (contents lh1)\<close> unfolding lh_ok_def by simp
    qed
    note rs = lh_maybe_resize_ok [OF ok1, of m]
    have "lh_retrieve call_hash call_cmp lh d = Some (it_data it)"
      unfolding retrieve_iff [OF ok] by (rule bexI [OF _ it(1)]) (rule conjI [OF refl it(2)])
    moreover have "lh_retrieve call_hash call_cmp lh' =
        (\<lambda>y. if call_cmp cf d y = 0 then None else lh_retrieve call_hash call_cmp lh y)"
      using retrieve_remove [OF ok, of lh' it d] rs r(2) cn it(2) by simp
    moreover have "callback_depth lh1 = callback_depth lh" by (simp add: lh1_def)
    ultimately show ?thesis using r rs by simp
  qed
qed

end

sublocale hashing \<subseteq> tab: table "lh_ok call_hash call_cmp hf cf" "lh_retrieve call_hash call_cmp"
  "equal_in call_cmp cf" "lh_insert_to call_hash call_cmp" "lh_delete_from call_hash call_cmp"
proof unfold_locales
  fix t x y old r t' and e :: "libc \<times> libc"
  assume ok: "lh_ok call_hash call_cmp hf cf t"
  show "lh_retrieve call_hash call_cmp t x = Some y \<Longrightarrow> equal_in call_cmp cf y x"
    using retrieve_iff [OF ok] by (auto simp: equal_in_def)
  show "lh_insert_to call_hash call_cmp e t x = (True, old, t') \<Longrightarrow>
      lh_ok call_hash call_cmp hf cf t' \<and> old = lh_retrieve call_hash call_cmp t x \<and>
      lh_retrieve call_hash call_cmp t' =
        (\<lambda>y. if equal_in call_cmp cf x y then Some x else lh_retrieve call_hash call_cmp t y)"
    using insert_ok [OF ok] by (simp add: lh_insert_to_def equal_in_def)
  show "lh_insert_to call_hash call_cmp e t x = (False, old, t') \<Longrightarrow>
      t' = t \<and> old = None \<and> lh_retrieve call_hash call_cmp t x = None"
    using insert_fail [OF ok] by (simp add: lh_insert_to_def)
  show "lh_delete_from call_hash call_cmp e t x = (r, t') \<Longrightarrow>
      lh_ok call_hash call_cmp hf cf t' \<and> r = lh_retrieve call_hash call_cmp t x \<and>
      lh_retrieve call_hash call_cmp t' =
        (\<lambda>y. if equal_in call_cmp cf x y then None else lh_retrieve call_hash call_cmp t y)"
    using delete_ok [OF ok] by (simp add: lh_delete_from_def equal_in_def)
qed

context hashing
begin

lemma history_refines:
  "lh_ok call_hash call_cmp hf cf lh \<Longrightarrow>
   table_run (lh_retrieve call_hash call_cmp) (lh_insert_to call_hash call_cmp)
     (lh_delete_from call_hash call_cmp) lh xs = (lh', rs) \<Longrightarrow>
   lh_ok call_hash call_cmp hf cf lh' \<and>
   map_run (equal_in call_cmp cf) (lh_retrieve call_hash call_cmp lh) (map snd xs) rs
     (lh_retrieve call_hash call_cmp lh')"
  by (rule tab.run_refines)

end

end
