(* ===== verification/LhashIter.thy ===== *)
theory LhashIter
  imports LhashSpec
begin

text \<open>
  Iteration over a hash table with a callback that may delete the element it is called on:
  every element is visited once, in bucket order, while resizing is suppressed.
\<close>

fun visit :: "('a \<Rightarrow> 's \<Rightarrow> 's \<times> bool) \<Rightarrow> 'a lhash_item list \<Rightarrow> 's \<Rightarrow> 's \<times> 'a lhash_item list" where
  "visit func [] s = (s, [])"
| "visit func (it # rest) s =
     (case func (it_data it) s of (s1, del) \<Rightarrow>
      case visit func rest s1 of (s2, kept) \<Rightarrow> (s2, if del then kept else it # kept))"

lemma visit_append: "visit func (xs @ ys) s =
    (case visit func xs s of (s1, k1) \<Rightarrow> case visit func ys s1 of (s2, k2) \<Rightarrow> (s2, k1 @ k2))"
  by (induction xs arbitrary: s) (auto split: prod.splits)

lemma take_drop_unique:
  assumes "k < length (xs @ x # ys)" and "(xs @ x # ys) ! k = x" and "x \<notin> set xs" and "x \<notin> set ys"
  shows "take k (xs @ x # ys) @ drop (Suc k) (xs @ x # ys) = xs @ ys"
proof -
  have "k = length xs"
  proof (rule ccontr)
    assume "k \<noteq> length xs"
    then consider "k < length xs" | "length xs < k" by linarith
    then show False
    proof cases
      case 1
      then show False using assms nth_mem [of k xs] by (simp add: nth_append)
    next
      case 2
      then have "(xs @ x # ys) ! k = ys ! (k - Suc (length xs))" by (simp add: nth_append nth_Cons')
      moreover have "k - Suc (length xs) < length ys" using 2 assms(1) by simp
      ultimately show False using assms nth_mem by metis
    qed
  qed
  then show ?thesis by simp
qed

lemma placed_bucket: "placed n bs \<Longrightarrow> b < n \<Longrightarrow> it \<in> set (bs ! b) \<Longrightarrow> unat (it_hash it) mod n = b"
  by (simp add: placed_def)

context hashing
begin

lemma delete_current:
  assumes ok: "lh_ok call_hash call_cmp hf cf lh" and depth: "callback_depth lh > 0"
    and i: "i < length (buckets lh)" and bi: "buckets lh ! i = pre @ cur # rest"
  shows "snd (lh_delete m call_hash call_cmp lh (it_data cur)) =
    lh\<lparr>buckets := (buckets lh)[i := pre @ rest], num_items := num_items lh - 1\<rparr>"
proof -
  obtain h b k where p: "get_next_ptr_and_hash call_hash call_cmp lh (it_data cur) = (h, b, k)"
    by (rule prod_cases3)
  note q = position [OF ok p]
  have cur: "cur \<in># contents lh" using contents_bucket [OF i, of cur] bi by simp
  have "deref lh (b, k) \<noteq> None" using q cur cmp_refl [of "it_data cur"] by blast
  then obtain it where d: "deref lh (b, k) = Some it" by blast
  then have it: "it \<in># contents lh" "call_cmp cf (it_data it) (it_data cur) = 0"
    "k < length (buckets lh ! b)" "it = buckets lh ! b ! k" using q by blast+
  have sep: "separate call_cmp cf (contents lh)" using ok by (simp add: lh_ok_def)
  have "it = cur"
    by (rule separate_uniqueD [OF sep it(1) cur]) (simp add: class_eq it(2))
  have pl: "placed (num_buckets lh) (buckets lh)" using ok by (simp add: lh_ok_def)
  have b: "b < length (buckets lh)" using q by blast
  have "cur \<in> set (buckets lh ! i)" using bi by simp
  moreover have "cur \<in> set (buckets lh ! b)" using it(3,4) \<open>it = cur\<close> nth_mem by blast
  moreover have "i < num_buckets lh" "b < num_buckets lh" using i b pl by (simp_all add: placed_def)
  ultimately have "unat (it_hash cur) mod num_buckets lh = i" "unat (it_hash cur) mod num_buckets lh = b"
    by (auto intro: placed_bucket [OF pl])
  then have "b = i" by simp
  have once: "cur \<notin> set pre" "cur \<notin> set rest"
  proof -
    have c1: "count (contents lh) cur \<le> 1"
    proof (rule ccontr)
      assume many: "\<not> count (contents lh) cur \<le> 1"
      obtain N where N: "contents lh = add_mset cur N" using cur by (metis insert_DiffM)
      with many have "cur \<in># N" by (simp add: count_eq_zero_iff not_le)
      then obtain N' where "N = add_mset cur N'" by (metis insert_DiffM)
      then have "2 \<le> count (image_mset (class_of call_cmp cf) (contents lh)) (class_of call_cmp cf cur)"
        using N by simp
      moreover have "count (image_mset (class_of call_cmp cf) (contents lh)) (class_of call_cmp cf cur) \<le> 1"
        using sep unfolding separate_def by blast
      ultimately show False by simp
    qed
    have "mset (buckets lh ! i) \<subseteq># contents lh"
      using mset_concat_update [OF i, of "[]"] by (simp add: contents_def) (metis mset_subset_eq_add_right)
    then have "count (mset (pre @ cur # rest)) cur \<le> 1"
      using c1 unfolding bi by (meson order_trans mset_subset_eq_count)
    then show "cur \<notin> set pre" "cur \<notin> set rest"
      by (auto simp: count_eq_zero_iff)
  qed
  have "take k (buckets lh ! b) @ drop (Suc k) (buckets lh ! b) = pre @ rest"
    using take_drop_unique [of k pre cur rest] it(3,4) \<open>it = cur\<close> \<open>b = i\<close> bi once by simp
  then show ?thesis
    using p d depth \<open>b = i\<close> by (simp add: lh_delete_def Let_def lh_maybe_resize_def)
qed


lemma doall_chain_spec:
  assumes "lh_ok call_hash call_cmp hf cf lh" and "callback_depth lh > 0"
    and "i < length (buckets lh)" and "buckets lh ! i = pre @ rest"
    and "visit func rest s = (s', kept)"
  shows "\<exists>lh'. doall_chain m call_hash call_cmp func rest (lh, s) = (lh', s') \<and>
    lh_ok call_hash call_cmp hf cf lh' \<and> callback_depth lh' = callback_depth lh \<and>
    num_buckets lh' = num_buckets lh \<and> buckets lh' = (buckets lh)[i := pre @ kept]"
  using assms
proof (induction rest arbitrary: lh pre s kept)
  case Nil
  then show ?case using list_update_id [of "buckets lh" i] by auto
next
  case (Cons cur rest)
  obtain s1 del where f: "func (it_data cur) s = (s1, del)" by fastforce
  obtain kept1 where v: "visit func rest s1 = (s', kept1)" and k: "kept = (if del then kept1 else cur # kept1)"
    using Cons.prems(5) f by (auto split: prod.splits)
  show ?case
  proof (cases del)
    case True
    define lh1 where "lh1 = lh\<lparr>buckets := (buckets lh)[i := pre @ rest], num_items := num_items lh - 1\<rparr>"
    note d = delete_current [OF Cons.prems(1-4), of m, folded lh1_def]
    have "lh_ok call_hash call_cmp hf cf lh1" "callback_depth lh1 = callback_depth lh"
      using delete_ok [OF Cons.prems(1), of m "it_data cur" _ lh1] d by (auto simp: prod_eq_iff)
    moreover have "i < length (buckets lh1)" "buckets lh1 ! i = pre @ rest" "num_buckets lh1 = num_buckets lh"
      "\<And>c. (buckets lh1)[i := c] = (buckets lh)[i := c]"
      using Cons.prems(3) by (simp_all add: lh1_def)
    ultimately show ?thesis
      using Cons.IH [of lh1 pre s1 kept1] Cons.prems(2) v k f d True by simp
  next
    case False
    then show ?thesis
      using Cons.IH [of lh "pre @ [cur]" s1 kept1] Cons.prems v k f by simp
  qed
qed

lemma doall_buckets_spec:
  assumes "lh_ok call_hash call_cmp hf cf lh" and "callback_depth lh > 0"
    and "i \<le> num_buckets lh" and "visit func (concat (drop i (buckets lh))) s = (s', kept)"
  shows "\<exists>lh'. doall_buckets m call_hash call_cmp func [i..<num_buckets lh] (lh, s) = (lh', s') \<and>
    lh_ok call_hash call_cmp hf cf lh' \<and> callback_depth lh' = callback_depth lh \<and>
    contents lh' = mset (concat (take i (buckets lh))) + mset kept"
  using assms
proof (induction "num_buckets lh - i" arbitrary: i lh s kept)
  case 0
  have "length (buckets lh) = num_buckets lh" using 0(2) by (simp add: lh_ok_def placed_def)
  with 0 show ?case by (simp add: contents_def)
next
  case (Suc n)
  have len: "length (buckets lh) = num_buckets lh" using Suc.prems(1) by (simp add: lh_ok_def placed_def)
  have i: "i < num_buckets lh" using Suc.hyps(2) by simp
  then have dr: "drop i (buckets lh) = buckets lh ! i # drop (Suc i) (buckets lh)"
    using len by (simp add: Cons_nth_drop_Suc)
  obtain s1 k1 where v1: "visit func (buckets lh ! i) s = (s1, k1)" by fastforce
  obtain k2 where v2: "visit func (concat (drop (Suc i) (buckets lh))) s1 = (s', k2)" and k: "kept = k1 @ k2"
    using Suc.prems(4) v1 unfolding dr by (auto simp: visit_append split: prod.splits)
  from doall_chain_spec [OF Suc.prems(1,2) _ _ v1, of i "[]" m] i len
  obtain lh1 where c: "doall_chain m call_hash call_cmp func (buckets lh ! i) (lh, s) = (lh1, s1)"
    "lh_ok call_hash call_cmp hf cf lh1" "callback_depth lh1 = callback_depth lh"
    "num_buckets lh1 = num_buckets lh" "buckets lh1 = (buckets lh)[i := k1]" by auto
  have "drop (Suc i) (buckets lh1) = drop (Suc i) (buckets lh)" using c(5) by simp
  then have h: "n = num_buckets lh1 - Suc i" "0 < callback_depth lh1" "Suc i \<le> num_buckets lh1"
    "visit func (concat (drop (Suc i) (buckets lh1))) s1 = (s', k2)"
    using Suc.hyps(2) Suc.prems(2) c v2 i by simp_all
  from Suc.hyps(1) [OF h(1) c(2) h(2-4)] c(3,4)
  obtain lh2 where r: "doall_buckets m call_hash call_cmp func [Suc i..<num_buckets lh] (lh1, s1) = (lh2, s')"
    "lh_ok call_hash call_cmp hf cf lh2" "callback_depth lh2 = callback_depth lh"
    "contents lh2 = mset (concat (take (Suc i) (buckets lh1))) + mset k2" by auto
  have "take (Suc i) (buckets lh1) = take i (buckets lh) @ [k1]"
    using c(5) i len by (simp add: take_Suc_conv_app_nth)
  then have "contents lh2 = mset (concat (take i (buckets lh))) + mset kept" using r(4) k by simp
  with r c(1) i show ?case by (simp add: upt_rec [of i])
qed

lemma lh_doall_arg_spec:
  assumes ok: "lh_ok call_hash call_cmp hf cf lh" and depth: "callback_depth lh < UINT_MAX"
    and v: "visit func (concat (buckets lh)) s = (s', kept)"
  shows "\<exists>lh'. lh_doall_arg m call_hash call_cmp func (Some lh) s = (Some lh', s') \<and>
    lh_ok call_hash call_cmp hf cf lh' \<and> contents lh' = mset kept"
proof -
  define l1 where "l1 = lh\<lparr>callback_depth := callback_depth lh + 1\<rparr>"
  have l1: "lh_ok call_hash call_cmp hf cf l1" "0 < callback_depth l1" "buckets l1 = buckets lh"
    using ok by (simp_all add: l1_def lh_ok_def contents_def)
  obtain l2 where l2: "doall_buckets m call_hash call_cmp func [0..<num_buckets l1] (l1, s) = (l2, s')"
    "lh_ok call_hash call_cmp hf cf l2" "contents l2 = mset kept"
    using doall_buckets_spec [OF l1(1,2), of 0 func s s' kept m] v l1(3) by auto
  have l3: "lh_ok call_hash call_cmp hf cf (l2\<lparr>callback_depth := n\<rparr>)"
    "contents (l2\<lparr>callback_depth := n\<rparr>) = mset kept" for n
  proof -
    have c: "contents (l2\<lparr>callback_depth := n\<rparr>) = contents l2" by (simp add: contents_def)
    then show "contents (l2\<lparr>callback_depth := n\<rparr>) = mset kept" using l2(3) by simp
    show "lh_ok call_hash call_cmp hf cf (l2\<lparr>callback_depth := n\<rparr>)"
      using l2(2) unfolding lh_ok_def c by simp
  qed
  define l4 where "l4 = (if callback_depth l2 < UINT_MAX
    then l2\<lparr>callback_depth := callback_depth l2 - 1\<rparr> else l2)"
  have "lh_ok call_hash call_cmp hf cf l4" "contents l4 = mset kept" using l2 l3 by (simp_all add: l4_def)
  then have "lh_ok call_hash call_cmp hf cf (lh_maybe_resize m l4) \<and> contents (lh_maybe_resize m l4) = mset kept"
    using lh_maybe_resize_ok by metis
  moreover have "lh_doall_arg m call_hash call_cmp func (Some lh) s = (Some (lh_maybe_resize m l4), s')"
    using depth l2(1) by (simp add: lh_doall_arg_def Let_def l4_def flip: l1_def [unfolded Suc_eq_plus1 [symmetric]])
  ultimately show ?thesis by blast
qed

end

end
