(* ===== verification/Pool.thy ===== *)
theory Pool
  imports LhashIter SetOf
begin

text \<open>
  The pool of shared, reference-counted buffers of \<open>crypto/pool/pool.c\<close>, a client of the hash
  table: equal contents are stored once. The critical sections of the code are separate
  operations, so that theory \<open>PoolProps\<close> can interleave those of several threads.
\<close>

section \<open>Reference counts\<close>

text \<open>
  \<open>crypto/refcount_lock.c\<close>: counts saturate, and a saturated count is never changed again.
  \<open>None\<close> stands for \<open>abort\<close>.
\<close>

definition CRYPTO_REFCOUNT_MAX :: u32 where
  "CRYPTO_REFCOUNT_MAX = 0xFFFFFFFF"

definition CRYPTO_refcount_inc :: "u32 \<Rightarrow> u32" where
  "CRYPTO_refcount_inc cnt = (if cnt < CRYPTO_REFCOUNT_MAX then cnt + 1 else cnt)"

definition CRYPTO_refcount_dec_and_test_zero :: "u32 \<Rightarrow> (bool \<times> u32) option" where
  "CRYPTO_refcount_dec_and_test_zero cnt = (
     if cnt = 0 then None
     else
       let cnt' = (if cnt < CRYPTO_REFCOUNT_MAX then cnt - 1 else cnt) in
       Some (cnt' = 0, cnt'))"

section \<open>State\<close>

text \<open>
  A buffer lives at an address. Its bytes do not change while it can be found, so an element
  of the hash table is an address with the bytes stored there; the probe that
  \<open>CRYPTO_BUFFER_new\<close> builds on its stack has address 0.
\<close>

record crypto_buffer =
  buf_pooled :: bool
  buf_data :: "byte list"
  references :: u32

type_synonym pool_elem = "nat \<times> byte list"

record pool_world =
  bufs :: "pool_elem lhash"
  heap :: "nat \<Rightarrow> crypto_buffer option"

definition CRYPTO_BUFFER_hash :: "byte list \<Rightarrow> u32" where
  "CRYPTO_BUFFER_hash d = OPENSSL_hash32 d (length d)"

definition CRYPTO_BUFFER_cmp :: "byte list \<Rightarrow> byte list \<Rightarrow> int" where
  "CRYPTO_BUFFER_cmp a b = (if length a \<noteq> length b then 1 else memcmp a b (length a))"

definition pool_hash :: "pool_elem hash_helper" where
  "pool_hash f x = CRYPTO_BUFFER_hash (snd x)"

definition pool_cmp :: "pool_elem cmp_helper" where
  "pool_cmp f x y = CRYPTO_BUFFER_cmp (snd x) (snd y)"

definition sizeof_CRYPTO_BUFFER :: u64 where
  "sizeof_CRYPTO_BUFFER = 32"

definition CRYPTO_BUFFER_POOL_new ::
  "libc \<Rightarrow> libc \<Rightarrow> libc \<Rightarrow> (nat \<Rightarrow> crypto_buffer option) \<Rightarrow> pool_world option" where
  "CRYPTO_BUFFER_POOL_new m1 m2 m3 h = (
     case OPENSSL_malloc m1 64 of
       None \<Rightarrow> None
     | Some _ \<Rightarrow>
         (case lh_new m2 m3 0 0 of
            None \<Rightarrow> None
          | Some t \<Rightarrow> Some \<lparr>bufs = t, heap = h\<rparr>))"

text \<open>Whether the assertion of \<open>CRYPTO_BUFFER_POOL_free\<close> holds: every buffer has been released.\<close>

definition CRYPTO_BUFFER_POOL_free :: "pool_world option \<Rightarrow> bool" where
  "CRYPTO_BUFFER_POOL_free pool = (case pool of None \<Rightarrow> True | Some w \<Rightarrow> num_items (bufs w) = 0)"

section \<open>Operations\<close>

definition set_references :: "nat \<Rightarrow> u32 \<Rightarrow> pool_world \<Rightarrow> pool_world" where
  "set_references a n w = w\<lparr>heap := (heap w)(a := map_option (\<lambda>b. b\<lparr>references := n\<rparr>) (heap w a))\<rparr>"

definition CRYPTO_BUFFER_up_ref :: "nat \<Rightarrow> pool_world \<Rightarrow> pool_world" where
  "CRYPTO_BUFFER_up_ref a w = (
     case heap w a of
       None \<Rightarrow> w
     | Some b \<Rightarrow> set_references a (CRYPTO_refcount_inc (references b)) w)"

text \<open>The section under the read lock: find a duplicate and take a reference to it.\<close>

definition buffer_lookup :: "byte list \<Rightarrow> pool_world \<Rightarrow> nat option \<times> pool_world" where
  "buffer_lookup d w = (
     case lh_retrieve pool_hash pool_cmp (bufs w) (0, d) of
       None \<Rightarrow> (None, w)
     | Some (a, _) \<Rightarrow> (Some a, CRYPTO_BUFFER_up_ref a w))"

text \<open>
  Allocation of a buffer at the address \<open>a\<close> that the allocator returns, and the copy of the
  bytes. \<open>OPENSSL_memdup\<close> of nothing is \<open>NULL\<close>, which is accepted.
\<close>

definition buffer_create ::
  "libc \<Rightarrow> libc \<Rightarrow> nat \<Rightarrow> bool \<Rightarrow> byte list \<Rightarrow> pool_world \<Rightarrow> nat option \<times> pool_world" where
  "buffer_create m1 m2 a pooled d w = (
     case OPENSSL_malloc m1 sizeof_CRYPTO_BUFFER of
       None \<Rightarrow> (None, w)
     | Some _ \<Rightarrow>
         if length d \<noteq> 0 \<and> OPENSSL_memdup m2 d (length d) = None then (None, w)
         else (Some a, w\<lparr>heap := (heap w)(a \<mapsto>
           \<lparr>buf_pooled = pooled, buf_data = d, references = 1\<rparr>)\<rparr>))"

text \<open>
  The section under the write lock: look again, insert when there still is no duplicate, and
  give the new buffer up when it was not inserted. The flag of the result tells whether the
  assertion \<open>old == NULL\<close> holds.
\<close>

definition buffer_publish ::
  "libc \<times> libc \<Rightarrow> nat \<Rightarrow> pool_world \<Rightarrow> bool \<times> nat option \<times> pool_world" where
  "buffer_publish e a w = (
     case heap w a of
       None \<Rightarrow> (True, None, w)
     | Some buf \<Rightarrow>
         let (asserted, duplicate, inserted, w1) =
           (case lh_retrieve pool_hash pool_cmp (bufs w) (a, buf_data buf) of
              None \<Rightarrow>
                (case lh_insert_to pool_hash pool_cmp e (bufs w) (a, buf_data buf) of
                   (ok, old, t) \<Rightarrow> (old = None, None, ok, w\<lparr>bufs := t\<rparr>))
            | Some (dup, _) \<Rightarrow> (True, Some dup, False, CRYPTO_BUFFER_up_ref dup w)) in
         if \<not> inserted then (asserted, duplicate, w1\<lparr>heap := (heap w1)(a := None)\<rparr>)
         else (asserted, Some a, w1))"

definition CRYPTO_BUFFER_new ::
  "libc \<Rightarrow> libc \<Rightarrow> libc \<times> libc \<Rightarrow> nat \<Rightarrow> byte list \<Rightarrow> bool \<Rightarrow> pool_world \<Rightarrow>
   bool \<times> nat option \<times> pool_world" where
  "CRYPTO_BUFFER_new m1 m2 e a d pooled w = (
     if pooled then
       (case buffer_lookup d w of
          (Some dup, w1) \<Rightarrow> (True, Some dup, w1)
        | (None, w1) \<Rightarrow>
            (case buffer_create m1 m2 a True d w1 of
               (None, w2) \<Rightarrow> (True, None, w2)
             | (Some a, w2) \<Rightarrow> buffer_publish e a w2))
     else (True, buffer_create m1 m2 a False d w))"

text \<open>
  \<open>None\<close> is \<open>abort\<close>. The flag tells whether the assertions \<open>found != NULL\<close> and
  \<open>found == buf\<close> hold.
\<close>

definition CRYPTO_BUFFER_free :: "libc \<times> libc \<Rightarrow> nat \<Rightarrow> pool_world \<Rightarrow> (bool \<times> pool_world) option" where
  "CRYPTO_BUFFER_free e a w = (
     case heap w a of
       None \<Rightarrow> None
     | Some buf \<Rightarrow>
         (case CRYPTO_refcount_dec_and_test_zero (references buf) of
            None \<Rightarrow> None
          | Some (zero, n) \<Rightarrow>
              let w1 = set_references a n w in
              if \<not> zero then Some (True, w1)
              else if \<not> buf_pooled buf then Some (True, w1\<lparr>heap := (heap w1)(a := None)\<rparr>)
              else
                (case lh_delete_from pool_hash pool_cmp e (bufs w1) (a, buf_data buf) of
                   (found, t) \<Rightarrow>
                     Some (found = Some (a, buf_data buf),
                       w1\<lparr>bufs := t, heap := (heap w1)(a := None)\<rparr>))))"

definition CRYPTO_BUFFER_alloc ::
  "libc \<Rightarrow> libc \<Rightarrow> nat \<Rightarrow> nat \<Rightarrow> pool_world \<Rightarrow> nat option \<times> pool_world" where
  "CRYPTO_BUFFER_alloc m1 m2 a len w = (
     case OPENSSL_malloc m1 sizeof_CRYPTO_BUFFER of
       None \<Rightarrow> (None, w)
     | Some _ \<Rightarrow>
         (case OPENSSL_malloc m2 (of_nat len) of
            None \<Rightarrow>
              if len \<noteq> 0 then (None, w)
              else (Some a, w\<lparr>heap := (heap w)(a \<mapsto>
                \<lparr>buf_pooled = False, buf_data = [], references = 1\<rparr>)\<rparr>)
          | Some b \<Rightarrow> (Some a, w\<lparr>heap := (heap w)(a \<mapsto>
                \<lparr>buf_pooled = False, buf_data = take len (bdata b), references = 1\<rparr>)\<rparr>)))"

definition CRYPTO_BUFFER_new_from_CBS ::
  "libc \<Rightarrow> libc \<Rightarrow> libc \<times> libc \<Rightarrow> nat \<Rightarrow> cbs \<Rightarrow> bool \<Rightarrow> pool_world \<Rightarrow>
   bool \<times> nat option \<times> pool_world" where
  "CRYPTO_BUFFER_new_from_CBS m1 m2 e a cbs pooled w =
     CRYPTO_BUFFER_new m1 m2 e a (take (CBS_len cbs) (CBS_data cbs)) pooled w"

definition CRYPTO_BUFFER_data :: "crypto_buffer \<Rightarrow> byte list" where
  "CRYPTO_BUFFER_data b = buf_data b"

definition CRYPTO_BUFFER_len :: "crypto_buffer \<Rightarrow> nat" where
  "CRYPTO_BUFFER_len b = length (buf_data b)"

definition CRYPTO_BUFFER_init_CBS :: "crypto_buffer \<Rightarrow> cbs" where
  "CRYPTO_BUFFER_init_CBS b = CBS_init (buf_data b) (length (buf_data b))"

section \<open>The pool's hash and comparison fit the table interface\<close>

lemma memcmp_zero:
  assumes "length a = length b"
  shows "memcmp a b (length a) = 0 \<longleftrightarrow> a = b"
  using assms by (induction a b rule: list_induct2) (auto split: if_splits)

lemma CRYPTO_BUFFER_cmp_zero: "CRYPTO_BUFFER_cmp a b = 0 \<longleftrightarrow> a = b"
proof (cases "length a = length b")
  case True
  then show ?thesis unfolding CRYPTO_BUFFER_cmp_def memcmp_zero [OF True, symmetric] by simp
qed (auto simp: CRYPTO_BUFFER_cmp_def)

interpretation pool: hashing pool_hash pool_cmp 0 0
  by unfold_locales (auto simp: pool_hash_def pool_cmp_def CRYPTO_BUFFER_cmp_zero)

lemma pool_equal [simp]: "equal_in pool_cmp 0 x y \<longleftrightarrow> snd x = snd y"
  by (simp add: equal_in_def pool_cmp_def CRYPTO_BUFFER_cmp_zero)

end
