(* ===== verification/Bio.thy ===== *)
theory Bio
  imports Buf Pool "HOL-Library.Monad_Syntax"
begin

text \<open>
  The state of \<open>BIO\<close> objects (\<open>crypto/bio\<close>) and the two methods that keep their data in memory:
  the memory buffer of \<open>bio_mem.c\<close> and the pair of ring buffers of \<open>pair.c\<close>. Objects live at
  addresses of a heap. A result \<open>None\<close> is a failed assertion, an access outside an object or
  a loop that does not end. Error codes put on the error queue are not modelled.
\<close>

section \<open>State\<close>

text \<open>The two method tables. Their types are \<open>BIO_TYPE_MEM\<close> and \<open>BIO_TYPE_BIO\<close>.\<close>

datatype bio_method = mem_method | methods_biop

record bio_bio_st =
  rb_peer :: "nat option"
  rb_closed :: bool
  rb_len :: nat
  rb_offset :: nat
  rb_size :: nat
  rb_buf :: "byte list option"
  rb_request :: nat

datatype bio_ptr = Ptr_null | Ptr_mem buf_mem | Ptr_pair bio_bio_st

record bio =
  bio_meth :: "bio_method option"
  init :: bool
  shutdown :: int
  flags :: u32
  retry_reason :: int
  num :: int
  bio_references :: u32
  ptr :: bio_ptr
  next_bio :: "nat option"
  num_read :: nat
  num_write :: nat

type_synonym bios = "nat \<Rightarrow> bio option"

definition BIO_FLAGS_READ :: u32 where "BIO_FLAGS_READ = 0x01"
definition BIO_FLAGS_WRITE :: u32 where "BIO_FLAGS_WRITE = 0x02"
definition BIO_FLAGS_IO_SPECIAL :: u32 where "BIO_FLAGS_IO_SPECIAL = 0x04"
definition BIO_FLAGS_RWS :: u32 where
  "BIO_FLAGS_RWS = BIO_FLAGS_READ OR BIO_FLAGS_WRITE OR BIO_FLAGS_IO_SPECIAL"
definition BIO_FLAGS_SHOULD_RETRY :: u32 where "BIO_FLAGS_SHOULD_RETRY = 0x08"
definition BIO_FLAGS_MEM_RDONLY :: u32 where "BIO_FLAGS_MEM_RDONLY = 0x200"
definition kRetryFlags :: u32 where "kRetryFlags = BIO_FLAGS_RWS OR BIO_FLAGS_SHOULD_RETRY"
definition INT_MAX :: nat where "INT_MAX = 2 ^ 31 - 1"
definition sizeof_BIO :: u64 where "sizeof_BIO = 80"
definition sizeof_bio_bio_st :: u64 where "sizeof_bio_bio_st = 56"

text \<open>Conversions between the C integer types, and \<open>size_t\<close> arithmetic.\<close>

definition int_of_long :: "int \<Rightarrow> int" where "int_of_long n = sint (word_of_int n :: 32 word)"
definition size_of_int :: "int \<Rightarrow> nat" where "size_of_int n = nat (n mod 2 ^ 64)"
definition long_of_size :: "nat \<Rightarrow> int" where "long_of_size n = sint (of_nat n :: 64 word)"
definition int_of_size :: "nat \<Rightarrow> int" where "int_of_size n = sint (of_nat n :: 32 word)"
definition size_add :: "nat \<Rightarrow> nat \<Rightarrow> nat" where "size_add a b = (a + b) mod size_max1"
definition size_sub :: "nat \<Rightarrow> nat \<Rightarrow> nat" where "size_sub a b = (a + size_max1 - b) mod size_max1"

section \<open>Flags\<close>

definition BIO_set_flags :: "bio \<Rightarrow> u32 \<Rightarrow> bio" where
  "BIO_set_flags b fl = b\<lparr>flags := flags b OR fl\<rparr>"

definition BIO_test_flags :: "bio \<Rightarrow> u32 \<Rightarrow> u32" where
  "BIO_test_flags b fl = flags b AND fl"

definition BIO_should_read :: "bio \<Rightarrow> u32" where
  "BIO_should_read b = BIO_test_flags b BIO_FLAGS_READ"

definition BIO_should_write :: "bio \<Rightarrow> u32" where
  "BIO_should_write b = BIO_test_flags b BIO_FLAGS_WRITE"

definition BIO_should_retry :: "bio \<Rightarrow> u32" where
  "BIO_should_retry b = BIO_test_flags b BIO_FLAGS_SHOULD_RETRY"

definition BIO_should_io_special :: "bio \<Rightarrow> u32" where
  "BIO_should_io_special b = BIO_test_flags b BIO_FLAGS_IO_SPECIAL"

definition BIO_get_retry_reason :: "bio \<Rightarrow> int" where
  "BIO_get_retry_reason b = retry_reason b"

definition BIO_clear_flags :: "bio \<Rightarrow> u32 \<Rightarrow> bio" where
  "BIO_clear_flags b fl = b\<lparr>flags := flags b AND NOT fl\<rparr>"

definition BIO_set_retry_read :: "bio \<Rightarrow> bio" where
  "BIO_set_retry_read b = b\<lparr>flags := flags b OR (BIO_FLAGS_READ OR BIO_FLAGS_SHOULD_RETRY)\<rparr>"

definition BIO_set_retry_write :: "bio \<Rightarrow> bio" where
  "BIO_set_retry_write b = b\<lparr>flags := flags b OR (BIO_FLAGS_WRITE OR BIO_FLAGS_SHOULD_RETRY)\<rparr>"

definition BIO_set_retry_special :: "bio \<Rightarrow> bio" where
  "BIO_set_retry_special b = b\<lparr>flags := flags b OR (BIO_FLAGS_READ OR BIO_FLAGS_IO_SPECIAL)\<rparr>"

definition BIO_get_retry_flags :: "bio \<Rightarrow> u32" where
  "BIO_get_retry_flags b = flags b AND kRetryFlags"

definition BIO_clear_retry_flags :: "bio \<Rightarrow> bio" where
  "BIO_clear_retry_flags b = b\<lparr>flags := flags b AND NOT kRetryFlags, retry_reason := 0\<rparr>"

section \<open>Memory buffers (\<open>bio_mem.c\<close>)\<close>

definition mem_ptr :: "bio \<Rightarrow> buf_mem option" where
  "mem_ptr b = (case ptr b of Ptr_mem m \<Rightarrow> Some m | _ \<Rightarrow> None)"

definition mem_rdonly :: "bio \<Rightarrow> bool" where
  "mem_rdonly b \<longleftrightarrow> flags b AND BIO_FLAGS_MEM_RDONLY \<noteq> 0"

definition mem_new :: "libc \<Rightarrow> bio \<Rightarrow> bool \<times> bio" where
  "mem_new m b = (
     case BUF_MEM_new m of
       None \<Rightarrow> (False, b)
     | Some mem \<Rightarrow> (True, b\<lparr>shutdown := 1, init := True, num := -1, ptr := Ptr_mem mem\<rparr>))"

text \<open>
  The block released and the object. Without ownership, or uninitialised, nothing happens; a
  read-only block belongs to the caller.
\<close>

definition mem_free :: "bio \<Rightarrow> byte list option \<times> bio" where
  "mem_free b = (
     if shutdown b = 0 \<or> \<not> init b \<or> ptr b = Ptr_null then (None, b)
     else (if mem_rdonly b then None else BUF_MEM_free (mem_ptr b), b\<lparr>ptr := Ptr_null\<rparr>))"

text \<open>Consuming the first bytes: a read-only block is advanced over, others move down.\<close>

definition mem_consume :: "bool \<Rightarrow> nat \<Rightarrow> buf_mem \<Rightarrow> (byte list \<times> buf_mem) option" where
  "mem_consume ro n m = do {
     xs \<leftarrow> bm_read m n;
     let len = bm_length m - n;
     if ro then Some (xs, m\<lparr>bm_length := len, bm_off := bm_off m + n\<rparr>)
     else do {
       d \<leftarrow> bm_block m;
       m' \<leftarrow> bm_write m 0 (take len (drop (bm_off m + n) d));
       Some (xs, m'\<lparr>bm_length := len\<rparr>)
     }
   }"

definition mem_read :: "bio \<Rightarrow> int \<Rightarrow> (int \<times> byte list \<times> bio) option" where
  "mem_read b0 outl = do {
     m \<leftarrow> mem_ptr b0;
     let b = BIO_clear_retry_flags b0;
     let ret = (if bm_length m < INT_MAX \<and> outl > int (bm_length m) then int (bm_length m) else outl);
     if ret > 0 then do {
       (xs, m') \<leftarrow> mem_consume (mem_rdonly b) (nat ret) m;
       Some (ret, xs, b\<lparr>ptr := Ptr_mem m'\<rparr>)
     }
     else if bm_length m = 0 then
       Some (num b, [], if num b \<noteq> 0 then BIO_set_retry_read b else b)
     else Some (ret, [], b)
   }"

text \<open>Adding to a negative \<open>blen\<close> overflows.\<close>

definition mem_write :: "libc \<Rightarrow> bio \<Rightarrow> byte list \<Rightarrow> int \<Rightarrow> (int \<times> bio) option" where
  "mem_write mc b0 xs inl = do {
     m \<leftarrow> mem_ptr b0;
     if mem_rdonly b0 then Some (-1, b0)
     else do {
       let b = BIO_clear_retry_flags b0;
       let blen = int_of_size (bm_length m);
       if blen < 0 then None
       else if int INT_MAX - blen < inl then Some (-1, b)
       else do {
         (n, m1) \<leftarrow> BUF_MEM_grow_clean mc m (size_of_int (blen + inl));
         if n \<noteq> size_add (size_of_int blen) (size_of_int inl) then Some (-1, b\<lparr>ptr := Ptr_mem m1\<rparr>)
         else do {
           m2 \<leftarrow> bm_write m1 (nat blen) (take (nat inl) xs);
           Some (inl, b\<lparr>ptr := Ptr_mem m2\<rparr>)
         }
       }
     }
   }"

text \<open>The number of bytes up to and including the first newline.\<close>

fun line_length :: "byte list \<Rightarrow> nat" where
  "line_length [] = 0"
| "line_length (c # cs) = (if c = 10 then 1 else Suc (line_length cs))"

text \<open>The bytes written to the caller's buffer include the terminating zero.\<close>

definition mem_gets :: "bio \<Rightarrow> int \<Rightarrow> (int \<times> byte list \<times> bio) option" where
  "mem_gets b0 sz = do {
     m \<leftarrow> mem_ptr b0;
     let b = BIO_clear_retry_flags b0;
     let j = (if sz - 1 < int_of_size (bm_length m) then sz - 1 else int_of_size (bm_length m));
     if j \<le> 0 then Some (0, if sz > 0 then [0] else [], b)
     else do {
       p \<leftarrow> bm_read m (nat j);
       (i, xs, b') \<leftarrow> mem_read b (int (line_length p));
       Some (i, if i > 0 then xs @ [0] else xs, b')
     }
   }"

text \<open>
  The commands of \<open>BIO_ctrl\<close>, what its last argument points to, and what is written through
  it: the data of a buffer, or the buffer itself.
\<close>

datatype bio_cmd =
    BIO_CTRL_RESET | BIO_CTRL_EOF | BIO_CTRL_INFO | BIO_CTRL_GET_CLOSE | BIO_CTRL_SET_CLOSE
  | BIO_CTRL_PENDING | BIO_CTRL_FLUSH | BIO_CTRL_WPENDING | BIO_C_SET_BUF_MEM
  | BIO_C_GET_BUF_MEM_PTR | BIO_C_SET_BUF_MEM_EOF_RETURN | BIO_C_GET_WRITE_BUF_SIZE
  | BIO_C_GET_WRITE_GUARANTEE | BIO_C_GET_READ_REQUEST | BIO_C_SHUTDOWN_WR
  | BIO_C_RESET_READ_REQUEST | BIO_other_cmd int

datatype ctrl_arg = Arg_null | Arg_out | Arg_bio nat | Arg_mem buf_mem

datatype ctrl_out = Out_none | Out_data "byte list" | Out_mem buf_mem

definition bm_data :: "buf_mem \<Rightarrow> byte list" where
  "bm_data m = (case bm_block m of None \<Rightarrow> [] | Some d \<Rightarrow> drop (bm_off m) d)"

definition mem_reset :: "bio \<Rightarrow> buf_mem \<Rightarrow> bio option" where
  "mem_reset b m = (
     if bm_block m = None then Some b
     else if mem_rdonly b then
       Some (b\<lparr>ptr := Ptr_mem (m\<lparr>bm_off := bm_off m - (bm_max m - bm_length m), bm_length := bm_max m\<rparr>)\<rparr>)
     else do {
       m' \<leftarrow> bm_write m 0 (replicate (bm_max m) 0);
       Some (b\<lparr>ptr := Ptr_mem (m'\<lparr>bm_length := 0\<rparr>)\<rparr>)
     })"

fun mem_ctrl :: "bio \<Rightarrow> bio_cmd \<Rightarrow> int \<Rightarrow> ctrl_arg \<Rightarrow> (int \<times> ctrl_out \<times> bio) option" where
  "mem_ctrl b cmd n arg = do {
     m \<leftarrow> mem_ptr b;
     case cmd of
       BIO_CTRL_RESET \<Rightarrow> do { b' \<leftarrow> mem_reset b m; Some (1, Out_none, b') }
     | BIO_CTRL_EOF \<Rightarrow> Some (if bm_length m = 0 then 1 else 0, Out_none, b)
     | BIO_C_SET_BUF_MEM_EOF_RETURN \<Rightarrow> Some (1, Out_none, b\<lparr>num := int_of_long n\<rparr>)
     | BIO_CTRL_INFO \<Rightarrow>
         Some (long_of_size (bm_length m), if arg \<noteq> Arg_null then Out_data (bm_data m) else Out_none, b)
     | BIO_C_SET_BUF_MEM \<Rightarrow>
         let b' = (snd (mem_free b))\<lparr>shutdown := int_of_long n\<rparr> in
         (case arg of
            Arg_mem m' \<Rightarrow> Some (1, Out_none, b'\<lparr>ptr := Ptr_mem m'\<rparr>)
          | Arg_null \<Rightarrow> Some (1, Out_none, b'\<lparr>ptr := Ptr_null\<rparr>)
          | _ \<Rightarrow> None)
     | BIO_C_GET_BUF_MEM_PTR \<Rightarrow> Some (1, if arg \<noteq> Arg_null then Out_mem m else Out_none, b)
     | BIO_CTRL_GET_CLOSE \<Rightarrow> Some (shutdown b, Out_none, b)
     | BIO_CTRL_SET_CLOSE \<Rightarrow> Some (1, Out_none, b\<lparr>shutdown := int_of_long n\<rparr>)
     | BIO_CTRL_WPENDING \<Rightarrow> Some (0, Out_none, b)
     | BIO_CTRL_PENDING \<Rightarrow> Some (long_of_size (bm_length m), Out_none, b)
     | BIO_CTRL_FLUSH \<Rightarrow> Some (1, Out_none, b)
     | _ \<Rightarrow> Some (0, Out_none, b)
   }"

section \<open>Ring buffers (\<open>pair.c\<close>)\<close>

text \<open>One iteration of the copying loops, and the loops.\<close>

definition ring_read_chunk :: "nat \<Rightarrow> bio_bio_st \<Rightarrow> (byte list \<times> bio_bio_st \<times> nat) option" where
  "ring_read_chunk rest b = (
     if \<not> rest \<le> rb_len b then None
     else
       let chunk = (if size_add (rb_offset b) rest \<le> rb_size b then rest
                    else size_sub (rb_size b) (rb_offset b)) in
       if \<not> size_add (rb_offset b) chunk \<le> rb_size b then None
       else
         (case rb_buf b of
            None \<Rightarrow> None
          | Some d \<Rightarrow>
              if rb_offset b + chunk > length d then None
              else
                let xs = take chunk (drop (rb_offset b) d);
                    len = size_sub (rb_len b) chunk;
                    offset = size_add (rb_offset b) chunk in
                if len \<noteq> 0 then
                  if \<not> offset \<le> rb_size b then None
                  else Some (xs, b\<lparr>rb_len := len, rb_offset := if offset = rb_size b then 0 else offset\<rparr>,
                         size_sub rest chunk)
                else if chunk \<noteq> rest then None
                else Some (xs, b\<lparr>rb_len := len, rb_offset := 0\<rparr>, size_sub rest chunk)))"

partial_function (option) ring_read :: "nat \<Rightarrow> bio_bio_st \<Rightarrow> (byte list \<times> bio_bio_st) option" where
  "ring_read rest b = Option.bind (ring_read_chunk rest b) (\<lambda>(xs, b1, rest1).
     if rest1 = 0 then Some (xs, b1)
     else Option.bind (ring_read rest1 b1) (\<lambda>(ys, b2). Some (xs @ ys, b2)))"

definition ring_write_chunk :: "nat \<Rightarrow> byte list \<Rightarrow> bio_bio_st \<Rightarrow> (nat \<times> bio_bio_st) option" where
  "ring_write_chunk rest xs b = (
     if \<not> size_add (rb_len b) rest \<le> rb_size b then None
     else
       let w = size_add (rb_offset b) (rb_len b);
           write_offset = (if w \<ge> rb_size b then size_sub w (rb_size b) else w);
           chunk = (if size_add write_offset rest \<le> rb_size b then rest
                    else size_sub (rb_size b) write_offset) in
       case rb_buf b of
         None \<Rightarrow> None
       | Some d \<Rightarrow>
           if write_offset + chunk > length d \<or> chunk > length xs then None
           else
             let len = size_add (rb_len b) chunk in
             if \<not> len \<le> rb_size b then None
             else Some (chunk, b\<lparr>rb_buf := Some (overwrite d write_offset (take chunk xs)), rb_len := len\<rparr>))"

partial_function (option) ring_write :: "nat \<Rightarrow> byte list \<Rightarrow> bio_bio_st \<Rightarrow> bio_bio_st option" where
  "ring_write rest xs b = Option.bind (ring_write_chunk rest xs b) (\<lambda>(chunk, b1).
     if size_sub rest chunk = 0 then Some b1
     else ring_write (size_sub rest chunk) (drop chunk xs) b1)"

section \<open>Pairs (\<open>pair.c\<close>)\<close>

definition pair_ptr :: "bio \<Rightarrow> bio_bio_st option" where
  "pair_ptr b = (case ptr b of Ptr_pair r \<Rightarrow> Some r | _ \<Rightarrow> None)"

definition set_ring :: "nat \<Rightarrow> bio_bio_st \<Rightarrow> bios \<Rightarrow> bios" where
  "set_ring a r h = h(a := map_option (\<lambda>b. b\<lparr>ptr := Ptr_pair r\<rparr>) (h a))"

definition bio_new :: "libc \<Rightarrow> bio \<Rightarrow> bool \<times> bio" where
  "bio_new m b = (
     case OPENSSL_malloc m sizeof_bio_bio_st of
       None \<Rightarrow> (False, b)
     | Some _ \<Rightarrow> (True, b\<lparr>ptr := Ptr_pair \<lparr>rb_peer = None, rb_closed = False, rb_len = 0,
         rb_offset = 0, rb_size = 17 * 1024, rb_buf = None, rb_request = 0\<rparr>\<rparr>))"

text \<open>What \<open>bio_destroy_pair\<close> does to either end.\<close>

definition bio_disconnect :: "bio \<Rightarrow> bio option" where
  "bio_disconnect b = do {
     r \<leftarrow> pair_ptr b;
     if rb_buf r = None then None
     else Some (b\<lparr>init := False, ptr := Ptr_pair (r\<lparr>rb_peer := None, rb_len := 0, rb_offset := 0\<rparr>)\<rparr>)
   }"

definition bio_destroy_pair :: "nat \<Rightarrow> bios \<Rightarrow> bios option" where
  "bio_destroy_pair a h = do {
     bio \<leftarrow> h a;
     case pair_ptr bio of
       None \<Rightarrow> Some h
     | Some b \<Rightarrow>
         (case rb_peer b of
            None \<Rightarrow> Some h
          | Some p \<Rightarrow> do {
              peer_bio \<leftarrow> h p;
              peer_b \<leftarrow> pair_ptr peer_bio;
              if rb_peer peer_b \<noteq> Some a then None
              else do {
                peer_bio' \<leftarrow> bio_disconnect peer_bio;
                let h1 = h(p \<mapsto> peer_bio');
                bio1 \<leftarrow> h1 a;
                bio' \<leftarrow> bio_disconnect bio1;
                Some (h1(a \<mapsto> bio'))
              }
            })
   }"

text \<open>The ring structure is gone afterwards; the object is freed by the caller.\<close>

definition bio_free :: "nat \<Rightarrow> bios \<Rightarrow> bios option" where
  "bio_free a h = do {
     bio \<leftarrow> h a;
     b \<leftarrow> pair_ptr bio;
     h1 \<leftarrow> (if rb_peer b \<noteq> None then bio_destroy_pair a h else Some h);
     bio1 \<leftarrow> h1 a;
     Some (h1(a \<mapsto> bio1\<lparr>ptr := Ptr_null\<rparr>))
   }"

definition bio_read :: "nat \<Rightarrow> bool \<Rightarrow> int \<Rightarrow> bios \<Rightarrow> (int \<times> byte list \<times> bios) option" where
  "bio_read a has_buf sz0 h0 = do {
     bio0 \<leftarrow> h0 a;
     let sz = size_of_int sz0;
     let h = h0(a \<mapsto> BIO_clear_retry_flags bio0);
     if \<not> init bio0 then Some (0, [], h)
     else do {
       b \<leftarrow> pair_ptr bio0;
       p \<leftarrow> rb_peer b;
       peer_bio \<leftarrow> h p;
       peer_b \<leftarrow> pair_ptr peer_bio;
       if rb_buf peer_b = None then None
       else
         let peer_b = peer_b\<lparr>rb_request := 0\<rparr>;
             h = set_ring p peer_b h in
         if \<not> has_buf \<or> sz = 0 then Some (0, [], h)
         else if rb_len peer_b = 0 then
           if rb_closed peer_b then Some (0, [], h)
           else
             let h = h(a := map_option BIO_set_retry_read (h a)) in
             Some (-1, [], set_ring p
               (peer_b\<lparr>rb_request := if sz \<le> rb_size peer_b then sz else rb_size peer_b\<rparr>) h)
         else
           let sz = (if rb_len peer_b < sz then rb_len peer_b else sz) in
           if \<not> sz > 0 then None
           else do {
             (xs, peer_b') \<leftarrow> ring_read sz peer_b;
             Some (int_of_size sz, xs, set_ring p peer_b' h)
           }
     }
   }"

definition bio_write :: "nat \<Rightarrow> byte list option \<Rightarrow> int \<Rightarrow> bios \<Rightarrow> (int \<times> bios) option" where
  "bio_write a buf n0 h0 = do {
     bio0 \<leftarrow> h0 a;
     let n = size_of_int n0;
     let h = h0(a \<mapsto> BIO_clear_retry_flags bio0);
     case buf of
       None \<Rightarrow> Some (0, h)
     | Some xs \<Rightarrow>
         if \<not> init bio0 \<or> n = 0 then Some (0, h)
         else do {
           b \<leftarrow> pair_ptr bio0;
           if rb_peer b = None \<or> rb_buf b = None then None
           else
             let b = b\<lparr>rb_request := 0\<rparr>;
                 h = set_ring a b h in
             if rb_closed b then Some (-1, h)
             else if \<not> rb_len b \<le> rb_size b then None
             else if rb_len b = rb_size b then
               Some (-1, h(a := map_option BIO_set_retry_write (h a)))
             else
               let n = (if n > size_sub (rb_size b) (rb_len b) then size_sub (rb_size b) (rb_len b) else n) in
               if \<not> n > 0 then None
               else do {
                 b' \<leftarrow> ring_write n xs b;
                 Some (int_of_size n, set_ring a b' h)
               }
         }
   }"

text \<open>The buffer of one end, made unless it is still there from an earlier pair.\<close>

definition make_buffer :: "libc \<Rightarrow> nat \<Rightarrow> bio_bio_st \<Rightarrow> bool \<times> bio_bio_st" where
  "make_buffer m writebuf_len b = (
     if rb_buf b \<noteq> None then (True, b)
     else
       let b = (if writebuf_len \<noteq> 0 then b\<lparr>rb_size := writebuf_len\<rparr> else b) in
       case alloc_bytes m (rb_size b) of
         None \<Rightarrow> (False, b)
       | Some d \<Rightarrow> (True, b\<lparr>rb_buf := Some d, rb_len := 0, rb_offset := 0\<rparr>))"

definition bio_make_pair :: "libc \<Rightarrow> libc \<Rightarrow> nat \<Rightarrow> nat \<Rightarrow> nat \<Rightarrow> nat \<Rightarrow> bios \<Rightarrow> (bool \<times> bios) option" where
  "bio_make_pair m1 m2 a1 a2 writebuf1_len writebuf2_len h = do {
     bio1 \<leftarrow> h a1;
     bio2 \<leftarrow> h a2;
     b1 \<leftarrow> pair_ptr bio1;
     b2 \<leftarrow> pair_ptr bio2;
     if rb_peer b1 \<noteq> None \<or> rb_peer b2 \<noteq> None then Some (False, h)
     else
       case make_buffer m1 writebuf1_len b1 of
         (False, b1) \<Rightarrow> Some (False, set_ring a1 b1 h)
       | (True, b1) \<Rightarrow>
           (case make_buffer m2 writebuf2_len b2 of
              (False, b2) \<Rightarrow> Some (False, set_ring a2 b2 (set_ring a1 b1 h))
            | (True, b2) \<Rightarrow>
                Some (True,
                  h(a1 \<mapsto> bio1\<lparr>init := True, ptr := Ptr_pair
                      (b1\<lparr>rb_peer := Some a2, rb_closed := False, rb_request := 0\<rparr>)\<rparr>,
                    a2 \<mapsto> bio2\<lparr>init := True, ptr := Ptr_pair
                      (b2\<lparr>rb_peer := Some a1, rb_closed := False, rb_request := 0\<rparr>)\<rparr>)))
   }"

definition bio_ctrl :: "nat \<Rightarrow> bio_cmd \<Rightarrow> int \<Rightarrow> ctrl_arg \<Rightarrow> bios \<Rightarrow> (int \<times> bios) option" where
  "bio_ctrl a cmd n arg h = do {
     bio \<leftarrow> h a;
     b \<leftarrow> pair_ptr bio;
     case cmd of
       BIO_C_GET_WRITE_BUF_SIZE \<Rightarrow> Some (long_of_size (rb_size b), h)
     | BIO_C_GET_WRITE_GUARANTEE \<Rightarrow>
         Some (if rb_peer b = None \<or> rb_closed b then 0
               else long_of_size (size_sub (rb_size b) (rb_len b)), h)
     | BIO_C_GET_READ_REQUEST \<Rightarrow> Some (long_of_size (rb_request b), h)
     | BIO_C_RESET_READ_REQUEST \<Rightarrow> Some (1, set_ring a (b\<lparr>rb_request := 0\<rparr>) h)
     | BIO_C_SHUTDOWN_WR \<Rightarrow> Some (1, set_ring a (b\<lparr>rb_closed := True\<rparr>) h)
     | BIO_CTRL_GET_CLOSE \<Rightarrow> Some (shutdown bio, h)
     | BIO_CTRL_SET_CLOSE \<Rightarrow> Some (1, h(a \<mapsto> bio\<lparr>shutdown := int_of_long n\<rparr>))
     | BIO_CTRL_PENDING \<Rightarrow>
         (case rb_peer b of
            None \<Rightarrow> Some (0, h)
          | Some p \<Rightarrow> do {
              peer_bio \<leftarrow> h p;
              peer_b \<leftarrow> pair_ptr peer_bio;
              Some (long_of_size (rb_len peer_b), h)
            })
     | BIO_CTRL_WPENDING \<Rightarrow> Some (if rb_buf b \<noteq> None then long_of_size (rb_len b) else 0, h)
     | BIO_CTRL_FLUSH \<Rightarrow> Some (1, h)
     | BIO_CTRL_EOF \<Rightarrow>
         (case arg of
            Arg_null \<Rightarrow> Some (1, h)
          | Arg_bio p \<Rightarrow> do {
              other_bio \<leftarrow> h p;
              other_b \<leftarrow> pair_ptr other_bio;
              Some (if rb_len other_b = 0 \<and> rb_closed other_b then 1 else 0, h)
            }
          | _ \<Rightarrow> None)
     | _ \<Rightarrow> Some (0, h)
   }"

end
