(* ===== verification/BioApi.thy ===== *)
theory BioApi
  imports Bio
begin

text \<open>
  The operations on every \<open>BIO\<close> (\<open>bio.c\<close>): creation, reference counting and release of chains,
  dispatch to the methods, and the loops built on \<open>BIO_read\<close> and \<open>BIO_write\<close>. The address
  \<open>None\<close> is the null pointer.
\<close>

section \<open>Creation and release\<close>

text \<open>The object and what the method adds are allocated by two calls; \<open>a\<close> is the new address.\<close>

definition BIO_new :: "bio_method \<Rightarrow> libc \<Rightarrow> libc \<Rightarrow> nat \<Rightarrow> bios \<Rightarrow> nat option \<times> bios" where
  "BIO_new meth m1 m2 a h = (
     case OPENSSL_malloc m1 sizeof_BIO of
       None \<Rightarrow> (None, h)
     | Some _ \<Rightarrow>
         let ret = \<lparr>bio_meth = Some meth, init = False, shutdown = 1, flags = 0, retry_reason = 0,
                    num = 0, bio_references = 1, ptr = Ptr_null, next_bio = None, num_read = 0,
                    num_write = 0\<rparr> in
         case (case meth of mem_method \<Rightarrow> mem_new m2 ret | methods_biop \<Rightarrow> bio_new m2 ret) of
           (False, _) \<Rightarrow> (None, h)
         | (True, ret) \<Rightarrow> (Some a, h(a \<mapsto> ret)))"

definition BIO_up_ref :: "nat \<Rightarrow> bios \<Rightarrow> (bool \<times> bios) option" where
  "BIO_up_ref a h = do {
     b \<leftarrow> h a;
     Some (True, h(a \<mapsto> b\<lparr>bio_references := CRYPTO_refcount_inc (bio_references b)\<rparr>))
   }"

definition BIO_pop :: "nat option \<Rightarrow> bios \<Rightarrow> (nat option \<times> bios) option" where
  "BIO_pop bio h = (
     case bio of
       None \<Rightarrow> Some (None, h)
     | Some a \<Rightarrow> do { b \<leftarrow> h a; Some (next_bio b, h(a \<mapsto> b\<lparr>next_bio := None\<rparr>)) })"

definition BIO_destroy :: "nat \<Rightarrow> bios \<Rightarrow> bios option" where
  "BIO_destroy a h = do {
     b \<leftarrow> h a;
     case bio_meth b of
       None \<Rightarrow> Some h
     | Some mem_method \<Rightarrow> Some (h(a \<mapsto> snd (mem_free b)))
     | Some methods_biop \<Rightarrow> bio_free a h
   }"

partial_function (option) BIO_free :: "nat option \<Rightarrow> bios \<Rightarrow> (bool \<times> bios) option" where
  "BIO_free bio h = (
     case bio of
       None \<Rightarrow> Some (True, h)
     | Some a \<Rightarrow>
         Option.bind (h a) (\<lambda>b.
         Option.bind (CRYPTO_refcount_dec_and_test_zero (bio_references b)) (\<lambda>(zero, n).
           let h = h(a \<mapsto> b\<lparr>bio_references := n\<rparr>) in
           if \<not> zero then Some (False, h)
           else
             Option.bind (BIO_pop bio h) (\<lambda>(nxt, h).
             Option.bind (BIO_destroy a h) (\<lambda>h.
               BIO_free nxt (h(a := None)))))))"

definition BIO_vfree :: "nat option \<Rightarrow> bios \<Rightarrow> bios option" where
  "BIO_vfree bio h = map_option snd (BIO_free bio h)"

definition BIO_free_all :: "nat option \<Rightarrow> bios \<Rightarrow> bios option" where
  "BIO_free_all bio h = map_option snd (BIO_free bio h)"

text \<open>The last object of a chain; a cyclic chain has none.\<close>

partial_function (option) last_bio :: "nat \<Rightarrow> bios \<Rightarrow> nat option" where
  "last_bio a h = Option.bind (h a) (\<lambda>b.
     case next_bio b of None \<Rightarrow> Some a | Some a' \<Rightarrow> last_bio a' h)"

definition BIO_push :: "nat option \<Rightarrow> nat option \<Rightarrow> bios \<Rightarrow> (nat option \<times> bios) option" where
  "BIO_push bio appended_bio h = (
     case bio of
       None \<Rightarrow> Some (None, h)
     | Some a \<Rightarrow> do {
         l \<leftarrow> last_bio a h;
         b \<leftarrow> h l;
         Some (Some a, h(l \<mapsto> b\<lparr>next_bio := appended_bio\<rparr>))
       })"

definition BIO_next :: "nat option \<Rightarrow> bios \<Rightarrow> nat option option" where
  "BIO_next bio h = (case bio of None \<Rightarrow> Some None | Some a \<Rightarrow> map_option next_bio (h a))"

definition BIO_method_type :: "bio_method \<Rightarrow> u32" where
  "BIO_method_type meth = (case meth of mem_method \<Rightarrow> 1 OR 0x0400 | methods_biop \<Rightarrow> 19 OR 0x0400)"

definition type_matches :: "u32 \<Rightarrow> bio \<Rightarrow> bool" where
  "type_matches ty b = (
     case bio_meth b of
       None \<Rightarrow> False
     | Some meth \<Rightarrow>
         if ty AND 0xff = 0 then BIO_method_type meth AND ty \<noteq> 0 else BIO_method_type meth = ty)"

partial_function (option) find_type_from :: "nat \<Rightarrow> u32 \<Rightarrow> bios \<Rightarrow> nat option option" where
  "find_type_from a ty h = Option.bind (h a) (\<lambda>b.
     if type_matches ty b then Some (Some a)
     else (case next_bio b of None \<Rightarrow> Some None | Some a' \<Rightarrow> find_type_from a' ty h))"

definition BIO_find_type :: "nat option \<Rightarrow> u32 \<Rightarrow> bios \<Rightarrow> nat option option" where
  "BIO_find_type bio ty h = (case bio of None \<Rightarrow> Some None | Some a \<Rightarrow> find_type_from a ty h)"

section \<open>Dispatch\<close>

definition bread :: "nat \<Rightarrow> bio_method \<Rightarrow> bool \<Rightarrow> int \<Rightarrow> bios \<Rightarrow> (int \<times> byte list \<times> bios) option" where
  "bread a meth has_buf len h = (
     case meth of
       mem_method \<Rightarrow> do {
         b \<leftarrow> h a;
         (r, xs, b') \<leftarrow> mem_read b len;
         Some (r, xs, h(a \<mapsto> b'))
       }
     | methods_biop \<Rightarrow> bio_read a has_buf len h)"

definition bwrite :: "libc \<Rightarrow> nat \<Rightarrow> bio_method \<Rightarrow> byte list \<Rightarrow> int \<Rightarrow> bios \<Rightarrow> (int \<times> bios) option" where
  "bwrite mc a meth xs inl h = (
     case meth of
       mem_method \<Rightarrow> do {
         b \<leftarrow> h a;
         (r, b') \<leftarrow> mem_write mc b xs inl;
         Some (r, h(a \<mapsto> b'))
       }
     | methods_biop \<Rightarrow> bio_write a (Some xs) inl h)"

definition BIO_read :: "nat option \<Rightarrow> int \<Rightarrow> bios \<Rightarrow> (int \<times> byte list \<times> bios) option" where
  "BIO_read bio len h = (
     case bio of
       None \<Rightarrow> Some (-2, [], h)
     | Some a \<Rightarrow> do {
         b \<leftarrow> h a;
         case bio_meth b of
           None \<Rightarrow> Some (-2, [], h)
         | Some meth \<Rightarrow>
             if \<not> init b then Some (-2, [], h)
             else if len \<le> 0 then Some (0, [], h)
             else do {
               (ret, xs, h) \<leftarrow> bread a meth True len h;
               Some (ret, xs, if ret > 0
                 then h(a := map_option (\<lambda>b. b\<lparr>num_read := size_add (num_read b) (nat ret)\<rparr>) (h a)) else h)
             }
       })"

definition BIO_gets :: "nat option \<Rightarrow> int \<Rightarrow> bios \<Rightarrow> (int \<times> byte list \<times> bios) option" where
  "BIO_gets bio len h = (
     case bio of
       None \<Rightarrow> Some (-2, [], h)
     | Some a \<Rightarrow> do {
         b \<leftarrow> h a;
         case bio_meth b of
           Some mem_method \<Rightarrow>
             if \<not> init b then Some (-2, [], h)
             else if len \<le> 0 then Some (0, [], h)
             else do {
               (ret, xs, b) \<leftarrow> mem_gets b len;
               Some (ret, xs, h(a \<mapsto> (if ret > 0
                 then b\<lparr>num_read := size_add (num_read b) (nat ret)\<rparr> else b)))
             }
         | _ \<Rightarrow> Some (-2, [], h)
       })"

definition BIO_write :: "libc \<Rightarrow> nat option \<Rightarrow> byte list \<Rightarrow> int \<Rightarrow> bios \<Rightarrow> (int \<times> bios) option" where
  "BIO_write mc bio xs inl h = (
     case bio of
       None \<Rightarrow> Some (-2, h)
     | Some a \<Rightarrow> do {
         b \<leftarrow> h a;
         case bio_meth b of
           None \<Rightarrow> Some (-2, h)
         | Some meth \<Rightarrow>
             if \<not> init b then Some (-2, h)
             else if inl \<le> 0 then Some (0, h)
             else do {
               (ret, h) \<leftarrow> bwrite mc a meth xs inl h;
               Some (ret, if ret > 0
                 then h(a := map_option (\<lambda>b. b\<lparr>num_write := size_add (num_write b) (nat ret)\<rparr>) (h a)) else h)
             }
       })"

definition BIO_ctrl ::
  "nat option \<Rightarrow> bio_cmd \<Rightarrow> int \<Rightarrow> ctrl_arg \<Rightarrow> bios \<Rightarrow> (int \<times> ctrl_out \<times> bios) option" where
  "BIO_ctrl bio cmd n arg h = (
     case bio of
       None \<Rightarrow> Some (0, Out_none, h)
     | Some a \<Rightarrow> do {
         b \<leftarrow> h a;
         case bio_meth b of
           None \<Rightarrow> Some (-2, Out_none, h)
         | Some mem_method \<Rightarrow> do {
             (ret, out, b) \<leftarrow> mem_ctrl b cmd n arg;
             Some (ret, out, h(a \<mapsto> b))
           }
         | Some methods_biop \<Rightarrow> do {
             (ret, h) \<leftarrow> bio_ctrl a cmd n arg h;
             Some (ret, Out_none, h)
           }
       })"

section \<open>Control operations\<close>

definition ctrl_ret :: "nat option \<Rightarrow> bio_cmd \<Rightarrow> int \<Rightarrow> bios \<Rightarrow> (int \<times> bios) option" where
  "ctrl_ret bio cmd n h = map_option (\<lambda>(r, _, h). (r, h)) (BIO_ctrl bio cmd n Arg_null h)"

definition BIO_flush :: "nat option \<Rightarrow> bios \<Rightarrow> (int \<times> bios) option" where
  "BIO_flush bio h = ctrl_ret bio BIO_CTRL_FLUSH 0 h"

definition BIO_reset :: "nat option \<Rightarrow> bios \<Rightarrow> (int \<times> bios) option" where
  "BIO_reset bio h = ctrl_ret bio BIO_CTRL_RESET 0 h"

definition BIO_eof :: "nat option \<Rightarrow> bios \<Rightarrow> (int \<times> bios) option" where
  "BIO_eof bio h = ctrl_ret bio BIO_CTRL_EOF 0 h"

definition BIO_set_close :: "nat option \<Rightarrow> int \<Rightarrow> bios \<Rightarrow> (int \<times> bios) option" where
  "BIO_set_close bio close_flag h = ctrl_ret bio BIO_CTRL_SET_CLOSE close_flag h"

text \<open>A negative answer fails the assertion.\<close>

definition BIO_pending :: "nat option \<Rightarrow> bios \<Rightarrow> nat option" where
  "BIO_pending bio h = do {
     (r, _, h') \<leftarrow> BIO_ctrl bio BIO_CTRL_PENDING 0 Arg_null h;
     if r \<ge> 0 then Some (nat r) else None
   }"

definition BIO_ctrl_pending :: "nat option \<Rightarrow> bios \<Rightarrow> nat option" where
  "BIO_ctrl_pending bio h = BIO_pending bio h"

definition BIO_wpending :: "nat option \<Rightarrow> bios \<Rightarrow> nat option" where
  "BIO_wpending bio h = do {
     (r, _, h') \<leftarrow> BIO_ctrl bio BIO_CTRL_WPENDING 0 Arg_null h;
     if r \<ge> 0 then Some (nat r) else None
   }"

definition BIO_number_read :: "bio \<Rightarrow> nat" where
  "BIO_number_read b = num_read b"

definition BIO_number_written :: "bio \<Rightarrow> nat" where
  "BIO_number_written b = num_write b"

definition BIO_set_data :: "bio \<Rightarrow> bio_ptr \<Rightarrow> bio" where
  "BIO_set_data b p = b\<lparr>ptr := p\<rparr>"

definition BIO_get_data :: "bio \<Rightarrow> bio_ptr" where
  "BIO_get_data b = ptr b"

definition BIO_set_init :: "bio \<Rightarrow> bool \<Rightarrow> bio" where
  "BIO_set_init b i = b\<lparr>init := i\<rparr>"

definition BIO_get_init :: "bio \<Rightarrow> bool" where
  "BIO_get_init b = init b"

definition BIO_set_shutdown :: "bio \<Rightarrow> int \<Rightarrow> bio" where
  "BIO_set_shutdown b s = b\<lparr>shutdown := s\<rparr>"

definition BIO_get_shutdown :: "bio \<Rightarrow> int" where
  "BIO_get_shutdown b = shutdown b"

text \<open>The next index and the counter \<open>g_index\<close> it is taken from; beyond 255 there is none.\<close>

definition BIO_get_new_index :: "int \<Rightarrow> int \<times> int" where
  "BIO_get_new_index g_index = (if g_index > 255 then (-1, g_index) else (g_index, g_index + 1))"

definition BIO_copy_next_retry :: "nat \<Rightarrow> bios \<Rightarrow> bios option" where
  "BIO_copy_next_retry a h = do {
     bio \<leftarrow> h a;
     n \<leftarrow> next_bio bio;
     let h = h(a \<mapsto> BIO_clear_retry_flags bio);
     nb \<leftarrow> h n;
     bio \<leftarrow> h a;
     Some (h(a \<mapsto> (BIO_set_flags bio (BIO_get_retry_flags nb))\<lparr>retry_reason := retry_reason nb\<rparr>))
   }"

definition BIO_ctrl_get_read_request :: "nat option \<Rightarrow> bios \<Rightarrow> nat option" where
  "BIO_ctrl_get_read_request bio h =
     map_option (\<lambda>(r, _). size_of_int r) (ctrl_ret bio BIO_C_GET_READ_REQUEST 0 h)"

definition BIO_ctrl_get_write_guarantee :: "nat option \<Rightarrow> bios \<Rightarrow> nat option" where
  "BIO_ctrl_get_write_guarantee bio h =
     map_option (\<lambda>(r, _). size_of_int r) (ctrl_ret bio BIO_C_GET_WRITE_GUARANTEE 0 h)"

definition BIO_shutdown_wr :: "nat option \<Rightarrow> bios \<Rightarrow> (int \<times> bios) option" where
  "BIO_shutdown_wr bio h = ctrl_ret bio BIO_C_SHUTDOWN_WR 0 h"

definition BIO_get_mem_data :: "nat option \<Rightarrow> bios \<Rightarrow> (int \<times> ctrl_out) option" where
  "BIO_get_mem_data bio h = map_option (\<lambda>(r, out, _). (r, out)) (BIO_ctrl bio BIO_CTRL_INFO 0 Arg_out h)"

definition BIO_get_mem_ptr :: "nat option \<Rightarrow> bios \<Rightarrow> (int \<times> ctrl_out) option" where
  "BIO_get_mem_ptr bio h =
     map_option (\<lambda>(r, out, _). (r, out)) (BIO_ctrl bio BIO_C_GET_BUF_MEM_PTR 0 Arg_out h)"

definition BIO_set_mem_buf :: "nat option \<Rightarrow> buf_mem \<Rightarrow> int \<Rightarrow> bios \<Rightarrow> (int \<times> bios) option" where
  "BIO_set_mem_buf bio b take_ownership h =
     map_option (\<lambda>(r, _, h). (r, h)) (BIO_ctrl bio BIO_C_SET_BUF_MEM take_ownership (Arg_mem b) h)"

definition BIO_set_mem_eof_return :: "nat option \<Rightarrow> int \<Rightarrow> bios \<Rightarrow> (int \<times> bios) option" where
  "BIO_set_mem_eof_return bio eof_value h = ctrl_ret bio BIO_C_SET_BUF_MEM_EOF_RETURN eof_value h"

definition BIO_mem_contents :: "bio \<Rightarrow> (byte list \<times> nat) option" where
  "BIO_mem_contents b = (
     if bio_meth b \<noteq> Some mem_method then None
     else map_option (\<lambda>m. (bm_data m, bm_length m)) (mem_ptr b))"

text \<open>
  A read-only buffer over the caller's bytes. The length of a string is taken before the test
  for the null pointer.
\<close>

definition BIO_new_mem_buf ::
  "libc \<Rightarrow> libc \<Rightarrow> nat \<Rightarrow> byte list option \<Rightarrow> int \<Rightarrow> bios \<Rightarrow> (nat option \<times> bios) option" where
  "BIO_new_mem_buf m1 m2 a buf len h = do {
     size \<leftarrow> (if len < 0 then Option.bind buf strlen else Some (nat len));
     if buf = None \<and> len \<noteq> 0 then Some (None, h)
     else
       case BIO_new mem_method m1 m2 a h of
         (None, h) \<Rightarrow> Some (None, h)
       | (Some a, h) \<Rightarrow> do {
           ret \<leftarrow> h a;
           b \<leftarrow> mem_ptr ret;
           Some (Some a, h(a \<mapsto> ret\<lparr>flags := flags ret OR BIO_FLAGS_MEM_RDONLY, num := 0,
             ptr := Ptr_mem (b\<lparr>bm_block := buf, bm_off := 0, bm_length := size, bm_max := size\<rparr>)\<rparr>))
         }
   }"

definition BIO_new_bio_pair ::
  "libc \<times> libc \<Rightarrow> libc \<times> libc \<Rightarrow> libc \<times> libc \<Rightarrow> nat \<Rightarrow> nat \<Rightarrow> nat \<Rightarrow> nat \<Rightarrow> bios \<Rightarrow>
   ((nat \<times> nat) option \<times> bios) option" where
  "BIO_new_bio_pair e1 e2 e3 a1 a2 writebuf1_len writebuf2_len h = (
     case BIO_new methods_biop (fst e1) (snd e1) a1 h of (bio1, h) \<Rightarrow>
     case BIO_new methods_biop (fst e2) (snd e2) a2 h of (bio2, h) \<Rightarrow> do {
       (ok, h) \<leftarrow> (case (bio1, bio2) of
          (Some a1, Some a2) \<Rightarrow> bio_make_pair (fst e3) (snd e3) a1 a2 writebuf1_len writebuf2_len h
        | _ \<Rightarrow> Some (False, h));
       if \<not> ok then do {
         (_, h) \<leftarrow> BIO_free bio1 h;
         (_, h) \<leftarrow> BIO_free bio2 h;
         Some (None, h)
       }
       else Some (Some (a1, a2), h)
     })"

section \<open>Writing everything\<close>

text \<open>\<open>ms i\<close> is the allocator that the \<open>i\<close>-th call of \<open>BIO_write\<close> meets.\<close>

partial_function (option) write_all_loop ::
  "(nat \<Rightarrow> libc) \<Rightarrow> nat \<Rightarrow> nat option \<Rightarrow> byte list \<Rightarrow> nat \<Rightarrow> bios \<Rightarrow> (bool \<times> bios) option" where
  "write_all_loop ms i bio xs len h = (
     if len = 0 then Some (True, h)
     else Option.bind (BIO_write (ms i) bio xs (if len > INT_MAX then int INT_MAX else int len) h)
       (\<lambda>(ret, h). if ret \<le> 0 then Some (False, h)
          else write_all_loop ms (Suc i) bio (drop (nat ret) xs) (size_sub len (nat ret)) h))"

definition BIO_write_all :: "(nat \<Rightarrow> libc) \<Rightarrow> nat option \<Rightarrow> byte list \<Rightarrow> nat \<Rightarrow> bios \<Rightarrow> (bool \<times> bios) option" where
  "BIO_write_all ms bio xs len h = write_all_loop ms 0 bio xs len h"

definition BIO_puts :: "libc \<Rightarrow> nat option \<Rightarrow> byte list \<Rightarrow> bios \<Rightarrow> (int \<times> bios) option" where
  "BIO_puts mc bio s h = do {
     n \<leftarrow> strlen s;
     BIO_write mc bio s (int_of_size n) h
   }"

primrec indent_loop :: "(nat \<Rightarrow> libc) \<Rightarrow> nat option \<Rightarrow> nat \<Rightarrow> bios \<Rightarrow> (bool \<times> bios) option" where
  "indent_loop ms bio 0 h = Some (True, h)"
| "indent_loop ms bio (Suc n) h = do {
     (r, h) \<leftarrow> BIO_puts (ms n) bio [32, 0] h;
     if r \<noteq> 1 then Some (False, h) else indent_loop ms bio n h
   }"

definition BIO_indent :: "(nat \<Rightarrow> libc) \<Rightarrow> nat option \<Rightarrow> nat \<Rightarrow> nat \<Rightarrow> bios \<Rightarrow> (bool \<times> bios) option" where
  "BIO_indent ms bio indent max_indent h =
     indent_loop ms bio (if indent > max_indent then max_indent else indent) h"

section \<open>Reading one ASN.1 element\<close>

text \<open>
  The loops take \<open>BIO_read\<close> on the object as a parameter \<open>rd\<close>. \<open>out\<close> is the output buffer and
  \<open>pos\<close> the position of the output pointer in it, which may not leave the buffer.
\<close>

type_synonym 'w reader = "int \<Rightarrow> 'w \<Rightarrow> (int \<times> byte list \<times> 'w) option"

partial_function (option) bio_read_full ::
  "'w reader \<Rightarrow> byte list \<Rightarrow> nat \<Rightarrow> nat \<Rightarrow> bool \<Rightarrow> 'w \<Rightarrow> (bool \<times> bool \<times> byte list \<times> 'w) option" where
  "bio_read_full rd out pos len first_read w = (
     if len = 0 then Some (True, False, out, w)
     else Option.bind (rd (if len \<le> INT_MAX then int len else int INT_MAX) w) (\<lambda>(ret, xs, w).
       if ret \<le> 0 then Some (False, first_read \<and> ret = 0, out, w)
       else if pos + nat ret > length out then None
       else bio_read_full rd (overwrite out pos xs) (pos + nat ret) (size_sub len (nat ret)) False w))"

definition kChunkSize :: nat where "kChunkSize = 4096"

partial_function (option) read_all_loop ::
  "'w reader \<Rightarrow> (nat \<Rightarrow> libc) \<Rightarrow> nat \<Rightarrow> nat \<Rightarrow> byte list \<Rightarrow> nat \<Rightarrow> nat \<Rightarrow> 'w \<Rightarrow>
   (byte list option \<times> 'w) option" where
  "read_all_loop rd ms i max_len out len pos w = (
     if pos = len then Some (None, w)
     else
       let todo = size_sub len pos in
       if \<not> todo < INT_MAX then None
       else Option.bind (rd (int_of_size todo) w) (\<lambda>(n, xs, w).
         if n = 0 then Some (Some (take pos out), w)
         else if n = -1 then Some (None, w)
         else
           let pos' = size_add pos (size_of_int n) in
           if pos' > length out then None
           else
             let out = overwrite out pos xs in
             if len < max_len \<and> size_sub len pos' < kChunkSize div 2 then
               let len = size_add len kChunkSize;
                   len = (if len < kChunkSize \<or> len > max_len then max_len else len) in
               (case realloc_bytes (ms i) out len of
                  None \<Rightarrow> Some (None, w)
                | Some new_buf \<Rightarrow> read_all_loop rd ms (Suc i) max_len new_buf len pos' w)
             else read_all_loop rd ms (Suc i) max_len out len pos' w))"

definition bio_read_all ::
  "'w reader \<Rightarrow> libc \<Rightarrow> (nat \<Rightarrow> libc) \<Rightarrow> byte list \<Rightarrow> nat \<Rightarrow> 'w \<Rightarrow> (byte list option \<times> 'w) option" where
  "bio_read_all rd m ms prefix max_len w = (
     let prefix_len = length prefix;
         len = size_add prefix_len kChunkSize;
         len = (if len > max_len then max_len else len) in
     if len < prefix_len then Some (None, w)
     else
       case alloc_bytes m len of
         None \<Rightarrow> Some (None, w)
       | Some out \<Rightarrow> read_all_loop rd ms 0 max_len (overwrite out 0 prefix) len prefix_len w)"

definition length32 :: "byte list \<Rightarrow> u32" where
  "length32 bs = foldl (\<lambda>len32 b. push_bit 8 len32 OR ucast b) 0 bs"

text \<open>\<open>*out\<close> on success; \<open>out_len\<close> is its length.\<close>

definition read_asn1_body ::
  "'w reader \<Rightarrow> libc \<Rightarrow> byte list \<Rightarrow> nat \<Rightarrow> nat \<Rightarrow> nat \<Rightarrow> 'w \<Rightarrow> (byte list option \<times> 'w) option" where
  "read_asn1_body rd m header header_len len max_len w = (
     if size_add len header_len < len \<or> size_add len header_len > max_len \<or> len > INT_MAX
     then Some (None, w)
     else
       let len = size_add len header_len in
       case alloc_bytes m len of
         None \<Rightarrow> Some (None, w)
       | Some out \<Rightarrow> do {
           (ok, _, out, w) \<leftarrow> bio_read_full rd (overwrite out 0 (take header_len header)) header_len
             (size_sub len header_len) True w;
           Some (if ok then Some out else None, w)
         })"

definition read_asn1 ::
  "'w reader \<Rightarrow> libc \<Rightarrow> (nat \<Rightarrow> libc) \<Rightarrow> nat \<Rightarrow> 'w \<Rightarrow> (byte list option \<times> 'w) option" where
  "read_asn1 rd m ms max_len w = do {
     (ok, _, header, w) \<leftarrow> bio_read_full rd (replicate 6 0) 0 2 True w;
     if \<not> ok then Some (None, w)
     else
       let tag = header ! 0; length_byte = header ! 1 in
       if tag AND 0x1f = 0x1f then Some (None, w)
       else if length_byte AND 0x80 = 0 then
         read_asn1_body rd m header 2 (unat length_byte) max_len w
       else
         let num_bytes = unat (length_byte AND 0x7f) in
         if tag AND 0x20 \<noteq> 0 \<and> num_bytes = 0 then bio_read_all rd m ms (take 2 header) max_len w
         else if num_bytes = 0 \<or> num_bytes > 4 then Some (None, w)
         else do {
           (ok, _, header, w) \<leftarrow> bio_read_full rd header 2 num_bytes True w;
           if \<not> ok then Some (None, w)
           else
             let header_len = 2 + num_bytes;
                 len32 = length32 (take num_bytes (drop 2 header)) in
             if len32 < 128 then Some (None, w)
             else if drop_bit ((num_bytes - 1) * 8) len32 = 0 then Some (None, w)
             else read_asn1_body rd m header header_len (unat len32) max_len w
         }
   }"

definition BIO_read_asn1 ::
  "libc \<Rightarrow> (nat \<Rightarrow> libc) \<Rightarrow> nat option \<Rightarrow> nat \<Rightarrow> bios \<Rightarrow> (byte list option \<times> bios) option" where
  "BIO_read_asn1 m ms bio max_len h = read_asn1 (BIO_read bio) m ms max_len h"

end
