(* ===== verification/Ring.thy ===== *)
theory Ring
  imports BioApi
begin

text \<open>
  The ring buffer of a \<open>BIO\<close> pair implements a bounded first-in first-out queue. The queue is
  an interface with a client part: over any history of puts and gets, what was delivered
  followed by what is queued is what was queued at first followed by what was accepted.
\<close>

section \<open>The interface\<close>

datatype queue_op = Put "byte list" | Get nat

locale fifo =
  fixes invar :: "'q \<Rightarrow> bool"
    and queue :: "'q \<Rightarrow> byte list"
    and capacity :: "'q \<Rightarrow> nat"
    and put :: "'q \<Rightarrow> byte list \<Rightarrow> (nat \<times> 'q) option"
    and get :: "'q \<Rightarrow> nat \<Rightarrow> (byte list \<times> 'q) option"
    and limit :: nat
  assumes bounded: "invar q \<Longrightarrow> length (queue q) \<le> capacity q"
    and put_ok: "invar q \<Longrightarrow> length xs \<le> limit \<Longrightarrow> \<exists>n q'. put q xs = Some (n, q') \<and> invar q' \<and> capacity q' = capacity q \<and>
      n = min (length xs) (capacity q - length (queue q)) \<and> queue q' = queue q @ take n xs"
    and get_ok: "invar q \<Longrightarrow> n \<le> limit \<Longrightarrow> \<exists>q'. get q n = Some (take n (queue q), q') \<and> invar q' \<and>
      capacity q' = capacity q \<and> queue q' = drop n (queue q)"

fun op_size :: "queue_op \<Rightarrow> nat" where
  "op_size (Put xs) = length xs"
| "op_size (Get n) = n"

fun queue_run ::
  "('q \<Rightarrow> byte list \<Rightarrow> (nat \<times> 'q) option) \<Rightarrow> ('q \<Rightarrow> nat \<Rightarrow> (byte list \<times> 'q) option) \<Rightarrow>
   'q \<Rightarrow> queue_op list \<Rightarrow> (byte list \<times> byte list \<times> 'q) option" where
  "queue_run put get q [] = Some ([], [], q)"
| "queue_run put get q (Put xs # ops) = do {
     (n, q) \<leftarrow> put q xs;
     (accepted, delivered, q) \<leftarrow> queue_run put get q ops;
     Some (take n xs @ accepted, delivered, q)
   }"
| "queue_run put get q (Get n # ops) = do {
     (ys, q) \<leftarrow> get q n;
     (accepted, delivered, q) \<leftarrow> queue_run put get q ops;
     Some (accepted, ys @ delivered, q)
   }"

context fifo
begin

lemma stream: "invar q \<Longrightarrow> \<forall>x\<in>set ops. op_size x \<le> limit \<Longrightarrow> \<exists>accepted delivered q'.
    queue_run put get q ops = Some (accepted, delivered, q') \<and> invar q' \<and>
    capacity q' = capacity q \<and> queue q @ accepted = delivered @ queue q'"
proof (induction ops arbitrary: q)
  case (Cons x ops)
  show ?case
  proof (cases x)
    case (Put xs)
    have l: "length xs \<le> limit" using Cons.prems(2) Put by simp
    from put_ok [OF Cons.prems(1) l] obtain n q1 where
      p: "put q xs = Some (n, q1)" "invar q1" "capacity q1 = capacity q" "queue q1 = queue q @ take n xs"
      by blast
    from Cons.IH [OF p(2)] Cons.prems(2) obtain a d q2 where
      r: "queue_run put get q1 ops = Some (a, d, q2)" "invar q2" "capacity q2 = capacity q1"
        "queue q1 @ a = d @ queue q2" by auto
    show ?thesis using Put p r by simp
  next
    case (Get n)
    have l: "n \<le> limit" using Cons.prems(2) Get by simp
    from get_ok [OF Cons.prems(1) l] obtain q1 where
      p: "get q n = Some (take n (queue q), q1)" "invar q1" "capacity q1 = capacity q"
        "queue q1 = drop n (queue q)" by blast
    from Cons.IH [OF p(2)] Cons.prems(2) obtain a d q2 where
      r: "queue_run put get q1 ops = Some (a, d, q2)" "invar q2" "capacity q2 = capacity q1"
        "queue q1 @ a = d @ queue q2" by auto
    have "queue q @ a = take n (queue q) @ d @ queue q2"
      using r(4) p(4) append_take_drop_id [of n "queue q"] by (metis append.assoc)
    then show ?thesis using Get p r by simp
  qed
qed simp

end

section \<open>The ring\<close>

definition ring_ok :: "bio_bio_st \<Rightarrow> bool" where
  "ring_ok b \<longleftrightarrow> rb_size b < 2 ^ 63 \<and> rb_len b \<le> rb_size b \<and> rb_offset b < rb_size b \<and>
     (\<exists>d. rb_buf b = Some d \<and> length d = rb_size b)"

definition ring_queue :: "bio_bio_st \<Rightarrow> byte list" where
  "ring_queue b = (case rb_buf b of None \<Rightarrow> []
     | Some d \<Rightarrow> take (rb_len b) (drop (rb_offset b) d @ take (rb_offset b) d))"

lemma size_add_small [simp]: "a + b < size_max1 \<Longrightarrow> size_add a b = a + b"
  by (simp add: size_add_def)

lemma size_sub_small [simp]: "b \<le> a \<Longrightarrow> a < size_max1 \<Longrightarrow> size_sub a b = a - b"
  by (simp add: size_sub_def Nat.add_diff_assoc2 mod_if)

lemma ring_queue_length: "ring_ok b \<Longrightarrow> length (ring_queue b) = rb_len b"
  by (auto simp: ring_ok_def ring_queue_def)

lemma take_rotate:
  assumes "k \<le> length d" and "n \<le> length d" and "c \<le> n" and "k + c < length d"
  shows "drop c (take n (drop k d @ take k d)) =
    take (n - c) (drop (k + c) d @ take (k + c) d)"
proof -
  have "drop c (take n (drop k d @ take k d)) = take (n - c) (drop (k + c) d @ take k d)"
    using assms by (simp add: drop_take add.commute)
  also have "\<dots> = take (n - c) ((drop (k + c) d @ take k d) @ take c (drop k d))"
    using assms by simp
  also have "\<dots> = take (n - c) (drop (k + c) d @ take (k + c) d)"
    by (simp add: take_add)
  finally show ?thesis .
qed

lemma take_front: "c \<le> n \<Longrightarrow> c \<le> length xs \<Longrightarrow> take c (take n (xs @ ys)) = take c xs"
  by (simp add: min.absorb1)

lemma ring_read_chunk_ok:
  assumes ok: "ring_ok b" and n: "0 < rest" "rest \<le> rb_len b" and c: "c = min rest (rb_size b - rb_offset b)"
  shows "\<exists>off. ring_read_chunk rest b =
      Some (take c (ring_queue b), b\<lparr>rb_len := rb_len b - c, rb_offset := off\<rparr>, rest - c) \<and>
    ring_ok (b\<lparr>rb_len := rb_len b - c, rb_offset := off\<rparr>) \<and>
    ring_queue (b\<lparr>rb_len := rb_len b - c, rb_offset := off\<rparr>) = drop c (ring_queue b) \<and> 0 < c"
proof -
  obtain d where d: "rb_buf b = Some d" "length d = rb_size b" using ok by (auto simp: ring_ok_def)
  have b: "rb_size b < 2 ^ 63" "rb_len b \<le> rb_size b" "rb_offset b < rb_size b"
    using ok by (simp_all add: ring_ok_def)
  define off where "off = (if rb_len b = c \<or> rb_offset b + c = rb_size b then 0 else rb_offset b + c)"
  have chunk: "(if size_add (rb_offset b) rest \<le> rb_size b then rest
      else size_sub (rb_size b) (rb_offset b)) = c"
    using b n by (auto simp add: c min_def)
  have c': "0 < c" "c \<le> rest" "rb_offset b + c \<le> rb_size b" "c \<le> rb_len b" using b n by (auto simp: c)
  have x: "take c (drop (rb_offset b) d) = take c (ring_queue b)"
    using d c' take_front [of c "rb_len b" "drop (rb_offset b) d" "take (rb_offset b) d"]
    by (simp add: ring_queue_def)
  have "ring_read_chunk rest b =
      Some (take c (ring_queue b), b\<lparr>rb_len := rb_len b - c, rb_offset := off\<rparr>, rest - c)"
    unfolding ring_read_chunk_def Let_def chunk
    using n c' b d by (auto simp: x off_def)
  moreover have "ring_ok (b\<lparr>rb_len := rb_len b - c, rb_offset := off\<rparr>)"
    using b c' d by (auto simp: ring_ok_def off_def)
  moreover have "ring_queue (b\<lparr>rb_len := rb_len b - c, rb_offset := off\<rparr>) = drop c (ring_queue b)"
  proof -
    consider "rb_len b = c" | "rb_len b \<noteq> c" "rb_offset b + c = rb_size b"
      | "rb_len b \<noteq> c" "rb_offset b + c < rb_size b" using c' by linarith
    then show ?thesis
    proof cases
      case 1
      then show ?thesis using d b by (simp add: ring_queue_def off_def)
    next
      case 2
      then have q: "ring_queue b = take (c + (rb_len b - c)) (drop (rb_offset b) d @ take (rb_offset b) d)"
        and l: "length (drop (rb_offset b) d) = c" "rb_len b - c \<le> rb_offset b"
        using d b c' by (auto simp: ring_queue_def)
      have "drop c (ring_queue b) = take (rb_len b - c) (take (rb_offset b) d)"
        unfolding q using l(1) by (simp add: drop_take)
      then show ?thesis using d 2 l(2) by (simp add: ring_queue_def off_def min.absorb1)
    next
      case 3
      then show ?thesis using d b c' take_rotate [of "rb_offset b" d "rb_len b" c]
        by (simp add: ring_queue_def off_def)
    qed
  qed
  ultimately show ?thesis using c' by blast
qed

lemma ring_read_ok:
  "ring_ok b \<Longrightarrow> 0 < n \<Longrightarrow> n \<le> rb_len b \<Longrightarrow> \<exists>off.
     ring_read n b = Some (take n (ring_queue b), b\<lparr>rb_len := rb_len b - n, rb_offset := off\<rparr>) \<and>
     ring_ok (b\<lparr>rb_len := rb_len b - n, rb_offset := off\<rparr>) \<and>
     ring_queue (b\<lparr>rb_len := rb_len b - n, rb_offset := off\<rparr>) = drop n (ring_queue b)"
proof (induction n arbitrary: b rule: less_induct)
  case (less n)
  define c where "c = min n (rb_size b - rb_offset b)"
  obtain off where o: "ring_read_chunk n b =
      Some (take c (ring_queue b), b\<lparr>rb_len := rb_len b - c, rb_offset := off\<rparr>, n - c)"
    "ring_ok (b\<lparr>rb_len := rb_len b - c, rb_offset := off\<rparr>)"
    "ring_queue (b\<lparr>rb_len := rb_len b - c, rb_offset := off\<rparr>) = drop c (ring_queue b)" "0 < c"
    using ring_read_chunk_ok [OF less.prems c_def] by blast
  show ?case
  proof (cases "n - c = 0")
    case True
    then have "c = n" by (simp add: c_def)
    then show ?thesis using o by (subst ring_read.simps) auto
  next
    case False
    let ?b = "b\<lparr>rb_len := rb_len b - c, rb_offset := off\<rparr>"
    have lt: "n - c < n" and pos: "0 < n - c" "n - c \<le> rb_len ?b"
      using o(4) less.prems False by (simp_all add: diff_le_mono)
    obtain off' where r: "ring_read (n - c) ?b =
        Some (take (n - c) (ring_queue ?b), ?b\<lparr>rb_len := rb_len ?b - (n - c), rb_offset := off'\<rparr>)"
      "ring_ok (?b\<lparr>rb_len := rb_len ?b - (n - c), rb_offset := off'\<rparr>)"
      "ring_queue (?b\<lparr>rb_len := rb_len ?b - (n - c), rb_offset := off'\<rparr>) = drop (n - c) (ring_queue ?b)"
      using less.IH [OF lt o(2) pos(1)] pos(2) by blast
    have e: "take c (ring_queue b) @ take (n - c) (drop c (ring_queue b)) = take n (ring_queue b)"
      using take_add [of c "n - c" "ring_queue b"] by (simp add: c_def)
    have "rb_len b - c - (n - c) = rb_len b - n" "n - c + c = n" using o(4) by (simp_all add: c_def)
    then show ?thesis using r o(1,3) False e by (subst ring_read.simps) (auto simp: add.commute)
  qed
qed

lemma ring_write_chunk_ok:
  assumes ok: "ring_ok b" and n: "0 < rest" "rb_len b + rest \<le> rb_size b" "rest \<le> length xs"
  shows "\<exists>c d. ring_write_chunk rest xs b = Some (c, b\<lparr>rb_buf := d, rb_len := rb_len b + c\<rparr>) \<and>
    ring_ok (b\<lparr>rb_buf := d, rb_len := rb_len b + c\<rparr>) \<and>
    ring_queue (b\<lparr>rb_buf := d, rb_len := rb_len b + c\<rparr>) = ring_queue b @ take c xs \<and> 0 < c \<and> c \<le> rest"
proof -
  obtain d where d: "rb_buf b = Some d" "length d = rb_size b" using ok by (auto simp: ring_ok_def)
  have b: "rb_size b < 2 ^ 63" "rb_len b \<le> rb_size b" "rb_offset b < rb_size b"
    using ok by (simp_all add: ring_ok_def)
  define k where "k = rb_offset b"
  define w where "w = k + rb_len b"
  have sa: "size_add (rb_offset b) (rb_len b) = w" using b by (simp add: w_def k_def)
  show ?thesis
  proof (cases "w < rb_size b")
    case True
    then have wo: "(if w \<ge> rb_size b then size_sub w (rb_size b) else w) = w" by simp
    define c where "c = min rest (rb_size b - w)"
    have c: "0 < c" "c \<le> rest" "w + c \<le> rb_size b" "c \<le> length xs" using True n by (auto simp: c_def)
    have chunk: "(if size_add w rest \<le> rb_size b then rest else size_sub (rb_size b) w) = c"
      using b True n by (auto simp add: c_def min_def)
    define e where "e = overwrite d w (take c xs)"
    have "ring_write_chunk rest xs b = Some (c, b\<lparr>rb_buf := Some e, rb_len := rb_len b + c\<rparr>)"
      unfolding ring_write_chunk_def Let_def sa wo chunk using b n c d by (simp add: e_def)
    moreover have le: "length e = length d" using c d by (simp add: e_def overwrite_def)
    moreover have "take (rb_len b + c) (drop k e @ take k e) = take (rb_len b) (drop k d @ take k d) @ take c xs"
      using c d b by (simp add: e_def overwrite_def w_def k_def drop_take)
    ultimately show ?thesis using b d c True
      by (intro exI [of _ c] exI [of _ "Some e"]) (simp add: ring_ok_def ring_queue_def k_def w_def)
  next
    case False
    define v where "v = w - rb_size b"
    have v: "v + rest \<le> k" "k < rb_size b" using b n False by (auto simp: v_def w_def k_def)
    have wo: "(if w \<ge> rb_size b then size_sub w (rb_size b) else w) = v"
      using b False by (simp add: v_def w_def k_def)
    define e where "e = overwrite d v (take rest xs)"
    have "ring_write_chunk rest xs b = Some (rest, b\<lparr>rb_buf := Some e, rb_len := rb_len b + rest\<rparr>)"
      unfolding ring_write_chunk_def Let_def sa wo using b n d v by (simp add: e_def)
    moreover have le: "length e = length d" using v d n by (simp add: e_def overwrite_def)
    moreover have "take (rb_len b + rest) (drop k e @ take k e) =
        take (rb_len b) (drop k d @ take k d) @ take rest xs"
    proof -
      have len: "rb_len b = (length d - k) + v" using b False d by (simp add: v_def w_def k_def)
      have "drop k e = drop k d" using v n d by (simp add: e_def overwrite_def)
      moreover have "take (v + rest) (take k e) = take v d @ take rest xs"
        using v n d overwrite_take [of v "take rest xs" d] by (simp add: e_def min.absorb1)
      moreover have "take v (take k d) = take v d" using v by (simp add: min_def)
      ultimately show ?thesis using len v d by (simp add: add.assoc)
    qed
    ultimately show ?thesis using b d n
      by (intro exI [of _ rest] exI [of _ "Some e"]) (simp add: ring_ok_def ring_queue_def k_def)
  qed
qed

lemma ring_write_ok:
  "ring_ok b \<Longrightarrow> 0 < n \<Longrightarrow> rb_len b + n \<le> rb_size b \<Longrightarrow> n \<le> length xs \<Longrightarrow> \<exists>d.
     ring_write n xs b = Some (b\<lparr>rb_buf := d, rb_len := rb_len b + n\<rparr>) \<and>
     ring_ok (b\<lparr>rb_buf := d, rb_len := rb_len b + n\<rparr>) \<and>
     ring_queue (b\<lparr>rb_buf := d, rb_len := rb_len b + n\<rparr>) = ring_queue b @ take n xs"
proof (induction n arbitrary: b xs rule: less_induct)
  case (less n)
  obtain c d where o: "ring_write_chunk n xs b = Some (c, b\<lparr>rb_buf := d, rb_len := rb_len b + c\<rparr>)"
    "ring_ok (b\<lparr>rb_buf := d, rb_len := rb_len b + c\<rparr>)"
    "ring_queue (b\<lparr>rb_buf := d, rb_len := rb_len b + c\<rparr>) = ring_queue b @ take c xs" "0 < c" "c \<le> n"
    using ring_write_chunk_ok [OF less.prems] by blast
  have s: "size_sub n c = n - c" using o(5) less.prems by (simp add: ring_ok_def)
  show ?case
  proof (cases "n - c = 0")
    case True
    then have "c = n" using o(5) by simp
    then show ?thesis using o s by (subst ring_write.simps) auto
  next
    case False
    let ?b = "b\<lparr>rb_buf := d, rb_len := rb_len b + c\<rparr>"
    have lt: "n - c < n" and pos: "0 < n - c" "rb_len ?b + (n - c) \<le> rb_size ?b"
      "n - c \<le> length (drop c xs)"
      using o(4,5) less.prems False by (simp_all add: diff_le_mono)
    obtain d' where r: "ring_write (n - c) (drop c xs) ?b =
        Some (?b\<lparr>rb_buf := d', rb_len := rb_len ?b + (n - c)\<rparr>)"
      "ring_ok (?b\<lparr>rb_buf := d', rb_len := rb_len ?b + (n - c)\<rparr>)"
      "ring_queue (?b\<lparr>rb_buf := d', rb_len := rb_len ?b + (n - c)\<rparr>) = ring_queue ?b @ take (n - c) (drop c xs)"
      using less.IH [OF lt o(2) pos] by blast
    have e: "take c xs @ take (n - c) (drop c xs) = take n xs"
      using take_add [of c "n - c" xs] o(5) by simp
    have "rb_len b + c + (n - c) = rb_len b + n" using o(5) by simp
    then show ?thesis using r o(1,3) s False e by (subst ring_write.simps) auto
  qed
qed

end
