(* ===== verification/BioWorld.thy ===== *)
theory BioWorld
  imports Ring
begin

text \<open>
  Well-formed heaps of \<open>BIO\<close> objects: the two ends of a pair point at each other, an object is
  initialised iff it can be used, buffers have the size they claim. Every operation keeps a
  heap well formed, and is defined on it: no assertion fails and nothing is accessed outside
  an object.
\<close>

section \<open>Well-formed heaps\<close>

definition mem_ok :: "bool \<Rightarrow> buf_mem \<Rightarrow> bool" where
  "mem_ok ro m \<longleftrightarrow> (if ro
     then bm_max m < 2 ^ 63 \<and> bm_off m + bm_length m = bm_max m \<and>
       (case bm_block m of None \<Rightarrow> bm_max m = 0 | Some d \<Rightarrow> bm_max m \<le> length d)
     else buf_ok m \<and> bm_length m \<le> INT_MAX)"

definition bio_peer :: "bio \<Rightarrow> nat option" where
  "bio_peer b = (case ptr b of Ptr_pair r \<Rightarrow> rb_peer r | _ \<Rightarrow> None)"

definition obj_ok :: "bio \<Rightarrow> bool" where
  "obj_ok b \<longleftrightarrow> bio_references b \<noteq> 0 \<and> next_bio b = None \<and>
     (case bio_meth b of
        None \<Rightarrow> False
      | Some mem_method \<Rightarrow> init b \<and> (\<exists>m. ptr b = Ptr_mem m \<and> mem_ok (mem_rdonly b) m)
      | Some methods_biop \<Rightarrow> (\<exists>r. ptr b = Ptr_pair r \<and> ring_ok r \<and> (init b \<longleftrightarrow> rb_peer r \<noteq> None)))"

definition peer_of :: "bios \<Rightarrow> nat \<Rightarrow> nat option" where
  "peer_of h a = Option.bind (h a) bio_peer"

definition peers_ok :: "(nat \<Rightarrow> nat option) \<Rightarrow> bool" where
  "peers_ok f \<longleftrightarrow> (\<forall>a p. f a = Some p \<longrightarrow> p \<noteq> a \<and> f p = Some a)"

definition bios_ok :: "bios \<Rightarrow> bool" where
  "bios_ok h \<longleftrightarrow> (\<forall>a b. h a = Some b \<longrightarrow> obj_ok b) \<and> peers_ok (peer_of h)"

lemma bios_okD: "bios_ok h \<Longrightarrow> h a = Some b \<Longrightarrow> obj_ok b"
  by (simp add: bios_ok_def)

lemma bios_ok_peerD: "bios_ok h \<Longrightarrow> peer_of h a = Some p \<Longrightarrow> p \<noteq> a \<and> peer_of h p = Some a"
  unfolding bios_ok_def peers_ok_def by blast

lemma obj_ok_mem:
  assumes "obj_ok b" and "bio_meth b = Some mem_method"
  obtains m where "ptr b = Ptr_mem m" and "mem_ok (mem_rdonly b) m" and "init b" and "mem_ptr b = Some m"
  using assms by (auto simp: obj_ok_def mem_ptr_def)

lemma obj_ok_pair:
  assumes "obj_ok b" and "bio_meth b = Some methods_biop"
  obtains r where "ptr b = Ptr_pair r" and "ring_ok r" and "init b \<longleftrightarrow> rb_peer r \<noteq> None"
    and "pair_ptr b = Some r" and "bio_peer b = rb_peer r"
  using assms by (auto simp: obj_ok_def pair_ptr_def bio_peer_def)

lemma obj_ok_cases:
  assumes "obj_ok b"
  obtains "bio_meth b = Some mem_method" | "bio_meth b = Some methods_biop"
  using assms by (auto simp: obj_ok_def split: option.splits bio_method.splits)

lemma peer_ok:
  assumes "bios_ok h" and "h a = Some b" and "bio_peer b = Some p"
  obtains pb r where "p \<noteq> a" and "h p = Some pb" and "bio_meth pb = Some methods_biop" and "obj_ok pb"
    and "ptr pb = Ptr_pair r" and "pair_ptr pb = Some r" and "ring_ok r" and "rb_peer r = Some a"
proof -
  have p: "p \<noteq> a" "peer_of h p = Some a"
    using bios_ok_peerD [OF assms(1), of a p] assms(2,3) by (simp_all add: peer_of_def)
  then obtain pb where pb: "h p = Some pb" "bio_peer pb = Some a"
    by (auto simp: peer_of_def bind_eq_Some_conv)
  note ok = bios_okD [OF assms(1) pb(1)]
  have m: "bio_meth pb = Some methods_biop"
  proof (rule obj_ok_cases [OF ok])
    assume "bio_meth pb = Some mem_method"
    from obj_ok_mem [OF ok this] obtain m where "ptr pb = Ptr_mem m" by blast
    with pb(2) show ?thesis by (simp add: bio_peer_def)
  qed
  obtain r where r: "ptr pb = Ptr_pair r" "ring_ok r" "pair_ptr pb = Some r" "bio_peer pb = rb_peer r"
    by (rule obj_ok_pair [OF ok m])
  show ?thesis by (rule that [OF p(1) pb(1) m ok r(1,3,2)]) (use r(4) pb(2) in simp)
qed

text \<open>Replacing an object by one with the same peer, removing an unconnected one, adding one.\<close>

lemma bios_ok_update:
  assumes "bios_ok h" and "h a = Some b" and "obj_ok b'" and "bio_peer b' = bio_peer b"
  shows "bios_ok (h(a \<mapsto> b'))"
proof -
  have p: "peer_of (h(a \<mapsto> b')) = peer_of h" using assms(2,4) by (auto simp: peer_of_def fun_eq_iff)
  show ?thesis using assms(1,3) unfolding bios_ok_def p by auto
qed

lemma bios_ok_remove:
  assumes "bios_ok h" and "peer_of h a = None"
  shows "bios_ok (h(a := None))"
proof -
  have p: "peer_of (h(a := None)) = peer_of h" using assms(2) by (auto simp: peer_of_def fun_eq_iff)
  show ?thesis using assms(1) unfolding bios_ok_def p by auto
qed

lemma bios_ok_add:
  assumes "bios_ok h" and "h a = None" and "obj_ok b" and "bio_peer b = None"
  shows "bios_ok (h(a \<mapsto> b))"
proof -
  have p: "peer_of (h(a \<mapsto> b)) = peer_of h" using assms(2,4) by (auto simp: peer_of_def fun_eq_iff)
  show ?thesis using assms(1,3) unfolding bios_ok_def p by auto
qed

text \<open>Changing only the ring of a connected end.\<close>

lemma obj_ok_ring:
  "obj_ok b \<Longrightarrow> ptr b = Ptr_pair r \<Longrightarrow> ring_ok r' \<Longrightarrow> rb_peer r' = rb_peer r \<Longrightarrow>
   obj_ok (b\<lparr>ptr := Ptr_pair r'\<rparr>)"
  by (auto simp: obj_ok_def split: option.splits bio_method.splits)

lemma set_ring_ok:
  assumes "bios_ok h" and "h a = Some b" and "ptr b = Ptr_pair r" and "ring_ok r'" and "rb_peer r' = rb_peer r"
  shows "bios_ok (set_ring a r' h)"
proof -
  have "obj_ok (b\<lparr>ptr := Ptr_pair r'\<rparr>)"
    using obj_ok_ring [OF bios_okD [OF assms(1,2)]] assms(3-5) by blast
  then have "bios_ok (h(a \<mapsto> b\<lparr>ptr := Ptr_pair r'\<rparr>))"
    using bios_ok_update [OF assms(1,2)] assms(3,5) by (simp add: bio_peer_def)
  then show ?thesis using assms(2) by (simp add: set_ring_def)
qed

lemma ring_ok_request [simp]: "ring_ok (r\<lparr>rb_request := n\<rparr>) = ring_ok r"
  by (simp add: ring_ok_def)

lemma ring_ok_closed [simp]: "ring_ok (r\<lparr>rb_closed := c\<rparr>) = ring_ok r"
  by (simp add: ring_ok_def)

lemma ring_queue_request [simp]: "ring_queue (r\<lparr>rb_request := n\<rparr>) = ring_queue r"
  by (simp add: ring_queue_def cong: option.case_cong)

text \<open>Changing only fields the invariant does not mention.\<close>

lemma RDONLY_not_retry: "BIO_FLAGS_MEM_RDONLY AND NOT kRetryFlags = BIO_FLAGS_MEM_RDONLY"
  "BIO_FLAGS_READ AND BIO_FLAGS_MEM_RDONLY = 0" "BIO_FLAGS_WRITE AND BIO_FLAGS_MEM_RDONLY = 0"
  "BIO_FLAGS_SHOULD_RETRY AND BIO_FLAGS_MEM_RDONLY = 0"
  by (simp_all add: BIO_FLAGS_MEM_RDONLY_def kRetryFlags_def BIO_FLAGS_RWS_def BIO_FLAGS_READ_def
      BIO_FLAGS_WRITE_def BIO_FLAGS_IO_SPECIAL_def BIO_FLAGS_SHOULD_RETRY_def)

lemma rdonly_flags [simp]:
  "mem_rdonly (BIO_clear_retry_flags b) = mem_rdonly b"
  "mem_rdonly (BIO_set_retry_read b) = mem_rdonly b"
  "mem_rdonly (BIO_set_retry_write b) = mem_rdonly b"
proof -
  have "(flags b AND NOT kRetryFlags) AND BIO_FLAGS_MEM_RDONLY = flags b AND BIO_FLAGS_MEM_RDONLY"
    using RDONLY_not_retry(1) by (metis and.assoc and.commute)
  then show "mem_rdonly (BIO_clear_retry_flags b) = mem_rdonly b"
    by (simp add: mem_rdonly_def BIO_clear_retry_flags_def)
  show "mem_rdonly (BIO_set_retry_read b) = mem_rdonly b" "mem_rdonly (BIO_set_retry_write b) = mem_rdonly b"
    by (simp_all add: mem_rdonly_def BIO_set_retry_read_def BIO_set_retry_write_def bit.conj_disj_distrib2
        RDONLY_not_retry)
qed

lemma flag_ops [simp]:
  "init (BIO_clear_retry_flags b) = init b" "init (BIO_set_retry_read b) = init b"
  "init (BIO_set_retry_write b) = init b" "ptr (BIO_clear_retry_flags b) = ptr b"
  "ptr (BIO_set_retry_read b) = ptr b" "ptr (BIO_set_retry_write b) = ptr b"
  "bio_meth (BIO_clear_retry_flags b) = bio_meth b" "bio_meth (BIO_set_retry_read b) = bio_meth b"
  "bio_meth (BIO_set_retry_write b) = bio_meth b" "num (BIO_clear_retry_flags b) = num b"
  "num (BIO_set_retry_read b) = num b" "num (BIO_set_retry_write b) = num b"
  "bio_references (BIO_clear_retry_flags b) = bio_references b"
  "bio_references (BIO_set_retry_read b) = bio_references b"
  "bio_references (BIO_set_retry_write b) = bio_references b"
  "next_bio (BIO_clear_retry_flags b) = next_bio b" "next_bio (BIO_set_retry_read b) = next_bio b"
  "next_bio (BIO_set_retry_write b) = next_bio b"
  by (simp_all add: BIO_clear_retry_flags_def BIO_set_retry_read_def BIO_set_retry_write_def)

lemma obj_ok_flags [simp]:
  "obj_ok (BIO_clear_retry_flags b) = obj_ok b" "obj_ok (BIO_set_retry_read b) = obj_ok b"
  "obj_ok (BIO_set_retry_write b) = obj_ok b"
  by (simp_all add: obj_ok_def cong: option.case_cong bio_method.case_cong)

lemma bio_peer_flags [simp]:
  "bio_peer (BIO_clear_retry_flags b) = bio_peer b" "bio_peer (BIO_set_retry_read b) = bio_peer b"
  "bio_peer (BIO_set_retry_write b) = bio_peer b"
  by (simp_all add: bio_peer_def)

lemma rdonly_fields [simp]:
  "mem_rdonly (b\<lparr>num_read := n\<rparr>) = mem_rdonly b" "mem_rdonly (b\<lparr>num_write := n\<rparr>) = mem_rdonly b"
  "mem_rdonly (b\<lparr>shutdown := s\<rparr>) = mem_rdonly b" "mem_rdonly (b\<lparr>num := i\<rparr>) = mem_rdonly b"
  "mem_rdonly (b\<lparr>bio_references := c\<rparr>) = mem_rdonly b" "mem_rdonly (b\<lparr>ptr := p\<rparr>) = mem_rdonly b"
  by (simp_all add: mem_rdonly_def)

lemma obj_ok_fields [simp]:
  "obj_ok (b\<lparr>num_read := n\<rparr>) = obj_ok b" "obj_ok (b\<lparr>num_write := n\<rparr>) = obj_ok b"
  "obj_ok (b\<lparr>shutdown := s\<rparr>) = obj_ok b" "obj_ok (b\<lparr>num := i\<rparr>) = obj_ok b"
  by (simp_all add: obj_ok_def cong: option.case_cong bio_method.case_cong)

lemma bio_peer_fields [simp]:
  "bio_peer (b\<lparr>num_read := n\<rparr>) = bio_peer b" "bio_peer (b\<lparr>num_write := n\<rparr>) = bio_peer b"
  "bio_peer (b\<lparr>shutdown := s\<rparr>) = bio_peer b" "bio_peer (b\<lparr>num := i\<rparr>) = bio_peer b"
  "bio_peer (b\<lparr>bio_references := c\<rparr>) = bio_peer b"
  by (simp_all add: bio_peer_def)

end
