(* ===== verification/BioPair.thy ===== *)
theory BioPair
  imports BioWorld
begin

text \<open>
  The two ends of a \<open>BIO\<close> pair as a duplex channel: reading and writing through \<open>BIO_read\<close> and
  \<open>BIO_write\<close> refines two bounded queues, and keeps the heap well formed.
\<close>

section \<open>The abstract view of a pair\<close>

record pair_end =
  pe_peer :: "nat option"
  pe_closed :: bool
  pe_queue :: "byte list"
  pe_capacity :: nat

definition ring_view :: "bio_bio_st \<Rightarrow> pair_end" where
  "ring_view r = \<lparr>pe_peer = rb_peer r, pe_closed = rb_closed r, pe_queue = ring_queue r,
     pe_capacity = rb_size r\<rparr>"

definition pair_view :: "bios \<Rightarrow> nat \<Rightarrow> pair_end option" where
  "pair_view h a = (case h a of None \<Rightarrow> None | Some b \<Rightarrow> map_option ring_view (pair_ptr b))"

lemma pair_ptr_same: "ptr b' = ptr b \<Longrightarrow> pair_ptr b' = pair_ptr b"
  by (simp add: pair_ptr_def)

lemma view_same: "h a = Some b \<Longrightarrow> ptr b' = ptr b \<Longrightarrow> pair_view (h(a \<mapsto> b')) = pair_view h"
  by (auto simp: pair_view_def fun_eq_iff dest: pair_ptr_same)

lemma view_set_ring: "h a = Some b \<Longrightarrow> pair_view (set_ring a r h) = (pair_view h)(a \<mapsto> ring_view r)"
  by (auto simp: pair_view_def set_ring_def pair_ptr_def fun_eq_iff)

lemma view_ring: "h a = Some b \<Longrightarrow> pair_ptr b = Some r \<Longrightarrow> pair_view h a = Some (ring_view r)"
  by (simp add: pair_view_def)

lemma view_restore: "pair_view h a = Some v \<Longrightarrow> (pair_view h)(a \<mapsto> v) = pair_view h"
  by (simp add: fun_upd_idem)

lemma ring_view_request [simp]: "ring_view (r\<lparr>rb_request := n\<rparr>) = ring_view r"
  by (simp add: ring_view_def)

lemma ring_ok_queue: "ring_ok r \<Longrightarrow> rb_len r = length (ring_queue r)"
  by (simp add: ring_queue_length)

section \<open>Reading\<close>

lemma size_of_int_nat: "0 \<le> n \<Longrightarrow> n < 2 ^ 64 \<Longrightarrow> size_of_int n = nat n"
  by (simp add: size_of_int_def)

lemma int_of_size_small: "n \<le> INT_MAX \<Longrightarrow> int_of_size n = int n"
  by (simp add: int_of_size_def INT_MAX_def sint_uint unsigned_of_nat take_bit_nat_eq_self
      signed_take_bit_int_eq_self)

text \<open>Replacing the flags of one object, and the ring of another or the same.\<close>

lemma clear_flags_ok:
  assumes "bios_ok h" and "h a = Some b"
  shows "bios_ok (h(a \<mapsto> BIO_clear_retry_flags b)) \<and> pair_view (h(a \<mapsto> BIO_clear_retry_flags b)) = pair_view h"
  using bios_ok_update [OF assms] bios_okD [OF assms] view_same [of h a b, OF assms(2)] by simp

lemma map_flags_ok:
  assumes "bios_ok h" and "f \<in> {BIO_set_retry_read, BIO_set_retry_write}"
  shows "bios_ok (h(a := map_option f (h a))) \<and> pair_view (h(a := map_option f (h a))) = pair_view h"
proof (cases "h a")
  case None
  then show ?thesis using assms(1) by (simp add: fun_upd_idem)
next
  case (Some b)
  then show ?thesis
    using bios_ok_update [OF assms(1) Some, of "f b"] bios_okD [OF assms(1) Some] assms(2)
      view_same [of h a b "f b", OF Some] by auto
qed

lemma bio_read_ok:
  assumes ok: "bios_ok h" and b: "h a = Some b" "bio_meth b = Some methods_biop" "init b"
    and len: "0 < len" "len \<le> int INT_MAX"
  shows "\<exists>p e h'. pair_view h p = Some e \<and> bio_peer b = Some p \<and> bios_ok h' \<and>
    (let n = min (nat len) (length (pe_queue e)) in
     bio_read a True len h = Some (if pe_queue e = [] then if pe_closed e then 0 else -1 else int n,
       take n (pe_queue e), h') \<and>
     pair_view h' = (pair_view h)(p \<mapsto> e\<lparr>pe_queue := drop n (pe_queue e)\<rparr>))"
proof -
  obtain r where r: "pair_ptr b = Some r" "init b \<longleftrightarrow> rb_peer r \<noteq> None" "bio_peer b = rb_peer r"
    by (rule obj_ok_pair [OF bios_okD [OF ok b(1)] b(2)])
  then obtain p where p: "rb_peer r = Some p" using b(3) by blast
  obtain pb pr where pb: "p \<noteq> a" "h p = Some pb" "ptr pb = Ptr_pair pr" "pair_ptr pb = Some pr" "ring_ok pr"
    using peer_ok [OF ok b(1), of p] r(3) p by metis
  define h1 where "h1 = h(a \<mapsto> BIO_clear_retry_flags b)"
  have h1: "bios_ok h1" "pair_view h1 = pair_view h" "h1 p = Some pb"
    using clear_flags_ok [OF ok b(1)] pb by (simp_all add: h1_def)
  define pr0 where "pr0 = pr\<lparr>rb_request := 0\<rparr>"
  define h2 where "h2 = set_ring p pr0 h1"
  have e: "pair_view h p = Some (ring_view pr)" using pb by (simp add: view_ring)
  have h2: "bios_ok h2" "pair_view h2 = pair_view h" "h2 p = Some (pb\<lparr>ptr := Ptr_pair pr0\<rparr>)"
    using set_ring_ok [OF h1(1,3) pb(3), of pr0] pb(5) view_set_ring [of h1 p pb pr0, OF h1(3)] h1 e
    by (simp_all add: h2_def pr0_def view_restore set_ring_def)
  have q: "ring_ok pr0" "ring_queue pr0 = ring_queue pr" "rb_len pr0 = length (ring_queue pr)"
    "rb_closed pr0 = rb_closed pr" "rb_peer pr0 = rb_peer pr"
    using pb(5) ring_ok_queue [OF pb(5)] by (simp_all add: pr0_def)
  obtain d where d: "rb_buf pr = Some d" using pb(5) by (auto simp: ring_ok_def)
  have len': "size_of_int len = nat len" "0 < nat len" "nat len \<le> INT_MAX"
    using len by (simp_all add: size_of_int_nat INT_MAX_def nat_le_iff)
  have ev: "pe_queue (ring_view pr) = ring_queue pr" "pe_closed (ring_view pr) = rb_closed pr"
    by (simp_all add: ring_view_def)
  have unf: "bio_read a True len h = (
      if rb_len pr0 = 0 then
        if rb_closed pr0 then Some (0, [], h2)
        else Some (-1, [], set_ring p (pr0\<lparr>rb_request := if nat len \<le> rb_size pr0 then nat len else rb_size pr0\<rparr>)
          (h2(a := map_option BIO_set_retry_read (h2 a))))
      else do {
        (xs, pr') \<leftarrow> ring_read (if rb_len pr0 < nat len then rb_len pr0 else nat len) pr0;
        Some (int_of_size (if rb_len pr0 < nat len then rb_len pr0 else nat len), xs, set_ring p pr' h2)
      })"
    using b r(1) p pb h1(3) d len' by (simp add: bio_read_def Let_def h2_def pr0_def flip: h1_def)
  show ?thesis
  proof (cases "ring_queue pr = []")
    case True
    then have l0: "rb_len pr0 = 0" using q by simp
    show ?thesis
    proof (cases "rb_closed pr")
      case True
      then show ?thesis using l0 \<open>ring_queue pr = []\<close> h2 e r(3) p q unf
        by (intro exI [of _ p] exI [of _ "ring_view pr"] exI [of _ h2])
          (simp add: ev view_restore)
    next
      case False
      define h3 where "h3 = h2(a := map_option BIO_set_retry_read (h2 a))"
      have h3: "bios_ok h3" "pair_view h3 = pair_view h" "h3 p = h2 p"
        using map_flags_ok [OF h2(1), of BIO_set_retry_read a] h2 pb(1) by (simp_all add: h3_def)
      let ?r = "pr0\<lparr>rb_request := if nat len \<le> rb_size pr0 then nat len else rb_size pr0\<rparr>"
      have "bios_ok (set_ring p ?r h3)"
        using h3 h2(3) q by (intro set_ring_ok [where b = "pb\<lparr>ptr := Ptr_pair pr0\<rparr>" and r = pr0]) simp_all
      moreover have "pair_view (set_ring p ?r h3) = pair_view h"
        using view_set_ring [of h3 p _ ?r] h3 h2(3) e by (simp add: view_restore pr0_def)
      ultimately show ?thesis using l0 False \<open>ring_queue pr = []\<close> e r(3) p q unf
        by (intro exI [of _ p] exI [of _ "ring_view pr"] exI [of _ "set_ring p ?r h3"])
          (simp add: ev view_restore h3_def)
    qed
  next
    case False
    define n where "n = min (nat len) (length (ring_queue pr))"
    have n: "0 < n" "n \<le> rb_len pr0" "n \<le> INT_MAX" "(if rb_len pr0 < nat len then rb_len pr0 else nat len) = n"
      using False len' q(3) by (auto simp: n_def)
    obtain off where o: "ring_read n pr0 =
        Some (take n (ring_queue pr), pr0\<lparr>rb_len := rb_len pr0 - n, rb_offset := off\<rparr>)"
      "ring_ok (pr0\<lparr>rb_len := rb_len pr0 - n, rb_offset := off\<rparr>)"
      "ring_queue (pr0\<lparr>rb_len := rb_len pr0 - n, rb_offset := off\<rparr>) = drop n (ring_queue pr)"
      using ring_read_ok [OF q(1) n(1,2)] q(2) by auto
    let ?r = "pr0\<lparr>rb_len := rb_len pr0 - n, rb_offset := off\<rparr>"
    have "bios_ok (set_ring p ?r h2)"
      using h2 o(2) by (intro set_ring_ok [where b = "pb\<lparr>ptr := Ptr_pair pr0\<rparr>" and r = pr0]) simp_all
    moreover have "ring_view ?r = (ring_view pr)\<lparr>pe_queue := drop n (ring_queue pr)\<rparr>"
      using o(3) by (simp add: ring_view_def pr0_def)
    then have "pair_view (set_ring p ?r h2) =
        (pair_view h)(p \<mapsto> (ring_view pr)\<lparr>pe_queue := drop n (ring_queue pr)\<rparr>)"
      using view_set_ring [of h2 p _ ?r] h2 by simp
    moreover have "bio_read a True len h = Some (int n, take n (ring_queue pr), set_ring p ?r h2)"
      using unf n False q(3) o(1) by (simp add: int_of_size_small)
    ultimately show ?thesis using False e r(3) p
      by (intro exI [of _ p] exI [of _ "ring_view pr"] exI [of _ "set_ring p ?r h2"])
        (simp add: ev Let_def flip: n_def)
  qed
qed

section \<open>Writing\<close>

lemma bio_write_ok:
  assumes ok: "bios_ok h" and b: "h a = Some b" "bio_meth b = Some methods_biop" "init b"
    and len: "0 < len" "len \<le> int INT_MAX" "nat len \<le> length xs"
  shows "\<exists>e h'. pair_view h a = Some e \<and> bios_ok h' \<and>
    (let n = min (nat len) (pe_capacity e - length (pe_queue e)) in
     if pe_closed e \<or> n = 0 then bio_write a (Some xs) len h = Some (-1, h') \<and> pair_view h' = pair_view h
     else bio_write a (Some xs) len h = Some (int n, h') \<and>
       pair_view h' = (pair_view h)(a \<mapsto> e\<lparr>pe_queue := pe_queue e @ take n xs\<rparr>))"
proof -
  obtain r where r: "ptr b = Ptr_pair r" "ring_ok r" "pair_ptr b = Some r" "init b \<longleftrightarrow> rb_peer r \<noteq> None"
    by (rule obj_ok_pair [OF bios_okD [OF ok b(1)] b(2)])
  have p: "rb_peer r \<noteq> None" using r b(3) by blast
  obtain d where d: "rb_buf r = Some d" using r(2) by (auto simp: ring_ok_def)
  define h1 where "h1 = h(a \<mapsto> BIO_clear_retry_flags b)"
  define r0 where "r0 = r\<lparr>rb_request := 0\<rparr>"
  define h2 where "h2 = set_ring a r0 h1"
  have h1: "bios_ok h1" "pair_view h1 = pair_view h" "h1 a = Some (BIO_clear_retry_flags b)"
    using clear_flags_ok [OF ok b(1)] by (simp_all add: h1_def)
  have e: "pair_view h a = Some (ring_view r)" using b r by (simp add: view_ring)
  have h2: "bios_ok h2" "pair_view h2 = pair_view h"
    "h2 a = Some ((BIO_clear_retry_flags b)\<lparr>ptr := Ptr_pair r0\<rparr>)"
    using set_ring_ok [OF h1(1,3), of r r0] r view_set_ring [of h1 a _ r0, OF h1(3)] h1 e
    by (simp_all add: h2_def r0_def view_restore set_ring_def)
  have q: "ring_ok r0" "ring_queue r0 = ring_queue r" "rb_len r0 = length (ring_queue r)"
    "rb_size r0 < 2 ^ 63" "rb_len r0 \<le> rb_size r0" "rb_size r0 = rb_size r" "rb_closed r0 = rb_closed r"
    using r(2) ring_ok_queue [OF r(2)] by (simp_all add: r0_def ring_ok_def)
  have len': "size_of_int len = nat len" "0 < nat len" "nat len \<le> INT_MAX"
    using len by (simp_all add: size_of_int_nat INT_MAX_def nat_le_iff)
  define n where "n = min (nat len) (rb_size r0 - rb_len r0)"
  have ev: "pe_queue (ring_view r) = ring_queue r" "pe_closed (ring_view r) = rb_closed r"
    "pe_capacity (ring_view r) = rb_size r"
    by (simp_all add: ring_view_def)
  have unf: "bio_write a (Some xs) len h = (
      if rb_closed r0 then Some (-1, h2)
      else if rb_len r0 = rb_size r0 then Some (-1, h2(a := map_option BIO_set_retry_write (h2 a)))
      else do { r' \<leftarrow> ring_write n xs r0; Some (int_of_size n, set_ring a r' h2) })"
    using b r(3) p d len' q(4,5)
    by (auto simp: bio_write_def Let_def n_def min_def r0_def h2_def simp flip: h1_def)
  show ?thesis
  proof (cases "rb_closed r \<or> rb_len r0 = rb_size r0")
    case True
    define h3 where "h3 = h2(a := map_option BIO_set_retry_write (h2 a))"
    have h3: "bios_ok h3" "pair_view h3 = pair_view h"
      using map_flags_ok [OF h2(1), of BIO_set_retry_write a] h2 by (simp_all add: h3_def)
    define h' where "h' = (if rb_closed r then h2 else h3)"
    have "bios_ok h'" "pair_view h' = pair_view h" using h2 h3 by (simp_all add: h'_def)
    moreover have "bio_write a (Some xs) len h = Some (-1, h')"
      using True unf q by (auto simp: h'_def h3_def)
    moreover have "rb_closed r \<or> rb_size r - length (ring_queue r) = 0" using True q by auto
    ultimately show ?thesis using e
      by (intro exI [of _ "ring_view r"] exI [of _ h']) (auto simp: ev Let_def)
  next
    case False
    then have n: "0 < n" "rb_len r0 + n \<le> rb_size r0" "n \<le> length xs" "n \<le> INT_MAX"
      using q len' len by (auto simp: n_def)
    obtain d' where o: "ring_write n xs r0 = Some (r0\<lparr>rb_buf := d', rb_len := rb_len r0 + n\<rparr>)"
      "ring_ok (r0\<lparr>rb_buf := d', rb_len := rb_len r0 + n\<rparr>)"
      "ring_queue (r0\<lparr>rb_buf := d', rb_len := rb_len r0 + n\<rparr>) = ring_queue r @ take n xs"
      using ring_write_ok [OF q(1) n(1-3)] q(2) by auto
    let ?r = "r0\<lparr>rb_buf := d', rb_len := rb_len r0 + n\<rparr>"
    have "bios_ok (set_ring a ?r h2)"
      using o(2) by (intro set_ring_ok [OF h2(1,3), where r = r0]) simp_all
    moreover have "ring_view ?r = (ring_view r)\<lparr>pe_queue := ring_queue r @ take n xs\<rparr>"
      using o(3) by (simp add: ring_view_def r0_def)
    then have "pair_view (set_ring a ?r h2) =
        (pair_view h)(a \<mapsto> (ring_view r)\<lparr>pe_queue := ring_queue r @ take n xs\<rparr>)"
      using view_set_ring [of h2 a _ ?r, OF h2(3)] h2 by simp
    moreover have "bio_write a (Some xs) len h = Some (int n, set_ring a ?r h2)"
      using unf n False q o(1) by (simp add: int_of_size_small)
    ultimately show ?thesis using e n(1) False q
      by (intro exI [of _ "ring_view r"] exI [of _ "set_ring a ?r h2"])
        (simp add: ev Let_def n_def)
  qed
qed

end
