(* ===== verification/BioMem.thy ===== *)
theory BioMem
  imports BioPair
begin

text \<open>
  The operations of memory \<open>BIO\<close>s on a well-formed object: a queue of bytes, read from the
  front; written at the end unless the object is a read-only view of the caller's bytes.
\<close>

definition mem_view :: "bio \<Rightarrow> byte list" where
  "mem_view b = (case ptr b of Ptr_mem m \<Rightarrow> bm_contents m | _ \<Rightarrow> [])"

lemma mem_ok_length: "mem_ok ro m \<Longrightarrow> length (bm_contents m) = bm_length m"
  by (auto simp: mem_ok_def buf_ok_def bm_contents_def split: if_splits option.splits)

lemma mem_ok_small: "mem_ok ro m \<Longrightarrow> bm_length m < 2 ^ 63"
  by (auto simp: mem_ok_def INT_MAX_def split: if_splits)

lemma obj_ok_mem_ptr:
  "obj_ok b \<Longrightarrow> ptr b = Ptr_mem m \<Longrightarrow> mem_ok (mem_rdonly b) m' \<Longrightarrow> obj_ok (b\<lparr>ptr := Ptr_mem m'\<rparr>)"
  by (auto simp: obj_ok_def split: option.splits bio_method.splits)

lemma bm_read_ok:
  assumes "mem_ok ro m" and "n \<le> bm_length m"
  shows "bm_read m n = Some (take n (bm_contents m))"
  using assms by (auto simp: bm_read_def bm_contents_def mem_ok_def buf_ok_def min.absorb1
      split: if_splits option.splits)

lemma mem_consume_ok:
  assumes ok: "mem_ok ro m" and n: "0 < n" "n \<le> bm_length m"
  shows "\<exists>m'. mem_consume ro n m = Some (take n (bm_contents m), m') \<and> mem_ok ro m' \<and>
    bm_contents m' = drop n (bm_contents m)"
proof (cases ro)
  case True
  then show ?thesis using assms bm_read_ok [OF ok n(2)]
    by (auto simp: mem_consume_def mem_ok_def bm_contents_def drop_take add.commute split: option.splits)
next
  case False
  then have b: "buf_ok m" "bm_length m \<le> INT_MAX" using ok by (simp_all add: mem_ok_def)
  then obtain d where d: "bm_block m = Some d" "length d = bm_max m" "bm_off m = 0" "bm_length m \<le> bm_max m"
    using n by (auto simp: buf_ok_def split: option.splits)
  define ys where "ys = take (bm_length m - n) (drop n d)"
  have ys: "length ys = bm_length m - n" "length ys \<le> length d" using d n by (simp_all add: ys_def)
  define m' where "m' = m\<lparr>bm_block := Some (overwrite d 0 ys), bm_length := bm_length m - n\<rparr>"
  have "mem_consume ro n m = Some (take n (bm_contents m), m')"
  proof (cases "ys = []")
    case True
    then have "overwrite d 0 ys = d" by (simp add: overwrite_def)
    then show ?thesis using False bm_read_ok [OF ok n(2)] d True ys
      by (simp add: mem_consume_def bm_write_def m'_def ys_def)
  next
    case False
    then show ?thesis using \<open>\<not> ro\<close> bm_read_ok [OF ok n(2)] d ys
      by (auto simp add: mem_consume_def bm_write_def m'_def Let_def simp flip: ys_def)
  qed
  moreover have "mem_ok ro m'"
    using False b d ys by (simp add: mem_ok_def buf_ok_def m'_def overwrite_length)
  moreover have "take (bm_length m - n) (overwrite d 0 ys) = ys"
    using overwrite_take [of 0 ys d] ys by simp
  then have "bm_contents m' = drop n (bm_contents m)"
    using d by (simp add: bm_contents_def m'_def ys_def drop_take)
  ultimately show ?thesis by blast
qed

lemma mem_read_ok:
  assumes ok: "obj_ok b" "bio_meth b = Some mem_method" and len: "0 < len" "len \<le> int INT_MAX"
  shows "\<exists>b'. obj_ok b' \<and> bio_meth b' = bio_meth b \<and> init b' \<and>
    (let n = min (nat len) (length (mem_view b)) in
     mem_read b len = Some (if mem_view b = [] then num b else int n, take n (mem_view b), b') \<and>
     mem_view b' = drop n (mem_view b)) \<and> num b' = num b"
proof -
  obtain m where m: "ptr b = Ptr_mem m" "mem_ok (mem_rdonly b) m" "init b" "mem_ptr b = Some m"
    by (rule obj_ok_mem [OF ok])
  have v: "mem_view b = bm_contents m" "length (bm_contents m) = bm_length m"
    using m mem_ok_length by (simp_all add: mem_view_def)
  define n where "n = min (nat len) (bm_length m)"
  define ret where "ret = (if bm_length m < INT_MAX \<and> len > int (bm_length m) then int (bm_length m) else len)"
  have ret: "nat ret = n" "ret = int n" using len by (auto simp: ret_def n_def)
  have unf: "mem_read b len = (
      if ret > 0 then do {
        (xs, m') \<leftarrow> mem_consume (mem_rdonly b) (nat ret) m;
        Some (ret, xs, (BIO_clear_retry_flags b)\<lparr>ptr := Ptr_mem m'\<rparr>)
      }
      else if bm_length m = 0 then
        Some (num b, [], if num b \<noteq> 0 then BIO_set_retry_read (BIO_clear_retry_flags b)
          else BIO_clear_retry_flags b)
      else Some (ret, [], BIO_clear_retry_flags b))"
    by (simp add: mem_read_def m(4) Let_def ret_def)
  show ?thesis
  proof (cases "bm_length m = 0")
    case True
    let ?b = "if num b \<noteq> 0 then BIO_set_retry_read (BIO_clear_retry_flags b) else BIO_clear_retry_flags b"
    have "mem_read b len = Some (num b, [], ?b)"
      using True ret(2) unfolding unf by (simp add: n_def)
    moreover have "obj_ok ?b" "bio_meth ?b = bio_meth b" "init ?b" "mem_view ?b = mem_view b" "num ?b = num b"
      using ok(1) m(3) by (simp_all add: mem_view_def)
    ultimately show ?thesis using True v by (intro exI [of _ ?b]) simp
  next
    case False
    have n: "0 < n" "n \<le> bm_length m" using False len by (simp_all add: n_def)
    obtain m' where c: "mem_consume (mem_rdonly b) n m = Some (take n (bm_contents m), m')"
      "mem_ok (mem_rdonly b) m'" "bm_contents m' = drop n (bm_contents m)"
      using mem_consume_ok [OF m(2) n] by blast
    let ?b = "(BIO_clear_retry_flags b)\<lparr>ptr := Ptr_mem m'\<rparr>"
    have "mem_read b len = Some (int n, take n (bm_contents m), ?b)"
      using n c ret unfolding unf by simp
    moreover have "obj_ok ?b"
      using ok(1) m(1) c(2) by (intro obj_ok_mem_ptr [where m = m]) simp_all
    ultimately show ?thesis using False v c(3) m(3)
      by (intro exI [of _ ?b]) (auto simp: mem_view_def Let_def n_def)
  qed
qed

lemma mem_write_ok:
  assumes ok: "obj_ok b" "bio_meth b = Some mem_method" and mc: "malloc_ok mc"
    and len: "0 < len" "len \<le> int INT_MAX" "nat len \<le> length xs"
  shows "\<exists>r b'. mem_write mc b xs len = Some (r, b') \<and> obj_ok b' \<and> bio_meth b' = bio_meth b \<and>
    mem_rdonly b' = mem_rdonly b \<and> bio_peer b' = bio_peer b \<and>
    (r = len \<and> \<not> mem_rdonly b \<and> mem_view b' = mem_view b @ take (nat len) xs \<or>
     r = -1 \<and> mem_view b' = mem_view b \<and>
       (mem_rdonly b \<or> INT_MAX < length (mem_view b) + nat len \<or>
        mc (growth_request (length (mem_view b) + nat len)) = None))"
proof -
  obtain m where m: "ptr b = Ptr_mem m" "mem_ok (mem_rdonly b) m" "init b" "mem_ptr b = Some m"
    by (rule obj_ok_mem [OF ok])
  show ?thesis
  proof (cases "mem_rdonly b")
    case True
    then show ?thesis using m ok by (simp add: mem_write_def)
  next
    case False
    let ?b = "BIO_clear_retry_flags b"
    have bm: "buf_ok m" "bm_length m \<le> INT_MAX" using m(2) False by (simp_all add: mem_ok_def)
    have blen: "int_of_size (bm_length m) = int (bm_length m)" using bm(2) by (rule int_of_size_small)
    have vl: "length (mem_view b) = bm_length m"
      using m(1) buf_ok_contents [OF bm(1)] by (simp add: mem_view_def)
    show ?thesis
    proof (cases "int INT_MAX - int (bm_length m) < len")
      case True
      then have "INT_MAX < bm_length m + nat len" using len(1) by linarith
      then show ?thesis using m ok False blen True vl
        by (intro exI [of _ "-1"] exI [of _ ?b]) (simp add: mem_write_def mem_view_def)
    next
      case le: False
      define n where "n = bm_length m + nat len"
      have n: "bm_length m \<le> n" "n < 2 ^ 63" "n \<le> INT_MAX" "n \<noteq> 0"
        using le len by (auto simp: n_def INT_MAX_def)
      have sz: "size_of_int (int (bm_length m) + len) = n" "size_of_int (int (bm_length m)) = bm_length m"
        "size_of_int len = nat len" "size_add (bm_length m) (nat len) = n"
        using n len by (simp_all add: n_def size_of_int_nat nat_add_distrib)
      obtain r m1 where g: "BUF_MEM_grow mc m n = Some (r, m1)" "buf_ok m1"
        "r = n \<and> bm_contents m1 = bm_contents m @ replicate (n - bm_length m) 0 \<and> bm_length m1 = n \<or>
         r = 0 \<and> m1 = m \<and> mc (growth_request n) = None" using grow_ok [OF bm(1) mc n(1,2)] by blast
      show ?thesis
      proof (cases "r = n")
        case False
        then have "r = 0" "m1 = m" "mc (growth_request n) = None" using g(3) by blast+
        have "mem_write mc b xs len = Some (-1, ?b\<lparr>ptr := Ptr_mem m\<rparr>)"
          using \<open>\<not> mem_rdonly b\<close> m(4) le g(1) n \<open>r = 0\<close> \<open>m1 = m\<close>
          by (simp add: mem_write_def blen sz BUF_MEM_grow_clean_def Let_def)
        moreover have "obj_ok (?b\<lparr>ptr := Ptr_mem m\<rparr>)" "bio_peer (?b\<lparr>ptr := Ptr_mem m\<rparr>) = bio_peer b"
          "mem_view (?b\<lparr>ptr := Ptr_mem m\<rparr>) = mem_view b"
          using ok m by (simp_all add: obj_ok_mem_ptr bio_peer_def mem_view_def)
        ultimately show ?thesis using \<open>mc (growth_request n) = None\<close> vl
          by (intro exI [of _ "-1"] exI [of _ "?b\<lparr>ptr := Ptr_mem m\<rparr>"]) (simp add: n_def)
      next
        case True
        then have m1: "bm_length m1 = n" "bm_contents m1 = bm_contents m @ replicate (n - bm_length m) 0"
          using g(3) n(4) by blast+
        define ys where "ys = take (nat len) xs"
        have ys: "length ys = nat len" "ys \<noteq> []" using len by (auto simp: ys_def)
        define m0 where "m0 = m1\<lparr>bm_length := bm_length m\<rparr>"
        have m0: "buf_ok m0" "bm_length m0 + length ys \<le> bm_max m0" "bm_contents m0 = bm_contents m"
          "m1 = m0\<lparr>bm_length := n\<rparr>"
        proof -
          show "buf_ok m0" "bm_length m0 + length ys \<le> bm_max m0" "m1 = m0\<lparr>bm_length := n\<rparr>"
            using g(2) m1(1) n ys by (auto simp add: m0_def buf_ok_def n_def split: option.splits)
          have "bm_contents m0 = take (bm_length m) (bm_contents m1)"
            using m1(1) n(1) by (simp add: m0_def bm_contents_def min.absorb1 split: option.split)
          then show "bm_contents m0 = bm_contents m" using buf_ok_contents [OF bm(1)] m1(2) by simp
        qed
        obtain m2 where w: "bm_write m0 (bm_length m0) ys = Some m2"
          "buf_ok (m2\<lparr>bm_length := bm_length m0 + length ys\<rparr>)"
          "bm_contents (m2\<lparr>bm_length := bm_length m0 + length ys\<rparr>) = bm_contents m0 @ ys"
          using write_end [OF m0(1,2)] by blast
        let ?m = "m2\<lparr>bm_length := n\<rparr>"
        have e: "bm_length m0 + length ys = n" using ys by (simp add: m0_def n_def)
        have "bm_write m1 (bm_length m) ys = Some ?m"
          using w(1) ys(2) unfolding m0(4)
          by (auto simp: bm_write_def m0_def split: option.splits if_splits)
        then have "mem_write mc b xs len = Some (len, ?b\<lparr>ptr := Ptr_mem ?m\<rparr>)"
          using \<open>\<not> mem_rdonly b\<close> m(4) le g(1) True
          by (simp add: mem_write_def blen sz BUF_MEM_grow_clean_def Let_def ys_def)
        moreover have "mem_ok (mem_rdonly b) ?m"
          using w(2) \<open>\<not> mem_rdonly b\<close> n(3) unfolding e by (simp add: mem_ok_def)
        then have "obj_ok (?b\<lparr>ptr := Ptr_mem ?m\<rparr>)" using ok m by (intro obj_ok_mem_ptr [where m = m]) simp_all
        moreover have "mem_view (?b\<lparr>ptr := Ptr_mem ?m\<rparr>) = mem_view b @ ys"
          using w(3) m(1) m0(3) unfolding e by (simp add: mem_view_def)
        moreover have "bio_peer (?b\<lparr>ptr := Ptr_mem ?m\<rparr>) = bio_peer b" using m(1) by (simp add: bio_peer_def)
        ultimately show ?thesis using False
          by (intro exI [of _ len] exI [of _ "?b\<lparr>ptr := Ptr_mem ?m\<rparr>"]) (simp add: ys_def)
      qed
    qed
  qed
qed

end
