(* ===== verification/BioSafe.thy ===== *)
theory BioSafe
  imports BioMem
begin

text \<open>
  The operations on every \<open>BIO\<close> in a well-formed heap: what \<open>BIO_read\<close> and \<open>BIO_write\<close> do to
  the stream behind an object, and that creation, control and release keep the heap well
  formed.
\<close>

section \<open>Streams\<close>

text \<open>What \<open>BIO_read\<close> on an object has still to deliver, and what it returns at the end.\<close>

definition source_stream :: "bios \<Rightarrow> nat \<Rightarrow> byte list" where
  "source_stream h a = (
     case pair_view h a of
       None \<Rightarrow> (case h a of None \<Rightarrow> [] | Some b \<Rightarrow> mem_view b)
     | Some e \<Rightarrow> (case pe_peer e of None \<Rightarrow> []
         | Some p \<Rightarrow> (case pair_view h p of None \<Rightarrow> [] | Some e' \<Rightarrow> pe_queue e')))"

definition source_eof :: "bios \<Rightarrow> nat \<Rightarrow> int" where
  "source_eof h a = (
     case pair_view h a of
       None \<Rightarrow> (case h a of None \<Rightarrow> -2 | Some b \<Rightarrow> num b)
     | Some e \<Rightarrow> (case pe_peer e of None \<Rightarrow> -2
         | Some p \<Rightarrow> (case pair_view h p of None \<Rightarrow> -2 | Some e' \<Rightarrow> if pe_closed e' then 0 else -1)))"

definition ready :: "bios \<Rightarrow> nat \<Rightarrow> bool" where
  "ready h a \<longleftrightarrow> (\<exists>b. h a = Some b \<and> init b)"

lemma view_mem: "obj_ok b \<Longrightarrow> bio_meth b = Some mem_method \<Longrightarrow> pair_ptr b = None"
  by (elim obj_ok_mem) (auto simp: pair_ptr_def)

lemma view_pair:
  assumes "bios_ok h" and "pair_view h a = Some e"
  obtains b r where "h a = Some b" and "bio_meth b = Some methods_biop" and "ptr b = Ptr_pair r"
    and "e = ring_view r" and "init b \<longleftrightarrow> pe_peer e \<noteq> None" and "bio_peer b = pe_peer e"
proof -
  obtain b r where b: "h a = Some b" "pair_ptr b = Some r" "e = ring_view r"
    using assms(2) by (auto simp: pair_view_def split: option.splits)
  note ok = bios_okD [OF assms(1) b(1)]
  have m: "bio_meth b = Some methods_biop"
    by (rule obj_ok_cases [OF ok]) (use view_mem [OF ok] b(2) in auto)
  obtain r' where "ptr b = Ptr_pair r'" "init b \<longleftrightarrow> rb_peer r' \<noteq> None" "pair_ptr b = Some r'"
    "bio_peer b = rb_peer r'" by (rule obj_ok_pair [OF ok m])
  then show ?thesis using that [OF b(1) m, of r] b by (simp add: ring_view_def)
qed

lemma map_fields_ok:
  assumes "bios_ok h" and f: "\<And>b. f b \<in> {b\<lparr>num_read := n b\<rparr>, b\<lparr>num_write := n b\<rparr>}"
  shows "bios_ok (h(a := map_option f (h a))) \<and> pair_view (h(a := map_option f (h a))) = pair_view h \<and>
    map_option mem_view ((h(a := map_option f (h a))) x) = map_option mem_view (h x) \<and>
    map_option num ((h(a := map_option f (h a))) x) = map_option num (h x) \<and>
    ready (h(a := map_option f (h a))) x = ready h x"
proof (cases "h a")
  case None
  then show ?thesis using assms(1) by (simp add: fun_upd_idem)
next
  case (Some b)
  have s: "ptr (f b) = ptr b" "obj_ok (f b) = obj_ok b" "bio_peer (f b) = bio_peer b"
    "num (f b) = num b" "init (f b) = init b"
    using f [of b] by auto
  then show ?thesis
    using bios_ok_update [OF assms(1) Some, of "f b"] bios_okD [OF assms(1) Some]
      view_same [of h a b "f b", OF Some] Some by (simp add: mem_view_def ready_def)
qed

lemma stream_cong:
  assumes "pair_view h' = pair_view h" and "map_option mem_view (h' a) = map_option mem_view (h a)"
    and "map_option num (h' a) = map_option num (h a)"
  shows "source_stream h' a = source_stream h a \<and> source_eof h' a = source_eof h a"
  using assms by (cases "h a"; cases "h' a") (simp_all add: source_stream_def source_eof_def split: option.split)

text \<open>The dispatch to the method, before the count of bytes is updated.\<close>

lemma bread_ok:
  assumes ok: "bios_ok h" and b: "h a = Some b" "init b" and len: "0 < len" "len \<le> int INT_MAX"
  shows "\<exists>meth h'. bio_meth b = Some meth \<and> bios_ok h' \<and> ready h' a \<and>
    (let n = min (nat len) (length (source_stream h a)) in
     bread a meth True len h = Some (if source_stream h a = [] then source_eof h a else int n,
       take n (source_stream h a), h') \<and>
     source_stream h' a = drop n (source_stream h a)) \<and> source_eof h' a = source_eof h a"
proof (rule obj_ok_cases [OF bios_okD [OF ok b(1)]])
  assume m: "bio_meth b = Some mem_method"
  note objb = bios_okD [OF ok b(1)]
  have v: "pair_view h a = None" using view_mem [OF objb m] b(1) by (simp add: pair_view_def)
  then have s: "source_stream h a = mem_view b" "source_eof h a = num b"
    using b(1) by (simp_all add: source_stream_def source_eof_def)
  define n where "n = min (nat len) (length (mem_view b))"
  obtain b' where r: "obj_ok b'" "bio_meth b' = bio_meth b" "init b'" "num b' = num b"
    "mem_read b len = Some (if mem_view b = [] then num b else int n, take n (mem_view b), b')"
    "mem_view b' = drop n (mem_view b)"
    using mem_read_ok [OF objb m len] unfolding n_def Let_def by blast
  have p: "pair_ptr b' = None" using view_mem [OF r(1)] r(2) m by simp
  then have "bios_ok (h(a \<mapsto> b'))" using view_mem [OF objb m]
    by (intro bios_ok_update [OF ok b(1) r(1)]) (auto simp: bio_peer_def pair_ptr_def split: bio_ptr.splits)
  moreover have "pair_view (h(a \<mapsto> b')) a = None" using p by (simp add: pair_view_def)
  then have "source_stream (h(a \<mapsto> b')) a = mem_view b'" "source_eof (h(a \<mapsto> b')) a = num b'"
    by (simp_all add: source_stream_def source_eof_def)
  moreover have "ready (h(a \<mapsto> b')) a" using r(3) by (simp add: ready_def)
  moreover have "bread a mem_method True len h =
      Some (if mem_view b = [] then num b else int n, take n (mem_view b), h(a \<mapsto> b'))"
    using b(1) r(5) by (simp add: bread_def)
  ultimately show ?thesis using m s r(4,6)
    by (intro exI [of _ mem_method] exI [of _ "h(a \<mapsto> b')"]) (simp add: Let_def n_def)
next
  assume m: "bio_meth b = Some methods_biop"
  obtain p e h' where r: "pair_view h p = Some e" "bio_peer b = Some p" "bios_ok h'"
    "let n = min (nat len) (length (pe_queue e)) in
     bio_read a True len h = Some (if pe_queue e = [] then if pe_closed e then 0 else -1 else int n,
       take n (pe_queue e), h') \<and>
     pair_view h' = (pair_view h)(p \<mapsto> e\<lparr>pe_queue := drop n (pe_queue e)\<rparr>)"
    using bio_read_ok [OF ok b(1) m b(2) len] by blast
  obtain r0 where r0: "pair_ptr b = Some r0" "bio_peer b = rb_peer r0"
    by (rule obj_ok_pair [OF bios_okD [OF ok b(1)] m])
  have v: "pair_view h a = Some (ring_view r0)" "pe_peer (ring_view r0) = Some p"
    using b(1) r0 r(2) by (simp_all add: view_ring ring_view_def)
  have pa: "p \<noteq> a" using peer_ok [OF ok b(1) r(2)] by blast
  define n where "n = min (nat len) (length (pe_queue e))"
  have v': "pair_view h' a = Some (ring_view r0)" "pair_view h' p = Some (e\<lparr>pe_queue := drop n (pe_queue e)\<rparr>)"
    using r(4) v(1) pa by (simp_all add: n_def Let_def)
  have "ready h' a" using view_pair [OF r(3) v'(1)] v(2) unfolding ready_def by blast
  moreover have "source_stream h a = pe_queue e" "source_eof h a = (if pe_closed e then 0 else -1)"
    "source_stream h' a = drop n (pe_queue e)" "source_eof h' a = (if pe_closed e then 0 else -1)"
    using v v' r(1) by (simp_all add: source_stream_def source_eof_def)
  ultimately show ?thesis using m r(3,4)
    by (intro exI [of _ methods_biop] exI [of _ h']) (simp add: bread_def Let_def n_def)
qed

lemma BIO_read_ok:
  assumes ok: "bios_ok h" and rdy: "ready h a" and len: "0 < len" "len \<le> int INT_MAX"
    and n: "n = min (nat len) (length (source_stream h a))"
  shows "\<exists>h'. BIO_read (Some a) len h = Some (if source_stream h a = [] then source_eof h a else int n,
      take n (source_stream h a), h') \<and> bios_ok h' \<and> ready h' a \<and>
    source_stream h' a = drop n (source_stream h a) \<and> source_eof h' a = source_eof h a"
proof -
  obtain b where b: "h a = Some b" "init b" using rdy by (auto simp: ready_def)
  define ret where "ret = (if source_stream h a = [] then source_eof h a else int n)"
  obtain meth h1 where r: "bio_meth b = Some meth" "bios_ok h1" "ready h1 a"
    "bread a meth True len h = Some (ret, take n (source_stream h a), h1)"
    "source_stream h1 a = drop n (source_stream h a)" "source_eof h1 a = source_eof h a"
    using bread_ok [OF ok b len] unfolding Let_def n [symmetric] ret_def by blast
  define f :: "bio \<Rightarrow> bio" where "f = (\<lambda>b. b\<lparr>num_read := size_add (num_read b) (nat ret)\<rparr>)"
  define h2 where "h2 = (if ret > 0 then h1(a := map_option f (h1 a)) else h1)"
  have "bios_ok h2 \<and> ready h2 a \<and> source_stream h2 a = source_stream h1 a \<and> source_eof h2 a = source_eof h1 a"
  proof (cases "ret > 0")
    case True
    have "\<And>b. f b \<in> {b\<lparr>num_read := size_add (num_read b) (nat ret)\<rparr>, b\<lparr>num_write := size_add (num_read b) (nat ret)\<rparr>}"
      by (simp add: f_def)
    from map_fields_ok [OF r(2) this, of a a] stream_cong [of h2 h1 a] r(3) True show ?thesis
      by (simp add: h2_def)
  qed (use r in \<open>simp add: h2_def\<close>)
  moreover have "BIO_read (Some a) len h = Some (ret, take n (source_stream h a), h2)"
    using b r(1,4) len(1) by (simp add: BIO_read_def h2_def f_def)
  ultimately show ?thesis using r(5,6) unfolding ret_def by auto
qed

lemma BIO_read_total:
  assumes ok: "bios_ok h" and a: "h a \<noteq> None" and len: "len \<le> int INT_MAX"
  shows "\<exists>r xs h'. BIO_read (Some a) len h = Some (r, xs, h') \<and> bios_ok h'"
proof -
  obtain b where b: "h a = Some b" using a by blast
  show ?thesis
  proof (cases "init b \<and> 0 < len")
    case True
    then show ?thesis using BIO_read_ok [OF ok _ _ len refl, of a] b by (fastforce simp: ready_def)
  next
    case False
    then show ?thesis using ok b by (auto simp: BIO_read_def split: option.split)
  qed
qed

section \<open>Writing\<close>

lemma BIO_write_total:
  assumes ok: "bios_ok h" and a: "h a \<noteq> None" and mc: "malloc_ok mc"
    and len: "len \<le> int INT_MAX" "nat len \<le> length xs"
  shows "\<exists>r h'. BIO_write mc (Some a) xs len h = Some (r, h') \<and> bios_ok h'"
proof -
  obtain b where b: "h a = Some b" using a by blast
  note objb = bios_okD [OF ok b]
  show ?thesis
  proof (cases "init b \<and> 0 < len")
    case False
    then show ?thesis using ok b by (auto simp: BIO_write_def split: option.split)
  next
    case True
    have "\<exists>meth r h'. bio_meth b = Some meth \<and> bwrite mc a meth xs len h = Some (r, h') \<and> bios_ok h'"
    proof (rule obj_ok_cases [OF objb])
      assume m: "bio_meth b = Some mem_method"
      obtain r b' where w: "mem_write mc b xs len = Some (r, b')" "obj_ok b'" "bio_peer b' = bio_peer b"
        using mem_write_ok [OF objb m mc _ len] True by blast
      then show ?thesis using m b bios_ok_update [OF ok b w(2,3)]
        by (intro exI [of _ mem_method] exI [of _ r] exI [of _ "h(a \<mapsto> b')"]) (simp add: bwrite_def)
    next
      assume m: "bio_meth b = Some methods_biop"
      obtain e h' where "bios_ok h'"
        "let n = min (nat len) (pe_capacity e - length (pe_queue e)) in
          if pe_closed e \<or> n = 0 then bio_write a (Some xs) len h = Some (-1, h') \<and> pair_view h' = pair_view h
          else bio_write a (Some xs) len h = Some (int n, h') \<and>
            pair_view h' = (pair_view h)(a \<mapsto> e\<lparr>pe_queue := pe_queue e @ take n xs\<rparr>)"
        using bio_write_ok [OF ok b m _ _ len] True by blast
      then show ?thesis using m
        by (intro exI [of _ methods_biop]) (auto simp: bwrite_def Let_def split: if_splits)
    qed
    then obtain meth r h1 where r: "bio_meth b = Some meth" "bwrite mc a meth xs len h = Some (r, h1)" "bios_ok h1"
      by blast
    define f :: "bio \<Rightarrow> bio" where "f = (\<lambda>b. b\<lparr>num_write := size_add (num_write b) (nat r)\<rparr>)"
    have "\<And>b. f b \<in> {b\<lparr>num_read := size_add (num_write b) (nat r)\<rparr>, b\<lparr>num_write := size_add (num_write b) (nat r)\<rparr>}"
      by (simp add: f_def)
    from map_fields_ok [OF r(3) this, of a a] r(3)
    have "bios_ok (if r > 0 then h1(a := map_option f (h1 a)) else h1)" by simp
    then show ?thesis using b r(1,2) True by (auto simp add: BIO_write_def f_def split: if_splits)
  qed
qed

section \<open>Lines, control and reference counts\<close>

lemma line_length_le: "line_length xs \<le> length xs"
  by (induction xs) auto

lemma line_length_bound: "xs \<noteq> [] \<Longrightarrow> 0 < line_length xs \<and> line_length xs \<le> length xs"
  using line_length_le [of xs] by (cases xs) auto

lemma int_of_size_le: "int_of_size n \<le> int n"
proof (cases "n \<le> INT_MAX")
  case False
  have "int_of_size n < 2 ^ 31" unfolding int_of_size_def using sint_lt [of "of_nat n :: 32 word"] by simp
  then show ?thesis using False by (simp add: INT_MAX_def)
qed (simp add: int_of_size_small)

lemma BIO_gets_total:
  assumes ok: "bios_ok h" and a: "h a \<noteq> None" and len: "len \<le> int INT_MAX"
  shows "\<exists>r xs h'. BIO_gets (Some a) len h = Some (r, xs, h') \<and> bios_ok h'"
proof -
  obtain b where b: "h a = Some b" using a by blast
  note objb = bios_okD [OF ok b]
  show ?thesis
  proof (cases "bio_meth b = Some mem_method \<and> init b \<and> 0 < len")
    case False
    then show ?thesis using ok b by (auto simp: BIO_gets_def split: option.split bio_method.split)
  next
    case True
    then have m: "bio_meth b = Some mem_method" by blast
    obtain mm where mm: "ptr b = Ptr_mem mm" "mem_ok (mem_rdonly b) mm" "mem_ptr b = Some mm"
      by (rule obj_ok_mem [OF objb m])
    have "\<exists>i xs b'. mem_gets b len = Some (i, xs, b') \<and> obj_ok b' \<and> bio_meth b' = bio_meth b"
    proof (cases "len - 1 \<le> 0 \<or> int_of_size (bm_length mm) \<le> 0")
      case True
      then have "mem_gets b len = Some (0, if len > 0 then [0] else [], BIO_clear_retry_flags b)"
        using mm(3) by (auto simp: mem_gets_def Let_def)
      then show ?thesis using objb by simp
    next
      case False
      define j where "j = (if len - 1 < int_of_size (bm_length mm) then len - 1 else int_of_size (bm_length mm))"
      have "int_of_size (bm_length mm) \<le> int (bm_length mm)" by (rule int_of_size_le)
      then have j: "0 < j" "nat j \<le> bm_length mm" "j \<le> int INT_MAX"
        using False len by (auto simp: j_def)
      define p where "p = take (nat j) (bm_contents mm)"
      have p: "p \<noteq> []" "length p = nat j" using j mem_ok_length [OF mm(2)] by (auto simp: p_def)
      have l: "0 < line_length p" "line_length p \<le> nat j" using line_length_bound [OF p(1)] p(2) by auto
      have oc: "obj_ok (BIO_clear_retry_flags b)" "bio_meth (BIO_clear_retry_flags b) = Some mem_method"
        using objb m by simp_all
      obtain b' i xs where r: "obj_ok b'" "bio_meth b' = bio_meth b"
        "mem_read (BIO_clear_retry_flags b) (int (line_length p)) = Some (i, xs, b')"
        using mem_read_ok [OF oc, of "int (line_length p)"] l j m by (fastforce simp: Let_def)
      have "mem_gets b len = Some (i, if i > 0 then xs @ [0] else xs, b')"
        using mm(3) bm_read_ok [OF mm(2) j(2)] r(3) j(1)
        by (simp add: mem_gets_def Let_def flip: j_def p_def)
      then show ?thesis using r(1,2) by blast
    qed
    then obtain i xs b' where g: "mem_gets b len = Some (i, xs, b')" "obj_ok b'" "bio_meth b' = bio_meth b"
      by blast
    define b2 where "b2 = (if i > 0 then b'\<lparr>num_read := size_add (num_read b') (nat i)\<rparr> else b')"
    have "obj_ok b2" "bio_meth b2 = Some mem_method" using g m by (simp_all add: b2_def)
    then have "bio_peer b2 = bio_peer b"
      using objb m by (elim obj_ok_mem) (auto simp: bio_peer_def)
    then have "bios_ok (h(a \<mapsto> b2))" using bios_ok_update [OF ok b \<open>obj_ok b2\<close>] by simp
    then show ?thesis using True b g(1) by (simp add: BIO_gets_def b2_def)
  qed
qed

end
