(* ===== verification/BioHeap.thy ===== *)
theory BioHeap
  imports BioSafe
begin

text \<open>
  Control, creation and release keep a heap of \<open>BIO\<close>s well formed; the reachable heaps, and
  the guarantee that no operation on them is undefined.
\<close>

section \<open>Control\<close>

lemma mem_reset_ok:
  assumes ok: "obj_ok b" and m: "ptr b = Ptr_mem m" "mem_ok (mem_rdonly b) m"
  shows "\<exists>b'. mem_reset b m = Some b' \<and> obj_ok b' \<and> bio_peer b' = bio_peer b"
proof -
  consider "bm_block m = None" | d where "bm_block m = Some d" "mem_rdonly b"
    | d where "bm_block m = Some d" "\<not> mem_rdonly b" by (cases "bm_block m") auto
  then show ?thesis
  proof cases
    case 1
    then show ?thesis using ok by (simp add: mem_reset_def)
  next
    case 2
    let ?m = "m\<lparr>bm_off := bm_off m - (bm_max m - bm_length m), bm_length := bm_max m\<rparr>"
    have "mem_ok (mem_rdonly b) ?m" using m(2) 2 by (auto simp: mem_ok_def)
    then have "obj_ok (b\<lparr>ptr := Ptr_mem ?m\<rparr>)" by (rule obj_ok_mem_ptr [OF ok m(1)])
    then show ?thesis using 2 m(1) by (simp add: mem_reset_def bio_peer_def)
  next
    case 3
    then have b: "buf_ok m" using m(2) by (simp add: mem_ok_def)
    then have d: "length d = bm_max m" "bm_off m = 0" using 3 by (simp_all add: buf_ok_def)
    obtain m' where w: "bm_write m 0 (replicate (bm_max m) 0) = Some m'" "buf_ok (m'\<lparr>bm_length := 0\<rparr>)"
    proof (cases "bm_max m = 0")
      case True
      then show ?thesis using that [of m] 3 d by (simp add: bm_write_def buf_ok_def)
    next
      case False
      then show ?thesis using that 3 d by (simp add: bm_write_def buf_ok_def overwrite_length)
    qed
    then have "mem_ok (mem_rdonly b) (m'\<lparr>bm_length := 0\<rparr>)" using 3 by (simp add: mem_ok_def)
    then have "obj_ok (b\<lparr>ptr := Ptr_mem (m'\<lparr>bm_length := 0\<rparr>)\<rparr>)" by (rule obj_ok_mem_ptr [OF ok m(1)])
    then show ?thesis using 3 w(1) m(1) by (simp add: mem_reset_def bio_peer_def)
  qed
qed

text \<open>
  The arguments that the documented use of a command allows: a buffer to install is well
  formed and the object not read-only, and the other end of a pair is alive.
\<close>

definition ctrl_arg_ok :: "bios \<Rightarrow> nat \<Rightarrow> bio_cmd \<Rightarrow> ctrl_arg \<Rightarrow> bool" where
  "ctrl_arg_ok h a cmd arg \<longleftrightarrow>
     (case h a of
        None \<Rightarrow> False
      | Some b \<Rightarrow>
          (case cmd of
             BIO_C_SET_BUF_MEM \<Rightarrow> bio_meth b = Some mem_method \<longrightarrow> \<not> mem_rdonly b \<and>
               (case arg of Arg_mem m \<Rightarrow> mem_ok False m | _ \<Rightarrow> False)
           | BIO_CTRL_EOF \<Rightarrow> bio_meth b = Some methods_biop \<longrightarrow>
               (case arg of Arg_null \<Rightarrow> True | Arg_bio p \<Rightarrow> pair_view h p \<noteq> None | _ \<Rightarrow> False)
           | _ \<Rightarrow> True))"

lemma mem_ctrl_total:
  assumes ok: "obj_ok b" "bio_meth b = Some mem_method" and h: "h a = Some b" "ctrl_arg_ok h a cmd arg"
  shows "\<exists>r out b'. mem_ctrl b cmd n arg = Some (r, out, b') \<and> obj_ok b' \<and> bio_peer b' = bio_peer b"
proof -
  obtain m where m: "ptr b = Ptr_mem m" "mem_ok (mem_rdonly b) m" "init b" "mem_ptr b = Some m"
    by (rule obj_ok_mem [OF ok])
  show ?thesis
  proof (cases "cmd = BIO_CTRL_RESET \<or> cmd = BIO_C_SET_BUF_MEM")
    case False
    then show ?thesis using ok(1) m(4) by (cases cmd) simp_all
  next
    case True
    then consider "cmd = BIO_CTRL_RESET" | "cmd = BIO_C_SET_BUF_MEM" by blast
    then show ?thesis
    proof cases
      case 1
      then show ?thesis using mem_reset_ok [OF ok(1) m(1,2)] m(4) by auto
    next
      case 2
      then obtain m' where arg: "arg = Arg_mem m'" "mem_ok False m'" "\<not> mem_rdonly b"
        using h ok by (auto simp: ctrl_arg_ok_def split: ctrl_arg.splits)
      define b0 where "b0 = (snd (mem_free b))\<lparr>shutdown := int_of_long n\<rparr>"
      have e: "b0\<lparr>ptr := Ptr_mem m'\<rparr> = b\<lparr>shutdown := int_of_long n, ptr := Ptr_mem m'\<rparr>"
        by (simp add: b0_def mem_free_def)
      have "obj_ok (b\<lparr>shutdown := int_of_long n, ptr := Ptr_mem m'\<rparr>)"
        using ok(1) m(1) arg by (intro obj_ok_mem_ptr [where m = m]) simp_all
      then show ?thesis using 2 m arg(1) by (simp add: Let_def bio_peer_def flip: b0_def e)
    qed
  qed
qed

lemma BIO_ctrl_total:
  assumes ok: "bios_ok h" and a: "h a \<noteq> None" and arg: "ctrl_arg_ok h a cmd arg"
  shows "\<exists>r out h'. BIO_ctrl (Some a) cmd n arg h = Some (r, out, h') \<and> bios_ok h'"
proof -
  obtain b where b: "h a = Some b" using a by blast
  note objb = bios_okD [OF ok b]
  show ?thesis
  proof (rule obj_ok_cases [OF objb])
    assume m: "bio_meth b = Some mem_method"
    obtain r out b' where c: "mem_ctrl b cmd n arg = Some (r, out, b')" "obj_ok b'" "bio_peer b' = bio_peer b"
      using mem_ctrl_total [OF objb m b arg] by blast
    then show ?thesis using b m bios_ok_update [OF ok b c(2,3)] by (simp add: BIO_ctrl_def del: mem_ctrl.simps)
  next
    assume m: "bio_meth b = Some methods_biop"
    obtain r where r: "ptr b = Ptr_pair r" "ring_ok r" "pair_ptr b = Some r" "bio_peer b = rb_peer r"
      by (rule obj_ok_pair [OF objb m])
    have ring: "bios_ok (set_ring a (r\<lparr>rb_request := 0\<rparr>) h)" "bios_ok (set_ring a (r\<lparr>rb_closed := True\<rparr>) h)"
      using set_ring_ok [OF ok b r(1)] r(2) by simp_all
    have "bios_ok (h(a \<mapsto> b\<lparr>shutdown := int_of_long n\<rparr>))" using bios_ok_update [OF ok b] objb by simp
    moreover have "\<exists>pb pr. h p = Some pb \<and> pair_ptr pb = Some pr" if "rb_peer r = Some p" for p
      using peer_ok [OF ok b, of p] that r(4) by metis
    moreover have "\<exists>pb pr. h p = Some pb \<and> pair_ptr pb = Some pr" if "pair_view h p \<noteq> None" for p
      using that by (auto simp: pair_view_def split: option.splits)
    ultimately have "\<exists>x h'. bio_ctrl a cmd n arg h = Some (x, h') \<and> bios_ok h'"
      using b r(3) ok m arg ring
      by (cases cmd) (fastforce simp: bio_ctrl_def ctrl_arg_ok_def split: ctrl_arg.splits option.splits)+
    then show ?thesis using b m by (auto simp: BIO_ctrl_def)
  qed
qed

section \<open>Reference counts and release\<close>

lemma obj_ok_references: "obj_ok b \<Longrightarrow> c \<noteq> 0 \<Longrightarrow> obj_ok (b\<lparr>bio_references := c\<rparr>)"
  by (simp add: obj_ok_def cong: option.case_cong bio_method.case_cong)

lemma BIO_up_ref_total:
  assumes ok: "bios_ok h" and a: "h a \<noteq> None"
  shows "\<exists>h'. BIO_up_ref a h = Some (True, h') \<and> bios_ok h'"
proof -
  obtain b where b: "h a = Some b" using a by blast
  have "bio_references b \<noteq> 0" using bios_okD [OF ok b] by (simp add: obj_ok_def)
  then have "CRYPTO_refcount_inc (bio_references b) \<noteq> 0"
    by (auto simp: CRYPTO_refcount_inc_def CRYPTO_REFCOUNT_MAX_def word_less_nat_alt
        dest: arg_cong [of _ _ unat] simp: unat_word_ariths)
  then have "bios_ok (h(a \<mapsto> b\<lparr>bio_references := CRYPTO_refcount_inc (bio_references b)\<rparr>))"
    using bios_ok_update [OF ok b] obj_ok_references bios_okD [OF ok b] by simp
  then show ?thesis using b by (simp add: BIO_up_ref_def)
qed

lemma peer_of_upd: "peer_of (h(a \<mapsto> b)) = (peer_of h)(a := bio_peer b)"
  by (auto simp: peer_of_def fun_eq_iff)

lemma peers_disconnect:
  assumes "peers_ok f" and "f a = Some p"
  shows "peers_ok (f(p := None, a := None))"
  using assms unfolding peers_ok_def fun_upd_def by (metis option.distinct(1) option.inject)

lemma disconnect_ok:
  assumes "obj_ok b" and "ptr b = Ptr_pair r" and "bio_meth b = Some methods_biop" and "ring_ok r"
  shows "\<exists>b'. bio_disconnect b = Some b' \<and> obj_ok b' \<and> bio_peer b' = None \<and> pair_ptr b' \<noteq> None"
  using assms by (auto simp: bio_disconnect_def pair_ptr_def ring_ok_def obj_ok_def bio_peer_def)

lemma disconnect_Some: "pair_ptr b = Some r \<Longrightarrow> ring_ok r \<Longrightarrow> \<exists>b'. bio_disconnect b = Some b' \<and> pair_ptr b' \<noteq> None"
  by (auto simp: bio_disconnect_def pair_ptr_def ring_ok_def)

lemma bio_free_ok:
  assumes ok: "bios_ok h" and b: "h a = Some b" "bio_meth b = Some methods_biop"
    and b0: "ptr b0 = ptr b"
  shows "\<exists>h'. bio_free a (h(a \<mapsto> b0)) = Some h' \<and> bios_ok (h'(a := None))"
proof -
  note objb = bios_okD [OF ok b(1)]
  obtain r where r: "ptr b = Ptr_pair r" "ring_ok r" "pair_ptr b = Some r" "bio_peer b = rb_peer r"
    by (rule obj_ok_pair [OF objb b(2)])
  have r0: "pair_ptr b0 = Some r" using r(3) b0 pair_ptr_same by metis
  show ?thesis
  proof (cases "rb_peer r")
    case None
    then have "bios_ok (h(a := None))" using bios_ok_remove [OF ok] b(1) r(4) by (simp add: peer_of_def)
    then show ?thesis using None r0 by (simp add: bio_free_def)
  next
    case (Some p)
    obtain pb pr where pb: "p \<noteq> a" "h p = Some pb" "bio_meth pb = Some methods_biop" "obj_ok pb"
      "ptr pb = Ptr_pair pr" "pair_ptr pb = Some pr" "ring_ok pr" "rb_peer pr = Some a"
      using peer_ok [OF ok b(1), of p] r(4) Some by metis
    obtain b' where b': "bio_disconnect b0 = Some b'"
      using disconnect_Some [OF r0 r(2)] by blast
    obtain pb' where pb': "bio_disconnect pb = Some pb'" "obj_ok pb'" "bio_peer pb' = None"
      using disconnect_ok [OF pb(4,5,3,7)] by blast
    have "bio_destroy_pair a (h(a \<mapsto> b0)) = Some (h(a \<mapsto> b0, p \<mapsto> pb', a \<mapsto> b'))"
      using r0 Some pb b' pb'(1) by (simp add: bio_destroy_pair_def)
    moreover define h' where "h' = h(a \<mapsto> b0, p \<mapsto> pb', a \<mapsto> b'\<lparr>ptr := Ptr_null\<rparr>)"
    ultimately have "bio_free a (h(a \<mapsto> b0)) = Some h'"
      using r0 Some pb(1) by (simp add: bio_free_def)
    moreover have e: "h'(a := None) = h(p \<mapsto> pb', a := None)" using pb(1) by (auto simp: h'_def)
    have "peers_ok (peer_of (h'(a := None)))"
    proof -
      have "peer_of (h'(a := None)) = (peer_of h)(p := None, a := None)"
        unfolding e using pb'(3) by (auto simp: peer_of_def fun_eq_iff)
      moreover have "peer_of h a = Some p" using b(1) r(4) Some by (simp add: peer_of_def)
      ultimately show ?thesis using ok peers_disconnect by (simp add: bios_ok_def)
    qed
    then have "bios_ok (h'(a := None))" using ok pb'(2) by (simp add: bios_ok_def e)
    ultimately show ?thesis by blast
  qed
qed

text \<open>Releasing one reference to one object.\<close>

lemma BIO_free_total:
  assumes ok: "bios_ok h" and a: "h a \<noteq> None"
  shows "\<exists>r h'. BIO_free (Some a) h = Some (r, h') \<and> bios_ok h'"
proof -
  obtain b where b: "h a = Some b" using a by blast
  note objb = bios_okD [OF ok b]
  have nz: "bio_references b \<noteq> 0" "next_bio b = None" using objb by (simp_all add: obj_ok_def)
  then obtain zero n where d: "CRYPTO_refcount_dec_and_test_zero (bio_references b) = Some (zero, n)"
    "zero \<longleftrightarrow> n = 0" by (auto simp: CRYPTO_refcount_dec_and_test_zero_def Let_def)
  show ?thesis
  proof (cases zero)
    case False
    then have "bios_ok (h(a \<mapsto> b\<lparr>bio_references := n\<rparr>))"
      using bios_ok_update [OF ok b] obj_ok_references [OF objb] d(2) by simp
    then show ?thesis using b d(1) False by (intro exI [of _ False]) (subst BIO_free.simps, simp)
  next
    case True
    let ?b = "b\<lparr>bio_references := n, next_bio := None\<rparr>"
    have eq: "BIO_free (Some a) h =
        Option.bind (BIO_destroy a (h(a \<mapsto> ?b))) (\<lambda>h. Some (True, h(a := None)))"
      using b d(1) True nz by (subst BIO_free.simps, subst BIO_free.simps) (simp add: BIO_pop_def)
    show ?thesis
    proof (rule obj_ok_cases [OF objb])
      assume m: "bio_meth b = Some mem_method"
      then have p: "peer_of h a = None"
        using objb b by (elim obj_ok_mem) (auto simp: peer_of_def bio_peer_def)
      have "BIO_free (Some a) h = Some (True, h(a := None))"
        using m by (simp add: eq BIO_destroy_def)
      then show ?thesis using bios_ok_remove [OF ok p] by blast
    next
      assume m: "bio_meth b = Some methods_biop"
      obtain h' where "bio_free a (h(a \<mapsto> ?b)) = Some h'" "bios_ok (h'(a := None))"
        using bio_free_ok [OF ok b m, of ?b] by auto
      then show ?thesis using m by (intro exI [of _ True]) (simp add: eq BIO_destroy_def)
    qed
  qed
qed

section \<open>Creation\<close>

definition new_pair_end :: bio where
  "new_pair_end = \<lparr>bio_meth = Some methods_biop, init = False, shutdown = 1, flags = 0,
     retry_reason = 0, num = 0, bio_references = 1,
     ptr = Ptr_pair \<lparr>rb_peer = None, rb_closed = False, rb_len = 0, rb_offset = 0,
       rb_size = 17 * 1024, rb_buf = None, rb_request = 0\<rparr>,
     next_bio = None, num_read = 0, num_write = 0\<rparr>"

lemma BIO_new_pair_cases:
  "BIO_new methods_biop m1 m2 a h \<in> {(None, h), (Some a, h(a \<mapsto> new_pair_end))}"
  by (auto simp: BIO_new_def bio_new_def new_pair_end_def Let_def split: option.split)

lemma BIO_new_mem_cases:
  "BIO_new mem_method m1 m2 a h \<in> {(None, h), (Some a, h(a \<mapsto>
     \<lparr>bio_meth = Some mem_method, init = True, shutdown = 1, flags = 0, retry_reason = 0, num = -1,
      bio_references = 1, ptr = Ptr_mem \<lparr>bm_length = 0, bm_block = None, bm_off = 0, bm_max = 0\<rparr>,
      next_bio = None, num_read = 0, num_write = 0\<rparr>))}"
  by (auto simp: BIO_new_def mem_new_def BUF_MEM_new_def Let_def split: option.split)

lemma BIO_new_mem_ok:
  assumes "bios_ok h" and "h a = None"
  shows "bios_ok (snd (BIO_new mem_method m1 m2 a h))"
  using BIO_new_mem_cases [of m1 m2 a h] bios_ok_add [OF assms]
  by (auto simp: obj_ok_def mem_ok_def mem_rdonly_def buf_ok_def bio_peer_def assms(1))

lemma strlen_less: "strlen s = Some n \<Longrightarrow> n < length s"
  by (induction s arbitrary: n) (auto split: if_splits)

lemma BIO_new_mem_buf_ok:
  assumes ok: "bios_ok h" and a: "h a = None"
    and buf: "case buf of None \<Rightarrow> len = 0 | Some d \<Rightarrow> length d < 2 ^ 63 \<and>
      (if len < 0 then strlen d \<noteq> None else nat len \<le> length d)"
  shows "\<exists>r h'. BIO_new_mem_buf m1 m2 a buf len h = Some (r, h') \<and> bios_ok h'"
proof -
  obtain sz where sz: "(if len < 0 then Option.bind buf strlen else Some (nat len)) = Some sz"
    "case buf of None \<Rightarrow> sz = 0 | Some d \<Rightarrow> length d < 2 ^ 63 \<and> sz \<le> length d"
  proof (cases buf)
    case None
    then show ?thesis using that buf by simp
  next
    case (Some d)
    then show ?thesis using that buf strlen_less [of d] by (auto split: if_splits)
  qed
  have nn: "\<not> (buf = None \<and> len \<noteq> 0)" using buf by (auto split: option.splits)
  let ?m = "\<lparr>bm_length = sz, bm_block = buf, bm_off = 0, bm_max = sz\<rparr>"
  have "mem_ok True ?m" using sz(2) by (auto simp: mem_ok_def split: option.splits)
  then show ?thesis
    using BIO_new_mem_cases [of m1 m2 a h] sz(1) nn ok bios_ok_add [OF ok a]
    by (auto simp: BIO_new_mem_buf_def mem_ptr_def obj_ok_def mem_rdonly_def BIO_FLAGS_MEM_RDONLY_def
        bio_peer_def)
qed

text \<open>Freshly made ends that were not connected are released again.\<close>

lemma BIO_free_unconnected:
  assumes "h a = Some b" and "bio_references b = 1" and "next_bio b = None"
    and "bio_meth b = Some methods_biop" and "pair_ptr b = Some r" and "rb_peer r = None"
  shows "BIO_free (Some a) h = Some (True, h(a := None))"
proof -
  have d: "CRYPTO_refcount_dec_and_test_zero 1 = Some (True, 0)"
    by (simp add: CRYPTO_refcount_dec_and_test_zero_def CRYPTO_REFCOUNT_MAX_def Let_def)
  have p: "pair_ptr (b\<lparr>bio_references := 0, next_bio := None\<rparr>) = Some r"
    using assms(5) pair_ptr_same [of "b\<lparr>bio_references := 0, next_bio := None\<rparr>" b] by simp
  show ?thesis
    using assms d p
    by (subst BIO_free.simps, subst BIO_free.simps)
      (simp add: BIO_pop_def BIO_destroy_def bio_free_def)
qed

definition connected_end :: "nat \<Rightarrow> nat \<Rightarrow> byte list \<Rightarrow> bio" where
  "connected_end p sz d = new_pair_end\<lparr>init := True, ptr := Ptr_pair
     \<lparr>rb_peer = Some p, rb_closed = False, rb_len = 0, rb_offset = 0, rb_size = sz,
      rb_buf = Some d, rb_request = 0\<rparr>\<rparr>"

definition ring_size :: "nat \<Rightarrow> nat" where
  "ring_size writebuf_len = (if writebuf_len \<noteq> 0 then writebuf_len else 17 * 1024)"

lemma new_end_ptr [simp]:
  "pair_ptr new_pair_end = Some \<lparr>rb_peer = None, rb_closed = False, rb_len = 0, rb_offset = 0,
     rb_size = 17 * 1024, rb_buf = None, rb_request = 0\<rparr>"
  "bio_references new_pair_end = 1" "next_bio new_pair_end = None"
  "bio_meth new_pair_end = Some methods_biop"
  by (simp_all add: new_pair_end_def pair_ptr_def)

lemma make_buffer_cases:
  assumes "make_buffer m w \<lparr>rb_peer = None, rb_closed = False, rb_len = 0, rb_offset = 0,
     rb_size = 17 * 1024, rb_buf = None, rb_request = 0\<rparr> = (r, b')"
  shows "rb_peer b' = None \<and> (r \<longrightarrow> (\<exists>d. alloc_bytes m (ring_size w) = Some d \<and>
    b' = \<lparr>rb_peer = None, rb_closed = False, rb_len = 0, rb_offset = 0, rb_size = ring_size w,
      rb_buf = Some d, rb_request = 0\<rparr>))"
  using assms by (auto simp: make_buffer_def ring_size_def Let_def split: option.splits if_splits)

lemma BIO_new_bio_pair_cases:
  assumes fresh: "h a1 = None" "h a2 = None" "a1 \<noteq> a2"
  shows "BIO_new_bio_pair e1 e2 e3 a1 a2 w1 w2 h = Some (None, h) \<or>
    (\<exists>d1 d2. alloc_bytes (fst e3) (ring_size w1) = Some d1 \<and> alloc_bytes (snd e3) (ring_size w2) = Some d2 \<and>
      BIO_new_bio_pair e1 e2 e3 a1 a2 w1 w2 h = Some (Some (a1, a2),
        h(a1 \<mapsto> connected_end a2 (ring_size w1) d1, a2 \<mapsto> connected_end a1 (ring_size w2) d2)))"
proof -
  let ?h1 = "h(a1 \<mapsto> new_pair_end)"
  let ?h2 = "?h1(a2 \<mapsto> new_pair_end)"
  have gone: "h(a := None) = h" if "h a = None" for a using that by (auto simp: fun_eq_iff)
  have free1: "BIO_free (Some a1) ?h1 = Some (True, h)"
    using BIO_free_unconnected [of ?h1 a1 new_pair_end] gone [OF fresh(1)] by simp
  have free2: "BIO_free (Some a2) (h(a2 \<mapsto> new_pair_end)) = Some (True, h)"
    using BIO_free_unconnected [of "h(a2 \<mapsto> new_pair_end)" a2 new_pair_end] gone [OF fresh(2)] by simp
  have none: "BIO_free None g = Some (True, g)" for g by (subst BIO_free.simps) simp
  consider "BIO_new methods_biop (fst e1) (snd e1) a1 h = (None, h)"
      "BIO_new methods_biop (fst e2) (snd e2) a2 h = (None, h)"
    | "BIO_new methods_biop (fst e1) (snd e1) a1 h = (None, h)"
      "BIO_new methods_biop (fst e2) (snd e2) a2 h = (Some a2, h(a2 \<mapsto> new_pair_end))"
    | "BIO_new methods_biop (fst e1) (snd e1) a1 h = (Some a1, ?h1)"
      "BIO_new methods_biop (fst e2) (snd e2) a2 ?h1 = (None, ?h1)"
    | "BIO_new methods_biop (fst e1) (snd e1) a1 h = (Some a1, ?h1)"
      "BIO_new methods_biop (fst e2) (snd e2) a2 ?h1 = (Some a2, ?h2)"
    using BIO_new_pair_cases by (metis insertE singletonD)
  then show ?thesis
  proof cases
    case 4
    obtain r1 b1 where m1: "make_buffer (fst e3) w1 \<lparr>rb_peer = None, rb_closed = False, rb_len = 0,
        rb_offset = 0, rb_size = 17 * 1024, rb_buf = None, rb_request = 0\<rparr> = (r1, b1)" by fastforce
    obtain r2 b2 where m2: "make_buffer (snd e3) w2 \<lparr>rb_peer = None, rb_closed = False, rb_len = 0,
        rb_offset = 0, rb_size = 17 * 1024, rb_buf = None, rb_request = 0\<rparr> = (r2, b2)" by fastforce
    note q1 = make_buffer_cases [OF m1] and q2 = make_buffer_cases [OF m2]
    have mp: "bio_make_pair (fst e3) (snd e3) a1 a2 w1 w2 ?h2 =
        (if \<not> r1 then Some (False, set_ring a1 b1 ?h2)
         else if \<not> r2 then Some (False, set_ring a2 b2 (set_ring a1 b1 ?h2))
         else Some (True, ?h2(a1 \<mapsto> new_pair_end\<lparr>init := True, ptr := Ptr_pair
             (b1\<lparr>rb_peer := Some a2, rb_closed := False, rb_request := 0\<rparr>)\<rparr>,
           a2 \<mapsto> new_pair_end\<lparr>init := True, ptr := Ptr_pair
             (b2\<lparr>rb_peer := Some a1, rb_closed := False, rb_request := 0\<rparr>)\<rparr>)))"
      using fresh(3) m1 m2 by (auto simp: bio_make_pair_def split: bool.split)
    have free: "BIO_free (Some a1) (h(a1 \<mapsto> new_pair_end\<lparr>ptr := Ptr_pair c1\<rparr>, a2 \<mapsto> y)) =
        Some (True, h(a2 \<mapsto> y))" if "rb_peer c1 = None" for c1 y
    proof -
      have "(h(a1 \<mapsto> x, a2 \<mapsto> y))(a1 := None) = h(a2 \<mapsto> y)" for x
        using fresh by (auto simp: fun_eq_iff)
      then show ?thesis
        using BIO_free_unconnected [of "h(a1 \<mapsto> new_pair_end\<lparr>ptr := Ptr_pair c1\<rparr>, a2 \<mapsto> y)"
            a1 "new_pair_end\<lparr>ptr := Ptr_pair c1\<rparr>" c1] that fresh(3) by (simp add: pair_ptr_def)
    qed
    have free': "BIO_free (Some a2) (h(a2 \<mapsto> new_pair_end\<lparr>ptr := Ptr_pair c2\<rparr>)) = Some (True, h)"
      if "rb_peer c2 = None" for c2
      using BIO_free_unconnected [of "h(a2 \<mapsto> new_pair_end\<lparr>ptr := Ptr_pair c2\<rparr>)" a2
          "new_pair_end\<lparr>ptr := Ptr_pair c2\<rparr>" c2] that gone [OF fresh(2)] by (simp add: pair_ptr_def)
    have sr: "set_ring a1 c1 ?h2 = h(a1 \<mapsto> new_pair_end\<lparr>ptr := Ptr_pair c1\<rparr>, a2 \<mapsto> new_pair_end)"
      "set_ring a2 c2 (h(a1 \<mapsto> x, a2 \<mapsto> new_pair_end)) = h(a1 \<mapsto> x, a2 \<mapsto> new_pair_end\<lparr>ptr := Ptr_pair c2\<rparr>)"
      for c1 c2 x
      using fresh(3) by (auto simp: set_ring_def fun_eq_iff)
    consider "\<not> r1" | "r1" "\<not> r2" | "r1" "r2" by blast
    then show ?thesis
    proof cases
      case 1
      then show ?thesis using 4 mp q1 free [of b1] free2
        by (simp add: BIO_new_bio_pair_def sr)
    next
      case 2
      then show ?thesis using 4 mp q1 q2 free [of b1] free' [of b2]
        by (simp add: BIO_new_bio_pair_def sr)
    next
      case 3
      then obtain d1 d2 where d: "alloc_bytes (fst e3) (ring_size w1) = Some d1"
        "alloc_bytes (snd e3) (ring_size w2) = Some d2"
        "b1 = \<lparr>rb_peer = None, rb_closed = False, rb_len = 0, rb_offset = 0, rb_size = ring_size w1,
          rb_buf = Some d1, rb_request = 0\<rparr>"
        "b2 = \<lparr>rb_peer = None, rb_closed = False, rb_len = 0, rb_offset = 0, rb_size = ring_size w2,
          rb_buf = Some d2, rb_request = 0\<rparr>" using q1 q2 by blast
      have "BIO_new_bio_pair e1 e2 e3 a1 a2 w1 w2 h = Some (Some (a1, a2),
          h(a1 \<mapsto> connected_end a2 (ring_size w1) d1, a2 \<mapsto> connected_end a1 (ring_size w2) d2))"
        using 4 mp 3 d(3,4) fresh(3)
        by (simp add: BIO_new_bio_pair_def connected_end_def fun_upd_twist)
      then show ?thesis using d(1,2) by blast
    qed
  qed (simp_all add: BIO_new_bio_pair_def free1 free2 none)
qed

lemma BIO_new_bio_pair_ok:
  assumes ok: "bios_ok h" and fresh: "h a1 = None" "h a2 = None" "a1 \<noteq> a2"
    and m: "malloc_ok (fst e3)" "malloc_ok (snd e3)" and w: "w1 < 2 ^ 63" "w2 < 2 ^ 63"
  shows "\<exists>r h'. BIO_new_bio_pair e1 e2 e3 a1 a2 w1 w2 h = Some (r, h') \<and> bios_ok h'"
  using BIO_new_bio_pair_cases [OF fresh, of e1 e2 e3 w1 w2]
proof (elim disjE exE conjE)
  fix d1 d2 assume d: "alloc_bytes (fst e3) (ring_size w1) = Some d1"
    "alloc_bytes (snd e3) (ring_size w2) = Some d2"
    and r: "BIO_new_bio_pair e1 e2 e3 a1 a2 w1 w2 h = Some (Some (a1, a2),
        h(a1 \<mapsto> connected_end a2 (ring_size w1) d1, a2 \<mapsto> connected_end a1 (ring_size w2) d2))"
  have s: "0 < ring_size w" "ring_size w < 2 ^ 63" if "w < 2 ^ 63" for w
    using that by (simp_all add: ring_size_def)
  have e: "obj_ok (connected_end p sz d)" if "length d = sz" "0 < sz" "sz < 2 ^ 63" for p sz d
    using that by (simp add: connected_end_def obj_ok_def new_pair_end_def ring_ok_def)
  have p: "peer_of (h(a1 \<mapsto> connected_end a2 (ring_size w1) d1, a2 \<mapsto> connected_end a1 (ring_size w2) d2)) =
      (peer_of h)(a1 \<mapsto> a2, a2 \<mapsto> a1)"
    by (simp add: peer_of_upd connected_end_def bio_peer_def)
  have none: "peer_of h a1 = None" "peer_of h a2 = None" using fresh by (simp_all add: peer_of_def)
  have peers: "peers_ok ((peer_of h)(a1 \<mapsto> a2, a2 \<mapsto> a1))"
  proof -
    have f: "peers_ok (peer_of h)" using ok by (simp add: bios_ok_def)
    show ?thesis unfolding peers_ok_def
    proof (intro allI impI)
      fix a p assume a: "((peer_of h)(a1 \<mapsto> a2, a2 \<mapsto> a1)) a = Some p"
      consider "a = a1" | "a = a2" | "a \<noteq> a1" "a \<noteq> a2" by blast
      then show "p \<noteq> a \<and> ((peer_of h)(a1 \<mapsto> a2, a2 \<mapsto> a1)) p = Some a"
      proof cases
        case 3
        then have "peer_of h a = Some p" using a by simp
        then have q: "p \<noteq> a" "peer_of h p = Some a" using f unfolding peers_ok_def by blast+
        then have "p \<noteq> a1" "p \<noteq> a2" using none by auto
        then show ?thesis using q by simp
      qed (use a fresh(3) in auto)
    qed
  qed
  have "bios_ok (h(a1 \<mapsto> connected_end a2 (ring_size w1) d1, a2 \<mapsto> connected_end a1 (ring_size w2) d2))"
  proof -
    have "ring_size w1 + 8 < 2 ^ 64" "ring_size w2 + 8 < 2 ^ 64" using s [OF w(1)] s [OF w(2)] by simp_all
    then have "length d1 = ring_size w1" "length d2 = ring_size w2"
      using alloc_bytes_length [OF m(1) _ d(1)] alloc_bytes_length [OF m(2) _ d(2)] by blast+
    then have "obj_ok (connected_end a2 (ring_size w1) d1)" "obj_ok (connected_end a1 (ring_size w2) d2)"
      using e s [OF w(1)] s [OF w(2)] by blast+
    moreover have "\<forall>a b. h a = Some b \<longrightarrow> obj_ok b" using ok by (simp add: bios_ok_def)
    ultimately have "\<forall>a b. (h(a1 \<mapsto> connected_end a2 (ring_size w1) d1,
        a2 \<mapsto> connected_end a1 (ring_size w2) d2)) a = Some b \<longrightarrow> obj_ok b"
      by simp
    with peers show ?thesis unfolding bios_ok_def p by blast
  qed
  with r show ?thesis by blast
qed (use ok in blast)

end
