(* ===== verification/BioAsn1.thy ===== *)
theory BioAsn1
  imports BioHeap Der
begin

text \<open>
  Reading an ASN.1 element from a stream. The stream is an interface: a reader that delivers
  some first bytes of what is left, or reports the end. The loops of \<open>bio.c\<close> are its clients;
  \<open>BIO_read\<close> on a well-formed heap provides it, for memory buffers and for pairs.
\<close>

section \<open>The interface\<close>

locale source =
  fixes rd :: "'w reader" and ok :: "'w \<Rightarrow> bool" and stream :: "'w \<Rightarrow> byte list" and eof :: "'w \<Rightarrow> int"
  assumes eof_le: "ok w \<Longrightarrow> eof w \<le> 0"
    and at_end: "ok w \<Longrightarrow> 0 < n \<Longrightarrow> n \<le> INT_MAX \<Longrightarrow> stream w = [] \<Longrightarrow>
      \<exists>w'. rd (int n) w = Some (eof w, [], w') \<and> ok w' \<and> stream w' = [] \<and> eof w' = eof w"
    and some: "ok w \<Longrightarrow> 0 < n \<Longrightarrow> n \<le> INT_MAX \<Longrightarrow> stream w \<noteq> [] \<Longrightarrow>
      \<exists>k w'. 0 < k \<and> k \<le> n \<and> k \<le> length (stream w) \<and>
        rd (int n) w = Some (int k, take k (stream w), w') \<and> ok w' \<and>
        stream w' = drop k (stream w) \<and> eof w' = eof w"

lemma overwrite_Nil [simp]: "overwrite out i [] = out"
  by (simp add: overwrite_def)

lemma overwrite_overwrite:
  "i + length xs + length ys \<le> length out \<Longrightarrow>
   overwrite (overwrite out i xs) (i + length xs) ys = overwrite out i (xs @ ys)"
  by (simp add: overwrite_def ac_simps)

lemma take_overwrite_end: "i + length xs \<le> length out \<Longrightarrow> take (i + length xs) (overwrite out i xs) = take i out @ xs"
  by (simp add: overwrite_def)

context source
begin

lemma read_full_ok:
  assumes "ok w" and "pos + len \<le> length out" and "length out < 2 ^ 63"
  shows "\<exists>f w'. bio_read_full rd out pos len first w =
      Some (len \<le> length (stream w), f, overwrite out pos (take len (stream w)), w') \<and>
    ok w' \<and> stream w' = drop len (stream w) \<and> eof w' = eof w"
  using assms
proof (induction len arbitrary: out pos first w rule: less_induct)
  case (less len)
  show ?case
  proof (cases "len = 0")
    case True
    then show ?thesis using less.prems
      by (intro exI [of _ False] exI [of _ w]) (subst bio_read_full.simps, simp)
  next
    case False
    define n where "n = (if len \<le> INT_MAX then len else INT_MAX)"
    have n: "0 < n" "n \<le> INT_MAX" "n \<le> len"
      "(if len \<le> INT_MAX then int len else int INT_MAX) = int n"
      using False by (auto simp: n_def INT_MAX_def)
    show ?thesis
    proof (cases "stream w = []")
      case True
      obtain w' where w': "rd (int n) w = Some (eof w, [], w')" "ok w'" "stream w' = []" "eof w' = eof w"
        using at_end [OF less.prems(1) n(1,2) True] by blast
      then show ?thesis using False True n(4) eof_le [OF less.prems(1)]
        by (subst bio_read_full.simps) simp
    next
      case ne: False
      obtain k w1 where k: "0 < k" "k \<le> n" "k \<le> length (stream w)"
        and r: "rd (int n) w = Some (int k, take k (stream w), w1)" "ok w1"
          "stream w1 = drop k (stream w)" "eof w1 = eof w"
        using some [OF less.prems(1) n(1,2) ne] by blast
      have kl: "len - k < len" "k \<le> len" using k n False by simp_all
      let ?out = "overwrite out pos (take k (stream w))"
      have len_out: "length ?out = length out" using k kl less.prems(2) by (simp add: overwrite_length)
      have s: "size_sub len k = len - k" using kl less.prems(2,3) by simp
      obtain f w' where ih: "bio_read_full rd ?out (pos + k) (len - k) False w1 =
          Some (len - k \<le> length (stream w1), f, overwrite ?out (pos + k) (take (len - k) (stream w1)), w')"
        "ok w'" "stream w' = drop (len - k) (stream w1)" "eof w' = eof w1"
        using less.IH [OF kl(1) r(2), of "pos + k" ?out False] less.prems(2,3) kl len_out by auto
      have "overwrite ?out (pos + k) (take (len - k) (drop k (stream w))) = overwrite out pos (take len (stream w))"
        using overwrite_overwrite [of pos "take k (stream w)" "take (len - k) (drop k (stream w))" out]
          take_add [of k "len - k" "stream w"] k kl less.prems(2) by simp
      moreover have "bio_read_full rd out pos len first w =
          bio_read_full rd ?out (pos + k) (len - k) False w1"
        using False n(4) r(1) k kl less.prems(2) s by (subst bio_read_full.simps) simp
      moreover have "len - k \<le> length (stream w) - k \<longleftrightarrow> len \<le> length (stream w)" using k kl by linarith
      ultimately show ?thesis using ih r(3,4) kl by simp
    qed
  qed
qed

lemma read_body_ok:
  assumes ok: "ok w" and hl: "header_len \<le> length header" and m: "malloc_ok m"
    and len: "len < 2 ^ 32" "header_len < 2 ^ 32"
  shows "\<exists>r w'. read_asn1_body rd m header header_len len max_len w = Some (r, w') \<and> ok w' \<and> eof w' = eof w \<and>
    r = (if len + header_len \<le> max_len \<and> len \<le> INT_MAX \<and> len \<le> length (stream w) \<and>
            alloc_bytes m (len + header_len) \<noteq> None
         then Some (take header_len header @ take len (stream w)) else None) \<and>
    (r \<noteq> None \<longrightarrow> stream w' = drop len (stream w))"
proof (cases "len + header_len \<le> max_len \<and> len \<le> INT_MAX \<and> alloc_bytes m (len + header_len) \<noteq> None")
  case False
  then show ?thesis using ok len by (auto simp: read_asn1_body_def Let_def)
next
  case True
  then obtain out where out: "alloc_bytes m (len + header_len) = Some out" by blast
  have l: "length out = len + header_len" using alloc_bytes_length [OF m _ out] len by simp
  define out1 where "out1 = overwrite out 0 (take header_len header)"
  have l1: "length out1 = len + header_len" using l hl by (simp add: out1_def overwrite_length)
  have s: "size_add len header_len = len + header_len" "size_sub (len + header_len) header_len = len"
    using len by simp_all
  obtain f w' where r: "bio_read_full rd out1 header_len len True w =
      Some (len \<le> length (stream w), f, overwrite out1 header_len (take len (stream w)), w')"
    "ok w'" "stream w' = drop len (stream w)" "eof w' = eof w"
    using read_full_ok [OF ok, of header_len len out1 True] l1 len by auto
  have "overwrite out1 header_len (take len (stream w)) = take header_len header @ take len (stream w)"
    if "len \<le> length (stream w)"
  proof -
    have "overwrite out1 header_len (take len (stream w)) =
        overwrite out 0 (take header_len header @ take len (stream w))"
      using overwrite_overwrite [of 0 "take header_len header" "take len (stream w)" out] hl l
      by (simp add: out1_def)
    then show ?thesis using take_overwrite_end [of 0 "take header_len header @ take len (stream w)" out] l hl that
      by (simp add: overwrite_def)
  qed
  then show ?thesis using True out r s by (simp add: read_asn1_body_def Let_def flip: out1_def)
qed

lemma read_all_loop_ok:
  assumes "ok w" and "eof w \<in> {0, -1}" and "\<And>i. malloc_ok (ms i)" and "pos \<le> len" and "length out = len"
    and "len \<le> max_len" and "max_len \<le> INT_MAX" and "0 < pos"
  shows "\<exists>r w'. read_all_loop rd ms i max_len out len pos w = Some (r, w') \<and> ok w' \<and>
    (\<forall>ys. r = Some ys \<longrightarrow> ys = take pos out @ stream w \<and> stream w' = [] \<and> length ys < max_len)"
  using assms
proof (induction "length (stream w)" arbitrary: w pos len out i rule: less_induct)
  case (less w pos len out i)
  show ?case
  proof (cases "pos = len")
    case True
    then show ?thesis using less.prems by (subst read_all_loop.simps) simp
  next
    case False
    define todo where "todo = len - pos"
    have todo: "0 < todo" "todo < INT_MAX" "todo \<le> INT_MAX" "size_sub len pos = todo"
      using False less.prems(4-8) by (auto simp: todo_def INT_MAX_def)
    have iot: "int_of_size todo = int todo" using todo(3) by (rule int_of_size_small)
    show ?thesis
    proof (cases "stream w = []")
      case True
      obtain w' where w': "rd (int todo) w = Some (eof w, [], w')" "ok w'" "stream w' = []"
        using at_end [OF less.prems(1) todo(1,3) True] by blast
      then show ?thesis using False True todo iot less.prems
        by (subst read_all_loop.simps) (auto simp: Let_def)
    next
      case ne: False
      obtain k w1 where k: "0 < k" "k \<le> todo" "k \<le> length (stream w)"
        and r: "rd (int todo) w = Some (int k, take k (stream w), w1)" "ok w1"
          "stream w1 = drop k (stream w)" "eof w1 = eof w"
        using some [OF less.prems(1) todo(1,3) ne] by blast
      let ?out = "overwrite out pos (take k (stream w))"
      have pos': "pos + k \<le> len" "size_add pos (size_of_int (int k)) = pos + k"
        using k less.prems(4-7) by (auto simp: todo_def INT_MAX_def size_of_int_nat)
      have out': "length ?out = len" "take (pos + k) ?out = take pos out @ take k (stream w)"
        using less.prems(5) pos'(1) k take_overwrite_end [of pos "take k (stream w)" out]
        by (simp_all add: overwrite_length)
      have shorter: "length (stream w1) < length (stream w)" using r(3) k by simp
      have eq: "take pos out @ stream w = take (pos + k) ?out @ stream w1"
        unfolding out'(2) r(3) by simp
      define len' where "len' = (if size_add len kChunkSize < kChunkSize \<or> size_add len kChunkSize > max_len
        then max_len else size_add len kChunkSize)"
      have len': "len \<le> len'" "len' \<le> max_len"
        using less.prems(6,7) by (auto simp: len'_def kChunkSize_def INT_MAX_def)
      have unf: "read_all_loop rd ms i max_len out len pos w =
          (if len < max_len \<and> size_sub len (pos + k) < kChunkSize div 2 then
             (case realloc_bytes (ms i) ?out len' of
                None \<Rightarrow> Some (None, w1)
              | Some new_buf \<Rightarrow> read_all_loop rd ms (Suc i) max_len new_buf len' (pos + k) w1)
           else read_all_loop rd ms (Suc i) max_len ?out len (pos + k) w1)"
        using False todo iot r(1) k(1) pos' less.prems(5)
        unfolding len'_def by (subst read_all_loop.simps) (simp add: Let_def cong: if_cong split del: if_split, simp only: pos'(2))
      have step: "\<exists>r w'. read_all_loop rd ms (Suc i) max_len new l (pos + k) w1 = Some (r, w') \<and> ok w' \<and>
          (\<forall>ys. r = Some ys \<longrightarrow> ys = take pos out @ stream w \<and> stream w' = [] \<and> length ys < max_len)"
        if "length new = l" "len \<le> l" "l \<le> max_len" "take (pos + k) new = take (pos + k) ?out" for new l
        using less.hyps [OF shorter r(2) _ less.prems(3), of "pos + k" l new "Suc i"] that pos'(1)
          less.prems(2,7,8) r(4) unfolding eq by auto
      show ?thesis
      proof (cases "len < max_len \<and> size_sub len (pos + k) < kChunkSize div 2")
        case True
        show ?thesis
        proof (cases "realloc_bytes (ms i) ?out len'")
          case None
          then show ?thesis using True r(2) unfolding unf by simp
        next
          case (Some new)
          have g: "length new = len' \<and> take (length ?out) new = ?out"
            using realloc_bytes_grow [OF less.prems(3) _ _ Some] out'(1) len' less.prems(7)
            by (simp add: INT_MAX_def)
          then have "take (pos + k) new = take (pos + k) ?out"
            using pos'(1) out'(1) by (metis min.absorb1 take_take)
          with step [of new len'] g len' True Some show ?thesis unfolding unf by simp
        qed
      next
        case False
        with step [of ?out len] out'(1) less.prems(6) show ?thesis unfolding unf by auto
      qed
    qed
  qed
qed

lemma read_all_ok:
  assumes ok: "ok w" and e: "eof w \<in> {0, -1}" and m: "malloc_ok m" "\<And>i. malloc_ok (ms i)"
    and p: "prefix \<noteq> []" and max_len: "max_len \<le> INT_MAX"
  shows "\<exists>r w'. bio_read_all rd m ms prefix max_len w = Some (r, w') \<and> ok w' \<and>
    (\<forall>ys. r = Some ys \<longrightarrow> ys = prefix @ stream w \<and> stream w' = [] \<and> length ys < max_len)"
proof -
  define len where "len = (if size_add (length prefix) kChunkSize > max_len then max_len
    else size_add (length prefix) kChunkSize)"
  have unf: "bio_read_all rd m ms prefix max_len w = (if len < length prefix then Some (None, w)
      else case alloc_bytes m len of None \<Rightarrow> Some (None, w)
        | Some out \<Rightarrow> read_all_loop rd ms 0 max_len (overwrite out 0 prefix) len (length prefix) w)"
    by (simp only: bio_read_all_def Let_def len_def)
  show ?thesis
  proof (cases "len < length prefix \<or> alloc_bytes m len = None")
    case True
    then show ?thesis using ok unfolding unf by auto
  next
    case False
    then obtain out where out: "alloc_bytes m len = Some out" by blast
    have len: "length prefix \<le> len" "len \<le> max_len" using False by (auto simp: len_def)
    have l: "length out = len" using alloc_bytes_length [OF m(1) _ out] len max_len by (simp add: INT_MAX_def)
    have o1: "length (overwrite out 0 prefix) = len" "take (length prefix) (overwrite out 0 prefix) = prefix"
      using l len by (simp_all add: overwrite_def)
    show ?thesis
      using read_all_loop_ok [OF ok e m(2) len(1) o1(1) len(2) max_len, where i = 0] p False out unfolding unf
      by (simp add: o1(2))
  qed
qed

end

section \<open>The header\<close>

lemma length32_val: "length bs \<le> 4 \<Longrightarrow> unat (length32 bs) = be_val bs"
proof (induction bs rule: rev_induct)
  case Nil
  then show ?case by (simp add: length32_def)
next
  case (snoc b bs)
  then have ih: "unat (length32 bs) = be_val bs" by simp
  have "be_val bs < 256 ^ length bs" by (rule be_val_less)
  also have "(256::nat) ^ length bs \<le> 256 ^ 3" using snoc.prems by (intro power_increasing) simp_all
  finally have "be_val bs < 16777216" by simp
  moreover have "unat b < 256" by (rule unat_byte_lt)
  ultimately have "be_val bs * 256 + unat b < 4294967296" by linarith
  then have lt: "be_val bs * 256 + unat b < 2 ^ 32" by simp
  have "length32 (bs @ [b]) = push_bit 8 (length32 bs) OR ucast b" by (simp add: length32_def)
  then show ?case using word_shift_or [of "ucast b :: u32" 8 "length32 bs"] lt ih by simp
qed

lemma byte_1f: "(b :: byte) AND 0x1f = 0x1f \<longleftrightarrow> unat b mod 32 = 31"
  using byte_and_1f [of b] by (auto simp: word_unat_eq_iff)

context source
begin

lemma read_asn1_ok:
  assumes ok: "ok w" and e: "eof w \<in> {0, -1}" and m: "malloc_ok m" "\<And>i. malloc_ok (ms i)"
    and max_len: "max_len \<le> INT_MAX"
  shows "\<exists>r w'. read_asn1 rd m ms max_len w = Some (r, w') \<and> ok w' \<and>
    (case stream w of
       t # h \<Rightarrow>
         (if unat t mod 32 = 31 then r = None
          else case parse_len h of
            Some (n, k) \<Rightarrow>
              r = (if n + k + 1 \<le> max_len \<and> n \<le> INT_MAX \<and> n + k + 1 \<le> length (stream w) \<and>
                     alloc_bytes m (n + k + 1) \<noteq> None
                   then Some (take (n + k + 1) (stream w)) else None) \<and>
              (r \<noteq> None \<longrightarrow> stream w' = drop (n + k + 1) (stream w))
          | None \<Rightarrow> (\<forall>ys. r = Some ys \<longrightarrow> t AND 0x20 \<noteq> 0 \<and> (\<exists>h'. h = 0x80 # h') \<and>
              ys = stream w \<and> stream w' = [] \<and> length ys < max_len))
     | [] \<Rightarrow> r = None)"
proof -
  let ?s = "stream w"
  obtain f1 w1 where r1: "bio_read_full rd (replicate 6 0) 0 2 True w =
      Some (2 \<le> length ?s, f1, overwrite (replicate 6 0) 0 (take 2 ?s), w1)"
    and w1: "ok w1" "stream w1 = drop 2 ?s" "eof w1 = eof w"
    using read_full_ok [OF ok, of 0 2 "replicate 6 0" True] by auto
  show ?thesis
  proof (cases "2 \<le> length ?s")
    case False
    then have "read_asn1 rd m ms max_len w = Some (None, w1)" using r1 by (simp add: read_asn1_def)
    moreover have "stream w = [] \<or> (\<exists>t. stream w = [t])" using False
      by (cases ?s; cases "tl ?s") auto
    ultimately show ?thesis using w1(1) by (auto simp: parse_len_def)
  next
    case True
    then obtain t lb h where s: "?s = t # lb # h" by (cases ?s; cases "tl ?s") auto
    define header where "header = t # lb # replicate 4 0"
    have hd: "overwrite (replicate 6 0) 0 (take 2 ?s) = header"
      by (simp add: s header_def overwrite_def eval_nat_numeral)
    have lh: "length header = 6" "take 2 header = [t, lb]" "header ! 0 = t" "header ! Suc 0 = lb"
      by (simp_all add: header_def)
    have sw1: "stream w1 = h" using w1(2) s by simp
    have lb80: "lb AND 0x80 = 0 \<longleftrightarrow> unat lb < 128" by (rule byte_and_80)
    have lb7f: "unat (lb AND 0x7f) = unat lb mod 128" by (rule byte_and_7f)
    define k where "k = unat lb mod 128"
    have unf: "read_asn1 rd m ms max_len w = (
        if unat t mod 32 = 31 then Some (None, w1)
        else if unat lb < 128 then read_asn1_body rd m header 2 (unat lb) max_len w1
        else if t AND 0x20 \<noteq> 0 \<and> k = 0 then bio_read_all rd m ms [t, lb] max_len w1
        else if k = 0 \<or> k > 4 then Some (None, w1)
        else do {
          (ok, _, header, w) \<leftarrow> bio_read_full rd header 2 k True w1;
          if \<not> ok then Some (None, w)
          else if length32 (take k (drop 2 header)) < 128 then Some (None, w)
          else if drop_bit ((k - 1) * 8) (length32 (take k (drop 2 header))) = 0 then Some (None, w)
          else read_asn1_body rd m header (2 + k) (unat (length32 (take k (drop 2 header)))) max_len w
        })"
      using r1 True by (simp add: read_asn1_def hd Let_def lb80 byte_1f lb7f lh flip: k_def cong: if_cong)
    consider "unat t mod 32 = 31" | "unat t mod 32 \<noteq> 31" "unat lb < 128"
      | "unat t mod 32 \<noteq> 31" "128 \<le> unat lb" "t AND 0x20 \<noteq> 0" "k = 0"
      | "unat t mod 32 \<noteq> 31" "128 \<le> unat lb" "\<not> (t AND 0x20 \<noteq> 0 \<and> k = 0)" "k = 0 \<or> k > 4"
      | "unat t mod 32 \<noteq> 31" "128 \<le> unat lb" "0 < k" "k \<le> 4" by linarith
    then show ?thesis
    proof cases
      case 1
      then show ?thesis using w1(1) s unfolding unf by simp
    next
      case 2
      have p: "parse_len (lb # h) = Some (unat lb, 1)" using 2 by (simp add: parse_len_def)
      obtain r w' where b: "read_asn1_body rd m header 2 (unat lb) max_len w1 = Some (r, w')" "ok w'"
        "r = (if unat lb + 2 \<le> max_len \<and> unat lb \<le> INT_MAX \<and> unat lb \<le> length (stream w1) \<and>
            alloc_bytes m (unat lb + 2) \<noteq> None
         then Some (take 2 header @ take (unat lb) (stream w1)) else None)"
        "r \<noteq> None \<longrightarrow> stream w' = drop (unat lb) (stream w1)"
        using read_body_ok [OF w1(1) _ m(1), of 2 header "unat lb" max_len] lh(1) 2(2) by auto
      then show ?thesis using 2 p s sw1 lh(2) unfolding unf by simp
    next
      case 3
      have "lb = 0x80"
      proof (rule word_unat_eq_iff [THEN iffD2])
        have "unat lb < 256" by (rule unat_byte_lt)
        with 3(2,4) have "unat lb = 128" unfolding k_def by presburger
        then show "unat lb = unat (0x80 :: byte)" by simp
      qed
      have p: "parse_len (lb # h) = None" using 3 by (simp add: parse_len_def Let_def k_def)
      obtain r w' where "bio_read_all rd m ms [t, lb] max_len w1 = Some (r, w')" "ok w'"
        "\<forall>ys. r = Some ys \<longrightarrow> ys = [t, lb] @ h \<and> stream w' = [] \<and> length ys < max_len"
        using read_all_ok [where ms = ms and prefix = "[t, lb]", OF w1(1) _ m _ max_len] e w1(3) sw1 by auto
      then show ?thesis using 3 p s \<open>lb = 0x80\<close> unfolding unf by auto
    next
      case 4
      have p: "parse_len (lb # h) = None" using 4 by (auto simp add: parse_len_def Let_def k_def)
      then show ?thesis using 4 w1(1) s unfolding unf by auto
    next
      case 5
      obtain f2 w2 where r2: "bio_read_full rd header 2 k True w1 =
          Some (k \<le> length h, f2, overwrite header 2 (take k h), w2)"
        and w2: "ok w2" "stream w2 = drop k h" "eof w2 = eof w"
        using read_full_ok [OF w1(1), of 2 k header True] 5 lh(1) sw1 w1(3) by auto
      show ?thesis
      proof (cases "k \<le> length h")
        case False
        then have p: "parse_len (lb # h) = None" using 5 by (simp add: parse_len_def Let_def k_def)
        then show ?thesis using 5 False w2(1) s r2 unfolding unf by simp
      next
        case True
        define n where "n = be_val (take k h)"
        define header2 where "header2 = overwrite header 2 (take k h)"
        have h2: "length header2 = 6" "take (2 + k) header2 = [t, lb] @ take k h" "drop 2 (take (2 + k) header2) = take k h"
          using lh 5 True take_overwrite_end [of 2 "take k h" header] by (simp_all add: header2_def overwrite_length)
        then have td: "take k (drop 2 header2) = take k h" by (simp add: take_drop add.commute)
        have n: "unat (length32 (take k h)) = n" using length32_val [of "take k h"] 5 by (simp add: n_def)
        have "unat (length32 (take k h)) < 2 ^ 32" using unsigned_less [of "length32 (take k h)"] by simp
        then have nlt: "n < 2 ^ 32" by (simp add: n)
        have c1: "length32 (take k h) < 128 \<longleftrightarrow> n < 128" by (simp add: word_less_nat_alt n)
        have c2: "drop_bit ((k - 1) * 8) (length32 (take k h)) = 0 \<longleftrightarrow> n < 256 ^ (k - 1)"
        proof -
          have "unat (drop_bit ((k - 1) * 8) (length32 (take k h))) = n div 2 ^ (8 * (k - 1))"
            by (simp add: unat_drop_bit n mult.commute)
          also have "(2::nat) ^ (8 * (k - 1)) = 256 ^ (k - 1)" by (simp add: power_mult)
          finally show ?thesis by (simp add: unat_eq_zero [symmetric] div_eq_0_iff)
        qed
        have eq: "read_asn1 rd m ms max_len w = (if n < 128 \<or> n < 256 ^ (k - 1) then Some (None, w2)
            else read_asn1_body rd m header2 (2 + k) n max_len w2)"
          using 5 r2 True unfolding unf by (simp add: td c1 c2 [unfolded One_nat_def] n flip: header2_def)
        show ?thesis
        proof (cases "n < 128 \<or> n < 256 ^ (k - 1)")
          case True
          then have "parse_len (lb # h) = None"
            using 5 \<open>k \<le> length h\<close> by (auto simp: parse_len_def Let_def n_def k_def)
          then show ?thesis using eq True s 5 w2(1) by simp
        next
          case False
          then have p: "parse_len (lb # h) = Some (n, Suc k)"
            using 5 \<open>k \<le> length h\<close> by (auto simp: parse_len_def Let_def n_def k_def)
          obtain r w' where b: "read_asn1_body rd m header2 (2 + k) n max_len w2 = Some (r, w')" "ok w'"
            "r = (if n + (2 + k) \<le> max_len \<and> n \<le> INT_MAX \<and> n \<le> length (stream w2) \<and>
                alloc_bytes m (n + (2 + k)) \<noteq> None
             then Some (take (2 + k) header2 @ take n (stream w2)) else None)"
            "r \<noteq> None \<longrightarrow> stream w' = drop n (stream w2)"
            using read_body_ok [OF w2(1) _ m(1) nlt, of "2 + k" header2 max_len] h2(1) 5(4) by auto
          have "n \<le> length (drop k h) \<longleftrightarrow> n + Suc k + 1 \<le> length ?s" using True s by auto
          moreover have "[t, lb] @ take k h @ take n (drop k h) = take (n + Suc k + 1) ?s"
            using take_add [of k n h] s by (simp add: add.commute)
          moreover have "drop n (drop k h) = drop (n + Suc k + 1) ?s" using s by (simp add: add.commute)
          ultimately show ?thesis using b p s 5 eq False w2(2) h2(2) by simp
        qed
      qed
    qed
  qed
qed

end

end
