(* ===== verification/BioProps.thy ===== *)
theory BioProps
  imports BioAsn1
begin

text \<open>
  The theorems about \<open>BIO\<close>s: safety of every operation in every reachable heap, the refinement
  of two queues by a pair, and reading ASN.1 elements from a stream.
\<close>

section \<open>Reachable heaps\<close>

inductive bio_step :: "bios \<Rightarrow> bios \<Rightarrow> bool" where
  step_pair: "h a1 = None \<Longrightarrow> h a2 = None \<Longrightarrow> a1 \<noteq> a2 \<Longrightarrow> malloc_ok (fst e3) \<Longrightarrow> malloc_ok (snd e3) \<Longrightarrow>
     w1 < 2 ^ 63 \<Longrightarrow> w2 < 2 ^ 63 \<Longrightarrow> BIO_new_bio_pair e1 e2 e3 a1 a2 w1 w2 h = Some (r, h') \<Longrightarrow> bio_step h h'"
| step_mem: "h a = None \<Longrightarrow> BIO_new mem_method m1 m2 a h = (r, h') \<Longrightarrow> bio_step h h'"
| step_mem_buf: "h a = None \<Longrightarrow> (case buf of None \<Rightarrow> len = 0 | Some d \<Rightarrow> length d < 2 ^ 63 \<and>
       (if len < 0 then strlen d \<noteq> None else nat len \<le> length d)) \<Longrightarrow>
     BIO_new_mem_buf m1 m2 a buf len h = Some (r, h') \<Longrightarrow> bio_step h h'"
| step_read: "h a \<noteq> None \<Longrightarrow> len \<le> int INT_MAX \<Longrightarrow> BIO_read (Some a) len h = Some (r, xs, h') \<Longrightarrow> bio_step h h'"
| step_gets: "h a \<noteq> None \<Longrightarrow> len \<le> int INT_MAX \<Longrightarrow> BIO_gets (Some a) len h = Some (r, xs, h') \<Longrightarrow> bio_step h h'"
| step_write: "h a \<noteq> None \<Longrightarrow> malloc_ok mc \<Longrightarrow> len \<le> int INT_MAX \<Longrightarrow> nat len \<le> length xs \<Longrightarrow>
     BIO_write mc (Some a) xs len h = Some (r, h') \<Longrightarrow> bio_step h h'"
| step_ctrl: "h a \<noteq> None \<Longrightarrow> ctrl_arg_ok h a cmd arg \<Longrightarrow>
     BIO_ctrl (Some a) cmd n arg h = Some (r, out, h') \<Longrightarrow> bio_step h h'"
| step_up_ref: "h a \<noteq> None \<Longrightarrow> BIO_up_ref a h = Some (ok, h') \<Longrightarrow> bio_step h h'"
| step_free: "h a \<noteq> None \<Longrightarrow> BIO_free (Some a) h = Some (ok, h') \<Longrightarrow> bio_step h h'"

inductive bio_reachable :: "bios \<Rightarrow> bool" where
  start: "bio_reachable (\<lambda>_. None)"
| step: "bio_reachable h \<Longrightarrow> bio_step h h' \<Longrightarrow> bio_reachable h'"

lemma bio_step_ok: "bio_step h h' \<Longrightarrow> bios_ok h \<Longrightarrow> bios_ok h'"
proof (induction rule: bio_step.induct)
  case (step_pair h a1 a2 e3 w1 w2 e1 e2 r h')
  then show ?case using BIO_new_bio_pair_ok [of h a1 a2 e3 w1 w2 e1 e2] by auto
next
  case (step_mem h a m1 m2 r h')
  then show ?case using BIO_new_mem_ok [of h a m1 m2] by simp
next
  case (step_mem_buf h a len buf m1 m2 r h')
  then show ?case using BIO_new_mem_buf_ok [OF step_mem_buf(4,1,2), of m1 m2] by auto
next
  case (step_read h a len r xs h')
  then show ?case using BIO_read_total [of h a len] by auto
next
  case (step_gets h a len r xs h')
  then show ?case using BIO_gets_total [of h a len] by auto
next
  case (step_write h a mc len xs r h')
  then show ?case using BIO_write_total [of h a mc len xs] by auto
next
  case (step_ctrl h a cmd arg n r out h')
  then show ?case using BIO_ctrl_total [of h a cmd arg n] by auto
next
  case (step_up_ref h a ok h')
  then show ?case using BIO_up_ref_total [of h a] by auto
next
  case (step_free h a ok h')
  then show ?case using BIO_free_total [of h a] by auto
qed

lemma bio_reachable_ok: "bio_reachable h \<Longrightarrow> bios_ok h"
proof (induction rule: bio_reachable.induct)
  case start
  show ?case by (simp add: bios_ok_def peers_ok_def peer_of_def)
qed (rule bio_step_ok)

section \<open>A pair as two queues\<close>

datatype chan_op = Chan_write nat "byte list" | Chan_read nat nat | Chan_shutdown nat

type_synonym pair_state = "nat \<Rightarrow> pair_end option"

definition spec_write :: "nat \<Rightarrow> byte list \<Rightarrow> pair_state \<Rightarrow> int \<times> pair_state" where
  "spec_write a xs v = (
     case v a of
       None \<Rightarrow> (-2, v)
     | Some e \<Rightarrow>
         if pe_peer e = None then (-2, v)
         else if xs = [] then (0, v)
         else
           let n = min (length xs) (pe_capacity e - length (pe_queue e)) in
           if pe_closed e \<or> n = 0 then (-1, v)
           else (int n, v(a \<mapsto> e\<lparr>pe_queue := pe_queue e @ take n xs\<rparr>)))"

definition spec_read :: "nat \<Rightarrow> nat \<Rightarrow> pair_state \<Rightarrow> int \<times> byte list \<times> pair_state" where
  "spec_read a n v = (
     case Option.bind (v a) pe_peer of
       None \<Rightarrow> (-2, [], v)
     | Some p \<Rightarrow>
         if n = 0 then (0, [], v)
         else
           (case v p of
              None \<Rightarrow> (-2, [], v)
            | Some e \<Rightarrow>
                if pe_queue e = [] then (if pe_closed e then 0 else -1, [], v)
                else let k = min n (length (pe_queue e)) in
                  (int k, take k (pe_queue e), v(p \<mapsto> e\<lparr>pe_queue := drop k (pe_queue e)\<rparr>))))"

definition spec_shutdown :: "nat \<Rightarrow> pair_state \<Rightarrow> pair_state" where
  "spec_shutdown a v = v(a := map_option (\<lambda>e. e\<lparr>pe_closed := True\<rparr>) (v a))"

fun spec_step :: "chan_op \<Rightarrow> pair_state \<Rightarrow> (int \<times> byte list) \<times> pair_state" where
  "spec_step (Chan_write a xs) v = (case spec_write a xs v of (r, v) \<Rightarrow> ((r, []), v))"
| "spec_step (Chan_read a n) v = (case spec_read a n v of (r, ys, v) \<Rightarrow> ((r, ys), v))"
| "spec_step (Chan_shutdown a) v = ((1, []), spec_shutdown a v)"

fun chan_step :: "libc \<Rightarrow> chan_op \<Rightarrow> bios \<Rightarrow> ((int \<times> byte list) \<times> bios) option" where
  "chan_step mc (Chan_write a xs) h =
     map_option (\<lambda>(r, h). ((r, []), h)) (BIO_write mc (Some a) xs (int (length xs)) h)"
| "chan_step mc (Chan_read a n) h =
     map_option (\<lambda>(r, ys, h). ((r, ys), h)) (BIO_read (Some a) (int n) h)"
| "chan_step mc (Chan_shutdown a) h = map_option (\<lambda>(r, h). ((r, []), h)) (BIO_shutdown_wr (Some a) h)"

fun spec_run :: "chan_op list \<Rightarrow> pair_state \<Rightarrow> (int \<times> byte list) list \<times> pair_state" where
  "spec_run [] v = ([], v)"
| "spec_run (x # xs) v = (case spec_step x v of (r, v) \<Rightarrow> case spec_run xs v of (rs, v) \<Rightarrow> (r # rs, v))"

fun chan_run :: "libc \<Rightarrow> chan_op list \<Rightarrow> bios \<Rightarrow> ((int \<times> byte list) list \<times> bios) option" where
  "chan_run mc [] h = Some ([], h)"
| "chan_run mc (x # xs) h = do {
     (r, h) \<leftarrow> chan_step mc x h;
     (rs, h) \<leftarrow> chan_run mc xs h;
     Some (r # rs, h)
   }"

fun chan_op_ok :: "pair_state \<Rightarrow> chan_op \<Rightarrow> bool" where
  "chan_op_ok v (Chan_write a xs) \<longleftrightarrow> v a \<noteq> None \<and> length xs \<le> INT_MAX"
| "chan_op_ok v (Chan_read a n) \<longleftrightarrow> v a \<noteq> None \<and> n \<le> INT_MAX"
| "chan_op_ok v (Chan_shutdown a) \<longleftrightarrow> v a \<noteq> None"

lemma count_fields_ok:
  assumes "bios_ok h" and "f = (\<lambda>b. b\<lparr>num_read := n b\<rparr>) \<or> f = (\<lambda>b. b\<lparr>num_write := n b\<rparr>)"
  shows "bios_ok (h(a := map_option f (h a)))" and "pair_view (h(a := map_option f (h a))) = pair_view h"
  using map_fields_ok [OF assms(1), of f n a] assms(2) by auto

lemma BIO_write_pair:
  assumes ok: "bios_ok h" and e: "pair_view h a = Some e" and len: "k \<le> INT_MAX" "k \<le> length xs"
  shows "\<exists>r h'. BIO_write mc (Some a) xs (int k) h = Some (r, h') \<and> bios_ok h' \<and>
    spec_write a (take k xs) (pair_view h) = (r, pair_view h')"
proof -
  obtain b r where b: "h a = Some b" "bio_meth b = Some methods_biop" "init b \<longleftrightarrow> pe_peer e \<noteq> None"
    by (rule view_pair [OF ok e])
  show ?thesis
  proof (cases "init b \<and> k \<noteq> 0")
    case False
    then show ?thesis using ok b e by (auto simp: BIO_write_def spec_write_def)
  next
    case True
    define n where "n = min k (pe_capacity e - length (pe_queue e))"
    obtain h1 where h1: "bios_ok h1"
      "if pe_closed e \<or> n = 0 then bio_write a (Some xs) (int k) h = Some (-1, h1) \<and> pair_view h1 = pair_view h
       else bio_write a (Some xs) (int k) h = Some (int n, h1) \<and>
         pair_view h1 = (pair_view h)(a \<mapsto> e\<lparr>pe_queue := pe_queue e @ take n xs\<rparr>)"
      using bio_write_ok [OF ok b(1,2), of "int k" xs] True len e by (auto simp: Let_def n_def)
    define ret where "ret = (if pe_closed e \<or> n = 0 then -1 else int n)"
    define h2 where "h2 = (if ret > 0 then h1(a := map_option
      (\<lambda>b. b\<lparr>num_write := size_add (num_write b) (nat ret)\<rparr>) (h1 a)) else h1)"
    have "bios_ok h2" "pair_view h2 = pair_view h1"
      using count_fields_ok [OF h1(1), of _ "\<lambda>b. size_add (num_write b) (nat ret)" a] h1(1)
      by (simp_all add: h2_def)
    moreover have "BIO_write mc (Some a) xs (int k) h = Some (ret, h2)"
      using True b(1,2) h1(2) by (auto simp: BIO_write_def bwrite_def ret_def h2_def split: if_splits)
    moreover have "spec_write a (take k xs) (pair_view h) = (ret, pair_view h1)"
    proof -
      have "min (length (take k xs)) (pe_capacity e - length (pe_queue e)) = n" "take n (take k xs) = take n xs"
        "take k xs \<noteq> []"
        using len(2) True by (auto simp: n_def)
      then show ?thesis using True b(3) e h1(2) by (auto simp: spec_write_def Let_def ret_def split: if_splits)
    qed
    ultimately show ?thesis by auto
  qed
qed

lemma BIO_read_pair:
  assumes ok: "bios_ok h" and e: "pair_view h a = Some e" and len: "n \<le> INT_MAX"
  shows "\<exists>r ys h'. BIO_read (Some a) (int n) h = Some (r, ys, h') \<and> bios_ok h' \<and>
    spec_read a n (pair_view h) = (r, ys, pair_view h')"
proof -
  obtain b where b: "h a = Some b" "bio_meth b = Some methods_biop" "init b \<longleftrightarrow> pe_peer e \<noteq> None"
    "bio_peer b = pe_peer e" by (rule view_pair [OF ok e])
  show ?thesis
  proof (cases "init b \<and> n \<noteq> 0")
    case False
    then show ?thesis using ok b e by (auto simp: BIO_read_def spec_read_def split: option.split)
  next
    case True
    obtain p q h1 where q: "pair_view h p = Some q" "bio_peer b = Some p" "bios_ok h1"
      "let k = min n (length (pe_queue q)) in
       bio_read a True (int n) h = Some (if pe_queue q = [] then if pe_closed q then 0 else -1 else int k,
         take k (pe_queue q), h1) \<and>
       pair_view h1 = (pair_view h)(p \<mapsto> q\<lparr>pe_queue := drop k (pe_queue q)\<rparr>)"
      using bio_read_ok [OF ok b(1,2), of "int n"] True len by auto
    have pp: "pe_peer e = Some p" using b(4) q(2) by simp
    define k where "k = min n (length (pe_queue q))"
    define ret where "ret = (if pe_queue q = [] then if pe_closed q then 0 else -1 else int k)"
    define h2 where "h2 = (if ret > 0 then h1(a := map_option
      (\<lambda>b. b\<lparr>num_read := size_add (num_read b) (nat ret)\<rparr>) (h1 a)) else h1)"
    have "bios_ok h2" "pair_view h2 = pair_view h1"
      using count_fields_ok [OF q(3), of _ "\<lambda>b. size_add (num_read b) (nat ret)" a] q(3)
      by (simp_all add: h2_def)
    moreover have r: "bio_read a True (int n) h = Some (ret, take k (pe_queue q), h1)"
      "pair_view h1 = (pair_view h)(p \<mapsto> q\<lparr>pe_queue := drop k (pe_queue q)\<rparr>)"
      using q(4) by (simp_all add: Let_def k_def ret_def)
    have "BIO_read (Some a) (int n) h = Some (ret, take k (pe_queue q), h2)"
      using True b(1,2) r(1) by (simp add: BIO_read_def bread_def h2_def)
    moreover have "spec_read a n (pair_view h) = (ret, take k (pe_queue q), pair_view h1)"
    proof (cases "pe_queue q = []")
      case True
      then have "pair_view h1 = pair_view h" using r(2) q(1) by (simp add: view_restore)
      then show ?thesis using True \<open>init b \<and> n \<noteq> 0\<close> e pp q(1) by (simp add: spec_read_def ret_def)
    next
      case False
      then show ?thesis using \<open>init b \<and> n \<noteq> 0\<close> e pp q(1) r(2)
        by (simp add: spec_read_def ret_def Let_def flip: k_def)
    qed
    ultimately show ?thesis by auto
  qed
qed

lemma BIO_shutdown_pair:
  assumes ok: "bios_ok h" and e: "pair_view h a = Some e"
  shows "\<exists>h'. BIO_shutdown_wr (Some a) h = Some (1, h') \<and> bios_ok h' \<and>
    pair_view h' = spec_shutdown a (pair_view h)"
proof -
  obtain b r where b: "h a = Some b" "bio_meth b = Some methods_biop" "ptr b = Ptr_pair r" "e = ring_view r"
    by (rule view_pair [OF ok e])
  have "ring_ok r" using bios_okD [OF ok b(1)] b(2,3) by (simp add: obj_ok_def)
  then have "bios_ok (set_ring a (r\<lparr>rb_closed := True\<rparr>) h)"
    using set_ring_ok [OF ok b(1,3)] by simp
  moreover have "BIO_shutdown_wr (Some a) h = Some (1, set_ring a (r\<lparr>rb_closed := True\<rparr>) h)"
    using b by (simp add: BIO_shutdown_wr_def ctrl_ret_def BIO_ctrl_def bio_ctrl_def pair_ptr_def)
  moreover have "ring_view (r\<lparr>rb_closed := True\<rparr>) = e\<lparr>pe_closed := True\<rparr>"
    by (simp add: b(4) ring_view_def ring_queue_def cong: option.case_cong)
  then have "pair_view (set_ring a (r\<lparr>rb_closed := True\<rparr>) h) = spec_shutdown a (pair_view h)"
    using view_set_ring [of h a b "r\<lparr>rb_closed := True\<rparr>", OF b(1)] e by (simp add: spec_shutdown_def)
  ultimately show ?thesis by blast
qed

lemma spec_dom: "v x \<noteq> None \<Longrightarrow> spec_step op v = (r, v') \<Longrightarrow> v' x \<noteq> None"
  by (cases op) (auto simp: spec_write_def spec_read_def spec_shutdown_def Let_def
      split: option.splits if_splits prod.splits)

lemma chan_step_ok:
  assumes "bios_ok h" and "chan_op_ok (pair_view h) op"
  shows "\<exists>r h'. chan_step mc op h = Some (r, h') \<and> bios_ok h' \<and>
    spec_step op (pair_view h) = (r, pair_view h')"
proof (cases op)
  case (Chan_write a xs)
  then show ?thesis using BIO_write_pair [OF assms(1), of a _ "length xs" xs mc] assms(2) by fastforce
next
  case (Chan_read a n)
  then show ?thesis using BIO_read_pair [OF assms(1), of a _ n] assms(2) by fastforce
next
  case (Chan_shutdown a)
  then show ?thesis using BIO_shutdown_pair [OF assms(1), of a] assms(2) by fastforce
qed

lemma chan_run_ok:
  "bios_ok h \<Longrightarrow> \<forall>x\<in>set ops. chan_op_ok (pair_view h) x \<Longrightarrow> \<exists>outs h'. chan_run mc ops h = Some (outs, h') \<and>
     bios_ok h' \<and> spec_run ops (pair_view h) = (outs, pair_view h')"
proof (induction ops arbitrary: h)
  case (Cons x ops)
  obtain r h1 where s: "chan_step mc x h = Some (r, h1)" "bios_ok h1" "spec_step x (pair_view h) = (r, pair_view h1)"
    using chan_step_ok [OF Cons.prems(1), of x mc] Cons.prems(2) by auto
  have "chan_op_ok (pair_view h1) y" if "chan_op_ok (pair_view h) y" for y
    using that spec_dom [OF _ s(3)] by (cases y) auto
  then obtain outs h' where "chan_run mc ops h1 = Some (outs, h')" "bios_ok h'"
    "spec_run ops (pair_view h1) = (outs, pair_view h')"
    using Cons.IH [OF s(2)] Cons.prems(2) by auto
  then show ?case using s by simp
qed simp

section \<open>The interfaces on the model\<close>

definition channel_put :: "libc \<Rightarrow> nat \<Rightarrow> bios \<Rightarrow> byte list \<Rightarrow> (nat \<times> bios) option" where
  "channel_put mc a h xs = map_option (\<lambda>(r, h). (nat r, h)) (BIO_write mc (Some a) xs (int (length xs)) h)"

definition channel_get :: "nat \<Rightarrow> bios \<Rightarrow> nat \<Rightarrow> (byte list \<times> bios) option" where
  "channel_get p h n = map_option (\<lambda>(r, ys, h). (ys, h)) (BIO_read (Some p) (int n) h)"

definition channel_ok :: "nat \<Rightarrow> nat \<Rightarrow> bios \<Rightarrow> bool" where
  "channel_ok a p h \<longleftrightarrow> bios_ok h \<and>
     (\<exists>e. pair_view h a = Some e \<and> pe_peer e = Some p \<and> \<not> pe_closed e)"

definition channel_queue :: "nat \<Rightarrow> bios \<Rightarrow> byte list" where
  "channel_queue a h = (case pair_view h a of None \<Rightarrow> [] | Some e \<Rightarrow> pe_queue e)"

definition channel_capacity :: "nat \<Rightarrow> bios \<Rightarrow> nat" where
  "channel_capacity a h = (case pair_view h a of None \<Rightarrow> 0 | Some e \<Rightarrow> pe_capacity e)"

lemma channel_bounded: "channel_ok a p h \<Longrightarrow> length (channel_queue a h) \<le> channel_capacity a h"
proof -
  assume c: "channel_ok a p h"
  then obtain e where e: "bios_ok h" "pair_view h a = Some e" by (auto simp: channel_ok_def)
  obtain b r where b: "h a = Some b" "bio_meth b = Some methods_biop" "ptr b = Ptr_pair r" "e = ring_view r"
    by (rule view_pair [OF e])
  have "ring_ok r" using bios_okD [OF e(1) b(1)] b(2,3) by (simp add: obj_ok_def)
  then show ?thesis using e(2) b(4)
    by (simp add: channel_queue_def channel_capacity_def ring_view_def ring_queue_length ring_ok_def)
qed

lemma channel_put_ok:
  assumes c: "channel_ok a p h" and len: "length xs \<le> INT_MAX"
  shows "\<exists>n h'. channel_put mc a h xs = Some (n, h') \<and> channel_ok a p h' \<and>
    channel_capacity a h' = channel_capacity a h \<and>
    n = min (length xs) (channel_capacity a h - length (channel_queue a h)) \<and>
    channel_queue a h' = channel_queue a h @ take n xs"
proof -
  obtain e where e: "bios_ok h" "pair_view h a = Some e" "pe_peer e = Some p" "\<not> pe_closed e"
    using c by (auto simp: channel_ok_def)
  obtain r h' where w: "BIO_write mc (Some a) xs (int (length xs)) h = Some (r, h')" "bios_ok h'"
    "spec_write a xs (pair_view h) = (r, pair_view h')"
    using BIO_write_pair [OF e(1,2) len order.refl, of mc] by auto
  define n where "n = min (length xs) (pe_capacity e - length (pe_queue e))"
  have v: "nat r = n" "pair_view h' a = Some (e\<lparr>pe_queue := pe_queue e @ take n xs\<rparr>)"
  proof (atomize (full), cases "xs = [] \<or> n = 0")
    case True
    then have "n = 0" by (auto simp: n_def)
    have "nat r = 0 \<and> pair_view h' = pair_view h"
      using w(3) e True by (auto simp: spec_write_def Let_def simp flip: n_def split: if_splits)
    then show "nat r = n \<and> pair_view h' a = Some (e\<lparr>pe_queue := pe_queue e @ take n xs\<rparr>)"
      using e(2) \<open>n = 0\<close> by simp
  next
    case False
    then have "r = int n \<and> pair_view h' = (pair_view h)(a \<mapsto> e\<lparr>pe_queue := pe_queue e @ take n xs\<rparr>)"
      using w(3) e by (auto simp: spec_write_def Let_def simp flip: n_def)
    then show "nat r = n \<and> pair_view h' a = Some (e\<lparr>pe_queue := pe_queue e @ take n xs\<rparr>)" by simp
  qed
  then show ?thesis using w(1,2) e
    by (intro exI [of _ n] exI [of _ h'])
      (simp add: channel_put_def channel_ok_def channel_queue_def channel_capacity_def n_def)
qed

lemma channel_get_ok:
  assumes c: "channel_ok a p h" and len: "n \<le> INT_MAX"
  shows "\<exists>h'. channel_get p h n = Some (take n (channel_queue a h), h') \<and> channel_ok a p h' \<and>
    channel_capacity a h' = channel_capacity a h \<and> channel_queue a h' = drop n (channel_queue a h)"
proof -
  obtain e where e: "bios_ok h" "pair_view h a = Some e" "pe_peer e = Some p" "\<not> pe_closed e"
    using c by (auto simp: channel_ok_def)
  obtain b where b: "h a = Some b" "bio_peer b = Some p" using view_pair [OF e(1,2)] e(3) by metis
  obtain pb r where pb: "h p = Some pb" "pair_ptr pb = Some r" "rb_peer r = Some a"
    using peer_ok [OF e(1) b] by metis
  have ep: "pair_view h p = Some (ring_view r)" "pe_peer (ring_view r) = Some a"
    using pb by (simp_all add: view_ring ring_view_def)
  obtain ret ys h' where r: "BIO_read (Some p) (int n) h = Some (ret, ys, h')" "bios_ok h'"
    "spec_read p n (pair_view h) = (ret, ys, pair_view h')"
    using BIO_read_pair [OF e(1) ep(1) len] by blast
  have "ys = fst (snd (spec_read p n (pair_view h)))" "pair_view h' = snd (snd (spec_read p n (pair_view h)))"
    using r(3) by simp_all
  then have "ys = take n (pe_queue e)" "pair_view h' a = Some (e\<lparr>pe_queue := drop n (pe_queue e)\<rparr>)"
    using e(2) ep by (auto simp: spec_read_def Let_def min_def)
  then show ?thesis using r(1,2) e
    by (simp add: channel_get_def channel_ok_def channel_queue_def channel_capacity_def)
qed

interpretation channel: fifo "channel_ok a p" "channel_queue a" "channel_capacity a"
  "channel_put mc a" "channel_get p" INT_MAX for a p mc
  by unfold_locales (auto dest: channel_bounded channel_put_ok channel_get_ok)

definition source_ok :: "nat \<Rightarrow> bios \<Rightarrow> bool" where
  "source_ok a h \<longleftrightarrow> bios_ok h \<and> ready h a \<and> source_eof h a \<le> 0"

lemma int_INT_MAX: "n \<le> INT_MAX \<Longrightarrow> int n \<le> int INT_MAX"
  by simp

interpretation bio: source "BIO_read (Some a)" "source_ok a" "\<lambda>h. source_stream h a" "\<lambda>h. source_eof h a" for a
proof unfold_locales
  fix h and n :: nat
  assume ok: "source_ok a h"
  show "source_eof h a \<le> 0" using ok by (simp add: source_ok_def)
  assume n: "0 < n" "n \<le> INT_MAX"
  define k where "k = min n (length (source_stream h a))"
  obtain h' where r: "BIO_read (Some a) (int n) h = Some (if source_stream h a = [] then source_eof h a else int k,
      take k (source_stream h a), h')" "bios_ok h'" "ready h' a"
      "source_stream h' a = drop k (source_stream h a)" "source_eof h' a = source_eof h a"
    using BIO_read_ok [of h a "int n" k] ok n by (auto simp: source_ok_def k_def)
  then have ok': "source_ok a h'" using ok by (simp add: source_ok_def)
  show "source_stream h a = [] \<Longrightarrow> \<exists>h'. BIO_read (Some a) (int n) h = Some (source_eof h a, [], h') \<and>
      source_ok a h' \<and> source_stream h' a = [] \<and> source_eof h' a = source_eof h a"
    using r ok' by auto
  show "source_stream h a \<noteq> [] \<Longrightarrow> \<exists>k h'. 0 < k \<and> k \<le> n \<and> k \<le> length (source_stream h a) \<and>
      BIO_read (Some a) (int n) h = Some (int k, take k (source_stream h a), h') \<and> source_ok a h' \<and>
      source_stream h' a = drop k (source_stream h a) \<and> source_eof h' a = source_eof h a"
    using r ok' n by (intro exI [of _ k] exI [of _ h']) (auto simp: k_def)
qed

end
