(* ===== verification/PoolProps.thy ===== *)
theory PoolProps
  imports Pool
begin

text \<open>
  The buffer pool shared by threads: the critical sections of the code interleave, and in
  every reachable state the reference counts protect exactly the buffers in use, equal
  contents are shared, and the assertions of the code hold.
\<close>

section \<open>Looking up\<close>

definition found :: "pool_world \<Rightarrow> byte list \<Rightarrow> pool_elem option" where
  "found w d = lh_retrieve pool_hash pool_cmp (bufs w) (0, d)"

lemma retrieve_found: "lh_retrieve pool_hash pool_cmp (bufs w) (a, d) = found w d"
  by (simp add: found_def lh_retrieve_def get_next_ptr_and_hash_def pool_hash_def pool_cmp_def)

lemma found_heap [simp]: "found (w\<lparr>heap := h\<rparr>) d = found w d"
  by (simp add: found_def)

lemma found_up_ref [simp]: "found (CRYPTO_BUFFER_up_ref a w) d = found w d"
  by (auto simp: CRYPTO_BUFFER_up_ref_def set_references_def split: option.split)

abbreviation table_ok :: "pool_world \<Rightarrow> bool" where
  "table_ok w \<equiv> lh_ok pool_hash pool_cmp 0 0 (bufs w)"

lemma found_data: "table_ok w \<Longrightarrow> found w d = Some (a, d') \<Longrightarrow> d' = d"
  using pool.tab.lookup_equal [of "bufs w" "(0, d)" "(a, d')"] by (simp add: found_def)

lemma found_insert:
  assumes "table_ok w" and "lh_insert_to pool_hash pool_cmp e (bufs w) (a, d) = (True, old, t)"
  shows "table_ok (w\<lparr>bufs := t\<rparr>) \<and>
    found (w\<lparr>bufs := t\<rparr>) = (\<lambda>d'. if d = d' then Some (a, d) else found w d')"
  using pool.tab.insert_ok [OF assms] by (auto simp: found_def fun_eq_iff)

lemma found_delete:
  assumes "table_ok w" and "lh_delete_from pool_hash pool_cmp e (bufs w) (a, d) = (r, t)"
  shows "table_ok (w\<lparr>bufs := t\<rparr>) \<and> r = found w d \<and>
    found (w\<lparr>bufs := t\<rparr>) = (\<lambda>d'. if d = d' then None else found w d')"
proof -
  note del = pool.tab.delete_ok [OF assms]
  then have "r = found w d" using retrieve_found [of w a d] by simp
  with del show ?thesis by (auto simp: found_def fun_eq_iff)
qed

section \<open>Threads\<close>

text \<open>
  A thread is between calls, or inside \<open>CRYPTO_BUFFER_new\<close> with a new buffer it has not yet
  published. \<open>held\<close> counts the references each buffer's users hold; users release only
  references they hold.
\<close>

datatype pc = Idle | Publishing nat

record pool_sys =
  world :: pool_world
  pcs :: "nat \<Rightarrow> pc"
  held :: "nat \<Rightarrow> nat"

inductive pool_step :: "pool_sys \<Rightarrow> pool_sys \<Rightarrow> bool" where
  new_found: "pcs s t = Idle \<Longrightarrow> buffer_lookup d (world s) = (Some a, w) \<Longrightarrow>
     pool_step s (s\<lparr>world := w, held := (held s)(a := held s a + 1)\<rparr>)"
| new_created: "pcs s t = Idle \<Longrightarrow> buffer_lookup d (world s) = (None, w1) \<Longrightarrow>
     heap (world s) a = None \<Longrightarrow> buffer_create m1 m2 a True d w1 = (Some a, w) \<Longrightarrow>
     pool_step s (s\<lparr>world := w, pcs := (pcs s)(t := Publishing a)\<rparr>)"
| new_published: "pcs s t = Publishing a \<Longrightarrow> buffer_publish e a (world s) = (ok, Some a', w) \<Longrightarrow>
     pool_step s (s\<lparr>world := w, pcs := (pcs s)(t := Idle), held := (held s)(a' := held s a' + 1)\<rparr>)"
| new_failed: "pcs s t = Publishing a \<Longrightarrow> buffer_publish e a (world s) = (ok, None, w) \<Longrightarrow>
     pool_step s (s\<lparr>world := w, pcs := (pcs s)(t := Idle)\<rparr>)"
| new_plain: "pcs s t = Idle \<Longrightarrow> heap (world s) a = None \<Longrightarrow>
     buffer_create m1 m2 a False d (world s) = (Some a, w) \<Longrightarrow>
     pool_step s (s\<lparr>world := w, held := (held s)(a := 1)\<rparr>)"
| up_ref: "0 < held s a \<Longrightarrow>
     pool_step s (s\<lparr>world := CRYPTO_BUFFER_up_ref a (world s), held := (held s)(a := held s a + 1)\<rparr>)"
| release: "0 < held s a \<Longrightarrow> CRYPTO_BUFFER_free e a (world s) = Some (ok, w) \<Longrightarrow>
     pool_step s (s\<lparr>world := w, held := (held s)(a := held s a - 1)\<rparr>)"

inductive pool_reachable :: "pool_sys \<Rightarrow> bool" where
  start: "CRYPTO_BUFFER_POOL_new m1 m2 m3 (\<lambda>_. None) = Some w \<Longrightarrow>
     pool_reachable \<lparr>world = w, pcs = (\<lambda>_. Idle), held = (\<lambda>_. 0)\<rparr>"
| step: "pool_reachable s \<Longrightarrow> pool_step s s' \<Longrightarrow> pool_reachable s'"

inductive_cases releaseE: "pool_step s (s\<lparr>world := w, held := (held s)(a := held s a - 1)\<rparr>)"

section \<open>The invariant\<close>

definition counted :: "crypto_buffer \<Rightarrow> nat \<Rightarrow> bool" where
  "counted b n \<longleftrightarrow> references b = CRYPTO_REFCOUNT_MAX \<or> unat (references b) = n \<and> 0 < n"

definition published :: "pool_sys \<Rightarrow> nat \<Rightarrow> bool" where
  "published s a \<longleftrightarrow> (\<forall>t. pcs s t \<noteq> Publishing a)"

lemma published_held [simp]: "published (s\<lparr>held := h\<rparr>) a = published s a"
  by (simp add: published_def)

lemma published_world [simp]: "published (s\<lparr>world := w\<rparr>) a = published s a"
  by (simp add: published_def)

lemma published_start:
  assumes "pcs s i = Idle"
  shows "published (s\<lparr>world := w, pcs := (pcs s)(i := Publishing a)\<rparr>) x \<longleftrightarrow> x \<noteq> a \<and> published s x"
proof
  assume p: "published (s\<lparr>world := w, pcs := (pcs s)(i := Publishing a)\<rparr>) x"
  have "pcs s t \<noteq> Publishing x" for t
    using p [unfolded published_def, rule_format, of t] assms by (cases "t = i") simp_all
  moreover have "x \<noteq> a" using p [unfolded published_def, rule_format, of i] by auto
  ultimately show "x \<noteq> a \<and> published s x" by (simp add: published_def)
qed (simp add: published_def)

lemma published_end:
  assumes "pcs s i = Publishing a" and "\<forall>j. pcs s j = Publishing a \<longrightarrow> j = i"
  shows "published (s\<lparr>world := w, pcs := (pcs s)(i := Idle)\<rparr>) x \<longleftrightarrow> x = a \<or> published s x"
proof
  assume p: "published (s\<lparr>world := w, pcs := (pcs s)(i := Idle)\<rparr>) x"
  have "pcs s t \<noteq> Publishing x" if "x \<noteq> a" for t
    using p [unfolded published_def, rule_format, of t] assms(1) that by (cases "t = i") auto
  then show "x = a \<or> published s x" by (auto simp: published_def)
qed (use assms(2) in \<open>auto simp: published_def\<close>)

definition pool_inv :: "pool_sys \<Rightarrow> bool" where
  "pool_inv s \<longleftrightarrow> table_ok (world s) \<and>
     (\<forall>d a d'. found (world s) d = Some (a, d') \<longrightarrow>
        published s a \<and> (\<exists>b. heap (world s) a = Some b \<and> buf_pooled b \<and> buf_data b = d)) \<and>
     (\<forall>a b. heap (world s) a = Some b \<and> published s a \<longrightarrow> counted b (held s a) \<and>
        (buf_pooled b \<longrightarrow> found (world s) (buf_data b) = Some (a, buf_data b))) \<and>
     (\<forall>t a. pcs s t = Publishing a \<longrightarrow> held s a = 0 \<and>
        (\<exists>b. heap (world s) a = Some b \<and> buf_pooled b \<and> references b = 1) \<and>
        (\<forall>t'. pcs s t' = Publishing a \<longrightarrow> t' = t)) \<and>
     (\<forall>a. 0 < held s a \<longrightarrow> heap (world s) a \<noteq> None)"

lemma counted_inc: "counted b n \<Longrightarrow> counted (b\<lparr>references := CRYPTO_refcount_inc (references b)\<rparr>) (n + 1)"
proof (cases "references b = CRYPTO_REFCOUNT_MAX")
  case False
  assume "counted b n"
  with False have n: "unat (references b) = n" "0 < n" by (simp_all add: counted_def)
  have "unat (references b) < 2 ^ 32" using unsigned_less [of "references b"] by simp
  moreover have "unat (references b) \<noteq> 2 ^ 32 - 1"
    using False by (simp add: CRYPTO_REFCOUNT_MAX_def word_unat_eq_iff)
  ultimately have lt: "unat (references b) < 2 ^ 32 - 1" by simp
  then have "unat (references b + 1) = n + 1" using n(1) by (simp add: unat_word_ariths)
  moreover have "references b < CRYPTO_REFCOUNT_MAX"
    using lt by (simp add: CRYPTO_REFCOUNT_MAX_def word_less_nat_alt)
  ultimately show ?thesis by (simp add: counted_def CRYPTO_refcount_inc_def)
qed (simp add: counted_def CRYPTO_refcount_inc_def)

lemma counted_dec:
  assumes "counted b n" and "0 < n"
  shows "\<exists>zero c. CRYPTO_refcount_dec_and_test_zero (references b) = Some (zero, c) \<and>
    (zero \<longrightarrow> n = 1) \<and> (\<not> zero \<longrightarrow> counted (b\<lparr>references := c\<rparr>) (n - 1))"
proof (cases "references b = CRYPTO_REFCOUNT_MAX")
  case True
  then show ?thesis
    by (intro exI [of _ False] exI [of _ CRYPTO_REFCOUNT_MAX])
      (simp add: counted_def CRYPTO_refcount_dec_and_test_zero_def CRYPTO_REFCOUNT_MAX_def)
next
  case False
  with assms have n: "unat (references b) = n" by (simp add: counted_def)
  then have nz: "references b \<noteq> 0" using assms(2) by auto
  have lt: "references b < CRYPTO_REFCOUNT_MAX"
  proof -
    have "unat (references b) < 2 ^ 32" using unsigned_less [of "references b"] by simp
    moreover have "unat (references b) \<noteq> 2 ^ 32 - 1"
      using False by (simp add: CRYPTO_REFCOUNT_MAX_def word_unat_eq_iff)
    ultimately show ?thesis by (simp add: CRYPTO_REFCOUNT_MAX_def word_less_nat_alt)
  qed
  have "unat (references b - 1) = n - 1"
    using n assms(2) by (simp add: unat_sub_if')
  moreover from this have "references b - 1 = 0 \<longleftrightarrow> n = 1"
    using assms(2) by (auto simp: word_unat_eq_iff)
  ultimately show ?thesis
    using nz lt assms(2) by (auto simp: counted_def CRYPTO_refcount_dec_and_test_zero_def Let_def)
qed


lemma pool_invD:
  assumes "pool_inv s"
  shows "table_ok (world s)"
    and "found (world s) d = Some (a, d') \<Longrightarrow> published s a \<and> d' = d \<and>
      (\<exists>b. heap (world s) a = Some b \<and> buf_pooled b \<and> buf_data b = d)"
    and "heap (world s) a = Some b \<Longrightarrow> published s a \<Longrightarrow> counted b (held s a) \<and>
      (buf_pooled b \<longrightarrow> found (world s) (buf_data b) = Some (a, buf_data b))"
    and "pcs s t = Publishing a \<Longrightarrow> held s a = 0 \<and>
      (\<exists>b. heap (world s) a = Some b \<and> buf_pooled b \<and> references b = 1) \<and>
      (\<forall>t'. pcs s t' = Publishing a \<longrightarrow> t' = t)"
    and "0 < held s a \<Longrightarrow> heap (world s) a \<noteq> None"
  using assms found_data unfolding pool_inv_def by blast+

lemma pool_invI:
  assumes "table_ok (world s)"
    and "\<And>d a d'. found (world s) d = Some (a, d') \<Longrightarrow>
      published s a \<and> (\<exists>b. heap (world s) a = Some b \<and> buf_pooled b \<and> buf_data b = d)"
    and "\<And>a b. heap (world s) a = Some b \<Longrightarrow> published s a \<Longrightarrow> counted b (held s a) \<and>
      (buf_pooled b \<longrightarrow> found (world s) (buf_data b) = Some (a, buf_data b))"
    and "\<And>t a. pcs s t = Publishing a \<Longrightarrow> held s a = 0 \<and>
      (\<exists>b. heap (world s) a = Some b \<and> buf_pooled b \<and> references b = 1) \<and>
      (\<forall>t'. pcs s t' = Publishing a \<longrightarrow> t' = t)"
    and "\<And>a. 0 < held s a \<Longrightarrow> heap (world s) a \<noteq> None"
  shows "pool_inv s"
  using assms unfolding pool_inv_def by blast

text \<open>Replacing one published buffer by one with the same bytes, as reference counting does.\<close>

lemma pool_inv_recount:
  assumes inv: "pool_inv s" and b: "heap (world s) a = Some b" and pub: "published s a"
    and t: "bufs w = bufs (world s)" and h: "heap w = (heap (world s))(a \<mapsto> b\<lparr>references := c\<rparr>)"
    and c: "counted (b\<lparr>references := c\<rparr>) n"
  shows "pool_inv (s\<lparr>world := w, held := (held s)(a := n)\<rparr>)"
proof (rule pool_invI)
  let ?s = "s\<lparr>world := w, held := (held s)(a := n)\<rparr>"
  have f: "found w = found (world s)" by (simp add: found_def fun_eq_iff t)
  note D = pool_invD [OF inv]
  show "table_ok (world ?s)" using D(1) t by simp
  show "published ?s x \<and> (\<exists>b. heap (world ?s) x = Some b \<and> buf_pooled b \<and> buf_data b = d)"
    if "found (world ?s) d = Some (x, d')" for d x d'
    using D(2) [of d x d'] that b h by (auto simp: f)
  show "counted b' (held ?s x) \<and> (buf_pooled b' \<longrightarrow> found (world ?s) (buf_data b') = Some (x, buf_data b'))"
    if "heap (world ?s) x = Some b'" "published ?s x" for x b'
    using D(3) [of x] D(3) [OF b pub] that c h by (auto simp: f split: if_splits)
  show "held ?s x = 0 \<and> (\<exists>b. heap (world ?s) x = Some b \<and> buf_pooled b \<and> references b = 1) \<and>
      (\<forall>t'. pcs ?s t' = Publishing x \<longrightarrow> t' = t)" if "pcs ?s t = Publishing x" for t x
    using D(4) [of t x] that pub h by (auto simp: published_def)
  show "heap (world ?s) x \<noteq> None" if "0 < held ?s x" for x
    using D(5) [of x] that h by (auto split: if_splits)
qed

lemma pool_inv_up_ref:
  assumes inv: "pool_inv s" and b: "heap (world s) a = Some b" and pub: "published s a"
  shows "pool_inv (s\<lparr>world := CRYPTO_BUFFER_up_ref a (world s), held := (held s)(a := held s a + 1)\<rparr>)"
  using counted_inc [of b "held s a"] pool_invD(3) [OF inv b pub]
  by (intro pool_inv_recount [OF inv b pub])
    (simp_all add: CRYPTO_BUFFER_up_ref_def set_references_def b)

lemma held_published:
  assumes inv: "pool_inv s" and h: "0 < held s a"
  shows "published s a \<and> heap (world s) a \<noteq> None"
proof -
  have "pcs s t \<noteq> Publishing a" for t using pool_invD(4) [OF inv, of t a] h by auto
  then show ?thesis using pool_invD(5) [OF inv h] by (simp add: published_def)
qed

text \<open>A new buffer, unpublished or outside the pool.\<close>

lemma create_SomeD:
  "buffer_create m1 m2 a pooled d w = (Some a', w') \<Longrightarrow>
     a' = a \<and> w' = w\<lparr>heap := (heap w)(a \<mapsto> \<lparr>buf_pooled = pooled, buf_data = d, references = 1\<rparr>)\<rparr>"
  by (auto simp: buffer_create_def split: option.splits if_splits)

lemma fresh_unused:
  assumes "pool_inv s" and "heap (world s) a = None"
  shows "held s a = 0 \<and> published s a \<and> found (world s) d \<noteq> Some (a, d')"
proof -
  note D = pool_invD [OF assms(1)]
  have "held s a = 0" using D(5) [of a] assms(2) by (cases "held s a") auto
  moreover have "pcs s t \<noteq> Publishing a" for t using D(4) [of t a] assms(2) by auto
  moreover have "found (world s) d \<noteq> Some (a, d')" using D(2) [of d a d'] assms(2) by auto
  ultimately show ?thesis by (simp add: published_def)
qed

lemma pool_inv_created:
  assumes inv: "pool_inv s" and idle: "pcs s i = Idle" and fresh: "heap (world s) a = None"
    and t: "bufs w = bufs (world s)"
    and w: "heap w = (heap (world s))(a \<mapsto> \<lparr>buf_pooled = True, buf_data = d, references = 1\<rparr>)"
  shows "pool_inv (s\<lparr>world := w, pcs := (pcs s)(i := Publishing a)\<rparr>)"
proof (rule pool_invI)
  let ?s = "s\<lparr>world := w, pcs := (pcs s)(i := Publishing a)\<rparr>"
  note D = pool_invD [OF inv] and F = fresh_unused [OF inv fresh]
  have f: "found w = found (world s)" by (simp add: found_def fun_eq_iff t)
  have p: "published ?s x \<longleftrightarrow> x \<noteq> a \<and> published s x" for x
    by (rule published_start [OF idle])
  show "table_ok (world ?s)" using D(1) t by simp
  show "published ?s x \<and> (\<exists>b. heap (world ?s) x = Some b \<and> buf_pooled b \<and> buf_data b = d')"
    if "found (world ?s) d' = Some (x, d'')" for d' x d''
    using D(2) [of d' x d''] F [of d' d''] that by (auto simp: f p w)
  show "counted b (held ?s x) \<and> (buf_pooled b \<longrightarrow> found (world ?s) (buf_data b) = Some (x, buf_data b))"
    if "heap (world ?s) x = Some b" "published ?s x" for x b
    using D(3) [of x b] that by (auto simp: f p w)
  show "held ?s x = 0 \<and> (\<exists>b. heap (world ?s) x = Some b \<and> buf_pooled b \<and> references b = 1) \<and>
      (\<forall>t''. pcs ?s t'' = Publishing x \<longrightarrow> t'' = t')" if "pcs ?s t' = Publishing x" for t' x
  proof (cases "t' = i")
    case True
    then have x: "x = a" using that by simp
    have "pcs s t'' \<noteq> Publishing a" for t'' using F [of d d] by (simp add: published_def)
    then show ?thesis using F [of d d] True by (auto simp: x w)
  next
    case False
    then have p: "pcs s t' = Publishing x" using that by simp
    then have "x \<noteq> a" using F [of d d] by (auto simp: published_def)
    then show ?thesis using D(4) [OF p] by (auto simp: w)
  qed
  show "heap (world ?s) x \<noteq> None" if "0 < held ?s x" for x
    using D(5) [of x] that by (auto simp: w)
qed

lemma pool_inv_plain:
  assumes inv: "pool_inv s" and fresh: "heap (world s) a = None"
    and t: "bufs w = bufs (world s)"
    and w: "heap w = (heap (world s))(a \<mapsto> \<lparr>buf_pooled = False, buf_data = d, references = 1\<rparr>)"
  shows "pool_inv (s\<lparr>world := w, held := (held s)(a := 1)\<rparr>)"
proof (rule pool_invI)
  let ?s = "s\<lparr>world := w, held := (held s)(a := 1)\<rparr>"
  note D = pool_invD [OF inv] and F = fresh_unused [OF inv fresh]
  have f: "found w = found (world s)" by (simp add: found_def fun_eq_iff t)
  show "table_ok (world ?s)" using D(1) t by simp
  show "published ?s x \<and> (\<exists>b. heap (world ?s) x = Some b \<and> buf_pooled b \<and> buf_data b = d')"
    if "found (world ?s) d' = Some (x, d'')" for d' x d''
    using D(2) [of d' x d''] F [of d' d''] that by (auto simp: f w)
  show "counted b (held ?s x) \<and> (buf_pooled b \<longrightarrow> found (world ?s) (buf_data b) = Some (x, buf_data b))"
    if "heap (world ?s) x = Some b" "published ?s x" for x b
    using D(3) [of x b] that by (auto simp: f w counted_def split: if_splits)
  show "held ?s x = 0 \<and> (\<exists>b. heap (world ?s) x = Some b \<and> buf_pooled b \<and> references b = 1) \<and>
      (\<forall>t''. pcs ?s t'' = Publishing x \<longrightarrow> t'' = t')" if "pcs ?s t' = Publishing x" for t' x
    using D(4) [of t' x] F that by (auto simp: w published_def)
  show "heap (world ?s) x \<noteq> None" if "0 < held ?s x" for x
    using D(5) [of x] that by (auto simp: w split: if_splits)
qed

text \<open>Publishing: the new buffer is dropped, or it enters the table.\<close>

lemma pool_inv_dropped:
  assumes inv: "pool_inv s" and pc: "pcs s i = Publishing a"
    and t: "bufs w = bufs (world s)" and w: "heap w = (heap (world s))(a := None)"
  shows "pool_inv (s\<lparr>world := w, pcs := (pcs s)(i := Idle)\<rparr>)"
proof (rule pool_invI)
  let ?s = "s\<lparr>world := w, pcs := (pcs s)(i := Idle)\<rparr>"
  note D = pool_invD [OF inv]
  have only: "\<forall>j. pcs s j = Publishing a \<longrightarrow> j = i" using D(4) [OF pc] by blast
  have f: "found w = found (world s)" by (simp add: found_def fun_eq_iff t)
  have p: "published ?s x \<longleftrightarrow> x = a \<or> published s x" for x
    by (rule published_end [OF pc only])
  show "table_ok (world ?s)" using D(1) t by simp
  show "published ?s x \<and> (\<exists>b. heap (world ?s) x = Some b \<and> buf_pooled b \<and> buf_data b = d')"
    if "found (world ?s) d' = Some (x, d'')" for d' x d''
  proof -
    have "published s x" "\<exists>b. heap (world s) x = Some b \<and> buf_pooled b \<and> buf_data b = d'"
      using D(2) [of d' x d''] that f by simp_all
    moreover have "x \<noteq> a" using calculation(1) pc by (auto simp: published_def)
    ultimately show ?thesis by (simp add: p w)
  qed
  show "counted b (held ?s x) \<and> (buf_pooled b \<longrightarrow> found (world ?s) (buf_data b) = Some (x, buf_data b))"
    if "heap (world ?s) x = Some b" "published ?s x" for x b
    using D(3) [of x b] that by (auto simp: f p w split: if_splits)
  show "held ?s x = 0 \<and> (\<exists>b. heap (world ?s) x = Some b \<and> buf_pooled b \<and> references b = 1) \<and>
      (\<forall>t''. pcs ?s t'' = Publishing x \<longrightarrow> t'' = t')" if "pcs ?s t' = Publishing x" for t' x
  proof -
    have q: "pcs s t' = Publishing x" "t' \<noteq> i" using that by (simp_all split: if_splits)
    then have "x \<noteq> a" using only by blast
    then show ?thesis using D(4) [OF q(1)] by (auto simp: w)
  qed
  show "heap (world ?s) x \<noteq> None" if "0 < held ?s x" for x
    using D(5) [of x] D(4) [OF pc] that by (auto simp: w)
qed

lemma pool_inv_published:
  assumes inv: "pool_inv s" and pc: "pcs s i = Publishing a" and b: "heap (world s) a = Some b"
    and new: "found (world s) (buf_data b) = None"
    and ok: "table_ok w" and f: "found w = (found (world s))(buf_data b \<mapsto> (a, buf_data b))"
    and w: "heap w = heap (world s)"
  shows "pool_inv (s\<lparr>world := w, pcs := (pcs s)(i := Idle), held := (held s)(a := held s a + 1)\<rparr>)"
proof (rule pool_invI)
  let ?s = "s\<lparr>world := w, pcs := (pcs s)(i := Idle), held := (held s)(a := held s a + 1)\<rparr>"
  note D = pool_invD [OF inv]
  have only: "\<forall>j. pcs s j = Publishing a \<longrightarrow> j = i" using D(4) [OF pc] by blast
  have a: "held s a = 0" "buf_pooled b" "references b = 1" using D(4) [OF pc] b by auto
  have p: "published (s\<lparr>world := w, pcs := (pcs s)(i := Idle)\<rparr>) x \<longleftrightarrow> x = a \<or> published s x" for x
    by (rule published_end [OF pc only])
  show "table_ok (world ?s)" using ok by simp
  show "published ?s x \<and> (\<exists>b. heap (world ?s) x = Some b \<and> buf_pooled b \<and> buf_data b = d')"
    if "found (world ?s) d' = Some (x, d'')" for d' x d''
    using D(2) [of d' x d''] that a b by (auto simp: f p w split: if_splits)
  show "counted b' (held ?s x) \<and> (buf_pooled b' \<longrightarrow> found (world ?s) (buf_data b') = Some (x, buf_data b'))"
    if "heap (world ?s) x = Some b'" "published ?s x" for x b'
  proof (cases "x = a")
    case True
    then show ?thesis using that a b by (auto simp: f w counted_def)
  next
    case False
    then have "counted b' (held s x) \<and>
        (buf_pooled b' \<longrightarrow> found (world s) (buf_data b') = Some (x, buf_data b'))"
      using D(3) [of x b'] that by (simp add: p w)
    then show ?thesis using new False by (auto simp: f)
  qed
  show "held ?s x = 0 \<and> (\<exists>b. heap (world ?s) x = Some b \<and> buf_pooled b \<and> references b = 1) \<and>
      (\<forall>t''. pcs ?s t'' = Publishing x \<longrightarrow> t'' = t')" if "pcs ?s t' = Publishing x" for t' x
  proof -
    have q: "pcs s t' = Publishing x" "t' \<noteq> i" using that by (simp_all split: if_splits)
    then have "x \<noteq> a" using only by blast
    then show ?thesis using D(4) [OF q(1)] by (auto simp: w)
  qed
  show "heap (world ?s) x \<noteq> None" if "0 < held ?s x" for x
    using D(5) [of x] b that by (auto simp: w split: if_splits)
qed

text \<open>Releasing the last reference of a buffer takes it out of the table and the heap.\<close>

lemma pool_inv_removed:
  assumes inv: "pool_inv s" and b: "heap (world s) a = Some b" and pub: "published s a"
    and ok: "table_ok w" and w: "heap w = (heap (world s))(a := None)"
    and f: "found w = (if buf_pooled b then (found (world s))(buf_data b := None) else found (world s))"
  shows "pool_inv (s\<lparr>world := w, held := (held s)(a := 0)\<rparr>)"
proof (rule pool_invI)
  let ?s = "s\<lparr>world := w, held := (held s)(a := 0)\<rparr>"
  note D = pool_invD [OF inv]
  show "table_ok (world ?s)" using ok by simp
  show "published ?s x \<and> (\<exists>b. heap (world ?s) x = Some b \<and> buf_pooled b \<and> buf_data b = d')"
    if fx: "found (world ?s) d' = Some (x, d'')" for d' x d''
  proof -
    have o: "found (world s) d' = Some (x, d'')" and nb: "buf_pooled b \<Longrightarrow> d' \<noteq> buf_data b"
      using fx by (auto simp: f split: if_splits)
    obtain b' where q: "published s x" "heap (world s) x = Some b'" "buf_pooled b'" "buf_data b' = d'"
      using D(2) [OF o] by blast
    moreover have "x \<noteq> a" using q b nb by auto
    ultimately show ?thesis by (simp add: w)
  qed
  show "counted b' (held ?s x) \<and> (buf_pooled b' \<longrightarrow> found (world ?s) (buf_data b') = Some (x, buf_data b'))"
    if "heap (world ?s) x = Some b'" "published ?s x" for x b'
  proof -
    have x: "x \<noteq> a" "heap (world s) x = Some b'" "published s x"
      using that by (auto simp: w split: if_splits)
    note q = D(3) [OF x(2,3)]
    have "buf_pooled b \<Longrightarrow> found (world s) (buf_data b) = Some (a, buf_data b)"
      using D(3) [OF b pub] by simp
    then show ?thesis using q x(1) by (auto simp: f)
  qed
  show "held ?s x = 0 \<and> (\<exists>b. heap (world ?s) x = Some b \<and> buf_pooled b \<and> references b = 1) \<and>
      (\<forall>t''. pcs ?s t'' = Publishing x \<longrightarrow> t'' = t')" if "pcs ?s t' = Publishing x" for t' x
  proof -
    have q: "pcs s t' = Publishing x" using that by simp
    then have "x \<noteq> a" using pub by (auto simp: published_def)
    then show ?thesis using D(4) [OF q] by (auto simp: w)
  qed
  show "heap (world ?s) x \<noteq> None" if "0 < held ?s x" for x
    using D(5) [of x] that by (auto simp: w split: if_splits)
qed

section \<open>Each step\<close>

lemma publish_steps:
  assumes inv: "pool_inv s" and pc: "pcs s i = Publishing a"
    and r: "buffer_publish e a (world s) = (ok, r, w)"
  shows "ok \<and> pool_inv (case r of
      None \<Rightarrow> s\<lparr>world := w, pcs := (pcs s)(i := Idle)\<rparr>
    | Some a' \<Rightarrow> s\<lparr>world := w, pcs := (pcs s)(i := Idle), held := (held s)(a' := held s a' + 1)\<rparr>)"
proof -
  note D = pool_invD [OF inv]
  obtain b where b: "heap (world s) a = Some b" using D(4) [OF pc] by blast
  show ?thesis
  proof (cases "found (world s) (buf_data b)")
    case (Some p)
    obtain dup d where p: "p = (dup, d)" by fastforce
    have dp: "found (world s) (buf_data b) = Some (dup, d)" using Some p by simp
    note q = D(2) [OF dp]
    obtain c where c: "heap (world s) dup = Some c" using q by blast
    have ne: "dup \<noteq> a" using q pc by (auto simp: published_def)
    let ?s = "s\<lparr>world := CRYPTO_BUFFER_up_ref dup (world s), held := (held s)(dup := held s dup + 1)\<rparr>"
    have up: "CRYPTO_BUFFER_up_ref dup (world s) = (world s)\<lparr>heap := (heap (world s))(dup \<mapsto>
        c\<lparr>references := CRYPTO_refcount_inc (references c)\<rparr>)\<rparr>"
      by (simp add: CRYPTO_BUFFER_up_ref_def set_references_def c)
    have w: "ok" "r = Some dup" "w = (world ?s)\<lparr>heap := (heap (world ?s))(a := None)\<rparr>"
      using r b dp by (simp_all add: buffer_publish_def retrieve_found)
    have inv': "pool_inv ?s" using pool_inv_up_ref [OF inv c] q by blast
    have "pool_inv (?s\<lparr>world := w, pcs := (pcs ?s)(i := Idle)\<rparr>)"
      by (rule pool_inv_dropped [OF inv']) (simp_all add: w pc)
    moreover have "?s\<lparr>world := w, pcs := (pcs ?s)(i := Idle)\<rparr> =
        s\<lparr>world := w, pcs := (pcs s)(i := Idle), held := (held s)(dup := held s dup + 1)\<rparr>"
      by (cases s) simp
    ultimately have "pool_inv (s\<lparr>world := w, pcs := (pcs s)(i := Idle), held := (held s)(dup := held s dup + 1)\<rparr>)"
      by (simp only:)
    then show ?thesis using w(1,2) by simp
  next
    case None
    obtain ins old t where i: "lh_insert_to pool_hash pool_cmp e (bufs (world s)) (a, buf_data b) = (ins, old, t)"
      by (rule prod_cases3)
    have old: "old = None"
      using pool.tab.insert_ok [OF D(1), of e "(a, buf_data b)" old t]
        pool.tab.insert_fail [OF D(1), of e "(a, buf_data b)" old t] i None
      by (cases ins) (simp_all add: retrieve_found)
    show ?thesis
    proof (cases ins)
      case True
      then have w: "ok" "r = Some a" "w = (world s)\<lparr>bufs := t\<rparr>"
        using r b None i old by (simp_all add: buffer_publish_def retrieve_found)
      have n: "table_ok w \<and> found w = (\<lambda>d'. if buf_data b = d' then Some (a, buf_data b) else found (world s) d')"
        using found_insert [OF D(1)] i True w(3) by simp
      have "pool_inv (s\<lparr>world := w, pcs := (pcs s)(i := Idle), held := (held s)(a := held s a + 1)\<rparr>)"
        by (rule pool_inv_published [OF inv pc b None]) (use n w(3) in \<open>auto simp: fun_eq_iff\<close>)
      then show ?thesis using w(1,2) by simp
    next
      case False
      then have t: "t = bufs (world s)"
        using pool.tab.insert_fail [OF D(1), of e "(a, buf_data b)" old t] i by simp
      then have w: "ok" "r = None" "w = (world s)\<lparr>heap := (heap (world s))(a := None)\<rparr>"
        using r b None i False old by (auto simp add: buffer_publish_def retrieve_found)
      have "pool_inv (s\<lparr>world := w, pcs := (pcs s)(i := Idle)\<rparr>)"
        by (rule pool_inv_dropped [OF inv pc]) (simp_all add: w)
      then show ?thesis using w(1,2) by simp
    qed
  qed
qed

lemma release_steps:
  assumes inv: "pool_inv s" and h: "0 < held s a"
  shows "\<exists>w. CRYPTO_BUFFER_free e a (world s) = Some (True, w) \<and>
    pool_inv (s\<lparr>world := w, held := (held s)(a := held s a - 1)\<rparr>)"
proof -
  note D = pool_invD [OF inv]
  have pub: "published s a" using held_published [OF inv h] by blast
  obtain b where b: "heap (world s) a = Some b" using held_published [OF inv h] by blast
  note c = D(3) [OF b pub]
  obtain zero n where n: "CRYPTO_refcount_dec_and_test_zero (references b) = Some (zero, n)"
    "zero \<longrightarrow> held s a = 1" "\<not> zero \<longrightarrow> counted (b\<lparr>references := n\<rparr>) (held s a - 1)"
    using counted_dec [of b "held s a"] c h by blast
  define w1 where "w1 = set_references a n (world s)"
  have w1: "bufs w1 = bufs (world s)" "heap w1 = (heap (world s))(a \<mapsto> b\<lparr>references := n\<rparr>)"
    by (simp_all add: w1_def set_references_def b)
  consider "\<not> zero" | "zero" "\<not> buf_pooled b" | "zero" "buf_pooled b" by blast
  then show ?thesis
  proof cases
    case 1
    then have "CRYPTO_BUFFER_free e a (world s) = Some (True, w1)"
      by (simp add: CRYPTO_BUFFER_free_def b n(1) Let_def w1_def)
    moreover have "pool_inv (s\<lparr>world := w1, held := (held s)(a := held s a - 1)\<rparr>)"
      using n(3) 1 by (intro pool_inv_recount [OF inv b pub w1]) simp
    ultimately show ?thesis by blast
  next
    case 2
    let ?w = "w1\<lparr>heap := (heap w1)(a := None)\<rparr>"
    have "CRYPTO_BUFFER_free e a (world s) = Some (True, ?w)"
      using 2 by (simp add: CRYPTO_BUFFER_free_def b n(1) Let_def w1_def)
    moreover have "pool_inv (s\<lparr>world := ?w, held := (held s)(a := 0)\<rparr>)"
      using 2 D(1) w1 by (intro pool_inv_removed [OF inv b pub]) (simp_all add: found_def fun_eq_iff)
    ultimately show ?thesis using n(2) 2 by simp
  next
    case 3
    obtain r t where d: "lh_delete_from pool_hash pool_cmp e (bufs w1) (a, buf_data b) = (r, t)"
      by fastforce
    have ok1: "table_ok w1" using D(1) w1 by simp
    have f1: "found w1 = found (world s)" by (simp add: found_def fun_eq_iff w1)
    note q = found_delete [OF ok1 d]
    let ?w = "w1\<lparr>bufs := t, heap := (heap w1)(a := None)\<rparr>"
    have "r = Some (a, buf_data b)" using q c 3 by (simp add: f1)
    then have "CRYPTO_BUFFER_free e a (world s) = Some (True, ?w)"
      using 3 d by (simp add: CRYPTO_BUFFER_free_def b n(1) Let_def w1_def)
    moreover have "found ?w = (found (world s))(buf_data b := None)"
      using q f1 by (auto simp: found_def fun_eq_iff)
    then have "pool_inv (s\<lparr>world := ?w, held := (held s)(a := 0)\<rparr>)"
      using 3 q w1 by (intro pool_inv_removed [OF inv b pub]) simp_all
    ultimately show ?thesis using n(2) 3 by simp
  qed
qed

lemma found_steps:
  assumes inv: "pool_inv s" and r: "buffer_lookup d (world s) = (Some a, w)"
  shows "pool_inv (s\<lparr>world := w, held := (held s)(a := held s a + 1)\<rparr>)"
proof -
  obtain d' where f: "found (world s) d = Some (a, d')" and w: "w = CRYPTO_BUFFER_up_ref a (world s)"
    using r by (auto simp: buffer_lookup_def retrieve_found split: option.splits)
  obtain b where "heap (world s) a = Some b" "published s a" using pool_invD(2) [OF inv f] by blast
  then show ?thesis unfolding w by (rule pool_inv_up_ref [OF inv])
qed

lemma lookup_None: "buffer_lookup d w = (None, w1) \<Longrightarrow> w1 = w"
  by (auto simp: buffer_lookup_def split: option.splits)

lemma pool_step_inv: "pool_step s s' \<Longrightarrow> pool_inv s \<Longrightarrow> pool_inv s'"
proof (induction rule: pool_step.induct)
  case (new_found s t d a w)
  then show ?case using found_steps by blast
next
  case (new_created s t d w1 a m1 m2 w)
  then have "w1 = world s" using lookup_None by blast
  then show ?case using new_created create_SomeD [OF new_created(4)]
    by (intro pool_inv_created [where d = d]) simp_all
next
  case (new_published s t a e ok a' w)
  then show ?case using publish_steps [OF new_published(3,1,2)] by simp
next
  case (new_failed s t a e ok w)
  then show ?case using publish_steps [OF new_failed(3,1,2)] by simp
next
  case (new_plain s t a m1 m2 d w)
  then show ?case using create_SomeD [OF new_plain(3)]
    by (intro pool_inv_plain [where d = d]) simp_all
next
  case (up_ref s a)
  then show ?case using held_published [OF up_ref(2,1)] pool_inv_up_ref by blast
next
  case (release s a e ok w)
  then show ?case using release_steps [OF release(3,1), of e] by auto
qed

lemma lh_new_ok:
  "lh_new m1 m2 hf cf = Some t \<Longrightarrow> lh_ok call_hash call_cmp hf cf t \<and> contents t = {#}"
  by (auto simp: lh_new_def lh_ok_def contents_def placed_def separate_def split: option.splits)

lemma pool_reachable_inv: "pool_reachable s \<Longrightarrow> pool_inv s"
proof (induction rule: pool_reachable.induct)
  case (start m1 m2 m3 w)
  then obtain t where t: "lh_new m2 m3 0 0 = Some t" and w: "w = \<lparr>bufs = t, heap = (\<lambda>_. None)\<rparr>"
    by (auto simp: CRYPTO_BUFFER_POOL_new_def split: option.splits)
  have ok: "table_ok w" using lh_new_ok [OF t, of pool_hash pool_cmp] by (simp add: w)
  have "found w d = None" for d
    using pool.retrieve_iff [OF ok, of "(0, d)"] lh_new_ok [OF t, of pool_hash pool_cmp] by (cases "found w d") (auto simp: found_def w)
  with ok show ?case by (intro pool_invI) (simp_all add: w)
next
  case (step s s')
  then show ?case using pool_step_inv by blast
qed

end
