(* ===== verification/TableProps.thy ===== *)
theory TableProps
  imports PoolProps
begin

text \<open>
  The theorems about the hash table and the buffer pool: refinement of a map, iteration with
  deletion, and the safety of reference counting under any interleaving.
\<close>

section \<open>A sample table and a sample history of the pool\<close>

definition sample_item :: "pool_elem lhash_item" where
  "sample_item = \<lparr>it_data = (1, []), it_hash = 2166136261\<rparr>"

definition sample_table :: "pool_elem lhash_item list \<Rightarrow> pool_elem lhash" where
  "sample_table xs = \<lparr>num_items = length xs, buckets = (replicate 16 [])[5 := xs],
     num_buckets = 16, callback_depth = 0, lh_cmpf = 0, lh_hashf = 0\<rparr>"

lemma sample_malloc_Some:
  "OPENSSL_malloc sample_malloc sizeof_LHASH \<noteq> None"
  "OPENSSL_malloc sample_malloc 64 \<noteq> None"
  "OPENSSL_malloc sample_malloc (8 * of_nat kMinNumBuckets) \<noteq> None"
  "OPENSSL_malloc sample_malloc sizeof_LHASH_ITEM \<noteq> None"
  "OPENSSL_malloc sample_malloc sizeof_CRYPTO_BUFFER \<noteq> None"
  by (simp_all add: OPENSSL_malloc_def sample_malloc_def sizeof_LHASH_def kMinNumBuckets_def
      sizeof_LHASH_ITEM_def sizeof_CRYPTO_BUFFER_def OPENSSL_MALLOC_PREFIX_def)

lemma sample_table_Nil: "sample_table [] = \<lparr>num_items = 0, buckets = replicate 16 [],
     num_buckets = 16, callback_depth = 0, lh_cmpf = 0, lh_hashf = 0\<rparr>"
  by (simp add: sample_table_def list_update_same_conv)

lemma sample_new: "lh_new sample_malloc sample_malloc 0 0 = Some (sample_table [])"
  using sample_malloc_Some
  by (auto simp: lh_new_def sample_table_Nil kMinNumBuckets_def split: option.split)

lemma sample_pos:
  "get_next_ptr_and_hash pool_hash pool_cmp (sample_table xs) (a, []) =
     (2166136261, 5, chain_pos (\<lambda>cur. snd (it_data cur) = []) xs)"
  by (simp add: get_next_ptr_and_hash_def Let_def sample_table_def pool_hash_def
      CRYPTO_BUFFER_hash_def OPENSSL_hash32_def pool_cmp_def CRYPTO_BUFFER_cmp_zero)

lemma sample_retrieve:
  "lh_retrieve pool_hash pool_cmp (sample_table []) (a, []) = None"
  "lh_retrieve pool_hash pool_cmp (sample_table [sample_item]) (a, []) = Some (1, [])"
  by (simp_all add: lh_retrieve_def sample_pos deref_def)
    (simp_all add: sample_table_def sample_item_def)

lemma sample_fields [simp]:
  "num_items (sample_table xs) = length xs" "buckets (sample_table xs) ! 5 = xs"
  by (simp_all add: sample_table_def)

lemma sample_update:
  "(sample_table xs)\<lparr>buckets := (buckets (sample_table xs))[5 := ys], num_items := n\<rparr> =
     (sample_table ys)\<lparr>num_items := n\<rparr>"
  by (simp add: sample_table_def)

lemma sample_resize:
  assumes "n < 16"
  shows "lh_maybe_resize m ((sample_table xs)\<lparr>num_items := n\<rparr>) = (sample_table xs)\<lparr>num_items := n\<rparr>"
  using assms by (simp add: lh_maybe_resize_def sample_table_def kMaxAverageChainLength_def kMinNumBuckets_def)

lemma sample_count: "(sample_table xs)\<lparr>num_items := length xs\<rparr> = sample_table xs"
  by (simp add: sample_table_def)

lemma sample_insert:
  "lh_insert_to pool_hash pool_cmp (sample_malloc, sample_malloc) (sample_table []) (1, []) =
     (True, None, sample_table [sample_item])"
proof -
  obtain b where m: "OPENSSL_malloc sample_malloc sizeof_LHASH_ITEM = Some b"
    using sample_malloc_Some(4) by blast
  show ?thesis
    using sample_count [of "[sample_item]"]
    by (simp add: lh_insert_to_def lh_insert_def sample_pos deref_def m Let_def sample_update
        sample_resize sample_item_def)
qed

lemma sample_delete:
  "lh_delete_from pool_hash pool_cmp (sample_malloc, sample_malloc) (sample_table [sample_item]) (a, []) =
     (Some (1, []), sample_table [])"
  using sample_count [of "[]"]
  by (simp add: lh_delete_from_def lh_delete_def sample_pos deref_def Let_def sample_update
      sample_resize sample_item_def)

section \<open>The hash table\<close>

text \<open>
  C21: Any history of insertions, deletions and look-ups on a table made by \<open>lh_new\<close> answers as
  a partial map on the classes of equal elements does: an insertion returns and replaces the
  equal element that was there, or fails without a change when memory runs out; resizing is
  not observable, and the table stays well formed, with a correct count of its items.
\<close>

theorem lh_history_refines_map:
  assumes "hashing call_hash call_cmp hf cf" and "lh_new m1 m2 hf cf = Some lh"
    and "table_run (lh_retrieve call_hash call_cmp) (lh_insert_to call_hash call_cmp)
      (lh_delete_from call_hash call_cmp) lh xs = (lh', rs)"
  shows "lh_ok call_hash call_cmp hf cf lh' \<and> lh_num_items lh' = size (contents lh') \<and>
    map_run (equal_in call_cmp cf) (\<lambda>_. None) (map snd xs) rs (lh_retrieve call_hash call_cmp lh')"
proof -
  note new = lh_new_ok [OF assms(2), of call_hash call_cmp]
  have none: "lh_retrieve call_hash call_cmp lh = (\<lambda>_. None)"
  proof
    fix d
    show "lh_retrieve call_hash call_cmp lh d = None"
      using hashing.retrieve_iff [OF assms(1) conjunct1 [OF new], of d] new
      by (cases "lh_retrieve call_hash call_cmp lh d") auto
  qed
  show ?thesis
    using hashing.history_refines [OF assms(1) conjunct1 [OF new] assms(3)]
    by (simp add: none lh_num_items_def lh_ok_def)
qed

abbreviation sample_history :: "((libc \<times> libc) \<times> pool_elem table_op) list" where
  "sample_history \<equiv> [((sample_malloc, sample_malloc), Table_insert (1, [])),
     ((sample_malloc, sample_malloc), Table_retrieve (2, [])),
     ((sample_malloc, sample_malloc), Table_delete (3, []))]"

theorem lh_history_refines_map_witness:
  "lh_num_items (sample_table []) = size (contents (sample_table [])) \<and>
   map_run (equal_in pool_cmp 0) (\<lambda>_. None) (map snd sample_history)
     [Inserted True None, Found (Some (1, [])), Found (Some (1, []))]
     (lh_retrieve pool_hash pool_cmp (sample_table []))"
proof -
  have "table_run (lh_retrieve pool_hash pool_cmp) (lh_insert_to pool_hash pool_cmp)
      (lh_delete_from pool_hash pool_cmp) (sample_table []) sample_history =
    (sample_table [], [Inserted True None, Found (Some (1, [])), Found (Some (1, []))])"
    by (simp add: sample_insert [unfolded One_nat_def] sample_delete sample_retrieve)
  from lh_history_refines_map [OF pool.hashing_axioms sample_new this] show ?thesis by blast
qed

text \<open>
  C22: \<open>lh_doall_arg\<close> calls the callback once for each element of the table, in bucket order,
  even when the callback deletes the element it is called on; exactly the elements it did not
  delete remain, and the table is well formed again afterwards, resized if need be.
\<close>

theorem lh_doall_arg_visits:
  assumes "hashing call_hash call_cmp hf cf" and "lh_ok call_hash call_cmp hf cf lh"
    and "callback_depth lh < UINT_MAX" and "visit func (concat (buckets lh)) s = (s', kept)"
  shows "\<exists>lh'. lh_doall_arg m call_hash call_cmp func (Some lh) s = (Some lh', s') \<and>
    lh_ok call_hash call_cmp hf cf lh' \<and> contents lh' = mset kept"
  by (rule hashing.lh_doall_arg_spec [OF assms])

lemma sample_concat [simp]: "concat (buckets (sample_table xs)) = xs"
proof -
  have "buckets (sample_table xs) = replicate 5 [] @ xs # replicate 10 []"
    by (simp add: sample_table_def list_update_append eval_nat_numeral)
  then show ?thesis by (simp add: concat_replicate_Nil)
qed

lemma sample_ok: "lh_ok pool_hash pool_cmp 0 0 (sample_table [sample_item])"
  using pool.tab.insert_ok [OF conjunct1 [OF lh_new_ok [OF sample_new]] sample_insert] by blast

theorem lh_doall_arg_visits_witness:
  "\<exists>lh'. lh_doall_arg sample_malloc pool_hash pool_cmp (\<lambda>d s. (d # s, True))
      (Some (sample_table [sample_item])) [] = (Some lh', [(1, [])]) \<and>
    lh_ok pool_hash pool_cmp 0 0 lh' \<and> contents lh' = mset []"
proof (rule lh_doall_arg_visits [OF pool.hashing_axioms sample_ok])
  show "callback_depth (sample_table [sample_item]) < UINT_MAX"
    by (simp add: sample_table_def UINT_MAX_def)
  show "visit (\<lambda>d s. (d # s, True)) (concat (buckets (sample_table [sample_item]))) [] = ([(1, [])], [])"
    by (simp add: sample_item_def)
qed

section \<open>The pool\<close>

definition sample_buffer :: crypto_buffer where
  "sample_buffer = \<lparr>buf_pooled = True, buf_data = [], references = 1\<rparr>"

definition sample_pool :: pool_sys where
  "sample_pool = \<lparr>world = \<lparr>bufs = sample_table [sample_item], heap = [1 \<mapsto> sample_buffer]\<rparr>,
     pcs = (\<lambda>_. Idle), held = (\<lambda>_. 0)(1 := 1)\<rparr>"

lemma sample_pool_reachable: "pool_reachable sample_pool"
proof -
  obtain b where b: "OPENSSL_malloc sample_malloc 64 = Some b" using sample_malloc_Some(2) by blast
  obtain c where c: "OPENSSL_malloc sample_malloc sizeof_CRYPTO_BUFFER = Some c"
    using sample_malloc_Some(5) by blast
  let ?w = "\<lparr>bufs = sample_table [], heap = (\<lambda>_. None)\<rparr>"
  let ?s0 = "\<lparr>world = ?w, pcs = (\<lambda>_. Idle), held = (\<lambda>_. 0)\<rparr>"
  let ?w1 = "?w\<lparr>heap := [1 \<mapsto> sample_buffer]\<rparr>"
  let ?s1 = "?s0\<lparr>world := ?w1, pcs := (pcs ?s0)(0 := Publishing 1)\<rparr>"
  have s0: "pool_reachable ?s0"
    by (rule pool_reachable.start [of sample_malloc sample_malloc sample_malloc])
      (simp add: CRYPTO_BUFFER_POOL_new_def b sample_new)
  have "buffer_lookup [] (world ?s0) = (None, ?w)" by (simp add: buffer_lookup_def sample_retrieve)
  moreover have "buffer_create sample_malloc sample_malloc 1 True [] ?w = (Some 1, ?w1)"
    by (simp add: buffer_create_def c sample_buffer_def)
  ultimately have "pool_step ?s0 ?s1"
    by (intro pool_step.new_created [where d = "[]" and ?w1.0 = ?w]) simp_all
  with s0 have s1: "pool_reachable ?s1" by (rule pool_reachable.step)
  let ?s2 = "?s1\<lparr>world := \<lparr>bufs = sample_table [sample_item], heap = [1 \<mapsto> sample_buffer]\<rparr>,
      pcs := (pcs ?s1)(0 := Idle), held := (held ?s1)(1 := held ?s1 1 + 1)\<rparr>"
  have "buffer_publish (sample_malloc, sample_malloc) 1 (world ?s1) =
      (True, Some 1, \<lparr>bufs = sample_table [sample_item], heap = [1 \<mapsto> sample_buffer]\<rparr>)"
    using sample_insert
    by (simp add: buffer_publish_def sample_retrieve sample_buffer_def)
  then have "pool_step ?s1 ?s2" by (intro pool_step.new_published) simp_all
  with s1 have "pool_reachable ?s2" by (rule pool_reachable.step)
  moreover have "?s2 = sample_pool" by (simp add: sample_pool_def fun_eq_iff)
  ultimately show ?thesis by (simp only:)
qed

text \<open>
  C23: In every state that threads sharing a pool can reach, a buffer someone holds a reference
  to is alive, and releasing that reference neither aborts nor fails an assertion. The buffer
  stays while others hold references; the last release, unless the count has saturated, frees
  it and takes it out of the pool, so that no later look-up can return it.
\<close>

theorem pool_release_safe:
  assumes "pool_reachable s" and "0 < held s a"
  shows "\<exists>b w. heap (world s) a = Some b \<and> CRYPTO_BUFFER_free e a (world s) = Some (True, w) \<and>
    (1 < held s a \<longrightarrow> heap w a \<noteq> None) \<and>
    (held s a = 1 \<and> references b \<noteq> CRYPTO_REFCOUNT_MAX \<longrightarrow>
       heap w a = None \<and> (\<forall>d. fst (buffer_lookup d w) \<noteq> Some a))"
proof -
  note inv = pool_reachable_inv [OF assms(1)]
  obtain b where b: "heap (world s) a = Some b" and pub: "published s a"
    using held_published [OF inv assms(2)] by blast
  obtain w where w: "CRYPTO_BUFFER_free e a (world s) = Some (True, w)"
    and inv': "pool_inv (s\<lparr>world := w, held := (held s)(a := held s a - 1)\<rparr>)"
    using release_steps [OF inv assms(2)] by blast
  have "heap w a \<noteq> None" if "1 < held s a" using pool_invD(5) [OF inv', of a] that by simp
  moreover have "heap w a = None \<and> (\<forall>d. fst (buffer_lookup d w) \<noteq> Some a)"
    if h: "held s a = 1" and m: "references b \<noteq> CRYPTO_REFCOUNT_MAX"
  proof -
    have none: "heap w a = None"
    proof (rule ccontr)
      assume "heap w a \<noteq> None"
      then obtain b' where b': "heap w a = Some b'" by blast
      then have "references b' = CRYPTO_REFCOUNT_MAX"
        using pool_invD(3) [OF inv', of a b'] pub h by (simp add: counted_def)
      moreover have "references b = 1"
        using pool_invD(3) [OF inv b pub] h m by (simp add: counted_def word_unat_eq_iff)
      ultimately show False using w b b'
        by (auto simp: CRYPTO_BUFFER_free_def CRYPTO_refcount_dec_and_test_zero_def
            CRYPTO_REFCOUNT_MAX_def Let_def set_references_def split: if_splits prod.splits)
    qed
    moreover have "fst (buffer_lookup d w) \<noteq> Some a" for d
      using pool_invD(2) [OF inv', of d a] none
      by (auto simp: buffer_lookup_def retrieve_found split: option.splits)
    ultimately show ?thesis by blast
  qed
  ultimately show ?thesis using b w by blast
qed

theorem pool_release_safe_witness:
  "\<exists>b w. heap (world sample_pool) 1 = Some b \<and>
    CRYPTO_BUFFER_free (sample_malloc, sample_malloc) 1 (world sample_pool) = Some (True, w) \<and>
    heap w 1 = None"
  using pool_release_safe [OF sample_pool_reachable, of 1 "(sample_malloc, sample_malloc)"]
  by (auto simp: sample_pool_def sample_buffer_def CRYPTO_REFCOUNT_MAX_def)

text \<open>
  C24: The pool interns: two references to buffers of the pool with equal contents are
  references to one buffer, whatever calls of \<open>CRYPTO_BUFFER_new\<close> by racing threads they come
  from.
\<close>

theorem pool_interns:
  assumes "pool_reachable s" and "0 < held s a" and "0 < held s a'"
    and "heap (world s) a = Some b" and "heap (world s) a' = Some b'"
    and "buf_pooled b" and "buf_pooled b'" and "CRYPTO_BUFFER_data b = CRYPTO_BUFFER_data b'"
  shows "a = a'"
proof -
  note inv = pool_reachable_inv [OF assms(1)]
  have "found (world s) (buf_data b) = Some (a, buf_data b)"
    using pool_invD(3) [OF inv assms(4)] held_published [OF inv assms(2)] assms(6) by blast
  moreover have "found (world s) (buf_data b') = Some (a', buf_data b')"
    using pool_invD(3) [OF inv assms(5)] held_published [OF inv assms(3)] assms(7) by blast
  ultimately show ?thesis using assms(8) by (simp add: CRYPTO_BUFFER_data_def)
qed

theorem pool_interns_witness: "\<exists>a. 0 < held sample_pool a \<and> (\<forall>a'. 0 < held sample_pool a' \<longrightarrow> a = a')"
proof (rule exI [of _ 1], intro conjI allI impI)
  show "0 < held sample_pool 1" by (simp add: sample_pool_def)
  fix a' assume h: "0 < held sample_pool a'"
  then have "a' = 1" by (simp add: sample_pool_def split: if_splits)
  then have b: "heap (world sample_pool) a' = Some sample_buffer" by (simp add: sample_pool_def)
  show "1 = a'"
    by (rule pool_interns [OF sample_pool_reachable _ h _ b])
      (simp_all add: sample_pool_def sample_buffer_def)
qed

text \<open>
  C25: Nothing leaks: once every reference has been released and no call is in progress, unless
  a count has saturated, no buffer is left in memory, and the pool is empty, as
  \<open>CRYPTO_BUFFER_POOL_free\<close> asserts.
\<close>

theorem pool_drained:
  assumes "pool_reachable s" and "held s = (\<lambda>_. 0)" and "pcs s = (\<lambda>_. Idle)"
    and "\<And>a b. heap (world s) a = Some b \<Longrightarrow> references b \<noteq> CRYPTO_REFCOUNT_MAX"
  shows "heap (world s) = (\<lambda>_. None) \<and> CRYPTO_BUFFER_POOL_free (Some (world s))"
proof -
  note inv = pool_reachable_inv [OF assms(1)]
  have none: "heap (world s) a = None" for a
  proof (rule ccontr)
    assume "heap (world s) a \<noteq> None"
    then obtain b where b: "heap (world s) a = Some b" by blast
    have "published s a" by (simp add: published_def assms(3))
    then show False using pool_invD(3) [OF inv b] assms(2) assms(4) [OF b] by (simp add: counted_def)
  qed
  have ok: "table_ok (world s)" by (rule pool_invD(1) [OF inv])
  have "contents (bufs (world s)) = {#}"
  proof (rule ccontr)
    assume "contents (bufs (world s)) \<noteq> {#}"
    then obtain it where it: "it \<in># contents (bufs (world s))" by blast
    obtain a d where d: "it_data it = (a, d)" by fastforce
    have "lh_retrieve pool_hash pool_cmp (bufs (world s)) (0, d) = Some (a, d)"
      unfolding pool.retrieve_iff [OF ok]
      by (rule bexI [OF _ it]) (simp add: d pool_cmp_def CRYPTO_BUFFER_cmp_zero)
    then show False using pool_invD(2) [OF inv, of d a d] none by (simp add: found_def)
  qed
  then show ?thesis using none ok by (auto simp: CRYPTO_BUFFER_POOL_free_def lh_ok_def)
qed

lemma sample_pool_released:
  "pool_reachable (sample_pool\<lparr>world := \<lparr>bufs = sample_table [], heap = (\<lambda>_. None)\<rparr>, held := (\<lambda>_. 0)\<rparr>)"
proof -
  let ?w = "\<lparr>bufs = sample_table [], heap = (\<lambda>_. None)\<rparr> :: pool_world"
  have "CRYPTO_BUFFER_free (sample_malloc, sample_malloc) 1 (world sample_pool) = Some (True, ?w)"
    by (simp add: CRYPTO_BUFFER_free_def sample_pool_def sample_buffer_def set_references_def
        CRYPTO_refcount_dec_and_test_zero_def CRYPTO_REFCOUNT_MAX_def sample_delete)
  then have "pool_step sample_pool
      (sample_pool\<lparr>world := ?w, held := (held sample_pool)(1 := held sample_pool 1 - 1)\<rparr>)"
    by (intro pool_step.release) (simp_all add: sample_pool_def)
  moreover have "(held sample_pool)(1 := held sample_pool 1 - 1) = (\<lambda>_. 0)"
    by (simp add: sample_pool_def fun_eq_iff)
  ultimately show ?thesis using pool_reachable.step [OF sample_pool_reachable] by simp
qed

theorem pool_drained_witness: "CRYPTO_BUFFER_POOL_free (Some \<lparr>bufs = sample_table [], heap = (\<lambda>_. None)\<rparr>)"
  using pool_drained [OF sample_pool_released] by (simp add: sample_pool_def)

end
