(* ===== verification/BioThms.thy ===== *)
theory BioThms
  imports BioProps TableProps Codec
begin

text \<open>
  The properties of \<open>BIO\<close>s, each with a witness on a sample heap that holds one pair.
\<close>

section \<open>A sample heap\<close>

definition sample_pair :: bios where
  "sample_pair = (\<lambda>_. None)(1 \<mapsto> connected_end 2 4 (replicate 4 0xaa), 2 \<mapsto> connected_end 1 4 (replicate 4 0xaa))"

lemma sample_alloc: "n < 2 ^ 62 \<Longrightarrow> alloc_bytes sample_malloc n = Some (replicate n 0xaa)"
  by (simp add: alloc_bytes_def OPENSSL_malloc_def unat_add_prefix sample_malloc_def unat_of_nat drop_replicate)

lemma sample_pair_made: "BIO_new_bio_pair (sample_malloc, sample_malloc) (sample_malloc, sample_malloc)
    (sample_malloc, sample_malloc) 1 2 4 4 (\<lambda>_. None) = Some (Some (1, 2), sample_pair)"
proof -
  obtain b where b: "OPENSSL_malloc sample_malloc sizeof_BIO = Some b"
    by (simp add: OPENSSL_malloc_def sample_malloc_def sizeof_BIO_def OPENSSL_MALLOC_PREFIX_def)
  obtain c where c: "OPENSSL_malloc sample_malloc sizeof_bio_bio_st = Some c"
    by (simp add: OPENSSL_malloc_def sample_malloc_def sizeof_bio_bio_st_def OPENSSL_MALLOC_PREFIX_def)
  have n: "BIO_new methods_biop sample_malloc sample_malloc a h = (Some a, h(a \<mapsto> new_pair_end))" for a h
    by (simp add: BIO_new_def bio_new_def b c new_pair_end_def)
  have a: "alloc_bytes sample_malloc 4 = Some (replicate 4 0xaa)" by (rule sample_alloc) simp
  show ?thesis
    by (simp add: BIO_new_bio_pair_def n bio_make_pair_def make_buffer_def a connected_end_def sample_pair_def
        fun_upd_twist)
qed

lemma sample_pair_reachable: "bio_reachable sample_pair"
  by (rule bio_reachable.step [OF bio_reachable.start])
    (rule bio_step.step_pair [OF _ _ _ _ _ _ _ sample_pair_made], simp_all add: sample_malloc_ok)

lemma sample_view [simp]:
  "pair_view sample_pair (Suc 0) = Some \<lparr>pe_peer = Some 2, pe_closed = False, pe_queue = [], pe_capacity = 4\<rparr>"
  "pair_view sample_pair 2 = Some \<lparr>pe_peer = Some 1, pe_closed = False, pe_queue = [], pe_capacity = 4\<rparr>"
  by (simp_all add: pair_view_def sample_pair_def connected_end_def pair_ptr_def ring_view_def ring_queue_def)

section \<open>The writing loop\<close>

lemma BIO_write_mem:
  assumes ok: "bios_ok h" and b: "h a = Some b" "bio_meth b = Some mem_method" "\<not> mem_rdonly b"
    and mc: "malloc_ok mc" and len: "0 < len" "len \<le> INT_MAX" "len \<le> length xs"
  shows "\<exists>r h' b'. BIO_write mc (Some a) xs (int len) h = Some (r, h') \<and> bios_ok h' \<and> h' a = Some b' \<and>
    bio_meth b' = Some mem_method \<and> \<not> mem_rdonly b' \<and>
    (r = int len \<and> mem_view b' = mem_view b @ take len xs \<or>
     r = -1 \<and> mem_view b' = mem_view b \<and> (INT_MAX < length (mem_view b) + len \<or>
       mc (growth_request (length (mem_view b) + len)) = None))"
proof -
  note objb = bios_okD [OF ok b(1)]
  have i: "init b" by (rule obj_ok_mem [OF objb b(2)])
  obtain r b1 where w: "mem_write mc b xs (int len) = Some (r, b1)" "obj_ok b1" "bio_meth b1 = bio_meth b"
    "mem_rdonly b1 = mem_rdonly b" "bio_peer b1 = bio_peer b"
    "r = int len \<and> mem_view b1 = mem_view b @ take len xs \<or>
     r = -1 \<and> mem_view b1 = mem_view b \<and> (INT_MAX < length (mem_view b) + len \<or>
       mc (growth_request (length (mem_view b) + len)) = None)"
    using mem_write_ok [OF objb b(2) mc, of "int len" xs] len b(3) by auto
  define b2 where "b2 = (if r > 0 then b1\<lparr>num_write := size_add (num_write b1) (nat r)\<rparr> else b1)"
  have b2: "obj_ok b2" "bio_meth b2 = Some mem_method" "\<not> mem_rdonly b2" "bio_peer b2 = bio_peer b"
    "mem_view b2 = mem_view b1"
    using w b by (simp_all add: b2_def mem_view_def)
  have "BIO_write mc (Some a) xs (int len) h = Some (r, h(a \<mapsto> b2))"
    using b(1,2) i len(1) w(1) by (simp add: BIO_write_def bwrite_def b2_def)
  then show ?thesis using bios_ok_update [OF ok b(1) b2(1,4)] b2(2,3,5) w(6)
    by (intro exI [of _ r] exI [of _ "h(a \<mapsto> b2)"] exI [of _ b2]) simp
qed

lemma write_all_mem:
  assumes "bios_ok h" and "h a = Some b" and "bio_meth b = Some mem_method" and "\<not> mem_rdonly b"
    and "\<And>i. malloc_ok (ms i)" and "len = length xs" and "len < 2 ^ 63"
  shows "\<exists>r k h' b'. write_all_loop ms i (Some a) xs len h = Some (r, h') \<and> h' a = Some b' \<and>
    mem_view b' = mem_view b @ take k xs \<and> k \<le> len \<and> (r \<longleftrightarrow> k = len) \<and>
    (r \<or> INT_MAX < length (mem_view b) + len \<or> ms i (growth_request (length (mem_view b) + len)) = None)"
  using assms
proof (induction len arbitrary: i xs h b rule: less_induct)
  case (less len)
  show ?case
  proof (cases "len = 0")
    case True
    then show ?thesis using less.prems
      by (intro exI [of _ True] exI [of _ 0] exI [of _ h] exI [of _ b]) (subst write_all_loop.simps, simp)
  next
    case False
    define n where "n = (if len > INT_MAX then INT_MAX else len)"
    have n: "0 < n" "n \<le> INT_MAX" "n \<le> length xs" "(if len > INT_MAX then int INT_MAX else int len) = int n"
      using False less.prems(6) by (auto simp: n_def INT_MAX_def)
    obtain r h1 b1 where w: "BIO_write (ms i) (Some a) xs (int n) h = Some (r, h1)" "bios_ok h1" "h1 a = Some b1"
      "bio_meth b1 = Some mem_method" "\<not> mem_rdonly b1"
      "r = int n \<and> mem_view b1 = mem_view b @ take n xs \<or>
       r = -1 \<and> mem_view b1 = mem_view b \<and> (INT_MAX < length (mem_view b) + n \<or>
         ms i (growth_request (length (mem_view b) + n)) = None)"
      using BIO_write_mem [OF less.prems(1-4) less.prems(5) n(1-3)] by blast
    have whole: "n = len \<or> INT_MAX < length (mem_view b) + len" by (auto simp: n_def)
    consider (refused) "r = -1" "mem_view b1 = mem_view b"
        "INT_MAX < length (mem_view b) + n \<or> ms i (growth_request (length (mem_view b) + n)) = None"
      | (taken) "r = int n" "mem_view b1 = mem_view b @ take n xs"
      using w(6) by (elim disjE conjE) simp_all
    then show ?thesis
    proof cases
      case r: refused
      have "write_all_loop ms i (Some a) xs len h = Some (False, h1)"
        using False n(4) w(1) r(1) by (subst write_all_loop.simps) simp
      then show ?thesis using w(3) r(2,3) False whole
        by (intro exI [of _ False] exI [of _ 0] exI [of _ h1] exI [of _ b1]) auto
    next
      case r: taken
      have s: "size_sub len n = len - n" using n(3) less.prems(6,7) by simp
      have eq: "write_all_loop ms i (Some a) xs len h = write_all_loop ms (Suc i) (Some a) (drop n xs) (len - n) h1"
        using False n(1,4) w(1) r(1) s by (subst write_all_loop.simps) simp
      have small: "len - n < len" "len - n = length (drop n xs)" "len - n < 2 ^ 63"
        using n(1,3) less.prems(6,7) by simp_all
      obtain r' k h' b' where ih: "write_all_loop ms (Suc i) (Some a) (drop n xs) (len - n) h1 = Some (r', h')"
        "h' a = Some b'" "mem_view b' = mem_view b1 @ take k (drop n xs)" "k \<le> len - n" "r' \<longleftrightarrow> k = len - n"
        "r' \<or> INT_MAX < length (mem_view b1) + (len - n) \<or>
          ms (Suc i) (growth_request (length (mem_view b1) + (len - n))) = None"
        using less.IH [OF small(1) w(2,3,4,5) less.prems(5) small(2,3), of "Suc i"] by blast
      have "mem_view b' = mem_view b @ take (n + k) xs" using ih(3) r(2) by (simp add: take_add)
      moreover have "r' \<or> INT_MAX < length (mem_view b) + len"
        using whole ih(4,5) by auto
      ultimately show ?thesis using ih(1,2,4,5) eq n(3) less.prems(6)
        by (intro exI [of _ r'] exI [of _ "n + k"] exI [of _ h'] exI [of _ b']) auto
    qed
  qed
qed

text \<open>How much one end of a pair accepts: nothing without a peer or after its shutdown.\<close>

definition pair_room :: "pair_end \<Rightarrow> nat" where
  "pair_room e = (if pe_peer e = None \<or> pe_closed e then 0 else pe_capacity e - length (pe_queue e))"

lemma write_all_pair:
  assumes "bios_ok h" and "pair_view h a = Some e" and "len = length xs" and "len < 2 ^ 63"
  shows "\<exists>h'. write_all_loop ms i (Some a) xs len h = Some (len \<le> pair_room e, h') \<and>
    pair_view h' = (pair_view h)(a \<mapsto> e\<lparr>pe_queue := pe_queue e @ take (pair_room e) xs\<rparr>)"
  using assms
proof (induction len arbitrary: i xs h e rule: less_induct)
  case (less len)
  have upd: "(pair_view h)(a \<mapsto> e) = pair_view h" using less.prems(2) by (simp add: fun_upd_idem)
  show ?case
  proof (cases "len = 0")
    case True
    then show ?thesis using less.prems(3) upd
      by (intro exI [of _ h]) (subst write_all_loop.simps, simp)
  next
    case False
    define n where "n = (if len > INT_MAX then INT_MAX else len)"
    have n: "0 < n" "n \<le> INT_MAX" "n \<le> length xs" "(if len > INT_MAX then int INT_MAX else int len) = int n"
      using False less.prems(3) by (auto simp: n_def INT_MAX_def)
    define k where "k = min n (pair_room e)"
    obtain r h1 where w: "BIO_write (ms i) (Some a) xs (int n) h = Some (r, h1)" "bios_ok h1"
      "spec_write a (take n xs) (pair_view h) = (r, pair_view h1)"
      using BIO_write_pair [OF less.prems(1,2) n(2,3)] by blast
    show ?thesis
    proof (cases "k = 0")
      case True
      then have "pair_room e = 0" "r \<le> 0" "pair_view h1 = pair_view h"
        using w(3) n(1,3) less.prems(2) by (auto simp: spec_write_def k_def pair_room_def Let_def split: if_splits)
      moreover from this have "write_all_loop ms i (Some a) xs len h = Some (False, h1)"
        using False n(4) w(1) by (subst write_all_loop.simps) simp
      ultimately show ?thesis using False upd by simp
    next
      case k: False
      let ?e = "e\<lparr>pe_queue := pe_queue e @ take k xs\<rparr>"
      have r: "r = int k" "pair_view h1 = (pair_view h)(a \<mapsto> ?e)"
        using w(3) n(1,3) less.prems(2) k
        by (auto simp: spec_write_def k_def pair_room_def Let_def min_def split: if_splits)
      have kl: "k \<le> len" "0 < k" "size_sub len k = len - k"
        using n(3) less.prems(3,4) k by (auto simp: k_def)
      have eq: "write_all_loop ms i (Some a) xs len h = write_all_loop ms (Suc i) (Some a) (drop k xs) (len - k) h1"
        using False n(4) w(1) r(1) kl by (subst write_all_loop.simps) simp
      have e1: "pair_view h1 a = Some ?e" using r(2) by simp
      have small: "len - k < len" "len - k = length (drop k xs)" "len - k < 2 ^ 63"
        using kl less.prems(3,4) by simp_all
      have room: "pair_room ?e = pair_room e - k" "k \<le> pair_room e"
        using kl less.prems(3) by (auto simp: pair_room_def k_def)
      obtain h' where ih: "write_all_loop ms (Suc i) (Some a) (drop k xs) (len - k) h1 = Some (len - k \<le> pair_room ?e, h')"
        "pair_view h' = (pair_view h1)(a \<mapsto> ?e\<lparr>pe_queue := pe_queue ?e @ take (pair_room ?e) (drop k xs)\<rparr>)"
        using less.IH [OF _ w(2) e1, of "len - k" "drop k xs" "Suc i"] small by blast
      have "take k xs @ take (pair_room e - k) (drop k xs) = take (pair_room e) xs"
        using room(2) by (metis le_add_diff_inverse take_add)
      then show ?thesis using ih eq r(2) room kl(1) by (intro exI [of _ h']) auto
    qed
  qed
qed

section \<open>Properties\<close>

lemma long_of_size_nonneg: "n < 2 ^ 63 \<Longrightarrow> 0 \<le> long_of_size n"
  by (simp add: long_of_size_def sint_uint unsigned_of_nat take_bit_nat_eq_self
      signed_take_bit_int_eq_self)

lemma BIO_pending_total:
  assumes ok: "bios_ok h" and a: "h a \<noteq> None"
  shows "BIO_pending (Some a) h \<noteq> None" and "BIO_wpending (Some a) h \<noteq> None"
proof -
  obtain b where b: "h a = Some b" using a by blast
  note objb = bios_okD [OF ok b]
  have "BIO_pending (Some a) h \<noteq> None \<and> BIO_wpending (Some a) h \<noteq> None"
  proof (rule obj_ok_cases [OF objb])
    assume m: "bio_meth b = Some mem_method"
    obtain q where q: "mem_ok (mem_rdonly b) q" "mem_ptr b = Some q" by (rule obj_ok_mem [OF objb m])
    have "bm_length q < 2 ^ 63" using q(1) by (auto simp: mem_ok_def INT_MAX_def split: if_splits)
    then show ?thesis using b m q(2) long_of_size_nonneg
      by (simp add: BIO_pending_def BIO_wpending_def BIO_ctrl_def)
  next
    assume m: "bio_meth b = Some methods_biop"
    obtain r where r: "ring_ok r" "pair_ptr b = Some r" "bio_peer b = rb_peer r"
      by (rule obj_ok_pair [OF objb m])
    have l: "rb_len r < 2 ^ 63" using r(1) by (auto simp: ring_ok_def)
    have p: "\<exists>pb pr. h p = Some pb \<and> pair_ptr pb = Some pr \<and> rb_len pr < 2 ^ 63" if "rb_peer r = Some p" for p
      using peer_ok [OF ok b, of p] that r(3) by (metis ring_ok_def le_less_trans)
    show ?thesis using b m r(2) l p long_of_size_nonneg
      by (cases "rb_peer r") (fastforce simp: BIO_pending_def BIO_wpending_def BIO_ctrl_def bio_ctrl_def)+
  qed
  then show "BIO_pending (Some a) h \<noteq> None" and "BIO_wpending (Some a) h \<noteq> None" by blast+
qed

lemma write_all_total:
  assumes ok: "bios_ok h" and a: "h a \<noteq> None" and m: "\<And>i. malloc_ok (ms i)" and len: "length xs < 2 ^ 63"
  shows "BIO_write_all ms (Some a) xs (length xs) h \<noteq> None"
proof -
  obtain b where b: "h a = Some b" using a by blast
  note objb = bios_okD [OF ok b]
  show ?thesis
  proof (rule obj_ok_cases [OF objb])
    assume mem: "bio_meth b = Some mem_method"
    show ?thesis
    proof (cases "mem_rdonly b \<and> xs \<noteq> []")
      case True
      obtain q where q: "mem_ptr b = Some q" "init b" by (rule obj_ok_mem [OF objb mem])
      then have "BIO_write (ms 0) (Some a) xs (if length xs > INT_MAX then int INT_MAX else int (length xs)) h
          = Some (-1, h(a \<mapsto> b))"
        using True b mem by (simp add: BIO_write_def bwrite_def mem_write_def INT_MAX_def)
      then show ?thesis using True unfolding BIO_write_all_def by (subst write_all_loop.simps) simp
    next
      case False
      then show ?thesis
        using write_all_mem [where ms = ms and i = 0, OF ok b mem _ m refl len]
        by (cases "xs = []") (auto simp: BIO_write_all_def write_all_loop.simps [of ms 0 _ _ 0])
    qed
  next
    assume "bio_meth b = Some methods_biop"
    then obtain r where "pair_ptr b = Some r" by (rule obj_ok_pair [OF objb])
    then have "pair_view h a = Some (ring_view r)" using b by (simp add: pair_view_def)
    from write_all_pair [OF ok this refl len, where ms = ms and i = 0] show ?thesis by (auto simp: BIO_write_all_def)
  qed
qed

text \<open>
  C26: In every heap that the steps of \<open>bio_step\<close> reach, from any number of pairs and memory
  buffers, the following operations on a live object are defined: reading, writing, lines and
  control, the control operations that pass no argument, the loop that writes everything,
  reference counts, unlinking and release. No assertion fails, nothing outside an object is
  read or written, no loop runs forever and no reference count reaches zero early. The objects
  of these heaps are not chained: \<open>BIO_push\<close> is not one of the steps, and
  \<open>BIO_copy_next_retry\<close>, which dereferences the next object of a chain, is not defined on them.
\<close>

theorem BIO_operations_defined:
  assumes "bio_reachable h" and "h a \<noteq> None" and "len \<le> int INT_MAX" and "\<And>i. malloc_ok (mc i)"
    and "nat len \<le> length xs" and "length xs < 2 ^ 63" and "ctrl_arg_ok h a cmd arg"
  shows "BIO_read (Some a) len h \<noteq> None \<and> BIO_gets (Some a) len h \<noteq> None \<and>
    BIO_write (mc 0) (Some a) xs len h \<noteq> None \<and> BIO_write_all mc (Some a) xs (length xs) h \<noteq> None \<and>
    BIO_ctrl (Some a) cmd n arg h \<noteq> None \<and> BIO_flush (Some a) h \<noteq> None \<and>
    BIO_reset (Some a) h \<noteq> None \<and> BIO_eof (Some a) h \<noteq> None \<and> BIO_set_close (Some a) n h \<noteq> None \<and>
    BIO_pending (Some a) h \<noteq> None \<and> BIO_wpending (Some a) h \<noteq> None \<and> BIO_shutdown_wr (Some a) h \<noteq> None \<and>
    BIO_up_ref a h \<noteq> None \<and> BIO_next (Some a) h \<noteq> None \<and> BIO_pop (Some a) h \<noteq> None \<and>
    BIO_free (Some a) h \<noteq> None \<and> BIO_vfree (Some a) h \<noteq> None \<and> BIO_free_all (Some a) h \<noteq> None"
proof -
  note ok = bio_reachable_ok [OF assms(1)]
  have null: "ctrl_ret (Some a) c k h \<noteq> None" if "c \<noteq> BIO_C_SET_BUF_MEM" for c k
  proof -
    have "ctrl_arg_ok h a c Arg_null" using that assms(2) by (cases c) (auto simp: ctrl_arg_ok_def)
    then show ?thesis using BIO_ctrl_total [OF ok assms(2), of c Arg_null k] by (auto simp: ctrl_ret_def)
  qed
  have "BIO_read (Some a) len h \<noteq> None" using BIO_read_total [OF ok assms(2,3)] by auto
  moreover have "BIO_gets (Some a) len h \<noteq> None" using BIO_gets_total [OF ok assms(2,3)] by auto
  moreover have "BIO_write (mc 0) (Some a) xs len h \<noteq> None"
    using BIO_write_total [OF ok assms(2) assms(4) [of 0] assms(3,5)] by auto
  moreover have "BIO_ctrl (Some a) cmd n arg h \<noteq> None" using BIO_ctrl_total [OF ok assms(2,7), of n] by auto
  moreover have "BIO_up_ref a h \<noteq> None" using BIO_up_ref_total [OF ok assms(2)] by auto
  moreover have "BIO_free (Some a) h \<noteq> None" using BIO_free_total [OF ok assms(2)] by auto
  moreover have "BIO_flush (Some a) h \<noteq> None \<and> BIO_reset (Some a) h \<noteq> None \<and> BIO_eof (Some a) h \<noteq> None \<and>
      BIO_set_close (Some a) n h \<noteq> None \<and> BIO_shutdown_wr (Some a) h \<noteq> None"
    unfolding BIO_flush_def BIO_reset_def BIO_eof_def BIO_set_close_def BIO_shutdown_wr_def
    by (intro conjI null) simp_all
  moreover have "BIO_next (Some a) h \<noteq> None \<and> BIO_pop (Some a) h \<noteq> None"
    using assms(2) by (auto simp: BIO_next_def BIO_pop_def)
  moreover have "BIO_vfree (Some a) h \<noteq> None \<and> BIO_free_all (Some a) h \<noteq> None"
    using BIO_free_total [OF ok assms(2)] by (auto simp: BIO_vfree_def BIO_free_all_def)
  moreover have "BIO_write_all mc (Some a) xs (length xs) h \<noteq> None"
    by (rule write_all_total [OF ok assms(2,4,6)])
  ultimately show ?thesis using BIO_pending_total [OF ok assms(2)] by blast
qed

theorem BIO_operations_defined_witness:
  "BIO_free (Some 1) sample_pair \<noteq> None \<and> BIO_read (Some 1) 3 sample_pair \<noteq> None \<and>
   BIO_write_all (\<lambda>_. sample_malloc) (Some 1) [1, 2, 3] 3 sample_pair \<noteq> None"
proof -
  have "ctrl_arg_ok sample_pair 1 BIO_CTRL_FLUSH Arg_null" "sample_pair 1 \<noteq> None"
    by (simp_all add: ctrl_arg_ok_def sample_pair_def)
  then show ?thesis
    using BIO_operations_defined [OF sample_pair_reachable _ _ sample_malloc_ok, of 1 3 "[1, 2, 3]"]
    by (simp add: INT_MAX_def numeral_3_eq_3)
qed

text \<open>
  C27: The two ends of a pair are two bounded queues: any history of \<open>BIO_write\<close>, \<open>BIO_read\<close>
  and \<open>BIO_shutdown_wr\<close> on either end of the pairs of a reachable heap returns what the
  queues return, whatever the positions in the ring buffers, and leaves what they hold.
\<close>

theorem pair_refines_queues:
  assumes "bio_reachable h" and "\<forall>x\<in>set ops. chan_op_ok (pair_view h) x"
  shows "\<exists>outs h'. chan_run mc ops h = Some (outs, h') \<and> spec_run ops (pair_view h) = (outs, pair_view h')"
  using chan_run_ok [OF bio_reachable_ok [OF assms(1)] assms(2)] by blast

theorem pair_refines_queues_witness:
  "\<exists>h'. chan_run sample_malloc [Chan_write 1 [7, 8, 9], Chan_read 2 2, Chan_write 1 [5, 6, 4, 3],
      Chan_shutdown 1, Chan_read 2 9, Chan_read 2 1] sample_pair =
    Some ([(3, []), (2, [7, 8]), (3, []), (1, []), (4, [9, 5, 6, 4]), (0, [])], h')"
proof -
  let ?ops = "[Chan_write 1 [7, 8, 9], Chan_read 2 2, Chan_write 1 [5, 6, 4, 3],
    Chan_shutdown 1, Chan_read 2 9, Chan_read 2 1]"
  have "fst (spec_run ?ops (pair_view sample_pair)) =
      [(3, []), (2, [7, 8]), (3, []), (1, []), (4, [9, 5, 6, 4]), (0, [])]"
    by (simp add: spec_write_def spec_read_def spec_shutdown_def Let_def)
  moreover have "\<forall>x\<in>set ?ops. chan_op_ok (pair_view sample_pair) x" by (simp add: INT_MAX_def)
  ultimately show ?thesis
    using pair_refines_queues [OF sample_pair_reachable, of ?ops sample_malloc] by auto
qed

text \<open>
  C28: A pair loses, repeats and reorders nothing: over any history of writes at one end and
  reads at the other, the bytes delivered followed by the bytes still queued are the bytes
  that were queued followed by the bytes accepted.
\<close>

theorem pair_stream:
  assumes "bio_reachable h" and "pair_view h a = Some e" and "pe_peer e = Some p" and "\<not> pe_closed e"
    and "\<forall>x\<in>set ops. op_size x \<le> INT_MAX"
  shows "\<exists>accepted delivered h'. queue_run (channel_put mc a) (channel_get p) h ops =
      Some (accepted, delivered, h') \<and>
    channel_queue a h @ accepted = delivered @ channel_queue a h'"
proof -
  have "channel_ok a p h" using bio_reachable_ok [OF assms(1)] assms(2-4) by (simp add: channel_ok_def)
  from channel.stream [OF this assms(5), of mc] show ?thesis by blast
qed

theorem pair_stream_witness:
  "\<exists>accepted delivered h'. queue_run (channel_put sample_malloc 1) (channel_get 2) sample_pair
      [Put [1, 2, 3], Get 2, Put [4, 5, 6], Get 4] = Some (accepted, delivered, h') \<and>
    channel_queue 1 sample_pair @ accepted = delivered @ channel_queue 1 h'"
  by (rule pair_stream [OF sample_pair_reachable, where p = 2 and
      e = "\<lparr>pe_peer = Some 2, pe_closed = False, pe_queue = [], pe_capacity = 4\<rparr>"])
    (simp_all add: INT_MAX_def)

section \<open>ASN.1 elements\<close>

lemma tag_byte:
  assumes "unat b mod 32 \<noteq> 31"
  obtains t where "der_tag t = [b]"
proof -
  obtain t where "parse_asn1_tag [b] = (Some t, [])" using assms by (auto simp: parse_asn1_tag_Cons)
  then show ?thesis using that parse_asn1_tag_iff by (metis append_Nil2)
qed

lemma tag_byte_low:
  assumes "der_tag t = [b]"
  shows "unat b mod 32 \<noteq> 31"
proof
  assume h: "unat b mod 32 = 31"
  have "parse_asn1_tag [b] = (Some t, [])" using assms parse_asn1_tag_iff by simp
  then obtain v where "parse_base128_integer [] = (Some v, [])"
    using h by (auto simp: parse_asn1_tag_Cons split: prod.splits option.splits if_splits)
  then show False by (simp add: parse_base128_integer_def parse_base128_loop_Nil)
qed

text \<open>What one call takes from the stream \<open>s\<close>, leaving \<open>s'\<close>, in terms of the parsed header.\<close>

definition asn1_outcome :: "libc \<Rightarrow> nat \<Rightarrow> byte list \<Rightarrow> byte list option \<Rightarrow> byte list \<Rightarrow> bool" where
  "asn1_outcome m max_len s r s' \<longleftrightarrow> (case s of
     t # h \<Rightarrow>
       (if unat t mod 32 = 31 then r = None
        else case parse_len h of
          Some (n, k) \<Rightarrow>
            r = (if n + k + 1 \<le> max_len \<and> n \<le> INT_MAX \<and> n + k + 1 \<le> length s \<and>
                   alloc_bytes m (n + k + 1) \<noteq> None
                 then Some (take (n + k + 1) s) else None) \<and>
            (r \<noteq> None \<longrightarrow> s' = drop (n + k + 1) s)
        | None \<Rightarrow> (\<forall>ys. r = Some ys \<longrightarrow> t AND 0x20 \<noteq> 0 \<and> (\<exists>h'. h = 0x80 # h') \<and>
            ys = s \<and> s' = [] \<and> length ys < max_len))
   | [] \<Rightarrow> r = None)"

lemma asn1_outcome_sound:
  assumes c: "asn1_outcome m max_len s r s'" and y: "r = Some ys"
  shows "length ys \<le> max_len \<and> s = ys @ s' \<and>
    ((\<exists>t c. ys = der_element t c) \<or> (\<exists>t zs. ys = t # 0x80 # zs \<and> t AND 0x20 \<noteq> 0 \<and> s' = []))"
proof -
  obtain t g where s: "s = t # g" using c y by (cases s) (auto simp: asn1_outcome_def)
  have t31: "unat t mod 32 \<noteq> 31" using c y s by (auto simp: asn1_outcome_def)
  show ?thesis
  proof (cases "parse_len g")
    case None
    then show ?thesis using c y s t31 by (auto simp: asn1_outcome_def)
  next
    case (Some p)
    obtain n k where p: "parse_len g = Some (n, k)" using Some by (cases p) simp
    have q: "n + k + 1 \<le> max_len" "n + k + 1 \<le> length s" "ys = take (n + k + 1) s" "s' = drop (n + k + 1) s"
      using c y t31 p by (auto simp: s asn1_outcome_def split: if_splits)
    have l: "g = der_len n @ drop k g" "length (der_len n) = k" using parse_len_SomeD [OF p] by simp_all
    obtain tt where tt: "der_tag tt = [t]" by (rule tag_byte [OF t31])
    have n: "length (take n (drop k g)) = n" using q(2) s by simp
    have "ys = t # take (k + n) g" using q(3) s by (simp add: add.commute)
    also have "take (k + n) g = der_len n @ take n (drop k g)"
      using l by (metis append_eq_conv_conj take_add)
    finally have "ys = der_element tt (take n (drop k g))"
      using tt n by (simp add: der_element_def der_header_def)
    moreover have "length ys \<le> max_len" "s = ys @ s'"
      using q by (simp_all only: append_take_drop_id) simp
    ultimately show ?thesis by blast
  qed
qed

lemma asn1_outcome_complete:
  assumes c: "asn1_outcome m max_len s r s'" and lim: "max_len \<le> INT_MAX"
    and e: "s = der_element t c' @ rest" "length (der_tag t) = 1" "length (der_element t c') \<le> max_len"
      "alloc_bytes m (length (der_element t c')) \<noteq> None"
  shows "r = Some (der_element t c') \<and> s' = rest"
proof -
  obtain b where b: "der_tag t = [b]" using e(2) by (cases "der_tag t") auto
  define k where "k = length (der_len (length c'))"
  have s: "s = b # der_len (length c') @ c' @ rest"
    using e(1) b by (simp add: der_element_def der_header_def)
  have le: "length (der_element t c') = length c' + k + 1"
    by (simp add: der_element_def der_header_def b k_def)
  have small: "length c' \<le> INT_MAX" using e(3) le lim by simp
  then have p: "parse_len (der_len (length c') @ c' @ rest) = Some (length c', k)"
    using parse_len_der_len [of "length c'" "c' @ rest"] by (simp add: k_def INT_MAX_def)
  have t: "take (length c' + k + 1) s = der_element t c'" "drop (length c' + k + 1) s = rest"
    "length c' + k + 1 \<le> length s" unfolding le [symmetric] e(1) by simp_all
  from c have "r = (if length c' + k + 1 \<le> max_len \<and> length c' \<le> INT_MAX \<and> length c' + k + 1 \<le> length s \<and>
        alloc_bytes m (length c' + k + 1) \<noteq> None then Some (take (length c' + k + 1) s) else None) \<and>
      (r \<noteq> None \<longrightarrow> s' = drop (length c' + k + 1) s)"
    using p tag_byte_low [OF b] by (simp add: s asn1_outcome_def)
  then show ?thesis using t e(3,4) small unfolding le by simp
qed

text \<open>
  C29: \<open>BIO_read_asn1\<close> always returns. When it succeeds, what it took from the stream is one
  DER element within the limit, or, for an indefinite length, everything up to the end;
  and it reads every element with a one-byte tag whose size is within the limits, leaving the
  stream behind it, unless memory runs out.
\<close>

theorem BIO_read_asn1_exact:
  assumes "bio_reachable h" and "ready h a" and "source_eof h a \<in> {0, -1}"
    and "malloc_ok m" and "\<And>i. malloc_ok (ms i)" and "max_len \<le> INT_MAX"
  shows "\<exists>r h'. BIO_read_asn1 m ms (Some a) max_len h = Some (r, h') \<and>
    (\<forall>ys. r = Some ys \<longrightarrow> length ys \<le> max_len \<and> source_stream h a = ys @ source_stream h' a \<and>
       ((\<exists>t c. ys = der_element t c) \<or>
        (\<exists>t zs. ys = t # 0x80 # zs \<and> t AND 0x20 \<noteq> 0 \<and> source_stream h' a = []))) \<and>
    (\<forall>t c rest. source_stream h a = der_element t c @ rest \<and> length (der_tag t) = 1 \<and>
       length (der_element t c) \<le> max_len \<and> alloc_bytes m (length (der_element t c)) \<noteq> None \<longrightarrow>
       r = Some (der_element t c) \<and> source_stream h' a = rest)"
proof -
  have ok: "source_ok a h" using bio_reachable_ok [OF assms(1)] assms(2,3) by (auto simp: source_ok_def)
  obtain r h' where r: "BIO_read_asn1 m ms (Some a) max_len h = Some (r, h')"
    and c: "asn1_outcome m max_len (source_stream h a) r (source_stream h' a)"
    using bio.read_asn1_ok [where ms = ms, OF ok assms(3,4,5,6)] unfolding BIO_read_asn1_def asn1_outcome_def by blast
  show ?thesis
    using r asn1_outcome_sound [OF c] asn1_outcome_complete [OF c assms(6)] by blast
qed

definition sample_mem :: bios where
  "sample_mem = (\<lambda>_. None)(1 \<mapsto> \<lparr>bio_meth = Some mem_method, init = True, shutdown = 1, flags = 0x200,
     retry_reason = 0, num = 0, bio_references = 1,
     ptr = Ptr_mem \<lparr>bm_length = 5, bm_block = Some [4, 2, 7, 8, 9], bm_off = 0, bm_max = 5\<rparr>,
     next_bio = None, num_read = 0, num_write = 0\<rparr>)"

lemma sample_mem_made:
  "BIO_new_mem_buf sample_malloc sample_malloc 1 (Some [4, 2, 7, 8, 9]) 5 (\<lambda>_. None) = Some (Some 1, sample_mem)"
proof -
  obtain b where b: "OPENSSL_malloc sample_malloc sizeof_BIO = Some b"
    by (simp add: OPENSSL_malloc_def sample_malloc_def sizeof_BIO_def OPENSSL_MALLOC_PREFIX_def)
  obtain c where c: "OPENSSL_malloc sample_malloc sizeof_BUF_MEM = Some c"
    by (simp add: OPENSSL_malloc_def sample_malloc_def sizeof_BUF_MEM_def OPENSSL_MALLOC_PREFIX_def)
  show ?thesis
    by (simp add: BIO_new_mem_buf_def BIO_new_def b mem_new_def BUF_MEM_new_def c mem_ptr_def
        sample_mem_def BIO_FLAGS_MEM_RDONLY_def)
qed

lemma sample_mem_reachable: "bio_reachable sample_mem"
  by (rule bio_reachable.step [OF bio_reachable.start])
    (rule bio_step.step_mem_buf [OF _ _ sample_mem_made], simp_all)

lemma sample_mem_stream:
  "source_stream sample_mem 1 = [4, 2, 7, 8, 9]" "source_eof sample_mem 1 = 0" "ready sample_mem 1"
  by (simp_all add: source_stream_def source_eof_def pair_view_def sample_mem_def pair_ptr_def
      mem_view_def bm_contents_def ready_def)

theorem BIO_read_asn1_exact_witness:
  "\<exists>h'. BIO_read_asn1 sample_malloc (\<lambda>_. sample_malloc) (Some 1) 10 sample_mem = Some (Some [4, 2, 7, 8], h') \<and>
    source_stream h' 1 = [9]"
proof -
  have e: "der_element 4 [7, 8] = [4, 2, 7, 8]" "length (der_tag 4) = 1"
    by (simp_all add: der_element_def der_header_def der_tag_def der_len_def Let_def)
  obtain r h' where r: "BIO_read_asn1 sample_malloc (\<lambda>_. sample_malloc) (Some 1) 10 sample_mem = Some (r, h')"
    and c: "\<forall>t c rest. source_stream sample_mem 1 = der_element t c @ rest \<and> length (der_tag t) = 1 \<and>
       length (der_element t c) \<le> 10 \<and> alloc_bytes sample_malloc (length (der_element t c)) \<noteq> None \<longrightarrow>
       r = Some (der_element t c) \<and> source_stream h' 1 = rest"
    using BIO_read_asn1_exact [OF sample_mem_reachable, of 1 sample_malloc "\<lambda>_. sample_malloc" 10]
      sample_mem_stream sample_malloc_ok by (auto simp: INT_MAX_def)
  have "r = Some (der_element 4 [7, 8]) \<and> source_stream h' 1 = [9]"
    using c [rule_format, of 4 "[7, 8]" "[9]"] sample_mem_stream(1) e by (simp add: sample_alloc)
  then show ?thesis using r e by simp
qed

section \<open>Writing everything\<close>

text \<open>
  C30: \<open>BIO_write_all\<close> writes the data in order and without loss, in as many calls of
  \<open>BIO_write\<close> as it takes. On one end of a pair it succeeds exactly if the free space holds all
  of the data, and otherwise appends the longest prefix that fits (more than one call is made
  when more than \<open>INT_MAX\<close> bytes fit, or when the space runs out). On a writable memory buffer it
  appends all of the data when it returns one and a proper prefix otherwise, and that only if
  the total exceeds \<open>INT_MAX\<close> or the allocator refused the request to grow.
\<close>

theorem BIO_write_all_exact:
  assumes "bio_reachable h" and "\<And>i. malloc_ok (ms i)" and "length xs < 2 ^ 63"
  shows "(\<forall>e. pair_view h a = Some e \<longrightarrow>
      (\<exists>h'. BIO_write_all ms (Some a) xs (length xs) h = Some (length xs \<le> pair_room e, h') \<and>
        pair_view h' = (pair_view h)(a \<mapsto> e\<lparr>pe_queue := pe_queue e @ take (pair_room e) xs\<rparr>))) \<and>
    (\<forall>b. h a = Some b \<and> bio_meth b = Some mem_method \<and> \<not> mem_rdonly b \<longrightarrow>
      (\<exists>k h' b'. BIO_write_all ms (Some a) xs (length xs) h = Some (k = length xs, h') \<and> h' a = Some b' \<and>
        mem_view b' = mem_view b @ take k xs \<and> k \<le> length xs \<and>
        (k = length xs \<or> INT_MAX < length (mem_view b) + length xs \<or>
         ms 0 (growth_request (length (mem_view b) + length xs)) = None)))"
  unfolding BIO_write_all_def
  using write_all_pair [OF bio_reachable_ok [OF assms(1)] _ refl assms(3)]
    write_all_mem [OF bio_reachable_ok [OF assms(1)] _ _ _ assms(2) refl assms(3)]
  by fastforce

definition sample_empty :: bio where
  "sample_empty = \<lparr>bio_meth = Some mem_method, init = True, shutdown = 1, flags = 0, retry_reason = 0,
     num = -1, bio_references = 1,
     ptr = Ptr_mem \<lparr>bm_length = 0, bm_block = None, bm_off = 0, bm_max = 0\<rparr>,
     next_bio = None, num_read = 0, num_write = 0\<rparr>"

lemma sample_empty_reachable: "bio_reachable [3 \<mapsto> sample_empty]"
proof -
  obtain b where b: "OPENSSL_malloc sample_malloc sizeof_BIO = Some b"
    by (simp add: OPENSSL_malloc_def sample_malloc_def sizeof_BIO_def OPENSSL_MALLOC_PREFIX_def)
  obtain c where c: "OPENSSL_malloc sample_malloc sizeof_BUF_MEM = Some c"
    by (simp add: OPENSSL_malloc_def sample_malloc_def sizeof_BUF_MEM_def OPENSSL_MALLOC_PREFIX_def)
  have "BIO_new mem_method sample_malloc sample_malloc 3 (\<lambda>_. None) = (Some 3, [3 \<mapsto> sample_empty])"
    by (simp add: BIO_new_def b mem_new_def BUF_MEM_new_def c sample_empty_def)
  then show ?thesis by (intro bio_reachable.step [OF bio_reachable.start] bio_step.step_mem) simp_all
qed

theorem BIO_write_all_exact_witness:
  "(\<exists>h'. BIO_write_all (\<lambda>_. sample_malloc) (Some 1) [1, 2, 3, 4, 5, 6] 6 sample_pair = Some (False, h') \<and>
      map_option pe_queue (pair_view h' 1) = Some [1, 2, 3, 4]) \<and>
   (\<exists>h' b'. BIO_write_all (\<lambda>_. sample_malloc) (Some 3) [1, 2] 2 [3 \<mapsto> sample_empty] = Some (True, h') \<and>
      h' 3 = Some b' \<and> mem_view b' = [1, 2])"
proof
  let ?e = "\<lparr>pe_peer = Some 2, pe_closed = False, pe_queue = [], pe_capacity = 4\<rparr>"
  have e: "pair_view sample_pair 1 = Some ?e" "pair_room ?e = 4" by (simp_all add: pair_room_def)
  have l: "length [1, 2, 3, 4, 5, 6 :: byte] = 6" "length [1, 2 :: byte] = 2" by simp_all
  show "\<exists>h'. BIO_write_all (\<lambda>_. sample_malloc) (Some 1) [1, 2, 3, 4, 5, 6] 6 sample_pair = Some (False, h') \<and>
      map_option pe_queue (pair_view h' 1) = Some [1, 2, 3, 4]"
    using BIO_write_all_exact [OF sample_pair_reachable sample_malloc_ok, of "[1, 2, 3, 4, 5, 6]" 1] e
    unfolding l by fastforce
  have b: "bio_meth sample_empty = Some mem_method" "\<not> mem_rdonly sample_empty" "mem_view sample_empty = []"
    by (simp_all add: sample_empty_def mem_rdonly_def mem_view_def bm_contents_def)
  have m: "sample_malloc (growth_request 2) \<noteq> None" by (simp add: sample_malloc_def growth_request_def)
  show "\<exists>h' b'. BIO_write_all (\<lambda>_. sample_malloc) (Some 3) [1, 2] 2 [3 \<mapsto> sample_empty] = Some (True, h') \<and>
      h' 3 = Some b' \<and> mem_view b' = [1, 2]"
  proof -
    obtain k h' b' where r: "BIO_write_all (\<lambda>_. sample_malloc) (Some 3) [1, 2] 2 [3 \<mapsto> sample_empty] = Some (k = 2, h')"
      "h' 3 = Some b'" "mem_view b' = mem_view sample_empty @ take k [1, 2]"
      "k = 2 \<or> INT_MAX < length (mem_view sample_empty) + 2 \<or>
        sample_malloc (growth_request (length (mem_view sample_empty) + 2)) = None"
      using BIO_write_all_exact [OF sample_empty_reachable sample_malloc_ok, of "[1, 2]" 3] b(1,2)
      unfolding l by fastforce
    have "length (mem_view sample_empty) + 2 = 2" using b(3) by simp
    then have "k = 2" using r(4) m by (simp only: INT_MAX_def) simp
    then show ?thesis using r(1-3) b(3) by simp
  qed
qed

section \<open>Where the code and its documentation part\<close>

text \<open>
  An end-of-data value below -1, which \<open>BIO_set_mem_eof_return\<close> allows, is not recognised by
  \<open>bio_read_all\<close>: it is added to the number of bytes read, and the position leaves the buffer.
\<close>

lemma bio_read_all_eof_minus_two:
  assumes rd: "\<And>n w. rd n w = Some (-2, [], w)" and m: "malloc_ok m" and p: "length prefix = 2"
    and len: "4098 \<le> max_len" and out: "alloc_bytes m 4098 = Some out"
  shows "bio_read_all rd m ms prefix max_len w = None"
proof -
  have l: "size_add 2 kChunkSize = 4098" by (simp add: kChunkSize_def)
  have lo: "length (overwrite out 0 prefix) = 4098"
    using alloc_bytes_length [OF m _ out] p by (simp add: overwrite_length)
  have neg: "size_of_int (-2) = 2 ^ 64 - 2" by (simp add: size_of_int_def)
  have a: "size_add 2 18446744073709551614 = 0"
    "size_add 0 18446744073709551614 = 18446744073709551614" by (simp_all add: size_add_def)
  have first: "read_all_loop rd ms 0 max_len o1 4098 2 w = read_all_loop rd ms 1 max_len o1 4098 0 w"
    if "length o1 = 4098" for o1
    using that by (subst read_all_loop.simps)
      (simp add: rd INT_MAX_def neg a kChunkSize_def Let_def)
  have second: "read_all_loop rd ms 1 max_len o1 4098 0 w = None" if "length o1 = 4098" for o1
    using that by (subst read_all_loop.simps) (simp add: rd INT_MAX_def neg a Let_def)
  show ?thesis using first [OF lo] second [OF lo] p len out
    by (simp add: bio_read_all_def Let_def l)
qed

text \<open>The length of a null string is taken before the test that would refuse it.\<close>

lemma BIO_new_mem_buf_null: "BIO_new_mem_buf m1 m2 a None (-1) h = None"
  by (simp add: BIO_new_mem_buf_def)

end
