(* ===== verification/PbIn.thy ===== *)
theory PbIn
  imports Cbb
begin

text \<open>
  Reading of the protocol buffer wire format in nanopb (\<open>pb_decode.c\<close>, with the build options
  of the app: 32-bit field sizes, allocation, custom streams, error messages). A stream keeps
  its callback, the callback's state, the number of bytes left and the first error message.
  The outer \<open>None\<close> of a result is an access outside the memory a buffer stream points to.
\<close>

section \<open>Streams\<close>

text \<open>
  The callback is \<open>buf_read\<close> or a function of the application, which is told the number of
  bytes wanted and answers with success, the bytes stored and its new state.
\<close>

datatype 's pb_read_fn = Buf_read | User_read "'s \<Rightarrow> nat \<Rightarrow> bool \<times> byte list \<times> 's"

text \<open>The free field \<open>state\<close>: for a buffer the bytes from the read position on.\<close>

datatype 's pb_state = Buf_state "byte list" | User_state 's

record 's pb_istream =
  callback :: "'s pb_read_fn"
  state :: "'s pb_state"
  bytes_left :: nat
  errmsg :: "string option"

type_synonym ('a, 's) pb_reader = "'s pb_istream \<Rightarrow> ('a option \<times> 's pb_istream) option"

definition PB_SET_ERROR :: "string \<Rightarrow> 's pb_istream \<Rightarrow> 's pb_istream" where
  "PB_SET_ERROR msg s = s\<lparr>errmsg := (case errmsg s of None \<Rightarrow> Some msg | Some e \<Rightarrow> Some e)\<rparr>"

definition PB_RETURN_ERROR :: "string \<Rightarrow> ('a, 's) pb_reader" where
  "PB_RETURN_ERROR msg s = Some (None, PB_SET_ERROR msg s)"

definition pb_return :: "'a \<Rightarrow> ('a, 's) pb_reader" where
  "pb_return x s = Some (Some x, s)"

text \<open>The idiom \<open>if (!m) return false\<close> before the rest \<open>f\<close> of a function.\<close>

definition pb_then :: "('a, 's) pb_reader \<Rightarrow> ('a \<Rightarrow> ('b, 's) pb_reader) \<Rightarrow> ('b, 's) pb_reader" where
  "pb_then m f s = (case m s of
     None \<Rightarrow> None
   | Some (None, s) \<Rightarrow> Some (None, s)
   | Some (Some x, s) \<Rightarrow> f x s)"

definition buf_read :: "nat \<Rightarrow> 's pb_istream \<Rightarrow> (bool \<times> byte list \<times> 's pb_istream) option" where
  "buf_read n s = (case state s of
     Buf_state xs \<Rightarrow>
       if n \<le> length xs then Some (True, take n xs, s\<lparr>state := Buf_state (drop n xs)\<rparr>)
       else None
   | User_state _ \<Rightarrow> None)"

definition call_callback :: "nat \<Rightarrow> 's pb_istream \<Rightarrow> (bool \<times> byte list \<times> 's pb_istream) option" where
  "call_callback n s = (case callback s of
     Buf_read \<Rightarrow> buf_read n s
   | User_read f \<Rightarrow>
       (case state s of
          Buf_state _ \<Rightarrow> None
        | User_state u \<Rightarrow> (case f u n of (ok, xs, u') \<Rightarrow> Some (ok, xs, s\<lparr>state := User_state u'\<rparr>))))"

text \<open>\<open>pb_read\<close> below the special cases: the check, the callback and the count.\<close>

definition read_checked :: "nat \<Rightarrow> (byte list, 's) pb_reader" where
  "read_checked n s = (
     if bytes_left s < n then PB_RETURN_ERROR ''end-of-stream'' s
     else
       (case call_callback n s of
          None \<Rightarrow> None
        | Some (False, _, s) \<Rightarrow> PB_RETURN_ERROR ''io error'' s
        | Some (True, xs, s) \<Rightarrow> Some (Some xs, s\<lparr>bytes_left := bytes_left s - n\<rparr>)))"

text \<open>The loop that skips the input of a custom stream in pieces of 16 bytes.\<close>

fun skip_pieces :: "nat \<Rightarrow> (byte list, 's) pb_reader" where
  "skip_pieces n s = (
     if n > 16 then pb_then (read_checked 16) (\<lambda>_. skip_pieces (n - 16)) s
     else read_checked n s)"

declare skip_pieces.simps [simp del]

text \<open>With a null buffer (\<open>True\<close>) the bytes are skipped.\<close>

definition pb_read :: "bool \<Rightarrow> nat \<Rightarrow> (byte list, 's) pb_reader" where
  "pb_read null n s = (
     if n = 0 then Some (Some [], s)
     else if null \<and> (case callback s of Buf_read \<Rightarrow> False | User_read _ \<Rightarrow> True) then skip_pieces n s
     else read_checked n s)"

definition pb_readbyte :: "(byte, 's) pb_reader" where
  "pb_readbyte s = (
     if bytes_left s = 0 then PB_RETURN_ERROR ''end-of-stream'' s
     else
       (case call_callback 1 s of
          None \<Rightarrow> None
        | Some (False, _, s) \<Rightarrow> PB_RETURN_ERROR ''io error'' s
        | Some (True, xs, s) \<Rightarrow> Some (Some (xs ! 0), s\<lparr>bytes_left := bytes_left s - 1\<rparr>)))"

definition pb_istream_from_buffer :: "byte list \<Rightarrow> nat \<Rightarrow> 's pb_istream" where
  "pb_istream_from_buffer buf bufsize =
     \<lparr>callback = Buf_read, state = Buf_state buf, bytes_left = bufsize, errmsg = None\<rparr>"

lemma read_checked_left: "read_checked n s = Some (Some xs, s') \<Longrightarrow> bytes_left s' + n = bytes_left s"
  by (auto simp: read_checked_def call_callback_def buf_read_def PB_RETURN_ERROR_def
      split: if_splits option.splits pb_read_fn.splits pb_state.splits bool.splits prod.splits)

lemma pb_readbyte_left: "pb_readbyte s = Some (Some b, s') \<Longrightarrow> bytes_left s' < bytes_left s"
  by (auto simp: pb_readbyte_def call_callback_def buf_read_def PB_RETURN_ERROR_def
      split: if_splits option.splits pb_read_fn.splits pb_state.splits bool.splits prod.splits)

lemma pb_read_1_left: "pb_read False (Suc 0) s = Some (Some xs, s') \<Longrightarrow> bytes_left s' < bytes_left s"
  using read_checked_left [of "Suc 0" s xs s'] by (auto simp: pb_read_def)

section \<open>Variable-length integers\<close>

text \<open>
  The loop of the 32-bit reader: the result, the last byte and \<open>bitpos\<close>, which is a
  \<open>uint_fast8_t\<close> and eight bits wide.
\<close>

function varint32_loop :: "u32 \<Rightarrow> byte \<Rightarrow> (u32 \<times> byte \<times> byte, 's) pb_reader" where
  "varint32_loop result bitpos s =
     (case pb_readbyte s of
        None \<Rightarrow> None
      | Some (None, s) \<Rightarrow> Some (None, s)
      | Some (Some b, s) \<Rightarrow>
          if bitpos \<ge> 32 \<and> b AND 0x7F \<noteq> 0 \<and>
             (drop_bit 31 result = 0 \<or> b \<noteq> (if bitpos < 63 then 0xFF else 0x01))
          then PB_RETURN_ERROR ''varint overflow'' s
          else
            let result = (if bitpos \<ge> 32 then result
                          else result OR push_bit (unat bitpos) (ucast (b AND 0x7F)));
                bitpos = bitpos + 7 in
            if b AND 0x80 \<noteq> 0 then varint32_loop result bitpos s
            else Some (Some (result, b, bitpos), s))"
  by auto

termination
  by (relation "measure (\<lambda>(_, _, s). bytes_left s)") (auto dest: pb_readbyte_left)

declare varint32_loop.simps [simp del]

text \<open>The value, whether \<open>*eof\<close> is set, and the stream.\<close>

definition pb_decode_varint32_eof :: "'s pb_istream \<Rightarrow> (u32 option \<times> bool \<times> 's pb_istream) option" where
  "pb_decode_varint32_eof s =
     (case pb_readbyte s of
        None \<Rightarrow> None
      | Some (None, s) \<Rightarrow> Some (None, bytes_left s = 0, s)
      | Some (Some b, s) \<Rightarrow>
          if b AND 0x80 = 0 then Some (Some (ucast b), False, s)
          else
            (case varint32_loop (ucast (b AND 0x7F)) 7 s of
               None \<Rightarrow> None
             | Some (None, s) \<Rightarrow> Some (None, False, s)
             | Some (Some (result, b, bitpos), s) \<Rightarrow>
                 if bitpos = 35 \<and> b AND 0x70 \<noteq> 0
                 then Some (None, False, PB_SET_ERROR ''varint overflow'' s)
                 else Some (Some result, False, s)))"

definition pb_decode_varint32 :: "(u32, 's) pb_reader" where
  "pb_decode_varint32 s = map_option (\<lambda>(r, _, s). (r, s)) (pb_decode_varint32_eof s)"

function varint_loop :: "u64 \<Rightarrow> byte \<Rightarrow> (u64, 's) pb_reader" where
  "varint_loop result bitpos s =
     (if bitpos \<ge> 64 then PB_RETURN_ERROR ''varint overflow'' s
      else case pb_readbyte s of
        None \<Rightarrow> None
      | Some (None, s) \<Rightarrow> Some (None, s)
      | Some (Some b, s) \<Rightarrow>
          let result = result OR push_bit (unat bitpos) (ucast (b AND 0x7F)) in
          if b AND 0x80 \<noteq> 0 then varint_loop result (bitpos + 7) s
          else Some (Some result, s))"
  by auto

termination
  by (relation "measure (\<lambda>(_, _, s). bytes_left s)") (auto dest: pb_readbyte_left)

declare varint_loop.simps [simp del]

definition pb_decode_varint :: "(u64, 's) pb_reader" where
  "pb_decode_varint = varint_loop 0 0"

text \<open>Zigzag decoding; the \<open>int64_t\<close> is its 64-bit pattern.\<close>

definition pb_decode_svarint :: "(u64, 's) pb_reader" where
  "pb_decode_svarint = pb_then pb_decode_varint (\<lambda>v.
     pb_return (if v AND 1 \<noteq> 0 then NOT (drop_bit 1 v) else drop_bit 1 v))"

section \<open>Fields\<close>

type_synonym pb_wire_type = u32

definition PB_WT_VARINT :: pb_wire_type where "PB_WT_VARINT = 0"
definition PB_WT_64BIT :: pb_wire_type where "PB_WT_64BIT = 1"
definition PB_WT_STRING :: pb_wire_type where "PB_WT_STRING = 2"
definition PB_WT_32BIT :: pb_wire_type where "PB_WT_32BIT = 5"

function pb_skip_varint :: "(unit, 's) pb_reader" where
  "pb_skip_varint s =
     (case pb_read False 1 s of
        None \<Rightarrow> None
      | Some (None, s) \<Rightarrow> Some (None, s)
      | Some (Some xs, s) \<Rightarrow> if xs ! 0 AND 0x80 \<noteq> 0 then pb_skip_varint s else Some (Some (), s))"
  by auto

termination
  by (relation "measure bytes_left") (auto dest: pb_read_1_left)

declare pb_skip_varint.simps [simp del]

definition pb_skip :: "nat \<Rightarrow> (unit, 's) pb_reader" where
  "pb_skip n = pb_then (pb_read True n) (\<lambda>_. pb_return ())"

definition pb_skip_string :: "(unit, 's) pb_reader" where
  "pb_skip_string = pb_then pb_decode_varint32 (\<lambda>len. pb_skip (unat len))"

text \<open>Success with the wire type and the tag, \<open>*eof\<close>, and the stream.\<close>

definition pb_decode_tag :: "'s pb_istream \<Rightarrow> ((pb_wire_type \<times> u32) option \<times> bool \<times> 's pb_istream) option" where
  "pb_decode_tag s =
     (case pb_decode_varint32_eof s of
        None \<Rightarrow> None
      | Some (None, eof, s) \<Rightarrow> Some (None, eof, s)
      | Some (Some temp, eof, s) \<Rightarrow>
          if temp = 0 then Some (None, True, s)
          else Some (Some (temp AND 7, drop_bit 3 temp), eof, s))"

definition pb_skip_field :: "pb_wire_type \<Rightarrow> (unit, 's) pb_reader" where
  "pb_skip_field wire_type =
     (if wire_type = PB_WT_VARINT then pb_skip_varint
      else if wire_type = PB_WT_64BIT then pb_skip 8
      else if wire_type = PB_WT_STRING then pb_skip_string
      else if wire_type = PB_WT_32BIT then pb_skip 4
      else PB_RETURN_ERROR ''invalid wire_type'')"

text \<open>The bytes stored in the buffer so far are the accumulator; \<open>size\<close> is their number.\<close>

fun raw_varint :: "nat \<Rightarrow> byte list \<Rightarrow> (byte list, 's) pb_reader" where
  "raw_varint 0 acc s = Some (None, s)"
| "raw_varint (Suc room) acc s =
     pb_then (pb_read False 1) (\<lambda>xs.
       if xs ! 0 AND 0x80 \<noteq> 0 then raw_varint room (acc @ [xs ! 0]) else pb_return (acc @ [xs ! 0])) s"

definition read_raw_value :: "pb_wire_type \<Rightarrow> nat \<Rightarrow> (byte list, 's) pb_reader" where
  "read_raw_value wire_type max_size =
     (if wire_type = PB_WT_VARINT then raw_varint max_size []
      else if wire_type = PB_WT_64BIT then pb_read False 8
      else if wire_type = PB_WT_32BIT then pb_read False 4
      else PB_RETURN_ERROR ''invalid wire_type'')"

text \<open>The substream, of limited length, and the parent stream behind it.\<close>

definition pb_make_string_substream :: "('s pb_istream, 's) pb_reader" where
  "pb_make_string_substream = pb_then pb_decode_varint32 (\<lambda>len s.
     if bytes_left s < unat len then PB_RETURN_ERROR ''parent stream too short'' s
     else Some (Some (s\<lparr>bytes_left := unat len\<rparr>), s\<lparr>bytes_left := bytes_left s - unat len\<rparr>))"

definition pb_close_string_substream ::
  "'s pb_istream \<Rightarrow> 's pb_istream \<Rightarrow> (bool \<times> 's pb_istream \<times> 's pb_istream) option" where
  "pb_close_string_substream s sub =
     (case (if bytes_left sub \<noteq> 0 then pb_skip (bytes_left sub) sub else Some (Some (), sub)) of
        None \<Rightarrow> None
      | Some (None, sub) \<Rightarrow> Some (False, s, sub)
      | Some (Some _, sub) \<Rightarrow> Some (True, s\<lparr>state := state sub, errmsg := errmsg sub\<rparr>, sub))"

section \<open>Scalar values\<close>

text \<open>The little-endian words the shifts assemble.\<close>

definition le_word32 :: "byte list \<Rightarrow> u32" where
  "le_word32 bs = ucast (bs ! 0) OR push_bit 8 (ucast (bs ! 1)) OR push_bit 16 (ucast (bs ! 2)) OR
     push_bit 24 (ucast (bs ! 3))"

definition le_word64 :: "byte list \<Rightarrow> u64" where
  "le_word64 bs = ucast (bs ! 0) OR push_bit 8 (ucast (bs ! 1)) OR push_bit 16 (ucast (bs ! 2)) OR
     push_bit 24 (ucast (bs ! 3)) OR push_bit 32 (ucast (bs ! 4)) OR push_bit 40 (ucast (bs ! 5)) OR
     push_bit 48 (ucast (bs ! 6)) OR push_bit 56 (ucast (bs ! 7))"

definition pb_decode_fixed32 :: "(u32, 's) pb_reader" where
  "pb_decode_fixed32 = pb_then (pb_read False 4) (\<lambda>bs. pb_return (le_word32 bs))"

definition pb_decode_fixed64 :: "(u64, 's) pb_reader" where
  "pb_decode_fixed64 = pb_then (pb_read False 8) (\<lambda>bs. pb_return (le_word64 bs))"

definition pb_decode_bool :: "(bool, 's) pb_reader" where
  "pb_decode_bool = pb_then pb_decode_varint32 (\<lambda>v. pb_return (v \<noteq> 0))"

end
