(* ===== verification/PbOut.thy ===== *)
theory PbOut
  imports PbIn
begin

text \<open>
  Writing of the protocol buffer wire format in nanopb (\<open>pb_encode.c\<close>). An output stream without
  a callback only counts. The outer \<open>None\<close> of a result is a store outside the buffer.
\<close>

section \<open>Streams\<close>

text \<open>For a buffer, the free field \<open>state\<close> is the buffer and the position to write at.\<close>

datatype 's pb_write_fn = No_write | Buf_write | User_write "'s \<Rightarrow> byte list \<Rightarrow> bool \<times> 's"

datatype 's pb_ostate = Out_buffer "byte list" nat | Out_state 's

record 's pb_ostream =
  out_callback :: "'s pb_write_fn"
  out_state :: "'s pb_ostate"
  max_size :: nat
  bytes_written :: nat
  out_errmsg :: "string option"

type_synonym 's pb_writer = "'s pb_ostream \<Rightarrow> (bool \<times> 's pb_ostream) option"

definition OUT_SET_ERROR :: "string \<Rightarrow> 's pb_ostream \<Rightarrow> 's pb_ostream" where
  "OUT_SET_ERROR msg s = s\<lparr>out_errmsg := (case out_errmsg s of None \<Rightarrow> Some msg | Some e \<Rightarrow> Some e)\<rparr>"

definition OUT_RETURN_ERROR :: "string \<Rightarrow> 's pb_writer" where
  "OUT_RETURN_ERROR msg s = Some (False, OUT_SET_ERROR msg s)"

definition out_then :: "'s pb_writer \<Rightarrow> 's pb_writer \<Rightarrow> 's pb_writer" where
  "out_then w v s = (case w s of None \<Rightarrow> None | Some (False, s) \<Rightarrow> Some (False, s) | Some (True, s) \<Rightarrow> v s)"

definition buf_write :: "byte list \<Rightarrow> 's pb_writer" where
  "buf_write buf s = (case out_state s of
     Out_buffer b dest \<Rightarrow>
       if dest + length buf \<le> length b
       then Some (True, s\<lparr>out_state := Out_buffer (overwrite b dest buf) (dest + length buf)\<rparr>) else None
   | Out_state _ \<Rightarrow> None)"

definition out_call :: "byte list \<Rightarrow> 's pb_writer" where
  "out_call buf s = (case out_callback s of
     No_write \<Rightarrow> None
   | Buf_write \<Rightarrow> buf_write buf s
   | User_write f \<Rightarrow>
       (case out_state s of
          Out_buffer _ _ \<Rightarrow> None
        | Out_state u \<Rightarrow> (case f u buf of (ok, u') \<Rightarrow> Some (ok, s\<lparr>out_state := Out_state u'\<rparr>))))"

definition pb_ostream_from_buffer :: "byte list \<Rightarrow> nat \<Rightarrow> 's pb_ostream" where
  "pb_ostream_from_buffer buf bufsize =
     \<lparr>out_callback = Buf_write, out_state = Out_buffer buf 0, max_size = bufsize, bytes_written = 0,
      out_errmsg = None\<rparr>"

text \<open>The stream that only counts.\<close>

definition PB_OSTREAM_SIZING :: "'s pb_ostream" where
  "PB_OSTREAM_SIZING = \<lparr>out_callback = No_write, out_state = Out_buffer [] 0, max_size = 0,
     bytes_written = 0, out_errmsg = None\<rparr>"

text \<open>A null buffer is written by sizing streams only, which do not look at it: only \<open>n\<close> counts.\<close>

definition counting :: "'s pb_ostream \<Rightarrow> bool" where
  "counting s \<longleftrightarrow> (case out_callback s of No_write \<Rightarrow> True | _ \<Rightarrow> False)"

definition pb_write :: "byte list \<Rightarrow> nat \<Rightarrow> 's pb_writer" where
  "pb_write buf n s = (
     if n > 0 \<and> \<not> counting s then
       if (bytes_written s + n) mod size_max1 < bytes_written s \<or>
          (bytes_written s + n) mod size_max1 > max_size s
       then OUT_RETURN_ERROR ''stream full'' s
       else
         (case out_call buf s of
            None \<Rightarrow> None
          | Some (False, s) \<Rightarrow> OUT_RETURN_ERROR ''io error'' s
          | Some (True, s) \<Rightarrow> Some (True, s\<lparr>bytes_written := (bytes_written s + n) mod size_max1\<rparr>))
     else Some (True, s\<lparr>bytes_written := (bytes_written s + n) mod size_max1\<rparr>))"

section \<open>Values\<close>

lemma drop_bit_7_less: "(v :: u64) \<noteq> 0 \<Longrightarrow> unat (drop_bit 7 v) < unat v"
  by (simp add: unat_drop_bit unat_gt_0)

text \<open>The bytes the loop stores; the top bit of the last one is cleared afterwards.\<close>

function varint_groups :: "u64 \<Rightarrow> byte list" where
  "varint_groups v = (if v = 0 then [] else ucast (v AND 0x7F OR 0x80) # varint_groups (drop_bit 7 v))"
  by auto

termination
  by (relation "measure unat") (auto simp: drop_bit_7_less)

declare varint_groups.simps [simp del]

definition pb_encode_varint :: "u64 \<Rightarrow> 's pb_writer" where
  "pb_encode_varint v = (
     if v \<le> 0x7F then pb_write [ucast v] 1
     else
       let buffer = varint_groups v; i = length buffer in
       pb_write (buffer[i - 1 := (buffer ! (i - 1)) AND 0x7F]) i)"

text \<open>The argument is the bit pattern of the \<open>int64_t\<close>.\<close>

definition pb_encode_svarint :: "u64 \<Rightarrow> 's pb_writer" where
  "pb_encode_svarint v =
     pb_encode_varint (if sint v < 0 then NOT (push_bit 1 v) else push_bit 1 v)"

definition pb_encode_fixed32 :: "u32 \<Rightarrow> 's pb_writer" where
  "pb_encode_fixed32 v = pb_write
     [ucast (v AND 0xFF), ucast (drop_bit 8 v AND 0xFF), ucast (drop_bit 16 v AND 0xFF),
      ucast (drop_bit 24 v AND 0xFF)] 4"

definition pb_encode_fixed64 :: "u64 \<Rightarrow> 's pb_writer" where
  "pb_encode_fixed64 v = pb_write
     [ucast (v AND 0xFF), ucast (drop_bit 8 v AND 0xFF), ucast (drop_bit 16 v AND 0xFF),
      ucast (drop_bit 24 v AND 0xFF), ucast (drop_bit 32 v AND 0xFF), ucast (drop_bit 40 v AND 0xFF),
      ucast (drop_bit 48 v AND 0xFF), ucast (drop_bit 56 v AND 0xFF)] 8"

definition pb_encode_tag :: "pb_wire_type \<Rightarrow> u32 \<Rightarrow> 's pb_writer" where
  "pb_encode_tag wiretype field_number =
     pb_encode_varint (push_bit 3 (ucast field_number) OR ucast wiretype)"

definition pb_encode_string :: "byte list \<Rightarrow> nat \<Rightarrow> 's pb_writer" where
  "pb_encode_string buffer n = out_then (pb_encode_varint (of_nat n)) (pb_write buffer n)"

end
