(* ===== verification/PbWire.thy ===== *)
theory PbWire
  imports PbOut
begin

text \<open>
  The wire format as mathematics and the laws of the readers over any lawful input stream:
  the locale \<open>wire_source\<close>, interpreted on buffer streams and on custom streams.
\<close>

section \<open>Variable-length integers\<close>

fun varint_val :: "byte list \<Rightarrow> nat" where
  "varint_val [] = 0"
| "varint_val (b # bs) = unat b mod 128 + 128 * varint_val bs"

fun is_varint :: "byte list \<Rightarrow> bool" where
  "is_varint [] \<longleftrightarrow> False"
| "is_varint (b # bs) \<longleftrightarrow> (if unat b < 128 then bs = [] else is_varint bs)"

fun varint_bytes :: "nat \<Rightarrow> byte list" where
  "varint_bytes v = (if v < 128 then [of_nat v] else of_nat (v mod 128 + 128) # varint_bytes (v div 128))"

declare varint_bytes.simps [simp del]

lemma unat_group [simp]: "unat (of_nat (v mod 128 + 128) :: byte) = v mod 128 + 128"
proof -
  have "v mod 128 < 128" by simp
  then have "v mod 128 + 128 < 256" by linarith
  then show ?thesis by (simp only: unat_of_nat_byte mod_less)
qed

lemma is_varint_bytes [simp]: "is_varint (varint_bytes v)"
proof (induction v rule: varint_bytes.induct)
  case (1 v)
  then show ?case by (subst varint_bytes.simps) (simp del: of_nat_add)
qed

lemma varint_val_bytes [simp]: "varint_val (varint_bytes v) = v"
proof (induction v rule: varint_bytes.induct)
  case (1 v)
  then show ?case by (subst varint_bytes.simps) (simp del: of_nat_add)
qed

lemma length_varint_bytes: "v < 128 ^ Suc n \<Longrightarrow> length (varint_bytes v) \<le> Suc n"
proof (induction n arbitrary: v)
  case 0
  then show ?case by (subst varint_bytes.simps) simp
next
  case (Suc n)
  show ?case
  proof (cases "v < 128")
    case False
    have "v div 128 < 128 ^ Suc n" using Suc.prems by (simp add: less_mult_imp_div_less mult.commute)
    then show ?thesis using Suc.IH False by (subst varint_bytes.simps) simp
  qed (subst varint_bytes.simps, simp)
qed

lemma length_varint_u64: "length (varint_bytes (unat (v :: u64))) \<le> 10"
proof -
  have "unat v < 2 ^ 64" using unsigned_less [of v] by simp
  also have "(2::nat) ^ 64 \<le> 128 ^ Suc 9" by simp
  finally show ?thesis using length_varint_bytes [of "unat v" 9] by simp
qed

lemma length_varint_u32: "length (varint_bytes (unat (v :: u32))) \<le> 5"
proof -
  have "unat v < 2 ^ 32" using unsigned_less [of v] by simp
  also have "(2::nat) ^ 32 \<le> 128 ^ Suc 4" by simp
  finally show ?thesis using length_varint_bytes [of "unat v" 4] by simp
qed

lemma varint_bytes_not_Nil [simp]: "varint_bytes v \<noteq> []"
  by (subst varint_bytes.simps) simp

lemma varint_val_less: "varint_val bs < 128 ^ length bs"
proof (induction bs)
  case (Cons b bs)
  have "unat b mod 128 < 128" by simp
  then show ?case using Cons by (simp del: mod_less_divisor)
qed simp

text \<open>An input either starts with exactly one varint or consists of continuation bytes only.\<close>

lemma is_varint_prefix_unique: "is_varint xs \<Longrightarrow> is_varint ys \<Longrightarrow> xs @ r = ys @ t \<Longrightarrow> xs = ys \<and> r = t"
proof (induction xs arbitrary: ys)
  case (Cons b xs)
  then show ?case by (cases ys) (auto split: if_splits)
qed simp

lemma varint_cases:
  obtains bs r where "xs = bs @ r" "is_varint bs" | "\<forall>b\<in>set xs. 128 \<le> unat b"
proof (induction xs arbitrary: thesis)
  case Nil
  then show ?case by simp
next
  case (Cons b xs)
  show ?case
  proof (cases "unat b < 128")
    case True
    then show ?thesis using Cons.prems(1) [of "[b]" xs] by simp
  next
    case False
    show ?thesis
    proof (rule Cons.IH)
      fix bs r assume "xs = bs @ r" "is_varint bs"
      then show ?thesis using Cons.prems(1) [of "b # bs" r] False by simp
    next
      assume "\<forall>b\<in>set xs. 128 \<le> unat b"
      then show ?thesis using Cons.prems(2) False by simp
    qed
  qed
qed

text \<open>The accumulation step of the readers: the next group is or-ed in above the value so far.\<close>

lemma or_group:
  assumes "p < 128 ^ k"
  shows "(of_nat p :: 'a::len word) OR push_bit (7 * k) w = of_nat p + push_bit (7 * k) w"
proof -
  have "(of_nat p :: 'a word) AND push_bit (7 * k) w = 0"
  proof (rule bit_eqI)
    fix n
    show "bit ((of_nat p :: 'a word) AND push_bit (7 * k) w) n = bit 0 n"
    proof (cases "bit p n")
      case True
      have "take_bit (7 * k) p = p" using assms by (simp add: power_mult take_bit_nat_eq_self)
      then have "n < 7 * k" using True by (metis bit_take_bit_iff)
      then show ?thesis by (simp add: bit_simps)
    qed (simp add: bit_simps)
  qed
  then show ?thesis by (simp add: disjunctive_add_eq_or)
qed

lemma push_group:
  "push_bit (7 * k) (ucast (b AND 0x7F :: byte) :: 'a::len word) = of_nat (128 ^ k * (unat b mod 128))"
proof -
  have "(ucast (b AND 0x7F) :: 'a word) = of_nat (unat (b AND 0x7F))"
    by (rule of_nat_unat [symmetric])
  then show ?thesis by (simp add: push_bit_eq_mult byte_and_7f power_mult)
qed

lemma group_step:
  assumes "p < 128 ^ k"
  shows "(of_nat p :: 'a::len word) OR push_bit (7 * k) (ucast (b AND 0x7F :: byte)) =
    of_nat (p + 128 ^ k * (unat b mod 128))"
  using or_group [OF assms, of "ucast (b AND 0x7F)"] by (simp only: push_group of_nat_add)

lemma group_bound: "p < 128 ^ k \<Longrightarrow> p + 128 ^ k * (b mod 128) < (128 :: nat) ^ Suc k"
proof -
  assume "p < 128 ^ k"
  moreover have "b mod 128 \<le> 127" by (simp add: less_Suc_eq_le [symmetric])
  then have "128 ^ k * (b mod 128) \<le> 128 ^ k * 127" by (rule mult_le_mono2)
  moreover have "(128::nat) ^ Suc k = 128 ^ k + 128 ^ k * 127" by simp
  ultimately show ?thesis by linarith
qed

text \<open>
  What the 32-bit reader tolerates: from byte 5 on only empty groups and the sign extension of
  a result with bit 31 set, and in a fifth byte that is the last one no bits above the result.
\<close>

fun tolerated :: "nat \<Rightarrow> nat \<Rightarrow> byte list \<Rightarrow> bool" where
  "tolerated p k [] \<longleftrightarrow> True"
| "tolerated p k (b # bs) \<longleftrightarrow>
     (k < 5 \<or> unat b mod 128 = 0 \<or> bit p 31 \<and> b = (if k < 9 then 0xFF else 0x01)) \<and>
     tolerated (p + 128 ^ k * (unat b mod 128)) (Suc k) bs"

definition varint32_ok :: "byte list \<Rightarrow> bool" where
  "varint32_ok bs \<longleftrightarrow> tolerated 0 0 bs \<and> (length bs = 5 \<longrightarrow> unat (last bs) < 16)"

lemma drop_bit_31_eq_0: "drop_bit 31 (w :: u32) = 0 \<longleftrightarrow> \<not> bit w 31"
proof -
  have "unat w < 2 ^ 32" using unsigned_less [of w] by simp
  then have "unat w div 2 ^ 31 < 2" by simp
  then have "unat w div 2 ^ 31 = 0 \<longleftrightarrow> \<not> odd (unat w div 2 ^ 31)" by (cases "unat w div 2 ^ 31") auto
  moreover have "drop_bit 31 w = 0 \<longleftrightarrow> unat w div 2 ^ 31 = 0"
    using word_unat_eq_iff [of "drop_bit 31 w" 0] unat_drop_bit [of 31 w] by simp
  moreover have "bit w 31 \<longleftrightarrow> odd (unat w div 2 ^ 31)"
    using bit_unsigned_iff [of w 31, where 'a = nat] by (simp add: bit_iff_odd)
  ultimately show ?thesis by metis
qed

lemma byte_and_7f_0: "(b :: byte) AND 0x7F = 0 \<longleftrightarrow> unat b mod 128 = 0"
  using word_unat_eq_iff [of "b AND 0x7F" 0] by (simp add: byte_and_7f)

lemma is_varint_last: "is_varint bs \<Longrightarrow> unat (last bs) < 128"
  by (induction bs) (auto split: if_splits)

lemma and_70_eq_0: "unat (b :: byte) < 128 \<Longrightarrow> b AND 0x70 = 0 \<longleftrightarrow> unat b < 16"
proof -
  assume b: "unat b < 128"
  have l: "b AND 0x7F = b" using b by (simp add: word_unat_eq_iff byte_and_7f)
  have "(0x70 :: byte) = 0x7F AND NOT 0x0F" by simp
  then have "b AND 0x70 = b AND NOT 0x0F" using l by (metis and.assoc)
  moreover have "b AND NOT 0x0F = 0 \<longleftrightarrow> b AND 0x0F = b"
  proof
    have "b = (b AND NOT 0x0F) OR (b AND 0x0F)" by (simp add: bit_eq_iff bit_simps) blast
    moreover assume "b AND NOT 0x0F = 0"
    ultimately show "b AND 0x0F = b" by (metis or.left_neutral)
  next
    assume "b AND 0x0F = b"
    then have "b AND NOT 0x0F = (b AND 0x0F) AND NOT 0x0F" by simp
    also have "\<dots> = 0" by (simp add: bit_eq_iff bit_simps)
    finally show "b AND NOT 0x0F = 0" .
  qed
  ultimately have "b AND 0x70 = 0 \<longleftrightarrow> b AND 0x0F = b" by simp
  also have "\<dots> \<longleftrightarrow> unat b mod 16 = unat b"
    using unat_and_mask [of b 4] by (simp add: word_unat_eq_iff mask_numeral)
  finally show ?thesis by (auto simp: mod_eq_self_iff_div_eq_0)
qed

section \<open>Lawful input streams\<close>

text \<open>A reader has failed and left some stream of the same kind.\<close>

definition failed :: "('c \<Rightarrow> string option \<Rightarrow> byte list \<Rightarrow> 's pb_istream) \<Rightarrow> 'c \<Rightarrow> ('a option \<times> 's pb_istream) option \<Rightarrow> bool" where
  "failed strm c r \<longleftrightarrow> (\<exists>e ys. r = Some (None, strm c e ys))"

lemma failedI [intro, simp]: "failed strm c (Some (None, strm c e ys))"
  by (auto simp: failed_def)

lemma failedE [elim]: "failed strm c r \<Longrightarrow> (\<And>e ys. r = Some (None, strm c e ys) \<Longrightarrow> thesis) \<Longrightarrow> thesis"
  by (auto simp: failed_def)

text \<open>
  \<open>strm c e xs\<close> is a stream with the bytes \<open>xs\<close> left and the error \<open>e\<close>; \<open>c\<close> is what lies behind.
  Limiting a stream to a prefix gives a stream of the same kind.
\<close>

locale wire_source =
  fixes strm :: "'c \<Rightarrow> string option \<Rightarrow> byte list \<Rightarrow> 's pb_istream"
    and push :: "byte list \<Rightarrow> 'c \<Rightarrow> 'c"
  assumes left [simp]: "bytes_left (strm c e xs) = length xs"
    and err [simp]: "errmsg (strm c e xs) = e" "(strm c e xs)\<lparr>errmsg := e'\<rparr> = strm c e' xs"
    and call: "n \<le> length xs \<Longrightarrow> \<exists>s. call_callback n (strm c e xs) = Some (True, take n xs, s) \<and>
      s\<lparr>bytes_left := bytes_left s - n\<rparr> = strm c e (drop n xs)"
    and limit: "(strm c e (xs @ ys))\<lparr>bytes_left := length xs\<rparr> = strm (push ys c) e xs"
    and behind: "(strm c e (xs @ ys))\<lparr>bytes_left := length ys,
      state := state (strm (push ys c) e' []), errmsg := e'\<rparr> = strm c e' ys"
begin

lemma set_error [simp]: "PB_SET_ERROR msg (strm c e xs) = strm c (case e of None \<Rightarrow> Some msg | Some e \<Rightarrow> Some e) xs"
  by (simp add: PB_SET_ERROR_def)

lemma failed_error [simp, intro]: "failed strm c (PB_RETURN_ERROR msg (strm c e xs))"
  by (simp add: PB_RETURN_ERROR_def)

lemma read_checked_strm:
  "n \<le> length xs \<Longrightarrow> read_checked n (strm c e xs) = Some (Some (take n xs), strm c e (drop n xs))"
  using call [of n xs c e] by (auto simp: read_checked_def)

lemma read_checked_short:
  "length xs < n \<Longrightarrow> read_checked n (strm c e xs) = PB_RETURN_ERROR ''end-of-stream'' (strm c e xs)"
  by (simp add: read_checked_def)

lemma readbyte_strm [simp]:
  "pb_readbyte (strm c e []) = PB_RETURN_ERROR ''end-of-stream'' (strm c e [])"
  "pb_readbyte (strm c e (b # xs)) = Some (Some b, strm c e xs)"
  using call [of 1 "b # xs" c e] by (auto simp: pb_readbyte_def)

lemma skip_pieces_strm:
  "n \<le> length xs \<Longrightarrow> \<exists>ys. skip_pieces n (strm c e xs) = Some (Some ys, strm c e (drop n xs))"
proof (induction n arbitrary: xs rule: less_induct)
  case (less n)
  show ?case
  proof (cases "n > 16")
    case True
    have l: "n - 16 < n" "n - 16 \<le> length (drop 16 xs)" using True less.prems by simp_all
    obtain ys where "skip_pieces (n - 16) (strm c e (drop 16 xs)) =
        Some (Some ys, strm c e (drop (n - 16) (drop 16 xs)))"
      using less.IH [OF l] by blast
    then show ?thesis using True less.prems
      by (subst skip_pieces.simps) (simp add: pb_then_def read_checked_strm)
  next
    case False
    then show ?thesis using less.prems by (subst skip_pieces.simps) (simp add: read_checked_strm)
  qed
qed

lemma skip_pieces_short:
  "length xs < n \<Longrightarrow> failed strm c (skip_pieces n (strm c e xs))"
proof (induction n arbitrary: xs rule: less_induct)
  case (less n)
  show ?case
  proof (cases "n > 16 \<and> 16 \<le> length xs")
    case True
    have l: "n - 16 < n" "length (drop 16 xs) < n - 16"
      using True less.prems by (simp_all add: diff_less_mono)
    have "failed strm c (skip_pieces (n - 16) (strm c e (drop 16 xs)))"
      using less.IH [OF l] by blast
    then show ?thesis using True
      by (subst skip_pieces.simps) (simp add: pb_then_def read_checked_strm)
  next
    case False
    then have "read_checked (if n > 16 then 16 else n) (strm c e xs) =
        PB_RETURN_ERROR ''end-of-stream'' (strm c e xs)"
      using less.prems by (auto intro!: read_checked_short)
    then show ?thesis
      by (subst skip_pieces.simps) (simp add: pb_then_def PB_RETURN_ERROR_def split: if_splits)
  qed
qed

lemma read_strm [simp]:
  "n \<le> length xs \<Longrightarrow> pb_read False n (strm c e xs) = Some (Some (take n xs), strm c e (drop n xs))"
  by (simp add: pb_read_def read_checked_strm)

lemma read_short [simp]:
  "length xs < n \<Longrightarrow> pb_read False n (strm c e xs) = PB_RETURN_ERROR ''end-of-stream'' (strm c e xs)"
  by (auto simp: pb_read_def read_checked_short)

lemma skip_strm [simp]: "n \<le> length xs \<Longrightarrow> pb_skip n (strm c e xs) = Some (Some (), strm c e (drop n xs))"
  using skip_pieces_strm [of n xs c e]
  by (auto simp: pb_skip_def pb_then_def pb_return_def pb_read_def read_checked_strm split: pb_read_fn.splits)

lemma skip_short:
  assumes "length xs < n"
  shows "failed strm c (pb_skip n (strm c e xs))"
proof -
  have "failed strm c (pb_read True n (strm c e xs))"
    using assms skip_pieces_short [OF assms]
    by (simp add: pb_read_def read_checked_short split: pb_read_fn.splits)
  then show ?thesis by (auto simp: pb_skip_def pb_then_def elim!: failedE)
qed

text \<open>The 64-bit reader takes a varint of at most ten bytes and truncates its value.\<close>

lemma varint_loop_strm:
  assumes "is_varint bs" and "k + length bs \<le> 10" and "p < 128 ^ k"
  shows "varint_loop (of_nat p) (of_nat (7 * k)) (strm c e (bs @ r)) =
    Some (Some (of_nat (p + 128 ^ k * varint_val bs)), strm c e r)"
  using assms
proof (induction bs arbitrary: p k)
  case (Cons b bs)
  have k: "k < 10" using Cons.prems(2) by simp
  then have u: "unat (of_nat (7 * k) :: byte) = 7 * k" "\<not> (of_nat (7 * k) :: byte) \<ge> 64"
    by (simp_all add: word_le_nat_alt del: of_nat_mult)
  have q: "varint_loop (of_nat p) (of_nat (7 * k)) (strm c e (b # (bs @ r))) =
      (let result = of_nat (p + 128 ^ k * (unat b mod 128)) in
       if b AND 0x80 \<noteq> 0 then varint_loop result (of_nat (7 * Suc k)) (strm c e (bs @ r))
       else Some (Some result, strm c e (bs @ r)))"
    using u Cons.prems(3) by (subst varint_loop.simps) (simp add: group_step Let_def add.commute)
  show ?case
  proof (cases "unat b < 128")
    case True
    then show ?thesis using q Cons.prems(1) by (simp add: byte_and_80 Let_def)
  next
    case False
    then show ?thesis
      using q Cons.prems Cons.IH [of "Suc k" "p + 128 ^ k * (unat b mod 128)"] group_bound [OF Cons.prems(3), of "unat b"]
      by (simp add: byte_and_80 Let_def algebra_simps)
  qed
qed simp

lemma varint_loop_fail:
  assumes "\<forall>b\<in>set (take (10 - k) xs). 128 \<le> unat b" and "k \<le> 10" and "p < 128 ^ k"
  shows "failed strm c (varint_loop (of_nat p) (of_nat (7 * k)) (strm c e xs))"
  using assms
proof (induction xs arbitrary: p k)
  case Nil
  then show ?case by (subst varint_loop.simps) (simp add: PB_RETURN_ERROR_def)
next
  case (Cons b xs)
  show ?case
  proof (cases "k = 10")
    case True
    then show ?thesis by (subst varint_loop.simps) simp
  next
    case False
    then have k: "k < 10" "10 - k = Suc (10 - Suc k)" using Cons.prems(2) by simp_all
    then have b: "128 \<le> unat b" "\<forall>b\<in>set (take (10 - Suc k) xs). 128 \<le> unat b"
      using Cons.prems(1) by simp_all
    have u: "unat (of_nat (7 * k) :: byte) = 7 * k" "\<not> (of_nat (7 * k) :: byte) \<ge> 64"
      using k(1) by (simp_all add: word_le_nat_alt del: of_nat_mult)
    have "varint_loop (of_nat p) (of_nat (7 * k)) (strm c e (b # xs)) =
        varint_loop (of_nat (p + 128 ^ k * (unat b mod 128))) (of_nat (7 * Suc k)) (strm c e xs)"
      using u b(1) Cons.prems(3)
      by (subst varint_loop.simps) (simp add: group_step Let_def add.commute byte_and_80)
    then show ?thesis
      using Cons.IH [OF b(2) _ group_bound [OF Cons.prems(3)], of "unat b"] k(1) by simp
  qed
qed

lemma varint_strm:
  "is_varint bs \<Longrightarrow> length bs \<le> 10 \<Longrightarrow>
   pb_decode_varint (strm c e (bs @ r)) = Some (Some (of_nat (varint_val bs)), strm c e r)"
  using varint_loop_strm [of bs 0 0 c e r] by (simp add: pb_decode_varint_def)

lemma varint_fail:
  assumes "\<nexists>bs r. xs = bs @ r \<and> is_varint bs \<and> length bs \<le> 10"
  shows "failed strm c (pb_decode_varint (strm c e xs))"
proof -
  have "\<forall>b\<in>set (take 10 xs). 128 \<le> unat b"
  proof (rule varint_cases [of "take 10 xs"])
    fix bs r assume "take 10 xs = bs @ r" "is_varint bs"
    then have "xs = bs @ (r @ drop 10 xs)" "length bs \<le> 10"
      by (metis append.assoc append_take_drop_id, metis append_eq_conv_conj length_take min.cobounded2 min.absorb2 nat_le_linear take_all_iff length_append le_add1 order_trans)
    then show ?thesis using assms \<open>is_varint bs\<close> by blast
  qed
  then show ?thesis using varint_loop_fail [of 0 xs 0 c e] by (simp add: pb_decode_varint_def)
qed

lemma varint_iff:
  "pb_decode_varint (strm c e xs) = Some (Some v, s') \<longleftrightarrow>
   (\<exists>bs r. xs = bs @ r \<and> is_varint bs \<and> length bs \<le> 10 \<and> v = of_nat (varint_val bs) \<and> s' = strm c e r)"
proof (cases "\<exists>bs r. xs = bs @ r \<and> is_varint bs \<and> length bs \<le> 10")
  case True
  then obtain bs r where b: "xs = bs @ r" "is_varint bs" "length bs \<le> 10" by blast
  then show ?thesis using varint_strm [OF b(2,3), of c e r] is_varint_prefix_unique [OF b(2)] by auto
next
  case False
  then show ?thesis using varint_fail [OF False, of c e] by (auto elim!: failedE)
qed

section \<open>32-bit varints\<close>

lemma varint32_loop_strm:
  assumes "is_varint bs" and "k + length bs \<le> 36" and "p < 128 ^ k" and "0 < k"
  shows "if tolerated p k bs
    then varint32_loop (of_nat p) (of_nat (7 * k)) (strm c e (bs @ r)) =
      Some (Some (of_nat (p + 128 ^ k * varint_val bs), last bs, of_nat (7 * (k + length bs))), strm c e r)
    else failed strm c (varint32_loop (of_nat p) (of_nat (7 * k)) (strm c e (bs @ r)))"
  using assms
proof (induction bs arbitrary: p k)
  case (Cons b bs)
  have k: "7 * k < 256" using Cons.prems(2) by simp
  then have u: "unat (of_nat (7 * k) :: byte) = 7 * k" "(of_nat (7 * k) :: byte) \<ge> 32 \<longleftrightarrow> k \<ge> 5"
    "(of_nat (7 * k) :: byte) < 63 \<longleftrightarrow> k < 9"
    by (auto simp: word_le_nat_alt word_less_nat_alt simp del: of_nat_mult)
  let ?p = "p + 128 ^ k * (unat b mod 128)"
  have sum_eq: "p + 128 ^ k * (unat b mod 128 + 128 * varint_val bs) = ?p + 128 ^ Suc k * varint_val bs"
    by (simp add: algebra_simps)
  have hi: "(of_nat ?p :: u32) = of_nat p" if "k \<ge> 5"
  proof -
    have "(128 :: u32) ^ k = 128 ^ 5 * 128 ^ (k - 5)"
      using that power_add [of "128::u32" 5 "k - 5"] by simp
    moreover have "(128 :: u32) ^ 5 = 0" by simp
    ultimately have "(128 :: u32) ^ k = 0" by (simp only: mult_zero_left)
    then show ?thesis by simp
  qed
  have res: "(if k \<ge> 5 then of_nat p else of_nat p OR push_bit (7 * k) (ucast (b AND 0x7F))) = (of_nat ?p :: u32)"
    using hi group_step [OF Cons.prems(3), where 'a = 32] by simp
  have bit31: "drop_bit 31 (of_nat p :: u32) = 0 \<longleftrightarrow> \<not> bit p 31"
    by (simp add: drop_bit_31_eq_0 bit_of_nat_iff)
  let ?loop = "varint32_loop (of_nat p) (of_nat (7 * k)) (strm c e (b # (bs @ r)))"
  have u7: "of_nat (7 * k) + 7 = (of_nat (7 * Suc k) :: byte)" by simp
  have q: "?loop =
      (if k \<ge> 5 \<and> b AND 0x7F \<noteq> 0 \<and>
          (drop_bit 31 (of_nat p :: u32) = 0 \<or> b \<noteq> (if k < 9 then 0xFF else 0x01))
       then PB_RETURN_ERROR ''varint overflow'' (strm c e (bs @ r))
       else if b AND 0x80 \<noteq> 0 then varint32_loop (of_nat ?p) (of_nat (7 * Suc k)) (strm c e (bs @ r))
       else Some (Some (of_nat ?p, b, of_nat (7 * Suc k)), strm c e (bs @ r)))"
    by (subst varint32_loop.simps) (simp only: readbyte_strm option.case prod.case Let_def u u7 res)
  show ?case
  proof (cases "k < 5 \<or> unat b mod 128 = 0 \<or> bit p 31 \<and> b = (if k < 9 then 0xFF else 0x01)")
    case False
    then have "?loop = PB_RETURN_ERROR ''varint overflow'' (strm c e (bs @ r))"
      unfolding q bit31 byte_and_7f_0 by auto
    moreover have "\<not> tolerated p k (b # bs)" using False unfolding tolerated.simps by blast
    ultimately show ?thesis by (simp only: append_Cons if_False failed_error)
  next
    case True
    then have q: "?loop =
        (if b AND 0x80 \<noteq> 0 then varint32_loop (of_nat ?p) (of_nat (7 * Suc k)) (strm c e (bs @ r))
         else Some (Some (of_nat ?p, b, of_nat (7 * Suc k)), strm c e (bs @ r)))"
      unfolding q bit31 byte_and_7f_0 by (intro if_not_P) auto
    show ?thesis
    proof (cases "unat b < 128")
      case b: True
      then have bs: "bs = []" using Cons.prems(1) by simp
      have t: "tolerated p k [b]" using True by simp
      have "?loop = Some (Some (of_nat ?p, b, of_nat (7 * Suc k)), strm c e (bs @ r))"
        using q b by (simp add: byte_and_80)
      then show ?thesis using t unfolding bs by (simp del: of_nat_mult of_nat_add of_nat_Suc)
    next
      case b: False
      have ih: "if tolerated ?p (Suc k) bs
        then varint32_loop (of_nat ?p) (of_nat (7 * Suc k)) (strm c e (bs @ r)) =
          Some (Some (of_nat (?p + 128 ^ Suc k * varint_val bs), last bs, of_nat (7 * (Suc k + length bs))), strm c e r)
        else failed strm c (varint32_loop (of_nat ?p) (of_nat (7 * Suc k)) (strm c e (bs @ r)))"
        using Cons.prems b by (intro Cons.IH group_bound) simp_all
      have "bs \<noteq> []" using Cons.prems(1) b by auto
      then have l: "last (b # bs) = last bs" by simp
      have t: "tolerated p k (b # bs) = tolerated ?p (Suc k) bs" using True by simp
      have "?loop = varint32_loop (of_nat ?p) (of_nat (7 * Suc k)) (strm c e (bs @ r))"
        using q b by (simp add: byte_and_80)
      then show ?thesis using ih unfolding t l append_Cons
        by (simp only: length_Cons add_Suc_right add_Suc varint_val.simps sum_eq)
    qed
  qed
qed simp

text \<open>
  The 32-bit reader on any varint of at most 36 bytes, at the end of the input, and on an input
  that stops within a varint.
\<close>

lemma varint32_eof_strm:
  assumes "is_varint bs" and "length bs \<le> 36"
  shows "if varint32_ok bs
    then pb_decode_varint32_eof (strm c e (bs @ r)) = Some (Some (of_nat (varint_val bs)), False, strm c e r)
    else failed strm c (pb_decode_varint32 (strm c e (bs @ r)))"
proof (cases bs)
  case (Cons b bs')
  show ?thesis
  proof (cases "unat b < 128")
    case True
    then have "bs' = []" using assms(1) Cons by simp
    then show ?thesis using True Cons
      by (simp add: pb_decode_varint32_eof_def byte_and_80 varint32_ok_def)
  next
    case False
    then have v: "is_varint bs'" "1 + length bs' \<le> 36" "bs' \<noteq> []" using assms Cons by auto
    have w: "(ucast (b AND 0x7F) :: u32) = of_nat (unat b mod 128)"
      using push_group [of 0 b, where 'a = 32] by simp
    have p: "unat b mod 128 < 128 ^ 1" by simp
    have l: "(of_nat (7 * (1 + length bs')) :: byte) = 35 \<longleftrightarrow> length bs = 5"
      using v(2) Cons by (auto simp: word_unat_eq_iff [of _ 35] simp del: of_nat_mult of_nat_add of_nat_Suc)
    have t: "varint32_ok bs \<longleftrightarrow> tolerated (unat b mod 128) 1 bs' \<and> (length bs = 5 \<longrightarrow> unat (last bs') < 16)"
      using Cons v(3) by (simp add: varint32_ok_def)
    have z: "last bs' AND 0x70 \<noteq> 0 \<longleftrightarrow> \<not> unat (last bs') < 16"
      using v(1) by (simp add: and_70_eq_0 is_varint_last)
    show ?thesis
      using varint32_loop_strm [OF v(1,2) p, of c e r] False Cons w l t z
      by (cases "tolerated (unat b mod 128) 1 bs'")
        (auto simp: pb_decode_varint32_eof_def pb_decode_varint32_def byte_and_80 elim!: failedE
          simp del: of_nat_mult of_nat_add of_nat_Suc)
  qed
qed (use assms in simp)

lemma varint32_strm:
  "is_varint bs \<Longrightarrow> length bs \<le> 36 \<Longrightarrow> varint32_ok bs \<Longrightarrow>
   pb_decode_varint32 (strm c e (bs @ r)) = Some (Some (of_nat (varint_val bs)), strm c e r)"
  using varint32_eof_strm [of bs c e r] by (simp add: pb_decode_varint32_def)

lemma varint32_bad:
  "is_varint bs \<Longrightarrow> length bs \<le> 36 \<Longrightarrow> \<not> varint32_ok bs \<Longrightarrow>
   failed strm c (pb_decode_varint32 (strm c e (bs @ r)))"
  using varint32_eof_strm [of bs c e r] by (auto simp: pb_decode_varint32_def)

end

end
