(* ===== verification/PbRead.thy ===== *)
theory PbRead
  imports PbWire
begin

text \<open>
  What the readers of nanopb do on the encodings of the wire format, over any lawful stream;
  the interpretation of \<open>wire_source\<close> on buffers and on custom streams.
\<close>

section \<open>Canonical encodings are tolerated by the 32-bit reader\<close>

lemma tolerated_short: "k + length bs \<le> 5 \<Longrightarrow> tolerated p k bs"
  by (induction bs arbitrary: p k) auto

lemma varint_val_append: "varint_val (xs @ ys) = varint_val xs + 128 ^ length xs * varint_val ys"
  by (induction xs) (simp_all add: algebra_simps)

lemma varint_val_last: "is_varint bs \<Longrightarrow> 128 ^ (length bs - 1) * unat (last bs) \<le> varint_val bs"
proof -
  assume v: "is_varint bs"
  then have bs: "bs = butlast bs @ [last bs]" by (cases bs) simp_all
  have "varint_val bs = varint_val (butlast bs) + 128 ^ (length bs - 1) * (unat (last bs) mod 128)"
    by (subst bs) (simp add: varint_val_append)
  then show ?thesis using is_varint_last [OF v] by simp
qed

lemma varint32_ok_small: "is_varint bs \<Longrightarrow> length bs \<le> 5 \<Longrightarrow> varint_val bs < 2 ^ 32 \<Longrightarrow> varint32_ok bs"
  using varint_val_last [of bs] by (auto simp: varint32_ok_def tolerated_short)

lemma varint32_ok_u32: "v < 2 ^ 32 \<Longrightarrow> varint32_ok (varint_bytes v)"
  using length_varint_u32 [of "of_nat v"] by (intro varint32_ok_small) (simp_all add: unat_of_nat)

text \<open>The first \<open>n\<close> bytes of the encoding of a large value.\<close>

fun low_groups :: "nat \<Rightarrow> nat \<Rightarrow> byte list" where
  "low_groups 0 v = []"
| "low_groups (Suc n) v = of_nat (v mod 128 + 128) # low_groups n (v div 128)"

lemma length_groups [simp]: "length (low_groups n v) = n"
  by (induction n v rule: low_groups.induct) simp_all

lemma varint_val_groups: "varint_val (low_groups n v) = v mod 128 ^ n"
proof (induction n v rule: low_groups.induct)
  case (2 n v)
  then show ?case using mod_mult2_eq [of v 128 "128 ^ n"]
    by (simp del: of_nat_add)
qed simp

lemma varint_bytes_groups: "128 ^ n \<le> v \<Longrightarrow> varint_bytes v = low_groups n v @ varint_bytes (v div 128 ^ n)"
proof (induction n v rule: low_groups.induct)
  case (2 n v)
  have "128 * (1 :: nat) \<le> 128 * 128 ^ n" by (intro mult_le_mono2) simp
  also have "\<dots> \<le> v" using 2(2) by simp
  finally have "128 \<le> v" by simp
  moreover have "128 ^ n \<le> v div 128" using 2(2) by (simp add: less_eq_div_iff_mult_less_eq mult.commute)
  ultimately show ?case using 2(1)
    by (subst varint_bytes.simps) (simp add: div_mult2_eq [symmetric])
qed simp

lemma tolerated_append:
  "tolerated p k (xs @ ys) \<longleftrightarrow> tolerated p k xs \<and> tolerated (p + 128 ^ k * varint_val xs) (k + length xs) ys"
proof (induction xs arbitrary: p k)
  case (Cons b xs)
  have "p + 128 ^ k * (unat b mod 128) + 128 ^ Suc k * varint_val xs =
      p + 128 ^ k * (unat b mod 128 + 128 * varint_val xs)" by (simp add: algebra_simps)
  then show ?case using Cons by (simp only: append_Cons tolerated.simps varint_val.simps length_Cons) simp
qed simp

lemma bit_mod_35: "bit (v mod 34359738368) 31 \<longleftrightarrow> bit (v :: nat) 31"
  using bit_take_bit_iff [of 35 v 31] by (simp add: take_bit_eq_mod)

text \<open>Negative 32-bit values are sent sign-extended to 64 bits.\<close>

lemma varint32_ok_negative:
  assumes "2 ^ 64 - 2 ^ 31 \<le> v" and "v < 2 ^ 64"
  shows "varint32_ok (varint_bytes v)"
proof -
  have ext: "varint_bytes 536870911 = [0xFF, 0xFF, 0xFF, 0xFF, 0x01]"
    by (simp add: varint_bytes.simps)
  have "v div 128 ^ 5 = 536870911" using assms by simp
  then have v: "varint_bytes v = low_groups 5 v @ [0xFF, 0xFF, 0xFF, 0xFF, 0x01]"
    using varint_bytes_groups [of 5 v] assms(1) ext by simp
  have "v div 2 ^ 31 = 8589934591" using assms by simp
  then have b: "bit v 31" by (simp add: bit_iff_odd)
  have b': "bit (v mod 34359738368 + 34359738368 * m) 31" for m
    using b bit_mod_35 [of "v mod 34359738368 + 34359738368 * m"] bit_mod_35 [of v] by simp
  then have b'': "bit (34359738368 * m + v mod 34359738368) 31" for m by (simp only: add.commute)
  have "tolerated (v mod 34359738368) 5 [0xFF, 0xFF, 0xFF, 0xFF, 0x01]"
    using b' [of 0] b' [of 127] b' [of 16383] b' [of 2097151] b' [of 268435455]
      b'' [of 16383] b'' [of 2097151] b'' [of 268435455] by simp
  then show ?thesis
    unfolding varint32_ok_def v tolerated_append by (simp add: varint_val_groups tolerated_short)
qed


section \<open>Readers on encoded values\<close>

text \<open>The values of the wire format: their wire types, when they are well formed, and their bytes.\<close>

datatype wire_value = Varint "byte list" | Fixed64 "byte list" | Delimited "byte list" | Fixed32 "byte list"

fun wire_type :: "wire_value \<Rightarrow> nat" where
  "wire_type (Varint _) = 0"
| "wire_type (Fixed64 _) = 1"
| "wire_type (Delimited _) = 2"
| "wire_type (Fixed32 _) = 5"

fun wire_ok :: "wire_value \<Rightarrow> bool" where
  "wire_ok (Varint bs) \<longleftrightarrow> is_varint bs"
| "wire_ok (Fixed64 bs) \<longleftrightarrow> length bs = 8"
| "wire_ok (Delimited bs) \<longleftrightarrow> length bs < 2 ^ 32"
| "wire_ok (Fixed32 bs) \<longleftrightarrow> length bs = 4"

fun wire_bytes :: "wire_value \<Rightarrow> byte list" where
  "wire_bytes (Varint bs) = bs"
| "wire_bytes (Fixed64 bs) = bs"
| "wire_bytes (Delimited bs) = varint_bytes (length bs) @ bs"
| "wire_bytes (Fixed32 bs) = bs"

definition tag_bytes :: "nat \<Rightarrow> nat \<Rightarrow> byte list" where
  "tag_bytes field_number wt = varint_bytes (8 * field_number + wt)"

lemma drop_bit_3_of_nat: "k < 2 ^ 32 \<Longrightarrow> drop_bit 3 (of_nat k :: u32) = of_nat (k div 8)"
  by (rule word_eq_of_natI) (simp add: unat_drop_bit unat_of_nat)

lemma and_7_of_nat: "k < 2 ^ 32 \<Longrightarrow> (of_nat k :: u32) AND 7 = of_nat (k mod 8)"
proof (rule word_eq_of_natI)
  assume k: "k < 2 ^ 32"
  have "(7 :: u32) = mask 3" by (simp add: mask_numeral)
  then show "unat ((of_nat k :: u32) AND 7) = k mod 8"
    using unat_and_mask [of "of_nat k :: u32" 3] k by (simp add: unat_of_nat)
qed

context wire_source
begin

lemma varint32_bytes_eof:
  assumes "v < 2 ^ 32"
  shows "pb_decode_varint32_eof (strm c e (varint_bytes v @ r)) = Some (Some (of_nat v), False, strm c e r)"
proof -
  have "length (varint_bytes v) \<le> 36" using length_varint_u32 [of "of_nat v"] assms by (simp add: unat_of_nat)
  then show ?thesis
    using varint32_eof_strm [of "varint_bytes v", where c = c and e = e and r = r] varint32_ok_u32 [OF assms] by simp
qed

lemma varint32_bytes:
  "v < 2 ^ 32 \<Longrightarrow> pb_decode_varint32 (strm c e (varint_bytes v @ r)) = Some (Some (of_nat v), strm c e r)"
  by (simp add: pb_decode_varint32_def varint32_bytes_eof)

lemma varint_bytes_strm:
  "pb_decode_varint (strm c e (varint_bytes (unat v) @ r)) = Some (Some v, strm c e r)"
  using varint_strm [OF is_varint_bytes length_varint_u64, where c = c and e = e and r = r] by simp

lemma tag_strm:
  assumes "0 < n" and "n < 2 ^ 29" and "wt < 8"
  shows "pb_decode_tag (strm c e (tag_bytes n wt @ r)) = Some (Some (of_nat wt, of_nat n), False, strm c e r)"
proof -
  have k: "8 * n + wt < 2 ^ 32" using assms by simp
  have "(of_nat (8 * n + wt) :: u32) \<noteq> 0" using k assms(1)
    by (simp add: word_unat_eq_iff unat_of_nat del: of_nat_add of_nat_mult)
  moreover have "(8 * n + wt) mod 8 = wt" "(8 * n + wt) div 8 = n" using assms(3) by simp_all
  ultimately show ?thesis
    using varint32_bytes_eof [OF k, where c = c and e = e and r = r] drop_bit_3_of_nat [OF k] and_7_of_nat [OF k]
    by (simp add: pb_decode_tag_def tag_bytes_def del: of_nat_add of_nat_mult)
qed

lemma tag_end: "\<exists>e'. pb_decode_tag (strm c e []) = Some (None, True, strm c e' [])"
  by (simp add: pb_decode_tag_def pb_decode_varint32_eof_def PB_RETURN_ERROR_def) blast

lemma skip_varint_strm: "is_varint bs \<Longrightarrow> pb_skip_varint (strm c e (bs @ r)) = Some (Some (), strm c e r)"
  by (induction bs) (simp_all add: pb_skip_varint.simps byte_and_80)

lemma skip_string_strm:
  "length bs < 2 ^ 32 \<Longrightarrow>
   pb_skip_string (strm c e (varint_bytes (length bs) @ bs @ r)) = Some (Some (), strm c e r)"
  by (simp add: pb_skip_string_def pb_then_def varint32_bytes unat_of_nat)

text \<open>A field of a known wire type is skipped exactly.\<close>

lemma skip_field_strm:
  assumes "wire_ok v"
  shows "pb_skip_field (of_nat (wire_type v)) (strm c e (wire_bytes v @ r)) = Some (Some (), strm c e r)"
  using assms by (cases v) (simp_all add: pb_skip_field_def PB_WT_VARINT_def PB_WT_64BIT_def PB_WT_STRING_def
      PB_WT_32BIT_def skip_varint_strm skip_string_strm)

lemma raw_varint_strm:
  assumes "is_varint bs" and "length bs \<le> n"
  shows "raw_varint n acc (strm c e (bs @ r)) = Some (Some (acc @ bs), strm c e r)"
  using assms
proof (induction bs arbitrary: n acc)
  case (Cons b bs)
  then show ?case by (cases n) (auto simp: pb_then_def pb_return_def byte_and_80 split: if_splits)
qed simp

lemma raw_value_strm:
  assumes "wire_ok v" and "wire_type v \<noteq> 2" and "length (wire_bytes v) \<le> 10"
  shows "read_raw_value (of_nat (wire_type v)) 10 (strm c e (wire_bytes v @ r)) =
    Some (Some (wire_bytes v), strm c e r)"
  using assms by (cases v) (simp_all add: read_raw_value_def PB_WT_VARINT_def PB_WT_64BIT_def
      PB_WT_32BIT_def raw_varint_strm)

text \<open>A substream holds the delimited bytes; closing it, read or not, leaves the rest.\<close>

lemma make_substream_strm:
  assumes "length bs < 2 ^ 32"
  shows "pb_make_string_substream (strm c e (varint_bytes (length bs) @ bs @ r)) =
    Some (Some (strm (push r c) e bs), (strm c e (bs @ r))\<lparr>bytes_left := length r\<rparr>)"
  using assms limit [where c = c and e = e and xs = bs and ys = r]
  by (simp add: pb_make_string_substream_def pb_then_def varint32_bytes unat_of_nat)

lemma close_substream_strm:
  "\<exists>sub'. pb_close_string_substream ((strm c e (bs @ r))\<lparr>bytes_left := length r\<rparr>) (strm (push r c) e' ys) =
     Some (True, strm c e' r, sub')"
proof (cases "ys = []")
  case True
  then show ?thesis using behind [where c = c and e = e and xs = bs and ys = r and e' = e'] by (simp add: pb_close_string_substream_def)
next
  case False
  then show ?thesis using behind [where c = c and e = e and xs = bs and ys = r and e' = e'] by (simp add: pb_close_string_substream_def)
qed

lemma svarint_strm:
  "pb_decode_svarint (strm c e (varint_bytes (unat v) @ r)) =
   Some (Some (if v AND 1 \<noteq> 0 then NOT (drop_bit 1 v) else drop_bit 1 v), strm c e r)"
  by (simp add: pb_decode_svarint_def pb_then_def pb_return_def varint_bytes_strm)

lemma fixed32_strm:
  "length bs = 4 \<Longrightarrow> pb_decode_fixed32 (strm c e (bs @ r)) = Some (Some (le_word32 bs), strm c e r)"
  by (simp add: pb_decode_fixed32_def pb_then_def pb_return_def)

lemma fixed64_strm:
  "length bs = 8 \<Longrightarrow> pb_decode_fixed64 (strm c e (bs @ r)) = Some (Some (le_word64 bs), strm c e r)"
  by (simp add: pb_decode_fixed64_def pb_then_def pb_return_def)

end

section \<open>Buffers and custom streams\<close>

text \<open>A buffer stream over the bytes \<open>xs\<close>, with the memory \<open>c\<close> behind them.\<close>

definition buffer_stream :: "byte list \<Rightarrow> string option \<Rightarrow> byte list \<Rightarrow> 's pb_istream" where
  "buffer_stream c e xs =
     \<lparr>callback = Buf_read, state = Buf_state (xs @ c), bytes_left = length xs, errmsg = e\<rparr>"

text \<open>A callback of the application that hands out a list.\<close>

definition read_list :: "byte list \<Rightarrow> nat \<Rightarrow> bool \<times> byte list \<times> byte list" where
  "read_list u n = (True, take n u, drop n u)"

definition list_stream :: "byte list \<Rightarrow> string option \<Rightarrow> byte list \<Rightarrow> byte list pb_istream" where
  "list_stream c e xs =
     \<lparr>callback = User_read read_list, state = User_state (xs @ c), bytes_left = length xs, errmsg = e\<rparr>"

interpretation buffer: wire_source buffer_stream append
  by unfold_locales (simp_all add: buffer_stream_def call_callback_def buf_read_def)

interpretation custom: wire_source list_stream append
  by unfold_locales (simp_all add: list_stream_def call_callback_def read_list_def)

lemma istream_from_buffer: "pb_istream_from_buffer (xs @ c) (length xs) = buffer_stream c None xs"
  by (simp add: pb_istream_from_buffer_def buffer_stream_def)

end
