(* ===== verification/PbWrite.thy ===== *)
theory PbWrite
  imports PbRead
begin

text \<open>
  What the writers of nanopb emit, over any lawful output stream: the locale \<open>wire_sink\<close>,
  interpreted on buffers, on counting streams and on custom streams. From it follow that a
  sizing pass counts exactly the bytes of the real pass, and that values written are read back.
\<close>

section \<open>The bytes of the writers\<close>

lemma u64_small: "unat (v :: u64) < 128 \<longleftrightarrow> v \<le> 0x7F"
  by (simp add: word_le_nat_alt less_Suc_eq_le [symmetric])

lemma unat_and_7f_64: "unat ((v :: u64) AND 0x7F) = unat v mod 128"
proof -
  have "(0x7F :: u64) = mask 7" by (simp add: mask_numeral)
  then show ?thesis using unat_and_mask [of v 7] by simp
qed

lemma group_byte: "(ucast ((v :: u64) AND 0x7F OR 0x80) :: byte) = of_nat (unat v mod 128 + 128)"
proof -
  have d: "(v AND 0x7F) AND 0x80 = 0" by (simp add: and.assoc)
  have l: "unat v mod 128 < 128" by simp
  have "unat (v AND 0x7F OR 0x80) = unat v mod 128 + 128"
    using l by (simp add: disjunctive_add_eq_or [symmetric, OF d] unat_and_7f_64 unat_word_ariths del: mod_less_divisor)
  then show ?thesis by (metis of_nat_unat)
qed

lemma last_group_byte: "(of_nat (n mod 128 + 128) :: byte) AND 0x7F = of_nat (n mod 128)"
  by (rule word_eq_of_natI) (simp add: byte_and_7f del: of_nat_add)

lemma varint_groups_not_Nil: "v \<noteq> 0 \<Longrightarrow> varint_groups v \<noteq> []"
  by (subst varint_groups.simps) simp

lemma varint_groups_bytes:
  "v \<noteq> 0 \<Longrightarrow> (varint_groups v)[length (varint_groups v) - 1 :=
     (varint_groups v ! (length (varint_groups v) - 1)) AND 0x7F] = varint_bytes (unat v)"
proof (induction v rule: varint_groups.induct)
  case (1 v)
  let ?w = "drop_bit 7 v"
  have w: "unat ?w = unat v div 128" by (simp add: unat_drop_bit)
  show ?case
  proof (cases "unat v < 128")
    case True
    then have "?w = 0" using w by (simp add: word_unat_eq_iff)
    then have "varint_groups v = [of_nat (unat v mod 128 + 128)]"
      using 1(2) by (simp add: varint_groups.simps group_byte del: of_nat_add)
    then show ?thesis using True last_group_byte [of "unat v"]
      by (simp add: varint_bytes.simps [of "unat v"] del: of_nat_add)
  next
    case False
    then have z: "?w \<noteq> 0" using w by (simp add: word_unat_eq_iff)
    have g: "varint_groups v = of_nat (unat v mod 128 + 128) # varint_groups ?w"
      using 1(2) by (subst varint_groups.simps) (simp add: group_byte del: of_nat_add)
    obtain n where n: "length (varint_groups ?w) = Suc n"
      using varint_groups_not_Nil [OF z] by (cases "varint_groups ?w") auto
    show ?thesis using 1(1) [OF 1(2) z] False w n
      by (subst varint_bytes.simps) (simp add: g del: of_nat_add)
  qed
qed

text \<open>Zigzag: the sign moves to the lowest bit.\<close>

definition zigzag :: "u64 \<Rightarrow> u64" where
  "zigzag v = (if sint v < 0 then NOT (push_bit 1 v) else push_bit 1 v)"

lemma and_1_bit: "(x :: u64) AND 1 \<noteq> 0 \<longleftrightarrow> bit x 0"
  by (simp add: bit_0 and_one_eq odd_iff_mod_2_eq_one)

lemma zigzag_decode: "(if zigzag v AND 1 \<noteq> 0 then NOT (drop_bit 1 (zigzag v)) else drop_bit 1 (zigzag v)) = v"
proof (cases "sint v < 0")
  case True
  then have b: "bit v 63" using bit_last_iff [of v] by simp
  have "zigzag v AND 1 \<noteq> 0" using True unfolding and_1_bit zigzag_def by (simp only: if_True bit_not_iff bit_push_bit_iff) simp
  moreover have "NOT (drop_bit 1 (zigzag v)) = v"
  proof (rule bit_eqI)
    fix n assume "possible_bit TYPE(u64) n"
    then have "n < 64" by simp
    then have "n = 63 \<or> Suc n < 64" by linarith
    then show "bit (NOT (drop_bit 1 (zigzag v))) n = bit v n"
      using True b unfolding zigzag_def
      by (auto simp only: if_True bit_not_iff bit_drop_bit_eq bit_push_bit_iff comp_def) auto
  qed
  ultimately show ?thesis by simp
next
  case False
  then have b: "\<not> bit v 63" using bit_last_iff [of v] by simp
  have "\<not> bit (zigzag v) 0" using False unfolding zigzag_def by (simp only: if_False bit_push_bit_iff) simp
  then have "zigzag v AND 1 = 0" using and_1_bit by blast
  moreover have "drop_bit 1 (zigzag v) = v"
  proof (rule bit_eqI)
    fix n assume "possible_bit TYPE(u64) n"
    then have "n < 64" by simp
    then have "n = 63 \<or> Suc n < 64" by linarith
    then show "bit (drop_bit 1 (zigzag v)) n = bit v n"
      using False b unfolding zigzag_def
      by (auto simp only: if_False bit_drop_bit_eq bit_push_bit_iff comp_def) auto
  qed
  ultimately show ?thesis by simp
qed

text \<open>Byte \<open>k div 8\<close> of a word, cut out and put back.\<close>

lemma bit_byte_at:
  "bit (push_bit k (ucast (ucast (drop_bit k v AND 0xFF) :: byte)) :: 'a::len word) n \<longleftrightarrow>
   k \<le> n \<and> n < k + 8 \<and> bit (v :: 'a word) n"
proof -
  have m: "(0xFF :: 'a word) = mask 8" by (simp add: mask_numeral)
  show ?thesis unfolding m by (auto simp: bit_simps dest: bit_imp_le_length)
qed

lemma le_word32_list: "le_word32 [a, b, c, d] = push_bit 0 (ucast a) OR push_bit 8 (ucast b) OR push_bit 16 (ucast c) OR
    push_bit 24 (ucast d)"
  by (simp add: le_word32_def)

lemma le_word64_list: "le_word64 [a, b, c, d, e, f, g, h] = push_bit 0 (ucast a) OR push_bit 8 (ucast b) OR
    push_bit 16 (ucast c) OR push_bit 24 (ucast d) OR push_bit 32 (ucast e) OR push_bit 40 (ucast f) OR
    push_bit 48 (ucast g) OR push_bit 56 (ucast h)"
  by (simp add: le_word64_def)

lemma le_word32_bytes:
  "le_word32 [ucast (v AND 0xFF), ucast (drop_bit 8 v AND 0xFF), ucast (drop_bit 16 v AND 0xFF),
     ucast (drop_bit 24 v AND 0xFF)] = v"
proof (rule bit_eqI)
  fix n assume "possible_bit TYPE(u32) n"
  then have "n < 32" by simp
  then have "n < 8 \<or> 8 \<le> n \<and> n < 16 \<or> 16 \<le> n \<and> n < 24 \<or> 24 \<le> n \<and> n < 32" by linarith
  then show "bit (le_word32 [ucast (v AND 0xFF), ucast (drop_bit 8 v AND 0xFF), ucast (drop_bit 16 v AND 0xFF),
     ucast (drop_bit 24 v AND 0xFF)]) n = bit v n"
    using bit_byte_at [of 0 v n, unfolded drop_bit_0 id_apply]
    unfolding le_word32_list bit_or_iff bit_byte_at by auto
qed


lemma le_word64_bytes:
  "le_word64 [ucast (v AND 0xFF), ucast (drop_bit 8 v AND 0xFF), ucast (drop_bit 16 v AND 0xFF),
     ucast (drop_bit 24 v AND 0xFF), ucast (drop_bit 32 v AND 0xFF), ucast (drop_bit 40 v AND 0xFF),
     ucast (drop_bit 48 v AND 0xFF), ucast (drop_bit 56 v AND 0xFF)] = v"
proof (rule bit_eqI)
  fix n assume "possible_bit TYPE(u64) n"
  then have "n < 64" by simp
  then have "n < 8 \<or> 8 \<le> n \<and> n < 16 \<or> 16 \<le> n \<and> n < 24 \<or> 24 \<le> n \<and> n < 32 \<or>
      32 \<le> n \<and> n < 40 \<or> 40 \<le> n \<and> n < 48 \<or> 48 \<le> n \<and> n < 56 \<or> 56 \<le> n \<and> n < 64" by linarith
  then show "bit (le_word64 [ucast (v AND 0xFF), ucast (drop_bit 8 v AND 0xFF), ucast (drop_bit 16 v AND 0xFF),
     ucast (drop_bit 24 v AND 0xFF), ucast (drop_bit 32 v AND 0xFF), ucast (drop_bit 40 v AND 0xFF),
     ucast (drop_bit 48 v AND 0xFF), ucast (drop_bit 56 v AND 0xFF)]) n = bit v n"
    using bit_byte_at [of 0 v n, unfolded drop_bit_0 id_apply]
    unfolding le_word64_list bit_or_iff bit_byte_at by auto
qed


section \<open>Lawful output streams\<close>

text \<open>
  \<open>ostrm c ys\<close> is a stream that has taken the bytes \<open>ys\<close>, and \<open>room c\<close> the number of bytes it
  takes in all. A writer emits \<open>xs\<close> if it appends them wherever they fit and fails elsewhere.
\<close>

definition emits ::
  "('c \<Rightarrow> byte list \<Rightarrow> 's pb_ostream) \<Rightarrow> ('c \<Rightarrow> nat) \<Rightarrow> 's pb_writer \<Rightarrow> byte list \<Rightarrow> bool" where
  "emits ostrm room w xs \<longleftrightarrow> (\<forall>c ys. length ys \<le> room c \<longrightarrow> length ys + length xs < 2 ^ 64 \<longrightarrow>
     (if length ys + length xs \<le> room c then w (ostrm c ys) = Some (True, ostrm c (ys @ xs))
      else \<exists>c' zs. w (ostrm c ys) = Some (False, ostrm c' zs) \<and> room c' = room c))"

locale wire_sink =
  fixes ostrm :: "'c \<Rightarrow> byte list \<Rightarrow> 's pb_ostream" and room :: "'c \<Rightarrow> nat"
  assumes emits_write: "emits ostrm room (pb_write xs (length xs)) xs"
begin

lemma emits_list: "n = length xs \<Longrightarrow> emits ostrm room (pb_write xs n) xs"
  using emits_write by simp

lemma emits_then:
  assumes "emits ostrm room w xs" and "emits ostrm room v ys"
  shows "emits ostrm room (out_then w v) (xs @ ys)"
  unfolding emits_def
proof (intro allI impI)
  fix c and zs :: "byte list" assume r: "length zs \<le> room c" and l: "length zs + length (xs @ ys) < 2 ^ 64"
  then have l1: "length zs + length xs < 2 ^ 64" "length (zs @ xs) + length ys < 2 ^ 64" by simp_all
  note w = assms(1) [unfolded emits_def, rule_format, OF r l1(1)]
  note v = assms(2) [unfolded emits_def, rule_format, OF _ l1(2), of c]
  show "if length zs + length (xs @ ys) \<le> room c
    then out_then w v (ostrm c zs) = Some (True, ostrm c (zs @ xs @ ys))
    else \<exists>c' zs'. out_then w v (ostrm c zs) = Some (False, ostrm c' zs') \<and> room c' = room c"
  proof (cases "length zs + length xs \<le> room c")
    case True
    then have "w (ostrm c zs) = Some (True, ostrm c (zs @ xs))" using w by simp
    then show ?thesis using v True
      by (cases "length zs + (length xs + length ys) \<le> room c") (auto simp: out_then_def)
  next
    case False
    then obtain c' zs' where "w (ostrm c zs) = Some (False, ostrm c' zs')" "room c' = room c" using w by auto
    then show ?thesis using False by (auto simp: out_then_def)
  qed
qed

lemma emits_varint: "emits ostrm room (pb_encode_varint v) (varint_bytes (unat v))"
proof (cases "v \<le> 0x7F")
  case True
  then have "varint_bytes (unat v) = [ucast v]"
    using u64_small [of v] by (subst varint_bytes.simps) simp
  then show ?thesis using True emits_list [of 1 "[ucast v]"] by (simp add: pb_encode_varint_def)
next
  case False
  then have "v \<noteq> 0" by auto
  then have b: "(varint_groups v)[length (varint_groups v) - 1 :=
      (varint_groups v ! (length (varint_groups v) - 1)) AND 0x7F] = varint_bytes (unat v)"
    by (rule varint_groups_bytes)
  then have "length (varint_groups v) = length (varint_bytes (unat v))" by (metis length_list_update)
  then show ?thesis using False b emits_list [of "length (varint_groups v)" "varint_bytes (unat v)"]
    by (simp add: pb_encode_varint_def Let_def)
qed

lemma emits_svarint: "emits ostrm room (pb_encode_svarint v) (varint_bytes (unat (zigzag v)))"
  using emits_varint [of "zigzag v"] by (simp add: pb_encode_svarint_def zigzag_def)

lemma emits_string:
  "length bs < 2 ^ 64 \<Longrightarrow> emits ostrm room (pb_encode_string bs (length bs)) (varint_bytes (length bs) @ bs)"
  using emits_then [OF emits_varint emits_list, of "length bs" bs "of_nat (length bs)"]
  by (simp add: pb_encode_string_def unat_of_nat)

lemma emits_tag:
  assumes "n < 2 ^ 29" and "wt < 8"
  shows "emits ostrm room (pb_encode_tag (of_nat wt) (of_nat n)) (tag_bytes n wt)"
proof -
  have "unat (push_bit 3 (ucast (of_nat n :: u32)) OR ucast (of_nat wt :: u32) :: u64) = 8 * n + wt"
    using assms by (subst word_shift_or) (simp_all add: unsigned_ucast_eq take_bit_nat_eq_self unat_of_nat)
  then show ?thesis unfolding pb_encode_tag_def tag_bytes_def by (metis emits_varint)
qed

end


text \<open>
  A buffer stream that has written \<open>ys\<close> over the bytes \<open>old\<close>, all it may use, with other memory
  before and behind them; the last component is the error.
\<close>

type_synonym buffer_context = "byte list \<times> byte list \<times> byte list \<times> string option"

definition buffer_sink :: "buffer_context \<Rightarrow> byte list \<Rightarrow> 's pb_ostream" where
  "buffer_sink c ys = (case c of (front, old, behind, e) \<Rightarrow>
     \<lparr>out_callback = Buf_write, out_state = Out_buffer (front @ ys @ drop (length ys) old @ behind) (length front + length ys),
      max_size = length old, bytes_written = length ys, out_errmsg = e\<rparr>)"

definition buffer_room :: "buffer_context \<Rightarrow> nat" where
  "buffer_room c = (case c of (front, old, behind, e) \<Rightarrow> length old)"

text \<open>A sizing stream that has counted \<open>ys\<close>, and a callback of the application that collects what it is given.\<close>

definition sizing_sink :: "unit \<Rightarrow> byte list \<Rightarrow> 's pb_ostream" where
  "sizing_sink c ys = PB_OSTREAM_SIZING\<lparr>bytes_written := length ys\<rparr>"

definition append_list :: "byte list \<Rightarrow> byte list \<Rightarrow> bool \<times> byte list" where
  "append_list u xs = (True, u @ xs)"

definition list_sink :: "byte list \<times> nat \<times> string option \<Rightarrow> byte list \<Rightarrow> byte list pb_ostream" where
  "list_sink c ys = (case c of (front, cap, e) \<Rightarrow>
     \<lparr>out_callback = User_write append_list, out_state = Out_state (front @ ys), max_size = cap,
      bytes_written = length ys, out_errmsg = e\<rparr>)"

lemma pb_write_full:
  assumes "\<not> counting s" and "n > 0" and "bytes_written s + n < 2 ^ 64" and "max_size s < bytes_written s + n"
  shows "pb_write xs n s = OUT_RETURN_ERROR ''stream full'' s"
  using assms by (simp add: pb_write_def)

lemma buffer_write:
  assumes "length ys + length xs < 2 ^ 64" and "length ys + length xs \<le> length old"
  shows "pb_write xs (length xs) (buffer_sink (front, old, behind, e) ys) =
    Some (True, buffer_sink (front, old, behind, e) (ys @ xs))"
proof -
  have d: "drop (length ys) old = take (length xs) (drop (length ys) old) @ drop (length ys + length xs) old"
    by (simp add: add.commute flip: drop_drop)
  have w: "overwrite (front @ ys @ drop (length ys) old @ behind) (length front + length ys) xs =
      front @ ys @ xs @ drop (length ys + length xs) old @ behind"
    using assms(2) by (subst d) (simp add: overwrite_def)
  show ?thesis using assms w
    by (simp add: pb_write_def counting_def buffer_sink_def out_call_def buf_write_def)
qed

lemma buffer_write_full:
  assumes "length ys \<le> length old" and "length ys + length xs < 2 ^ 64" and "length old < length ys + length xs"
  shows "pb_write xs (length xs) (buffer_sink (front, old, behind, e) ys) =
    Some (False, buffer_sink (front, old, behind, case e of None \<Rightarrow> Some ''stream full'' | Some m \<Rightarrow> Some m) ys)"
  using assms by (subst pb_write_full) (auto simp: OUT_RETURN_ERROR_def OUT_SET_ERROR_def buffer_sink_def counting_def)

interpretation sizing: wire_sink sizing_sink "\<lambda>_. 2 ^ 64"
  by unfold_locales (auto simp: emits_def sizing_sink_def PB_OSTREAM_SIZING_def pb_write_def counting_def)

interpretation to_buffer: wire_sink buffer_sink buffer_room
proof
  fix xs
  show "emits buffer_sink buffer_room (pb_write xs (length xs)) xs"
    unfolding emits_def
  proof (intro allI impI)
    fix c :: buffer_context and ys :: "byte list"
    assume r: "length ys \<le> buffer_room c" and l: "length ys + length xs < 2 ^ 64"
    obtain front old behind e where c: "c = (front, old, behind, e)" by (cases c)
    have room: "buffer_room (front, old, behind, e') = length old" for e' by (simp add: buffer_room_def)
    show "if length ys + length xs \<le> buffer_room c
      then pb_write xs (length xs) (buffer_sink c ys) = Some (True, buffer_sink c (ys @ xs))
      else \<exists>c' zs. pb_write xs (length xs) (buffer_sink c ys) = Some (False, buffer_sink c' zs) \<and>
        buffer_room c' = buffer_room c"
    proof (cases "length ys + length xs \<le> length old")
      case True
      then show ?thesis using l unfolding c room by (simp add: buffer_write)
    next
      case False
      then show ?thesis using r l unfolding c room if_not_P [OF False]
        by (simp only: not_le buffer_write_full prod.inject option.inject simp_thms)
          (rule exI [of _ "(front, old, behind, case e of None \<Rightarrow> Some ''stream full'' | Some m \<Rightarrow> Some m)"],
           rule exI [of _ ys], simp add: room)
    qed
  qed
qed

interpretation to_list: wire_sink list_sink "\<lambda>(front, cap, e). cap"
proof
  fix xs
  show "emits list_sink (\<lambda>(front, cap, e). cap) (pb_write xs (length xs)) xs"
    by (auto simp: emits_def list_sink_def pb_write_def counting_def out_call_def append_list_def
        OUT_RETURN_ERROR_def OUT_SET_ERROR_def split: if_splits)
qed

lemma ostream_from_buffer:
  "pb_ostream_from_buffer (old @ behind) (length old) = buffer_sink ([], old, behind, None) []"
  by (simp add: pb_ostream_from_buffer_def buffer_sink_def)

end
