(* ===== verification/PbRound.thy ===== *)
theory PbRound
  imports PbWrite
begin

text \<open>
  Sequences of values written with the encoding functions of nanopb and read back with the
  decoding functions, and the exact behaviour of the varint readers on a buffer.
\<close>

section \<open>Sequences of values\<close>

datatype wire_op =
    Put_varint u64 | Put_svarint u64 | Put_fixed32 u32 | Put_fixed64 u64 | Put_tag nat nat | Put_string "byte list"

fun wire_op_ok :: "wire_op \<Rightarrow> bool" where
  "wire_op_ok (Put_tag wt n) \<longleftrightarrow> wt < 8 \<and> 0 < n \<and> n < 2 ^ 29"
| "wire_op_ok (Put_string bs) \<longleftrightarrow> length bs < 2 ^ 32"
| "wire_op_ok _ \<longleftrightarrow> True"

fun put_op :: "wire_op \<Rightarrow> 's pb_writer" where
  "put_op (Put_varint v) = pb_encode_varint v"
| "put_op (Put_svarint v) = pb_encode_svarint v"
| "put_op (Put_fixed32 v) = pb_encode_fixed32 v"
| "put_op (Put_fixed64 v) = pb_encode_fixed64 v"
| "put_op (Put_tag wt n) = pb_encode_tag (of_nat wt) (of_nat n)"
| "put_op (Put_string bs) = pb_encode_string bs (length bs)"

fun put_ops :: "wire_op list \<Rightarrow> 's pb_writer" where
  "put_ops [] s = Some (True, s)"
| "put_ops (x # xs) s = out_then (put_op x) (put_ops xs) s"

text \<open>Reading a value of the same kind; a tag is read with \<open>pb_decode_tag\<close>, a string as a substream.\<close>

fun get_op :: "wire_op \<Rightarrow> (wire_op, 's) pb_reader" where
  "get_op (Put_varint _) = pb_then pb_decode_varint (\<lambda>v. pb_return (Put_varint v))"
| "get_op (Put_svarint _) = pb_then pb_decode_svarint (\<lambda>v. pb_return (Put_svarint v))"
| "get_op (Put_fixed32 _) = pb_then pb_decode_fixed32 (\<lambda>v. pb_return (Put_fixed32 v))"
| "get_op (Put_fixed64 _) = pb_then pb_decode_fixed64 (\<lambda>v. pb_return (Put_fixed64 v))"
| "get_op (Put_tag _ _) = (\<lambda>s. map_option
     (\<lambda>(r, _, s). (map_option (\<lambda>(wt, n). Put_tag (unat wt) (unat n)) r, s)) (pb_decode_tag s))"
| "get_op (Put_string _) = pb_then pb_make_string_substream (\<lambda>sub s.
     case pb_read False (bytes_left sub) sub of
       None \<Rightarrow> None
     | Some (None, _) \<Rightarrow> Some (None, s)
     | Some (Some bs, sub) \<Rightarrow> map_option
         (\<lambda>(ok, s, _). (if ok then Some (Put_string bs) else None, s)) (pb_close_string_substream s sub))"

fun get_ops :: "wire_op list \<Rightarrow> (wire_op list, 's) pb_reader" where
  "get_ops [] s = Some (Some [], s)"
| "get_ops (x # xs) s = pb_then (get_op x) (\<lambda>y. pb_then (get_ops xs) (\<lambda>ys. pb_return (y # ys))) s"

fun op_bytes :: "wire_op \<Rightarrow> byte list" where
  "op_bytes (Put_varint v) = varint_bytes (unat v)"
| "op_bytes (Put_svarint v) = varint_bytes (unat (zigzag v))"
| "op_bytes (Put_fixed32 v) = [ucast (v AND 0xFF), ucast (drop_bit 8 v AND 0xFF),
     ucast (drop_bit 16 v AND 0xFF), ucast (drop_bit 24 v AND 0xFF)]"
| "op_bytes (Put_fixed64 v) = [ucast (v AND 0xFF), ucast (drop_bit 8 v AND 0xFF),
     ucast (drop_bit 16 v AND 0xFF), ucast (drop_bit 24 v AND 0xFF), ucast (drop_bit 32 v AND 0xFF),
     ucast (drop_bit 40 v AND 0xFF), ucast (drop_bit 48 v AND 0xFF), ucast (drop_bit 56 v AND 0xFF)]"
| "op_bytes (Put_tag wt n) = tag_bytes n wt"
| "op_bytes (Put_string bs) = varint_bytes (length bs) @ bs"

context wire_sink
begin

lemma emits_op: "wire_op_ok x \<Longrightarrow> emits ostrm room (put_op x) (op_bytes x)"
  using emits_list [of 4] emits_list [of 8]
  by (cases x) (simp_all add: emits_varint emits_svarint emits_tag emits_string pb_encode_fixed32_def
      pb_encode_fixed64_def)

lemma emits_Nil: "emits ostrm room (put_ops []) []"
  by (simp add: emits_def)

lemma emits_ops: "list_all wire_op_ok xs \<Longrightarrow> emits ostrm room (put_ops xs) (concat (map op_bytes xs))"
proof (induction xs)
  case (Cons x xs)
  have "put_ops (x # xs) = out_then (put_op x) (put_ops xs :: 's pb_writer)" by (rule ext) simp
  then show ?case using Cons emits_then [OF emits_op, of x "put_ops xs"] by simp
qed (simp add: emits_Nil)

end

context wire_source
begin

lemma get_op_strm: "wire_op_ok x \<Longrightarrow> get_op x (strm c e (op_bytes x @ r)) = Some (Some x, strm c e r)"
proof (cases x)
  case (Put_string bs)
  assume ok: "wire_op_ok x"
  obtain sub where "pb_close_string_substream ((strm c e (bs @ r))\<lparr>bytes_left := length r\<rparr>) (strm (push r c) e []) =
      Some (True, strm c e r, sub)"
    using close_substream_strm [where ys = "[]"] by blast
  then show ?thesis using ok make_substream_strm [of bs c e r] Put_string by (simp add: pb_then_def)
qed (simp_all add: pb_then_def pb_return_def varint_bytes_strm svarint_strm zigzag_decode tag_strm unat_of_nat
    fixed32_strm [where bs = "[_, _, _, _]", simplified] fixed64_strm [where bs = "[_, _, _, _, _, _, _, _]", simplified]
    le_word32_bytes le_word64_bytes)

lemma get_ops_strm:
  "list_all wire_op_ok xs \<Longrightarrow> get_ops xs (strm c e (concat (map op_bytes xs) @ r)) = Some (Some xs, strm c e r)"
  by (induction xs) (simp_all add: pb_then_def pb_return_def get_op_strm)

end

end
