(* ===== verification/PbThms.thy ===== *)
theory PbThms
  imports PbRound
begin

text \<open>Properties of the wire layer of nanopb, stated on the streams the library's users create.\<close>

lemma istream_from_buffer_all: "pb_istream_from_buffer xs (length xs) = buffer_stream [] None xs"
  using istream_from_buffer [of xs "[]"] by simp

text \<open>
  C31: Values written with the encoding functions are read back. A sizing stream counts \<open>n\<close> bytes;
  a buffer takes the same values exactly when it has \<open>n\<close> bytes, leaves everything behind them
  untouched, and the decoding functions read the values from it and consume it completely.
\<close>

theorem pb_wire_roundtrip:
  assumes "list_all wire_op_ok xs" and "length (concat (map op_bytes xs)) < 2 ^ 64"
  shows "\<exists>n. put_ops xs (PB_OSTREAM_SIZING :: unit pb_ostream) = Some (True, PB_OSTREAM_SIZING\<lparr>bytes_written := n\<rparr>) \<and>
    (if n \<le> length old then
       \<exists>s b s'. put_ops xs (pb_ostream_from_buffer (old @ behind) (length old) :: unit pb_ostream) = Some (True, s) \<and>
         bytes_written s = n \<and> length b = n \<and> out_state s = Out_buffer (b @ drop n old @ behind) n \<and>
         get_ops xs (pb_istream_from_buffer (b @ drop n old @ behind) n :: unit pb_istream) = Some (Some xs, s') \<and>
         bytes_left s' = 0
     else \<exists>s. put_ops xs (pb_ostream_from_buffer (old @ behind) (length old) :: unit pb_ostream) = Some (False, s))"
proof -
  define b where "b = concat (map op_bytes xs)"
  have n: "length b < 2 ^ 64" using assms(2) by (simp add: b_def)
  have "put_ops xs (PB_OSTREAM_SIZING :: unit pb_ostream) = Some (True, PB_OSTREAM_SIZING\<lparr>bytes_written := length b\<rparr>)"
    using sizing.emits_ops [OF assms(1), folded b_def, unfolded emits_def, rule_format, of "[]"] n
    by (simp add: sizing_sink_def PB_OSTREAM_SIZING_def)
  moreover have "if length b \<le> length old
      then put_ops xs (pb_ostream_from_buffer (old @ behind) (length old) :: unit pb_ostream) =
        Some (True, buffer_sink ([], old, behind, None) b)
      else \<exists>s. put_ops xs (pb_ostream_from_buffer (old @ behind) (length old) :: unit pb_ostream) = Some (False, s)"
    using to_buffer.emits_ops [OF assms(1), folded b_def, unfolded emits_def, rule_format, of "[]" "([], old, behind, None)"] n
    by (auto simp: ostream_from_buffer buffer_room_def)
  moreover have "get_ops xs (pb_istream_from_buffer (b @ drop (length b) old @ behind) (length b) :: unit pb_istream) =
      Some (Some xs, buffer_stream (drop (length b) old @ behind) None [])"
    using buffer.get_ops_strm [OF assms(1), of "drop (length b) old @ behind" None "[]"]
    by (simp add: istream_from_buffer b_def)
  ultimately show ?thesis
    by (intro exI [of _ "length b"] conjI) (auto simp: buffer_sink_def split: if_splits)
qed

theorem pb_wire_roundtrip_witness:
  "\<exists>n s b s'. put_ops [Put_tag 2 1, Put_string [104, 105], Put_svarint (- 3)]
     (pb_ostream_from_buffer (replicate 8 0) 8 :: unit pb_ostream) = Some (True, s) \<and> bytes_written s = n \<and> length b = n \<and>
     get_ops [Put_tag 2 1, Put_string [104, 105], Put_svarint (- 3)]
       (pb_istream_from_buffer (b @ drop n (replicate 8 0)) n :: unit pb_istream) =
       Some (Some [Put_tag 2 1, Put_string [104, 105], Put_svarint (- 3)], s')"
proof -
  let ?xs = "[Put_tag 2 1, Put_string [104, 105], Put_svarint (- 3)]"
  have b: "concat (map op_bytes ?xs) = [10, 2, 104, 105, 5]"
    by (simp add: tag_bytes_def zigzag_def varint_bytes.simps)
  have ok: "list_all wire_op_ok ?xs" by simp
  have "put_ops ?xs (sizing_sink () [] :: unit pb_ostream) = Some (True, sizing_sink () [10, 2, 104, 105, 5])"
    using sizing.emits_ops [OF ok, unfolded b emits_def, rule_format, of "[]"] by simp
  then have s: "put_ops ?xs (PB_OSTREAM_SIZING :: unit pb_ostream) =
      Some (True, PB_OSTREAM_SIZING\<lparr>bytes_written := Suc (Suc (Suc (Suc (Suc 0))))\<rparr>)"
    by (simp add: sizing_sink_def PB_OSTREAM_SIZING_def)
  obtain n where n: "put_ops ?xs (PB_OSTREAM_SIZING :: unit pb_ostream) = Some (True, PB_OSTREAM_SIZING\<lparr>bytes_written := n\<rparr>)"
    and w: "if n \<le> 8 then
       \<exists>s b s'. put_ops ?xs (pb_ostream_from_buffer (replicate 8 0) 8 :: unit pb_ostream) = Some (True, s) \<and>
         bytes_written s = n \<and> length b = n \<and> out_state s = Out_buffer (b @ drop n (replicate 8 0)) n \<and>
         get_ops ?xs (pb_istream_from_buffer (b @ drop n (replicate 8 0)) n :: unit pb_istream) = Some (Some ?xs, s') \<and>
         bytes_left s' = 0
     else \<exists>s. put_ops ?xs (pb_ostream_from_buffer (replicate 8 0) 8 :: unit pb_ostream) = Some (False, s)"
    using pb_wire_roundtrip [OF ok, of "replicate 8 0" "[]"] unfolding b length_replicate append_Nil2 by auto
  have "n = 5" using s n by (simp add: PB_OSTREAM_SIZING_def)
  then have "n \<le> 8" by simp
  then show ?thesis using w unfolding if_P [OF \<open>n \<le> 8\<close>] by blast
qed

text \<open>
  C34: The 64-bit reader succeeds on a buffer exactly when it starts with a varint of at most ten
  bytes, consumes just these bytes and returns their value modulo \<open>2 ^ 64\<close>.
\<close>

theorem pb_decode_varint_exact:
  "pb_decode_varint (pb_istream_from_buffer xs (length xs) :: unit pb_istream) = Some (Some v, s) \<longleftrightarrow>
   (\<exists>bs r. xs = bs @ r \<and> is_varint bs \<and> length bs \<le> 10 \<and> v = of_nat (varint_val bs) \<and>
      s = buffer_stream [] None r)"
  unfolding istream_from_buffer_all by (rule buffer.varint_iff)

lemma varint32_ok_value:
  assumes "is_varint bs" and "length bs \<le> 5 \<and> varint32_ok bs"
  shows "varint_val bs < 2 ^ 32"
proof (cases "length bs = 5")
  case True
  then have bs: "bs = butlast bs @ [last bs]" "length (butlast bs) = 4" using is_varint.simps(1) assms(1)
    by (metis append_butlast_last_id, simp)
  have "varint_val bs = varint_val (butlast bs) + 128 ^ 4 * (unat (last bs) mod 128)"
    by (subst bs(1)) (simp add: varint_val_append bs(2) True)
  moreover have "varint_val (butlast bs) < 128 ^ 4" using varint_val_less [of "butlast bs"] bs(2) by simp
  moreover have "unat (last bs) < 16" using assms(2) True by (simp add: varint32_ok_def)
  ultimately show ?thesis by simp
next
  case False
  then have "(128 :: nat) ^ length bs \<le> 128 ^ 4" using assms(2) by (intro power_increasing) simp_all
  then show ?thesis using varint_val_less [of bs] by simp
qed

text \<open>
  The 32-bit reader on a varint of at most 36 bytes: it returns the low 32 bits of the value and
  consumes the varint if the bytes are tolerated, and fails otherwise. Unsigned 32-bit values
  and sign-extended negative ones in their shortest form are always read; five bytes are
  accepted only if nothing is lost.
\<close>

theorem pb_decode_varint32_exact:
  assumes "is_varint bs" and "length bs \<le> 36"
  shows "(varint32_ok bs \<longrightarrow>
      pb_decode_varint32 (pb_istream_from_buffer (bs @ r) (length (bs @ r)) :: unit pb_istream) =
        Some (Some (of_nat (varint_val bs)), buffer_stream [] None r)) \<and>
    (\<not> varint32_ok bs \<longrightarrow>
      (\<exists>s. pb_decode_varint32 (pb_istream_from_buffer (bs @ r) (length (bs @ r)) :: unit pb_istream) = Some (None, s))) \<and>
    (bs = varint_bytes v \<and> (v < 2 ^ 32 \<or> 2 ^ 64 - 2 ^ 31 \<le> v \<and> v < 2 ^ 64) \<longrightarrow> varint32_ok bs) \<and>
    (length bs \<le> 5 \<and> varint32_ok bs \<longrightarrow> varint_val bs < 2 ^ 32)"
  unfolding istream_from_buffer_all
proof (intro conjI impI)
  assume "varint32_ok bs"
  then show "pb_decode_varint32 (buffer_stream [] None (bs @ r) :: unit pb_istream) =
      Some (Some (of_nat (varint_val bs)), buffer_stream [] None r)"
    by (rule buffer.varint32_strm [OF assms])
next
  assume "\<not> varint32_ok bs"
  then have "failed buffer_stream [] (pb_decode_varint32 (buffer_stream [] None (bs @ r) :: unit pb_istream))"
    by (rule buffer.varint32_bad [OF assms])
  then show "\<exists>s. pb_decode_varint32 (buffer_stream [] None (bs @ r) :: unit pb_istream) = Some (None, s)"
    by (auto simp: failed_def)
next
  assume "bs = varint_bytes v \<and> (v < 2 ^ 32 \<or> 2 ^ 64 - 2 ^ 31 \<le> v \<and> v < 2 ^ 64)"
  then show "varint32_ok bs" using varint32_ok_u32 varint32_ok_negative by blast
next
  assume "length bs \<le> 5 \<and> varint32_ok bs"
  then show "varint_val bs < 2 ^ 32" using varint32_ok_value [OF assms(1)] by blast
qed

theorem pb_decode_varint32_exact_witness:
  "pb_decode_varint32 (pb_istream_from_buffer [0xAC, 0x02, 7] 3 :: unit pb_istream) =
     Some (Some 300, buffer_stream [] None [7])"
  using pb_decode_varint32_exact [of "[0xAC, 0x02]" "[7]"] by (simp add: varint32_ok_def numeral_3_eq_3)

section \<open>Findings\<close>

text \<open>
  The bit position of the 32-bit reader is eight bits wide and wraps after 36 bytes: the encoding of
  \<open>2 ^ 259\<close> reads as 8.
\<close>

lemma pb_decode_varint32_wraps:
  "\<exists>s. pb_decode_varint32 (pb_istream_from_buffer (replicate 37 0x80 @ [0x01]) 38 :: unit pb_istream) = Some (Some 8, s)"
proof -
  have "map_option fst (pb_decode_varint32 (pb_istream_from_buffer (replicate 37 0x80 @ [0x01]) 38 :: unit pb_istream)) =
      Some (Some 8)"
    by code_simp
  then show ?thesis by auto
qed

text \<open>A 64-bit value that is not a sign-extended 32-bit value is accepted and truncated.\<close>

lemma pb_decode_varint32_truncates:
  "varint32_ok (varint_bytes (2 ^ 63 + 2 ^ 31))"
  "varint32_ok [0x80, 0x80, 0x80, 0x80, 0x90, 0x00]" "varint_val [0x80, 0x80, 0x80, 0x80, 0x90, 0x00] = 2 ^ 32"
proof -
  have v: "varint_bytes 9223372039002259456 = [0x80, 0x80, 0x80, 0x80, 0x88, 0x80, 0x80, 0x80, 0x80, 0x01]"
    by (simp add: varint_bytes.simps)
  have "varint32_ok [0x80, 0x80, 0x80, 0x80, 0x88, 0x80, 0x80, 0x80, 0x80, 0x01]"
    by (simp add: varint32_ok_def bit_iff_odd)
  then show "varint32_ok (varint_bytes (2 ^ 63 + 2 ^ 31))" using v by simp
qed (simp_all add: varint32_ok_def bit_iff_odd)

end
