(* ===== verification/PbField.thy ===== *)
theory PbField
  imports PbRound
begin

text \<open>
  Field descriptors of nanopb (\<open>pb.h\<close>), the iterator over the fields of a message
  (\<open>pb_common.c\<close>), and the memory messages live in. The build options are those of the app:
  32-bit \<open>pb_size_t\<close>, unpacked structures, allocation.
\<close>

section \<open>Field descriptors\<close>

text \<open>
  \<open>ptr\<close> points to the descriptors of a submessage, static arrays that are named by numbers
  because message types may be recursive, or to a default value. An array of descriptors is
  the list of its entries before the terminator \<open>PB_LAST_FIELD\<close>.
\<close>

datatype pb_ptr = Null_ptr | Submsg_ptr nat | Default_ptr "byte list"

record pb_field =
  tag :: u32
  type :: byte
  data_offset :: u32
  size_offset :: int
  data_size :: u32
  array_size :: u32
  ptr :: pb_ptr

type_synonym pb_fields = "pb_field list"

definition PB_LAST_FIELD :: pb_field where
  "PB_LAST_FIELD = \<lparr>tag = 0, type = 0, data_offset = 0, size_offset = 0, data_size = 0, array_size = 0,
     ptr = Null_ptr\<rparr>"

definition PB_LTYPE_BOOL :: byte where "PB_LTYPE_BOOL = 0x00"
definition PB_LTYPE_VARINT :: byte where "PB_LTYPE_VARINT = 0x01"
definition PB_LTYPE_UVARINT :: byte where "PB_LTYPE_UVARINT = 0x02"
definition PB_LTYPE_SVARINT :: byte where "PB_LTYPE_SVARINT = 0x03"
definition PB_LTYPE_FIXED32 :: byte where "PB_LTYPE_FIXED32 = 0x04"
definition PB_LTYPE_FIXED64 :: byte where "PB_LTYPE_FIXED64 = 0x05"
definition PB_LTYPE_LAST_PACKABLE :: byte where "PB_LTYPE_LAST_PACKABLE = 0x05"
definition PB_LTYPE_BYTES :: byte where "PB_LTYPE_BYTES = 0x06"
definition PB_LTYPE_STRING :: byte where "PB_LTYPE_STRING = 0x07"
definition PB_LTYPE_SUBMESSAGE :: byte where "PB_LTYPE_SUBMESSAGE = 0x08"
definition PB_LTYPE_EXTENSION :: byte where "PB_LTYPE_EXTENSION = 0x09"
definition PB_LTYPE_FIXED_LENGTH_BYTES :: byte where "PB_LTYPE_FIXED_LENGTH_BYTES = 0x0A"
definition PB_LTYPE_MASK :: byte where "PB_LTYPE_MASK = 0x0F"
definition PB_HTYPE_REQUIRED :: byte where "PB_HTYPE_REQUIRED = 0x00"
definition PB_HTYPE_OPTIONAL :: byte where "PB_HTYPE_OPTIONAL = 0x10"
definition PB_HTYPE_REPEATED :: byte where "PB_HTYPE_REPEATED = 0x20"
definition PB_HTYPE_ONEOF :: byte where "PB_HTYPE_ONEOF = 0x30"
definition PB_HTYPE_MASK :: byte where "PB_HTYPE_MASK = 0x30"
definition PB_ATYPE_STATIC :: byte where "PB_ATYPE_STATIC = 0x00"
definition PB_ATYPE_POINTER :: byte where "PB_ATYPE_POINTER = 0x80"
definition PB_ATYPE_CALLBACK :: byte where "PB_ATYPE_CALLBACK = 0x40"
definition PB_ATYPE_MASK :: byte where "PB_ATYPE_MASK = 0xC0"
definition PB_SIZE_MAX :: u32 where "PB_SIZE_MAX = - 1"

definition PB_LTYPE :: "pb_field \<Rightarrow> byte" where "PB_LTYPE f = type f AND PB_LTYPE_MASK"
definition PB_HTYPE :: "pb_field \<Rightarrow> byte" where "PB_HTYPE f = type f AND PB_HTYPE_MASK"
definition PB_ATYPE :: "pb_field \<Rightarrow> byte" where "PB_ATYPE f = type f AND PB_ATYPE_MASK"

definition sizeof_pointer :: nat where "sizeof_pointer = 8"

section \<open>The iterator\<close>

text \<open>
  \<open>it_pos\<close> is an index into the array \<open>it_start\<close>. Addresses are numbers.
\<close>

record pb_field_iter =
  it_start :: pb_fields
  it_pos :: nat
  required_field_index :: nat
  dest_struct :: int
  pData :: int
  pSize :: int

definition field_at :: "pb_fields \<Rightarrow> nat \<Rightarrow> pb_field" where
  "field_at fs i = (if i < length fs then fs ! i else PB_LAST_FIELD)"

text \<open>The descriptor the iterator is at.\<close>

definition cur :: "pb_field_iter \<Rightarrow> pb_field" where
  "cur it = field_at (it_start it) (it_pos it)"

definition pb_field_iter_begin :: "pb_fields \<Rightarrow> int \<Rightarrow> bool \<times> pb_field_iter" where
  "pb_field_iter_begin fs dest = (
     let f = field_at fs 0; d = dest + uint (data_offset f) in
     (tag f \<noteq> 0,
      \<lparr>it_start = fs, it_pos = 0, required_field_index = 0, dest_struct = dest,
        pData = d, pSize = d + size_offset f\<rparr>))"

definition pb_field_iter_next :: "pb_field_iter \<Rightarrow> bool \<times> pb_field_iter" where
  "pb_field_iter_next it = (
     let prev_field = cur it in
     if tag prev_field = 0 then (False, it)
     else
       let it = it\<lparr>it_pos := it_pos it + 1\<rparr>; f = cur it in
       if tag f = 0 then (False, snd (pb_field_iter_begin (it_start it) (dest_struct it)))
       else if PB_HTYPE prev_field = PB_HTYPE_ONEOF \<and> PB_HTYPE f = PB_HTYPE_ONEOF \<and>
               data_offset f = PB_SIZE_MAX
       then (True, it)
       else
         let prev_size = unat (data_size prev_field);
             prev_size = (if PB_ATYPE prev_field = PB_ATYPE_STATIC \<and> PB_HTYPE prev_field = PB_HTYPE_REPEATED
                          then prev_size * unat (array_size prev_field)
                          else if PB_ATYPE prev_field = PB_ATYPE_POINTER then sizeof_pointer
                          else prev_size);
             it = (if PB_HTYPE prev_field = PB_HTYPE_REQUIRED
                   then it\<lparr>required_field_index := required_field_index it + 1\<rparr> else it);
             d = pData it + int prev_size + uint (data_offset f) in
         (True, it\<lparr>pData := d, pSize := d + size_offset f\<rparr>))"

text \<open>
  A search steps from the current position until a field matches or it is back at \<open>start\<close>,
  the position where it began.
\<close>

partial_function (option) iter_search :: "(pb_field \<Rightarrow> bool) \<Rightarrow> nat \<Rightarrow> pb_field_iter \<Rightarrow> (bool \<times> pb_field_iter) option" where
  "iter_search matches start it = (
     if matches (cur it) then Some (True, it)
     else
       let it = snd (pb_field_iter_next it) in
       if it_pos it \<noteq> start then iter_search matches start it else Some (False, it))"

declare iter_search.simps [code]

definition pb_field_iter_find :: "pb_field_iter \<Rightarrow> u32 \<Rightarrow> (bool \<times> pb_field_iter) option" where
  "pb_field_iter_find it t =
     iter_search (\<lambda>f. tag f = t \<and> PB_LTYPE f \<noteq> PB_LTYPE_EXTENSION) (it_pos it) it"

section \<open>Memory\<close>

text \<open>
  Memory is a set of cells with a byte each; \<open>blocks\<close> are the allocated blocks with their sizes,
  and \<open>reallocs\<close> counts the calls to the allocator. An access to a cell that does not exist is
  \<open>None\<close>. Integers are little-endian.
\<close>

record pb_mem =
  cells :: "int \<Rightarrow> byte option"
  blocks :: "int \<Rightarrow> nat option"
  reallocs :: nat

definition le_val :: "byte list \<Rightarrow> nat" where
  "le_val bs = be_val (rev bs)"

definition le_bytes :: "nat \<Rightarrow> nat \<Rightarrow> byte list" where
  "le_bytes n v = rev (be_bytes n v)"

definition load :: "int \<Rightarrow> nat \<Rightarrow> pb_mem \<Rightarrow> byte list option" where
  "load a n M = (if \<forall>i\<in>set [0..<n]. cells M (a + int i) \<noteq> None
     then Some (map (\<lambda>i. the (cells M (a + int i))) [0..<n]) else None)"

fun set_cells :: "int \<Rightarrow> byte list \<Rightarrow> (int \<Rightarrow> byte option) \<Rightarrow> int \<Rightarrow> byte option" where
  "set_cells a [] c = c"
| "set_cells a (b # bs) c = set_cells (a + 1) bs (c(a \<mapsto> b))"

definition store :: "int \<Rightarrow> byte list \<Rightarrow> pb_mem \<Rightarrow> pb_mem option" where
  "store a bs M = (if \<forall>i\<in>set [0..<length bs]. cells M (a + int i) \<noteq> None
     then Some (M\<lparr>cells := set_cells a bs (cells M)\<rparr>) else None)"

text \<open>\<open>pb_size_t\<close>, pointers and \<open>bool\<close> in memory. A \<open>bool\<close> is read as its byte.\<close>

definition load_size :: "int \<Rightarrow> pb_mem \<Rightarrow> u32 option" where
  "load_size a M = map_option le_word32 (load a 4 M)"

definition store_size :: "int \<Rightarrow> u32 \<Rightarrow> pb_mem \<Rightarrow> pb_mem option" where
  "store_size a v = store a (le_bytes 4 (unat v))"

definition load_ptr :: "int \<Rightarrow> pb_mem \<Rightarrow> int option" where
  "load_ptr a M = map_option (\<lambda>bs. int (le_val bs)) (load a sizeof_pointer M)"

definition store_ptr :: "int \<Rightarrow> int \<Rightarrow> pb_mem \<Rightarrow> pb_mem option" where
  "store_ptr a p = store a (le_bytes sizeof_pointer (nat p))"

definition store_bool :: "int \<Rightarrow> bool \<Rightarrow> pb_mem \<Rightarrow> pb_mem option" where
  "store_bool a b = store a [if b then 1 else 0]"

text \<open>
  The C library's \<open>realloc\<close> and \<open>free\<close>. What a call grants is a parameter: the address of the
  block and the bytes found in it. The old block must be null or the start of a block.
\<close>

type_synonym pb_alloc = "nat \<Rightarrow> nat \<Rightarrow> pb_mem \<Rightarrow> (int \<times> byte list) option"

definition free_cells :: "int \<Rightarrow> nat \<Rightarrow> (int \<Rightarrow> byte option) \<Rightarrow> int \<Rightarrow> byte option" where
  "free_cells a n c = (\<lambda>x. if a \<le> x \<and> x < a + int n then None else c x)"

definition pb_free :: "int \<Rightarrow> pb_mem \<Rightarrow> pb_mem option" where
  "pb_free p M = (
     if p = 0 then Some M
     else case blocks M p of
       None \<Rightarrow> None
     | Some n \<Rightarrow> Some (M\<lparr>cells := free_cells p n (cells M), blocks := (blocks M)(p := None)\<rparr>))"

text \<open>The new address, or null, and the memory.\<close>

definition pb_realloc :: "pb_alloc \<Rightarrow> int \<Rightarrow> nat \<Rightarrow> pb_mem \<Rightarrow> (int \<times> pb_mem) option" where
  "pb_realloc al p n M = (
     case (if p = 0 then Some [] else case blocks M p of None \<Rightarrow> None | Some k \<Rightarrow> load p k M) of
       None \<Rightarrow> None
     | Some old \<Rightarrow>
         let M1 = M\<lparr>reallocs := reallocs M + 1\<rparr> in
         (case al (reallocs M) n M of
            None \<Rightarrow> Some (0, M1)
          | Some (a, junk) \<Rightarrow>
              (case pb_free p M1 of
                 None \<Rightarrow> None
               | Some M2 \<Rightarrow> Some (a, M2\<lparr>cells := set_cells a (take n (old @ drop (length old) junk)) (cells M2),
                    blocks := (blocks M2)(a \<mapsto> n)\<rparr>))))"

end
