(* ===== verification/PbDec.thy ===== *)
theory PbDec
  imports PbField "HOL-Library.Monad_Syntax"
begin

text \<open>
  Decoding of messages in nanopb (\<open>pb_decode.c\<close>): the decoders of single values, static,
  pointer and callback fields, default values, release of allocated fields, and the loop over
  the fields of a message. \<open>None\<close> is an access outside memory, a call through a null entry of
  the decoder table, or a loop that does not end; extension fields, which need objects of the
  application, are outside the model and give \<open>None\<close> too.
\<close>

section \<open>Decoders\<close>

type_synonym 's pb_do = "'s pb_istream \<Rightarrow> pb_mem \<Rightarrow> (bool \<times> 's pb_istream \<times> pb_mem) option"

definition pb_ok :: "'s pb_do" where "pb_ok s M = Some (True, s, M)"

definition pb_fail :: "string \<Rightarrow> 's pb_do" where "pb_fail msg s M = Some (False, PB_SET_ERROR msg s, M)"

definition reading :: "('a, 's) pb_reader \<Rightarrow> ('a \<Rightarrow> 's pb_do) \<Rightarrow> 's pb_do" where
  "reading m f s M = (case m s of
     None \<Rightarrow> None | Some (None, s) \<Rightarrow> Some (False, s, M) | Some (Some x, s) \<Rightarrow> f x s M)"

definition loading :: "(pb_mem \<Rightarrow> 'a option) \<Rightarrow> ('a \<Rightarrow> 's pb_do) \<Rightarrow> 's pb_do" where
  "loading g f s M = (case g M of None \<Rightarrow> None | Some x \<Rightarrow> f x s M)"

definition storing :: "(pb_mem \<Rightarrow> pb_mem option) \<Rightarrow> 's pb_do \<Rightarrow> 's pb_do" where
  "storing g f s M = (case g M of None \<Rightarrow> None | Some M \<Rightarrow> f s M)"

definition doing :: "'s pb_do \<Rightarrow> 's pb_do \<Rightarrow> 's pb_do" where
  "doing m f s M = (case m s M of
     None \<Rightarrow> None | Some (False, s, M) \<Rightarrow> Some (False, s, M) | Some (True, s, M) \<Rightarrow> f s M)"

type_synonym 's pb_decoder = "pb_field \<Rightarrow> int \<Rightarrow> 's pb_do"

definition pb_dec_bool :: "'s pb_decoder" where
  "pb_dec_bool field dest = reading pb_decode_varint32 (\<lambda>v. storing (store_bool dest (v \<noteq> 0)) pb_ok)"

definition pb_dec_fixed32 :: "'s pb_decoder" where
  "pb_dec_fixed32 field dest = reading pb_decode_fixed32 (\<lambda>v. storing (store dest (le_bytes 4 (unat v))) pb_ok)"

definition pb_dec_fixed64 :: "'s pb_decoder" where
  "pb_dec_fixed64 field dest = reading pb_decode_fixed64 (\<lambda>v. storing (store dest (le_bytes 8 (unat v))) pb_ok)"

text \<open>
  The casts to the size of the field. The value is stored before the comparison that detects an
  overflow. For signed values of at most 32 bits there is a cast to \<open>int32_t\<close> first.
\<close>

definition clamp_signed :: "nat \<Rightarrow> u64 \<Rightarrow> u64" where
  "clamp_signed n v =
     (if n = 8 then v
      else if n = 4 then scast (ucast v :: u32)
      else if n = 2 then scast (ucast v :: u16)
      else scast (ucast v :: byte))"

definition clamp_unsigned :: "nat \<Rightarrow> u64 \<Rightarrow> u64" where
  "clamp_unsigned n v =
     (if n = 8 then v
      else if n = 4 then ucast (ucast v :: u32)
      else if n = 2 then ucast (ucast v :: u16)
      else ucast (ucast v :: byte))"

definition dec_integer :: "(u64, 's) pb_reader \<Rightarrow> (nat \<Rightarrow> u64 \<Rightarrow> u64) \<Rightarrow> (nat \<Rightarrow> u64 \<Rightarrow> u64) \<Rightarrow> 's pb_decoder" where
  "dec_integer m widen clamp field dest = reading m (\<lambda>v.
     let n = unat (data_size field); svalue = widen n v in
     if n = 8 \<or> n = 4 \<or> n = 2 \<or> n = 1 then
       storing (store dest (le_bytes n (unat svalue)))
         (if clamp n svalue \<noteq> svalue then pb_fail ''integer too large'' else pb_ok)
     else pb_fail ''invalid data_size'')"

definition pb_dec_varint :: "'s pb_decoder" where
  "pb_dec_varint = dec_integer pb_decode_varint (\<lambda>n v. if n = 8 then v else scast (ucast v :: u32)) clamp_signed"

definition pb_dec_uvarint :: "'s pb_decoder" where
  "pb_dec_uvarint = dec_integer pb_decode_varint (\<lambda>_ v. v) clamp_unsigned"

definition pb_dec_svarint :: "'s pb_decoder" where
  "pb_dec_svarint = dec_integer pb_decode_svarint (\<lambda>_ v. v) clamp_signed"

text \<open>\<open>pData\<close> is the address of the pointer to the storage.\<close>

definition allocate_field :: "pb_alloc \<Rightarrow> int \<Rightarrow> u64 \<Rightarrow> u64 \<Rightarrow> 's pb_do" where
  "allocate_field al pdata dsize asize = loading (load_ptr pdata) (\<lambda>p.
     let check_limit = push_bit 32 1; size_max = - 1 in
     if dsize = 0 \<or> asize = 0 then pb_fail ''invalid size''
     else if (dsize \<ge> check_limit \<or> asize \<ge> check_limit) \<and> size_max div asize < dsize
     then pb_fail ''size too large''
     else (\<lambda>s M. case pb_realloc al p (unat (asize * dsize)) M of
         None \<Rightarrow> None
       | Some (a, M) \<Rightarrow>
           if a = 0 then pb_fail ''realloc failed'' s M else storing (store_ptr pdata a) pb_ok s M))"

definition read_into :: "int \<Rightarrow> nat \<Rightarrow> 's pb_do" where
  "read_into a n = reading (pb_read False n) (\<lambda>bs. storing (store a bs) pb_ok)"

text \<open>\<open>pb_bytes_array_t\<close> is the size followed by the bytes.\<close>

definition pb_dec_bytes :: "pb_alloc \<Rightarrow> 's pb_decoder" where
  "pb_dec_bytes al field dest = reading pb_decode_varint32 (\<lambda>size.
     let alloc_size = ucast size + 4 :: u64;
         fill = (\<lambda>b. storing (store_size b size) (read_into (b + 4) (unat size))) in
     if size > PB_SIZE_MAX then pb_fail ''bytes overflow''
     else if ucast size > alloc_size then pb_fail ''size too large''
     else if PB_ATYPE field = PB_ATYPE_POINTER then
       doing (allocate_field al dest alloc_size 1) (loading (load_ptr dest) fill)
     else if alloc_size > ucast (data_size field) then pb_fail ''bytes overflow''
     else fill dest)"

text \<open>The sum \<open>size + 1\<close> is computed in 32 bits. The terminator is stored whether the read succeeds or not.\<close>

definition fill_string :: "nat \<Rightarrow> int \<Rightarrow> 's pb_do" where
  "fill_string n dest s M = (case pb_read False n s of
     None \<Rightarrow> None
   | Some (None, s) \<Rightarrow> map_option (\<lambda>M. (False, s, M)) (store (dest + int n) [0] M)
   | Some (Some bs, s) \<Rightarrow> storing (store dest bs) (storing (store (dest + int n) [0]) pb_ok) s M)"

definition pb_dec_string :: "pb_alloc \<Rightarrow> 's pb_decoder" where
  "pb_dec_string al field dest = reading pb_decode_varint32 (\<lambda>size.
     let alloc_size = ucast (size + 1) :: u64 in
     if alloc_size < ucast size then pb_fail ''size too large''
     else if PB_ATYPE field = PB_ATYPE_POINTER then
       doing (allocate_field al dest alloc_size 1) (loading (load_ptr dest) (fill_string (unat size)))
     else if alloc_size > ucast (data_size field) then pb_fail ''string overflow''
     else fill_string (unat size) dest)"

definition pb_dec_fixed_length_bytes :: "'s pb_decoder" where
  "pb_dec_fixed_length_bytes field dest = reading pb_decode_varint32 (\<lambda>size.
     if size > PB_SIZE_MAX then pb_fail ''bytes overflow''
     else if size = 0 then storing (store dest (replicate (unat (data_size field)) 0)) pb_ok
     else if size \<noteq> data_size field then pb_fail ''incorrect fixed length bytes size''
     else read_into dest (unat (data_size field)))"

text \<open>
  The decoder of nested messages is an argument: \<open>sub True\<close> initialises the message
  (\<open>pb_decode\<close>), \<open>sub False\<close> does not (\<open>pb_decode_noinit\<close>).
\<close>

type_synonym 's pb_sub = "bool \<Rightarrow> nat \<Rightarrow> int \<Rightarrow> 's pb_do"

definition pb_dec_submessage :: "'s pb_sub \<Rightarrow> 's pb_decoder" where
  "pb_dec_submessage sub field dest = reading pb_make_string_substream (\<lambda>substream s M.
     case ptr field of
       Null_ptr \<Rightarrow> pb_fail ''invalid field descriptor'' s M
     | Default_ptr _ \<Rightarrow> None
     | Submsg_ptr k \<Rightarrow> do {
         (status, substream, M) \<leftarrow> sub (PB_HTYPE field = PB_HTYPE_REPEATED) k dest substream M;
         (closed, s, _) \<leftarrow> pb_close_string_substream s substream;
         Some (closed \<and> status, s, M)
       })"

definition PB_DECODERS :: "pb_alloc \<Rightarrow> 's pb_sub \<Rightarrow> byte \<Rightarrow> 's pb_decoder" where
  "PB_DECODERS al sub ltype =
     (if ltype = PB_LTYPE_BOOL then pb_dec_bool
      else if ltype = PB_LTYPE_VARINT then pb_dec_varint
      else if ltype = PB_LTYPE_UVARINT then pb_dec_uvarint
      else if ltype = PB_LTYPE_SVARINT then pb_dec_svarint
      else if ltype = PB_LTYPE_FIXED32 then pb_dec_fixed32
      else if ltype = PB_LTYPE_FIXED64 then pb_dec_fixed64
      else if ltype = PB_LTYPE_BYTES then pb_dec_bytes al
      else if ltype = PB_LTYPE_STRING then pb_dec_string al
      else if ltype = PB_LTYPE_SUBMESSAGE then pb_dec_submessage sub
      else if ltype = PB_LTYPE_FIXED_LENGTH_BYTES then pb_dec_fixed_length_bytes
      else (\<lambda>_ _ _ _. None))"

section \<open>Default values\<close>

type_synonym pb_env = "nat \<Rightarrow> pb_fields"

fun submsg_fields :: "pb_ptr \<Rightarrow> nat option" where
  "submsg_fields (Submsg_ptr k) = Some k"
| "submsg_fields _ = None"

text \<open>
  The list of extensions of a message is empty in the model; an application that registers
  extensions is outside of it.
\<close>

definition no_extensions :: "int \<Rightarrow> pb_mem \<Rightarrow> pb_mem option" where
  "no_extensions a M = (case load_ptr a M of None \<Rightarrow> None | Some p \<Rightarrow> if p = 0 then Some M else None)"

definition default_value :: "pb_field \<Rightarrow> int \<Rightarrow> pb_mem \<Rightarrow> pb_mem option" where
  "default_value f a M = (case ptr f of
     Default_ptr bs \<Rightarrow> if length bs < unat (data_size f) then None else store a (take (unat (data_size f)) bs) M
   | Null_ptr \<Rightarrow> store a (replicate (unat (data_size f)) 0) M
   | Submsg_ptr _ \<Rightarrow> None)"

text \<open>
  \<open>pb_field_set_to_default\<close> up to the initialisation of a submessage: whether \<open>init_data\<close>
  holds for a submessage, which is then initialised by \<open>pb_message_set_to_defaults\<close>.
\<close>

definition pb_field_set_to_default :: "pb_field_iter \<Rightarrow> pb_mem \<Rightarrow> (bool \<times> pb_mem) option" where
  "pb_field_set_to_default it M = (
     let f = cur it in
     if PB_LTYPE f = PB_LTYPE_EXTENSION then map_option (Pair False) (no_extensions (pData it) M)
     else if PB_ATYPE f = PB_ATYPE_STATIC then
       (let optional = (PB_HTYPE f = PB_HTYPE_OPTIONAL \<and> pSize it \<noteq> pData it) in
        if \<not> optional \<and> (PB_HTYPE f = PB_HTYPE_REPEATED \<or> PB_HTYPE f = PB_HTYPE_ONEOF)
        then map_option (Pair False) (store_size (pSize it) 0 M)
        else do {
          M \<leftarrow> (if optional then store_bool (pSize it) False M else Some M);
          if PB_LTYPE f = PB_LTYPE_SUBMESSAGE then Some (True, M)
          else map_option (Pair False) (default_value f (pData it) M)
        })
     else if PB_ATYPE f = PB_ATYPE_POINTER then do {
       M \<leftarrow> store_ptr (pData it) 0 M;
       map_option (Pair False)
         (if PB_HTYPE f = PB_HTYPE_REPEATED \<or> PB_HTYPE f = PB_HTYPE_ONEOF then store_size (pSize it) 0 M else Some M)
     }
     else Some (False, M))"

text \<open>\<open>pb_message_set_to_defaults\<close> from the field the iterator is at.\<close>

partial_function (option) set_defaults_from :: "pb_env \<Rightarrow> pb_field_iter \<Rightarrow> pb_mem \<Rightarrow> pb_mem option" where
  "set_defaults_from env it M = do {
     (enter, M) \<leftarrow> pb_field_set_to_default it M;
     M \<leftarrow> (if enter then do {
         k \<leftarrow> submsg_fields (ptr (cur it));
         if fst (pb_field_iter_begin (env k) (pData it))
         then set_defaults_from env (snd (pb_field_iter_begin (env k) (pData it))) M else Some M
       } else Some M);
     if fst (pb_field_iter_next it) then set_defaults_from env (snd (pb_field_iter_next it)) M else Some M
   }"

declare set_defaults_from.simps [code]

definition pb_message_set_to_defaults :: "pb_env \<Rightarrow> nat \<Rightarrow> int \<Rightarrow> pb_mem \<Rightarrow> pb_mem option" where
  "pb_message_set_to_defaults env k dest M =
     (case pb_field_iter_begin (env k) dest of
        (False, _) \<Rightarrow> Some M
      | (True, it) \<Rightarrow> set_defaults_from env it M)"

text \<open>Submessages in unions and new array entries are zeroed, then set to their defaults.\<close>

definition clear_submessage :: "pb_env \<Rightarrow> pb_field \<Rightarrow> int \<Rightarrow> pb_mem \<Rightarrow> pb_mem option" where
  "clear_submessage env f a M = do {
     M \<leftarrow> store a (replicate (unat (data_size f)) 0) M;
     k \<leftarrow> submsg_fields (ptr f);
     pb_message_set_to_defaults env k a M
   }"

definition initialize_pointer_field :: "pb_env \<Rightarrow> pb_field \<Rightarrow> int \<Rightarrow> pb_mem \<Rightarrow> pb_mem option" where
  "initialize_pointer_field env f item M =
     (if PB_LTYPE f = PB_LTYPE_STRING \<or> PB_LTYPE f = PB_LTYPE_BYTES then store_ptr item 0 M
      else if PB_LTYPE f = PB_LTYPE_SUBMESSAGE then clear_submessage env f item M
      else Some M)"

section \<open>Release of allocated fields\<close>

text \<open>
  \<open>release_items\<close> is the part of \<open>pb_release_single_field\<close> that finds the submessages to
  release: the first one and their number.
\<close>

definition release_items :: "pb_field_iter \<Rightarrow> pb_mem \<Rightarrow> (int \<times> nat) option" where
  "release_items it M = (
     let f = cur it in
     if PB_LTYPE f = PB_LTYPE_SUBMESSAGE \<and> PB_ATYPE f \<noteq> PB_ATYPE_CALLBACK then do {
       item \<leftarrow> (if PB_ATYPE f = PB_ATYPE_POINTER then load_ptr (pData it) M else Some (pData it));
       n \<leftarrow> (if PB_HTYPE f = PB_HTYPE_REPEATED then
           (if PB_ATYPE f = PB_ATYPE_STATIC \<and> pSize it = pData it then Some (unat (array_size f))
            else map_option (\<lambda>k. if PB_ATYPE f = PB_ATYPE_STATIC \<and> k > array_size f then unat (array_size f) else unat k)
              (load_size (pSize it) M))
         else Some 1);
       Some (item, if item = 0 then 0 else n)
     }
     else Some (0, 0))"

primrec free_entries :: "int \<Rightarrow> nat \<Rightarrow> pb_mem \<Rightarrow> pb_mem option" where
  "free_entries p 0 M = Some M"
| "free_entries p (Suc n) M = do {
     q \<leftarrow> load_ptr p M;
     M \<leftarrow> pb_free q M;
     M \<leftarrow> store_ptr p 0 M;
     free_entries (p + int sizeof_pointer) n M
   }"

text \<open>The part that frees what the field itself points to.\<close>

definition release_pointer :: "pb_field_iter \<Rightarrow> pb_mem \<Rightarrow> pb_mem option" where
  "release_pointer it M = (
     let f = cur it; repeated = (PB_HTYPE f = PB_HTYPE_REPEATED) in
     if PB_ATYPE f = PB_ATYPE_POINTER then do {
       M \<leftarrow> (if repeated \<and> (PB_LTYPE f = PB_LTYPE_STRING \<or> PB_LTYPE f = PB_LTYPE_BYTES) then do {
           p \<leftarrow> load_ptr (pData it) M;
           n \<leftarrow> load_size (pSize it) M;
           free_entries p (unat n) M
         } else Some M);
       M \<leftarrow> (if repeated then store_size (pSize it) 0 M else Some M);
       p \<leftarrow> load_ptr (pData it) M;
       M \<leftarrow> pb_free p M;
       store_ptr (pData it) 0 M
     }
     else Some M)"

text \<open>Another field of the union is the current one.\<close>

definition not_current :: "pb_field_iter \<Rightarrow> pb_mem \<Rightarrow> bool option" where
  "not_current it M = (if PB_HTYPE (cur it) = PB_HTYPE_ONEOF
     then map_option (\<lambda>n. n \<noteq> tag (cur it)) (load_size (pSize it) M) else Some False)"

text \<open>
  \<open>pb_release_single_field\<close>, the loop of \<open>pb_release\<close> from a field on, and the loop over
  \<open>n\<close> submessages from \<open>item\<close> on.
\<close>

datatype pb_release_at = Rel_field pb_field_iter | Rel_message pb_field_iter | Rel_items nat int nat nat

partial_function (option) release_run :: "pb_env \<Rightarrow> pb_release_at \<Rightarrow> pb_mem \<Rightarrow> pb_mem option" where
  "release_run env task M = (case task of
     Rel_field it \<Rightarrow> do {
       skip \<leftarrow> not_current it M;
       if skip then Some M
       else do {
         M \<leftarrow> (if PB_LTYPE (cur it) = PB_LTYPE_EXTENSION then no_extensions (pData it) M else Some M);
         (item, n) \<leftarrow> release_items it M;
         M \<leftarrow> (if n = 0 then Some M else do {
           k \<leftarrow> submsg_fields (ptr (cur it));
           release_run env (Rel_items k item (unat (data_size (cur it))) n) M
         });
         release_pointer it M
       }
     }
   | Rel_message it \<Rightarrow> do {
       M \<leftarrow> release_run env (Rel_field it) M;
       if fst (pb_field_iter_next it) then release_run env (Rel_message (snd (pb_field_iter_next it))) M else Some M
     }
   | Rel_items k item sz n \<Rightarrow>
       if n = 0 then Some M
       else do {
         M \<leftarrow> (if item \<noteq> 0 \<and> fst (pb_field_iter_begin (env k) item)
           then release_run env (Rel_message (snd (pb_field_iter_begin (env k) item))) M else Some M);
         release_run env (Rel_items k (item + int sz) sz (n - 1)) M
       })"

declare release_run.simps [code]

definition pb_release_single_field :: "pb_env \<Rightarrow> pb_field_iter \<Rightarrow> pb_mem \<Rightarrow> pb_mem option" where
  "pb_release_single_field env it = release_run env (Rel_field it)"

definition pb_release :: "pb_env \<Rightarrow> nat \<Rightarrow> int \<Rightarrow> pb_mem \<Rightarrow> pb_mem option" where
  "pb_release env k dest M = (
     if dest = 0 then Some M
     else if fst (pb_field_iter_begin (env k) dest)
     then release_run env (Rel_message (snd (pb_field_iter_begin (env k) dest))) M
     else Some M)"

text \<open>Success, the iterator, the stream and the memory.\<close>

definition pb_release_union_field ::
  "pb_env \<Rightarrow> pb_field_iter \<Rightarrow> 's pb_istream \<Rightarrow> pb_mem \<Rightarrow> (bool \<times> pb_field_iter \<times> 's pb_istream \<times> pb_mem) option" where
  "pb_release_union_field env it s M = do {
     old_tag \<leftarrow> load_size (pSize it) M;
     let new_tag = tag (cur it) in
     if old_tag = 0 \<or> old_tag = new_tag then Some (True, it, s, M)
     else do {
       (found, it) \<leftarrow> pb_field_iter_find it old_tag;
       if \<not> found then Some (False, it, PB_SET_ERROR ''invalid union tag'' s, M)
       else do {
         M \<leftarrow> pb_release_single_field env it M;
         (found, it) \<leftarrow> pb_field_iter_find it new_tag;
         Some (if found then (True, it, s, M) else (False, it, PB_SET_ERROR ''iterator error'' s, M))
       }
     }
   }"

end
