(* ===== verification/PbMsg.thy ===== *)
theory PbMsg
  imports PbDec
begin

text \<open>
  Decoding of fields and messages in nanopb (\<open>pb_decode.c\<close>): static, pointer and callback
  fields, the loop over the fields of a message and the checks after it.
\<close>

section \<open>Single fields\<close>

text \<open>
  What the application provides: the allocator, the function at the address of a decoding
  callback, which gets the field and the address of its argument, and the descriptors.
\<close>

record 's pb_client =
  alloc :: pb_alloc
  on_field :: "int \<Rightarrow> pb_field \<Rightarrow> int \<Rightarrow> 's pb_do"
  descriptors :: pb_env

text \<open>The product \<open>data_size * (*size)\<close> is computed in 32 bits.\<close>

definition entry :: "pb_field \<Rightarrow> int \<Rightarrow> u32 \<Rightarrow> int" where
  "entry f base n = base + uint (data_size f * n)"

definition increment_size :: "pb_field_iter \<Rightarrow> pb_mem \<Rightarrow> pb_mem option" where
  "increment_size it M = do { n \<leftarrow> load_size (pSize it) M; store_size (pSize it) (n + 1) M }"

definition is_packed :: "pb_wire_type \<Rightarrow> pb_field \<Rightarrow> bool" where
  "is_packed wt f \<longleftrightarrow> wt = PB_WT_STRING \<and> PB_LTYPE f \<le> PB_LTYPE_LAST_PACKABLE"

partial_function (option) static_packed ::
  "'s pb_decoder \<Rightarrow> pb_field_iter \<Rightarrow> 's pb_istream \<Rightarrow> pb_mem \<Rightarrow> (bool \<times> 's pb_istream \<times> pb_mem) option" where
  "static_packed func it sub M = (
     if bytes_left sub = 0 then Some (True, sub, M)
     else do {
       n \<leftarrow> load_size (pSize it) M;
       if n \<ge> array_size (cur it) then Some (True, sub, M)
       else do {
         (ok, sub, M) \<leftarrow> func (cur it) (entry (cur it) (pData it) n) sub M;
         if \<not> ok then Some (False, sub, M)
         else do {
           M \<leftarrow> increment_size it M;
           static_packed func it sub M
         }
       }
     })"

declare static_packed.simps [code]

definition decode_static_field :: "'s pb_client \<Rightarrow> 's pb_sub \<Rightarrow> pb_wire_type \<Rightarrow> pb_field_iter \<Rightarrow> 's pb_do" where
  "decode_static_field W sub wt it = (
     let f = cur it; func = PB_DECODERS (alloc W) sub (PB_LTYPE f) in
     if PB_HTYPE f = PB_HTYPE_REQUIRED then func f (pData it)
     else if PB_HTYPE f = PB_HTYPE_OPTIONAL then
       (if pSize it \<noteq> pData it then storing (store_bool (pSize it) True) (func f (pData it))
        else func f (pData it))
     else if PB_HTYPE f = PB_HTYPE_REPEATED then
       (if is_packed wt f then
          reading pb_make_string_substream (\<lambda>substream s M. do {
            (status, substream, M) \<leftarrow> static_packed func it substream M;
            if bytes_left substream \<noteq> 0 then pb_fail ''array overflow'' s M
            else do {
              (closed, s, _) \<leftarrow> pb_close_string_substream s substream;
              Some (closed \<and> status, s, M)
            }
          })
        else
          loading (load_size (pSize it)) (\<lambda>n. storing (increment_size it)
            (if n \<ge> array_size f then pb_fail ''array overflow'' else func f (entry f (pData it) n))))
     else if PB_HTYPE f = PB_HTYPE_ONEOF then
       storing (store_size (pSize it) (tag f))
         (if PB_LTYPE f = PB_LTYPE_SUBMESSAGE
          then storing (clear_submessage (descriptors W) f (pData it)) (func f (pData it))
          else func f (pData it))
     else pb_fail ''invalid field type'')"

text \<open>The number of entries to have room for. The entry size is a divisor.\<close>

definition guess_entries :: "nat \<Rightarrow> u32 \<Rightarrow> u64 \<Rightarrow> u64 option" where
  "guess_entries left dsize allocated = (
     let remain = (of_nat left - 1) div ucast dsize + 1 in
     if dsize = 0 then None
     else Some (if remain < ucast PB_SIZE_MAX - allocated then allocated + remain else allocated + 1))"

text \<open>The stream \<open>s\<close> is the parent, whose message is overwritten by one of the errors.\<close>

partial_function (option) pointer_packed ::
  "'s pb_client \<Rightarrow> 's pb_decoder \<Rightarrow> pb_field_iter \<Rightarrow> u64 \<Rightarrow> 's pb_istream \<Rightarrow> 's pb_istream \<Rightarrow> pb_mem \<Rightarrow>
   (bool \<times> 's pb_istream \<times> 's pb_istream \<times> pb_mem) option" where
  "pointer_packed W func it allocated s sub M = (
     if bytes_left sub = 0 then Some (True, s, sub, M)
     else do {
       n \<leftarrow> load_size (pSize it) M;
       if n = PB_SIZE_MAX then Some (False, s\<lparr>errmsg := Some ''too many array entries''\<rparr>, sub, M)
       else do {
         wanted \<leftarrow> (if ucast n + 1 > allocated then guess_entries (bytes_left sub) (data_size (cur it)) allocated
                   else Some allocated);
         (ok, sub, M) \<leftarrow> (if ucast n + 1 > allocated
           then allocate_field (alloc W) (pData it) (ucast (data_size (cur it))) wanted sub M
           else Some (True, sub, M));
         if \<not> ok then Some (False, s, sub, M)
         else do {
           p \<leftarrow> load_ptr (pData it) M;
           n \<leftarrow> load_size (pSize it) M;
           M \<leftarrow> initialize_pointer_field (descriptors W) (cur it) (entry (cur it) p n) M;
           (ok, sub, M) \<leftarrow> func (cur it) (entry (cur it) p n) sub M;
           if \<not> ok then Some (False, s, sub, M)
           else do {
             M \<leftarrow> increment_size it M;
             pointer_packed W func it wanted s sub M
           }
         }
       }
     })"

declare pointer_packed.simps [code]

definition decode_pointer_field :: "'s pb_client \<Rightarrow> 's pb_sub \<Rightarrow> pb_wire_type \<Rightarrow> pb_field_iter \<Rightarrow> 's pb_do" where
  "decode_pointer_field W sub wt it = (
     let f = cur it; func = PB_DECODERS (alloc W) sub (PB_LTYPE f);
         single =
           (if PB_LTYPE f = PB_LTYPE_STRING \<or> PB_LTYPE f = PB_LTYPE_BYTES then func f (pData it)
            else doing (allocate_field (alloc W) (pData it) (ucast (data_size f)) 1)
              (loading (load_ptr (pData it)) (\<lambda>p. storing (initialize_pointer_field (descriptors W) f p)
                (loading (load_ptr (pData it)) (func f)))));
         tagged = (if PB_HTYPE f = PB_HTYPE_ONEOF then storing (store_size (pSize it) (tag f)) single
                   else single) in
     if PB_HTYPE f = PB_HTYPE_REQUIRED \<or> PB_HTYPE f = PB_HTYPE_OPTIONAL \<or> PB_HTYPE f = PB_HTYPE_ONEOF then
       (if PB_LTYPE f = PB_LTYPE_SUBMESSAGE then loading (load_ptr (pData it)) (\<lambda>p.
          if p \<noteq> 0 then storing (pb_release_single_field (descriptors W) it) tagged else tagged)
        else tagged)
     else if PB_HTYPE f = PB_HTYPE_REPEATED then
       (if is_packed wt f then
          loading (load_size (pSize it)) (\<lambda>allocated. reading pb_make_string_substream (\<lambda>substream s M. do {
            (status, s, substream, M) \<leftarrow> pointer_packed W func it (ucast allocated) s substream M;
            (closed, s, _) \<leftarrow> pb_close_string_substream s substream;
            Some (closed \<and> status, s, M)
          }))
        else
          loading (load_size (pSize it)) (\<lambda>n.
            if n = PB_SIZE_MAX then pb_fail ''too many array entries''
            else doing (allocate_field (alloc W) (pData it) (ucast (data_size f)) (ucast (n + 1)))
              (loading (load_ptr (pData it)) (\<lambda>p. loading (load_size (pSize it)) (\<lambda>n.
                 storing (increment_size it)
                   (storing (initialize_pointer_field (descriptors W) f (entry f p n)) (func f (entry f p n))))))))
     else pb_fail ''invalid field type'')"

text \<open>A \<open>pb_callback_t\<close> is the address of the function, then its argument.\<close>

partial_function (option) callback_run ::
  "'s pb_do \<Rightarrow> 's pb_istream \<Rightarrow> pb_mem \<Rightarrow> (bool \<times> 's pb_istream \<times> pb_mem) option" where
  "callback_run func sub M = do {
     (ok, sub, M) \<leftarrow> func sub M;
     if \<not> ok then Some (False, sub, M)
     else if bytes_left sub = 0 then Some (True, sub, M)
     else callback_run func sub M
   }"

declare callback_run.simps [code]

definition skip_field :: "pb_wire_type \<Rightarrow> 's pb_do" where
  "skip_field wt = reading (pb_skip_field wt) (\<lambda>_. pb_ok)"

definition decode_callback_field :: "'s pb_client \<Rightarrow> pb_wire_type \<Rightarrow> pb_field_iter \<Rightarrow> 's pb_do" where
  "decode_callback_field W wt it = (
     if pData it = 0 then skip_field wt
     else loading (load_ptr (pData it)) (\<lambda>fn.
       let call = on_field W fn (cur it) (pData it + int sizeof_pointer) in
       if fn = 0 then skip_field wt
       else if wt = PB_WT_STRING then
         reading pb_make_string_substream (\<lambda>substream s M. do {
           (ok, substream, M) \<leftarrow> callback_run call substream M;
           if \<not> ok then pb_fail ''callback failed'' s M
           else do {
             (closed, s, _) \<leftarrow> pb_close_string_substream s substream;
             Some (closed, s, M)
           }
         })
       else
         reading (read_raw_value wt 10) (\<lambda>bs s M. do {
           (ok, _, M) \<leftarrow> call (pb_istream_from_buffer bs (length bs)) M;
           Some (ok, s, M)
         })))"

text \<open>The release of another field of the union leaves its iterator behind.\<close>

definition decode_field :: "'s pb_client \<Rightarrow> 's pb_sub \<Rightarrow> pb_wire_type \<Rightarrow> pb_field_iter \<Rightarrow>
  's pb_istream \<Rightarrow> pb_mem \<Rightarrow> (bool \<times> pb_field_iter \<times> 's pb_istream \<times> pb_mem) option" where
  "decode_field W sub wt it s M = do {
     (ok, it, s, M) \<leftarrow> (if PB_HTYPE (cur it) = PB_HTYPE_ONEOF
       then pb_release_union_field (descriptors W) it s M else Some (True, it, s, M));
     if \<not> ok then Some (False, it, s, M)
     else do {
       (ok, s, M) \<leftarrow>
         (if PB_ATYPE (cur it) = PB_ATYPE_STATIC then decode_static_field W sub wt it s M
          else if PB_ATYPE (cur it) = PB_ATYPE_POINTER then decode_pointer_field W sub wt it s M
          else if PB_ATYPE (cur it) = PB_ATYPE_CALLBACK then decode_callback_field W wt it s M
          else pb_fail ''invalid field type'' s M);
       Some (ok, it, s, M)
     }
   }"

section \<open>Messages\<close>

text \<open>The local variables of \<open>pb_decode_noinit\<close>; \<open>fixed_count_field\<close> is an index into the fields.\<close>

record pb_locals =
  fields_seen :: "u32 list"
  extension_range_start :: u32
  fixed_count_field :: "nat option"
  iter :: pb_field_iter

text \<open>
  \<open>fixed_count_size\<close> is a local variable whose address is taken. The calls of
  \<open>pb_decode_noinit\<close> are numbered by the depth left, and the variables lie below address 0.
\<close>

definition fixed_count_size :: "nat \<Rightarrow> int" where
  "fixed_count_size d = - 4 * (int d + 1)"

definition enter_frame :: "nat \<Rightarrow> pb_mem \<Rightarrow> pb_mem" where
  "enter_frame d M = M\<lparr>cells := set_cells (fixed_count_size d) [0, 0, 0, 0] (cells M)\<rparr>"

definition leave_frame :: "nat \<Rightarrow> pb_mem \<Rightarrow> pb_mem" where
  "leave_frame d M = M\<lparr>cells := free_cells (fixed_count_size d) 4 (cells M)\<rparr>"

definition find_extension_field :: "pb_field_iter \<Rightarrow> (bool \<times> pb_field_iter) option" where
  "find_extension_field it = iter_search (\<lambda>f. PB_LTYPE f = PB_LTYPE_EXTENSION) (it_pos it) it"

text \<open>A field that is not in the descriptors: the search for an extension, then the skip.\<close>

definition unknown_field :: "u32 \<Rightarrow> pb_wire_type \<Rightarrow> pb_locals \<Rightarrow> 's pb_istream \<Rightarrow> pb_mem \<Rightarrow>
  (bool \<times> pb_locals \<times> 's pb_istream \<times> pb_mem) option" where
  "unknown_field t wt L s M = do {
     L \<leftarrow> (if t \<ge> extension_range_start L then do {
         (found, it) \<leftarrow> find_extension_field (iter L);
         let start = (if found then tag (cur it) else - 1) in do {
           _ \<leftarrow> (if t \<ge> start then no_extensions (pData it) M else Some M);
           Some (L\<lparr>iter := it, extension_range_start := start\<rparr>)
         }
       } else Some L);
     (ok, s, M) \<leftarrow> skip_field wt s M;
     Some (ok, L, s, M)
   }"

text \<open>Whether the fixed count field counted last has not got all its entries.\<close>

definition fixed_count_short :: "nat \<Rightarrow> pb_locals \<Rightarrow> pb_mem \<Rightarrow> bool option" where
  "fixed_count_short d L M = (case fixed_count_field L of
     None \<Rightarrow> Some False
   | Some i \<Rightarrow> map_option (\<lambda>n. n \<noteq> array_size (field_at (it_start (iter L)) i))
       (load_size (fixed_count_size d) M))"

text \<open>A fixed count field: switch to it, and count its entries in \<open>fixed_count_size\<close>.\<close>

definition enter_fixed_count :: "nat \<Rightarrow> pb_locals \<Rightarrow> pb_mem \<Rightarrow> (bool \<times> pb_locals \<times> pb_mem) option" where
  "enter_fixed_count d L M = (
     if PB_HTYPE (cur (iter L)) = PB_HTYPE_REPEATED \<and> pSize (iter L) = pData (iter L) then do {
       short \<leftarrow> (if fixed_count_field L \<noteq> Some (it_pos (iter L)) then fixed_count_short d L M else Some False);
       if short then Some (False, L, M)
       else do {
         M \<leftarrow> (if fixed_count_field L \<noteq> Some (it_pos (iter L)) then store_size (fixed_count_size d) 0 M else Some M);
         Some (True, L\<lparr>fixed_count_field := Some (it_pos (iter L)), iter := (iter L)\<lparr>pSize := fixed_count_size d\<rparr>\<rparr>, M)
       }
     }
     else Some (True, L, M))"

definition PB_MAX_REQUIRED_FIELDS :: nat where "PB_MAX_REQUIRED_FIELDS = 64"

definition mark_seen :: "pb_locals \<Rightarrow> pb_locals" where
  "mark_seen L = (
     let i = required_field_index (iter L) in
     if PB_HTYPE (cur (iter L)) = PB_HTYPE_REQUIRED \<and> i < PB_MAX_REQUIRED_FIELDS
     then L\<lparr>fields_seen := (fields_seen L)[i div 32 := fields_seen L ! (i div 32) OR push_bit (i mod 32) 1]\<rparr>
     else L)"

text \<open>The loop ends with success or an error, the local variables, the stream and the memory.\<close>

partial_function (option) decode_fields :: "'s pb_client \<Rightarrow> 's pb_sub \<Rightarrow> nat \<Rightarrow> pb_locals \<Rightarrow>
  's pb_istream \<Rightarrow> pb_mem \<Rightarrow> (bool \<times> pb_locals \<times> 's pb_istream \<times> pb_mem) option" where
  "decode_fields W sub d L s M = (
     if bytes_left s = 0 then Some (True, L, s, M)
     else do {
       (header, eof, s) \<leftarrow> pb_decode_tag s;
       if header = None then Some (eof, L, s, M)
       else do {
         (found, it) \<leftarrow> pb_field_iter_find (iter L) (snd (the header));
         if \<not> found then do {
           (ok, L, s, M) \<leftarrow> unknown_field (snd (the header)) (fst (the header)) (L\<lparr>iter := it\<rparr>) s M;
           if ok then decode_fields W sub d L s M else Some (False, L, s, M)
         }
         else do {
           (ok, L, M) \<leftarrow> enter_fixed_count d (L\<lparr>iter := it\<rparr>) M;
           if \<not> ok then Some (False, L, PB_SET_ERROR ''wrong size for fixed count field'' s, M)
           else do {
             (ok, it, s, M) \<leftarrow> decode_field W sub (fst (the header)) (iter L) s M;
             if ok then decode_fields W sub d ((mark_seen L)\<lparr>iter := it\<rparr>) s M
             else Some (False, (mark_seen L)\<lparr>iter := it\<rparr>, s, M)
           }
         }
       }
     })"

declare decode_fields.simps [code]

text \<open>The number of required fields, found by going on to the end of the fields.\<close>

definition iter_left :: "pb_field_iter \<Rightarrow> nat" where
  "iter_left it = length (it_start it) - it_pos it"

lemma iter_next_left: "fst (pb_field_iter_next it) \<Longrightarrow> iter_left (snd (pb_field_iter_next it)) < iter_left it"
  by (auto simp: pb_field_iter_next_def iter_left_def cur_def field_at_def PB_LAST_FIELD_def Let_def
      split: if_splits)

function req_field_count :: "pb_field_iter \<Rightarrow> nat" where
  "req_field_count it = (
     if fst (pb_field_iter_next it) then req_field_count (snd (pb_field_iter_next it))
     else required_field_index it +
       (if PB_HTYPE (cur it) = PB_HTYPE_REQUIRED \<and> tag (cur (snd (pb_field_iter_next it))) \<noteq> 0 then 1 else 0))"
  by auto

termination
  by (relation "measure iter_left") (simp_all add: iter_next_left)

declare req_field_count.simps [simp del]

definition all_required_seen :: "nat \<Rightarrow> u32 list \<Rightarrow> bool" where
  "all_required_seen n seen \<longleftrightarrow>
     (let n = min n PB_MAX_REQUIRED_FIELDS in
      list_all (\<lambda>i. seen ! i = - 1) [0..<n div 32] \<and>
      (n mod 32 \<noteq> 0 \<longrightarrow> seen ! (n div 32) = drop_bit (32 - n mod 32) (- 1)))"

definition pb_decode_noinit_with :: "'s pb_client \<Rightarrow> 's pb_sub \<Rightarrow> nat \<Rightarrow> nat \<Rightarrow> int \<Rightarrow> 's pb_do" where
  "pb_decode_noinit_with W sub d k dest s M = do {
     let L = \<lparr>fields_seen = [0, 0], extension_range_start = 0, fixed_count_field = None,
              iter = snd (pb_field_iter_begin (descriptors W k) dest)\<rparr> in do {
       (ok, L, s, M) \<leftarrow> decode_fields W sub d L s (enter_frame d M);
       short \<leftarrow> (if ok then fixed_count_short d L M else Some False);
       Some (
         if \<not> ok then (False, s, leave_frame d M)
         else if short then (False, PB_SET_ERROR ''wrong size for fixed count field'' s, leave_frame d M)
         else if \<not> all_required_seen (req_field_count (iter L)) (fields_seen L)
         then (False, PB_SET_ERROR ''missing required field'' s, leave_frame d M)
         else (True, s, leave_frame d M))
     }
   }"

text \<open>
  \<open>pb_decode\<close> (\<open>True\<close>) and \<open>pb_decode_noinit\<close> (\<open>False\<close>) with at most \<open>d\<close> nested calls. A nested
  message is shorter than the message around it, so that the length of the stream is enough.
\<close>

primrec decode_at :: "nat \<Rightarrow> 's pb_client \<Rightarrow> 's pb_sub" where
  "decode_at 0 W = (\<lambda>_ _ _ _ _. None)"
| "decode_at (Suc d) W = (\<lambda>init k dest s M. do {
     M \<leftarrow> (if init then pb_message_set_to_defaults (descriptors W) k dest M else Some M);
     (ok, s, M) \<leftarrow> pb_decode_noinit_with W (decode_at d W) d k dest s M;
     M \<leftarrow> (if ok \<or> \<not> init then Some M else pb_release (descriptors W) k dest M);
     Some (ok, s, M)
   })"

definition pb_decode_noinit :: "'s pb_client \<Rightarrow> nat \<Rightarrow> int \<Rightarrow> 's pb_do" where
  "pb_decode_noinit W k dest s = decode_at (Suc (bytes_left s)) W False k dest s"

definition pb_decode :: "'s pb_client \<Rightarrow> nat \<Rightarrow> int \<Rightarrow> 's pb_do" where
  "pb_decode W k dest s = decode_at (Suc (bytes_left s)) W True k dest s"

definition delimited :: "(nat \<Rightarrow> int \<Rightarrow> 's pb_do) \<Rightarrow> nat \<Rightarrow> int \<Rightarrow> 's pb_do" where
  "delimited f k dest = reading pb_make_string_substream (\<lambda>substream s M. do {
     (status, substream, M) \<leftarrow> f k dest substream M;
     (closed, s, _) \<leftarrow> pb_close_string_substream s substream;
     Some (closed \<and> status, s, M)
   })"

definition pb_decode_delimited_noinit :: "'s pb_client \<Rightarrow> nat \<Rightarrow> int \<Rightarrow> 's pb_do" where
  "pb_decode_delimited_noinit W = delimited (pb_decode_noinit W)"

definition pb_decode_delimited :: "'s pb_client \<Rightarrow> nat \<Rightarrow> int \<Rightarrow> 's pb_do" where
  "pb_decode_delimited W = delimited (pb_decode W)"

definition pb_decode_nullterminated :: "'s pb_client \<Rightarrow> nat \<Rightarrow> int \<Rightarrow> 's pb_do" where
  "pb_decode_nullterminated = pb_decode"

end
