(* ===== verification/PbLaw.thy ===== *)
theory PbLaw
  imports PbMsg
begin

text \<open>
  Every reader of nanopb returns on a lawful input stream, and leaves it lawful: the stream
  never consumes more bytes than it counts.
\<close>

section \<open>Lawful streams\<close>

text \<open>A buffer has the bytes the count promises; a custom callback stores as many bytes as it is asked for.\<close>

definition lawful :: "'s pb_istream \<Rightarrow> bool" where
  "lawful s \<longleftrightarrow> (case callback s of
     Buf_read \<Rightarrow> (\<exists>xs. state s = Buf_state xs \<and> bytes_left s \<le> length xs)
   | User_read f \<Rightarrow> (\<exists>u. state s = User_state u) \<and> (\<forall>u n xs u'. f u n = (True, xs, u') \<longrightarrow> length xs = n))"

text \<open>From \<open>s\<close> the stream came to \<open>s'\<close>; a buffer lost at most as many bytes as were counted (a
  stream may give up a substream without reading it).\<close>

definition adv :: "'s pb_istream \<Rightarrow> 's pb_istream \<Rightarrow> bool" where
  "adv s s' \<longleftrightarrow> callback s' = callback s \<and> bytes_left s' \<le> bytes_left s \<and>
     (case state s of
        Buf_state xs \<Rightarrow> (\<exists>xs'. state s' = Buf_state xs' \<and> length xs + bytes_left s' \<le> length xs' + bytes_left s)
      | User_state _ \<Rightarrow> (\<exists>u. state s' = User_state u))"

lemma adv_refl [simp]: "adv s s"
  by (auto simp: adv_def split: pb_state.splits)

lemma adv_trans [trans]: "adv s s' \<Longrightarrow> adv s' s'' \<Longrightarrow> adv s s''"
  by (fastforce simp: adv_def split: pb_state.splits)

lemma adv_ex:
  "adv s s' \<Longrightarrow> \<exists>r t. m = Some (r, t) \<and> adv s' t \<Longrightarrow> \<exists>r t. m = Some (r, t) \<and> adv s t"
  using adv_trans by blast

lemma adv_left: "adv s s' \<Longrightarrow> bytes_left s' \<le> bytes_left s"
  by (simp add: adv_def)

lemma lawful_adv: "lawful s \<Longrightarrow> adv s s' \<Longrightarrow> lawful s'"
  by (fastforce simp: lawful_def adv_def split: pb_state.splits pb_read_fn.splits)

lemma adv_error [simp]: "adv s (PB_SET_ERROR msg s') \<longleftrightarrow> adv s s'" "adv (PB_SET_ERROR msg s) s' \<longleftrightarrow> adv s s'"
  by (auto simp: adv_def PB_SET_ERROR_def split: pb_state.splits)

lemma lawful_error [simp]: "lawful (PB_SET_ERROR msg s) = lawful s"
  by (auto simp: lawful_def PB_SET_ERROR_def split: pb_read_fn.splits)

lemma left_error [simp]: "bytes_left (PB_SET_ERROR msg s) = bytes_left s"
  by (simp add: PB_SET_ERROR_def)

text \<open>A reader that returns on lawful streams, with results that have a property; \<open>k\<close> bytes are consumed at least.\<close>

definition returns :: "nat \<Rightarrow> ('a \<Rightarrow> bool) \<Rightarrow> ('a, 's) pb_reader \<Rightarrow> bool" where
  "returns k P m \<longleftrightarrow> (\<forall>s. lawful s \<longrightarrow> (\<exists>r s'. m s = Some (r, s') \<and> adv s s' \<and>
     (\<forall>x. r = Some x \<longrightarrow> P x \<and> bytes_left s' + k \<le> bytes_left s)))"

lemma returnsD:
  assumes "returns k P m" and "lawful s"
  obtains (failed) s' where "m s = Some (None, s')" and "adv s s'"
  | (ok) x s' where "m s = Some (Some x, s')" and "adv s s'" and "P x" and "bytes_left s' + k \<le> bytes_left s"
  using assms unfolding returns_def by (metis option.exhaust)

lemma returns_error [simp]: "returns k P (PB_RETURN_ERROR msg)"
  by (simp add: returns_def PB_RETURN_ERROR_def)

lemma returns_return: "P x \<Longrightarrow> returns 0 P (pb_return x)"
  by (simp add: returns_def pb_return_def)

lemma returns_then:
  assumes "returns j Q m" and "\<And>x. Q x \<Longrightarrow> returns k P (f x)"
  shows "returns (j + k) P (pb_then m f)"
  unfolding returns_def
proof safe
  fix s :: "'b pb_istream" assume s: "lawful s"
  from assms(1) s show "\<exists>r s'. pb_then m f s = Some (r, s') \<and> adv s s' \<and>
      (\<forall>x. r = Some x \<longrightarrow> P x \<and> bytes_left s' + (j + k) \<le> bytes_left s)"
  proof (cases rule: returnsD)
    case (failed s')
    then show ?thesis by (simp add: pb_then_def)
  next
    case (ok x s')
    from assms(2) [OF ok(3)] lawful_adv [OF s ok(2)] show ?thesis
    proof (cases rule: returnsD)
      case (failed s'')
      then show ?thesis using ok adv_trans by (fastforce simp: pb_then_def)
    next
      case (ok y s'')
      then show ?thesis using \<open>m s = _\<close> \<open>adv s s'\<close> \<open>bytes_left s' + j \<le> bytes_left s\<close> adv_trans
        by (fastforce simp: pb_then_def)
    qed
  qed
qed

lemma returns_weaken:
  assumes "returns k P m" and "\<And>x. P x \<Longrightarrow> Q x" and "j \<le> k"
  shows "returns j Q m"
  using assms(1) assms(2,3) unfolding returns_def by (meson add_left_mono order_trans)

lemma returns_map:
  assumes "returns k P m"
  shows "returns k P (\<lambda>s. m s)" using assms by simp

section \<open>The readers\<close>

lemma call_callback_lawful:
  assumes "lawful s" and "n \<le> bytes_left s"
  obtains (failed) xs s' where "call_callback n s = Some (False, xs, s')" and "adv s s'"
  | (ok) xs s' where "call_callback n s = Some (True, xs, s')" and "length xs = n"
      and "adv s (s'\<lparr>bytes_left := bytes_left s - n\<rparr>)" and "bytes_left s' = bytes_left s"
proof (cases "callback s")
  case Buf_read
  then show ?thesis using assms that(2) by (auto simp: lawful_def call_callback_def buf_read_def adv_def)
next
  case (User_read f)
  then have "\<exists>u. state s = User_state u" and f: "f u n = (True, xs, u') \<Longrightarrow> length xs = n" for u n xs u'
    using assms(1) by (auto simp: lawful_def)
  then obtain u where u: "state s = User_state u" by blast
  obtain r xs u' where r: "f u n = (r, xs, u')" by (cases "f u n")
  show ?thesis
  proof (cases r)
    case True
    then show ?thesis using User_read u r f by (intro that(2) [of xs "s\<lparr>state := User_state u'\<rparr>"])
        (auto simp: call_callback_def adv_def)
  next
    case False
    then show ?thesis using User_read u r by (intro that(1) [of xs "s\<lparr>state := User_state u'\<rparr>"])
        (auto simp: call_callback_def adv_def)
  qed
qed

lemma returns_read_checked: "returns n (\<lambda>xs. length xs = n) (read_checked n)"
  unfolding returns_def
proof safe
  fix s :: "'a pb_istream" assume s: "lawful s"
  show "\<exists>r s'. read_checked n s = Some (r, s') \<and> adv s s' \<and>
      (\<forall>x. r = Some x \<longrightarrow> length x = n \<and> bytes_left s' + n \<le> bytes_left s)"
  proof (cases "bytes_left s < n")
    case False
    then have n: "n \<le> bytes_left s" by simp
    from s n show ?thesis
      by (cases rule: call_callback_lawful) (use False in \<open>simp_all add: read_checked_def PB_RETURN_ERROR_def\<close>)
  qed (simp add: read_checked_def PB_RETURN_ERROR_def)
qed

lemma returns_skip_pieces: "returns n (\<lambda>_. True) (skip_pieces n :: (byte list, 's) pb_reader)"
proof (induction n rule: less_induct)
  case (less n)
  have "(skip_pieces n :: (byte list, 's) pb_reader) =
      (if n > 16 then pb_then (read_checked 16) (\<lambda>_. skip_pieces (n - 16)) else read_checked n)"
    by (rule ext) (simp add: skip_pieces.simps)
  moreover have "returns (16 + (n - 16)) (\<lambda>_. True) (pb_then (read_checked 16) (\<lambda>_. skip_pieces (n - 16)) :: (byte list, 's) pb_reader)"
    if "n > 16"
    using less that by (intro returns_then [OF returns_read_checked]) simp
  ultimately show ?case using returns_weaken [OF returns_read_checked [of n], of "\<lambda>_. True" n] by auto
qed

lemma returns_pb_read: "returns n (\<lambda>xs. null \<or> length xs = n) (pb_read null n)"
proof -
  have "returns n (\<lambda>xs. null \<or> length xs = n) (read_checked n :: (byte list, 'a) pb_reader)"
    by (rule returns_weaken [OF returns_read_checked]) simp_all
  moreover have "null \<Longrightarrow> returns n (\<lambda>xs. null \<or> length xs = n) (skip_pieces n :: (byte list, 'a) pb_reader)"
    by (rule returns_weaken [OF returns_skip_pieces]) simp_all
  ultimately show ?thesis
    unfolding returns_def pb_read_def by (auto split: pb_read_fn.splits)
qed

lemma returns_readbyte: "returns 1 (\<lambda>_. True) pb_readbyte"
  unfolding returns_def
proof safe
  fix s :: "'a pb_istream" assume s: "lawful s"
  show "\<exists>r s'. pb_readbyte s = Some (r, s') \<and> adv s s' \<and>
      (\<forall>x. r = Some x \<longrightarrow> True \<and> bytes_left s' + 1 \<le> bytes_left s)"
  proof (cases "bytes_left s = 0")
    case False
    then have n: "1 \<le> bytes_left s" by simp
    from s n show ?thesis
      by (cases rule: call_callback_lawful) (use False in \<open>simp_all add: pb_readbyte_def PB_RETURN_ERROR_def\<close>)
  qed (simp add: pb_readbyte_def PB_RETURN_ERROR_def)
qed

lemma returns_intro:
  assumes "\<And>s. lawful s \<Longrightarrow> \<exists>r s'. m s = Some (r, s') \<and> adv s s' \<and> (\<forall>x. r = Some x \<longrightarrow> P x \<and> bytes_left s' + k \<le> bytes_left s)"
  shows "returns k P m"
  using assms by (simp add: returns_def)

lemma returns_varint32_loop: "returns 0 (\<lambda>_. True) (varint32_loop result bitpos)"
proof -
  have "\<exists>r s'. varint32_loop result bitpos s = Some (r, s') \<and> adv s s'" if "lawful s" for s :: "'a pb_istream"
    using that
  proof (induction result bitpos s rule: varint32_loop.induct)
    case (1 result bitpos s)
    from returns_readbyte 1(2) show ?case
    proof (cases rule: returnsD)
      case (failed s')
      then show ?thesis by (simp add: varint32_loop.simps)
    next
      case (ok b s')
      then show ?thesis
        using 1(1) [of "(Some b, s')" "Some b" s' b] lawful_adv [OF 1(2) ok(2)]
        by (subst varint32_loop.simps) (auto simp: PB_RETURN_ERROR_def Let_def intro!: adv_ex [OF ok(2)])
    qed
  qed
  then show ?thesis using adv_left by (intro returns_intro) fastforce
qed


lemma returns_varint32_eof:
  assumes s: "lawful s"
  obtains r eof s' where "pb_decode_varint32_eof s = Some (r, eof, s')" and "adv s s'"
    and "r \<noteq> None \<longrightarrow> bytes_left s' < bytes_left s"
proof -
  from returns_readbyte s have "\<exists>r eof s'. pb_decode_varint32_eof s = Some (r, eof, s') \<and> adv s s' \<and>
      (r \<noteq> None \<longrightarrow> bytes_left s' < bytes_left s)"
  proof (cases rule: returnsD)
    case (failed s')
    then show ?thesis by (simp add: pb_decode_varint32_eof_def)
  next
    case (ok b s')
    from returns_varint32_loop [of "ucast (b AND 0x7F)" 7] lawful_adv [OF s ok(2)] show ?thesis
    proof (cases rule: returnsD)
      case (failed s'')
      then show ?thesis using ok adv_trans [OF ok(2)] by (auto simp: pb_decode_varint32_eof_def)
    next
      case (ok x s'')
      then show ?thesis using \<open>pb_readbyte s = _\<close> \<open>bytes_left s' + 1 \<le> _\<close> \<open>adv s s'\<close> adv_trans [OF \<open>adv s s'\<close>]
        by (cases x) (auto simp: pb_decode_varint32_eof_def)
    qed
  qed
  then show ?thesis using that by blast
qed

lemma returns_varint32: "returns 1 (\<lambda>_. True) pb_decode_varint32"
proof (rule returns_intro)
  fix s :: "'a pb_istream" assume s: "lawful s"
  obtain r eof s' where "pb_decode_varint32_eof s = Some (r, eof, s')" "adv s s'"
      "r \<noteq> None \<longrightarrow> bytes_left s' < bytes_left s"
    by (rule returns_varint32_eof [OF s])
  then show "\<exists>r s'. pb_decode_varint32 s = Some (r, s') \<and> adv s s' \<and>
      (\<forall>x. r = Some x \<longrightarrow> True \<and> bytes_left s' + 1 \<le> bytes_left s)"
    by (fastforce simp: pb_decode_varint32_def)
qed

lemma returns_tag:
  assumes s: "lawful s"
  obtains r eof s' where "pb_decode_tag s = Some (r, eof, s')" and "adv s s'"
    and "r \<noteq> None \<longrightarrow> bytes_left s' < bytes_left s"
proof -
  obtain r eof s' where "pb_decode_varint32_eof s = Some (r, eof, s')" "adv s s'"
      "r \<noteq> None \<longrightarrow> bytes_left s' < bytes_left s"
    by (rule returns_varint32_eof [OF s])
  then have "\<exists>r eof. pb_decode_tag s = Some (r, eof, s') \<and> adv s s' \<and> (r \<noteq> None \<longrightarrow> bytes_left s' < bytes_left s)"
    by (cases r) (auto simp: pb_decode_tag_def)
  then show ?thesis using that by blast
qed

lemma returns_varint_loop: "returns 1 (\<lambda>_. True) (varint_loop result bitpos)"
proof -
  have "\<exists>r s'. varint_loop result bitpos s = Some (r, s') \<and> adv s s' \<and> (r \<noteq> None \<longrightarrow> bytes_left s' < bytes_left s)"
    if "lawful s" for s :: "'a pb_istream"
    using that
  proof (induction result bitpos s rule: varint_loop.induct)
    case (1 result bitpos s)
    show ?case
    proof (cases "bitpos \<ge> 64")
      case False
      from returns_readbyte 1(2) show ?thesis
      proof (cases rule: returnsD)
        case (failed s')
        then show ?thesis using False by (simp add: varint_loop.simps)
      next
        case (ok b s')
        have "\<exists>r t. varint_loop (result OR push_bit (unat bitpos) (ucast (b AND 0x7F))) (bitpos + 7) s' = Some (r, t) \<and>
            adv s' t" if "b AND 0x80 \<noteq> 0"
          using 1(1) [OF False ok(1) refl refl refl that lawful_adv [OF 1(2) ok(2)]] by blast
        moreover have "bytes_left t < bytes_left s" if "adv s' t" for t
          using adv_left [OF that] ok(4) by simp
        ultimately show ?thesis using False ok adv_trans [OF ok(2)]
          by (subst varint_loop.simps) (auto simp: Let_def)
      qed
    qed (simp add: varint_loop.simps PB_RETURN_ERROR_def)
  qed
  then show ?thesis by (intro returns_intro) fastforce
qed

lemma returns_varint: "returns 1 (\<lambda>_. True) pb_decode_varint"
  using returns_varint_loop by (simp add: pb_decode_varint_def)

lemma returns_svarint: "returns 1 (\<lambda>_. True) pb_decode_svarint"
  using returns_then [OF returns_varint returns_return, where P = "\<lambda>_. True"] by (simp add: pb_decode_svarint_def)

lemma returns_fixed32: "returns 4 (\<lambda>_. True) pb_decode_fixed32"
  using returns_then [OF returns_pb_read [of 4 False] returns_return, where P = "\<lambda>_. True"] by (simp add: pb_decode_fixed32_def)

lemma returns_fixed64: "returns 8 (\<lambda>_. True) pb_decode_fixed64"
  using returns_then [OF returns_pb_read [of 8 False] returns_return, where P = "\<lambda>_. True"] by (simp add: pb_decode_fixed64_def)

lemma returns_skip: "returns n (\<lambda>_. True) (pb_skip n)"
  using returns_then [OF returns_pb_read [of n True] returns_return, where P = "\<lambda>_. True"] by (simp add: pb_skip_def)

lemma returns_skip_string: "returns 0 (\<lambda>_. True) pb_skip_string"
  unfolding pb_skip_string_def
  by (rule returns_weaken [OF returns_then [OF returns_varint32]])
    (auto intro: returns_weaken [OF returns_skip])

lemma returns_skip_varint: "returns 0 (\<lambda>_. True) pb_skip_varint"
proof -
  have "\<exists>r s'. pb_skip_varint s = Some (r, s') \<and> adv s s'" if "lawful s" for s :: "'a pb_istream"
    using that
  proof (induction s rule: pb_skip_varint.induct)
    case (1 s)
    from returns_pb_read [of 1 False] 1(2) show ?case
    proof (cases rule: returnsD)
      case (failed s')
      then show ?thesis by (simp add: pb_skip_varint.simps)
    next
      case (ok xs s')
      then show ?thesis using 1(1) [OF ok(1) refl refl] lawful_adv [OF 1(2) ok(2)]
        by (subst pb_skip_varint.simps) (auto intro!: adv_ex [OF ok(2)])
    qed
  qed
  then show ?thesis using adv_left by (intro returns_intro) fastforce
qed

lemma returns_skip_field: "returns 0 (\<lambda>_. True) (pb_skip_field wt :: (unit, 's) pb_reader)"
proof -
  have "returns 0 (\<lambda>_. True) (pb_skip n :: (unit, 's) pb_reader)" for n
    by (rule returns_weaken [OF returns_skip]) simp_all
  then show ?thesis unfolding pb_skip_field_def by (auto simp: returns_skip_string returns_skip_varint)
qed

text \<open>A substream and what is left of its parent.\<close>

lemma make_substream_lawful:
  assumes s: "lawful s"
  obtains (failed) s' where "pb_make_string_substream s = Some (None, s')" and "adv s s'"
  | (ok) sub s' where "pb_make_string_substream s = Some (Some sub, s')" and "lawful sub"
      and "bytes_left sub + bytes_left s' < bytes_left s"
      and "\<And>t. adv sub t \<Longrightarrow> bytes_left t = 0 \<Longrightarrow> adv s (s'\<lparr>state := state t, errmsg := errmsg t\<rparr>)"
      and "adv s s'"
  using returns_varint32 s
proof (cases rule: returnsD)
  case failed
  then show ?thesis by (intro that(1)) (simp_all add: pb_make_string_substream_def pb_then_def)
next
  case (ok n s')
  note s' = lawful_adv [OF s ok(2)]
  show ?thesis
  proof (cases "bytes_left s' < unat n")
    case True
    then show ?thesis using ok by (intro that(1) [of "PB_SET_ERROR ''parent stream too short'' s'"])
        (simp_all add: pb_make_string_substream_def pb_then_def PB_RETURN_ERROR_def)
  next
    case False
    have a: "adv s (s'\<lparr>bytes_left := bytes_left s' - unat n, state := state t, errmsg := errmsg t\<rparr>)"
      if "adv (s'\<lparr>bytes_left := unat n\<rparr>) t" and "bytes_left t = 0" for t
      using that ok(2) False by (auto simp: adv_def split: pb_state.splits)
    have a': "adv s (s'\<lparr>bytes_left := bytes_left s' - unat n\<rparr>)"
      using ok(2) by (auto simp: adv_def split: pb_state.splits)
    show ?thesis
    proof (rule that(2))
      show "pb_make_string_substream s = Some (Some (s'\<lparr>bytes_left := unat n\<rparr>), s'\<lparr>bytes_left := bytes_left s' - unat n\<rparr>)"
        using ok False by (simp add: pb_make_string_substream_def pb_then_def)
      show "lawful (s'\<lparr>bytes_left := unat n\<rparr>)" using s' False by (auto simp: lawful_def split: pb_read_fn.splits)
    qed (use ok False a a' in auto)
  qed
qed

end
