(* ===== verification/PbFrame.thy ===== *)
theory PbFrame
  imports PbLaw
begin

text \<open>
  Memory accesses of nanopb within a set of cells, and decoders that return, advance the stream
  and change nothing outside such a set.
\<close>

section \<open>Cells\<close>

definition span :: "int \<Rightarrow> nat \<Rightarrow> int set" where
  "span a n = {a..<a + int n}"

definition backed :: "int set \<Rightarrow> pb_mem \<Rightarrow> bool" where
  "backed S M \<longleftrightarrow> (\<forall>x\<in>S. cells M x \<noteq> None)"

text \<open>Between \<open>M\<close> and \<open>M'\<close> only bytes of cells in \<open>S\<close> changed.\<close>

definition within :: "int set \<Rightarrow> pb_mem \<Rightarrow> pb_mem \<Rightarrow> bool" where
  "within S M M' \<longleftrightarrow> blocks M' = blocks M \<and> reallocs M' = reallocs M \<and>
     (\<forall>x. (cells M' x = None) = (cells M x = None)) \<and> (\<forall>x. x \<notin> S \<longrightarrow> cells M' x = cells M x)"

lemma within_refl [simp]: "within S M M"
  by (simp add: within_def)

lemma within_trans [trans]: "within S M M' \<Longrightarrow> within S M' M'' \<Longrightarrow> within S M M''"
  by (simp add: within_def)

lemma within_mono: "within S M M' \<Longrightarrow> S \<subseteq> T \<Longrightarrow> within T M M'"
  by (auto simp: within_def)

lemma backed_within: "within S M M' \<Longrightarrow> backed T M' = backed T M"
  by (simp add: backed_def within_def)

lemma backed_mono: "backed T M \<Longrightarrow> S \<subseteq> T \<Longrightarrow> backed S M"
  by (auto simp: backed_def)

lemma set_cells_out: "x \<notin> span a (length bs) \<Longrightarrow> set_cells a bs c x = c x"
  by (induction bs arbitrary: a c) (auto simp: span_def)

lemma set_cells_in: "x \<in> span a (length bs) \<Longrightarrow> set_cells a bs c x = Some (bs ! nat (x - a))"
proof (induction bs arbitrary: a c)
  case (Cons b bs)
  show ?case
  proof (cases "x = a")
    case True
    then show ?thesis by (simp add: set_cells_out span_def)
  next
    case False
    then have "x \<in> span (a + 1) (length bs)" using Cons(2) by (auto simp: span_def)
    moreover have "nat (x - a) = Suc (nat (x - (a + 1)))" using Cons(2) False by (auto simp: span_def)
    ultimately show ?thesis using Cons(1) by simp
  qed
qed (simp add: span_def)

text \<open>Operations that succeed on backed cells.\<close>

definition loads :: "int set \<Rightarrow> (pb_mem \<Rightarrow> 'a option) \<Rightarrow> bool" where
  "loads S g \<longleftrightarrow> (\<forall>M. backed S M \<longrightarrow> (\<exists>x. g M = Some x))"

definition stores :: "int set \<Rightarrow> (pb_mem \<Rightarrow> pb_mem option) \<Rightarrow> bool" where
  "stores S g \<longleftrightarrow> (\<forall>M. backed S M \<longrightarrow> (\<exists>M'. g M = Some M' \<and> within S M M'))"

lemma backed_span: "backed S M \<Longrightarrow> span a n \<subseteq> S \<Longrightarrow> i < n \<Longrightarrow> cells M (a + int i) \<noteq> None"
  by (auto simp: backed_def span_def subset_iff)

lemma loads_load: "span a n \<subseteq> S \<Longrightarrow> loads S (load a n)"
  using backed_span by (auto simp: loads_def load_def)

lemma loads_size: "span a 4 \<subseteq> S \<Longrightarrow> loads S (load_size a)"
  using loads_load [of a 4 S] by (fastforce simp: loads_def load_size_def)

lemma loads_ptr: "span a 8 \<subseteq> S \<Longrightarrow> loads S (load_ptr a)"
  using loads_load [of a 8 S] by (fastforce simp: loads_def load_ptr_def sizeof_pointer_def)

lemma stores_store: "span a (length bs) \<subseteq> S \<Longrightarrow> stores S (store a bs)"
proof -
  assume S: "span a (length bs) \<subseteq> S"
  have "within S M (M\<lparr>cells := set_cells a bs (cells M)\<rparr>)" if M: "backed S M" for M
  proof -
    have "(set_cells a bs (cells M) x = None) = (cells M x = None)" for x
      using M S by (cases "x \<in> span a (length bs)") (auto simp: set_cells_in set_cells_out backed_def)
    then show ?thesis using S by (auto simp: within_def intro!: set_cells_out)
  qed
  then show ?thesis using backed_span [OF _ S] by (auto simp: stores_def store_def)
qed

lemma length_le_bytes [simp]: "length (le_bytes n v) = n"
  by (simp add: le_bytes_def)

lemma stores_size: "span a 4 \<subseteq> S \<Longrightarrow> stores S (store_size a v)"
  unfolding store_size_def by (rule stores_store) simp

lemma stores_bool: "span a 1 \<subseteq> S \<Longrightarrow> stores S (store_bool a v)"
  unfolding store_bool_def by (rule stores_store) simp

lemma stores_Some [simp]: "stores S Some"
  by (simp add: stores_def)

lemma stores_bind:
  assumes "stores S g" and "stores S h"
  shows "stores S (\<lambda>M. Option.bind (g M) h)"
  unfolding stores_def
proof safe
  fix M assume M: "backed S M"
  obtain M1 where M1: "g M = Some M1" "within S M M1" using assms(1) M by (auto simp: stores_def)
  then have "backed S M1" using M backed_within by blast
  then obtain M2 where "h M1 = Some M2" "within S M1 M2" using assms(2) by (auto simp: stores_def)
  then show "\<exists>M'. Option.bind (g M) h = Some M' \<and> within S M M'"
    using M1 within_trans [OF M1(2)] by simp
qed

lemma stores_mono: "stores S g \<Longrightarrow> S \<subseteq> T \<Longrightarrow> stores T g"
  using backed_mono within_mono unfolding stores_def by meson

lemma loads_mono: "loads S g \<Longrightarrow> S \<subseteq> T \<Longrightarrow> loads T g"
  using backed_mono unfolding loads_def by meson

lemma span_sub: "a \<le> b \<Longrightarrow> b + int m \<le> a + int n \<Longrightarrow> span b m \<subseteq> span a n"
  by (auto simp: span_def)

lemma span_le: "m \<le> n \<Longrightarrow> span a m \<subseteq> span a n"
  by (auto simp: span_def)

section \<open>Safe decoders\<close>

text \<open>
  The stack frames of \<open>d\<close> nested calls are free. A decoder is safe if it returns, given a lawful
  stream of at most \<open>d\<close> bytes, and changes cells in \<open>S\<close> only; a successful one consumes \<open>k\<close>
  bytes at least.
\<close>

definition frames_free :: "nat \<Rightarrow> pb_mem \<Rightarrow> bool" where
  "frames_free d M \<longleftrightarrow> (\<forall>x. - 4 * int d \<le> x \<and> x < 0 \<longrightarrow> cells M x = None)"

lemma frames_within: "within S M M' \<Longrightarrow> frames_free d M' = frames_free d M"
  by (simp add: frames_free_def within_def)

definition safe :: "nat \<Rightarrow> nat \<Rightarrow> int set \<Rightarrow> 's pb_do \<Rightarrow> bool" where
  "safe d k S f \<longleftrightarrow> (\<forall>s M. lawful s \<and> bytes_left s \<le> d \<and> frames_free d M \<and> backed S M \<longrightarrow>
     (\<exists>ok s' M'. f s M = Some (ok, s', M') \<and> adv s s' \<and> within S M M' \<and>
        (ok \<longrightarrow> bytes_left s' + k \<le> bytes_left s)))"

lemma safeD:
  assumes "safe d k S f" and "lawful s" and "bytes_left s \<le> d" and "frames_free d M" and "backed S M"
  obtains ok s' M' where "f s M = Some (ok, s', M')" and "adv s s'" and "within S M M'"
    and "ok \<Longrightarrow> bytes_left s' + k \<le> bytes_left s"
  using assms unfolding safe_def by blast

lemma safeI:
  assumes "\<And>s M. lawful s \<Longrightarrow> bytes_left s \<le> d \<Longrightarrow> frames_free d M \<Longrightarrow> backed S M \<Longrightarrow>
    \<exists>ok s' M'. f s M = Some (ok, s', M') \<and> adv s s' \<and> within S M M' \<and>
      (ok \<longrightarrow> bytes_left s' + k \<le> bytes_left s)"
  shows "safe d k S f"
  using assms by (simp add: safe_def)

lemma safe_ok [simp]: "safe d 0 S pb_ok"
  by (auto simp: safe_def pb_ok_def)

lemma safe_fail [simp]: "safe d k S (pb_fail msg)"
  by (auto simp: safe_def pb_fail_def)

lemma safe_reading:
  assumes "returns j P m" and "\<And>x. P x \<Longrightarrow> safe d k S (f x)"
  shows "safe d (j + k) S (reading m f)"
proof (rule safeI)
  fix s :: "'b pb_istream" and M
  assume s: "lawful s" and d: "bytes_left s \<le> d" and M: "frames_free d M" "backed S M"
  from assms(1) s show "\<exists>ok s' M'. reading m f s M = Some (ok, s', M') \<and> adv s s' \<and> within S M M' \<and>
      (ok \<longrightarrow> bytes_left s' + (j + k) \<le> bytes_left s)"
  proof (cases rule: returnsD)
    case (failed s')
    then show ?thesis by (auto simp: reading_def)
  next
    case (ok x s')
    have "bytes_left s' \<le> d" using ok(2) d adv_left by fastforce
    from safeD [OF assms(2) [OF ok(3)] lawful_adv [OF s ok(2)] this M]
    obtain ok' s'' M' where "f x s' M = Some (ok', s'', M')" "adv s' s''" "within S M M'"
      "ok' \<Longrightarrow> bytes_left s'' + k \<le> bytes_left s'" by metis
    then show ?thesis using ok adv_trans [OF ok(2)] by (fastforce simp: reading_def)
  qed
qed

lemma safe_storing:
  assumes "stores S g" and "safe d k S f"
  shows "safe d k S (storing g f)"
proof (rule safeI)
  fix s :: "'a pb_istream" and M
  assume s: "lawful s" and d: "bytes_left s \<le> d" and M: "frames_free d M" "backed S M"
  obtain M1 where M1: "g M = Some M1" "within S M M1" using assms(1) M by (auto simp: stores_def)
  have "frames_free d M1" "backed S M1" using M M1(2) frames_within backed_within by blast+
  from safeD [OF assms(2) s d this]
  obtain ok s' M' where "f s M1 = Some (ok, s', M')" "adv s s'" "within S M1 M'"
    "ok \<Longrightarrow> bytes_left s' + k \<le> bytes_left s" by metis
  then show "\<exists>ok s' M'. storing g f s M = Some (ok, s', M') \<and> adv s s' \<and> within S M M' \<and>
      (ok \<longrightarrow> bytes_left s' + k \<le> bytes_left s)"
    using M1(1) within_trans [OF M1(2)] by (simp add: storing_def)
qed

lemma safe_loading:
  assumes "loads S g" and "\<And>x. safe d k S (f x)"
  shows "safe d k S (loading g f)"
proof (rule safeI)
  fix s :: "'b pb_istream" and M
  assume s: "lawful s" "bytes_left s \<le> d" and M: "frames_free d M" "backed S M"
  obtain x where "g M = Some x" using assms(1) M by (auto simp: loads_def)
  then show "\<exists>ok s' M'. loading g f s M = Some (ok, s', M') \<and> adv s s' \<and> within S M M' \<and>
      (ok \<longrightarrow> bytes_left s' + k \<le> bytes_left s)"
    using assms(2) [of x] s M by (simp add: loading_def safe_def)
qed

lemma safe_mono:
  assumes "safe d k S f" and "S \<subseteq> T" and "j \<le> k"
  shows "safe d j T f"
proof (rule safeI)
  fix s :: "'a pb_istream" and M
  assume s: "lawful s" and d: "bytes_left s \<le> d" and M: "frames_free d M" "backed T M"
  have "backed S M" using M assms(2) backed_mono by blast
  from safeD [OF assms(1) s d M(1) this] obtain ok s' M' where "f s M = Some (ok, s', M')" "adv s s'" "within S M M'"
    "ok \<Longrightarrow> bytes_left s' + k \<le> bytes_left s" by metis
  then show "\<exists>ok s' M'. f s M = Some (ok, s', M') \<and> adv s s' \<and> within T M M' \<and>
      (ok \<longrightarrow> bytes_left s' + j \<le> bytes_left s)"
    using within_mono [OF _ assms(2)] assms(3) by fastforce
qed


section \<open>The decoders of single values\<close>

definition packable :: "byte \<Rightarrow> bool" where "packable lt \<longleftrightarrow> lt \<le> PB_LTYPE_LAST_PACKABLE"

text \<open>The bytes a decoder of a static field may store.\<close>

definition value_size :: "pb_field \<Rightarrow> nat" where
  "value_size f = (if PB_LTYPE f = PB_LTYPE_BOOL then 1 else if PB_LTYPE f = PB_LTYPE_FIXED32 then 4
     else if PB_LTYPE f = PB_LTYPE_FIXED64 then 8 else unat (data_size f))"

lemma safe_store: "span a (length bs) \<subseteq> S \<Longrightarrow> safe d 0 S (storing (store a bs) pb_ok)"
  by (intro safe_storing stores_store safe_ok)

lemma safe_reading1:
  assumes "returns 1 P m" and "\<And>x. safe d 0 S (f x)"
  shows "safe d 1 S (reading m f)"
  using safe_reading [where j = 1 and k = 0, OF assms] by simp

lemma safe_dec_bool: "span dest 1 \<subseteq> S \<Longrightarrow> safe d 1 S (pb_dec_bool f dest)"
  unfolding pb_dec_bool_def by (intro safe_reading1 [OF returns_varint32] safe_storing stores_bool safe_ok)

lemma safe_dec_fixed32: "span dest 4 \<subseteq> S \<Longrightarrow> safe d 1 S (pb_dec_fixed32 f dest)"
  unfolding pb_dec_fixed32_def
  by (rule safe_mono [OF safe_reading [OF returns_fixed32, where k = 0]]) (auto intro: safe_store)

lemma safe_dec_fixed64: "span dest 8 \<subseteq> S \<Longrightarrow> safe d 1 S (pb_dec_fixed64 f dest)"
  unfolding pb_dec_fixed64_def
  by (rule safe_mono [OF safe_reading [OF returns_fixed64, where k = 0]]) (auto intro: safe_store)

lemma safe_dec_integer:
  assumes "returns 1 P m" and "span dest (unat (data_size f)) \<subseteq> S"
  shows "safe d 1 S (dec_integer m widen clamp f dest)"
  unfolding dec_integer_def Let_def
  using assms(2) by (intro safe_reading1 [OF assms(1)]) (auto intro!: safe_storing stores_store)

lemma safe_read_into: "span a n \<subseteq> S \<Longrightarrow> safe d 0 S (read_into a n)"
  unfolding read_into_def
  by (rule safe_mono [OF safe_reading [OF returns_pb_read, where k = 0]]) (auto intro: safe_store)

lemma unat_u32_u64 [simp]: "unat (ucast (n :: u32) :: u64) = unat n"
proof -
  have "unat n < 2 ^ 32" using unsigned_less [of n, where ?'a = nat] by simp
  then show ?thesis by (simp add: unsigned_ucast_eq take_bit_nat_eq_self_iff)
qed

lemma u64_add_4: "unat (ucast (n :: u32) + 4 :: u64) = unat n + 4"
proof -
  have "unat n < 2 ^ 32" using unsigned_less [of n, where ?'a = nat] by simp
  then show ?thesis by (simp add: unat_add_lem [THEN iffD1])
qed

lemma span_sub_nat: "k + m \<le> n \<Longrightarrow> span (a + int k) m \<subseteq> span a n"
  by (auto simp: span_def)

lemma safe_dec_bytes:
  assumes "PB_ATYPE f \<noteq> PB_ATYPE_POINTER" and "span dest (unat (data_size f)) \<subseteq> S"
  shows "safe d 1 S (pb_dec_bytes al f dest)"
proof -
  have fill: "safe d 0 S (storing (store_size dest n) (read_into (dest + 4) (unat n)))"
    if n: "\<not> (ucast n + 4 :: u64) > ucast (data_size f)" for n
  proof -
    have "unat n + 4 \<le> unat (data_size f)" using n by (simp add: word_less_nat_alt u64_add_4)
    then have "span dest 4 \<subseteq> span dest (unat (data_size f))"
        "span (dest + 4) (unat n) \<subseteq> span dest (unat (data_size f))" using span_sub_nat [of 4 "unat n" _ dest] by (simp_all add: span_le)
    then have "span dest 4 \<subseteq> S" "span (dest + 4) (unat n) \<subseteq> S" using assms(2) by blast+
    then show ?thesis by (intro safe_storing stores_size safe_read_into)
  qed
  show ?thesis
    unfolding pb_dec_bytes_def Let_def using assms(1) fill
    by (intro safe_reading1 [OF returns_varint32]) auto
qed

lemma fill_string_safe:
  assumes "span dest (n + 1) \<subseteq> S"
  shows "safe d 0 S (fill_string n dest)"
proof (rule safeI)
  fix s :: "'a pb_istream" and M
  assume s: "lawful s" "bytes_left s \<le> d" and M: "frames_free d M" "backed S M"
  have end_S: "span (dest + int n) (length [0 :: byte]) \<subseteq> S" using assms by (auto simp: span_def subset_iff)
  obtain M0 where M0: "store (dest + int n) [0] M = Some M0" "within S M M0"
    using stores_store [OF end_S, unfolded stores_def] M(2) by blast
  from returns_pb_read [of n False] s(1)
  show "\<exists>ok s' M'. fill_string n dest s M = Some (ok, s', M') \<and> adv s s' \<and> within S M M' \<and>
      (ok \<longrightarrow> bytes_left s' + 0 \<le> bytes_left s)"
  proof (cases rule: returnsD)
    case (failed s')
    then show ?thesis using M0 by (auto simp: fill_string_def)
  next
    case (ok bs s')
    have left: "bytes_left s' \<le> d" using adv_left [OF ok(2)] s(2) by simp
    have "span dest (length bs) \<subseteq> S" using assms ok by (auto simp: span_def subset_iff)
    then have "safe d 0 S (storing (store dest bs) (storing (store (dest + int n) [0]) pb_ok))"
      using end_S by (intro safe_storing stores_store safe_ok)
    from safeD [OF this lawful_adv [OF s(1) ok(2)] left M] obtain ok' s'' M' where
      "storing (store dest bs) (storing (store (dest + int n) [0]) pb_ok) s' M = Some (ok', s'', M')"
      "adv s' s''" "within S M M'" by metis
    then show ?thesis using ok(1) adv_trans [OF ok(2)] adv_left [of s s''] by (simp add: fill_string_def)
  qed
qed

lemma safe_dec_string:
  assumes "PB_ATYPE f \<noteq> PB_ATYPE_POINTER" and "span dest (unat (data_size f)) \<subseteq> S"
  shows "safe d 1 S (pb_dec_string al f dest)"
proof -
  have fill: "safe d 0 S (fill_string (unat n) dest)"
    if n: "\<not> (ucast (n + 1) :: u64) < ucast n" "\<not> (ucast (n + 1) :: u64) > ucast (data_size f)" for n :: u32
  proof -
    have "unat n \<le> unat (n + 1)" "unat (n + 1) \<le> unat (data_size f)"
      using n by (simp_all add: word_less_nat_alt)
    moreover have "unat (n + 1) = unat n + 1" if "n + 1 \<noteq> 0" using that unatSuc [of n] by (simp add: add.commute)
    moreover have "n + 1 \<noteq> 0" if "unat n \<le> unat (n + 1)" using that by (metis add.right_neutral
        add_left_cancel le_zero_eq unat_0 unat_eq_zero zero_neq_one add.commute word_zero_le)
    ultimately have "unat n + 1 \<le> unat (data_size f)" by simp
    then show ?thesis using assms(2) span_le by (intro fill_string_safe) blast
  qed
  show ?thesis
    unfolding pb_dec_string_def Let_def using assms(1) fill
    by (intro safe_reading1 [OF returns_varint32]) auto
qed

lemma safe_dec_fixed_length:
  assumes "span dest (unat (data_size f)) \<subseteq> S"
  shows "safe d 1 S (pb_dec_fixed_length_bytes f dest)"
  unfolding pb_dec_fixed_length_bytes_def using assms
  by (intro safe_reading1 [OF returns_varint32]) (auto intro!: safe_store safe_read_into)

end
