(* ===== verification/PbStatic.thy ===== *)
theory PbStatic
  imports PbFrame
begin

text \<open>
  Descriptors of messages with static fields only, laid out within their structures, and the
  iterator over them.
\<close>

section \<open>The positions of the iterator\<close>

function iters :: "pb_field_iter \<Rightarrow> pb_field_iter list" where
  "iters it = it # (if fst (pb_field_iter_next it) then iters (snd (pb_field_iter_next it)) else [])"
  by auto

termination
  by (relation "measure iter_left") (simp_all add: iter_next_left)

declare iters.simps [simp del]

definition positions :: "pb_fields \<Rightarrow> int \<Rightarrow> pb_field_iter list" where
  "positions fs dest = iters (snd (pb_field_iter_begin fs dest))"

lemma iters_self [simp]: "it \<in> set (iters it)"
  by (subst iters.simps) simp

lemma iters_next:
  "it \<in> set (iters it0) \<Longrightarrow> fst (pb_field_iter_next it) \<Longrightarrow> snd (pb_field_iter_next it) \<in> set (iters it0)"
proof (induction it0 rule: iters.induct)
  case (1 it0)
  show ?case
  proof (cases "it = it0")
    case True
    then show ?thesis using 1(3) by (subst iters.simps) simp
  next
    case False
    moreover have "fst (pb_field_iter_next it0)" "it \<in> set (iters (snd (pb_field_iter_next it0)))"
      using 1(2) False by (subst (asm) iters.simps, simp split: if_splits)+
    ultimately show ?thesis using 1 by (subst iters.simps) simp
  qed
qed

lemma iters_in:
  "it' \<in> set (iters it) \<Longrightarrow> it_start it' = it_start it \<and> dest_struct it' = dest_struct it"
proof (induction it rule: iters.induct)
  case (1 it)
  have "it_start (snd (pb_field_iter_next it)) = it_start it \<and> dest_struct (snd (pb_field_iter_next it)) = dest_struct it"
    if "fst (pb_field_iter_next it)"
    using that by (auto simp: pb_field_iter_next_def Let_def split: if_splits)
  then show ?case using 1 by (subst (asm) iters.simps) (auto split: if_splits)
qed

lemma begin_simps [simp]:
  "it_start (snd (pb_field_iter_begin fs dest)) = fs" "dest_struct (snd (pb_field_iter_begin fs dest)) = dest"
  "it_pos (snd (pb_field_iter_begin fs dest)) = 0"
  "fst (pb_field_iter_begin fs dest) \<longleftrightarrow> tag (field_at fs 0) \<noteq> 0"
  by (simp_all add: pb_field_iter_begin_def Let_def)

lemma next_cases:
  obtains (last) "\<not> fst (pb_field_iter_next it)" and "tag (cur it) = 0 \<and> snd (pb_field_iter_next it) = it \<or>
      snd (pb_field_iter_next it) = snd (pb_field_iter_begin (it_start it) (dest_struct it))"
  | (step) "fst (pb_field_iter_next it)" and "it_pos (snd (pb_field_iter_next it)) = it_pos it + 1"
      and "it_start (snd (pb_field_iter_next it)) = it_start it"
  by (cases "fst (pb_field_iter_next it)") (auto simp: pb_field_iter_next_def Let_def split: if_splits)

text \<open>The listed descriptors have field numbers of the wire format; none is a terminator.\<close>

definition proper :: "pb_fields \<Rightarrow> bool" where
  "proper fs \<longleftrightarrow> list_all (\<lambda>f. tag f \<noteq> 0 \<and> tag f < 0x20000000) fs"

lemma proper_tag: "proper fs \<Longrightarrow> tag (field_at fs i) = 0 \<longleftrightarrow> length fs \<le> i"
  by (auto simp: proper_def field_at_def PB_LAST_FIELD_def list_all_length)

lemma next_iff:
  "proper (it_start it) \<Longrightarrow> fst (pb_field_iter_next it) \<longleftrightarrow> it_pos it + 1 < length (it_start it)"
  using proper_tag [of "it_start it" "it_pos it"] proper_tag [of "it_start it" "it_pos it + 1"]
  by (auto simp: pb_field_iter_next_def Let_def cur_def)

section \<open>Searching\<close>

text \<open>A set of positions the iterator does not leave.\<close>

definition closed :: "pb_field_iter set \<Rightarrow> bool" where
  "closed Q \<longleftrightarrow> (\<forall>it\<in>Q. snd (pb_field_iter_next it) \<in> Q)"

lemma search_before:
  assumes "closed Q" and "it \<in> Q" and "proper (it_start it)" and "it_pos it < start" and "start < length (it_start it)"
  shows "\<exists>found it'. iter_search P start it = Some (found, it') \<and> it' \<in> Q \<and>
    (found \<longrightarrow> P (cur it'))"
  using assms
proof (induction "start - it_pos it" arbitrary: it rule: less_induct)
  case less
  let ?n = "snd (pb_field_iter_next it)"
  have n: "fst (pb_field_iter_next it)" using next_iff [OF less(4)] less(5,6) by simp
  then have p: "it_pos ?n = it_pos it + 1" "it_start ?n = it_start it" by (cases it rule: next_cases; simp)+
  have Q: "?n \<in> Q" using less(2,3) by (auto simp: closed_def)
  show ?case
  proof (cases "it_pos ?n = start")
    case True
    then show ?thesis using Q less(3) by (subst iter_search.simps) auto
  next
    case False
    then show ?thesis using less(1) [of ?n] less(2-6) p Q by (subst iter_search.simps) auto
  qed
qed

lemma search_from:
  assumes "closed Q" and "it \<in> Q" and "proper (it_start it)"
    and "it_pos it < length (it_start it) \<or> it_start it = [] \<and> it_pos it = 0" and "start \<le> it_pos it"
  shows "\<exists>found it'. iter_search P start it = Some (found, it') \<and> it' \<in> Q \<and>
    (found \<longrightarrow> P (cur it'))"
  using assms
proof (induction "iter_left it" arbitrary: it rule: less_induct)
  case less
  let ?n = "snd (pb_field_iter_next it)"
  have Q: "?n \<in> Q" using less(2,3) by (auto simp: closed_def)
  have last: ?case if "it_pos ?n = start"
    using that Q less(3) by (subst iter_search.simps) auto
  show ?case
  proof (cases it rule: next_cases)
    case step
    then show ?thesis using less(1) [OF iter_next_left, OF step(1)] less(2-6) Q next_iff [OF less(4)]
      by (subst iter_search.simps) auto
  next
    case wrap: last
    show ?thesis
    proof (cases "tag (cur it) = 0")
      case True
      then have "it_start it = [] \<and> it_pos it = 0" using less(4,5) proper_tag by (auto simp: cur_def)
      then show ?thesis using last wrap True less(6) by (auto simp: pb_field_iter_next_def)
    next
      case False
      then have n: "?n = snd (pb_field_iter_begin (it_start it) (dest_struct it))" using wrap by simp
      have l: "it_pos it < length (it_start it)" using less(5) False by (auto simp: cur_def field_at_def PB_LAST_FIELD_def)
      show ?thesis
      proof (cases "start = 0")
        case True
        then show ?thesis using last n by simp
      next
        case False
        then have "\<exists>found it'. iter_search P start ?n = Some (found, it') \<and> it' \<in> Q \<and>
            (found \<longrightarrow> P (cur it'))"
          using n less(2,4,6) l Q by (intro search_before) auto
        then show ?thesis using less(3) n False by (subst iter_search.simps) auto
      qed
    qed
  qed
qed


text \<open>The positions of a message are within its descriptors.\<close>

definition in_fields :: "pb_field_iter \<Rightarrow> bool" where
  "in_fields it \<longleftrightarrow> it_pos it < length (it_start it) \<or> it_start it = [] \<and> it_pos it = 0"

lemma iters_in_fields:
  "it \<in> set (iters it0) \<Longrightarrow> proper (it_start it0) \<Longrightarrow> in_fields it0 \<Longrightarrow> in_fields it"
proof (induction it0 rule: iters.induct)
  case (1 it0)
  have "in_fields (snd (pb_field_iter_next it0)) \<and> it_start (snd (pb_field_iter_next it0)) = it_start it0"
    if "fst (pb_field_iter_next it0)"
    using that next_iff [OF 1(3)] by (cases it0 rule: next_cases) (auto simp: in_fields_def)
  then show ?case using 1 by (subst (asm) (2) iters.simps) (auto split: if_splits)
qed

lemma positions_in_fields:
  "proper fs \<Longrightarrow> it \<in> set (positions fs dest) \<Longrightarrow> in_fields it \<and> it_start it = fs \<and> dest_struct it = dest"
  unfolding positions_def using iters_in_fields iters_in by (fastforce simp: in_fields_def)

text \<open>
  \<open>pb_decode_noinit\<close> changes \<open>pSize\<close> at fixed count arrays, to the address \<open>loc\<close> of its counter.
\<close>

definition reachable :: "int \<Rightarrow> pb_fields \<Rightarrow> int \<Rightarrow> pb_field_iter set" where
  "reachable loc fs dest = set (positions fs dest) \<union>
     (\<lambda>it. it\<lparr>pSize := loc\<rparr>) ` {it \<in> set (positions fs dest). PB_HTYPE (cur it) = PB_HTYPE_REPEATED}"

lemma next_position:
  assumes "proper fs" and "it \<in> set (positions fs dest)"
  shows "snd (pb_field_iter_next it) \<in> set (positions fs dest)"
proof (cases it rule: next_cases)
  case last
  then show ?thesis using positions_in_fields [OF assms] assms(2) by (auto simp: positions_def)
next
  case step
  then show ?thesis using assms(2) iters_next by (simp add: positions_def)
qed

lemma next_pSize:
  assumes "PB_HTYPE (cur it) = PB_HTYPE_REPEATED" and "tag (cur it) \<noteq> 0"
  shows "snd (pb_field_iter_next (it\<lparr>pSize := loc\<rparr>)) = snd (pb_field_iter_next it)"
  using assms by (simp add: pb_field_iter_next_def Let_def cur_def PB_HTYPE_ONEOF_def PB_HTYPE_REPEATED_def)

lemma closed_reachable:
  assumes "proper fs"
  shows "closed (reachable loc fs dest)"
proof -
  have "snd (pb_field_iter_next (it\<lparr>pSize := loc\<rparr>)) \<in> set (positions fs dest)"
    if it: "it \<in> set (positions fs dest)" and r: "PB_HTYPE (cur it) = PB_HTYPE_REPEATED" for it
  proof -
    have "tag (cur it) \<noteq> 0"
    proof
      assume "tag (cur it) = 0"
      then have "cur it = PB_LAST_FIELD"
        using positions_in_fields [OF assms it] proper_tag [OF assms] by (simp add: cur_def field_at_def)
      then show False using r by (simp add: PB_LAST_FIELD_def PB_HTYPE_def PB_HTYPE_REPEATED_def)
    qed
    then show ?thesis using next_pSize [OF r] next_position [OF assms it] by simp
  qed
  then show ?thesis using next_position [OF assms] by (auto simp: closed_def reachable_def)
qed

lemma reachable_in_fields: "proper fs \<Longrightarrow> it \<in> reachable loc fs dest \<Longrightarrow> in_fields it \<and> it_start it = fs"
  unfolding reachable_def using positions_in_fields [of fs _ dest] by (fastforce simp: in_fields_def)

lemma search_reachable:
  assumes "proper fs" and "it \<in> reachable loc fs dest"
  obtains found it' where "iter_search P (it_pos it) it = Some (found, it')" and "it' \<in> reachable loc fs dest"
    and "found \<Longrightarrow> P (cur it')"
  using search_from [OF closed_reachable [OF assms(1)] assms(2), of "it_pos it" P]
    reachable_in_fields [OF assms] assms(1) by (auto simp: in_fields_def)

end
