(* ===== verification/PbWf.thy ===== *)
theory PbWf
  imports PbStatic
begin

text \<open>
  Well-formed descriptors of messages with static fields, and what the initialisation and the
  release of such messages do.
\<close>

section \<open>Well-formed descriptors\<close>

text \<open>
  The field is static and no extension, and what it points to fits: a submessage of an earlier
  number, which fits in the entry, or a default value of the entry's size.
\<close>

definition static_ok :: "(nat \<Rightarrow> nat) \<Rightarrow> nat \<Rightarrow> pb_field \<Rightarrow> bool" where
  "static_ok sz k f \<longleftrightarrow> PB_ATYPE f = PB_ATYPE_STATIC \<and>
     (case ptr f of
        Submsg_ptr j \<Rightarrow> PB_LTYPE f = PB_LTYPE_SUBMESSAGE \<and> j < k \<and> sz j \<le> unat (data_size f)
      | Null_ptr \<Rightarrow> PB_LTYPE f \<noteq> PB_LTYPE_SUBMESSAGE
      | Default_ptr bs \<Rightarrow> PB_LTYPE f \<noteq> PB_LTYPE_SUBMESSAGE \<and> unat (data_size f) \<le> length bs) \<and>
     (PB_LTYPE f \<le> PB_LTYPE_SUBMESSAGE \<or> PB_LTYPE f = PB_LTYPE_FIXED_LENGTH_BYTES)"

text \<open>The room a field takes: the array, or the value and its default.\<close>

definition field_room :: "pb_field \<Rightarrow> nat" where
  "field_room f = (if PB_HTYPE f = PB_HTYPE_REPEATED then unat (data_size f) * unat (array_size f)
     else max (value_size f) (unat (data_size f)))"

definition array_ok :: "pb_field \<Rightarrow> bool" where
  "array_ok f \<longleftrightarrow> (PB_HTYPE f = PB_HTYPE_REPEATED \<longrightarrow>
     value_size f \<le> unat (data_size f) \<and> uint (data_size f) * uint (array_size f) < 2 ^ 32)"

text \<open>The cells at \<open>pSize\<close> a field uses.\<close>

definition size_room :: "pb_field_iter \<Rightarrow> nat" where
  "size_room it = (
     if PB_HTYPE (cur it) = PB_HTYPE_REPEATED \<or> PB_HTYPE (cur it) = PB_HTYPE_ONEOF then 4
     else if PB_HTYPE (cur it) = PB_HTYPE_OPTIONAL \<and> pSize it \<noteq> pData it then 1
     else 0)"

definition inside :: "int \<Rightarrow> nat \<Rightarrow> int \<Rightarrow> nat \<Rightarrow> bool" where
  "inside a n b m \<longleftrightarrow> b \<le> a \<and> a + int n \<le> b + int m"

definition field_fits :: "(nat \<Rightarrow> nat) \<Rightarrow> nat \<Rightarrow> int \<Rightarrow> pb_field_iter \<Rightarrow> bool" where
  "field_fits sz k base it \<longleftrightarrow> static_ok sz k (cur it) \<and> array_ok (cur it) \<and>
     inside (pData it) (field_room (cur it)) base (sz k) \<and>
     (size_room it = 0 \<or> inside (pSize it) (size_room it) base (sz k))"

text \<open>
  The descriptors of message \<open>k\<close>, whose structure has \<open>sz k\<close> bytes. Without fields the
  terminator counts as a field, and the structure has a byte for it.
\<close>

definition wf_message :: "pb_env \<Rightarrow> (nat \<Rightarrow> nat) \<Rightarrow> nat \<Rightarrow> bool" where
  "wf_message env sz k \<longleftrightarrow> proper (env k) \<and> list_all (field_fits sz k 0) (positions (env k) 0)"

definition wf_messages :: "pb_env \<Rightarrow> (nat \<Rightarrow> nat) \<Rightarrow> nat \<Rightarrow> bool" where
  "wf_messages env sz n \<longleftrightarrow> list_all (wf_message env sz) [0..<n]"

subsection \<open>Anywhere in memory\<close>

definition shift :: "int \<Rightarrow> pb_field_iter \<Rightarrow> pb_field_iter" where
  "shift d it = it\<lparr>dest_struct := dest_struct it + d, pData := pData it + d, pSize := pSize it + d\<rparr>"

lemma shift_simps [simp]:
  "cur (shift d it) = cur it" "it_pos (shift d it) = it_pos it" "it_start (shift d it) = it_start it"
  "pData (shift d it) = pData it + d" "pSize (shift d it) = pSize it + d"
  by (simp_all add: shift_def cur_def)

lemma begin_shift: "snd (pb_field_iter_begin fs (a + d)) = shift d (snd (pb_field_iter_begin fs a))"
  by (simp add: pb_field_iter_begin_def Let_def shift_def)

lemma next_shift:
  "fst (pb_field_iter_next (shift d it)) = fst (pb_field_iter_next it)"
  "snd (pb_field_iter_next (shift d it)) = shift d (snd (pb_field_iter_next it))"
  using begin_shift [of "it_start it" "dest_struct it" d]
  by (simp_all add: pb_field_iter_next_def Let_def shift_def cur_def)

lemma iters_shift: "iters (shift d it) = map (shift d) (iters it)"
proof (induction it rule: iters.induct)
  case (1 it)
  then show ?case
    by (subst (1 2) iters.simps) (simp add: next_shift)
qed

lemma fits_shift: "field_fits sz k a it \<Longrightarrow> field_fits sz k (a + d) (shift d it)"
  by (auto simp: field_fits_def inside_def size_room_def split: if_splits)

lemma wf_position:
  assumes "wf_message env sz k" and "it \<in> set (positions (env k) dest)"
  shows "field_fits sz k dest it"
proof -
  have "positions (env k) dest = map (shift dest) (positions (env k) 0)"
    using begin_shift [of "env k" 0 dest] by (simp add: positions_def iters_shift)
  then show ?thesis using assms fits_shift [of sz k 0 _ dest] by (auto simp: wf_message_def list_all_iff)
qed

section \<open>Fields in memory\<close>

text \<open>The field at the iterator may be accessed in \<open>S\<close>.\<close>

definition placed :: "(nat \<Rightarrow> nat) \<Rightarrow> nat \<Rightarrow> int set \<Rightarrow> pb_field_iter \<Rightarrow> bool" where
  "placed sz k S it \<longleftrightarrow> static_ok sz k (cur it) \<and> array_ok (cur it) \<and>
     span (pData it) (field_room (cur it)) \<subseteq> S \<and> span (pSize it) (size_room it) \<subseteq> S"

lemma span_inside: "n = 0 \<or> inside a n b m \<Longrightarrow> span a n \<subseteq> span b m"
  by (auto simp: inside_def span_def)

lemma fits_placed: "field_fits sz k dest it \<Longrightarrow> placed sz k (span dest (sz k)) it"
  by (simp add: field_fits_def placed_def span_inside)

lemma placed_mono: "placed sz k S it \<Longrightarrow> S \<subseteq> T \<Longrightarrow> placed sz k T it"
  by (auto simp: placed_def)

lemma htype_distinct [simp]:
  "PB_HTYPE_OPTIONAL \<noteq> PB_HTYPE_REQUIRED" "PB_HTYPE_REPEATED \<noteq> PB_HTYPE_REQUIRED"
  "PB_HTYPE_ONEOF \<noteq> PB_HTYPE_REQUIRED" "PB_HTYPE_REPEATED \<noteq> PB_HTYPE_OPTIONAL"
  "PB_HTYPE_ONEOF \<noteq> PB_HTYPE_OPTIONAL" "PB_HTYPE_ONEOF \<noteq> PB_HTYPE_REPEATED"
  by (simp_all add: PB_HTYPE_REQUIRED_def PB_HTYPE_OPTIONAL_def PB_HTYPE_REPEATED_def PB_HTYPE_ONEOF_def)

lemmas htype_distinct' [simp] = htype_distinct [symmetric]

lemma static_ok_simps:
  assumes "static_ok sz k f"
  shows "PB_ATYPE f = PB_ATYPE_STATIC" "PB_LTYPE f \<noteq> PB_LTYPE_EXTENSION"
    "PB_LTYPE f = PB_LTYPE_SUBMESSAGE \<Longrightarrow> \<exists>j. ptr f = Submsg_ptr j \<and> j < k \<and> sz j \<le> unat (data_size f)"
    "PB_LTYPE f \<noteq> PB_LTYPE_SUBMESSAGE \<Longrightarrow> span a (unat (data_size f)) \<subseteq> S \<Longrightarrow> stores S (default_value f a)"
proof -
  show "PB_LTYPE f = PB_LTYPE_SUBMESSAGE \<Longrightarrow> \<exists>j. ptr f = Submsg_ptr j \<and> j < k \<and> sz j \<le> unat (data_size f)"
    using assms by (auto simp: static_ok_def split: pb_ptr.splits)
  show "stores S (default_value f a)" if "PB_LTYPE f \<noteq> PB_LTYPE_SUBMESSAGE" "span a (unat (data_size f)) \<subseteq> S"
  proof (cases "ptr f")
    case (Default_ptr bs)
    then have "default_value f a = store a (take (unat (data_size f)) bs)" "unat (data_size f) \<le> length bs"
      using assms that by (auto simp: static_ok_def default_value_def)
    then show ?thesis using stores_store [of a "take (unat (data_size f)) bs" S] that by simp
  next
    case Null_ptr
    then have "default_value f a = store a (replicate (unat (data_size f)) 0)" by (auto simp: default_value_def)
    then show ?thesis using stores_store [of a "replicate (unat (data_size f)) 0" S] that by simp
  next
    case (Submsg_ptr j)
    then show ?thesis using assms that by (auto simp: static_ok_def)
  qed
qed (use assms in \<open>auto simp: static_ok_def PB_LTYPE_SUBMESSAGE_def PB_LTYPE_EXTENSION_def
    PB_LTYPE_FIXED_LENGTH_BYTES_def\<close>)


lemma placed_spans:
  assumes "placed sz k S it"
  shows "PB_HTYPE (cur it) = PB_HTYPE_REPEATED \<or> PB_HTYPE (cur it) = PB_HTYPE_ONEOF \<Longrightarrow> span (pSize it) 4 \<subseteq> S"
    "PB_HTYPE (cur it) = PB_HTYPE_OPTIONAL \<Longrightarrow> pSize it \<noteq> pData it \<Longrightarrow> span (pSize it) 1 \<subseteq> S"
    "PB_HTYPE (cur it) \<noteq> PB_HTYPE_REPEATED \<Longrightarrow> span (pData it) (unat (data_size (cur it))) \<subseteq> S"
    "PB_HTYPE (cur it) \<noteq> PB_HTYPE_REPEATED \<Longrightarrow> span (pData it) (value_size (cur it)) \<subseteq> S"
  using assms span_le [of "unat (data_size (cur it))" "field_room (cur it)"] span_le [of "value_size (cur it)" "field_room (cur it)"]
  by (fastforce simp: placed_def size_room_def field_room_def split: if_splits)+

lemma field_default_within:
  assumes "placed sz k S it" and "backed S M"
  shows "\<exists>enter M'. pb_field_set_to_default it M = Some (enter, M') \<and> within S M M' \<and>
    (enter \<longrightarrow> PB_LTYPE (cur it) = PB_LTYPE_SUBMESSAGE \<and> PB_HTYPE (cur it) \<noteq> PB_HTYPE_REPEATED)"
proof -
  let ?f = "cur it"
  have ok: "static_ok sz k ?f" using assms(1) by (simp add: placed_def)
  note f = static_ok_simps [OF ok] and sp = placed_spans [OF assms(1)]
  show ?thesis
  proof (cases "PB_HTYPE ?f = PB_HTYPE_REPEATED \<or> PB_HTYPE ?f = PB_HTYPE_ONEOF")
    case True
    then obtain M' where "store_size (pSize it) 0 M = Some M'" "within S M M'"
      using stores_size [OF sp(1)] assms(2) by (auto simp: stores_def)
    then show ?thesis using True f(1,2) by (auto simp: pb_field_set_to_default_def)
  next
    case False
    let ?opt = "PB_HTYPE ?f = PB_HTYPE_OPTIONAL \<and> pSize it \<noteq> pData it"
    have "stores S (\<lambda>M. if ?opt then store_bool (pSize it) False M else Some M)"
      using stores_bool [OF sp(2)] by (cases ?opt) (auto simp: stores_def)
    then obtain M1 where M1: "(if ?opt then store_bool (pSize it) False M else Some M) = Some M1" "within S M M1"
      using assms(2) unfolding stores_def by blast
    show ?thesis
    proof (cases "PB_LTYPE ?f = PB_LTYPE_SUBMESSAGE")
      case True
      then show ?thesis using M1 False f(1,2) by (auto simp: pb_field_set_to_default_def Let_def)
    next
      case l: False
      then obtain M2 where M2: "default_value ?f (pData it) M1 = Some M2" "within S M1 M2"
        using f(4) [OF l sp(3)] False assms(2) backed_within [OF M1(2)] unfolding stores_def by blast
      then show ?thesis using M1 False l f(1,2) within_trans [OF M1(2) M2(2)]
        by (auto simp: pb_field_set_to_default_def Let_def)
    qed
  qed
qed

section \<open>Initialisation\<close>

text \<open>Each message up to number \<open>n\<close> is well formed.\<close>

lemma wf_messagesD: "wf_messages env sz n \<Longrightarrow> k < n \<Longrightarrow> wf_message env sz k"
  by (simp add: wf_messages_def list_all_iff)

lemma positions_placed:
  "wf_messages env sz n \<Longrightarrow> k < n \<Longrightarrow> it \<in> set (positions (env k) dest) \<Longrightarrow> placed sz k (span dest (sz k)) it"
  using wf_position fits_placed wf_messagesD by blast

lemma positions_begin [simp]: "snd (pb_field_iter_begin fs dest) \<in> set (positions fs dest)"
  by (simp add: positions_def)

lemma positions_next:
  "it \<in> set (positions fs dest) \<Longrightarrow> fst (pb_field_iter_next it) \<Longrightarrow> snd (pb_field_iter_next it) \<in> set (positions fs dest)"
  unfolding positions_def by (rule iters_next)

lemma set_defaults_within:
  assumes "wf_messages env sz n" and "k < n" and "it \<in> set (positions (env k) dest)"
  shows "stores (span dest (sz k)) (set_defaults_from env it)"
  using assms(2,3)
proof (induction k arbitrary: dest it rule: less_induct)
  case outer: (less k)
  show ?case
    using outer(3)
  proof (induction "iter_left it" arbitrary: it rule: less_induct)
    case (less it)
    let ?S = "span dest (sz k)" and ?f = "cur it" and ?n = "pb_field_iter_next it"
    have p: "placed sz k ?S it" by (rule positions_placed [OF assms(1) outer(2) less(2)])
    then have ok: "static_ok sz k ?f" by (simp add: placed_def)
    have sub: "stores ?S (\<lambda>M. Option.bind (submsg_fields (ptr ?f)) (\<lambda>j.
          if fst (pb_field_iter_begin (env j) (pData it))
          then set_defaults_from env (snd (pb_field_iter_begin (env j) (pData it))) M else Some M))"
      if l: "PB_LTYPE ?f = PB_LTYPE_SUBMESSAGE" "PB_HTYPE ?f \<noteq> PB_HTYPE_REPEATED"
    proof -
      obtain j where j: "ptr ?f = Submsg_ptr j" "j < k" "sz j \<le> unat (data_size ?f)"
        using static_ok_simps(3) [OF ok l(1)] by blast
      have "stores (span (pData it) (sz j)) (set_defaults_from env (snd (pb_field_iter_begin (env j) (pData it))))"
        using outer(1) [OF j(2)] j(2) outer(2) by simp
      then have "stores ?S (set_defaults_from env (snd (pb_field_iter_begin (env j) (pData it))))"
        using placed_spans(3) [OF p l(2)] span_le [OF j(3)] by (blast intro: stores_mono)
      then show ?thesis using j(1) by (simp add: stores_def)
    qed
    have rest: "stores ?S (\<lambda>M. if fst ?n then set_defaults_from env (snd ?n) M else Some M)"
      using less(1) [OF iter_next_left positions_next [OF less(2)]] by (cases "fst ?n") simp_all
    show ?case
      unfolding stores_def
    proof safe
      fix M assume M: "backed ?S M"
      obtain enter M1 where M1: "pb_field_set_to_default it M = Some (enter, M1)" "within ?S M M1"
          "enter \<Longrightarrow> PB_LTYPE ?f = PB_LTYPE_SUBMESSAGE \<and> PB_HTYPE ?f \<noteq> PB_HTYPE_REPEATED"
        using field_default_within [OF p M] by blast
      have b1: "backed ?S M1" using M backed_within [OF M1(2)] by simp
      obtain M2 where M2: "(if enter then Option.bind (submsg_fields (ptr ?f)) (\<lambda>j.
          if fst (pb_field_iter_begin (env j) (pData it))
          then set_defaults_from env (snd (pb_field_iter_begin (env j) (pData it))) M1 else Some M1)
          else Some M1) = Some M2" "within ?S M1 M2"
        using sub M1(3) b1 unfolding stores_def by (cases enter) auto
      have "backed ?S M2" using b1 backed_within [OF M2(2)] by simp
      then obtain M3 where M3: "(if fst ?n then set_defaults_from env (snd ?n) M2 else Some M2) = Some M3"
          "within ?S M2 M3" using rest unfolding stores_def by blast
      have "set_defaults_from env it M = Some M3"
        by (subst set_defaults_from.simps) (use M1(1) M2(1) M3(1) in simp)
      then show "\<exists>M'. set_defaults_from env it M = Some M' \<and> within ?S M M'"
        using M1(2) M2(2) M3(2) within_trans by blast
    qed
  qed
qed

lemma message_defaults_within:
  assumes "wf_messages env sz n" and "k < n"
  shows "stores (span dest (sz k)) (pb_message_set_to_defaults env k dest)"
proof -
  obtain b it where "pb_field_iter_begin (env k) dest = (b, it)" by fastforce
  then show ?thesis using set_defaults_within [OF assms, of it dest] positions_begin [of "env k" dest]
    by (cases b) (simp_all add: stores_def pb_message_set_to_defaults_def)
qed

lemma clear_submessage_within:
  assumes "wf_messages env sz n" and "j < n" and "ptr f = Submsg_ptr j" and "sz j \<le> unat (data_size f)"
    and "span a (unat (data_size f)) \<subseteq> S"
  shows "stores S (clear_submessage env f a)"
proof -
  have "stores S (store a (replicate (unat (data_size f)) 0))" using assms(5) by (intro stores_store) simp
  moreover have "stores S (pb_message_set_to_defaults env j a)"
    using message_defaults_within [OF assms(1,2)] span_le [OF assms(4)] assms(5) by (blast intro: stores_mono)
  ultimately show ?thesis using stores_bind assms(3) by (simp add: clear_submessage_def [abs_def])
qed

section \<open>Release\<close>

text \<open>There is nothing to release in a message with static fields.\<close>

definition keeps :: "int set \<Rightarrow> (pb_mem \<Rightarrow> pb_mem option) \<Rightarrow> bool" where
  "keeps S g \<longleftrightarrow> (\<forall>M. backed S M \<longrightarrow> g M = Some M)"

lemma keeps_mono: "keeps S g \<Longrightarrow> S \<subseteq> T \<Longrightarrow> keeps T g"
  using backed_mono unfolding keeps_def by blast

lemma release_items_keep:
  assumes "\<And>a. span a (sz j) \<subseteq> span item (m * step) \<Longrightarrow>
      keeps (span a (sz j)) (\<lambda>M. if fst (pb_field_iter_begin (env j) a)
        then release_run env (Rel_message (snd (pb_field_iter_begin (env j) a))) M else Some M)"
    and "sz j \<le> step"
  shows "keeps (span item (m * step)) (release_run env (Rel_items j item step m))"
  using assms
proof (induction m arbitrary: item)
  case 0
  show ?case unfolding keeps_def by (subst release_run.simps) simp
next
  case (Suc m)
  have s1: "span item (sz j) \<subseteq> span item (Suc m * step)" using Suc(3) by (intro span_le) simp
  have s2: "span (item + int step) (m * step) \<subseteq> span item (Suc m * step)" by (intro span_sub_nat) simp
  have "keeps (span (item + int step) (m * step)) (release_run env (Rel_items j (item + int step) step m))"
    using Suc(2,3) s2 by (intro Suc(1)) auto
  moreover have "keeps (span item (sz j)) (\<lambda>M. if fst (pb_field_iter_begin (env j) item)
      then release_run env (Rel_message (snd (pb_field_iter_begin (env j) item))) M else Some M)"
    by (rule Suc(2) [OF s1])
  ultimately show ?case unfolding keeps_def
    by (subst release_run.simps) (use backed_mono s1 s2 in auto)
qed


text \<open>The submessages of a field, as many as there are entries at most.\<close>

lemma release_items_static:
  assumes p: "placed sz k S it" and M: "backed S M" and l: "PB_LTYPE (cur it) = PB_LTYPE_SUBMESSAGE"
  shows "\<exists>m. release_items it M = Some (pData it, m) \<and> span (pData it) (m * unat (data_size (cur it))) \<subseteq> S"
proof -
  let ?f = "cur it"
  have st: "PB_ATYPE ?f = PB_ATYPE_STATIC" using p static_ok_simps(1) by (auto simp: placed_def)
  have a: "PB_ATYPE_STATIC \<noteq> PB_ATYPE_POINTER" "PB_ATYPE_STATIC \<noteq> PB_ATYPE_CALLBACK"
    by (simp_all add: PB_ATYPE_STATIC_def PB_ATYPE_POINTER_def PB_ATYPE_CALLBACK_def)
  show ?thesis
  proof (cases "PB_HTYPE ?f = PB_HTYPE_REPEATED")
    case False
    then show ?thesis using placed_spans(3) [OF p] st a l
      by (auto simp: release_items_def Let_def span_def)
  next
    case True
    have room: "span (pData it) (m * unat (data_size ?f)) \<subseteq> S" if "m \<le> unat (array_size ?f)" for m
    proof -
      have "m * unat (data_size ?f) \<le> field_room ?f" using that True by (simp add: field_room_def)
      then have "span (pData it) (m * unat (data_size ?f)) \<subseteq> span (pData it) (field_room ?f)" by (rule span_le)
      then show ?thesis using p by (auto simp: placed_def)
    qed
    obtain c where c: "load_size (pSize it) M = Some c"
      using loads_size [OF placed_spans(1) [OF p]] True M by (auto simp: loads_def)
    define m where "m = (if pSize it = pData it \<or> c > array_size ?f then unat (array_size ?f) else unat c)"
    have "m \<le> unat (array_size ?f)" by (simp add: m_def word_less_nat_alt)
    then have "release_items it M = Some (pData it, if pData it = 0 then 0 else m) \<and>
        span (pData it) ((if pData it = 0 then 0 else m) * unat (data_size ?f)) \<subseteq> S"
      using True st a l c room [of m] room [of 0] by (auto simp: release_items_def Let_def m_def)
    then show ?thesis by blast
  qed
qed

lemma release_items_other:
  "PB_LTYPE (cur it) \<noteq> PB_LTYPE_SUBMESSAGE \<Longrightarrow> release_items it M = Some (0, 0)"
  by (simp add: release_items_def Let_def)

lemma release_field_keep:
  assumes p: "placed sz k S it"
    and sub: "\<And>j a. j < k \<Longrightarrow> keeps (span a (sz j)) (\<lambda>M. if fst (pb_field_iter_begin (env j) a)
        then release_run env (Rel_message (snd (pb_field_iter_begin (env j) a))) M else Some M)"
  shows "keeps S (release_run env (Rel_field it))"
  unfolding keeps_def
proof safe
  fix M assume M: "backed S M"
  let ?f = "cur it"
  have ok: "static_ok sz k ?f" using p by (simp add: placed_def)
  note f = static_ok_simps [OF ok]
  obtain skip where skip: "not_current it M = Some skip"
    using loads_size [OF placed_spans(1) [OF p]] M
    by (cases "PB_HTYPE ?f = PB_HTYPE_ONEOF") (auto simp: not_current_def loads_def)
  have pt: "release_pointer it M = Some M"
    using f(1) by (simp add: release_pointer_def Let_def PB_ATYPE_STATIC_def PB_ATYPE_POINTER_def)
  have "\<exists>item m. release_items it M = Some (item, m) \<and> (m = 0 \<or> (\<exists>j. submsg_fields (ptr ?f) = Some j \<and>
      release_run env (Rel_items j item (unat (data_size ?f)) m) M = Some M))"
  proof (cases "PB_LTYPE ?f = PB_LTYPE_SUBMESSAGE")
    case True
    obtain m where m: "release_items it M = Some (pData it, m)" "span (pData it) (m * unat (data_size ?f)) \<subseteq> S"
      using release_items_static [OF p M True] by blast
    obtain j where j: "ptr ?f = Submsg_ptr j" "j < k" "sz j \<le> unat (data_size ?f)" using f(3) [OF True] by blast
    have "keeps (span (pData it) (m * unat (data_size ?f))) (release_run env (Rel_items j (pData it) (unat (data_size ?f)) m))"
      by (rule release_items_keep [where sz = sz, OF sub [OF j(2)] j(3)])
    then show ?thesis using m j(1) M backed_mono by (auto simp: keeps_def)
  qed (simp add: release_items_other)
  then obtain item m where m: "release_items it M = Some (item, m)"
    "m = 0 \<or> (\<exists>j. submsg_fields (ptr ?f) = Some j \<and> release_run env (Rel_items j item (unat (data_size ?f)) m) M = Some M)"
    by blast
  then show "release_run env (Rel_field it) M = Some M"
    by (subst release_run.simps) (use skip pt f(2) in auto)
qed

lemma release_message_keep:
  assumes "wf_messages env sz n" and "k < n" and "it \<in> set (positions (env k) dest)"
  shows "keeps (span dest (sz k)) (release_run env (Rel_message it))"
  using assms(2,3)
proof (induction k arbitrary: dest it rule: less_induct)
  case outer: (less k)
  have sub: "keeps (span a (sz j)) (\<lambda>M. if fst (pb_field_iter_begin (env j) a)
        then release_run env (Rel_message (snd (pb_field_iter_begin (env j) a))) M else Some M)"
    if "j < k" for j a
    using outer(1) [OF that, of _ a] that outer(2) by (simp add: keeps_def)
  show ?case
    using outer(3)
  proof (induction "iter_left it" arbitrary: it rule: less_induct)
    case (less it)
    have "keeps (span dest (sz k)) (release_run env (Rel_field it))"
      by (rule release_field_keep [OF positions_placed [OF assms(1) outer(2) less(2)] sub])
    moreover have "keeps (span dest (sz k)) (release_run env (Rel_message (snd (pb_field_iter_next it))))"
      if "fst (pb_field_iter_next it)"
      by (rule less(1) [OF iter_next_left [OF that] positions_next [OF less(2) that]])
    ultimately show ?case unfolding keeps_def
      by (subst release_run.simps) auto
  qed
qed

lemma pb_release_static:
  "wf_messages env sz n \<Longrightarrow> k < n \<Longrightarrow> backed (span dest (sz k)) M \<Longrightarrow> pb_release env k dest M = Some M"
  using release_message_keep [of env sz n k _ dest] by (auto simp: pb_release_def keeps_def)

lemma release_single_static:
  assumes "wf_messages env sz n" and "k < n" and "placed sz k S it" and "backed S M"
  shows "pb_release_single_field env it M = Some M"
proof -
  have "keeps S (release_run env (Rel_field it))"
  proof (rule release_field_keep [OF assms(3)])
    fix j a assume j: "j < k"
    show "keeps (span a (sz j)) (\<lambda>M. if fst (pb_field_iter_begin (env j) a)
        then release_run env (Rel_message (snd (pb_field_iter_begin (env j) a))) M else Some M)"
      using release_message_keep [OF assms(1), of j "snd (pb_field_iter_begin (env j) a)" a] j assms(2)
      by (simp add: keeps_def)
  qed
  then show ?thesis using assms(4) by (simp add: pb_release_single_field_def keeps_def)
qed

end
