(* ===== verification/PbSafe.thy ===== *)
theory PbSafe
  imports PbWf
begin

text \<open>
  Decoding of messages with static fields returns on every lawful stream and changes nothing
  but the structure of the message.
\<close>

section \<open>Decoders of fields\<close>

text \<open>The decoder of nested messages, for streams of fewer than \<open>d\<close> bytes.\<close>

definition sub_safe :: "(nat \<Rightarrow> nat) \<Rightarrow> nat \<Rightarrow> nat \<Rightarrow> 's pb_sub \<Rightarrow> bool" where
  "sub_safe sz n d sub \<longleftrightarrow> (\<forall>init j dest s M. j < n \<and> lawful s \<and> bytes_left s < d \<and> frames_free d M \<and>
     backed (span dest (sz j)) M \<longrightarrow>
     (\<exists>ok s' M'. sub init j dest s M = Some (ok, s', M') \<and> adv s s' \<and> within (span dest (sz j)) M M'))"

lemma close_lawful:
  assumes "lawful t" and "adv sub t"
    and "\<And>t. adv sub t \<Longrightarrow> bytes_left t = 0 \<Longrightarrow> adv s (s'\<lparr>state := state t, errmsg := errmsg t\<rparr>)"
    and "adv s s'"
  obtains closed s'' t' where "pb_close_string_substream s' t = Some (closed, s'', t')" and "adv s s''"
    and "bytes_left s'' = bytes_left s'"
proof (cases "bytes_left t = 0")
  case True
  then show ?thesis using that assms by (simp add: pb_close_string_substream_def)
next
  case False
  from returns_skip assms(1) show ?thesis
  proof (cases rule: returnsD [where m = "pb_skip (bytes_left t)"])
    case (failed t')
    then show ?thesis using that [of False s' t'] assms(4) False by (simp add: pb_close_string_substream_def)
  next
    case (ok x t')
    then have "adv s (s'\<lparr>state := state t', errmsg := errmsg t'\<rparr>)"
      using assms(3) adv_trans [OF assms(2)] by simp
    then show ?thesis using that ok False by (simp add: pb_close_string_substream_def)
  qed
qed

lemma safe_substream:
  assumes "\<And>sub M. lawful sub \<Longrightarrow> bytes_left sub < d \<Longrightarrow> frames_free d M \<Longrightarrow> backed S M \<Longrightarrow>
    \<exists>status t M'. g sub M = Some (status, t, M') \<and> adv sub t \<and> within S M M'"
  shows "safe d 1 S (reading pb_make_string_substream (\<lambda>substream s M. do {
      (status, substream, M) \<leftarrow> g substream M;
      if check substream then pb_fail msg s M
      else do {
        (closed, s, _) \<leftarrow> pb_close_string_substream s substream;
        Some (closed \<and> status, s, M)
      }
    }))" (is "safe d 1 S ?f")
proof (rule safeI)
  fix s :: "'a pb_istream" and M
  assume s: "lawful s" and d: "bytes_left s \<le> d" and M: "frames_free d M" "backed S M"
  show "\<exists>ok s' M'. ?f s M = Some (ok, s', M') \<and> adv s s' \<and> within S M M' \<and> (ok \<longrightarrow> bytes_left s' + 1 \<le> bytes_left s)"
    using s
  proof (cases rule: make_substream_lawful)
    case (failed s')
    then show ?thesis by (auto simp: reading_def)
  next
    case (ok sub s')
    have "bytes_left sub < d" using ok(3) d by simp
    from assms [OF ok(2) this M] obtain status t M' where g: "g sub M = Some (status, t, M')" "adv sub t" "within S M M'"
      by blast
    obtain closed s'' t' where c: "pb_close_string_substream s' t = Some (closed, s'', t')" "adv s s''"
      "bytes_left s'' = bytes_left s'"
      by (rule close_lawful [OF lawful_adv [OF ok(2) g(2)] g(2) ok(4) ok(5)])
    show ?thesis
    proof (cases "check t")
      case True
      then show ?thesis using ok(1,5) g by (auto simp: reading_def pb_fail_def)
    next
      case False
      then show ?thesis using ok(1,3) g c by (auto simp: reading_def)
    qed
  qed
qed

lemma safe_dec_submessage:
  assumes "sub_safe sz n d sub" and "ptr f = Submsg_ptr j" and "j < n" and "span dest (sz j) \<subseteq> S"
  shows "safe d 1 S (pb_dec_submessage sub f dest)"
proof -
  have "safe d 1 S (reading pb_make_string_substream (\<lambda>substream s M. do {
      (status, substream, M) \<leftarrow> sub (PB_HTYPE f = PB_HTYPE_REPEATED) j dest substream M;
      if False then pb_fail '''' s M
      else do {
        (closed, s, _) \<leftarrow> pb_close_string_substream s substream;
        Some (closed \<and> status, s, M)
      }
    }))"
  proof (rule safe_substream)
    fix t :: "'a pb_istream" and M
    assume "lawful t" "bytes_left t < d" "frames_free d M" "backed S M"
    then show "\<exists>status t' M'. sub (PB_HTYPE f = PB_HTYPE_REPEATED) j dest t M = Some (status, t', M') \<and>
        adv t t' \<and> within S M M'"
      using assms(1,3) backed_mono [OF _ assms(4)] within_mono [OF _ assms(4)] unfolding sub_safe_def by metis
  qed
  then show ?thesis using assms(2) by (simp add: pb_dec_submessage_def)
qed

lemma ltype_static:
  assumes "PB_LTYPE f \<le> PB_LTYPE_SUBMESSAGE \<or> PB_LTYPE f = PB_LTYPE_FIXED_LENGTH_BYTES"
  shows "PB_LTYPE f \<in> {0, 1, 2, 3, 4, 5, 6, 7, 8, 10}"
proof -
  have "unat (PB_LTYPE f) \<in> {0, 1, 2, 3, 4, 5, 6, 7, 8, 10}"
    using assms by (auto simp: PB_LTYPE_SUBMESSAGE_def PB_LTYPE_FIXED_LENGTH_BYTES_def word_le_nat_alt)
  then show ?thesis by (auto simp: word_unat_eq_iff)
qed

lemma safe_decoder:
  assumes ok: "static_ok sz k f" and k: "k \<le> n" and sub: "sub_safe sz n d sub"
    and v: "span dest (value_size f) \<subseteq> S" and data: "span dest (unat (data_size f)) \<subseteq> S"
  shows "safe d 1 S (PB_DECODERS al sub (PB_LTYPE f) f dest)"
proof -
  have ptr: "PB_ATYPE f \<noteq> PB_ATYPE_POINTER"
    using static_ok_simps(1) [OF ok] by (simp add: PB_ATYPE_STATIC_def PB_ATYPE_POINTER_def)
  have submsg: "safe d 1 S (pb_dec_submessage sub f dest)" if l: "PB_LTYPE f = PB_LTYPE_SUBMESSAGE"
  proof -
    obtain j where j: "ptr f = Submsg_ptr j" "j < k" "sz j \<le> unat (data_size f)"
      using static_ok_simps(3) [OF ok l] by blast
    show ?thesis using safe_dec_submessage [OF sub j(1)] j(2) k span_le [OF j(3), of dest] data by auto
  qed
  note ints = safe_dec_integer [OF _ data]
  have "PB_LTYPE f \<in> {0, 1, 2, 3, 4, 5, 6, 7, 8, 10}" using ok by (intro ltype_static) (simp add: static_ok_def)
  then show ?thesis
    using v ptr data submsg
      ints [OF returns_varint] ints [OF returns_svarint]
    by (auto simp: PB_DECODERS_def value_size_def PB_LTYPE_BOOL_def PB_LTYPE_VARINT_def PB_LTYPE_UVARINT_def
        PB_LTYPE_SVARINT_def PB_LTYPE_FIXED32_def PB_LTYPE_FIXED64_def PB_LTYPE_BYTES_def PB_LTYPE_STRING_def
        PB_LTYPE_SUBMESSAGE_def PB_LTYPE_FIXED_LENGTH_BYTES_def pb_dec_varint_def pb_dec_uvarint_def pb_dec_svarint_def
        intro!: safe_dec_bool [simplified] safe_dec_fixed32 [simplified] safe_dec_fixed64 [simplified]
          safe_dec_bytes [simplified] safe_dec_string [simplified] safe_dec_fixed_length [simplified])
qed


section \<open>Static fields\<close>

text \<open>The entries of an array are within its room.\<close>

lemma entry_span:
  assumes "array_ok f" and "PB_HTYPE f = PB_HTYPE_REPEATED" and "n < array_size f"
  shows "span (entry f base n) (unat (data_size f)) \<subseteq> span base (field_room f)"
    "span (entry f base n) (value_size f) \<subseteq> span base (field_room f)"
proof -
  have lt: "unat n < unat (array_size f)" using assms(3) by (simp add: word_less_nat_alt)
  have "unat (data_size f) * unat n \<le> unat (data_size f) * unat (array_size f)" using lt by simp
  also have "\<dots> < 2 ^ 32"
  proof -
    have "int (unat (data_size f) * unat (array_size f)) < int (2 ^ 32)"
      using assms(1,2) by (simp add: array_ok_def)
    then show ?thesis by (simp only: of_nat_less_iff)
  qed
  finally have "unat (data_size f * n) = unat (data_size f) * unat n"
    using unat_mult_lem [of "data_size f" n] by simp
  then have e: "entry f base n = base + int (unat (data_size f) * unat n)"
    unfolding entry_def by (metis uint_nat)
  have "unat (data_size f) * unat n + unat (data_size f) = unat (data_size f) * (unat n + 1)" by simp
  also have "\<dots> \<le> field_room f" using lt assms(2) by (simp add: field_room_def del: mult_Suc_right)
  finally have r: "unat (data_size f) * unat n + unat (data_size f) \<le> field_room f" .
  show 1: "span (entry f base n) (unat (data_size f)) \<subseteq> span base (field_room f)"
    unfolding e by (rule span_sub_nat [OF r])
  have "span (entry f base n) (value_size f) \<subseteq> span (entry f base n) (unat (data_size f))"
    using assms(1,2) by (intro span_le) (simp add: array_ok_def)
  then show "span (entry f base n) (value_size f) \<subseteq> span base (field_room f)" using 1 by blast
qed

lemma increment_size_stores: "span (pSize it) 4 \<subseteq> S \<Longrightarrow> stores S (increment_size it)"
  unfolding stores_def increment_size_def
proof safe
  fix M assume S: "span (pSize it) 4 \<subseteq> S" and M: "backed S M"
  obtain n where "load_size (pSize it) M = Some n" using loads_size [OF S] M by (auto simp: loads_def)
  moreover obtain M' where "store_size (pSize it) (n + 1) M = Some M'" "within S M M'"
    using stores_size [OF S] M by (auto simp: stores_def)
  ultimately show "\<exists>M'. Option.bind (load_size (pSize it) M) (\<lambda>n. store_size (pSize it) (n + 1) M) = Some M' \<and> within S M M'"
    by auto
qed

text \<open>A decoder that is safe at every entry of the array at the iterator.\<close>

definition entries_safe :: "nat \<Rightarrow> int set \<Rightarrow> pb_field_iter \<Rightarrow> 's pb_decoder \<Rightarrow> bool" where
  "entries_safe d S it func \<longleftrightarrow>
     (\<forall>n < array_size (cur it). safe d 1 S (func (cur it) (entry (cur it) (pData it) n)))"

lemma static_packed_safe:
  assumes "entries_safe d S it func" and "span (pSize it) 4 \<subseteq> S"
    and "lawful sub" and "bytes_left sub \<le> d" and "frames_free d M" and "backed S M"
  shows "\<exists>status t M'. static_packed func it sub M = Some (status, t, M') \<and> adv sub t \<and> within S M M'"
  using assms(3-)
proof (induction "bytes_left sub" arbitrary: sub M rule: less_induct)
  case less
  obtain n where n: "load_size (pSize it) M = Some n" using loads_size [OF assms(2)] less(5) by (auto simp: loads_def)
  show ?case
  proof (cases "bytes_left sub = 0 \<or> n \<ge> array_size (cur it)")
    case True
    then show ?thesis using n by (subst static_packed.simps) auto
  next
    case False
    then have "n < array_size (cur it)" by (simp add: not_le)
    then have "safe d 1 S (func (cur it) (entry (cur it) (pData it) n))"
      using assms(1) unfolding entries_safe_def by blast
    from safeD [OF this less(2-5)] obtain ok t M1 where
      f: "func (cur it) (entry (cur it) (pData it) n) sub M = Some (ok, t, M1)" "adv sub t" "within S M M1"
      "ok \<Longrightarrow> bytes_left t + 1 \<le> bytes_left sub" by metis
    show ?thesis
    proof (cases ok)
      case False
      then show ?thesis using n f \<open>\<not> (bytes_left sub = 0 \<or> _)\<close> by (subst static_packed.simps) auto
    next
      case True
      have M1: "backed S M1" using less(5) backed_within [OF f(3)] by simp
      then obtain M2 where M2: "increment_size it M1 = Some M2" "within S M1 M2"
        using increment_size_stores [OF assms(2)] by (auto simp: stores_def)
      have b: "backed S M2" using M1 backed_within [OF M2(2)] by simp
      have fr: "frames_free d M2" using less(4) frames_within [OF f(3)] frames_within [OF M2(2)] by simp
      have left: "bytes_left t < bytes_left sub" using f(4) True by simp
      then have ld: "bytes_left t \<le> d" using less(3) by simp
      from less(1) [OF left lawful_adv [OF less(2) f(2)] ld fr b] obtain status t' M3 where
        r: "static_packed func it t M2 = Some (status, t', M3)" "adv t t'" "within S M2 M3" by blast
      have "static_packed func it sub M = Some (status, t', M3)"
        using n f M2 r True \<open>\<not> (bytes_left sub = 0 \<or> _)\<close> by (subst static_packed.simps) simp
      then show ?thesis using adv_trans [OF f(2) r(2)] within_trans [OF within_trans [OF f(3) M2(2)] r(3)] by simp
    qed
  qed
qed

lemma static_field_safe:
  assumes p: "placed sz k S it" and k: "k \<le> n" and sub: "sub_safe sz n d sub"
    and wf: "wf_messages (descriptors W) sz n"
  shows "safe d 1 S (decode_static_field W sub wt it)"
proof -
  let ?f = "cur it" and ?func = "PB_DECODERS (alloc W) sub (PB_LTYPE (cur it))"
  have ok: "static_ok sz k ?f" and arr: "array_ok ?f" and rm: "span (pData it) (field_room ?f) \<subseteq> S"
    using p by (simp_all add: placed_def)
  note sp = placed_spans [OF p]
  have single: "safe d 1 S (?func ?f (pData it))" if "PB_HTYPE ?f \<noteq> PB_HTYPE_REPEATED"
    using sp(3,4) [OF that] by (intro safe_decoder [OF ok k sub])
  have entry: "safe d 1 S (?func ?f (entry ?f (pData it) m))"
    if "PB_HTYPE ?f = PB_HTYPE_REPEATED" "m < array_size ?f" for m
    using entry_span [OF arr that] rm by (intro safe_decoder [OF ok k sub]) blast+
  consider "PB_HTYPE ?f = PB_HTYPE_REQUIRED" | "PB_HTYPE ?f = PB_HTYPE_OPTIONAL"
    | "PB_HTYPE ?f = PB_HTYPE_REPEATED" | "PB_HTYPE ?f = PB_HTYPE_ONEOF"
    | "PB_HTYPE ?f \<notin> {PB_HTYPE_REQUIRED, PB_HTYPE_OPTIONAL, PB_HTYPE_REPEATED, PB_HTYPE_ONEOF}" by blast
  then show ?thesis
  proof cases
    case 1
    then show ?thesis using single by (simp add: decode_static_field_def Let_def)
  next
    case 2
    then have "safe d 1 S (?func ?f (pData it))"
        "pSize it \<noteq> pData it \<Longrightarrow> safe d 1 S (storing (store_bool (pSize it) True) (?func ?f (pData it)))"
      using single safe_storing [OF stores_bool [OF sp(2)], of d 1 "?func ?f (pData it)"] by simp_all
    then show ?thesis using 2 by (simp add: decode_static_field_def Let_def)
  next
    case 3
    have size: "span (pSize it) 4 \<subseteq> S" using sp(1) 3 by simp
    have es: "entries_safe d S it ?func" unfolding entries_safe_def using entry 3 by blast
    have packed: "safe d 1 S (reading pb_make_string_substream (\<lambda>substream s M. do {
        (status, substream, M) \<leftarrow> static_packed ?func it substream M;
        if bytes_left substream \<noteq> 0 then pb_fail ''array overflow'' s M
        else do {
          (closed, s, _) \<leftarrow> pb_close_string_substream s substream;
          Some (closed \<and> status, s, M)
        }
      }))"
      by (rule safe_substream) (rule static_packed_safe [OF es size], simp_all)
    have "safe d 1 S (loading (load_size (pSize it)) (\<lambda>n. storing (increment_size it)
        (if n \<ge> array_size ?f then pb_fail ''array overflow'' else ?func ?f (entry ?f (pData it) n))))"
      using entry 3 by (intro safe_loading loads_size [OF size] safe_storing increment_size_stores [OF size]) auto
    then show ?thesis using packed 3 by (simp add: decode_static_field_def Let_def)
  next
    case 4
    have size: "span (pSize it) 4 \<subseteq> S" using sp(1) 4 by simp
    have data: "span (pData it) (unat (data_size ?f)) \<subseteq> S" using sp(3) 4 by simp
    have clear: "stores S (clear_submessage (descriptors W) ?f (pData it))" if l: "PB_LTYPE ?f = PB_LTYPE_SUBMESSAGE"
    proof -
      obtain j where j: "ptr ?f = Submsg_ptr j" "j < k" "sz j \<le> unat (data_size ?f)"
        using static_ok_simps(3) [OF ok l] by blast
      show ?thesis using clear_submessage_within [OF wf _ j(1,3) data] j(2) k by simp
    qed
    have one: "safe d 1 S (?func ?f (pData it))" using single 4 by simp
    have eq: "decode_static_field W sub wt it = storing (store_size (pSize it) (tag ?f))
        (if PB_LTYPE ?f = PB_LTYPE_SUBMESSAGE
         then storing (clear_submessage (descriptors W) ?f (pData it)) (?func ?f (pData it))
         else ?func ?f (pData it))"
      using 4 by (simp add: decode_static_field_def Let_def)
    show ?thesis unfolding eq
      by (rule safe_storing [OF stores_size [OF size]], split if_split, intro conjI impI safe_storing [OF clear] one)
  next
    case 5
    then show ?thesis by (simp add: decode_static_field_def Let_def)
  qed
qed

section \<open>The loop over the fields of a message\<close>

text \<open>The cells of the message and of the counter for fixed count arrays.\<close>

definition area :: "(nat \<Rightarrow> nat) \<Rightarrow> nat \<Rightarrow> nat \<Rightarrow> int \<Rightarrow> int set" where
  "area sz k d dest = span dest (sz k) \<union> span (fixed_count_size d) 4"

definition at_field :: "pb_env \<Rightarrow> nat \<Rightarrow> nat \<Rightarrow> int \<Rightarrow> pb_field_iter set" where
  "at_field env k d dest = reachable (fixed_count_size d) (env k) dest"

lemma at_field_placed:
  assumes "wf_messages env sz n" and "k < n" and "it \<in> at_field env k d dest"
  shows "placed sz k (area sz k d dest) it"
proof -
  have p: "placed sz k (area sz k d dest) it'" if "it' \<in> set (positions (env k) dest)" for it'
    using placed_mono [OF positions_placed [OF assms(1,2) that], of "area sz k d dest"] by (simp add: area_def)
  have "placed sz k (area sz k d dest) (it'\<lparr>pSize := fixed_count_size d\<rparr>)"
    if "it' \<in> set (positions (env k) dest)" "PB_HTYPE (cur it') = PB_HTYPE_REPEATED" for it'
    using p [OF that(1)] that(2) by (auto simp: placed_def size_room_def cur_def area_def)
  then show ?thesis using p assms(3) by (auto simp: at_field_def reachable_def)
qed

lemma wf_proper: "wf_messages env sz n \<Longrightarrow> k < n \<Longrightarrow> proper (env k)"
  using wf_messagesD by (fastforce simp: wf_message_def)

lemma find_at_field:
  assumes "proper (env k)" and "it \<in> at_field env k d dest"
  obtains found it' where "pb_field_iter_find it t = Some (found, it')" and "it' \<in> at_field env k d dest"
    and "found \<Longrightarrow> tag (cur it') = t"
  using search_reachable [OF assms(1) assms(2) [unfolded at_field_def],
      of "\<lambda>f. tag f = t \<and> PB_LTYPE f \<noteq> PB_LTYPE_EXTENSION"]
  unfolding pb_field_iter_find_def at_field_def by blast

lemma union_field_safe:
  assumes wf: "wf_messages env sz n" and k: "k < n" and it: "it \<in> at_field env k d dest"
    and M: "backed (area sz k d dest) M" and h: "PB_HTYPE (cur it) = PB_HTYPE_ONEOF"
  obtains ok it' s' where "pb_release_union_field env it s M = Some (ok, it', s', M)"
    and "it' \<in> at_field env k d dest" and "s' = s \<or> (\<exists>msg. s' = PB_SET_ERROR msg s)"
proof -
  have p: "placed sz k (area sz k d dest) it" by (rule at_field_placed [OF wf k it])
  obtain old where old: "load_size (pSize it) M = Some old"
    using loads_size [OF placed_spans(1) [OF p]] h M by (auto simp: loads_def)
  have pr: "proper (env k)" by (rule wf_proper [OF wf k])
  show ?thesis
  proof (cases "old = 0 \<or> old = tag (cur it)")
    case True
    have "pb_release_union_field env it s M = Some (True, it, s, M)"
      by (simp only: pb_release_union_field_def Let_def old Option.bind.simps True if_True)
    then show ?thesis using it by (intro that) blast+
  next
    case False
    obtain found it1 where f1: "pb_field_iter_find it old = Some (found, it1)" "it1 \<in> at_field env k d dest"
      by (rule find_at_field [OF pr it])
    obtain found2 it2 where f2: "pb_field_iter_find it1 (tag (cur it)) = Some (found2, it2)" "it2 \<in> at_field env k d dest"
      by (rule find_at_field [OF pr f1(2)])
    have r: "pb_release_single_field env it1 M = Some M"
      by (rule release_single_static [OF wf k at_field_placed [OF wf k f1(2)] M])
    show ?thesis
    proof (cases found)
      case True
      then have "pb_release_union_field env it s M =
          Some (if found2 then (True, it2, s, M) else (False, it2, PB_SET_ERROR ''iterator error'' s, M))"
        by (simp only: pb_release_union_field_def Let_def old f1(1) f2(1) r Option.bind.simps case_prod_conv False
            if_False if_True not_True_eq_False)
      then show ?thesis
        using that [OF _ f2(2), of found2 "if found2 then s else PB_SET_ERROR ''iterator error'' s"] by (cases found2) auto
    next
      case nf: False
      have "pb_release_union_field env it s M = Some (False, it1, PB_SET_ERROR ''invalid union tag'' s, M)"
        by (simp only: pb_release_union_field_def Let_def old f1(1) Option.bind.simps case_prod_conv False nf
            if_False if_True not_False_eq_True)
      then show ?thesis using f1(2) by (intro that) blast+
    qed
  qed
qed


lemma decode_field_safe:
  assumes wf: "wf_messages (descriptors W) sz n" and k: "k < n" and it: "it \<in> at_field (descriptors W) k d dest"
    and sub: "sub_safe sz n d sub" and s: "lawful s" "bytes_left s \<le> d"
    and M: "frames_free d M" "backed (area sz k d dest) M"
  obtains ok it' s' M' where "decode_field W sub wt it s M = Some (ok, it', s', M')"
    and "it' \<in> at_field (descriptors W) k d dest" and "adv s s'" and "within (area sz k d dest) M M'"
    and "ok \<longrightarrow> bytes_left s' + 1 \<le> bytes_left s"
proof -
  let ?rel = "if PB_HTYPE (cur it) = PB_HTYPE_ONEOF then pb_release_union_field (descriptors W) it s M
    else Some (True, it, s, M)"
  obtain ok1 it1 s1 where r: "?rel = Some (ok1, it1, s1, M)" "it1 \<in> at_field (descriptors W) k d dest"
    "s1 = s \<or> (\<exists>msg. s1 = PB_SET_ERROR msg s)"
  proof (cases "PB_HTYPE (cur it) = PB_HTYPE_ONEOF")
    case True
    then show thesis using that union_field_safe [OF wf k it M(2) True, where s = s] by (metis (no_types))
  next
    case False
    then show thesis using that it by auto
  qed
  have a1: "adv s s1" and l1: "lawful s1" and b1: "bytes_left s1 = bytes_left s" using r(3) s(1) by auto
  show thesis
  proof (cases ok1)
    case False
    then show thesis using that [of False it1 s1 M] r a1 by (simp add: decode_field_def)
  next
    case True
    have p: "placed sz k (area sz k d dest) it1" by (rule at_field_placed [OF wf k r(2)])
    have st: "PB_ATYPE (cur it1) = PB_ATYPE_STATIC" using p static_ok_simps(1) by (auto simp: placed_def)
    have d1: "bytes_left s1 \<le> d" using b1 s(2) by simp
    from safeD [OF static_field_safe [OF p less_imp_le [OF k] sub wf] l1 d1 M] obtain ok2 s2 M2 where
      f: "decode_static_field W sub wt it1 s1 M = Some (ok2, s2, M2)" "adv s1 s2" "within (area sz k d dest) M M2"
      "ok2 \<Longrightarrow> bytes_left s2 + 1 \<le> bytes_left s1" by metis
    have "decode_field W sub wt it s M = Some (ok2, it1, s2, M2)"
      using True st f(1) unfolding decode_field_def r(1) by simp
    then show thesis using that [OF _ r(2) adv_trans [OF a1 f(2)] f(3)] f(4) b1 by simp
  qed
qed

text \<open>No extension is found, and tags are less than \<open>extension_range_start\<close> afterwards.\<close>

lemma tag_bound: "pb_decode_tag s = Some (Some (wt, t), eof, s') \<Longrightarrow> t < - 1"
proof -
  assume "pb_decode_tag s = Some (Some (wt, t), eof, s')"
  then obtain temp :: u32 where "t = drop_bit 3 temp"
    by (auto simp: pb_decode_tag_def split: option.splits if_splits)
  then have "unat t = drop_bit 3 (unat temp)" by (simp add: unat_drop_bit_eq)
  then have "unat t < 2 ^ 29"
    using unsigned_less [of temp, where ?'a = nat] by (simp add: drop_bit_eq_div less_mult_imp_div_less)
  then show "t < - 1" by (simp add: word_less_nat_alt unsigned_minus_1_eq_mask mask_eq_exp_minus_1)
qed

lemma unknown_field_safe:
  assumes wf: "wf_messages env sz n" and k: "k < n" and it: "iter L \<in> at_field env k d dest"
    and s: "lawful s" and t: "t < - 1"
  obtains ok L' s' where "unknown_field t wt L s M = Some (ok, L', s', M)"
    and "iter L' \<in> at_field env k d dest" and "adv s s'"
proof -
  let ?search = "if t \<ge> extension_range_start L then do {
         (found, it) \<leftarrow> find_extension_field (iter L);
         let start = (if found then tag (cur it) else - 1) in do {
           _ \<leftarrow> (if t \<ge> start then no_extensions (pData it) M else Some M);
           Some (L\<lparr>iter := it, extension_range_start := start\<rparr>)
         }
       } else Some L"
  obtain L1 where L1: "?search = Some L1" "iter L1 \<in> at_field env k d dest"
  proof (cases "t \<ge> extension_range_start L")
    case True
    obtain found it' where f: "find_extension_field (iter L) = Some (found, it')" "it' \<in> at_field env k d dest"
        "found \<Longrightarrow> PB_LTYPE (cur it') = PB_LTYPE_EXTENSION"
      using search_reachable [OF wf_proper [OF wf k] it [unfolded at_field_def], of "\<lambda>f. PB_LTYPE f = PB_LTYPE_EXTENSION"]
      unfolding find_extension_field_def at_field_def by blast
    have nt: "\<not> - 1 \<le> t" using t by (simp only: not_le)
    have "\<not> found" using f(3) at_field_placed [OF wf k f(2)] static_ok_simps(2) by (auto simp: placed_def)
    then have "?search = Some (L\<lparr>iter := it', extension_range_start := - 1\<rparr>)"
      using True f(1) nt by (simp add: Let_def)
    then show thesis by (rule that) (simp add: f(2))
  qed (use that it in simp)
  from returns_skip_field [of wt] s have "\<exists>ok s'. skip_field wt s M = Some (ok, s', M) \<and> adv s s'"
    by (cases rule: returnsD) (auto simp: skip_field_def reading_def pb_ok_def)
  then obtain ok s' where "skip_field wt s M = Some (ok, s', M)" "adv s s'" by blast
  then have "unknown_field t wt L s M = Some (ok, L1, s', M)" unfolding unknown_field_def L1(1) by simp
  then show thesis using L1(2) \<open>adv s s'\<close> by (rule that)
qed

lemma fixed_count_short_returns:
  assumes "backed (area sz k d dest) M"
  obtains b where "fixed_count_short d L M = Some b"
proof -
  have "loads (area sz k d dest) (load_size (fixed_count_size d))" by (rule loads_size) (simp add: area_def)
  then obtain c where "load_size (fixed_count_size d) M = Some c" using assms by (auto simp: loads_def)
  then show thesis using that by (cases "fixed_count_field L") (auto simp: fixed_count_short_def)
qed

lemma enter_fixed_count_safe:
  assumes it: "iter L \<in> set (positions fs dest) \<or> iter L \<in> reachable (fixed_count_size d) fs dest"
    and M: "backed (area sz k d dest) M"
  obtains ok L' M' where "enter_fixed_count d L M = Some (ok, L', M')"
    and "iter L' \<in> reachable (fixed_count_size d) fs dest" and "within (area sz k d dest) M M'"
proof -
  have it': "iter L \<in> reachable (fixed_count_size d) fs dest" using it by (auto simp: reachable_def)
  obtain b where "fixed_count_short d L M = Some b" by (rule fixed_count_short_returns [OF M])
  then obtain short where short: "(if fixed_count_field L \<noteq> Some (it_pos (iter L)) then fixed_count_short d L M
      else Some False) = Some short"
    by (cases "fixed_count_field L = Some (it_pos (iter L))") auto
  have "stores (area sz k d dest) (store_size (fixed_count_size d) 0)"
    by (rule stores_size) (simp add: area_def)
  then have "stores (area sz k d dest) (\<lambda>M. if fixed_count_field L \<noteq> Some (it_pos (iter L))
      then store_size (fixed_count_size d) 0 M else Some M)"
    by (cases "fixed_count_field L = Some (it_pos (iter L))") simp_all
  then obtain M1 where M1: "(if fixed_count_field L \<noteq> Some (it_pos (iter L))
      then store_size (fixed_count_size d) 0 M else Some M) = Some M1" "within (area sz k d dest) M M1"
    using M unfolding stores_def by blast
  show thesis
  proof (cases "PB_HTYPE (cur (iter L)) = PB_HTYPE_REPEATED \<and> pSize (iter L) = pData (iter L)")
    case False
    then have "enter_fixed_count d L M = Some (True, L, M)" unfolding enter_fixed_count_def by (rule if_not_P)
    then show thesis by (rule that [OF _ it' within_refl])
  next
    case r: True
    have in_r: "(iter L)\<lparr>pSize := fixed_count_size d\<rparr> \<in> reachable (fixed_count_size d) fs dest"
      using it' r by (auto simp: reachable_def cur_def)
    show thesis
    proof (cases short)
      case True
      have "enter_fixed_count d L M = Some (False, L, M)"
        unfolding enter_fixed_count_def if_P [OF r] short using True by simp
      then show thesis by (rule that [OF _ it' within_refl])
    next
      case False
      have "enter_fixed_count d L M = Some (True, L\<lparr>fixed_count_field := Some (it_pos (iter L)),
          iter := (iter L)\<lparr>pSize := fixed_count_size d\<rparr>\<rparr>, M1)"
        unfolding enter_fixed_count_def if_P [OF r] short using False M1(1) by simp
      then show thesis by (rule that) (simp_all add: in_r M1(2))
    qed
  qed
qed

lemma iter_mark_seen [simp]: "iter (mark_seen L) = iter L"
  by (simp add: mark_seen_def Let_def)

lemma decode_fields_safe:
  assumes wf: "wf_messages (descriptors W) sz n" and k: "k < n" and sub: "sub_safe sz n d sub"
  shows "iter L \<in> at_field (descriptors W) k d dest \<Longrightarrow> lawful s \<Longrightarrow> bytes_left s \<le> d \<Longrightarrow> frames_free d M \<Longrightarrow>
    backed (area sz k d dest) M \<Longrightarrow>
    \<exists>ok L' s' M'. decode_fields W sub d L s M = Some (ok, L', s', M') \<and>
      iter L' \<in> at_field (descriptors W) k d dest \<and> adv s s' \<and> within (area sz k d dest) M M'"
proof (induction "bytes_left s" arbitrary: L s M rule: less_induct)
  case less
  let ?S = "area sz k d dest" and ?Q = "at_field (descriptors W) k d dest"
  show ?case
  proof (cases "bytes_left s = 0")
    case True
    then show ?thesis using less(2) by (subst decode_fields.simps) auto
  next
    case left: False
    obtain header eof s1 where tg: "pb_decode_tag s = Some (header, eof, s1)" "adv s s1"
      "header \<noteq> None \<longrightarrow> bytes_left s1 < bytes_left s" by (rule returns_tag [OF less(3)])
    show ?thesis
    proof (cases header)
      case None
      then show ?thesis using left tg less(2) by (subst decode_fields.simps) auto
    next
      case (Some h)
      obtain wt t where h: "h = (wt, t)" by fastforce
      have t: "t < - 1" using tag_bound tg(1) Some h by blast
      have s1: "lawful s1" "bytes_left s1 < bytes_left s" using lawful_adv [OF less(3) tg(2)] tg(3) Some by auto
      obtain found it where f: "pb_field_iter_find (iter L) t = Some (found, it)" "it \<in> ?Q"
        by (rule find_at_field [OF wf_proper [OF wf k] less(2)])
      show ?thesis
      proof (cases found)
        case False
        have "iter (L\<lparr>iter := it\<rparr>) \<in> ?Q" using f(2) by simp
        from unknown_field_safe [OF wf k this s1(1) t, of wt M] obtain ok L2 s2 where
          u: "unknown_field t wt (L\<lparr>iter := it\<rparr>) s1 M = Some (ok, L2, s2, M)" "iter L2 \<in> ?Q" "adv s1 s2" .
        have step: "decode_fields W sub d L s M =
            (if ok then decode_fields W sub d L2 s2 M else Some (False, L2, s2, M))"
          using left tg(1) Some h f(1) False u(1) by (subst decode_fields.simps) simp
        have a: "adv s s2" by (rule adv_trans [OF tg(2) u(3)])
        show ?thesis
        proof (cases ok)
          case True
          have l: "bytes_left s2 < bytes_left s" using adv_left [OF u(3)] s1(2) by simp
          then have "bytes_left s2 \<le> d" using less(4) by simp
          from less(1) [OF l u(2) lawful_adv [OF less(3) a] this less(5,6)] show ?thesis
            using step True adv_trans [OF a] by auto
        next
          case False
          then show ?thesis using step u(2) a by auto
        qed
      next
        case True
        obtain ok L2 M2 where e: "enter_fixed_count d (L\<lparr>iter := it\<rparr>) M = Some (ok, L2, M2)" "iter L2 \<in> ?Q"
          "within ?S M M2"
          using enter_fixed_count_safe [of "L\<lparr>iter := it\<rparr>" "descriptors W k" dest d sz k M] f(2) less(6)
          unfolding at_field_def by auto
        show ?thesis
        proof (cases ok)
          case False
          have "decode_fields W sub d L s M =
              Some (False, L2, PB_SET_ERROR ''wrong size for fixed count field'' s1, M2)"
            using left tg(1) Some h f(1) True e(1) False by (subst decode_fields.simps) simp
          then show ?thesis using e tg(2) by auto
        next
          case ok: True
          have d1: "bytes_left s1 \<le> d" using s1(2) less(4) by simp
          have fr: "frames_free d M2" "backed ?S M2"
            using less(5,6) frames_within [OF e(3)] backed_within [OF e(3)] by simp_all
          obtain ok3 it3 s3 M3 where g: "decode_field W sub wt (iter L2) s1 M2 = Some (ok3, it3, s3, M3)"
            "it3 \<in> ?Q" "adv s1 s3" "within ?S M2 M3" "ok3 \<longrightarrow> bytes_left s3 + 1 \<le> bytes_left s1"
            by (rule decode_field_safe [OF wf k e(2) sub s1(1) d1 fr])
          have step: "decode_fields W sub d L s M =
              (if ok3 then decode_fields W sub d ((mark_seen L2)\<lparr>iter := it3\<rparr>) s3 M3
               else Some (False, (mark_seen L2)\<lparr>iter := it3\<rparr>, s3, M3))"
            using left tg(1) Some h f(1) True e(1) ok g(1) by (subst decode_fields.simps) simp
          have a: "adv s s3" by (rule adv_trans [OF tg(2) g(3)])
          have w: "within ?S M M3" by (rule within_trans [OF e(3) g(4)])
          show ?thesis
          proof (cases ok3)
            case False
            then show ?thesis using step g(2) a w by auto
          next
            case True
            have l: "bytes_left s3 < bytes_left s" using adv_left [OF g(3)] s1(2) by simp
            have q: "iter ((mark_seen L2)\<lparr>iter := it3\<rparr>) \<in> ?Q" using g(2) by simp
            have d3: "bytes_left s3 \<le> d" using l less(4) by simp
            have fr3: "frames_free d M3" "backed ?S M3"
              using less(5,6) frames_within [OF w] backed_within [OF w] by simp_all
            from less(1) [OF l q lawful_adv [OF less(3) a] d3 fr3] show ?thesis
              using step True adv_trans [OF a] within_trans [OF w] by auto
          qed
        qed
      qed
    qed
  qed
qed


section \<open>Messages\<close>

lemma frame_disjoint: "frames_free (Suc d) M \<Longrightarrow> x \<in> span (fixed_count_size d) 4 \<Longrightarrow> cells M x = None"
  by (auto simp: frames_free_def span_def fixed_count_size_def)

lemma enter_cells:
  "x \<notin> span (fixed_count_size d) 4 \<Longrightarrow> cells (enter_frame d M) x = cells M x"
  "x \<in> span (fixed_count_size d) 4 \<Longrightarrow> cells (enter_frame d M) x \<noteq> None"
proof -
  have four: "length [0 :: byte, 0, 0, 0] = 4" by simp
  show "x \<notin> span (fixed_count_size d) 4 \<Longrightarrow> cells (enter_frame d M) x = cells M x"
    using set_cells_out [of x "fixed_count_size d" "[0, 0, 0, 0]", unfolded four]
    by (simp add: enter_frame_def del: set_cells.simps)
  show "x \<in> span (fixed_count_size d) 4 \<Longrightarrow> cells (enter_frame d M) x \<noteq> None"
    using set_cells_in [of x "fixed_count_size d" "[0, 0, 0, 0]", unfolded four]
    by (simp add: enter_frame_def del: set_cells.simps)
qed

lemma leave_cells:
  "cells (leave_frame d M) x = (if x \<in> span (fixed_count_size d) 4 then None else cells M x)"
  by (auto simp: leave_frame_def free_cells_def span_def)

lemma frames_free_enter: "frames_free (Suc d) M \<Longrightarrow> frames_free d (enter_frame d M)"
proof -
  assume M: "frames_free (Suc d) M"
  have "x \<notin> span (fixed_count_size d) 4" if "- 4 * int d \<le> x" for x
    using that by (auto simp: span_def fixed_count_size_def)
  then show ?thesis using M enter_cells(1) by (auto simp: frames_free_def)
qed

lemma backed_enter: "backed S M \<Longrightarrow> backed (S \<union> span (fixed_count_size d) 4) (enter_frame d M)"
  using enter_cells [of _ d M] by (metis UnE backed_def)

lemma within_frame:
  assumes "frames_free (Suc d) M" and "within (S \<union> span (fixed_count_size d) 4) (enter_frame d M) M'"
  shows "within S M (leave_frame d M')"
proof -
  have "cells M' x = cells M x" if "x \<notin> S" "x \<notin> span (fixed_count_size d) 4" for x
    using assms(2) that enter_cells(1) by (auto simp: within_def)
  moreover have "(cells M' x = None) = (cells M x = None)" if "x \<notin> span (fixed_count_size d) 4" for x
    using assms(2) that enter_cells(1) by (auto simp: within_def)
  moreover have "blocks (leave_frame d M') = blocks M \<and> reallocs (leave_frame d M') = reallocs M"
    using assms(2) by (simp add: within_def leave_frame_def enter_frame_def)
  ultimately show ?thesis using frame_disjoint [OF assms(1)] unfolding within_def leave_cells by auto
qed

lemma noinit_safe:
  assumes wf: "wf_messages (descriptors W) sz n" and k: "k < n" and sub: "sub_safe sz n d sub"
    and s: "lawful s" "bytes_left s \<le> d" and M: "frames_free (Suc d) M" "backed (span dest (sz k)) M"
  shows "\<exists>ok s' M'. pb_decode_noinit_with W sub d k dest s M = Some (ok, s', M') \<and> adv s s' \<and>
    within (span dest (sz k)) M M'"
proof -
  let ?L = "\<lparr>fields_seen = [0, 0], extension_range_start = 0, fixed_count_field = None,
     iter = snd (pb_field_iter_begin (descriptors W k) dest)\<rparr>"
  have "iter ?L \<in> at_field (descriptors W) k d dest" by (simp add: at_field_def reachable_def)
  from decode_fields_safe [OF wf k sub this s frames_free_enter [OF M(1)]] backed_enter [OF M(2)]
  obtain ok L' s' M' where r: "decode_fields W sub d ?L s (enter_frame d M) = Some (ok, L', s', M')" "adv s s'"
    "within (area sz k d dest) (enter_frame d M) M'" unfolding area_def by blast
  have "backed (area sz k d dest) M'" using backed_within [OF r(3)] backed_enter [OF M(2)] by (simp add: area_def)
  then obtain short where "fixed_count_short d L' M' = Some short" by (rule fixed_count_short_returns)
  then obtain short' where sh: "(if ok then fixed_count_short d L' M' else Some False) = Some short'"
    by (cases ok) auto
  have w: "within (span dest (sz k)) M (leave_frame d M')"
    by (rule within_frame [OF M(1)]) (use r(3) in \<open>simp add: area_def\<close>)
  let ?r = "if \<not> ok then (False, s', leave_frame d M')
      else if short' then (False, PB_SET_ERROR ''wrong size for fixed count field'' s', leave_frame d M')
      else if \<not> all_required_seen (req_field_count (iter L')) (fields_seen L')
      then (False, PB_SET_ERROR ''missing required field'' s', leave_frame d M')
      else (True, s', leave_frame d M')"
  have "pb_decode_noinit_with W sub d k dest s M = Some ?r"
    unfolding pb_decode_noinit_with_def Let_def r(1) by (simp add: sh)
  then show ?thesis using r(2) w by (auto split: if_splits)
qed

lemma decode_at_safe:
  assumes wf: "wf_messages (descriptors W) sz n"
  shows "sub_safe sz n d (decode_at d W)"
proof (induction d)
  case 0
  then show ?case by (simp add: sub_safe_def)
next
  case (Suc d)
  show ?case
    unfolding sub_safe_def
  proof (intro allI impI, elim conjE)
    fix init j dest M and s :: "'a pb_istream"
    assume j: "j < n" and s: "lawful s" "bytes_left s < Suc d" and M: "frames_free (Suc d) M" "backed (span dest (sz j)) M"
    let ?S = "span dest (sz j)"
    have "stores ?S (\<lambda>M. if init then pb_message_set_to_defaults (descriptors W) j dest M else Some M)"
      using message_defaults_within [OF wf j] by (cases init) simp_all
    then obtain M1 where M1: "(if init then pb_message_set_to_defaults (descriptors W) j dest M else Some M) = Some M1"
      "within ?S M M1" using M(2) unfolding stores_def by blast
    have "frames_free (Suc d) M1" "backed ?S M1" using M frames_within [OF M1(2)] backed_within [OF M1(2)] by simp_all
    from noinit_safe [OF wf j Suc s(1) _ this] s(2) obtain ok s' M' where
      r: "pb_decode_noinit_with W (decode_at d W) d j dest s M1 = Some (ok, s', M')" "adv s s'" "within ?S M1 M'"
      by (auto simp: less_Suc_eq_le)
    have w: "within ?S M M'" by (rule within_trans [OF M1(2) r(3)])
    have "pb_release (descriptors W) j dest M' = Some M'"
      using backed_within [OF w] M(2) by (intro pb_release_static [OF wf j]) simp
    then have "(if ok \<or> \<not> init then Some M' else pb_release (descriptors W) j dest M') = Some M'" by simp
    then have "decode_at (Suc d) W init j dest s M = Some (ok, s', M')"
      using M1(1) r(1) by simp
    then show "\<exists>ok s' M'. decode_at (Suc d) W init j dest s M = Some (ok, s', M') \<and> adv s s' \<and> within ?S M M'"
      using r(2) w by blast
  qed
qed

end
