(* ===== verification/PbDecThms.thy ===== *)
theory PbDecThms
  imports PbSafe
begin

text \<open>
  What holds of the decoder of messages, and four executions in which it goes wrong.
\<close>

section \<open>Decoding of messages with static fields\<close>

text \<open>
  C32: let the first \<open>n\<close> messages of a set of descriptors be well formed: all fields static, laid
  out within their structures, with nested messages of smaller numbers. On every lawful stream,
  whatever bytes it has, \<open>pb_decode\<close> of one of them returns: no loop or recursion fails to end,
  and no access is outside the memory there is (either would be \<open>None\<close>). It changes no cell
  outside the structure, allocates and frees nothing, and never gains bytes of the stream.
\<close>

theorem pb_decode_static_safe:
  assumes "wf_messages (descriptors W) sz n" and "k < n" and "lawful s"
    and "backed (span dest (sz k)) M" and "\<forall>x<0. cells M x = None"
  shows "\<exists>ok s' M'. pb_decode W k dest s M = Some (ok, s', M') \<and> within (span dest (sz k)) M M' \<and>
    lawful s' \<and> bytes_left s' \<le> bytes_left s"
proof -
  have "frames_free (Suc (bytes_left s)) M" using assms(5) by (simp add: frames_free_def)
  then obtain ok s' M' where "decode_at (Suc (bytes_left s)) W True k dest s M = Some (ok, s', M')"
      "adv s s'" "within (span dest (sz k)) M M'"
    using decode_at_safe [OF assms(1), of "Suc (bytes_left s)"] assms(2-4) unfolding sub_safe_def by blast
  then show ?thesis unfolding pb_decode_def using adv_left lawful_adv [OF assms(3)] by blast
qed

text \<open>
  Descriptors in the form of the generator: message 0 has an optional boolean with a flag, and
  message 1 a required integer, a counted array of integers, a union of a string and message 0,
  and message 0 itself.
\<close>

definition example_fields :: pb_env where
  "example_fields k = (if k = 0 then
     [\<lparr>tag = 1, type = 0x10, data_offset = 1, size_offset = - 1, data_size = 1, array_size = 0, ptr = Null_ptr\<rparr>]
   else
     [\<lparr>tag = 1, type = 0x01, data_offset = 0, size_offset = 0, data_size = 4, array_size = 0, ptr = Null_ptr\<rparr>,
      \<lparr>tag = 2, type = 0x22, data_offset = 4, size_offset = - 4, data_size = 2, array_size = 3, ptr = Null_ptr\<rparr>,
      \<lparr>tag = 3, type = 0x37, data_offset = 6, size_offset = - 4, data_size = 4, array_size = 0, ptr = Null_ptr\<rparr>,
      \<lparr>tag = 4, type = 0x38, data_offset = - 1, size_offset = - 4, data_size = 2, array_size = 0, ptr = Submsg_ptr 0\<rparr>,
      \<lparr>tag = 5, type = 0x18, data_offset = 2, size_offset = 0, data_size = 2, array_size = 0, ptr = Submsg_ptr 0\<rparr>])"

definition example_size :: "nat \<Rightarrow> nat" where
  "example_size k = (if k = 0 then 2 else 28)"

definition no_allocator :: pb_alloc where "no_allocator i n M = None"

definition static_client :: "pb_env \<Rightarrow> unit pb_client" where
  "static_client env = \<lparr>alloc = no_allocator, on_field = (\<lambda>_ _ _ _ _. None), descriptors = env\<rparr>"

definition zeroed_memory :: "int \<Rightarrow> nat \<Rightarrow> pb_mem" where
  "zeroed_memory a n = \<lparr>cells = (\<lambda>x. if a \<le> x \<and> x < a + int n then Some 0 else None), blocks = (\<lambda>_. None), reallocs = 0\<rparr>"

definition example_input :: "byte list" where
  "example_input = [0x08, 0x05, 0x12, 0x02, 0x01, 0x02, 0x22, 0x02, 0x08, 0x01]"

theorem pb_decode_static_safe_witness:
  "\<exists>ok s' M'. pb_decode (static_client example_fields) 1 100 (pb_istream_from_buffer example_input 10)
      (zeroed_memory 100 28) = Some (ok, s', M') \<and>
    within (span 100 28) (zeroed_memory 100 28) M' \<and> lawful s' \<and> bytes_left s' \<le> 10"
proof -
  have wf: "wf_messages (descriptors (static_client example_fields)) example_size 2"
    by code_simp
  have s: "lawful (pb_istream_from_buffer example_input 10 :: unit pb_istream)"
    by (simp add: lawful_def pb_istream_from_buffer_def example_input_def)
  have M: "backed (span 100 (example_size 1)) (zeroed_memory 100 28)" "\<forall>x<0. cells (zeroed_memory 100 28) x = None"
    by (simp_all add: backed_def span_def zeroed_memory_def example_size_def)
  show ?thesis
    using pb_decode_static_safe [OF wf, of 1, OF _ s M] by (simp add: example_size_def pb_istream_from_buffer_def)
qed

text \<open>The run of the example: the integer, the array with its length, the union and its tag.\<close>

lemma example_run:
  "map_option (\<lambda>(ok, s, M). (ok, bytes_left s, map (\<lambda>i. the (cells M (100 + int i))) [0..<24]))
     (pb_decode (static_client example_fields) 1 100 (pb_istream_from_buffer example_input 10) (zeroed_memory 100 28)) =
   Some (True, 0, [5, 0, 0, 0, 2, 0, 0, 0, 1, 0, 2, 0, 0, 0, 0, 0, 4, 0, 0, 0, 1, 1, 0, 0])"
  by code_simp

section \<open>Executions that go wrong\<close>

text \<open>
  A message type without fields. A field with number 0, which no message has, matches the
  terminator of the descriptors; it is decoded as a required boolean, and stored in the
  structure, instead of being skipped or refused.
\<close>

definition empty_fields :: pb_env where "empty_fields k = []"

lemma pb_decode_field_number_zero:
  "map_option (\<lambda>(ok, s, M). (ok, bytes_left s, cells M 100))
     (pb_decode (static_client empty_fields) 0 100 (pb_istream_from_buffer [0x01, 0x61] 2) (zeroed_memory 100 1)) =
   Some (True, 0, Some 1)"
  by code_simp

text \<open>
  A fixed count array of two bytes (\<open>pSize\<close> is \<open>pData\<close>). Its initialisation stores a count of
  four bytes there, beyond the end of the structure, before anything is decoded.
\<close>

definition fixed_count_fields :: pb_env where
  "fixed_count_fields k =
     [\<lparr>tag = 1, type = 0x22, data_offset = 0, size_offset = 0, data_size = 1, array_size = 2, ptr = Null_ptr\<rparr>]"

lemma pb_decode_fixed_count_overflow:
  "pb_decode (static_client fixed_count_fields) 0 100 (pb_istream_from_buffer [] 0) (zeroed_memory 100 2) = None"
  by code_simp

text \<open>
  A union of a static submessage that has an allocated string. When the submessage comes twice,
  the old one is cleared without being released: its string stays allocated even after
  \<open>pb_release\<close>, and nothing points to it.
\<close>

definition bump_allocator :: pb_alloc where
  "bump_allocator i n M = Some (1000 * (int i + 1), replicate n 0)"

definition client :: "pb_env \<Rightarrow> unit pb_client" where
  "client env = \<lparr>alloc = bump_allocator, on_field = (\<lambda>_ _ _ _ _. None), descriptors = env\<rparr>"

definition union_fields :: pb_env where
  "union_fields k = (if k = 0 then
     [\<lparr>tag = 1, type = 0x38, data_offset = 8, size_offset = - 8, data_size = 8, array_size = 0, ptr = Submsg_ptr 1\<rparr>]
   else
     [\<lparr>tag = 1, type = 0x97, data_offset = 0, size_offset = 0, data_size = 8, array_size = 0, ptr = Null_ptr\<rparr>])"

lemma pb_decode_union_leak:
  "case pb_decode (client union_fields) 0 100
      (pb_istream_from_buffer [0x0A, 0x03, 0x0A, 0x01, 0x61, 0x0A, 0x03, 0x0A, 0x01, 0x62] 10) (zeroed_memory 100 16) of
     None \<Rightarrow> False
   | Some (ok, s, M) \<Rightarrow> ok \<and> (case pb_release union_fields 0 100 M of
         None \<Rightarrow> False
       | Some M' \<Rightarrow> load_ptr 108 M' = Some 0 \<and> blocks M' 1000 = Some 2 \<and> blocks M' 2000 = None)"
  by code_simp

text \<open>
  A union of a static integer and an allocated string. The string finds the bytes of the integer,
  which the sender chose, where it expects a pointer, and has them reallocated.
\<close>

definition mixed_union_fields :: pb_env where
  "mixed_union_fields k =
     [\<lparr>tag = 1, type = 0x35, data_offset = 8, size_offset = - 8, data_size = 8, array_size = 0, ptr = Null_ptr\<rparr>,
      \<lparr>tag = 2, type = 0xB7, data_offset = - 1, size_offset = 0, data_size = 8, array_size = 0, ptr = Null_ptr\<rparr>]"

lemma pb_decode_union_pointer_fault:
  "pb_decode (client mixed_union_fields) 0 100
     (pb_istream_from_buffer [0x09, 0x01, 0, 0, 0, 0, 0, 0, 0, 0x12, 0x01, 0x61] 12) (zeroed_memory 100 16) = None"
  by code_simp

end
