(* ===== verification/PbEnc.thy ===== *)
theory PbEnc
  imports PbSafe
begin

text \<open>
  Encoding of messages in nanopb (\<open>pb_encode.c\<close>): the encoders of single values, arrays, fields
  and messages. Encoding only reads memory. \<open>None\<close> is an access outside memory, a store outside
  the buffer of the stream, or messages nested more deeply than the bound; extension fields,
  which are objects of the application, are outside the model and give \<open>None\<close> too.
\<close>

section \<open>Values\<close>

type_synonym 's pb_encoder = "pb_field \<Rightarrow> int \<Rightarrow> pb_mem \<Rightarrow> 's pb_writer"

definition out_ok :: "'s pb_writer" where "out_ok s = Some (True, s)"

definition given :: "'a option \<Rightarrow> ('a \<Rightarrow> 's pb_writer) \<Rightarrow> 's pb_writer" where
  "given x f s = (case x of None \<Rightarrow> None | Some y \<Rightarrow> f y s)"

definition safe_read_bool :: "int \<Rightarrow> pb_mem \<Rightarrow> bool option" where
  "safe_read_bool a M = map_option (list_ex (\<lambda>b. b \<noteq> 0)) (load a 1 M)"

text \<open>The bytes at an address; a stream that only counts does not read them.\<close>

definition write_from :: "int \<Rightarrow> nat \<Rightarrow> pb_mem \<Rightarrow> 's pb_writer" where
  "write_from a n M s = (if counting s then pb_write [] n s else given (load a n M) (\<lambda>bs. pb_write bs n) s)"

definition encode_string_at :: "int \<Rightarrow> nat \<Rightarrow> pb_mem \<Rightarrow> 's pb_writer" where
  "encode_string_at a n M = out_then (pb_encode_varint (of_nat n)) (write_from a n M)"

definition pb_enc_bool :: "'s pb_encoder" where
  "pb_enc_bool field src M = given (safe_read_bool src M) (\<lambda>b. pb_encode_varint (if b then 1 else 0))"

text \<open>Integers of the size of the field, extended to 64 bits.\<close>

definition extend_signed :: "byte list \<Rightarrow> u64" where
  "extend_signed bs = (let v = le_val bs in
     if length bs = 1 then scast (of_nat v :: byte)
     else if length bs = 2 then scast (of_nat v :: u16)
     else if length bs = 4 then scast (of_nat v :: u32)
     else of_nat v)"

definition extend_unsigned :: "byte list \<Rightarrow> u64" where
  "extend_unsigned bs = of_nat (le_val bs)"

definition enc_integer :: "(byte list \<Rightarrow> u64) \<Rightarrow> (u64 \<Rightarrow> 's pb_writer) \<Rightarrow> 's pb_encoder" where
  "enc_integer widen put field src M = (
     let n = unat (data_size field) in
     if n = 1 \<or> n = 2 \<or> n = 4 \<or> n = 8 then given (load src n M) (\<lambda>bs. put (widen bs))
     else OUT_RETURN_ERROR ''invalid data_size'')"

definition pb_enc_varint :: "'s pb_encoder" where
  "pb_enc_varint = enc_integer extend_signed pb_encode_varint"

definition pb_enc_uvarint :: "'s pb_encoder" where
  "pb_enc_uvarint = enc_integer extend_unsigned pb_encode_varint"

definition pb_enc_svarint :: "'s pb_encoder" where
  "pb_enc_svarint = enc_integer extend_signed pb_encode_svarint"

definition pb_enc_fixed32 :: "'s pb_encoder" where
  "pb_enc_fixed32 field src M = given (load src 4 M) (\<lambda>bs. pb_encode_fixed32 (le_word32 bs))"

definition pb_enc_fixed64 :: "'s pb_encoder" where
  "pb_enc_fixed64 field src M = given (load src 8 M) (\<lambda>bs. pb_encode_fixed64 (le_word64 bs))"

definition pb_enc_bytes :: "'s pb_encoder" where
  "pb_enc_bytes field src M = (
     if src = 0 then pb_encode_string [] 0
     else given (load_size src M) (\<lambda>size.
       let allocsize = ucast size + 4 :: u64 in
       if allocsize < ucast size \<or> PB_ATYPE field = PB_ATYPE_STATIC \<and> allocsize > ucast (data_size field)
       then OUT_RETURN_ERROR ''bytes size exceeded''
       else encode_string_at (src + 4) (unat size) M))"

text \<open>The loop that looks for the terminator, within \<open>max\<close> bytes.\<close>

function string_size :: "nat \<Rightarrow> nat \<Rightarrow> int \<Rightarrow> pb_mem \<Rightarrow> nat option" where
  "string_size n m p M = (
     if n < m then
       (case load p 1 M of
          None \<Rightarrow> None
        | Some bs \<Rightarrow> if bs \<noteq> [0] then string_size (n + 1) m (p + 1) M else Some n)
     else Some n)"
  by auto

termination
  by (relation "measure (\<lambda>(n, m, _, _). m - n)") auto

declare string_size.simps [simp del]

definition pb_enc_string :: "'s pb_encoder" where
  "pb_enc_string field src M = (
     let max_size = (if PB_ATYPE field = PB_ATYPE_POINTER then 2 ^ 64 - 1 else unat (data_size field)) in
     given (if src = 0 then Some 0 else string_size 0 max_size src M) (\<lambda>size. encode_string_at src size M))"

definition pb_enc_fixed_length_bytes :: "'s pb_encoder" where
  "pb_enc_fixed_length_bytes field src M = encode_string_at src (unat (data_size field)) M"

text \<open>
  The encoder of messages is an argument. The size is found by a first pass on a stream that
  only counts; the second pass writes to a substream of that size.
\<close>

type_synonym 's pb_enc_sub = "nat \<Rightarrow> int \<Rightarrow> pb_mem \<Rightarrow> 's pb_writer"

definition encode_submessage_with :: "'s pb_enc_sub \<Rightarrow> 's pb_enc_sub" where
  "encode_submessage_with sub k src M s = (case sub k src M PB_OSTREAM_SIZING of
     None \<Rightarrow> None
   | Some (False, substream) \<Rightarrow> Some (False, s\<lparr>out_errmsg := out_errmsg substream\<rparr>)
   | Some (True, substream) \<Rightarrow>
       let size = bytes_written substream in
       out_then (pb_encode_varint (of_nat size)) (\<lambda>s.
         if counting s then pb_write [] size s
         else if (bytes_written s + size) mod size_max1 > max_size s then OUT_RETURN_ERROR ''stream full'' s
         else
           (case sub k src M (s\<lparr>max_size := size, bytes_written := 0, out_errmsg := None\<rparr>) of
              None \<Rightarrow> None
            | Some (status, substream) \<Rightarrow>
                let s = s\<lparr>bytes_written := (bytes_written s + bytes_written substream) mod size_max1,
                          out_state := out_state substream, out_errmsg := out_errmsg substream\<rparr> in
                if bytes_written substream \<noteq> size then OUT_RETURN_ERROR ''submsg size changed'' s
                else Some (status, s))) s)"

definition pb_enc_submessage :: "'s pb_enc_sub \<Rightarrow> 's pb_encoder" where
  "pb_enc_submessage sub field src M = (case ptr field of
     Null_ptr \<Rightarrow> OUT_RETURN_ERROR ''invalid field descriptor''
   | Default_ptr _ \<Rightarrow> (\<lambda>_. None)
   | Submsg_ptr k \<Rightarrow> encode_submessage_with sub k src M)"

definition PB_ENCODERS :: "'s pb_enc_sub \<Rightarrow> byte \<Rightarrow> 's pb_encoder" where
  "PB_ENCODERS sub ltype =
     (if ltype = PB_LTYPE_BOOL then pb_enc_bool
      else if ltype = PB_LTYPE_VARINT then pb_enc_varint
      else if ltype = PB_LTYPE_UVARINT then pb_enc_uvarint
      else if ltype = PB_LTYPE_SVARINT then pb_enc_svarint
      else if ltype = PB_LTYPE_FIXED32 then pb_enc_fixed32
      else if ltype = PB_LTYPE_FIXED64 then pb_enc_fixed64
      else if ltype = PB_LTYPE_BYTES then pb_enc_bytes
      else if ltype = PB_LTYPE_STRING then pb_enc_string
      else if ltype = PB_LTYPE_SUBMESSAGE then pb_enc_submessage sub
      else if ltype = PB_LTYPE_FIXED_LENGTH_BYTES then pb_enc_fixed_length_bytes
      else (\<lambda>_ _ _ _. None))"

section \<open>Fields\<close>

definition pb_encode_tag_for_field :: "pb_field \<Rightarrow> 's pb_writer" where
  "pb_encode_tag_for_field field = (
     let t = PB_LTYPE field in
     if t = PB_LTYPE_BOOL \<or> t = PB_LTYPE_VARINT \<or> t = PB_LTYPE_UVARINT \<or> t = PB_LTYPE_SVARINT
     then pb_encode_tag PB_WT_VARINT (tag field)
     else if t = PB_LTYPE_FIXED32 then pb_encode_tag PB_WT_32BIT (tag field)
     else if t = PB_LTYPE_FIXED64 then pb_encode_tag PB_WT_64BIT (tag field)
     else if t = PB_LTYPE_BYTES \<or> t = PB_LTYPE_STRING \<or> t = PB_LTYPE_SUBMESSAGE \<or> t = PB_LTYPE_FIXED_LENGTH_BYTES
     then pb_encode_tag PB_WT_STRING (tag field)
     else OUT_RETURN_ERROR ''invalid field type'')"

primrec encode_entries :: "(int \<Rightarrow> 's pb_writer) \<Rightarrow> nat \<Rightarrow> int \<Rightarrow> nat \<Rightarrow> 's pb_writer" where
  "encode_entries put step p 0 = out_ok"
| "encode_entries put step p (Suc n) = out_then (put p) (encode_entries put step (p + int step) n)"

text \<open>The size of a packed array: success, then the size.\<close>

definition packed_size :: "pb_field \<Rightarrow> (int \<Rightarrow> 's pb_writer) \<Rightarrow> int \<Rightarrow> nat \<Rightarrow> (bool \<times> nat) option" where
  "packed_size field put p n =
     (if PB_LTYPE field = PB_LTYPE_FIXED32 then Some (True, 4 * n)
      else if PB_LTYPE field = PB_LTYPE_FIXED64 then Some (True, 8 * n)
      else map_option (\<lambda>(ok, sizestream). (ok, bytes_written sizestream))
        (encode_entries put (unat (data_size field)) p n PB_OSTREAM_SIZING))"

definition encode_array :: "pb_field \<Rightarrow> int \<Rightarrow> u32 \<Rightarrow> 's pb_encoder \<Rightarrow> pb_mem \<Rightarrow> 's pb_writer" where
  "encode_array field pdata n func M = (
     let step = unat (data_size field); put = (\<lambda>p. func field p M) in
     if n = 0 then out_ok
     else if PB_ATYPE field \<noteq> PB_ATYPE_POINTER \<and> n > array_size field
     then OUT_RETURN_ERROR ''array max size exceeded''
     else if PB_LTYPE field \<le> PB_LTYPE_LAST_PACKABLE then
       out_then (pb_encode_tag PB_WT_STRING (tag field))
         (given (packed_size field put pdata (unat n)) (\<lambda>(ok, size).
            if \<not> ok then (\<lambda>s. Some (False, s))
            else out_then (pb_encode_varint (of_nat size)) (\<lambda>s.
              if counting s then pb_write [] size s else encode_entries put step pdata (unat n) s)))
     else
       encode_entries (\<lambda>p. out_then (pb_encode_tag_for_field field)
         (if PB_ATYPE field = PB_ATYPE_POINTER \<and> (PB_LTYPE field = PB_LTYPE_STRING \<or> PB_LTYPE field = PB_LTYPE_BYTES)
          then given (load_ptr p M) put else put p)) step pdata (unat n))"

text \<open>The loop that compares the bytes of a value with zero.\<close>

primrec zero_bytes :: "nat \<Rightarrow> int \<Rightarrow> pb_mem \<Rightarrow> bool option" where
  "zero_bytes 0 p M = Some True"
| "zero_bytes (Suc n) p M = (case load p 1 M of
     None \<Rightarrow> None
   | Some bs \<Rightarrow> if bs \<noteq> [0] then Some False else zero_bytes n (p + 1) M)"

text \<open>
  \<open>pb_check_proto3_default_value\<close>: the inner \<open>None\<close> is a static submessage, all fields of which
  are to be checked.
\<close>

definition proto3_default :: "pb_field \<Rightarrow> int \<Rightarrow> pb_mem \<Rightarrow> bool option option" where
  "proto3_default f pdata M = (
     let psize = pdata + size_offset f;
         rest = (if PB_ATYPE f = PB_ATYPE_POINTER \<and> PB_LTYPE f > PB_LTYPE_LAST_PACKABLE
                 then map_option (\<lambda>p. Some (p = 0)) (load_ptr pdata M)
                 else map_option Some (zero_bytes (unat (data_size f)) pdata M));
         singular = (
           if PB_ATYPE f = PB_ATYPE_STATIC then
             (if PB_LTYPE f = PB_LTYPE_BYTES then map_option (\<lambda>n. Some (n = 0)) (load_size pdata M)
              else if PB_LTYPE f = PB_LTYPE_STRING then map_option (\<lambda>bs. Some (bs = [0])) (load pdata 1 M)
              else if PB_LTYPE f = PB_LTYPE_FIXED_LENGTH_BYTES then Some (Some (data_size f = 0))
              else if PB_LTYPE f = PB_LTYPE_SUBMESSAGE then Some None
              else rest)
           else rest) in
     if PB_HTYPE f = PB_HTYPE_REQUIRED then Some (Some False)
     else if PB_HTYPE f = PB_HTYPE_REPEATED then
       (if size_offset f \<noteq> 0 then map_option (\<lambda>n. Some (n = 0)) (load_size psize M)
        else if PB_ATYPE f = PB_ATYPE_STATIC then Some (Some False)
        else singular)
     else if PB_HTYPE f = PB_HTYPE_ONEOF then map_option (\<lambda>n. Some (n = 0)) (load_size psize M)
     else if PB_HTYPE f = PB_HTYPE_OPTIONAL \<and> size_offset f \<noteq> 0
     then map_option (\<lambda>b. Some (\<not> b)) (safe_read_bool psize M)
     else singular)"

text \<open>The loop over the fields of a static submessage, from the field the iterator is at.\<close>

partial_function (option) defaults_from :: "pb_env \<Rightarrow> pb_field_iter \<Rightarrow> pb_mem \<Rightarrow> bool option" where
  "defaults_from env it M = do {
     r \<leftarrow> proto3_default (cur it) (pData it) M;
     b \<leftarrow> (if r \<noteq> None then r
       else do {
         k \<leftarrow> submsg_fields (ptr (cur it));
         if fst (pb_field_iter_begin (env k) (pData it))
         then defaults_from env (snd (pb_field_iter_begin (env k) (pData it))) M else Some True
       });
     if \<not> b then Some False
     else if fst (pb_field_iter_next it) then defaults_from env (snd (pb_field_iter_next it)) M
     else Some True
   }"

declare defaults_from.simps [code]

definition pb_check_proto3_default_value :: "pb_env \<Rightarrow> pb_field \<Rightarrow> int \<Rightarrow> pb_mem \<Rightarrow> bool option" where
  "pb_check_proto3_default_value env f pdata M = do {
     r \<leftarrow> proto3_default f pdata M;
     if r \<noteq> None then r
     else do {
       k \<leftarrow> submsg_fields (ptr f);
       if fst (pb_field_iter_begin (env k) pdata)
       then defaults_from env (snd (pb_field_iter_begin (env k) pdata)) M else Some True
     }
   }"

text \<open>What the application provides: the encoding function at the address of a callback.\<close>

record 's pb_source =
  on_encode :: "int \<Rightarrow> 's pb_encoder"
  fields_of :: pb_env

text \<open>
  Without \<open>size_offset\<close>, \<open>pSize\<close> is the address of the local \<open>implicit_has\<close>, one byte; a union
  would read four bytes there.
\<close>

definition encode_basic_field :: "'s pb_source \<Rightarrow> 's pb_enc_sub \<Rightarrow> 's pb_encoder" where
  "encode_basic_field W sub f pdata M = (
     let func = PB_ENCODERS sub (PB_LTYPE f); psize = pdata + size_offset f in
     given (if size_offset f = 0 \<and> PB_HTYPE f = PB_HTYPE_OPTIONAL
            then map_option Not (pb_check_proto3_default_value (fields_of W) f pdata M) else Some True) (\<lambda>has.
     given (if PB_ATYPE f = PB_ATYPE_POINTER then load_ptr pdata M else Some pdata) (\<lambda>data.
       let implicit_has = (if PB_ATYPE f = PB_ATYPE_POINTER then data \<noteq> 0 else has);
           tagged = out_then (pb_encode_tag_for_field f) (func f data M) in
       if PB_HTYPE f = PB_HTYPE_REQUIRED then
         (if data = 0 then OUT_RETURN_ERROR ''missing required field'' else tagged)
       else if PB_HTYPE f = PB_HTYPE_OPTIONAL then
         given (if size_offset f \<noteq> 0 then safe_read_bool psize M else Some implicit_has) (\<lambda>b.
           if b then tagged else out_ok)
       else if PB_HTYPE f = PB_HTYPE_REPEATED then
         given (if size_offset f \<noteq> 0 then load_size psize M else Some (array_size f)) (\<lambda>n.
           encode_array f data n func M)
       else if PB_HTYPE f = PB_HTYPE_ONEOF then
         given (if size_offset f \<noteq> 0 then load_size psize M else None) (\<lambda>t.
           if t = tag f then tagged else out_ok)
       else OUT_RETURN_ERROR ''invalid field type'')))"

definition encode_callback_field :: "'s pb_source \<Rightarrow> 's pb_encoder" where
  "encode_callback_field W f pdata M = given (load_ptr pdata M) (\<lambda>fn.
     if fn \<noteq> 0 then (\<lambda>s. case on_encode W fn f (pdata + int sizeof_pointer) M s of
         None \<Rightarrow> None
       | Some (False, s) \<Rightarrow> OUT_RETURN_ERROR ''callback error'' s
       | Some (True, s) \<Rightarrow> Some (True, s))
     else out_ok)"

definition encode_field :: "'s pb_source \<Rightarrow> 's pb_enc_sub \<Rightarrow> 's pb_encoder" where
  "encode_field W sub f pdata M =
     (if PB_ATYPE f = PB_ATYPE_STATIC \<or> PB_ATYPE f = PB_ATYPE_POINTER then encode_basic_field W sub f pdata M
      else if PB_ATYPE f = PB_ATYPE_CALLBACK then encode_callback_field W f pdata M
      else OUT_RETURN_ERROR ''invalid field type'')"

section \<open>Messages\<close>

definition encode_any :: "'s pb_source \<Rightarrow> 's pb_enc_sub \<Rightarrow> pb_field_iter \<Rightarrow> pb_mem \<Rightarrow> 's pb_writer" where
  "encode_any W sub it M =
     (if PB_LTYPE (cur it) = PB_LTYPE_EXTENSION then given (no_extensions (pData it) M) (\<lambda>_. out_ok)
      else encode_field W sub (cur it) (pData it) M)"

text \<open>The loop over the fields, from the field the iterator is at.\<close>

function encode_from :: "'s pb_source \<Rightarrow> 's pb_enc_sub \<Rightarrow> pb_field_iter \<Rightarrow> pb_mem \<Rightarrow> 's pb_writer" where
  "encode_from W sub it M = out_then (encode_any W sub it M)
     (if fst (pb_field_iter_next it) then encode_from W sub (snd (pb_field_iter_next it)) M else out_ok)"
  by auto

termination
  by (relation "measure (\<lambda>(_, _, it, _). iter_left it)") (simp_all add: iter_next_left)

declare encode_from.simps [simp del]

definition encode_message_with :: "'s pb_source \<Rightarrow> 's pb_enc_sub \<Rightarrow> 's pb_enc_sub" where
  "encode_message_with W sub k src M =
     (if fst (pb_field_iter_begin (fields_of W k) src)
      then encode_from W sub (snd (pb_field_iter_begin (fields_of W k) src)) M
      else out_ok)"

text \<open>
  \<open>pb_encode\<close> of messages nested at most \<open>d\<close> deep. Static messages are nested no deeper than
  their numbers say; through pointers a structure can be nested without a bound.
\<close>

primrec pb_encode :: "nat \<Rightarrow> 's pb_source \<Rightarrow> 's pb_enc_sub" where
  "pb_encode 0 W = (\<lambda>_ _ _ _. None)"
| "pb_encode (Suc d) W = encode_message_with W (pb_encode d W)"

definition pb_encode_submessage :: "nat \<Rightarrow> 's pb_source \<Rightarrow> 's pb_enc_sub" where
  "pb_encode_submessage d W = encode_submessage_with (pb_encode d W)"

definition pb_encode_delimited :: "nat \<Rightarrow> 's pb_source \<Rightarrow> 's pb_enc_sub" where
  "pb_encode_delimited = pb_encode_submessage"

definition pb_encode_nullterminated :: "nat \<Rightarrow> 's pb_source \<Rightarrow> 's pb_enc_sub" where
  "pb_encode_nullterminated d W k src M = out_then (pb_encode d W k src M) (pb_write [0] 1)"

definition pb_get_encoded_size :: "nat \<Rightarrow> 's pb_source \<Rightarrow> nat \<Rightarrow> int \<Rightarrow> pb_mem \<Rightarrow> nat option option" where
  "pb_get_encoded_size d W k src M = map_option (\<lambda>(ok, s). if ok then Some (bytes_written s) else None)
     (pb_encode d W k src M PB_OSTREAM_SIZING)"

end
