(* ===== verification/PbEncSpec.thy ===== *)
theory PbEncSpec
  imports PbEnc
begin

text \<open>
  The wire format of messages with static fields, as a function of the structure in memory, and
  the proof that the encoder writes it. The specification shares with the encoder the
  descriptors and the reading of memory, and no other function: integers are numbers, the
  places of the fields are computed from the descriptors, and what proto3 leaves out is said here.
\<close>

section \<open>The bytes of a message\<close>

text \<open>The signed number in two's complement, and what a varint holds of it.\<close>

definition signed_value :: "byte list \<Rightarrow> int" where
  "signed_value bs = (if 2 * le_val bs < 256 ^ length bs then int (le_val bs)
     else int (le_val bs) - 256 ^ length bs)"

definition mod_64 :: "int \<Rightarrow> nat" where
  "mod_64 v = nat (v mod 2 ^ 64)"

text \<open>Signed varints: 0, -1, 1, -2, 2 and so on.\<close>

definition zigzag_number :: "int \<Rightarrow> nat" where
  "zigzag_number v = nat (if v < 0 then - 2 * v - 1 else 2 * v)"

definition bool_at :: "int \<Rightarrow> pb_mem \<Rightarrow> bool option" where
  "bool_at a M = map_option (\<lambda>bs. bs \<noteq> [0]) (load a 1 M)"

definition int_value :: "(byte list \<Rightarrow> nat) \<Rightarrow> pb_field \<Rightarrow> int \<Rightarrow> pb_mem \<Rightarrow> wire_value option" where
  "int_value g f a M = (let n = unat (data_size f) in
     if n = 1 \<or> n = 2 \<or> n = 4 \<or> n = 8 then map_option (\<lambda>bs. Varint (varint_bytes (g bs))) (load a n M)
     else None)"

definition bytes_value :: "pb_field \<Rightarrow> int \<Rightarrow> pb_mem \<Rightarrow> wire_value option" where
  "bytes_value f a M = do {
     n \<leftarrow> load_size a M;
     if unat n + 4 \<le> unat (data_size f) then map_option Delimited (load (a + 4) (unat n) M) else None
   }"

text \<open>The value at an address. The bytes of messages are an argument.\<close>

definition static_value :: "(nat \<Rightarrow> int \<Rightarrow> pb_mem \<Rightarrow> byte list option) \<Rightarrow> pb_field \<Rightarrow> int \<Rightarrow> pb_mem \<Rightarrow> wire_value option" where
  "static_value sb f a M = (let t = PB_LTYPE f; n = unat (data_size f) in
     if t = PB_LTYPE_BOOL then map_option (\<lambda>b. Varint (varint_bytes (if b then 1 else 0))) (bool_at a M)
     else if t = PB_LTYPE_VARINT then int_value (\<lambda>bs. mod_64 (signed_value bs)) f a M
     else if t = PB_LTYPE_UVARINT then int_value le_val f a M
     else if t = PB_LTYPE_SVARINT then int_value (\<lambda>bs. zigzag_number (signed_value bs)) f a M
     else if t = PB_LTYPE_FIXED32 then map_option Fixed32 (load a 4 M)
     else if t = PB_LTYPE_FIXED64 then map_option Fixed64 (load a 8 M)
     else if t = PB_LTYPE_BYTES then bytes_value f a M
     else if t = PB_LTYPE_STRING then map_option (\<lambda>bs. Delimited (takeWhile (\<lambda>b. b \<noteq> 0) bs)) (load a n M)
     else if t = PB_LTYPE_SUBMESSAGE then do {
       k \<leftarrow> submsg_fields (ptr f);
       map_option Delimited (sb k a M)
     }
     else if t = PB_LTYPE_FIXED_LENGTH_BYTES then map_option Delimited (load a n M)
     else None)"

definition tagged :: "pb_field \<Rightarrow> wire_value \<Rightarrow> byte list" where
  "tagged f v = tag_bytes (unat (tag f)) (wire_type v) @ wire_bytes v"

text \<open>The values of an array.\<close>

primrec entry_values :: "(int \<Rightarrow> wire_value option) \<Rightarrow> nat \<Rightarrow> int \<Rightarrow> nat \<Rightarrow> wire_value list option" where
  "entry_values g step a 0 = Some []"
| "entry_values g step a (Suc n) = do {
     v \<leftarrow> g a;
     vs \<leftarrow> entry_values g step (a + int step) n;
     Some (v # vs)
   }"

definition array_bytes :: "pb_field \<Rightarrow> wire_value list \<Rightarrow> byte list" where
  "array_bytes f vs =
     (if vs = [] then []
      else if PB_LTYPE f \<le> PB_LTYPE_LAST_PACKABLE
      then tag_bytes (unat (tag f)) 2 @ wire_bytes (Delimited (concat (map wire_bytes vs)))
      else concat (map (tagged f) vs))"

text \<open>
  Whether a value is the default of its type: no bytes, the empty string, a message of default
  fields, or zero. An argument says it of messages.
\<close>

definition value_default :: "(nat \<Rightarrow> int \<Rightarrow> pb_mem \<Rightarrow> bool option) \<Rightarrow> pb_field \<Rightarrow> int \<Rightarrow> pb_mem \<Rightarrow> bool option" where
  "value_default md f a M = (let t = PB_LTYPE f; n = unat (data_size f) in
     if t = PB_LTYPE_BYTES then map_option (\<lambda>n. n = 0) (load_size a M)
     else if t = PB_LTYPE_STRING then map_option (\<lambda>bs. takeWhile (\<lambda>b. b \<noteq> 0) bs = []) (load a 1 M)
     else if t = PB_LTYPE_SUBMESSAGE then do { k \<leftarrow> submsg_fields (ptr f); md k a M }
     else if t = PB_LTYPE_FIXED_LENGTH_BYTES then Some (n = 0)
     else map_option (\<lambda>bs. bs = replicate n 0) (load a n M))"

text \<open>
  A field of a message counts as default if it holds nothing: an empty array, no member of the
  union, a flag that is off, or a singular value that is the default.
\<close>

definition field_default :: "(nat \<Rightarrow> int \<Rightarrow> pb_mem \<Rightarrow> bool option) \<Rightarrow> pb_field \<Rightarrow> int \<Rightarrow> pb_mem \<Rightarrow> bool option" where
  "field_default md f a M =
     (if PB_HTYPE f = PB_HTYPE_REQUIRED then Some False
      else if PB_HTYPE f = PB_HTYPE_REPEATED then
        (if size_offset f = 0 then Some False else map_option (\<lambda>n. n = 0) (load_size (a + size_offset f) M))
      else if PB_HTYPE f = PB_HTYPE_ONEOF then map_option (\<lambda>n. n = 0) (load_size (a + size_offset f) M)
      else if PB_HTYPE f = PB_HTYPE_OPTIONAL \<and> size_offset f \<noteq> 0
      then map_option Not (bool_at (a + size_offset f) M)
      else value_default md f a M)"

definition field_bytes ::
  "(nat \<Rightarrow> int \<Rightarrow> pb_mem \<Rightarrow> bool option) \<Rightarrow> (nat \<Rightarrow> int \<Rightarrow> pb_mem \<Rightarrow> byte list option) \<Rightarrow>
   pb_field \<Rightarrow> int \<Rightarrow> pb_mem \<Rightarrow> byte list option" where
  "field_bytes md sb f a M = (let value = map_option (tagged f) (static_value sb f a M) in
     if PB_HTYPE f = PB_HTYPE_REQUIRED then value
     else if PB_HTYPE f = PB_HTYPE_OPTIONAL then do {
       b \<leftarrow> (if size_offset f \<noteq> 0 then bool_at (a + size_offset f) M
            else map_option Not (value_default md f a M));
       if b then value else Some []
     }
     else if PB_HTYPE f = PB_HTYPE_REPEATED then do {
       n \<leftarrow> (if size_offset f \<noteq> 0 then load_size (a + size_offset f) M else Some (array_size f));
       if n \<le> array_size f
       then map_option (array_bytes f)
         (entry_values (\<lambda>p. static_value sb f p M) (unat (data_size f)) a (unat n))
       else None
     }
     else if PB_HTYPE f = PB_HTYPE_ONEOF then do {
       t \<leftarrow> (if size_offset f \<noteq> 0 then load_size (a + size_offset f) M else None);
       if t = tag f then value else Some []
     }
     else None)"

text \<open>
  The places of the fields of a structure: each begins \<open>data_offset\<close> bytes behind the one
  before it; the further members of a union have the place of the first.
\<close>

definition static_size :: "pb_field \<Rightarrow> nat" where
  "static_size f = unat (data_size f) * (if PB_HTYPE f = PB_HTYPE_REPEATED then unat (array_size f) else 1)"

fun places_from :: "pb_field \<Rightarrow> int \<Rightarrow> pb_field list \<Rightarrow> (pb_field \<times> int) list" where
  "places_from f p [] = [(f, p)]"
| "places_from f p (g # gs) = (f, p) #
     places_from g (if PB_HTYPE f = PB_HTYPE_ONEOF \<and> PB_HTYPE g = PB_HTYPE_ONEOF \<and> data_offset g = PB_SIZE_MAX
       then p else p + int (static_size f) + uint (data_offset g)) gs"

definition field_places :: "pb_fields \<Rightarrow> int \<Rightarrow> (pb_field \<times> int) list" where
  "field_places fs a = (case fs of [] \<Rightarrow> [] | f # gs \<Rightarrow> places_from f (a + uint (data_offset f)) gs)"

primrec all_default :: "('a \<Rightarrow> bool option) \<Rightarrow> 'a list \<Rightarrow> bool option" where
  "all_default g [] = Some True"
| "all_default g (x # xs) = do { b \<leftarrow> g x; if b then all_default g xs else Some False }"

primrec message_default :: "nat \<Rightarrow> pb_env \<Rightarrow> nat \<Rightarrow> int \<Rightarrow> pb_mem \<Rightarrow> bool option" where
  "message_default 0 env = (\<lambda>_ _ _. None)"
| "message_default (Suc d) env = (\<lambda>k a M.
     all_default (\<lambda>(f, p). field_default (message_default d env) f p M) (field_places (env k) a))"

primrec all_bytes :: "('a \<Rightarrow> byte list option) \<Rightarrow> 'a list \<Rightarrow> byte list option" where
  "all_bytes g [] = Some []"
| "all_bytes g (x # xs) = do { bs \<leftarrow> g x; rest \<leftarrow> all_bytes g xs; Some (bs @ rest) }"

primrec message_bytes :: "nat \<Rightarrow> pb_env \<Rightarrow> nat \<Rightarrow> int \<Rightarrow> pb_mem \<Rightarrow> byte list option" where
  "message_bytes 0 env = (\<lambda>_ _ _. None)"
| "message_bytes (Suc d) env = (\<lambda>k a M.
     all_bytes (\<lambda>(f, p). field_bytes (message_default d env) (message_bytes d env) f p M)
       (field_places (env k) a))"

section \<open>The encoder's functions agree\<close>

lemma load_length: "load a n M = Some bs \<Longrightarrow> length bs = n"
  by (auto simp: load_def split: if_splits)

lemma safe_read_bool_eq: "safe_read_bool a M = bool_at a M"
proof (cases "load a 1 M")
  case (Some bs)
  then obtain b where "bs = [b]" using load_length [OF Some] by (auto simp: length_Suc_conv)
  then show ?thesis using Some by (simp add: safe_read_bool_def bool_at_def)
qed (simp add: safe_read_bool_def bool_at_def)

lemma sint_of_small:
  fixes w :: "'a::len word"
  assumes "v < 2 ^ LENGTH('a)" and "w = of_nat v"
  shows "sint w = (if 2 * v < 2 ^ LENGTH('a) then int v else int v - 2 ^ LENGTH('a))"
proof -
  obtain n where n: "LENGTH('a) = Suc n" by (cases "LENGTH('a)") simp_all
  have u: "uint w = int v" using assms by (simp add: unsigned_of_nat take_bit_nat_eq_self)
  have t: "take_bit (Suc n) (int v) = int v"
  proof (rule take_bit_int_eq_self)
    have "int v < int (2 ^ Suc n)" using assms(1) unfolding n by (simp only: of_nat_less_iff)
    then show "int v < 2 ^ Suc n" by simp
  qed simp
  have b: "bit (int v) n \<longleftrightarrow> \<not> v < 2 ^ n"
  proof (cases "v < 2 ^ n")
    case True
    then have "int v div 2 ^ n = 0" by simp
    then show ?thesis using True by (simp add: bit_iff_odd_drop_bit drop_bit_eq_div)
  next
    case False
    then have "v div 2 ^ n = 1" using assms(1) unfolding n by (intro div_nat_eqI) simp_all
    then have "int v div 2 ^ n = 1" by (metis of_nat_1 of_nat_numeral of_nat_power zdiv_int)
    then show ?thesis using False by (simp add: bit_iff_odd_drop_bit drop_bit_eq_div)
  qed
  have "sint w = signed_take_bit n (uint w)" by (simp add: sint_uint n)
  also have "\<dots> = (if 2 * v < 2 ^ LENGTH('a) then int v else int v - 2 ^ LENGTH('a))"
    unfolding u n by (simp add: signed_take_bit_eq_take_bit_minus t b)
  finally show ?thesis .
qed

lemma mod_64_unat: "unat (w :: u64) = mod_64 (sint w)"
proof -
  have "uint w = sint w mod 2 ^ 64" by (simp add: uint_sint take_bit_eq_mod)
  then show ?thesis by (simp only: mod_64_def unat_eq_nat_uint)
qed

lemma le_val_less: "le_val bs < 256 ^ length bs"
  using be_val_less [of "rev bs"] by (simp add: le_val_def)

lemma sint_widen:
  fixes w :: "'a::len word"
  assumes "LENGTH('a) \<le> 64"
  shows "sint (scast w :: u64) = sint w"
  using assms by (simp add: sint_up_scast is_up)

lemma extend_signed_value:
  assumes "length bs = 1 \<or> length bs = 2 \<or> length bs = 4 \<or> length bs = 8"
  shows "sint (extend_signed bs) = signed_value bs"
  using assms le_val_less [of bs] sint_of_small [of "le_val bs" "of_nat (le_val bs) :: byte"]
    sint_of_small [of "le_val bs" "of_nat (le_val bs) :: u16"] sint_of_small [of "le_val bs" "of_nat (le_val bs) :: u32"]
    sint_of_small [of "le_val bs" "of_nat (le_val bs) :: u64"]
  by (elim disjE) (simp_all add: extend_signed_def signed_value_def Let_def sint_widen)

lemma extend_unsigned_value:
  assumes "length bs \<le> 8"
  shows "unat (extend_unsigned bs) = le_val bs"
proof -
  have "(256 :: nat) ^ length bs \<le> 256 ^ 8" using assms by (intro power_increasing) simp_all
  then have "le_val bs < 2 ^ 64" using le_val_less [of bs] by simp
  then show ?thesis by (simp add: extend_unsigned_def unat_of_nat)
qed

lemma extend_signed_number:
  "length bs = 1 \<or> length bs = 2 \<or> length bs = 4 \<or> length bs = 8 \<Longrightarrow>
     mod_64 (signed_value bs) = unat (extend_signed bs)"
  using extend_signed_value [of bs] by (simp only: mod_64_unat)

lemma zigzag_value: "unat (zigzag v) = zigzag_number (sint v)"
proof -
  have r: "- (2 ^ 63) \<le> sint v" "sint v < 2 ^ 63" using sint_ge [of v] sint_lt [of v] by simp_all
  have d: "push_bit 1 v = of_int (2 * sint v)" by (simp add: push_bit_eq_mult mult.commute)
  show ?thesis
  proof (cases "sint v < 0")
    case True
    then have "zigzag v = of_int (- 2 * sint v - 1)" unfolding zigzag_def by (simp add: d not_eq_complement)
    moreover have "take_bit LENGTH(64) (- 2 * sint v - 1) = - 2 * sint v - 1"
      by (rule take_bit_int_eq_self) (use True r in simp_all)
    then have "uint (of_int (- 2 * sint v - 1) :: u64) = - 2 * sint v - 1"
      unfolding unsigned_of_int using True by (simp only:)
    ultimately show ?thesis using True by (simp add: zigzag_number_def unat_eq_nat_uint)
  next
    case False
    then have "zigzag v = of_int (2 * sint v)" unfolding zigzag_def by (simp add: d)
    moreover have "take_bit LENGTH(64) (2 * sint v) = 2 * sint v"
      by (rule take_bit_int_eq_self) (use False r in simp_all)
    then have "uint (of_int (2 * sint v) :: u64) = 2 * sint v"
      unfolding unsigned_of_int using False by (simp only:)
    ultimately show ?thesis using False by (simp add: zigzag_number_def unat_eq_nat_uint)
  qed
qed
lemma extend_signed_zigzag:
  "length bs = 1 \<or> length bs = 2 \<or> length bs = 4 \<or> length bs = 8 \<Longrightarrow>
     zigzag_number (signed_value bs) = unat (zigzag (extend_signed bs))"
  using extend_signed_value [of bs] by (simp only: zigzag_value)

lemma load_take: "load a n M = Some bs \<Longrightarrow> m \<le> n \<Longrightarrow> load a m M = Some (take m bs)"
  by (auto simp: load_def take_map split: if_splits)

lemma load_Suc:
  assumes "load a (Suc n) M = Some bs"
  obtains b cs where "bs = b # cs" and "load a 1 M = Some [b]" and "load (a + 1) n M = Some cs"
proof -
  have u: "[0..<Suc n] = 0 # map Suc [0..<n]" by (simp add: map_Suc_upt upt_conv_Cons)
  have c: "\<forall>i<Suc n. cells M (a + int i) \<noteq> None" and bs: "bs = map (\<lambda>i. the (cells M (a + int i))) [0..<Suc n]"
    using assms by (simp_all add: load_def del: upt_Suc split: if_splits)
  show thesis
  proof (rule that)
    show "bs = the (cells M a) # map (\<lambda>i. the (cells M (a + 1 + int i))) [0..<n]"
      unfolding bs u by (simp add: comp_def add.assoc)
    show "load a 1 M = Some [the (cells M a)]" using c by (auto simp: load_def)
    have "cells M (a + 1 + int i) \<noteq> None" if "i < n" for i
      using c [rule_format, of "Suc i"] that by (simp add: add.assoc)
    then show "load (a + 1) n M = Some (map (\<lambda>i. the (cells M (a + 1 + int i))) [0..<n])"
      by (simp add: load_def)
  qed
qed

lemma zero_bytes_load: "load p n M = Some bs \<Longrightarrow> zero_bytes n p M = Some (bs = replicate n 0)"
proof (induction n arbitrary: p bs)
  case 0
  then show ?case using load_length [of p 0 M bs] by simp
next
  case (Suc n)
  obtain b cs where b: "bs = b # cs" "load p 1 M = Some [b]" "load (p + 1) n M = Some cs"
    by (rule load_Suc [OF Suc.prems])
  then show ?case using Suc.IH [OF b(3)] by simp
qed

text \<open>The iterator visits the places of the fields.\<close>

lemma all_bytes_map: "all_bytes g (map h xs) = all_bytes (g \<circ> h) xs"
  by (induction xs) simp_all

lemma all_default_map: "all_default g (map h xs) = all_default (g \<circ> h) xs"
  by (induction xs) (simp_all cong: if_cong)

lemma iters_places:
  assumes "proper (it_start it)" and "it_pos it < length (it_start it)"
    and "list_all (\<lambda>f. PB_ATYPE f = PB_ATYPE_STATIC) (it_start it)"
  shows "map (\<lambda>it. (cur it, pData it)) (iters it) = places_from (cur it) (pData it) (drop (Suc (it_pos it)) (it_start it))"
  using assms
proof (induction it rule: iters.induct)
  case (1 it)
  let ?n = "pb_field_iter_next it" and ?fs = "it_start it" and ?i = "it_pos it"
  have its: "iters it = it # (if fst ?n then iters (snd ?n) else [])" by (rule iters.simps)
  have nx: "fst ?n \<longleftrightarrow> ?i + 1 < length ?fs" by (rule next_iff [OF 1(2)])
  show ?case
  proof (cases "?i + 1 < length ?fs")
    case False
    then show ?thesis using nx unfolding its by simp
  next
    case True
    have d: "drop (Suc ?i) ?fs = ?fs ! Suc ?i # drop (Suc (Suc ?i)) ?fs"
      using True by (simp add: Cons_nth_drop_Suc)
    have f: "cur it = ?fs ! ?i" "tag (cur it) \<noteq> 0" "tag (?fs ! Suc ?i) \<noteq> 0" "PB_ATYPE (cur it) = PB_ATYPE_STATIC"
      using 1(2-4) True by (auto simp: cur_def field_at_def proper_def list_all_length)
    have st: "PB_ATYPE_STATIC \<noteq> PB_ATYPE_POINTER" by (simp add: PB_ATYPE_STATIC_def PB_ATYPE_POINTER_def)
    have n: "it_start (snd ?n) = ?fs" "it_pos (snd ?n) = Suc ?i" "cur (snd ?n) = ?fs ! Suc ?i"
      "pData (snd ?n) = (if PB_HTYPE (cur it) = PB_HTYPE_ONEOF \<and> PB_HTYPE (?fs ! Suc ?i) = PB_HTYPE_ONEOF \<and>
         data_offset (?fs ! Suc ?i) = PB_SIZE_MAX then pData it
       else pData it + int (static_size (cur it)) + uint (data_offset (?fs ! Suc ?i)))"
      using f True st
      by (auto simp: pb_field_iter_next_def Let_def cur_def field_at_def static_size_def PB_HTYPE_REPEATED_def PB_HTYPE_ONEOF_def)
    show ?thesis using 1(1) 1(2-4) nx True n unfolding its d by simp
  qed
qed

lemma positions_places:
  assumes "proper fs" and "fs \<noteq> []" and "list_all (\<lambda>f. PB_ATYPE f = PB_ATYPE_STATIC) fs"
  shows "map (\<lambda>it. (cur it, pData it)) (positions fs a) = field_places fs a"
proof -
  let ?it = "snd (pb_field_iter_begin fs a)"
  have "cur ?it = hd fs" "pData ?it = a + uint (data_offset (hd fs))"
    using assms(2) by (simp_all add: pb_field_iter_begin_def cur_def field_at_def Let_def hd_conv_nth)
  then show ?thesis
    using iters_places [of ?it] assms unfolding positions_def
    by (cases fs) (simp_all add: field_places_def)
qed

section \<open>Encoders of values\<close>

lemma byte_no_bit: "8 \<le> m \<Longrightarrow> \<not> bit (x :: byte) m"
  by (auto dest: bit_imp_le_length)

lemma push_byte_bit:
  "n < 8 \<Longrightarrow> k + 8 \<le> LENGTH('a) \<Longrightarrow> j mod 8 = 0 \<Longrightarrow> k mod 8 = 0 \<Longrightarrow>
   bit (push_bit j (ucast (x :: byte)) :: 'a::len word) (k + n) \<longleftrightarrow> j = k \<and> bit x n"
proof -
  assume n: "n < 8" and k: "k + 8 \<le> LENGTH('a)" and m: "j mod 8 = 0" "k mod 8 = 0"
  consider "j = k" | "j < k" | "k < j" by linarith
  then show ?thesis
  proof cases
    case 2
    then have "8 \<le> k + n - j" using m by presburger
    then show ?thesis using 2 byte_no_bit [of "k + n - j" x] by (simp add: bit_push_bit_iff bit_ucast_iff)
  next
    case 3
    then have "k + n < j" using m n by presburger
    then show ?thesis using 3 by (simp add: bit_push_bit_iff)
  qed (use n k in \<open>simp add: bit_push_bit_iff bit_ucast_iff\<close>)
qed

lemma cut_byte:
  assumes "\<And>n. n < 8 \<Longrightarrow> bit (w :: 'a::len word) (k + n) = bit (x :: byte) n"
  shows "ucast (drop_bit k w AND 0xFF) = x"
proof (rule bit_eqI)
  fix n assume "possible_bit TYPE(byte) n"
  then have n: "n < 8" by simp
  have m: "(0xFF :: 'a word) = mask 8" by (simp add: mask_numeral)
  have "n < LENGTH('a)" if "bit w (k + n)" using bit_imp_le_length [OF that] by simp
  then show "bit (ucast (drop_bit k w AND 0xFF) :: byte) n = bit x n"
    unfolding m using n assms [OF n] by (auto simp: bit_simps)
qed

lemma fixed32_bytes:
  assumes "length bs = 4"
  shows "[ucast (le_word32 bs AND 0xFF), ucast (drop_bit 8 (le_word32 bs) AND 0xFF), ucast (drop_bit 16 (le_word32 bs) AND 0xFF), ucast (drop_bit 24 (le_word32 bs) AND 0xFF)] = bs"
proof -
  obtain a b c d where bs: "bs = [a, b, c, d]"
    using assms by (auto simp: length_Suc_conv numeral_eq_Suc)
  have m: "0 mod 8 = (0 :: nat)" "8 mod 8 = (0 :: nat)" "16 mod 8 = (0 :: nat)" "24 mod 8 = (0 :: nat)" by simp_all
  have e: "ucast (drop_bit (8 * i) (le_word32 [a, b, c, d]) AND 0xFF) = [a, b, c, d] ! i" if i: "i < 4" for i
  proof (rule cut_byte)
    fix n :: nat assume n: "n < 8"
    have ii: "i \<in> {0, 1, 2, 3}" using i by auto
    have p: "bit (push_bit j (ucast (x :: byte)) :: u32) (8 * i + n) \<longleftrightarrow> j = 8 * i \<and> bit x n" if "j mod 8 = 0" for j x
      by (rule push_byte_bit) (use n i that in simp_all)
    show "bit (le_word32 [a, b, c, d]) (8 * i + n) = bit ([a, b, c, d] ! i) n"
      using ii
      unfolding le_word32_list bit_or_iff p [OF m(1)] p [OF m(2)] p [OF m(3)] p [OF m(4)] by (elim insertE emptyE) simp_all
  qed
  show ?thesis unfolding bs using e [of 0] e [of 1] e [of 2] e [of 3] by simp
qed

lemma fixed64_bytes:
  assumes "length bs = 8"
  shows "[ucast (le_word64 bs AND 0xFF), ucast (drop_bit 8 (le_word64 bs) AND 0xFF), ucast (drop_bit 16 (le_word64 bs) AND 0xFF), ucast (drop_bit 24 (le_word64 bs) AND 0xFF), ucast (drop_bit 32 (le_word64 bs) AND 0xFF), ucast (drop_bit 40 (le_word64 bs) AND 0xFF), ucast (drop_bit 48 (le_word64 bs) AND 0xFF), ucast (drop_bit 56 (le_word64 bs) AND 0xFF)] = bs"
proof -
  obtain a b c d a' b' c' d' where bs: "bs = [a, b, c, d, a', b', c', d']"
    using assms by (auto simp: length_Suc_conv numeral_eq_Suc)
  have m: "0 mod 8 = (0 :: nat)" "8 mod 8 = (0 :: nat)" "16 mod 8 = (0 :: nat)" "24 mod 8 = (0 :: nat)" "32 mod 8 = (0 :: nat)" "40 mod 8 = (0 :: nat)" "48 mod 8 = (0 :: nat)" "56 mod 8 = (0 :: nat)" by simp_all
  have e: "ucast (drop_bit (8 * i) (le_word64 [a, b, c, d, a', b', c', d']) AND 0xFF) = [a, b, c, d, a', b', c', d'] ! i" if i: "i < 8" for i
  proof (rule cut_byte)
    fix n :: nat assume n: "n < 8"
    have ii: "i \<in> {0, 1, 2, 3, 4, 5, 6, 7}" using i by auto
    have p: "bit (push_bit j (ucast (x :: byte)) :: u64) (8 * i + n) \<longleftrightarrow> j = 8 * i \<and> bit x n" if "j mod 8 = 0" for j x
      by (rule push_byte_bit) (use n i that in simp_all)
    show "bit (le_word64 [a, b, c, d, a', b', c', d']) (8 * i + n) = bit ([a, b, c, d, a', b', c', d'] ! i) n"
      using ii
      unfolding le_word64_list bit_or_iff p [OF m(1)] p [OF m(2)] p [OF m(3)] p [OF m(4)] p [OF m(5)] p [OF m(6)] p [OF m(7)] p [OF m(8)] by (elim insertE emptyE) simp_all
  qed
  show ?thesis unfolding bs using e [of 0] e [of 1] e [of 2] e [of 3] e [of 4] e [of 5] e [of 6] e [of 7] by simp
qed

lemma string_size_load:
  "load p (m - n) M = Some bs \<Longrightarrow> n \<le> m \<Longrightarrow> string_size n m p M = Some (n + length (takeWhile (\<lambda>b. b \<noteq> 0) bs))"
proof (induction "m - n" arbitrary: n p bs)
  case 0
  then show ?case using load_length [of p 0 M bs] by (simp add: string_size.simps)
next
  case (Suc d)
  then have "load p (Suc d) M = Some bs" by simp
  then obtain b cs where bs: "bs = b # cs" "load p 1 M = Some [b]" "load (p + 1) d M = Some cs" by (rule load_Suc)
  have n: "n < m" "d = m - (n + 1)" using Suc(2) by simp_all
  show ?case
  proof (cases "b = 0")
    case True
    then show ?thesis using bs n by (simp add: string_size.simps)
  next
    case False
    then show ?thesis using bs n Suc(1) [of "n + 1" "p + 1" cs] by (subst string_size.simps) simp
  qed
qed

lemma write_from_load: "load a n M = Some bs \<Longrightarrow> write_from a n M = pb_write bs n"
  by (rule ext) (auto simp: write_from_def given_def pb_write_def)

lemma given_Some [simp]: "given (Some x) f = f x"
  by (rule ext) (simp add: given_def)

lemma wire_type_value:
  assumes "static_value sb f a M = Some v"
  shows "pb_encode_tag_for_field f = pb_encode_tag (of_nat (wire_type v)) (tag f)" and "wire_type v < 8"
proof -
  have "PB_LTYPE_BOOL = 0" "PB_LTYPE_VARINT = 1" "PB_LTYPE_UVARINT = 2" "PB_LTYPE_SVARINT = 3" "PB_LTYPE_FIXED32 = 4"
    "PB_LTYPE_FIXED64 = 5" "PB_LTYPE_BYTES = 6" "PB_LTYPE_STRING = 7" "PB_LTYPE_SUBMESSAGE = 8"
    "PB_LTYPE_FIXED_LENGTH_BYTES = 10"
    by (simp_all add: PB_LTYPE_BOOL_def PB_LTYPE_VARINT_def PB_LTYPE_UVARINT_def PB_LTYPE_SVARINT_def
        PB_LTYPE_FIXED32_def PB_LTYPE_FIXED64_def PB_LTYPE_BYTES_def PB_LTYPE_STRING_def PB_LTYPE_SUBMESSAGE_def
        PB_LTYPE_FIXED_LENGTH_BYTES_def)
  note lt = this
  have "PB_WT_VARINT = 0" "PB_WT_64BIT = 1" "PB_WT_STRING = 2" "PB_WT_32BIT = 5"
    by (simp_all add: PB_WT_VARINT_def PB_WT_64BIT_def PB_WT_STRING_def PB_WT_32BIT_def)
  note wt = this
  show "pb_encode_tag_for_field f = pb_encode_tag (of_nat (wire_type v)) (tag f)"
    using assms unfolding pb_encode_tag_for_field_def static_value_def int_value_def bytes_value_def Let_def lt wt
    by (auto split: if_splits option.splits simp: bind_eq_Some_conv)
  show "wire_type v < 8" by (cases v) simp_all
qed

context wire_sink
begin

lemma emits_string_at:
  assumes "load a n M = Some bs" and "n < 2 ^ 64"
  shows "emits ostrm room (encode_string_at a n M) (varint_bytes n @ bs)"
  using emits_then [OF emits_varint [of "of_nat n"] emits_list [of n bs]] assms load_length [OF assms(1)]
  by (simp add: encode_string_at_def write_from_load [OF assms(1)] unat_of_nat)

lemma emits_tag_for_field:
  assumes "static_value sb f a M = Some v" and "tag f < 0x20000000"
  shows "emits ostrm room (pb_encode_tag_for_field f) (tag_bytes (unat (tag f)) (wire_type v))"
proof -
  have "unat (tag f) < 2 ^ 29" using assms(2) by (simp add: word_less_nat_alt)
  then show ?thesis using emits_tag [of "unat (tag f)" "wire_type v"] wire_type_value(2) [OF assms(1)]
    unfolding wire_type_value(1) [OF assms(1)] by simp
qed

lemma emits_int:
  assumes "int_value g f a M = Some v" and "\<And>x. emits ostrm room (put x) (varint_bytes (unat (h x)))"
    and "\<And>bs. length bs = 1 \<or> length bs = 2 \<or> length bs = 4 \<or> length bs = 8 \<Longrightarrow> g bs = unat (h (w bs))"
  shows "emits ostrm room (enc_integer w put f a M) (wire_bytes v)"
proof -
  let ?n = "unat (data_size f)"
  obtain bs where bs: "load a ?n M = Some bs" "v = Varint (varint_bytes (g bs))" "?n = 1 \<or> ?n = 2 \<or> ?n = 4 \<or> ?n = 8"
    using assms(1) by (auto simp: int_value_def Let_def split: if_splits)
  then have "g bs = unat (h (w bs))" using assms(3) load_length [OF bs(1)] by simp
  then show ?thesis using assms(2) [of "w bs"] bs by (auto simp: enc_integer_def Let_def)
qed

lemma emits_value:
  assumes v: "static_value sb f a M = Some v" and "PB_LTYPE f \<noteq> PB_LTYPE_SUBMESSAGE"
    and "PB_ATYPE f = PB_ATYPE_STATIC" and "a \<noteq> 0"
  shows "emits ostrm room (PB_ENCODERS sub (PB_LTYPE f) f a M) (wire_bytes v)"
proof -
  have u32: "unat (x :: u32) < 2 ^ 64" for x using unsigned_less [of x, where ?'a = nat] by simp
  have np: "PB_ATYPE f \<noteq> PB_ATYPE_POINTER" using assms(3) by (simp add: PB_ATYPE_STATIC_def PB_ATYPE_POINTER_def)
  let ?t = "PB_LTYPE f"
  consider "?t = PB_LTYPE_BOOL" | "?t = PB_LTYPE_VARINT" | "?t = PB_LTYPE_UVARINT" | "?t = PB_LTYPE_SVARINT"
    | "?t = PB_LTYPE_FIXED32" | "?t = PB_LTYPE_FIXED64" | "?t = PB_LTYPE_BYTES" | "?t = PB_LTYPE_STRING"
    | "?t = PB_LTYPE_FIXED_LENGTH_BYTES"
    using assms(1,2) by (auto simp: static_value_def Let_def split: if_splits)
  then show ?thesis
  proof cases
    case 1
    then show ?thesis using v emits_varint [of 1] emits_varint [of 0]
      by (auto simp: static_value_def PB_ENCODERS_def Let_def pb_enc_bool_def safe_read_bool_eq)
  next
    case 2
    then have "int_value (\<lambda>bs. mod_64 (signed_value bs)) f a M = Some v"
      using v by (simp add: static_value_def Let_def PB_LTYPE_VARINT_def PB_LTYPE_BOOL_def)
    from emits_int [OF this, of pb_encode_varint id extend_signed] 2 show ?thesis
      by (simp add: emits_varint extend_signed_number PB_ENCODERS_def pb_enc_varint_def PB_LTYPE_VARINT_def PB_LTYPE_BOOL_def)
  next
    case 3
    then have "int_value le_val f a M = Some v"
      using v by (simp add: static_value_def Let_def PB_LTYPE_UVARINT_def PB_LTYPE_VARINT_def PB_LTYPE_BOOL_def)
    then have "emits ostrm room (enc_integer extend_unsigned pb_encode_varint f a M) (wire_bytes v)"
      by (rule emits_int [where h = id]) (auto simp: emits_varint extend_unsigned_value)
    then show ?thesis using 3
      by (simp add: PB_ENCODERS_def pb_enc_uvarint_def PB_LTYPE_UVARINT_def PB_LTYPE_VARINT_def PB_LTYPE_BOOL_def)
  next
    case 4
    then have "int_value (\<lambda>bs. zigzag_number (signed_value bs)) f a M = Some v"
      using v by (simp add: static_value_def Let_def PB_LTYPE_SVARINT_def PB_LTYPE_UVARINT_def PB_LTYPE_VARINT_def PB_LTYPE_BOOL_def)
    from emits_int [OF this, of pb_encode_svarint zigzag extend_signed] 4 show ?thesis
      by (simp add: emits_svarint extend_signed_zigzag PB_ENCODERS_def pb_enc_svarint_def PB_LTYPE_SVARINT_def PB_LTYPE_UVARINT_def
          PB_LTYPE_VARINT_def PB_LTYPE_BOOL_def)
  next
    case 5
    then obtain bs where bs: "load a 4 M = Some bs" "v = Fixed32 bs"
      using v by (auto simp: static_value_def Let_def PB_LTYPE_FIXED32_def PB_LTYPE_SVARINT_def PB_LTYPE_UVARINT_def
          PB_LTYPE_VARINT_def PB_LTYPE_BOOL_def)
    have "(pb_encode_fixed32 (le_word32 bs) :: 's pb_writer) = pb_write bs 4"
      unfolding pb_encode_fixed32_def fixed32_bytes [OF load_length [OF bs(1)]] ..
    then show ?thesis using 5 bs emits_list [of 4 bs] load_length [OF bs(1)]
      by (simp add: PB_ENCODERS_def pb_enc_fixed32_def PB_LTYPE_FIXED32_def PB_LTYPE_SVARINT_def PB_LTYPE_UVARINT_def
          PB_LTYPE_VARINT_def PB_LTYPE_BOOL_def)
  next
    case 6
    then obtain bs where bs: "load a 8 M = Some bs" "v = Fixed64 bs"
      using v by (auto simp: static_value_def Let_def PB_LTYPE_FIXED64_def PB_LTYPE_FIXED32_def PB_LTYPE_SVARINT_def
          PB_LTYPE_UVARINT_def PB_LTYPE_VARINT_def PB_LTYPE_BOOL_def)
    have "(pb_encode_fixed64 (le_word64 bs) :: 's pb_writer) = pb_write bs 8"
      unfolding pb_encode_fixed64_def fixed64_bytes [OF load_length [OF bs(1)]] ..
    then show ?thesis using 6 bs emits_list [of 8 bs] load_length [OF bs(1)]
      by (simp add: PB_ENCODERS_def pb_enc_fixed64_def PB_LTYPE_FIXED64_def PB_LTYPE_FIXED32_def PB_LTYPE_SVARINT_def
          PB_LTYPE_UVARINT_def PB_LTYPE_VARINT_def PB_LTYPE_BOOL_def)
  next
    case 7
    then have "bytes_value f a M = Some v"
      using v by (auto simp: static_value_def Let_def PB_LTYPE_BYTES_def PB_LTYPE_FIXED64_def PB_LTYPE_FIXED32_def
          PB_LTYPE_SVARINT_def PB_LTYPE_UVARINT_def PB_LTYPE_VARINT_def PB_LTYPE_BOOL_def)
    then obtain n bs where n: "load_size a M = Some n" "unat n + 4 \<le> unat (data_size f)"
      "load (a + 4) (unat n) M = Some bs" "v = Delimited bs"
      by (auto simp: bytes_value_def bind_eq_Some_conv split: if_splits)
    then show ?thesis using 7 assms(3,4) emits_string_at [OF n(3) u32] load_length [OF n(3)]
      by (simp add: PB_ENCODERS_def pb_enc_bytes_def Let_def word_less_nat_alt u64_add_4 PB_LTYPE_BYTES_def
          PB_LTYPE_FIXED64_def PB_LTYPE_FIXED32_def
          PB_LTYPE_SVARINT_def PB_LTYPE_UVARINT_def PB_LTYPE_VARINT_def PB_LTYPE_BOOL_def)
  next
    case 8
    then obtain bs where bs: "load a (unat (data_size f)) M = Some bs" "v = Delimited (takeWhile (\<lambda>b. b \<noteq> 0) bs)"
      using v by (auto simp: static_value_def Let_def PB_LTYPE_STRING_def PB_LTYPE_BYTES_def PB_LTYPE_FIXED64_def
          PB_LTYPE_FIXED32_def PB_LTYPE_SVARINT_def PB_LTYPE_UVARINT_def PB_LTYPE_VARINT_def PB_LTYPE_BOOL_def)
    let ?w = "takeWhile (\<lambda>b. b \<noteq> 0) bs"
    have l: "length ?w \<le> unat (data_size f)" using length_takeWhile_le [of _ bs] load_length [OF bs(1)] by simp
    have "load a (length ?w) M = Some ?w" using load_take [OF bs(1) l] by (simp flip: takeWhile_eq_take)
    moreover have "length ?w < 2 ^ 64" using l u32 [of "data_size f"] by simp
    moreover have "string_size 0 (unat (data_size f)) a M = Some (length ?w)"
      using string_size_load [of a "unat (data_size f)" 0] bs(1) by simp
    ultimately show ?thesis using 8 np bs(2) assms(4) emits_string_at
      by (simp add: PB_ENCODERS_def pb_enc_string_def Let_def PB_LTYPE_STRING_def PB_LTYPE_BYTES_def
          PB_LTYPE_FIXED64_def PB_LTYPE_FIXED32_def
          PB_LTYPE_SVARINT_def PB_LTYPE_UVARINT_def PB_LTYPE_VARINT_def PB_LTYPE_BOOL_def)
  next
    case 9
    then obtain bs where bs: "load a (unat (data_size f)) M = Some bs" "v = Delimited bs"
      using v by (auto simp: static_value_def Let_def PB_LTYPE_FIXED_LENGTH_BYTES_def PB_LTYPE_SUBMESSAGE_def
          PB_LTYPE_STRING_def PB_LTYPE_BYTES_def PB_LTYPE_FIXED64_def
          PB_LTYPE_FIXED32_def PB_LTYPE_SVARINT_def PB_LTYPE_UVARINT_def PB_LTYPE_VARINT_def PB_LTYPE_BOOL_def)
    then show ?thesis using 9 emits_string_at [OF bs(1) u32] load_length [OF bs(1)]
      by (simp add: PB_ENCODERS_def pb_enc_fixed_length_bytes_def PB_LTYPE_FIXED_LENGTH_BYTES_def PB_LTYPE_SUBMESSAGE_def
          PB_LTYPE_STRING_def PB_LTYPE_BYTES_def
          PB_LTYPE_FIXED64_def PB_LTYPE_FIXED32_def
          PB_LTYPE_SVARINT_def PB_LTYPE_UVARINT_def PB_LTYPE_VARINT_def PB_LTYPE_BOOL_def)
  qed
qed

end

end
