(* ===== verification/PbEncRef.thy ===== *)
theory PbEncRef
  imports PbEncSpec
begin

text \<open>
  Output streams that submessages can be written to, and the proof that the encoder of messages
  writes the bytes of the specification.
\<close>

lemma length_concat_const: "\<forall>v\<in>set vs. length (g v) = c \<Longrightarrow> length (concat (map g vs)) = c * length vs"
  by (induction vs) simp_all

section \<open>Default values\<close>

text \<open>The check of all fields of a message, and functions that say the same where they say something.\<close>

definition check_message :: "pb_env \<Rightarrow> nat \<Rightarrow> int \<Rightarrow> pb_mem \<Rightarrow> bool option" where
  "check_message env k a M =
     (if fst (pb_field_iter_begin (env k) a) then defaults_from env (snd (pb_field_iter_begin (env k) a)) M
      else Some True)"

definition says_default :: "pb_env \<Rightarrow> (nat \<Rightarrow> int \<Rightarrow> pb_mem \<Rightarrow> bool option) \<Rightarrow> nat \<Rightarrow> bool" where
  "says_default env md n \<longleftrightarrow> (\<forall>j a M b. j < n \<longrightarrow> md j a M = Some b \<longrightarrow> check_message env j a M = Some b)"

lemma field_default_check:
  assumes b: "field_default md f a M = Some b" and f: "static_ok sz k f" and md: "says_default env md k"
  shows "pb_check_proto3_default_value env f a M = Some b"
proof -
  have st: "PB_ATYPE f = PB_ATYPE_STATIC" "PB_ATYPE_STATIC \<noteq> PB_ATYPE_POINTER"
    using static_ok_simps(1) [OF f] by (simp_all add: PB_ATYPE_STATIC_def PB_ATYPE_POINTER_def)
  have h: "PB_HTYPE_REQUIRED \<noteq> PB_HTYPE_OPTIONAL" "PB_HTYPE_REPEATED \<noteq> PB_HTYPE_OPTIONAL" "PB_HTYPE_ONEOF \<noteq> PB_HTYPE_OPTIONAL"
      "PB_HTYPE_REPEATED \<noteq> PB_HTYPE_REQUIRED" "PB_HTYPE_ONEOF \<noteq> PB_HTYPE_REQUIRED" "PB_HTYPE_OPTIONAL \<noteq> PB_HTYPE_REQUIRED"
      "PB_HTYPE_ONEOF \<noteq> PB_HTYPE_REPEATED" "PB_HTYPE_OPTIONAL \<noteq> PB_HTYPE_REPEATED" "PB_HTYPE_OPTIONAL \<noteq> PB_HTYPE_ONEOF"
    by (simp_all add: PB_HTYPE_REQUIRED_def PB_HTYPE_OPTIONAL_def PB_HTYPE_REPEATED_def PB_HTYPE_ONEOF_def)
  show ?thesis
  proof (cases "PB_HTYPE f = PB_HTYPE_REQUIRED \<or> PB_HTYPE f = PB_HTYPE_REPEATED \<or> PB_HTYPE f = PB_HTYPE_ONEOF
      \<or> PB_HTYPE f = PB_HTYPE_OPTIONAL \<and> size_offset f \<noteq> 0")
    case True
    then have "proto3_default f a M = Some (Some b)"
      using b st(1) unfolding field_default_def proto3_default_def Let_def safe_read_bool_eq
      by (elim disjE conjE) (auto simp: h PB_ATYPE_STATIC_def split: if_splits)
    then show ?thesis by (simp add: pb_check_proto3_default_value_def)
  next
    case False
    then have v: "value_default md f a M = Some b" using b by (auto simp: field_default_def)
    have p: "pb_check_proto3_default_value env f a M =
      (if PB_LTYPE f = PB_LTYPE_BYTES then map_option (\<lambda>n. n = 0) (load_size a M)
       else if PB_LTYPE f = PB_LTYPE_STRING then map_option (\<lambda>bs. bs = [0]) (load a 1 M)
       else if PB_LTYPE f = PB_LTYPE_FIXED_LENGTH_BYTES then Some (data_size f = 0)
       else if PB_LTYPE f = PB_LTYPE_SUBMESSAGE then Option.bind (submsg_fields (ptr f)) (\<lambda>k. check_message env k a M)
       else zero_bytes (unat (data_size f)) a M)"
      using False st
      by (auto simp: pb_check_proto3_default_value_def proto3_default_def Let_def check_message_def map_option_case
          split: option.split)
    have one: "bs = [0] \<longleftrightarrow> takeWhile (\<lambda>b. b \<noteq> 0) bs = []" if "load a 1 M = Some bs" for bs
      using load_length [OF that] by (auto simp: length_Suc_conv split: if_splits)
    have lt: "PB_LTYPE_FIXED_LENGTH_BYTES \<noteq> PB_LTYPE_SUBMESSAGE" "PB_LTYPE_SUBMESSAGE \<noteq> PB_LTYPE_BYTES"
        "PB_LTYPE_SUBMESSAGE \<noteq> PB_LTYPE_STRING"
      by (simp_all add: PB_LTYPE_FIXED_LENGTH_BYTES_def PB_LTYPE_SUBMESSAGE_def PB_LTYPE_BYTES_def PB_LTYPE_STRING_def)
    show ?thesis
    proof (cases "PB_LTYPE f = PB_LTYPE_SUBMESSAGE")
      case True
      obtain j where "ptr f = Submsg_ptr j" "j < k" using static_ok_simps(3) [OF f True] by blast
      then show ?thesis using v md True lt unfolding p by (simp add: value_default_def says_default_def)
    next
      case no: False
      show ?thesis using v no one unfolding p value_default_def Let_def
        by (auto split: if_splits simp: unat_eq_0 dest: zero_bytes_load)
    qed
  qed
qed

lemma defaults_from_step:
  "defaults_from env it M = do {
     b \<leftarrow> pb_check_proto3_default_value env (cur it) (pData it) M;
     if \<not> b then Some False
     else if fst (pb_field_iter_next it) then defaults_from env (snd (pb_field_iter_next it)) M
     else Some True
   }"
  by (subst defaults_from.simps) (simp add: pb_check_proto3_default_value_def)

lemma defaults_from_all:
  assumes "all_default (\<lambda>it. field_default md (cur it) (pData it) M) (iters it) = Some b"
    and "\<And>it'. it' \<in> set (iters it) \<Longrightarrow> static_ok sz k (cur it')" and "says_default env md k"
  shows "defaults_from env it M = Some b"
  using assms
proof (induction it rule: iters.induct)
  case (1 it)
  let ?n = "pb_field_iter_next it"
  have its: "iters it = it # (if fst ?n then iters (snd ?n) else [])" by (rule iters.simps)
  obtain c where c: "field_default md (cur it) (pData it) M = Some c"
    using 1(2) unfolding its by (auto simp: bind_eq_Some_conv)
  have ok: "static_ok sz k (cur it)" by (rule 1(3)) (simp add: its)
  have chk: "pb_check_proto3_default_value env (cur it) (pData it) M = Some c"
    by (rule field_default_check [OF c ok 1(4)])
  have ih: "defaults_from env (snd ?n) M = Some b" if "fst ?n" "c"
  proof (rule 1(1) [OF that(1) _ _ 1(4)])
    show "all_default (\<lambda>it. field_default md (cur it) (pData it) M) (iters (snd ?n)) = Some b"
      using 1(2) c that unfolding its by simp
    show "\<And>it'. it' \<in> set (iters (snd ?n)) \<Longrightarrow> static_ok sz k (cur it')" using 1(3) that(1) by (simp add: its)
  qed
  show ?case using 1(2) c chk ih unfolding its by (subst defaults_from_step) (auto split: if_splits)
qed

lemma iters_fields:
  assumes "proper (it_start it)" and "it_pos it < length (it_start it)"
  shows "map cur (iters it) = drop (it_pos it) (it_start it)"
  using assms
proof (induction it rule: iters.induct)
  case (1 it)
  let ?n = "pb_field_iter_next it" and ?fs = "it_start it" and ?i = "it_pos it"
  have its: "iters it = it # (if fst ?n then iters (snd ?n) else [])" by (rule iters.simps)
  have nx: "fst ?n \<longleftrightarrow> ?i + 1 < length ?fs" by (rule next_iff [OF 1(2)])
  have d: "drop ?i ?fs = cur it # drop (Suc ?i) ?fs"
    using 1(3) by (simp add: cur_def field_at_def Cons_nth_drop_Suc)
  show ?case
  proof (cases "fst ?n")
    case False
    then show ?thesis using nx unfolding its d by simp
  next
    case True
    then have n: "it_start (snd ?n) = ?fs" "it_pos (snd ?n) = Suc ?i" by (cases it rule: next_cases; simp)+
    then show ?thesis using 1 True nx unfolding its d by simp
  qed
qed

lemma static_fields:
  assumes wf: "wf_messages env sz N" and k: "k < N" and ne: "env k \<noteq> []"
  shows "list_all (\<lambda>f. PB_ATYPE f = PB_ATYPE_STATIC) (env k)"
  unfolding list_all_iff
proof
  fix f assume "f \<in> set (env k)"
  moreover have "map cur (positions (env k) 0) = env k"
    using iters_fields [of "snd (pb_field_iter_begin (env k) 0)"] wf_proper [OF wf k] ne
    by (simp add: positions_def)
  ultimately have "f \<in> cur ` set (positions (env k) 0)" by (metis set_map)
  then obtain it where "it \<in> set (positions (env k) 0)" "f = cur it" by blast
  then show "PB_ATYPE f = PB_ATYPE_STATIC"
    using wf_position [OF wf_messagesD [OF wf k]] static_ok_simps(1) by (metis field_fits_def)
qed

lemma says_default_message:
  assumes wf: "wf_messages env sz N"
  shows "says_default env (message_default d env) N"
proof (induction d)
  case 0
  show ?case by (simp add: says_default_def)
next
  case (Suc d)
  show ?case
    unfolding says_default_def
  proof (intro allI impI)
    fix k a M b
    assume k: "k < N" and b: "message_default (Suc d) env k a M = Some b"
    show "check_message env k a M = Some b"
    proof (cases "env k = []")
      case True
      then show ?thesis using b by (simp add: check_message_def field_places_def field_at_def PB_LAST_FIELD_def)
    next
      case False
      let ?it = "snd (pb_field_iter_begin (env k) a)"
      have pr: "proper (env k)" by (rule wf_proper [OF wf k])
      have pos: "map (\<lambda>it. (cur it, pData it)) (iters ?it) = field_places (env k) a"
        using positions_places [OF pr False static_fields [OF wf k False]] by (simp add: positions_def)
      have "all_default (\<lambda>it. field_default (message_default d env) (cur it) (pData it) M) (iters ?it) = Some b"
        using b unfolding message_default.simps pos [symmetric] all_default_map by (simp add: comp_def)
      moreover have "static_ok sz k (cur it')" if "it' \<in> set (iters ?it)" for it'
        using wf_position [OF wf_messagesD [OF wf k]] that by (auto simp: positions_def field_fits_def)
      moreover have "says_default env (message_default d env) k"
        using Suc k unfolding says_default_def by (meson less_trans)
      ultimately have "defaults_from env ?it M = Some b" by (rule defaults_from_all)
      moreover have "tag (field_at (env k) 0) \<noteq> 0" using proper_tag [OF pr, of 0] False by simp
      ultimately show ?thesis by (simp add: check_message_def)
    qed
  qed
qed

section \<open>Streams with inner streams\<close>

text \<open>
  A writer sends \<open>xs\<close> if it appends them wherever they fit and fails elsewhere; the stream
  must be \<open>clean\<close>, because an error message of before does not survive a submessage.
\<close>

definition sends :: "('c \<Rightarrow> byte list \<Rightarrow> 's pb_ostream) \<Rightarrow> ('c \<Rightarrow> nat) \<Rightarrow> ('c \<Rightarrow> bool) \<Rightarrow>
  's pb_writer \<Rightarrow> byte list \<Rightarrow> bool" where
  "sends ostrm room clean w xs \<longleftrightarrow> (\<forall>c ys. clean c \<longrightarrow> length ys \<le> room c \<longrightarrow> length ys + length xs < 2 ^ 64 \<longrightarrow>
     (if length ys + length xs \<le> room c then w (ostrm c ys) = Some (True, ostrm c (ys @ xs))
      else \<exists>s. w (ostrm c ys) = Some (False, s)))"

lemma sendsI:
  assumes "\<And>c ys. clean c \<Longrightarrow> length ys \<le> room c \<Longrightarrow> length ys + length xs < 2 ^ 64 \<Longrightarrow>
    if length ys + length xs \<le> room c then w (ostrm c ys) = Some (True, ostrm c (ys @ xs))
    else \<exists>s. w (ostrm c ys) = Some (False, s)"
  shows "sends ostrm room clean w xs"
  using assms by (simp add: sends_def)

lemma emits_sends: "emits ostrm room w xs \<Longrightarrow> sends ostrm room clean w xs"
  unfolding emits_def sends_def by meson

lemma sends_ok: "sends ostrm room clean out_ok []"
  by (simp add: sends_def out_ok_def)

lemma sends_then:
  assumes "sends ostrm room clean w xs" and "sends ostrm room clean v ys"
  shows "sends ostrm room clean (out_then w v) (xs @ ys)"
proof (rule sendsI)
  fix c and zs :: "byte list"
  assume c: "clean c" and r: "length zs \<le> room c" and l: "length zs + length (xs @ ys) < 2 ^ 64"
  then have l1: "length zs + length xs < 2 ^ 64" "length (zs @ xs) + length ys < 2 ^ 64" by simp_all
  note w = assms(1) [unfolded sends_def, rule_format, OF c r l1(1)]
  note v = assms(2) [unfolded sends_def, rule_format, OF c _ l1(2)]
  show "if length zs + length (xs @ ys) \<le> room c
    then out_then w v (ostrm c zs) = Some (True, ostrm c (zs @ xs @ ys))
    else \<exists>s. out_then w v (ostrm c zs) = Some (False, s)"
  proof (cases "length zs + length xs \<le> room c")
    case True
    then have "w (ostrm c zs) = Some (True, ostrm c (zs @ xs))" using w by simp
    then show ?thesis using v True
      by (cases "length zs + (length xs + length ys) \<le> room c") (auto simp: out_then_def)
  next
    case False
    then obtain s where "w (ostrm c zs) = Some (False, s)" using w by auto
    then show ?thesis using False by (auto simp: out_then_def)
  qed
qed

text \<open>
  \<open>inner c ys n\<close> is the context of a substream of \<open>n\<close> bytes that begins behind the bytes \<open>ys\<close>.
\<close>

locale message_sink = wire_sink ostrm room
  for ostrm :: "'c \<Rightarrow> byte list \<Rightarrow> 's pb_ostream" and room :: "'c \<Rightarrow> nat" +
  fixes clean :: "'c \<Rightarrow> bool" and inner :: "'c \<Rightarrow> byte list \<Rightarrow> nat \<Rightarrow> 'c"
  assumes written: "length ys < 2 ^ 64 \<Longrightarrow> bytes_written (ostrm c ys) = length ys"
    and limit: "\<not> counting (ostrm c ys) \<Longrightarrow> max_size (ostrm c ys) = room c"
    and open_inner: "\<not> counting (ostrm c ys) \<Longrightarrow> length ys + n \<le> room c \<Longrightarrow>
      (ostrm c ys)\<lparr>max_size := n, bytes_written := 0, out_errmsg := None\<rparr> = ostrm (inner c ys n) []"
    and room_inner: "\<not> counting (ostrm c ys) \<Longrightarrow> length ys + n \<le> room c \<Longrightarrow> room (inner c ys n) = n"
    and clean_inner: "\<not> counting (ostrm c ys) \<Longrightarrow> length ys + n \<le> room c \<Longrightarrow> clean (inner c ys n)"
    and close_inner: "\<not> counting (ostrm c ys) \<Longrightarrow> clean c \<Longrightarrow> length ys + length zs \<le> room c \<Longrightarrow>
      (ostrm c ys)\<lparr>bytes_written := length ys + length zs,
        out_state := out_state (ostrm (inner c ys (length zs)) zs),
        out_errmsg := out_errmsg (ostrm (inner c ys (length zs)) zs)\<rparr> = ostrm c (ys @ zs)"
begin

abbreviation sending :: "'s pb_writer \<Rightarrow> byte list \<Rightarrow> bool" where
  "sending \<equiv> sends ostrm room clean"

text \<open>A writer that also counts correctly on a sizing stream.\<close>

definition counted :: "'s pb_writer \<Rightarrow> byte list \<Rightarrow> bool" where
  "counted w xs \<longleftrightarrow> (length xs < 2 ^ 64 \<longrightarrow> sending w xs \<and> sends sizing_sink (\<lambda>_. 2 ^ 64) (\<lambda>_. True) w xs)"

lemma sends_submessage:
  assumes "counted (sub k src M) xs"
  shows "sending (encode_submessage_with sub k src M) (varint_bytes (length xs) @ xs)"
proof (rule sendsI)
  fix c and ys :: "byte list"
  let ?len = "varint_bytes (length xs)" and ?w = "encode_submessage_with sub k src M"
  assume c: "clean c" and r: "length ys \<le> room c" and l: "length ys + length (?len @ xs) < 2 ^ 64"
  have lx: "length xs < 2 ^ 64" and l1: "length ys + length ?len < 2 ^ 64" using l by simp_all
  have sub: "sending (sub k src M) xs" "sends sizing_sink (\<lambda>_. 2 ^ 64) (\<lambda>_. True) (sub k src M) xs"
    using assms lx by (simp_all add: counted_def)
  have sz: "sub k src M PB_OSTREAM_SIZING = Some (True, PB_OSTREAM_SIZING\<lparr>bytes_written := length xs\<rparr>)"
    using sub(2) [unfolded sends_def, rule_format, of "[]" "()"] lx by (simp add: sizing_sink_def PB_OSTREAM_SIZING_def)
  have bw: "bytes_written ((PB_OSTREAM_SIZING :: 's pb_ostream)\<lparr>bytes_written := length xs\<rparr>) = length xs" by simp
  have w: "?w s = out_then (pb_encode_varint (of_nat (length xs))) (\<lambda>s.
      if counting s then pb_write [] (length xs) s
      else if (bytes_written s + length xs) mod size_max1 > max_size s then OUT_RETURN_ERROR ''stream full'' s
      else
        (case sub k src M (s\<lparr>max_size := length xs, bytes_written := 0, out_errmsg := None\<rparr>) of
           None \<Rightarrow> None
         | Some (status, substream) \<Rightarrow>
             let s = s\<lparr>bytes_written := (bytes_written s + bytes_written substream) mod size_max1,
                       out_state := out_state substream, out_errmsg := out_errmsg substream\<rparr> in
             if bytes_written substream \<noteq> length xs then OUT_RETURN_ERROR ''submsg size changed'' s
             else Some (status, s))) s" for s :: "'s pb_ostream"
    by (simp only: encode_submessage_with_def Let_def sz option.case prod.case bool.case bw)
  have len: "emits ostrm room (pb_encode_varint (of_nat (length xs))) ?len"
    using emits_varint [of "of_nat (length xs)"] lx by (simp add: unat_of_nat)
  note len = len [unfolded emits_def, rule_format, OF r l1]
  show "if length ys + length (?len @ xs) \<le> room c then ?w (ostrm c ys) = Some (True, ostrm c (ys @ ?len @ xs))
    else \<exists>s. ?w (ostrm c ys) = Some (False, s)"
  proof (cases "length ys + length ?len \<le> room c")
    case False
    then show ?thesis using len unfolding w by (auto simp: out_then_def)
  next
    case True
    then have p: "pb_encode_varint (of_nat (length xs)) (ostrm c ys) = Some (True, ostrm c (ys @ ?len))" using len by simp
    let ?s = "ostrm c (ys @ ?len)"
    have lw: "bytes_written ?s = length ys + length ?len" using written [of "ys @ ?len"] l1 by simp
    have m: "(length ys + length ?len + length xs) mod size_max1 = length ys + length ?len + length xs"
      using l by simp
    show ?thesis
    proof (cases "counting ?s")
      case True
      have "pb_write [] (length xs) ?s = pb_write xs (length xs) ?s" using True by (simp add: pb_write_def)
      moreover have "length (ys @ ?len) \<le> room c" "length (ys @ ?len) + length xs < 2 ^ 64"
        using \<open>length ys + length ?len \<le> room c\<close> l by simp_all
      note emits_write [unfolded emits_def, rule_format, OF this]
      ultimately show ?thesis using True p unfolding w by (auto simp: out_then_def)
    next
      case nc: False
      show ?thesis
      proof (cases "length ys + length (?len @ xs) \<le> room c")
        case False
        then show ?thesis using nc p limit [OF nc] lw m unfolding w
          by (simp add: out_then_def OUT_RETURN_ERROR_def)
      next
        case fits: True
        then have f: "length (ys @ ?len) + length xs \<le> room c" by simp
        let ?c = "inner c (ys @ ?len) (length xs)"
        have "sub k src M (ostrm ?c []) = Some (True, ostrm ?c xs)"
          using sub(1) [unfolded sends_def, rule_format, of ?c "[]"] clean_inner [OF nc f] room_inner [OF nc f] lx by simp
        moreover have "bytes_written (ostrm ?c xs) = length xs" by (rule written [OF lx])
        moreover have "?s\<lparr>bytes_written := length ys + length ?len + length xs, out_state := out_state (ostrm ?c xs),
            out_errmsg := out_errmsg (ostrm ?c xs)\<rparr> = ostrm c (ys @ ?len @ xs)"
          using close_inner [OF nc c f] by simp
        ultimately show ?thesis
          using nc p limit [OF nc] lw m fits open_inner [OF nc f] unfolding w
          by (simp add: out_then_def Let_def)
      qed
    qed
  qed
qed


section \<open>Fields and messages\<close>

text \<open>The bytes of submessages, at addresses that are not null.\<close>

definition sub_counted :: "(nat \<Rightarrow> int \<Rightarrow> pb_mem \<Rightarrow> byte list option) \<Rightarrow> 's pb_enc_sub \<Rightarrow> nat \<Rightarrow> bool" where
  "sub_counted sb sub n \<longleftrightarrow> (\<forall>j a M bs. j < n \<longrightarrow> 0 < a \<longrightarrow> sb j a M = Some bs \<longrightarrow> counted (sub j a M) bs)"

lemma sends_value:
  assumes v: "static_value sb f a M = Some v" and f: "static_ok sz k f" and k: "k \<le> n"
    and sub: "sub_counted sb sub n" and a: "0 < a"
  shows "sending (PB_ENCODERS sub (PB_LTYPE f) f a M) (wire_bytes v)"
proof (cases "PB_LTYPE f = PB_LTYPE_SUBMESSAGE")
  case False
  then show ?thesis using emits_value [OF v False static_ok_simps(1) [OF f]] a by (auto intro: emits_sends)
next
  case True
  obtain j where j: "ptr f = Submsg_ptr j" "j < k" using static_ok_simps(3) [OF f True] by blast
  have nlt: "PB_LTYPE_SUBMESSAGE \<noteq> PB_LTYPE_BOOL" "PB_LTYPE_SUBMESSAGE \<noteq> PB_LTYPE_VARINT"
    "PB_LTYPE_SUBMESSAGE \<noteq> PB_LTYPE_UVARINT" "PB_LTYPE_SUBMESSAGE \<noteq> PB_LTYPE_SVARINT"
    "PB_LTYPE_SUBMESSAGE \<noteq> PB_LTYPE_FIXED32" "PB_LTYPE_SUBMESSAGE \<noteq> PB_LTYPE_FIXED64"
    "PB_LTYPE_SUBMESSAGE \<noteq> PB_LTYPE_BYTES" "PB_LTYPE_SUBMESSAGE \<noteq> PB_LTYPE_STRING"
    by (simp_all add: PB_LTYPE_BOOL_def PB_LTYPE_VARINT_def PB_LTYPE_UVARINT_def PB_LTYPE_SVARINT_def
        PB_LTYPE_FIXED32_def PB_LTYPE_FIXED64_def PB_LTYPE_BYTES_def PB_LTYPE_STRING_def PB_LTYPE_SUBMESSAGE_def)
  obtain bs where bs: "sb j a M = Some bs" "v = Delimited bs"
    using v True j(1) nlt by (auto simp: static_value_def Let_def)
  have "counted (sub j a M) bs" using sub j(2) k a bs(1) unfolding sub_counted_def by (meson order_less_le_trans)
  from sends_submessage [where sub = sub and k = j and src = a and M = M, OF this] show ?thesis
    using True j(1) nlt bs(2) by (simp add: PB_ENCODERS_def pb_enc_submessage_def)
qed

lemma sends_entries:
  assumes "\<And>p v. 0 < p \<Longrightarrow> g p = Some v \<Longrightarrow> sends os rm cl (put p) (h v)" and "0 < a" and "entry_values g step a n = Some vs"
  shows "sends os rm cl (encode_entries put step a n) (concat (map h vs))"
  using assms(2,3)
proof (induction n arbitrary: a vs)
  case 0
  then show ?case using sends_ok by simp
next
  case (Suc n)
  then obtain v ws where v: "g a = Some v" "entry_values g step (a + int step) n = Some ws" "vs = v # ws"
    by (auto simp: bind_eq_Some_conv)
  have "sends os rm cl (encode_entries put step (a + int step) n) (concat (map h ws))"
    using Suc(1) [OF _ v(2)] Suc(2) by simp
  then show ?case using sends_then [OF assms(1) [OF Suc(2) v(1)]] v(3) by simp
qed

lemma entry_values_all:
  "entry_values g step a n = Some vs \<Longrightarrow> length vs = n \<and> (\<forall>v\<in>set vs. \<exists>p. g p = Some v)"
  by (induction n arbitrary: a vs) (auto simp: bind_eq_Some_conv)

lemma sends_tagged:
  assumes v: "static_value sb f a M = Some v" and t: "tag f < 0x20000000"
    and w: "sending w (wire_bytes v)"
  shows "sending (out_then (pb_encode_tag_for_field f) w) (tagged f v)"
  unfolding tagged_def by (rule sends_then [OF emits_sends [OF emits_tag_for_field [OF v t]] w])

lemma tag_string:
  assumes "tag f < 0x20000000"
  shows "emits ostrm room (pb_encode_tag PB_WT_STRING (tag f)) (tag_bytes (unat (tag f)) 2)"
proof -
  have "unat (tag f) < 2 ^ 29" using assms by (simp add: word_less_nat_alt)
  then show ?thesis using emits_tag [of "unat (tag f)" 2] by (simp add: PB_WT_STRING_def)
qed

lemma ltype_packable: "PB_LTYPE f \<le> PB_LTYPE_LAST_PACKABLE \<Longrightarrow> PB_LTYPE f \<noteq> PB_LTYPE_SUBMESSAGE"
  by (auto simp: PB_LTYPE_LAST_PACKABLE_def PB_LTYPE_SUBMESSAGE_def)

text \<open>The first pass over a packed array finds the size.\<close>

lemma packed_size_exact:
  assumes vs: "entry_values (\<lambda>p. static_value sb f p M) (unat (data_size f)) a n = Some vs"
    and f: "static_ok sz k f" and p: "PB_LTYPE f \<le> PB_LTYPE_LAST_PACKABLE" and a: "0 < a"
    and l: "length (concat (map wire_bytes vs)) < 2 ^ 64"
  shows "packed_size f (\<lambda>p. (PB_ENCODERS sub (PB_LTYPE f) f p M :: 's pb_writer)) a n =
    Some (True, length (concat (map wire_bytes vs)))"
proof -
  have len: "length (concat (map wire_bytes vs)) = c * n"
    if "\<And>p v. static_value sb f p M = Some v \<Longrightarrow> length (wire_bytes v) = c" for c
  proof -
    have "\<forall>v\<in>set vs. length (wire_bytes v) = c" and ln: "length vs = n" using entry_values_all [OF vs] that by auto
    then show ?thesis using length_concat_const [of vs wire_bytes c] by simp
  qed
  show ?thesis
  proof (cases "PB_LTYPE f = PB_LTYPE_FIXED32 \<or> PB_LTYPE f = PB_LTYPE_FIXED64")
    case True
    have l4: "length (wire_bytes v) = 4" if "PB_LTYPE f = PB_LTYPE_FIXED32" "static_value sb f p M = Some v" for p v
      using that load_length by (auto simp: static_value_def Let_def PB_LTYPE_FIXED32_def PB_LTYPE_BOOL_def
          PB_LTYPE_VARINT_def PB_LTYPE_UVARINT_def PB_LTYPE_SVARINT_def)
    have l8: "length (wire_bytes v) = 8" if "PB_LTYPE f = PB_LTYPE_FIXED64" "static_value sb f p M = Some v" for p v
      using that load_length by (auto simp: static_value_def Let_def PB_LTYPE_FIXED64_def PB_LTYPE_FIXED32_def PB_LTYPE_BOOL_def
          PB_LTYPE_VARINT_def PB_LTYPE_UVARINT_def PB_LTYPE_SVARINT_def)
    have "PB_LTYPE_FIXED64 \<noteq> PB_LTYPE_FIXED32" by (simp add: PB_LTYPE_FIXED64_def PB_LTYPE_FIXED32_def)
    then show ?thesis using True len [of 4] len [of 8] l4 l8 by (auto simp: packed_size_def)
  next
    case False
    have "sends sizing_sink (\<lambda>_. 2 ^ 64) (\<lambda>_. True) (encode_entries (\<lambda>p. PB_ENCODERS sub (PB_LTYPE f) f p M :: 's pb_writer)
        (unat (data_size f)) a n) (concat (map wire_bytes vs))"
    proof (rule sends_entries [OF _ a vs])
      fix p :: int and v assume "0 < p" and v: "static_value sb f p M = Some v"
      then show "sends sizing_sink (\<lambda>_. 2 ^ 64) (\<lambda>_. True) (PB_ENCODERS sub (PB_LTYPE f) f p M :: 's pb_writer) (wire_bytes v)"
        by (intro emits_sends sizing.emits_value [OF v ltype_packable [OF p] static_ok_simps(1) [OF f]]) simp
    qed
    from this [unfolded sends_def, rule_format, of "[]" "()"] l
    have "encode_entries (\<lambda>p. PB_ENCODERS sub (PB_LTYPE f) f p M :: 's pb_writer) (unat (data_size f)) a n PB_OSTREAM_SIZING =
        Some (True, PB_OSTREAM_SIZING\<lparr>bytes_written := length (concat (map wire_bytes vs))\<rparr>)"
      by (simp add: sizing_sink_def PB_OSTREAM_SIZING_def)
    then show ?thesis using False by (simp add: packed_size_def)
  qed
qed


lemma sends_array:
  assumes vs: "entry_values (\<lambda>p. static_value sb f p M) (unat (data_size f)) a (unat n) = Some vs"
    and f: "static_ok sz k f" and k: "k \<le> N" and sub: "sub_counted sb sub N" and a: "0 < a"
    and n: "n \<le> array_size f" and t: "tag f < 0x20000000"
  shows "sending (encode_array f a n (PB_ENCODERS sub (PB_LTYPE f)) M) (array_bytes f vs)"
proof -
  let ?put = "\<lambda>p. PB_ENCODERS sub (PB_LTYPE f) f p M :: 's pb_writer"
  have np: "PB_ATYPE f \<noteq> PB_ATYPE_POINTER"
    using static_ok_simps(1) [OF f] by (simp add: PB_ATYPE_STATIC_def PB_ATYPE_POINTER_def)
  have lv: "length vs = unat n" using entry_values_all [OF vs] by simp
  have nn: "\<not> array_size f < n" using n by (simp only: not_less)
  consider "n = 0" | "n \<noteq> 0" "PB_LTYPE f \<le> PB_LTYPE_LAST_PACKABLE" | "n \<noteq> 0" "\<not> PB_LTYPE f \<le> PB_LTYPE_LAST_PACKABLE"
    by blast
  then show ?thesis
  proof cases
    case 1
    then show ?thesis using lv sends_ok by (simp add: encode_array_def array_bytes_def)
  next
    case 2
    let ?bs = "concat (map wire_bytes vs)"
    have ne: "vs \<noteq> []" using 2(1) lv by (auto simp: unat_eq_0)
    have ab: "array_bytes f vs = tag_bytes (unat (tag f)) 2 @ varint_bytes (length ?bs) @ ?bs"
      using ne 2(2) by (simp add: array_bytes_def)
    show ?thesis
    proof (cases "length ?bs < 2 ^ 64")
      case False
      then show ?thesis unfolding ab sends_def by simp
    next
      case l: True
      have eq: "encode_array f a n (PB_ENCODERS sub (PB_LTYPE f)) M =
          (out_then (pb_encode_tag PB_WT_STRING (tag f)) (out_then (pb_encode_varint (of_nat (length ?bs))) (\<lambda>s.
            if counting s then pb_write [] (length ?bs) s
            else encode_entries ?put (unat (data_size f)) a (unat n) s)) :: 's pb_writer)"
        using 2 nn np packed_size_exact [OF vs f 2(2) a l] by (simp add: encode_array_def Let_def)
      have body: "sending (\<lambda>s. if counting s then pb_write [] (length ?bs) s
            else encode_entries ?put (unat (data_size f)) a (unat n) s) ?bs"
      proof -
        have e: "sending (encode_entries ?put (unat (data_size f)) a (unat n)) ?bs"
          by (rule sends_entries [OF _ a vs]) (rule sends_value [OF _ f k sub])
        have c: "pb_write [] (length ?bs) s = pb_write ?bs (length ?bs) s" if "counting s" for s :: "'s pb_ostream"
          using that by (simp add: pb_write_def)
        have w: "sending (pb_write ?bs (length ?bs)) ?bs" by (rule emits_sends [OF emits_write])
        show ?thesis using e w c unfolding sends_def by (auto split: if_splits)
      qed
      have "sending (pb_encode_varint (of_nat (length ?bs))) (varint_bytes (length ?bs))"
        using emits_sends [OF emits_varint [of "of_nat (length ?bs)"]] l by (simp add: unat_of_nat)
      from sends_then [OF emits_sends [OF tag_string [OF t]] sends_then [OF this body]] show ?thesis
        unfolding eq ab .
    qed
  next
    case 3
    have ne: "vs \<noteq> []" using 3(1) lv by (auto simp: unat_eq_0)
    have "sending (encode_entries (\<lambda>p. out_then (pb_encode_tag_for_field f) (?put p)) (unat (data_size f)) a (unat n))
        (concat (map (tagged f) vs))"
      by (rule sends_entries [OF _ a vs]) (rule sends_tagged [OF _ t sends_value [OF _ f k sub]])
    then show ?thesis using 3 nn np ne by (simp add: encode_array_def Let_def array_bytes_def)
  qed
qed

lemma sends_field:
  assumes bs: "field_bytes md sb f a M = Some bs" and md: "says_default (fields_of W) md k"
    and f: "static_ok sz k f" and k: "k \<le> N" and sub: "sub_counted sb sub N" and a: "0 < a"
    and t: "tag f < 0x20000000"
  shows "sending (encode_field W sub f a M) bs"
proof -
  have st: "PB_ATYPE f = PB_ATYPE_STATIC" "PB_ATYPE f \<noteq> PB_ATYPE_POINTER"
    using static_ok_simps(1) [OF f] by (simp_all add: PB_ATYPE_STATIC_def PB_ATYPE_POINTER_def)
  let ?w = "out_then (pb_encode_tag_for_field f) (PB_ENCODERS sub (PB_LTYPE f) f a M)"
  have val: "sending ?w cs" if "map_option (tagged f) (static_value sb f a M) = Some cs" for cs
    using that sends_tagged [OF _ t sends_value [OF _ f k sub a]] by auto
  have field: "encode_field W sub f a M = encode_basic_field W sub f a M" using st by (simp add: encode_field_def)
  consider "PB_HTYPE f = PB_HTYPE_REQUIRED" | "PB_HTYPE f = PB_HTYPE_OPTIONAL" "size_offset f \<noteq> 0"
    | "PB_HTYPE f = PB_HTYPE_OPTIONAL" "size_offset f = 0"
    | "PB_HTYPE f = PB_HTYPE_REPEATED" | "PB_HTYPE f = PB_HTYPE_ONEOF"
    using bs by (auto simp: field_bytes_def Let_def split: if_splits)
  then show ?thesis
  proof cases
    case 1
    then show ?thesis using val bs st a field by (simp add: field_bytes_def encode_basic_field_def Let_def)
  next
    case 2
    then obtain b where b: "bool_at (a + size_offset f) M = Some b"
      "(if b then map_option (tagged f) (static_value sb f a M) else Some []) = Some bs"
      using bs by (auto simp: field_bytes_def Let_def bind_eq_Some_conv)
    then show ?thesis using 2 val [of bs] sends_ok st field
      by (cases b) (simp_all add: encode_basic_field_def Let_def safe_read_bool_eq)
  next
    case 3
    then obtain z where v: "value_default md f a M = Some z"
      "(if \<not> z then map_option (tagged f) (static_value sb f a M) else Some []) = Some bs"
      using bs by (auto simp: field_bytes_def Let_def bind_eq_Some_conv)
    have "field_default md f a M = Some z"
      using 3 v(1) by (simp add: field_default_def PB_HTYPE_REQUIRED_def PB_HTYPE_OPTIONAL_def
          PB_HTYPE_REPEATED_def PB_HTYPE_ONEOF_def)
    note z = field_default_check [OF this f md] v(2)
    then show ?thesis using 3 val [of bs] sends_ok st field
      by (cases z) (simp_all add: encode_basic_field_def Let_def)
  next
    case 4
    then obtain n vs where n: "(if size_offset f \<noteq> 0 then load_size (a + size_offset f) M else Some (array_size f)) = Some n"
      "n \<le> array_size f" "entry_values (\<lambda>p. static_value sb f p M) (unat (data_size f)) a (unat n) = Some vs"
      "bs = array_bytes f vs"
      using bs by (auto simp: field_bytes_def Let_def bind_eq_Some_conv split: if_splits)
    have "encode_basic_field W sub f a M = encode_array f a n (PB_ENCODERS sub (PB_LTYPE f)) M"
      using 4 n(1) st by (simp add: encode_basic_field_def Let_def)
    then show ?thesis unfolding field n(4) using sends_array [OF n(3) f k sub a n(2) t] by simp
  next
    case 5
    then obtain u where u: "size_offset f \<noteq> 0" "load_size (a + size_offset f) M = Some u"
      "(if u = tag f then map_option (tagged f) (static_value sb f a M) else Some []) = Some bs"
      using bs by (auto simp: field_bytes_def Let_def bind_eq_Some_conv split: if_splits)
    then show ?thesis using 5 val [of bs] sends_ok st field
      by (cases "u = tag f") (simp_all add: encode_basic_field_def Let_def)
  qed
qed

lemma sends_from:
  assumes "all_bytes g (iters it) = Some bs"
    and "\<And>it' cs. it' \<in> set (iters it) \<Longrightarrow> g it' = Some cs \<Longrightarrow> sending (encode_any W sub it' M) cs"
  shows "sending (encode_from W sub it M) bs"
  using assms
proof (induction it arbitrary: bs rule: iters.induct)
  case (1 it)
  let ?n = "pb_field_iter_next it"
  have its: "iters it = it # (if fst ?n then iters (snd ?n) else [])" by (rule iters.simps)
  obtain cs rest where cs: "g it = Some cs" "all_bytes g (if fst ?n then iters (snd ?n) else []) = Some rest" "bs = cs @ rest"
    using 1(2) unfolding its by (auto simp: bind_eq_Some_conv)
  have head: "sending (encode_any W sub it M) cs" by (rule 1(3) [OF _ cs(1)]) (simp add: its)
  have tail: "sending (if fst ?n then encode_from W sub (snd ?n) M else out_ok) rest"
  proof (cases "fst ?n")
    case True
    have "sending (encode_from W sub (snd ?n) M) rest"
      using cs(2) True 1(3) by (intro 1(1) [OF True]) (simp_all add: its)
    then show ?thesis using True by simp
  qed (use cs(2) sends_ok in simp)
  show ?case unfolding cs(3) by (subst encode_from.simps) (rule sends_then [OF head tail])
qed

lemma sends_message:
  assumes bs: "message_bytes (Suc d) (fields_of W) k a M = Some bs"
    and wf: "wf_messages (fields_of W) sz N" and k: "k < N"
    and sub: "sub_counted (message_bytes d (fields_of W)) sub N" and a: "0 < a"
  shows "sending (encode_message_with W sub k a M) bs"
proof (cases "fields_of W k = []")
  case True
  then show ?thesis using bs sends_ok
    by (simp add: encode_message_with_def field_places_def field_at_def PB_LAST_FIELD_def)
next
  case False
  let ?md = "message_default d (fields_of W)"
  let ?g = "\<lambda>it. field_bytes ?md (message_bytes d (fields_of W)) (cur it) (pData it) M"
  have pr: "proper (fields_of W k)" by (rule wf_proper [OF wf k])
  have "tag (field_at (fields_of W k) 0) \<noteq> 0" using proper_tag [OF pr, of 0] False by simp
  then have eq: "encode_message_with W sub k a M = encode_from W sub (snd (pb_field_iter_begin (fields_of W k) a)) M"
    by (simp add: encode_message_with_def)
  show ?thesis unfolding eq
  proof (rule sends_from)
    have pos: "map (\<lambda>it. (cur it, pData it)) (iters (snd (pb_field_iter_begin (fields_of W k) a))) =
        field_places (fields_of W k) a"
      using positions_places [OF pr False static_fields [OF wf k False]] by (simp add: positions_def)
    show "all_bytes ?g (iters (snd (pb_field_iter_begin (fields_of W k) a))) = Some bs"
      using bs unfolding message_bytes.simps pos [symmetric] all_bytes_map by (simp add: comp_def)
  next
    fix it cs
    assume it: "it \<in> set (iters (snd (pb_field_iter_begin (fields_of W k) a)))" and cs: "?g it = Some cs"
    have p: "it \<in> set (positions (fields_of W k) a)" using it by (simp add: positions_def)
    have fit: "field_fits sz k a it" by (rule wf_position [OF wf_messagesD [OF wf k] p])
    then have ok: "static_ok sz k (cur it)" and pos: "0 < pData it"
      using a by (simp_all add: field_fits_def inside_def)
    have md: "says_default (fields_of W) ?md k"
      using says_default_message [OF wf, of d] k unfolding says_default_def by (meson less_trans)
    have inf: "in_fields it \<and> it_start it = fields_of W k" using positions_in_fields [OF pr p] by simp
    then have "cur it \<in> set (fields_of W k)" using False by (auto simp: cur_def field_at_def in_fields_def)
    then have t: "tag (cur it) < 0x20000000" using pr by (auto simp: proper_def list_all_iff)
    have "encode_any W sub it M = encode_field W sub (cur it) (pData it) M"
      using static_ok_simps(2) [OF ok] by (simp add: encode_any_def)
    then show "sending (encode_any W sub it M) cs" using sends_field [OF cs md ok less_imp_le [OF k] sub pos t] by simp
  qed
qed

end

end
