(* ===== verification/PbEncThms.thy ===== *)
theory PbEncThms
  imports PbEncRef PbDecThms "HOL-Library.Code_Target_Nat"
begin

text \<open>
  The encoder of messages on the streams the library's users create: buffers, sizing streams and
  callbacks that collect what they are given.
\<close>

section \<open>Streams\<close>

interpretation sizing_message: message_sink sizing_sink "\<lambda>_. 2 ^ 64" "\<lambda>_. True" "\<lambda>c ys n. c"
  by unfold_locales (simp_all add: sizing_sink_def PB_OSTREAM_SIZING_def counting_def)

definition buffer_clean :: "buffer_context \<Rightarrow> bool" where
  "buffer_clean c = (case c of (front, old, behind, e) \<Rightarrow> e = None)"

text \<open>The part of a buffer that a submessage of \<open>n\<close> bytes is written to.\<close>

definition buffer_inner :: "buffer_context \<Rightarrow> byte list \<Rightarrow> nat \<Rightarrow> buffer_context" where
  "buffer_inner c ys n = (case c of (front, old, behind, e) \<Rightarrow>
     (front @ ys, take n (drop (length ys) old), drop (length ys + n) old @ behind, None))"

interpretation buffer_message: message_sink buffer_sink buffer_room buffer_clean buffer_inner
proof
  fix c :: buffer_context and ys zs :: "byte list" and n :: nat
  obtain front old behind e where c: "c = (front, old, behind, e)" by (cases c)
  note d = buffer_sink_def buffer_room_def buffer_clean_def buffer_inner_def counting_def
  have t: "take m (drop l old) @ drop (l + m) old @ behind = drop l old @ behind" for l m
    by (metis append.assoc append_take_drop_id drop_drop add.commute)
  show "bytes_written (buffer_sink c ys) = length ys" by (simp add: c d)
  show "\<not> counting (buffer_sink c ys) \<Longrightarrow> max_size (buffer_sink c ys) = buffer_room c" by (simp add: c d)
  assume r: "length ys + n \<le> buffer_room c"
  then have l: "length (take n (drop (length ys) old)) = n" by (simp add: c d)
  show "(buffer_sink c ys)\<lparr>max_size := n, bytes_written := 0, out_errmsg := None\<rparr> = buffer_sink (buffer_inner c ys n) []"
    using r t by (simp add: c d)
  show "buffer_room (buffer_inner c ys n) = n" using l by (simp add: c d)
  show "buffer_clean (buffer_inner c ys n)" by (simp add: c d)
next
  fix c :: buffer_context and ys zs :: "byte list"
  obtain front old behind e where c: "c = (front, old, behind, e)" by (cases c)
  note d = buffer_sink_def buffer_room_def buffer_clean_def buffer_inner_def
  assume "buffer_clean c" and "length ys + length zs \<le> buffer_room c"
  then show "(buffer_sink c ys)\<lparr>bytes_written := length ys + length zs,
        out_state := out_state (buffer_sink (buffer_inner c ys (length zs)) zs),
        out_errmsg := out_errmsg (buffer_sink (buffer_inner c ys (length zs)) zs)\<rparr> = buffer_sink c (ys @ zs)"
    by (simp add: c d)
qed

definition list_clean :: "byte list \<times> nat \<times> string option \<Rightarrow> bool" where
  "list_clean c = (case c of (front, cap, e) \<Rightarrow> e = None)"

definition list_inner :: "byte list \<times> nat \<times> string option \<Rightarrow> byte list \<Rightarrow> nat \<Rightarrow> byte list \<times> nat \<times> string option" where
  "list_inner c ys n = (case c of (front, cap, e) \<Rightarrow> (front @ ys, n, None))"

interpretation list_message: message_sink list_sink "\<lambda>(front, cap, e). cap" list_clean list_inner
  by unfold_locales (auto simp: list_sink_def list_clean_def list_inner_def)

section \<open>Nested messages\<close>

lemma sub_counted_sizing:
  assumes "message_sink.sub_counted os rm cl sb sub n" and "message_sink os rm cl inner"
  shows "sizing_message.sub_counted sb sub n"
  using assms(1) unfolding message_sink.sub_counted_def [OF assms(2)] message_sink.counted_def [OF assms(2)]
    sizing_message.sub_counted_def sizing_message.counted_def by blast

context message_sink
begin

lemma counted_message:
  assumes "wf_messages (fields_of W) sz n"
  shows "sub_counted (message_bytes d (fields_of W)) (pb_encode d W) n"
proof (induction d)
  case 0
  then show ?case by (simp add: sub_counted_def)
next
  case (Suc d)
  show ?case
    unfolding sub_counted_def counted_def
  proof (intro allI impI conjI)
    fix j a M bs
    assume j: "j < n" and a: "(0 :: int) < a" and bs: "message_bytes (Suc d) (fields_of W) j a M = Some bs"
    show "sending (pb_encode (Suc d) W j a M) bs"
      using sends_message [OF bs assms j Suc a] by simp
    have "sizing_message.sub_counted (message_bytes d (fields_of W)) (pb_encode d W) n"
      by (rule sub_counted_sizing [OF Suc message_sink_axioms])
    then show "sends sizing_sink (\<lambda>_. 2 ^ 64) (\<lambda>_. True) (pb_encode (Suc d) W j a M) bs"
      using sizing_message.sends_message [OF bs assms j _ a] by simp
  qed
qed

end

section \<open>The encoder of messages\<close>

text \<open>
  C33: \<open>pb_encode\<close> writes the wire format. Let the messages be well formed and let
  \<open>message_bytes\<close>, which reads a structure as a protocol buffer message and shares no arithmetic, no
  default check and no iterator with the encoder, give \<open>bs\<close> for the
  structure at \<open>a\<close>. Then \<open>pb_get_encoded_size\<close> is the length of \<open>bs\<close>, and \<open>pb_encode\<close> into a buffer
  succeeds exactly when \<open>bs\<close> fits; then it stores \<open>bs\<close> and leaves every byte behind it untouched.
  No submessage is found to have changed its size between the two passes.
\<close>

theorem pb_encode_exact:
  fixes W :: "unit pb_source"
  assumes "wf_messages (fields_of W) sz n" and "k < n" and "0 < a"
    and "message_bytes d (fields_of W) k a M = Some bs" and "length bs < 2 ^ 64"
  shows "pb_get_encoded_size d W k a M = Some (Some (length bs)) \<and>
    (if length bs \<le> length old then
       pb_encode d W k a M (pb_ostream_from_buffer (old @ behind) (length old)) =
         Some (True, (pb_ostream_from_buffer (old @ behind) (length old))
           \<lparr>out_state := Out_buffer (bs @ drop (length bs) old @ behind) (length bs), bytes_written := length bs\<rparr>)
     else \<exists>s. pb_encode d W k a M (pb_ostream_from_buffer (old @ behind) (length old)) = Some (False, s))"
proof -
  have c: "sizing_message.counted (pb_encode d W k a M) bs" "buffer_message.counted (pb_encode d W k a M) bs"
    using sizing_message.counted_message [OF assms(1)] buffer_message.counted_message [OF assms(1)] assms(2-4)
    unfolding sizing_message.sub_counted_def buffer_message.sub_counted_def by blast+
  have s: "sizing_message.sending (pb_encode d W k a M) bs" "buffer_message.sending (pb_encode d W k a M) bs"
    using c assms(5) unfolding sizing_message.counted_def buffer_message.counted_def by blast+
  have "pb_get_encoded_size d W k a M = Some (Some (length bs))"
    using s(1) [unfolded sends_def, rule_format, of "[]"] assms(5)
    by (simp add: pb_get_encoded_size_def sizing_sink_def PB_OSTREAM_SIZING_def)
  moreover have "if length bs \<le> length old
      then pb_encode d W k a M (pb_ostream_from_buffer (old @ behind) (length old)) =
        Some (True, buffer_sink ([], old, behind, None) bs)
      else \<exists>s. pb_encode d W k a M (pb_ostream_from_buffer (old @ behind) (length old)) = Some (False, s)"
    using s(2) [unfolded sends_def, rule_format, of "([], old, behind, None)" "[]"] assms(5)
    by (simp add: ostream_from_buffer buffer_room_def buffer_clean_def)
  moreover have "(buffer_sink ([], old, behind, None) bs :: unit pb_ostream) = (pb_ostream_from_buffer (old @ behind) (length old))
      \<lparr>out_state := Out_buffer (bs @ drop (length bs) old @ behind) (length bs), bytes_written := length bs\<rparr>"
    by (simp add: buffer_sink_def pb_ostream_from_buffer_def)
  ultimately show ?thesis by (simp only:)
qed

text \<open>The structure of the example, filled, and its message.\<close>

definition memory_with :: "int \<Rightarrow> byte list \<Rightarrow> pb_mem" where
  "memory_with a bs = \<lparr>cells = (\<lambda>x. if a \<le> x \<and> x < a + int (length bs) then Some (bs ! nat (x - a)) else None),
     blocks = (\<lambda>_. None), reallocs = 0\<rparr>"

definition static_source :: "pb_env \<Rightarrow> unit pb_source" where
  "static_source env = \<lparr>on_encode = (\<lambda>_ _ _ _ _. None), fields_of = env\<rparr>"

definition example_struct :: pb_mem where
  "example_struct = memory_with 100
     [5, 0, 0, 0, 2, 0, 0, 0, 1, 0, 44, 1, 0, 0, 0, 0, 4, 0, 0, 0, 1, 1, 0, 0, 1, 1, 0, 0]"

definition example_message :: "byte list" where
  "example_message = [0x08, 0x05, 0x12, 0x03, 0x01, 0xAC, 0x02, 0x22, 0x02, 0x08, 0x01, 0x2A, 0x02, 0x08, 0x01]"

text \<open>
  A proto3 message with the numbers -1 (as a varint), -2 (as a signed varint) and 0, the string
  \<open>hi\<close>, an empty string, two bytes, no bytes and the value true. Zero and what is empty are left out.
\<close>

definition proto3_fields :: pb_env where
  "proto3_fields k =
     [\<lparr>tag = 1, type = 0x11, data_offset = 0, size_offset = 0, data_size = 4, array_size = 0, ptr = Null_ptr\<rparr>,
      \<lparr>tag = 2, type = 0x13, data_offset = 0, size_offset = 0, data_size = 4, array_size = 0, ptr = Null_ptr\<rparr>,
      \<lparr>tag = 3, type = 0x12, data_offset = 0, size_offset = 0, data_size = 4, array_size = 0, ptr = Null_ptr\<rparr>,
      \<lparr>tag = 4, type = 0x17, data_offset = 0, size_offset = 0, data_size = 4, array_size = 0, ptr = Null_ptr\<rparr>,
      \<lparr>tag = 5, type = 0x17, data_offset = 0, size_offset = 0, data_size = 4, array_size = 0, ptr = Null_ptr\<rparr>,
      \<lparr>tag = 6, type = 0x16, data_offset = 0, size_offset = 0, data_size = 6, array_size = 0, ptr = Null_ptr\<rparr>,
      \<lparr>tag = 7, type = 0x16, data_offset = 0, size_offset = 0, data_size = 6, array_size = 0, ptr = Null_ptr\<rparr>,
      \<lparr>tag = 8, type = 0x10, data_offset = 0, size_offset = 0, data_size = 1, array_size = 0, ptr = Null_ptr\<rparr>]"

definition proto3_struct :: pb_mem where
  "proto3_struct = memory_with 100
     [0xFF, 0xFF, 0xFF, 0xFF, 0xFE, 0xFF, 0xFF, 0xFF, 0, 0, 0, 0, 0x68, 0x69, 0, 0, 0, 0, 0, 0,
      2, 0, 0, 0, 9, 8, 0, 0, 0, 0, 0, 0, 1]"

definition proto3_message :: "byte list" where
  "proto3_message = [0x08, 0xFF, 0xFF, 0xFF, 0xFF, 0xFF, 0xFF, 0xFF, 0xFF, 0xFF, 0x01, 0x10, 0x03, 0x22, 0x02, 0x68, 0x69,
     0x32, 0x02, 0x09, 0x08, 0x40, 0x01]"

theorem pb_encode_exact_witness:
  "pb_get_encoded_size 2 (static_source example_fields) 1 100 example_struct = Some (Some 15) \<and>
   pb_encode 2 (static_source example_fields) 1 100 example_struct (pb_ostream_from_buffer (replicate 16 0) 16) =
     Some (True, (pb_ostream_from_buffer (replicate 16 0) 16)
       \<lparr>out_state := Out_buffer (example_message @ [0]) 15, bytes_written := 15\<rparr>) \<and>
   pb_get_encoded_size 1 (static_source proto3_fields) 0 100 proto3_struct = Some (Some 23) \<and>
   pb_encode 1 (static_source proto3_fields) 0 100 proto3_struct (pb_ostream_from_buffer (replicate 23 0) 23) =
     Some (True, (pb_ostream_from_buffer (replicate 23 0) 23)
       \<lparr>out_state := Out_buffer proto3_message 23, bytes_written := 23\<rparr>)"
proof -
  have wf: "wf_messages (fields_of (static_source example_fields)) example_size 2"
      "wf_messages (fields_of (static_source proto3_fields)) (\<lambda>_. 33) 1"
    by code_simp+
  have bs: "message_bytes 2 (fields_of (static_source example_fields)) 1 100 example_struct = Some example_message"
      "message_bytes 1 (fields_of (static_source proto3_fields)) 0 100 proto3_struct = Some proto3_message"
    by code_simp+
  have n: "length example_message = 15" "length proto3_message = 23"
    by (simp_all add: example_message_def proto3_message_def)
  show ?thesis
    using pb_encode_exact [OF wf(1) _ _ bs(1), of "replicate 16 0" "[]"]
      pb_encode_exact [OF wf(2) _ _ bs(2), of "replicate 23 0" "[]"] by (simp add: n)
qed

end
