(* ===== verification/BnWords.thy ===== *)
theory BnWords
  imports ConstTime
begin

text \<open>
  Arrays of machine words as natural numbers (\<open>crypto/fipsmodule/bn/generic.c\<close>, \<open>div.c\<close>,
  \<open>internal.h\<close>): addition, subtraction, multiplication by a word and the unrolled products of
  four and eight words. \<open>BN_ULONG\<close> has 64 bits and \<open>BN_ULLONG\<close> 128, as on all targets. An array
  with its length is a list; the loops that are unrolled four times do one step four times, and
  are written as that step on lists. An operation whose result may be stored over an operand
  reads both words before it stores one, so results are new lists.
\<close>

type_synonym u128 = "128 word"

section \<open>Words\<close>

text \<open>\<open>Lw\<close> and \<open>Hw\<close>, the halves of a double word.\<close>

definition Lw :: "u128 \<Rightarrow> u64" where "Lw t = ucast t"

definition Hw :: "u128 \<Rightarrow> u64" where "Hw t = ucast (drop_bit 64 t)"

text \<open>The macros \<open>mul_add\<close>, \<open>mul\<close> and \<open>sqr\<close>: the low word and the carry.\<close>

definition mul_add :: "u64 \<Rightarrow> u64 \<Rightarrow> u64 \<Rightarrow> u64 \<Rightarrow> u64 \<times> u64" where
  "mul_add r a w c = (let t = ucast w * ucast a + ucast r + ucast c in (Lw t, Hw t))"

definition mul_word :: "u64 \<Rightarrow> u64 \<Rightarrow> u64 \<Rightarrow> u64 \<times> u64" where
  "mul_word a w c = (let t = ucast w * ucast a + ucast c in (Lw t, Hw t))"

definition sqr_word :: "u64 \<Rightarrow> u64 \<times> u64" where
  "sqr_word a = (let t = ucast a * ucast a in (Lw t, Hw t))"

section \<open>Loops over arrays\<close>

fun mul_add_loop :: "u64 \<Rightarrow> u64 \<Rightarrow> u64 list \<Rightarrow> u64 list \<Rightarrow> u64 list \<times> u64" where
  "mul_add_loop w c (r # rs) (a # as) =
     (let (x, c) = mul_add r a w c; (xs, c) = mul_add_loop w c rs as in (x # xs, c))"
| "mul_add_loop w c rs as = ([], c)"

definition bn_mul_add_words :: "u64 list \<Rightarrow> u64 list \<Rightarrow> u64 \<Rightarrow> u64 list \<times> u64" where
  "bn_mul_add_words r a w = mul_add_loop w 0 r a"

fun mul_loop :: "u64 \<Rightarrow> u64 \<Rightarrow> u64 list \<Rightarrow> u64 list \<times> u64" where
  "mul_loop w c (a # as) = (let (x, c) = mul_word a w c; (xs, c) = mul_loop w c as in (x # xs, c))"
| "mul_loop w c [] = ([], c)"

definition bn_mul_words :: "u64 list \<Rightarrow> u64 \<Rightarrow> u64 list \<times> u64" where
  "bn_mul_words a w = mul_loop w 0 a"

fun bn_sqr_words :: "u64 list \<Rightarrow> u64 list" where
  "bn_sqr_words (a # as) = (let (lo, hi) = sqr_word a in lo # hi # bn_sqr_words as)"
| "bn_sqr_words [] = []"

fun add_loop :: "u128 \<Rightarrow> u64 list \<Rightarrow> u64 list \<Rightarrow> u64 list \<times> u64" where
  "add_loop ll (a # as) (b # bs) =
     (let ll = ll + (ucast a + ucast b); (xs, c) = add_loop (drop_bit 64 ll) as bs in (ucast ll # xs, c))"
| "add_loop ll as bs = ([], ucast ll)"

definition bn_add_words :: "u64 list \<Rightarrow> u64 list \<Rightarrow> u64 list \<times> u64" where
  "bn_add_words a b = add_loop 0 a b"

text \<open>The borrow is kept when the words are equal.\<close>

fun sub_loop :: "u64 \<Rightarrow> u64 list \<Rightarrow> u64 list \<Rightarrow> u64 list \<times> u64" where
  "sub_loop c (t1 # as) (t2 # bs) =
     (let r = t1 - t2 - c; c = (if t1 \<noteq> t2 then (if t1 < t2 then 1 else 0) else c);
          (xs, c) = sub_loop c as bs in (r # xs, c))"
| "sub_loop c as bs = ([], c)"

definition bn_sub_words :: "u64 list \<Rightarrow> u64 list \<Rightarrow> u64 list \<times> u64" where
  "bn_sub_words a b = sub_loop 0 a b"

fun bn_select_words :: "u64 \<Rightarrow> u64 list \<Rightarrow> u64 list \<Rightarrow> u64 list" where
  "bn_select_words m (a # as) (b # bs) = constant_time_select_w m a b # bn_select_words m as bs"
| "bn_select_words m as bs = []"

section \<open>Unrolled products\<close>

text \<open>
  Three words hold a column of the product. \<open>mul_add_c2\<close> adds a product twice.
\<close>

definition mul_add_c :: "u64 \<Rightarrow> u64 \<Rightarrow> u64 \<times> u64 \<times> u64 \<Rightarrow> u64 \<times> u64 \<times> u64" where
  "mul_add_c a b = (\<lambda>(c0, c1, c2).
     let t = ucast a * ucast b + ucast c0; hi = Hw t; c1 = c1 + hi in
     (Lw t, c1, if c1 < hi then c2 + 1 else c2))"

definition mul_add_c2 :: "u64 \<Rightarrow> u64 \<Rightarrow> u64 \<times> u64 \<times> u64 \<Rightarrow> u64 \<times> u64 \<times> u64" where
  "mul_add_c2 a b = (\<lambda>(c0, c1, c2).
     let t = ucast a * ucast b; tt = t + ucast c0; c0 = Lw tt; hi = Hw tt; c1 = c1 + hi;
         c2 = (if c1 < hi then c2 + 1 else c2);
         t = t + ucast c0; c0 = Lw t; hi = Hw t; c1 = c1 + hi in
     (c0, c1, if c1 < hi then c2 + 1 else c2))"

text \<open>
  The columns of a product: what is added in which order, then the low word is stored and the
  three words move down. The two highest words come from the last column.
\<close>

datatype comba_op = Once nat nat | Twice nat nat

definition comba_add :: "u64 list \<Rightarrow> u64 list \<Rightarrow> u64 \<times> u64 \<times> u64 \<Rightarrow> comba_op \<Rightarrow> u64 \<times> u64 \<times> u64" where
  "comba_add a b c oper = (case oper of
     Once i j \<Rightarrow> mul_add_c (a ! i) (b ! j) c
   | Twice i j \<Rightarrow> mul_add_c2 (a ! i) (b ! j) c)"

fun comba :: "u64 list \<Rightarrow> u64 list \<Rightarrow> u64 \<times> u64 \<times> u64 \<Rightarrow> comba_op list list \<Rightarrow> u64 list" where
  "comba a b c (col # cols) = (case foldl (comba_add a b) c col of (c0, c1, c2) \<Rightarrow> c0 # comba a b (c1, c2, 0) cols)"
| "comba a b (c0, c1, c2) [] = [c0]"

definition mul_columns8 :: "comba_op list list" where
  "mul_columns8 =
     [ [Once 0 0],
      [Once 0 1, Once 1 0],
      [Once 2 0, Once 1 1, Once 0 2],
      [Once 0 3, Once 1 2, Once 2 1, Once 3 0],
      [Once 4 0, Once 3 1, Once 2 2, Once 1 3, Once 0 4],
      [Once 0 5, Once 1 4, Once 2 3, Once 3 2, Once 4 1, Once 5 0],
      [Once 6 0, Once 5 1, Once 4 2, Once 3 3, Once 2 4, Once 1 5, Once 0 6],
      [Once 0 7, Once 1 6, Once 2 5, Once 3 4, Once 4 3, Once 5 2, Once 6 1, Once 7 0],
      [Once 7 1, Once 6 2, Once 5 3, Once 4 4, Once 3 5, Once 2 6, Once 1 7],
      [Once 2 7, Once 3 6, Once 4 5, Once 5 4, Once 6 3, Once 7 2],
      [Once 7 3, Once 6 4, Once 5 5, Once 4 6, Once 3 7],
      [Once 4 7, Once 5 6, Once 6 5, Once 7 4],
      [Once 7 5, Once 6 6, Once 5 7],
      [Once 6 7, Once 7 6],
      [Once 7 7]]"

definition bn_mul_comba8 :: "u64 list \<Rightarrow> u64 list \<Rightarrow> u64 list" where
  "bn_mul_comba8 a b = comba a b (0, 0, 0) mul_columns8"

definition mul_columns4 :: "comba_op list list" where
  "mul_columns4 =
     [ [Once 0 0],
      [Once 0 1, Once 1 0],
      [Once 2 0, Once 1 1, Once 0 2],
      [Once 0 3, Once 1 2, Once 2 1, Once 3 0],
      [Once 3 1, Once 2 2, Once 1 3],
      [Once 2 3, Once 3 2],
      [Once 3 3]]"

definition bn_mul_comba4 :: "u64 list \<Rightarrow> u64 list \<Rightarrow> u64 list" where
  "bn_mul_comba4 a b = comba a b (0, 0, 0) mul_columns4"

definition sqr_columns8 :: "comba_op list list" where
  "sqr_columns8 =
     [ [Once 0 0],
      [Twice 1 0],
      [Once 1 1, Twice 2 0],
      [Twice 3 0, Twice 2 1],
      [Once 2 2, Twice 3 1, Twice 4 0],
      [Twice 5 0, Twice 4 1, Twice 3 2],
      [Once 3 3, Twice 4 2, Twice 5 1, Twice 6 0],
      [Twice 7 0, Twice 6 1, Twice 5 2, Twice 4 3],
      [Once 4 4, Twice 5 3, Twice 6 2, Twice 7 1],
      [Twice 7 2, Twice 6 3, Twice 5 4],
      [Once 5 5, Twice 6 4, Twice 7 3],
      [Twice 7 4, Twice 6 5],
      [Once 6 6, Twice 7 5],
      [Twice 7 6],
      [Once 7 7]]"

definition bn_sqr_comba8 :: "u64 list \<Rightarrow> u64 list" where
  "bn_sqr_comba8 a = comba a a (0, 0, 0) sqr_columns8"

definition sqr_columns4 :: "comba_op list list" where
  "sqr_columns4 =
     [ [Once 0 0],
      [Twice 1 0],
      [Once 1 1, Twice 2 0],
      [Twice 3 0, Twice 2 1],
      [Once 2 2, Twice 3 1],
      [Twice 3 2],
      [Once 3 3]]"

definition bn_sqr_comba4 :: "u64 list \<Rightarrow> u64 list" where
  "bn_sqr_comba4 a = comba a a (0, 0, 0) sqr_columns4"

end
