(* ===== verification/BnMul.thy ===== *)
theory BnMul
  imports BnWords "HOL-Library.Monad_Syntax"
begin

text \<open>
  Products of arrays (\<open>crypto/fipsmodule/bn/mul.c\<close>): the schoolbook method, and Karatsuba's method,
  which works in a scratch array \<open>t\<close>. \<open>None\<close> is an access outside an array or a failed assertion.
  An array that a function only fills is a result.
\<close>

section \<open>Parts of arrays\<close>

definition get :: "nat \<Rightarrow> nat \<Rightarrow> 'a list \<Rightarrow> 'a list option" where
  "get i n xs = (if i + n \<le> length xs then Some (take n (drop i xs)) else None)"

definition put :: "nat \<Rightarrow> 'a list \<Rightarrow> 'a list \<Rightarrow> 'a list option" where
  "put i ys xs = (if i + length ys \<le> length xs then Some (take i xs @ ys @ drop (i + length ys) xs) else None)"

definition check :: "bool \<Rightarrow> unit option" where
  "check b = (if b then Some () else None)"

section \<open>Differences\<close>

definition bn_abs_sub_words :: "u64 list \<Rightarrow> u64 list \<Rightarrow> u64 list \<times> u64 list" where
  "bn_abs_sub_words a b =
     (let (tmp, borrow) = bn_sub_words a b; (r, _) = bn_sub_words b a in
      (bn_select_words (0 - borrow) r tmp, tmp))"

text \<open>The words of the longer array, behind the words both have.\<close>

fun sub_from_zero :: "u64 \<Rightarrow> u64 list \<Rightarrow> u64 list \<times> u64" where
  "sub_from_zero c (t # bs) =
     (let (rs, c') = sub_from_zero (if t \<noteq> 0 then 1 else c) bs in ((0 - t - c) # rs, c'))"
| "sub_from_zero c [] = ([], c)"

fun sub_borrow :: "u64 \<Rightarrow> u64 list \<Rightarrow> u64 list \<times> u64" where
  "sub_borrow c (t # as) =
     (let (rs, c') = sub_borrow (if c \<noteq> 0 \<and> t \<noteq> 0 then 0 else c) as in ((t - c) # rs, c'))"
| "sub_borrow c [] = ([], c)"

text \<open>\<open>cl\<close> is the common length and \<open>dl\<close> how much longer the first array is.\<close>

definition bn_sub_part_words :: "u64 list \<Rightarrow> u64 list \<Rightarrow> nat \<Rightarrow> int \<Rightarrow> u64 list \<times> u64" where
  "bn_sub_part_words a b cl dl =
     (let (r, c) = bn_sub_words (take cl a) (take cl b) in
      if dl = 0 then (r, c)
      else if dl < 0 then (let (rs, c) = sub_from_zero c (take (nat (- dl)) (drop cl b)) in (r @ rs, c))
      else (let (rs, c) = sub_borrow c (take (nat dl) (drop cl a)) in (r @ rs, c)))"

text \<open>The result and its sign mask, and what is left in \<open>tmp\<close>.\<close>

definition bn_abs_sub_part_words :: "u64 list \<Rightarrow> u64 list \<Rightarrow> nat \<Rightarrow> int \<Rightarrow> u64 list \<times> u64 \<times> u64 list" where
  "bn_abs_sub_part_words a b cl dl =
     (let (tmp, borrow) = bn_sub_part_words a b cl dl; (r, _) = bn_sub_part_words b a cl (- dl);
          borrow = 0 - borrow in
      (bn_select_words borrow r tmp, borrow, tmp))"

section \<open>The schoolbook method\<close>

text \<open>One row for each word of \<open>b\<close>; the window of \<open>r\<close> moves up by one word.\<close>

fun mul_rows :: "u64 list \<Rightarrow> u64 list \<Rightarrow> u64 list \<Rightarrow> u64 list" where
  "mul_rows r a (w # bs) = (let (r, c) = bn_mul_add_words r a w in hd r # mul_rows (tl r @ [c]) a bs)"
| "mul_rows r a [] = r"

definition bn_mul_normal :: "u64 list \<Rightarrow> u64 list \<Rightarrow> u64 list" where
  "bn_mul_normal a b =
     (let (a, b) = (if length a < length b then (b, a) else (a, b)) in
      case b of
        [] \<Rightarrow> replicate (length a) 0
      | w # bs \<Rightarrow> (let (r, c) = bn_mul_words a w in hd r # mul_rows (tl r @ [c]) a bs))"

section \<open>Karatsuba's method\<close>

definition BN_MUL_RECURSIVE_SIZE_NORMAL :: nat where "BN_MUL_RECURSIVE_SIZE_NORMAL = 16"

definition BN_SQR_RECURSIVE_SIZE_NORMAL :: nat where "BN_SQR_RECURSIVE_SIZE_NORMAL = 16"

definition power_of_two :: "nat \<Rightarrow> bool" where
  "power_of_two n \<longleftrightarrow> n \<noteq> 0 \<and> n AND (n - 1) = 0"

fun propagate :: "u64 \<Rightarrow> u64 list \<Rightarrow> u64 list \<times> u64" where
  "propagate c (old # rs) =
     (let r = old + c; (rs, c) = propagate (if r < old then 1 else 0) rs in (r # rs, c))"
| "propagate c [] = ([], c)"

text \<open>The last step: the middle term is added to \<open>r\<close>, from the \<open>n\<close>th word.\<close>

definition add_middle :: "nat \<Rightarrow> u64 \<Rightarrow> u64 list \<Rightarrow> u64 list \<Rightarrow> u64 list option" where
  "add_middle n c middle r = do {
     r1 \<leftarrow> get n (2 * n) r;
     let (w, carry) = bn_add_words r1 middle;
     r \<leftarrow> put n w r;
     high \<leftarrow> get (3 * n) n r;
     let (high, c) = propagate (c + carry) high;
     r \<leftarrow> put (3 * n) high r;
     check (c = 0);
     Some r
   }"

definition add_products :: "nat \<Rightarrow> u64 \<Rightarrow> u64 list \<Rightarrow> u64 list \<Rightarrow> (u64 list \<times> u64 list) option" where
  "add_products n neg r t = (let n2 = 2 * n in do {
     r0 \<leftarrow> get 0 n2 r;
     r2 \<leftarrow> get n2 n2 r;
     let (t0, c) = bn_add_words r0 r2;
     t \<leftarrow> put 0 t0 t;
     t2 \<leftarrow> get n2 n2 t;
     let (t4, borrow) = bn_sub_words t0 t2;
     t \<leftarrow> put (n2 * 2) t4 t;
     let (t2, carry) = bn_add_words t0 t2;
     let middle = bn_select_words neg t4 t2;
     t \<leftarrow> put n2 middle t;
     r \<leftarrow> add_middle n (constant_time_select_w neg (c - borrow) (c + carry)) middle r;
     Some (r, t)
   })"

text \<open>The differences of the halves, with the xor of their signs.\<close>

definition sub_halves :: "u64 list \<Rightarrow> u64 list \<Rightarrow> nat \<Rightarrow> nat \<Rightarrow> nat \<Rightarrow> u64 list \<Rightarrow> (u64 \<times> u64 list) option" where
  "sub_halves a b n tna tnb t = do {
     a0 \<leftarrow> get 0 n a;
     a1 \<leftarrow> get n tna a;
     let (t0, neg, tmp) = bn_abs_sub_part_words a0 a1 tna (int n - int tna);
     t \<leftarrow> put (2 * n) tmp t;
     t \<leftarrow> put 0 t0 t;
     b0 \<leftarrow> get 0 n b;
     b1 \<leftarrow> get n tnb b;
     let (t1, neg1, tmp) = bn_abs_sub_part_words b1 b0 tnb (int tnb - int n);
     t \<leftarrow> put (2 * n) tmp t;
     t \<leftarrow> put n t1 t;
     Some (neg XOR neg1, t)
   }"

text \<open>\<open>dna\<close> and \<open>dnb\<close> are how much longer than \<open>n2\<close> the arrays are, zero or less.\<close>

function bn_mul_recursive ::
  "u64 list \<Rightarrow> u64 list \<Rightarrow> nat \<Rightarrow> int \<Rightarrow> int \<Rightarrow> u64 list \<Rightarrow> (u64 list \<times> u64 list) option" where
  "bn_mul_recursive a b n2 dna dnb t = do {
     check (power_of_two n2);
     check (- int (BN_MUL_RECURSIVE_SIZE_NORMAL div 2) \<le> dna \<and> dna \<le> 0);
     check (- int (BN_MUL_RECURSIVE_SIZE_NORMAL div 2) \<le> dnb \<and> dnb \<le> 0);
     if n2 = 8 \<and> dna = 0 \<and> dnb = 0 then do {
       a \<leftarrow> get 0 8 a; b \<leftarrow> get 0 8 b;
       Some (bn_mul_comba8 a b, t)
     }
     else if n2 < BN_MUL_RECURSIVE_SIZE_NORMAL then do {
       check (0 \<le> int n2 + dna \<and> 0 \<le> int n2 + dnb);
       a \<leftarrow> get 0 (nat (int n2 + dna)) a; b \<leftarrow> get 0 (nat (int n2 + dnb)) b;
       Some (bn_mul_normal a b @ replicate (nat (- (dna + dnb))) 0, t)
     }
     else do {
       let n = n2 div 2;
       let tna = nat (int n + dna);
       let tnb = nat (int n + dnb);
       (neg, t) \<leftarrow> sub_halves a b n tna tnb t;
       t0 \<leftarrow> get 0 n t; t1 \<leftarrow> get n n t;
       a0 \<leftarrow> get 0 n a; b0 \<leftarrow> get 0 n b;
       a1 \<leftarrow> get n tna a; b1 \<leftarrow> get n tnb b;
       if n = 8 \<and> dna = 0 \<and> dnb = 0 then do {
         t \<leftarrow> put n2 (bn_mul_comba8 t0 t1) t;
         add_products n neg (bn_mul_comba8 a0 b0 @ bn_mul_comba8 a1 b1) t
       }
       else do {
         p \<leftarrow> get (n2 * 2) (length t - n2 * 2) t;
         (t2, p) \<leftarrow> bn_mul_recursive t0 t1 n 0 0 p;
         t \<leftarrow> put n2 t2 t;
         (r0, p) \<leftarrow> bn_mul_recursive a0 b0 n 0 0 p;
         (r2, p) \<leftarrow> bn_mul_recursive a1 b1 n dna dnb p;
         t \<leftarrow> put (n2 * 2) p t;
         add_products n neg (r0 @ r2) t
       }
     }
   }"
  by pat_completeness auto

termination
  by (relation "measure (\<lambda>(a, b, n2, dna, dnb, t). n2)") (auto simp: BN_MUL_RECURSIVE_SIZE_NORMAL_def)

declare bn_mul_recursive.simps [simp del]

text \<open>
  \<open>n == 4\<close> cannot occur in the last branch of \<open>bn_mul_recursive\<close>, where \<open>n\<close> is 8 or more. When the
  arrays are short, \<open>bn_mul_part_recursive\<close> clears as many bytes as it should clear words.
\<close>

definition clear_bytes :: "nat \<Rightarrow> u64 list \<Rightarrow> u64 list" where
  "clear_bytes k ws = map (\<lambda>i. if 8 * (i + 1) \<le> k then 0
     else if 8 * i < k then (ws ! i) AND NOT (mask (8 * (k - 8 * i))) else ws ! i) [0..<length ws]"

text \<open>The loop that looks for the size of the upper halves.\<close>

function halve_until :: "nat \<Rightarrow> nat \<Rightarrow> nat \<Rightarrow> nat" where
  "halve_until i tna tnb =
     (let i = i div 2 in
      if i < tna \<or> i < tnb then i
      else if i = tna \<or> i = tnb then i
      else halve_until i tna tnb)"
  by pat_completeness auto

termination
  by (relation "measure (\<lambda>(i, _, _). i)") auto

declare halve_until.simps [simp del]

lemma halve_until_less: "n \<noteq> 0 \<Longrightarrow> halve_until n tna tnb < n"
proof (induction n tna tnb rule: halve_until.induct)
  case (1 i tna tnb)
  show ?case
  proof (cases "i div 2 = 0")
    case True
    then show ?thesis using 1(2) by (subst halve_until.simps) (auto simp: Let_def)
  next
    case False
    then have "halve_until (i div 2) tna tnb < i div 2" if "\<not> (i div 2 < tna \<or> i div 2 < tnb)" "\<not> (i div 2 = tna \<or> i div 2 = tnb)"
      using 1(1) [OF refl] that False by blast
    moreover have "i div 2 < i" using 1(2) by simp
    ultimately show ?thesis by (subst halve_until.simps) (auto simp: Let_def)
  qed
qed

text \<open>\<open>r\<close> has \<open>4 * n\<close> words, and \<open>a\<close> and \<open>b\<close> have \<open>n + tna\<close> and \<open>n + tnb\<close>.\<close>

function bn_mul_part_recursive ::
  "u64 list \<Rightarrow> u64 list \<Rightarrow> u64 list \<Rightarrow> nat \<Rightarrow> nat \<Rightarrow> nat \<Rightarrow> u64 list \<Rightarrow> (u64 list \<times> u64 list) option" where
  "bn_mul_part_recursive r a b n tna tnb t = do {
     check (power_of_two n);
     check (tna < n);
     check (tnb < n);
     check (tna \<le> tnb + 1 \<and> tnb \<le> tna + 1);
     let n2 = n * 2;
     if n < 8 then do {
       a \<leftarrow> get 0 (n + tna) a; b \<leftarrow> get 0 (n + tnb) b;
       r \<leftarrow> put 0 (bn_mul_normal a b) r;
       rest \<leftarrow> get (n2 + tna + tnb) (n2 - tna - tnb) r;
       r \<leftarrow> put (n2 + tna + tnb) (clear_bytes (n2 - tna - tnb) rest) r;
       Some (r, t)
     }
     else do {
       (neg, t) \<leftarrow> sub_halves a b n tna tnb t;
       t0 \<leftarrow> get 0 n t; t1 \<leftarrow> get n n t;
       a0 \<leftarrow> get 0 n a; b0 \<leftarrow> get 0 n b;
       a1 \<leftarrow> get n tna a; b1 \<leftarrow> get n tnb b;
       if n = 8 then do {
         t \<leftarrow> put n2 (bn_mul_comba8 t0 t1) t;
         r \<leftarrow> put 0 (bn_mul_comba8 a0 b0) r;
         r \<leftarrow> put n2 (bn_mul_normal a1 b1) r;
         r \<leftarrow> put (n2 + tna + tnb) (replicate (n2 - tna - tnb) 0) r;
         add_products n neg r t
       }
       else do {
         p \<leftarrow> get (n2 * 2) (length t - n2 * 2) t;
         (t2, p) \<leftarrow> bn_mul_recursive t0 t1 n 0 0 p;
         t \<leftarrow> put n2 t2 t;
         (r0, p) \<leftarrow> bn_mul_recursive a0 b0 n 0 0 p;
         r \<leftarrow> put 0 r0 r;
         r \<leftarrow> put n2 (replicate n2 0) r;
         if tna < BN_MUL_RECURSIVE_SIZE_NORMAL \<and> tnb < BN_MUL_RECURSIVE_SIZE_NORMAL then do {
           r \<leftarrow> put n2 (bn_mul_normal a1 b1) r;
           t \<leftarrow> put (n2 * 2) p t;
           add_products n neg r t
         }
         else do {
           let i = halve_until n tna tnb;
           (r, p) \<leftarrow> (if i < tna \<or> i < tnb
             then do {
               r2 \<leftarrow> get n2 (i * 4) r;
               (r2, p) \<leftarrow> bn_mul_part_recursive r2 a1 b1 i (tna - i) (tnb - i) p;
               r \<leftarrow> put n2 r2 r;
               Some (r, p)
             }
             else do {
               (r2, p) \<leftarrow> bn_mul_recursive a1 b1 i (int tna - int i) (int tnb - int i) p;
               r \<leftarrow> put n2 r2 r;
               Some (r, p)
             });
           t \<leftarrow> put (n2 * 2) p t;
           add_products n neg r t
         }
       }
     }
   }"
  by pat_completeness auto

termination
  by (relation "measure (\<lambda>(r, a, b, n, tna, tnb, t). n)")
    (auto simp: check_def power_of_two_def split: if_splits intro: halve_until_less)

declare bn_mul_part_recursive.simps [simp del]

section \<open>Squares\<close>

text \<open>
  The products of different words. A row has one word less than the row before, and begins two
  words further up.
\<close>

fun sqr_rows :: "u64 list \<Rightarrow> u64 list \<Rightarrow> u64 list" where
  "sqr_rows r (w # a # as) =
     (let (r, c) = bn_mul_add_words r (a # as) w; r = r @ [c] in take 2 r @ sqr_rows (drop 2 r) (a # as))"
| "sqr_rows r as = []"

definition bn_sqr_normal :: "u64 list \<Rightarrow> u64 list" where
  "bn_sqr_normal a = (case a of
     [] \<Rightarrow> []
   | w # as \<Rightarrow>
       let r = (if as = [] then []
                else let (r, c) = bn_mul_words as w; r = r @ [c] in take 2 r @ sqr_rows (drop 2 r) as);
           r = 0 # r @ [0];
           (r, _) = bn_add_words r r;
           tmp = bn_sqr_words a;
           (r, _) = bn_add_words r tmp in
       r)"

function bn_sqr_recursive :: "u64 list \<Rightarrow> nat \<Rightarrow> u64 list \<Rightarrow> (u64 list \<times> u64 list) option" where
  "bn_sqr_recursive a n2 t = do {
     check (power_of_two n2);
     if n2 = 4 then do { a \<leftarrow> get 0 4 a; Some (bn_sqr_comba4 a, t) }
     else if n2 = 8 then do { a \<leftarrow> get 0 8 a; Some (bn_sqr_comba8 a, t) }
     else if n2 < BN_SQR_RECURSIVE_SIZE_NORMAL then do {
       a \<leftarrow> get 0 n2 a;
       t \<leftarrow> put 0 (bn_sqr_words a) t;
       Some (bn_sqr_normal a, t)
     }
     else do {
       let n = n2 div 2;
       a0 \<leftarrow> get 0 n a; a1 \<leftarrow> get n n a;
       let (t0, tmp) = bn_abs_sub_words a0 a1;
       t \<leftarrow> put n tmp t;
       t \<leftarrow> put 0 t0 t;
       p \<leftarrow> get (n2 * 2) (length t - n2 * 2) t;
       (t2, p) \<leftarrow> bn_sqr_recursive t0 n p;
       t \<leftarrow> put n2 t2 t;
       (r0, p) \<leftarrow> bn_sqr_recursive a0 n p;
       (r2, p) \<leftarrow> bn_sqr_recursive a1 n p;
       t \<leftarrow> put (n2 * 2) p t;
       let (t0, c) = bn_add_words r0 r2;
       t \<leftarrow> put 0 t0 t;
       let (t2, borrow) = bn_sub_words t0 t2;
       t \<leftarrow> put n2 t2 t;
       r \<leftarrow> add_middle n (c - borrow) t2 (r0 @ r2);
       Some (r, t)
     }
   }"
  by pat_completeness auto

termination
  by (relation "measure (\<lambda>(a, n2, t). n2)") (auto simp: BN_SQR_RECURSIVE_SIZE_NORMAL_def)

declare bn_sqr_recursive.simps [simp del]

end
