(* ===== verification/BnNat.thy ===== *)
theory BnNat
  imports BnWords
begin

text \<open>The numbers that arrays of words stand for, and what the operations on arrays compute.\<close>

section \<open>Numbers\<close>

fun nat_of :: "u64 list \<Rightarrow> nat" where
  "nat_of [] = 0"
| "nat_of (x # xs) = unat x + 2 ^ 64 * nat_of xs"

abbreviation base :: "nat \<Rightarrow> nat" where
  "base n \<equiv> 2 ^ (64 * n)"

lemma base_Suc: "base (Suc n) = 2 ^ 64 * base n"
  by (simp add: power_add)

lemma unat_u64: "unat (x :: u64) < 2 ^ 64"
  using unsigned_less [of x, where ?'a = nat] by simp

lemma nat_of_append: "nat_of (xs @ ys) = nat_of xs + base (length xs) * nat_of ys"
  by (induction xs) (simp_all add: power_add algebra_simps)

lemma nat_of_less: "nat_of xs < base (length xs)"
proof (induction xs)
  case (Cons x xs)
  have "unat x + 2 ^ 64 * nat_of xs < 2 ^ 64 * (nat_of xs + 1)" using unat_u64 [of x] by simp
  also have "\<dots> \<le> 2 ^ 64 * base (length xs)" using Cons by (intro mult_left_mono) simp_all
  finally show ?case by (simp add: power_add)
qed simp

lemma nat_of_zeros [simp]: "nat_of (replicate n 0) = 0"
  by (induction n) simp_all

lemma nat_of_eq_0: "nat_of xs = 0 \<longleftrightarrow> set xs \<subseteq> {0}"
  by (induction xs) (auto simp: unat_eq_0)

lemma nat_of_inj: "length xs = length ys \<Longrightarrow> nat_of xs = nat_of ys \<Longrightarrow> xs = ys"
proof (induction xs ys rule: list_induct2)
  case (Cons x xs y ys)
  have "(unat x + 2 ^ 64 * nat_of xs) mod 2 ^ 64 = (unat y + 2 ^ 64 * nat_of ys) mod 2 ^ 64" using Cons(3) by simp
  then have "unat x = unat y" using unat_u64 [of x] unat_u64 [of y] by simp
  then show ?case using Cons by (simp add: word_unat_eq_iff)
qed simp

lemma nat_of_split: "n \<le> length xs \<Longrightarrow> nat_of xs = nat_of (take n xs) + base n * nat_of (drop n xs)"
  using nat_of_append [of "take n xs" "drop n xs"] by simp

section \<open>Double words\<close>

lemma unat_u128: "unat (x :: u128) < 2 ^ 128"
  using unsigned_less [of x, where ?'a = nat] by simp

lemma unat_wide: "unat (ucast (x :: u64) :: u128) = unat x"
proof -
  have "unat x < 2 ^ 128" using unat_u64 [of x] by simp
  then show ?thesis by (simp add: unsigned_ucast_eq take_bit_nat_eq_self)
qed

lemma Lw_Hw: "unat (Lw t) + 2 ^ 64 * unat (Hw t) = unat t"
proof -
  have "unat (Lw t) = unat t mod 2 ^ 64" by (simp add: Lw_def unsigned_ucast_eq take_bit_eq_mod)
  moreover have "unat t div 2 ^ 64 < 2 ^ 64" using unat_u128 [of t] by (simp add: less_mult_imp_div_less)
  then have "unat (Hw t) = unat t div 2 ^ 64"
    by (simp add: Hw_def unsigned_ucast_eq unat_drop_bit take_bit_nat_eq_self)
  ultimately show ?thesis by simp
qed

lemma product_bound: "unat (a :: u64) * unat (b :: u64) \<le> (2 ^ 64 - 1) * (2 ^ 64 - 1)"
  using unat_u64 [of a] unat_u64 [of b] by (intro mult_mono) simp_all

lemma unat_wide_sum:
  "unat (ucast (a :: u64) * ucast (b :: u64) + ucast (c :: u64) + ucast (d :: u64) :: u128) = unat a * unat b + unat c + unat d"
proof -
  have "unat a * unat b + unat c + unat d < 2 ^ 128" using product_bound [of a b] unat_u64 [of c] unat_u64 [of d] by simp
  then show ?thesis by (simp add: unat_word_ariths unat_wide)
qed

lemma unat_wide_product:
  "unat (ucast (a :: u64) * ucast (b :: u64) :: u128) = unat a * unat b"
  "unat (ucast (a :: u64) * ucast (b :: u64) + ucast (c :: u64) :: u128) = unat a * unat b + unat c"
  using unat_wide_sum [of a b 0 0] unat_wide_sum [of a b c 0] by simp_all

lemma mul_add_value:
  "mul_add r a w c = (x, c') \<Longrightarrow> unat x + 2 ^ 64 * unat c' = unat r + unat a * unat w + unat c"
  using Lw_Hw [of "ucast w * ucast a + ucast r + ucast c"] unat_wide_sum [of w a r c]
  by (auto simp: mul_add_def Let_def ac_simps)

lemma mul_word_value:
  "mul_word a w c = (x, c') \<Longrightarrow> unat x + 2 ^ 64 * unat c' = unat a * unat w + unat c"
  using Lw_Hw [of "ucast w * ucast a + ucast c"] unat_wide_product(2) [of w a c]
  by (auto simp: mul_word_def Let_def ac_simps)

lemma sqr_word_value: "sqr_word a = (lo, hi) \<Longrightarrow> unat lo + 2 ^ 64 * unat hi = unat a * unat a"
  using Lw_Hw [of "ucast a * ucast a"] unat_wide_product(1) [of a a] by (auto simp: sqr_word_def Let_def)

section \<open>Loops\<close>

lemma mul_add_loop_value:
  "length rs = length as \<Longrightarrow> mul_add_loop w c rs as = (xs, c') \<Longrightarrow>
   length xs = length as \<and> nat_of xs + base (length as) * unat c' = nat_of rs + nat_of as * unat w + unat c"
proof (induction rs as arbitrary: c xs c' rule: list_induct2)
  case (Cons r rs a as)
  obtain x c1 where x: "mul_add r a w c = (x, c1)" by fastforce
  obtain ys c2 where ys: "mul_add_loop w c1 rs as = (ys, c2)" by fastforce
  have r: "xs = x # ys" "c' = c2" using Cons(3) x ys by simp_all
  have "unat x + 2 ^ 64 * (nat_of ys + base (length as) * unat c2) =
      unat x + 2 ^ 64 * unat c1 + 2 ^ 64 * (nat_of rs + nat_of as * unat w)"
    using Cons(2) [OF ys] by (simp add: distrib_left)
  then show ?case using Cons(2) [OF ys] mul_add_value [OF x] unfolding r
    by (simp add: power_add algebra_simps)
qed simp

lemma bn_mul_add_words_value:
  "length r = length a \<Longrightarrow> bn_mul_add_words r a w = (xs, c) \<Longrightarrow>
   length xs = length a \<and> nat_of xs + base (length a) * unat c = nat_of r + nat_of a * unat w"
  using mul_add_loop_value [of r a w 0 xs c] by (simp add: bn_mul_add_words_def)

lemma mul_loop_value:
  "mul_loop w c as = (xs, c') \<Longrightarrow>
   length xs = length as \<and> nat_of xs + base (length as) * unat c' = nat_of as * unat w + unat c"
proof (induction as arbitrary: c xs c')
  case (Cons a as)
  obtain x c1 where x: "mul_word a w c = (x, c1)" by fastforce
  obtain ys c2 where ys: "mul_loop w c1 as = (ys, c2)" by fastforce
  have r: "xs = x # ys" "c' = c2" using Cons(2) x ys by simp_all
  have "unat x + 2 ^ 64 * (nat_of ys + base (length as) * unat c2) =
      unat x + 2 ^ 64 * unat c1 + 2 ^ 64 * (nat_of as * unat w)"
    using Cons(1) [OF ys] by (simp add: distrib_left)
  then show ?case using Cons(1) [OF ys] mul_word_value [OF x] unfolding r
    by (simp add: power_add algebra_simps)
qed simp

lemma bn_mul_words_value:
  "bn_mul_words a w = (xs, c) \<Longrightarrow>
   length xs = length a \<and> nat_of xs + base (length a) * unat c = nat_of a * unat w"
  using mul_loop_value [of w 0 a xs c] by (simp add: bn_mul_words_def)

text \<open>The digits of a square at twice the base.\<close>

primrec squares :: "u64 list \<Rightarrow> nat" where
  "squares [] = 0"
| "squares (a # as) = unat a ^ 2 + 2 ^ 128 * squares as"

lemma bn_sqr_words_value: "nat_of (bn_sqr_words a) = squares a \<and> length (bn_sqr_words a) = 2 * length a"
proof (induction a)
  case (Cons a as)
  obtain lo hi where x: "sqr_word a = (lo, hi)" by fastforce
  show ?case using Cons x sqr_word_value [OF x] by (simp add: power2_eq_square)
qed simp

lemma unat_sum_128:
  "unat ll + unat a < 2 ^ 128 \<Longrightarrow> unat (ll + a :: u128) = unat ll + unat a"
  by (simp add: unat_word_ariths)

lemma add_loop_value:
  "length as = length bs \<Longrightarrow> unat ll \<le> 1 \<Longrightarrow> add_loop ll as bs = (xs, c) \<Longrightarrow>
   length xs = length as \<and> unat c \<le> 1 \<and> nat_of xs + base (length as) * unat c = nat_of as + nat_of bs + unat ll"
proof (induction as bs arbitrary: ll xs c rule: list_induct2)
  case Nil
  have "unat (ucast ll :: u64) = unat ll" using Nil(1) by (simp add: unsigned_ucast_eq take_bit_nat_eq_self)
  then show ?case using Nil by auto
next
  case (Cons a as b bs)
  let ?t = "ll + (ucast a + ucast b)"
  have s: "unat (ucast a + ucast b :: u128) = unat a + unat b"
    using unat_wide_sum [of 0 0 a b] by simp
  have "unat ll + unat (ucast a + ucast b :: u128) < 2 ^ 128"
    unfolding s using unat_u64 [of a] unat_u64 [of b] Cons(3) by simp
  from unat_sum_128 [OF this] have t: "unat ?t = unat ll + (unat a + unat b)" by (simp only: s)
  obtain ys c2 where ys: "add_loop (drop_bit 64 ?t) as bs = (ys, c2)" by fastforce
  have r: "xs = ucast ?t # ys" "c = c2" using Cons(4) ys by (simp_all add: Let_def)
  have h: "unat (drop_bit 64 ?t) = unat ?t div 2 ^ 64" by (simp add: unat_drop_bit)
  moreover have "unat ?t < 2 * 2 ^ 64" unfolding t using unat_u64 [of a] unat_u64 [of b] Cons(3) by simp
  then have "unat ?t div 2 ^ 64 < 2" by (simp add: less_mult_imp_div_less)
  ultimately have h1: "unat (drop_bit 64 ?t) \<le> 1" by simp
  note ih = Cons(2) [OF h1 ys]
  have l: "unat (ucast ?t :: u64) = unat ?t mod 2 ^ 64" by (simp add: unsigned_ucast_eq take_bit_eq_mod)
  have "unat (ucast ?t :: u64) + 2 ^ 64 * unat (drop_bit 64 ?t) = unat ?t" unfolding l h by simp
  then show ?case using ih t unfolding r by (simp add: power_add algebra_simps)
qed

lemma bn_add_words_value:
  "length a = length b \<Longrightarrow> bn_add_words a b = (xs, c) \<Longrightarrow>
   length xs = length a \<and> unat c \<le> 1 \<and> nat_of xs + base (length a) * unat c = nat_of a + nat_of b"
  using add_loop_value [of a b 0 xs c] by (simp add: bn_add_words_def)

lemma sub_step:
  fixes t1 t2 c :: u64
  assumes "unat c \<le> 1"
  defines "c' \<equiv> (if t1 \<noteq> t2 then (if t1 < t2 then 1 else 0) else c)"
  shows "unat (t1 - t2 - c) + unat t2 + unat c = unat t1 + 2 ^ 64 * unat c' \<and> unat c' \<le> 1"
proof -
  have w: "uint (t1 - t2 - c) = (uint t1 - uint t2 - uint c) mod 2 ^ 64"
    by (simp add: uint_word_ariths mod_simps)
  have u: "uint x = int (unat x)" for x :: u64 by simp
  have b: "unat t1 < 2 ^ 64" "unat t2 < 2 ^ 64" by (rule unat_u64)+
  let ?B = "18446744073709551616"
  have e: "int (unat (t1 - t2 - c)) = (int (unat t1) - int (unat t2) - int (unat c)) mod ?B"
    using w unfolding u by simp
  have b: "unat t1 < ?B" "unat t2 < ?B" using unat_u64 [of t1] unat_u64 [of t2] by simp_all
  have lt: "t1 < t2 \<longleftrightarrow> unat t1 < unat t2" by (rule word_less_nat_alt)
  have eq: "t1 = t2 \<longleftrightarrow> unat t1 = unat t2" by (simp add: word_unat_eq_iff)
  consider "unat t2 + unat c \<le> unat t1" | "unat t1 < unat t2 + unat c" by linarith
  then show ?thesis
  proof cases
    case 1
    have "int (unat (t1 - t2 - c)) = int (unat t1) - int (unat t2) - int (unat c)"
      unfolding e by (intro mod_pos_pos_trivial) (use b 1 in linarith)+
    then have "unat (t1 - t2 - c) + unat t2 + unat c = unat t1" by linarith
    moreover have "c' = 0" using 1 assms(1) lt eq by (auto simp: c'_def unat_eq_0 split: if_splits)
    ultimately show ?thesis by simp
  next
    case 2
    have "int (unat (t1 - t2 - c)) = (int (unat t1) - int (unat t2) - int (unat c) + ?B) mod ?B" unfolding e by simp
    also have "\<dots> = int (unat t1) - int (unat t2) - int (unat c) + ?B"
      by (intro mod_pos_pos_trivial) (use 2 b assms(1) in linarith)+
    finally have "unat (t1 - t2 - c) + unat t2 + unat c = unat t1 + ?B" by linarith
    moreover have "unat c' = 1" using 2 assms(1) lt eq by (auto simp: c'_def)
    ultimately show ?thesis by simp
  qed
qed

lemma sub_loop_value:
  "length as = length bs \<Longrightarrow> unat c \<le> 1 \<Longrightarrow> sub_loop c as bs = (xs, c') \<Longrightarrow>
   length xs = length as \<and> unat c' \<le> 1 \<and> nat_of xs + nat_of bs + unat c = nat_of as + base (length as) * unat c'"
proof (induction as bs arbitrary: c xs c' rule: list_induct2)
  case (Cons t1 as t2 bs)
  let ?c = "if t1 \<noteq> t2 then (if t1 < t2 then 1 else 0) else c"
  obtain ys c2 where ys: "sub_loop ?c as bs = (ys, c2)" by fastforce
  have r: "xs = (t1 - t2 - c) # ys" "c' = c2" using Cons(4) ys by (simp_all add: Let_def)
  note s = sub_step [OF Cons(3), of t1 t2]
  note ih = Cons(2) [OF conjunct2 [OF s] ys]
  have "unat (t1 - t2 - c) + 2 ^ 64 * nat_of ys + (unat t2 + 2 ^ 64 * nat_of bs) + unat c =
      unat t1 + 2 ^ 64 * unat ?c + 2 ^ 64 * (nat_of ys + nat_of bs)"
    using conjunct1 [OF s] by (simp add: algebra_simps)
  also have "\<dots> = unat t1 + 2 ^ 64 * (nat_of as + base (length as) * unat c2)"
    using ih by (simp add: algebra_simps)
  finally show ?case using ih unfolding r by (simp add: power_add algebra_simps)
qed simp

lemma bn_sub_words_value:
  "length a = length b \<Longrightarrow> bn_sub_words a b = (xs, c) \<Longrightarrow>
   length xs = length a \<and> unat c \<le> 1 \<and> nat_of xs + nat_of b = nat_of a + base (length a) * unat c"
  using sub_loop_value [of a b 0 xs c] by (simp add: bn_sub_words_def)

lemma bn_select_words_value:
  "length a = length b \<Longrightarrow> bn_select_words (- 1) a b = a" "length a = length b \<Longrightarrow> bn_select_words 0 a b = b"
  by (induction a b rule: list_induct2) (simp_all add: constant_time_select_w_def value_barrier_w_def)

end
