(* ===== verification/BnComba.thy ===== *)
theory BnComba
  imports BnNat
begin

text \<open>The unrolled products compute products.\<close>

definition triple :: "u64 \<times> u64 \<times> u64 \<Rightarrow> nat" where
  "triple c = (case c of (c0, c1, c2) \<Rightarrow> unat c0 + 2 ^ 64 * unat c1 + 2 ^ 128 * unat c2)"

lemma carry_add:
  fixes a b :: u64
  shows "unat (a + b) + 2 ^ 64 * (if a + b < b then 1 else 0) = unat a + unat b"
proof (cases "unat a + unat b < 2 ^ 64")
  case True
  then have "unat (a + b) = unat a + unat b" by (simp add: unat_word_ariths)
  then show ?thesis by (simp add: word_less_nat_alt)
next
  case False
  have "unat a + unat b < 2 * 2 ^ 64" using unat_u64 [of a] unat_u64 [of b] by simp
  then have "(unat a + unat b) mod 2 ^ 64 = unat a + unat b - 2 ^ 64" using False by (simp add: mod_if)
  then have s: "unat (a + b) = unat a + unat b - 2 ^ 64" by (simp add: unat_word_ariths)
  then have "unat (a + b) < unat b" using unat_u64 [of a] False by simp
  then show ?thesis using s False by (simp add: word_less_nat_alt)
qed

lemma carry_into:
  assumes "unat c0 + 2 ^ 64 * (unat c1 + unat hi) + 2 ^ 128 * unat c2 < 2 ^ 192"
  shows "triple (c0, c1 + hi, if c1 + hi < hi then c2 + 1 else c2) =
    unat c0 + 2 ^ 64 * (unat c1 + unat hi) + 2 ^ 128 * unat c2"
proof (cases "c1 + hi < hi")
  case True
  have s: "unat (c1 + hi) + 2 ^ 64 = unat c1 + unat hi" using carry_add [of c1 hi] True by simp
  then have "2 ^ 128 * (unat c2 + 1) < (2 ^ 192 :: nat)" using assms by simp
  then have "unat (c2 + 1) = unat c2 + 1" by (simp add: unat_word_ariths)
  then show ?thesis using True s by (simp add: triple_def)
next
  case False
  then show ?thesis using carry_add [of c1 hi] by (simp add: triple_def)
qed

lemma mul_add_c_value:
  assumes "triple c + unat a * unat b < 2 ^ 192"
  shows "triple (mul_add_c a b c) = triple c + unat a * unat b"
proof -
  obtain c0 c1 c2 where c: "c = (c0, c1, c2)" by (cases c)
  let ?t = "ucast a * ucast b + ucast c0 :: u128"
  have t: "unat (Lw ?t) + 2 ^ 64 * unat (Hw ?t) = unat a * unat b + unat c0"
    using Lw_Hw [of ?t] unat_wide_product(2) [of a b c0] by simp
  have v: "unat (Lw ?t) + 2 ^ 64 * (unat c1 + unat (Hw ?t)) + 2 ^ 128 * unat c2 = triple c + unat a * unat b"
    using t by (simp add: c triple_def distrib_left)
  show ?thesis using carry_into [of "Lw ?t" c1 "Hw ?t" c2] v assms
    by (simp add: c mul_add_c_def Let_def)
qed

lemma mul_add_c2_twice: "mul_add_c2 a b c = mul_add_c a b (mul_add_c a b c)"
  by (cases c) (simp add: mul_add_c2_def mul_add_c_def Let_def)

definition op_value :: "u64 list \<Rightarrow> u64 list \<Rightarrow> comba_op \<Rightarrow> nat" where
  "op_value a b oper = (case oper of Once i j \<Rightarrow> unat (a ! i) * unat (b ! j) | Twice i j \<Rightarrow> 2 * (unat (a ! i) * unat (b ! j)))"

definition op_weight :: "comba_op \<Rightarrow> nat" where
  "op_weight oper = (case oper of Once i j \<Rightarrow> 1 | Twice i j \<Rightarrow> 2)"

lemma op_value_bound: "op_value a b oper \<le> op_weight oper * ((2 ^ 64 - 1) * (2 ^ 64 - 1))"
proof (cases oper)
  case (Once i j)
  then show ?thesis using product_bound [of "a ! i" "b ! j"] by (simp add: op_value_def op_weight_def)
next
  case (Twice i j)
  then show ?thesis using product_bound [of "a ! i" "b ! j"] by (simp add: op_value_def op_weight_def)
qed

lemma comba_add_value:
  "triple c + op_value a b oper < 2 ^ 192 \<Longrightarrow> triple (comba_add a b c oper) = triple c + op_value a b oper"
  using mul_add_c_value [of c] mul_add_c_value [of "mul_add_c x y c" x y for x y]
  by (auto simp: comba_add_def op_value_def mul_add_c2_twice split: comba_op.splits)

definition col_value :: "u64 list \<Rightarrow> u64 list \<Rightarrow> comba_op list \<Rightarrow> nat" where
  "col_value a b col = sum_list (map (op_value a b) col)"

lemma column_value:
  "triple c + col_value a b col < 2 ^ 192 \<Longrightarrow> triple (foldl (comba_add a b) c col) = triple c + col_value a b col"
proof (induction col arbitrary: c)
  case (Cons oper col)
  have "triple (comba_add a b c oper) = triple c + op_value a b oper"
    by (rule comba_add_value) (use Cons(2) in \<open>simp add: col_value_def\<close>)
  then show ?case using Cons(1) [of "comba_add a b c oper"] Cons(2) by (simp add: col_value_def)
qed (simp add: col_value_def)

fun cols_value :: "u64 list \<Rightarrow> u64 list \<Rightarrow> comba_op list list \<Rightarrow> nat" where
  "cols_value a b [] = 0"
| "cols_value a b (col # cols) = col_value a b col + 2 ^ 64 * cols_value a b cols"

lemma col_value_bound:
  "sum_list (map op_weight col) \<le> 8 \<Longrightarrow> col_value a b col \<le> 8 * ((2 ^ 64 - 1) * (2 ^ 64 - 1))"
proof -
  assume w: "sum_list (map op_weight col) \<le> 8"
  have "col_value a b col \<le> sum_list (map op_weight col) * ((2 ^ 64 - 1) * (2 ^ 64 - 1))"
    unfolding col_value_def
  proof (induction col)
    case (Cons oper col)
    show ?case using add_mono [OF op_value_bound [of a b oper] Cons] by (simp add: distrib_right)
  qed simp
  also have "\<dots> \<le> 8 * ((2 ^ 64 - 1) * (2 ^ 64 - 1))" by (rule mult_right_mono [OF w]) simp
  finally show ?thesis .
qed

lemma comba_value:
  "triple c \<le> 9 * 2 ^ 64 \<Longrightarrow> list_all (\<lambda>col. sum_list (map op_weight col) \<le> 8) cols \<Longrightarrow>
   length (comba a b c cols) = Suc (length cols) \<and>
   nat_of (comba a b c cols) = (triple c + cols_value a b cols) mod base (Suc (length cols))"
proof (induction cols arbitrary: c)
  case Nil
  obtain c0 c1 c2 where c: "c = (c0, c1, c2)" by (cases c)
  have "triple c = unat c0 + 2 ^ 64 * (unat c1 + 2 ^ 64 * unat c2)" by (simp add: c triple_def)
  moreover have "(unat c0 + 2 ^ 64 * k) mod 2 ^ 64 = unat c0" for k using unat_u64 [of c0] by simp
  ultimately have "triple c mod 2 ^ 64 = unat c0" by (simp only:)
  then show ?case by (simp add: c)
next
  case (Cons col cols)
  have b: "col_value a b col \<le> 8 * ((2 ^ 64 - 1) * (2 ^ 64 - 1))" using Cons(3) by (intro col_value_bound) simp
  then have l: "triple c + col_value a b col < 9 * 2 ^ 128" using Cons(2) by simp
  obtain c0 c1 c2 where c: "foldl (comba_add a b) c col = (c0, c1, c2)" by (metis prod_cases3)
  have v: "unat c0 + 2 ^ 64 * triple (c1, c2, 0) = triple c + col_value a b col"
    using column_value [of c a b col] l unfolding c by (simp add: triple_def)
  then have "2 ^ 64 * triple (c1, c2, 0) < 9 * 2 ^ 128" using l by simp
  then have "triple (c1, c2, 0) \<le> 9 * 2 ^ 64" by simp
  note ih = Cons(1) [OF this]
  have "nat_of (comba a b c (col # cols)) = unat c0 + 2 ^ 64 * ((triple (c1, c2, 0) + cols_value a b cols) mod base (Suc (length cols)))"
    using ih Cons(3) by (simp add: c)
  also have "\<dots> = (unat c0 + 2 ^ 64 * (triple (c1, c2, 0) + cols_value a b cols)) mod base (Suc (Suc (length cols)))"
  proof -
    have "(x + 2 ^ 64 * y) mod (2 ^ 64 * m) = x + 2 ^ 64 * (y mod m)" if "x < 2 ^ 64" for x y m :: nat
      using that by (simp add: mod_mult2_eq)
    from this [OF unat_u64] show ?thesis unfolding base_Suc [of "Suc (length cols)"] by (rule sym)
  qed
  also have "unat c0 + 2 ^ 64 * (triple (c1, c2, 0) + cols_value a b cols) = triple c + cols_value a b (col # cols)"
    using v by (simp add: distrib_left)
  finally show ?case using ih Cons(3) by (simp add: c)
qed

section \<open>The tables\<close>

lemma horner4:
  fixes B :: nat
  shows "(a0 + B * (a1 + B * (a2 + B * a3))) * (b0 + B * (b1 + B * (b2 + B * b3))) =
      a0 * b0 +
      B * (a0 * b1 + a1 * b0 +
      B * (a0 * b2 + a1 * b1 + a2 * b0 +
      B * (a0 * b3 + a1 * b2 + a2 * b1 + a3 * b0 +
      B * (a1 * b3 + a2 * b2 + a3 * b1 +
      B * (a2 * b3 + a3 * b2 +
      B * (a3 * b3))))))"
  by (simp add: algebra_simps)

lemma horner8:
  fixes B :: nat
  shows "(a0 + B * (a1 + B * (a2 + B * (a3 + B * (a4 + B * (a5 + B * (a6 + B * a7))))))) * (b0 + B * (b1 + B * (b2 + B * (b3 + B * (b4 + B * (b5 + B * (b6 + B * b7))))))) =
      a0 * b0 +
      B * (a0 * b1 + a1 * b0 +
      B * (a0 * b2 + a1 * b1 + a2 * b0 +
      B * (a0 * b3 + a1 * b2 + a2 * b1 + a3 * b0 +
      B * (a0 * b4 + a1 * b3 + a2 * b2 + a3 * b1 + a4 * b0 +
      B * (a0 * b5 + a1 * b4 + a2 * b3 + a3 * b2 + a4 * b1 + a5 * b0 +
      B * (a0 * b6 + a1 * b5 + a2 * b4 + a3 * b3 + a4 * b2 + a5 * b1 + a6 * b0 +
      B * (a0 * b7 + a1 * b6 + a2 * b5 + a3 * b4 + a4 * b3 + a5 * b2 + a6 * b1 + a7 * b0 +
      B * (a1 * b7 + a2 * b6 + a3 * b5 + a4 * b4 + a5 * b3 + a6 * b2 + a7 * b1 +
      B * (a2 * b7 + a3 * b6 + a4 * b5 + a5 * b4 + a6 * b3 + a7 * b2 +
      B * (a3 * b7 + a4 * b6 + a5 * b5 + a6 * b4 + a7 * b3 +
      B * (a4 * b7 + a5 * b6 + a6 * b5 + a7 * b4 +
      B * (a5 * b7 + a6 * b6 + a7 * b5 +
      B * (a6 * b7 + a7 * b6 +
      B * (a7 * b7))))))))))))))"
  by (simp add: algebra_simps)

lemma length_4: "length a = 4 \<Longrightarrow> \<exists>x0 x1 x2 x3. a = [x0, x1, x2, x3]"
  by (auto simp: length_Suc_conv numeral_eq_Suc)

lemma length_8: "length a = 8 \<Longrightarrow> \<exists>x0 x1 x2 x3 x4 x5 x6 x7. a = [x0, x1, x2, x3, x4, x5, x6, x7]"
  by (auto simp: length_Suc_conv numeral_eq_Suc)

lemma columns4:
  assumes "length a = 4" and "length b = 4"
  shows "cols_value a b mul_columns4 = nat_of a * nat_of b" and "cols_value a a sqr_columns4 = nat_of a * nat_of a"
proof -
  obtain x0 x1 x2 x3 where a: "a = [x0, x1, x2, x3]" using length_4 [OF assms(1)] by blast
  obtain y0 y1 y2 y3 where b: "b = [y0, y1, y2, y3]" using length_4 [OF assms(2)] by blast
  define B where "B = (2 :: nat) ^ 64"
  note h = horner4 [of _ B]
  show "cols_value a b mul_columns4 = nat_of a * nat_of b"
    unfolding a b nat_of.simps mult_0_right add_0_right mul_columns4_def cols_value.simps col_value_def
      B_def [symmetric] h
    by (simp add: op_value_def)
  show "cols_value a a sqr_columns4 = nat_of a * nat_of a"
    unfolding a nat_of.simps mult_0_right add_0_right sqr_columns4_def cols_value.simps col_value_def
      B_def [symmetric] h
    by (simp add: op_value_def ac_simps)
qed

lemma columns8:
  assumes "length a = 8" and "length b = 8"
  shows "cols_value a b mul_columns8 = nat_of a * nat_of b" and "cols_value a a sqr_columns8 = nat_of a * nat_of a"
proof -
  obtain x0 x1 x2 x3 x4 x5 x6 x7 where a: "a = [x0, x1, x2, x3, x4, x5, x6, x7]" using length_8 [OF assms(1)] by blast
  obtain y0 y1 y2 y3 y4 y5 y6 y7 where b: "b = [y0, y1, y2, y3, y4, y5, y6, y7]" using length_8 [OF assms(2)] by blast
  define B where "B = (2 :: nat) ^ 64"
  note h = horner8 [of _ B]
  show "cols_value a b mul_columns8 = nat_of a * nat_of b"
    unfolding a b nat_of.simps mult_0_right add_0_right mul_columns8_def cols_value.simps col_value_def
      B_def [symmetric] h
    by (simp add: op_value_def)
  show "cols_value a a sqr_columns8 = nat_of a * nat_of a"
    unfolding a nat_of.simps mult_0_right add_0_right sqr_columns8_def cols_value.simps col_value_def
      B_def [symmetric] h
    by (simp add: op_value_def ac_simps)
qed

lemma comba_exact:
  assumes "cols_value a b cols = nat_of a * nat_of b" and "list_all (\<lambda>col. sum_list (map op_weight col) \<le> 8) cols"
    and "length a = n" and "length b = n" and "Suc (length cols) = 2 * n"
  shows "length (comba a b (0, 0, 0) cols) = 2 * n \<and> nat_of (comba a b (0, 0, 0) cols) = nat_of a * nat_of b"
proof -
  have "nat_of a * nat_of b < base n * base n"
    using nat_of_less [of a] nat_of_less [of b] assms(3,4) by (intro mult_strict_mono) simp_all
  then have "nat_of a * nat_of b < base (Suc (length cols))" unfolding assms(5) by (simp flip: power_add add: mult_2)
  then show ?thesis using comba_value [of "(0, 0, 0)" cols a b] assms by (simp add: triple_def)
qed

lemma bn_mul_comba8_value:
  "length a = 8 \<Longrightarrow> length b = 8 \<Longrightarrow> length (bn_mul_comba8 a b) = 16 \<and> nat_of (bn_mul_comba8 a b) = nat_of a * nat_of b"
  using comba_exact [OF columns8(1)] unfolding bn_mul_comba8_def
  by (simp add: mul_columns8_def op_weight_def)

lemma bn_mul_comba4_value:
  "length a = 4 \<Longrightarrow> length b = 4 \<Longrightarrow> length (bn_mul_comba4 a b) = 8 \<and> nat_of (bn_mul_comba4 a b) = nat_of a * nat_of b"
  using comba_exact [OF columns4(1)] unfolding bn_mul_comba4_def
  by (simp add: mul_columns4_def op_weight_def)

lemma bn_sqr_comba8_value:
  "length a = 8 \<Longrightarrow> length (bn_sqr_comba8 a) = 16 \<and> nat_of (bn_sqr_comba8 a) = nat_of a * nat_of a"
  using comba_exact [OF columns8(2)] unfolding bn_sqr_comba8_def
  by (simp add: sqr_columns8_def op_weight_def)

lemma bn_sqr_comba4_value:
  "length a = 4 \<Longrightarrow> length (bn_sqr_comba4 a) = 8 \<and> nat_of (bn_sqr_comba4 a) = nat_of a * nat_of a"
  using comba_exact [OF columns4(2)] unfolding bn_sqr_comba4_def
  by (simp add: sqr_columns4_def op_weight_def)

end
