(* ===== verification/BnMulRef.thy ===== *)
theory BnMulRef
  imports BnMul BnComba
begin

text \<open>The products of arrays compute products, within the arrays they are given.\<close>

section \<open>Parts of arrays\<close>

lemma get_at [simp]:
  "length u = i \<Longrightarrow> length v = n \<Longrightarrow> get i n (u @ v @ w) = Some v"
  "length u = i \<Longrightarrow> length v = n \<Longrightarrow> get i n (u @ v) = Some v"
  "length v = n \<Longrightarrow> get 0 n (v @ w) = Some v"
  "length v = n \<Longrightarrow> get 0 n v = Some v"
  by (auto simp: get_def)

lemma put_at [simp]:
  "length u = i \<Longrightarrow> length ys = length v \<Longrightarrow> put i ys (u @ v @ w) = Some (u @ ys @ w)"
  "length u = i \<Longrightarrow> length ys = length v \<Longrightarrow> put i ys (u @ v) = Some (u @ ys)"
  "length ys = length v \<Longrightarrow> put 0 ys (v @ w) = Some (ys @ w)"
  by (auto simp: put_def)

lemma check_simps [simp]: "check True = Some ()" "check False = None"
  by (simp_all add: check_def)

lemma split_at: "length xs = m + n \<Longrightarrow> \<exists>u v. xs = u @ v \<and> length u = m \<and> length v = n"
  by (rule exI [of _ "take m xs"], rule exI [of _ "drop m xs"]) simp

lemma split_half: "length xs = 2 * n \<Longrightarrow> \<exists>u v. xs = u @ v \<and> length u = n \<and> length v = n"
  using split_at [of xs n n] by simp

section \<open>Differences\<close>

lemma select_words:
  "length a = length b \<Longrightarrow> bn_select_words m a b = (if m = - 1 then a else b)" if "m = 0 \<or> m = - 1"
  using that bn_select_words_value by auto

definition mask_of :: "bool \<Rightarrow> u64" where "mask_of b = (if b then - 1 else 0)"

lemma mask_of_simps [simp]: "mask_of True = - 1" "mask_of False = 0"
  by (simp_all add: mask_of_def)

lemma mask_cases: "mask_of b = 0 \<or> mask_of b = - 1"
  by (simp add: mask_of_def)

lemma unat_1_eq: "unat (c :: u64) = Suc 0 \<Longrightarrow> c = 1"
  by (rule word_unat_eq_iff [THEN iffD2]) simp

lemma borrow_mask: "unat (c :: u64) \<le> 1 \<Longrightarrow> - c = mask_of (unat c = 1)"
  by (auto simp: mask_of_def unat_eq_0 le_Suc_eq dest: unat_1_eq)

lemma sub_from_zero_value:
  "unat c \<le> 1 \<Longrightarrow> sub_from_zero c bs = (xs, c') \<Longrightarrow>
   length xs = length bs \<and> unat c' \<le> 1 \<and> nat_of xs + nat_of bs + unat c = base (length bs) * unat c'"
proof (induction bs arbitrary: c xs c')
  case (Cons t bs)
  let ?c = "if t \<noteq> 0 then 1 else c"
  obtain ys c2 where ys: "sub_from_zero ?c bs = (ys, c2)" by fastforce
  have r: "xs = (0 - t - c) # ys" "c' = c2" using Cons(3) ys by simp_all
  have s: "unat (0 - t - c) + unat t + unat c = 2 ^ 64 * unat ?c \<and> unat ?c \<le> 1"
    using sub_step [OF Cons(2), of 0 t] by (auto simp: word_neq_0_conv split: if_splits)
  note ih = Cons(1) [OF conjunct2 [OF s] ys]
  have "unat (0 - t - c) + 2 ^ 64 * nat_of ys + (unat t + 2 ^ 64 * nat_of bs) + unat c =
      2 ^ 64 * unat ?c + 2 ^ 64 * (nat_of ys + nat_of bs)"
    using conjunct1 [OF s] by (simp add: algebra_simps)
  also have "\<dots> = 2 ^ 64 * (base (length bs) * unat c2)" using ih by (simp add: algebra_simps)
  finally show ?case using ih unfolding r by (simp add: power_add algebra_simps)
qed auto

lemma sub_borrow_value:
  "unat c \<le> 1 \<Longrightarrow> sub_borrow c as = (xs, c') \<Longrightarrow>
   length xs = length as \<and> unat c' \<le> 1 \<and> nat_of xs + unat c = nat_of as + base (length as) * unat c'"
proof (induction as arbitrary: c xs c')
  case (Cons t as)
  let ?c = "if c \<noteq> 0 \<and> t \<noteq> 0 then 0 else c"
  obtain ys c2 where ys: "sub_borrow ?c as = (ys, c2)" by fastforce
  have r: "xs = (t - c) # ys" "c' = c2" using Cons(3) ys by simp_all
  have s: "unat (t - c) + unat c = unat t + 2 ^ 64 * unat ?c \<and> unat ?c \<le> 1"
  proof (cases "c = 0")
    case False
    then have "c = 1" using Cons(2) by (auto simp: le_Suc_eq unat_eq_0 dest: unat_1_eq)
    then show ?thesis using sub_step [of 0 t 1] by (auto simp: word_less_nat_alt unat_eq_0 split: if_splits)
  qed simp
  note ih = Cons(1) [OF conjunct2 [OF s] ys]
  have "unat (t - c) + 2 ^ 64 * nat_of ys + unat c = unat t + 2 ^ 64 * (nat_of ys + unat ?c)"
    using conjunct1 [OF s] by (simp add: algebra_simps)
  also have "\<dots> = unat t + 2 ^ 64 * (nat_of as + base (length as) * unat c2)" using ih by simp
  finally show ?case using ih unfolding r by (simp add: power_add algebra_simps)
qed auto

lemma bn_sub_part_words_value:
  assumes "length a = (if 0 \<le> dl then cl + nat dl else cl)" and "length b = (if 0 \<le> dl then cl else cl + nat (- dl))"
    and "bn_sub_part_words a b cl dl = (xs, c)"
  shows "length xs = cl + nat \<bar>dl\<bar> \<and> unat c \<le> 1 \<and> nat_of xs + nat_of b = nat_of a + base (cl + nat \<bar>dl\<bar>) * unat c"
proof -
  obtain r c1 where r: "bn_sub_words (take cl a) (take cl b) = (r, c1)" by fastforce
  have la: "cl \<le> length a" "cl \<le> length b" using assms(1,2) by auto
  have v: "length r = cl" "unat c1 \<le> 1" "nat_of r + nat_of (take cl b) = nat_of (take cl a) + base cl * unat c1"
    using bn_sub_words_value [OF _ r] la by simp_all
  have a: "nat_of a = nat_of (take cl a) + base cl * nat_of (drop cl a)" by (rule nat_of_split [OF la(1)])
  have b: "nat_of b = nat_of (take cl b) + base cl * nat_of (drop cl b)" by (rule nat_of_split [OF la(2)])
  consider "dl = 0" | "dl < 0" | "0 < dl" by linarith
  then show ?thesis
  proof cases
    case 1
    then show ?thesis using assms v r by (simp add: bn_sub_part_words_def)
  next
    case 2
    obtain rs c2 where rs: "sub_from_zero c1 (drop cl b) = (rs, c2)" by fastforce
    have x: "xs = r @ rs" "c = c2" using assms(2,3) 2 r rs by (simp_all add: bn_sub_part_words_def)
    have e: "nat \<bar>dl\<bar> = nat (- dl)" using 2 by simp
    have "drop cl a = []" using assms(1) 2 by simp
    then have z: "base cl * nat_of (drop cl a) = 0" by simp
    have l: "length (drop cl b) = nat (- dl)" using assms(2) 2 by simp
    note s = sub_from_zero_value [OF v(2) rs, unfolded l]
    have "base cl * nat_of rs + base cl * nat_of (drop cl b) + base cl * unat c1 = base (cl + nat (- dl)) * unat c2"
      using arg_cong [OF conjunct2 [OF conjunct2 [OF s]], of "\<lambda>x. base cl * x"] by (simp add: power_add algebra_simps)
    then have "nat_of r + base cl * nat_of rs + nat_of b = nat_of a + base (cl + nat (- dl)) * unat c2"
      using v(3) a b z by linarith
    then show ?thesis unfolding x e nat_of_append v(1) using s v(1) by simp
  next
    case 3
    obtain rs c2 where rs: "sub_borrow c1 (drop cl a) = (rs, c2)" by fastforce
    have x: "xs = r @ rs" "c = c2" using assms(1,3) 3 r rs by (simp_all add: bn_sub_part_words_def)
    have e: "nat \<bar>dl\<bar> = nat dl" using 3 by simp
    have "drop cl b = []" using assms(2) 3 by simp
    then have z: "base cl * nat_of (drop cl b) = 0" by simp
    have l: "length (drop cl a) = nat dl" using assms(1) 3 by simp
    note s = sub_borrow_value [OF v(2) rs, unfolded l]
    have "base cl * nat_of rs + base cl * unat c1 = base cl * nat_of (drop cl a) + base (cl + nat dl) * unat c2"
      using arg_cong [OF conjunct2 [OF conjunct2 [OF s]], of "\<lambda>x. base cl * x"] by (simp add: power_add algebra_simps)
    then have "nat_of r + base cl * nat_of rs + nat_of b = nat_of a + base (cl + nat dl) * unat c2"
      using v(3) a b z by linarith
    then show ?thesis unfolding x e nat_of_append v(1) using s v(1) by simp
  qed
qed

lemma bn_abs_sub_part_words_value:
  assumes "length a = (if 0 \<le> dl then cl + nat dl else cl)" and "length b = (if 0 \<le> dl then cl else cl + nat (- dl))"
    and "bn_abs_sub_part_words a b cl dl = (r, neg, tmp)"
  shows "length r = cl + nat \<bar>dl\<bar>" and "length tmp = cl + nat \<bar>dl\<bar>"
    and "neg = mask_of (nat_of a < nat_of b)" and "int (nat_of r) = \<bar>int (nat_of a) - int (nat_of b)\<bar>"
proof -
  let ?n = "cl + nat \<bar>dl\<bar>"
  obtain x c where x: "bn_sub_part_words a b cl dl = (x, c)" by fastforce
  obtain y d where y: "bn_sub_part_words b a cl (- dl) = (y, d)" by fastforce
  have vx: "length x = ?n" "unat c \<le> 1" "nat_of x + nat_of b = nat_of a + base ?n * unat c"
    using bn_sub_part_words_value [OF assms(1,2) x] by simp_all
  have vy: "length y = ?n" "unat d \<le> 1" "nat_of y + nat_of a = nat_of b + base ?n * unat d"
    using bn_sub_part_words_value [of b "- dl" cl a, OF _ _ y] assms(1,2) by (auto split: if_splits)
  have neg: "neg = mask_of (unat c = 1)" and tmp: "tmp = x"
    and r: "r = bn_select_words (mask_of (unat c = 1)) y x"
    using assms(3) x y unfolding borrow_mask [OF vx(2), symmetric] by (auto simp: bn_abs_sub_part_words_def Let_def)
  have lt: "nat_of x < base ?n" "nat_of y < base ?n" using nat_of_less [of x] nat_of_less [of y] vx(1) vy(1) by simp_all
  have a: "unat c = 1 \<longleftrightarrow> nat_of a < nat_of b"
    using vx lt by (cases "unat c = 0") (auto simp: le_Suc_eq)
  have b: "unat d = 1 \<longleftrightarrow> nat_of b < nat_of a"
    using vy lt by (cases "unat d = 0") (auto simp: le_Suc_eq)
  show "neg = mask_of (nat_of a < nat_of b)" using neg a by simp
  show "length tmp = ?n" using tmp vx by simp
  have r2: "r = (if unat c = 1 then y else x)"
    unfolding r using select_words [OF mask_cases, of y x] vx(1) vy(1) by (auto simp: mask_of_def)
  then show "length r = ?n" using vx vy by simp
  show "int (nat_of r) = \<bar>int (nat_of a) - int (nat_of b)\<bar>"
  proof (cases "unat c = 1")
    case True
    then have "unat d = 0" using a b vy(2) by (auto simp: le_Suc_eq)
    then show ?thesis using True a vy(3) r2 by simp
  next
    case False
    then have "unat c = 0" using vx(2) by (auto simp: le_Suc_eq)
    then show ?thesis using False a vx(3) r2 by simp
  qed
qed

lemma bn_abs_sub_words_part:
  "length a = n \<Longrightarrow> length b = n \<Longrightarrow> bn_abs_sub_words a b = (case bn_abs_sub_part_words a b n 0 of (r, neg, tmp) \<Rightarrow> (r, tmp))"
  by (simp add: bn_abs_sub_words_def bn_abs_sub_part_words_def bn_sub_part_words_def Let_def split: prod.splits)

section \<open>The schoolbook method\<close>

lemma mul_rows_value:
  "length r = length a \<Longrightarrow> a \<noteq> [] \<Longrightarrow>
   length (mul_rows r a bs) = length a + length bs \<and> nat_of (mul_rows r a bs) = nat_of r + nat_of a * nat_of bs"
proof (induction bs arbitrary: r)
  case (Cons w bs)
  obtain x c where x: "bn_mul_add_words r a w = (x, c)" by fastforce
  have v: "length x = length a" "nat_of x + base (length a) * unat c = nat_of r + nat_of a * unat w"
    using bn_mul_add_words_value [OF Cons(2) x] by simp_all
  then obtain h u where h: "x = h # u" using Cons(3) by (cases x) auto
  have l: "length (u @ [c]) = length a" using v(1) h by simp
  have "nat_of x + base (length a) * unat c = unat h + 2 ^ 64 * nat_of (u @ [c])"
  proof -
    have "nat_of x + base (length x) * unat c = nat_of (x @ [c])" by (simp add: nat_of_append)
    then show ?thesis unfolding v(1) by (simp add: h)
  qed
  then have "unat h + 2 ^ 64 * (nat_of (u @ [c]) + nat_of a * nat_of bs) = nat_of r + nat_of a * (unat w + 2 ^ 64 * nat_of bs)"
    using v(2) by (simp add: distrib_left mult.left_commute)
  then show ?case using Cons(1) [OF l Cons(3)] x h by (simp add: mult.assoc)
qed simp

lemma bn_mul_words_rows: "bn_mul_words a w = bn_mul_add_words (replicate (length a) 0) a w"
proof -
  have "mul_loop w c a = mul_add_loop w c (replicate (length a) 0) a" for c
    by (induction a arbitrary: c) (simp_all add: mul_word_def mul_add_def)
  then show ?thesis by (simp add: bn_mul_words_def bn_mul_add_words_def)
qed

lemma bn_mul_normal_value:
  "length (bn_mul_normal a b) = length a + length b \<and> nat_of (bn_mul_normal a b) = nat_of a * nat_of b"
proof -
  have *: "length (case b of [] \<Rightarrow> replicate (length a) 0
        | w # bs \<Rightarrow> (case bn_mul_words a w of (r, c) \<Rightarrow> hd r # mul_rows (tl r @ [c]) a bs)) = length a + length b \<and>
      nat_of (case b of [] \<Rightarrow> replicate (length a) 0
        | w # bs \<Rightarrow> (case bn_mul_words a w of (r, c) \<Rightarrow> hd r # mul_rows (tl r @ [c]) a bs)) = nat_of a * nat_of b"
    if "length b \<le> length a" for a b :: "u64 list"
  proof (cases b)
    case (Cons w bs)
    then have "a \<noteq> []" using that by auto
    then show ?thesis using mul_rows_value [of "replicate (length a) 0" a "w # bs"]
      by (simp add: Cons bn_mul_words_rows)
  qed simp
  show ?thesis
  proof (cases "length a < length b")
    case True
    then show ?thesis using * [of a b] by (simp add: bn_mul_normal_def ac_simps)
  next
    case False
    then show ?thesis using * [of b a] by (simp add: bn_mul_normal_def)
  qed
qed

section \<open>Adding the parts\<close>

lemma propagate_value:
  "propagate c rs = (xs, c') \<Longrightarrow> length xs = length rs \<and> nat_of xs + base (length rs) * unat c' = nat_of rs + unat c"
proof (induction rs arbitrary: c xs c')
  case (Cons old rs)
  let ?c = "if old + c < old then 1 else (0 :: u64)"
  obtain ys c2 where ys: "propagate ?c rs = (ys, c2)" by fastforce
  have r: "xs = (old + c) # ys" "c' = c2" using Cons(2) ys by (simp_all add: Let_def)
  have s: "unat (old + c) + 2 ^ 64 * unat ?c = unat old + unat c"
    using carry_add [of c old] by (simp add: add.commute split: if_splits)
  have "2 ^ 64 * (nat_of ys + base (length rs) * unat c2) = 2 ^ 64 * nat_of rs + 2 ^ 64 * unat ?c"
    using Cons(1) [OF ys] by simp
  then have "unat (old + c) + 2 ^ 64 * nat_of ys + 2 ^ 64 * (base (length rs) * unat c2) = unat old + 2 ^ 64 * nat_of rs + unat c"
    using s by (simp only: distrib_left)
  then show ?case using Cons(1) [OF ys] unfolding r by (simp add: power_add mult.assoc)
qed auto

lemma add_middle_value:
  assumes "length r0 = n" and "length r1 = 2 * n" and "length r3 = n" and "length m = 2 * n" and "unat c \<le> 2"
    and "nat_of (r0 @ r1 @ r3) + base n * (nat_of m + base (2 * n) * unat c) < base (4 * n)"
  shows "\<exists>r'. add_middle n c m (r0 @ r1 @ r3) = Some r' \<and> length r' = 4 * n \<and>
    nat_of r' = nat_of (r0 @ r1 @ r3) + base n * (nat_of m + base (2 * n) * unat c)"
proof -
  obtain w carry where w: "bn_add_words r1 m = (w, carry)" by fastforce
  have vw: "length w = 2 * n" "unat carry \<le> 1" "nat_of w + base (2 * n) * unat carry = nat_of r1 + nat_of m"
    using bn_add_words_value [OF _ w] assms(2,4) by simp_all
  obtain high c' where high: "propagate (c + carry) r3 = (high, c')" by fastforce
  have vh: "length high = n" "nat_of high + base n * unat c' = nat_of r3 + unat (c + carry)"
    using propagate_value [OF high] assms(3) by simp_all
  have "unat (c + carry) = unat c + unat carry" using assms(5) vw(2) by (simp add: unat_word_ariths)
  note vh = vh(1) vh(2) [unfolded this]
  have b: "base (4 * n) = base n * (base (2 * n) * base n)" by (simp flip: power_add)
  have "nat_of (r0 @ r1 @ r3) = nat_of r0 + base n * (nat_of r1 + base (2 * n) * nat_of r3)"
    unfolding nat_of_append assms(1,2) ..
  moreover have "nat_of (r0 @ w @ high) = nat_of r0 + base n * (nat_of w + base (2 * n) * nat_of high)"
    unfolding nat_of_append assms(1) vw(1) ..
  moreover have "nat_of w + base (2 * n) * nat_of high + base (2 * n) * (base n * unat c') =
      nat_of r1 + base (2 * n) * nat_of r3 + (nat_of m + base (2 * n) * unat c)"
    using arg_cong [OF vh(2), of "\<lambda>x. base (2 * n) * x"] vw(3) unfolding distrib_left by linarith
  note arg_cong [OF this, of "\<lambda>x. base n * x"]
  ultimately have total: "nat_of (r0 @ w @ high) + base (4 * n) * unat c' =
      nat_of (r0 @ r1 @ r3) + base n * (nat_of m + base (2 * n) * unat c)"
    unfolding b distrib_left mult.assoc by linarith
  then have "base (4 * n) * unat c' < base (4 * n) * 1" using assms(6) by linarith
  then have "c' = 0" by (simp add: unat_eq_0)
  moreover have "get (3 * n) n (r0 @ w @ r3) = Some r3" "put (3 * n) high (r0 @ w @ r3) = Some (r0 @ w @ high)"
    using get_at(2) [of "r0 @ w" "3 * n" r3 n] put_at(2) [of "r0 @ w" "3 * n" high r3] assms(1,3) vw(1) vh(1) by simp_all
  ultimately show ?thesis using total w high assms(1-4) vw(1) vh(1)
    by (simp add: add_middle_def)
qed

lemma select_carry:
  "unat c \<le> 1 \<Longrightarrow> unat borrow \<le> unat c \<Longrightarrow> unat carry \<le> 1 \<Longrightarrow>
   unat (constant_time_select_w (mask_of b) (c - borrow) (c + carry)) = (if b then unat c - unat borrow else unat c + unat carry)"
  by (cases b) (simp_all add: constant_time_select_w_def value_barrier_w_def unat_sub word_le_nat_alt unat_word_ariths)

text \<open>The middle term is the sum or the difference of two numbers.\<close>

lemma add_products_value:
  assumes r: "length r0 = 2 * n" "length r2 = 2 * n" and t: "length t01 = 2 * n" "length t2 = 2 * n" "length t4 = 2 * n"
    and v: "v = (if b then nat_of r0 + nat_of r2 - nat_of t2 else nat_of r0 + nat_of r2 + nat_of t2)"
    and sub: "b \<Longrightarrow> nat_of t2 \<le> nat_of r0 + nat_of r2"
    and fits: "nat_of (r0 @ r2) + base n * v < base (4 * n)"
  shows "\<exists>r' t'. add_products n (mask_of b) (r0 @ r2) (t01 @ t2 @ t4 @ rest) = Some (r', t') \<and>
    length r' = 4 * n \<and> length t' = length (t01 @ t2 @ t4 @ rest) \<and> nat_of r' = nat_of (r0 @ r2) + base n * v"
proof -
  obtain t0 c where t0: "bn_add_words r0 r2 = (t0, c)" by fastforce
  have v0: "length t0 = 2 * n" "unat c \<le> 1" "nat_of t0 + base (2 * n) * unat c = nat_of r0 + nat_of r2"
    using bn_add_words_value [OF _ t0] r by simp_all
  obtain s borrow where s: "bn_sub_words t0 t2 = (s, borrow)" by fastforce
  have vs: "length s = 2 * n" "unat borrow \<le> 1" "nat_of s + nat_of t2 = nat_of t0 + base (2 * n) * unat borrow"
    using bn_sub_words_value [OF _ s] v0(1) t by simp_all
  obtain a carry where a: "bn_add_words t0 t2 = (a, carry)" by fastforce
  have va: "length a = 2 * n" "unat carry \<le> 1" "nat_of a + base (2 * n) * unat carry = nat_of t0 + nat_of t2"
    using bn_add_words_value [OF _ a] v0(1) t by simp_all
  let ?m = "bn_select_words (mask_of b) s a" and ?c = "constant_time_select_w (mask_of b) (c - borrow) (c + carry)"
  have m: "?m = (if b then s else a)" using select_words [OF mask_cases, of s a] vs(1) va(1) by (auto simp: mask_of_def)
  have bc: "unat borrow \<le> unat c" if b
  proof (rule ccontr)
    assume "\<not> unat borrow \<le> unat c"
    then have "unat borrow = 1" "unat c = 0" using vs(2) by simp_all
    then have "nat_of s + nat_of t2 = nat_of r0 + nat_of r2 + base (2 * n)" using vs(3) v0(3) by simp
    then have "base (2 * n) \<le> nat_of s" using sub [OF that] by linarith
    then show False using nat_of_less [of s] vs(1) by simp
  qed
  have c: "unat ?c = (if b then unat c - unat borrow else unat c + unat carry)"
  proof (cases b)
    case True
    then show ?thesis using select_carry [OF v0(2) bc va(2), of True] by simp
  next
    case False
    then show ?thesis using select_carry [OF v0(2) _ va(2), of 0 False] by (simp add: constant_time_select_w_def value_barrier_w_def)
  qed
  have mid: "nat_of ?m + base (2 * n) * unat ?c = v"
  proof (cases b)
    case True
    have "base (2 * n) * (unat c - unat borrow) + base (2 * n) * unat borrow = base (2 * n) * unat c"
      using bc [OF True] by (simp flip: distrib_left)
    then have "nat_of s + base (2 * n) * (unat c - unat borrow) + nat_of t2 = nat_of r0 + nat_of r2"
      using vs(3) v0(3) by linarith
    then show ?thesis using True m c v by simp
  next
    case False
    then show ?thesis using va(3) v0(3) m c v by (simp add: distrib_left)
  qed
  have c2: "unat ?c \<le> 2" using c v0(2) va(2) by (auto split: if_splits)
  have lm: "length ?m = 2 * n" using m vs(1) va(1) by simp
  obtain ra rb where ra: "r0 = ra @ rb" "length ra = n" "length rb = n" using split_half [OF r(1)] by blast
  obtain rc rd where rc: "r2 = rc @ rd" "length rc = n" "length rd = n" using split_half [OF r(2)] by blast
  have e: "ra @ (rb @ rc) @ rd = r0 @ r2" using ra rc by simp
  obtain r' where r': "add_middle n ?c ?m (r0 @ r2) = Some r'" "length r' = 4 * n" "nat_of r' = nat_of (r0 @ r2) + base n * v"
    using add_middle_value [of ra n "rb @ rc" rd ?m ?c, OF ra(2) _ rc(3) lm c2] fits ra(3) rc(2) unfolding e mid by auto
  have g: "get 0 (2 * n) (r0 @ r2) = Some r0" "get (2 * n) (2 * n) (r0 @ r2) = Some r2"
    "put 0 t0 (t01 @ t2 @ t4 @ rest) = Some (t0 @ t2 @ t4 @ rest)"
    "get (2 * n) (2 * n) (t0 @ t2 @ t4 @ rest) = Some t2"
    "put (2 * n) ?m (t0 @ t2 @ s @ rest) = Some (t0 @ ?m @ s @ rest)"
    using r t v0(1) lm by simp_all
  have "put (2 * n * 2) s (t0 @ t2 @ t4 @ rest) = Some (t0 @ t2 @ s @ rest)"
    using put_at(1) [of "t0 @ t2" "2 * n * 2" s t4 rest] v0(1) vs(1) t by simp
  then have "add_products n (mask_of b) (r0 @ r2) (t01 @ t2 @ t4 @ rest) = Some (r', t0 @ ?m @ s @ rest)"
    by (simp only: add_products_def Let_def g t0 s a r'(1) prod.case bind.bind_lunit)
  then show ?thesis using r' v0(1) vs(1) lm t by simp
qed

section \<open>Karatsuba's method\<close>

lemma mask_of_xor: "mask_of a XOR mask_of b = mask_of (a \<noteq> b)"
  by (simp add: mask_of_def)

lemma karatsuba_middle:
  fixes a0 a1 b0 b1 d e :: nat
  assumes "int d = \<bar>int a0 - int a1\<bar>" and "int e = \<bar>int b1 - int b0\<bar>" and s: "s \<longleftrightarrow> (a0 < a1) \<noteq> (b1 < b0)"
  shows "s \<Longrightarrow> d * e \<le> a0 * b0 + a1 * b1"
    and "(if s then a0 * b0 + a1 * b1 - d * e else a0 * b0 + a1 * b1 + d * e) = a0 * b1 + a1 * b0"
proof -
  have x: "a1 = a0 + d" if "a0 < a1" using that assms(1) by simp
  have y: "a0 = a1 + d" if "\<not> a0 < a1" using that assms(1) by simp
  have z: "b0 = b1 + e" if "b1 < b0" using that assms(2) by simp
  have w: "b1 = b0 + e" if "\<not> b1 < b0" using that assms(2) by simp
  have *: "(s \<longrightarrow> d * e \<le> a0 * b0 + a1 * b1) \<and>
      (if s then a0 * b0 + a1 * b1 - d * e else a0 * b0 + a1 * b1 + d * e) = a0 * b1 + a1 * b0"
  proof (cases "a0 < a1"; cases "b1 < b0")
    assume c: "a0 < a1" "b1 < b0"
    then show ?thesis using s unfolding x [OF c(1)] z [OF c(2)] by (simp add: algebra_simps)
  next
    assume c: "a0 < a1" "\<not> b1 < b0"
    then show ?thesis using s unfolding x [OF c(1)] w [OF c(2)] by (simp add: algebra_simps)
  next
    assume c: "\<not> a0 < a1" "b1 < b0"
    then show ?thesis using s unfolding y [OF c(1)] z [OF c(2)] by (simp add: algebra_simps)
  next
    assume c: "\<not> a0 < a1" "\<not> b1 < b0"
    then show ?thesis using s unfolding y [OF c(1)] w [OF c(2)] by (simp add: algebra_simps)
  qed
  show "s \<Longrightarrow> d * e \<le> a0 * b0 + a1 * b1" using * by simp
  show "(if s then a0 * b0 + a1 * b1 - d * e else a0 * b0 + a1 * b1 + d * e) = a0 * b1 + a1 * b0" using * by simp
qed

lemma sub_halves_value:
  assumes "length a0 = n" and "length a1 = tna" and "length b0 = n" and "length b1 = tnb" and "tna \<le> n" and "tnb \<le> n"
    and "length x0 = n" and "length x1 = n" and "length x2 = n"
  shows "\<exists>y0 y1 y2. sub_halves (a0 @ a1) (b0 @ b1) n tna tnb (x0 @ x1 @ x2 @ rest) =
      Some (mask_of ((nat_of a0 < nat_of a1) \<noteq> (nat_of b1 < nat_of b0)), y0 @ y1 @ y2 @ rest) \<and>
    length y0 = n \<and> length y1 = n \<and> length y2 = n \<and>
    int (nat_of y0) = \<bar>int (nat_of a0) - int (nat_of a1)\<bar> \<and> int (nat_of y1) = \<bar>int (nat_of b1) - int (nat_of b0)\<bar>"
proof -
  obtain y0 neg tmp where y0: "bn_abs_sub_part_words a0 a1 tna (int n - int tna) = (y0, neg, tmp)" by (metis prod_cases3)
  obtain y1 neg1 tmp1 where y1: "bn_abs_sub_part_words b1 b0 tnb (int tnb - int n) = (y1, neg1, tmp1)" by (metis prod_cases3)
  have n: "tna + nat \<bar>int n - int tna\<bar> = n" "tnb + nat \<bar>int tnb - int n\<bar> = n" using assms(5,6) by simp_all
  have v0: "length y0 = n" "length tmp = n" "neg = mask_of (nat_of a0 < nat_of a1)"
    "int (nat_of y0) = \<bar>int (nat_of a0) - int (nat_of a1)\<bar>"
    using bn_abs_sub_part_words_value [OF _ _ y0, unfolded n] assms(1,2,5) by simp_all
  have pr: "length b1 = (if 0 \<le> int tnb - int n then tnb + nat (int tnb - int n) else tnb)"
    "length b0 = (if 0 \<le> int tnb - int n then tnb else tnb + nat (- (int tnb - int n)))"
    using assms(3,4,6) by auto
  have v1: "length y1 = n" "length tmp1 = n" "neg1 = mask_of (nat_of b1 < nat_of b0)"
    "int (nat_of y1) = \<bar>int (nat_of b1) - int (nat_of b0)\<bar>"
    using bn_abs_sub_part_words_value [OF pr y1, unfolded n] by simp_all
  have p: "put (2 * n) z (u0 @ u1 @ u2 @ rest) = Some (u0 @ u1 @ z @ rest)"
    if "length u0 = n" "length u1 = n" "length u2 = n" "length z = n" for z u0 u1 u2 :: "u64 list"
    using put_at(1) [of "u0 @ u1" "2 * n" z u2 rest] that by simp
  have g: "get 0 n (a0 @ a1) = Some a0" "get n tna (a0 @ a1) = Some a1" "get 0 n (b0 @ b1) = Some b0"
    "get n tnb (b0 @ b1) = Some b1"
    using assms(1-4) by simp_all
  have q: "put 0 y0 (x0 @ x1 @ tmp @ rest) = Some (y0 @ x1 @ tmp @ rest)"
    "put n y1 (y0 @ x1 @ tmp1 @ rest) = Some (y0 @ y1 @ tmp1 @ rest)"
    using assms(7,8) v0(1) v1(1) by simp_all
  have "sub_halves (a0 @ a1) (b0 @ b1) n tna tnb (x0 @ x1 @ x2 @ rest) = Some (neg XOR neg1, y0 @ y1 @ tmp1 @ rest)"
    unfolding sub_halves_def
    by (simp only: g y0 y1 p [OF assms(7,8,9) v0(2)] p [OF v0(1) assms(8) v0(2) v1(2)] q prod.case bind.bind_lunit Let_def)
  then show ?thesis using v0 v1 by (auto simp: mask_of_xor)
qed

lemma power_of_two: "power_of_two (2 ^ k)"
proof -
  have "(2 ^ k :: nat) AND mask k = 0" unfolding take_bit_eq_mask [symmetric] by (simp add: take_bit_eq_mod)
  then show ?thesis by (simp add: power_of_two_def mask_eq_exp_minus_1)
qed

text \<open>Halves, multiplied.\<close>

lemma halves_product:
  fixes a0 a1 b0 b1 :: nat
  shows "a0 * b0 + base (2 * n) * (a1 * b1) + base n * (a0 * b1 + a1 * b0) = (a0 + base n * a1) * (b0 + base n * b1)"
proof -
  have b: "base (2 * n) = base n * base n" by (simp flip: power_add)
  show ?thesis unfolding b by (simp only: distrib_left distrib_right ac_simps)
qed

text \<open>The parts of a step, once the three products are known.\<close>

lemma karatsuba_step:
  assumes "length a0 = n" and "length a1 \<le> n" and "length b0 = n" and "length b1 \<le> n"
    and "length y2 = 2 * n" and "length y4 = 2 * n" and "length y0 = 2 * n"
    and "nat_of y2 = nat \<bar>int (nat_of a0) - int (nat_of a1)\<bar> * nat \<bar>int (nat_of b1) - int (nat_of b0)\<bar>"
    and "length r0 = 2 * n" and "nat_of r0 = nat_of a0 * nat_of b0"
    and "length r2 = 2 * n" and "nat_of r2 = nat_of a1 * nat_of b1"
  shows "\<exists>r t. add_products n (mask_of ((nat_of a0 < nat_of a1) \<noteq> (nat_of b1 < nat_of b0))) (r0 @ r2) (y0 @ y2 @ y4 @ rest) =
      Some (r, t) \<and> length r = 4 * n \<and> length t = length (y0 @ y2 @ y4 @ rest) \<and>
      nat_of r = nat_of (a0 @ a1) * nat_of (b0 @ b1)"
proof -
  let ?s = "(nat_of a0 < nat_of a1) \<noteq> (nat_of b1 < nat_of b0)"
  let ?v = "nat_of a0 * nat_of b1 + nat_of a1 * nat_of b0"
  have i: "int (nat \<bar>x\<bar>) = \<bar>x\<bar>" for x by simp
  note k = karatsuba_middle [OF i i refl, of "nat_of a0" "nat_of a1" "nat_of b1" "nat_of b0"]
  have total: "nat_of (r0 @ r2) + base n * ?v = nat_of (a0 @ a1) * nat_of (b0 @ b1)"
    unfolding nat_of_append assms(1,3,9,10,12) by (rule halves_product)
  have "nat_of (a0 @ a1) * nat_of (b0 @ b1) < base (2 * n) * base (2 * n)"
  proof (rule mult_strict_mono)
    have "base (length (a0 @ a1)) \<le> base (2 * n)" "base (length (b0 @ b1)) \<le> base (2 * n)"
      by (rule power_increasing; use assms(1-4) in simp)+
    then show "nat_of (a0 @ a1) < base (2 * n)" "nat_of (b0 @ b1) < base (2 * n)"
      using nat_of_less [of "a0 @ a1"] nat_of_less [of "b0 @ b1"] by linarith+
  qed simp_all
  also have "base (2 * n) * base (2 * n) = base (4 * n)" by (simp flip: power_add)
  finally have fits: "nat_of (r0 @ r2) + base n * ?v < base (4 * n)" unfolding total .
  show ?thesis
    using add_products_value [OF assms(9,11,7,5,6) _ _ fits, of ?s rest] k
    unfolding assms(8,10,12) total by auto
qed

lemma split_three:
  assumes "length xs = l + m + n"
  shows "\<exists>u v w. xs = u @ v @ w \<and> length u = l \<and> length v = m \<and> length w = n"
proof -
  obtain u v where u: "xs = u @ v" "length u = l" "length v = m + n" using split_at [of xs l "m + n"] assms by (auto simp: ac_simps)
  then show ?thesis using split_at [OF u(3)] by blast
qed

definition multiplies :: "(u64 list \<times> u64 list) option \<Rightarrow> nat \<Rightarrow> nat \<Rightarrow> nat \<Rightarrow> bool" where
  "multiplies m n l v \<longleftrightarrow> (\<exists>r t. m = Some (r, t) \<and> length r = n \<and> length t = l \<and> nat_of r = v)"

lemma multipliesE:
  assumes "multiplies m n l v"
  obtains r t where "m = Some (r, t)" and "length r = n" and "length t = l" and "nat_of r = v"
  using assms by (auto simp: multiplies_def)

text \<open>
  The halves of the operands and of the scratch array after \<open>sub_halves\<close>: two differences, room
  for their product, and the room of the recursive calls.
\<close>

definition halved :: "u64 list \<Rightarrow> u64 list \<Rightarrow> nat \<Rightarrow> nat \<Rightarrow> nat \<Rightarrow> u64 list \<Rightarrow> u64 list \<Rightarrow> u64 list \<Rightarrow> u64 list \<Rightarrow> u64 list \<Rightarrow>
    u64 list \<Rightarrow> u64 list \<Rightarrow> u64 list \<Rightarrow> u64 list \<Rightarrow> bool" where
  "halved a b n tna tnb t a0 a1 b0 b1 t0 t1 z p \<longleftrightarrow>
     a = a0 @ a1 \<and> length a0 = n \<and> length a1 = tna \<and> b = b0 @ b1 \<and> length b0 = n \<and> length b1 = tnb \<and>
     sub_halves a b n tna tnb t =
       Some (mask_of ((nat_of a0 < nat_of a1) \<noteq> (nat_of b1 < nat_of b0)), t0 @ t1 @ z @ p) \<and>
     length t0 = n \<and> length t1 = n \<and> length z = 2 * n \<and> length p + 4 * n = length t \<and>
     nat_of t0 * nat_of t1 = nat \<bar>int (nat_of a0) - int (nat_of a1)\<bar> * nat \<bar>int (nat_of b1) - int (nat_of b0)\<bar>"

lemma sub_halves_halved:
  assumes "length a = n + tna" and "length b = n + tnb" and "tna \<le> n" and "tnb \<le> n" and "4 * n \<le> length t"
  shows "\<exists>a0 a1 b0 b1 t0 t1 z p. halved a b n tna tnb t a0 a1 b0 b1 t0 t1 z p"
proof -
  obtain a0 a1 where a: "a = a0 @ a1" "length a0 = n" "length a1 = tna" using split_at [OF assms(1)] by blast
  obtain b0 b1 where b: "b = b0 @ b1" "length b0 = n" "length b1 = tnb" using split_at [OF assms(2)] by blast
  have "length t = (n + n) + (n + n) + (length t - 4 * n)" using assms(5) by simp
  from split_three [OF this] obtain x z p where t: "t = x @ z @ p" "length x = n + n" "length z = n + n" "length p = length t - 4 * n"
    by (elim exE conjE) (rule that)
  obtain x0 x1 where x: "x = x0 @ x1" "length x0 = n" "length x1 = n" using split_at [OF t(2)] by blast
  obtain z0 z1 where z: "z = z0 @ z1" "length z0 = n" "length z1 = n" using split_at [OF t(3)] by blast
  obtain t0 t1 z2 where y: "sub_halves a b n tna tnb t =
      Some (mask_of ((nat_of a0 < nat_of a1) \<noteq> (nat_of b1 < nat_of b0)), t0 @ t1 @ z2 @ z1 @ p)"
      "length t0 = n" "length t1 = n" "length z2 = n"
      "int (nat_of t0) = \<bar>int (nat_of a0) - int (nat_of a1)\<bar>" "int (nat_of t1) = \<bar>int (nat_of b1) - int (nat_of b0)\<bar>"
    using sub_halves_value [OF a(2,3) b(2,3) assms(3,4) x(2,3) z(2), of "z1 @ p"]
    unfolding a(1) b(1) t(1) x(1) z(1) append.assoc by blast
  have "nat_of t0 * nat_of t1 = nat \<bar>int (nat_of a0) - int (nat_of a1)\<bar> * nat \<bar>int (nat_of b1) - int (nat_of b0)\<bar>"
    using y(5,6) by (metis nat_int)
  then have "halved a b n tna tnb t a0 a1 b0 b1 t0 t1 (z2 @ z1) p"
    using a b y(1-4) z(3) t(4) assms(5) by (simp add: halved_def)
  then show ?thesis by blast
qed

text \<open>What the code reads and writes there.\<close>

lemma halved_parts:
  assumes "halved a b n tna tnb t a0 a1 b0 b1 t0 t1 z p"
  shows "get 0 n (t0 @ t1 @ z @ p) = Some t0" and "get n n (t0 @ t1 @ z @ p) = Some t1"
    and "get 0 n a = Some a0" and "get 0 n b = Some b0" and "get n tna a = Some a1" and "get n tnb b = Some b1"
    and "get (2 * n * 2) (length (t0 @ t1 @ z @ p) - 2 * n * 2) (t0 @ t1 @ z @ p) = Some p"
    and "length r = 2 * n \<Longrightarrow> put (2 * n) r (t0 @ t1 @ z @ p) = Some (t0 @ t1 @ r @ p)"
    and "length r = 2 * n \<Longrightarrow> length p' = length p \<Longrightarrow> put (2 * n * 2) p' (t0 @ t1 @ r @ p) = Some (t0 @ t1 @ r @ p')"
  using assms get_at(2) [of "t0 @ t1 @ z" "2 * n * 2" p "length p"] put_at(1) [of "t0 @ t1" "2 * n" r z p]
    put_at(2) [of "t0 @ t1 @ r" "2 * n * 2" p' p]
  by (simp_all add: halved_def)

lemma products_multiply:
  assumes h: "halved a b n tna tnb t a0 a1 b0 b1 t0 t1 z p" and "tna \<le> n" and "tnb \<le> n"
    and r: "length r = 2 * n" "nat_of r = nat_of t0 * nat_of t1" and r0: "length r0 = 2 * n" "nat_of r0 = nat_of a0 * nat_of b0"
    and r2: "length r2 = 2 * n" "nat_of r2 = nat_of a1 * nat_of b1" and p: "length p' = length p" "2 * n \<le> length p"
  shows "multiplies (add_products n (mask_of ((nat_of a0 < nat_of a1) \<noteq> (nat_of b1 < nat_of b0))) (r0 @ r2) (t0 @ t1 @ r @ p'))
    (4 * n) (length t) (nat_of a * nat_of b)"
proof -
  have lp: "length p' = 2 * n + (length p - 2 * n)" using p by simp
  obtain y4 rest where e: "p' = y4 @ rest" "length y4 = 2 * n" using split_at [OF lp] by blast
  have x: "a = a0 @ a1" "length a0 = n" "length a1 \<le> n" "b = b0 @ b1" "length b0 = n" "length b1 \<le> n"
      "length (t0 @ t1) = 2 * n" "length t = length (t0 @ t1 @ r @ p')"
    and v: "nat_of r = nat \<bar>int (nat_of a0) - int (nat_of a1)\<bar> * nat \<bar>int (nat_of b1) - int (nat_of b0)\<bar>"
    using h assms(2,3) r p(1) by (simp_all add: halved_def)
  show ?thesis
    using karatsuba_step [OF x(2,3,5,6) r(1) e(2) x(7) v r0 r2, of rest]
    unfolding multiplies_def x(8) e(1) unfolding x(1,4) by simp
qed

text \<open>Short arrays.\<close>

lemma padded_normal:
  assumes "length a + length b + k = n"
  shows "multiplies (Some (bn_mul_normal a b @ replicate k 0, t)) n (length t) (nat_of a * nat_of b)"
  using bn_mul_normal_value [of a b] assms by (simp add: multiplies_def nat_of_append)

lemma bn_mul_recursive_small:
  assumes "power_of_two n2" and "- 8 \<le> dna" "dna \<le> 0" and "- 8 \<le> dnb" "dnb \<le> 0"
    and "int (length a) = int n2 + dna" and "int (length b) = int n2 + dnb" and "n2 < 16"
  shows "multiplies (bn_mul_recursive a b n2 dna dnb t) (2 * n2) (length t) (nat_of a * nat_of b)"
proof -
  have la: "nat (int n2 + dna) = length a" "nat (int n2 + dnb) = length b" using assms(6,7) by simp_all
  have c: "n2 < BN_MUL_RECURSIVE_SIZE_NORMAL" "0 \<le> int n2 + dna \<and> 0 \<le> int n2 + dnb"
    "- int (BN_MUL_RECURSIVE_SIZE_NORMAL div 2) \<le> dna \<and> dna \<le> 0" "- int (BN_MUL_RECURSIVE_SIZE_NORMAL div 2) \<le> dnb \<and> dnb \<le> 0"
    using assms(2-5,8) by (simp_all add: BN_MUL_RECURSIVE_SIZE_NORMAL_def flip: assms(6,7))
  have l: "length a + length b + nat (- (dna + dnb)) = 2 * n2" using assms(3,5,6,7) by linarith
  show ?thesis
  proof (cases "n2 = 8 \<and> dna = 0 \<and> dnb = 0")
    case True
    then have l8: "length a = 8" "length b = 8" using la by simp_all
    then have "bn_mul_recursive a b n2 dna dnb t = Some (bn_mul_comba8 a b, t)"
      using True c assms(1) by (subst bn_mul_recursive.simps) simp
    then show ?thesis using bn_mul_comba8_value [OF l8] True by (simp add: multiplies_def)
  next
    case False
    then have "bn_mul_recursive a b n2 dna dnb t = Some (bn_mul_normal a b @ replicate (nat (- (dna + dnb))) 0, t)"
      by (subst bn_mul_recursive.simps) (auto simp: c la assms(1))
    then show ?thesis using padded_normal [OF l] by simp
  qed
qed

lemma bn_mul_recursive_value:
  assumes "n2 = 2 ^ k" and "- 8 \<le> dna" "dna \<le> 0" and "- 8 \<le> dnb" "dnb \<le> 0"
    and "int (length a) = int n2 + dna" and "int (length b) = int n2 + dnb" and "4 * n2 \<le> length t"
  shows "multiplies (bn_mul_recursive a b n2 dna dnb t) (2 * n2) (length t) (nat_of a * nat_of b)"
  using assms
proof (induction k arbitrary: n2 dna dnb a b t)
  case 0
  then show ?case using power_of_two [of 0] by (intro bn_mul_recursive_small) simp_all
next
  case (Suc k)
  have p2: "power_of_two n2" using power_of_two [of "Suc k"] Suc(2) by simp
  show ?case
  proof (cases "n2 < 16")
    case True
    then show ?thesis using bn_mul_recursive_small [OF p2 Suc(3-8)] by simp
  next
    case big: False
    define n where "n = n2 div 2"
    define tna where "tna = nat (int n + dna)"
    define tnb where "tnb = nat (int n + dnb)"
    have n: "n = 2 ^ k" "n2 = 2 * n" "8 \<le> n" using Suc(2) big by (simp_all add: n_def)
    have tn: "int tna = int n + dna" "int tnb = int n + dnb" using n(3) Suc(3,5) by (simp_all add: tna_def tnb_def)
    then have tl: "tna \<le> n" "tnb \<le> n" and lab: "length a = n + tna" "length b = n + tnb" and sc: "4 * n \<le> length t"
      using Suc(4,6-9) n(2) by simp_all
    obtain a0 a1 b0 b1 t0 t1 z p where h: "halved a b n tna tnb t a0 a1 b0 b1 t0 t1 z p"
      using sub_halves_halved [OF lab tl sc] by blast
    let ?neg = "mask_of ((nat_of a0 < nat_of a1) \<noteq> (nat_of b1 < nat_of b0))"
    have sh: "sub_halves a b n tna tnb t = Some (?neg, t0 @ t1 @ z @ p)"
      using h unfolding halved_def by blast
    have lp: "4 * n \<le> length p" using h Suc(9) n(2) by (simp add: halved_def)
    have len: "int (length t0) = int n + 0" "int (length t1) = int n + 0" "int (length a0) = int n + 0"
      "int (length b0) = int n + 0" "int (length a1) = int n + dna" "int (length b1) = int n + dnb"
      using h tn by (simp_all add: halved_def)
    have c: "n2 \<noteq> 8" "\<not> n2 < BN_MUL_RECURSIVE_SIZE_NORMAL"
      "- int (BN_MUL_RECURSIVE_SIZE_NORMAL div 2) \<le> dna \<and> dna \<le> 0" "- int (BN_MUL_RECURSIVE_SIZE_NORMAL div 2) \<le> dnb \<and> dnb \<le> 0"
      using big Suc(3-6) by (simp_all add: BN_MUL_RECURSIVE_SIZE_NORMAL_def)
    note unf = bn_mul_recursive.simps [of a b n2 dna dnb t, unfolded Let_def, folded n_def, folded tna_def tnb_def, unfolded n(2)]
    note run = p2 [unfolded n(2)] c [unfolded n(2)] check_simps bind.bind_lunit prod.case sh halved_parts(1-7) [OF h] simp_thms if_True if_False
    show ?thesis
    proof (cases "n = 8 \<and> dna = 0 \<and> dnb = 0")
      case True
      then have l8: "length t0 = 8" "length t1 = 8" "length a0 = 8" "length b0 = 8" "length a1 = 8" "length b1 = 8"
        using len by simp_all
      have pc: "length (bn_mul_comba8 t0 t1) = 2 * n" using bn_mul_comba8_value [OF l8(1,2)] True by simp
      have "bn_mul_recursive a b n2 dna dnb t = add_products n ?neg (bn_mul_comba8 a0 b0 @ bn_mul_comba8 a1 b1)
          (t0 @ t1 @ bn_mul_comba8 t0 t1 @ p)"
        unfolding n(2) by (simp only: unf run if_P [OF True] halved_parts(8) [OF h pc])
      then show ?thesis
        using products_multiply [OF h tl pc _ _ _ _ _ refl] bn_mul_comba8_value l8 True n(2) lp by simp
    next
      case False
      obtain t2 p1 where t2: "bn_mul_recursive t0 t1 n 0 0 p = Some (t2, p1)" "length t2 = 2 * n" "length p1 = length p"
          "nat_of t2 = nat_of t0 * nat_of t1"
        by (rule multipliesE [OF Suc(1) [OF n(1) _ _ _ _ len(1,2) lp]]) (simp_all add: that)
      have lp1: "4 * n \<le> length p1" using t2(3) lp by simp
      obtain r0 p2 where r0: "bn_mul_recursive a0 b0 n 0 0 p1 = Some (r0, p2)" "length r0 = 2 * n" "length p2 = length p1"
          "nat_of r0 = nat_of a0 * nat_of b0"
        by (rule multipliesE [OF Suc(1) [OF n(1) _ _ _ _ len(3,4) lp1]]) (simp_all add: that)
      have lp2: "4 * n \<le> length p2" using r0(3) lp1 by simp
      obtain r2 p3 where r2: "bn_mul_recursive a1 b1 n dna dnb p2 = Some (r2, p3)" "length r2 = 2 * n" "length p3 = length p2"
          "nat_of r2 = nat_of a1 * nat_of b1"
        by (rule multipliesE [OF Suc(1) [OF n(1) Suc(3-6) len(5,6) lp2]])
      have l3: "length p3 = length p" using t2(3) r0(3) r2(3) by simp
      have "bn_mul_recursive a b n2 dna dnb t = add_products n ?neg (r0 @ r2) (t0 @ t1 @ t2 @ p3)"
        unfolding n(2) by (simp only: unf run if_not_P [OF False] halved_parts(8) [OF h t2(2)]
            halved_parts(9) [OF h t2(2) l3] t2(1) r0(1) r2(1))
      then show ?thesis using products_multiply [OF h tl t2(2,4) r0(2,4) r2(2,4) l3] n(2) lp by simp
    qed
  qed
qed

end
