(* ===== verification/BnMulPart.thy ===== *)
theory BnMulPart
  imports BnMulRef
begin

text \<open>Products of arrays whose length is not a power of two, and squares.\<close>

section \<open>Arrays of any length\<close>

lemma halve_until_spec:
  assumes "16 \<le> tna \<or> 16 \<le> tnb" and "tna < 2 ^ k" and "tnb < 2 ^ k"
  defines "i \<equiv> halve_until (2 ^ k) tna tnb"
  shows "\<exists>j. i = 2 ^ j \<and> 8 \<le> i \<and> 2 * i \<le> 2 ^ k \<and> tna < 2 * i \<and> tnb < 2 * i \<and> (i < tna \<or> i < tnb \<or> i = tna \<or> i = tnb)"
  unfolding i_def using assms(2,3)
proof (induction k)
  case 0
  then show ?case using assms(1) by simp
next
  case (Suc k)
  show ?case
  proof (cases "2 ^ k < tna \<or> 2 ^ k < tnb \<or> 2 ^ k = tna \<or> 2 ^ k = tnb")
    case True
    then have "halve_until (2 ^ Suc k) tna tnb = 2 ^ k" by (subst halve_until.simps) (auto simp: Let_def)
    then show ?thesis using True Suc(2,3) assms(1) by (intro exI [of _ k]) auto
  next
    case False
    then have e: "halve_until (2 ^ Suc k) tna tnb = halve_until (2 ^ k) tna tnb"
      by (subst halve_until.simps) (auto simp: Let_def)
    have l: "tna < 2 ^ k" "tnb < 2 ^ k" using False by simp_all
    let ?h = "halve_until (2 ^ k) tna tnb"
    have "2 * ?h \<le> 2 ^ Suc k" if "2 * ?h \<le> 2 ^ k" using that unfolding power_Suc by linarith
    then show ?thesis unfolding e using Suc(1) [OF l] by blast
  qed
qed

lemma put_upper:
  "length r0 = n \<Longrightarrow> length (u @ v) = length r2 \<Longrightarrow> length ys = length u \<Longrightarrow> put n ys (r0 @ u @ v) = Some (r0 @ ys @ v)"
  by simp

lemma bn_mul_part_recursive_value:
  assumes "n = 2 ^ k" and "8 \<le> n" and "tna < n" and "tnb < n" and "tna \<le> tnb + 1" and "tnb \<le> tna + 1"
    and "length a = n + tna" and "length b = n + tnb" and "length r = 4 * n" and "8 * n \<le> length t"
  shows "multiplies (bn_mul_part_recursive r a b n tna tnb t) (4 * n) (length t) (nat_of a * nat_of b)"
  using assms
proof (induction k arbitrary: n tna tnb r a b t rule: less_induct)
  case (less k)
  have p2: "power_of_two n" using power_of_two [of k] less(2) by simp
  have tl: "tna \<le> n" "tnb \<le> n" using less(4,5) by simp_all
  have sc: "4 * n \<le> length t" using less(11) by simp
  obtain a0 a1 b0 b1 t0 t1 z p where h: "halved a b n tna tnb t a0 a1 b0 b1 t0 t1 z p"
    using sub_halves_halved [OF less(8,9) tl sc] by blast
  let ?neg = "mask_of ((nat_of a0 < nat_of a1) \<noteq> (nat_of b1 < nat_of b0))"
  have sh: "sub_halves a b n tna tnb t = Some (?neg, t0 @ t1 @ z @ p)"
    using h unfolding halved_def by blast
  have lp: "4 * n \<le> length p" using h less(11) by (simp add: halved_def)
  have len: "length a0 = n" "length a1 = tna" "length b0 = n" "length b1 = tnb" "length t0 = n" "length t1 = n"
    using h by (simp_all add: halved_def)
  have lr: "length r = 2 * n + 2 * n" using less(10) by simp
  obtain ra rb where r: "r = ra @ rb" "length ra = 2 * n" "length rb = 2 * n" using split_at [OF lr] by blast
  have c: "tna < n" "tnb < n" "tna \<le> tnb + 1 \<and> tnb \<le> tna + 1" "\<not> n < 8" using less(3-7) by simp_all
  note unf = bn_mul_part_recursive.simps [of r a b n tna tnb t, unfolded Let_def, unfolded mult.commute [of n 2]]
  note run = p2 c check_simps bind.bind_lunit prod.case sh halved_parts(1-7) [OF h] simp_thms if_True if_False
  have nv: "length (bn_mul_normal a1 b1) = tna + tnb" "nat_of (bn_mul_normal a1 b1) = nat_of a1 * nat_of b1"
    using bn_mul_normal_value [of a1 b1] len by simp_all
  let ?hi = "bn_mul_normal a1 b1 @ replicate (2 * n - tna - tnb) 0"
  have hi: "length ?hi = 2 * n" "nat_of ?hi = nat_of a1 * nat_of b1"
    using nv tl by (simp_all add: nat_of_append)
  show ?case
  proof (cases "n = 8")
    case True
    then have l8: "length t0 = 8" "length t1 = 8" "length a0 = 8" "length b0 = 8" using len by simp_all
    have pc: "length (bn_mul_comba8 t0 t1) = 2 * n" "nat_of (bn_mul_comba8 t0 t1) = nat_of t0 * nat_of t1"
      and lo: "length (bn_mul_comba8 a0 b0) = 2 * n" "nat_of (bn_mul_comba8 a0 b0) = nat_of a0 * nat_of b0"
      using bn_mul_comba8_value [OF l8(1,2)] bn_mul_comba8_value [OF l8(3,4)] True by simp_all
    obtain u v where rb: "rb = u @ v" "length u = tna + tnb" "length v = 2 * n - tna - tnb"
      using split_at [of rb "tna + tnb" "2 * n - tna - tnb"] r(3) tl by auto
    have q: "put 0 (bn_mul_comba8 a0 b0) r = Some (bn_mul_comba8 a0 b0 @ rb)"
      "put (2 * n) (bn_mul_normal a1 b1) (bn_mul_comba8 a0 b0 @ rb) = Some (bn_mul_comba8 a0 b0 @ bn_mul_normal a1 b1 @ v)"
      "put (2 * n + tna + tnb) (replicate (2 * n - tna - tnb) 0) (bn_mul_comba8 a0 b0 @ bn_mul_normal a1 b1 @ v) =
        Some (bn_mul_comba8 a0 b0 @ ?hi)"
      using r lo(1) nv(1) rb put_at(2) [of "bn_mul_comba8 a0 b0 @ bn_mul_normal a1 b1" "2 * n + tna + tnb" "replicate (2 * n - tna - tnb) 0" v]
      by simp_all
    have "bn_mul_part_recursive r a b n tna tnb t = add_products n ?neg (bn_mul_comba8 a0 b0 @ ?hi) (t0 @ t1 @ bn_mul_comba8 t0 t1 @ p)"
      by (simp only: unf run if_P [OF True] halved_parts(8) [OF h pc(1)] q)
    then show ?thesis using products_multiply [OF h tl pc lo hi refl] lp by simp
  next
    case n8: False
    obtain t2 p1 where t2: "bn_mul_recursive t0 t1 n 0 0 p = Some (t2, p1)" "length t2 = 2 * n" "length p1 = length p"
        "nat_of t2 = nat_of t0 * nat_of t1"
      by (rule multipliesE [OF bn_mul_recursive_value [OF less(2), of 0 0 t0 t1 p]]) (simp_all add: that len lp)
    have lp1: "4 * n \<le> length p1" using t2(3) lp by simp
    obtain r0 p2 where r0: "bn_mul_recursive a0 b0 n 0 0 p1 = Some (r0, p2)" "length r0 = 2 * n" "length p2 = length p1"
        "nat_of r0 = nat_of a0 * nat_of b0"
      by (rule multipliesE [OF bn_mul_recursive_value [OF less(2), of 0 0 a0 b0 p1]]) (simp_all add: that len lp1)
    have lp2: "4 * n \<le> length p2" "length p2 = length p" using r0(3) lp1 t2(3) by simp_all
    let ?z = "replicate (2 * n) (0 :: u64)"
    have q: "put 0 r0 r = Some (r0 @ rb)" "put (2 * n) ?z (r0 @ rb) = Some (r0 @ ?z)"
      using r r0(2) by simp_all
    note run2 = run if_not_P [OF n8] halved_parts(8) [OF h t2(2)] t2(1) r0(1) q
    have finish: "multiplies (add_products n ?neg (r0 @ hi) (t0 @ t1 @ t2 @ p3)) (4 * n) (length t) (nat_of a * nat_of b)"
      if "length hi = 2 * n" "nat_of hi = nat_of a1 * nat_of b1" "length p3 = length p" for hi p3
      using products_multiply [OF h tl t2(2,4) r0(2,4) that] lp by simp
    show ?thesis
    proof (cases "tna < BN_MUL_RECURSIVE_SIZE_NORMAL \<and> tnb < BN_MUL_RECURSIVE_SIZE_NORMAL")
      case True
      have "?z = replicate (tna + tnb) 0 @ replicate (2 * n - tna - tnb) 0" using tl by (simp flip: replicate_add)
      then have "put (2 * n) (bn_mul_normal a1 b1) (r0 @ ?z) = Some (r0 @ ?hi)"
        using r0(2) nv(1) by simp
      then have "bn_mul_part_recursive r a b n tna tnb t = add_products n ?neg (r0 @ ?hi) (t0 @ t1 @ t2 @ p2)"
        by (simp only: unf run2 if_P [OF True] halved_parts(9) [OF h t2(2) lp2(2)])
      then show ?thesis using finish [OF hi lp2(2)] by simp
    next
      case big: False
      define i where "i = halve_until n tna tnb"
      obtain j where j: "i = 2 ^ j" "8 \<le> i" "2 * i \<le> n" "tna < 2 * i" "tnb < 2 * i" "i < tna \<or> i < tnb \<or> i = tna \<or> i = tnb"
        using halve_until_spec [of tna tnb k] big less(2,4,5)
        by (auto simp: i_def BN_MUL_RECURSIVE_SIZE_NORMAL_def)
      have jk: "j < k" using j(1,3) less(2) by (metis less_le_trans mult_2 less_add_same_cancel1 power_strict_increasing_iff one_less_numeral_iff semiring_norm(76) zero_less_numeral zero_less_power)
      note unf = unf [folded i_def]
      show ?thesis
      proof (cases "i < tna \<or> i < tnb")
        case True
        have ge: "i \<le> tna" "i \<le> tnb" using True less(6,7) by auto
        have e: "?z = replicate (i * 4) 0 @ replicate (2 * n - i * 4) 0" using j(3) by (simp flip: replicate_add)
        obtain r2 p3 where r2: "bn_mul_part_recursive (replicate (i * 4) 0) a1 b1 i (tna - i) (tnb - i) p2 = Some (r2, p3)"
            "length r2 = 4 * i" "length p3 = length p2" "nat_of r2 = nat_of a1 * nat_of b1"
          by (rule multipliesE [OF less(1) [OF jk j(1,2), of "tna - i" "tnb - i" a1 b1 "replicate (i * 4) 0" p2]])
            (use ge j(3-5) less(6,7) len lp2 in \<open>simp_all add: that\<close>)
        have g: "get (2 * n) (i * 4) (r0 @ ?z) = Some (replicate (i * 4) 0)"
          "put (2 * n) r2 (r0 @ ?z) = Some (r0 @ r2 @ replicate (2 * n - i * 4) 0)"
          unfolding e using r0(2) r2(2) by simp_all
        have l3: "length p3 = length p" using r2(3) lp2(2) by simp
        have "bn_mul_part_recursive r a b n tna tnb t =
            add_products n ?neg (r0 @ r2 @ replicate (2 * n - i * 4) 0) (t0 @ t1 @ t2 @ p3)"
          by (simp only: unf run2 if_not_P [OF big] if_P [OF True] g r2(1) halved_parts(9) [OF h t2(2) l3])
        then show ?thesis using finish [of "r2 @ replicate (2 * n - i * 4) 0" p3] r2(2,4) l3 j(3)
          by (simp add: nat_of_append)
      next
        case False
        have d: "int tna - int i \<le> 0" "- 8 \<le> int tna - int i" "int tnb - int i \<le> 0" "- 8 \<le> int tnb - int i"
          using False j(6) less(6,7) by auto
        have e: "?z = replicate (2 * i) 0 @ replicate (2 * n - 2 * i) 0" using j(3) by (simp flip: replicate_add)
        obtain r2 p3 where r2: "bn_mul_recursive a1 b1 i (int tna - int i) (int tnb - int i) p2 = Some (r2, p3)"
            "length r2 = 2 * i" "length p3 = length p2" "nat_of r2 = nat_of a1 * nat_of b1"
          by (rule multipliesE [OF bn_mul_recursive_value [OF j(1) d(2,1,4,3), of a1 b1 p2]])
            (use j(3) len lp2 in \<open>simp_all add: that\<close>)
        have g: "put (2 * n) r2 (r0 @ ?z) = Some (r0 @ r2 @ replicate (2 * n - 2 * i) 0)"
          unfolding e using r0(2) r2(2) by simp
        have l3: "length p3 = length p" using r2(3) lp2(2) by simp
        have "bn_mul_part_recursive r a b n tna tnb t =
            add_products n ?neg (r0 @ r2 @ replicate (2 * n - 2 * i) 0) (t0 @ t1 @ t2 @ p3)"
          by (simp only: unf run2 if_not_P [OF big] if_not_P [OF False] g r2(1) halved_parts(9) [OF h t2(2) l3])
        then show ?thesis using finish [of "r2 @ replicate (2 * n - 2 * i) 0" p3] r2(2,4) l3 j(3)
          by (simp add: nat_of_append)
      qed
    qed
  qed
qed

section \<open>Squares\<close>

fun cross :: "u64 list \<Rightarrow> nat" where
  "cross [] = 0"
| "cross (w # as) = unat w * nat_of as + 2 ^ 128 * cross as"

lemma square_parts: "nat_of a ^ 2 = squares a + 2 * (2 ^ 64 * cross a)"
proof (induction a)
  case (Cons w as)
  have "nat_of (w # as) ^ 2 = unat w ^ 2 + 2 * (2 ^ 64 * (unat w * nat_of as)) + 2 ^ 128 * nat_of as ^ 2"
    by (simp add: power2_eq_square algebra_simps)
  then show ?case unfolding Cons by simp
qed simp

lemma sqr_rows_value:
  "length r + 1 = length as \<Longrightarrow> length (sqr_rows r as) = 2 * length r \<and> nat_of (sqr_rows r as) = nat_of r + cross as"
proof (induction r as rule: sqr_rows.induct)
  case (1 r w a as)
  obtain x c where x: "bn_mul_add_words r (a # as) w = (x, c)" by fastforce
  have v: "length x = Suc (length as)" "nat_of x + base (Suc (length as)) * unat c = nat_of r + nat_of (a # as) * unat w"
    using bn_mul_add_words_value [OF _ x] 1(2) by simp_all
  let ?y = "x @ [c]"
  have e: "sqr_rows r (w # a # as) = take 2 ?y @ sqr_rows (drop 2 ?y) (a # as)" by (simp add: x Let_def)
  have l: "length (drop 2 ?y) + 1 = length (a # as)" and ly: "2 \<le> length ?y" using v(1) by simp_all
  have y: "nat_of ?y = nat_of r + nat_of (a # as) * unat w" using v by (simp add: nat_of_append)
  have ih: "length (sqr_rows (drop 2 ?y) (a # as)) = 2 * length (drop 2 ?y)"
    "nat_of (sqr_rows (drop 2 ?y) (a # as)) = nat_of (drop 2 ?y) + cross (a # as)"
    using 1(1) [OF x [symmetric] refl refl l] by simp_all
  have t: "length (take 2 ?y) = 2" using ly by simp
  have "nat_of (sqr_rows r (w # a # as)) = nat_of (take 2 ?y) + base 2 * nat_of (drop 2 ?y) + base 2 * cross (a # as)"
    unfolding e nat_of_append t ih(2) by (simp add: distrib_left)
  also have "\<dots> = nat_of ?y + 2 ^ 128 * cross (a # as)" using nat_of_split [OF ly] by simp
  finally have "nat_of (sqr_rows r (w # a # as)) = nat_of r + cross (w # a # as)" unfolding y by simp
  moreover have "length (sqr_rows r (w # a # as)) = 2 * length r"
    unfolding e length_append t ih(1) using v(1) 1(2) by simp
  ultimately show ?case by blast
qed auto

lemma bn_sqr_normal_value:
  "length (bn_sqr_normal a) = 2 * length a \<and> nat_of (bn_sqr_normal a) = nat_of a * nat_of a"
proof (cases a)
  case (Cons w as)
  let ?rows = "sqr_rows (replicate (length as) 0) a"
  have rows: "length ?rows = 2 * length as" "nat_of ?rows = cross a"
    using sqr_rows_value [of "replicate (length as) 0" a] Cons by simp_all
  let ?r = "0 # ?rows @ [0]"
  have first: "(if as = [] then [] else let (r, c) = bn_mul_words as w; r = r @ [c] in take 2 r @ sqr_rows (drop 2 r) as) = ?rows"
    unfolding Cons bn_mul_words_rows by (cases as) (auto simp: Let_def split: prod.splits)
  have r: "length ?r = 2 * length a" "nat_of ?r = 2 ^ 64 * cross a"
    using rows by (simp_all add: Cons nat_of_append)
  have sq: "nat_of a * nat_of a = squares a + 2 * nat_of ?r" using square_parts [of a] r(2) by (simp add: power2_eq_square)
  have "nat_of a * nat_of a < base (length a) * base (length a)" using nat_of_less [of a] by (intro mult_strict_mono) simp_all
  also have "base (length a) * base (length a) = base (2 * length a)" by (simp flip: power_add)
  finally have lt: "squares a + 2 * nat_of ?r < base (2 * length a)" unfolding sq .
  obtain x c where x: "bn_add_words ?r ?r = (x, c)" by fastforce
  have vx: "length x = 2 * length a" "nat_of x + base (2 * length a) * unat c = 2 * nat_of ?r"
    using bn_add_words_value [OF refl x, unfolded r(1)] by simp_all
  then have "base (2 * length a) * unat c < base (2 * length a) * 1" using lt by linarith
  then have c0: "nat_of x = 2 * nat_of ?r" using vx(2) by simp
  obtain y d where y: "bn_add_words x (bn_sqr_words a) = (y, d)" by fastforce
  have vy: "length y = 2 * length a" "nat_of y + base (2 * length a) * unat d = 2 * nat_of ?r + squares a"
    using bn_add_words_value [OF _ y] vx(1) c0 bn_sqr_words_value [of a] by simp_all
  then have "base (2 * length a) * unat d < base (2 * length a) * 1" using lt by linarith
  then have "nat_of y = nat_of a * nat_of a" using vy(2) sq by simp
  moreover have "bn_sqr_normal a = y"
    unfolding bn_sqr_normal_def Cons list.case first [unfolded Cons]
    by (simp only: Let_def x [unfolded Cons] y [unfolded Cons] prod.case)
  ultimately show ?thesis using vy(1) by simp
qed (simp add: bn_sqr_normal_def)

lemma square_middle:
  assumes "nat_of t2 = nat \<bar>int x - int y\<bar> * nat \<bar>int x - int y\<bar>" and "length t2 = 2 * n"
    and "length r0 = 2 * n" and "length r2 = 2 * n" and "nat_of r0 = x * x" and "nat_of r2 = y * y"
    and s: "bn_add_words r0 r2 = (s, c)" and d: "bn_sub_words s t2 = (m, borrow)"
  shows "length s = 2 * n" and "length m = 2 * n" and "unat (c - borrow) \<le> 2"
    and "nat_of m + base (2 * n) * unat (c - borrow) = 2 * (x * y)"
proof -
  have vs: "length s = 2 * n" "unat c \<le> 1" "nat_of s + base (2 * n) * unat c = x * x + y * y"
    using bn_add_words_value [OF _ s] assms by simp_all
  have vd: "length m = 2 * n" "unat borrow \<le> 1" "nat_of m + nat_of t2 = nat_of s + base (2 * n) * unat borrow"
    using bn_sub_words_value [OF _ d] assms(2) vs(1) by simp_all
  have "int (nat_of t2) = int (x * x + y * y) - int (2 * (x * y))"
    unfolding assms(1) by (simp add: algebra_simps)
  then have t2: "nat_of t2 + 2 * (x * y) = x * x + y * y" by linarith
  have b: "unat borrow \<le> unat c"
  proof (rule ccontr)
    assume "\<not> unat borrow \<le> unat c"
    then have "unat borrow = 1" "unat c = 0" using vd(2) by simp_all
    then have "base (2 * n) \<le> nat_of m" using vd(3) vs(3) t2 by simp
    then show False using nat_of_less [of m] vd(1) by simp
  qed
  then have u: "unat (c - borrow) = unat c - unat borrow" by (simp add: unat_sub word_le_nat_alt)
  have "base (2 * n) * (unat c - unat borrow) + base (2 * n) * unat borrow = base (2 * n) * unat c"
    using b by (simp flip: distrib_left)
  then show "nat_of m + base (2 * n) * unat (c - borrow) = 2 * (x * y)"
    unfolding u using vs(3) vd(3) t2 by linarith
  show "length s = 2 * n" "length m = 2 * n" "unat (c - borrow) \<le> 2" using vs vd u by simp_all
qed

lemma bn_sqr_recursive_small:
  assumes "power_of_two n2" and "n2 < 16" and "length a = n2" and "4 * n2 \<le> length t"
  shows "multiplies (bn_sqr_recursive a n2 t) (2 * n2) (length t) (nat_of a * nat_of a)"
proof -
  have l: "n2 < BN_SQR_RECURSIVE_SIZE_NORMAL" using assms(2) by (simp add: BN_SQR_RECURSIVE_SIZE_NORMAL_def)
  have g: "get 0 n2 a = Some a" using assms(3) by simp
  have lt: "length t = 2 * n2 + (length t - 2 * n2)" using assms(4) by simp
  obtain t0 p where t: "t = t0 @ p" "length t0 = 2 * n2" using split_at [OF lt] by blast
  have q: "put 0 (bn_sqr_words a) t = Some (bn_sqr_words a @ p)" "length (bn_sqr_words a @ p) = length t"
    using t bn_sqr_words_value [of a] assms(3) by simp_all
  consider "n2 = 4" | "n2 = 8" | "n2 \<noteq> 4" "n2 \<noteq> 8" by blast
  then show ?thesis
  proof cases
    case 1
    then show ?thesis using bn_sqr_comba4_value [of a] assms(1,3) g
      by (subst bn_sqr_recursive.simps) (simp add: multiplies_def)
  next
    case 2
    then show ?thesis using bn_sqr_comba8_value [of a] assms(1,3) g
      by (subst bn_sqr_recursive.simps) (simp add: multiplies_def)
  next
    case 3
    then have "bn_sqr_recursive a n2 t = Some (bn_sqr_normal a, bn_sqr_words a @ p)"
      using assms(1) l g q(1) by (subst bn_sqr_recursive.simps) simp
    then show ?thesis using bn_sqr_normal_value [of a] assms(3) q(2) by (simp add: multiplies_def)
  qed
qed

lemma bn_sqr_recursive_value:
  assumes "n2 = 2 ^ k" and "length a = n2" and "4 * n2 \<le> length t"
  shows "multiplies (bn_sqr_recursive a n2 t) (2 * n2) (length t) (nat_of a * nat_of a)"
  using assms
proof (induction k arbitrary: n2 a t)
  case 0
  then show ?case using power_of_two [of 0] by (intro bn_sqr_recursive_small) simp_all
next
  case (Suc k)
  have p2: "power_of_two n2" using power_of_two [of "Suc k"] Suc(2) by simp
  show ?case
  proof (cases "n2 < 16")
    case True
    then show ?thesis using bn_sqr_recursive_small [OF p2 _ Suc(3,4)] by simp
  next
    case big: False
    define n where "n = n2 div 2"
    have n: "n = 2 ^ k" "n2 = 2 * n" using Suc(2) by (simp_all add: n_def)
    have "length a = n + n" "length t = (n + n) + (n + n) + (length t - 4 * n)" using Suc(3,4) n(2) by simp_all
    note lens = this
    obtain a0 a1 where a: "a = a0 @ a1" "length a0 = n" "length a1 = n" using split_at [OF lens(1)] by blast
    from split_three [OF lens(2)] obtain x z p where t: "t = x @ z @ p" "length x = n + n" "length z = n + n" "length p = length t - 4 * n"
      by (elim exE conjE) (rule that)
    obtain x0 x1 where x: "x = x0 @ x1" "length x0 = n" "length x1 = n" using split_at [OF t(2)] by blast
    obtain t0 neg tmp where d: "bn_abs_sub_part_words a0 a1 n 0 = (t0, neg, tmp)" by (metis prod_cases3)
    have vd: "length t0 = n" "length tmp = n" "int (nat_of t0) = \<bar>int (nat_of a0) - int (nat_of a1)\<bar>"
      using bn_abs_sub_part_words_value [OF _ _ d] a by simp_all
    have dd: "bn_abs_sub_words a0 a1 = (t0, tmp)" using bn_abs_sub_words_part [OF a(2,3)] d by simp
    have lp: "4 * n \<le> length p" using t(4) Suc(4) n(2) by simp
    obtain t2 p1 where t2: "bn_sqr_recursive t0 n p = Some (t2, p1)" "length t2 = 2 * n" "length p1 = length p"
        "nat_of t2 = nat_of t0 * nat_of t0"
      by (rule multipliesE [OF Suc(1) [OF n(1) vd(1) lp]])
    have lp1: "4 * n \<le> length p1" using t2(3) lp by simp
    obtain r0 p2 where r0: "bn_sqr_recursive a0 n p1 = Some (r0, p2)" "length r0 = 2 * n" "length p2 = length p1"
        "nat_of r0 = nat_of a0 * nat_of a0"
      by (rule multipliesE [OF Suc(1) [OF n(1) a(2) lp1]])
    have lp2: "4 * n \<le> length p2" using r0(3) lp1 by simp
    obtain r2 p3 where r2: "bn_sqr_recursive a1 n p2 = Some (r2, p3)" "length r2 = 2 * n" "length p3 = length p2"
        "nat_of r2 = nat_of a1 * nat_of a1"
      by (rule multipliesE [OF Suc(1) [OF n(1) a(3) lp2]])
    obtain s c where s: "bn_add_words r0 r2 = (s, c)" by fastforce
    obtain m borrow where m: "bn_sub_words s t2 = (m, borrow)" by fastforce
    have "nat_of t2 = nat \<bar>int (nat_of a0) - int (nat_of a1)\<bar> * nat \<bar>int (nat_of a0) - int (nat_of a1)\<bar>"
      unfolding t2(4) vd(3) [symmetric] by simp
    note mid = square_middle [OF this t2(2) r0(2) r2(2) r0(4) r2(4) s m]
    have total: "nat_of (r0 @ r2) + base n * (2 * (nat_of a0 * nat_of a1)) = nat_of a * nat_of a"
    proof -
      have "2 * (nat_of a0 * nat_of a1) = nat_of a0 * nat_of a1 + nat_of a1 * nat_of a0" by (simp add: mult.commute)
      then show ?thesis unfolding a(1) nat_of_append r0(2,4) r2(4) a(2) by (simp only: halves_product)
    qed
    have "nat_of a * nat_of a < base n2 * base n2" using nat_of_less [of a] Suc(3) by (intro mult_strict_mono) simp_all
    also have "base n2 * base n2 = base (4 * n)" using n(2) by (simp flip: power_add)
    finally have fits: "nat_of a * nat_of a < base (4 * n)" .
    obtain ra rb where ra: "r0 = ra @ rb" "length ra = n" "length rb = n" using split_half [OF r0(2)] by blast
    obtain rc rd where rc: "r2 = rc @ rd" "length rc = n" "length rd = n" using split_half [OF r2(2)] by blast
    have e: "ra @ (rb @ rc) @ rd = r0 @ r2" using ra rc by simp
    obtain r where r: "add_middle n (c - borrow) m (r0 @ r2) = Some r" "length r = 4 * n" "nat_of r = nat_of a * nat_of a"
      using add_middle_value [of ra n "rb @ rc" rd m "c - borrow", OF ra(2) _ rc(3) mid(2,3)] fits ra(3) rc(2)
      unfolding e mid(4) total by auto
    have g: "get 0 n a = Some a0" "get n n a = Some a1" "put n tmp t = Some (x0 @ tmp @ z @ p)"
      "put 0 t0 (x0 @ tmp @ z @ p) = Some (t0 @ tmp @ z @ p)"
      "get (2 * n * 2) (length (t0 @ tmp @ z @ p) - 2 * n * 2) (t0 @ tmp @ z @ p) = Some p"
      "put (2 * n) t2 (t0 @ tmp @ z @ p) = Some (t0 @ tmp @ t2 @ p)"
      "put (2 * n * 2) p3 (t0 @ tmp @ t2 @ p) = Some (t0 @ tmp @ t2 @ p3)"
      "put 0 s (t0 @ tmp @ t2 @ p3) = Some (s @ t2 @ p3)"
      "put (2 * n) m (s @ t2 @ p3) = Some (s @ m @ p3)"
      using a t x vd t2(2,3) r0(3) r2(3) mid(1,2) get_at(2) [of "t0 @ tmp @ z" "2 * n * 2" p "length p"]
        put_at(1) [of "t0 @ tmp" "2 * n" t2 z p] put_at(2) [of "t0 @ tmp @ t2" "2 * n * 2" p3 p]
        put_at(3) [of s "t0 @ tmp" "t2 @ p3"] by simp_all
    have cond: "n2 \<noteq> 4" "n2 \<noteq> 8" "\<not> n2 < BN_SQR_RECURSIVE_SIZE_NORMAL" using big by (simp_all add: BN_SQR_RECURSIVE_SIZE_NORMAL_def)
    have "bn_sqr_recursive a n2 t = Some (r, s @ m @ p3)"
      unfolding n(2) by (simp only: bn_sqr_recursive.simps [of a n2 t, unfolded Let_def, folded n_def, unfolded n(2)]
          p2 [unfolded n(2)] cond [unfolded n(2)] check_simps bind.bind_lunit prod.case if_True if_False
          g dd t2(1) r0(1) r2(1) s m r(1))
    then show ?thesis using r(2,3) mid(1,2) t x t2(3) r0(3) r2(3) n(2) by (simp add: multiplies_def)
  qed
qed

end
