(* ===== verification/Bn.thy ===== *)
theory Bn
  imports BnMulPart
begin

text \<open>
  Arbitrary-precision integers (\<open>crypto/fipsmodule/bn/bn.c\<close>, \<open>add.c\<close>, \<open>cmp.c\<close>). Objects live in a
  heap and are passed by address, so the arguments of an operation may be the same object. The
  array \<open>d\<close> of an object is a list of its \<open>dmax\<close> allocated words, of which \<open>width\<close> are in use.
  \<open>None\<close> is an access outside an array or a failed assertion.
\<close>

section \<open>Objects\<close>

record bignum =
  words :: "u64 list"
  width :: nat
  neg :: bool
  static_data :: bool

text \<open>
  The temporaries of a \<open>BN_CTX\<close>, in a stack of pointers that is there from the first request on
  and has room for \<open>bignums_alloc\<close>; and the frames, the innermost first, in an array of \<open>stack_size\<close>.
\<close>

record bn_ctx =
  bignums :: "nat list option"
  bignums_alloc :: nat
  stack :: "nat list"
  stack_size :: nat
  used :: nat
  ctx_error :: bool
  defer_error :: bool

definition new_ctx :: bn_ctx where
  "new_ctx = \<lparr>bignums = None, bignums_alloc = 0, stack = [], stack_size = 0, used = 0, ctx_error = False, defer_error = False\<rparr>"

record bn_state =
  num :: "nat \<Rightarrow> bignum"
  fresh :: nat
  mallocs :: nat
  ctx :: bn_ctx

text \<open>
  The allocator: what the \<open>i\<close>th request, for \<open>n\<close> words, returns. Addresses from \<open>fresh\<close> on are
  not used.
\<close>

type_synonym bn_malloc = "nat \<Rightarrow> nat \<Rightarrow> u64 list option"

type_synonym 'a bn_result = "('a \<times> bn_state) option"

definition malloc_words :: "bn_malloc \<Rightarrow> nat \<Rightarrow> bn_state \<Rightarrow> u64 list option \<times> bn_state" where
  "malloc_words m n s = (m (mallocs s) n, s\<lparr>mallocs := Suc (mallocs s)\<rparr>)"

definition upd :: "nat \<Rightarrow> (bignum \<Rightarrow> bignum) \<Rightarrow> bn_state \<Rightarrow> bn_state" where
  "upd r f s = s\<lparr>num := (num s)(r := f (num s r))\<rparr>"

definition set_words :: "nat \<Rightarrow> u64 list \<Rightarrow> bn_state \<Rightarrow> bn_state" where
  "set_words r ws = upd r (\<lambda>b. b\<lparr>words := ws\<rparr>)"

definition set_width :: "nat \<Rightarrow> nat \<Rightarrow> bn_state \<Rightarrow> bn_state" where
  "set_width r n = upd r (\<lambda>b. b\<lparr>width := n\<rparr>)"

definition set_neg :: "nat \<Rightarrow> bool \<Rightarrow> bn_state \<Rightarrow> bn_state" where
  "set_neg r b = upd r (\<lambda>x. x\<lparr>neg := b\<rparr>)"

text \<open>\<open>n\<close> words of an object, and storing words from the \<open>i\<close>th.\<close>

definition read_words :: "nat \<Rightarrow> nat \<Rightarrow> nat \<Rightarrow> bn_state \<Rightarrow> u64 list option" where
  "read_words a i n s = get i n (words (num s a))"

definition write_words :: "nat \<Rightarrow> nat \<Rightarrow> u64 list \<Rightarrow> bn_state \<Rightarrow> bn_state option" where
  "write_words r i ws s = map_option (\<lambda>ws. set_words r ws s) (put i ws (words (num s r)))"

section \<open>Memory\<close>

text \<open>\<open>INT_MAX / (4 * BN_BITS2)\<close>\<close>

definition BN_MAX_WORDS :: nat where "BN_MAX_WORDS = (2 ^ 31 - 1) div (4 * 64)"

definition bn_wexpand :: "bn_malloc \<Rightarrow> nat \<Rightarrow> nat \<Rightarrow> bn_state \<Rightarrow> bool bn_result" where
  "bn_wexpand m r n s = (let b = num s r in
     if n \<le> length (words b) then Some (True, s)
     else if n > BN_MAX_WORDS then Some (False, s)
     else if static_data b then Some (False, s)
     else (case malloc_words m n s of
         (None, s) \<Rightarrow> Some (False, s)
       | (Some a, s) \<Rightarrow> do {
           ws \<leftarrow> get 0 (width b) (words b);
           a \<leftarrow> put 0 ws a;
           Some (True, set_words r a s)
         }))"

definition bn_expand :: "bn_malloc \<Rightarrow> nat \<Rightarrow> nat \<Rightarrow> bn_state \<Rightarrow> bool bn_result" where
  "bn_expand m r bits s =
     (if (bits + 63) mod size_max1 < bits then Some (False, s)
      else bn_wexpand m r ((bits + 63) mod size_max1 div 64) s)"

primrec minimal_width :: "u64 list \<Rightarrow> nat \<Rightarrow> nat" where
  "minimal_width ws 0 = 0"
| "minimal_width ws (Suc n) = (if ws ! n = 0 then minimal_width ws n else Suc n)"

definition bn_minimal_width :: "bignum \<Rightarrow> nat" where
  "bn_minimal_width b = minimal_width (words b) (width b)"

definition bn_set_minimal_width :: "nat \<Rightarrow> bn_state \<Rightarrow> bn_state" where
  "bn_set_minimal_width r = upd r (\<lambda>b.
     let w = bn_minimal_width b in b\<lparr>width := w, neg := (if w = 0 then False else neg b)\<rparr>)"

definition or_words :: "u64 list \<Rightarrow> u64" where
  "or_words ws = foldl (\<lambda>m w. m OR w) 0 ws"

definition bn_fits_in_words :: "bignum \<Rightarrow> nat \<Rightarrow> bool" where
  "bn_fits_in_words b n \<longleftrightarrow> or_words (drop n (take (width b) (words b))) = 0"

definition BN_is_zero :: "bignum \<Rightarrow> bool" where
  "BN_is_zero b \<longleftrightarrow> bn_fits_in_words b 0"

definition BN_zero :: "nat \<Rightarrow> bn_state \<Rightarrow> bn_state" where
  "BN_zero r = upd r (\<lambda>b. b\<lparr>width := 0, neg := False\<rparr>)"

definition BN_set_word :: "bn_malloc \<Rightarrow> nat \<Rightarrow> u64 \<Rightarrow> bn_state \<Rightarrow> bool bn_result" where
  "BN_set_word m r v s =
     (if v = 0 then Some (True, BN_zero r s)
      else do {
        (ok, s) \<leftarrow> bn_wexpand m r 1 s;
        if \<not> ok then Some (False, s)
        else do {
          s \<leftarrow> write_words r 0 [v] (set_neg r False s);
          Some (True, set_width r 1 s)
        }
      })"

definition BN_one :: "bn_malloc \<Rightarrow> nat \<Rightarrow> bn_state \<Rightarrow> bool bn_result" where
  "BN_one m r = BN_set_word m r 1"

definition BN_set_u64 :: "bn_malloc \<Rightarrow> nat \<Rightarrow> u64 \<Rightarrow> bn_state \<Rightarrow> bool bn_result" where
  "BN_set_u64 = BN_set_word"

definition bn_set_words :: "bn_malloc \<Rightarrow> nat \<Rightarrow> u64 list \<Rightarrow> bn_state \<Rightarrow> bool bn_result" where
  "bn_set_words m r ws s = do {
     (ok, s) \<leftarrow> bn_wexpand m r (length ws) s;
     if \<not> ok then Some (False, s)
     else do {
       s \<leftarrow> write_words r 0 ws s;
       Some (True, set_neg r False (set_width r (length ws) s))
     }
   }"

text \<open>The result is what is stored in \<open>out\<close>, an array of \<open>n\<close> words.\<close>

definition bn_copy_words :: "nat \<Rightarrow> bignum \<Rightarrow> u64 list option" where
  "bn_copy_words n b =
     (if neg b then None
      else if width b > n \<and> \<not> bn_fits_in_words b n then None
      else (let w = (if width b > n then n else width b) in Some (take w (words b) @ replicate (n - w) 0)))"

definition BN_copy :: "bn_malloc \<Rightarrow> nat \<Rightarrow> nat \<Rightarrow> bn_state \<Rightarrow> bool bn_result" where
  "BN_copy m dest src s =
     (if src = dest then Some (True, s)
      else do {
        (ok, s) \<leftarrow> bn_wexpand m dest (width (num s src)) s;
        if \<not> ok then Some (False, s)
        else do {
          ws \<leftarrow> read_words src 0 (width (num s src)) s;
          s \<leftarrow> write_words dest 0 ws s;
          Some (True, set_neg dest (neg (num s src)) (set_width dest (width (num s src)) s))
        }
      })"

text \<open>\<open>BN_new\<close>, for 24 bytes; \<open>None\<close> inside is \<open>NULL\<close>.\<close>

definition BN_new :: "bn_malloc \<Rightarrow> bn_state \<Rightarrow> nat option \<times> bn_state" where
  "BN_new m s = (case malloc_words m 3 s of
     (None, s) \<Rightarrow> (None, s)
   | (Some _, s) \<Rightarrow> (Some (fresh s),
       upd (fresh s) (\<lambda>_. \<lparr>words = [], width = 0, neg = False, static_data = False\<rparr>) (s\<lparr>fresh := Suc (fresh s)\<rparr>)))"

definition BN_dup :: "bn_malloc \<Rightarrow> nat \<Rightarrow> bn_state \<Rightarrow> nat option bn_result" where
  "BN_dup m src s = (case BN_new m s of
     (None, s) \<Rightarrow> Some (None, s)
   | (Some copy, s) \<Rightarrow> do {
       (ok, s) \<leftarrow> BN_copy m copy src s;
       Some (if ok then Some copy else None, s)
     })"

definition BN_clear :: "nat \<Rightarrow> bn_state \<Rightarrow> bn_state" where
  "BN_clear r = upd r (\<lambda>b. b\<lparr>words := replicate (length (words b)) 0, width := 0, neg := False\<rparr>)"

definition BN_is_negative :: "bignum \<Rightarrow> bool" where "BN_is_negative b = neg b"

definition BN_set_negative :: "nat \<Rightarrow> bool \<Rightarrow> bn_state \<Rightarrow> bn_state" where
  "BN_set_negative r sign = upd r (\<lambda>b. b\<lparr>neg := (sign \<and> \<not> BN_is_zero b)\<rparr>)"

definition bn_resize_words :: "bn_malloc \<Rightarrow> nat \<Rightarrow> nat \<Rightarrow> bn_state \<Rightarrow> bool bn_result" where
  "bn_resize_words m r n s =
     (if width (num s r) \<le> n then do {
        (ok, s) \<leftarrow> bn_wexpand m r n s;
        if \<not> ok then Some (False, s)
        else do {
          s \<leftarrow> write_words r (width (num s r)) (replicate (n - width (num s r)) 0) s;
          Some (True, set_width r n s)
        }
      }
      else if \<not> bn_fits_in_words (num s r) n then Some (False, s)
      else Some (True, set_width r n s))"

text \<open>The number of bits of a word: five halvings without a branch.\<close>

definition bits_step :: "nat \<Rightarrow> nat \<times> u64 \<Rightarrow> nat \<times> u64" where
  "bits_step n = (\<lambda>(bits, l).
     let x = drop_bit n l; m = 0 - x; m = 0 - drop_bit 63 m in
     (bits + unat (of_nat n AND m), l XOR ((x XOR l) AND m)))"

definition BN_num_bits_word :: "u64 \<Rightarrow> nat" where
  "BN_num_bits_word l = fst (foldl (\<lambda>st n. bits_step n st) (if l \<noteq> 0 then 1 else 0, l) [32, 16, 8, 4, 2, 1])"

definition BN_num_bits :: "bignum \<Rightarrow> nat" where
  "BN_num_bits b = (let w = bn_minimal_width b in
     if w = 0 then 0 else (w - 1) * 64 + BN_num_bits_word (words b ! (w - 1)))"

definition BN_num_bytes :: "bignum \<Rightarrow> nat" where
  "BN_num_bytes b = (BN_num_bits b + 7) div 8"

end
