(* ===== verification/BnAdd.thy ===== *)
theory BnAdd
  imports Bn
begin

text \<open>Comparison, addition and subtraction (\<open>cmp.c\<close>, \<open>add.c\<close>).\<close>

section \<open>Comparison\<close>

text \<open>\<open>int\<close> has 32 bits; the arguments are sign-extended to words and the result cut off.\<close>

definition constant_time_select_int :: "u64 \<Rightarrow> int \<Rightarrow> int \<Rightarrow> int" where
  "constant_time_select_int m a b = sint (ucast (constant_time_select_w m (word_of_int a) (word_of_int b)) :: u32)"

fun cmp_loop :: "int \<Rightarrow> u64 list \<Rightarrow> u64 list \<Rightarrow> int" where
  "cmp_loop ret (a # as) (b # bs) =
     (let eq = constant_time_eq_w a b; lt = constant_time_lt_w a b in
      cmp_loop (constant_time_select_int eq ret (constant_time_select_int lt (- 1) 1)) as bs)"
| "cmp_loop ret as bs = ret"

definition bn_cmp_words_consttime :: "u64 list \<Rightarrow> u64 list \<Rightarrow> int" where
  "bn_cmp_words_consttime a b = (
     let n = min (length a) (length b); ret = cmp_loop 0 (take n a) (take n b) in
     if length a < length b then
       constant_time_select_int (constant_time_is_zero_w (or_words (drop (length a) b))) ret (- 1)
     else if length b < length a then
       constant_time_select_int (constant_time_is_zero_w (or_words (drop (length b) a))) ret 1
     else ret)"

definition used_words :: "bignum \<Rightarrow> u64 list" where
  "used_words b = take (width b) (words b)"

definition BN_ucmp :: "bignum \<Rightarrow> bignum \<Rightarrow> int" where
  "BN_ucmp a b = bn_cmp_words_consttime (used_words a) (used_words b)"

text \<open>\<open>None\<close> is a null pointer.\<close>

definition BN_cmp :: "bignum option \<Rightarrow> bignum option \<Rightarrow> int" where
  "BN_cmp a b = (case (a, b) of
     (None, None) \<Rightarrow> 0
   | (Some _, None) \<Rightarrow> - 1
   | (None, Some _) \<Rightarrow> 1
   | (Some a, Some b) \<Rightarrow>
       if neg a \<noteq> neg b then (if neg a then - 1 else 1)
       else (let ret = BN_ucmp a b in if neg a then - ret else ret))"

definition bn_less_than_words :: "u64 list \<Rightarrow> u64 list \<Rightarrow> bool" where
  "bn_less_than_words a b \<longleftrightarrow> bn_cmp_words_consttime a b < 0"

definition BN_abs_is_word :: "bignum \<Rightarrow> u64 \<Rightarrow> bool" where
  "BN_abs_is_word b w \<longleftrightarrow> (if width b = 0 then w = 0
     else foldl (\<lambda>m x. m OR x) ((words b ! 0) XOR w) (drop 1 (used_words b)) = 0)"

definition BN_cmp_word :: "bignum \<Rightarrow> u64 \<Rightarrow> int" where
  "BN_cmp_word a b = BN_cmp (Some a)
     (Some \<lparr>words = [b], width = (if b > 0 then 1 else 0), neg = False, static_data = True\<rparr>)"

definition BN_is_one :: "bignum \<Rightarrow> bool" where
  "BN_is_one b \<longleftrightarrow> \<not> neg b \<and> BN_abs_is_word b 1"

definition BN_is_word :: "bignum \<Rightarrow> u64 \<Rightarrow> bool" where
  "BN_is_word b w \<longleftrightarrow> BN_abs_is_word b w \<and> (w = 0 \<or> \<not> neg b)"

definition BN_is_odd :: "bignum \<Rightarrow> bool" where
  "BN_is_odd b \<longleftrightarrow> width b > 0 \<and> (words b ! 0) AND 1 = 1"

definition BN_is_pow2 :: "bignum \<Rightarrow> bool" where
  "BN_is_pow2 b \<longleftrightarrow> (let w = bn_minimal_width b in
     if w = 0 \<or> neg b then False
     else if list_ex (\<lambda>x. x \<noteq> 0) (take (w - 1) (words b)) then False
     else (words b ! (w - 1)) AND (words b ! (w - 1) - 1) = 0)"

definition BN_equal_consttime :: "bignum \<Rightarrow> bignum \<Rightarrow> bool" where
  "BN_equal_consttime a b \<longleftrightarrow> (
     let m = or_words (drop (width a) (used_words b));
         m = m OR or_words (drop (width b) (used_words a));
         n = min (width a) (width b);
         m = m OR or_words (map2 (\<lambda>x y. x XOR y) (take n (words a)) (take n (words b)));
         m = m OR (if neg a \<noteq> neg b then 1 else 0) in
     m = 0)"

section \<open>Addition\<close>

definition bn_uadd_consttime :: "bn_malloc \<Rightarrow> nat \<Rightarrow> nat \<Rightarrow> nat \<Rightarrow> bn_state \<Rightarrow> bool bn_result" where
  "bn_uadd_consttime m r a b s = (
     let (a, b) = (if width (num s a) < width (num s b) then (b, a) else (a, b));
         longer = width (num s a); shorter = width (num s b) in
     do {
       (ok, s) \<leftarrow> bn_wexpand m r (longer + 1) s;
       if \<not> ok then Some (False, s)
       else do {
         let s = set_width r (longer + 1) s;
         as \<leftarrow> read_words a 0 longer s;
         bs \<leftarrow> read_words b 0 shorter s;
         let (low, carry) = bn_add_words (take shorter as) bs;
         let (high, carry) = propagate carry (drop shorter as);
         s \<leftarrow> write_words r 0 (low @ high @ [carry]) s;
         Some (True, s)
       }
     })"

definition BN_uadd :: "bn_malloc \<Rightarrow> nat \<Rightarrow> nat \<Rightarrow> nat \<Rightarrow> bn_state \<Rightarrow> bool bn_result" where
  "BN_uadd m r a b s = do {
     (ok, s) \<leftarrow> bn_uadd_consttime m r a b s;
     Some (if ok then (True, bn_set_minimal_width r s) else (False, s))
   }"

text \<open>The words of the minuend behind those of the subtrahend.\<close>

fun sub_tail :: "u64 \<Rightarrow> u64 list \<Rightarrow> u64 list \<times> u64" where
  "sub_tail borrow (tmp # as) =
     (let r = tmp - borrow; (rs, borrow) = sub_tail (if tmp < r then 1 else 0) as in (r # rs, borrow))"
| "sub_tail borrow [] = ([], borrow)"

definition bn_usub_consttime :: "bn_malloc \<Rightarrow> nat \<Rightarrow> nat \<Rightarrow> nat \<Rightarrow> bn_state \<Rightarrow> bool bn_result" where
  "bn_usub_consttime m r a b s = (
     let a_width = width (num s a); b_width = width (num s b) in
     if b_width > a_width \<and> \<not> bn_fits_in_words (num s b) a_width then Some (False, s)
     else do {
       let b_width = min b_width a_width;
       (ok, s) \<leftarrow> bn_wexpand m r a_width s;
       if \<not> ok then Some (False, s)
       else do {
         as \<leftarrow> read_words a 0 a_width s;
         bs \<leftarrow> read_words b 0 b_width s;
         let (low, borrow) = bn_sub_words (take b_width as) bs;
         let (high, borrow) = sub_tail borrow (drop b_width as);
         s \<leftarrow> write_words r 0 (low @ high) s;
         if borrow \<noteq> 0 then Some (False, s)
         else Some (True, set_neg r False (set_width r a_width s))
       }
     })"

definition BN_usub :: "bn_malloc \<Rightarrow> nat \<Rightarrow> nat \<Rightarrow> nat \<Rightarrow> bn_state \<Rightarrow> bool bn_result" where
  "BN_usub m r a b s = do {
     (ok, s) \<leftarrow> bn_usub_consttime m r a b s;
     Some (if ok then (True, bn_set_minimal_width r s) else (False, s))
   }"

text \<open>\<open>|a| - |b|\<close> with its sign, the part \<open>BN_add\<close> and \<open>BN_sub\<close> have in common.\<close>

definition signed_difference :: "bn_malloc \<Rightarrow> nat \<Rightarrow> nat \<Rightarrow> nat \<Rightarrow> bn_state \<Rightarrow> bool bn_result" where
  "signed_difference m r a b s =
     (if BN_ucmp (num s a) (num s b) < 0 then do {
        (ok, s) \<leftarrow> BN_usub m r b a s;
        Some (if ok then (True, set_neg r True s) else (False, s))
      }
      else do {
        (ok, s) \<leftarrow> BN_usub m r a b s;
        Some (if ok then (True, set_neg r False s) else (False, s))
      })"

definition BN_add :: "bn_malloc \<Rightarrow> nat \<Rightarrow> nat \<Rightarrow> nat \<Rightarrow> bn_state \<Rightarrow> bool bn_result" where
  "BN_add m r a b s = (
     let a_neg = neg (num s a) in
     if a_neg \<noteq> neg (num s b) then
       (let (a, b) = (if a_neg then (b, a) else (a, b)) in signed_difference m r a b s)
     else do {
       (ok, s) \<leftarrow> BN_uadd m r a b s;
       Some (ok, set_neg r a_neg s)
     })"

definition BN_sub :: "bn_malloc \<Rightarrow> nat \<Rightarrow> nat \<Rightarrow> nat \<Rightarrow> bn_state \<Rightarrow> bool bn_result" where
  "BN_sub m r a b s =
     (if neg (num s a) \<noteq> neg (num s b) then do {
        let sign = neg (num s a);
        (ok, s) \<leftarrow> BN_uadd m r a b s;
        Some (if ok then (True, set_neg r sign s) else (False, s))
      }
      else (let (a, b) = (if neg (num s a) then (b, a) else (a, b)) in signed_difference m r a b s))"

section \<open>Words\<close>

text \<open>The loop that adds a word: the words and what is left to carry.\<close>

fun add_word_loop :: "u64 \<Rightarrow> u64 list \<Rightarrow> u64 list \<times> u64" where
  "add_word_loop w (a # as) =
     (if w = 0 then (a # as, 0)
      else (let l = a + w; (rs, w) = add_word_loop (if w > l then 1 else 0) as in (l # rs, w)))"
| "add_word_loop w [] = ([], w)"

text \<open>The loop that subtracts a word: the words and where it stops. It would run off a smaller number.\<close>

fun sub_word_loop :: "u64 \<Rightarrow> u64 list \<Rightarrow> (u64 list \<times> nat) option" where
  "sub_word_loop w (a # as) =
     (if a \<ge> w then Some ((a - w) # as, 0)
      else map_option (\<lambda>(rs, i). ((a - w) # rs, Suc i)) (sub_word_loop 1 as))"
| "sub_word_loop w [] = None"

text \<open>
  \<open>BN_add_word\<close> and \<open>BN_sub_word\<close> call each other for negative numbers, which are made positive
  before; these are the parts for numbers that are not negative.
\<close>

definition add_word_positive :: "bn_malloc \<Rightarrow> nat \<Rightarrow> u64 \<Rightarrow> bn_state \<Rightarrow> bool bn_result" where
  "add_word_positive m a w s = (
     let n = width (num s a) in
     do {
       as \<leftarrow> read_words a 0 n s;
       let (rs, c) = add_word_loop w as;
       s \<leftarrow> write_words a 0 rs s;
       if c \<noteq> 0 then do {
         (ok, s) \<leftarrow> bn_wexpand m a (n + 1) s;
         if \<not> ok then Some (False, s)
         else do {
           s \<leftarrow> write_words a n [c] (set_width a (n + 1) s);
           Some (True, s)
         }
       }
       else Some (True, s)
     })"

definition sub_word_positive :: "nat \<Rightarrow> u64 \<Rightarrow> bn_state \<Rightarrow> bool bn_result" where
  "sub_word_positive a w s = (
     let n = width (num s a); x = words (num s a) ! 0 in
     if bn_minimal_width (num s a) = 1 \<and> x < w then do {
       s \<leftarrow> write_words a 0 [w - x] s;
       Some (True, set_neg a True s)
     }
     else do {
       as \<leftarrow> read_words a 0 n s;
       (rs, i) \<leftarrow> sub_word_loop w as;
       s \<leftarrow> write_words a 0 rs s;
       Some (True, if rs ! i = 0 \<and> i + 1 = n then set_width a (n - 1) s else s)
     })"

definition BN_add_word :: "bn_malloc \<Rightarrow> nat \<Rightarrow> u64 \<Rightarrow> bn_state \<Rightarrow> bool bn_result" where
  "BN_add_word m a w s =
     (if w = 0 then Some (True, s)
      else if BN_is_zero (num s a) then BN_set_word m a w s
      else if neg (num s a) then do {
        (ok, s) \<leftarrow> sub_word_positive a w (set_neg a False s);
        Some (ok, if BN_is_zero (num s a) then s else set_neg a (\<not> neg (num s a)) s)
      }
      else add_word_positive m a w s)"

definition BN_sub_word :: "bn_malloc \<Rightarrow> nat \<Rightarrow> u64 \<Rightarrow> bn_state \<Rightarrow> bool bn_result" where
  "BN_sub_word m a w s =
     (if w = 0 then Some (True, s)
      else if BN_is_zero (num s a) then do {
        (ok, s) \<leftarrow> BN_set_word m a w s;
        Some (ok, if ok then BN_set_negative a True s else s)
      }
      else if neg (num s a) then do {
        (ok, s) \<leftarrow> add_word_positive m a w (set_neg a False s);
        Some (ok, set_neg a True s)
      }
      else sub_word_positive a w s)"

end
