(* ===== verification/BnState.thy ===== *)
theory BnState
  imports BnAdd
begin

text \<open>The numbers of objects, and what the operations on memory leave of them.\<close>

section \<open>Numbers\<close>

definition bn_ok :: "bignum \<Rightarrow> bool" where
  "bn_ok b \<longleftrightarrow> width b \<le> length (words b) \<and> length (words b) \<le> BN_MAX_WORDS"

definition magnitude :: "bignum \<Rightarrow> nat" where
  "magnitude b = nat_of (used_words b)"

definition bn_val :: "bignum \<Rightarrow> int" where
  "bn_val b = (if neg b then - int (magnitude b) else int (magnitude b))"

text \<open>The allocator grants what is asked for, or nothing.\<close>

definition bn_malloc_ok :: "bn_malloc \<Rightarrow> bool" where
  "bn_malloc_ok m \<longleftrightarrow> (\<forall>i n ws. m i n = Some ws \<longrightarrow> length ws = n)"

text \<open>Only the object \<open>r\<close> differs.\<close>

definition only :: "nat \<Rightarrow> bn_state \<Rightarrow> bn_state \<Rightarrow> bool" where
  "only r s s' \<longleftrightarrow> (\<forall>x. x \<noteq> r \<longrightarrow> num s' x = num s x) \<and> fresh s' = fresh s \<and> ctx s' = ctx s"

lemma only_refl [simp]: "only r s s"
  by (simp add: only_def)

lemma only_trans: "only r s s' \<Longrightarrow> only r s' s'' \<Longrightarrow> only r s s''"
  by (simp add: only_def)

lemma only_upd [simp]: "only r s (upd r f s)"
  by (simp add: only_def upd_def)

lemma only_set [simp]: "only r s (set_words r ws s)" "only r s (set_width r n s)" "only r s (set_neg r b s)"
  "only r s (bn_set_minimal_width r s)" "only r s (BN_zero r s)"
  by (simp_all add: set_words_def set_width_def set_neg_def bn_set_minimal_width_def BN_zero_def)

lemma num_upd [simp]: "num (upd r f s) x = (if x = r then f (num s r) else num s x)"
  by (simp add: upd_def)

lemma num_set [simp]:
  "num (set_words r ws s) x = (if x = r then num s r\<lparr>words := ws\<rparr> else num s x)"
  "num (set_width r n s) x = (if x = r then num s r\<lparr>width := n\<rparr> else num s x)"
  "num (set_neg r b s) x = (if x = r then num s r\<lparr>neg := b\<rparr> else num s x)"
  by (simp_all add: set_words_def set_width_def set_neg_def)

lemma length_used: "bn_ok b \<Longrightarrow> length (used_words b) = width b"
  by (simp add: bn_ok_def used_words_def)

lemma magnitude_less: "bn_ok b \<Longrightarrow> magnitude b < base (width b)"
  using nat_of_less [of "used_words b"] by (simp add: magnitude_def length_used)

section \<open>Memory\<close>

text \<open>An object with room for \<open>n\<close> words that still has the words it had.\<close>

definition grown :: "bignum \<Rightarrow> bignum \<Rightarrow> nat \<Rightarrow> bool" where
  "grown b b' n \<longleftrightarrow> bn_ok b' \<and> width b' = width b \<and> neg b' = neg b \<and> used_words b' = used_words b \<and>
     length (words b) \<le> length (words b') \<and> n \<le> length (words b')"

text \<open>
  When an object has no room for \<open>n\<close> words and cannot get it: they are more than the library allows,
  the words of the object are static data, or the allocator refuses the request.
\<close>

definition cannot_grow :: "bn_malloc \<Rightarrow> bn_state \<Rightarrow> nat \<Rightarrow> nat \<Rightarrow> bool" where
  "cannot_grow m s r n \<longleftrightarrow> length (words (num s r)) < n \<and>
     (BN_MAX_WORDS < n \<or> static_data (num s r) \<or> m (mallocs s) n = None)"

lemma wexpand_cases:
  assumes "bn_ok (num s r)" and "bn_malloc_ok m"
  obtains s' where "bn_wexpand m r n s = Some (True, s')" and "only r s s'" and "grown (num s r) (num s' r) n"
      and "\<not> cannot_grow m s r n"
  | s' where "bn_wexpand m r n s = Some (False, s')" and "num s' = num s" and "only r s s'" and "cannot_grow m s r n"
proof -
  let ?b = "num s r"
  have w: "width ?b \<le> length (words ?b)" "length (words ?b) \<le> BN_MAX_WORDS" using assms(1) by (simp_all add: bn_ok_def)
  consider "n \<le> length (words ?b)" | "length (words ?b) < n" "n > BN_MAX_WORDS \<or> static_data ?b \<or> m (mallocs s) n = None"
    | a where "length (words ?b) < n" "n \<le> BN_MAX_WORDS" "\<not> static_data ?b" "m (mallocs s) n = Some a"
    by fastforce
  then show thesis
  proof cases
    case 1
    then show ?thesis using that(1) [of s] assms(1) by (simp add: bn_wexpand_def grown_def cannot_grow_def)
  next
    case 2
    define s' where "s' = (if n > BN_MAX_WORDS \<or> static_data ?b then s else s\<lparr>mallocs := Suc (mallocs s)\<rparr>)"
    have "bn_wexpand m r n s = Some (False, s')"
      using 2 by (auto simp: bn_wexpand_def malloc_words_def Let_def s'_def)
    moreover have "num s' = num s" "only r s s'" by (simp_all add: s'_def only_def)
    ultimately show ?thesis using that(2) [of s'] 2 by (auto simp: cannot_grow_def)
  next
    case 3
    have l: "length a = n" using 3(4) assms(2) by (simp add: bn_malloc_ok_def)
    let ?ws = "used_words ?b @ drop (width ?b) a"
    let ?s = "set_words r ?ws (s\<lparr>mallocs := Suc (mallocs s)\<rparr>)"
    have "bn_wexpand m r n s = Some (True, ?s)"
      using 3 w l by (simp add: bn_wexpand_def malloc_words_def Let_def get_def put_def used_words_def)
    moreover have "only r s ?s" by (simp add: only_def set_words_def upd_def)
    moreover have "length ?ws = n" using w 3(1) l by (simp add: used_words_def)
    moreover have "take (width ?b) ?ws = used_words ?b" using w by (simp add: used_words_def)
    ultimately show ?thesis using that(1) [of ?s] w 3 by (simp add: grown_def bn_ok_def used_words_def cannot_grow_def)
  qed
qed

lemma read_words_ok: "i + n \<le> length (words (num s a)) \<Longrightarrow> read_words a i n s = Some (take n (drop i (words (num s a))))"
  by (simp add: read_words_def get_def)

lemma write_words_ok:
  "i + length ws \<le> length (words (num s r)) \<Longrightarrow>
   write_words r i ws s = Some (set_words r (take i (words (num s r)) @ ws @ drop (i + length ws) (words (num s r))) s)"
  by (simp add: write_words_def put_def)

section \<open>Widths\<close>

lemma minimal_width_le: "minimal_width ws n \<le> n"
  by (induction n) (simp_all add: le_SucI)

lemma minimal_width_value:
  "n \<le> length ws \<Longrightarrow> nat_of (take (minimal_width ws n) ws) = nat_of (take n ws)"
proof (induction n)
  case (Suc n)
  show ?case
  proof (cases "ws ! n = 0")
    case True
    have "take (Suc n) ws = take n ws @ [0]" using Suc(2) True by (simp add: take_Suc_conv_app_nth)
    then show ?thesis using Suc True by (simp add: nat_of_append)
  qed simp
qed simp

lemma minimal_width_top: "minimal_width ws n \<noteq> 0 \<Longrightarrow> ws ! (minimal_width ws n - 1) \<noteq> 0"
  by (induction n) (auto split: if_splits)

text \<open>A number in its normal form: no leading zero words, and no negative zero.\<close>

definition normal :: "bignum \<Rightarrow> bool" where
  "normal b \<longleftrightarrow> (width b \<noteq> 0 \<longrightarrow> words b ! (width b - 1) \<noteq> 0) \<and> (width b = 0 \<longrightarrow> \<not> neg b)"

lemma set_minimal_width:
  assumes "bn_ok (num s r)"
  shows "bn_ok (num (bn_set_minimal_width r s) r)" and "normal (num (bn_set_minimal_width r s) r)"
    and "magnitude (num (bn_set_minimal_width r s) r) = magnitude (num s r)"
    and "neg (num (bn_set_minimal_width r s) r) \<Longrightarrow> neg (num s r)"
    and "magnitude (num s r) \<noteq> 0 \<Longrightarrow> neg (num (bn_set_minimal_width r s) r) = neg (num s r)"
proof -
  let ?b = "num s r" and ?w = "minimal_width (words (num s r)) (width (num s r))"
  have l: "width ?b \<le> length (words ?b)" using assms by (simp add: bn_ok_def)
  have n: "num (bn_set_minimal_width r s) r = ?b\<lparr>width := ?w, neg := (if ?w = 0 then False else neg ?b)\<rparr>"
    by (simp add: bn_set_minimal_width_def bn_minimal_width_def Let_def)
  show "bn_ok (num (bn_set_minimal_width r s) r)"
    unfolding n using assms minimal_width_le [of "words ?b" "width ?b"] by (simp add: bn_ok_def)
  show "normal (num (bn_set_minimal_width r s) r)"
    unfolding n using minimal_width_top by (simp add: normal_def)
  show v: "magnitude (num (bn_set_minimal_width r s) r) = magnitude ?b"
    unfolding n using minimal_width_value [OF l] by (simp add: magnitude_def used_words_def)
  show "neg (num (bn_set_minimal_width r s) r) \<Longrightarrow> neg ?b" unfolding n by (simp split: if_splits)
  show "neg (num (bn_set_minimal_width r s) r) = neg ?b" if "magnitude ?b \<noteq> 0"
    using that minimal_width_value [OF l] unfolding n by (auto simp: magnitude_def used_words_def)
qed

lemma set_minimal_width_val: "bn_ok (num s r) \<Longrightarrow> bn_val (num (bn_set_minimal_width r s) r) = bn_val (num s r)"
  using set_minimal_width [of s r] by (cases "magnitude (num s r) = 0") (auto simp: bn_val_def)

lemma normal_zero: "normal b \<Longrightarrow> bn_ok b \<Longrightarrow> magnitude b = 0 \<longleftrightarrow> width b = 0"
proof -
  assume n: "normal b" and ok: "bn_ok b"
  have "words b ! (width b - 1) \<in> set (used_words b)" if "width b \<noteq> 0"
    using that ok by (auto simp: used_words_def in_set_conv_nth bn_ok_def intro!: exI [of _ "width b - 1"])
  then show ?thesis using n by (auto simp: magnitude_def nat_of_eq_0 normal_def used_words_def)
qed

lemma cannot_grow_set_neg [simp]: "cannot_grow m (set_neg x b s) r n = cannot_grow m s r n"
  by (simp add: cannot_grow_def set_neg_def upd_def)

section \<open>Zero words\<close>

lemma foldl_or_zero: "foldl (\<lambda>m w. m OR w) x ws = 0 \<longleftrightarrow> x = (0 :: u64) \<and> set ws \<subseteq> {0}"
  by (induction ws arbitrary: x) (auto simp: or_eq_0_iff)

lemma or_words_zero: "or_words ws = 0 \<longleftrightarrow> nat_of ws = 0"
  by (simp add: or_words_def foldl_or_zero nat_of_eq_0)

lemma fits_in_words: "bn_fits_in_words b n \<longleftrightarrow> nat_of (drop n (used_words b)) = 0"
  by (simp add: bn_fits_in_words_def or_words_zero used_words_def)

lemma is_zero: "BN_is_zero b \<longleftrightarrow> magnitude b = 0"
  by (simp add: BN_is_zero_def fits_in_words magnitude_def)

section \<open>Sample states\<close>

definition calloc :: bn_malloc where
  "calloc i n = Some (replicate n 0)"

text \<open>A number that is not negative, its opposite, and objects at the addresses from 0 on.\<close>

definition number :: "u64 list \<Rightarrow> bignum" where
  "number ws = \<lparr>words = ws, width = length ws, neg = False, static_data = False\<rparr>"

definition minus_number :: "u64 list \<Rightarrow> bignum" where
  "minus_number ws = number ws\<lparr>neg := True\<rparr>"

definition heap_of :: "bignum list \<Rightarrow> bn_state" where
  "heap_of bs = \<lparr>num = (\<lambda>x. if x < length bs then bs ! x else number []), fresh = length bs, mallocs = 0, ctx = new_ctx\<rparr>"

lemma calloc_ok [simp]: "bn_malloc_ok calloc"
  by (simp add: bn_malloc_ok_def calloc_def)

lemma heap_of_simps [simp]:
  "x < length bs \<Longrightarrow> num (heap_of bs) x = bs ! x" "fresh (heap_of bs) = length bs" "mallocs (heap_of bs) = 0"
  "ctx (heap_of bs) = new_ctx"
  by (simp_all add: heap_of_def)

lemma number_simps [simp]:
  "words (number ws) = ws" "width (number ws) = length ws" "\<not> neg (number ws)" "\<not> static_data (number ws)"
  "words (minus_number ws) = ws" "width (minus_number ws) = length ws" "neg (minus_number ws)"
  "used_words (number ws) = ws" "used_words (minus_number ws) = ws"
  by (simp_all add: number_def minus_number_def used_words_def)

lemma BN_MAX_WORDS: "BN_MAX_WORDS = 8388607"
  by (simp add: BN_MAX_WORDS_def)

lemma bn_ok_numbers [simp]:
  "bn_ok (number ws) \<longleftrightarrow> length ws \<le> 8388607" "bn_ok (minus_number ws) \<longleftrightarrow> length ws \<le> 8388607"
  by (simp_all add: bn_ok_def BN_MAX_WORDS)

lemma val_numbers [simp]:
  "bn_val (number ws) = int (nat_of ws)" "bn_val (minus_number ws) = - int (nat_of ws)"
  "magnitude (number ws) = nat_of ws" "magnitude (minus_number ws) = nat_of ws"
  by (simp_all add: bn_val_def magnitude_def)

lemma state_simps [simp]:
  "ctx (upd r f s) = ctx s" "fresh (upd r f s) = fresh s" "mallocs (upd r f s) = mallocs s"
  "ctx (set_words r ws s) = ctx s" "fresh (set_words r ws s) = fresh s" "mallocs (set_words r ws s) = mallocs s"
  "ctx (set_width r n s) = ctx s" "fresh (set_width r n s) = fresh s" "mallocs (set_width r n s) = mallocs s"
  "ctx (set_neg r b s) = ctx s" "fresh (set_neg r b s) = fresh s" "mallocs (set_neg r b s) = mallocs s"
  by (simp_all add: upd_def set_words_def set_width_def set_neg_def)

text \<open>What evaluates the operations on memory in a sample state.\<close>

lemmas bn_run_simps = bn_wexpand_def malloc_words_def calloc_def BN_MAX_WORDS Let_def get_def put_def check_def
  read_words_def write_words_def bn_set_minimal_width_def bn_minimal_width_def used_words_def

end
