(* ===== verification/BnCtx.thy ===== *)
theory BnCtx
  imports BnState
begin

text \<open>
  Temporaries (\<open>crypto/fipsmodule/bn/ctx.c\<close>) and the multiplication of numbers (\<open>mul.c\<close>).
  A \<open>goto err\<close> is a branch that ends the frame and reports failure.
\<close>

section \<open>Frames\<close>

definition BN_CTX_START_FRAMES :: nat where "BN_CTX_START_FRAMES = 32"

definition set_ctx :: "bn_ctx \<Rightarrow> bn_state \<Rightarrow> bn_state" where
  "set_ctx c s = s\<lparr>ctx := c\<rparr>"

text \<open>An allocation of \<open>n\<close> words that are only filled later.\<close>

definition request :: "bn_malloc \<Rightarrow> nat \<Rightarrow> bn_state \<Rightarrow> bool \<times> bn_state" where
  "request m n s = (m (mallocs s) n \<noteq> None, s\<lparr>mallocs := Suc (mallocs s)\<rparr>)"

definition BN_STACK_push :: "bn_malloc \<Rightarrow> nat \<Rightarrow> bn_state \<Rightarrow> bool \<times> bn_state" where
  "BN_STACK_push m idx s = (let c = ctx s in
     if length (stack c) = stack_size c then
       (let new_size = (if stack_size c \<noteq> 0 then stack_size c * 3 mod size_max1 div 2 else BN_CTX_START_FRAMES) in
        if new_size \<le> stack_size c \<or> new_size > (size_max1 - 1) div 8 then (False, s)
        else (case request m new_size s of
            (False, s) \<Rightarrow> (False, s)
          | (True, s) \<Rightarrow> (True, set_ctx (c\<lparr>stack := idx # stack c, stack_size := new_size\<rparr>) s)))
     else (True, set_ctx (c\<lparr>stack := idx # stack c\<rparr>) s))"

definition BN_STACK_pop :: "bn_state \<Rightarrow> nat bn_result" where
  "BN_STACK_pop s = (case stack (ctx s) of
     [] \<Rightarrow> None
   | i # st \<Rightarrow> Some (i, set_ctx (ctx s\<lparr>stack := st\<rparr>) s))"

definition BN_CTX_start :: "bn_malloc \<Rightarrow> bn_state \<Rightarrow> bn_state" where
  "BN_CTX_start m s =
     (if ctx_error (ctx s) then s
      else (case BN_STACK_push m (used (ctx s)) s of
          (True, s) \<Rightarrow> s
        | (False, s) \<Rightarrow> set_ctx (ctx s\<lparr>ctx_error := True, defer_error := True\<rparr>) s))"

definition BN_CTX_end :: "bn_state \<Rightarrow> bn_state option" where
  "BN_CTX_end s =
     (if ctx_error (ctx s) then Some s
      else map_option (\<lambda>(i, s). set_ctx (ctx s\<lparr>used := i\<rparr>) s) (BN_STACK_pop s))"

text \<open>The stack of pointers: \<open>sk_new\<close> asks for its record and for four pointers, \<open>sk_insert\<close> doubles.\<close>

definition new_bignums :: "bn_malloc \<Rightarrow> bn_state \<Rightarrow> bool \<times> bn_state" where
  "new_bignums m s = (case request m 5 s of
     (False, s) \<Rightarrow> (False, s)
   | (True, s) \<Rightarrow> (case request m 4 s of
         (False, s) \<Rightarrow> (False, s)
       | (True, s) \<Rightarrow> (True, set_ctx (ctx s\<lparr>bignums := Some [], bignums_alloc := 4\<rparr>) s)))"

definition grow_bignums :: "bn_malloc \<Rightarrow> nat \<Rightarrow> bn_state \<Rightarrow> bool \<times> bn_state" where
  "grow_bignums m n s = (let alloc = bignums_alloc (ctx s) in
     if alloc \<le> n + 1 then
       (let twice = alloc * 2 mod size_max1;
            new_alloc = (if twice < alloc \<or> twice * 8 \<ge> size_max1 then (alloc + 1) mod size_max1 else twice) in
        if new_alloc < alloc \<or> new_alloc * 8 \<ge> size_max1 then (False, s)
        else (case request m new_alloc s of
            (False, s) \<Rightarrow> (False, s)
          | (True, s) \<Rightarrow> (True, set_ctx (ctx s\<lparr>bignums_alloc := new_alloc\<rparr>) s)))
     else (True, s))"

definition push_bignum :: "bn_malloc \<Rightarrow> nat \<Rightarrow> nat list \<Rightarrow> bn_state \<Rightarrow> bool \<times> bn_state" where
  "push_bignum m x xs s = (case grow_bignums m (length xs) s of
     (False, s) \<Rightarrow> (False, s)
   | (True, s) \<Rightarrow> (True, set_ctx (ctx s\<lparr>bignums := Some (xs @ [x])\<rparr>) s))"

definition ctx_fail :: "bn_state \<Rightarrow> bn_state" where
  "ctx_fail s = set_ctx (ctx s\<lparr>ctx_error := True\<rparr>) s"

text \<open>The number that is used next; a new one when all are in use.\<close>

definition next_bignum :: "bn_malloc \<Rightarrow> nat list \<Rightarrow> bn_state \<Rightarrow> bool \<times> bn_state" where
  "next_bignum m xs s =
     (if used (ctx s) = length xs then
        (case BN_new m s of
           (None, s) \<Rightarrow> (False, s)
         | (Some x, s) \<Rightarrow> push_bignum m x xs s)
      else (True, s))"

definition BN_CTX_get :: "bn_malloc \<Rightarrow> bn_state \<Rightarrow> nat option bn_result" where
  "BN_CTX_get m s =
     (if ctx_error (ctx s) then
        Some (None, if defer_error (ctx s) then set_ctx (ctx s\<lparr>defer_error := False\<rparr>) s else s)
      else
        (let (ok, s) = (if bignums (ctx s) = None then new_bignums m s else (True, s)) in
         if \<not> ok then Some (None, ctx_fail s)
         else
           (let (ok, s) = next_bignum m (the (bignums (ctx s))) s in
            if \<not> ok then Some (None, ctx_fail s)
            else do {
              check (used (ctx s) < length (the (bignums (ctx s))));
              let ret = the (bignums (ctx s)) ! used (ctx s);
              let s = BN_zero ret s;
              Some (Some ret, set_ctx (ctx s\<lparr>used := used (ctx s) + 1\<rparr>) s)
            })))"

section \<open>Products\<close>

text \<open>Storing a result and its scratch array.\<close>

definition write_product :: "nat \<Rightarrow> u64 list \<Rightarrow> nat \<Rightarrow> u64 list \<Rightarrow> bn_state \<Rightarrow> bn_state option" where
  "write_product rr ws t ts s = do {
     s \<leftarrow> write_words t 0 ts s;
     write_words rr 0 ws s
   }"

definition mul_karatsuba :: "bn_malloc \<Rightarrow> nat \<Rightarrow> nat \<Rightarrow> nat \<Rightarrow> bn_state \<Rightarrow> bool bn_result" where
  "mul_karatsuba m rr a b s = (
     let al = width (num s a); bl = width (num s b);
         j = 2 ^ (BN_num_bits_word (of_nat (if al \<ge> bl then al else bl)) - 1) in
     do {
       check (j \<le> al \<or> j \<le> bl);
       (t, s) \<leftarrow> BN_CTX_get m s;
       case t of
         None \<Rightarrow> Some (False, s)
       | Some t \<Rightarrow>
           if al > j \<or> bl > j then do {
             check (al \<ge> j \<and> bl \<ge> j);
             (ok, s) \<leftarrow> bn_wexpand m t (j * 8) s;
             if \<not> ok then Some (False, s)
             else do {
               (ok, s) \<leftarrow> bn_wexpand m rr (j * 4) s;
               if \<not> ok then Some (False, s)
               else do {
                 r \<leftarrow> read_words rr 0 (j * 4) s;
                 as \<leftarrow> read_words a 0 al s; bs \<leftarrow> read_words b 0 bl s;
                 ts \<leftarrow> read_words t 0 (j * 8) s;
                 (ws, ts) \<leftarrow> bn_mul_part_recursive r as bs j (al - j) (bl - j) ts;
                 s \<leftarrow> write_product rr ws t ts s;
                 Some (True, set_width rr (al + bl) s)
               }
             }
           }
           else do {
             (ok, s) \<leftarrow> bn_wexpand m t (j * 4) s;
             if \<not> ok then Some (False, s)
             else do {
               (ok, s) \<leftarrow> bn_wexpand m rr (j * 2) s;
               if \<not> ok then Some (False, s)
               else do {
                 as \<leftarrow> read_words a 0 al s; bs \<leftarrow> read_words b 0 bl s;
                 ts \<leftarrow> read_words t 0 (j * 4) s;
                 (ws, ts) \<leftarrow> bn_mul_recursive as bs j (int al - int j) (int bl - int j) ts;
                 s \<leftarrow> write_product rr ws t ts s;
                 Some (True, set_width rr (al + bl) s)
               }
             }
           }
     })"

definition kMulNormalSize :: nat where "kMulNormalSize = 16"

definition mul_into :: "bn_malloc \<Rightarrow> nat \<Rightarrow> nat \<Rightarrow> nat \<Rightarrow> bn_state \<Rightarrow> bool bn_result" where
  "mul_into m rr a b s = (
     let al = width (num s a); bl = width (num s b) in
     if al = bl \<and> al = 8 then do {
       (ok, s) \<leftarrow> bn_wexpand m rr 16 s;
       if \<not> ok then Some (False, s)
       else do {
         as \<leftarrow> read_words a 0 8 s; bs \<leftarrow> read_words b 0 8 s;
         s \<leftarrow> write_words rr 0 (bn_mul_comba8 as bs) (set_width rr 16 s);
         Some (True, s)
       }
     }
     else if al \<ge> kMulNormalSize \<and> bl \<ge> kMulNormalSize \<and> al \<le> bl + 1 \<and> bl \<le> al + 1 then mul_karatsuba m rr a b s
     else do {
       (ok, s) \<leftarrow> bn_wexpand m rr (al + bl) s;
       if \<not> ok then Some (False, s)
       else do {
         let s = set_width rr (al + bl) s;
         as \<leftarrow> read_words a 0 al s; bs \<leftarrow> read_words b 0 bl s;
         s \<leftarrow> write_words rr 0 (bn_mul_normal as bs) s;
         Some (True, s)
       }
     })"

definition bn_mul_impl :: "bn_malloc \<Rightarrow> nat \<Rightarrow> nat \<Rightarrow> nat \<Rightarrow> bn_state \<Rightarrow> bool bn_result" where
  "bn_mul_impl m r a b s =
     (if width (num s a) = 0 \<or> width (num s b) = 0 then Some (True, BN_zero r s)
      else do {
        let s = BN_CTX_start m s;
        (rr, s) \<leftarrow> (if r = a \<or> r = b then BN_CTX_get m s else Some (Some r, s));
        (ok, s) \<leftarrow> (case rr of
            None \<Rightarrow> Some (False, s)
          | Some rr \<Rightarrow> do {
              (ok, s) \<leftarrow> mul_into m rr a b (set_neg rr (neg (num s a) \<noteq> neg (num s b)) s);
              if \<not> ok then Some (False, s)
              else if r \<noteq> rr then BN_copy m r rr s
              else Some (True, s)
            });
        s \<leftarrow> BN_CTX_end s;
        Some (ok, s)
      })"

definition BN_mul :: "bn_malloc \<Rightarrow> nat \<Rightarrow> nat \<Rightarrow> nat \<Rightarrow> bn_state \<Rightarrow> bool bn_result" where
  "BN_mul m r a b s = do {
     (ok, s) \<leftarrow> bn_mul_impl m r a b s;
     Some (if ok then (True, bn_set_minimal_width r s) else (False, s))
   }"

definition bn_mul_consttime :: "bn_malloc \<Rightarrow> nat \<Rightarrow> nat \<Rightarrow> nat \<Rightarrow> bn_state \<Rightarrow> bool bn_result" where
  "bn_mul_consttime m r a b s =
     (if neg (num s a) \<or> neg (num s b) then Some (False, s) else bn_mul_impl m r a b s)"

text \<open>\<open>None\<close> is \<open>abort\<close>.\<close>

definition bn_mul_small :: "nat \<Rightarrow> u64 list \<Rightarrow> u64 list \<Rightarrow> u64 list option" where
  "bn_mul_small num_r a b =
     (if num_r \<noteq> length a + length b then None
      else if length a = 8 \<and> length b = 8 then Some (bn_mul_comba8 a b)
      else Some (bn_mul_normal a b))"

definition BN_mul_word :: "bn_malloc \<Rightarrow> nat \<Rightarrow> u64 \<Rightarrow> bn_state \<Rightarrow> bool bn_result" where
  "BN_mul_word m r w s =
     (if width (num s r) = 0 then Some (True, s)
      else if w = 0 then Some (True, BN_zero r s)
      else do {
        as \<leftarrow> read_words r 0 (width (num s r)) s;
        let (rs, ll) = bn_mul_words as w;
        s \<leftarrow> write_words r 0 rs s;
        if ll \<noteq> 0 then do {
          (ok, s) \<leftarrow> bn_wexpand m r (width (num s r) + 1) s;
          if \<not> ok then Some (False, s)
          else do {
            s \<leftarrow> write_words r (width (num s r)) [ll] s;
            Some (True, set_width r (width (num s r) + 1) s)
          }
        }
        else Some (True, s)
      })"

section \<open>Squares\<close>

definition sqr_into :: "bn_malloc \<Rightarrow> nat \<Rightarrow> nat \<Rightarrow> nat \<Rightarrow> bn_state \<Rightarrow> bool bn_result" where
  "sqr_into m rr a tmp s = (let al = width (num s a) in do {
     (ok, s) \<leftarrow> bn_wexpand m rr (2 * al) s;
     if \<not> ok then Some (False, s)
     else do {
       as \<leftarrow> read_words a 0 al s;
       (ok, s) \<leftarrow>
         (if al = 4 then map_option (Pair True) (write_words rr 0 (bn_sqr_comba4 as) s)
          else if al = 8 then map_option (Pair True) (write_words rr 0 (bn_sqr_comba8 as) s)
          else if al < BN_SQR_RECURSIVE_SIZE_NORMAL then map_option (Pair True) (write_words rr 0 (bn_sqr_normal as) s)
          else if al \<noteq> 0 \<and> al AND (al - 1) = 0 then do {
            (ok, s) \<leftarrow> bn_wexpand m tmp (al * 4) s;
            if \<not> ok then Some (False, s)
            else do {
              ts \<leftarrow> read_words tmp 0 (al * 4) s;
              (ws, ts) \<leftarrow> bn_sqr_recursive as al ts;
              map_option (Pair True) (write_product rr ws tmp ts s)
            }
          }
          else do {
            (ok, s) \<leftarrow> bn_wexpand m tmp (2 * al) s;
            if \<not> ok then Some (False, s)
            else map_option (Pair True) (write_product rr (bn_sqr_normal as) tmp (bn_sqr_words as) s)
          });
       if \<not> ok then Some (False, s)
       else Some (True, set_width rr (2 * al) (set_neg rr False s))
     }
   })"

definition bn_sqr_consttime :: "bn_malloc \<Rightarrow> nat \<Rightarrow> nat \<Rightarrow> bn_state \<Rightarrow> bool bn_result" where
  "bn_sqr_consttime m r a s =
     (if width (num s a) = 0 then Some (True, set_neg r False (set_width r 0 s))
      else do {
        let s = BN_CTX_start m s;
        (rr, s) \<leftarrow> (if a \<noteq> r then Some (Some r, s) else BN_CTX_get m s);
        (tmp, s) \<leftarrow> BN_CTX_get m s;
        (ok, s) \<leftarrow> (case (rr, tmp) of
            (Some rr, Some tmp) \<Rightarrow> do {
              (ok, s) \<leftarrow> sqr_into m rr a tmp s;
              if \<not> ok then Some (False, s)
              else if rr \<noteq> r then BN_copy m r rr s
              else Some (True, s)
            }
          | _ \<Rightarrow> Some (False, s));
        s \<leftarrow> BN_CTX_end s;
        Some (ok, s)
      })"

definition BN_sqr :: "bn_malloc \<Rightarrow> nat \<Rightarrow> nat \<Rightarrow> bn_state \<Rightarrow> bool bn_result" where
  "BN_sqr m r a s = do {
     (ok, s) \<leftarrow> bn_sqr_consttime m r a s;
     Some (if ok then (True, bn_set_minimal_width r s) else (False, s))
   }"

definition bn_sqr_small :: "nat \<Rightarrow> u64 list \<Rightarrow> u64 list option" where
  "bn_sqr_small num_r a =
     (if num_r \<noteq> 2 * length a \<or> length a > 9 then None
      else if length a = 4 then Some (bn_sqr_comba4 a)
      else if length a = 8 then Some (bn_sqr_comba8 a)
      else Some (bn_sqr_normal a))"

end
