(* ===== verification/BnAddRef.thy ===== *)
theory BnAddRef
  imports BnState
begin

text \<open>Comparison, addition and subtraction compute on the numbers the objects stand for.\<close>

section \<open>Comparison\<close>

lemma base_step: "unat (a :: u64) + 2 ^ 64 * x < unat (b :: u64) + 2 ^ 64 * y \<longleftrightarrow> x < y \<or> (x = y \<and> a < b)"
proof -
  define B where "B = (2 ^ 64 :: nat)"
  have l: "unat a < B" "unat b < B" unfolding B_def by (rule unat_u64)+
  have "unat a + B * x < unat b + B * y \<longleftrightarrow> x < y \<or> (x = y \<and> unat a < unat b)"
  proof (cases x y rule: linorder_cases)
    case less
    then have "B * (x + 1) \<le> B * y" by (intro mult_left_mono) simp_all
    then show ?thesis using l less by simp
  next
    case greater
    then have "B * (y + 1) \<le> B * x" by (intro mult_left_mono) simp_all
    then show ?thesis using l greater by simp
  qed simp
  then show ?thesis by (simp add: B_def word_less_nat_alt)
qed

lemma low_ones: "(ucast (- 1 :: u64) :: u32) = - 1"
  by (rule bit_word_eqI) (simp add: bit_simps)

lemma select_int:
  assumes "x \<in> {- 1, 0, 1}" and "y \<in> {- 1, 0, 1}"
  shows "constant_time_select_int (mask_w c) x y = (if c then x else y)"
  using assms by (auto simp: constant_time_select_int_def select_word low_ones)

lemma sgn_cases: "sgn (x :: int) \<in> {- 1, 0, 1}"
  by (simp add: sgn_if)

lemma sgn_diff: "sgn (int x - int y) = (if x < y then - 1 else if x = y then 0 else 1)"
  by (simp add: sgn_if)

lemma cmp_step:
  "(if nat_of as = nat_of bs then if a = b then ret else if a < b then - 1 else 1
    else sgn (int (nat_of as) - int (nat_of bs))) =
   (if nat_of (a # as) = nat_of (b # bs) then ret else sgn (int (nat_of (a # as)) - int (nat_of (b # bs))))"
proof -
  define x y where "x = nat_of (a # as)" and "y = nat_of (b # bs)"
  have l: "x < y \<longleftrightarrow> nat_of as < nat_of bs \<or> (nat_of as = nat_of bs \<and> a < b)"
    "y < x \<longleftrightarrow> nat_of bs < nat_of as \<or> (nat_of bs = nat_of as \<and> b < a)"
    unfolding x_def y_def nat_of.simps by (rule base_step)+
  show ?thesis unfolding x_def [symmetric] y_def [symmetric] sgn_diff
    using l by (cases "nat_of as" "nat_of bs" rule: linorder_cases; cases a b rule: linorder_cases) auto
qed

lemma cmp_loop:
  "length as = length bs \<Longrightarrow> ret \<in> {- 1, 0, 1} \<Longrightarrow>
   cmp_loop ret as bs = (if nat_of as = nat_of bs then ret else sgn (int (nat_of as) - int (nat_of bs)))"
proof (induction as bs arbitrary: ret rule: list_induct2)
  case (Cons a as b bs)
  let ?r = "if a = b then ret else if a < b then - 1 else 1"
  have "cmp_loop ret (a # as) (b # bs) = cmp_loop ?r as bs"
    using Cons(3) by (simp add: Let_def eq_word lt_word select_int)
  also have "\<dots> = (if nat_of as = nat_of bs then ?r else sgn (int (nat_of as) - int (nat_of bs)))"
    using Cons(3) by (intro Cons(2)) auto
  also have "\<dots> = (if nat_of (a # as) = nat_of (b # bs) then ret else sgn (int (nat_of (a # as)) - int (nat_of (b # bs))))"
    by (rule cmp_step)
  finally show ?case .
qed simp

lemma cmp_longer:
  assumes "length as \<le> length bs" "nat_of (drop (length as) bs) = 0"
  shows "nat_of (take (length as) bs) = nat_of bs"
  using nat_of_split [of "length as" bs] assms by simp

lemma cmp_above:
  assumes "length as \<le> length bs" "nat_of (drop (length as) bs) \<noteq> 0"
  shows "nat_of as < nat_of bs"
proof -
  have "base (length as) * 1 \<le> base (length as) * nat_of (drop (length as) bs)"
    using assms(2) by (intro mult_left_mono) simp_all
  then show ?thesis using nat_of_split [OF assms(1)] nat_of_less [of as] by linarith
qed

lemma cmp_words: "bn_cmp_words_consttime a b = sgn (int (nat_of a) - int (nat_of b))"
proof -
  let ?n = "min (length a) (length b)"
  have c: "cmp_loop 0 (take ?n a) (take ?n b) = sgn (int (nat_of (take ?n a)) - int (nat_of (take ?n b)))"
    using cmp_loop [of "take ?n a" "take ?n b" 0] by simp
  show ?thesis
  proof (cases "length a" "length b" rule: linorder_cases)
    case less
    then show ?thesis
      using c cmp_longer [of a b] cmp_above [of a b]
      by (auto simp: bn_cmp_words_consttime_def Let_def is_zero_word or_words_zero select_int sgn_cases sgn_if)
  next
    case greater
    then show ?thesis
      using c cmp_longer [of b a] cmp_above [of b a]
      by (simp add: bn_cmp_words_consttime_def Let_def is_zero_word or_words_zero select_int sgn_cases sgn_if)
  qed (use c in \<open>simp add: bn_cmp_words_consttime_def\<close>)
qed

lemma ucmp: "BN_ucmp a b = sgn (int (magnitude a) - int (magnitude b))"
  by (simp add: BN_ucmp_def cmp_words magnitude_def)

section \<open>Memory\<close>

text \<open>As \<open>wexpand_cases\<close>, with what is known of every object.\<close>

lemma wexpand_all:
  assumes "bn_ok (num s r)" and "bn_malloc_ok m"
  obtains s' where "bn_wexpand m r n s = Some (True, s')" and "only r s s'" and "n \<le> length (words (num s' r))"
      and "\<And>x. bn_ok (num s x) \<Longrightarrow> grown (num s x) (num s' x) 0" and "\<not> cannot_grow m s r n"
  | s' where "bn_wexpand m r n s = Some (False, s')" and "num s' = num s" and "only r s s'" and "cannot_grow m s r n"
proof (rule wexpand_cases [OF assms, of n])
  fix s' assume s': "bn_wexpand m r n s = Some (True, s')" "only r s s'" "grown (num s r) (num s' r) n" "\<not> cannot_grow m s r n"
  have "grown (num s x) (num s' x) 0" if "bn_ok (num s x)" for x
    using s' that by (cases "x = r") (simp_all add: grown_def only_def)
  then show thesis using that(1) [OF s'(1,2)] s'(3,4) by (simp add: grown_def)
qed (rule that(2))

lemma read_set [simp]:
  "read_words a i n (set_width r k s) = read_words a i n s" "read_words a i n (set_neg r b s) = read_words a i n s"
  by (simp_all add: read_words_def)

lemma read_grown:
  assumes "grown (num s a) (num s' a) k" and "bn_ok (num s a)"
  shows "read_words a 0 (width (num s a)) s' = Some (used_words (num s a))"
  using assms by (auto simp: grown_def bn_ok_def used_words_def read_words_ok)

lemma read_used:
  "bn_ok (num s a) \<Longrightarrow> n \<le> width (num s a) \<Longrightarrow> read_words a 0 n s = Some (take n (used_words (num s a)))"
  by (simp add: read_words_ok bn_ok_def used_words_def min_absorb1)

text \<open>Storing the words of a result.\<close>

lemma write_result:
  assumes "bn_ok (num s r)" and "length ws \<le> length (words (num s r))"
  obtains s' where "write_words r 0 ws s = Some s'" and "only r s s'" and "take (length ws) (words (num s' r)) = ws"
    and "length (words (num s' r)) = length (words (num s r))" and "width (num s' r) = width (num s r)"
    and "neg (num s' r) = neg (num s r)" and "bn_ok (num s' r)"
  by (rule that [OF write_words_ok]) (use assms in \<open>auto simp: bn_ok_def\<close>)

section \<open>Addition of magnitudes\<close>

lemma uadd_value:
  assumes "length bs \<le> length as"
    and "bn_add_words (take (length bs) as) bs = (low, c)" "propagate c (drop (length bs) as) = (high, c')"
  shows "length (low @ high @ [c']) = length as + 1" "nat_of (low @ high @ [c']) = nat_of as + nat_of bs"
proof -
  note l = bn_add_words_value [OF _ assms(2)] and h = propagate_value [OF assms(3)]
  have ll: "length low = length bs" "nat_of low + base (length bs) * unat c = nat_of (take (length bs) as) + nat_of bs"
    using l assms(1) by simp_all
  show "length (low @ high @ [c']) = length as + 1" using ll(1) h assms(1) by simp
  have "base (length bs) * (nat_of high + base (length high) * unat c') = base (length bs) * (nat_of (drop (length bs) as) + unat c)"
    using h by simp
  then show "nat_of (low @ high @ [c']) = nat_of as + nat_of bs"
    using ll nat_of_split [OF assms(1)] by (simp add: nat_of_append distrib_left)
qed

lemma uadd_swap:
  "width (num s a) < width (num s b) \<Longrightarrow> bn_uadd_consttime m r a b s = bn_uadd_consttime m r b a s"
  by (simp add: bn_uadd_consttime_def)

lemma uadd_longer:
  assumes "bn_ok (num s r)" "bn_ok (num s a)" "bn_ok (num s b)" and "bn_malloc_ok m"
    and "width (num s b) \<le> width (num s a)"
  obtains s' where "bn_uadd_consttime m r a b s = Some (True, s')" and "only r s s'" and "bn_ok (num s' r)"
      and "magnitude (num s' r) = magnitude (num s a) + magnitude (num s b)" and "neg (num s' r) = neg (num s r)"
      and "width (num s' r) = width (num s a) + 1" and "\<not> cannot_grow m s r (width (num s a) + 1)"
  | s' where "bn_uadd_consttime m r a b s = Some (False, s')" and "num s' = num s" and "only r s s'"
      and "cannot_grow m s r (width (num s a) + 1)"
proof (rule wexpand_all [OF assms(1,4), of "width (num s a) + 1"])
  fix s1 assume "bn_wexpand m r (width (num s a) + 1) s = Some (False, s1)" "num s1 = num s" "only r s s1"
    "cannot_grow m s r (width (num s a) + 1)"
  then show thesis using that(2) [of s1] assms(5) by (simp add: bn_uadd_consttime_def Let_def)
next
  let ?n = "width (num s a)" and ?k = "width (num s b)"
  let ?as = "used_words (num s a)" and ?bs = "used_words (num s b)"
  fix s1 assume s1: "bn_wexpand m r (?n + 1) s = Some (True, s1)" "only r s s1" "?n + 1 \<le> length (words (num s1 r))"
    and g: "\<And>x. bn_ok (num s x) \<Longrightarrow> grown (num s x) (num s1 x) 0" and room: "\<not> cannot_grow m s r (?n + 1)"
  obtain low c where low: "bn_add_words (take ?k ?as) ?bs = (low, c)" by fastforce
  obtain high c' where high: "propagate c (drop ?k ?as) = (high, c')" by fastforce
  have l: "length ?as = ?n" "length ?bs = ?k" using assms(2,3) by (simp_all add: length_used)
  note v = uadd_value [of ?bs ?as, unfolded l, OF assms(5) low high]
  note ga = g [OF assms(2)] and gb = g [OF assms(3)] and gr = g [OF assms(1)]
  have ra: "read_words a 0 ?n (set_width r (?n + 1) s1) = Some ?as"
    using read_grown [OF ga assms(2)] by simp
  have rb: "read_words b 0 ?k (set_width r (?n + 1) s1) = Some ?bs"
    using read_grown [OF gb assms(3)] by simp
  have ok: "bn_ok (num (set_width r (?n + 1) s1) r)" using gr s1(3) by (simp add: bn_ok_def grown_def)
  have len: "length (low @ high @ [c']) \<le> length (words (num (set_width r (?n + 1) s1) r))" using v(1) s1(3) by simp
  obtain s2 where s2: "write_words r 0 (low @ high @ [c']) (set_width r (?n + 1) s1) = Some s2"
    "only r (set_width r (?n + 1) s1) s2" "take (?n + 1) (words (num s2 r)) = low @ high @ [c']"
    "width (num s2 r) = ?n + 1" "neg (num s2 r) = neg (num s r)" "bn_ok (num s2 r)"
    using write_result [OF ok len] v(1) gr by (simp add: grown_def) (metis s1(1))
  have "bn_uadd_consttime m r a b s = Some (True, s2)"
    using assms(5) s1(1) ra rb low high s2(1) l by (simp add: bn_uadd_consttime_def Let_def)
  moreover have "only r s s2" by (rule only_trans [OF s1(2)]) (rule only_trans [OF only_set(2) s2(2)])
  moreover have "magnitude (num s2 r) = magnitude (num s a) + magnitude (num s b)"
    using s2(3,4) v(2) by (simp add: magnitude_def used_words_def)
  ultimately show thesis using that(1) s2 room by blast
qed

lemma uadd_consttime:
  assumes "bn_ok (num s r)" "bn_ok (num s a)" "bn_ok (num s b)" and "bn_malloc_ok m"
  obtains s' where "bn_uadd_consttime m r a b s = Some (True, s')" and "only r s s'" and "bn_ok (num s' r)"
      and "magnitude (num s' r) = magnitude (num s a) + magnitude (num s b)" and "neg (num s' r) = neg (num s r)"
      and "width (num s' r) = max (width (num s a)) (width (num s b)) + 1"
      and "\<not> cannot_grow m s r (max (width (num s a)) (width (num s b)) + 1)"
  | s' where "bn_uadd_consttime m r a b s = Some (False, s')" and "num s' = num s" and "only r s s'"
      and "cannot_grow m s r (max (width (num s a)) (width (num s b)) + 1)"
proof (cases "width (num s a) < width (num s b)")
  case True
  show thesis
  proof (rule uadd_longer [OF assms(1,3,2,4) less_imp_le [OF True]])
    fix s' assume "bn_uadd_consttime m r b a s = Some (True, s')" "only r s s'" "bn_ok (num s' r)"
      "magnitude (num s' r) = magnitude (num s b) + magnitude (num s a)" "neg (num s' r) = neg (num s r)"
      "width (num s' r) = width (num s b) + 1" "\<not> cannot_grow m s r (width (num s b) + 1)"
    then show thesis using that(1) [of s'] uadd_swap [OF True] True by (simp add: max_def)
  next
    fix s' assume "bn_uadd_consttime m r b a s = Some (False, s')" "num s' = num s" "only r s s'"
      "cannot_grow m s r (width (num s b) + 1)"
    then show thesis using that(2) [of s'] uadd_swap [OF True] True by (simp add: max_def)
  qed
next
  case False
  then have "width (num s b) \<le> width (num s a)" by simp
  then show thesis using uadd_longer [OF assms] that by (metis max.absorb1)
qed

section \<open>Subtraction of magnitudes\<close>

lemma tail_step:
  fixes a c :: u64
  assumes "unat c \<le> 1"
  shows "unat (a - c) + unat c = unat a + 2 ^ 64 * unat (if a < a - c then 1 else 0 :: u64)"
  using unat_diff_wrap [of a c] unat_u64 [of a] assms by (auto simp: word_less_nat_alt)

lemma sub_tail_value:
  "unat c \<le> 1 \<Longrightarrow> sub_tail c as = (xs, c') \<Longrightarrow>
   length xs = length as \<and> unat c' \<le> 1 \<and> nat_of xs + unat c = nat_of as + base (length as) * unat c'"
proof (induction as arbitrary: c xs c')
  case (Cons a as)
  let ?c = "if a < a - c then 1 else (0 :: u64)"
  obtain ys c2 where ys: "sub_tail ?c as = (ys, c2)" by fastforce
  have r: "xs = (a - c) # ys" "c' = c2" using Cons(3) ys by (simp_all add: Let_def)
  have i: "length ys = length as" "unat c2 \<le> 1" "nat_of ys + unat ?c = nat_of as + base (length as) * unat c2"
    using Cons(1) [OF _ ys] by simp_all
  define B where "B = (2 ^ 64 :: nat)"
  have "B * (nat_of ys + unat ?c) = B * (nat_of as + base (length as) * unat c2)" using i(3) by simp
  moreover have "unat (a - c) + unat c = unat a + B * unat ?c" unfolding B_def by (rule tail_step [OF Cons(2)])
  ultimately have "unat (a - c) + B * nat_of ys + unat c = unat a + B * nat_of as + B * base (length as) * unat c2"
    by (simp only: distrib_left mult.assoc)
  then show ?case using i(1,2) unfolding r nat_of.simps list.size base_Suc B_def by (simp add: power_add)
qed simp

lemma usub_value:
  assumes "length bs \<le> length as"
    and "bn_sub_words (take (length bs) as) bs = (low, c)" "sub_tail c (drop (length bs) as) = (high, c')"
  shows "length (low @ high) = length as" "nat_of (low @ high) + nat_of bs = nat_of as + base (length as) * unat c'"
    "unat c' \<le> 1"
proof -
  have ll: "length low = length bs" "unat c \<le> 1"
    "nat_of low + nat_of bs = nat_of (take (length bs) as) + base (length bs) * unat c"
    using bn_sub_words_value [OF _ assms(2)] assms(1) by simp_all
  note h = sub_tail_value [OF ll(2) assms(3)]
  show "length (low @ high) = length as" "unat c' \<le> 1" using ll(1) h assms(1) by simp_all
  have "base (length bs) * (nat_of high + unat c) =
    base (length bs) * (nat_of (drop (length bs) as) + base (length as - length bs) * unat c')"
    using h by simp
  moreover have "base (length as) = base (length bs) * base (length as - length bs)"
    using assms(1) by (simp flip: power_add)
  ultimately show "nat_of (low @ high) + nat_of bs = nat_of as + base (length as) * unat c'"
    using ll nat_of_split [OF assms(1)] by (simp only: nat_of_append distrib_left mult.assoc)
qed

text \<open>The part of the subtrahend that is used has its value.\<close>

lemma usub_used:
  assumes "bn_ok b" and "n < width b \<Longrightarrow> bn_fits_in_words b n"
  shows "nat_of (take (min (width b) n) (used_words b)) = magnitude b"
proof (cases "n < width b")
  case True
  then show ?thesis using assms nat_of_split [of n "used_words b"] by (simp add: fits_in_words length_used magnitude_def)
next
  case False
  then show ?thesis using assms by (simp add: magnitude_def length_used)
qed

lemma usub_run:
  assumes "bn_ok (num s r)" "bn_ok (num s a)" "bn_ok (num s b)" and "bn_malloc_ok m"
    and "width (num s a) < width (num s b) \<Longrightarrow> bn_fits_in_words (num s b) (width (num s a))"
  obtains s' where "bn_usub_consttime m r a b s = Some (True, s')" and "only r s s'" and "bn_ok (num s' r)"
      and "magnitude (num s' r) + magnitude (num s b) = magnitude (num s a)" and "\<not> neg (num s' r)"
      and "width (num s' r) = width (num s a)" and "\<not> cannot_grow m s r (width (num s a))"
  | s' where "bn_usub_consttime m r a b s = Some (False, s')" and "only r s s'"
      and "cannot_grow m s r (width (num s a))" and "num s' = num s"
  | s' where "bn_usub_consttime m r a b s = Some (False, s')" and "only r s s'"
      and "magnitude (num s a) < magnitude (num s b)"
proof (rule wexpand_all [OF assms(1,4), of "width (num s a)"])
  fix s1 assume s1: "bn_wexpand m r (width (num s a)) s = Some (False, s1)" "num s1 = num s" "only r s s1"
    "cannot_grow m s r (width (num s a))"
  have f: "\<not> (width (num s a) < width (num s b) \<and> \<not> bn_fits_in_words (num s b) (width (num s a)))"
    using assms(5) by blast
  have "bn_usub_consttime m r a b s = Some (False, s1)"
    unfolding bn_usub_consttime_def Let_def if_not_P [OF f] using s1 by simp
  then show thesis using that(2) [of s1] s1 by simp
next
  let ?n = "width (num s a)" and ?k = "min (width (num s b)) (width (num s a))"
  let ?as = "used_words (num s a)" and ?bs = "take ?k (used_words (num s b))"
  fix s1 assume s1: "bn_wexpand m r ?n s = Some (True, s1)" "only r s s1" "?n \<le> length (words (num s1 r))"
    and g: "\<And>x. bn_ok (num s x) \<Longrightarrow> grown (num s x) (num s1 x) 0" and room: "\<not> cannot_grow m s r ?n"
  have l: "length ?as = ?n" "length ?bs = ?k" using assms(2,3) by (simp_all add: length_used)
  obtain low c where low: "bn_sub_words (take ?k ?as) ?bs = (low, c)" by fastforce
  obtain high c' where high: "sub_tail c (drop ?k ?as) = (high, c')" by fastforce
  have k: "?k \<le> ?n" by simp
  note v = usub_value [of ?bs ?as, unfolded l, OF k low high]
  have vb: "nat_of ?bs = magnitude (num s b)" by (rule usub_used [OF assms(3,5)])
  have ra: "read_words a 0 ?n s1 = Some ?as" by (rule read_grown [OF g [OF assms(2)] assms(2)])
  have gb: "grown (num s b) (num s1 b) 0" by (rule g [OF assms(3)])
  then have rb: "read_words b 0 ?k s1 = Some ?bs" by (simp add: read_used grown_def)
  have ok: "bn_ok (num s1 r)" using g [OF assms(1)] by (simp add: grown_def)
  have len: "length (low @ high) \<le> length (words (num s1 r))" using v(1) s1(3) by simp
  obtain s2 where s2: "write_words r 0 (low @ high) s1 = Some s2"
    "only r s1 s2" "take ?n (words (num s2 r)) = low @ high" "length (words (num s2 r)) = length (words (num s1 r))"
    "bn_ok (num s2 r)"
    using write_result [OF ok len] v(1) by metis
  have run: "bn_usub_consttime m r a b s =
    (if c' \<noteq> 0 then Some (False, s2) else Some (True, set_neg r False (set_width r ?n s2)))"
    using assms(5) s1(1) ra rb low high s2(1) l by (auto simp: bn_usub_consttime_def Let_def)
  have o: "only r s s2" by (rule only_trans [OF s1(2) s2(2)])
  show thesis
  proof (cases "c' = 0")
    case True
    let ?s = "set_neg r False (set_width r ?n s2)"
    have "only r s ?s" by (rule only_trans [OF o]) (simp add: only_trans [OF only_set(2) only_set(3)])
    moreover have "bn_ok (num ?s r)" using s2(4,5) s1(3) by (simp add: bn_ok_def)
    moreover have "magnitude (num ?s r) + magnitude (num s b) = magnitude (num s a)"
      using s2(3) v(2) True vb by (simp add: magnitude_def used_words_def)
    ultimately show thesis using that(1) [of ?s] run True room by simp
  next
    case False
    then have c: "unat c' = 1" using v(3) unat_eq_0 [of c'] by linarith
    have "nat_of (low @ high) < base ?n" using nat_of_less [of "low @ high"] unfolding v(1) .
    then have "magnitude (num s a) < magnitude (num s b)" using v(2) vb c by (simp add: magnitude_def)
    then show thesis using that(3) [of s2] run False o by simp
  qed
qed

lemma not_fits_above:
  assumes "bn_ok a" "bn_ok b" "width a < width b" "\<not> bn_fits_in_words b (width a)"
  shows "magnitude a < magnitude b"
  using assms cmp_above [of "used_words a" "used_words b"] by (simp add: fits_in_words length_used magnitude_def)

lemma usub_consttime:
  assumes "bn_ok (num s r)" "bn_ok (num s a)" "bn_ok (num s b)" and "bn_malloc_ok m"
    and "magnitude (num s b) \<le> magnitude (num s a)"
  obtains s' where "bn_usub_consttime m r a b s = Some (True, s')" and "only r s s'" and "bn_ok (num s' r)"
      and "magnitude (num s' r) + magnitude (num s b) = magnitude (num s a)" and "\<not> neg (num s' r)"
      and "width (num s' r) = width (num s a)" and "\<not> cannot_grow m s r (width (num s a))"
  | s' where "bn_usub_consttime m r a b s = Some (False, s')" and "only r s s'"
      and "cannot_grow m s r (width (num s a))" and "num s' = num s"
proof (rule usub_run [OF assms(1-4)])
  show "bn_fits_in_words (num s b) (width (num s a))" if "width (num s a) < width (num s b)"
    using not_fits_above [OF assms(2,3) that] assms(5) by linarith
qed (use that assms(5) in auto)

text \<open>A larger subtrahend is refused.\<close>

lemma usub_refused:
  assumes "bn_ok (num s r)" "bn_ok (num s a)" "bn_ok (num s b)" and "bn_malloc_ok m"
    and "magnitude (num s a) < magnitude (num s b)"
  obtains s' where "bn_usub_consttime m r a b s = Some (False, s')" and "only r s s'"
proof (cases "width (num s a) < width (num s b) \<and> \<not> bn_fits_in_words (num s b) (width (num s a))")
  case True
  then show thesis using that [of s] by (simp add: bn_usub_consttime_def Let_def)
next
  case False
  show thesis
    by (rule usub_run [OF assms(1-4)]) (use False that assms(5) in auto)
qed

end
