(* ===== verification/BnAddThms.thy ===== *)
theory BnAddThms
  imports BnAddRef
begin

text \<open>Properties of comparison, addition and subtraction.\<close>

section \<open>Results\<close>

definition no_negative_zero :: "bignum \<Rightarrow> bool" where
  "no_negative_zero b \<longleftrightarrow> (neg b \<longrightarrow> magnitude b \<noteq> 0)"

text \<open>
  What a call with the result \<open>x\<close> in \<open>r\<close> leaves that needs room for \<open>n\<close> words: the number \<open>x\<close> in its
  normal form; or, exactly if \<open>r\<close> has no room for \<open>n\<close> words and cannot get it, the words as they were.
  Only \<open>r\<close> changes.
\<close>

definition leaves :: "bn_malloc \<Rightarrow> nat \<Rightarrow> nat \<Rightarrow> int \<Rightarrow> bn_state \<Rightarrow> bool bn_result \<Rightarrow> bool" where
  "leaves m r n x s result \<longleftrightarrow> (case result of
     None \<Rightarrow> False
   | Some (ok, s') \<Rightarrow> only r s s' \<and> bn_ok (num s' r) \<and> (ok \<longleftrightarrow> \<not> cannot_grow m s r n) \<and>
       (if ok then normal (num s' r) \<and> bn_val (num s' r) = x
        else used_words (num s' r) = used_words (num s r)))"

text \<open>
  The words that sums and differences need: one more than the wider argument where magnitudes are
  added, those of the argument of the larger magnitude where they are subtracted.
\<close>

definition difference_words :: "bignum \<Rightarrow> bignum \<Rightarrow> nat" where
  "difference_words a b = (if magnitude a < magnitude b then width b else width a)"

definition sum_words :: "bignum \<Rightarrow> bignum \<Rightarrow> bool \<Rightarrow> nat" where
  "sum_words a b sign = (if neg a = sign then max (width a) (width b) + 1
     else if neg a then difference_words b a else difference_words a b)"

lemma leaves_room:
  assumes "leaves m r n x s result" and "\<not> cannot_grow m s r n"
  shows "\<exists>s'. result = Some (True, s') \<and> only r s s' \<and> normal (num s' r) \<and> bn_val (num s' r) = x"
  using assms by (auto simp: leaves_def split: option.splits)

lemma leaves_refused:
  assumes "leaves m r n x s result" and "cannot_grow m s r n"
  shows "\<exists>s'. result = Some (False, s') \<and> used_words (num s' r) = used_words (num s r)"
  using assms by (auto simp: leaves_def split: option.splits)

lemma normal_set_neg:
  assumes "bn_ok b" "normal b" "n \<Longrightarrow> magnitude b \<noteq> 0"
  shows "normal (b\<lparr>neg := n\<rparr>)" "bn_val (b\<lparr>neg := n\<rparr>) = (if n then - int (magnitude b) else int (magnitude b))"
  using assms normal_zero [OF assms(2,1)]
  by (auto simp: normal_def bn_val_def magnitude_def used_words_def)

lemma bn_ok_set_neg [simp]: "bn_ok (b\<lparr>neg := n\<rparr>) = bn_ok b"
  by (simp add: bn_ok_def)

lemma magnitude_set_neg [simp]: "magnitude (b\<lparr>neg := n\<rparr>) = magnitude b"
  by (simp add: magnitude_def used_words_def)

lemma used_words_set_neg [simp]: "used_words (b\<lparr>neg := n\<rparr>) = used_words b"
  by (simp add: used_words_def)

lemma abs_bn_val: "\<bar>bn_val b\<bar> = int (magnitude b)"
  by (simp add: bn_val_def)

lemma only_set_neg: "only r s s' \<Longrightarrow> only r s (set_neg r n s')"
  by (rule only_trans [OF _ only_set(3)])

section \<open>Magnitudes\<close>

lemma uadd:
  assumes "bn_ok (num s r)" "bn_ok (num s a)" "bn_ok (num s b)" and "bn_malloc_ok m"
  obtains s' where "BN_uadd m r a b s = Some (True, s')" and "only r s s'" and "bn_ok (num s' r)" and "normal (num s' r)"
      and "magnitude (num s' r) = magnitude (num s a) + magnitude (num s b)"
      and "\<not> cannot_grow m s r (max (width (num s a)) (width (num s b)) + 1)"
  | s' where "BN_uadd m r a b s = Some (False, s')" and "num s' = num s" and "only r s s'"
      and "cannot_grow m s r (max (width (num s a)) (width (num s b)) + 1)"
proof (rule uadd_consttime [OF assms])
  fix s1 assume s1: "bn_uadd_consttime m r a b s = Some (True, s1)" "only r s s1" "bn_ok (num s1 r)"
    "magnitude (num s1 r) = magnitude (num s a) + magnitude (num s b)"
    "\<not> cannot_grow m s r (max (width (num s a)) (width (num s b)) + 1)"
  show thesis
    by (rule that(1) [of "bn_set_minimal_width r s1"])
      (use s1 in \<open>simp_all add: BN_uadd_def set_minimal_width only_trans [OF s1(2)]\<close>)
next
  fix s1 assume s1: "bn_uadd_consttime m r a b s = Some (False, s1)" "num s1 = num s" "only r s s1"
    "cannot_grow m s r (max (width (num s a)) (width (num s b)) + 1)"
  show thesis by (rule that(2) [of s1]) (use s1 in \<open>simp_all add: BN_uadd_def\<close>)
qed

lemma usub:
  assumes "bn_ok (num s r)" "bn_ok (num s a)" "bn_ok (num s b)" and "bn_malloc_ok m"
    and "magnitude (num s b) \<le> magnitude (num s a)"
  obtains s' where "BN_usub m r a b s = Some (True, s')" and "only r s s'" and "bn_ok (num s' r)" and "normal (num s' r)"
      and "magnitude (num s' r) + magnitude (num s b) = magnitude (num s a)" and "\<not> cannot_grow m s r (width (num s a))"
  | s' where "BN_usub m r a b s = Some (False, s')" and "num s' = num s" and "only r s s'"
      and "cannot_grow m s r (width (num s a))"
proof (rule usub_consttime [OF assms])
  fix s1 assume s1: "bn_usub_consttime m r a b s = Some (True, s1)" "only r s s1" "bn_ok (num s1 r)"
    "magnitude (num s1 r) + magnitude (num s b) = magnitude (num s a)" "\<not> cannot_grow m s r (width (num s a))"
  show thesis
    by (rule that(1) [of "bn_set_minimal_width r s1"])
      (use s1 in \<open>simp_all add: BN_usub_def set_minimal_width only_trans [OF s1(2)]\<close>)
next
  fix s1 assume s1: "bn_usub_consttime m r a b s = Some (False, s1)" "only r s s1"
    "cannot_grow m s r (width (num s a))" "num s1 = num s"
  show thesis by (rule that(2) [of s1]) (use s1 in \<open>simp_all add: BN_usub_def\<close>)
qed

lemma signed_difference:
  assumes "bn_ok (num s r)" "bn_ok (num s a)" "bn_ok (num s b)" and "bn_malloc_ok m"
  shows "leaves m r (difference_words (num s a) (num s b)) (int (magnitude (num s a)) - int (magnitude (num s b))) s
    (signed_difference m r a b s)"
proof (cases "magnitude (num s a) < magnitude (num s b)")
  case True
  then have c: "BN_ucmp (num s a) (num s b) < 0" by (simp add: ucmp)
  have d: "signed_difference m r a b s = do {
    (ok, s) \<leftarrow> BN_usub m r b a s;
    Some (if ok then (True, set_neg r True s) else (False, s)) }"
    unfolding signed_difference_def if_P [OF c] ..
  show ?thesis
    by (rule usub [OF assms(1,3,2,4) less_imp_le [OF True]])
      (use assms(1) True in \<open>auto simp: d leaves_def normal_set_neg only_set_neg difference_words_def\<close>)
next
  case False
  then have c: "\<not> BN_ucmp (num s a) (num s b) < 0" by (simp add: ucmp)
  have d: "signed_difference m r a b s = do {
    (ok, s) \<leftarrow> BN_usub m r a b s;
    Some (if ok then (True, set_neg r False s) else (False, s)) }"
    unfolding signed_difference_def if_not_P [OF c] ..
  have "magnitude (num s b) \<le> magnitude (num s a)" using False by simp
  then show ?thesis
    by (rule usub [OF assms(1,2,3,4)])
      (use assms(1) False in \<open>auto simp: d leaves_def normal_set_neg only_set_neg difference_words_def\<close>)
qed

lemma same_sign:
  assumes "bn_ok (num s r)" "bn_ok (num s a)" "bn_ok (num s b)" and "bn_malloc_ok m"
    and "sign \<Longrightarrow> magnitude (num s a) + magnitude (num s b) \<noteq> 0"
  shows "leaves m r (max (width (num s a)) (width (num s b)) + 1)
    (let x = int (magnitude (num s a) + magnitude (num s b)) in if sign then - x else x) s
    (do { (ok, s) \<leftarrow> BN_uadd m r a b s; Some (ok, set_neg r sign s) })"
  by (rule uadd [OF assms(1-4)])
    (use assms(1,5) in \<open>auto simp: leaves_def normal_set_neg only_set_neg Let_def\<close>)

lemma same_sign_ok:
  assumes "bn_ok (num s r)" "bn_ok (num s a)" "bn_ok (num s b)" and "bn_malloc_ok m"
    and "sign \<Longrightarrow> magnitude (num s a) + magnitude (num s b) \<noteq> 0"
  shows "leaves m r (max (width (num s a)) (width (num s b)) + 1)
    (let x = int (magnitude (num s a) + magnitude (num s b)) in if sign then - x else x) s
    (do { (ok, s') \<leftarrow> BN_uadd m r a b s; Some (if ok then (True, set_neg r sign s') else (False, s')) })"
  by (rule uadd [OF assms(1-4)])
    (use assms(1,5) in \<open>auto simp: leaves_def normal_set_neg only_set_neg Let_def\<close>)

section \<open>The properties\<close>

text \<open>
  C39: \<open>BN_cmp\<close> orders the integers that two objects stand for, whatever their widths and leading
  zero words are: the result is the sign of the difference. Negative zeros are excluded.
\<close>

theorem BN_cmp_order:
  assumes "no_negative_zero a" and "no_negative_zero b"
  shows "BN_cmp (Some a) (Some b) = sgn (bn_val a - bn_val b)"
  using assms by (auto simp: BN_cmp_def ucmp bn_val_def no_negative_zero_def sgn_if)

lemma BN_cmp_order_witness:
  "BN_cmp (Some (minus_number [3, 1])) (Some (number [7, 0, 0])) = - 1"
  using BN_cmp_order [of "minus_number [3, 1]" "number [7, 0, 0]"] by (simp add: no_negative_zero_def)

text \<open>
  Without that exclusion the order is not the one of the integers: a negative zero is below zero.
\<close>

lemma BN_cmp_negative_zero: "BN_cmp (Some (minus_number [])) (Some (number [])) = - 1"
  by (simp add: BN_cmp_def)

text \<open>
  C37: \<open>BN_add\<close> puts the sum of two integers into \<open>r\<close>, in normal form (no leading zero words, no
  negative zero), also when \<open>r\<close>, \<open>a\<close> and \<open>b\<close> are partly or all the same object and when the
  arguments have leading zero words; \<open>a\<close> is not a negative zero. It changes nothing but \<open>r\<close>, and fails
  exactly when \<open>r\<close> has no room for the words it needs and cannot get it, because they are more than
  \<open>BN_MAX_WORDS\<close>, or \<open>r\<close> holds static data, or the allocator refuses this request. It needs
  one word more than the wider argument if the signs are the same, and otherwise the words of the
  argument of the larger magnitude. The words of \<open>r\<close> are kept when it fails.
\<close>

theorem BN_add_exact:
  assumes "bn_malloc_ok m" and "bn_ok (num s r)" "bn_ok (num s a)" "bn_ok (num s b)"
    and "no_negative_zero (num s a)"
  shows "leaves m r (sum_words (num s a) (num s b) (neg (num s b))) (bn_val (num s a) + bn_val (num s b)) s
    (BN_add m r a b s)"
proof (cases "neg (num s a) = neg (num s b)")
  case True
  have "leaves m r (max (width (num s a)) (width (num s b)) + 1)
    (let x = int (magnitude (num s a) + magnitude (num s b)) in if neg (num s a) then - x else x) s
    (do { (ok, s') \<leftarrow> BN_uadd m r a b s; Some (ok, set_neg r (neg (num s a)) s') })"
    using assms(5) by (intro same_sign [OF assms(2,3,4,1)]) (simp add: no_negative_zero_def)
  then show ?thesis using True by (simp add: BN_add_def bn_val_def sum_words_def Let_def split: if_splits)
next
  case False
  then show ?thesis
    using signed_difference [OF assms(2,3,4,1)] signed_difference [OF assms(2,4,3,1)]
    by (cases "neg (num s a)") (simp_all add: BN_add_def bn_val_def sum_words_def)
qed

text \<open>5 - 8 is stored; 5 + 0 needs two words, which an allocator that refuses and static data do not give.\<close>

definition static_number :: "u64 list \<Rightarrow> bignum" where
  "static_number ws = number ws\<lparr>static_data := True\<rparr>"

definition refuse :: bn_malloc where
  "refuse i n = None"

lemma BN_add_exact_witness:
  "(\<exists>s'. BN_add calloc 0 0 1 (heap_of [number [5], minus_number [8]]) = Some (True, s') \<and> bn_val (num s' 0) = - 3) \<and>
   (\<exists>s'. BN_add calloc 0 0 1 (heap_of [number [5], number [8]]) = Some (True, s') \<and> bn_val (num s' 0) = 13) \<and>
   (\<exists>s'. BN_add refuse 0 0 1 (heap_of [number [5], number [8]]) = Some (False, s') \<and> used_words (num s' 0) = [5]) \<and>
   (\<exists>s'. BN_add calloc 0 1 1 (heap_of [static_number [5], number [8]]) = Some (False, s') \<and> used_words (num s' 0) = [5])"
proof -
  let ?s = "heap_of [number [5], minus_number [8]]" and ?t = "heap_of [number [5], number [8]]"
    and ?u = "heap_of [static_number [5], number [8]]"
  have m: "bn_malloc_ok refuse" by (simp add: bn_malloc_ok_def refuse_def)
  have u: "bn_ok (static_number [5])" "used_words (static_number [5]) = [5]"
    using bn_ok_numbers(1) [of "[5]"] by (simp_all add: static_number_def bn_ok_def used_words_def)
  have g: "\<not> cannot_grow calloc ?s 0 1" "\<not> cannot_grow calloc ?t 0 2" "cannot_grow refuse ?t 0 2" "cannot_grow calloc ?u 0 2"
    by (simp_all add: cannot_grow_def calloc_def refuse_def static_number_def BN_MAX_WORDS)
  have n: "sum_words (number [5]) (minus_number [8]) True = 1" "sum_words (number [5]) (number [8]) False = 2"
      "sum_words (number [8]) (number [8]) False = 2"
    by (simp_all add: sum_words_def difference_words_def)
  have "leaves calloc 0 1 (- 3) ?s (BN_add calloc 0 0 1 ?s)"
    using BN_add_exact [of calloc ?s 0 0 1] n by (simp add: no_negative_zero_def)
  moreover have "leaves calloc 0 2 13 ?t (BN_add calloc 0 0 1 ?t)"
    using BN_add_exact [of calloc ?t 0 0 1] n by (simp add: no_negative_zero_def)
  moreover have "leaves refuse 0 2 13 ?t (BN_add refuse 0 0 1 ?t)"
    using BN_add_exact [OF m, of ?t 0 0 1] n by (simp add: no_negative_zero_def)
  moreover have "leaves calloc 0 2 16 ?u (BN_add calloc 0 1 1 ?u)"
    using BN_add_exact [of calloc ?u 0 1 1] u n by (simp add: no_negative_zero_def)
  ultimately show ?thesis
    using leaves_room [OF _ g(1)] leaves_room [OF _ g(2)] leaves_refused [OF _ g(3)] leaves_refused [OF _ g(4)] u by fastforce
qed

text \<open>
  C38: \<open>BN_sub\<close> puts the difference of two integers into \<open>r\<close>, in normal form, for every way in which
  \<open>r\<close>, \<open>a\<close> and \<open>b\<close> may be the same object; \<open>a\<close> is not a negative zero. It changes nothing but \<open>r\<close>, and
  fails exactly when \<open>BN_add\<close> of the opposite of \<open>b\<close> does.
\<close>

theorem BN_sub_exact:
  assumes "bn_malloc_ok m" and "bn_ok (num s r)" "bn_ok (num s a)" "bn_ok (num s b)"
    and "no_negative_zero (num s a)"
  shows "leaves m r (sum_words (num s a) (num s b) (\<not> neg (num s b))) (bn_val (num s a) - bn_val (num s b)) s
    (BN_sub m r a b s)"
proof (cases "neg (num s a) = neg (num s b)")
  case False
  let ?n = "max (width (num s a)) (width (num s b)) + 1"
  have u: "leaves m r ?n (let x = int (magnitude (num s a) + magnitude (num s b)) in if neg (num s a) then - x else x) s
    (do { (ok, s') \<leftarrow> BN_uadd m r a b s; Some (if ok then (True, set_neg r (neg (num s a)) s') else (False, s')) })"
    using assms(5) by (intro same_sign_ok [OF assms(2,3,4,1)]) (simp add: no_negative_zero_def)
  moreover have "BN_sub m r a b s =
    do { (ok, s') \<leftarrow> BN_uadd m r a b s; Some (if ok then (True, set_neg r (neg (num s a)) s') else (False, s')) }"
    unfolding BN_sub_def if_P [OF False] Let_def ..
  moreover have "bn_val (num s a) - bn_val (num s b) =
    (let x = int (magnitude (num s a) + magnitude (num s b)) in if neg (num s a) then - x else x)"
    using False by (simp add: bn_val_def Let_def)
  moreover have "sum_words (num s a) (num s b) (\<not> neg (num s b)) = ?n" using False by (simp add: sum_words_def)
  ultimately show ?thesis by simp
next
  case True
  then show ?thesis
    using signed_difference [OF assms(2,3,4,1)] signed_difference [OF assms(2,4,3,1)]
    by (cases "neg (num s a)") (simp_all add: BN_sub_def bn_val_def sum_words_def)
qed

lemma BN_sub_exact_witness:
  "(\<exists>s'. BN_sub calloc 0 0 1 (heap_of [number [5], number [8]]) = Some (True, s') \<and> bn_val (num s' 0) = - 3) \<and>
   (\<exists>s'. BN_sub calloc 0 0 1 (heap_of [number [5], minus_number [8]]) = Some (True, s') \<and> bn_val (num s' 0) = 13) \<and>
   (\<exists>s'. BN_sub refuse 0 0 1 (heap_of [number [5], minus_number [8]]) = Some (False, s') \<and> used_words (num s' 0) = [5])"
proof -
  let ?s = "heap_of [number [5], number [8]]" and ?t = "heap_of [number [5], minus_number [8]]"
  have m: "bn_malloc_ok refuse" by (simp add: bn_malloc_ok_def refuse_def)
  have g: "\<not> cannot_grow calloc ?s 0 1" "\<not> cannot_grow calloc ?t 0 2" "cannot_grow refuse ?t 0 2"
    by (simp_all add: cannot_grow_def calloc_def refuse_def BN_MAX_WORDS)
  have n: "sum_words (number [5]) (number [8]) True = 1" "sum_words (number [5]) (minus_number [8]) False = 2"
    by (simp_all add: sum_words_def difference_words_def)
  have "leaves calloc 0 1 (- 3) ?s (BN_sub calloc 0 0 1 ?s)"
    using BN_sub_exact [of calloc ?s 0 0 1] n by (simp add: no_negative_zero_def)
  moreover have "leaves calloc 0 2 13 ?t (BN_sub calloc 0 0 1 ?t)"
    using BN_sub_exact [of calloc ?t 0 0 1] n by (simp add: no_negative_zero_def)
  moreover have "leaves refuse 0 2 13 ?t (BN_sub refuse 0 0 1 ?t)"
    using BN_sub_exact [OF m, of ?t 0 0 1] n by (simp add: no_negative_zero_def)
  ultimately show ?thesis
    using leaves_room [OF _ g(1)] leaves_room [OF _ g(2)] leaves_refused [OF _ g(3)] by fastforce
qed

end
