(* ===== verification/BnCtxRef.thy ===== *)
theory BnCtxRef
  imports BnCtx BnAddThms
begin

text \<open>The temporaries of a context are never numbers that are in use.\<close>

section \<open>The invariant\<close>

definition blist :: "bn_state \<Rightarrow> nat list" where
  "blist s = (case bignums (ctx s) of None \<Rightarrow> [] | Some xs \<Rightarrow> xs)"

text \<open>The temporaries that can be handed out.\<close>

definition temps :: "bn_state \<Rightarrow> nat set" where
  "temps s = set (drop (used (ctx s)) (blist s))"

definition ctx_ok :: "bn_state \<Rightarrow> bool" where
  "ctx_ok s \<longleftrightarrow> used (ctx s) \<le> length (blist s) \<and> distinct (blist s) \<and> (\<forall>x \<in> set (blist s). x < fresh s \<and> bn_ok (num s x))"

text \<open>A number that is not a free temporary.\<close>

definition live :: "bn_state \<Rightarrow> nat \<Rightarrow> bool" where
  "live s x \<longleftrightarrow> x < fresh s \<and> x \<notin> temps s \<and> bn_ok (num s x)"

text \<open>What happens between the start and the end of a frame, when \<open>r\<close> may change.\<close>

definition within_frame :: "nat \<Rightarrow> bn_state \<Rightarrow> bn_state \<Rightarrow> bool" where
  "within_frame r s s' \<longleftrightarrow> (\<forall>x < fresh s. x \<noteq> r \<longrightarrow> x \<notin> temps s \<longrightarrow> num s' x = num s x) \<and> fresh s \<le> fresh s' \<and>
     (\<exists>ys. blist s' = blist s @ ys \<and> (\<forall>y \<in> set ys. fresh s \<le> y)) \<and> used (ctx s) \<le> used (ctx s') \<and>
     (\<not> ctx_error (ctx s') \<longrightarrow> stack (ctx s') = stack (ctx s)) \<and> (ctx_error (ctx s) \<longrightarrow> ctx_error (ctx s'))"

lemma frame_refl [simp]: "within_frame r s s"
  by (simp add: within_frame_def)

lemma within_temps:
  assumes "within_frame r s s'"
  shows "temps s' \<subseteq> temps s \<union> {x. fresh s \<le> x}"
proof -
  obtain ys where ys: "blist s' = blist s @ ys" "\<forall>y \<in> set ys. fresh s \<le> y" and u: "used (ctx s) \<le> used (ctx s')"
    using assms by (auto simp: within_frame_def)
  have "temps s' \<subseteq> set (drop (used (ctx s')) (blist s)) \<union> set ys"
    by (auto simp: temps_def ys(1) dest: in_set_dropD)
  then show ?thesis using ys(2) set_drop_subset_set_drop [OF u, of "blist s"] by (auto simp: temps_def)
qed

lemma frame_trans:
  assumes "within_frame r s s'" and "within_frame r s' s''"
  shows "within_frame r s s''"
proof -
  have "num s'' x = num s x" if "x < fresh s" "x \<noteq> r" "x \<notin> temps s" for x
  proof -
    have "x < fresh s'" using assms(1) that(1) by (simp add: within_frame_def)
    moreover have "x \<notin> temps s'" using within_temps [OF assms(1)] that(1,3) by auto
    ultimately have "num s'' x = num s' x" using assms(2) that(2) by (simp add: within_frame_def)
    then show ?thesis using assms(1) that by (simp add: within_frame_def)
  qed
  moreover have "\<exists>ys. blist s'' = blist s @ ys \<and> (\<forall>y \<in> set ys. fresh s \<le> y)"
  proof -
    obtain ys zs where "blist s' = blist s @ ys" "\<forall>y \<in> set ys. fresh s \<le> y"
      "blist s'' = blist s' @ zs" "\<forall>y \<in> set zs. fresh s' \<le> y" "fresh s \<le> fresh s'"
      using assms unfolding within_frame_def by blast
    then show ?thesis by (intro exI [of _ "ys @ zs"]) auto
  qed
  moreover have "fresh s \<le> fresh s''" "used (ctx s) \<le> used (ctx s'')" "\<not> ctx_error (ctx s'') \<longrightarrow> stack (ctx s'') = stack (ctx s)"
    "ctx_error (ctx s) \<longrightarrow> ctx_error (ctx s'')"
    using assms by (auto simp: within_frame_def)
  ultimately show ?thesis by (simp add: within_frame_def)
qed

text \<open>A step that changes one number and none of the context.\<close>

lemma only_within: "only r s s' \<Longrightarrow> within_frame r s s'"
  by (auto simp: only_def within_frame_def blist_def)

lemma only_ctx_ok: "only r s s' \<Longrightarrow> ctx_ok s \<Longrightarrow> bn_ok (num s' r) \<Longrightarrow> ctx_ok s'"
  by (auto simp: only_def ctx_ok_def blist_def) metis

lemma only_temps: "only r s s' \<Longrightarrow> temps s' = temps s"
  by (simp add: only_def temps_def blist_def)

lemma temp_within:
  assumes "only t s s'" and "t \<in> temps s \<or> fresh s \<le> t"
  shows "within_frame r s s'"
  using assms by (auto simp: only_def within_frame_def blist_def)

text \<open>When nothing that was there before changes, the frame is one for every number.\<close>

lemma temp_frame: "within_frame r s s' \<Longrightarrow> (\<And>x. x < fresh s \<Longrightarrow> num s' x = num s x) \<Longrightarrow> within_frame r' s s'"
  by (simp add: within_frame_def)

section \<open>Frames\<close>

lemma request_simps [simp]:
  "num (snd (request m n s)) = num s" "fresh (snd (request m n s)) = fresh s" "ctx (snd (request m n s)) = ctx s"
  by (simp_all add: request_def)

lemma set_ctx_simps [simp]:
  "num (set_ctx c s) = num s" "fresh (set_ctx c s) = fresh s" "ctx (set_ctx c s) = c" "mallocs (set_ctx c s) = mallocs s"
  by (simp_all add: set_ctx_def)

lemma request_props: "request m n s = (ok, s') \<Longrightarrow> num s' = num s \<and> fresh s' = fresh s \<and> ctx s' = ctx s"
  by (auto simp: request_def)

text \<open>Two tests and a request, when the tests do not matter.\<close>

lemma two_tests:
  assumes "(if b then let n = k in if c n then (False, s) else case request m n s of (False, s) \<Rightarrow> (False, s) | (True, s) \<Rightarrow> (True, f n s)
    else (True, g)) = (ok, s')"
  shows "s' = g \<and> ok \<or> s' = s \<and> \<not> ok \<or> (\<exists>n s1. num s1 = num s \<and> fresh s1 = fresh s \<and> ctx s1 = ctx s \<and>
    (s' = s1 \<and> \<not> ok \<or> s' = f n s1 \<and> ok))"
proof -
  obtain ok1 s1 where r: "request m k s = (ok1, s1)" by fastforce
  show ?thesis using assms request_props [OF r] r by (cases b; cases "c k"; cases ok1) (auto simp: Let_def)
qed

lemma stack_push:
  assumes "BN_STACK_push m i s = (ok, s')"
  shows "num s' = num s" "fresh s' = fresh s" "used (ctx s') = used (ctx s)" "blist s' = blist s"
    "ctx_error (ctx s') = ctx_error (ctx s)" "stack (ctx s') = (if ok then i # stack (ctx s) else stack (ctx s))"
  using two_tests [OF assms [unfolded BN_STACK_push_def Let_def [of "ctx s"]]] by (auto simp: blist_def)

lemma ctx_start:
  "num (BN_CTX_start m s) = num s" "fresh (BN_CTX_start m s) = fresh s" "used (ctx (BN_CTX_start m s)) = used (ctx s)"
  "blist (BN_CTX_start m s) = blist s"
  "\<not> ctx_error (ctx (BN_CTX_start m s)) \<Longrightarrow> stack (ctx (BN_CTX_start m s)) = used (ctx s) # stack (ctx s)"
  "ctx_error (ctx s) \<Longrightarrow> ctx_error (ctx (BN_CTX_start m s))"
proof -
  obtain ok s' where p: "BN_STACK_push m (used (ctx s)) s = (ok, s')" by fastforce
  have e: "BN_CTX_start m s = (if ctx_error (ctx s) then s
    else if ok then s' else set_ctx (ctx s'\<lparr>ctx_error := True, defer_error := True\<rparr>) s')"
    using p by (simp add: BN_CTX_start_def)
  note q = stack_push [OF p]
  show "num (BN_CTX_start m s) = num s" "fresh (BN_CTX_start m s) = fresh s" "used (ctx (BN_CTX_start m s)) = used (ctx s)"
    "ctx_error (ctx s) \<Longrightarrow> ctx_error (ctx (BN_CTX_start m s))"
    using q unfolding e by simp_all
  show "blist (BN_CTX_start m s) = blist s" using q(4) unfolding e by (simp add: blist_def)
  show "\<not> ctx_error (ctx (BN_CTX_start m s)) \<Longrightarrow> stack (ctx (BN_CTX_start m s)) = used (ctx s) # stack (ctx s)"
    using q unfolding e by (simp split: if_splits)
qed

lemma start_simps:
  "temps (BN_CTX_start m s) = temps s" "ctx_ok (BN_CTX_start m s) = ctx_ok s" "live (BN_CTX_start m s) x = live s x"
  by (simp_all add: temps_def ctx_ok_def live_def ctx_start)

text \<open>The whole of a frame.\<close>

definition framed :: "nat \<Rightarrow> bn_state \<Rightarrow> bn_state \<Rightarrow> bool" where
  "framed r s s' \<longleftrightarrow> within_frame r s s' \<and> ctx_ok s' \<and> (\<not> ctx_error (ctx s') \<longrightarrow> used (ctx s') = used (ctx s))"

lemma ctx_end:
  assumes "within_frame r (BN_CTX_start m s) s'" and "ctx_ok s'"
  obtains s'' where "BN_CTX_end s' = Some s''" and "num s'' = num s'" and "framed r s s''"
proof (cases "ctx_error (ctx s')")
  case True
  have "framed r s s'" using assms True by (auto simp: framed_def within_frame_def start_simps ctx_start)
  then show thesis using that [of s'] True by (simp add: BN_CTX_end_def)
next
  case False
  then have st: "stack (ctx s') = used (ctx s) # stack (ctx s)"
    using assms(1) ctx_start(5) [of m s] by (auto simp: within_frame_def)
  let ?s = "set_ctx (ctx s'\<lparr>stack := stack (ctx s), used := used (ctx s)\<rparr>) s'"
  have e: "BN_CTX_end s' = Some ?s" using False st by (simp add: BN_CTX_end_def BN_STACK_pop_def set_ctx_def)
  have b: "blist ?s = blist s'" by (simp add: blist_def)
  have u: "used (ctx s) \<le> used (ctx s')" using assms(1) by (simp add: within_frame_def ctx_start)
  obtain ys where ys: "blist s' = blist s @ ys" "\<forall>y \<in> set ys. fresh s \<le> y"
    using assms(1) by (auto simp: within_frame_def ctx_start)
  have "ctx_ok ?s" using assms(2) u by (simp add: ctx_ok_def b)
  then have "framed r s ?s"
    using assms(1) ys by (simp add: framed_def within_frame_def start_simps ctx_start b)
  then show thesis using that [OF e] by simp
qed

section \<open>Handing out a temporary\<close>

text \<open>Growing the stack of pointers changes only its capacity.\<close>

lemma new_bignums:
  assumes "new_bignums m s = (ok, s')" and "bignums (ctx s) = None"
  shows "num s' = num s" "fresh s' = fresh s" "blist s' = blist s" "used (ctx s') = used (ctx s)"
    "stack (ctx s') = stack (ctx s)" "ctx_error (ctx s') = ctx_error (ctx s)" "ok \<Longrightarrow> bignums (ctx s') = Some []"
  using assms by (auto simp: new_bignums_def request_def blist_def split: prod.splits bool.splits)

lemma grow_bignums_cases:
  assumes "grow_bignums m n s = (ok, s')"
  shows "num s' = num s \<and> fresh s' = fresh s \<and> (ctx s' = ctx s \<or> (\<exists>k. ctx s' = ctx s\<lparr>bignums_alloc := k\<rparr>))"
proof -
  define new where "new = (let alloc = bignums_alloc (ctx s); twice = alloc * 2 mod size_max1 in
    if twice < alloc \<or> twice * 8 \<ge> size_max1 then (alloc + 1) mod size_max1 else twice)"
  have "(if bignums_alloc (ctx s) \<le> n + 1
    then let k = new in if k < bignums_alloc (ctx s) \<or> k * 8 \<ge> size_max1 then (False, s)
      else case request m k s of (False, s) \<Rightarrow> (False, s) | (True, s) \<Rightarrow> (True, set_ctx (ctx s\<lparr>bignums_alloc := k\<rparr>) s)
    else (True, s)) = (ok, s')"
    using assms unfolding grow_bignums_def Let_def new_def .
  from two_tests [OF this] show ?thesis by auto
qed

lemma push_bignum:
  assumes "push_bignum m x xs s = (ok, s')" and "bignums (ctx s) = Some xs"
  shows "num s' = num s" "fresh s' = fresh s" "used (ctx s') = used (ctx s)" "stack (ctx s') = stack (ctx s)"
    "ctx_error (ctx s') = ctx_error (ctx s)" "bignums (ctx s') = Some (if ok then xs @ [x] else xs)"
proof -
  obtain ok1 s1 where g: "grow_bignums m (length xs) s = (ok1, s1)" by fastforce
  have "num s1 = num s \<and> fresh s1 = fresh s \<and> used (ctx s1) = used (ctx s) \<and> stack (ctx s1) = stack (ctx s) \<and>
    ctx_error (ctx s1) = ctx_error (ctx s) \<and> bignums (ctx s1) = Some xs"
    using grow_bignums_cases [OF g] assms(2) by auto
  then show "num s' = num s" "fresh s' = fresh s" "used (ctx s') = used (ctx s)" "stack (ctx s') = stack (ctx s)"
    "ctx_error (ctx s') = ctx_error (ctx s)" "bignums (ctx s') = Some (if ok then xs @ [x] else xs)"
    using assms(1) g by (auto simp: push_bignum_def split: bool.splits)
qed

lemma BN_new_cases:
  obtains s' where "BN_new m s = (None, s')" and "num s' = num s" and "fresh s' = fresh s" and "ctx s' = ctx s"
  | s' where "BN_new m s = (Some (fresh s), s')" and "\<And>x. x \<noteq> fresh s \<Longrightarrow> num s' x = num s x" and "bn_ok (num s' (fresh s))"
      and "fresh s' = Suc (fresh s)" and "ctx s' = ctx s"
proof (cases "m (mallocs s) 3")
  case None
  then show thesis using that(1) by (simp add: BN_new_def malloc_words_def)
next
  case (Some a)
  then show thesis using that(2) by (simp add: BN_new_def malloc_words_def bn_ok_def upd_def)
qed

text \<open>The number to use next, or none; nothing that was there before changes.\<close>

lemma next_bignum:
  assumes "next_bignum m xs s = (ok, s')" and "bignums (ctx s) = Some xs" and "ctx_ok s"
  shows "ctx_ok s'" "within_frame r s s'" "used (ctx s') = used (ctx s)" "ctx_error (ctx s') = ctx_error (ctx s)"
    "\<And>x. x < fresh s \<Longrightarrow> num s' x = num s x"
    "ok \<Longrightarrow> bignums (ctx s') = Some (blist s') \<and> used (ctx s') < length (blist s')"
proof -
  have l: "used (ctx s) \<le> length xs" "blist s = xs" using assms(2,3) by (auto simp: ctx_ok_def blist_def)
  have "ctx_ok s' \<and> within_frame r s s' \<and> used (ctx s') = used (ctx s) \<and> ctx_error (ctx s') = ctx_error (ctx s) \<and>
    (\<forall>x < fresh s. num s' x = num s x) \<and> (ok \<longrightarrow> bignums (ctx s') = Some (blist s') \<and> used (ctx s') < length (blist s'))"
  proof (cases "used (ctx s) = length xs")
    case True
    show ?thesis
    proof (cases rule: BN_new_cases [of m s])
      case (1 s1)
      then have "ok = False" "s' = s1" using assms(1) True by (simp_all add: next_bignum_def)
      then show ?thesis using 1 assms(3) by (simp add: ctx_ok_def within_frame_def blist_def)
    next
      case (2 s1)
      then have p: "push_bignum m (fresh s) xs s1 = (ok, s')" using assms(1) True by (simp add: next_bignum_def)
      note q = push_bignum [OF p, unfolded 2(5), OF assms(2)]
      have b: "blist s' = (if ok then xs @ [fresh s] else xs)" using q(6) by (simp add: blist_def)
      have "ctx_ok s'" using assms(3) l 2 q b
        by (fastforce simp: ctx_ok_def)
      moreover have "within_frame r s s'" using l 2 q b by (simp add: within_frame_def)
      ultimately show ?thesis using q 2 b True by simp
    qed
  next
    case False
    then have "ok = True" "s' = s" using assms(1) by (simp_all add: next_bignum_def)
    then show ?thesis using False l assms(2,3) by simp
  qed
  then show "ctx_ok s'" "within_frame r s s'" "used (ctx s') = used (ctx s)" "ctx_error (ctx s') = ctx_error (ctx s)"
    "\<And>x. x < fresh s \<Longrightarrow> num s' x = num s x"
    "ok \<Longrightarrow> bignums (ctx s') = Some (blist s') \<and> used (ctx s') < length (blist s')" by blast+
qed

lemma zero_only: "only t s (BN_zero t s)" "bn_ok (num s t) \<Longrightarrow> bn_ok (num (BN_zero t s) t)"
  by (simp_all add: BN_zero_def bn_ok_def)

lemma live_within:
  assumes "live s x" and "within_frame r s s'" and "x \<noteq> r"
  shows "live s' x \<and> num s' x = num s x"
proof -
  have "x \<notin> temps s'" using assms(1) within_temps [OF assms(2)] by (auto simp: live_def)
  then show ?thesis using assms by (simp add: live_def within_frame_def)
qed

text \<open>The last steps of handing out a temporary.\<close>

lemma take_bignum:
  assumes "ctx_ok s" and "bignums (ctx s) = Some (blist s)" and "used (ctx s) < length (blist s)"
  defines "t \<equiv> blist s ! used (ctx s)"
  defines "s' \<equiv> set_ctx (ctx (BN_zero t s)\<lparr>used := used (ctx (BN_zero t s)) + 1\<rparr>) (BN_zero t s)"
  shows "t \<in> temps s" "ctx_ok s'" "within_frame r s s'" "live s' t" "ctx_error (ctx s') = ctx_error (ctx s)"
proof -
  have o: "num s' = num (BN_zero t s)" "fresh s' = fresh s" "ctx s' = ctx s\<lparr>used := used (ctx s) + 1\<rparr>"
    using zero_only(1) [of t s] by (simp_all add: s'_def only_def)
  have b: "blist s' = blist s" using o(3) by (simp add: blist_def)
  have d: "drop (used (ctx s)) (blist s) = t # drop (used (ctx s) + 1) (blist s)"
    using assms(3) by (simp add: t_def Cons_nth_drop_Suc)
  show t: "t \<in> temps s" by (simp add: temps_def d)
  have "t \<in> set (blist s)" using assms(3) by (simp add: t_def)
  then have ok: "bn_ok (num s t)" "t < fresh s" using assms(1) by (simp_all add: ctx_ok_def)
  have n: "num s' x = num s x" if "x \<noteq> t" for x using zero_only(1) [of t s] that by (simp add: o only_def)
  have okt: "bn_ok (num s' t)" using zero_only(2) [OF ok(1)] by (simp add: o)
  have "bn_ok (num s' x)" if "x \<in> set (blist s)" for x
    using that assms(1) n [of x] okt by (cases "x = t") (simp_all add: ctx_ok_def)
  then show "ctx_ok s'" using assms(1,3) by (simp add: ctx_ok_def b o)
  have "num s' x = num s x" if "x \<notin> temps s" for x using t n [of x] that by auto
  then show "within_frame r s s'" by (simp add: within_frame_def o(2,3) b)
  have "distinct (drop (used (ctx s)) (blist s))" using assms(1) by (simp add: ctx_ok_def)
  then have "t \<notin> temps s'" by (simp add: d temps_def o b)
  then show "live s' t" using ok okt by (simp add: live_def o)
  show "ctx_error (ctx s') = ctx_error (ctx s)" by (simp add: o)
qed

lemma ctx_get:
  assumes "ctx_ok s"
  obtains t s' where "BN_CTX_get m s = Some (Some t, s')" and "\<And>r. within_frame r s s'" and "ctx_ok s'" and "live s' t"
      and "t \<in> temps s \<or> fresh s \<le> t"
  | s' where "BN_CTX_get m s = Some (None, s')" and "\<And>r. within_frame r s s'" and "ctx_ok s'"
proof (cases "ctx_error (ctx s)")
  case True
  then show thesis
    using that(2) [of "if defer_error (ctx s) then set_ctx (ctx s\<lparr>defer_error := False\<rparr>) s else s"] assms
    by (simp add: BN_CTX_get_def within_frame_def ctx_ok_def blist_def)
next
  case False
  note none = that(2)
  have fail: thesis if "BN_CTX_get m s = Some (None, ctx_fail s')" "\<And>r. within_frame r s s'" "ctx_ok s'" for s'
    using that by (intro none [of "ctx_fail s'"]) (simp_all add: ctx_fail_def within_frame_def ctx_ok_def blist_def)
  obtain ok1 s1 where s1: "(if bignums (ctx s) = None then new_bignums m s else (True, s)) = (ok1, s1)" by fastforce
  have b: "num s1 = num s" "fresh s1 = fresh s" "blist s1 = blist s" "used (ctx s1) = used (ctx s)"
    "stack (ctx s1) = stack (ctx s)" "ctx_error (ctx s1) = ctx_error (ctx s)" "ok1 \<Longrightarrow> bignums (ctx s1) = Some (blist s1)"
    using s1 new_bignums [of m s ok1 s1] by (auto simp: blist_def split: if_splits option.splits)
  have c1: "ctx_ok s1" using assms by (simp add: ctx_ok_def b)
  have w1: "within_frame r s s1" for r by (simp add: within_frame_def b)
  have t1: "temps s1 = temps s" by (simp add: temps_def b)
  show thesis
  proof (cases ok1)
    case False
    then have "BN_CTX_get m s = Some (None, ctx_fail s1)" using s1 \<open>\<not> ctx_error (ctx s)\<close> by (simp add: BN_CTX_get_def)
    then show thesis using fail w1 c1 by blast
  next
    case True
    obtain ok2 s2 where s2: "next_bignum m (blist s1) s1 = (ok2, s2)" by fastforce
    note n = next_bignum [OF s2 b(7) [OF True] c1]
    have w2: "within_frame r s s2" for r
      using frame_trans [OF w1] n(2) temp_frame [OF n(2) n(5)] by blast
    show thesis
    proof (cases ok2)
      case False
      then have "BN_CTX_get m s = Some (None, ctx_fail s2)"
        using s1 s2 b(7) [OF True] True \<open>\<not> ctx_error (ctx s)\<close> by (simp add: BN_CTX_get_def)
      then show thesis using fail w2 n(1) by blast
    next
      case ok2: True
      note k = n(6) [OF ok2]
      note t = take_bignum [OF n(1) conjunct1 [OF k] conjunct2 [OF k]]
      let ?t = "blist s2 ! used (ctx s2)"
      let ?s = "set_ctx (ctx (BN_zero ?t s2)\<lparr>used := used (ctx (BN_zero ?t s2)) + 1\<rparr>) (BN_zero ?t s2)"
      have "BN_CTX_get m s = Some (Some ?t, ?s)"
        using s1 s2 b(7) [OF True] True ok2 k \<open>\<not> ctx_error (ctx s)\<close> by (simp add: BN_CTX_get_def check_def Let_def)
      moreover have "within_frame r s ?s" for r by (rule frame_trans [OF w2 t(3)])
      moreover have "?t \<in> temps s \<or> fresh s \<le> ?t" using t(1) within_temps [OF w2 [of 0]] by auto
      ultimately show thesis using that(1) t(2,4) by blast
    qed
  qed
qed

end
