(* ===== verification/BnBits.thy ===== *)
theory BnBits
  imports BnState
begin

text \<open>The number of bits of a word and of a number.\<close>

lemma top_mask:
  assumes "unat (x :: u64) < 2 ^ 63"
  shows "0 - drop_bit 63 (0 - x) = mask_w (x \<noteq> 0)"
proof -
  have "2 ^ 63 \<le> unat (0 - x) \<longleftrightarrow> x \<noteq> 0"
    using assms unat_diff_wrap [of 0 x] by (auto simp: unat_eq_0)
  then show ?thesis using msb_word [of "0 - x"] by (simp add: constant_time_msb_w_def)
qed

lemma drop_unat: "unat (drop_bit n (l :: u64)) = unat l div 2 ^ n"
  unfolding unsigned_drop_bit_eq using unat_u64 [of l] by (simp add: drop_bit_eq_div take_bit_nat_eq_self)

lemma xor_back: "(l :: u64) XOR (x XOR l) = x"
  by (rule bit_word_eqI) (auto simp: bit_simps)

lemma bits_step:
  assumes "0 < n" and "n \<le> 32"
  shows "bits_step n (bits, l) = (if unat l < 2 ^ n then (bits, l) else (bits + n, drop_bit n l))"
proof -
  let ?x = "drop_bit n l"
  have ux: "unat ?x = unat l div 2 ^ n" by (rule drop_unat)
  have "unat l div 2 ^ n < 2 ^ 63"
  proof -
    have "unat l < 2 ^ 1 * 2 ^ 63" using unat_u64 [of l] by simp
    also have "(2 :: nat) ^ 1 * 2 ^ 63 \<le> 2 ^ n * 2 ^ 63" using assms(1) by (intro mult_right_mono power_increasing) simp_all
    finally show ?thesis by (simp add: less_mult_imp_div_less mult.commute)
  qed
  then have m: "0 - drop_bit 63 (0 - ?x) = mask_w (?x \<noteq> 0)" by (intro top_mask) (simp only: ux)
  have z: "?x = 0 \<longleftrightarrow> unat l < 2 ^ n"
    using ux unat_eq_0 [of ?x] div_eq_0_iff [of "unat l" "2 ^ n"] by simp
  have "unat (of_nat n :: u64) = n" using assms(2) by (simp add: unat_of_nat)
  then show ?thesis using m z unfolding bits_step_def by (simp add: Let_def xor_back)
qed

text \<open>After \<open>bits - 1\<close> bits of \<open>L\<close> have been cut off, \<open>l\<close> is left, which has less than \<open>n\<close> bits.\<close>

definition counted :: "nat \<Rightarrow> u64 \<Rightarrow> nat \<times> u64 \<Rightarrow> bool" where
  "counted n L = (\<lambda>(bits, l). 0 < bits \<and> l \<noteq> 0 \<and> unat l < 2 ^ n \<and>
     2 ^ (bits - 1) * unat l \<le> unat L \<and> unat L < 2 ^ (bits - 1) * (unat l + 1))"

lemma counted_step:
  assumes "counted (2 * n) L st" and "0 < n" "n \<le> 32"
  shows "counted n L (bits_step n st)"
proof -
  obtain b l where st: "st = (b, l)" by fastforce
  have c: "0 < b" "l \<noteq> 0" "unat l < 2 ^ (2 * n)" "2 ^ (b - 1) * unat l \<le> unat L" "unat L < 2 ^ (b - 1) * (unat l + 1)"
    using assms(1) by (simp_all add: counted_def st)
  show ?thesis
  proof (cases "unat l < 2 ^ n")
    case True
    then show ?thesis using c by (simp add: bits_step [OF assms(2,3)] counted_def st)
  next
    case False
    define q where "q = unat l div 2 ^ n"
    have u: "unat (drop_bit n l) = q" unfolding q_def by (rule drop_unat)
    have q: "0 < q" "q < 2 ^ n" "2 ^ n * q \<le> unat l" "unat l + 1 \<le> 2 ^ n * (q + 1)"
    proof -
      show "0 < q" using False by (simp add: q_def div_greater_zero_iff)
      show "q < 2 ^ n" using c(3) unfolding q_def by (intro less_mult_imp_div_less) (simp add: power_add mult_2)
      show "2 ^ n * q \<le> unat l" by (simp add: q_def)
      show "unat l + 1 \<le> 2 ^ n * (q + 1)"
      proof -
        have "unat l = 2 ^ n * q + unat l mod 2 ^ n" by (simp add: q_def)
        moreover have "unat l mod 2 ^ n < 2 ^ n" by simp
        ultimately show ?thesis unfolding distrib_left by linarith
      qed
    qed
    have e: "2 ^ (b + n - 1) = 2 ^ (b - 1) * (2 ^ n :: nat)" using c(1) by (simp flip: power_add)
    have "2 ^ (b + n - 1) * q \<le> 2 ^ (b - 1) * unat l" unfolding e mult.assoc using q(3) by (intro mult_left_mono) simp_all
    moreover have "2 ^ (b - 1) * (unat l + 1) \<le> 2 ^ (b + n - 1) * (q + 1)"
      unfolding e mult.assoc using q(4) by (intro mult_left_mono) simp_all
    moreover have "drop_bit n l \<noteq> 0" using q(1) u by force
    ultimately show ?thesis using False c q by (simp add: bits_step [OF assms(2,3)] counted_def st u del: power_Suc)
  qed
qed

lemma num_bits_word:
  assumes "l \<noteq> 0"
  shows "0 < BN_num_bits_word l" "2 ^ (BN_num_bits_word l - 1) \<le> unat l" "unat l < 2 ^ BN_num_bits_word l"
proof -
  have "counted 64 l (1, l)" using assms unat_u64 [of l] by (simp add: counted_def)
  then have "counted 32 l (bits_step 32 (1, l))" by (intro counted_step) simp_all
  then have "counted 16 l (bits_step 16 (bits_step 32 (1, l)))" by (intro counted_step) simp_all
  then have "counted 8 l (bits_step 8 (bits_step 16 (bits_step 32 (1, l))))" by (intro counted_step) simp_all
  then have "counted 4 l (bits_step 4 (bits_step 8 (bits_step 16 (bits_step 32 (1, l)))))" by (intro counted_step) simp_all
  then have "counted 2 l (bits_step 2 (bits_step 4 (bits_step 8 (bits_step 16 (bits_step 32 (1, l))))))"
    by (intro counted_step) simp_all
  then have "counted 1 l (bits_step 1 (bits_step 2 (bits_step 4 (bits_step 8 (bits_step 16 (bits_step 32 (1, l)))))))"
    by (intro counted_step) simp_all
  moreover obtain b x where r: "foldl (\<lambda>st n. bits_step n st) (if l \<noteq> 0 then 1 else 0, l) [32, 16, 8, 4, 2, 1] = (b, x)"
    by fastforce
  ultimately have c: "counted 1 l (b, x)" using assms by simp
  have b: "BN_num_bits_word l = b" by (simp only: BN_num_bits_word_def r fst_conv)
  have "unat x = 1" using c unat_eq_0 [of x] by (auto simp: counted_def)
  then show "0 < BN_num_bits_word l" "2 ^ (BN_num_bits_word l - 1) \<le> unat l" "unat l < 2 ^ BN_num_bits_word l"
    using c power_minus_mult [of b "2 :: nat"] unfolding b by (simp_all add: counted_def)
qed

lemma num_bits_word_0: "BN_num_bits_word 0 = 0"
  by (simp add: BN_num_bits_word_def bits_step)

text \<open>The number of bits of a number.\<close>

theorem BN_num_bits_exact:
  assumes "bn_ok b"
  shows "magnitude b < 2 ^ BN_num_bits b \<and> (magnitude b \<noteq> 0 \<longrightarrow> 2 ^ (BN_num_bits b - 1) \<le> magnitude b) \<and>
    (magnitude b = 0 \<longrightarrow> BN_num_bits b = 0)"
proof -
  let ?w = "bn_minimal_width b"
  have l: "width b \<le> length (words b)" using assms by (simp add: bn_ok_def)
  have w: "?w \<le> length (words b)" using minimal_width_le [of "words b" "width b"] l by (simp add: bn_minimal_width_def)
  have m: "magnitude b = nat_of (take ?w (words b))"
    using minimal_width_value [OF l] by (simp add: magnitude_def used_words_def bn_minimal_width_def)
  show ?thesis
  proof (cases ?w)
    case 0
    then show ?thesis using m by (simp add: BN_num_bits_def)
  next
    case (Suc k)
    define top where "top = words b ! k"
    have t: "top \<noteq> 0" using minimal_width_top [of "words b" "width b"] Suc by (simp add: bn_minimal_width_def top_def)
    have n: "BN_num_bits b = k * 64 + BN_num_bits_word top" by (simp add: BN_num_bits_def Suc top_def)
    have "take ?w (words b) = take k (words b) @ [top]" using w Suc by (simp add: take_Suc_conv_app_nth top_def)
    then have v: "magnitude b = nat_of (take k (words b)) + base k * unat top" using w Suc by (simp add: m nat_of_append)
    have lo: "nat_of (take k (words b)) < base k" using nat_of_less [of "take k (words b)"] w Suc by simp
    note nb = num_bits_word [OF t]
    have "base k * (unat top + 1) \<le> base k * 2 ^ BN_num_bits_word top" using nb(3) by (intro mult_left_mono) simp_all
    then have "magnitude b < 2 ^ BN_num_bits b" using v lo by (simp add: n power_add mult.commute)
    moreover have "base k * 2 ^ (BN_num_bits_word top - 1) \<le> base k * unat top" using nb(2) by (intro mult_left_mono) simp_all
    then have "2 ^ (BN_num_bits b - 1) \<le> magnitude b"
      using v nb(1) by (simp add: n mult.commute add.commute flip: power_add)
    moreover have "magnitude b \<noteq> 0" using v t by (simp add: unat_eq_0)
    ultimately show ?thesis by simp
  qed
qed

end
