(* ===== verification/BnMulThms.thy ===== *)
theory BnMulThms
  imports BnCtxRef BnBits
begin

text \<open>Multiplication of numbers is exact.\<close>

section \<open>Steps inside a frame\<close>

lemma temp_step:
  assumes "within_frame r s0 s" and "only t s s'" and "t \<in> temps s0 \<or> fresh s0 \<le> t"
  shows "within_frame r s0 s'"
  using assms by (auto simp: within_frame_def only_def blist_def)

lemma result_step: "within_frame r s0 s \<Longrightarrow> only r s s' \<Longrightarrow> within_frame r s0 s'"
  by (rule frame_trans [OF _ only_within])

lemma only_live: "only x s s' \<Longrightarrow> bn_ok (num s' x) \<Longrightarrow> live s y \<Longrightarrow> live s' y"
  using only_temps [of x s s'] by (cases "y = x") (auto simp: live_def only_def)

lemma expand_live:
  assumes "ctx_ok s" "live s x" "bn_malloc_ok m"
  obtains s' where "bn_wexpand m x n s = Some (True, s')" and "only x s s'" and "ctx_ok s'" and "n \<le> length (words (num s' x))"
      and "\<And>y. live s y \<Longrightarrow> live s' y \<and> grown (num s y) (num s' y) 0"
  | s' where "bn_wexpand m x n s = Some (False, s')" and "only x s s'" and "ctx_ok s'" and "\<And>y. bn_ok (num s y) \<Longrightarrow> bn_ok (num s' y)"
proof (rule wexpand_all [of s x m n])
  show "bn_ok (num s x)" using assms(2) by (simp add: live_def)
  show "bn_malloc_ok m" by (rule assms(3))
next
  fix s' assume s': "bn_wexpand m x n s = Some (True, s')" "only x s s'" "n \<le> length (words (num s' x))"
    and g: "\<And>y. bn_ok (num s y) \<Longrightarrow> grown (num s y) (num s' y) 0"
  have ok: "bn_ok (num s' x)" using g [of x] assms(2) by (simp add: live_def grown_def)
  have "live s' y \<and> grown (num s y) (num s' y) 0" if "live s y" for y
    using only_live [OF s'(2) ok that] g [of y] that by (simp add: live_def)
  then show thesis using that(1) s' only_ctx_ok [OF s'(2) assms(1) ok] by blast
next
  fix s' assume s': "bn_wexpand m x n s = Some (False, s')" "num s' = num s" "only x s s'"
  have "bn_ok (num s' x)" using assms(2) s'(2) by (simp add: live_def)
  then show thesis using that(2) s' only_ctx_ok [OF s'(3) assms(1)] by simp
qed

lemma nat_of_take:
  assumes "nat_of ws < base w" and "w \<le> length ws"
  shows "nat_of (take w ws) = nat_of ws"
proof -
  have "base w * nat_of (drop w ws) < base w * 1" using nat_of_split [OF assms(2)] assms(1) unfolding mult_1_right by linarith
  then have "nat_of (drop w ws) = 0" by (simp only: mult_less_cancel1) simp
  then show ?thesis using nat_of_split [OF assms(2)] by simp
qed

text \<open>Storing a result of \<open>w\<close> words.\<close>

lemma store_result:
  assumes "ctx_ok s" "live s r" and "length ws \<le> length (words (num s r))" and "w \<le> length ws" and "nat_of ws < base w"
  obtains s' where "write_words r 0 ws s = Some s'" and "only r s (set_width r w s')" and "ctx_ok (set_width r w s')"
    and "bn_ok (num (set_width r w s') r)" and "magnitude (num (set_width r w s') r) = nat_of ws"
    and "neg (num (set_width r w s') r) = neg (num s r)"
proof (rule write_result [of s r ws])
  show "bn_ok (num s r)" "length ws \<le> length (words (num s r))" using assms(2,3) by (simp_all add: live_def)
next
  fix s' assume s': "write_words r 0 ws s = Some s'" "only r s s'" "take (length ws) (words (num s' r)) = ws"
    "length (words (num s' r)) = length (words (num s r))" "neg (num s' r) = neg (num s r)" "bn_ok (num s' r)"
  let ?s = "set_width r w s'"
  have o: "only r s ?s" by (rule only_trans [OF s'(2) only_set(2)])
  have ok: "bn_ok (num ?s r)" using s' assms(3,4) by (simp add: bn_ok_def)
  have "take w (words (num s' r)) = take w ws" using s'(3) assms(4) by (metis min.absorb1 take_take)
  then have "magnitude (num ?s r) = nat_of ws"
    using nat_of_take [OF assms(5,4)] by (simp add: magnitude_def used_words_def)
  then show thesis using that [OF s'(1) o only_ctx_ok [OF o assms(1) ok] ok] s'(5) by simp
qed

lemma store_product:
  assumes "ctx_ok s" "live s r" "live s t" "r \<noteq> t"
    and "length ws \<le> length (words (num s r))" and "w \<le> length ws" and "nat_of ws < base w"
    and "length ts \<le> length (words (num s t))"
  obtains s' s1 where "write_product r ws t ts s = Some s'" and "only t s s1" and "only r s1 (set_width r w s')"
    and "ctx_ok (set_width r w s')"
    and "bn_ok (num (set_width r w s') r)" and "magnitude (num (set_width r w s') r) = nat_of ws"
    and "neg (num (set_width r w s') r) = neg (num s r)"
proof (rule write_result [of s t ts])
  show "bn_ok (num s t)" "length ts \<le> length (words (num s t))" using assms(3,8) by (simp_all add: live_def)
next
  fix s1 assume s1: "write_words t 0 ts s = Some s1" "only t s s1" "bn_ok (num s1 t)"
  have c: "ctx_ok s1" by (rule only_ctx_ok [OF s1(2) assms(1) s1(3)])
  have r: "num s1 r = num s r" using s1(2) assms(4) by (simp add: only_def)
  show thesis
  proof (rule store_result [of s1 r ws w])
    show "ctx_ok s1" by (rule c)
    show "live s1 r" by (rule only_live [OF s1(2,3) assms(2)])
    show "length ws \<le> length (words (num s1 r))" using assms(5) by (simp add: r)
  next
    fix s' assume "write_words r 0 ws s1 = Some s'" "only r s1 (set_width r w s')" "ctx_ok (set_width r w s')"
      "bn_ok (num (set_width r w s') r)" "magnitude (num (set_width r w s') r) = nat_of ws"
      "neg (num (set_width r w s') r) = neg (num s1 r)"
    then show thesis using that [of s' s1] s1 by (simp add: write_product_def r)
  qed (rule assms(6,7))+
qed

lemma product_less: "bn_ok a \<Longrightarrow> bn_ok b \<Longrightarrow> magnitude a * magnitude b < base (width a + width b)"
  using mult_strict_mono' [OF magnitude_less [of a] magnitude_less [of b]] by (simp add: power_add distrib_left)

section \<open>Products\<close>

text \<open>What is left after a product has been put into \<open>r\<close>.\<close>

definition product_in :: "nat \<Rightarrow> nat \<Rightarrow> bn_state \<Rightarrow> bool bn_result \<Rightarrow> bool" where
  "product_in r v s result \<longleftrightarrow> (case result of
     None \<Rightarrow> False
   | Some (ok, s') \<Rightarrow> within_frame r s s' \<and> ctx_ok s' \<and> bn_ok (num s' r) \<and>
       (ok \<longrightarrow> magnitude (num s' r) = v \<and> neg (num s' r) = neg (num s r)))"

lemma read_live: "live s x \<Longrightarrow> read_words x 0 (width (num s x)) s = Some (used_words (num s x))"
  by (simp add: live_def read_used length_used)

text \<open>The branches that need no scratch array.\<close>

lemma direct_product:
  assumes "ctx_ok s" "live s r" "live s a" "live s b" "r \<noteq> a" "r \<noteq> b" "bn_malloc_ok m"
    and "w = width (num s a) + width (num s b)"
    and "length (f (used_words (num s a)) (used_words (num s b))) = w"
    and "nat_of (f (used_words (num s a)) (used_words (num s b))) = magnitude (num s a) * magnitude (num s b)"
  shows "product_in r (magnitude (num s a) * magnitude (num s b)) s
    (do {
       (ok, s1) \<leftarrow> bn_wexpand m r w s;
       if \<not> ok then Some (False, s1)
       else do {
         as \<leftarrow> read_words a 0 (width (num s a)) (set_width r w s1);
         bs \<leftarrow> read_words b 0 (width (num s b)) (set_width r w s1);
         s2 \<leftarrow> write_words r 0 (f as bs) (set_width r w s1);
         Some (True, s2)
       }
     })"
proof (rule expand_live [OF assms(1,2,7), of w])
  fix s1 assume "bn_wexpand m r w s = Some (False, s1)" "only r s s1" "ctx_ok s1"
    "\<And>y. bn_ok (num s y) \<Longrightarrow> bn_ok (num s1 y)"
  then show ?thesis using only_within [of r s s1] assms(2) by (simp add: product_in_def live_def)
next
  fix s1 assume s1: "bn_wexpand m r w s = Some (True, s1)" "only r s s1" "ctx_ok s1" "w \<le> length (words (num s1 r))"
    and g: "\<And>y. live s y \<Longrightarrow> live s1 y \<and> grown (num s y) (num s1 y) 0"
  let ?s = "set_width r w s1" and ?ws = "f (used_words (num s a)) (used_words (num s b))"
  have lr: "bn_ok (num s1 r)" "grown (num s r) (num s1 r) 0" using g [OF assms(2)] by (simp_all add: live_def)
  have ra: "read_words x 0 (width (num s x)) ?s = Some (used_words (num s x))" if "live s x" for x
    using g [OF that] that read_grown [of s x s1 0] by (simp add: live_def)
  have ok: "bn_ok (num ?s r)" using s1(4) lr(1) by (simp add: bn_ok_def)
  have c: "ctx_ok ?s" by (rule only_ctx_ok [OF only_set(2) s1(3) ok])
  have l: "live ?s r" by (rule only_live [OF only_set(2) ok]) (use g assms(2) in blast)
  have v: "nat_of ?ws < base w"
    using product_less [of "num s a" "num s b"] assms(3,4,8,10) by (simp add: live_def)
  have len: "length ?ws \<le> length (words (num ?s r))" using s1(4) assms(9) by simp
  show ?thesis
  proof (rule store_result [OF c l len _ v])
    show "w \<le> length ?ws" by (simp add: assms(9))
  next
    fix s2 assume s2: "write_words r 0 ?ws ?s = Some s2" "only r ?s (set_width r w s2)" "ctx_ok (set_width r w s2)"
      "bn_ok (num (set_width r w s2) r)" "magnitude (num (set_width r w s2) r) = nat_of ?ws"
      "neg (num (set_width r w s2) r) = neg (num ?s r)"
    have "width (num s2 r) = w" using s2(1) by (auto simp: write_words_def)
    then have e: "set_width r w s2 = s2" by (auto simp: set_width_def upd_def fun_eq_iff intro!: bn_state.equality)
    have "within_frame r s s2"
      using only_within [OF only_trans [OF only_trans [OF s1(2) only_set(2)] s2(2)]] by (simp add: e)
    then show ?thesis using s1(1) ra [OF assms(3)] ra [OF assms(4)] s2(1,3-6) lr(2) assms(10)
      by (simp add: e product_in_def grown_def)
  qed
qed

text \<open>
  The branches with a scratch array \<open>t\<close>: the state \<open>s\<close> has it, since the state \<open>s0\<close>; both arrays
  grow, and then the words are computed and stored.
\<close>

definition scratch_ready :: "nat \<Rightarrow> nat \<Rightarrow> nat \<Rightarrow> nat \<Rightarrow> bn_state \<Rightarrow> bn_state \<Rightarrow> bool" where
  "scratch_ready r a b t s0 s \<longleftrightarrow> within_frame r s0 s \<and> ctx_ok s \<and> (\<forall>x \<in> {r, a, b, t}. live s x) \<and>
     (t \<in> temps s0 \<or> fresh s0 \<le> t) \<and> r \<noteq> t \<and> neg (num s r) = neg (num s0 r) \<and>
     (\<forall>x \<in> {a, b}. width (num s x) = width (num s0 x) \<and> used_words (num s x) = used_words (num s0 x))"

lemma ready_expand:
  assumes "scratch_ready r a b t s0 s" and "x = r \<or> x = t" and "bn_malloc_ok m"
  obtains s' where "bn_wexpand m x n s = Some (True, s')" and "scratch_ready r a b t s0 s'" and "n \<le> length (words (num s' x))"
      and "\<And>y. live s y \<Longrightarrow> grown (num s y) (num s' y) 0"
  | s' where "bn_wexpand m x n s = Some (False, s')" and "product_in r v s0 (Some (False, s'))"
proof (rule expand_live [of s x m n])
  show "ctx_ok s" "live s x" "bn_malloc_ok m" using assms by (auto simp: scratch_ready_def)
next
  have f: "within_frame r s0 s'" if "only x s s'" for s'
    using assms(1,2) temp_step [of r s0 s t s'] result_step [of r s0 s s'] that by (auto simp: scratch_ready_def)
  {
    fix s' assume s': "bn_wexpand m x n s = Some (True, s')" "only x s s'" "ctx_ok s'" "n \<le> length (words (num s' x))"
      and g: "\<And>y. live s y \<Longrightarrow> live s' y \<and> grown (num s y) (num s' y) 0"
    have "scratch_ready r a b t s0 s'"
      using assms(1) f [OF s'(2)] s'(3) g by (auto simp: scratch_ready_def grown_def)
    then show thesis using that(1) s' g by blast
  next
    fix s' assume s': "bn_wexpand m x n s = Some (False, s')" "only x s s'" "ctx_ok s'"
      "\<And>y. bn_ok (num s y) \<Longrightarrow> bn_ok (num s' y)"
    then show thesis using that(2) f assms(1) by (simp add: product_in_def scratch_ready_def live_def)
  }
qed

lemma ready_expand_both:
  assumes "scratch_ready r a b t s0 s" and "bn_malloc_ok m"
    and "\<And>s2. scratch_ready r a b t s0 s2 \<Longrightarrow> k \<le> length (words (num s2 t)) \<Longrightarrow> n \<le> length (words (num s2 r)) \<Longrightarrow>
      product_in r v s0 (g s2)"
  shows "product_in r v s0
    (do {
       (ok, s) \<leftarrow> bn_wexpand m t k s;
       if \<not> ok then Some (False, s)
       else do {
         (ok, s) \<leftarrow> bn_wexpand m r n s;
         if \<not> ok then Some (False, s) else g s
       }
     })"
proof (rule ready_expand [OF assms(1) disjI2 [OF refl] assms(2), where n = k and v = v])
  fix s1 assume s1: "bn_wexpand m t k s = Some (True, s1)" "scratch_ready r a b t s0 s1" "k \<le> length (words (num s1 t))"
  show ?thesis
  proof (rule ready_expand [OF s1(2) disjI1 [OF refl] assms(2), where n = n and v = v])
    fix s2 assume s2: "bn_wexpand m r n s1 = Some (True, s2)" "scratch_ready r a b t s0 s2" "n \<le> length (words (num s2 r))"
      and g: "\<And>y. live s1 y \<Longrightarrow> grown (num s1 y) (num s2 y) 0"
    have "k \<le> length (words (num s2 t))" using g [of t] s1(2,3) by (auto simp: scratch_ready_def grown_def)
    then show ?thesis using assms(3) [OF s2(2)] s1(1) s2(1,3) by simp
  qed (use s1(1) in simp)
qed simp

lemma ready_store:
  assumes "scratch_ready r a b t s0 s" and "k \<le> length (words (num s t))" and "n \<le> length (words (num s r))"
    and "multiplies result n k (magnitude (num s0 a) * magnitude (num s0 b))"
    and "w = width (num s0 a) + width (num s0 b)" and "w \<le> n"
  shows "product_in r (magnitude (num s0 a) * magnitude (num s0 b)) s0
    (do { (ws, ts) \<leftarrow> result; s1 \<leftarrow> write_product r ws t ts s; Some (True, set_width r w s1) })"
proof -
  obtain ws ts where r: "result = Some (ws, ts)" "length ws = n" "length ts = k"
    "nat_of ws = magnitude (num s0 a) * magnitude (num s0 b)"
    using assms(4) by (rule multipliesE)
  have la: "live s a" "live s b" "live s r" "live s t" "r \<noteq> t" "ctx_ok s" using assms(1) by (simp_all add: scratch_ready_def)
  have m: "magnitude (num s0 x) = magnitude (num s x)" "width (num s0 x) = width (num s x)" if "x = a \<or> x = b" for x
    using assms(1) that by (auto simp: scratch_ready_def magnitude_def)
  have v: "nat_of ws < base w"
    using product_less [of "num s a" "num s b"] la(1,2) by (simp add: r(4) assms(5) m live_def)
  show ?thesis
  proof (rule store_product [OF la(6,3,4,5), of ws w ts])
    show "length ws \<le> length (words (num s r))" "w \<le> length ws" "length ts \<le> length (words (num s t))"
      using assms(2,3,6) by (simp_all add: r(2,3))
    show "nat_of ws < base w" by (rule v)
  next
    fix s2 s1 assume s2: "write_product r ws t ts s = Some s2" "only t s s1" "only r s1 (set_width r w s2)"
      "ctx_ok (set_width r w s2)" "bn_ok (num (set_width r w s2) r)" "magnitude (num (set_width r w s2) r) = nat_of ws"
      "neg (num (set_width r w s2) r) = neg (num s r)"
    have "within_frame r s0 s1"
      using assms(1) by (intro temp_step [OF _ s2(2)]) (simp_all add: scratch_ready_def)
    then have "within_frame r s0 (set_width r w s2)" by (rule result_step [OF _ s2(3)])
    then show ?thesis using s2 assms(1) by (simp add: product_in_def r scratch_ready_def)
  qed
qed

text \<open>The largest power of two that is not above the larger width.\<close>

lemma karatsuba_size:
  assumes "16 \<le> n" and "n \<le> BN_MAX_WORDS"
  obtains k where "BN_num_bits_word (of_nat n) - 1 = k" and "8 \<le> (2 :: nat) ^ k" and "2 ^ k \<le> n" and "n < 2 * 2 ^ k"
proof -
  let ?l = "of_nat n :: u64"
  have "n < 2 ^ 64" using assms(2) by (simp add: BN_MAX_WORDS_def)
  then have u: "unat ?l = n" by (simp add: unat_of_nat)
  then have "?l \<noteq> 0" using assms(1) by (metis unat_0 not_numeral_le_zero)
  note b = num_bits_word [OF this, unfolded u]
  have "n < 2 * 2 ^ (BN_num_bits_word ?l - 1)" using b(1,3) by (simp flip: power_Suc)
  then show thesis using that [OF refl] b(2) assms(1) by simp
qed

lemma mul_karatsuba:
  assumes "ctx_ok s" "live s r" "live s a" "live s b" "r \<noteq> a" "r \<noteq> b" "bn_malloc_ok m"
    and "16 \<le> width (num s a)" "16 \<le> width (num s b)"
    and "width (num s a) \<le> width (num s b) + 1" "width (num s b) \<le> width (num s a) + 1"
  shows "product_in r (magnitude (num s a) * magnitude (num s b)) s (mul_karatsuba m r a b s)"
proof -
  let ?al = "width (num s a)" and ?bl = "width (num s b)" and ?v = "magnitude (num s a) * magnitude (num s b)"
  let ?n = "if ?al \<ge> ?bl then ?al else ?bl"
  have mx: "?n \<le> BN_MAX_WORDS" "16 \<le> ?n" using assms(3,4,8,9) by (auto simp: live_def bn_ok_def)
  obtain k where k: "BN_num_bits_word (of_nat ?n) - 1 = k" and j8: "8 \<le> (2 :: nat) ^ k" and j: "2 ^ k \<le> ?n" "?n < 2 * 2 ^ k"
    using karatsuba_size [OF mx(2,1)] by blast
  define J where "J = (2 :: nat) ^ k"
  note j8 = j8 [folded J_def] and j = j [folded J_def]
  have top: "J \<le> ?al \<or> J \<le> ?bl" "?al < 2 * J" "?bl < 2 * J" using j by (auto split: if_splits)
  show ?thesis
  proof (rule ctx_get [OF assms(1), of m])
    fix s1 assume s1: "BN_CTX_get m s = Some (None, s1)" "\<And>r. within_frame r s s1" "ctx_ok s1"
    then show ?thesis unfolding mul_karatsuba_def Let_def k J_def [symmetric] using top(1)
      using live_within [OF assms(2) s1(2) [of "Suc r"]] assms(2) by (simp add: check_def product_in_def live_def)
  next
    fix t s1 assume s1: "BN_CTX_get m s = Some (Some t, s1)" "\<And>r. within_frame r s s1" "ctx_ok s1" "live s1 t"
      "t \<in> temps s \<or> fresh s \<le> t"
    have same: "live s1 x \<and> num s1 x = num s x" if "live s x" for x
      using live_within [OF that s1(2) [of "Suc x"]] by simp
    have "r \<noteq> t" using s1(5) assms(2) by (auto simp: live_def)
    then have ready: "scratch_ready r a b t s s1"
      using s1(2-5) same [OF assms(2)] same [OF assms(3)] same [OF assms(4)] by (simp add: scratch_ready_def)
    have reads: "read_words x 0 (width (num s x)) s2 = Some (used_words (num s x))"
      if "scratch_ready r a b t s s2" "x = a \<or> x = b" for s2 x
      using that read_live [of s2 x] by (auto simp: scratch_ready_def)
    have la: "length (used_words (num s a)) = ?al" "length (used_words (num s b)) = ?bl"
      using assms(3,4) by (simp_all add: live_def length_used)
    show ?thesis
    proof (cases "?al > J \<or> ?bl > J")
      case True
      then have ge: "J \<le> ?al" "J \<le> ?bl" using assms(10,11) by linarith+
      let ?tail = "\<lambda>s2. do {
        x \<leftarrow> read_words r 0 (J * 4) s2;
        as \<leftarrow> read_words a 0 ?al s2; bs \<leftarrow> read_words b 0 ?bl s2;
        ts \<leftarrow> read_words t 0 (J * 8) s2;
        (ws, ts) \<leftarrow> bn_mul_part_recursive x as bs J (?al - J) (?bl - J) ts;
        s3 \<leftarrow> write_product r ws t ts s2;
        Some (True, set_width r (?al + ?bl) s3) }"
      have "product_in r ?v s (?tail s2)"
        if s2: "scratch_ready r a b t s s2" "J * 8 \<le> length (words (num s2 t))" "J * 4 \<le> length (words (num s2 r))" for s2
      proof -
        have "multiplies (bn_mul_part_recursive (take (J * 4) (words (num s2 r))) (used_words (num s a)) (used_words (num s b))
            J (?al - J) (?bl - J) (take (J * 8) (words (num s2 t)))) (4 * J) (J * 8) ?v"
          using bn_mul_part_recursive_value [OF J_def j8, of "?al - J" "?bl - J" "used_words (num s a)" "used_words (num s b)"
              "take (J * 4) (words (num s2 r))" "take (J * 8) (words (num s2 t))"] top(2,3) assms(10,11) ge la s2(2,3)
          by (simp add: magnitude_def mult.commute)
        note st = ready_store [OF s2(1,2) _ this refl]
        show ?thesis using st s2(2,3) top(2,3) reads [OF s2(1)] by (simp add: read_words_ok mult.commute)
      qed
      from ready_expand_both [OF ready assms(7) this] show ?thesis
        unfolding mul_karatsuba_def Let_def k J_def [symmetric] using s1(1) top(1) True ge by (simp add: check_def)
    next
      case False
      then have le: "?al \<le> J" "?bl \<le> J" by linarith+
      let ?tail = "\<lambda>s2. do {
        as \<leftarrow> read_words a 0 ?al s2; bs \<leftarrow> read_words b 0 ?bl s2;
        ts \<leftarrow> read_words t 0 (J * 4) s2;
        (ws, ts) \<leftarrow> bn_mul_recursive as bs J (int ?al - int J) (int ?bl - int J) ts;
        s3 \<leftarrow> write_product r ws t ts s2;
        Some (True, set_width r (?al + ?bl) s3) }"
      have "product_in r ?v s (?tail s2)"
        if s2: "scratch_ready r a b t s s2" "J * 4 \<le> length (words (num s2 t))" "J * 2 \<le> length (words (num s2 r))" for s2
      proof -
        have "multiplies (bn_mul_recursive (used_words (num s a)) (used_words (num s b))
            J (int ?al - int J) (int ?bl - int J) (take (J * 4) (words (num s2 t)))) (2 * J) (J * 4) ?v"
          using bn_mul_recursive_value [OF J_def, of "int ?al - int J" "int ?bl - int J" "used_words (num s a)"
              "used_words (num s b)" "take (J * 4) (words (num s2 t))"] top(1) le assms(10,11) la s2(2)
          by (auto simp: magnitude_def mult.commute)
        note st = ready_store [OF s2(1,2) _ this refl]
        show ?thesis using st s2(2,3) le reads [OF s2(1)] by (simp add: read_words_ok mult.commute)
      qed
      from ready_expand_both [OF ready assms(7) this] show ?thesis
        unfolding mul_karatsuba_def Let_def k J_def [symmetric] using s1(1) top(1) False by (simp add: check_def)
    qed
  qed
qed

lemma mul_into:
  assumes "ctx_ok s" "live s r" "live s a" "live s b" "r \<noteq> a" "r \<noteq> b" "bn_malloc_ok m"
  shows "product_in r (magnitude (num s a) * magnitude (num s b)) s (mul_into m r a b s)"
proof -
  let ?al = "width (num s a)" and ?bl = "width (num s b)"
  have l: "length (used_words (num s a)) = ?al" "length (used_words (num s b)) = ?bl"
    using assms(3,4) by (simp_all add: live_def length_used)
  consider "?al = 8" "?bl = 8" | "kMulNormalSize \<le> ?al" "kMulNormalSize \<le> ?bl" "?al \<le> ?bl + 1" "?bl \<le> ?al + 1"
    | "\<not> (?al = ?bl \<and> ?al = 8)"
      "\<not> (?al \<ge> kMulNormalSize \<and> ?bl \<ge> kMulNormalSize \<and> ?al \<le> ?bl + 1 \<and> ?bl \<le> ?al + 1)"
    by (cases "?al = ?bl \<and> ?al = 8") auto
  then show ?thesis
  proof cases
    case 1
    have "product_in r (magnitude (num s a) * magnitude (num s b)) s
      (do {
         (ok, s1) \<leftarrow> bn_wexpand m r 16 s;
         if \<not> ok then Some (False, s1)
         else do {
           as \<leftarrow> read_words a 0 ?al (set_width r 16 s1);
           bs \<leftarrow> read_words b 0 ?bl (set_width r 16 s1);
           s2 \<leftarrow> write_words r 0 (bn_mul_comba8 as bs) (set_width r 16 s1);
           Some (True, s2)
         }
       })"
      using 1 l bn_mul_comba8_value [of "used_words (num s a)" "used_words (num s b)"]
      by (intro direct_product [OF assms]) (simp_all add: magnitude_def)
    then show ?thesis unfolding 1 read_set mul_into_def Let_def by simp
  next
    case 2
    have "mul_into m r a b s = mul_karatsuba m r a b s" using 2 by (simp add: mul_into_def kMulNormalSize_def)
    then show ?thesis using mul_karatsuba [OF assms] 2 by (simp add: kMulNormalSize_def)
  next
    case 3
    have "product_in r (magnitude (num s a) * magnitude (num s b)) s
      (do {
         (ok, s1) \<leftarrow> bn_wexpand m r (?al + ?bl) s;
         if \<not> ok then Some (False, s1)
         else do {
           as \<leftarrow> read_words a 0 ?al (set_width r (?al + ?bl) s1);
           bs \<leftarrow> read_words b 0 ?bl (set_width r (?al + ?bl) s1);
           s2 \<leftarrow> write_words r 0 (bn_mul_normal as bs) (set_width r (?al + ?bl) s1);
           Some (True, s2)
         }
       })"
      using l bn_mul_normal_value [of "used_words (num s a)" "used_words (num s b)"]
      by (intro direct_product [OF assms]) (simp_all add: magnitude_def)
    then show ?thesis unfolding mul_into_def Let_def if_not_P [OF 3(1)] if_not_P [OF 3(2)] .
  qed
qed

section \<open>Copies\<close>

lemma BN_copy_cases:
  assumes "ctx_ok s" "live s dest" "live s src" "dest \<noteq> src" "bn_malloc_ok m"
  obtains s' where "BN_copy m dest src s = Some (True, s')" and "only dest s s'" and "ctx_ok s'" and "bn_ok (num s' dest)"
      and "magnitude (num s' dest) = magnitude (num s src)" and "neg (num s' dest) = neg (num s src)"
  | s' where "BN_copy m dest src s = Some (False, s')" and "only dest s s'" and "ctx_ok s'" and "bn_ok (num s' dest)"
proof (rule expand_live [OF assms(1,2,5), of "width (num s src)"])
  fix s1 assume "bn_wexpand m dest (width (num s src)) s = Some (False, s1)" "only dest s s1" "ctx_ok s1"
    "\<And>y. bn_ok (num s y) \<Longrightarrow> bn_ok (num s1 y)"
  then show thesis using that(2) [of s1] assms(2,4) by (simp add: BN_copy_def live_def)
next
  let ?w = "width (num s src)" and ?ws = "used_words (num s src)"
  fix s1 assume s1: "bn_wexpand m dest ?w s = Some (True, s1)" "only dest s s1" "ctx_ok s1" "?w \<le> length (words (num s1 dest))"
    and g: "\<And>y. live s y \<Longrightarrow> live s1 y \<and> grown (num s y) (num s1 y) 0"
  have same: "num s1 src = num s src" using s1(2) assms(4) by (simp add: only_def)
  have r: "read_words src 0 ?w s1 = Some ?ws" using read_live [of s1 src] g [OF assms(3)] same by simp
  have l: "length ?ws = ?w" using assms(3) by (simp add: live_def length_used)
  have b: "nat_of ?ws < base ?w" using nat_of_less [of ?ws] by (simp only: l)
  have d: "live s1 dest" using g assms(2) by blast
  show thesis
  proof (rule store_result [OF s1(3) d _ _ b])
    show "length ?ws \<le> length (words (num s1 dest))" "?w \<le> length ?ws" using s1(4) l by simp_all
  next
    fix s2 assume s2: "write_words dest 0 ?ws s1 = Some s2" "only dest s1 (set_width dest ?w s2)" "ctx_ok (set_width dest ?w s2)"
      "bn_ok (num (set_width dest ?w s2) dest)" "magnitude (num (set_width dest ?w s2) dest) = nat_of ?ws"
    have same2: "num s2 src = num s src" using s2(2) assms(4) same by (simp add: only_def)
    let ?s = "set_neg dest (neg (num s src)) (set_width dest ?w s2)"
    have "BN_copy m dest src s = Some (True, ?s)"
      using s1(1) r s2(1) assms(4) by (simp add: BN_copy_def same same2)
    moreover have o: "only dest s ?s" by (rule only_set_neg) (rule only_trans [OF s1(2) s2(2)])
    moreover have "bn_ok (num ?s dest)" using s2(4) by (simp add: bn_ok_def)
    moreover have "magnitude (num ?s dest) = magnitude (num s src)" using s2(5) by (simp add: magnitude_def used_words_def)
    ultimately show thesis using that(1) [of ?s] only_ctx_ok [OF o assms(1)] by simp
  qed
qed

section \<open>The properties\<close>

text \<open>
  What a call leaves that puts the number \<open>x\<close> into \<open>r\<close> and takes temporaries from the context.
\<close>

definition result_in :: "nat \<Rightarrow> int \<Rightarrow> bn_state \<Rightarrow> bool bn_result \<Rightarrow> bool" where
  "result_in r x s result \<longleftrightarrow> (case result of
     None \<Rightarrow> False
   | Some (ok, s') \<Rightarrow> framed r s s' \<and> bn_ok (num s' r) \<and> (ok \<longrightarrow> bn_val (num s' r) = x))"

lemma only_framed: "only r s s' \<Longrightarrow> ctx_ok s' \<Longrightarrow> framed r s s'"
  using only_within [of r s s'] by (simp add: framed_def only_def)

lemma framed_only:
  assumes "framed r s s1" and "only r s1 s2" and "bn_ok (num s2 r)"
  shows "framed r s s2"
proof -
  have "ctx_ok s2" using only_ctx_ok [OF assms(2) _ assms(3)] assms(1) by (simp add: framed_def)
  moreover have "within_frame r s s2" using assms(1) result_step [OF _ assms(2)] by (simp add: framed_def)
  ultimately show ?thesis using assms(1,2) by (simp add: framed_def only_def)
qed

lemma end_result:
  assumes "within_frame r (BN_CTX_start m s) s'" and "ctx_ok s'" and "bn_ok (num s' r)"
    and "ok \<Longrightarrow> bn_val (num s' r) = x"
  shows "result_in r x s (do { s1 \<leftarrow> BN_CTX_end s'; Some (ok, s1) })"
proof (rule ctx_end [OF assms(1,2)])
  fix s1 assume "BN_CTX_end s' = Some s1" "num s1 = num s'" "framed r s s1"
  then show ?thesis using assms(3,4) by (simp add: result_in_def)
qed

lemma product_sign: "magnitude b = magnitude c * magnitude d \<Longrightarrow> neg b = (neg c \<noteq> neg d) \<Longrightarrow> bn_val b = bn_val c * bn_val d"
  by (simp add: bn_val_def)

lemma within_temp: "within_frame t s0 s \<Longrightarrow> t \<in> temps s0 \<or> fresh s0 \<le> t \<Longrightarrow> within_frame r s0 s"
  by (auto simp: within_frame_def)

text \<open>The product goes into a number \<open>rr\<close> whose sign has been set.\<close>

lemma sign_product:
  assumes "ctx_ok s" "live s rr" "live s a" "live s b" "rr \<noteq> a" "rr \<noteq> b" "bn_malloc_ok m"
  obtains ok s' where "mul_into m rr a b (set_neg rr sg s) = Some (ok, s')" and "within_frame rr s s'" and "ctx_ok s'"
    and "bn_ok (num s' rr)"
    and "ok \<Longrightarrow> magnitude (num s' rr) = magnitude (num s a) * magnitude (num s b) \<and> neg (num s' rr) = sg"
proof -
  let ?s = "set_neg rr sg s"
  have ok: "bn_ok (num ?s rr)" using assms(2) by (simp add: live_def)
  have l: "live ?s x" if "live s x" for x by (rule only_live [OF only_set(3) ok that])
  have p: "product_in rr (magnitude (num ?s a) * magnitude (num ?s b)) ?s (mul_into m rr a b ?s)"
    by (rule mul_into [OF only_ctx_ok [OF only_set(3) assms(1) ok] l [OF assms(2)] l [OF assms(3)] l [OF assms(4)] assms(5-7)])
  have same: "magnitude (num ?s a) = magnitude (num s a)" "magnitude (num ?s b) = magnitude (num s b)" "neg (num ?s rr) = sg"
    using assms(5,6) by simp_all
  obtain ok s' where r: "mul_into m rr a b ?s = Some (ok, s')" using p by (auto simp: product_in_def split: option.splits)
  have "within_frame rr ?s s'" using p unfolding r by (simp add: product_in_def)
  then have "within_frame rr s s'" by (rule frame_trans [OF only_within [OF only_set(3)]])
  then show thesis using that [OF r] p unfolding r same by (simp add: product_in_def same)
qed

lemma bn_mul_impl_zero:
  assumes "ctx_ok s" "live s r" "width (num s a) = 0 \<or> width (num s b) = 0"
  shows "result_in r (bn_val (num s a) * bn_val (num s b)) s (bn_mul_impl m r a b s)"
proof -
  have o: "only r s (BN_zero r s)" and ok: "bn_ok (num (BN_zero r s) r)"
    using zero_only assms(2) by (simp_all add: live_def)
  have "framed r s (BN_zero r s)" by (rule only_framed [OF o only_ctx_ok [OF o assms(1) ok]])
  moreover have "bn_val (num (BN_zero r s) r) = bn_val (num s a) * bn_val (num s b)"
    using assms(3) by (auto simp: bn_val_def magnitude_def used_words_def BN_zero_def)
  ultimately show ?thesis using assms(3) ok by (simp add: bn_mul_impl_def result_in_def)
qed

lemma bn_mul_impl_other:
  assumes "bn_malloc_ok m" "ctx_ok s" "live s r" "live s a" "live s b"
    and "r \<noteq> a" "r \<noteq> b" and w: "\<not> (width (num s a) = 0 \<or> width (num s b) = 0)"
  shows "result_in r (bn_val (num s a) * bn_val (num s b)) s (bn_mul_impl m r a b s)"
proof -
  let ?s0 = "BN_CTX_start m s"
  have l: "ctx_ok ?s0" "live ?s0 r" "live ?s0 a" "live ?s0 b" using assms by (simp_all add: start_simps)
  have r: "\<not> (r = a \<or> r = b)" using assms(6,7) by simp
  obtain ok s' where s': "mul_into m r a b (set_neg r (neg (num s a) \<noteq> neg (num s b)) ?s0) = Some (ok, s')"
    "within_frame r ?s0 s'" "ctx_ok s'" "bn_ok (num s' r)"
    "ok \<Longrightarrow> magnitude (num s' r) = magnitude (num ?s0 a) * magnitude (num ?s0 b) \<and> neg (num s' r) = (neg (num s a) \<noteq> neg (num s b))"
    using sign_product [OF l assms(6,7,1)] by blast
  have "ok \<Longrightarrow> bn_val (num s' r) = bn_val (num s a) * bn_val (num s b)"
    using s'(5) by (intro product_sign) (simp_all add: ctx_start)
  note e = end_result [OF s'(2-4) this]
  have "bn_mul_impl m r a b s = do { s1 \<leftarrow> BN_CTX_end s'; Some (ok, s1) }"
    unfolding bn_mul_impl_def if_not_P [OF w] if_not_P [OF r] Let_def using s'(1) by (simp add: ctx_start)
  then show ?thesis using e by simp
qed

lemma bn_mul_impl_alias:
  assumes "bn_malloc_ok m" "ctx_ok s" "live s r" "live s a" "live s b"
    and r: "r = a \<or> r = b" and w: "\<not> (width (num s a) = 0 \<or> width (num s b) = 0)"
  shows "result_in r (bn_val (num s a) * bn_val (num s b)) s (bn_mul_impl m r a b s)"
proof -
  let ?s0 = "BN_CTX_start m s" and ?sign = "neg (num s a) \<noteq> neg (num s b)"
  let ?x = "bn_val (num s a) * bn_val (num s b)"
  have c0: "ctx_ok ?s0" using assms(2) by (simp add: start_simps)
  have live0: "live ?s0 x" if "live s x" for x using that by (simp add: start_simps)
  show ?thesis
  proof (rule ctx_get [OF c0, of m])
    fix s1 assume s1: "BN_CTX_get m ?s0 = Some (None, s1)" "\<And>r. within_frame r ?s0 s1" "ctx_ok s1"
    have "bn_ok (num s1 r)" using live_within [OF live0 [OF assms(3)] s1(2) [of "Suc r"]] live0 [OF assms(3)]
      by (simp add: live_def)
    then have "result_in r ?x s (do { s2 \<leftarrow> BN_CTX_end s1; Some (False, s2) })" by (rule end_result [OF s1(2,3)]) simp
    moreover have "bn_mul_impl m r a b s = do { s2 \<leftarrow> BN_CTX_end s1; Some (False, s2) }"
      unfolding bn_mul_impl_def if_not_P [OF w] if_P [OF r] Let_def using s1(1) by simp
    ultimately show ?thesis by simp
  next
    fix t s1 assume s1: "BN_CTX_get m ?s0 = Some (Some t, s1)" "\<And>r. within_frame r ?s0 s1" "ctx_ok s1" "live s1 t"
      "t \<in> temps ?s0 \<or> fresh ?s0 \<le> t"
    have same: "live s1 x" "num s1 x = num s x" if "live s x" for x
      using live_within [OF live0 [OF that] s1(2) [of "Suc x"]] by (simp_all add: ctx_start)
    have nt: "t \<noteq> x" if "live s x" for x using s1(5) live0 [OF that] by (auto simp: live_def)
    note la = same [OF assms(4)] and lb = same [OF assms(5)] and lr = same [OF assms(3)]
    obtain ok s2 where s2: "mul_into m t a b (set_neg t ?sign s1) = Some (ok, s2)" "within_frame t s1 s2" "ctx_ok s2"
      "bn_ok (num s2 t)" "ok \<Longrightarrow> magnitude (num s2 t) = magnitude (num s a) * magnitude (num s b) \<and> neg (num s2 t) = ?sign"
      using sign_product [OF s1(3,4) la(1) lb(1) nt [OF assms(4)] nt [OF assms(5)] assms(1), of ?sign] la(2) lb(2) by metis
    have w2: "within_frame r ?s0 s2" by (rule within_temp [OF frame_trans [OF s1(2) s2(2)] s1(5)])
    have lr2: "live s2 r" using live_within [OF lr(1) s2(2)] nt [OF assms(3)] by simp
    have rt: "r \<noteq> t" using nt [OF assms(3)] by simp
    have body: "bn_mul_impl m r a b s = do {
        (ok, s3) \<leftarrow> (if \<not> ok then Some (False, s2) else BN_copy m r t s2);
        s3 \<leftarrow> BN_CTX_end s3; Some (ok, s3) }"
      unfolding bn_mul_impl_def if_not_P [OF w] if_P [OF r] Let_def using s1(1) s2(1) rt la(2) lb(2) by simp
    show ?thesis
    proof (cases ok)
      case False
      have "result_in r ?x s (do { s3 \<leftarrow> BN_CTX_end s2; Some (False, s3) })"
        using lr2 by (intro end_result [OF w2 s2(3)]) (simp_all add: live_def)
      then show ?thesis using False by (simp add: body)
    next
      case True
      have lt: "live s2 t" using s1(4) s2(2,4) within_temps [OF s2(2)] by (auto simp: live_def within_frame_def)
      have v: "bn_val (num s2 t) = ?x" using s2(5) [OF True] by (intro product_sign) simp_all
      show ?thesis
      proof (rule BN_copy_cases [OF s2(3) lr2 lt rt assms(1)])
        fix s3 assume s3: "BN_copy m r t s2 = Some (True, s3)" "only r s2 s3" "ctx_ok s3" "bn_ok (num s3 r)"
          "magnitude (num s3 r) = magnitude (num s2 t)" "neg (num s3 r) = neg (num s2 t)"
        have "bn_val (num s3 r) = ?x" using v by (simp only: bn_val_def s3(5,6))
        then have "result_in r ?x s (do { s4 \<leftarrow> BN_CTX_end s3; Some (True, s4) })"
          by (rule end_result [OF result_step [OF w2 s3(2)] s3(3,4)])
        then show ?thesis using True s3(1) by (simp add: body)
      next
        fix s3 assume s3: "BN_copy m r t s2 = Some (False, s3)" "only r s2 s3" "ctx_ok s3" "bn_ok (num s3 r)"
        have "result_in r ?x s (do { s4 \<leftarrow> BN_CTX_end s3; Some (False, s4) })"
          using s3 by (intro end_result [OF result_step [OF w2 s3(2)] s3(3)]) simp_all
        then show ?thesis using True s3(1) by (simp add: body)
      qed
    qed
  qed
qed

lemma bn_mul_impl_exact:
  assumes "bn_malloc_ok m" "ctx_ok s" "live s r" "live s a" "live s b"
  shows "result_in r (bn_val (num s a) * bn_val (num s b)) s (bn_mul_impl m r a b s)"
  using bn_mul_impl_zero [OF assms(2,3)] bn_mul_impl_other [OF assms] bn_mul_impl_alias [OF assms] by blast

text \<open>
  C35: \<open>BN_mul\<close> puts the product of two integers into \<open>r\<close>, in normal form, whichever of its methods it
  takes (schoolbook, column by column for eight words, Karatsuba for 16 words and more of nearly
  equal widths) and whichever of \<open>r\<close>, \<open>a\<close> and \<open>b\<close> are the same object. It is always defined: no access
  leaves an array or the scratch space and no assertion fails. Nothing changes but \<open>r\<close> and the
  free temporaries of the context, whose frames are as before unless the context has failed.
\<close>

theorem BN_mul_exact:
  assumes "bn_malloc_ok m" "ctx_ok s" "live s r" "live s a" "live s b"
  shows "\<exists>ok s'. BN_mul m r a b s = Some (ok, s') \<and> framed r s s' \<and> bn_ok (num s' r) \<and>
    (ok \<longrightarrow> normal (num s' r) \<and> bn_val (num s' r) = bn_val (num s a) * bn_val (num s b))"
proof -
  obtain ok s1 where s1: "bn_mul_impl m r a b s = Some (ok, s1)" "framed r s s1" "bn_ok (num s1 r)"
    "ok \<longrightarrow> bn_val (num s1 r) = bn_val (num s a) * bn_val (num s b)"
    using bn_mul_impl_exact [OF assms] by (auto simp: result_in_def split: option.splits)
  have "framed r s (bn_set_minimal_width r s1)"
    by (rule framed_only [OF s1(2) only_set(4) set_minimal_width(1) [OF s1(3)]])
  then show ?thesis using s1 set_minimal_width [OF s1(3)] set_minimal_width_val [OF s1(3)] by (auto simp: BN_mul_def)
qed

lemma heap_of_ctx [simp]: "ctx_ok (heap_of bs)" "x < length bs \<Longrightarrow> live (heap_of bs) x = bn_ok (bs ! x)"
  by (simp_all add: ctx_ok_def live_def temps_def blist_def new_ctx_def)

lemmas ctx_run_simps = BN_CTX_start_def BN_STACK_push_def BN_STACK_pop_def request_def set_ctx_def new_ctx_def
  BN_CTX_START_FRAMES_def BN_CTX_get_def new_bignums_def next_bignum_def BN_new_def push_bignum_def grow_bignums_def
  BN_zero_def BN_CTX_end_def BN_copy_def

lemma BN_mul_exact_witness:
  "(\<exists>ok s'. BN_mul calloc 0 0 1 (heap_of [number [5], minus_number [8]]) = Some (ok, s') \<and>
     (ok \<longrightarrow> bn_val (num s' 0) = - 40)) \<and>
   (\<exists>s'. BN_mul calloc 0 0 1 (heap_of [number [5], minus_number [8]]) = Some (True, s') \<and>
     used_words (num s' 0) = [40] \<and> neg (num s' 0))"
proof
  let ?s = "heap_of [number [5], minus_number [8]]"
  have "bn_val (num ?s 0) * bn_val (num ?s 1) = - 40" by simp
  then show "\<exists>ok s'. BN_mul calloc 0 0 1 ?s = Some (ok, s') \<and> (ok \<longrightarrow> bn_val (num s' 0) = - 40)"
    using BN_mul_exact [of calloc ?s 0 0 1] by auto
  show "\<exists>s'. BN_mul calloc 0 0 1 ?s = Some (True, s') \<and> used_words (num s' 0) = [40] \<and> neg (num s' 0)"
    by (simp add: bn_run_simps ctx_run_simps BN_mul_def bn_mul_impl_def mul_into_def kMulNormalSize_def bn_mul_normal_def
        bn_mul_words_def mul_word_def Lw_def Hw_def)
qed

section \<open>Karatsuba and the schoolbook\<close>

text \<open>
  C36: \<open>bn_mul_recursive\<close> computes the words of the schoolbook method \<open>bn_mul_normal\<close>, followed by
  zeros: for a power of two \<open>n2\<close>, arrays up to eight words shorter than \<open>n2\<close> and scratch space of
  \<open>4 * n2\<close> words it returns, stays inside its arrays, and its assertions hold.
\<close>

theorem bn_mul_recursive_schoolbook:
  assumes "n2 = 2 ^ k" and "- 8 \<le> dna" "dna \<le> 0" and "- 8 \<le> dnb" "dnb \<le> 0"
    and "int (length a) = int n2 + dna" and "int (length b) = int n2 + dnb" and "4 * n2 \<le> length t"
  shows "\<exists>t'. bn_mul_recursive a b n2 dna dnb t = Some (bn_mul_normal a b @ replicate (nat (- (dna + dnb))) 0, t') \<and>
    length t' = length t"
proof -
  obtain r t' where r: "bn_mul_recursive a b n2 dna dnb t = Some (r, t')" "length r = 2 * n2" "length t' = length t"
    "nat_of r = nat_of a * nat_of b"
    using bn_mul_recursive_value [OF assms] by (rule multipliesE)
  have "r = bn_mul_normal a b @ replicate (nat (- (dna + dnb))) 0"
  proof (rule nat_of_inj)
    show "length r = length (bn_mul_normal a b @ replicate (nat (- (dna + dnb))) 0)"
      using r(2) bn_mul_normal_value [of a b] assms(3,5-7) by simp
    show "nat_of r = nat_of (bn_mul_normal a b @ replicate (nat (- (dna + dnb))) 0)"
      using r(4) bn_mul_normal_value [of a b] by (simp add: nat_of_append)
  qed
  then show ?thesis using r(1,3) by simp
qed

lemma bn_mul_recursive_schoolbook_witness:
  "\<exists>t'. bn_mul_recursive (replicate 16 1) (replicate 15 2) 16 0 (- 1) (replicate 64 0) =
     Some (bn_mul_normal (replicate 16 1) (replicate 15 2) @ [0], t') \<and> length t' = 64"
  using bn_mul_recursive_schoolbook [of 16 4 0 "- 1" "replicate 16 1" "replicate 15 2" "replicate 64 0"]
  by (simp add: numeral_eq_Suc [of Num.One] replicate_Suc [of 0])

text \<open>
  For arrays of fewer than eight words, which no caller passes, \<open>bn_mul_part_recursive\<close> clears bytes
  where it means words: two words behind the product keep what was in the array.
\<close>

lemma bn_mul_part_recursive_stale:
  "bn_mul_part_recursive [0, 0, 0x10000, 7] [3] [5] 1 0 0 t = Some ([15, 0, 0x10000, 7], t)"
proof -
  have m: "0x10000 AND NOT (mask 16) = (0x10000 :: u64)"
    by (simp add: mask_eq_exp_minus_1)
  have c: "clear_bytes 2 [0x10000, 7] = [0x10000, 7]"
    using m by (simp add: clear_bytes_def upt_conv_Cons)
  have n: "bn_mul_normal [3] [5] = [15, 0]" by (simp add: bn_mul_normal_def bn_mul_words_def mul_word_def Lw_def Hw_def)
  show ?thesis using c n
    by (simp add: bn_mul_part_recursive.simps check_def power_of_two_def get_def put_def)
qed

end
