(* ===== verification/BnSqrThms.thy ===== *)
theory BnSqrThms
  imports BnMulThms
begin

text \<open>Squares of numbers are exact.\<close>

text \<open>The words of a result have been stored, the width and the sign not yet.\<close>

definition stored :: "nat \<Rightarrow> nat \<Rightarrow> nat \<Rightarrow> bn_state \<Rightarrow> bool bn_result \<Rightarrow> bool" where
  "stored r v w s0 result \<longleftrightarrow> (case result of
     None \<Rightarrow> False
   | Some (ok, s) \<Rightarrow> (if ok then within_frame r s0 (set_width r w s) \<and> ctx_ok (set_width r w s) \<and>
         bn_ok (num (set_width r w s) r) \<and> magnitude (num (set_width r w s) r) = v
       else within_frame r s0 s \<and> ctx_ok s \<and> bn_ok (num s r)))"

lemma stored_direct:
  assumes "scratch_ready r a a t s0 s" and "length ws = w" "w \<le> length (words (num s r))"
    and "nat_of ws = v"
  shows "stored r v w s0 (map_option (Pair True) (write_words r 0 ws s))"
proof -
  have b: "nat_of ws < base w" using nat_of_less [of ws] by (simp only: assms(2))
  have l: "ctx_ok s" "live s r" "within_frame r s0 s" using assms(1) by (simp_all add: scratch_ready_def)
  show ?thesis
  proof (rule store_result [OF l(1,2) _ _ b])
    show "length ws \<le> length (words (num s r))" "w \<le> length ws" using assms(2,3) by simp_all
  next
    fix s1 assume s1: "write_words r 0 ws s = Some s1" "only r s (set_width r w s1)" "ctx_ok (set_width r w s1)"
      "bn_ok (num (set_width r w s1) r)" "magnitude (num (set_width r w s1) r) = nat_of ws"
    then show ?thesis using result_step [OF l(3) s1(2)] assms(4) by (simp add: stored_def)
  qed
qed

lemma stored_scratch:
  assumes "scratch_ready r a a t s0 s" and "length ws = w" "w \<le> length (words (num s r))"
    and "nat_of ws = v" and "length ts \<le> length (words (num s t))"
  shows "stored r v w s0 (map_option (Pair True) (write_product r ws t ts s))"
proof -
  have b: "nat_of ws < base w" using nat_of_less [of ws] by (simp only: assms(2))
  have l: "ctx_ok s" "live s r" "live s t" "r \<noteq> t" using assms(1) by (simp_all add: scratch_ready_def)
  show ?thesis
  proof (rule store_product [OF l _ _ b assms(5)])
    show "length ws \<le> length (words (num s r))" "w \<le> length ws" using assms(2,3) by simp_all
  next
    fix s2 s1 assume s2: "write_product r ws t ts s = Some s2" "only t s s1" "only r s1 (set_width r w s2)"
      "ctx_ok (set_width r w s2)" "bn_ok (num (set_width r w s2) r)" "magnitude (num (set_width r w s2) r) = nat_of ws"
    have "within_frame r s0 s1" using assms(1) by (intro temp_step [OF _ s2(2)]) (simp_all add: scratch_ready_def)
    then have "within_frame r s0 (set_width r w s2)" by (rule result_step [OF _ s2(3)])
    then show ?thesis using s2 assms(4) by (simp add: stored_def)
  qed
qed

text \<open>Growing the scratch array before the words are stored.\<close>

lemma stored_expand:
  assumes "scratch_ready r a a t s0 s" and "bn_malloc_ok m" and "n \<le> length (words (num s r))"
    and "\<And>s2. scratch_ready r a a t s0 s2 \<Longrightarrow> k \<le> length (words (num s2 t)) \<Longrightarrow> n \<le> length (words (num s2 r)) \<Longrightarrow>
      stored r v w s0 (g s2)"
  shows "stored r v w s0 (do { (ok, s) \<leftarrow> bn_wexpand m t k s; if \<not> ok then Some (False, s) else g s })"
proof (rule ready_expand [OF assms(1) disjI2 [OF refl] assms(2), where n = k and v = 0])
  fix s2 assume s2: "bn_wexpand m t k s = Some (True, s2)" "scratch_ready r a a t s0 s2" "k \<le> length (words (num s2 t))"
    and g: "\<And>y. live s y \<Longrightarrow> grown (num s y) (num s2 y) 0"
  have "n \<le> length (words (num s2 r))" using assms(1,3) g [of r] by (auto simp: scratch_ready_def grown_def)
  then show ?thesis using assms(4) s2 by simp
qed (simp add: product_in_def stored_def)

lemma set_width_neg: "set_width r w (set_neg r b s) = set_neg r b (set_width r w s)"
  by (auto simp: set_width_def set_neg_def upd_def fun_eq_iff intro!: bn_state.equality)

lemma power_of_two_ex: "power_of_two n \<Longrightarrow> \<exists>k. n = 2 ^ k"
proof (induction n rule: less_induct)
  case (less n)
  have z: "n \<noteq> 0" "n AND (n - 1) = 0" using less(2) by (simp_all add: power_of_two_def)
  have r: "of_bool (odd n \<and> odd (n - 1)) + 2 * ((n div 2) AND ((n - 1) div 2)) = 0"
    using z(2) and_rec [of n "n - 1"] by simp
  show ?case
  proof (cases "even n")
    case True
    then obtain j where j: "n = 2 * j" by blast
    have "(n - 1) div 2 = j - 1" using j z(1) by simp
    then have "power_of_two j" using r z(1) j by (simp add: power_of_two_def)
    then obtain k where "j = 2 ^ k" using less(1) [of j] z(1) j by auto
    then show ?thesis using j by (intro exI [of _ "Suc k"]) simp
  next
    case False
    then obtain j where j: "n = 2 * j + 1" by (auto elim: oddE)
    then have "j = 0" using r by simp
    then show ?thesis using j by (intro exI [of _ 0]) simp
  qed
qed

lemma sqr_into:
  assumes "scratch_ready r a a t s0 s" and "bn_malloc_ok m" and "width (num s a) \<noteq> 0"
  shows "\<exists>ok s'. sqr_into m r a t s = Some (ok, s') \<and> within_frame r s0 s' \<and> ctx_ok s' \<and> bn_ok (num s' r) \<and>
    (ok \<longrightarrow> magnitude (num s' r) = magnitude (num s a) * magnitude (num s a) \<and> \<not> neg (num s' r))"
proof (rule ready_expand [OF assms(1) disjI1 [OF refl] assms(2), where n = "2 * width (num s a)" and v = 0])
  fix s1 assume "bn_wexpand m r (2 * width (num s a)) s = Some (False, s1)" "product_in r 0 s0 (Some (False, s1))"
  then show ?thesis by (intro exI [of _ False] exI [of _ s1]) (simp add: sqr_into_def product_in_def)
next
  let ?al = "width (num s a)" and ?as = "used_words (num s a)" and ?v = "magnitude (num s a) * magnitude (num s a)"
  fix s1 assume s1: "bn_wexpand m r (2 * ?al) s = Some (True, s1)" "scratch_ready r a a t s0 s1"
    "2 * ?al \<le> length (words (num s1 r))"
    and g: "\<And>y. live s y \<Longrightarrow> grown (num s y) (num s1 y) 0"
  have la: "live s a" using assms(1) by (simp add: scratch_ready_def)
  have reads: "read_words a 0 ?al s1 = Some ?as" using read_grown [OF g [OF la]] la by (simp add: live_def)
  have l: "length ?as = ?al" using la by (simp add: live_def length_used)
  let ?branch = "if ?al = 4 then map_option (Pair True) (write_words r 0 (bn_sqr_comba4 ?as) s1)
    else if ?al = 8 then map_option (Pair True) (write_words r 0 (bn_sqr_comba8 ?as) s1)
    else if ?al < BN_SQR_RECURSIVE_SIZE_NORMAL then map_option (Pair True) (write_words r 0 (bn_sqr_normal ?as) s1)
    else if ?al \<noteq> 0 \<and> ?al AND (?al - 1) = 0 then do {
      (ok, s) \<leftarrow> bn_wexpand m t (?al * 4) s1;
      if \<not> ok then Some (False, s)
      else do {
        ts \<leftarrow> read_words t 0 (?al * 4) s;
        (ws, ts) \<leftarrow> bn_sqr_recursive ?as ?al ts;
        map_option (Pair True) (write_product r ws t ts s)
      }
    }
    else do {
      (ok, s) \<leftarrow> bn_wexpand m t (2 * ?al) s1;
      if \<not> ok then Some (False, s)
      else map_option (Pair True) (write_product r (bn_sqr_normal ?as) t (bn_sqr_words ?as) s)
    }"
  have "stored r ?v (2 * ?al) s0 ?branch"
  proof -
    consider "?al = 4" | "?al = 8" | "?al \<noteq> 4" "?al \<noteq> 8" "?al < BN_SQR_RECURSIVE_SIZE_NORMAL"
      | "?al \<noteq> 4" "?al \<noteq> 8" "\<not> ?al < BN_SQR_RECURSIVE_SIZE_NORMAL" "?al \<noteq> 0 \<and> ?al AND (?al - 1) = 0"
      | "?al \<noteq> 4" "?al \<noteq> 8" "\<not> ?al < BN_SQR_RECURSIVE_SIZE_NORMAL" "\<not> (?al \<noteq> 0 \<and> ?al AND (?al - 1) = 0)" by blast
    then show ?thesis
    proof cases
      case 1
      have "stored r ?v (2 * ?al) s0 (map_option (Pair True) (write_words r 0 (bn_sqr_comba4 ?as) s1))"
        using bn_sqr_comba4_value [of ?as] l 1 s1(3) by (intro stored_direct [OF s1(2)]) (simp_all add: magnitude_def)
      then show ?thesis using 1 by simp
    next
      case 2
      have "stored r ?v (2 * ?al) s0 (map_option (Pair True) (write_words r 0 (bn_sqr_comba8 ?as) s1))"
        using bn_sqr_comba8_value [of ?as] l 2 s1(3) by (intro stored_direct [OF s1(2)]) (simp_all add: magnitude_def)
      then show ?thesis using 2 by simp
    next
      case 3
      have "stored r ?v (2 * ?al) s0 (map_option (Pair True) (write_words r 0 (bn_sqr_normal ?as) s1))"
        using bn_sqr_normal_value [of ?as] l s1(3) by (intro stored_direct [OF s1(2)]) (simp_all add: magnitude_def)
      then show ?thesis using 3 by simp
    next
      case 4
      obtain k where k: "?al = 2 ^ k" using power_of_two_ex 4(4) by (auto simp: power_of_two_def)
      have "stored r ?v (2 * ?al) s0
        (do { ts \<leftarrow> read_words t 0 (?al * 4) s2;
              (ws, ts) \<leftarrow> bn_sqr_recursive ?as ?al ts;
              map_option (Pair True) (write_product r ws t ts s2) })"
        if s2: "scratch_ready r a a t s0 s2" "?al * 4 \<le> length (words (num s2 t))" "2 * ?al \<le> length (words (num s2 r))" for s2
      proof -
        have "multiplies (bn_sqr_recursive ?as ?al (take (?al * 4) (words (num s2 t)))) (2 * ?al) (?al * 4) ?v"
          using bn_sqr_recursive_value [OF k, of ?as "take (?al * 4) (words (num s2 t))"] l s2(2)
          by (simp add: magnitude_def mult.commute)
        then obtain ws ts where r: "bn_sqr_recursive ?as ?al (take (?al * 4) (words (num s2 t))) = Some (ws, ts)"
          "length ws = 2 * ?al" "length ts = ?al * 4" "nat_of ws = ?v" by (rule multipliesE)
        have "stored r ?v (2 * ?al) s0 (map_option (Pair True) (write_product r ws t ts s2))"
          using s2(2,3) r by (intro stored_scratch [OF s2(1)]) simp_all
        then show ?thesis using r(1) s2(2) by (simp add: read_words_ok)
      qed
      from stored_expand [OF s1(2) assms(2) s1(3) this]
      show ?thesis unfolding if_not_P [OF 4(1)] if_not_P [OF 4(2)] if_not_P [OF 4(3)] if_P [OF 4(4)] .
    next
      case 5
      have "stored r ?v (2 * ?al) s0 (map_option (Pair True) (write_product r (bn_sqr_normal ?as) t (bn_sqr_words ?as) s2))"
        if s2: "scratch_ready r a a t s0 s2" "2 * ?al \<le> length (words (num s2 t))" "2 * ?al \<le> length (words (num s2 r))" for s2
        using s2(2,3) bn_sqr_normal_value [of ?as] bn_sqr_words_value [of ?as] l
        by (intro stored_scratch [OF s2(1)]) (simp_all add: magnitude_def)
      from stored_expand [OF s1(2) assms(2) s1(3) this]
      show ?thesis unfolding if_not_P [OF 5(1)] if_not_P [OF 5(2)] if_not_P [OF 5(3)] if_not_P [OF 5(4)] .
    qed
  qed
  moreover have "sqr_into m r a t s = do {
      (ok, s) \<leftarrow> ?branch;
      if \<not> ok then Some (False, s) else Some (True, set_width r (2 * ?al) (set_neg r False s)) }"
    unfolding sqr_into_def Let_def using s1(1) reads by simp
  moreover have "within_frame r s0 (set_neg r False s')" "ctx_ok (set_neg r False s')" "bn_ok (num (set_neg r False s') r)"
    "magnitude (num (set_neg r False s') r) = magnitude (num s' r)"
    if "within_frame r s0 s'" "ctx_ok s'" "bn_ok (num s' r)" for s'
    using that result_step [OF that(1) only_set(3)] only_ctx_ok [OF only_set(3) that(2)] by simp_all
  ultimately show ?thesis
    by (cases ?branch) (auto simp: stored_def set_width_neg split: prod.splits if_splits)
qed

section \<open>The properties\<close>

lemma ready_start:
  assumes "ctx_ok s1" "live s1 r" "live s1 a" "live s1 t" "within_frame r s0 s1" "t \<in> temps s0 \<or> fresh s0 \<le> t" "r \<noteq> t"
    and "neg (num s1 r) = neg (num s0 r)" "num s1 a = num s0 a"
  shows "scratch_ready r a a t s0 s1"
  using assms by (simp add: scratch_ready_def)

text \<open>From the second temporary on; \<open>rr\<close> is \<open>r\<close> itself, or a temporary when \<open>r\<close> is \<open>a\<close>.\<close>

lemma sqr_tail:
  assumes "bn_malloc_ok m" and "\<And>x. within_frame x (BN_CTX_start m s) s1" "ctx_ok s1" "live s1 r" "live s1 a" "live s1 rr"
    and "rr \<noteq> a" and "rr = r \<or> rr \<in> temps (BN_CTX_start m s) \<or> fresh (BN_CTX_start m s) \<le> rr"
    and w: "width (num s1 a) \<noteq> 0" and same: "num s1 a = num s a"
  shows "result_in r (bn_val (num s a) * bn_val (num s a)) s
    (do {
       (tmp, s) \<leftarrow> BN_CTX_get m s1;
       (ok, s) \<leftarrow> (case tmp of
           Some tmp \<Rightarrow> do {
             (ok, s) \<leftarrow> sqr_into m rr a tmp s;
             if \<not> ok then Some (False, s)
             else if rr \<noteq> r then BN_copy m r rr s
             else Some (True, s)
           }
         | None \<Rightarrow> Some (False, s));
       s \<leftarrow> BN_CTX_end s;
       Some (ok, s)
     })"
proof -
  let ?s0 = "BN_CTX_start m s" and ?x = "bn_val (num s a) * bn_val (num s a)"
  have to_r: "within_frame r ?s0 s'" if "within_frame rr s1 s'" for s'
  proof -
    have "within_frame rr ?s0 s'" by (rule frame_trans [OF assms(2) that])
    then show ?thesis using assms(8) within_temp by blast
  qed
  show ?thesis
  proof (rule ctx_get [OF assms(3), of m])
    fix s2 assume s2: "BN_CTX_get m s1 = Some (None, s2)" "\<And>r. within_frame r s1 s2" "ctx_ok s2"
    have "bn_ok (num s2 r)" using live_within [OF assms(4) s2(2) [of "Suc r"]] assms(4) by (simp add: live_def)
    then have "result_in r ?x s (do { s3 \<leftarrow> BN_CTX_end s2; Some (False, s3) })"
      by (rule end_result [OF to_r [OF s2(2)] s2(3)]) simp
    then show ?thesis using s2(1) by simp
  next
    fix t s2 assume s2: "BN_CTX_get m s1 = Some (Some t, s2)" "\<And>r. within_frame r s1 s2" "ctx_ok s2" "live s2 t"
      "t \<in> temps s1 \<or> fresh s1 \<le> t"
    have keep: "live s2 x" "num s2 x = num s1 x" if "live s1 x" for x
      using live_within [OF that s2(2) [of "Suc x"]] by simp_all
    have nt: "x \<noteq> t" if "live s1 x" for x using that s2(5) by (auto simp: live_def)
    have "scratch_ready rr a a t s1 s2"
      by (rule ready_start [OF s2(3) keep(1) [OF assms(6)] keep(1) [OF assms(5)] s2(4) s2(2) s2(5) nt [OF assms(6)]])
        (simp_all add: keep(2) assms(5,6))
    then obtain ok s3 where s3: "sqr_into m rr a t s2 = Some (ok, s3)" "within_frame rr s1 s3" "ctx_ok s3" "bn_ok (num s3 rr)"
      "ok \<longrightarrow> magnitude (num s3 rr) = magnitude (num s2 a) * magnitude (num s2 a) \<and> \<not> neg (num s3 rr)"
      using sqr_into [OF _ assms(1), of rr a t s1 s2] w keep(2) [OF assms(5)] by auto
    have v: "ok \<Longrightarrow> bn_val (num s3 rr) = ?x"
      using s3(5) keep(2) [OF assms(5)] same by (simp add: bn_val_def)
    have w3: "within_frame r ?s0 s3" by (rule to_r [OF s3(2)])
    show ?thesis
    proof (cases "rr = r")
      case True
      have "result_in r ?x s (do { s4 \<leftarrow> BN_CTX_end s3; Some (ok, s4) })"
        using s3(4) v by (intro end_result [OF w3 s3(3)]) (simp_all add: True)
      then show ?thesis using s2(1) s3(1) True by (cases ok) simp_all
    next
      case False
      have lr: "live s3 r" using live_within [OF assms(4) s3(2)] False by simp
      show ?thesis
      proof (cases ok)
        case ok: False
        have "result_in r ?x s (do { s4 \<leftarrow> BN_CTX_end s3; Some (False, s4) })"
          using lr by (intro end_result [OF w3 s3(3)]) (simp_all add: live_def)
        then show ?thesis using s2(1) s3(1) ok by simp
      next
        case ok: True
        have lt: "live s3 rr" using assms(6) s3(2,4) within_temps [OF s3(2)] by (auto simp: live_def within_frame_def)
        show ?thesis
        proof (rule BN_copy_cases [OF s3(3) lr lt not_sym [OF False] assms(1)])
          fix s4 assume s4: "BN_copy m r rr s3 = Some (True, s4)" "only r s3 s4" "ctx_ok s4" "bn_ok (num s4 r)"
            "magnitude (num s4 r) = magnitude (num s3 rr)" "neg (num s4 r) = neg (num s3 rr)"
          have "bn_val (num s4 r) = ?x" using v [OF ok] by (simp only: bn_val_def s4(5,6))
          then have "result_in r ?x s (do { s5 \<leftarrow> BN_CTX_end s4; Some (True, s5) })"
            by (rule end_result [OF result_step [OF w3 s4(2)] s4(3,4)])
          then show ?thesis using s2(1) s3(1) s4(1) ok False by simp
        next
          fix s4 assume s4: "BN_copy m r rr s3 = Some (False, s4)" "only r s3 s4" "ctx_ok s4" "bn_ok (num s4 r)"
          have "result_in r ?x s (do { s5 \<leftarrow> BN_CTX_end s4; Some (False, s5) })"
            using s4 by (intro end_result [OF result_step [OF w3 s4(2)] s4(3)]) simp_all
          then show ?thesis using s2(1) s3(1) s4(1) ok False by simp
        qed
      qed
    qed
  qed
qed

lemma bn_sqr_consttime_exact:
  assumes "bn_malloc_ok m" "ctx_ok s" "live s r" "live s a"
  shows "result_in r (bn_val (num s a) * bn_val (num s a)) s (bn_sqr_consttime m r a s)"
proof (cases "width (num s a) = 0")
  case True
  let ?s = "set_neg r False (set_width r 0 s)"
  have o: "only r s ?s" by (rule only_set_neg) simp
  have ok: "bn_ok (num ?s r)" using assms(3) by (simp add: live_def bn_ok_def)
  have "framed r s ?s" by (rule only_framed [OF o only_ctx_ok [OF o assms(2) ok]])
  moreover have "bn_val (num ?s r) = bn_val (num s a) * bn_val (num s a)"
    using True by (simp add: bn_val_def magnitude_def used_words_def)
  ultimately show ?thesis using True ok by (simp add: bn_sqr_consttime_def result_in_def)
next
  case w: False
  let ?s0 = "BN_CTX_start m s" and ?x = "bn_val (num s a) * bn_val (num s a)"
  have c0: "ctx_ok ?s0" using assms(2) by (simp add: start_simps)
  have live0: "live ?s0 x" if "live s x" for x using that by (simp add: start_simps)
  show ?thesis
  proof (cases "a = r")
    case False
    have "result_in r ?x s
      (do {
         (tmp, s) \<leftarrow> BN_CTX_get m ?s0;
         (ok, s) \<leftarrow> (case tmp of
             Some tmp \<Rightarrow> do {
               (ok, s) \<leftarrow> sqr_into m r a tmp s;
               if \<not> ok then Some (False, s)
               else if r \<noteq> r then BN_copy m r r s
               else Some (True, s)
             }
           | None \<Rightarrow> Some (False, s));
         s \<leftarrow> BN_CTX_end s;
         Some (ok, s)
       })"
      using w False by (intro sqr_tail [OF assms(1) _ c0 live0 [OF assms(3)] live0 [OF assms(4)] live0 [OF assms(3)]])
        (simp_all add: ctx_start)
    then show ?thesis unfolding bn_sqr_consttime_def if_not_P [OF w] if_P [OF False] Let_def by simp
  next
    case True
    have na: "\<not> a \<noteq> r" using True by simp
    show ?thesis
    proof (rule ctx_get [OF c0, of m])
      fix rr s1 assume s1: "BN_CTX_get m ?s0 = Some (Some rr, s1)" "\<And>r. within_frame r ?s0 s1" "ctx_ok s1" "live s1 rr"
        "rr \<in> temps ?s0 \<or> fresh ?s0 \<le> rr"
      have keep: "live s1 x" "num s1 x = num s x" if "live s x" for x
        using live_within [OF live0 [OF that] s1(2) [of "Suc x"]] by (simp_all add: ctx_start)
      have na': "rr \<noteq> a" using s1(5) live0 [OF assms(4)] by (auto simp: live_def)
      have "result_in r ?x s
        (do {
           (tmp, s) \<leftarrow> BN_CTX_get m s1;
           (ok, s) \<leftarrow> (case tmp of
               Some tmp \<Rightarrow> do {
                 (ok, s) \<leftarrow> sqr_into m rr a tmp s;
                 if \<not> ok then Some (False, s)
                 else if rr \<noteq> r then BN_copy m r rr s
                 else Some (True, s)
               }
             | None \<Rightarrow> Some (False, s));
           s \<leftarrow> BN_CTX_end s;
           Some (ok, s)
         })"
        using w keep(2) [OF assms(4)] s1(5)
        by (intro sqr_tail [OF assms(1) s1(2,3) keep(1) [OF assms(3)] keep(1) [OF assms(4)] s1(4) na']) simp_all
      then show ?thesis unfolding bn_sqr_consttime_def if_not_P [OF w] if_not_P [OF na] Let_def using s1(1) by simp
    next
      fix s1 assume s1: "BN_CTX_get m ?s0 = Some (None, s1)" "\<And>r. within_frame r ?s0 s1" "ctx_ok s1"
      obtain tmp s2 where s2: "BN_CTX_get m s1 = Some (tmp, s2)" "\<And>r. within_frame r s1 s2" "ctx_ok s2"
        by (rule ctx_get [OF s1(3), of m]) blast+
      have w2: "within_frame x ?s0 s2" for x by (rule frame_trans [OF s1(2) s2(2)])
      have "bn_ok (num s2 r)" using live_within [OF live0 [OF assms(3)] w2 [of "Suc r"]] live0 [OF assms(3)] by (simp add: live_def)
      then have "result_in r ?x s (do { s3 \<leftarrow> BN_CTX_end s2; Some (False, s3) })" by (rule end_result [OF w2 s2(3)]) simp
      then show ?thesis unfolding bn_sqr_consttime_def if_not_P [OF w] if_not_P [OF na] Let_def using s1(1) s2(1)
        by (simp split: option.splits)
    qed
  qed
qed

text \<open>\<open>BN_sqr\<close> puts the square of an integer into \<open>r\<close>, which may be the same object.\<close>

theorem BN_sqr_exact:
  assumes "bn_malloc_ok m" "ctx_ok s" "live s r" "live s a"
  shows "\<exists>ok s'. BN_sqr m r a s = Some (ok, s') \<and> framed r s s' \<and> bn_ok (num s' r) \<and>
    (ok \<longrightarrow> normal (num s' r) \<and> bn_val (num s' r) = (bn_val (num s a))\<^sup>2)"
proof -
  obtain ok s1 where s1: "bn_sqr_consttime m r a s = Some (ok, s1)" "framed r s s1" "bn_ok (num s1 r)"
    "ok \<longrightarrow> bn_val (num s1 r) = bn_val (num s a) * bn_val (num s a)"
    using bn_sqr_consttime_exact [OF assms] by (auto simp: result_in_def split: option.splits)
  have "framed r s (bn_set_minimal_width r s1)"
    by (rule framed_only [OF s1(2) only_set(4) set_minimal_width(1) [OF s1(3)]])
  then show ?thesis using s1 set_minimal_width [OF s1(3)] set_minimal_width_val [OF s1(3)]
    by (auto simp: BN_sqr_def power2_eq_square)
qed

end
