(* ===== verification/BnShift.thy ===== *)
theory BnShift
  imports BnCtx
begin

text \<open>Shifts and single bits (\<open>crypto/fipsmodule/bn/shift.c\<close>).\<close>

section \<open>Arrays\<close>

text \<open>
  The loop of \<open>BN_lshift\<close> goes down from the top word, so it reads a word before it stores into it,
  also when \<open>r\<close> is \<open>a\<close>. \<open>t\<close> is what the next lower word has already stored above itself, and the
  lists are from the top down.
\<close>

fun lshift_loop :: "nat \<Rightarrow> u64 \<Rightarrow> u64 list \<Rightarrow> u64 list" where
  "lshift_loop lb t (l # f) = (t OR drop_bit (64 - lb) l) # lshift_loop lb (push_bit lb l) f"
| "lshift_loop lb t [] = [t]"

definition lshift_words :: "nat \<Rightarrow> u64 list \<Rightarrow> u64 list" where
  "lshift_words lb f = (if lb = 0 then f @ [0] else rev (lshift_loop lb 0 (rev f)))"

fun lshift1_loop :: "u64 \<Rightarrow> u64 list \<Rightarrow> u64 list \<times> u64" where
  "lshift1_loop c (t # a) = (let (r, c') = lshift1_loop (drop_bit 63 t) a in ((push_bit 1 t OR c) # r, c'))"
| "lshift1_loop c [] = ([], c)"

fun rshift_loop :: "nat \<Rightarrow> u64 list \<Rightarrow> u64 list" where
  "rshift_loop k (x # y # a) = (drop_bit k x OR push_bit (64 - k) y) # rshift_loop k (y # a)"
| "rshift_loop k [x] = [drop_bit k x]"
| "rshift_loop k [] = []"

definition bn_rshift_words :: "u64 list \<Rightarrow> nat \<Rightarrow> u64 list" where
  "bn_rshift_words a shift = (let shift_bits = shift mod 64; shift_words = shift div 64 in
     if shift_words \<ge> length a then replicate (length a) 0
     else (if shift_bits = 0 then drop shift_words a else rshift_loop shift_bits (drop shift_words a)) @
       replicate shift_words 0)"

definition bn_rshift1_words :: "u64 list \<Rightarrow> u64 list" where
  "bn_rshift1_words a = rshift_loop 1 a"

section \<open>Numbers\<close>

definition BN_lshift :: "bn_malloc \<Rightarrow> nat \<Rightarrow> nat \<Rightarrow> int \<Rightarrow> bn_state \<Rightarrow> bool bn_result" where
  "BN_lshift m r a n s =
     (if n < 0 then Some (False, s)
      else do {
        let s = set_neg r (neg (num s a)) s;
        let nw = nat n div 64;
        (ok, s) \<leftarrow> bn_wexpand m r (width (num s a) + nw + 1) s;
        if \<not> ok then Some (False, s)
        else do {
          let w = width (num s a);
          f \<leftarrow> read_words a 0 w s;
          s \<leftarrow> write_words r nw (lshift_words (nat n mod 64) f) s;
          s \<leftarrow> write_words r 0 (replicate nw 0) s;
          Some (True, bn_set_minimal_width r (set_width r (w + nw + 1) s))
        }
      })"

definition BN_lshift1 :: "bn_malloc \<Rightarrow> nat \<Rightarrow> nat \<Rightarrow> bn_state \<Rightarrow> bool bn_result" where
  "BN_lshift1 m r a s = do {
     let s = (if r \<noteq> a then set_neg r (neg (num s a)) s else s);
     let w = width (num s a);
     (ok, s) \<leftarrow> bn_wexpand m r (w + 1) s;
     if \<not> ok then Some (False, s)
     else do {
       let s = (if r \<noteq> a then set_width r w s else s);
       ap \<leftarrow> read_words a 0 w s;
       let (rs, c) = lshift1_loop 0 ap;
       s \<leftarrow> write_words r 0 rs s;
       if c \<noteq> 0 then do {
         s \<leftarrow> write_words r w [1] s;
         Some (True, set_width r (width (num s r) + 1) s)
       }
       else Some (True, s)
     }
   }"

definition rshift_into :: "bn_malloc \<Rightarrow> nat \<Rightarrow> nat \<Rightarrow> (u64 list \<Rightarrow> u64 list) \<Rightarrow> bn_state \<Rightarrow> bool bn_result" where
  "rshift_into m r a f s = do {
     let w = width (num s a);
     (ok, s) \<leftarrow> bn_wexpand m r w s;
     if \<not> ok then Some (False, s)
     else do {
       as \<leftarrow> read_words a 0 w s;
       s \<leftarrow> write_words r 0 (f as) s;
       Some (True, bn_set_minimal_width r (set_width r w (set_neg r (neg (num s a)) s)))
     }
   }"

definition BN_rshift :: "bn_malloc \<Rightarrow> nat \<Rightarrow> nat \<Rightarrow> int \<Rightarrow> bn_state \<Rightarrow> bool bn_result" where
  "BN_rshift m r a n s =
     (if n < 0 then Some (False, s) else rshift_into m r a (\<lambda>as. bn_rshift_words as (nat n)) s)"

definition BN_rshift1 :: "bn_malloc \<Rightarrow> nat \<Rightarrow> nat \<Rightarrow> bn_state \<Rightarrow> bool bn_result" where
  "BN_rshift1 m r a = rshift_into m r a bn_rshift1_words"

text \<open>The words of \<open>r\<close> and of the temporary, from the shift by \<open>2 ^ i\<close> bits on.\<close>

function secret_shift_loop :: "nat \<Rightarrow> nat \<Rightarrow> nat \<Rightarrow> u64 list \<Rightarrow> u64 list \<Rightarrow> u64 list \<times> u64 list" where
  "secret_shift_loop max_bits n i r tmp =
     (if max_bits div 2 ^ i \<noteq> 0 then
        (let mask = 0 - (of_nat (n div 2 ^ i) AND 1); tmp = bn_rshift_words r (2 ^ i) in
         secret_shift_loop max_bits n (i + 1) (bn_select_words mask tmp r) tmp)
      else (r, tmp))"
  by pat_completeness auto

termination
proof (relation "measure (\<lambda>(max_bits, n, i, r, tmp). max_bits div 2 ^ i)", goal_cases)
  case (2 max_bits n i r tmp mask tmp')
  then have "max_bits div 2 ^ i div 2 < max_bits div 2 ^ i" by (intro div_less_dividend) simp_all
  then show ?case by (simp flip: div_mult2_eq add: mult.commute)
qed simp

declare secret_shift_loop.simps [simp del]

definition bn_rshift_secret_shift :: "bn_malloc \<Rightarrow> nat \<Rightarrow> nat \<Rightarrow> nat \<Rightarrow> bn_state \<Rightarrow> bool bn_result" where
  "bn_rshift_secret_shift m r a n s = do {
     let s = BN_CTX_start m s;
     (tmp, s) \<leftarrow> BN_CTX_get m s;
     (ok, s) \<leftarrow> (case tmp of
         None \<Rightarrow> Some (False, s)
       | Some tmp \<Rightarrow> do {
           (ok, s) \<leftarrow> BN_copy m r a s;
           if \<not> ok then Some (False, s)
           else do {
             let w = width (num s r);
             (ok, s) \<leftarrow> bn_wexpand m tmp w s;
             if \<not> ok then Some (False, s)
             else do {
               rs \<leftarrow> read_words r 0 w s;
               ts \<leftarrow> read_words tmp 0 w s;
               let (rs, ts) = secret_shift_loop (64 * w) n 0 rs ts;
               s \<leftarrow> write_words tmp 0 ts s;
               s \<leftarrow> write_words r 0 rs s;
               Some (True, s)
             }
           }
         });
     s \<leftarrow> BN_CTX_end s;
     Some (ok, s)
   }"

section \<open>Bits\<close>

definition BN_set_bit :: "bn_malloc \<Rightarrow> nat \<Rightarrow> int \<Rightarrow> bn_state \<Rightarrow> bool bn_result" where
  "BN_set_bit m a n s =
     (if n < 0 then Some (False, s)
      else do {
        let i = nat n div 64;
        let j = nat n mod 64;
        (ok, s) \<leftarrow>
          (if width (num s a) \<le> i then do {
             (ok, s) \<leftarrow> bn_wexpand m a (i + 1) s;
             if \<not> ok then Some (False, s)
             else do {
               s \<leftarrow> write_words a (width (num s a)) (replicate (i + 1 - width (num s a)) 0) s;
               Some (True, set_width a (i + 1) s)
             }
           }
           else Some (True, s));
        if \<not> ok then Some (False, s)
        else do {
          w \<leftarrow> read_words a i 1 s;
          s \<leftarrow> write_words a i [hd w OR push_bit j 1] s;
          Some (True, s)
        }
      })"

definition BN_clear_bit :: "nat \<Rightarrow> int \<Rightarrow> bn_state \<Rightarrow> bool bn_result" where
  "BN_clear_bit a n s =
     (let i = nat n div 64; j = nat n mod 64 in
      if n < 0 \<or> width (num s a) \<le> i then Some (False, s)
      else do {
        w \<leftarrow> read_words a i 1 s;
        s \<leftarrow> write_words a i [hd w AND NOT (push_bit j 1)] s;
        Some (True, bn_set_minimal_width a s)
      })"

definition bn_is_bit_set_words :: "u64 list \<Rightarrow> nat \<Rightarrow> bool" where
  "bn_is_bit_set_words a n \<longleftrightarrow> (let i = n div 64; j = n mod 64 in
     if i \<ge> length a then False else drop_bit j (a ! i) AND 1 \<noteq> 0)"

definition BN_is_bit_set :: "bignum \<Rightarrow> int \<Rightarrow> bool" where
  "BN_is_bit_set a n \<longleftrightarrow> (if n < 0 then False else bn_is_bit_set_words (take (width a) (words a)) (nat n))"

definition BN_mask_bits :: "nat \<Rightarrow> int \<Rightarrow> bn_state \<Rightarrow> bool bn_result" where
  "BN_mask_bits a n s =
     (let w = nat n div 64; b = nat n mod 64 in
      if n < 0 then Some (False, s)
      else if w \<ge> width (num s a) then Some (True, s)
      else if b = 0 then Some (True, bn_set_minimal_width a (set_width a w s))
      else do {
        x \<leftarrow> read_words a w 1 s;
        s \<leftarrow> write_words a w [hd x AND NOT (push_bit b (- 1))] (set_width a (w + 1) s);
        Some (True, bn_set_minimal_width a s)
      })"

definition low_zeros_step :: "nat \<Rightarrow> nat \<times> u64 \<Rightarrow> nat \<times> u64" where
  "low_zeros_step n = (\<lambda>(bits, l).
     let m = constant_time_is_zero_w (push_bit (64 - n) l) in
     (bits + unat (of_nat n AND m), constant_time_select_w m (drop_bit n l) l))"

definition bn_count_low_zero_bits_word :: "u64 \<Rightarrow> nat" where
  "bn_count_low_zero_bits_word l = fst (foldl (\<lambda>st n. low_zeros_step n st) (0, l) [32, 16, 8, 4, 2, 1])"

fun low_zeros_loop :: "nat \<Rightarrow> u64 \<Rightarrow> u64 \<Rightarrow> u64 list \<Rightarrow> u64" where
  "low_zeros_loop i ret saw (d # ds) =
     (let nonzero = NOT (constant_time_is_zero_w d); first = NOT saw AND nonzero in
      low_zeros_loop (i + 1) (ret OR (first AND of_nat (i * 64 + bn_count_low_zero_bits_word d))) (saw OR nonzero) ds)"
| "low_zeros_loop i ret saw [] = ret"

text \<open>The result is an \<open>int\<close>, which has room for it.\<close>

definition BN_count_low_zero_bits :: "bignum \<Rightarrow> nat" where
  "BN_count_low_zero_bits b = unat (low_zeros_loop 0 0 0 (take (width b) (words b)))"

end
