(* ===== verification/BnShiftRef.thy ===== *)
theory BnShiftRef
  imports BnShift BnMulThms
begin

text \<open>Shifts multiply and divide by powers of two.\<close>

section \<open>Words\<close>

lemma push_unat: "unat (push_bit n (l :: u64)) = unat l * 2 ^ n mod 2 ^ 64"
  unfolding unsigned_push_bit_eq by (simp add: take_bit_eq_mod push_bit_eq_mult)

text \<open>A word moved up by \<open>k\<close> bits is the low part, and the bits that fall out are the high part.\<close>

lemma pow_split: "k \<le> 64 \<Longrightarrow> (2 :: nat) ^ 64 = 2 ^ k * 2 ^ (64 - k)"
  by (simp flip: power_add)

lemma push_split:
  assumes "0 < k" "k < 64"
  shows "unat (push_bit k l) + 2 ^ 64 * unat (drop_bit (64 - k) (l :: u64)) = 2 ^ k * unat l"
proof -
  have p: "(2 :: nat) ^ 64 = 2 ^ k * 2 ^ (64 - k)" by (rule pow_split) (use assms in simp)
  have "unat l * 2 ^ k div 2 ^ 64 = unat l div 2 ^ (64 - k)"
    unfolding p by (subst mult.commute [of "unat l"]) (simp add: div_mult2_eq)
  then show ?thesis
    using div_mult_mod_eq [of "unat l * 2 ^ k" "2 ^ 64"] unfolding push_unat drop_unat by (simp add: ac_simps)
qed

lemma bit_small: "unat (h :: u64) < 2 ^ k \<Longrightarrow> bit h n \<Longrightarrow> n < k"
proof (rule ccontr)
  assume h: "unat h < 2 ^ k" "bit h n" "\<not> n < k"
  have "2 ^ n \<le> unat h" using bit_imp_pow_le [OF h(2)] .
  moreover have "(2 :: nat) ^ k \<le> 2 ^ n" using h(3) by (intro power_increasing) simp_all
  ultimately show False using h(1) by simp
qed

lemma or_parts:
  assumes "unat (h :: u64) < 2 ^ k"
  shows "unat (push_bit k l OR h) = unat (push_bit k l) + unat h"
proof -
  have "push_bit k l AND h = 0"
    by (intro bit_word_eqI) (auto simp: bit_simps not_less dest: bit_small [OF assms])
  then have "unat (push_bit k l) AND unat h = 0" by (metis unsigned_and_eq unsigned_0)
  then show ?thesis by (simp add: unsigned_or_eq disjunctive_add_eq_or)
qed

lemma top_small: "0 < k \<Longrightarrow> k < 64 \<Longrightarrow> unat (drop_bit (64 - k) (l :: u64)) < 2 ^ k"
  unfolding drop_unat using unat_u64 [of l] pow_split [of k] by (intro less_mult_imp_div_less) simp

lemma or_split:
  assumes "0 < k" "k < 64"
  shows "unat (push_bit k l OR drop_bit (64 - k) (x :: u64)) = unat (push_bit k l) + unat (drop_bit (64 - k) x)"
  by (rule or_parts [OF top_small [OF assms]])

section \<open>Arrays\<close>

lemma lshift_loop_value:
  "0 < k \<Longrightarrow> k < 64 \<Longrightarrow> t = push_bit k x \<Longrightarrow>
   length (lshift_loop k t f) = length f + 1 \<and>
   nat_of (rev (lshift_loop k t f)) = base (length f) * unat t + 2 ^ k * nat_of (rev f)"
proof (induction f arbitrary: t x)
  case (Cons l f)
  have i: "length (lshift_loop k (push_bit k l) f) = length f + 1"
    "nat_of (rev (lshift_loop k (push_bit k l) f)) = base (length f) * unat (push_bit k l) + 2 ^ k * nat_of (rev f)"
    using Cons(1) [OF Cons(2,3) refl] by simp_all
  have o: "unat (t OR drop_bit (64 - k) l) = unat t + unat (drop_bit (64 - k) l)"
    unfolding Cons(4) by (rule or_split [OF Cons(2,3)])
  define B where "B = base (length f)"
  have s: "unat (push_bit k l) + 2 ^ 64 * unat (drop_bit (64 - k) l) = 2 ^ k * unat l" by (rule push_split [OF Cons(2,3)])
  have "nat_of (rev (lshift_loop k t (l # f))) =
    B * unat (push_bit k l) + 2 ^ k * nat_of (rev f) + B * 2 ^ 64 * (unat t + unat (drop_bit (64 - k) l))"
    using i o by (simp add: nat_of_append power_add B_def)
  also have "\<dots> = B * (unat (push_bit k l) + 2 ^ 64 * unat (drop_bit (64 - k) l)) + 2 ^ k * nat_of (rev f) + B * 2 ^ 64 * unat t"
    by (simp add: algebra_simps)
  also have "\<dots> = base (length (l # f)) * unat t + 2 ^ k * nat_of (rev (l # f))"
    unfolding s by (simp add: nat_of_append B_def power_add algebra_simps)
  finally show ?case using i(1) by simp
qed simp

lemma lshift_words_value:
  assumes "k < 64"
  shows "length (lshift_words k f) = length f + 1" "nat_of (lshift_words k f) = 2 ^ k * nat_of f"
proof -
  have "length (lshift_words k f) = length f + 1 \<and> nat_of (lshift_words k f) = 2 ^ k * nat_of f"
  proof (cases "k = 0")
    case False
    then show ?thesis using lshift_loop_value [of k 0 0 "rev f"] assms by (simp add: lshift_words_def)
  qed (simp add: lshift_words_def nat_of_append)
  then show "length (lshift_words k f) = length f + 1" "nat_of (lshift_words k f) = 2 ^ k * nat_of f" by simp_all
qed

lemma lshift1_loop_value:
  "unat c \<le> 1 \<Longrightarrow> lshift1_loop c a = (r, c') \<Longrightarrow>
   length r = length a \<and> unat c' \<le> 1 \<and> nat_of r + base (length a) * unat c' = 2 * nat_of a + unat c"
proof (induction a arbitrary: c r c')
  case (Cons t a)
  obtain r1 c1 where l: "lshift1_loop (drop_bit 63 t) a = (r1, c1)" by fastforce
  have r: "r = (push_bit 1 t OR c) # r1" "c' = c1" using Cons(3) l by simp_all
  have c: "unat (drop_bit 63 t) \<le> 1" using top_small [of 1 t] by simp
  have i: "length r1 = length a" "unat c1 \<le> 1" "nat_of r1 + base (length a) * unat c1 = 2 * nat_of a + unat (drop_bit 63 t)"
    using Cons(1) [OF c l] by simp_all
  have o: "unat (push_bit 1 t OR c) = unat (push_bit 1 t) + unat c"
    by (rule or_parts) (use Cons(2) in simp)
  have s: "unat (push_bit 1 t) + 2 ^ 64 * unat (drop_bit 63 t) = 2 * unat t" using push_split [of 1 t] by simp
  define B where "B = (2 ^ 64 :: nat)"
  have "B * (nat_of r1 + base (length a) * unat c1) = B * (2 * nat_of a + unat (drop_bit 63 t))" using i(3) by simp
  moreover have "unat (push_bit 1 t) + B * unat (drop_bit 63 t) = 2 * unat t" using s by (simp add: B_def)
  ultimately have "unat (push_bit 1 t) + unat c + B * nat_of r1 + B * base (length a) * unat c1 =
    2 * (unat t + B * nat_of a) + unat c"
    by (simp only: distrib_left mult.assoc)
  then show ?case using i(1,2) unfolding r nat_of.simps list.size base_Suc o B_def by (simp add: power_add)
qed simp

lemma rshift_loop_value:
  "0 < k \<Longrightarrow> k < 64 \<Longrightarrow> length (rshift_loop k a) = length a \<and> nat_of (rshift_loop k a) = nat_of a div 2 ^ k"
proof (induction k a rule: rshift_loop.induct)
  case (1 k x y a)
  define z where "z = nat_of (y # a)"
  have i: "length (rshift_loop k (y # a)) = length (y # a)" "nat_of (rshift_loop k (y # a)) = z div 2 ^ k"
    using 1(1) [OF 1(2,3)] by (simp_all add: z_def)
  have p: "(2 :: nat) ^ 64 = 2 ^ (64 - k) * 2 ^ k" by (simp add: 1(3) less_imp_le flip: power_add)
  have o: "unat (drop_bit k x OR push_bit (64 - k) y) = unat x div 2 ^ k + unat (push_bit (64 - k) y)"
    using or_split [of "64 - k" y x] 1(2,3) by (simp add: or.commute drop_unat)
  have "unat (push_bit (64 - k) y) = unat y mod 2 ^ k * 2 ^ (64 - k)"
    unfolding push_unat p by (simp add: mult.commute mod_mult_mult1)
  also have "unat y mod 2 ^ k = z mod 2 ^ k"
  proof -
    have e: "2 ^ (64 - k) * 2 ^ k * nat_of a = nat_of a * 2 ^ (64 - k) * 2 ^ k" by simp
    show ?thesis unfolding z_def nat_of.simps p e by simp
  qed
  finally have u: "unat (push_bit (64 - k) y) = z mod 2 ^ k * 2 ^ (64 - k)" .
  have "nat_of (rshift_loop k (x # y # a)) = unat x div 2 ^ k + z mod 2 ^ k * 2 ^ (64 - k) + 2 ^ 64 * (z div 2 ^ k)"
    by (simp only: rshift_loop.simps nat_of.simps o u i)
  also have "\<dots> = unat x div 2 ^ k + 2 ^ (64 - k) * z"
  proof -
    have "2 ^ (64 - k) * z = 2 ^ (64 - k) * (2 ^ k * (z div 2 ^ k)) + 2 ^ (64 - k) * (z mod 2 ^ k)"
      by (simp flip: distrib_left)
    then show ?thesis unfolding p by (simp only: mult.assoc mult.commute [of "z mod 2 ^ k"] add.assoc add.commute)
  qed
  also have "\<dots> = (unat x + 2 ^ 64 * z) div 2 ^ k"
    unfolding p by (simp add: mult.assoc mult.left_commute [of _ "2 ^ k"])
  finally show ?case using i(1) by (simp add: z_def)
qed (simp_all add: drop_unat)

lemma nat_of_drop: "m \<le> length a \<Longrightarrow> nat_of (drop m a) = nat_of a div base m"
  using nat_of_split [of m a] nat_of_less [of "take m a"] by simp

lemma bn_rshift_words_value:
  "length (bn_rshift_words a n) = length a \<and> nat_of (bn_rshift_words a n) = nat_of a div 2 ^ n"
proof -
  let ?k = "n mod 64" and ?w = "n div 64"
  have n: "(2 :: nat) ^ n = base ?w * 2 ^ ?k" by (simp flip: power_add)
  show ?thesis
  proof (cases "length a \<le> ?w")
    case True
    have "nat_of a < base (length a)" by (rule nat_of_less)
    also have "base (length a) \<le> 2 ^ n" using True by (intro power_increasing) simp_all
    finally show ?thesis using True by (simp add: bn_rshift_words_def)
  next
    case False
    have d: "nat_of (drop ?w a) div 2 ^ ?k = nat_of a div 2 ^ n"
      using False by (simp add: nat_of_drop n div_mult2_eq)
    show ?thesis
    proof (cases "?k = 0")
      case True
      then show ?thesis using False d by (simp add: bn_rshift_words_def nat_of_append Let_def)
    next
      case k: False
      have "length (rshift_loop ?k (drop ?w a)) = length (drop ?w a) \<and>
        nat_of (rshift_loop ?k (drop ?w a)) = nat_of (drop ?w a) div 2 ^ ?k"
        using k by (intro rshift_loop_value) simp_all
      then show ?thesis using False k d by (simp add: bn_rshift_words_def nat_of_append Let_def)
    qed
  qed
qed

lemma bn_rshift1_words_value: "length (bn_rshift1_words a) = length a \<and> nat_of (bn_rshift1_words a) = nat_of a div 2"
  using rshift_loop_value [of 1 a] by (simp add: bn_rshift1_words_def)

section \<open>Numbers\<close>

text \<open>A result of \<open>w\<close> words is stored and its width made minimal.\<close>

lemma finish_result:
  assumes "only r s s1" and "bn_ok (num s1 r)" and "take w (words (num s1 r)) = ws" and "w \<le> length (words (num s1 r))"
    and "x = (if neg (num s1 r) then - int (nat_of ws) else int (nat_of ws))" and "\<not> cannot_grow m s r n"
  shows "leaves m r n x s (Some (True, bn_set_minimal_width r (set_width r w s1)))"
proof -
  let ?s = "set_width r w s1"
  have ok: "bn_ok (num ?s r)" using assms(2,4) by (simp add: bn_ok_def)
  have v: "bn_val (num ?s r) = x" using assms(3,5) by (simp add: bn_val_def magnitude_def used_words_def)
  have "only r s (bn_set_minimal_width r ?s)" by (rule only_trans [OF only_trans [OF assms(1) only_set(2)] only_set(4)])
  then show ?thesis using set_minimal_width(1,2) [OF ok] set_minimal_width_val [OF ok] v assms(6) by (simp add: leaves_def)
qed

lemma BN_lshift_leaves:
  assumes "bn_malloc_ok m" "bn_ok (num s r)" "bn_ok (num s a)" and "0 \<le> n"
  shows "leaves m r (width (num s a) + nat n div 64 + 1) (bn_val (num s a) * 2 ^ nat n) s (BN_lshift m r a n s)"
proof -
  let ?w = "width (num s a)" and ?nw = "nat n div 64" and ?k = "nat n mod 64" and ?f = "used_words (num s a)"
  let ?s0 = "set_neg r (neg (num s a)) s"
  have ok0: "bn_ok (num ?s0 r)" using assms(2) by simp
  have a0: "width (num ?s0 a) = ?w" "used_words (num ?s0 a) = ?f" "bn_ok (num ?s0 a)" "neg (num ?s0 r) = neg (num s a)"
    using assms(3) by auto
  have n: "\<not> n < 0" using assms(4) by simp
  show ?thesis
  proof (rule wexpand_all [OF ok0 assms(1), of "?w + ?nw + 1"])
    fix s1 assume s1: "bn_wexpand m r (?w + ?nw + 1) ?s0 = Some (False, s1)" "num s1 = num ?s0" "only r ?s0 s1"
      "cannot_grow m ?s0 r (?w + ?nw + 1)"
    have "only r s s1" by (rule only_trans [OF only_set(3) s1(3)])
    moreover have "BN_lshift m r a n s = Some (False, s1)"
      unfolding BN_lshift_def if_not_P [OF n] Let_def a0(1) using s1(1) by simp
    ultimately show ?thesis using s1(2,4) assms(2) by (simp add: leaves_def)
  next
    fix s1 assume s1: "bn_wexpand m r (?w + ?nw + 1) ?s0 = Some (True, s1)" "only r ?s0 s1"
      "?w + ?nw + 1 \<le> length (words (num s1 r))"
      and g: "\<And>x. bn_ok (num ?s0 x) \<Longrightarrow> grown (num ?s0 x) (num s1 x) 0" and room: "\<not> cannot_grow m ?s0 r (?w + ?nw + 1)"
    have l: "length ?f = ?w" by (rule length_used [OF assms(3)])
    have wa: "width (num s1 a) = ?w" using g [OF a0(3)] by (simp add: grown_def a0)
    have ra: "read_words a 0 ?w s1 = Some ?f" using read_grown [OF g [OF a0(3)] a0(3)] by (simp only: a0)
    let ?L = "lshift_words ?k ?f"
    note v = lshift_words_value [of ?k ?f, OF mod_less_divisor, simplified l, simplified]
    let ?W = "words (num s1 r)"
    let ?s2 = "set_words r (take ?nw ?W @ ?L @ drop (?nw + length ?L) ?W) s1"
    have w1: "write_words r ?nw ?L s1 = Some ?s2" by (rule write_words_ok) (use s1(3) v in simp)
    let ?W3 = "replicate ?nw 0 @ ?L @ drop (?nw + length ?L) ?W"
    have w2: "write_words r 0 (replicate ?nw 0) ?s2 = Some (set_words r ?W3 ?s2)"
      using write_words_ok [of 0 "replicate ?nw 0" ?s2 r] s1(3) by simp
    let ?s3 = "set_words r ?W3 ?s2"
    have o: "only r s ?s3"
      by (rule only_trans [OF only_trans [OF only_trans [OF only_set(3) s1(2)] only_set(1)] only_set(1)])
    have gr: "grown (num ?s0 r) (num s1 r) 0" by (rule g [OF ok0])
    have len: "length ?W3 = length ?W" using s1(3) v by simp
    have ok3: "bn_ok (num ?s3 r)" using gr len by (simp add: grown_def bn_ok_def)
    have ng: "neg (num ?s3 r) = neg (num s a)" using gr by (simp add: grown_def)
    have t: "take (?w + ?nw + 1) ?W3 = replicate ?nw 0 @ ?L" using v by simp
    have "(2 :: nat) ^ nat n = base ?nw * 2 ^ ?k" by (simp flip: power_add)
    then have val: "nat_of (replicate ?nw 0 @ ?L) = magnitude (num s a) * 2 ^ nat n"
      using v by (simp add: nat_of_append magnitude_def)
    have w3: "words (num ?s3 r) = ?W3" by simp
    have tk: "take (?w + ?nw + 1) (words (num ?s3 r)) = replicate ?nw 0 @ ?L" unfolding w3 by (rule t)
    have lw: "?w + ?nw + 1 \<le> length (words (num ?s3 r))" unfolding w3 len by (rule s1(3))
    have x: "bn_val (num s a) * 2 ^ nat n = (if neg (num ?s3 r) then - int (nat_of (replicate ?nw 0 @ ?L))
        else int (nat_of (replicate ?nw 0 @ ?L)))"
      unfolding ng val bn_val_def by simp
    have "leaves m r (?w + ?nw + 1) (bn_val (num s a) * 2 ^ nat n) s
      (Some (True, bn_set_minimal_width r (set_width r (?w + ?nw + 1) ?s3)))"
      by (rule finish_result [OF o ok3 tk lw x room [unfolded cannot_grow_set_neg]])
    moreover have "BN_lshift m r a n s = Some (True, bn_set_minimal_width r (set_width r (?w + ?nw + 1) ?s3))"
      unfolding BN_lshift_def if_not_P [OF n] Let_def a0(1) using s1(1) ra w1 w2 by (simp add: wa)
    ultimately show ?thesis by simp
  qed
qed

lemma rshift_into_leaves:
  assumes "bn_malloc_ok m" "bn_ok (num s r)" "bn_ok (num s a)"
    and "length (f (used_words (num s a))) = width (num s a)" and "nat_of (f (used_words (num s a))) = v"
  shows "leaves m r (width (num s a)) (if neg (num s a) then - int v else int v) s (rshift_into m r a f s)"
proof -
  let ?w = "width (num s a)" and ?f = "used_words (num s a)"
  show ?thesis
  proof (rule wexpand_all [OF assms(2,1), of ?w])
    fix s1 assume s1: "bn_wexpand m r ?w s = Some (False, s1)" "num s1 = num s" "only r s s1"
      "cannot_grow m s r ?w"
    then show ?thesis using assms(2) by (simp add: rshift_into_def leaves_def)
  next
    fix s1 assume s1: "bn_wexpand m r ?w s = Some (True, s1)" "only r s s1" "?w \<le> length (words (num s1 r))"
      and g: "\<And>x. bn_ok (num s x) \<Longrightarrow> grown (num s x) (num s1 x) 0" and room: "\<not> cannot_grow m s r ?w"
    have ra: "read_words a 0 ?w s1 = Some ?f" by (rule read_grown [OF g [OF assms(3)] assms(3)])
    have na: "neg (num s1 a) = neg (num s a)" using g [OF assms(3)] by (simp add: grown_def)
    have ok1: "bn_ok (num s1 r)" using g [OF assms(2)] by (simp add: grown_def)
    show ?thesis
    proof (rule write_result [OF ok1, of "f ?f"])
      show "length (f ?f) \<le> length (words (num s1 r))" using s1(3) assms(4) by simp
    next
      fix s2 assume s2: "write_words r 0 (f ?f) s1 = Some s2" "only r s1 s2" "take (length (f ?f)) (words (num s2 r)) = f ?f"
        "length (words (num s2 r)) = length (words (num s1 r))" "neg (num s2 r) = neg (num s1 r)" "bn_ok (num s2 r)"
      have na2: "neg (num s2 a) = neg (num s a)" using s2(2,5) na by (cases "a = r") (simp_all add: only_def)
      have o: "only r s (set_neg r (neg (num s2 a)) s2)" by (rule only_set_neg [OF only_trans [OF s1(2) s2(2)]])
      have "leaves m r ?w (if neg (num s a) then - int v else int v) s
        (Some (True, bn_set_minimal_width r (set_width r ?w (set_neg r (neg (num s2 a)) s2))))"
        using s2(3,4,6) s1(3) room assms(4,5) by (intro finish_result [OF o, where ws = "f ?f"]) (simp_all add: na2)
      then show ?thesis using s1(1) ra s2(1) by (simp add: rshift_into_def)
    qed
  qed
qed

text \<open>Division that rounds towards zero.\<close>

lemma BN_rshift_leaves:
  assumes "bn_malloc_ok m" "bn_ok (num s r)" "bn_ok (num s a)" and "0 \<le> n"
  shows "leaves m r (width (num s a)) (sgn (bn_val (num s a)) * (\<bar>bn_val (num s a)\<bar> div 2 ^ nat n)) s (BN_rshift m r a n s)"
proof -
  let ?v = "magnitude (num s a) div 2 ^ nat n"
  have "sgn (bn_val (num s a)) * (\<bar>bn_val (num s a)\<bar> div 2 ^ nat n) = (if neg (num s a) then - int ?v else int ?v)"
    by (simp add: bn_val_def sgn_if zdiv_int)
  moreover have "leaves m r (width (num s a)) (if neg (num s a) then - int ?v else int ?v) s
    (rshift_into m r a (\<lambda>as. bn_rshift_words as (nat n)) s)"
    using bn_rshift_words_value [of "used_words (num s a)" "nat n"]
    by (intro rshift_into_leaves [OF assms(1-3)]) (simp_all add: length_used [OF assms(3)] magnitude_def)
  ultimately show ?thesis using assms(4) by (simp add: BN_rshift_def)
qed

section \<open>Secret amounts\<close>

text \<open>
  The shift by a secret amount applies the bits of the amount below the length of the largest
  possible one and drops the others: \<open>7\<close> shifted by \<open>128\<close> stays \<open>7\<close>.
\<close>

lemma select_mask: "bn_select_words (0 - (of_nat k AND 1)) xs ys = (if odd k then xs else ys)" if "length xs = length ys"
proof -
  have "(of_nat k :: u64) AND 1 = (if odd k then 1 else 0)" by (auto simp: and_one_eq mod2_eq_if)
  then show ?thesis using that by (simp add: bn_select_words_value)
qed

lemma secret_shift_loop_value:
  assumes "M div 2 ^ (i + j) = 0" and "\<forall>l < j. M div 2 ^ (i + l) \<noteq> 0"
  shows "nat_of (fst (secret_shift_loop M n i r tmp)) = nat_of r div 2 ^ (n div 2 ^ i mod 2 ^ j * 2 ^ i)"
  using assms
proof (induction j arbitrary: i r tmp)
  case 0
  then show ?case by (simp add: secret_shift_loop.simps [of M n i])
next
  case (Suc j)
  let ?t = "bn_rshift_words r (2 ^ i)" and ?b = "n div 2 ^ i mod 2"
  let ?r = "bn_select_words (0 - (of_nat (n div 2 ^ i) AND 1)) ?t r"
  have "M div 2 ^ i \<noteq> 0" using Suc.prems(2) by force
  then have "secret_shift_loop M n i r tmp = secret_shift_loop M n (i + 1) ?r ?t"
    by (subst secret_shift_loop.simps) (simp add: Let_def)
  moreover have "nat_of ?r = nat_of r div 2 ^ (?b * 2 ^ i)"
  proof -
    have "?r = (if odd (n div 2 ^ i) then ?t else r)" using bn_rshift_words_value by (intro select_mask) simp
    moreover have "?b = (if odd (n div 2 ^ i) then 1 else 0)" by presburger
    ultimately show ?thesis using bn_rshift_words_value [of r "2 ^ i"] by simp
  qed
  moreover have "nat_of (fst (secret_shift_loop M n (i + 1) ?r ?t)) = nat_of ?r div 2 ^ (n div 2 ^ (i + 1) mod 2 ^ j * 2 ^ (i + 1))"
  proof (rule Suc.IH)
    show "M div 2 ^ (i + 1 + j) = 0" using Suc.prems(1) by simp
    show "\<forall>l < j. M div 2 ^ (i + 1 + l) \<noteq> 0" using Suc.prems(2) by (metis Suc_mono add_Suc_right add_Suc add.right_neutral Suc_eq_plus1)
  qed
  moreover have "n div 2 ^ i mod 2 ^ Suc j = 2 * (n div 2 ^ (i + 1) mod 2 ^ j) + ?b"
    by (simp add: mod_mult2_eq mult.commute flip: div_mult2_eq)
  ultimately show ?case by (simp add: algebra_simps power_add flip: div_mult2_eq)
qed

lemma secret_shift_loop_wraps: "nat_of (fst (secret_shift_loop 64 128 0 [7] [0])) = 7"
proof -
  have "nat_of (fst (secret_shift_loop 64 128 0 [7] [0])) = nat_of [7] div 2 ^ (128 div 2 ^ 0 mod 2 ^ 7 * 2 ^ 0)"
  proof (rule secret_shift_loop_value)
    show "\<forall>l < 7. 64 div 2 ^ (0 + l) \<noteq> (0 :: nat)"
    proof (intro allI impI)
      fix l :: nat
      assume "l < 7"
      then have "(2 :: nat) ^ l \<le> 2 ^ 6" by (intro power_increasing) simp_all
      then show "64 div 2 ^ (0 + l) \<noteq> (0 :: nat)" by (simp add: div_eq_0_iff)
    qed
  qed simp
  then show ?thesis by simp
qed

end
