(* ===== verification/BnBytes.thy ===== *)
theory BnBytes
  imports BnMulThms
begin

text \<open>Numbers and byte strings (\<open>crypto/fipsmodule/bn/bytes.c\<close>).\<close>

section \<open>Reading and writing\<close>

text \<open>The loop of \<open>BN_bin2bn\<close>: the words from the top down. \<open>m\<close> bytes are missing after the next one.\<close>

fun bin_words :: "u64 \<Rightarrow> nat \<Rightarrow> byte list \<Rightarrow> u64 list" where
  "bin_words w m (b # bs) = (let w = push_bit 8 w OR ucast b in
     if m = 0 then w # bin_words 0 7 bs else bin_words w (m - 1) bs)"
| "bin_words w m [] = []"

text \<open>With \<open>ret\<close> a null pointer a new number is made. The result is the number, or \<open>NULL\<close>.\<close>

definition BN_bin2bn :: "bn_malloc \<Rightarrow> byte list \<Rightarrow> nat option \<Rightarrow> bn_state \<Rightarrow> nat option bn_result" where
  "BN_bin2bn m bs ret s = (case (case ret of None \<Rightarrow> BN_new m s | Some r \<Rightarrow> (Some r, s)) of
     (None, s) \<Rightarrow> Some (None, s)
   | (Some r, s) \<Rightarrow>
       if bs = [] then Some (Some r, set_width r 0 s)
       else (let num_words = (length bs - 1) div 8 + 1 in do {
         (ok, s) \<leftarrow> bn_wexpand m r num_words s;
         if \<not> ok then Some (None, s)
         else do {
           check (num_words < 2 ^ 31);
           let s = set_neg r False (set_width r num_words s);
           s \<leftarrow> write_words r 0 (rev (bin_words 0 ((length bs - 1) mod 8) bs)) s;
           Some (Some r, s)
         }
       }))"

text \<open>What is stored in words when bytes are copied over them, on a little-endian machine.\<close>

fun copied_words :: "byte list \<Rightarrow> u64 list" where
  "copied_words [] = []"
| "copied_words (b # bs) = foldr (\<lambda>b w. push_bit 8 w OR ucast b) (take 8 (b # bs)) 0 # copied_words (drop 8 (b # bs))"

definition BN_le2bn :: "bn_malloc \<Rightarrow> byte list \<Rightarrow> nat option \<Rightarrow> bn_state \<Rightarrow> nat option bn_result" where
  "BN_le2bn m bs ret s = (case (case ret of None \<Rightarrow> BN_new m s | Some r \<Rightarrow> (Some r, s)) of
     (None, s) \<Rightarrow> Some (None, s)
   | (Some r, s) \<Rightarrow>
       if bs = [] then Some (Some r, set_neg r False (set_width r 0 s))
       else (let num_words = (length bs - 1) div 8 + 1 in do {
         (ok, s) \<leftarrow> bn_wexpand m r num_words s;
         if \<not> ok then Some (None, s)
         else do {
           s \<leftarrow> write_words r 0 (copied_words bs) (set_width r num_words s);
           Some (Some r, s)
         }
       }))"







definition BN_get_word :: "bignum \<Rightarrow> u64" where
  "BN_get_word b = (if bn_minimal_width b = 0 then 0 else if bn_minimal_width b = 1 then words b ! 0 else - 1)"

definition BN_get_u64 :: "bignum \<Rightarrow> u64 option" where
  "BN_get_u64 b =
     (if bn_minimal_width b = 0 then Some 0 else if bn_minimal_width b = 1 then Some (words b ! 0) else None)"

section \<open>Big-endian bytes to words\<close>





section \<open>Words to bytes\<close>


















section \<open>The properties\<close>



text \<open>
  From the empty string \<open>BN_bin2bn\<close> keeps the sign of the object: a negative zero, which \<open>BN_cmp\<close> puts
  below zero. \<open>BN_le2bn\<close> resets the sign there, but not when there are bytes.
\<close>

lemma BN_bin2bn_negative_zero:
  "\<exists>s'. BN_bin2bn calloc [] (Some 0) (heap_of [minus_number [7]]) = Some (Some 0, s') \<and>
     magnitude (num s' 0) = 0 \<and> BN_cmp (Some (num s' 0)) (Some (number [])) = - 1"
  by (simp add: BN_bin2bn_def BN_cmp_def magnitude_def used_words_def)

lemma BN_le2bn_keeps_sign:
  "\<exists>s'. BN_le2bn calloc [5] (Some 0) (heap_of [minus_number [7]]) = Some (Some 0, s') \<and> bn_val (num s' 0) = - 5"
  by (simp add: bn_run_simps BN_le2bn_def bn_val_def magnitude_def)

end
