(* ===== verification/Spec2Isabelle.thy ===== *)
theory Spec2Isabelle
  imports CbbProps Base64Stream StackProps BioThms PbThms PbDecThms PbEncThms BnSqrThms BnShiftRef BnBytes
begin

text \<open>
  A verification development for the C code of \<open>MarketAppIOS\<close>. The repository is an iOS shop
  written in Swift (\<open>src/Market/Market\<close>) with the sources of its libraries under
  \<open>src/Market/Pods\<close>. Their C part is BoringSSL (\<open>BoringSSL-GRPC\<close>), which the gRPC transport of
  Firestore runs on, and nanopb, the protocol buffer runtime of the Firebase libraries. The
  development models the layers of BoringSSL on which everything else there is built (memory,
  byte strings, containers and streams), its big numbers, and nanopb. Theories are listed from the bottom up.

  \<^bold>\<open>Conventions.\<close> A structure is a record with the fields of the C structure. \<open>size_t\<close> and
  lengths are natural numbers, with \<open>mod 2 ^ 64\<close> written out where the code relies on or guards
  against wrap-around; \<open>uint8_t\<close>, \<open>uint32_t\<close> and \<open>uint64_t\<close> are words. \<open>malloc\<close> and
  \<open>realloc\<close> are parameters (type \<open>libc\<close>), a fresh one for each call, constrained in theorems by
  \<open>malloc_ok\<close> only: a block has the requested size, and any request may be refused. Functions that
  update an object return it; a function that can read or write outside its objects, fail an
  assertion or loop forever has an \<open>option\<close> result, and \<open>None\<close> stands for that, so a
  theorem that concludes \<open>Some\<close> includes memory safety and termination. Loops without a
  structural measure are \<open>partial_function (option)\<close> or \<open>function\<close> with a termination proof. Fuel is used
  for the depth of nested messages only: \<open>pb_decode\<close> gives \<open>decode_at\<close> the length of the
  stream plus one, and \<open>pb_decode_static_safe\<close> shows that this is enough; \<open>pb_encode\<close> has the depth as
  an argument, and so has its specification \<open>message_bytes\<close>, which has no result if it is too small. The error queue (\<open>ERR_put_error\<close>) is not modelled.

  \<^bold>\<open>Memory and byte strings.\<close>
  \<^item> \<open>Prelude\<close>: machine types, byte order, word lemmas, the hint collection \<open>get_simps\<close>.
  \<^item> \<open>Mem\<close> (\<open>crypto/mem.c\<close>): size-prefixed blocks, cleansing on free, reallocation,
    \<open>CRYPTO_memcmp\<close>, the string helpers.
  \<^item> \<open>Cbs\<close>, \<open>Der\<close> (\<open>crypto/bytestring/cbs.c\<close>): every reader on a window of bytes, and the DER
    encodings (\<open>der_element\<close>, \<open>der_tag\<close>, \<open>der_len\<close>, \<open>der_uint\<close>, \<open>b128\<close>) they are proved to
    accept exactly.
  \<^item> \<open>Cbb\<close>, \<open>CbbSpec\<close>, \<open>CbbProps\<close> (\<open>crypto/bytestring/cbb.c\<close>, \<open>asn1_compat.c\<close>): the buffer shared
    by a chain of open children, and the simulation of a stack machine in which a
    length prefix is written when a child is closed.
  \<^item> \<open>Codec\<close>: the interface of exact readers (locale \<open>codec\<close>), interpreted on five of them.
  \<^item> \<open>Oid\<close>: text and contents octets of object identifiers. \<open>Qsort\<close>, \<open>SetOf\<close>: comparison functions
    as \<open>qsort\<close> and \<open>bsearch\<close> require them (locales \<open>comparator\<close>, \<open>strict_comparator\<close>) and the
    sorting of SET OF.
  \<^item> \<open>ConstTime\<close>, \<open>Base64\<close>, \<open>Base64Spec\<close>, \<open>Base64Stream\<close> (\<open>crypto/internal.h\<close>,
    \<open>crypto/base64/base64.c\<close>): constant-time selection and the codec built on it, block and
    streaming.

  \<^bold>\<open>Containers.\<close>
  \<^item> \<open>Stack\<close>, \<open>StackSpec\<close>, \<open>StackProps\<close> (\<open>crypto/stack/stack.c\<close>): the pointer array against an
    abstract step relation \<open>sp_step\<close> on lists with a sorted flag (locale \<open>sign_comparator\<close>).
  \<^item> \<open>Lhash\<close>, \<open>LhashSpec\<close>, \<open>LhashIter\<close> (\<open>crypto/lhash/lhash.c\<close>): chained buckets against partial
    maps on classes of equal elements; locale \<open>hashing\<close> (what the callbacks owe the table)
    provides locale \<open>table\<close> (what the table owes its clients).
  \<^item> \<open>Pool\<close>, \<open>PoolProps\<close>, \<open>TableProps\<close> (\<open>crypto/pool/pool.c\<close>, \<open>refcount_lock.c\<close>): the interning pool
    as a client of the table. \<open>pool_step\<close> interleaves the critical sections of any number of
    threads; the invariant counts the references held.

  \<^bold>\<open>Streams.\<close>
  \<^item> \<open>Buf\<close> (\<open>crypto/buf/buf.c\<close>): growable blocks.
  \<^item> \<open>Bio\<close>, \<open>BioApi\<close> (\<open>crypto/bio/pair.c\<close>, \<open>bio_mem.c\<close>, \<open>bio.c\<close>): a heap of \<open>BIO\<close> objects with explicit
    addresses, the two methods that keep their data in memory, dispatch, chains, reference
    counts, and the loops built on \<open>BIO_read\<close> and \<open>BIO_write\<close>.
  \<^item> \<open>Ring\<close> (locale \<open>fifo\<close>), \<open>BioWorld\<close>, \<open>BioPair\<close>, \<open>BioMem\<close>, \<open>BioSafe\<close>, \<open>BioHeap\<close>: the ring buffer as
    a queue, the heap invariant, and its preservation by every operation.
  \<^item> \<open>BioAsn1\<close> (locale \<open>source\<close>), \<open>BioProps\<close>, \<open>BioThms\<close>: \<open>BIO_read_asn1\<close> proved over any lawful source,
    reachable heaps, the two-queue specification machine, the properties.

  \<^bold>\<open>Protocol buffers (nanopb).\<close>
  \<^item> \<open>PbIn\<close>, \<open>PbOut\<close> (\<open>pb_decode.c\<close>, \<open>pb_encode.c\<close>): input and output streams over buffers and
    callbacks, varints, tags, fixed-size values, skipping, substreams.
  \<^item> \<open>PbWire\<close>, \<open>PbRead\<close>, \<open>PbWrite\<close>, \<open>PbRound\<close>, \<open>PbThms\<close>: the wire format, lawful streams (locales
    \<open>wire_source\<close> and \<open>wire_sink\<close>, interpreted on buffers, custom callbacks and sizing streams), the
    round trip of sequences of values and the exact domains of the two varint readers.
  \<^item> \<open>PbField\<close> (\<open>pb_common.c\<close>, \<open>pb.h\<close>): field descriptors, the iterator, and a memory of byte cells
    with addresses and allocated blocks, in which the structures of messages live.
  \<^item> \<open>PbDec\<close>, \<open>PbMsg\<close> (\<open>pb_decode.c\<close>): decoders of values, default values, release of allocated
    fields, static, pointer and callback fields, unions, and the loop over the fields of a message.
  \<^item> \<open>PbLaw\<close>, \<open>PbFrame\<close>, \<open>PbStatic\<close>, \<open>PbWf\<close>, \<open>PbSafe\<close>, \<open>PbDecThms\<close>: readers return on lawful
    streams, decoders stay within a set of cells, the iterator cycles through its positions, and
    decoding of well-formed static messages is safe; four executions outside that class in which
    the code goes wrong.
  \<^item> \<open>PbEnc\<close> (\<open>pb_encode.c\<close>): encoders of values, arrays, fields and messages; \<open>PbEncSpec\<close>,
    \<open>PbEncRef\<close>, \<open>PbEncThms\<close>: the bytes of the message that a structure in memory denotes, streams that
    submessages can be written to (locale \<open>message_sink\<close>, an extension of \<open>wire_sink\<close>), and the proof
    that the encoder writes those bytes.

  \<^bold>\<open>Big numbers (\<open>crypto/fipsmodule/bn\<close>).\<close> Words have 64 bits and double words 128; an array is a list
  of words, whose number is \<open>nat_of\<close>.
  \<^item> \<open>BnWords\<close>, \<open>BnNat\<close>, \<open>BnComba\<close> (\<open>generic.c\<close>): the loops over arrays and the unrolled products, and
    the numbers they compute.
  \<^item> \<open>BnMul\<close>, \<open>BnMulRef\<close>, \<open>BnMulPart\<close> (\<open>mul.c\<close>): schoolbook and Karatsuba products and squares in
    a scratch array, and their exactness.
  \<^item> \<open>Bn\<close>, \<open>BnState\<close>, \<open>BnBits\<close> (\<open>bn.c\<close>): objects in a heap with addresses, so that arguments may be
    the same object; \<open>bn_val\<close> is the integer of an object.
  \<^item> \<open>BnAdd\<close>, \<open>BnAddRef\<close>, \<open>BnAddThms\<close> (\<open>add.c\<close>, \<open>cmp.c\<close>): comparison, addition, subtraction.
  \<^item> \<open>BnCtx\<close>, \<open>BnCtxRef\<close>, \<open>BnMulThms\<close>, \<open>BnSqrThms\<close> (\<open>ctx.c\<close>, \<open>mul.c\<close>): frames of temporaries, which
    are never numbers in use, and the multiplication and squaring of numbers.
  \<^item> \<open>BnShift\<close>, \<open>BnShiftRef\<close> (\<open>shift.c\<close>): shifts and single bits.
  \<^item> \<open>BnBytes\<close> (\<open>bytes.c\<close>): numbers from and to byte strings.

  \<^bold>\<open>What the properties show.\<close> Writers refine specifications that know nothing of buffers
  (\<open>cbb_run_refines\<close>, \<open>pair_refines_queues\<close>); readers accept exactly an encoding and
  move nothing on failure (\<open>CBS_get_any_asn1_exact\<close>, \<open>BIO_read_asn1_exact\<close>); containers
  agree with their mathematical models over every history (\<open>sk_run_refines\<close>,
  \<open>lh_history_refines_map\<close>); invariants of the shared structures hold in every reachable state
  (\<open>pool_release_safe\<close>, \<open>BIO_operations_defined\<close>); what is written is read back
  (\<open>CBB_CBS_roundtrip\<close>, \<open>base64_stream_roundtrip\<close>, \<open>oid_text_roundtrip\<close>, \<open>pb_wire_roundtrip\<close>);
  a decoder of untrusted bytes terminates within its structure (\<open>pb_decode_static_safe\<close>), and the
  encoder writes the message the structure denotes (\<open>pb_encode_exact\<close>); arithmetic on arrays of
  words is arithmetic on integers (\<open>BN_mul_exact\<close>, \<open>BN_add_exact\<close>).

  \<^bold>\<open>Not modelled.\<close> The Swift, Objective-C and C++ code; generated tables; input and output through
  the operating system (\<open>bio/file.c\<close>, \<open>fd.c\<close>, \<open>socket.c\<close>, \<open>connect.c\<close>); application-defined
  \<open>BIO\<close> methods; extension fields of nanopb, which are objects of the application; cryptographic primitives and the number theory on
  top of the big numbers; X.509 and the
  template-driven ASN.1 code.
\<close>

end
